(* ===== verification/Prelude.thy ===== *)
theory Prelude
  imports Main "HOL-Library.Word" "HOL-Library.AList" "HOL-Library.Multiset"
begin

text \<open>
  Shared vocabulary of the development.

  \<^item> Fallible Rust code (\<open>Result<T, E>\<close>) is a sum \<open>'e + 'a\<close>: \<open>Inl\<close> is the error, \<open>Inr\<close>
    the value; \<open>bindE\<close> is the \<open>?\<close> operator.
  \<^item> Signed machine integers (\<open>i64\<close>, \<open>i128\<close>) are \<open>int\<close> with their range written out:
    \<open>in_i64\<close>, the checked operations (\<open>None\<close> on overflow), the saturating ones and
    \<open>wrap128\<close>, the two's complement wrap of an \<open>i128\<close> in a release build.
  \<^item> Unsigned counts and indices (\<open>u32\<close>, \<open>usize\<close>) are \<open>nat\<close>; the narrowing cast
    \<open>as u32\<close> is \<open>as_u32\<close>.
  \<^item> A Rust \<open>String\<close> is a \<open>string\<close>, the list of its UTF-8 bytes; a byte is a \<open>char\<close>.
  \<^item> A \<open>HashMap\<close> that the code iterates is an association list with distinct keys (updated
    with \<open>AList.update\<close> and \<open>AList.delete\<close>); one that is only looked up is a map
    \<open>'k \<rightharpoonup> 'v\<close>.
\<close>

named_theorems model_simps \<open>characteristic equations of the modelled operations\<close>
named_theorems wf_intros \<open>well-formedness is preserved by an operation\<close>

section \<open>Results\<close>

fun bindE :: "'e + 'a \<Rightarrow> ('a \<Rightarrow> 'e + 'b) \<Rightarrow> 'e + 'b" where
  "bindE (Inl e) f = Inl e"
| "bindE (Inr x) f = f x"

fun map_err :: "('e \<Rightarrow> 'f) \<Rightarrow> 'e + 'a \<Rightarrow> 'f + 'a" where
  "map_err g (Inl e) = Inl (g e)"
| "map_err g (Inr x) = Inr x"

fun ok_or :: "'e \<Rightarrow> 'a option \<Rightarrow> 'e + 'a" where
  "ok_or e None = Inl e"
| "ok_or e (Some x) = Inr x"

lemma bindE_eq_Inr [simp]: "bindE m f = Inr y \<longleftrightarrow> (\<exists>x. m = Inr x \<and> f x = Inr y)"
  by (cases m) auto

lemma bindE_eq_Inl: "bindE m f = Inl e \<longleftrightarrow> m = Inl e \<or> (\<exists>x. m = Inr x \<and> f x = Inl e)"
  by (cases m) auto

lemma bindE_Inr_right [simp]: "bindE m Inr = m"
  by (cases m) auto

lemma bindE_assoc: "bindE (bindE m f) g = bindE m (\<lambda>x. bindE (f x) g)"
  by (cases m) auto

lemma bindE_cong [fundef_cong]:
  "m = m' \<Longrightarrow> (\<And>x. m' = Inr x \<Longrightarrow> f x = f' x) \<Longrightarrow> bindE m f = bindE m' f'"
  by (cases m') auto

lemma ok_or_eq_Inr [simp]: "ok_or e m = Inr x \<longleftrightarrow> m = Some x"
  by (cases m) auto

lemma ok_or_eq_Inl [simp]: "ok_or e m = Inl e' \<longleftrightarrow> m = None \<and> e = e'"
  by (cases m) auto

lemma map_err_eq_Inr [simp]: "map_err g m = Inr x \<longleftrightarrow> m = Inr x"
  by (cases m) auto

lemma map_err_eq_Inl [simp]: "map_err g m = Inl e \<longleftrightarrow> (\<exists>e'. m = Inl e' \<and> e = g e')"
  by (cases m) auto

section \<open>Machine integers\<close>

definition i64_max :: int where "i64_max = 9223372036854775807"
definition i64_min :: int where "i64_min = - 9223372036854775808"
definition u32_max :: nat where "u32_max = 4294967295"
definition u64_max :: nat where "u64_max = 18446744073709551615"

definition in_i64 :: "int \<Rightarrow> bool" where
  "in_i64 x \<longleftrightarrow> i64_min \<le> x \<and> x \<le> i64_max"

definition checked_i64 :: "int \<Rightarrow> int option" where
  "checked_i64 x = (if in_i64 x then Some x else None)"

definition sat_i64 :: "int \<Rightarrow> int" where
  "sat_i64 x = (if x < i64_min then i64_min else if i64_max < x then i64_max else x)"

definition wrap128 :: "int \<Rightarrow> int" where
  "wrap128 x = (x + 2 ^ 127) mod 2 ^ 128 - 2 ^ 127"

definition as_u32 :: "nat \<Rightarrow> nat" where
  "as_u32 n = n mod 4294967296"

definition sat_u64 :: "nat \<Rightarrow> nat" where
  "sat_u64 n = min n u64_max"

text \<open>Multiplication of \<open>usize\<close> counts, saturating and checked.\<close>

definition checked_usize :: "nat \<Rightarrow> nat option" where
  "checked_usize n = (if n \<le> u64_max then Some n else None)"

lemma as_u32_id [simp]: "n \<le> u32_max \<Longrightarrow> as_u32 n = n"
  by (simp add: as_u32_def u32_max_def)

lemma in_i64_0 [simp]: "in_i64 0" and in_i64_1 [simp]: "in_i64 1"
  by (simp_all add: in_i64_def i64_min_def i64_max_def)

lemma in_i64_sat [simp]: "in_i64 (sat_i64 x)"
  by (simp add: in_i64_def sat_i64_def i64_min_def i64_max_def)

lemma sat_i64_id [simp]: "in_i64 x \<Longrightarrow> sat_i64 x = x"
  by (simp add: in_i64_def sat_i64_def)

lemma checked_i64_eq_Some [simp]: "checked_i64 x = Some y \<longleftrightarrow> in_i64 x \<and> y = x"
  by (auto simp: checked_i64_def)

lemma checked_i64_eq_None [simp]: "checked_i64 x = None \<longleftrightarrow> \<not> in_i64 x"
  by (simp add: checked_i64_def)

lemma wrap128_mod: "wrap128 x mod 2 ^ 128 = x mod 2 ^ 128"
  unfolding wrap128_def by (simp add: mod_diff_left_eq)

lemma wrap128_eqI: "x mod 2 ^ 128 = y mod 2 ^ 128 \<Longrightarrow> wrap128 x = wrap128 y"
  unfolding wrap128_def by (metis mod_add_left_eq)

lemma wrap128_id: "- (2 ^ 127) \<le> x \<Longrightarrow> x < 2 ^ 127 \<Longrightarrow> wrap128 x = x"
  unfolding wrap128_def by (subst mod_pos_pos_trivial) simp_all

lemma wrap128_add_left [simp]: "wrap128 (wrap128 x + y) = wrap128 (x + y)"
  by (rule wrap128_eqI) (metis wrap128_mod mod_add_left_eq)

lemma wrap128_add_right [simp]: "wrap128 (x + wrap128 y) = wrap128 (x + y)"
  by (metis wrap128_add_left add.commute)

lemma wrap128_mult_left [simp]: "wrap128 (wrap128 x * y) = wrap128 (x * y)"
  by (rule wrap128_eqI) (metis wrap128_mod mod_mult_left_eq)

lemma wrap128_mult_right [simp]: "wrap128 (x * wrap128 y) = wrap128 (x * y)"
  by (metis wrap128_mult_left mult.commute)

lemma wrap128_wrap128 [simp]: "wrap128 (wrap128 x) = wrap128 x"
  using wrap128_add_left [of x 0] by simp

lemma in_i64_wrap128 [simp]: "in_i64 x \<Longrightarrow> wrap128 x = x"
  by (rule wrap128_id) (simp_all add: in_i64_def i64_min_def i64_max_def)

text \<open>Division truncates towards zero (\<open>/\<close>), the remainder has the sign of the dividend
  (\<open>%\<close>), and \<open>i64\<close> arithmetic wraps in a release build.\<close>

definition tdiv :: "int \<Rightarrow> int \<Rightarrow> int" where
  "tdiv a b = sgn a * sgn b * (\<bar>a\<bar> div \<bar>b\<bar>)"

definition trem :: "int \<Rightarrow> int \<Rightarrow> int" where
  "trem a b = a - tdiv a b * b"

definition wrap64 :: "int \<Rightarrow> int" where
  "wrap64 x = (x + 2 ^ 63) mod 2 ^ 64 - 2 ^ 63"

lemma wrap64_id [simp]: "in_i64 x \<Longrightarrow> wrap64 x = x"
  unfolding wrap64_def in_i64_def i64_min_def i64_max_def by (subst mod_pos_pos_trivial) simp_all

text \<open>The quotient times the divisor lies between zero and the dividend, less than one divisor
  away from it.\<close>

lemma tdiv_mult_bound:
  assumes "b \<noteq> 0"
  shows "\<bar>a - tdiv a b * b\<bar> < \<bar>b\<bar>" "\<bar>tdiv a b * b\<bar> \<le> \<bar>a\<bar>"
    "0 \<le> a \<Longrightarrow> 0 \<le> tdiv a b * b" "a \<le> 0 \<Longrightarrow> tdiv a b * b \<le> 0"
proof -
  define k where "k = \<bar>a\<bar> div \<bar>b\<bar> * \<bar>b\<bar>"
  have "\<bar>a\<bar> = k + \<bar>a\<bar> mod \<bar>b\<bar>" by (simp add: k_def)
  moreover have "0 \<le> \<bar>a\<bar> mod \<bar>b\<bar>" "\<bar>a\<bar> mod \<bar>b\<bar> < \<bar>b\<bar>" using assms by simp_all
  moreover have "0 \<le> k" by (simp add: k_def pos_imp_zdiv_nonneg_iff assms)
  ultimately have k: "0 \<le> k" "k \<le> \<bar>a\<bar>" "\<bar>a\<bar> - k < \<bar>b\<bar>" by linarith+
  have tb: "tdiv a b * b = sgn a * k"
    by (simp add: tdiv_def abs_sgn k_def algebra_simps)
  show "\<bar>a - tdiv a b * b\<bar> < \<bar>b\<bar>" "\<bar>tdiv a b * b\<bar> \<le> \<bar>a\<bar>"
    "0 \<le> a \<Longrightarrow> 0 \<le> tdiv a b * b" "a \<le> 0 \<Longrightarrow> tdiv a b * b \<le> 0"
    using k assms unfolding tb by (cases "0 < a"; cases "a = 0"; simp)+
qed

section \<open>Lists\<close>

text \<open>The position of the first element satisfying a predicate (\<open>Iterator::position\<close>).\<close>

fun position :: "('a \<Rightarrow> bool) \<Rightarrow> 'a list \<Rightarrow> nat option" where
  "position P [] = None"
| "position P (x # xs) = (if P x then Some 0 else map_option Suc (position P xs))"

lemma position_SomeD: "position P xs = Some i \<Longrightarrow> i < length xs \<and> P (xs ! i)"
  by (induction xs arbitrary: i) (auto split: if_splits)

lemma position_first: "position P xs = Some i \<Longrightarrow> j < i \<Longrightarrow> \<not> P (xs ! j)"
proof (induction xs arbitrary: i j)
  case (Cons x xs)
  then show ?case by (cases j) (auto split: if_splits)
qed simp

lemma position_None: "position P xs = None \<longleftrightarrow> (\<forall>x \<in> set xs. \<not> P x)"
  by (induction xs) auto

lemma position_snoc:
  "position P (xs @ [x]) =
     (case position P xs of Some i \<Rightarrow> Some i | None \<Rightarrow> if P x then Some (length xs) else None)"
  by (induction xs) (auto split: option.splits)

lemma position_unique:
  assumes "i < length xs" and "P (xs ! i)" and "\<And>j. j < length xs \<Longrightarrow> P (xs ! j) \<Longrightarrow> j = i"
  shows "position P xs = Some i"
  using assms by (metis not_None_eq nth_mem position_None position_SomeD)

lemma position_map_distinct:
  "distinct (map f xs) \<Longrightarrow> i < length xs \<Longrightarrow> position (\<lambda>x. f x = f (xs ! i)) xs = Some i"
  by (rule position_unique) (auto simp: distinct_conv_nth)

text \<open>A loop that writes item \<open>k\<close> to slot \<open>is ! k\<close> of a buffer.\<close>

definition scatter :: "('a \<Rightarrow> 'b) \<Rightarrow> 'b list \<Rightarrow> 'a list \<Rightarrow> nat list \<Rightarrow> 'b list" where
  "scatter f buf xs is = foldl (\<lambda>acc (x, i). acc[i := f x]) buf (zip xs is)"

lemma length_scatter [simp]: "length (scatter f buf xs is) = length buf"
proof -
  have "length (foldl (\<lambda>acc (x, i). acc[i := f x]) buf ps) = length buf" for ps
    by (induction ps arbitrary: buf) auto
  then show ?thesis by (simp add: scatter_def)
qed

lemma scatter_nth:
  assumes "length xs = length is" and "distinct is" and "\<forall>i \<in> set is. i < length buf"
  shows "(\<forall>k < length is. scatter f buf xs is ! (is ! k) = f (xs ! k)) \<and>
         (\<forall>j. j \<notin> set is \<longrightarrow> scatter f buf xs is ! j = buf ! j)"
  using assms
proof (induction xs "is" arbitrary: buf rule: list_induct2)
  case Nil
  then show ?case by (simp add: scatter_def)
next
  case (Cons x xs i ks)
  have eq: "scatter f buf (x # xs) (i # ks) = scatter f (buf[i := f x]) xs ks"
    by (simp add: scatter_def)
  have IH: "(\<forall>k < length ks. scatter f (buf[i := f x]) xs ks ! (ks ! k) = f (xs ! k)) \<and>
         (\<forall>j. j \<notin> set ks \<longrightarrow> scatter f (buf[i := f x]) xs ks ! j = buf[i := f x] ! j)"
    by (rule Cons.IH) (use Cons.prems in auto)
  with Cons.prems show ?case unfolding eq by (auto simp: nth_Cons' less_Suc_eq_0_disj)
qed

text \<open>\<open>Vec::remove\<close> and \<open>Vec::insert\<close>.\<close>

definition remove_at :: "nat \<Rightarrow> 'a list \<Rightarrow> 'a list" where
  "remove_at i xs = take i xs @ drop (Suc i) xs"

definition insert_at_pos :: "nat \<Rightarrow> 'a \<Rightarrow> 'a list \<Rightarrow> 'a list" where
  "insert_at_pos i x xs = take i xs @ x # drop i xs"

lemma length_remove_at [simp]: "i < length xs \<Longrightarrow> length (remove_at i xs) = length xs - 1"
  by (simp add: remove_at_def)

lemma length_insert_at_pos [simp]: "i \<le> length xs \<Longrightarrow> length (insert_at_pos i x xs) = Suc (length xs)"
  by (simp add: insert_at_pos_def)

lemma nth_remove_at:
  "i < length xs \<Longrightarrow> j < length xs - 1 \<Longrightarrow>
   remove_at i xs ! j = (if j < i then xs ! j else xs ! Suc j)"
  by (auto simp: remove_at_def nth_append)

lemma nth_insert_at_pos:
  "i \<le> length xs \<Longrightarrow> j \<le> length xs \<Longrightarrow>
   insert_at_pos i x xs ! j = (if j < i then xs ! j else if j = i then x else xs ! (j - 1))"
  by (auto simp: insert_at_pos_def nth_append min_def nth_Cons' Suc_diff_le)

lemma set_insert_at_pos [simp]: "set (insert_at_pos i x xs) = insert x (set xs)"
proof -
  have "set (insert_at_pos i x xs) = insert x (set (take i xs) \<union> set (drop i xs))"
    by (simp add: insert_at_pos_def)
  then show ?thesis by (metis append_take_drop_id set_append)
qed

text \<open>Visiting a fresh node shrinks what a traversal has left (the termination measures).\<close>

lemma card_unvisited:
  assumes "\<not> (n::nat) \<le> i" and "i \<notin> set seen"
  shows "card ({..<n} - insert i (set seen)) < card ({..<n} - set seen)"
proof (rule psubset_card_mono)
  have "i \<in> {..<n} - set seen" using assms by simp
  then show "{..<n} - insert i (set seen) \<subset> {..<n} - set seen" by blast
qed simp

text \<open>Lexicographic comparison of \<open>String\<close>s, byte by byte (\<open>Ord for str\<close>).\<close>

fun str_less :: "string \<Rightarrow> string \<Rightarrow> bool" where
  "str_less _ [] = False"
| "str_less [] (y # ys) = True"
| "str_less (x # xs) (y # ys) =
     (of_char x < (of_char y :: nat) \<or> x = y \<and> str_less xs ys)"

definition str_le :: "string \<Rightarrow> string \<Rightarrow> bool" where
  "str_le xs ys \<longleftrightarrow> xs = ys \<or> str_less xs ys"

lemma str_less_irrefl [simp]: "\<not> str_less xs xs"
  by (induction xs) auto

lemma str_less_trans: "str_less xs ys \<Longrightarrow> str_less ys zs \<Longrightarrow> str_less xs zs"
proof (induction xs ys arbitrary: zs rule: str_less.induct)
  case (3 x xs y ys)
  then show ?case by (cases zs) auto
next
  case (2 y ys)
  then show ?case by (cases zs) auto
qed auto

lemma str_less_linear: "str_less xs ys \<or> xs = ys \<or> str_less ys xs"
proof (induction xs ys rule: str_less.induct)
  case (3 x xs y ys)
  have "of_char x < (of_char y :: nat) \<or> of_char x = (of_char y :: nat) \<or> of_char y < (of_char x :: nat)"
    by arith
  with 3 show ?case by auto
next
  case (1 xs)
  then show ?case by (cases xs) auto
qed auto

end
