(* ===== verification/Rust_String.thy ===== *)
theory Rust_String
  imports Prelude
begin

text \<open>
  The parts of Rust's \<open>str\<close> and integer formatting the program uses, over the UTF-8 bytes of
  a string: \<open>trim\<close>, \<open>split_once\<close>, \<open>strip_prefix\<close>, decimal formatting and parsing of
  unsigned numbers, ASCII case folding. These are the language's standard library, written out
  because the parsers and printers of the program rest on them.
\<close>

definition byte :: "char \<Rightarrow> nat" where
  "byte c = of_char c"

definition chr :: "nat \<Rightarrow> char" where
  "chr n = char_of n"

lemma byte_chr [simp]: "n < 256 \<Longrightarrow> byte (chr n) = n"
  by (simp add: byte_def chr_def)

lemma chr_byte [simp]: "chr (byte c) = c"
  by (simp add: byte_def chr_def)

lemma byte_less [simp]: "byte c < 256"
  by (simp add: byte_def)

lemma byte_inject [simp]: "byte c = byte d \<longleftrightarrow> c = d"
  by (metis chr_byte)

section \<open>White space and trimming\<close>

text \<open>
  The number of bytes of the \<open>White_Space\<close> character a string starts with, 0 for none: one
  byte for the ASCII ones, two for U+0085 and U+00A0, three for the rest.
\<close>

fun ws_head :: "nat list \<Rightarrow> nat" where
  "ws_head (a # b # c # r) =
     (if a = 32 \<or> 9 \<le> a \<and> a \<le> 13 then 1
      else if a = 194 \<and> (b = 133 \<or> b = 160) then 2
      else if a = 225 \<and> b = 154 \<and> c = 128 then 3
      else if a = 226 \<and> b = 128 \<and> (128 \<le> c \<and> c \<le> 138 \<or> c = 168 \<or> c = 169 \<or> c = 175) then 3
      else if a = 226 \<and> b = 129 \<and> c = 159 then 3
      else if a = 227 \<and> b = 128 \<and> c = 128 then 3
      else 0)"
| "ws_head [a, b] =
     (if a = 32 \<or> 9 \<le> a \<and> a \<le> 13 then 1
      else if a = 194 \<and> (b = 133 \<or> b = 160) then 2 else 0)"
| "ws_head [a] = (if a = 32 \<or> 9 \<le> a \<and> a \<le> 13 then 1 else 0)"
| "ws_head [] = 0"

function trim_start :: "string \<Rightarrow> string" where
  "trim_start s =
     (let k = ws_head (map byte s)
      in if k = 0 \<or> s = [] then s else trim_start (drop k s))"
  by pat_completeness auto
termination
  by (relation "measure length") auto

declare trim_start.simps [simp del]

text \<open>Trailing white space: the last one, two or three bytes form a white space character.\<close>

definition ws_tail :: "string \<Rightarrow> nat" where
  "ws_tail s =
     (let n = length s; b = map byte s
      in if 1 \<le> n \<and> ws_head (drop (n - 1) b) = 1 then 1
         else if 2 \<le> n \<and> ws_head (drop (n - 2) b) = 2 then 2
         else if 3 \<le> n \<and> ws_head (drop (n - 3) b) = 3 then 3
         else 0)"

function trim_end :: "string \<Rightarrow> string" where
  "trim_end s =
     (let k = ws_tail s
      in if k = 0 \<or> s = [] then s else trim_end (take (length s - k) s))"
  by pat_completeness auto
termination
  by (relation "measure length") auto

declare trim_end.simps [simp del]

definition trim :: "string \<Rightarrow> string" where
  "trim s = trim_end (trim_start s)"

definition graphic :: "char \<Rightarrow> bool" where
  "graphic c \<longleftrightarrow> 33 \<le> byte c \<and> byte c < 128"

lemma ws_head_graphic: "33 \<le> a \<Longrightarrow> a < 128 \<Longrightarrow> ws_head (a # r) = 0"
  by (cases r; cases "tl r") auto

lemma trim_start_graphic: "s \<noteq> [] \<Longrightarrow> graphic (hd s) \<Longrightarrow> trim_start s = s"
  by (cases s) (auto simp: trim_start.simps ws_head_graphic graphic_def)

lemma drop_last_1: "xs \<noteq> [] \<Longrightarrow> drop (length xs - 1) xs = [last xs]"
  by (induction xs rule: rev_induct) auto

lemma ws_tail_graphic:
  assumes "graphic c"
  shows "ws_tail (s @ [c]) = 0"
proof -
  let ?b = "map byte (s @ [c])"
  have 1: "ws_head (drop (length ?b - 1) ?b) = 0"
    using assms by (simp add: graphic_def ws_head_graphic)
  have 2: "ws_head (drop (length ?b - 2) ?b) \<noteq> 2"
  proof
    assume w: "ws_head (drop (length ?b - 2) ?b) = 2"
    show False
    proof (cases s rule: rev_cases)
      case Nil
      with w assms show ?thesis by (simp add: graphic_def ws_head_graphic)
    next
      case (snoc s' d)
      with w assms show ?thesis by (auto simp: graphic_def split: if_splits)
    qed
  qed
  have 3: "\<not> (3 \<le> length ?b \<and> ws_head (drop (length ?b - 3) ?b) = 3)"
  proof
    assume w: "3 \<le> length ?b \<and> ws_head (drop (length ?b - 3) ?b) = 3"
    then obtain s' d e where "s = s' @ [d, e]"
      by (cases s rule: rev_cases; cases "butlast s" rule: rev_cases) auto
    with w assms show False by (auto simp: graphic_def split: if_splits)
  qed
  from 1 2 3 show ?thesis by (simp add: ws_tail_def Let_def)
qed

lemma trim_end_graphic: "s \<noteq> [] \<Longrightarrow> graphic (last s) \<Longrightarrow> trim_end s = s"
  by (cases s rule: rev_cases) (auto simp: trim_end.simps [of "_ @ [_]"] ws_tail_graphic)

lemma trim_graphic: "s \<noteq> [] \<Longrightarrow> graphic (hd s) \<Longrightarrow> graphic (last s) \<Longrightarrow> trim s = s"
  by (simp add: trim_def trim_start_graphic trim_end_graphic)

section \<open>Splitting and ASCII classes\<close>

fun strip_prefix_char :: "char \<Rightarrow> string \<Rightarrow> string option" where
  "strip_prefix_char c [] = None"
| "strip_prefix_char c (x # xs) = (if x = c then Some xs else None)"

text \<open>\<open>split_once\<close> at the first occurrence of an ASCII character.\<close>

fun split_once :: "char \<Rightarrow> string \<Rightarrow> (string \<times> string) option" where
  "split_once c [] = None"
| "split_once c (x # xs) =
     (if x = c then Some ([], xs)
      else map_option (\<lambda>(a, b). (x # a, b)) (split_once c xs))"

lemma split_once_append: "c \<notin> set xs \<Longrightarrow> split_once c (xs @ c # ys) = Some (xs, ys)"
  by (induction xs) auto

lemma split_once_None [simp]: "split_once c xs = None \<longleftrightarrow> c \<notin> set xs"
  by (induction xs) auto

lemma split_once_absent [simp]: "c \<notin> set xs \<Longrightarrow> split_once c xs = None"
  by simp

lemma split_once_SomeD: "split_once c xs = Some (a, b) \<Longrightarrow> xs = a @ c # b \<and> c \<notin> set a"
  by (induction xs arbitrary: a) (auto split: if_splits)

definition is_digit :: "char \<Rightarrow> bool" where
  "is_digit c \<longleftrightarrow> 48 \<le> byte c \<and> byte c \<le> 57"

definition is_ascii_lower :: "char \<Rightarrow> bool" where
  "is_ascii_lower c \<longleftrightarrow> 97 \<le> byte c \<and> byte c \<le> 122"

definition to_ascii_lower :: "char \<Rightarrow> char" where
  "to_ascii_lower c = (if 65 \<le> byte c \<and> byte c \<le> 90 then chr (byte c + 32) else c)"

section \<open>Decimal numbers\<close>

definition digit :: "nat \<Rightarrow> char" where
  "digit d = chr (48 + d)"

fun dec :: "nat \<Rightarrow> string" where
  "dec n = (if n < 10 then [digit n] else dec (n div 10) @ [digit (n mod 10)])"

declare dec.simps [simp del]

definition undec :: "string \<Rightarrow> nat" where
  "undec s = foldl (\<lambda>a c. 10 * a + (byte c - 48)) 0 s"

lemma byte_digit [simp]: "d < 10 \<Longrightarrow> byte (digit d) = 48 + d"
  by (simp add: digit_def)

lemma is_digit_digit [simp]: "d < 10 \<Longrightarrow> is_digit (digit d)"
  by (simp add: is_digit_def)

lemma graphic_digit [simp]: "is_digit c \<Longrightarrow> graphic c"
  by (simp add: is_digit_def graphic_def)

lemma digits_dec: "c \<in> set (dec n) \<Longrightarrow> is_digit c"
proof (induction n rule: dec.induct)
  case (1 n)
  then show ?case
    by (cases "n < 10") (auto simp: dec.simps [of n])
qed

lemma dec_nonempty [simp]: "dec n \<noteq> []"
  by (subst dec.simps) simp

lemma undec_snoc [simp]: "undec (s @ [c]) = 10 * undec s + (byte c - 48)"
  by (simp add: undec_def)

lemma undec_Nil [simp]: "undec [] = 0"
  by (simp add: undec_def)

lemma undec_dec [simp]: "undec (dec n) = n"
proof (induction n rule: dec.induct)
  case (1 n)
  show ?case
  proof (cases "n < 10")
    case True
    then show ?thesis using undec_snoc [of "[]" "digit n"] by (simp add: dec.simps [of n])
  next
    case False
    with 1 show ?thesis by (simp add: dec.simps [of n])
  qed
qed

lemma dec_inject [simp]: "dec m = dec n \<longleftrightarrow> m = n"
  by (metis undec_dec)

text \<open>\<open>u64\<close> and \<open>i64\<close> parsing of a non-empty run of digits: \<open>None\<close> on overflow.\<close>

definition parse_digits :: "nat \<Rightarrow> string \<Rightarrow> nat option" where
  "parse_digits limit s = (if undec s \<le> limit then Some (undec s) else None)"

lemma undec_replicate_zero: "undec (replicate k (digit 0) @ s) = undec s"
proof -
  have z: "foldl (\<lambda>a c. 10 * a + (byte c - 48)) 0 (replicate k (digit 0)) = (0 :: nat)"
    by (induction k) simp_all
  show ?thesis by (simp add: undec_def z)
qed

lemma undec_append_zeros: "undec (s @ replicate k (digit 0)) = undec s * 10 ^ k"
proof (induction k)
  case (Suc k)
  have "undec (s @ replicate (Suc k) (digit 0)) = undec ((s @ replicate k (digit 0)) @ [digit 0])"
    by (simp add: replicate_append_same)
  also have "\<dots> = 10 * undec (s @ replicate k (digit 0))"
    by (subst undec_snoc) simp
  finally show ?case using Suc.IH by simp
qed simp

lemma undec_less: "(\<And>c. c \<in> set s \<Longrightarrow> is_digit c) \<Longrightarrow> undec s < 10 ^ length s"
proof (induction s rule: rev_induct)
  case (snoc c s)
  have "is_digit c" using snoc.prems by simp
  then have d: "byte c - 48 \<le> 9" unfolding is_digit_def by arith
  have "undec s < 10 ^ length s" using snoc by simp
  then have "undec s + 1 \<le> 10 ^ length s" by simp
  with d show ?case by simp
qed simp

lemma length_dec_le: "n < 10 ^ k \<Longrightarrow> 0 < k \<Longrightarrow> length (dec n) \<le> k"
proof (induction n arbitrary: k rule: dec.induct)
  case (1 n)
  show ?case
  proof (cases "n < 10")
    case True
    with "1.prems" show ?thesis by (simp add: dec.simps [of n])
  next
    case False
    with "1.prems" obtain k' where k: "k = Suc k'" and k': "0 < k'"
      by (cases k; cases "k - 1") auto
    have "n div 10 < 10 ^ k'"
      using "1.prems"(1) k by (simp add: less_mult_imp_div_less mult.commute)
    with "1.IH" [OF False] k' have "length (dec (n div 10)) \<le> k'" by blast
    with False k show ?thesis by (simp add: dec.simps [of n])
  qed
qed

end
