(* ===== verification/Model_Error.thy ===== *)
theory Model_Error
  imports Prelude
begin

text \<open>
  The errors of the core model (\<open>crates/epiphany-core/src/error.rs\<close>). \<open>IndexPanic\<close> is not a
  variant of the source's enum: it stands for an out-of-bounds panic of a \<open>Vec\<close> index in the
  graph traversals and permutations, so that "the operation does not panic" is a statement
  about the model (\<open>IndexPanic\<close> is never its result).
\<close>

datatype model_error =
    ElementNotFound string string
  | ElementIndexOutOfRange string nat nat
  | RankMismatch nat nat
  | WriteToNonLeaf string string
  | CycleDetected string string string
  | ParentNotConsolidated string string
  | Overflow
  | CellsetTooLarge nat nat
  | EmptyCube
  | InvalidNumber string
  | AttributeNotFound string string
  | AttributeTypeMismatch string string
  | AttributeKindConflict string string
  | AliasConflict string string
  | CellTypeMismatch string string
  | StringCellRequiresStringElement string
  | UnknownDimension string string
  | DuplicateDimension string
  | ElementKindConflict string string
  | EdgeWeightConflict string string string
  | InvalidReorder string
  | SelfParent string string
  | ConsolidationHasChildren string string
  | DuplicateElement string string
  | IndexPanic

end
