(* ===== verification/Fixed_Value.thy ===== *)
theory Fixed_Value
  imports Rust_String Model_Error
begin

text \<open>
  Exact fixed-point values (\<open>crates/epiphany-core/src/value.rs\<close>). A \<open>Fixed\<close> is its scaled
  \<open>i64\<close>, an \<open>int\<close> in \<open>in_i64\<close>. The section models the constructors and the canonical decimal
  text in both directions, and shows that parsing inverts printing for every value but the
  smallest one.
\<close>

type_synonym fixed = int

definition SCALE :: int where "SCALE = 10000"
definition SCALE_DECIMALS :: nat where "SCALE_DECIMALS = 4"

definition from_int :: "int \<Rightarrow> model_error + fixed" where
  "from_int n = ok_or Overflow (checked_i64 (n * SCALE))"

definition is_zero :: "fixed \<Rightarrow> bool" where
  "is_zero v \<longleftrightarrow> v = 0"

text \<open>\<open>From<i32>\<close>: the product always fits.\<close>

definition fixed_of_i32 :: "int \<Rightarrow> fixed" where
  "fixed_of_i32 n = n * SCALE"

subsection \<open>Display\<close>

text \<open>\<open>format!("{:0width$}", frac)\<close> and the loop that pops trailing zeros.\<close>

definition zero_pad :: "nat \<Rightarrow> string \<Rightarrow> string" where
  "zero_pad width s = replicate (width - length s) (digit 0) @ s"

definition pop_zeros :: "string \<Rightarrow> string" where
  "pop_zeros s = rev (dropWhile (\<lambda>c. c = digit 0) (rev s))"

definition display :: "fixed \<Rightarrow> string" where
  "display v =
     (let sign = (if v < 0 then ''-'' else []);
          a = nat \<bar>v\<bar>;
          int_part = a div nat SCALE;
          frac = a mod nat SCALE
      in if frac = 0 then sign @ dec int_part
         else sign @ dec int_part @ ''.'' @ pop_zeros (zero_pad SCALE_DECIMALS (dec frac)))"

subsection \<open>Parsing\<close>

definition digits :: "string \<Rightarrow> string \<Rightarrow> model_error + int" where
  "digits text part =
     (if part = [] then Inr 0
      else if \<not> list_all is_digit part then Inl (InvalidNumber text)
      else ok_or (InvalidNumber text) (map_option int (parse_digits (nat i64_max) part)))"

definition from_str :: "string \<Rightarrow> model_error + fixed" where
  "from_str s =
     (let invalid = InvalidNumber s;
          trimmed = trim s;
          (negative, body) =
            (case strip_prefix_char (CHR ''-'') trimmed of
               Some rest \<Rightarrow> (True, rest)
             | None \<Rightarrow> (False, case strip_prefix_char (CHR ''+'') trimmed of
                                 Some rest \<Rightarrow> rest | None \<Rightarrow> trimmed))
      in if body = [] then Inl invalid
         else
           let (int_part, frac_part) =
                 (case split_once (CHR ''.'') body of Some p \<Rightarrow> p | None \<Rightarrow> (body, []))
           in if SCALE_DECIMALS < length frac_part then Inl invalid
              else bindE (digits s int_part) (\<lambda>int_val.
                   bindE (digits s frac_part) (\<lambda>frac_val.
                   bindE (ok_or Overflow
                            (checked_i64 (frac_val * 10 ^ (SCALE_DECIMALS - length frac_part))))
                     (\<lambda>frac_scaled.
                   bindE (ok_or Overflow
                            (Option.bind (checked_i64 (int_val * SCALE))
                               (\<lambda>v. checked_i64 (v + frac_scaled))))
                     (\<lambda>magnitude.
                   Inr (if negative then - magnitude else magnitude))))))"

section \<open>Facts about printing\<close>

lemma from_int_Inr [simp]: "from_int n = Inr v \<longleftrightarrow> in_i64 (n * SCALE) \<and> v = n * SCALE"
  by (auto simp: from_int_def)

lemma fixed_of_i32_fits: "- (2 ^ 31) \<le> n \<Longrightarrow> n < 2 ^ 31 \<Longrightarrow> in_i64 (fixed_of_i32 n)"
  by (simp add: fixed_of_i32_def in_i64_def i64_min_def i64_max_def SCALE_def)

lemma digits_digit_list:
  assumes "part \<noteq> []" and "list_all is_digit part" and "int (undec part) \<le> i64_max"
  shows "digits text part = Inr (int (undec part))"
  using assms by (simp add: digits_def parse_digits_def i64_max_def)

lemma list_all_dec [simp]: "list_all is_digit (dec n)"
  by (auto simp: list_all_iff dest: digits_dec)

lemma takeWhile_replicate_eq: "takeWhile (\<lambda>c. c = d) xs = replicate (length (takeWhile (\<lambda>c. c = d) xs)) d"
  by (induction xs) auto

lemma pop_zeros_decomp: "\<exists>k. s = pop_zeros s @ replicate k (digit 0)"
proof -
  let ?P = "\<lambda>c. c = digit 0"
  have "rev s = takeWhile ?P (rev s) @ dropWhile ?P (rev s)" by simp
  then have "s = rev (dropWhile ?P (rev s)) @ rev (takeWhile ?P (rev s))"
    by (metis rev_append rev_rev_ident)
  also have "rev (takeWhile ?P (rev s)) = replicate (length (takeWhile ?P (rev s))) (digit 0)"
    by (metis rev_replicate takeWhile_replicate_eq)
  finally show ?thesis unfolding pop_zeros_def by blast
qed

text \<open>The fraction text has one to four digits and denotes the fraction at scale four.\<close>

lemma frac_text:
  assumes "frac < 10000" and "frac \<noteq> 0"
  defines "t \<equiv> pop_zeros (zero_pad 4 (dec frac))"
  shows "list_all is_digit t" and "t \<noteq> []" and "length t \<le> 4"
    and "undec t * 10 ^ (4 - length t) = frac"
proof -
  let ?z = "zero_pad 4 (dec frac)"
  have len: "length ?z = 4"
    using length_dec_le [of frac 4] assms(1) by (simp add: zero_pad_def)
  have val: "undec ?z = frac" by (simp add: zero_pad_def undec_replicate_zero)
  obtain k where k: "?z = t @ replicate k (digit 0)"
    using pop_zeros_decomp unfolding t_def by blast
  have "list_all is_digit ?z" by (auto simp: zero_pad_def list_all_iff digits_dec)
  then show "list_all is_digit t" using k by (metis list_all_append)
  have lt: "length t + k = 4" using len k by (metis length_append length_replicate)
  then show "length t \<le> 4" by simp
  have "undec t * 10 ^ k = frac" using val k by (metis undec_append_zeros)
  then show "undec t * 10 ^ (4 - length t) = frac" using lt by (metis add_diff_cancel_left')
  with assms(2) show "t \<noteq> []" by auto
qed

lemma graphic_sign_chars [simp]: "graphic (CHR ''-'')" "graphic (CHR ''.'')"
  by (simp_all add: graphic_def byte_def)

lemma not_digit_sign [simp]: "\<not> is_digit (CHR ''-'')" "\<not> is_digit (CHR ''.'')" "\<not> is_digit (CHR ''+'')"
  by (simp_all add: is_digit_def byte_def)

lemma dec_no_char [simp]: "\<not> is_digit c \<Longrightarrow> c \<notin> set (dec n)"
  using digits_dec by blast

lemma is_digit_hd_dec [simp]: "is_digit (hd (dec n))"
  by (meson dec_nonempty digits_dec hd_in_set)

lemma is_digit_last_dec [simp]: "is_digit (last (dec n))"
  by (meson dec_nonempty digits_dec last_in_set)

lemma strip_prefix_digit [simp]: "\<not> is_digit c \<Longrightarrow> strip_prefix_char c (dec n @ s) = None"
  by (cases "dec n") (use is_digit_hd_dec [of n] in auto)

text \<open>Parsing the unsigned text \<open>int[.frac]\<close> of a non-negative magnitude.\<close>

definition magnitude_text :: "nat \<Rightarrow> string" where
  "magnitude_text a =
     (if a mod 10000 = 0 then dec (a div 10000)
      else dec (a div 10000) @ ''.'' @ pop_zeros (zero_pad 4 (dec (a mod 10000))))"

lemma display_magnitude: "display v = (if v < 0 then ''-'' else []) @ magnitude_text (nat \<bar>v\<bar>)"
  by (simp add: display_def magnitude_text_def Let_def SCALE_def SCALE_DECIMALS_def)

lemma magnitude_text_graphic:
  "magnitude_text a \<noteq> []" "graphic (hd (magnitude_text a))" "graphic (last (magnitude_text a))"
proof -
  show "magnitude_text a \<noteq> []" by (simp add: magnitude_text_def)
  show "graphic (hd (magnitude_text a))" by (simp add: magnitude_text_def)
  show "graphic (last (magnitude_text a))"
  proof (cases "a mod 10000 = 0")
    case True
    then show ?thesis by (simp add: magnitude_text_def)
  next
    case False
    let ?t = "pop_zeros (zero_pad 4 (dec (a mod 10000)))"
    have "is_digit (last ?t)"
      using frac_text(1,2) [of "a mod 10000"] False by (simp add: list_all_iff)
    with frac_text(2) [of "a mod 10000"] False show ?thesis by (simp add: magnitude_text_def)
  qed
qed

lemma trim_display: "trim (display v) = display v"
proof (rule trim_graphic)
  show "display v \<noteq> []" by (simp add: display_magnitude magnitude_text_graphic)
  show "graphic (hd (display v))" by (simp add: display_magnitude magnitude_text_graphic)
  show "graphic (last (display v))" by (simp add: display_magnitude magnitude_text_graphic)
qed

lemma strip_minus_display:
  "strip_prefix_char (CHR ''-'') (display v) = (if v < 0 then Some (magnitude_text (nat \<bar>v\<bar>)) else None)"
  "\<not> v < 0 \<Longrightarrow> strip_prefix_char (CHR ''+'') (display v) = None"
  using strip_prefix_digit [of "CHR ''-''" _ "[]"] strip_prefix_digit [of "CHR ''+''" _ "[]"]
  by (simp_all add: display_magnitude magnitude_text_def)

lemma split_magnitude:
  "(case split_once (CHR ''.'') (magnitude_text a) of Some p \<Rightarrow> p | None \<Rightarrow> (magnitude_text a, [])) =
   (dec (a div 10000), if a mod 10000 = 0 then [] else pop_zeros (zero_pad 4 (dec (a mod 10000))))"
proof (cases "a mod 10000 = 0")
  case True
  then show ?thesis by (simp add: magnitude_text_def)
next
  case False
  then show ?thesis by (simp add: magnitude_text_def split_once_append)
qed

text \<open>
  What the parser computes on a printed value: the overflow check on the magnitude decides.
\<close>

lemma frac_digits:
  assumes "a mod 10000 \<noteq> 0"
  defines "t \<equiv> pop_zeros (zero_pad 4 (dec (a mod 10000)))"
  shows "digits s t = Inr (int (undec t))"
    and "int (undec t) * 10 ^ (4 - length t) = int (a mod 10000)"
proof -
  note f = frac_text [OF _ assms(1), folded t_def]
  have f4: "undec t * 10 ^ (4 - length t) = a mod 10000" by (rule f(4)) simp
  then show v: "int (undec t) * 10 ^ (4 - length t) = int (a mod 10000)"
    by (metis of_nat_mult of_nat_numeral of_nat_power)
  have "undec t * 1 \<le> undec t * 10 ^ (4 - length t)" by (intro mult_le_mono) simp_all
  then have "undec t \<le> a mod 10000" using f4 by simp
  then have "undec t < 10000" by (simp add: le_less_trans)
  then have "int (undec t) \<le> i64_max" by (simp add: i64_max_def)
  then show "digits s t = Inr (int (undec t))"
    using f(1,2) by (intro digits_digit_list) simp_all
qed

lemma from_str_display_eq:
  assumes "\<bar>v\<bar> \<le> 9223372036854775808"
  shows "from_str (display v) = (if in_i64 \<bar>v\<bar> then Inr v else Inl Overflow)"
proof -
  define a where "a = nat \<bar>v\<bar>"
  have a: "int a = \<bar>v\<bar>" by (simp add: a_def)
  let ?t = "if a mod 10000 = 0 then [] else pop_zeros (zero_pad 4 (dec (a mod 10000)))"
  have q: "int (a div 10000) \<le> 922337203685477" using assms a by linarith
  have di: "digits s (dec (a div 10000)) = Inr (int (a div 10000))" for s
    using q by (subst digits_digit_list) (simp_all add: i64_max_def)
  have df: "\<exists>f. digits s ?t = Inr f \<and> f * 10 ^ (4 - length ?t) = int (a mod 10000)" for s
  proof (cases "a mod 10000 = 0")
    case True
    then show ?thesis by (simp add: digits_def)
  next
    case False
    then show ?thesis using frac_digits(1) [OF False, of s] frac_digits(2) [OF False]
      by (simp del: neq0_conv)
  qed
  have len: "length ?t \<le> 4" using frac_text(3) [of "a mod 10000"] by simp
  have small: "in_i64 (int (a mod 10000))" "in_i64 (int (a div 10000) * SCALE)"
    using q by (simp_all add: in_i64_def i64_min_def i64_max_def SCALE_def)
  have sum: "int (a div 10000) * SCALE + int (a mod 10000) = \<bar>v\<bar>"
    using a unfolding SCALE_def by (metis div_mult_mod_eq of_nat_add of_nat_mult of_nat_numeral)
  have body: "(case strip_prefix_char (CHR ''-'') (trim (display v)) of
               Some rest \<Rightarrow> (True, rest)
             | None \<Rightarrow> (False, case strip_prefix_char (CHR ''+'') (trim (display v)) of
                                 Some rest \<Rightarrow> rest | None \<Rightarrow> trim (display v)))
         = (v < 0, magnitude_text a)"
    unfolding trim_display
    by (cases "v < 0") (simp_all add: strip_minus_display a_def, simp add: display_magnitude)
  obtain f where f: "digits (display v) ?t = Inr f" "f * 10 ^ (4 - length ?t) = int (a mod 10000)"
    using df by blast
  have "from_str (display v) =
     bindE (ok_or Overflow (checked_i64 \<bar>v\<bar>)) (\<lambda>m. Inr (if v < 0 then - m else m))"
    unfolding from_str_def Let_def body split_magnitude prod.case
    using magnitude_text_graphic(1) len di f small sum
    by (simp add: SCALE_DECIMALS_def checked_i64_def)
  then show ?thesis by (auto simp: checked_i64_def)
qed

end
