(* ===== verification/Dimension.thy ===== *)
theory Dimension
  imports Fixed_Value "HOL-Library.Product_Lexorder"
begin

text \<open>
  Dimensions (\<open>crates/epiphany-core/src/dimension.rs\<close>): an ordered list of elements, their
  weighted consolidation edges, attributes and aliases, and every operation that reads or edits
  them. The parallel \<open>Vec\<close>s of the struct are parallel lists; the name, attribute and alias
  indices, which are only looked up, are maps; the attribute row of an element, which
  \<open>reindex_names\<close> iterates, is an association list. An operation that edits a dimension
  returns the edited one, or the error.
\<close>

datatype element_kind = Leaf | Str | Consolidated

definition is_leaf :: "element_kind \<Rightarrow> bool" where
  "is_leaf k \<longleftrightarrow> k = Leaf \<or> k = Str"

definition is_string :: "element_kind \<Rightarrow> bool" where
  "is_string k \<longleftrightarrow> k = Str"

record element =
  el_name :: string
  el_kind :: element_kind
  el_pinned :: bool

datatype attribute_kind = KText | KNumeric | KAlias

datatype attribute_value = Text string | Numeric fixed

record attribute_def =
  attr_name :: string
  attr_kind :: attribute_kind

record edge =
  edge_child :: nat
  edge_weight :: int

type_synonym attr_row = "(nat \<times> attribute_value) list"

record dimension =
  dim_name :: string
  elements :: "element list"
  index_by_name :: "string \<rightharpoonup> nat"
  children :: "edge list list"
  attributes :: "attribute_def list"
  attr_index_by_name :: "string \<rightharpoonup> nat"
  attr_values :: "attr_row list"
  alias_to_element :: "string \<rightharpoonup> nat"

section \<open>Construction and lookup\<close>

definition dim_new :: "string \<Rightarrow> dimension" where
  "dim_new name =
     \<lparr>dim_name = name, elements = [], index_by_name = Map.empty, children = [],
      attributes = [], attr_index_by_name = Map.empty, attr_values = [],
      alias_to_element = Map.empty\<rparr>"

definition dim_len :: "dimension \<Rightarrow> nat" where
  "dim_len d = as_u32 (length (elements d))"

definition get_element :: "dimension \<Rightarrow> nat \<Rightarrow> model_error + element" where
  "get_element d i =
     (if i < length (elements d) then Inr (elements d ! i)
      else Inl (ElementIndexOutOfRange (dim_name d) i (dim_len d)))"

definition index_of :: "dimension \<Rightarrow> string \<Rightarrow> nat option" where
  "index_of d name = index_by_name d name"

definition dim_edges :: "dimension \<Rightarrow> (nat \<times> nat \<times> int) list" where
  "dim_edges d =
     sort_key (\<lambda>(p, c, w). (p, c))
       (concat (map (\<lambda>(p, es). map (\<lambda>e. (as_u32 p, edge_child e, edge_weight e)) es)
                    (List.enumerate 0 (children d))))"

definition child_edges :: "dimension \<Rightarrow> nat \<Rightarrow> model_error + (nat \<times> int) list" where
  "child_edges d i =
     bindE (get_element d i) (\<lambda>_.
       Inr (map (\<lambda>e. (edge_child e, edge_weight e)) (children d ! i)))"

definition child_weight :: "dimension \<Rightarrow> nat \<Rightarrow> nat \<Rightarrow> model_error + int option" where
  "child_weight d p c =
     bindE (get_element d p) (\<lambda>_. bindE (get_element d c) (\<lambda>_.
       Inr (map_option edge_weight (List.find (\<lambda>e. edge_child e = c) (children d ! p)))))"

definition children_of :: "dimension \<Rightarrow> nat \<Rightarrow> model_error + nat list" where
  "children_of d i = bindE (get_element d i) (\<lambda>_. Inr (map edge_child (children d ! i)))"

section \<open>Attributes and aliases\<close>

definition attribute_index :: "dimension \<Rightarrow> string \<Rightarrow> nat option" where
  "attribute_index d name = attr_index_by_name d name"

definition add_attribute :: "string \<Rightarrow> attribute_kind \<Rightarrow> dimension \<Rightarrow> nat \<times> dimension" where
  "add_attribute name kind d =
     (case attr_index_by_name d name of
        Some existing \<Rightarrow> (existing, d)
      | None \<Rightarrow>
          let index = as_u32 (length (attributes d))
          in (index, d\<lparr>attr_index_by_name := (attr_index_by_name d)(name \<mapsto> index),
                       attributes := attributes d @ [\<lparr>attr_name = name, attr_kind = kind\<rparr>]\<rparr>))"

fun type_ok :: "attribute_kind \<Rightarrow> attribute_value \<Rightarrow> bool" where
  "type_ok KNumeric (Numeric _) = True"
| "type_ok KText (Text _) = True"
| "type_ok KAlias (Text _) = True"
| "type_ok _ _ = False"

definition is_alias_attr :: "dimension \<Rightarrow> nat \<Rightarrow> bool" where
  "is_alias_attr d k \<longleftrightarrow> attr_kind (attributes d ! k) = KAlias"

text \<open>The alias index after \<open>element\<close> takes \<open>alias\<close> for the Alias attribute \<open>attr\<close>.\<close>

definition still_held :: "dimension \<Rightarrow> nat \<Rightarrow> nat \<Rightarrow> string \<Rightarrow> bool" where
  "still_held d element attr prev \<longleftrightarrow>
     list_ex (\<lambda>(other, value). other \<noteq> attr \<and> is_alias_attr d other \<and> value = Text prev)
       (attr_values d ! element)"

definition drop_prev_alias :: "dimension \<Rightarrow> nat \<Rightarrow> nat \<Rightarrow> string \<Rightarrow> (string \<rightharpoonup> nat)" where
  "drop_prev_alias d element attr alias =
     (case map_of (attr_values d ! element) attr of
        Some (Text prev) \<Rightarrow>
          if prev \<noteq> alias \<and> alias_to_element d prev = Some element
             \<and> \<not> still_held d element attr prev
          then (alias_to_element d)(prev := None)
          else alias_to_element d
      | _ \<Rightarrow> alias_to_element d)"

definition put_attr :: "nat \<Rightarrow> nat \<Rightarrow> attribute_value \<Rightarrow> dimension \<Rightarrow> dimension" where
  "put_attr element attr value d =
     d\<lparr>attr_values := (attr_values d)[element := AList.update attr value (attr_values d ! element)]\<rparr>"

definition set_attribute ::
    "nat \<Rightarrow> string \<Rightarrow> attribute_value \<Rightarrow> dimension \<Rightarrow> model_error + dimension" where
  "set_attribute element attribute value d =
     bindE (get_element d element) (\<lambda>_.
     bindE (ok_or (AttributeNotFound (dim_name d) attribute) (attribute_index d attribute)) (\<lambda>attr.
       let kind = attr_kind (attributes d ! attr) in
       if \<not> type_ok kind value then Inl (AttributeTypeMismatch (dim_name d) attribute)
       else case (kind, value) of
         (KAlias, Text alias) \<Rightarrow>
           (case alias_to_element d alias of
              Some owner \<Rightarrow>
                if owner \<noteq> element then Inl (AliasConflict (dim_name d) alias)
                else Inr (put_attr element attr value
                            (d\<lparr>alias_to_element :=
                               (drop_prev_alias d element attr alias)(alias \<mapsto> element)\<rparr>))
            | None \<Rightarrow>
                Inr (put_attr element attr value
                       (d\<lparr>alias_to_element :=
                          (drop_prev_alias d element attr alias)(alias \<mapsto> element)\<rparr>)))
       | _ \<Rightarrow> Inr (put_attr element attr value d)))"

definition get_attribute :: "dimension \<Rightarrow> nat \<Rightarrow> string \<Rightarrow> attribute_value option" where
  "get_attribute d element attribute =
     Option.bind (attribute_index d attribute) (\<lambda>attr.
       if element < length (attr_values d) then map_of (attr_values d ! element) attr else None)"

definition attribute_values :: "dimension \<Rightarrow> (nat \<times> nat \<times> attribute_value) list" where
  "attribute_values d =
     sort_key (\<lambda>(e, a, v). (e, a))
       (concat (map (\<lambda>(e, row). map (\<lambda>(a, v). (as_u32 e, a, v)) row)
                    (List.enumerate 0 (attr_values d))))"

text \<open>By element name first, then by alias.\<close>

definition resolve :: "dimension \<Rightarrow> string \<Rightarrow> nat option" where
  "resolve d name =
     (case index_of d name of Some i \<Rightarrow> Some i | None \<Rightarrow> alias_to_element d name)"

section \<open>Adding elements and edges\<close>

definition add_element :: "string \<Rightarrow> element_kind \<Rightarrow> dimension \<Rightarrow> nat \<times> dimension" where
  "add_element name kind d =
     (case index_by_name d name of
        Some existing \<Rightarrow> (existing, d)
      | None \<Rightarrow>
          let index = as_u32 (length (elements d))
          in (index,
              d\<lparr>index_by_name := (index_by_name d)(name \<mapsto> index),
                elements := elements d @ [\<lparr>el_name = name, el_kind = kind, el_pinned = False\<rparr>],
                children := children d @ [[]],
                attr_values := attr_values d @ [[]]\<rparr>))"

definition add_leaf :: "string \<Rightarrow> dimension \<Rightarrow> nat \<times> dimension" where
  "add_leaf name = add_element name Leaf"

definition add_string :: "string \<Rightarrow> dimension \<Rightarrow> nat \<times> dimension" where
  "add_string name = add_element name Str"

definition add_consolidated :: "string \<Rightarrow> dimension \<Rightarrow> nat \<times> dimension" where
  "add_consolidated name = add_element name Consolidated"

text \<open>
  \<open>reaches\<close>: the depth-first search with an explicit stack and a \<open>seen\<close> bitmap. Indexing
  the bitmap out of range is the panic, \<open>None\<close>.
\<close>

function reaches_loop :: "dimension \<Rightarrow> nat \<Rightarrow> nat list \<Rightarrow> nat list \<Rightarrow> bool option" where
  "reaches_loop d target [] seen = Some False"
| "reaches_loop d target (node # stack) seen =
     (if node = target then Some True
      else if length (elements d) \<le> node then None
      else if node \<in> set seen then reaches_loop d target stack seen
      else reaches_loop d target
             (rev (map edge_child (children d ! node)) @ stack) (node # seen))"
  by pat_completeness auto
termination
proof (relation "measures [\<lambda>(d, t, stack, seen). card ({..<length (elements d)} - set seen),
                           \<lambda>(d, t, stack, seen). length stack]", goal_cases)
  case (3 d target node stack seen)
  then show ?case by (simp add: card_unvisited del: card_Diff_insert)
qed auto

definition reaches :: "dimension \<Rightarrow> nat \<Rightarrow> nat \<Rightarrow> bool option" where
  "reaches d from to = reaches_loop d to [from] []"

definition push_edge :: "nat \<Rightarrow> edge \<Rightarrow> dimension \<Rightarrow> dimension" where
  "push_edge p e d = d\<lparr>children := (children d)[p := children d ! p @ [e]]\<rparr>"

definition add_child :: "nat \<Rightarrow> nat \<Rightarrow> int \<Rightarrow> dimension \<Rightarrow> model_error + dimension" where
  "add_child p c w d =
     bindE (get_element d c) (\<lambda>ce.
     bindE (get_element d p) (\<lambda>pe.
       if el_kind pe \<noteq> Consolidated then Inl (ParentNotConsolidated (dim_name d) (el_name pe))
       else
         let cycle = Inl (CycleDetected (dim_name d) (el_name pe) (el_name ce)) in
         if c = p then cycle
         else bindE (ok_or IndexPanic (reaches d c p)) (\<lambda>r.
                if r then cycle
                else Inr (push_edge p \<lparr>edge_child = c, edge_weight = w\<rparr> d))))"

definition retain_not_child :: "nat \<Rightarrow> edge list \<Rightarrow> edge list" where
  "retain_not_child c es = filter (\<lambda>e. edge_child e \<noteq> c) es"

definition remove_child :: "nat \<Rightarrow> nat \<Rightarrow> dimension \<Rightarrow> model_error + dimension" where
  "remove_child p c d =
     bindE (get_element d c) (\<lambda>_. bindE (get_element d p) (\<lambda>_.
       Inr (d\<lparr>children := (children d)[p := retain_not_child c (children d ! p)]\<rparr>)))"

section \<open>The rollup of an element\<close>

text \<open>
  \<open>leaf_weights\<close>: breadth-first over the edges with a visited set; a node first dequeued by
  its shortest path is recorded once, later ones are skipped. \<open>None\<close> is the panic of an
  element index out of range.
\<close>

function bfs :: "dimension \<Rightarrow> (nat \<times> int) list \<Rightarrow> nat list \<Rightarrow> (nat \<times> int) list
    \<Rightarrow> (nat \<times> int) list option" where
  "bfs d [] visited acc = Some acc"
| "bfs d ((node, weight) # queue) visited acc =
     (if node \<in> set visited then bfs d queue visited acc
      else if length (elements d) \<le> node then None
      else case el_kind (elements d ! node) of
        Leaf \<Rightarrow> bfs d queue (node # visited) (AList.update node weight acc)
      | Str \<Rightarrow> bfs d queue (node # visited) acc
      | Consolidated \<Rightarrow>
          bfs d (queue @ map (\<lambda>e. (edge_child e, sat_i64 (weight * edge_weight e)))
                             (children d ! node))
            (node # visited) acc)"
  by pat_completeness auto
termination
proof (relation "measures [\<lambda>(d, q, visited, acc). card ({..<length (elements d)} - set visited),
                           \<lambda>(d, q, visited, acc). length q]", goal_cases)
  case (1)
  then show ?case by simp
next
  case (2 d node weight queue visited acc)
  then show ?case by simp
next
  case (3 d node weight queue visited acc)
  then show ?case by (simp add: card_unvisited del: card_Diff_insert)
next
  case (4 d node weight queue visited acc)
  then show ?case by (simp add: card_unvisited del: card_Diff_insert)
next
  case (5 d node weight queue visited acc)
  then show ?case by (simp add: card_unvisited del: card_Diff_insert)
qed

definition leaf_weights :: "dimension \<Rightarrow> nat \<Rightarrow> model_error + (nat \<times> int) list" where
  "leaf_weights d element =
     bindE (get_element d element) (\<lambda>_.
     bindE (ok_or IndexPanic (bfs d [(element, 1)] [] [])) (\<lambda>acc.
       Inr (sort_key fst (filter (\<lambda>(_, w). w \<noteq> 0) acc))))"

section \<open>Structural editing\<close>

definition is_pinned_to_top :: "dimension \<Rightarrow> nat \<Rightarrow> model_error + bool" where
  "is_pinned_to_top d i = bindE (get_element d i) (\<lambda>e. Inr (el_pinned e))"

definition pinned_to_top :: "dimension \<Rightarrow> nat list" where
  "pinned_to_top d =
     map (\<lambda>(i, _). as_u32 i) (filter (\<lambda>(_, e). el_pinned e) (List.enumerate 0 (elements d)))"

definition set_pinned :: "bool \<Rightarrow> nat \<Rightarrow> dimension \<Rightarrow> model_error + dimension" where
  "set_pinned b i d =
     bindE (get_element d i) (\<lambda>e.
       Inr (d\<lparr>elements := (elements d)[i := e\<lparr>el_pinned := b\<rparr>]\<rparr>))"

definition pin_to_top :: "nat \<Rightarrow> dimension \<Rightarrow> model_error + dimension" where
  "pin_to_top = set_pinned True"

definition unpin_from_top :: "nat \<Rightarrow> dimension \<Rightarrow> model_error + dimension" where
  "unpin_from_top = set_pinned False"

text \<open>\<open>reindex_names\<close>: both indices are rebuilt from the elements and the attribute rows.\<close>

definition name_index :: "element list \<Rightarrow> (string \<rightharpoonup> nat)" where
  "name_index els = foldl (\<lambda>m (i, el). m(el_name el \<mapsto> as_u32 i)) Map.empty (List.enumerate 0 els)"

definition alias_row :: "attribute_def list \<Rightarrow> nat \<Rightarrow> (string \<rightharpoonup> nat) \<Rightarrow> attr_row \<Rightarrow> (string \<rightharpoonup> nat)" where
  "alias_row defs i m row =
     foldl (\<lambda>m (k, v). if attr_kind (defs ! k) = KAlias
                       then (case v of Text alias \<Rightarrow> m(alias \<mapsto> as_u32 i) | _ \<Rightarrow> m)
                       else m) m row"

definition alias_index :: "attribute_def list \<Rightarrow> attr_row list \<Rightarrow> (string \<rightharpoonup> nat)" where
  "alias_index defs rows =
     foldl (\<lambda>m (i, row). alias_row defs i m row) Map.empty (List.enumerate 0 rows)"

definition reindex_names :: "dimension \<Rightarrow> dimension" where
  "reindex_names d =
     d\<lparr>index_by_name := name_index (elements d),
       alias_to_element := alias_index (attributes d) (attr_values d)\<rparr>"

text \<open>Place each item at its new position; a slot left empty is the \<open>expect\<close> panic.\<close>

definition place :: "nat \<Rightarrow> 'a list \<Rightarrow> nat list \<Rightarrow> 'a list option" where
  "place n xs to_new =
     those (scatter Some (replicate n None) xs to_new)"

definition remap_edge :: "nat list \<Rightarrow> edge \<Rightarrow> edge" where
  "remap_edge to_new e = e\<lparr>edge_child := to_new ! edge_child e\<rparr>"

definition apply_permutation :: "nat list \<Rightarrow> dimension \<Rightarrow> model_error + dimension" where
  "apply_permutation to_new d =
     (let n = length (elements d) in
      bindE (ok_or IndexPanic (place n (elements d) to_new)) (\<lambda>els.
      bindE (ok_or IndexPanic (place n (attr_values d) to_new)) (\<lambda>rows.
        let kids = scatter (map (remap_edge to_new)) (replicate n []) (children d) to_new
        in Inr (reindex_names (d\<lparr>elements := els, attr_values := rows, children := kids\<rparr>)))))"

text \<open>The loop of \<open>reorder\<close> that builds \<open>to_new\<close>, refusing an unknown or repeated name.\<close>

fun reorder_map :: "dimension \<Rightarrow> nat \<Rightarrow> string list \<Rightarrow> nat list \<Rightarrow> bool list
    \<Rightarrow> model_error + nat list" where
  "reorder_map d pos [] to_new seen = Inr to_new"
| "reorder_map d pos (name # names) to_new seen =
     bindE (ok_or (InvalidReorder (dim_name d)) (index_of d name)) (\<lambda>old.
       if seen ! old then Inl (InvalidReorder (dim_name d))
       else reorder_map d (Suc pos) names (to_new[old := as_u32 pos]) (seen[old := True]))"

definition reorder :: "string list \<Rightarrow> dimension \<Rightarrow> model_error + nat list \<times> dimension" where
  "reorder new_order d =
     (let n = length (elements d) in
      if length new_order \<noteq> n then Inl (InvalidReorder (dim_name d))
      else bindE (reorder_map d 0 new_order (replicate n u32_max) (replicate n False)) (\<lambda>to_new.
           bindE (apply_permutation to_new d) (\<lambda>d'. Inr (to_new, d'))))"

definition detach_child :: "nat \<Rightarrow> dimension \<Rightarrow> dimension" where
  "detach_child c d = d\<lparr>children := map (retain_not_child c) (children d)\<rparr>"

definition promote :: "nat \<Rightarrow> dimension \<Rightarrow> dimension" where
  "promote p d =
     (if el_kind (elements d ! p) \<noteq> Consolidated
      then d\<lparr>elements := (elements d)[p := (elements d ! p)\<lparr>el_kind := Consolidated\<rparr>]\<rparr> else d)"

definition reparent :: "nat \<Rightarrow> nat option \<Rightarrow> int \<Rightarrow> dimension \<Rightarrow> model_error + dimension" where
  "reparent c new_parent w d =
     bindE (get_element d c) (\<lambda>ce.
       case new_parent of
         None \<Rightarrow> Inr (detach_child c d)
       | Some p \<Rightarrow>
           bindE (get_element d p) (\<lambda>pe.
             if p = c then Inl (SelfParent (dim_name d) (el_name ce))
             else bindE (ok_or IndexPanic (reaches d c p)) (\<lambda>r.
               if r then Inl (CycleDetected (dim_name d) (el_name pe) (el_name ce))
               else Inr (push_edge p \<lparr>edge_child = c, edge_weight = w\<rparr>
                           (promote p (detach_child c d))))))"

definition set_kind ::
    "nat \<Rightarrow> element_kind \<Rightarrow> dimension \<Rightarrow> model_error + element_kind \<times> dimension" where
  "set_kind i kind d =
     bindE (get_element d i) (\<lambda>e.
       if el_kind e = kind then Inr (el_kind e, d)
       else if el_kind e = Consolidated \<and> children d ! i \<noteq> []
       then Inl (ConsolidationHasChildren (dim_name d) (el_name e))
       else Inr (el_kind e, d\<lparr>elements := (elements d)[i := e\<lparr>el_kind := kind\<rparr>]\<rparr>))"

definition delete_map :: "nat \<Rightarrow> nat \<Rightarrow> nat list" where
  "delete_map n i = map (\<lambda>old. if old < i then old else if old = i then u32_max else old - 1) [0..<n]"

definition delete :: "nat \<Rightarrow> dimension \<Rightarrow> model_error + (nat \<times> nat list) \<times> dimension" where
  "delete i d =
     bindE (get_element d i) (\<lambda>e.
       if children d ! i \<noteq> [] then Inl (ConsolidationHasChildren (dim_name d) (el_name e))
       else
         let to_new = delete_map (length (elements d)) i in
         Inr ((i, to_new),
              reindex_names
                (d\<lparr>elements := remove_at i (elements d),
                   attr_values := remove_at i (attr_values d),
                   children := map (\<lambda>es. map (remap_edge to_new) (retain_not_child i es))
                                 (remove_at i (children d))\<rparr>)))"

definition insert_map :: "nat \<Rightarrow> nat \<Rightarrow> nat list" where
  "insert_map n pos = map (\<lambda>old. if old < pos then old else old + 1) [0..<n]"

definition insert_at :: "string \<Rightarrow> element_kind \<Rightarrow> nat \<Rightarrow> dimension
    \<Rightarrow> model_error + (nat \<times> nat list) \<times> dimension" where
  "insert_at name kind at d =
     (if index_by_name d name \<noteq> None then Inl (DuplicateElement (dim_name d) name)
      else
        let n = length (elements d);
            pos = min at (as_u32 n);
            to_new = insert_map n pos
        in Inr ((pos, to_new),
                reindex_names
                  (d\<lparr>elements := insert_at_pos pos
                                   \<lparr>el_name = name, el_kind = kind, el_pinned = False\<rparr> (elements d),
                     attr_values := insert_at_pos pos [] (attr_values d),
                     children := map (map (remap_edge to_new))
                                   (insert_at_pos pos [] (children d))\<rparr>)))"

end
