(* ===== verification/Dimension_Graph.thy ===== *)
theory Dimension_Graph
  imports Dimension
begin

text \<open>
  The consolidation hierarchy as a graph: the edge relation, walks along edges with their
  saturated weight, and the two traversals of the code against them. \<open>reaches\<close> decides
  reachability; the breadth-first loop of \<open>leaf_weights\<close> records every numeric leaf below an
  element once, with the weight of a walk that has the fewest hops.
\<close>

definition edge_rel :: "dimension \<Rightarrow> (nat \<times> nat) set" where
  "edge_rel d = {(p, c). p < length (children d) \<and> c \<in> edge_child ` set (children d ! p)}"

definition edges_in_range :: "dimension \<Rightarrow> bool" where
  "edges_in_range d \<longleftrightarrow>
     length (children d) = length (elements d) \<and>
     (\<forall>p < length (elements d). \<forall>e \<in> set (children d ! p).
        edge_child e < length (elements d) \<and> in_i64 (edge_weight e))"

lemma edge_rel_iff:
  "(p, c) \<in> edge_rel d \<longleftrightarrow> p < length (children d) \<and> (\<exists>e \<in> set (children d ! p). edge_child e = c)"
  by (auto simp: edge_rel_def)

lemma edges_in_rangeD:
  "edges_in_range d \<Longrightarrow> p < length (elements d) \<Longrightarrow> e \<in> set (children d ! p) \<Longrightarrow>
   edge_child e < length (elements d)"
  by (simp add: edges_in_range_def)

lemma edge_rel_range:
  "edges_in_range d \<Longrightarrow> (p, c) \<in> edge_rel d \<Longrightarrow> p < length (elements d) \<and> c < length (elements d)"
  by (auto simp: edge_rel_iff edges_in_range_def)

section \<open>Depth-first reachability\<close>

lemma rtrancl_leaves:
  assumes "(x, t) \<in> R\<^sup>*" and "x \<in> S" and "t \<notin> S"
    and closed: "\<And>u v. u \<in> S \<Longrightarrow> (u, v) \<in> R \<Longrightarrow> v \<in> S \<union> Q"
  shows "\<exists>q \<in> Q. (q, t) \<in> R\<^sup>*"
  using assms(1-3)
proof (induction rule: converse_rtrancl_induct)
  case base
  then show ?case by simp
next
  case (step y z)
  then show ?case using closed by blast
qed

lemma reaches_loop_correct:
  assumes "edges_in_range d" and "set stack \<subseteq> {..<length (elements d)}"
    and "t \<notin> set seen" and "set seen \<subseteq> {..<length (elements d)}"
    and "\<And>u v. u \<in> set seen \<Longrightarrow> (u, v) \<in> edge_rel d \<Longrightarrow> v \<in> set seen \<union> set stack"
  shows "reaches_loop d t stack seen = Some (\<exists>s \<in> set stack. (s, t) \<in> (edge_rel d)\<^sup>*)"
  using assms
proof (induction d t stack seen rule: reaches_loop.induct)
  case (1 d t seen)
  then show ?case by simp
next
  case (2 d t node stack seen)
  consider "node = t" | "node \<noteq> t" "node \<in> set seen" | "node \<noteq> t" "node \<notin> set seen" by blast
  then show ?case
  proof cases
    case 1
    then show ?thesis by auto
  next
    case 2
    have node: "node < length (elements d)" using "2.prems"(2) by simp
    have cl: "v \<in> set seen \<union> set stack" if "u \<in> set seen" "(u, v) \<in> edge_rel d" for u v
      using "2.prems"(5) [OF that] 2 by auto
    have "reaches_loop d t stack seen = Some (\<exists>s \<in> set stack. (s, t) \<in> (edge_rel d)\<^sup>*)"
      by (rule "2.IH"(1)) (use 2 node "2.prems" cl in auto)
    moreover have "(node, t) \<in> (edge_rel d)\<^sup>* \<Longrightarrow> \<exists>s \<in> set stack. (s, t) \<in> (edge_rel d)\<^sup>*"
      using rtrancl_leaves [of node t "edge_rel d" "set seen" "set stack"] 2 "2.prems"(3) cl by blast
    ultimately show ?thesis using 2 node by auto
  next
    case 3
    have node: "node < length (elements d)" using "2.prems"(2) by simp
    let ?kids = "edge_child ` set (children d ! node)"
    have kids: "?kids = {v. (node, v) \<in> edge_rel d}"
      using node "2.prems"(1) by (auto simp: edge_rel_iff edges_in_range_def)
    have "reaches_loop d t (rev (map edge_child (children d ! node)) @ stack) (node # seen)
        = Some (\<exists>s \<in> set (rev (map edge_child (children d ! node)) @ stack). (s, t) \<in> (edge_rel d)\<^sup>*)"
    proof (rule "2.IH"(2))
      show "set (rev (map edge_child (children d ! node)) @ stack) \<subseteq> {..<length (elements d)}"
        using "2.prems"(1,2) node by (auto simp: edges_in_range_def)
      show "\<And>u v. u \<in> set (node # seen) \<Longrightarrow> (u, v) \<in> edge_rel d \<Longrightarrow>
          v \<in> set (node # seen) \<union> set (rev (map edge_child (children d ! node)) @ stack)"
        using "2.prems"(5) kids by fastforce
    qed (use 3 node "2.prems" in auto)
    moreover have "(\<exists>s \<in> ?kids. (s, t) \<in> (edge_rel d)\<^sup>*) \<longleftrightarrow> (node, t) \<in> (edge_rel d)\<^sup>*"
      unfolding kids using 3 by (auto elim: converse_rtranclE intro: converse_rtrancl_into_rtrancl)
    ultimately show ?thesis using 3 node by auto
  qed
qed

lemma reaches_correct [model_simps]:
  assumes "edges_in_range d" and "a < length (elements d)"
  shows "reaches d a b = Some ((a, b) \<in> (edge_rel d)\<^sup>*)"
  unfolding reaches_def using assms by (subst reaches_loop_correct) auto

section \<open>Walks\<close>

fun walk :: "dimension \<Rightarrow> nat \<Rightarrow> edge list \<Rightarrow> nat \<Rightarrow> bool" where
  "walk d s [] t \<longleftrightarrow> s = t"
| "walk d s (e # es) t \<longleftrightarrow>
     s < length (children d) \<and> e \<in> set (children d ! s) \<and> walk d (edge_child e) es t"

definition walk_weight :: "edge list \<Rightarrow> int" where
  "walk_weight es = foldl (\<lambda>w e. sat_i64 (w * edge_weight e)) 1 es"

definition min_hops :: "dimension \<Rightarrow> nat \<Rightarrow> edge list \<Rightarrow> nat \<Rightarrow> bool" where
  "min_hops d s es t \<longleftrightarrow> walk d s es t \<and> (\<forall>es'. walk d s es' t \<longrightarrow> length es \<le> length es')"

lemma walk_append: "walk d s (es @ fs) t \<longleftrightarrow> (\<exists>m. walk d s es m \<and> walk d m fs t)"
  by (induction es arbitrary: s) auto

lemma walk_weight_snoc [simp]: "walk_weight (es @ [e]) = sat_i64 (walk_weight es * edge_weight e)"
  by (simp add: walk_weight_def)

lemma walk_weight_Nil [simp]: "walk_weight [] = 1"
  by (simp add: walk_weight_def)

lemma walk_rtrancl: "walk d s es t \<Longrightarrow> (s, t) \<in> (edge_rel d)\<^sup>*"
proof (induction es arbitrary: s)
  case (Cons e es)
  then have "(s, edge_child e) \<in> edge_rel d" by (auto simp: edge_rel_iff)
  with Cons show ?case by (auto intro: converse_rtrancl_into_rtrancl)
qed simp

lemma rtrancl_walk: "(s, t) \<in> (edge_rel d)\<^sup>* \<Longrightarrow> \<exists>es. walk d s es t"
proof (induction rule: converse_rtrancl_induct)
  case base
  have "walk d t [] t" by simp
  then show ?case ..
next
  case (step y z)
  then obtain es e where "walk d z es t" "y < length (children d)" "e \<in> set (children d ! y)"
      "edge_child e = z"
    by (auto simp: edge_rel_iff)
  then have "walk d y (e # es) t" by simp
  then show ?case ..
qed

text \<open>A walk from a set to outside it crosses an edge of the set's border.\<close>

lemma walk_crosses:
  "walk d s es t \<Longrightarrow> s \<in> S \<Longrightarrow> t \<notin> S \<Longrightarrow>
   \<exists>pre e post v. es = pre @ e # post \<and> walk d s pre v \<and> v \<in> S \<and> v < length (children d) \<and>
     e \<in> set (children d ! v) \<and> edge_child e \<notin> S"
proof (induction es arbitrary: s)
  case (Cons e es)
  show ?case
  proof (cases "edge_child e \<in> S")
    case False
    have "walk d s [] s" by simp
    with False Cons.prems show ?thesis by (metis append_Nil walk.simps(2))
  next
    case True
    with Cons obtain pre e' post v where "es = pre @ e' # post" "walk d (edge_child e) pre v" "v \<in> S"
        "v < length (children d)" "e' \<in> set (children d ! v)" "edge_child e' \<notin> S"
      by (metis walk.simps(2))
    with Cons.prems show ?thesis by (metis append_Cons walk.simps(2))
  qed
qed simp

section \<open>The breadth-first rollup\<close>

text \<open>
  The invariant of the loop, with the walks \<open>ws\<close> behind the queue entries: lengths rise by
  at most one along the queue, every border edge of the visited set is queued at the distance
  of its source plus one, and each record is the weight of a walk with the fewest hops.
\<close>

definition walks_ok :: "dimension \<Rightarrow> nat \<Rightarrow> (nat \<times> int) list \<Rightarrow> edge list list \<Rightarrow> bool" where
  "walks_ok d s q ws \<longleftrightarrow>
     list_all2 (\<lambda>(n, w) es. walk d s es n \<and> w = walk_weight es) q ws \<and>
     sorted (map length ws) \<and> (\<forall>es \<in> set ws. length es \<le> Suc (length (hd ws)))"

definition border_ok :: "dimension \<Rightarrow> nat \<Rightarrow> (nat \<times> int) list \<Rightarrow> edge list list \<Rightarrow> nat list \<Rightarrow> bool" where
  "border_ok d s q ws visited \<longleftrightarrow>
     (s \<in> set visited \<or> (\<exists>w. (s, w, []) \<in> set (zip (map fst q) (zip (map snd q) ws)))) \<and>
     (\<forall>v \<in> set visited. \<exists>es. min_hops d s es v \<and>
        (\<forall>e \<in> set (children d ! v). edge_child e \<notin> set visited \<longrightarrow>
           (\<exists>w fs. (edge_child e, w, fs) \<in> set (zip (map fst q) (zip (map snd q) ws)) \<and>
                   length fs \<le> Suc (length es))))"

definition acc_ok :: "dimension \<Rightarrow> nat \<Rightarrow> nat list \<Rightarrow> (nat \<times> int) list \<Rightarrow> bool" where
  "acc_ok d s visited acc \<longleftrightarrow>
     distinct (map fst acc) \<and>
     fst ` set acc = {v \<in> set visited. el_kind (elements d ! v) = Leaf} \<and>
     (\<forall>(l, w) \<in> set acc. \<exists>es. min_hops d s es l \<and> w = walk_weight es)"

lemma border_reaches:
  assumes "border_ok d s q ws visited" and "walk d s es t" and "t \<notin> set visited"
  shows "\<exists>n w fs. (n, w, fs) \<in> set (zip (map fst q) (zip (map snd q) ws)) \<and> length fs \<le> length es"
proof (cases "s \<in> set visited")
  case False
  with assms(1) show ?thesis unfolding border_ok_def by (metis le0 list.size(3))
next
  case True
  from walk_crosses [OF assms(2) True assms(3)] obtain pre e post v where
    es: "es = pre @ e # post" and pre: "walk d s pre v" and v: "v \<in> set visited"
    and e: "e \<in> set (children d ! v)" "edge_child e \<notin> set visited"
    by blast
  from assms(1) v e obtain ms w fs where "min_hops d s ms v"
    "(edge_child e, w, fs) \<in> set (zip (map fst q) (zip (map snd q) ws))" "length fs \<le> Suc (length ms)"
    unfolding border_ok_def by blast
  moreover from this pre have "length ms \<le> length pre" by (simp add: min_hops_def)
  ultimately show ?thesis using es by (metis (no_types) le_trans length_append length_Cons
      add_Suc_right Suc_le_mono le_add1)
qed

lemma head_min_hops:
  assumes "border_ok d s ((n, w) # q) (es # ws) visited" and "walks_ok d s ((n, w) # q) (es # ws)"
    and "n \<notin> set visited"
  shows "min_hops d s es n"
  unfolding min_hops_def
proof (intro conjI allI impI)
  show "walk d s es n" using assms(2) by (simp add: walks_ok_def)
  fix es' assume "walk d s es' n"
  from border_reaches [OF assms(1) this assms(3)] obtain m v fs where
    "(m, v, fs) \<in> set (zip (map fst ((n, w) # q)) (zip (map snd ((n, w) # q)) (es # ws)))"
    and le: "length fs \<le> length es'" by blast
  then have "fs \<in> set (es # ws)" by (auto dest: set_zip_rightD)
  then have "length es \<le> length fs" using assms(2) by (auto simp: walks_ok_def)
  with le show "length es \<le> length es'" by simp
qed

lemma walks_ok_tl:
  assumes "walks_ok d s (x # q) (es # ws)"
  shows "walks_ok d s q ws"
proof -
  have "length fs \<le> Suc (length (hd ws))" if "fs \<in> set ws" for fs
    using assms that by (cases ws) (auto simp: walks_ok_def)
  with assms show ?thesis by (simp add: walks_ok_def)
qed

lemma walks_ok_push:
  assumes "walks_ok d s ((n, w) # q) (es # ws)" and "n < length (children d)"
    and "set kids \<subseteq> set (children d ! n)"
  shows "walks_ok d s (q @ map (\<lambda>e. (edge_child e, sat_i64 (w * edge_weight e))) kids)
           (ws @ map (\<lambda>e. es @ [e]) kids)"
proof -
  have w: "w = walk_weight es" "walk d s es n" using assms(1) by (simp_all add: walks_ok_def)
  have all2: "list_all2 (\<lambda>(n, w) es. walk d s es n \<and> w = walk_weight es)
      (map (\<lambda>e. (edge_child e, sat_i64 (w * edge_weight e))) kids) (map (\<lambda>e. es @ [e]) kids)"
    using assms(2,3) w by (auto simp: list_all2_conv_all_nth walk_append subset_iff)
  have le: "\<forall>fs \<in> set ws. length es \<le> length fs \<and> length fs \<le> Suc (length es)"
    using assms(1) by (auto simp: walks_ok_def)
  have hd: "length es \<le> length (hd (ws @ map (\<lambda>e. es @ [e]) kids))"
    if "ws @ map (\<lambda>e. es @ [e]) kids \<noteq> []"
    using le that by (cases ws; cases kids) auto
  have "sorted (map length (ws @ map (\<lambda>e. es @ [e]) kids))"
  proof -
    have "sorted (map length ws)" using assms(1) by (simp add: walks_ok_def)
    moreover have "sorted (map (\<lambda>_. Suc (length es)) kids)"
      by (induction kids) auto
    ultimately show ?thesis using le by (auto simp: sorted_append comp_def)
  qed
  moreover have "length fs \<le> Suc (length (hd (ws @ map (\<lambda>e. es @ [e]) kids)))"
    if "fs \<in> set (ws @ map (\<lambda>e. es @ [e]) kids)" for fs
  proof -
    have "length fs \<le> Suc (length es)" using that le by auto
    moreover have "ws @ map (\<lambda>e. es @ [e]) kids \<noteq> []" using that by (metis empty_iff empty_set)
    ultimately show ?thesis using hd by linarith
  qed
  ultimately show ?thesis using assms(1) all2
    unfolding walks_ok_def by (auto intro: list_all2_appendI)
qed

definition leaves_bare :: "dimension \<Rightarrow> bool" where
  "leaves_bare d \<longleftrightarrow>
     (\<forall>p < length (elements d). el_kind (elements d ! p) \<noteq> Consolidated \<longrightarrow> children d ! p = [])"

text \<open>Dropping a visited head, visiting a node without children, and expanding a node.\<close>

lemma border_ok_skip:
  assumes "border_ok d s ((n, w) # q) (es # ws) visited" and "n \<in> set visited"
  shows "border_ok d s q ws visited"
  using assms unfolding border_ok_def by fastforce

lemma border_ok_visit:
  assumes "border_ok d s ((n, w) # q) (es # ws) visited" and "min_hops d s es n"
    and len: "length q = length ws"
  shows "border_ok d s (q @ map (\<lambda>e. (edge_child e, f e)) (children d ! n))
           (ws @ map (\<lambda>e. es @ [e]) (children d ! n)) (n # visited)"
proof -
  let ?Z = "\<lambda>q ws. set (zip (map fst q) (zip (map snd q) ws))"
  let ?q = "q @ map (\<lambda>e. (edge_child e, f e)) (children d ! n)"
  let ?ws = "ws @ map (\<lambda>e. es @ [e]) (children d ! n)"
  have Z: "?Z ?q ?ws = ?Z q ws \<union> (\<lambda>e. (edge_child e, f e, es @ [e])) ` set (children d ! n)"
    using len by (auto simp: zip_append zip_map_map zip_same_conv_map comp_def)
  have start: "s \<in> set (n # visited) \<or> (\<exists>w. (s, w, []) \<in> ?Z ?q ?ws)"
    using assms(1) unfolding border_ok_def Z by auto
  have old: "\<exists>ms. min_hops d s ms v \<and> (\<forall>e \<in> set (children d ! v). edge_child e \<notin> set (n # visited) \<longrightarrow>
      (\<exists>w fs. (edge_child e, w, fs) \<in> ?Z ?q ?ws \<and> length fs \<le> Suc (length ms)))"
    if "v \<in> set visited" for v
  proof -
    from assms(1) that obtain ms where ms: "min_hops d s ms v"
      and b: "\<And>e. e \<in> set (children d ! v) \<Longrightarrow> edge_child e \<notin> set visited \<Longrightarrow>
        \<exists>u fs. (edge_child e, u, fs) \<in> ?Z ((n, w) # q) (es # ws) \<and> length fs \<le> Suc (length ms)"
      unfolding border_ok_def by blast
    have "\<exists>u fs. (edge_child e, u, fs) \<in> ?Z ?q ?ws \<and> length fs \<le> Suc (length ms)"
      if "e \<in> set (children d ! v)" "edge_child e \<notin> set (n # visited)" for e
      using b [OF that(1)] that(2) unfolding Z by fastforce
    with ms show ?thesis by blast
  qed
  have new: "\<exists>ms. min_hops d s ms n \<and> (\<forall>e \<in> set (children d ! n). edge_child e \<notin> set (n # visited) \<longrightarrow>
      (\<exists>w fs. (edge_child e, w, fs) \<in> ?Z ?q ?ws \<and> length fs \<le> Suc (length ms)))"
    using assms(2) unfolding Z by (intro exI [of _ es]) fastforce
  from start old new show ?thesis unfolding border_ok_def by simp
qed

lemma fst_AList_update: "fst ` set (AList.update k v al) = insert k (fst ` set al)"
  by (simp add: dom_update [simplified dom_map_of_conv_image_fst])

lemma in_AList_update_fresh:
  "k \<notin> fst ` set al \<Longrightarrow> set (AList.update k v al) = insert (k, v) (set al)"
  by (induction al) auto

lemma acc_ok_visit:
  assumes "acc_ok d s visited acc" and "n \<notin> set visited" and "min_hops d s es n"
  shows "acc_ok d s (n # visited)
           (if el_kind (elements d ! n) = Leaf then AList.update n (walk_weight es) acc else acc)"
proof -
  have "n \<notin> fst ` set acc" using assms(1,2) by (auto simp: acc_ok_def)
  with assms show ?thesis
    by (auto simp: acc_ok_def in_AList_update_fresh distinct_update)
qed

lemma bfs_correct:
  assumes "edges_in_range d" and "leaves_bare d"
    and "walks_ok d s q ws" and "border_ok d s q ws visited" and "acc_ok d s visited acc"
    and "fst ` set q \<subseteq> {..<length (elements d)}"
  shows "\<exists>acc' visited'. bfs d q visited acc = Some acc' \<and> acc_ok d s visited' acc' \<and>
           border_ok d s [] [] visited'"
  using assms
proof (induction d q visited acc arbitrary: ws rule: bfs.induct [case_names Nil Cons])
  case (Nil d visited acc)
  then have "ws = []" by (simp add: walks_ok_def)
  with Nil show ?case by auto
next
  case (Cons d n w q visited acc)
  note rng = Cons.prems(1) and bare = Cons.prems(2)
  from Cons.prems(3) obtain es ws' where ws: "ws = es # ws'" and w: "w = walk_weight es"
    and len: "length q = length ws'"
    by (cases ws) (auto simp: walks_ok_def list_all2_lengthD)
  note wk = Cons.prems(3) [unfolded ws] and bd = Cons.prems(4) [unfolded ws]
  note tl = walks_ok_tl [OF wk]
  have n: "n < length (elements d)" and q: "fst ` set q \<subseteq> {..<length (elements d)}"
    using Cons.prems(6) by auto
  show ?case
  proof (cases "n \<in> set visited")
    case True
    from Cons.IH(1) [OF True rng bare tl border_ok_skip [OF bd True] Cons.prems(5) q] True
    show ?thesis by simp
  next
    case False
    have mh: "min_hops d s es n" by (rule head_min_hops [OF bd wk False])
    note acc = acc_ok_visit [OF Cons.prems(5) False mh, folded w]
    note bord = border_ok_visit [OF bd mh len, where f = "\<lambda>e. sat_i64 (w * edge_weight e)"]
    have nn: "\<not> length (elements d) \<le> n" using n by simp
    show ?thesis
    proof (cases "el_kind (elements d ! n)")
      case Leaf
      then have kids: "children d ! n = []" using bare n by (simp add: leaves_bare_def)
      from Cons.IH(2) [OF False nn Leaf rng bare tl _ _ q] bord acc kids Leaf False nn
      show ?thesis by simp
    next
      case Str
      then have kids: "children d ! n = []" using bare n by (simp add: leaves_bare_def)
      from Cons.IH(3) [OF False nn Str rng bare tl _ _ q] bord acc kids Str False nn
      show ?thesis by simp
    next
      case Consolidated
      let ?kids = "map (\<lambda>e. (edge_child e, sat_i64 (w * edge_weight e))) (children d ! n)"
      have lc: "n < length (children d)" using n rng by (simp add: edges_in_range_def)
      have "fst ` set (q @ ?kids) \<subseteq> {..<length (elements d)}"
        using q edges_in_rangeD [OF rng n] by auto
      from Cons.IH(4) [OF False nn Consolidated rng bare walks_ok_push [OF wk lc subset_refl] bord _ this]
        acc Consolidated False nn
      show ?thesis by simp
    qed
  qed
qed

section \<open>What leaf_weights returns\<close>

lemma bfs_start:
  "walks_ok d s [(s, 1)] [[]]" "border_ok d s [(s, 1)] [[]] []" "acc_ok d s [] []"
  by (simp_all add: walks_ok_def border_ok_def acc_ok_def)

lemma closed_visited:
  assumes "border_ok d s [] [] visited" and "edges_in_range d"
  shows "v \<in> set visited \<longleftrightarrow> (s, v) \<in> (edge_rel d)\<^sup>*"
proof
  assume "v \<in> set visited"
  then show "(s, v) \<in> (edge_rel d)\<^sup>*"
    using assms(1) by (auto simp: border_ok_def min_hops_def dest: walk_rtrancl)
next
  assume "(s, v) \<in> (edge_rel d)\<^sup>*"
  then show "v \<in> set visited"
  proof (induction rule: rtrancl_induct)
    case base
    then show ?case using assms(1) by (simp add: border_ok_def)
  next
    case (step y z)
    then show ?case using assms(1) by (fastforce simp: border_ok_def edge_rel_iff)
  qed
qed

lemma leaf_weights_bfs:
  assumes "edges_in_range d" and "leaves_bare d" and "s < length (elements d)"
  obtains acc where "leaf_weights d s = Inr (sort_key fst (filter (\<lambda>(_, w). w \<noteq> 0) acc))"
    and "distinct (map fst acc)"
    and "fst ` set acc = {l. (s, l) \<in> (edge_rel d)\<^sup>* \<and> el_kind (elements d ! l) = Leaf}"
    and "\<And>l w. (l, w) \<in> set acc \<Longrightarrow> \<exists>es. min_hops d s es l \<and> w = walk_weight es"
proof -
  obtain acc visited where b: "bfs d [(s, 1)] [] [] = Some acc"
    and a: "acc_ok d s visited acc" and v: "border_ok d s [] [] visited"
  proof -
    have "fst ` set [(s, 1 :: int)] \<subseteq> {..<length (elements d)}" using assms(3) by simp
    from bfs_correct [OF assms(1,2) bfs_start this] that show thesis by blast
  qed
  show thesis
  proof
    show "leaf_weights d s = Inr (sort_key fst (filter (\<lambda>(_, w). w \<noteq> 0) acc))"
      using assms(3) by (simp add: leaf_weights_def get_element_def b del: bfs.simps)
    show "fst ` set acc = {l. (s, l) \<in> (edge_rel d)\<^sup>* \<and> el_kind (elements d ! l) = Leaf}"
      using a closed_visited [OF v assms(1)] by (auto simp: acc_ok_def)
  qed (use a in \<open>auto simp: acc_ok_def\<close>)
qed

lemma sorted_distinct_key:
  "distinct (map fst xs) \<Longrightarrow> sorted_wrt (<) (map fst (sort_key fst xs :: (nat \<times> 'b) list))"
  by (simp add: strict_sorted_iff distinct_map inj_on_def)

lemma leaf_weights_ok:
  assumes "edges_in_range d" and "leaves_bare d" and "s < length (elements d)"
  obtains ws where "leaf_weights d s = Inr ws"
    and "sorted_wrt (<) (map fst ws)"
    and "\<And>l w. (l, w) \<in> set ws \<Longrightarrow> (s, l) \<in> (edge_rel d)\<^sup>* \<and> el_kind (elements d ! l) = Leaf \<and>
           w \<noteq> 0 \<and> (\<exists>es. min_hops d s es l \<and> w = walk_weight es)"
    and "\<And>l. (s, l) \<in> (edge_rel d)\<^sup>* \<Longrightarrow> el_kind (elements d ! l) = Leaf \<Longrightarrow> l \<notin> fst ` set ws \<Longrightarrow>
           \<exists>es. min_hops d s es l \<and> walk_weight es = 0"
proof -
  obtain acc where lw: "leaf_weights d s = Inr (sort_key fst (filter (\<lambda>(_, w). w \<noteq> 0) acc))"
    and dist: "distinct (map fst acc)"
    and dom: "fst ` set acc = {l. (s, l) \<in> (edge_rel d)\<^sup>* \<and> el_kind (elements d ! l) = Leaf}"
    and wts: "\<And>l w. (l, w) \<in> set acc \<Longrightarrow> \<exists>es. min_hops d s es l \<and> w = walk_weight es"
    using leaf_weights_bfs [OF assms] by blast
  show thesis
  proof
    show "sorted_wrt (<) (map fst (sort_key fst (filter (\<lambda>(_, w). w \<noteq> 0) acc)))"
      using dist by (intro sorted_distinct_key distinct_map_filter)
  next
    fix l assume "(s, l) \<in> (edge_rel d)\<^sup>*" "el_kind (elements d ! l) = Leaf"
      and out: "l \<notin> fst ` set (sort_key fst (filter (\<lambda>(_, w). w \<noteq> 0) acc))"
    then have "l \<in> fst ` set acc" using dom by blast
    then obtain w where "(l, w) \<in> set acc" by auto
    with out wts show "\<exists>es. min_hops d s es l \<and> walk_weight es = 0" by force
  next
    fix l w assume "(l, w) \<in> set (sort_key fst (filter (\<lambda>(_, w). w \<noteq> 0) acc))"
    then have "(l, w) \<in> set acc" "w \<noteq> 0" by auto
    moreover from this have "l \<in> fst ` set acc" by force
    ultimately show "(s, l) \<in> (edge_rel d)\<^sup>* \<and> el_kind (elements d ! l) = Leaf \<and>
        w \<noteq> 0 \<and> (\<exists>es. min_hops d s es l \<and> w = walk_weight es)"
      using wts dom by blast
  qed (rule lw)
qed

end
