(* ===== verification/Dimension_Wf.thy ===== *)
theory Dimension_Wf
  imports Dimension_Graph
begin

text \<open>
  The well-formedness invariant of a dimension and its preservation by every operation: the
  parallel lists agree, the name, attribute and alias indices say exactly what the lists say,
  edges are in range, leaves have no children, and the hierarchy is acyclic.
\<close>

definition shape_ok :: "dimension \<Rightarrow> bool" where
  "shape_ok d \<longleftrightarrow>
     length (children d) = length (elements d) \<and> length (attr_values d) = length (elements d) \<and>
     length (elements d) \<le> u32_max \<and> length (attributes d) \<le> u32_max"

definition names_ok :: "dimension \<Rightarrow> bool" where
  "names_ok d \<longleftrightarrow>
     distinct (map el_name (elements d)) \<and>
     index_by_name d = (\<lambda>n. position (\<lambda>e. el_name e = n) (elements d))"

definition attrs_ok :: "dimension \<Rightarrow> bool" where
  "attrs_ok d \<longleftrightarrow>
     distinct (map attr_name (attributes d)) \<and>
     attr_index_by_name d = (\<lambda>n. position (\<lambda>a. attr_name a = n) (attributes d)) \<and>
     (\<forall>row \<in> set (attr_values d). distinct (map fst row) \<and>
        (\<forall>(k, v) \<in> set row. k < length (attributes d) \<and> type_ok (attr_kind (attributes d ! k)) v))"

definition holds_row :: "attribute_def list \<Rightarrow> attr_row \<Rightarrow> string \<Rightarrow> bool" where
  "holds_row defs row a \<longleftrightarrow> (\<exists>(k, v) \<in> set row. attr_kind (defs ! k) = KAlias \<and> v = Text a)"

definition alias_unique :: "attribute_def list \<Rightarrow> attr_row list \<Rightarrow> bool" where
  "alias_unique defs rows \<longleftrightarrow>
     (\<forall>a i j. i < length rows \<longrightarrow> j < length rows \<longrightarrow> holds_row defs (rows ! i) a \<longrightarrow>
        holds_row defs (rows ! j) a \<longrightarrow> i = j)"

definition aliases_ok :: "dimension \<Rightarrow> bool" where
  "aliases_ok d \<longleftrightarrow>
     (\<forall>a i. alias_to_element d a = Some i \<longleftrightarrow>
        i < length (attr_values d) \<and> holds_row (attributes d) (attr_values d ! i) a)"

definition dim_wf :: "dimension \<Rightarrow> bool" where
  "dim_wf d \<longleftrightarrow> shape_ok d \<and> names_ok d \<and> attrs_ok d \<and> aliases_ok d \<and>
     edges_in_range d \<and> leaves_bare d \<and> acyclic (edge_rel d)"

lemmas dim_wf_parts = dim_wf_def shape_ok_def names_ok_def attrs_ok_def

lemma dim_wf_shape:
  assumes "dim_wf d"
  shows "length (children d) = length (elements d)" "length (attr_values d) = length (elements d)"
    "length (elements d) \<le> u32_max" "dim_len d = length (elements d)"
  using assms by (simp_all add: dim_wf_def shape_ok_def dim_len_def)

lemma dim_wf_graph:
  assumes "dim_wf d" shows "edges_in_range d" "leaves_bare d" "acyclic (edge_rel d)"
  using assms by (simp_all add: dim_wf_def)

lemma index_of_Some:
  assumes "dim_wf d"
  shows "index_of d n = Some i \<longleftrightarrow> i < length (elements d) \<and> el_name (elements d ! i) = n"
proof
  assume "index_of d n = Some i"
  then show "i < length (elements d) \<and> el_name (elements d ! i) = n"
    using assms by (auto simp: index_of_def dim_wf_def names_ok_def dest: position_SomeD)
next
  assume "i < length (elements d) \<and> el_name (elements d ! i) = n"
  then show "index_of d n = Some i"
    using assms position_map_distinct [of el_name "elements d" i]
    by (auto simp: index_of_def dim_wf_def names_ok_def)
qed

lemma get_element_Inr [simp]:
  "get_element d i = Inr e \<longleftrightarrow> i < length (elements d) \<and> e = elements d ! i"
  by (auto simp: get_element_def)

lemma acyclic_pullback:
  assumes "acyclic R" and "\<And>p c. (p, c) \<in> R' \<Longrightarrow> (g p, g c) \<in> R"
  shows "acyclic R'"
proof -
  have "(g x, g y) \<in> R\<^sup>+" if "(x, y) \<in> R'\<^sup>+" for x y
    using that by (induction rule: trancl_induct) (auto intro: assms(2) trancl_into_trancl)
  with assms(1) show ?thesis unfolding acyclic_def by blast
qed

section \<open>Rebuilding the indices\<close>

lemma name_index_snoc:
  "name_index (els @ [x]) = (name_index els)(el_name x \<mapsto> as_u32 (length els))"
  by (simp add: name_index_def enumerate_append_eq)

lemma name_index_position:
  assumes "distinct (map el_name els)" and "length els \<le> u32_max"
  shows "name_index els = (\<lambda>n. position (\<lambda>e. el_name e = n) els)"
  using assms
proof (induction els rule: rev_induct)
  case Nil
  then show ?case by (simp add: name_index_def)
next
  case (snoc x xs)
  then have IH: "name_index xs = (\<lambda>n. position (\<lambda>e. el_name e = n) xs)" by simp
  have none: "position (\<lambda>e. el_name e = el_name x) xs = None"
  proof -
    have "el_name x \<notin> el_name ` set xs" using snoc.prems by simp
    then show ?thesis unfolding position_None by (metis image_eqI)
  qed
  show ?case
    using snoc.prems none by (auto simp: name_index_snoc IH position_snoc split: option.splits)
qed

lemma alias_row_eq:
  "alias_row defs i m row = (\<lambda>a. if holds_row defs row a then Some (as_u32 i) else m a)"
proof (induction row rule: rev_induct)
  case Nil
  then show ?case by (simp add: alias_row_def holds_row_def)
next
  case (snoc kv row)
  obtain k v where kv: "kv = (k, v)" by force
  have "alias_row defs i m (row @ [kv]) =
      (if attr_kind (defs ! k) = KAlias
       then (case v of Text alias \<Rightarrow> (alias_row defs i m row)(alias \<mapsto> as_u32 i)
                     | _ \<Rightarrow> alias_row defs i m row)
       else alias_row defs i m row)"
    unfolding alias_row_def kv by (simp split: attribute_value.split)
  with snoc.IH show ?case
    by (cases v) (auto simp: holds_row_def kv fun_eq_iff)
qed

lemma alias_index_snoc:
  "alias_index defs (rows @ [row]) =
     (\<lambda>a. if holds_row defs row a then Some (as_u32 (length rows)) else alias_index defs rows a)"
proof -
  have "alias_index defs (rows @ [row]) =
      alias_row defs (length rows) (alias_index defs rows) row"
    unfolding alias_index_def by (simp add: enumerate_append_eq)
  then show ?thesis by (simp add: alias_row_eq)
qed

lemma alias_index_Some:
  assumes "alias_unique defs rows" and "length rows \<le> u32_max"
  shows "alias_index defs rows a = Some i \<longleftrightarrow> i < length rows \<and> holds_row defs (rows ! i) a"
  using assms
proof (induction rows arbitrary: i rule: rev_induct)
  case Nil
  then show ?case by (simp add: alias_index_def)
next
  case (snoc row rows)
  let ?R = "rows @ [row]"
  have nth: "\<And>j. j < length rows \<Longrightarrow> ?R ! j = rows ! j" by (simp add: nth_append)
  have uni: "alias_unique defs rows"
    using snoc.prems(1) unfolding alias_unique_def
    by (metis length_append less_or_eq_imp_le nth trans_less_add1)
  note IH = snoc.IH [OF uni]
  have "\<not> holds_row defs (rows ! j) a" if "holds_row defs row a" "j < length rows" for j
  proof
    assume "holds_row defs (rows ! j) a"
    then have "holds_row defs (?R ! j) a" "holds_row defs (?R ! length rows) a"
      using that nth by simp_all
    then have "j = length rows"
      using snoc.prems(1) that(2) unfolding alias_unique_def
      by (metis length_append_singleton less_Suc_eq)
    with that(2) show False by simp
  qed
  then show ?case
    using snoc.prems(2) IH by (auto simp: alias_index_snoc nth_append less_Suc_eq)
qed

lemma aliases_ok_unique: "aliases_ok d \<Longrightarrow> alias_unique (attributes d) (attr_values d)"
  unfolding aliases_ok_def alias_unique_def by (metis option.inject)

lemma reindex_wf:
  assumes "distinct (map el_name (elements d))" and "alias_unique (attributes d) (attr_values d)"
    and "shape_ok d"
  shows "names_ok (reindex_names d)" "aliases_ok (reindex_names d)"
  using assms
  by (auto simp: names_ok_def aliases_ok_def reindex_names_def name_index_position shape_ok_def
      alias_index_Some)

lemma reindex_same [simp]:
  "elements (reindex_names d) = elements d" "children (reindex_names d) = children d"
  "attr_values (reindex_names d) = attr_values d" "attributes (reindex_names d) = attributes d"
  "attr_index_by_name (reindex_names d) = attr_index_by_name d"
  "dim_name (reindex_names d) = dim_name d"
  by (simp_all add: reindex_names_def)

section \<open>New elements, attributes and edges\<close>

lemma dim_wf_new [wf_intros]: "dim_wf (dim_new name)"
  by (simp add: dim_wf_parts dim_new_def edges_in_range_def leaves_bare_def aliases_ok_def
      edge_rel_def acyclic_def)

lemma snoc_position_fresh:
  assumes "position (\<lambda>e. f e = n) xs = None"
  shows "(\<lambda>m. position (\<lambda>e. f e = m) (xs @ [x])) =
         (\<lambda>m. position (\<lambda>e. f e = m) xs)(f x := position (\<lambda>e. f e = f x) (xs @ [x]))"
  by (auto simp: position_snoc split: option.splits)

lemma add_element_wf [wf_intros]:
  assumes "dim_wf d" and "length (elements d) < u32_max"
  shows "dim_wf (snd (add_element name kind d))"
proof (cases "index_by_name d name")
  case (Some i)
  with assms show ?thesis by (simp add: add_element_def)
next
  case None
  let ?x = "\<lparr>el_name = name, el_kind = kind, el_pinned = False\<rparr>"
  let ?d = "snd (add_element name kind d)"
  have fresh: "\<forall>e \<in> set (elements d). el_name e \<noteq> name"
    using assms(1) None by (auto simp: dim_wf_def names_ok_def position_None)
  then have none: "position (\<lambda>e. el_name e = name) (elements d) = None"
    by (simp add: position_None)
  have d: "elements ?d = elements d @ [?x]" "children ?d = children d @ [[]]"
    "attr_values ?d = attr_values d @ [[]]" "attributes ?d = attributes d"
    "attr_index_by_name ?d = attr_index_by_name d" "alias_to_element ?d = alias_to_element d"
    "index_by_name ?d = (index_by_name d)(name \<mapsto> length (elements d))"
    using assms None by (simp_all add: add_element_def dim_wf_def shape_ok_def Let_def)
  have names: "names_ok ?d"
    using assms(1) fresh none
    by (auto simp: names_ok_def d dim_wf_def position_snoc fun_eq_iff split: option.splits)
  have al: "aliases_ok ?d"
    using assms(1) by (auto simp: aliases_ok_def d dim_wf_def nth_append holds_row_def less_Suc_eq)
  have rel: "edge_rel ?d = edge_rel d"
    by (auto simp: edge_rel_def d nth_append less_Suc_eq)
  show ?thesis
    using assms names al
    by (auto simp: dim_wf_parts rel d edges_in_range_def leaves_bare_def nth_append less_Suc_eq)
qed

lemma add_attribute_wf [wf_intros]:
  assumes "dim_wf d" and "length (attributes d) < u32_max"
  shows "dim_wf (snd (add_attribute name kind d))"
proof (cases "attr_index_by_name d name")
  case (Some i)
  with assms show ?thesis by (simp add: add_attribute_def)
next
  case None
  let ?x = "\<lparr>attr_name = name, attr_kind = kind\<rparr>"
  let ?d = "snd (add_attribute name kind d)"
  have fresh: "\<forall>e \<in> set (attributes d). attr_name e \<noteq> name"
    using assms(1) None by (auto simp: dim_wf_def attrs_ok_def position_None)
  then have none: "position (\<lambda>e. attr_name e = name) (attributes d) = None"
    by (simp add: position_None)
  have d: "elements ?d = elements d" "children ?d = children d" "attr_values ?d = attr_values d"
    "attributes ?d = attributes d @ [?x]" "index_by_name ?d = index_by_name d"
    "attr_index_by_name ?d = (attr_index_by_name d)(name \<mapsto> length (attributes d))"
    "alias_to_element ?d = alias_to_element d"
    using assms None by (simp_all add: add_attribute_def dim_wf_def shape_ok_def Let_def)
  have old: "k < length (attributes d)" if "row \<in> set (attr_values d)" "(k, v) \<in> set row" for row k v
    using assms(1) that by (auto simp: dim_wf_def attrs_ok_def)
  have attrs: "attrs_ok ?d"
    using assms(1) fresh none old
    by (fastforce simp: attrs_ok_def d dim_wf_def position_snoc fun_eq_iff nth_append split: option.splits)
  have hold: "holds_row (attributes d @ [?x]) row a = holds_row (attributes d) row a"
    if "row \<in> set (attr_values d)" for row a
    using old [OF that] by (fastforce simp: holds_row_def nth_append)
  have al: "aliases_ok ?d"
    using assms(1) hold by (auto simp: aliases_ok_def d dim_wf_def)
  have rel: "edge_rel ?d = edge_rel d"
    by (simp add: edge_rel_def d)
  show ?thesis
    using assms attrs al
    by (auto simp: dim_wf_def shape_ok_def names_ok_def rel d edges_in_range_def leaves_bare_def)
qed

section \<open>Editing attributes, pins and kinds\<close>

lemma set_AList_update: "set (AList.update k v row) \<subseteq> insert (k, v) (set row)"
  by (induction row) auto

lemma holds_row_update:
  assumes "distinct (map fst row)"
  shows "holds_row defs (AList.update k v row) a \<longleftrightarrow>
     (attr_kind (defs ! k) = KAlias \<and> v = Text a) \<or>
     (\<exists>(k', v') \<in> set row. k' \<noteq> k \<and> attr_kind (defs ! k') = KAlias \<and> v' = Text a)"
proof -
  have "set (AList.update k v row) = insert (k, v) {p \<in> set row. fst p \<noteq> k}"
    using assms by (induction row) (auto, force+)
  then show ?thesis unfolding holds_row_def by auto
qed

lemma set_attribute_Inr:
  assumes "set_attribute i attribute v d = Inr d'"
  obtains k where "i < length (elements d)" and "attribute_index d attribute = Some k"
    and "type_ok (attr_kind (attributes d ! k)) v"
    and "attr_kind (attributes d ! k) \<noteq> KAlias \<longrightarrow> d' = put_attr i k v d"
    and "attr_kind (attributes d ! k) = KAlias \<longrightarrow>
      (\<exists>a. v = Text a \<and> (alias_to_element d a = None \<or> alias_to_element d a = Some i) \<and>
          d' = put_attr i k v (d\<lparr>alias_to_element := (drop_prev_alias d i k a)(a \<mapsto> i)\<rparr>))"
proof -
  from assms obtain k where k: "i < length (elements d)" "attribute_index d attribute = Some k"
    and rest: "(let kind = attr_kind (attributes d ! k) in
       if \<not> type_ok kind v then Inl (AttributeTypeMismatch (dim_name d) attribute)
       else case (kind, v) of
         (KAlias, Text a) \<Rightarrow>
           (case alias_to_element d a of
              Some owner \<Rightarrow>
                if owner \<noteq> i then Inl (AliasConflict (dim_name d) a)
                else Inr (put_attr i k v
                            (d\<lparr>alias_to_element := (drop_prev_alias d i k a)(a \<mapsto> i)\<rparr>))
            | None \<Rightarrow> Inr (put_attr i k v
                       (d\<lparr>alias_to_element := (drop_prev_alias d i k a)(a \<mapsto> i)\<rparr>)))
       | _ \<Rightarrow> Inr (put_attr i k v d)) = Inr d'"
    unfolding set_attribute_def by auto
  show thesis
  proof (rule that [OF k])
    show "type_ok (attr_kind (attributes d ! k)) v"
      using rest by (simp add: Let_def split: if_splits)
    show "attr_kind (attributes d ! k) \<noteq> KAlias \<longrightarrow> d' = put_attr i k v d"
      using rest by (simp add: Let_def split: if_splits attribute_kind.splits attribute_value.splits)
    show "attr_kind (attributes d ! k) = KAlias \<longrightarrow>
      (\<exists>a. v = Text a \<and> (alias_to_element d a = None \<or> alias_to_element d a = Some i) \<and>
          d' = put_attr i k v (d\<lparr>alias_to_element := (drop_prev_alias d i k a)(a \<mapsto> i)\<rparr>))"
      using rest by (auto simp: Let_def split: if_splits attribute_value.splits option.splits)
  qed
qed

text \<open>
  The text an element held for the attribute stays resolvable exactly when another Alias
  attribute of the element still carries it.
\<close>

lemma drop_prev_alias_eq:
  assumes "dim_wf d" and "i < length (elements d)"
    and "alias_to_element d a = None \<or> alias_to_element d a = Some i"
    and "attr_kind (attributes d ! k) = KAlias"
  shows "((drop_prev_alias d i k a)(a \<mapsto> i)) b =
     (if b = a \<or> (\<exists>(k', v') \<in> set (attr_values d ! i). k' \<noteq> k \<and> attr_kind (attributes d ! k') = KAlias \<and> v' = Text b)
      then Some i
      else if alias_to_element d b = Some i then None else alias_to_element d b)"
proof -
  let ?row = "attr_values d ! i"
  have row: "i < length (attr_values d)" using assms(1,2) by (simp add: dim_wf_shape)
  have dist: "distinct (map fst ?row)"
    using assms(1) row by (simp add: dim_wf_def attrs_ok_def)
  have held: "alias_to_element d b = Some i \<longleftrightarrow>
      (\<exists>(k', v') \<in> set ?row. attr_kind (attributes d ! k') = KAlias \<and> v' = Text b)" for b
    using assms(1) row by (simp add: dim_wf_def aliases_ok_def holds_row_def)
  let ?other = "\<lambda>b. \<exists>(k', v') \<in> set ?row. k' \<noteq> k \<and> attr_kind (attributes d ! k') = KAlias \<and> v' = Text b"
  have still: "still_held d i k b \<longleftrightarrow> ?other b" for b
    by (auto simp: still_held_def list_ex_iff is_alias_attr_def)
  have own: "alias_to_element d b = Some i \<longleftrightarrow> ?other b \<or> map_of ?row k = Some (Text b)" for b
    unfolding held using dist assms(4) by (auto simp: map_of_eq_Some_iff)
  have drop: "drop_prev_alias d i k a =
      (case map_of ?row k of Some (Text p) \<Rightarrow>
         if p \<noteq> a \<and> \<not> ?other p then (alias_to_element d)(p := None) else alias_to_element d
       | _ \<Rightarrow> alias_to_element d)"
    using own by (auto simp: drop_prev_alias_def still split: option.splits attribute_value.splits)
  consider "b = a" | "b \<noteq> a" "?other b" | "b \<noteq> a" "\<not> ?other b" "map_of ?row k = Some (Text b)"
    | "b \<noteq> a" "\<not> ?other b" "map_of ?row k \<noteq> Some (Text b)" by blast
  then show ?thesis
  proof cases
    case 1
    then show ?thesis by simp
  next
    case 2
    then show ?thesis using own [of b]
      by (auto simp: drop split: option.splits attribute_value.splits)
  next
    case 3
    then show ?thesis using own [of b] by (auto simp: drop)
  next
    case 4
    then have "alias_to_element d b \<noteq> Some i" using own [of b] by blast
    with 4 show ?thesis by (auto simp: drop split: option.splits attribute_value.splits)
  qed
qed

lemma set_attribute_wf [wf_intros]:
  assumes "dim_wf d" and "set_attribute i attribute v d = Inr d'"
  shows "dim_wf d'"
proof -
  from assms(2) obtain k where i: "i < length (elements d)" and k: "attribute_index d attribute = Some k"
    and ty: "type_ok (attr_kind (attributes d ! k)) v"
    and plain: "attr_kind (attributes d ! k) \<noteq> KAlias \<longrightarrow> d' = put_attr i k v d"
    and al: "attr_kind (attributes d ! k) = KAlias \<longrightarrow>
      (\<exists>a. v = Text a \<and> (alias_to_element d a = None \<or> alias_to_element d a = Some i) \<and>
          d' = put_attr i k v (d\<lparr>alias_to_element := (drop_prev_alias d i k a)(a \<mapsto> i)\<rparr>))"
    by (rule set_attribute_Inr)
  let ?row = "attr_values d ! i"
  let ?rows = "(attr_values d)[i := AList.update k v ?row]"
  have row: "i < length (attr_values d)" "distinct (map fst ?row)"
    using assms(1) i by (simp_all add: dim_wf_shape dim_wf_def attrs_ok_def)
  have kk: "k < length (attributes d)"
    using assms(1) k by (auto simp: dim_wf_def attrs_ok_def attribute_index_def dest: position_SomeD)
  have same: "elements d' = elements d" "children d' = children d" "attributes d' = attributes d"
    "attr_index_by_name d' = attr_index_by_name d" "index_by_name d' = index_by_name d"
    "attr_values d' = ?rows"
  proof -
    have "\<exists>f. d' = put_attr i k v (d\<lparr>alias_to_element := f\<rparr>)"
    proof (cases "attr_kind (attributes d ! k) = KAlias")
      case True
      with al show ?thesis by blast
    next
      case False
      with plain show ?thesis by (intro exI [of _ "alias_to_element d"]) simp
    qed
    then obtain f where "d' = put_attr i k v (d\<lparr>alias_to_element := f\<rparr>)" ..
    then show "elements d' = elements d" "children d' = children d" "attributes d' = attributes d"
      "attr_index_by_name d' = attr_index_by_name d" "index_by_name d' = index_by_name d"
      "attr_values d' = ?rows"
      by (simp_all add: put_attr_def)
  qed
  have good: "distinct (map fst r) \<and>
      (\<forall>(k, v) \<in> set r. k < length (attributes d) \<and> type_ok (attr_kind (attributes d ! k)) v)"
    if "r \<in> set ?rows" for r
  proof (cases "r \<in> set (attr_values d)")
    case True
    then show ?thesis using assms(1) by (simp add: dim_wf_def attrs_ok_def)
  next
    case False
    with that have r: "r = AList.update k v ?row"
      using set_update_subset_insert [of "attr_values d" i "AList.update k v ?row"] by blast
    have "?row \<in> set (attr_values d)" using row(1) by simp
    then have "\<forall>(k, v) \<in> set ?row. k < length (attributes d) \<and> type_ok (attr_kind (attributes d ! k)) v"
      using assms(1) unfolding dim_wf_def attrs_ok_def by blast
    then have "\<forall>(k, v) \<in> insert (k, v) (set ?row).
        k < length (attributes d) \<and> type_ok (attr_kind (attributes d ! k)) v"
      using kk ty by simp
    moreover have "distinct (map fst (AList.update k v ?row))" by (rule distinct_update [OF row(2)])
    ultimately show ?thesis unfolding r using set_AList_update [of k v ?row] by (meson subsetD)
  qed
  have attrs: "attrs_ok d'"
    unfolding attrs_ok_def same using good assms(1) by (simp add: dim_wf_def attrs_ok_def)
  have others: "holds_row (attributes d) (?rows ! j) a = holds_row (attributes d) (attr_values d ! j) a"
    if "j \<noteq> i" for j a using that by simp
  note hr = holds_row_update [OF row(2), of "attributes d" k v]
  have ok: "aliases_ok d'"
  proof (cases "attr_kind (attributes d ! k) = KAlias")
    case False
    have "holds_row (attributes d) (AList.update k v ?row) a = holds_row (attributes d) ?row a" for a
      unfolding hr using False by (auto simp: holds_row_def)
    with False assms(1) row others show ?thesis
      by (auto simp: aliases_ok_def same dim_wf_def plain put_attr_def nth_list_update)
  next
    case True
    then obtain a where v: "v = Text a" and free: "alias_to_element d a = None \<or> alias_to_element d a = Some i"
      and d': "alias_to_element d' = (drop_prev_alias d i k a)(a \<mapsto> i)"
      using al by (auto simp: put_attr_def)
    have old: "alias_to_element d b = Some j \<longleftrightarrow>
        j < length (attr_values d) \<and> holds_row (attributes d) (attr_values d ! j) b" for b j
      using assms(1) by (simp add: dim_wf_def aliases_ok_def)
    show ?thesis
      unfolding aliases_ok_def
    proof (intro allI)
      fix b j
      have new: "holds_row (attributes d) (?rows ! j) b \<longleftrightarrow>
          (if j = i then b = a \<or> (\<exists>(k', v') \<in> set ?row. k' \<noteq> k \<and> attr_kind (attributes d ! k') = KAlias \<and> v' = Text b)
           else holds_row (attributes d) (attr_values d ! j) b)"
        using row(1) True by (auto simp: hr [unfolded v] v)
      have clash: "\<not> (b = a \<and> j \<noteq> i \<and> alias_to_element d b = Some j)"
        using free by auto
      have held: "(\<exists>(k', v') \<in> set ?row. k' \<noteq> k \<and> attr_kind (attributes d ! k') = KAlias \<and> v' = Text b)
          \<Longrightarrow> alias_to_element d b = Some i"
        using old [of b i] row(1) by (auto simp: holds_row_def)
      show "alias_to_element d' b = Some j \<longleftrightarrow>
          j < length (attr_values d') \<and> holds_row (attributes d') (attr_values d' ! j) b"
        unfolding d' drop_prev_alias_eq [OF assms(1) i free True] same new
        using old [of b j] clash held row(1) by (cases "j = i") auto
    qed
  qed
  have "edge_rel d' = edge_rel d" by (simp add: edge_rel_def same)
  with assms(1) attrs ok show ?thesis
    by (simp add: dim_wf_def shape_ok_def names_ok_def same edges_in_range_def leaves_bare_def)
qed

lemma resolve_bound:
  assumes "dim_wf d" and "resolve d m = Some i"
  shows "i < length (elements d)"
proof (cases "index_of d m")
  case (Some j)
  with assms index_of_Some [OF assms(1)] show ?thesis by (simp add: resolve_def)
next
  case None
  with assms show ?thesis
    using dim_wf_shape(2) [OF assms(1)] by (auto simp: resolve_def dim_wf_def aliases_ok_def)
qed

end
