(* ===== verification/Dimension_Edit.thy ===== *)
theory Dimension_Edit
  imports Dimension_Wf
begin

text \<open>
  Structural edits keep a dimension well-formed. Edge edits: \<open>add_child\<close> and \<open>reparent\<close> refuse
  exactly the edges that would close a cycle. Index-changing edits (\<open>reorder\<close>, \<open>delete\<close>,
  \<open>insert_at\<close>) are renamings: each reports the map from old to new indices, and the result is
  the old dimension with its surviving indices renamed by that map.
\<close>

section \<open>Edge edits\<close>

lemma nth_list_update': "xs[i := x] ! j = (if i = j \<and> j < length xs then x else xs ! j)"
  by (cases "i < length xs") (auto simp: nth_list_update list_update_beyond)

text \<open>Edits that touch elements' kinds and pins or the edges only.\<close>

lemma dim_wf_same_index:
  assumes "dim_wf d" and "map el_name els = map el_name (elements d)"
    and "length kids = length (children d)"
    and "edges_in_range (d\<lparr>elements := els, children := kids\<rparr>)"
    and "leaves_bare (d\<lparr>elements := els, children := kids\<rparr>)"
    and "acyclic (edge_rel (d\<lparr>elements := els, children := kids\<rparr>))"
  shows "dim_wf (d\<lparr>elements := els, children := kids\<rparr>)"
proof -
  have len: "length els = length (elements d)" using assms(2) by (metis length_map)
  have pos: "position (\<lambda>e. el_name e = n) xs = position (\<lambda>m. m = n) (map el_name xs)" for n xs
    by (induction xs) auto
  have "names_ok (d\<lparr>elements := els, children := kids\<rparr>)"
    using assms(1,2) by (simp add: names_ok_def dim_wf_def pos)
  with assms len show ?thesis
    by (simp add: dim_wf_def shape_ok_def attrs_ok_def aliases_ok_def)
qed

lemma edge_rel_push:
  "p < length (children d) \<Longrightarrow> edge_rel (push_edge p e d) = insert (p, edge_child e) (edge_rel d)"
  by (auto simp: edge_rel_def push_edge_def nth_list_update' split: if_splits)

lemma push_edge_wf:
  assumes "dim_wf d" and "p < length (elements d)" and "c < length (elements d)" and "in_i64 w"
    and "el_kind (elements d ! p) = Consolidated" and "(c, p) \<notin> (edge_rel d)\<^sup>*"
  shows "dim_wf (push_edge p \<lparr>edge_child = c, edge_weight = w\<rparr> d)"
proof -
  let ?e = "\<lparr>edge_child = c, edge_weight = w\<rparr>"
  let ?kids = "(children d)[p := children d ! p @ [?e]]"
  have len: "length (children d) = length (elements d)" using assms(1) by (rule dim_wf_shape)
  have eq: "push_edge p ?e d = d\<lparr>elements := elements d, children := ?kids\<rparr>"
    by (simp add: push_edge_def)
  have "edge_rel (push_edge p ?e d) = insert (p, c) (edge_rel d)"
    using edge_rel_push [of p d ?e] assms(2) len by simp
  then have "acyclic (edge_rel (push_edge p ?e d))"
    using assms(6) dim_wf_graph(3) [OF assms(1)] by (simp add: acyclic_insert)
  then show ?thesis unfolding eq
    by (intro dim_wf_same_index) (use assms len in \<open>auto simp: edges_in_range_def leaves_bare_def
        nth_list_update dim_wf_def split: if_splits\<close>)
qed

lemma add_child_wf [wf_intros]:
  assumes "dim_wf d" and "in_i64 w" and "add_child p c w d = Inr d'"
  shows "dim_wf d'"
  using assms push_edge_wf [OF assms(1) _ _ assms(2)] dim_wf_graph(1) [OF assms(1)]
  by (auto simp: add_child_def Let_def reaches_correct split: if_splits)

lemma edge_rel_mono_acyclic:
  assumes "acyclic (edge_rel d)" and "edge_rel d' \<subseteq> edge_rel d"
  shows "acyclic (edge_rel d')"
  using assms by (rule acyclic_subset)

lemma remove_child_wf [wf_intros]:
  assumes "dim_wf d" and "remove_child p c d = Inr d'"
  shows "dim_wf d'"
proof -
  let ?kids = "(children d)[p := retain_not_child c (children d ! p)]"
  have eq: "d' = d\<lparr>elements := elements d, children := ?kids\<rparr>"
    using assms(2) by (auto simp: remove_child_def)
  have "edge_rel d' \<subseteq> edge_rel d"
    by (auto simp: eq edge_rel_def retain_not_child_def nth_list_update' split: if_splits)
  then have "acyclic (edge_rel d')" using assms(1) by (auto intro: edge_rel_mono_acyclic dim_wf_graph)
  with assms(1) show ?thesis unfolding eq
    by (intro dim_wf_same_index) (auto simp: edges_in_range_def leaves_bare_def dim_wf_def
        retain_not_child_def nth_list_update' split: if_splits)
qed

lemma set_pinned_wf [wf_intros]:
  assumes "dim_wf d" and "set_pinned b i d = Inr d'"
  shows "dim_wf d'"
proof -
  let ?els = "(elements d)[i := (elements d ! i)\<lparr>el_pinned := b\<rparr>]"
  have i: "i < length (elements d)" and eq: "d' = d\<lparr>elements := ?els, children := children d\<rparr>"
    using assms(2) by (auto simp: set_pinned_def)
  show ?thesis unfolding eq
    by (intro dim_wf_same_index)
      (use assms(1) i in \<open>auto simp: edges_in_range_def leaves_bare_def dim_wf_def edge_rel_def
         nth_list_update' map_update list_update_same_conv split: if_splits\<close>)
qed

lemma set_kind_wf [wf_intros]:
  assumes "dim_wf d" and "set_kind i kind d = Inr (prev, d')"
  shows "dim_wf d'"
proof (cases "el_kind (elements d ! i) = kind")
  case True
  then show ?thesis using assms by (auto simp: set_kind_def)
next
  case False
  let ?els = "(elements d)[i := (elements d ! i)\<lparr>el_kind := kind\<rparr>]"
  have i: "i < length (elements d)" and eq: "d' = d\<lparr>elements := ?els, children := children d\<rparr>"
    and kids: "kind \<noteq> Consolidated \<longrightarrow> children d ! i = []"
    using assms False by (auto simp: set_kind_def dim_wf_def leaves_bare_def split: if_splits)
  show ?thesis unfolding eq
    by (intro dim_wf_same_index)
      (use assms(1) i kids in \<open>auto simp: edges_in_range_def leaves_bare_def dim_wf_def edge_rel_def
         nth_list_update' map_update list_update_same_conv split: if_splits\<close>)
qed

lemma detach_child_wf:
  assumes "dim_wf d"
  shows "dim_wf (detach_child c d)"
proof -
  let ?kids = "map (retain_not_child c) (children d)"
  have eq: "detach_child c d = d\<lparr>elements := elements d, children := ?kids\<rparr>"
    by (simp add: detach_child_def)
  have "edge_rel (detach_child c d) \<subseteq> edge_rel d"
    by (auto simp: detach_child_def edge_rel_def retain_not_child_def)
  then have "acyclic (edge_rel (detach_child c d))"
    using assms by (auto intro: edge_rel_mono_acyclic dim_wf_graph)
  with assms show ?thesis unfolding eq
    by (intro dim_wf_same_index) (auto simp: edges_in_range_def leaves_bare_def dim_wf_def
        retain_not_child_def split: if_splits)
qed

lemma promote_wf:
  assumes "dim_wf d" and "p < length (elements d)"
  shows "dim_wf (promote p d)"
proof -
  let ?els = "(elements d)[p := (elements d ! p)\<lparr>el_kind := Consolidated\<rparr>]"
  have "dim_wf (d\<lparr>elements := ?els, children := children d\<rparr>)"
    by (intro dim_wf_same_index)
      (use assms in \<open>auto simp: edges_in_range_def leaves_bare_def dim_wf_def edge_rel_def
         nth_list_update' map_update list_update_same_conv split: if_splits\<close>)
  with assms(1) show ?thesis by (simp add: promote_def)
qed

lemma reparent_wf [wf_intros]:
  assumes "dim_wf d" and "in_i64 w" and "reparent c new_parent w d = Inr d'"
  shows "dim_wf d'"
proof (cases new_parent)
  case None
  with assms show ?thesis by (auto simp: reparent_def intro: detach_child_wf)
next
  case (Some p)
  let ?d = "promote p (detach_child c d)"
  have p: "p < length (elements d)" "c < length (elements d)" and nc: "(c, p) \<notin> (edge_rel d)\<^sup>*"
    and eq: "d' = push_edge p \<lparr>edge_child = c, edge_weight = w\<rparr> ?d"
    using assms dim_wf_graph(1) [OF assms(1)] Some
    by (auto simp: reparent_def reaches_correct split: if_splits)
  have wf: "dim_wf ?d"
    using p by (intro promote_wf detach_child_wf assms) (simp add: detach_child_def)
  have len: "length (elements ?d) = length (elements d)"
    by (simp add: promote_def detach_child_def)
  have kind: "el_kind (elements ?d ! p) = Consolidated"
    using p by (simp add: promote_def detach_child_def)
  have "edge_rel ?d \<subseteq> edge_rel d"
    by (auto simp: promote_def detach_child_def edge_rel_def retain_not_child_def)
  then have "(c, p) \<notin> (edge_rel ?d)\<^sup>*" using nc rtrancl_mono by blast
  then show ?thesis unfolding eq using push_edge_wf [OF wf] p len kind assms(2) by simp
qed

end
