(* ===== verification/Dimension_Rename.thy ===== *)
theory Dimension_Rename
  imports Dimension_Edit
begin

text \<open>
  The index-changing edits as renamings. \<open>dim_renames to_new d d'\<close> is the contract the three
  operations share and the owning cube relies on when it remaps its cells: every surviving
  index keeps its element, attribute row and edges under the new name, in the same order, and
  an index not in the range of the map is a fresh bare element. The consequences are proved
  once from the contract: the result is well-formed, and a rollup is the old rollup renamed.
\<close>

definition surv :: "nat list \<Rightarrow> nat \<Rightarrow> bool" where
  "surv to_new i \<longleftrightarrow> to_new ! i \<noteq> u32_max"

definition rename_core :: "nat list \<Rightarrow> dimension \<Rightarrow> dimension \<Rightarrow> bool" where
  "rename_core to_new d d' \<longleftrightarrow>
     length to_new = length (elements d) \<and>
     length (children d') = length (elements d') \<and> length (attr_values d') = length (elements d') \<and>
     length (elements d') \<le> u32_max \<and>
     attributes d' = attributes d \<and> attr_index_by_name d' = attr_index_by_name d \<and>
     dim_name d' = dim_name d \<and>
     (\<forall>i < length (elements d). surv to_new i \<longrightarrow>
        to_new ! i < length (elements d') \<and> elements d' ! (to_new ! i) = elements d ! i \<and>
        attr_values d' ! (to_new ! i) = attr_values d ! i \<and>
        children d' ! (to_new ! i) =
          map (remap_edge to_new) (filter (\<lambda>e. surv to_new (edge_child e)) (children d ! i))) \<and>
     (\<forall>i < length (elements d). \<forall>j < length (elements d).
        surv to_new i \<longrightarrow> to_new ! i = to_new ! j \<longrightarrow> i = j) \<and>
     (\<forall>i < length (elements d). \<not> surv to_new i \<longrightarrow> children d ! i = []) \<and>
     (\<forall>j < length (elements d'). j \<notin> set to_new \<longrightarrow> children d' ! j = [] \<and> attr_values d' ! j = [])"

definition dim_renames :: "nat list \<Rightarrow> dimension \<Rightarrow> dimension \<Rightarrow> bool" where
  "dim_renames to_new d d' \<longleftrightarrow> rename_core to_new d d' \<and> dim_wf d'"

lemma rename_core_D:
  assumes "rename_core to_new d d'" and "i < length (elements d)" and "surv to_new i"
  shows "to_new ! i < length (elements d')" "elements d' ! (to_new ! i) = elements d ! i"
    "attr_values d' ! (to_new ! i) = attr_values d ! i"
    "children d' ! (to_new ! i) =
       map (remap_edge to_new) (filter (\<lambda>e. surv to_new (edge_child e)) (children d ! i))"
  using assms by (simp_all add: rename_core_def)

lemma rename_core_inj:
  "rename_core to_new d d' \<Longrightarrow> i < length (elements d) \<Longrightarrow> j < length (elements d) \<Longrightarrow>
   surv to_new i \<Longrightarrow> to_new ! i = to_new ! j \<Longrightarrow> i = j"
  by (simp add: rename_core_def)

text \<open>An index of the new dimension is a renamed survivor or a bare new element.\<close>

lemma rename_core_cases:
  assumes "rename_core to_new d d'" and "j < length (elements d')"
  obtains (old) i where "i < length (elements d)" "surv to_new i" "j = to_new ! i"
  | (fresh) "children d' ! j = []" "attr_values d' ! j = []"
proof (cases "j \<in> set to_new")
  case True
  then obtain i where i: "i < length to_new" "j = to_new ! i" by (auto simp: in_set_conv_nth)
  have "length (elements d') \<le> u32_max" "length to_new = length (elements d)"
    using assms(1) unfolding rename_core_def by blast+
  with i assms(2) have "i < length (elements d)" "surv to_new i" by (auto simp: surv_def)
  with i(2) show ?thesis using old by blast
next
  case False
  with assms have "children d' ! j = [] \<and> attr_values d' ! j = []"
    unfolding rename_core_def by blast
  then show ?thesis using fresh by blast
qed

lemma rename_edge:
  assumes "rename_core to_new d d'" and "edges_in_range d" and "(p, c) \<in> edge_rel d'"
  obtains p0 c0 where "p0 < length (elements d)" "c0 < length (elements d)" "surv to_new p0"
    "surv to_new c0" "p = to_new ! p0" "c = to_new ! c0" "(p0, c0) \<in> edge_rel d"
proof -
  have p: "p < length (elements d')" using assms(1,3) by (simp add: rename_core_def edge_rel_iff)
  from assms(3) obtain e where e: "e \<in> set (children d' ! p)" "edge_child e = c"
    by (auto simp: edge_rel_iff)
  from assms(1) p show thesis
  proof (cases rule: rename_core_cases)
    case (old i)
    from e(1) obtain e0 where e0: "e0 \<in> set (children d ! i)" "surv to_new (edge_child e0)"
      "e = remap_edge to_new e0"
      unfolding old(3) rename_core_D(4) [OF assms(1) old(1,2)] by auto
    have "edge_child e0 < length (elements d)" by (rule edges_in_rangeD [OF assms(2) old(1) e0(1)])
    moreover have "(i, edge_child e0) \<in> edge_rel d"
      using e0(1) old(1) assms(2) by (auto simp: edge_rel_iff edges_in_range_def)
    moreover have "c = to_new ! edge_child e0" using e e0 by (simp add: remap_edge_def)
    ultimately show thesis using old(1,2,3) e0(2) by (intro that)
  next
    case fresh
    with e(1) show thesis by simp
  qed
qed

lemma rename_graph:
  assumes "dim_wf d" and "rename_core to_new d d'"
  shows "edges_in_range d'" "leaves_bare d'" "acyclic (edge_rel d')"
proof -
  note rng = dim_wf_graph(1) [OF assms(1)]
  have kids: "edge_child e < length (elements d') \<and> in_i64 (edge_weight e)"
    if "p < length (elements d')" "e \<in> set (children d' ! p)" for p e
    using assms(2) that(1)
  proof (cases rule: rename_core_cases)
    case (old i)
    from that(2) obtain e0 where e0: "e0 \<in> set (children d ! i)" "surv to_new (edge_child e0)"
      "e = remap_edge to_new e0"
      unfolding old(3) rename_core_D(4) [OF assms(2) old(1,2)] by auto
    have "edge_child e0 < length (elements d)" by (rule edges_in_rangeD [OF rng old(1) e0(1)])
    then show ?thesis using rename_core_D(1) [OF assms(2) _ e0(2)] rng e0 old(1)
      by (simp add: remap_edge_def edges_in_range_def)
  next
    case fresh
    with that(2) show ?thesis by simp
  qed
  then show "edges_in_range d'" using assms(2) by (simp add: edges_in_range_def rename_core_def)
  show "leaves_bare d'"
    unfolding leaves_bare_def
  proof (intro allI impI)
    fix p assume p: "p < length (elements d')" "el_kind (elements d' ! p) \<noteq> Consolidated"
    from assms(2) p(1) show "children d' ! p = []"
    proof (cases rule: rename_core_cases)
      case (old i)
      with p(2) rename_core_D [OF assms(2) old(1,2)] dim_wf_graph(2) [OF assms(1)]
      show ?thesis by (simp add: leaves_bare_def)
    qed simp
  qed
  show "acyclic (edge_rel d')"
  proof (rule acyclic_pullback [OF dim_wf_graph(3) [OF assms(1)],
        where g = "\<lambda>j. the (position (\<lambda>x. x = j) to_new)"])
    fix p c assume "(p, c) \<in> edge_rel d'"
    then obtain p0 c0 where o: "p0 < length (elements d)" "c0 < length (elements d)" "surv to_new p0"
      "surv to_new c0" "p = to_new ! p0" "c = to_new ! c0" "(p0, c0) \<in> edge_rel d"
      by (rule rename_edge [OF assms(2) rng])
    have len: "length to_new = length (elements d)" using assms(2) by (simp add: rename_core_def)
    have inv: "position (\<lambda>x. x = to_new ! i) to_new = Some i" if "i < length (elements d)" "surv to_new i" for i
    proof (rule position_unique)
      fix j assume "j < length to_new" "to_new ! j = to_new ! i"
      with rename_core_inj [OF assms(2) that(1) _ that(2)] len show "j = i" by (metis)
    qed (use that len in simp_all)
    from o show "(the (position (\<lambda>x. x = p) to_new), the (position (\<lambda>x. x = c) to_new)) \<in> edge_rel d"
      by (simp add: inv)
  qed
qed

lemma rename_reindex:
  assumes "dim_wf d" and "rename_core to_new d d'" and "distinct (map el_name (elements d'))"
  shows "dim_renames to_new d (reindex_names d')"
proof -
  have core: "rename_core to_new d (reindex_names d')"
    using assms(2) by (simp add: rename_core_def)
  have rows: "row \<in> set (attr_values d) \<or> row = []" if "row \<in> set (attr_values d')" for row
  proof -
    from that obtain j where j: "j < length (elements d')" "row = attr_values d' ! j"
      using assms(2) by (auto simp: in_set_conv_nth rename_core_def)
    from assms(2) j(1) show ?thesis
    proof (cases rule: rename_core_cases)
      case (old i)
      then have "attr_values d ! i \<in> set (attr_values d)"
        using assms(1) by (simp add: dim_wf_shape)
      then show ?thesis using old j(2) rename_core_D(3) [OF assms(2) old(1,2)] by simp
    qed (simp add: j(2))
  qed
  have attrs: "attrs_ok d'"
    using assms(1,2) rows by (fastforce simp: attrs_ok_def dim_wf_def rename_core_def)
  have uni: "alias_unique (attributes d') (attr_values d')"
    unfolding alias_unique_def
  proof (intro allI impI)
    fix a i j
    assume i: "i < length (attr_values d')" "holds_row (attributes d') (attr_values d' ! i) a"
      and j: "j < length (attr_values d')" "holds_row (attributes d') (attr_values d' ! j) a"
    have old: "\<exists>k. k < length (elements d) \<and> m = to_new ! k \<and> holds_row (attributes d) (attr_values d ! k) a"
      if "m < length (attr_values d')" "holds_row (attributes d') (attr_values d' ! m) a" for m
    proof -
      have "m < length (elements d')" using that(1) assms(2) by (simp add: rename_core_def)
      with assms(2) show ?thesis
      proof (cases rule: rename_core_cases)
        case (old k)
        with that(2) rename_core_D(3) [OF assms(2) old(1,2)] assms(2)
        show ?thesis by (auto simp: rename_core_def)
      qed (use that(2) in \<open>simp add: holds_row_def\<close>)
    qed
    from old [OF i] old [OF j] obtain k l where "k < length (elements d)" "i = to_new ! k"
      "holds_row (attributes d) (attr_values d ! k) a" "l < length (elements d)" "j = to_new ! l"
      "holds_row (attributes d) (attr_values d ! l) a" by blast
    moreover have "alias_unique (attributes d) (attr_values d)"
      using assms(1) by (simp add: dim_wf_def aliases_ok_unique)
    ultimately show "i = j" using assms(1) unfolding alias_unique_def by (metis dim_wf_shape(2))
  qed
  have shape: "shape_ok d'"
    using assms(1,2) by (simp add: shape_ok_def rename_core_def dim_wf_def)
  note g = rename_graph [OF assms(1) core]
  have "attrs_ok (reindex_names d')" using attrs by (simp add: attrs_ok_def)
  with reindex_wf [OF assms(3) uni shape] shape g core show ?thesis
    by (simp add: dim_renames_def dim_wf_def shape_ok_def)
qed

section \<open>The rollup of a renamed dimension\<close>

definition ren :: "nat list \<Rightarrow> (nat \<times> 'b) list \<Rightarrow> (nat \<times> 'b) list" where
  "ren to_new xs = map (\<lambda>(i, w). (to_new ! i, w)) (filter (\<lambda>(i, w). surv to_new i) xs)"

lemma ren_simps [simp]:
  "ren to_new [] = []" "ren to_new (xs @ ys) = ren to_new xs @ ren to_new ys"
  "ren to_new ((i, w) # xs) = (if surv to_new i then (to_new ! i, w) # ren to_new xs else ren to_new xs)"
  by (simp_all add: ren_def)

lemma ren_update:
  assumes "rename_core to_new d d'" and "fst ` set acc \<subseteq> {..<length (elements d)}"
    and "i < length (elements d)"
  shows "ren to_new (AList.update i w acc) =
     (if surv to_new i then AList.update (to_new ! i) w (ren to_new acc) else ren to_new acc)"
  using assms(2)
proof (induction acc)
  case (Cons a acc)
  obtain k v where a: "a = (k, v)" by force
  with Cons.prems have k: "k < length (elements d)" by simp
  then have inj: "surv to_new i \<Longrightarrow> to_new ! i = to_new ! k \<longleftrightarrow> i = k"
    "surv to_new k \<Longrightarrow> to_new ! i = to_new ! k \<longleftrightarrow> i = k"
    using rename_core_inj [OF assms(1) assms(3) k] rename_core_inj [OF assms(1) k assms(3)] by auto
  with Cons show ?case by (auto simp: a)
qed simp

lemma bfs_rename:
  assumes "rename_core to_new d d'" and "edges_in_range d"
    and "bfs d q visited acc = Some res"
    and "fst ` set q \<subseteq> {..<length (elements d)}" and "set visited \<subseteq> {..<length (elements d)}"
    and "fst ` set acc \<subseteq> {..<length (elements d)}"
  shows "bfs d' (ren to_new q) (map ((!) to_new) (filter (surv to_new) visited)) (ren to_new acc)
       = Some (ren to_new res) \<and> fst ` set res \<subseteq> {..<length (elements d)}"
  using assms
proof (induction d q visited acc rule: bfs.induct [case_names Nil Cons])
  case (Nil d visited acc)
  then show ?case by simp
next
  case (Cons d n w q visited acc)
  note core = Cons.prems(1) and rng = Cons.prems(2)
  let ?V = "\<lambda>vs. map ((!) to_new) (filter (surv to_new) vs)"
  have n: "n < length (elements d)" and nn: "\<not> length (elements d) \<le> n" using Cons.prems(4) by auto
  have q: "fst ` set q \<subseteq> {..<length (elements d)}" using Cons.prems(4) by simp
  have memb: "to_new ! n \<in> set (?V visited) \<longleftrightarrow> n \<in> set visited" if s: "surv to_new n"
  proof
    assume "to_new ! n \<in> set (?V visited)"
    then obtain m where m: "m \<in> set visited" "to_new ! n = to_new ! m" by auto
    with Cons.prems(5) have "m < length (elements d)" by auto
    with rename_core_inj [OF core n _ s m(2)] m(1) show "n \<in> set visited" by simp
  qed (use s in simp)
  show ?case
  proof (cases "n \<in> set visited")
    case True
    have "bfs d q visited acc = Some res" using Cons.prems(3) True by simp
    from Cons.IH(1) [OF True core rng this q Cons.prems(5,6)] True memb show ?thesis by simp
  next
    case False
    have vis: "set (n # visited) \<subseteq> {..<length (elements d)}" using Cons.prems(5) n by simp
    show ?thesis
    proof (cases "el_kind (elements d ! n)")
      case Leaf
      have run: "bfs d q (n # visited) (AList.update n w acc) = Some res"
        using Cons.prems(3) False nn Leaf by simp
      have "fst ` set (AList.update n w acc) \<subseteq> {..<length (elements d)}"
        using Cons.prems(6) n by (simp add: fst_AList_update)
      from Cons.IH(2) [OF False nn Leaf core rng run q vis this] show ?thesis
        using ren_update [OF core Cons.prems(6) n, of w] memb False Leaf rename_core_D(1,2) [OF core n]
        by (auto split: if_splits)
    next
      case Str
      have run: "bfs d q (n # visited) acc = Some res"
        using Cons.prems(3) False nn Str by simp
      from Cons.IH(3) [OF False nn Str core rng run q vis Cons.prems(6)] show ?thesis
        using memb False Str rename_core_D(1,2) [OF core n] by (auto split: if_splits)
    next
      case Consolidated
      let ?kids = "\<lambda>es. map (\<lambda>e. (edge_child e, sat_i64 (w * edge_weight e))) es"
      have run: "bfs d (q @ ?kids (children d ! n)) (n # visited) acc = Some res"
        using Cons.prems(3) False nn Consolidated by simp
      have qk: "fst ` set (q @ ?kids (children d ! n)) \<subseteq> {..<length (elements d)}"
        using q edges_in_rangeD [OF rng n] by auto
      have kids: "ren to_new (?kids es) =
          ?kids (map (remap_edge to_new) (filter (\<lambda>e. surv to_new (edge_child e)) es))" for es
        by (induction es) (auto simp: remap_edge_def)
      have bare: "\<not> surv to_new n \<Longrightarrow> children d ! n = []"
        using core n by (simp add: rename_core_def)
      from Cons.IH(4) [OF False nn Consolidated core rng run qk vis Cons.prems(6)] show ?thesis
        using memb False Consolidated rename_core_D(1,2,4) [OF core n] bare
        by (cases "surv to_new n") (auto simp: kids)
    qed
  qed
qed

lemma sort_key_fst_unique:
  fixes xs ys :: "(nat \<times> 'b) list"
  assumes "distinct (map fst xs)" and "distinct (map fst ys)" and "set xs = set ys"
  shows "sort_key fst xs = sort_key fst ys"
proof (rule map_sorted_distinct_set_unique [where f = fst])
  show "inj_on fst (set (sort_key fst xs) \<union> set (sort_key fst ys))"
    using assms by (simp add: distinct_map)
qed (use assms in \<open>simp_all add: distinct_map\<close>)

text \<open>The renamed rollup: survivors keep their weight, and nothing else contributes.\<close>

lemma leaf_weights_rename:
  assumes "dim_wf d" and "dim_renames to_new d d'" and "e < length (elements d)" and "surv to_new e"
    and "leaf_weights d e = Inr ws"
  shows "leaf_weights d' (to_new ! e) = Inr (sort_key fst (ren to_new ws))"
proof -
  have core: "rename_core to_new d d'" and wf': "dim_wf d'" using assms(2) by (simp_all add: dim_renames_def)
  note g = dim_wf_graph [OF assms(1)]
  obtain acc where b: "bfs d [(e, 1)] [] [] = Some acc"
    using bfs_correct [OF g(1,2) bfs_start, of e] assms(3) by auto
  have r: "bfs d' [(to_new ! e, 1)] [] [] = Some (ren to_new acc)"
    and dom: "fst ` set acc \<subseteq> {..<length (elements d)}"
    using bfs_rename [OF core g(1) b] assms(3,4) by auto
  have dist: "distinct (map fst acc)"
    using bfs_correct [OF g(1,2) bfs_start, of e] assms(3) b by (auto simp: acc_ok_def)
  have inj: "inj_on (\<lambda>i. to_new ! i) (set (filter (surv to_new) (map fst acc)))"
    using dom rename_core_inj [OF core] by (auto simp: inj_on_def) (metis fst_conv image_subset_iff lessThan_iff)
  have fstren: "map fst (ren to_new xs) = map ((!) to_new) (filter (surv to_new) (map fst xs))" for xs :: "(nat \<times> int) list"
    by (induction xs) auto
  have distr: "distinct (map fst (ren to_new acc))"
    unfolding fstren using dist inj by (simp add: distinct_map)
  have ws: "ws = sort_key fst (filter (\<lambda>(_, w). w \<noteq> 0) acc)"
    using assms(3,5) b by (simp add: leaf_weights_def get_element_def del: bfs.simps)
  have new: "leaf_weights d' (to_new ! e) = Inr (sort_key fst (filter (\<lambda>(_, w). w \<noteq> 0) (ren to_new acc)))"
    using r rename_core_D(1) [OF core assms(3,4)]
    by (simp add: leaf_weights_def get_element_def del: bfs.simps)
  have "sort_key fst (filter (\<lambda>(_, w). w \<noteq> 0) (ren to_new acc)) = sort_key fst (ren to_new ws)"
  proof (rule sort_key_fst_unique)
    show "distinct (map fst (filter (\<lambda>(_, w). w \<noteq> 0) (ren to_new acc)))"
      using distr by (rule distinct_map_filter)
    show "set (filter (\<lambda>(_, w). w \<noteq> 0) (ren to_new acc)) = set (ren to_new ws)"
      by (auto simp: ws ren_def)
    have "distinct (map fst (filter (\<lambda>(_, w). w \<noteq> 0) acc))" using dist by (rule distinct_map_filter)
    then have "distinct (map fst ws)" by (simp add: ws distinct_map)
    moreover have "set (map fst ws) \<subseteq> set (map fst acc)" by (auto simp: ws)
    ultimately show "distinct (map fst (ren to_new ws))"
      unfolding fstren using inj by (auto simp: distinct_map intro: inj_on_subset)
  qed
  with new show ?thesis by simp
qed

end
