(* ===== verification/Dimension_Reindex.thy ===== *)
theory Dimension_Reindex
  imports Dimension_Rename
begin

text \<open>
  The three operations that change element indices, \<open>reorder\<close>, \<open>delete\<close> and
  \<open>insert_at\<close>, satisfy the renaming contract. The contract is the locale \<open>index_edit\<close>:
  its consequences (well-formedness, the renamed rollup, the renamed lookups) are proved once
  inside it and each operation is an interpretation.
\<close>

locale index_edit =
  fixes edit :: "'a \<Rightarrow> dimension \<Rightarrow> model_error + nat list \<times> dimension"
    and fits :: "'a \<Rightarrow> dimension \<Rightarrow> bool"
  assumes edit_renames:
    "dim_wf d \<Longrightarrow> fits a d \<Longrightarrow> edit a d = Inr (to_new, d') \<Longrightarrow> dim_renames to_new d d'"
begin

lemma edit_wf: "dim_wf d \<Longrightarrow> fits a d \<Longrightarrow> edit a d = Inr (to_new, d') \<Longrightarrow> dim_wf d'"
  using edit_renames by (auto simp: dim_renames_def)

lemma edit_core:
  "dim_wf d \<Longrightarrow> fits a d \<Longrightarrow> edit a d = Inr (to_new, d') \<Longrightarrow> rename_core to_new d d'"
  using edit_renames by (auto simp: dim_renames_def)

lemma edit_rollup:
  assumes "dim_wf d" and "fits a d" and "edit a d = Inr (to_new, d')"
    and "e < length (elements d)" and "surv to_new e" and "leaf_weights d e = Inr ws"
  shows "leaf_weights d' (to_new ! e) = Inr (sort_key fst (ren to_new ws))"
  using leaf_weights_rename [OF assms(1) edit_renames [OF assms(1-3)] assms(4-6)] .

lemma edit_name:
  assumes "dim_wf d" and "fits a d" and "edit a d = Inr (to_new, d')"
    and "index_of d name = Some e" and "surv to_new e"
  shows "index_of d' name = Some (to_new ! e)"
proof -
  have e: "e < length (elements d)" "el_name (elements d ! e) = name"
    using index_of_Some [OF assms(1)] assms(4) by simp_all
  note core = edit_core [OF assms(1-3)] and wf' = edit_wf [OF assms(1-3)]
  show ?thesis
    using rename_core_D(1,2) [OF core e(1) assms(5)] e(2) by (simp add: index_of_Some [OF wf'])
qed

lemma edit_attribute:
  assumes "dim_wf d" and "fits a d" and "edit a d = Inr (to_new, d')"
    and "e < length (elements d)" and "surv to_new e"
  shows "get_attribute d' (to_new ! e) attr = get_attribute d e attr"
proof -
  note core = edit_core [OF assms(1-3)] and wf' = edit_wf [OF assms(1-3)]
  have "attr_index_by_name d' = attr_index_by_name d" using core by (simp add: rename_core_def)
  then show ?thesis
    using rename_core_D(1,3) [OF core assms(4,5)] assms(1,4) wf'
    by (cases "attr_index_by_name d attr")
       (simp_all add: get_attribute_def attribute_index_def dim_wf_shape)
qed

end

section \<open>\<open>insert_at\<close>\<close>

lemma insert_map_nth [simp]: "i < n \<Longrightarrow> insert_map n pos ! i = (if i < pos then i else i + 1)"
  by (simp add: insert_map_def)

lemma length_insert_map [simp]: "length (insert_map n pos) = n"
  by (simp add: insert_map_def)

lemma notin_insert_map: "j \<le> n \<Longrightarrow> pos \<le> n \<Longrightarrow> j \<notin> set (insert_map n pos) \<Longrightarrow> j = pos"
proof (rule ccontr)
  assume j: "j \<le> n" "pos \<le> n" "j \<notin> set (insert_map n pos)" "j \<noteq> pos"
  let ?i = "if j < pos then j else j - 1"
  have "?i < n" "insert_map n pos ! ?i = j" using j by auto
  then show False using j(3) by (metis length_insert_map nth_mem)
qed

lemma map_insert_at_pos: "map f (insert_at_pos i x xs) = insert_at_pos i (f x) (map f xs)"
  by (simp add: insert_at_pos_def take_map drop_map)

lemma distinct_insert_at_pos: "distinct xs \<Longrightarrow> x \<notin> set xs \<Longrightarrow> distinct (insert_at_pos i x xs)"
  unfolding insert_at_pos_def
  by (metis append_take_drop_id distinct_append distinct.simps(2) in_set_dropD in_set_takeD
      disjoint_insert(1) list.simps(15))

lemma insert_at_renames:
  assumes "dim_wf d" and "length (elements d) < u32_max"
    and "insert_at name kind at d = Inr ((pos, to_new), d')"
  shows "dim_renames to_new d d' \<and> pos = min at (length (elements d)) \<and>
     elements d' ! pos = \<lparr>el_name = name, el_kind = kind, el_pinned = False\<rparr> \<and> pos \<notin> set to_new"
proof -
  let ?n = "length (elements d)"
  let ?el = "\<lparr>el_name = name, el_kind = kind, el_pinned = False\<rparr>"
  let ?d = "d\<lparr>elements := insert_at_pos pos ?el (elements d),
                     attr_values := insert_at_pos pos [] (attr_values d),
                     children := map (map (remap_edge to_new)) (insert_at_pos pos [] (children d))\<rparr>"
  have ins: "index_by_name d name = None" "pos = min at ?n" "to_new = insert_map ?n pos"
    "d' = reindex_names ?d"
    using assms(2,3) by (auto simp: insert_at_def Let_def split: if_splits)
  have p: "pos \<le> ?n" using ins(2) by simp
  note sh = dim_wf_shape [OF assms(1)]
  have surv: "surv to_new i" if "i < ?n" for i
    using that assms(2) by (simp add: surv_def ins(3))
  have flt: "filter (\<lambda>e. surv to_new (edge_child e)) (children d ! i) = children d ! i" if "i < ?n" for i
    using surv edges_in_rangeD [OF dim_wf_graph(1) [OF assms(1)] that] by simp
  have core: "rename_core to_new d ?d"
    unfolding rename_core_def
  proof (intro conjI allI impI)
    fix j assume "j < length (elements ?d)" "j \<notin> set to_new"
    then have "j = pos" using p notin_insert_map [of j ?n pos] by (simp add: ins(3))
    then show "children ?d ! j = []" "attr_values ?d ! j = []"
      using p sh by (simp_all add: map_insert_at_pos nth_insert_at_pos)
  qed (use assms(2) p sh surv flt in \<open>auto simp: ins(3) nth_insert_at_pos split: if_splits\<close>)
  have "name \<notin> el_name ` set (elements d)"
    using ins(1) index_of_Some [OF assms(1), of name] by (force simp: index_of_def in_set_conv_nth)
  then have "distinct (map el_name (elements ?d))"
    using assms(1) distinct_insert_at_pos [of "map el_name (elements d)" name pos]
    by (simp add: map_insert_at_pos dim_wf_def names_ok_def)
  from rename_reindex [OF assms(1) core this] show ?thesis
    using p by (auto simp: ins nth_insert_at_pos in_set_conv_nth split: if_splits)
qed

definition insert_edit ::
    "string \<times> element_kind \<times> nat \<Rightarrow> dimension \<Rightarrow> model_error + nat list \<times> dimension" where
  "insert_edit a d = (case a of (name, kind, at) \<Rightarrow>
     bindE (insert_at name kind at d) (\<lambda>((pos, to_new), d'). Inr (to_new, d')))"

interpretation ins: index_edit insert_edit "\<lambda>_ d. length (elements d) < u32_max"
proof
  fix d a to_new d'
  assume "dim_wf d" "length (elements d) < u32_max" "insert_edit a d = Inr (to_new, d')"
  then show "dim_renames to_new d d'"
    using insert_at_renames [of d] by (auto simp: insert_edit_def split: prod.splits)
qed

section \<open>\<open>delete\<close>\<close>

lemma delete_map_nth [simp]:
  "i < n \<Longrightarrow> delete_map n k ! i = (if i < k then i else if i = k then u32_max else i - 1)"
  by (simp add: delete_map_def)

lemma length_delete_map [simp]: "length (delete_map n k) = n"
  by (simp add: delete_map_def)

lemma in_delete_map: "j < n - 1 \<Longrightarrow> j \<in> set (delete_map n k)"
proof -
  assume j: "j < n - 1"
  let ?i = "if j < k then j else Suc j"
  have "?i < n" "delete_map n k ! ?i = j" using j by auto
  then show ?thesis by (metis length_delete_map nth_mem)
qed

lemma map_remove_at: "map f (remove_at i xs) = remove_at i (map f xs)"
  by (simp add: remove_at_def take_map drop_map)

lemma distinct_remove_at: "distinct xs \<Longrightarrow> distinct (remove_at i xs)"
  using set_take_disj_set_drop_if_distinct [of xs i "Suc i"] by (simp add: remove_at_def)

lemma delete_renames:
  assumes "dim_wf d" and "delete i d = Inr ((k, to_new), d')"
  shows "dim_renames to_new d d' \<and> k = i \<and> i < length (elements d) \<and> \<not> surv to_new i"
proof -
  let ?n = "length (elements d)"
  let ?d = "d\<lparr>elements := remove_at i (elements d), attr_values := remove_at i (attr_values d),
       children := map (\<lambda>es. map (remap_edge to_new) (retain_not_child i es)) (remove_at i (children d))\<rparr>"
  have del: "i < ?n" "children d ! i = []" "to_new = delete_map ?n i" "k = i" "d' = reindex_names ?d"
    using assms(2) by (auto simp: delete_def Let_def split: if_splits)
  note sh = dim_wf_shape [OF assms(1)]
  have surv: "surv to_new j \<longleftrightarrow> j \<noteq> i" if "j < ?n" for j
    using that sh(3) by (auto simp: surv_def del(3))
  have flt: "filter (\<lambda>e. surv to_new (edge_child e)) (children d ! j) = retain_not_child i (children d ! j)"
    if "j < ?n" for j
    unfolding retain_not_child_def
    using surv edges_in_rangeD [OF dim_wf_graph(1) [OF assms(1)] that] by (intro filter_cong) auto
  have core: "rename_core to_new d ?d"
    unfolding rename_core_def
  proof (intro conjI allI impI)
    fix j assume "j < length (elements ?d)" "j \<notin> set to_new"
    then show "children ?d ! j = []" "attr_values ?d ! j = []"
      using in_delete_map [of j ?n i] del(1) by (simp_all add: del(3))
  qed (use del(1,2) sh surv flt in \<open>auto simp: del(3) nth_remove_at split: if_splits\<close>)
  have "distinct (map el_name (elements ?d))"
    using assms(1) by (simp add: map_remove_at distinct_remove_at dim_wf_def names_ok_def)
  from rename_reindex [OF assms(1) core this] show ?thesis
    using del(1) surv by (simp add: del(4,5))
qed

definition delete_edit :: "nat \<Rightarrow> dimension \<Rightarrow> model_error + nat list \<times> dimension" where
  "delete_edit i d = bindE (delete i d) (\<lambda>((_, to_new), d'). Inr (to_new, d'))"

interpretation del: index_edit delete_edit "\<lambda>_ _. True"
proof
  fix d a to_new d'
  assume "dim_wf d" "delete_edit a d = Inr (to_new, d')"
  then show "dim_renames to_new d d'"
    using delete_renames [of d a] by (auto simp: delete_edit_def split: prod.splits)
qed

section \<open>\<open>reorder\<close>\<close>

lemma reorder_map_result:
  assumes "\<And>name i. index_of d name = Some i \<Longrightarrow> i < n"
    and "reorder_map d pos names to_new seen = Inr res" and "length to_new = n" and "length seen = n"
  shows "\<exists>is. length is = length names \<and> distinct is \<and> length res = n \<and>
     (\<forall>k < length names. index_of d (names ! k) = Some (is ! k) \<and> \<not> seen ! (is ! k) \<and>
        res ! (is ! k) = as_u32 (pos + k)) \<and>
     (\<forall>j. j \<notin> set is \<longrightarrow> res ! j = to_new ! j)"
  using assms(2-)
proof (induction names arbitrary: pos to_new seen)
  case Nil
  then show ?case by simp
next
  case (Cons name names)
  from Cons.prems obtain i where i: "index_of d name = Some i" "\<not> seen ! i"
    and rest: "reorder_map d (Suc pos) names (to_new[i := as_u32 pos]) (seen[i := True]) = Inr res"
    by (auto split: if_splits)
  note ilt = assms(1) [OF i(1)]
  from Cons.IH [OF rest] Cons.prems obtain js where js: "length js = length names" "distinct js"
    "length res = n"
    "\<And>k. k < length names \<Longrightarrow> index_of d (names ! k) = Some (js ! k) \<and> \<not> seen[i := True] ! (js ! k) \<and>
        res ! (js ! k) = as_u32 (Suc pos + k)"
    "\<And>j. j \<notin> set js \<Longrightarrow> res ! j = to_new[i := as_u32 pos] ! j" by auto
  have fresh: "i \<notin> set js"
    using js(1,4) ilt Cons.prems(3) by (metis in_set_conv_nth nth_list_update_eq)
  have sn: "\<not> seen ! (js ! k)" if "k < length names" for k
    using js(4) [OF that] by (metis nth_list_update_neq nth_list_update_eq list_update_beyond not_le)
  show ?case
  proof (intro exI [of _ "i # js"] conjI allI impI)
    fix k assume k: "k < length (name # names)"
    show "index_of d ((name # names) ! k) = Some ((i # js) ! k)" "\<not> seen ! ((i # js) ! k)"
      "res ! ((i # js) ! k) = as_u32 (pos + k)"
      using k i js(4) sn js(5) [OF fresh] ilt Cons.prems(2) by (cases k; simp)+
  next
    fix j assume "j \<notin> set (i # js)"
    then show "res ! j = to_new ! j" using js(5) [of j] by simp
  qed (use js fresh in simp_all)
qed

text \<open>A permutation of the indices, as a list.\<close>

definition is_perm :: "nat \<Rightarrow> nat list \<Rightarrow> bool" where
  "is_perm n xs \<longleftrightarrow> length xs = n \<and> distinct xs \<and> set xs = {..<n}"

lemma those_map_Some [simp]: "those (map Some xs) = Some xs"
  by (induction xs) auto

lemma place_perm:
  assumes "is_perm n to_new" and "length xs = n"
  shows "\<exists>ys. place n xs to_new = Some ys \<and> length ys = n \<and> (\<forall>k < n. ys ! (to_new ! k) = xs ! k)"
proof -
  let ?buf = "scatter Some (replicate n None) xs to_new"
  have sc: "\<forall>k < n. ?buf ! (to_new ! k) = Some (xs ! k)"
    using assms scatter_nth [of xs to_new "replicate n None" Some] by (auto simp: is_perm_def)
  have full: "?buf ! j \<noteq> None" if "j < n" for j
  proof -
    from that assms(1) have "j \<in> set to_new" by (simp add: is_perm_def)
    then obtain k where "k < n" "to_new ! k = j" using assms(1) by (auto simp: in_set_conv_nth is_perm_def)
    then show ?thesis using sc by auto
  qed
  have "?buf = map Some (map the ?buf)"
    by (rule nth_equalityI) (use full in auto)
  then have "place n xs to_new = Some (map the ?buf)"
    unfolding place_def by (metis those_map_Some)
  moreover have "map the ?buf ! (to_new ! k) = xs ! k" if "k < n" for k
  proof -
    have "to_new ! k < n" using assms(1) that by (metis is_perm_def lessThan_iff nth_mem)
    then show ?thesis using sc that by simp
  qed
  ultimately show ?thesis by (intro exI [of _ "map the ?buf"]) simp
qed

lemma reorder_map_perm:
  assumes wf: "dim_wf d" and len: "length names = length (elements d)"
    and r: "reorder_map d 0 names (replicate (length (elements d)) u32_max)
       (replicate (length (elements d)) False) = Inr res"
  shows "is_perm (length (elements d)) res \<and>
    (\<forall>i < length (elements d). names ! (res ! i) = el_name (elements d ! i))"
proof -
  let ?n = "length (elements d)"
  have rng: "i < ?n" if "index_of d name = Some i" for name i using index_of_Some [OF wf] that by simp
  obtain js where js: "length js = ?n" "distinct js" "length res = ?n"
    "\<And>k. k < ?n \<Longrightarrow> index_of d (names ! k) = Some (js ! k) \<and> res ! (js ! k) = as_u32 k"
    using reorder_map_result [of d ?n, OF _ r] rng len by auto
  have sub: "set js \<subseteq> {..<?n}"
  proof
    fix i assume "i \<in> set js"
    then obtain k where "k < ?n" "js ! k = i" using js(1) by (auto simp: in_set_conv_nth)
    with js(4) rng show "i \<in> {..<?n}" by blast
  qed
  have all: "set js = {..<?n}"
    using js(1,2) sub by (metis card_lessThan card_subset_eq distinct_card finite_lessThan)
  have slot: "\<exists>k < ?n. js ! k = i \<and> res ! i = k" if "i < ?n" for i
  proof -
    from that all obtain k where k: "k < ?n" "js ! k = i" using js(1) by (metis in_set_conv_nth lessThan_iff)
    moreover have "k \<le> u32_max" using k(1) dim_wf_shape(3) [OF wf] by simp
    ultimately show ?thesis using js(4) [OF k(1)] by auto
  qed
  have inj: "distinct res"
    unfolding distinct_conv_nth using slot js(3) by metis
  have "set res \<subseteq> {..<?n}" using slot js(3) by (auto simp: in_set_conv_nth)
  then have "set res = {..<?n}"
    using js(3) inj by (metis card_lessThan card_subset_eq distinct_card finite_lessThan)
  moreover have "names ! (res ! i) = el_name (elements d ! i)" if "i < ?n" for i
    using slot [OF that] js(4) index_of_Some [OF wf] by metis
  ultimately show ?thesis using js(3) inj by (simp add: is_perm_def)
qed

lemma perm_core:
  assumes wf: "dim_wf d" and p: "is_perm (length (elements d)) to_new"
  shows "\<exists>d'. apply_permutation to_new d = Inr d' \<and> dim_renames to_new d d' \<and>
     length (elements d') = length (elements d) \<and>
     (\<forall>i < length (elements d). elements d' ! (to_new ! i) = elements d ! i)"
proof -
  let ?n = "length (elements d)"
  note sh = dim_wf_shape [OF wf]
  obtain els where els: "place ?n (elements d) to_new = Some els" "length els = ?n"
    "\<forall>k < ?n. els ! (to_new ! k) = elements d ! k" using place_perm [OF p refl] by blast
  obtain rows where rows: "place ?n (attr_values d) to_new = Some rows" "length rows = ?n"
    "\<forall>k < ?n. rows ! (to_new ! k) = attr_values d ! k" using place_perm [OF p sh(2)] by blast
  let ?kids = "scatter (map (remap_edge to_new)) (replicate ?n []) (children d) to_new"
  have kids: "\<forall>k < ?n. ?kids ! (to_new ! k) = map (remap_edge to_new) (children d ! k)"
    using p sh scatter_nth [of "children d" to_new "replicate ?n []" "map (remap_edge to_new)"]
    by (auto simp: is_perm_def)
  let ?d = "d\<lparr>elements := els, attr_values := rows, children := ?kids\<rparr>"
  have app: "apply_permutation to_new d = Inr (reindex_names ?d)"
    by (simp add: apply_permutation_def Let_def els(1) rows(1))
  have lt: "to_new ! i < ?n" if "i < ?n" for i
    using p that by (metis is_perm_def lessThan_iff nth_mem)
  have surv: "surv to_new i" if "i < ?n" for i
    using lt [OF that] sh(3) by (simp add: surv_def)
  have flt: "filter (\<lambda>e. surv to_new (edge_child e)) (children d ! i) = children d ! i" if "i < ?n" for i
    using surv edges_in_rangeD [OF dim_wf_graph(1) [OF wf] that] by simp
  have core: "rename_core to_new d ?d"
    unfolding rename_core_def
    using p els rows kids lt surv flt sh
    by (simp add: is_perm_def nth_eq_iff_index_eq)
  have "distinct (map el_name els)"
    unfolding distinct_conv_nth
  proof (intro allI impI)
    fix i j assume ij: "i < length (map el_name els)" "j < length (map el_name els)" "i \<noteq> j"
    then obtain k l where kl: "k < ?n" "to_new ! k = i" "l < ?n" "to_new ! l = j"
      using p els(2) by (metis in_set_conv_nth is_perm_def length_map lessThan_iff)
    with ij(3) have "k \<noteq> l" by auto
    moreover have "distinct (map el_name (elements d))" using wf by (simp add: dim_wf_def names_ok_def)
    ultimately have "el_name (elements d ! k) \<noteq> el_name (elements d ! l)"
      using kl(1,3) nth_eq_iff_index_eq [of "map el_name (elements d)" k l] by simp
    moreover have "els ! i = elements d ! k" "els ! j = elements d ! l" using els(3) kl by auto
    ultimately show "map el_name els ! i \<noteq> map el_name els ! j" using ij(1,2) by simp
  qed
  then have "distinct (map el_name (elements ?d))" by simp
  from rename_reindex [OF wf core this] app els show ?thesis by auto
qed

text \<open>\<open>reorder\<close> accepts exactly a permutation of the names, never panics, and the result lists
  the elements in the requested order.\<close>

lemma reorder_Inr:
  assumes wf: "dim_wf d" and r: "reorder names d = Inr (to_new, d')"
  shows "dim_renames to_new d d' \<and> is_perm (length (elements d)) to_new \<and> map el_name (elements d') = names"
proof -
  let ?n = "length (elements d)"
  have len: "length names = ?n"
    and m: "reorder_map d 0 names (replicate ?n u32_max) (replicate ?n False) = Inr to_new"
    and a: "apply_permutation to_new d = Inr d'"
    using r by (auto simp: reorder_def Let_def split: if_splits)
  note p = reorder_map_perm [OF wf len m]
  obtain d2 where d2: "apply_permutation to_new d = Inr d2" "dim_renames to_new d d2"
    "length (elements d2) = ?n" "\<forall>i < ?n. elements d2 ! (to_new ! i) = elements d ! i"
    using perm_core [OF wf] p by blast
  have "map el_name (elements d2) ! j = names ! j" if "j < ?n" for j
  proof -
    have "j \<in> set to_new" "length to_new = ?n" using conjunct1 [OF p] that by (simp_all add: is_perm_def)
    then obtain k where k: "k < ?n" "to_new ! k = j" by (auto simp: in_set_conv_nth)
    have "names ! j = el_name (elements d ! k)" "elements d2 ! j = elements d ! k"
      unfolding k(2) [symmetric] using conjunct2 [OF p] d2(4) k(1) by blast+
    then show ?thesis using d2(3) that by simp
  qed
  then have "map el_name (elements d2) = names"
    using d2(3) len by (intro nth_equalityI) simp_all
  moreover have "d2 = d'" using a d2(1) by simp
  ultimately show ?thesis using d2(2) conjunct1 [OF p] by blast
qed

text \<open>\<open>reorder\<close> succeeds on every permutation of the element names.\<close>

lemma reorder_map_total:
  assumes "\<forall>name \<in> set names. \<exists>i. index_of d name = Some i \<and> i < n \<and> \<not> seen ! i"
    and "distinct names" and "inj_on (index_of d) (set names)" and "length seen = n"
  shows "\<exists>res. reorder_map d pos names to_new seen = Inr res"
  using assms
proof (induction names arbitrary: pos to_new seen)
  case (Cons name names)
  then obtain i where i: "index_of d name = Some i" "i < n" "\<not> seen ! i" by auto
  have "\<exists>j. index_of d m = Some j \<and> j < n \<and> \<not> seen[i := True] ! j" if m: "m \<in> set names" for m
  proof -
    obtain j where j: "index_of d m = Some j" "j < n" "\<not> seen ! j" using Cons.prems(1) m by auto
    moreover have "j \<noteq> i"
    proof
      assume "j = i"
      then have "m = name" using Cons.prems(3) j(1) i(1) m by (auto simp: inj_on_def)
      then show False using Cons.prems(2) m by simp
    qed
    ultimately show ?thesis by simp
  qed
  then have "\<exists>res. reorder_map d (Suc pos) names (to_new[i := as_u32 pos]) (seen[i := True]) = Inr res"
    using Cons.prems by (intro Cons.IH) (auto simp: inj_on_def)
  with i show ?case by simp
qed simp

lemma reorder_total:
  assumes wf: "dim_wf d" and p: "distinct names" "set names = el_name ` set (elements d)"
  shows "\<exists>to_new d'. reorder names d = Inr (to_new, d')"
proof -
  let ?n = "length (elements d)"
  have dist: "distinct (map el_name (elements d))" using wf by (simp add: dim_wf_def names_ok_def)
  have len: "length names = ?n"
    using p dist by (metis distinct_card length_map set_map)
  have "\<forall>name \<in> set names. \<exists>i. index_of d name = Some i \<and> i < ?n \<and> \<not> replicate ?n False ! i"
  proof
    fix name assume "name \<in> set names"
    then obtain i where "i < ?n" "el_name (elements d ! i) = name" using p(2) by (auto simp: in_set_conv_nth)
    then show "\<exists>i. index_of d name = Some i \<and> i < ?n \<and> \<not> replicate ?n False ! i"
      using index_of_Some [OF wf] by (intro exI [of _ i]) simp
  qed
  moreover have "inj_on (index_of d) (set names)"
  proof (rule inj_onI)
    fix a b assume ab: "a \<in> set names" "b \<in> set names" "index_of d a = index_of d b"
    then obtain i where "index_of d a = Some i" using calculation by blast
    then show "a = b" using ab(3) index_of_Some [OF wf] by (metis)
  qed
  ultimately obtain res where r: "reorder_map d 0 names (replicate ?n u32_max) (replicate ?n False) = Inr res"
    using reorder_map_total [of names d ?n "replicate ?n False" 0 "replicate ?n u32_max"] p(1) by auto
  with reorder_map_perm [OF wf len] perm_core [OF wf] obtain d' where "apply_permutation res d = Inr d'" by blast
  with r len show ?thesis by (auto simp: reorder_def)
qed

lemma reorder_map_Inl: "reorder_map d pos names to_new seen = Inl e \<Longrightarrow> e = InvalidReorder (dim_name d)"
  by (induction d pos names to_new seen rule: reorder_map.induct) (auto simp: bindE_eq_Inl split: if_splits)

lemma reorder_Inl:
  assumes wf: "dim_wf d" and r: "reorder names d = Inl e"
  shows "e = InvalidReorder (dim_name d)"
proof (cases "length names = length (elements d)")
  case True
  from r True reorder_map_Inl show ?thesis
    using reorder_map_perm [OF wf True] perm_core [OF wf]
    by (fastforce simp: reorder_def Let_def bindE_eq_Inl)
qed (use r in \<open>simp add: reorder_def\<close>)

lemma reorder_names_set:
  assumes wf: "dim_wf d" and r: "reorder names d = Inr (to_new, d')"
  shows "distinct names \<and> set names = el_name ` set (elements d)"
proof -
  let ?n = "length (elements d)"
  have len: "length names = ?n"
    and m: "reorder_map d 0 names (replicate ?n u32_max) (replicate ?n False) = Inr to_new"
    using r by (auto simp: reorder_def Let_def split: if_splits)
  note p = reorder_map_perm [OF wf len m]
  have "el_name ` set (elements d) \<subseteq> set names"
  proof
    fix x assume "x \<in> el_name ` set (elements d)"
    then obtain i where i: "i < ?n" "x = el_name (elements d ! i)" by (auto simp: in_set_conv_nth)
    have "to_new ! i \<in> set to_new"
      using i(1) conjunct1 [OF p] unfolding is_perm_def by (metis nth_mem)
    with conjunct1 [OF p] len have "to_new ! i < length names" by (metis is_perm_def lessThan_iff)
    then have "names ! (to_new ! i) \<in> set names" by (rule nth_mem)
    then show "x \<in> set names" using conjunct2 [OF p] i by simp
  qed
  moreover have "card (el_name ` set (elements d)) = length names"
    using wf len distinct_card [of "map el_name (elements d)"] by (simp add: dim_wf_def names_ok_def)
  ultimately show ?thesis
    by (metis List.finite_set card_distinct card_length card_mono card_seteq le_antisym)
qed

interpretation reord: index_edit reorder "\<lambda>_ _. True"
  by unfold_locales (use reorder_Inr in blast)

end
