(* ===== verification/Dimension_Ops.thy ===== *)
theory Dimension_Ops
  imports Dimension_Reindex
begin

text \<open>
  Sequences of dimension operations. \<open>dim_op\<close> names every public editing call of
  \<open>dimension.rs\<close>; a run applies them in order, an erroring call leaving the dimension as it
  was (every call checks before it writes). A dimension built this way from the empty one is
  well-formed, which gives the concrete inputs of the other results their hypothesis.
\<close>

datatype dim_op =
    OpAddElement string element_kind
  | OpAddAttribute string attribute_kind
  | OpSetAttribute nat string attribute_value
  | OpAddChild nat nat int
  | OpRemoveChild nat nat
  | OpReparent nat "nat option" int
  | OpSetKind nat element_kind
  | OpSetPinned bool nat
  | OpReorder "string list"
  | OpDelete nat
  | OpInsertAt string element_kind nat

fun dim_step :: "dim_op \<Rightarrow> dimension \<Rightarrow> model_error + dimension" where
  "dim_step (OpAddElement n k) d = Inr (snd (add_element n k d))"
| "dim_step (OpAddAttribute n k) d = Inr (snd (add_attribute n k d))"
| "dim_step (OpSetAttribute e a v) d = set_attribute e a v d"
| "dim_step (OpAddChild p c w) d = add_child p c w d"
| "dim_step (OpRemoveChild p c) d = remove_child p c d"
| "dim_step (OpReparent c p w) d = reparent c p w d"
| "dim_step (OpSetKind e k) d = bindE (set_kind e k d) (\<lambda>(_, d'). Inr d')"
| "dim_step (OpSetPinned b e) d = set_pinned b e d"
| "dim_step (OpReorder ns) d = bindE (reorder ns d) (\<lambda>(_, d'). Inr d')"
| "dim_step (OpDelete e) d = bindE (delete_edit e d) (\<lambda>(_, d'). Inr d')"
| "dim_step (OpInsertAt n k at) d = bindE (insert_edit (n, k, at) d) (\<lambda>(_, d'). Inr d')"

definition apply_op :: "dim_op \<Rightarrow> dimension \<Rightarrow> dimension" where
  "apply_op oper d = (case dim_step oper d of Inl _ \<Rightarrow> d | Inr d' \<Rightarrow> d')"

definition run_ops :: "dim_op list \<Rightarrow> dimension \<Rightarrow> dimension" where
  "run_ops ops d = fold apply_op ops d"

text \<open>Weights are \<open>i64\<close> values: the type the source gives them.\<close>

fun op_typed :: "dim_op \<Rightarrow> bool" where
  "op_typed (OpAddChild _ _ w) = in_i64 w"
| "op_typed (OpReparent _ _ w) = in_i64 w"
| "op_typed _ = True"

definition dim_size :: "dimension \<Rightarrow> nat" where
  "dim_size d = max (length (elements d)) (length (attributes d))"

lemma rename_size:
  "rename_core to_new d d' \<Longrightarrow> length (attributes d') = length (attributes d)"
  by (simp add: rename_core_def)

lemma dim_step_wf:
  assumes "dim_wf d" and "dim_size d < u32_max" and "op_typed oper" and "dim_step oper d = Inr d'"
  shows "dim_wf d'"
proof -
  have sz: "length (elements d) < u32_max" "length (attributes d) < u32_max"
    using assms(2) by (simp_all add: dim_size_def)
  show ?thesis
  proof (cases oper)
    case (OpInsertAt n k at)
    with assms sz ins.edit_wf [of d "(n, k, at)"] show ?thesis by auto
  next
    case (OpDelete e)
    with assms del.edit_wf [of d e] show ?thesis by auto
  next
    case (OpReorder ns)
    with assms reord.edit_wf [of d ns] show ?thesis by auto
  next
    case (OpSetKind e k)
    with assms show ?thesis by (auto intro: set_kind_wf)
  qed (use assms sz in \<open>auto intro: wf_intros\<close>)
qed

lemma put_attr_size [simp]: "dim_size (put_attr e a v d) = dim_size d"
  by (simp add: put_attr_def dim_size_def)

lemma dim_step_size:
  assumes "dim_wf d" and "dim_size d < u32_max" and "dim_step oper d = Inr d'"
  shows "dim_size d' \<le> Suc (dim_size d)"
proof (cases oper)
  case (OpInsertAt n k at)
  with assms show ?thesis
    by (auto simp: insert_edit_def insert_at_def Let_def dim_size_def split: if_splits)
next
  case (OpDelete e)
  with assms show ?thesis
    by (auto simp: delete_edit_def delete_def Let_def dim_size_def split: if_splits)
next
  case (OpReorder ns)
  with assms obtain to_new where r: "reorder ns d = Inr (to_new, d')" by auto
  from reorder_Inr [OF assms(1) r] have "length (elements d') = length ns"
    "length (attributes d') = length (attributes d)"
    by (auto simp: dim_renames_def rename_size)
  moreover have "length ns = length (elements d)"
    using r by (auto simp: reorder_def Let_def split: if_splits)
  ultimately show ?thesis by (simp add: dim_size_def max_def)
qed (use assms in \<open>auto simp: add_element_def add_attribute_def set_attribute_def add_child_def
      remove_child_def reparent_def set_kind_def set_pinned_def push_edge_def promote_def
      detach_child_def dim_size_def put_attr_def Let_def
      split: option.splits if_splits attribute_kind.splits attribute_value.splits\<close>)

lemma run_ops_wf:
  assumes "dim_wf d" and "dim_size d + length ops \<le> u32_max" and "list_all op_typed ops"
  shows "dim_wf (run_ops ops d)"
  using assms
proof (induction ops arbitrary: d)
  case Nil
  then show ?case by (simp add: run_ops_def)
next
  case (Cons oper ops)
  have "dim_wf (apply_op oper d) \<and> dim_size (apply_op oper d) \<le> Suc (dim_size d)"
    using Cons.prems dim_step_wf [of d oper] dim_step_size [of d oper]
    by (auto simp: apply_op_def split: sum.split)
  with Cons.IH [of "apply_op oper d"] Cons.prems show ?case by (simp add: run_ops_def)
qed

lemma run_new_wf:
  assumes "length ops \<le> u32_max" and "list_all op_typed ops"
  shows "dim_wf (run_ops ops (dim_new name))"
  using assms by (intro run_ops_wf dim_wf_new) (simp_all add: dim_size_def dim_new_def)

text \<open>A small dimension: two leaves under a total, an alias, a pinned element.\<close>

definition sample_ops :: "dim_op list" where
  "sample_ops =
     [OpAddElement ''Total'' Consolidated, OpAddElement ''N'' Leaf, OpAddElement ''S'' Leaf,
      OpAddElement ''Note'' Str, OpAddChild 0 1 1, OpAddChild 0 2 (- 2), OpAddAttribute ''code'' KAlias,
      OpSetAttribute 1 ''code'' (Text ''north''), OpAddChild 1 0 1]"

definition sample_dim :: dimension where
  "sample_dim = run_ops sample_ops (dim_new ''Region'')"

lemma sample_dim_wf [simp]: "dim_wf sample_dim"
  unfolding sample_dim_def
  by (rule run_new_wf) (simp_all add: sample_ops_def u32_max_def in_i64_def i64_min_def i64_max_def)

end
