(* ===== verification/Cell_Store.thy ===== *)
theory Cell_Store
  imports Dimension_Ops
begin

text \<open>
  The cell store of a cube (\<open>cube.rs\<close>, lines 10-150): the bit layout that packs a coordinate
  into a \<open>u64\<close>, and the sparse store keyed either by the packed coordinate or by the
  coordinate itself. A \<open>HashMap\<close> is an association list with distinct keys; the operations
  are \<open>AList.update\<close> and \<open>AList.delete\<close>, and \<open>entries\<close> is an iteration.

  The locale \<open>keyed_store\<close> states what the rest of the cube relies on: a store behaves as a
  finite map from valid coordinates to values, whichever representation it uses.
\<close>

unbundle bit_operations_syntax

type_synonym coord = "nat list"

section \<open>The layout\<close>

fun bit_len :: "nat \<Rightarrow> nat" where
  "bit_len n = (if n = 0 then 0 else Suc (bit_len (n div 2)))"

declare bit_len.simps [simp del]

definition leading_zeros32 :: "nat \<Rightarrow> nat" where
  "leading_zeros32 n = 32 - bit_len n"

definition bits_for :: "nat \<Rightarrow> nat" where
  "bits_for len = (if len \<le> 1 then 1 else 32 - leading_zeros32 (len - 1))"

record layout =
  offsets :: "nat list"
  masks :: "64 word list"
  narrow :: bool

fun layout_loop :: "nat list \<Rightarrow> nat list \<Rightarrow> 64 word list \<Rightarrow> nat \<Rightarrow> layout" where
  "layout_loop [] os ms offset = \<lparr>offsets = os, masks = ms, narrow = (offset \<le> 64)\<rparr>"
| "layout_loop (n # ns) os ms offset =
     (let width = bits_for n in
      layout_loop ns (os @ [offset]) (ms @ [push_bit width 1 - 1]) (min (offset + width) u32_max))"

definition layout_new :: "dimension list \<Rightarrow> layout" where
  "layout_new dims = layout_loop (map dim_len dims) [] [] 0"

definition pack :: "layout \<Rightarrow> coord \<Rightarrow> 64 word" where
  "pack lay coord =
     foldl (\<lambda>key (d, idx). key OR push_bit (offsets lay ! d) (word_of_nat idx)) 0
       (List.enumerate 0 coord)"

definition component :: "layout \<Rightarrow> 64 word \<Rightarrow> nat \<Rightarrow> nat" where
  "component lay key d = as_u32 (unat (drop_bit (offsets lay ! d) key AND masks lay ! d))"

definition unpack :: "layout \<Rightarrow> 64 word \<Rightarrow> nat \<Rightarrow> coord" where
  "unpack lay key rank = map (component lay key) [0..<rank]"

section \<open>The store\<close>

datatype 'v cell_store = Narrow "(64 word \<times> 'v) list" | Wide "(coord \<times> 'v) list"

definition store_new :: "bool \<Rightarrow> 'v cell_store" where
  "store_new nar = (if nar then Narrow [] else Wide [])"

fun store_len :: "'v cell_store \<Rightarrow> nat" where
  "store_len (Narrow m) = length m"
| "store_len (Wide m) = length m"

fun store_get :: "layout \<Rightarrow> 'v cell_store \<Rightarrow> coord \<Rightarrow> 'v option" where
  "store_get lay (Narrow m) coord = map_of m (pack lay coord)"
| "store_get lay (Wide m) coord = map_of m coord"

fun store_put :: "layout \<Rightarrow> coord \<Rightarrow> 'v \<Rightarrow> 'v cell_store \<Rightarrow> 'v cell_store" where
  "store_put lay coord v (Narrow m) = Narrow (AList.update (pack lay coord) v m)"
| "store_put lay coord v (Wide m) = Wide (AList.update coord v m)"

fun store_clear :: "layout \<Rightarrow> coord \<Rightarrow> 'v cell_store \<Rightarrow> 'v cell_store" where
  "store_clear lay coord (Narrow m) = Narrow (AList.delete (pack lay coord) m)"
| "store_clear lay coord (Wide m) = Wide (AList.delete coord m)"

fun store_entries :: "layout \<Rightarrow> nat \<Rightarrow> 'v cell_store \<Rightarrow> (coord \<times> 'v) list" where
  "store_entries lay rank (Narrow m) = map (\<lambda>(key, v). (unpack lay key rank, v)) m"
| "store_entries lay rank (Wide m) = m"

section \<open>Packing is injective on coordinates in range\<close>

text \<open>The offset of dimension \<open>d\<close> is the sum of the widths before it.\<close>

definition width_sum :: "nat list \<Rightarrow> nat \<Rightarrow> nat" where
  "width_sum ns d = sum_list (map bits_for (take d ns))"

lemma bit_len_bound: "n < 2 ^ bit_len n"
proof (induction n rule: bit_len.induct)
  case (1 n)
  show ?case
  proof (cases "n = 0")
    case False
    have "n div 2 < 2 ^ bit_len (n div 2)" using 1 False by simp
    then have "n < 2 * 2 ^ bit_len (n div 2)" by linarith
    with False show ?thesis by (simp add: bit_len.simps [of n])
  qed simp
qed

lemma bit_len_le: "n < 2 ^ k \<Longrightarrow> bit_len n \<le> k"
proof (induction n arbitrary: k rule: bit_len.induct)
  case (1 n)
  show ?case
  proof (cases "n = 0")
    case False
    with 1(2) obtain j where k: "k = Suc j" by (cases k) auto
    with 1(2) have "n div 2 < 2 ^ j" by simp
    with 1(1) [OF False this] k False show ?thesis by (simp add: bit_len.simps [of n])
  qed (simp add: bit_len.simps)
qed

lemma bits_for_bounds:
  assumes "n \<le> u32_max"
  shows "1 \<le> bits_for n \<and> bits_for n \<le> 32 \<and> (\<forall>i < n. i < 2 ^ bits_for n)"
proof (cases "n \<le> 1")
  case False
  have le: "bit_len (n - 1) \<le> 32"
    using assms by (intro bit_len_le) (simp add: u32_max_def)
  then have eq: "bits_for n = bit_len (n - 1)" using False by (simp add: bits_for_def leading_zeros32_def)
  have "bit_len (n - 1) \<noteq> 0" using False by (subst bit_len.simps) simp
  moreover have "i < 2 ^ bit_len (n - 1)" if "i < n" for i
    using bit_len_bound [of "n - 1"] that by linarith
  ultimately show ?thesis using le eq by simp
qed (simp add: bits_for_def)

lemma width_sum_0 [simp]: "width_sum ns 0 = 0"
  by (simp add: width_sum_def)

lemma width_sum_Cons [simp]: "width_sum (n # ns) (Suc d) = bits_for n + width_sum ns d"
  by (simp add: width_sum_def)

lemma width_sum_Suc: "d < length ns \<Longrightarrow> width_sum ns (Suc d) = width_sum ns d + bits_for (ns ! d)"
  by (simp add: width_sum_def take_Suc_conv_app_nth)

lemma width_sum_mono: "d \<le> e \<Longrightarrow> width_sum ns d \<le> width_sum ns e"
proof -
  assume "d \<le> e"
  then obtain k where "e = d + k" using le_Suc_ex by blast
  then show ?thesis by (simp add: width_sum_def take_add)
qed

lemma layout_loop_eq:
  assumes "off \<le> u32_max"
  shows "layout_loop ns os ms off =
     \<lparr>offsets = os @ map (\<lambda>d. min (off + width_sum ns d) u32_max) [0..<length ns],
      masks = ms @ map (\<lambda>n. mask (bits_for n)) ns,
      narrow = (off + width_sum ns (length ns) \<le> 64)\<rparr>"
  using assms
proof (induction ns os ms off rule: layout_loop.induct)
  case (2 n ns os ms off)
  have m: "min (min (off + bits_for n) u32_max + w) u32_max = min (off + (bits_for n + w)) u32_max" for w
    by (simp add: min_def)
  have "min (off + bits_for n) u32_max + w \<le> 64 \<longleftrightarrow> off + (bits_for n + w) \<le> 64" for w
    by (auto simp: min_def u32_max_def)
  with 2 show ?case
    by (simp add: m upt_conv_Cons map_Suc_upt [symmetric] comp_def mask_eq_exp_minus_1 Let_def del: upt_Suc map_Suc_upt)
qed (simp add: u32_max_def)

lemma layout_new_eq:
  "layout_new dims =
     (let ns = map dim_len dims in
      \<lparr>offsets = map (\<lambda>d. min (width_sum ns d) u32_max) [0..<length dims],
       masks = map (\<lambda>n. mask (bits_for n)) ns,
       narrow = (width_sum ns (length ns) \<le> 64)\<rparr>)"
  by (simp add: layout_new_def layout_loop_eq Let_def)

definition in_range :: "dimension list \<Rightarrow> coord \<Rightarrow> bool" where
  "in_range dims coord \<longleftrightarrow> list_all2 (\<lambda>dm i. i < length (elements dm)) dims coord"

lemma in_range_nth:
  "in_range dims coord \<longleftrightarrow>
     length coord = length dims \<and> (\<forall>d < length dims. coord ! d < length (elements (dims ! d)))"
  by (auto simp: in_range_def list_all2_conv_all_nth)

lemma bit_fold_or:
  "bit (foldl (\<lambda>key x. key OR f x) (k :: 64 word) xs) n \<longleftrightarrow> bit k n \<or> (\<exists>x \<in> set xs. bit (f x) n)"
  by (induction xs arbitrary: k) (auto simp: bit_or_iff)

lemma bit_pack:
  "bit (pack lay coord) n \<longleftrightarrow> n < 64 \<and>
     (\<exists>d < length coord. offsets lay ! d \<le> n \<and> bit (coord ! d) (n - offsets lay ! d))"
proof -
  have "pack lay coord = foldl (\<lambda>key x. key OR push_bit (offsets lay ! fst x) (word_of_nat (snd x))) 0
      (List.enumerate 0 coord)"
    by (simp add: pack_def split_def)
  then have "bit (pack lay coord) n \<longleftrightarrow>
      (\<exists>x \<in> set (List.enumerate 0 coord). bit (push_bit (offsets lay ! fst x) (word_of_nat (snd x)) :: 64 word) n)"
    by (simp add: bit_fold_or)
  also have "\<dots> \<longleftrightarrow> n < 64 \<and>
     (\<exists>d < length coord. offsets lay ! d \<le> n \<and> bit (coord ! d) (n - offsets lay ! d))"
    by (auto simp: in_set_enumerate_eq bit_push_bit_iff bit_simps Bex_def)
  finally show ?thesis .
qed

lemma not_bit_above: "(i::nat) < 2 ^ w \<Longrightarrow> w \<le> n \<Longrightarrow> \<not> bit i n"
  by (metis bit_take_bit_iff not_le take_bit_nat_eq_self)

theorem component_pack:
  assumes "list_all dim_wf dims" and "in_range dims coord" and "narrow (layout_new dims)"
    and "d < length dims"
  shows "component (layout_new dims) (pack (layout_new dims) coord) d = coord ! d"
proof -
  let ?lay = "layout_new dims" and ?ns = "map dim_len dims"
  have len: "length coord = length dims" using assms(2) by (simp add: in_range_nth)
  have wf: "dim_wf (dims ! e)" if "e < length dims" for e
    using assms(1) that by (simp add: list_all_length)
  have nar: "width_sum ?ns (length dims) \<le> 64" using assms(3) by (simp add: layout_new_eq Let_def)
  have total: "width_sum ?ns e \<le> 64" if "e \<le> length dims" for e
    using width_sum_mono [OF that, of ?ns] nar by linarith
  have off: "offsets ?lay ! e = width_sum ?ns e" if "e < length dims" for e
    using that total [of e] by (simp add: layout_new_eq Let_def u32_max_def)
  have msk: "masks ?lay ! d = mask (bits_for (?ns ! d))" using assms(4) by (simp add: layout_new_eq Let_def)
  have bnd: "?ns ! e = length (elements (dims ! e)) \<and> coord ! e < 2 ^ bits_for (?ns ! e) \<and> bits_for (?ns ! e) \<le> 32"
    if "e < length dims" for e
    using bits_for_bounds [of "length (elements (dims ! e))"] dim_wf_shape(3,4) [OF wf [OF that]]
      assms(2) that by (simp add: in_range_nth)
  have fit: "width_sum ?ns d + bits_for (?ns ! d) \<le> 64"
    using total [of "Suc d"] assms(4) by (simp add: width_sum_Suc)
  have bits: "bit (coord ! d) k \<longleftrightarrow> k < bits_for (?ns ! d) \<and> bit (pack ?lay coord) (width_sum ?ns d + k)" for k
  proof (cases "k < bits_for (?ns ! d)")
    case True
    have only: "e = d" if e: "e < length dims" "width_sum ?ns e \<le> width_sum ?ns d + k"
      "bit (coord ! e) (width_sum ?ns d + k - width_sum ?ns e)" for e
    proof (rule ccontr)
      assume "e \<noteq> d"
      then consider "e < d" | "d < e" by linarith
      then show False
      proof cases
        case 1
        then have "width_sum ?ns (Suc e) \<le> width_sum ?ns d" by (intro width_sum_mono) simp
        then have "bits_for (?ns ! e) \<le> width_sum ?ns d + k - width_sum ?ns e"
          using width_sum_Suc [of e ?ns] e(1) by simp
        then show False using not_bit_above bnd [OF e(1)] e(3) by blast
      next
        case 2
        then have "width_sum ?ns (Suc d) \<le> width_sum ?ns e" by (intro width_sum_mono) simp
        then show False using width_sum_Suc [of d ?ns] assms(4) True e(2) by simp
      qed
    qed
    have "width_sum ?ns d + k < 64" using True fit by linarith
    then have "bit (pack ?lay coord) (width_sum ?ns d + k) \<longleftrightarrow>
        (\<exists>e < length dims. width_sum ?ns e \<le> width_sum ?ns d + k \<and>
           bit (coord ! e) (width_sum ?ns d + k - width_sum ?ns e))"
      by (auto simp: bit_pack len off)
    also have "\<dots> \<longleftrightarrow> bit (coord ! d) k"
    proof
      assume "\<exists>e < length dims. width_sum ?ns e \<le> width_sum ?ns d + k \<and>
           bit (coord ! e) (width_sum ?ns d + k - width_sum ?ns e)"
      then obtain e where e: "e < length dims" "width_sum ?ns e \<le> width_sum ?ns d + k"
        "bit (coord ! e) (width_sum ?ns d + k - width_sum ?ns e)" by blast
      with only [OF e] show "bit (coord ! d) k" by simp
    next
      assume "bit (coord ! d) k"
      with assms(4) show "\<exists>e < length dims. width_sum ?ns e \<le> width_sum ?ns d + k \<and>
           bit (coord ! e) (width_sum ?ns d + k - width_sum ?ns e)" by (intro exI [of _ d]) simp
    qed
    finally show ?thesis using True by simp
  next
    case False
    then show ?thesis using not_bit_above [of "coord ! d"] bnd [OF assms(4)] by auto
  qed
  have "bit (unat (drop_bit (offsets ?lay ! d) (pack ?lay coord) AND masks ?lay ! d)) k = bit (coord ! d) k" for k
    unfolding bits using fit assms(4)
    by (auto simp: off msk bit_simps add.commute)
  then have "unat (drop_bit (offsets ?lay ! d) (pack ?lay coord) AND masks ?lay ! d) = coord ! d"
    by (intro bit_eqI) simp
  moreover have "coord ! d \<le> u32_max"
    using assms(2,4) dim_wf_shape(3) [OF wf [OF assms(4)]] by (auto simp: in_range_nth)
  ultimately show ?thesis by (simp add: component_def)
qed

lemma unpack_pack:
  assumes "list_all dim_wf dims" and "in_range dims coord" and "narrow (layout_new dims)"
  shows "unpack (layout_new dims) (pack (layout_new dims) coord) (length dims) = coord"
  using component_pack [OF assms] assms(2)
  by (intro nth_equalityI) (simp_all add: unpack_def in_range_nth)

lemma pack_inj:
  assumes "list_all dim_wf dims" and "narrow (layout_new dims)"
    and "in_range dims a" and "in_range dims b" and "pack (layout_new dims) a = pack (layout_new dims) b"
  shows "a = b"
  by (metis assms unpack_pack)

section \<open>The store as a finite map\<close>

text \<open>Re-inserting a list of cells, as every rebuild of a store does.\<close>

definition put_all :: "('k \<Rightarrow> 'v \<Rightarrow> 's \<Rightarrow> 's) \<Rightarrow> ('k \<times> 'v) list \<Rightarrow> 's \<Rightarrow> 's" where
  "put_all pt cs s = foldl (\<lambda>s (k, v). pt k v s) s cs"

lemma put_all_simps [simp]:
  "put_all pt [] s = s" "put_all pt ((k, v) # cs) s = put_all pt cs (pt k v s)"
  by (simp_all add: put_all_def)

locale keyed_store =
  fixes valid :: "'k \<Rightarrow> bool" and inv :: "'s \<Rightarrow> bool" and none :: 's
    and find :: "'s \<Rightarrow> 'k \<Rightarrow> 'v option" and pt :: "'k \<Rightarrow> 'v \<Rightarrow> 's \<Rightarrow> 's"
    and clear :: "'k \<Rightarrow> 's \<Rightarrow> 's" and entries :: "'s \<Rightarrow> ('k \<times> 'v) list"
  assumes inv_none: "inv s \<Longrightarrow> inv none" and find_none: "find none k = None"
    and inv_pt: "inv s \<Longrightarrow> valid k \<Longrightarrow> inv (pt k v s)"
    and find_pt: "inv s \<Longrightarrow> valid k \<Longrightarrow> valid j \<Longrightarrow> find (pt k v s) j = (if j = k then Some v else find s j)"
    and inv_clear: "inv s \<Longrightarrow> valid k \<Longrightarrow> inv (clear k s)"
    and find_clear: "inv s \<Longrightarrow> valid k \<Longrightarrow> valid j \<Longrightarrow> find (clear k s) j = (if j = k then None else find s j)"
    and entries_valid: "inv s \<Longrightarrow> (k, v) \<in> set (entries s) \<Longrightarrow> valid k"
    and entries_distinct: "inv s \<Longrightarrow> distinct (map fst (entries s))"
    and entries_find: "inv s \<Longrightarrow> valid k \<Longrightarrow> find s k = map_of (entries s) k"
begin

lemma entries_iff: "inv s \<Longrightarrow> (k, v) \<in> set (entries s) \<longleftrightarrow> valid k \<and> find s k = Some v"
  using entries_valid entries_distinct entries_find by (metis map_of_eq_Some_iff)

text \<open>The entries are determined by the map the store represents, up to their order.\<close>

lemma entries_mset:
  assumes "inv s" and "inv t" and "\<And>k. valid k \<Longrightarrow> find s k = find t k"
  shows "mset (entries s) = mset (entries t)"
proof -
  have "set (entries s) = set (entries t)"
    using assms by (auto simp: entries_iff)
  moreover have "distinct (entries s)" "distinct (entries t)"
    using entries_distinct assms(1,2) distinct_map by blast+
  ultimately show ?thesis by (metis set_eq_iff_mset_eq_distinct)
qed

lemma put_all_inv_find:
  assumes "inv s" and "\<forall>k \<in> fst ` set cs. valid k" and "distinct (map fst cs)"
  shows "inv (put_all pt cs s) \<and>
     (\<forall>j. valid j \<longrightarrow> find (put_all pt cs s) j =
        (case map_of cs j of Some v \<Rightarrow> Some v | None \<Rightarrow> find s j))"
  using assms
proof (induction cs arbitrary: s)
  case (Cons c cs)
  obtain k v where c: "c = (k, v)" by force
  from Cons.prems have k: "valid k" "k \<notin> fst ` set cs" by (auto simp: c)
  then have "map_of cs k = None" by (simp add: map_of_eq_None_iff)
  with Cons.IH [of "pt k v s"] Cons.prems k(1) show ?case
    by (auto simp: c inv_pt find_pt split: option.split)
qed simp

lemma put_all_none:
  assumes "inv none" and "\<forall>k \<in> fst ` set cs. valid k" and "distinct (map fst cs)"
  shows "inv (put_all pt cs none)" "valid j \<Longrightarrow> find (put_all pt cs none) j = map_of cs j"
  using put_all_inv_find [OF assms] by (auto simp: find_none split: option.split)

end

definition store_ok :: "dimension list \<Rightarrow> 'v cell_store \<Rightarrow> bool" where
  "store_ok dims st \<longleftrightarrow> list_all dim_wf dims \<and>
     (case st of
        Narrow m \<Rightarrow> narrow (layout_new dims) \<and> distinct (map fst m) \<and>
          (\<forall>key \<in> fst ` set m. \<exists>c. in_range dims c \<and> key = pack (layout_new dims) c)
      | Wide m \<Rightarrow> \<not> narrow (layout_new dims) \<and> distinct (map fst m) \<and> (\<forall>c \<in> fst ` set m. in_range dims c))"

lemma map_of_delete: "map_of (AList.delete k m) j = (if j = k then None else map_of m j)"
  by (simp add: delete_conv)

lemma map_of_update: "map_of (AList.update k v m) j = (if j = k then Some v else map_of m j)"
  by (simp add: update_conv)

lemma distinct_delete: "distinct (map fst m) \<Longrightarrow> distinct (map fst (AList.delete k m))"
  by (simp add: AList.distinct_delete)

lemma keys_delete: "fst ` set (AList.delete k m) = fst ` set m - {k}"
  by (metis delete_keys set_map set_removeAll)

lemma store_put_law:
  assumes "store_ok dims s" and "in_range dims k"
  shows "store_ok dims (store_put (layout_new dims) k v s)"
    "in_range dims j \<Longrightarrow> store_get (layout_new dims) (store_put (layout_new dims) k v s) j =
       (if j = k then Some v else store_get (layout_new dims) s j)"
  using assms pack_inj [of dims j k]
  by (cases s; auto simp: store_ok_def map_of_update dom_update distinct_update)+

lemma store_clear_law:
  assumes "store_ok dims s" and "in_range dims k"
  shows "store_ok dims (store_clear (layout_new dims) k s)"
    "in_range dims j \<Longrightarrow> store_get (layout_new dims) (store_clear (layout_new dims) k s) j =
       (if j = k then None else store_get (layout_new dims) s j)"
  using assms pack_inj [of dims j k]
  by (cases s; auto simp: store_ok_def map_of_delete distinct_delete keys_delete)+

lemma narrow_entries:
  assumes "store_ok dims (Narrow m)"
  shows "map fst (store_entries (layout_new dims) (length dims) (Narrow m)) =
      map (\<lambda>key. unpack (layout_new dims) key (length dims)) (map fst m)"
    "key \<in> fst ` set m \<Longrightarrow> in_range dims (unpack (layout_new dims) key (length dims)) \<and>
       pack (layout_new dims) (unpack (layout_new dims) key (length dims)) = key"
proof -
  show "map fst (store_entries (layout_new dims) (length dims) (Narrow m)) =
      map (\<lambda>key. unpack (layout_new dims) key (length dims)) (map fst m)"
    by (simp add: split_def)
  assume "key \<in> fst ` set m"
  with assms obtain c where c: "in_range dims c" "key = pack (layout_new dims) c"
    unfolding store_ok_def by auto
  have wf: "list_all dim_wf dims" "narrow (layout_new dims)" using assms by (simp_all add: store_ok_def)
  show "in_range dims (unpack (layout_new dims) key (length dims)) \<and>
       pack (layout_new dims) (unpack (layout_new dims) key (length dims)) = key"
    unfolding c(2) unpack_pack [OF wf(1) c(1) wf(2)] using c(1) by simp
qed

lemma store_entries_law:
  assumes "store_ok dims s"
  shows "distinct (map fst (store_entries (layout_new dims) (length dims) s))"
    and "(c, v) \<in> set (store_entries (layout_new dims) (length dims) s) \<Longrightarrow> in_range dims c"
    and "in_range dims c \<Longrightarrow>
       store_get (layout_new dims) s c = map_of (store_entries (layout_new dims) (length dims) s) c"
proof -
  have "distinct (map fst (store_entries (layout_new dims) (length dims) s)) \<and>
     ((c, v) \<in> set (store_entries (layout_new dims) (length dims) s) \<longrightarrow> in_range dims c) \<and>
     (in_range dims c \<longrightarrow>
        store_get (layout_new dims) s c = map_of (store_entries (layout_new dims) (length dims) s) c)"
  proof (cases s)
    case (Narrow m)
    note ok = assms [unfolded Narrow]
    let ?u = "\<lambda>key. unpack (layout_new dims) key (length dims)"
    note un = narrow_entries(2) [OF ok]
    have inj: "inj_on ?u (fst ` set m)"
      by (rule inj_on_inverseI [where g = "pack (layout_new dims)"]) (simp add: un)
    have wf: "list_all dim_wf dims" "narrow (layout_new dims)" using ok by (simp_all add: store_ok_def)
    have "map_of (map (\<lambda>(key, v). (?u key, v)) n) c = map_of n (pack (layout_new dims) c)"
      if "in_range dims c" "set n \<subseteq> set m" for n
      using that(2)
    proof (induction n)
      case (Cons kv n)
      obtain key v where kv: "kv = (key, v)" by force
      have "key \<in> fst ` set m" using Cons.prems by (auto simp: kv intro: rev_image_eqI)
      then have "?u key = c \<longleftrightarrow> pack (layout_new dims) c = key"
        using unpack_pack [OF wf(1) that(1) wf(2)] un [of key] by auto
      moreover have "set n \<subseteq> set m" using Cons.prems by simp
      ultimately show ?case using Cons.IH by (simp add: kv eq_commute)
    qed simp
    then have get: "in_range dims c \<Longrightarrow> store_get (layout_new dims) s c =
        map_of (store_entries (layout_new dims) (length dims) s) c"
      by (simp add: Narrow)
    have "distinct (map ?u (map fst m))"
      using ok inj distinct_map [of ?u "map fst m"] by (simp add: store_ok_def del: map_map)
    then have dist: "distinct (map fst (store_entries (layout_new dims) (length dims) s))"
      unfolding Narrow narrow_entries(1) [OF ok] .
    have "in_range dims c" if "(c, v) \<in> set (store_entries (layout_new dims) (length dims) s)"
    proof -
      from that obtain key where "(key, v) \<in> set m" "c = ?u key" by (auto simp: Narrow)
      with un show ?thesis by force
    qed
    with get dist show ?thesis by blast
  next
    case (Wide m)
    with assms show ?thesis by (force simp: store_ok_def)
  qed
  then show "distinct (map fst (store_entries (layout_new dims) (length dims) s))"
    and "(c, v) \<in> set (store_entries (layout_new dims) (length dims) s) \<Longrightarrow> in_range dims c"
    and "in_range dims c \<Longrightarrow>
       store_get (layout_new dims) s c = map_of (store_entries (layout_new dims) (length dims) s) c"
    by simp_all
qed

definition store_empty :: "dimension list \<Rightarrow> 'v cell_store" where
  "store_empty dims = store_new (narrow (layout_new dims))"

lemma store_empty_ok: "list_all dim_wf dims \<Longrightarrow> store_ok dims (store_empty dims)"
  by (simp add: store_ok_def store_empty_def store_new_def)

interpretation cells: keyed_store "in_range dims" "store_ok dims" "store_empty dims"
    "store_get (layout_new dims)" "store_put (layout_new dims)" "store_clear (layout_new dims)"
    "store_entries (layout_new dims) (length dims)"
  for dims
proof
  show "store_ok dims s \<Longrightarrow> store_ok dims (store_empty dims)" for s
    by (rule store_empty_ok) (simp add: store_ok_def)
  show "store_get (layout_new dims) (store_empty dims) k = None" for k
    by (simp add: store_empty_def store_new_def)
qed (rule store_put_law store_clear_law store_entries_law; assumption)+

end
