(* ===== verification/String_Pool.thy ===== *)
theory String_Pool
  imports Cell_Store
begin

text \<open>
  The interning pool of string cell values (\<open>cube.rs\<close>, \<open>StringPool\<close>): \<open>intern\<close>,
  lookup by id and the compaction that drops the ids no cell references.
\<close>

record string_pool =
  by_id :: "string list"
  ids :: "string \<rightharpoonup> nat"

definition pool_empty :: string_pool where
  "pool_empty = \<lparr>by_id = [], ids = Map.empty\<rparr>"

definition intern :: "string \<Rightarrow> string_pool \<Rightarrow> nat \<times> string_pool" where
  "intern v p =
     (case ids p v of
        Some i \<Rightarrow> (i, p)
      | None \<Rightarrow>
          let i = as_u32 (length (by_id p))
          in (i, \<lparr>by_id = by_id p @ [v], ids = (ids p)(v \<mapsto> i)\<rparr>))"

definition pool_get :: "string_pool \<Rightarrow> nat \<Rightarrow> string" where
  "pool_get p i = by_id p ! i"

text \<open>One turn of the compaction loop: the remap table, the new \<open>by_id\<close> and its reverse.\<close>

definition compact_step :: "nat set \<Rightarrow> string_pool \<Rightarrow> nat list \<times> string_pool \<Rightarrow> nat
    \<Rightarrow> nat list \<times> string_pool" where
  "compact_step live p acc old =
     (case acc of (remap, q) \<Rightarrow>
        if old \<notin> live then (remap, q)
        else let new = as_u32 (length (by_id q)); shared = by_id p ! old
             in (remap[old := new], \<lparr>by_id = by_id q @ [shared], ids = (ids q)(shared \<mapsto> new)\<rparr>))"

definition compact :: "nat set \<Rightarrow> string_pool \<Rightarrow> nat list \<times> string_pool" where
  "compact live p =
     (let old_len = length (by_id p)
      in foldl (compact_step live p) (replicate old_len u32_max, pool_empty) [0..<as_u32 old_len])"

section \<open>Pools without duplicates\<close>

definition pool_ok :: "string_pool \<Rightarrow> bool" where
  "pool_ok p \<longleftrightarrow> distinct (by_id p) \<and> length (by_id p) \<le> u32_max \<and>
     ids p = (\<lambda>s. position (\<lambda>t. t = s) (by_id p))"

lemma pool_ok_empty [simp]: "pool_ok pool_empty"
  by (simp add: pool_ok_def pool_empty_def)

lemma pool_ok_snoc:
  assumes "pool_ok p" and "v \<notin> set (by_id p)" and "length (by_id p) < u32_max"
  shows "pool_ok \<lparr>by_id = by_id p @ [v], ids = (ids p)(v \<mapsto> length (by_id p))\<rparr>"
proof -
  have "position (\<lambda>t. t = v) (by_id p) = None" using assms(2) by (auto simp: position_None)
  then show ?thesis using assms
    by (auto simp: pool_ok_def fun_eq_iff position_snoc split: option.splits)
qed

lemma intern_correct:
  assumes "pool_ok p" and "length (by_id p) < u32_max" and "intern v p = (k, q)"
  shows "pool_ok q \<and> k < length (by_id q) \<and> pool_get q k = v \<and>
     length (by_id q) \<le> Suc (length (by_id p)) \<and>
     (\<forall>i < length (by_id p). i < length (by_id q) \<and> pool_get q i = pool_get p i)"
proof (cases "ids p v")
  case None
  then have new: "v \<notin> set (by_id p)" using assms(1) by (auto simp: pool_ok_def position_None)
  have "k = length (by_id p)" "q = \<lparr>by_id = by_id p @ [v], ids = (ids p)(v \<mapsto> length (by_id p))\<rparr>"
    using assms(2,3) None by (auto simp: intern_def Let_def)
  with pool_ok_snoc [OF assms(1) new assms(2)] show ?thesis by (simp add: pool_get_def nth_append)
next
  case (Some i)
  with assms have "k = i" "q = p" by (simp_all add: intern_def)
  with Some assms(1) show ?thesis by (auto simp: pool_ok_def pool_get_def dest: position_SomeD)
qed

lemma compact_invariant:
  assumes "pool_ok p" and "n \<le> length (by_id p)"
  shows "case foldl (compact_step live p) (replicate (length (by_id p)) u32_max, pool_empty) [0..<n] of
     (remap, q) \<Rightarrow> pool_ok q \<and> length remap = length (by_id p) \<and>
       by_id q = map ((!) (by_id p)) (filter (\<lambda>i. i \<in> live) [0..<n]) \<and>
       (\<forall>i < length (by_id p). remap ! i =
          (if i < n \<and> i \<in> live then length (filter (\<lambda>i. i \<in> live) [0..<i]) else u32_max))"
  using assms(2)
proof (induction n)
  case 0
  then show ?case using pool_ok_empty by (simp add: pool_empty_def)
next
  case (Suc n)
  let ?f = "foldl (compact_step live p) (replicate (length (by_id p)) u32_max, pool_empty)"
  obtain remap q where f: "?f [0..<n] = (remap, q)" by force
  with Suc have IH: "pool_ok q" "length remap = length (by_id p)"
    "by_id q = map ((!) (by_id p)) (filter (\<lambda>i. i \<in> live) [0..<n])"
    "\<forall>i < length (by_id p). remap ! i =
          (if i < n \<and> i \<in> live then length (filter (\<lambda>i. i \<in> live) [0..<i]) else u32_max)" by auto
  have step: "?f [0..<Suc n] = compact_step live p (remap, q) n" by (simp add: f)
  show ?case
  proof (cases "n \<in> live")
    case False
    with IH Suc.prems show ?thesis
      unfolding step by (simp add: compact_step_def) (use less_antisym in blast)
  next
    case True
    have len: "length (by_id q) \<le> n" unfolding IH(3) by (metis length_filter_le length_map length_upt minus_nat.diff_0)
    have dist: "distinct (by_id p)" and bnd: "length (by_id p) \<le> u32_max" using assms(1) by (simp_all add: pool_ok_def)
    have new: "by_id p ! n \<notin> set (by_id q)"
      using dist Suc.prems by (auto simp: IH(3) nth_eq_iff_index_eq)
    have "as_u32 (length (by_id q)) = length (by_id q)" using len bnd Suc.prems by simp
    then have "compact_step live p (remap, q) n = (remap[n := length (by_id q)],
        \<lparr>by_id = by_id q @ [by_id p ! n], ids = (ids q)(by_id p ! n \<mapsto> length (by_id q))\<rparr>)"
      using True by (simp add: compact_step_def Let_def)
    moreover have "length (by_id q) < u32_max" using len bnd Suc.prems by linarith
    ultimately show ?thesis
      unfolding step using pool_ok_snoc [OF IH(1) new] IH True Suc.prems
      by (auto simp: nth_list_update less_Suc_eq)
  qed
qed

text \<open>Compaction keeps exactly the live strings, in insertion order, and the table maps every
  live id to the new id of the same string.\<close>

lemma compact_correct:
  assumes "pool_ok p" and "compact live p = (remap, q)"
  shows "pool_ok q" "by_id q = map ((!) (by_id p)) (filter (\<lambda>i. i \<in> live) [0..<length (by_id p)])"
    "i \<in> live \<Longrightarrow> i < length (by_id p) \<Longrightarrow>
       remap ! i < length (by_id q) \<and> pool_get q (remap ! i) = pool_get p i"
proof -
  let ?n = "length (by_id p)"
  have n: "as_u32 ?n = ?n" using assms(1) by (simp add: pool_ok_def)
  have inv: "pool_ok q" "by_id q = map ((!) (by_id p)) (filter (\<lambda>i. i \<in> live) [0..<?n])"
    "\<forall>i < ?n. remap ! i = (if i < ?n \<and> i \<in> live then length (filter (\<lambda>i. i \<in> live) [0..<i]) else u32_max)"
    using compact_invariant [OF assms(1) order_refl, of live] assms(2) by (auto simp: compact_def n Let_def)
  then show "pool_ok q" "by_id q = map ((!) (by_id p)) (filter (\<lambda>i. i \<in> live) [0..<?n])" by simp_all
  assume i: "i \<in> live" "i < ?n"
  have split: "[0..<?n] = [0..<i] @ i # [Suc i..<?n]" 
    using i(2) upt_add_eq_append [of 0 i "?n - i"] upt_conv_Cons [of i ?n] by simp
  have "by_id q = map ((!) (by_id p)) (filter (\<lambda>i. i \<in> live) [0..<i]) @ by_id p ! i #
      map ((!) (by_id p)) (filter (\<lambda>i. i \<in> live) [Suc i..<?n])"
    unfolding inv(2) split using i(1) by simp
  moreover have "remap ! i = length (map ((!) (by_id p)) (filter (\<lambda>i. i \<in> live) [0..<i]))"
    using inv(3) i by simp
  ultimately show "remap ! i < length (by_id q) \<and> pool_get q (remap ! i) = pool_get p i"
    unfolding pool_get_def by (metis add_Suc_right length_Cons length_append less_add_Suc1 nth_append_length)
qed

end
