(* ===== verification/Cube.thy ===== *)
theory Cube
  imports String_Pool
begin

text \<open>
  Cubes (\<open>crates/epiphany-core/src/cube.rs\<close>): the record, its construction and growth, cell
  reads and writes, and the consolidating reads. The structural edits are in \<open>Cube_Edit\<close>.
  An operation on \<open>&mut self\<close> returns the new cube; one that fails returns the error, the
  caller keeping the cube it had.
\<close>

record cube =
  cube_name :: string
  dims :: "dimension list"
  lay :: layout
  cells :: "fixed cell_store"
  string_cells :: "nat cell_store"
  pool :: string_pool

record element_spec =
  es_dimension :: string
  es_name :: string
  es_kind :: element_kind

record edge_spec =
  gs_dimension :: string
  gs_parent :: string
  gs_child :: string
  gs_weight :: int

record dimension_def =
  df_name :: string
  df_elements :: "(string \<times> element_kind) list"
  df_edges :: "(string \<times> string \<times> int) list"
  df_attributes :: "(string \<times> attribute_kind) list"
  df_values :: "(string \<times> string \<times> attribute_value) list"

datatype batch_write = BatchLeaf coord fixed | BatchStr coord string

section \<open>Rebuilding the stores\<close>

definition rank :: "cube \<Rightarrow> nat" where
  "rank c = length (dims c)"

definition dimension_index :: "cube \<Rightarrow> string \<Rightarrow> model_error + nat" where
  "dimension_index c name =
     ok_or (UnknownDimension (cube_name c) name) (position (\<lambda>d. dim_name d = name) (dims c))"

definition rebuild_store :: "layout \<Rightarrow> layout \<Rightarrow> nat \<Rightarrow> (coord \<Rightarrow> coord option)
    \<Rightarrow> 'v cell_store \<Rightarrow> 'v cell_store" where
  "rebuild_store old new rk transform st =
     foldl (\<lambda>s (coord, v). case transform coord of None \<Rightarrow> s | Some coord' \<Rightarrow> store_put new coord' v s)
       (store_new (narrow new)) (store_entries old rk st)"

definition rebuild_stores :: "layout \<Rightarrow> bool \<Rightarrow> bool \<Rightarrow> (coord \<Rightarrow> coord option) \<Rightarrow> cube \<Rightarrow> cube" where
  "rebuild_stores new numeric strings transform c =
     c\<lparr>cells := if numeric then rebuild_store (lay c) new (rank c) transform (cells c) else cells c,
       string_cells := if strings then rebuild_store (lay c) new (rank c) transform (string_cells c)
                       else string_cells c,
       lay := new\<rparr>"

definition relayout :: "cube \<Rightarrow> cube" where
  "relayout c =
     (let new = layout_new (dims c)
      in if new = lay c then c else rebuild_stores new True True Some c)"

section \<open>Construction and growth\<close>

definition cube_new :: "string \<Rightarrow> dimension list \<Rightarrow> model_error + cube" where
  "cube_new name ds =
     (if ds = [] then Inl EmptyCube
      else let l = layout_new ds in
        Inr \<lparr>cube_name = name, dims = ds, lay = l, cells = store_new (narrow l),
             string_cells = store_new (narrow l), pool = pool_empty\<rparr>)"

definition find_dim :: "string \<Rightarrow> dimension list \<Rightarrow> string \<Rightarrow> model_error + nat" where
  "find_dim cname ds name = ok_or (UnknownDimension cname name) (position (\<lambda>d. dim_name d = name) ds)"

fun grow_elements :: "string \<Rightarrow> dimension list \<Rightarrow> nat \<Rightarrow> element_spec list
    \<Rightarrow> model_error + nat \<times> dimension list" where
  "grow_elements cname ds added [] = Inr (added, ds)"
| "grow_elements cname ds added (spec # specs) =
     bindE (find_dim cname ds (es_dimension spec)) (\<lambda>d.
       let dim = ds ! d in
       case index_of dim (es_name spec) of
         Some existing \<Rightarrow>
           bindE (get_element dim existing) (\<lambda>el.
             if el_kind el \<noteq> es_kind spec
             then Inl (ElementKindConflict (es_dimension spec) (es_name spec))
             else grow_elements cname ds added specs)
       | None \<Rightarrow>
           let dim' = snd (case es_kind spec of
                             Leaf \<Rightarrow> add_leaf (es_name spec) dim
                           | Str \<Rightarrow> add_string (es_name spec) dim
                           | Consolidated \<Rightarrow> add_consolidated (es_name spec) dim)
           in grow_elements cname (ds[d := dim']) (added + 1) specs)"

fun grow_edges :: "string \<Rightarrow> dimension list \<Rightarrow> edge_spec list \<Rightarrow> model_error + dimension list" where
  "grow_edges cname ds [] = Inr ds"
| "grow_edges cname ds (e # es) =
     bindE (find_dim cname ds (gs_dimension e)) (\<lambda>d.
       let dim = ds ! d in
       bindE (ok_or (ElementNotFound (gs_dimension e) (gs_parent e)) (index_of dim (gs_parent e))) (\<lambda>p.
       bindE (ok_or (ElementNotFound (gs_dimension e) (gs_child e)) (index_of dim (gs_child e))) (\<lambda>ch.
       bindE (child_weight dim p ch) (\<lambda>cur.
         case cur of
           Some w \<Rightarrow>
             if w \<noteq> gs_weight e
             then Inl (EdgeWeightConflict (gs_dimension e) (gs_parent e) (gs_child e))
             else grow_edges cname ds es
         | None \<Rightarrow>
             bindE (add_child p ch (gs_weight e) dim) (\<lambda>dim'.
               grow_edges cname (ds[d := dim']) es)))))"

definition apply_growth :: "string \<Rightarrow> dimension list \<Rightarrow> element_spec list \<Rightarrow> edge_spec list
    \<Rightarrow> model_error + nat \<times> dimension list" where
  "apply_growth cname ds elems edges =
     bindE (grow_elements cname ds 0 elems) (\<lambda>(added, ds').
     bindE (grow_edges cname ds' edges) (\<lambda>ds''. Inr (added, ds'')))"

definition extend_schema :: "element_spec list \<Rightarrow> edge_spec list \<Rightarrow> cube \<Rightarrow> model_error + nat \<times> cube" where
  "extend_schema elems edges c =
     bindE (apply_growth (cube_name c) (dims c) elems edges) (\<lambda>(added, ds).
       Inr (added, relayout (c\<lparr>dims := ds\<rparr>)))"

definition define_attribute :: "string \<Rightarrow> string \<Rightarrow> attribute_kind \<Rightarrow> cube \<Rightarrow> model_error + cube" where
  "define_attribute dimension name kind c =
     bindE (dimension_index c dimension) (\<lambda>d.
       let dim = dims c ! d in
       case attribute_index dim name of
         Some existing \<Rightarrow>
           if attr_kind (attributes dim ! existing) \<noteq> kind
           then Inl (AttributeKindConflict dimension name) else Inr c
       | None \<Rightarrow> Inr (c\<lparr>dims := (dims c)[d := snd (add_attribute name kind dim)]\<rparr>))"

fun set_values :: "string \<Rightarrow> string \<Rightarrow> (string \<times> attribute_value) list \<Rightarrow> dimension
    \<Rightarrow> model_error + dimension" where
  "set_values dimension attribute [] next = Inr next"
| "set_values dimension attribute ((name, value) # values) next =
     bindE (ok_or (ElementNotFound dimension name) (index_of next name)) (\<lambda>element.
     bindE (set_attribute element attribute value next) (\<lambda>next'.
       set_values dimension attribute values next'))"

definition set_attribute_values ::
    "string \<Rightarrow> string \<Rightarrow> (string \<times> attribute_value) list \<Rightarrow> cube \<Rightarrow> model_error + cube" where
  "set_attribute_values dimension attribute values c =
     bindE (dimension_index c dimension) (\<lambda>d.
     bindE (set_values dimension attribute values (dims c ! d)) (\<lambda>dim'.
       Inr (c\<lparr>dims := (dims c)[d := dim']\<rparr>)))"

fun dup_name :: "dimension_def list \<Rightarrow> string set \<Rightarrow> string option" where
  "dup_name [] seen = None"
| "dup_name (d # ds) seen =
     (if df_name d \<in> seen then Some (df_name d) else dup_name ds (insert (df_name d) seen))"

fun define_all :: "string \<Rightarrow> (string \<times> attribute_kind) list \<Rightarrow> cube \<Rightarrow> model_error + cube" where
  "define_all dname [] c = Inr c"
| "define_all dname ((attr, kind) # rest) c =
     bindE (define_attribute dname attr kind c) (define_all dname rest)"

fun value_all :: "string \<Rightarrow> (string \<times> string \<times> attribute_value) list \<Rightarrow> dimension
    \<Rightarrow> model_error + dimension" where
  "value_all dname [] dim = Inr dim"
| "value_all dname ((element, attr, value) # rest) dim =
     bindE (ok_or (ElementNotFound dname element) (index_of dim element)) (\<lambda>idx.
     bindE (set_attribute idx attr value dim) (value_all dname rest))"

fun build_attributes :: "dimension_def list \<Rightarrow> cube \<Rightarrow> model_error + cube" where
  "build_attributes [] c = Inr c"
| "build_attributes (d # ds) c =
     bindE (define_all (df_name d) (df_attributes d) c) (\<lambda>c.
       if df_values d = [] then build_attributes ds c
       else bindE (dimension_index c (df_name d)) (\<lambda>di.
            bindE (value_all (df_name d) (df_values d) (dims c ! di)) (\<lambda>dim'.
              build_attributes ds (c\<lparr>dims := (dims c)[di := dim']\<rparr>))))"

definition build :: "string \<Rightarrow> dimension_def list \<Rightarrow> model_error + cube" where
  "build name ds =
     (if ds = [] then Inl EmptyCube
      else case dup_name ds {} of
        Some n \<Rightarrow> Inl (DuplicateDimension n)
      | None \<Rightarrow>
          bindE (cube_new name (map (\<lambda>d. dim_new (df_name d)) ds)) (\<lambda>c.
            let elems = concat (map (\<lambda>d. map (\<lambda>(n, k).
                  \<lparr>es_dimension = df_name d, es_name = n, es_kind = k\<rparr>) (df_elements d)) ds);
                edges = concat (map (\<lambda>d. map (\<lambda>(p, ch, w).
                  \<lparr>gs_dimension = df_name d, gs_parent = p, gs_child = ch, gs_weight = w\<rparr>) (df_edges d)) ds)
            in bindE (extend_schema elems edges c) (\<lambda>(_, c). build_attributes ds c)))"

section \<open>Cell writes and reads\<close>

fun check_each :: "(dimension \<Rightarrow> nat \<Rightarrow> model_error + unit) \<Rightarrow> dimension list \<Rightarrow> coord
    \<Rightarrow> model_error + unit" where
  "check_each f (d # ds) (i # is) = bindE (f d i) (\<lambda>_. check_each f ds is)"
| "check_each f _ _ = Inr ()"

definition check_coord :: "cube \<Rightarrow> coord \<Rightarrow> model_error + unit" where
  "check_coord c coord =
     (if length coord \<noteq> rank c then Inl (RankMismatch (rank c) (length coord))
      else check_each (\<lambda>d i. bindE (get_element d i) (\<lambda>_. Inr ())) (dims c) coord)"

definition leaf_check :: "dimension \<Rightarrow> nat \<Rightarrow> model_error + unit" where
  "leaf_check d i =
     bindE (get_element d i) (\<lambda>el.
       case el_kind el of
         Leaf \<Rightarrow> Inr ()
       | Str \<Rightarrow> Inl (CellTypeMismatch (dim_name d) (el_name el))
       | Consolidated \<Rightarrow> Inl (WriteToNonLeaf (dim_name d) (el_name el)))"

definition check_leaf_write :: "cube \<Rightarrow> coord \<Rightarrow> model_error + unit" where
  "check_leaf_write c coord =
     bindE (check_coord c coord) (\<lambda>_. check_each leaf_check (dims c) coord)"

definition set_leaf :: "coord \<Rightarrow> fixed \<Rightarrow> cube \<Rightarrow> model_error + cube" where
  "set_leaf coord v c =
     bindE (check_leaf_write c coord) (\<lambda>_.
       Inr (if is_zero v then c\<lparr>cells := store_clear (lay c) coord (cells c)\<rparr>
            else c\<lparr>cells := store_put (lay c) coord v (cells c)\<rparr>))"

definition leaf_value :: "cube \<Rightarrow> coord \<Rightarrow> fixed" where
  "leaf_value c coord = (case store_get (lay c) (cells c) coord of Some v \<Rightarrow> v | None \<Rightarrow> 0)"

definition get_leaf :: "cube \<Rightarrow> coord \<Rightarrow> model_error + fixed" where
  "get_leaf c coord = bindE (check_coord c coord) (\<lambda>_. Inr (leaf_value c coord))"

fun all_leaf_loop :: "dimension list \<Rightarrow> coord \<Rightarrow> model_error + bool" where
  "all_leaf_loop (d # ds) (i # is) =
     bindE (get_element d i) (\<lambda>el.
       if el_kind el \<noteq> Leaf then Inr False else all_leaf_loop ds is)"
| "all_leaf_loop _ _ = Inr True"

definition all_numeric_leaf :: "cube \<Rightarrow> coord \<Rightarrow> model_error + bool" where
  "all_numeric_leaf c coord = all_leaf_loop (dims c) coord"

fun string_loop :: "dimension list \<Rightarrow> coord \<Rightarrow> bool \<Rightarrow> model_error + bool" where
  "string_loop (d # ds) (i # is) addresses =
     bindE (get_element d i) (\<lambda>el.
       case el_kind el of
         Str \<Rightarrow> string_loop ds is True
       | Leaf \<Rightarrow> string_loop ds is addresses
       | Consolidated \<Rightarrow> Inl (WriteToNonLeaf (dim_name d) (el_name el)))"
| "string_loop _ _ addresses = Inr addresses"

definition check_string_write :: "cube \<Rightarrow> coord \<Rightarrow> model_error + unit" where
  "check_string_write c coord =
     bindE (check_coord c coord) (\<lambda>_.
     bindE (string_loop (dims c) coord False) (\<lambda>addresses.
       if \<not> addresses then Inl (StringCellRequiresStringElement (cube_name c)) else Inr ()))"

definition set_string :: "coord \<Rightarrow> string \<Rightarrow> cube \<Rightarrow> model_error + cube" where
  "set_string coord v c =
     bindE (check_string_write c coord) (\<lambda>_.
       if v = [] then Inr (c\<lparr>string_cells := store_clear (lay c) coord (string_cells c)\<rparr>)
       else (case intern v (pool c) of
               (i, p) \<Rightarrow> Inr (c\<lparr>pool := p, string_cells := store_put (lay c) coord i (string_cells c)\<rparr>)))"

definition get_string :: "cube \<Rightarrow> coord \<Rightarrow> model_error + string option" where
  "get_string c coord =
     bindE (check_coord c coord) (\<lambda>_.
       Inr (map_option (pool_get (pool c)) (store_get (lay c) (string_cells c) coord)))"

definition check_write :: "cube \<Rightarrow> batch_write \<Rightarrow> model_error + unit" where
  "check_write c w = (case w of BatchLeaf coord _ \<Rightarrow> check_leaf_write c coord
                              | BatchStr coord _ \<Rightarrow> check_string_write c coord)"

fun batch_loop :: "cube \<Rightarrow> nat \<Rightarrow> batch_write list \<Rightarrow> nat \<times> model_error + unit" where
  "batch_loop c index [] = Inr ()"
| "batch_loop c index (w # ws) =
     bindE (map_err (\<lambda>e. (index, e)) (check_write c w)) (\<lambda>_. batch_loop c (index + 1) ws)"

definition validate_batch :: "cube \<Rightarrow> batch_write list \<Rightarrow> nat \<times> model_error + unit" where
  "validate_batch c writes = batch_loop c 0 writes"

definition cell_count :: "cube \<Rightarrow> nat" where
  "cell_count c = store_len (cells c)"

definition string_cell_count :: "cube \<Rightarrow> nat" where
  "string_cell_count c = store_len (string_cells c)"

definition string_pool_len :: "cube \<Rightarrow> nat" where
  "string_pool_len c = length (by_id (pool c))"

definition cell_entries :: "cube \<Rightarrow> (coord \<times> fixed) list" where
  "cell_entries c = store_entries (lay c) (rank c) (cells c)"

definition string_cell_entries :: "cube \<Rightarrow> (coord \<times> string) list" where
  "string_cell_entries c =
     map (\<lambda>(coord, i). (coord, pool_get (pool c) i)) (store_entries (lay c) (rank c) (string_cells c))"

definition compact_string_pool :: "cube \<Rightarrow> nat \<times> cube" where
  "compact_string_pool c =
     (let before = length (by_id (pool c));
          es = store_entries (lay c) (rank c) (string_cells c);
          live = set (map snd es)
      in if card live = before then (0, c)
         else case compact live (pool c) of
           (remap, p) \<Rightarrow>
             (before - length (by_id p),
              c\<lparr>pool := p,
                string_cells := foldl (\<lambda>s (coord, i). store_put (lay c) coord (remap ! i) s)
                                  (store_new (narrow (lay c))) es\<rparr>))"

section \<open>Consolidating reads\<close>

text \<open>The product of the weights of the components, in \<open>i128\<close> arithmetic of a release build.\<close>

fun cell_weight :: "(nat \<rightharpoonup> int) list \<Rightarrow> nat \<Rightarrow> int \<Rightarrow> (nat \<Rightarrow> nat) \<Rightarrow> int option" where
  "cell_weight [] d weight part = Some weight"
| "cell_weight (ws # rest) d weight part =
     (case ws (part d) of None \<Rightarrow> None
      | Some w \<Rightarrow> cell_weight rest (Suc d) (wrap128 (weight * w)) part)"

fun dim_weights :: "dimension list \<Rightarrow> coord \<Rightarrow> model_error + (nat \<times> int) list list" where
  "dim_weights (d # ds) (i # is) =
     bindE (leaf_weights d i) (\<lambda>ws. bindE (dim_weights ds is) (\<lambda>rest. Inr (ws # rest)))"
| "dim_weights _ _ = Inr []"

definition acc_cell :: "(nat \<rightharpoonup> int) list \<Rightarrow> (nat \<Rightarrow> nat) \<Rightarrow> fixed \<Rightarrow> int \<Rightarrow> int" where
  "acc_cell per_dim part v acc =
     (case cell_weight per_dim 0 1 part of None \<Rightarrow> acc | Some w \<Rightarrow> wrap128 (acc + wrap128 (w * v)))"

definition to_fixed :: "int \<Rightarrow> model_error + fixed" where
  "to_fixed acc = ok_or Overflow (checked_i64 acc)"

definition get :: "cube \<Rightarrow> coord \<Rightarrow> model_error + fixed" where
  "get c coord =
     bindE (check_coord c coord) (\<lambda>_.
     bindE (all_numeric_leaf c coord) (\<lambda>leaf.
       if leaf then Inr (leaf_value c coord)
       else bindE (dim_weights (dims c) coord) (\<lambda>wss.
         let per_dim = map map_of wss;
             acc = (case cells c of
               Narrow m \<Rightarrow> foldl (\<lambda>acc (key, v). acc_cell per_dim (component (lay c) key) v acc) 0 m
             | Wide m \<Rightarrow> foldl (\<lambda>acc (key, v). acc_cell per_dim ((!) key) v acc) 0 m)
         in to_fixed acc)))"

fun count_combos :: "nat list \<Rightarrow> nat \<Rightarrow> nat option" where
  "count_combos [] tot = Some tot"
| "count_combos (n # ns) tot = Option.bind (checked_usize (tot * n)) (count_combos ns)"

text \<open>The \<open>n\<close>-th combination of a mixed-radix walk over the weighted leaves.\<close>

fun combo_at :: "(nat \<times> int) list list \<Rightarrow> nat \<Rightarrow> int \<Rightarrow> coord \<times> int" where
  "combo_at [] rem weight = ([], weight)"
| "combo_at (ws # rest) rem weight =
     (case ws ! (rem mod length ws) of (leaf, w) \<Rightarrow>
       case combo_at rest (rem div length ws) (wrap128 (weight * w)) of (combo, weight') \<Rightarrow>
         (leaf # combo, weight'))"

fun sum_combos :: "(coord \<Rightarrow> 'e + fixed) \<Rightarrow> (coord \<times> int) list \<Rightarrow> int \<Rightarrow> 'e + int" where
  "sum_combos src [] acc = Inr acc"
| "sum_combos src ((combo, weight) # rest) acc =
     bindE (src combo) (\<lambda>v. sum_combos src rest (wrap128 (acc + wrap128 (weight * v))))"

definition consolidate_with ::
    "(model_error \<Rightarrow> 'e) \<Rightarrow> cube \<Rightarrow> coord \<Rightarrow> (coord \<Rightarrow> 'e + fixed) \<Rightarrow> 'e + fixed" where
  "consolidate_with from_err c coord src =
     bindE (map_err from_err (check_coord c coord)) (\<lambda>_.
     bindE (map_err from_err (all_numeric_leaf c coord)) (\<lambda>leaf.
       if leaf then src coord
       else bindE (map_err from_err (dim_weights (dims c) coord)) (\<lambda>wss.
            bindE (ok_or (from_err Overflow) (count_combos (map length wss) 1)) (\<lambda>tot.
              if tot = 0 then Inr 0
              else bindE (sum_combos src (map (\<lambda>n. combo_at wss n 1) [0..<tot]) 0) (\<lambda>acc.
                     map_err from_err (to_fixed acc))))))"

text \<open>One pass over candidate coordinates, each counted once.\<close>

fun fed_loop :: "(nat \<rightharpoonup> int) list \<Rightarrow> (coord \<Rightarrow> 'e + fixed) \<Rightarrow> coord list \<Rightarrow> coord set \<Rightarrow> int
    \<Rightarrow> 'e + coord set \<times> int" where
  "fed_loop per_dim src [] seen acc = Inr (seen, acc)"
| "fed_loop per_dim src (k # ks) seen acc =
     (case cell_weight per_dim 0 1 ((!) k) of
        None \<Rightarrow> fed_loop per_dim src ks seen acc
      | Some weight \<Rightarrow>
          if k \<in> seen then fed_loop per_dim src ks seen acc
          else bindE (src k) (\<lambda>v.
                 fed_loop per_dim src ks (insert k seen) (wrap128 (acc + wrap128 (weight * v)))))"

definition consolidate_fed ::
    "(model_error \<Rightarrow> 'e) \<Rightarrow> cube \<Rightarrow> coord \<Rightarrow> coord list \<Rightarrow> (coord \<Rightarrow> 'e + fixed) \<Rightarrow> 'e + fixed" where
  "consolidate_fed from_err c coord fed src =
     bindE (map_err from_err (check_coord c coord)) (\<lambda>_.
     bindE (map_err from_err (all_numeric_leaf c coord)) (\<lambda>leaf.
       if leaf then src coord
       else bindE (map_err from_err (dim_weights (dims c) coord)) (\<lambda>wss.
            bindE (ok_or (from_err Overflow) (count_combos (map length wss) 1)) (\<lambda>tot.
              if tot = 0 then Inr 0
              else
                let per_dim = map map_of wss in
                bindE (fed_loop per_dim src (map fst (cell_entries c)) {} 0) (\<lambda>(seen, acc).
                bindE (fed_loop per_dim src fed seen acc) (\<lambda>(_, acc').
                  map_err from_err (to_fixed acc')))))))"

end
