(* ===== verification/Cube_Cells.thy ===== *)
theory Cube_Cells
  imports Cube
begin

text \<open>
  Well-formed cubes and the cell operations. A well-formed cube has well-formed dimensions, the
  layout those dimensions require, stores whose keys are coordinates in range, numeric cells
  only on all-leaf coordinates with non-zero values, string cells only on coordinates that
  address a string element, and a pool without duplicates that resolves every stored id.
  \<open>num\<close> and \<open>str\<close> are the two finite maps the stores represent.
\<close>

definition kind_at :: "dimension \<Rightarrow> nat \<Rightarrow> element_kind" where
  "kind_at d i = el_kind (elements d ! i)"

definition leaf_coord :: "dimension list \<Rightarrow> coord \<Rightarrow> bool" where
  "leaf_coord ds coord \<longleftrightarrow> list_all2 (\<lambda>d i. kind_at d i = Leaf) ds coord"

definition string_coord :: "dimension list \<Rightarrow> coord \<Rightarrow> bool" where
  "string_coord ds coord \<longleftrightarrow> list_all2 (\<lambda>d i. kind_at d i \<noteq> Consolidated) ds coord \<and>
     list_ex (\<lambda>(d, i). kind_at d i = Str) (zip ds coord)"

lemma leaf_coord_nth:
  "length k = length ds \<Longrightarrow> leaf_coord ds k \<longleftrightarrow> (\<forall>d < length ds. kind_at (ds ! d) (k ! d) = Leaf)"
  by (auto simp: leaf_coord_def list_all2_conv_all_nth)

lemma string_coord_nth:
  "length k = length ds \<Longrightarrow> string_coord ds k \<longleftrightarrow>
     (\<forall>d < length ds. kind_at (ds ! d) (k ! d) \<noteq> Consolidated) \<and>
     (\<exists>d < length ds. kind_at (ds ! d) (k ! d) = Str)"
  by (auto simp: string_coord_def list_all2_conv_all_nth list_ex_length)

definition num :: "cube \<Rightarrow> coord \<Rightarrow> fixed option" where
  "num c coord = store_get (lay c) (cells c) coord"

definition str_id :: "cube \<Rightarrow> coord \<Rightarrow> nat option" where
  "str_id c coord = store_get (lay c) (string_cells c) coord"

definition str :: "cube \<Rightarrow> coord \<Rightarrow> string option" where
  "str c coord = map_option (pool_get (pool c)) (str_id c coord)"

definition frame_ok :: "cube \<Rightarrow> bool" where
  "frame_ok c \<longleftrightarrow> dims c \<noteq> [] \<and> list_all dim_wf (dims c) \<and> lay c = layout_new (dims c) \<and>
     store_ok (dims c) (cells c) \<and> store_ok (dims c) (string_cells c) \<and> pool_ok (pool c)"

definition num_ok :: "cube \<Rightarrow> bool" where
  "num_ok c \<longleftrightarrow> (\<forall>coord v. in_range (dims c) coord \<longrightarrow> num c coord = Some v \<longrightarrow>
     leaf_coord (dims c) coord \<and> v \<noteq> 0 \<and> in_i64 v)"

definition str_ok :: "cube \<Rightarrow> bool" where
  "str_ok c \<longleftrightarrow> (\<forall>coord i. in_range (dims c) coord \<longrightarrow> str_id c coord = Some i \<longrightarrow>
     string_coord (dims c) coord \<and> i < length (by_id (pool c)) \<and> pool_get (pool c) i \<noteq> [])"

definition cube_wf :: "cube \<Rightarrow> bool" where
  "cube_wf c \<longleftrightarrow> frame_ok c \<and> num_ok c \<and> str_ok c"

lemma cube_wf_D:
  assumes "cube_wf c"
  shows "list_all dim_wf (dims c)" "lay c = layout_new (dims c)" "store_ok (dims c) (cells c)"
    "store_ok (dims c) (string_cells c)" "pool_ok (pool c)" "dims c \<noteq> []"
  using assms by (simp_all add: cube_wf_def frame_ok_def)

section \<open>The checks\<close>

lemma check_each_Inr:
  assumes "length ds = length is"
  shows "check_each f ds is = Inr () \<longleftrightarrow> list_all2 (\<lambda>d i. f d i = Inr ()) ds is"
  using assms by (induction ds "is" rule: list_induct2) auto

lemma check_coord_Inr: "check_coord c coord = Inr () \<longleftrightarrow> in_range (dims c) coord"
proof (cases "length coord = rank c")
  case True
  then show ?thesis
    by (simp add: check_coord_def check_each_Inr rank_def in_range_def)
next
  case False
  then show ?thesis by (auto simp: check_coord_def in_range_nth rank_def)
qed

lemma check_leaf_Inr:
  "check_leaf_write c coord = Inr () \<longleftrightarrow> in_range (dims c) coord \<and> leaf_coord (dims c) coord"
proof -
  have "leaf_check d i = Inr () \<longleftrightarrow> i < length (elements d) \<and> kind_at d i = Leaf" for d i
    by (auto simp: leaf_check_def kind_at_def split: element_kind.splits)
  then show ?thesis
    by (auto simp: check_leaf_write_def check_coord_Inr check_each_Inr in_range_nth
        leaf_coord_def list_all2_conv_all_nth)
qed

lemma all_leaf_Inr:
  assumes "in_range ds coord"
  shows "all_leaf_loop ds coord = Inr (leaf_coord ds coord)"
proof -
  have "length ds = length coord" using assms by (simp add: in_range_nth)
  then show ?thesis using assms
    by (induction ds coord rule: list_induct2)
       (auto simp: in_range_def leaf_coord_def kind_at_def get_element_def)
qed

lemma string_loop_Inr:
  assumes "in_range ds coord"
  shows "string_loop ds coord b = Inr r \<longleftrightarrow>
     list_all2 (\<lambda>d i. kind_at d i \<noteq> Consolidated) ds coord \<and>
     r = (b \<or> list_ex (\<lambda>(d, i). kind_at d i = Str) (zip ds coord))"
proof -
  have "length ds = length coord" using assms by (simp add: in_range_nth)
  then show ?thesis using assms
  proof (induction ds coord arbitrary: b rule: list_induct2)
    case (Cons d ds i "is")
    then show ?case
      by (cases "el_kind (elements d ! i)") (auto simp: in_range_def kind_at_def)
  qed auto
qed

lemma check_string_Inr:
  "check_string_write c coord = Inr () \<longleftrightarrow> in_range (dims c) coord \<and> string_coord (dims c) coord"
proof (cases "in_range (dims c) coord")
  case True
  then show ?thesis
    using string_loop_Inr [OF True, of False]
    by (cases "string_loop (dims c) coord False")
       (auto simp: check_string_write_def check_coord_Inr string_coord_def bindE_eq_Inl)
next
  case False
  then show ?thesis by (auto simp: check_string_write_def check_coord_Inr)
qed

section \<open>Writes\<close>

lemma set_leaf_wf:
  assumes "cube_wf c" and "in_i64 v" and "set_leaf coord v c = Inr c'"
  shows "cube_wf c' \<and> dims c' = dims c \<and> lay c' = lay c \<and> cube_name c' = cube_name c \<and>
     in_range (dims c) coord \<and> leaf_coord (dims c) coord \<and> str c' = str c \<and>
     (\<forall>j. in_range (dims c) j \<longrightarrow>
        num c' j = (if j = coord then (if v = 0 then None else Some v) else num c j))"
proof -
  note D = cube_wf_D [OF assms(1)]
  have chk: "in_range (dims c) coord" "leaf_coord (dims c) coord"
    using assms(3) check_leaf_Inr [of c coord] by (auto simp: set_leaf_def)
  have c': "c' = (if v = 0 then c\<lparr>cells := store_clear (lay c) coord (cells c)\<rparr>
            else c\<lparr>cells := store_put (lay c) coord v (cells c)\<rparr>)"
    using assms(3) by (simp add: set_leaf_def is_zero_def)
  have ok: "store_ok (dims c) (cells c')"
    using store_put_law(1) [OF D(3) chk(1)] store_clear_law(1) [OF D(3) chk(1)] D(2) by (simp add: c')
  have same: "dims c' = dims c" "lay c' = lay c" "string_cells c' = string_cells c" "pool c' = pool c"
    "cube_name c' = cube_name c"
    by (simp_all add: c')
  have nm: "num c' j = (if j = coord then (if v = 0 then None else Some v) else num c j)"
    if "in_range (dims c) j" for j
    using store_put_law(2) [OF D(3) chk(1) that] store_clear_law(2) [OF D(3) chk(1) that] D(2)
    by (cases "j = coord") (simp_all add: num_def c')
  have "num_ok c'" using assms(1,2) chk nm by (auto simp: num_ok_def cube_wf_def same split: if_splits)
  moreover have "str_ok c'" using assms(1) by (simp add: str_ok_def cube_wf_def same str_id_def)
  ultimately show ?thesis
    using D ok chk nm by (auto simp: cube_wf_def frame_ok_def same str_def str_id_def fun_eq_iff)
qed

lemma set_string_wf:
  assumes "cube_wf c" and "length (by_id (pool c)) < u32_max" and "set_string coord v c = Inr c'"
  shows "cube_wf c' \<and> dims c' = dims c \<and> lay c' = lay c \<and> cube_name c' = cube_name c \<and>
     in_range (dims c) coord \<and> string_coord (dims c) coord \<and> num c' = num c \<and>
     length (by_id (pool c')) \<le> Suc (length (by_id (pool c))) \<and>
     (\<forall>j. in_range (dims c) j \<longrightarrow>
        str c' j = (if j = coord then (if v = [] then None else Some v) else str c j))"
proof -
  note D = cube_wf_D [OF assms(1)]
  have chk: "in_range (dims c) coord" "string_coord (dims c) coord"
    using assms(3) check_string_Inr [of c coord] by (auto simp: set_string_def)
  show ?thesis
  proof (cases "v = []")
    case True
    have c': "c' = c\<lparr>string_cells := store_clear (lay c) coord (string_cells c)\<rparr>"
      using assms(3) True by (simp add: set_string_def)
    have ok: "store_ok (dims c) (string_cells c')"
      using store_clear_law(1) [OF D(4) chk(1)] D(2) by (simp add: c')
    have nm: "str_id c' j = (if j = coord then None else str_id c j)" if "in_range (dims c) j" for j
      using store_clear_law(2) [OF D(4) chk(1) that] D(2) by (simp add: str_id_def c')
    have "str_ok c'" using assms(1) nm by (auto simp: str_ok_def cube_wf_def c' split: if_splits)
    moreover have "num_ok c'" using assms(1) by (simp add: num_ok_def cube_wf_def num_def c')
    ultimately show ?thesis
      using D ok chk nm True by (auto simp: cube_wf_def frame_ok_def str_def num_def c')
  next
    case False
    obtain i p where ip: "intern v (pool c) = (i, p)" by force
    have c': "c' = c\<lparr>pool := p, string_cells := store_put (lay c) coord i (string_cells c)\<rparr>"
      using assms(3) False by (simp add: set_string_def ip)
    note int = intern_correct [OF D(5) assms(2) ip]
    have ok: "store_ok (dims c) (string_cells c')"
      using store_put_law(1) [OF D(4) chk(1)] D(2) by (simp add: c')
    have nm: "str_id c' j = (if j = coord then Some i else str_id c j)" if "in_range (dims c) j" for j
      using store_put_law(2) [OF D(4) chk(1) that] D(2) by (simp add: str_id_def c')
    have old: "string_coord (dims c) j \<and> k < length (by_id (pool c)) \<and> pool_get (pool c) k \<noteq> []"
      if "in_range (dims c) j" "str_id c j = Some k" for j k
      using assms(1) that by (simp add: cube_wf_def str_ok_def)
    have "str_ok c'"
      unfolding str_ok_def
    proof (intro allI impI)
      fix j k assume j: "in_range (dims c') j" "str_id c' j = Some k"
      then have r: "in_range (dims c) j" by (simp add: c')
      show "string_coord (dims c') j \<and> k < length (by_id (pool c')) \<and> pool_get (pool c') k \<noteq> []"
      proof (cases "j = coord")
        case True
        with nm [OF r] j(2) int chk False show ?thesis by (simp add: c')
      next
        case neq: False
        with nm [OF r] j(2) have "str_id c j = Some k" by simp
        from old [OF r this] int show ?thesis by (simp add: c')
      qed
    qed
    moreover have "num_ok c'" using assms(1) by (simp add: num_ok_def cube_wf_def num_def c')
    moreover have "str c' j = (if j = coord then Some v else str c j)" if r: "in_range (dims c) j" for j
      using nm [OF r] int old [OF r] by (cases "str_id c j") (simp_all add: str_def c')
    ultimately show ?thesis
      using D ok chk int False by (auto simp: cube_wf_def frame_ok_def num_def c')
  qed
qed

section \<open>Batches\<close>

text \<open>The trial apply that \<open>validate_batch\<close> replaces: the writes in order on a clone, stopping
  at the first refusal.\<close>

fun trial_write :: "batch_write \<Rightarrow> cube \<Rightarrow> model_error + cube" where
  "trial_write (BatchLeaf coord v) c = set_leaf coord v c"
| "trial_write (BatchStr coord v) c = set_string coord v c"

fun trial_apply :: "cube \<Rightarrow> nat \<Rightarrow> batch_write list \<Rightarrow> nat \<times> model_error + cube" where
  "trial_apply c index [] = Inr c"
| "trial_apply c index (w # ws) =
     bindE (map_err (\<lambda>e. (index, e)) (trial_write w c)) (\<lambda>c'. trial_apply c' (index + 1) ws)"

lemma trial_write_check:
  "(\<exists>e. check_write c w = Inl e \<and> trial_write w c = Inl e) \<or>
   (check_write c w = Inr () \<and> (\<exists>c'. trial_write w c = Inr c' \<and> dims c' = dims c \<and> cube_name c' = cube_name c))"
proof (cases w)
  case (BatchLeaf coord v)
  then show ?thesis by (cases "check_leaf_write c coord") (auto simp: check_write_def set_leaf_def)
next
  case (BatchStr coord v)
  then show ?thesis
    by (cases "check_string_write c coord")
       (auto simp: check_write_def set_string_def split: prod.splits)
qed

lemma check_write_cong:
  assumes "dims c' = dims c" and "cube_name c' = cube_name c"
  shows "check_write c' w = check_write c w"
  using assms
  by (simp add: check_write_def check_leaf_write_def check_string_write_def check_coord_def rank_def
      split: batch_write.split cong: if_cong)

lemma batch_loop_cong:
  assumes "dims c' = dims c" and "cube_name c' = cube_name c"
  shows "batch_loop c' k ws = batch_loop c k ws"
  by (induction ws arbitrary: k) (simp_all add: check_write_cong [OF assms])

lemma batch_loop_trial: "batch_loop c k ws = bindE (trial_apply c k ws) (\<lambda>_. Inr ())"
proof (induction ws arbitrary: c k)
  case (Cons w ws)
  from trial_write_check [of c w] show ?case
  proof (elim disjE exE conjE)
    fix c' assume "check_write c w = Inr ()" "trial_write w c = Inr c'" "dims c' = dims c"
      "cube_name c' = cube_name c"
    then show ?thesis using Cons.IH [of c' "k + 1"] batch_loop_cong [of c' c] by simp
  qed simp
qed simp

end
