(* ===== verification/Consolidate.thy ===== *)
theory Consolidate
  imports Cube_Cells
begin

text \<open>
  The three consolidating reads. Each one is shown to compute, in \<open>i128\<close> arithmetic, the sum of
  weight times value over the cells that lie under the queried coordinate: \<open>get\<close> over the stored
  cells, \<open>consolidate_with\<close> over the dense product of the leaf lists and \<open>consolidate_fed\<close>
  over the stored and the fed cells. The sums are then the same sum, so the three reads agree.
\<close>

section \<open>The weight of a cell\<close>

fun weight_of :: "(nat \<rightharpoonup> int) list \<Rightarrow> coord \<Rightarrow> int" where
  "weight_of (m # ms) (i # is) = (case m i of None \<Rightarrow> 0 | Some w \<Rightarrow> w * weight_of ms is)"
| "weight_of [] [] = 1"
| "weight_of _ _ = 0"

definition wrapped :: "int \<Rightarrow> bool" where
  "wrapped x \<longleftrightarrow> wrap128 x = x"

lemma wrapped_simps [simp]: "wrapped 0" "wrapped 1" "wrapped (wrap128 x)"
  by (simp_all add: wrapped_def wrap128_def)

lemma wrap128_cong_mult: "wrap128 x = wrap128 y \<Longrightarrow> wrap128 (x * z) = wrap128 (y * z)"
  by (metis wrap128_mult_left)

lemma wrap128_cong_add: "wrap128 x = wrap128 y \<Longrightarrow> wrap128 (x + z) = wrap128 (y + z)"
  by (metis wrap128_add_left)

lemma cell_weight_spec:
  "case cell_weight ms d w part of
     None \<Rightarrow> weight_of ms (map part [d..<d + length ms]) = 0
   | Some x \<Rightarrow> wrap128 x = wrap128 (w * weight_of ms (map part [d..<d + length ms]))"
proof (induction ms arbitrary: d w)
  case (Cons m ms)
  have up: "[d..<d + length (m # ms)] = d # [Suc d..<Suc d + length ms]"
    using upt_conv_Cons [of d "d + length (m # ms)"] by simp
  show ?case
  proof (cases "m (part d)")
    case None
    then show ?thesis unfolding up by simp
  next
    case (Some x)
    from Cons.IH [of "Suc d" "wrap128 (w * x)"] show ?thesis
      unfolding up using Some by (auto simp: mult.assoc split: option.splits)
  qed
qed simp

lemma acc_cell_spec:
  assumes "wrapped acc"
  shows "wrapped (acc_cell ms part v acc)"
    "acc_cell ms part v acc = wrap128 (acc + weight_of ms (map part [0..<length ms]) * v)"
proof -
  show "acc_cell ms part v acc = wrap128 (acc + weight_of ms (map part [0..<length ms]) * v)"
  proof (cases "cell_weight ms 0 1 part")
    case None
    then have "weight_of ms (map part [0..<length ms]) = 0"
      using cell_weight_spec [where ms = ms and d = 0 and w = 1 and part = part] by simp
    then show ?thesis using None assms by (simp add: acc_cell_def wrapped_def)
  next
    case (Some x)
    then have "wrap128 x = wrap128 (weight_of ms (map part [0..<length ms]))"
      using cell_weight_spec [where ms = ms and d = 0 and w = 1 and part = part] by simp
    from wrap128_cong_mult [OF this]
    have "wrap128 (acc + wrap128 (x * v)) = wrap128 (acc + wrap128 (weight_of ms (map part [0..<length ms]) * v))"
      by (simp only:)
    then show ?thesis using Some by (simp add: acc_cell_def)
  qed
  then show "wrapped (acc_cell ms part v acc)" by simp
qed

lemma foldl_acc_cell:
  assumes "wrapped acc"
  shows "foldl (\<lambda>acc (k, v). acc_cell ms (part k) v acc) acc es =
     wrap128 (acc + sum_list (map (\<lambda>(k, v). weight_of ms (map (part k) [0..<length ms]) * v) es))"
  using assms
proof (induction es arbitrary: acc)
  case Nil
  then show ?case by (simp add: wrapped_def)
next
  case (Cons e es)
  obtain k v where e: "e = (k, v)" by force
  show ?case using Cons.IH [OF acc_cell_spec(1) [OF Cons.prems]]
    by (simp add: e acc_cell_spec(2) [OF Cons.prems] add.assoc)
qed

text \<open>The sum over the stored cells, exact: what the sparse scan computes before it narrows.\<close>

definition stored_sum :: "cube \<Rightarrow> (nat \<times> int) list list \<Rightarrow> int" where
  "stored_sum c wss = sum_list (map (\<lambda>(k, v). weight_of (map map_of wss) k * v) (cell_entries c))"

lemma dim_weights_length: "dim_weights ds is = Inr wss \<Longrightarrow> length ds = length is \<Longrightarrow> length wss = length ds"
  by (induction ds "is" arbitrary: wss rule: dim_weights.induct) auto

lemma cell_entries_range:
  assumes "cube_wf c" and "(k, v) \<in> set (cell_entries c)"
  shows "in_range (dims c) k"
  using cells.entries_valid [OF cube_wf_D(3) [OF assms(1)]] assms(2) cube_wf_D(2) [OF assms(1)]
  by (simp add: cell_entries_def rank_def)

lemma get_spec:
  assumes "cube_wf c" and "in_range (dims c) coord" and "\<not> leaf_coord (dims c) coord"
    and "dim_weights (dims c) coord = Inr wss"
  shows "get c coord = to_fixed (wrap128 (stored_sum c wss))"
proof -
  have len: "length wss = rank c"
    using dim_weights_length [OF assms(4)] assms(2) by (simp add: in_range_nth rank_def)
  have "(case cells c of
         Narrow m \<Rightarrow> foldl (\<lambda>acc (key, v). acc_cell (map map_of wss) (component (lay c) key) v acc) 0 m
       | Wide m \<Rightarrow> foldl (\<lambda>acc (key, v). acc_cell (map map_of wss) ((!) key) v acc) 0 m)
     = wrap128 (stored_sum c wss)"
  proof (cases "cells c")
    case (Narrow m)
    have "map (component (lay c) key) [0..<length wss] = unpack (lay c) key (rank c)" for key
      by (simp add: unpack_def len)
    then show ?thesis
      unfolding Narrow cell_store.case foldl_acc_cell [OF wrapped_simps(1)]
      by (simp add: stored_sum_def cell_entries_def Narrow comp_def split_def)
  next
    case (Wide m)
    have "map ((!) k) [0..<length wss] = k" if "(k, v) \<in> set m" for k v
    proof -
      have "length k = length wss"
        using cell_entries_range [OF assms(1), of k v] that
        by (simp add: cell_entries_def Wide in_range_nth len rank_def)
      then show ?thesis by (metis map_nth)
    qed
    then have eq: "map (\<lambda>(k, v). weight_of (map map_of wss) (map ((!) k) [0..<length wss]) * v) m
        = map (\<lambda>(k, v). weight_of (map map_of wss) k * v) m"
      by (intro map_cong [OF refl]) auto
    have "foldl (\<lambda>acc (key, v). acc_cell (map map_of wss) ((!) key) v acc) 0 m
        = wrap128 (0 + sum_list (map (\<lambda>(k, v). weight_of (map map_of wss) k * v) m))"
      using foldl_acc_cell [OF wrapped_simps(1), of "map map_of wss" "(!)" m] eq
      by (simp only: length_map)
    then show ?thesis
      by (simp add: Wide stored_sum_def cell_entries_def)
  qed
  then show ?thesis
    using assms(2-4) check_coord_Inr [of c coord] all_leaf_Inr [OF assms(2)]
    by (simp add: get_def all_numeric_leaf_def)
qed

lemma get_leaf_coord:
  assumes "in_range (dims c) coord" and "leaf_coord (dims c) coord"
  shows "get c coord = Inr (leaf_value c coord)"
  using assms check_coord_Inr [of c coord] all_leaf_Inr [OF assms(1)]
  by (simp add: get_def all_numeric_leaf_def)

section \<open>The dense enumeration\<close>

lemma sum_radix:
  fixes g :: "nat \<Rightarrow> nat \<Rightarrow> int"
  assumes "0 < L"
  shows "(\<Sum>n<L * T. g (n mod L) (n div L)) = (\<Sum>i<L. \<Sum>m<T. g i m)"
proof (induction T)
  case (Suc T)
  have split: "(\<Sum>n<L * Suc T. h n) = (\<Sum>n<L * T. h n) + (\<Sum>i<L. h (L * T + i))" for h :: "nat \<Rightarrow> int"
    using sum.atLeastLessThan_concat [of 0 "L * T" "L * Suc T" h]
      sum.shift_bounds_nat_ivl [of h 0 "L * T" L]
    by (simp add: lessThan_atLeast0 add.commute)
  have "(\<Sum>i<L. g ((L * T + i) mod L) ((L * T + i) div L)) = (\<Sum>i<L. g i T)"
    using assms by (intro sum.cong) auto
  then show ?case unfolding split by (simp add: Suc sum.distrib)
qed simp

fun combo_count :: "(nat \<times> int) list list \<Rightarrow> nat" where
  "combo_count [] = 1"
| "combo_count (ws # rest) = length ws * combo_count rest"

fun dense_sum :: "(nat \<times> int) list list \<Rightarrow> (coord \<Rightarrow> int) \<Rightarrow> int" where
  "dense_sum [] f = f []"
| "dense_sum (ws # rest) f = (\<Sum>i<length ws. snd (ws ! i) * dense_sum rest (\<lambda>k. f (fst (ws ! i) # k)))"

lemma dense_sum_scale: "dense_sum wss (\<lambda>k. a * f k) = a * dense_sum wss f"
  by (induction wss arbitrary: f) (simp_all add: sum_distrib_left mult.left_commute)

lemma combo_at_wrap:
  "wrap128 w = wrap128 w' \<Longrightarrow> fst (combo_at wss n w) = fst (combo_at wss n w') \<and>
     wrap128 (snd (combo_at wss n w)) = wrap128 (snd (combo_at wss n w'))"
proof (induction wss arbitrary: n w w')
  case (Cons ws wss)
  have "wrap128 (w * x) = wrap128 (w' * x)" for x using Cons.prems by (rule wrap128_cong_mult)
  then show ?case by (simp add: split_def)
qed simp

lemma wrap_sum: "wrap128 (\<Sum>i\<in>A. wrap128 (g i)) = wrap128 (\<Sum>i\<in>A. g i)"
  by (induction A rule: infinite_finite_induct) (simp, simp, metis sum.insert wrap128_add_left wrap128_add_right)

lemma wrap_sum_cong: "(\<And>i. i \<in> A \<Longrightarrow> wrap128 (g i) = wrap128 (h i)) \<Longrightarrow>
    wrap128 (\<Sum>i\<in>A. g i) = wrap128 (\<Sum>i\<in>A. h i)"
  by (metis (no_types, lifting) sum.cong wrap_sum)

lemma combo_sum:
  "wrap128 (\<Sum>n<combo_count wss. snd (combo_at wss n w) * f (fst (combo_at wss n w)))
     = wrap128 (w * dense_sum wss f)"
proof (induction wss arbitrary: w f)
  case (Cons ws wss)
  show ?case
  proof (cases "ws = []")
    case False
    let ?t = "\<lambda>i m. snd (combo_at wss m (wrap128 (w * snd (ws ! i)))) *
        f (fst (ws ! i) # fst (combo_at wss m (wrap128 (w * snd (ws ! i)))))"
    have "(\<Sum>n<combo_count (ws # wss). snd (combo_at (ws # wss) n w) * f (fst (combo_at (ws # wss) n w)))
        = (\<Sum>n<length ws * combo_count wss. ?t (n mod length ws) (n div length ws))"
      by (simp add: split_def)
    also have "\<dots> = (\<Sum>i<length ws. \<Sum>m<combo_count wss. ?t i m)"
      using False by (intro sum_radix) simp
    also have "wrap128 \<dots> = wrap128 (\<Sum>i<length ws. w * (snd (ws ! i) * dense_sum wss (\<lambda>k. f (fst (ws ! i) # k))))"
    proof (rule wrap_sum_cong)
      fix i
      show "wrap128 (\<Sum>m<combo_count wss. ?t i m) = wrap128 (w * (snd (ws ! i) * dense_sum wss (\<lambda>k. f (fst (ws ! i) # k))))"
        using Cons.IH [of "wrap128 (w * snd (ws ! i))" "\<lambda>k. f (fst (ws ! i) # k)"]
        by (simp add: mult.assoc)
    qed
    finally show ?thesis by (simp add: sum_distrib_left)
  qed simp
qed simp

lemma sum_combos_pure:
  assumes "wrapped acc"
  shows "sum_combos (\<lambda>k. Inr (f k)) cs acc = Inr (wrap128 (acc + sum_list (map (\<lambda>(k, w). w * f k) cs)))"
  using assms by (induction cs arbitrary: acc) (auto simp: wrapped_def add.assoc)

text \<open>The dense sum is the sum over the product of the leaf lists.\<close>

definition under :: "(nat \<times> int) list list \<Rightarrow> coord set" where
  "under wss = {k. list_all2 (\<lambda>ws i. i \<in> fst ` set ws) wss k}"

lemma under_simps: "under [] = {[]}" "under (ws # wss) = (\<lambda>(i, k). i # k) ` (fst ` set ws \<times> under wss)"
  by (auto simp: under_def list_all2_Cons1)

lemma finite_under [simp]: "finite (under wss)"
  by (induction wss) (simp_all add: under_simps)

lemma dense_sum_under:
  assumes "\<forall>ws \<in> set wss. distinct (map fst ws)"
  shows "dense_sum wss f = (\<Sum>k\<in>under wss. weight_of (map map_of wss) k * f k)"
  using assms
proof (induction wss arbitrary: f)
  case Nil
  then show ?case by (simp add: under_simps)
next
  case (Cons ws wss)
  have dist: "distinct (map fst ws)" using Cons.prems by simp
  have "(\<Sum>k\<in>under (ws # wss). weight_of (map map_of (ws # wss)) k * f k)
      = (\<Sum>(i, k)\<in>fst ` set ws \<times> under wss. weight_of (map map_of (ws # wss)) (i # k) * f (i # k))"
    unfolding under_simps by (subst sum.reindex) (auto simp: inj_on_def case_prod_beta)
  also have "\<dots> = (\<Sum>i\<in>fst ` set ws. \<Sum>k\<in>under wss. weight_of (map map_of (ws # wss)) (i # k) * f (i # k))"
    by (simp add: sum.cartesian_product)
  also have "\<dots> = (\<Sum>i\<in>fst ` set ws. the (map_of ws i) * dense_sum wss (\<lambda>k. f (i # k)))"
  proof (rule sum.cong [OF refl])
    fix i assume "i \<in> fst ` set ws"
    then obtain w where w: "map_of ws i = Some w" by (metis map_of_eq_None_iff not_Some_eq)
    have "dense_sum wss (\<lambda>k. f (i # k)) = (\<Sum>k\<in>under wss. weight_of (map map_of wss) k * f (i # k))"
      using Cons by simp
    then show "(\<Sum>k\<in>under wss. weight_of (map map_of (ws # wss)) (i # k) * f (i # k))
        = the (map_of ws i) * dense_sum wss (\<lambda>k. f (i # k))"
      by (simp add: w sum_distrib_left mult.assoc)
  qed
  also have "\<dots> = (\<Sum>n<length ws. the (map_of ws (fst (ws ! n))) * dense_sum wss (\<lambda>k. f (fst (ws ! n) # k)))"
  proof -
    have "bij_betw (\<lambda>n. fst (ws ! n)) {..<length ws} (fst ` set ws)"
      using bij_betw_nth [OF dist, of "{..<length ws}" "fst ` set ws"]
      by (simp add: bij_betw_def inj_on_def)
    from sum.reindex_bij_betw [OF this, of "\<lambda>i. the (map_of ws i) * dense_sum wss (\<lambda>k. f (i # k))"]
    show ?thesis by simp
  qed
  also have "\<dots> = dense_sum (ws # wss) f"
  proof -
    have "map_of ws (fst (ws ! n)) = Some (snd (ws ! n))" if "n < length ws" for n
      using map_of_is_SomeI [OF dist, of "fst (ws ! n)" "snd (ws ! n)"] that by simp
    then show ?thesis by simp
  qed
  finally show ?case by simp
qed

lemma weight_of_outside: "k \<notin> under wss \<Longrightarrow> weight_of (map map_of wss) k = 0"
proof (induction wss arbitrary: k)
  case (Cons ws wss)
  then show ?case
  proof (cases k)
    case (Cons i "is")
    with Cons.prems Cons.IH [of "is"] show ?thesis
      by (auto simp: under_def split: option.split dest: map_of_SomeD intro: rev_image_eqI)
  qed simp
qed (auto simp: under_def neq_Nil_conv)

section \<open>The leaf lists of a coordinate\<close>

lemma leaf_weights_total:
  assumes "dim_wf d" and "i < length (elements d)"
  obtains ws where "leaf_weights d i = Inr ws" and "distinct (map fst ws)"
    and "\<And>l. l \<in> fst ` set ws \<Longrightarrow> l < length (elements d) \<and> kind_at d l = Leaf"
proof -
  note g = dim_wf_graph [OF assms(1)]
  obtain ws where ws: "leaf_weights d i = Inr ws" "sorted_wrt (<) (map fst ws)"
    "\<And>l w. (l, w) \<in> set ws \<Longrightarrow> (i, l) \<in> (edge_rel d)\<^sup>* \<and> el_kind (elements d ! l) = Leaf"
    using leaf_weights_ok [OF g(1,2) assms(2)] by metis
  have "l < length (elements d)" if "(i, l) \<in> (edge_rel d)\<^sup>*" for l
    using that assms(2)
  proof (induction rule: rtrancl_induct)
    case (step m l)
    then show ?case using edges_in_rangeD [OF g(1)] by (auto simp: edge_rel_iff)
  qed simp
  with ws show thesis
    by (intro that [of ws]) (auto simp: kind_at_def strict_sorted_iff)
qed

lemma dim_weights_total:
  assumes "list_all dim_wf ds" and "in_range ds coord"
  shows "\<exists>wss. dim_weights ds coord = Inr wss \<and> length wss = length ds \<and>
     (\<forall>ws \<in> set wss. distinct (map fst ws)) \<and>
     (\<forall>k \<in> under wss. in_range ds k \<and> leaf_coord ds k)"
proof -
  have "length ds = length coord" using assms(2) by (simp add: in_range_nth)
  then show ?thesis using assms
  proof (induction ds coord rule: list_induct2)
    case Nil
    then show ?case by (simp add: under_simps in_range_def leaf_coord_def)
  next
    case (Cons d ds i "is")
    then obtain wss where IH: "dim_weights ds is = Inr wss" "length wss = length ds"
      "\<forall>ws \<in> set wss. distinct (map fst ws)" "\<forall>k \<in> under wss. in_range ds k \<and> leaf_coord ds k"
      by (auto simp: in_range_def)
    obtain ws where "leaf_weights d i = Inr ws" "distinct (map fst ws)"
      "\<And>l. l \<in> fst ` set ws \<Longrightarrow> l < length (elements d) \<and> kind_at d l = Leaf"
      using Cons.prems leaf_weights_total [of d i] by (auto simp: in_range_def)
    with IH show ?case by (auto simp: under_simps in_range_def leaf_coord_def)
  qed
qed

text \<open>The exact rollup of a value function: the specification the reads are held to.\<close>

definition rollup :: "(nat \<times> int) list list \<Rightarrow> (coord \<Rightarrow> int) \<Rightarrow> int" where
  "rollup wss f = (\<Sum>k\<in>under wss. weight_of (map map_of wss) k * f k)"

lemma rollup_cong: "(\<And>k. k \<in> under wss \<Longrightarrow> f k = g k) \<Longrightarrow> rollup wss f = rollup wss g"
  unfolding rollup_def by (rule sum.cong) simp_all

lemma rollup_support:
  assumes "finite K" and "\<And>k. k \<in> under wss \<Longrightarrow> k \<notin> K \<Longrightarrow> f k = 0"
  shows "rollup wss f = (\<Sum>k\<in>K. weight_of (map map_of wss) k * f k)"
proof -
  have "rollup wss f = (\<Sum>k\<in>under wss \<union> K. weight_of (map map_of wss) k * f k)"
    unfolding rollup_def using assms(1) weight_of_outside by (intro sum.mono_neutral_left) auto
  also have "\<dots> = (\<Sum>k\<in>K. weight_of (map map_of wss) k * f k)"
    using assms weight_of_outside by (intro sum.mono_neutral_right) auto
  finally show ?thesis .
qed

lemma sum_list_alist:
  assumes "distinct (map fst es)"
  shows "sum_list (map (\<lambda>(k, v). g k * v) es) = (\<Sum>k\<in>fst ` set es. g k * (the (map_of es k) :: int))"
proof -
  have "sum_list (map (\<lambda>(k, v). g k * v) es) = (\<Sum>(k, v)\<in>set es. g k * v)"
    using assms by (simp add: sum_list_distinct_conv_sum_set distinct_map)
  also have "\<dots> = (\<Sum>k\<in>fst ` set es. g k * the (map_of es k))"
    using assms by (subst sum.reindex) (auto simp: distinct_map case_prod_beta intro!: sum.cong)
  finally show ?thesis .
qed

lemma stored_sum_rollup:
  assumes wf: "cube_wf c" and "\<forall>k \<in> under wss. in_range (dims c) k"
  shows "stored_sum c wss = rollup wss (leaf_value c)"
proof -
  let ?es = "cell_entries c"
  have es: "?es = store_entries (layout_new (dims c)) (length (dims c)) (cells c)"
    using cube_wf_D(2) [OF wf] by (simp add: cell_entries_def rank_def)
  note ok = cube_wf_D(3) [OF wf]
  have dist: "distinct (map fst ?es)" using cells.entries_distinct [OF ok] by (simp add: es)
  have val: "leaf_value c k = (case map_of ?es k of Some v \<Rightarrow> v | None \<Rightarrow> 0)" if "in_range (dims c) k" for k
    using cells.entries_find [OF ok that] cube_wf_D(2) [OF wf] by (simp add: leaf_value_def es)
  have "stored_sum c wss = (\<Sum>k\<in>fst ` set ?es. weight_of (map map_of wss) k * the (map_of ?es k))"
    unfolding stored_sum_def by (rule sum_list_alist [OF dist])
  also have "\<dots> = (\<Sum>k\<in>fst ` set ?es. weight_of (map map_of wss) k * leaf_value c k)"
  proof (rule sum.cong [OF refl])
    fix k assume "k \<in> fst ` set ?es"
    then obtain v where v: "(k, v) \<in> set ?es" by auto
    then have "map_of ?es k = Some v" using dist by simp
    with val [OF cell_entries_range [OF wf v]]
    show "weight_of (map map_of wss) k * the (map_of ?es k) = weight_of (map map_of wss) k * leaf_value c k"
      by simp
  qed
  also have "\<dots> = rollup wss (leaf_value c)"
  proof (rule rollup_support [symmetric])
    fix k assume "k \<in> under wss" "k \<notin> fst ` set ?es"
    with val assms(2) show "leaf_value c k = 0" by (simp add: map_of_eq_None_iff [THEN iffD2])
  qed simp
  finally show ?thesis .
qed

lemma count_combos_Some: "count_combos ns t = Some r \<Longrightarrow> r = t * prod_list ns"
proof (induction ns arbitrary: t)
  case (Cons n ns)
  then have "count_combos ns (t * n) = Some r"
    by (auto simp: checked_usize_def split: if_splits)
  from Cons.IH [OF this] show ?case by (simp add: mult.assoc)
qed simp

lemma combo_count_prod: "combo_count wss = prod_list (map length wss)"
  by (induction wss) simp_all

lemma dense_rollup:
  assumes "\<forall>ws \<in> set wss. distinct (map fst ws)"
  shows "wrap128 (sum_list (map (\<lambda>(k, w). w * f k) (map (\<lambda>n. combo_at wss n 1) [0..<combo_count wss])))
     = wrap128 (rollup wss f)"
proof -
  have "sum_list (map (\<lambda>(k, w). w * f k) (map (\<lambda>n. combo_at wss n 1) [0..<combo_count wss]))
      = (\<Sum>n<combo_count wss. snd (combo_at wss n 1) * f (fst (combo_at wss n 1)))"
    by (simp add: comp_def split_def sum_list_distinct_conv_sum_set lessThan_atLeast0)
  with combo_sum [of wss 1 f] dense_sum_under [OF assms, of f] show ?thesis
    by (simp add: rollup_def)
qed

lemma rollup_empty: "combo_count wss = 0 \<Longrightarrow> rollup wss f = 0"
proof -
  assume "combo_count wss = 0"
  then have "under wss = {}" by (induction wss) (auto simp: under_simps)
  then show ?thesis by (simp add: rollup_def)
qed

lemma to_fixed_0: "to_fixed 0 = Inr 0"
  by (simp add: to_fixed_def checked_i64_def)

text \<open>Both \<open>consolidate_with\<close> and \<open>get\<close> are the wrapped rollup, narrowed.\<close>

lemma consolidate_with_spec:
  assumes "in_range (dims c) coord" and "\<not> leaf_coord (dims c) coord"
    and "dim_weights (dims c) coord = Inr wss" and "\<forall>ws \<in> set wss. distinct (map fst ws)"
  shows "consolidate_with from_err c coord (\<lambda>k. Inr (f k)) =
     (if count_combos (map length wss) 1 = None then Inl (from_err Overflow)
      else map_err from_err (to_fixed (wrap128 (rollup wss f))))"
proof (cases "count_combos (map length wss) 1")
  case None
  then show ?thesis using assms check_coord_Inr [of c coord] all_leaf_Inr [OF assms(1)]
    by (simp add: consolidate_with_def all_numeric_leaf_def)
next
  case (Some t)
  then have t: "t = combo_count wss" using count_combos_Some [OF Some] by (simp add: combo_count_prod)
  show ?thesis
    using assms check_coord_Inr [of c coord] all_leaf_Inr [OF assms(1)] Some
      dense_rollup [OF assms(4), of f] rollup_empty [of wss f]
    by (auto simp: consolidate_with_def all_numeric_leaf_def t sum_combos_pure to_fixed_0)
qed

section \<open>The fed scan\<close>

lemma contributing_weight:
  assumes "length k = length ms"
  shows "case cell_weight ms 0 1 ((!) k) of
     None \<Rightarrow> weight_of ms k = 0 | Some x \<Rightarrow> wrap128 x = wrap128 (weight_of ms k)"
proof -
  have "map ((!) k) [0..<length ms] = k" using assms by (metis map_nth)
  then show ?thesis using cell_weight_spec [where ms = ms and d = 0 and w = 1 and part = "(!) k"]
    by (auto split: option.splits)
qed

lemma fed_loop_spec:
  assumes "wrapped acc" and "\<forall>k \<in> set ks. length k = length ms" and "finite seen"
  shows "\<exists>seen'. fed_loop ms (\<lambda>k. Inr (f k) :: 'e + fixed) ks seen acc =
       Inr (seen', wrap128 (acc + (\<Sum>k\<in>set ks - seen. weight_of ms k * f k))) \<and>
     seen \<subseteq> seen' \<and> seen' \<subseteq> seen \<union> set ks \<and> (\<forall>k \<in> set ks - seen'. weight_of ms k = 0)"
  using assms
proof (induction ks arbitrary: seen acc)
  case Nil
  then show ?case by (simp add: wrapped_def)
next
  case (Cons k ks)
  note cw = contributing_weight [of k ms] and ks = Cons.prems(2)
  show ?case
  proof (cases "cell_weight ms 0 1 ((!) k)")
    case None
    with cw ks have z: "weight_of ms k = 0" by simp
    have "(\<Sum>k\<in>set (k # ks) - seen. weight_of ms k * f k) = (\<Sum>k\<in>set ks - seen. weight_of ms k * f k)"
      using z by (intro sum.mono_neutral_right) auto
    moreover obtain seen' where "fed_loop ms (\<lambda>k. Inr (f k) :: 'e + fixed) ks seen acc =
       Inr (seen', wrap128 (acc + (\<Sum>k\<in>set ks - seen. weight_of ms k * f k)))" "seen \<subseteq> seen'"
      "seen' \<subseteq> seen \<union> set ks" "\<forall>k \<in> set ks - seen'. weight_of ms k = 0"
      using Cons.IH [of acc seen] Cons.prems by auto
    ultimately show ?thesis using None z by (intro exI [of _ seen']) auto
  next
    case (Some x)
    show ?thesis
    proof (cases "k \<in> seen")
      case True
      then have eq: "set (k # ks) - seen = set ks - seen" by auto
      obtain seen' where "fed_loop ms (\<lambda>k. Inr (f k) :: 'e + fixed) ks seen acc =
         Inr (seen', wrap128 (acc + (\<Sum>k\<in>set ks - seen. weight_of ms k * f k)))" "seen \<subseteq> seen'"
        "seen' \<subseteq> seen \<union> set ks" "\<forall>k \<in> set ks - seen'. weight_of ms k = 0"
        using Cons.IH [of acc seen] Cons.prems by auto
      then show ?thesis using Some True unfolding eq by (intro exI [of _ seen']) auto
    next
      case False
      let ?acc = "wrap128 (acc + wrap128 (x * f k))"
      have "wrap128 x = wrap128 (weight_of ms k)" using cw ks Some by simp
      from wrap128_cong_mult [OF this] have acc: "?acc = wrap128 (acc + wrap128 (weight_of ms k * f k))"
        by (simp only:)
      have "set (k # ks) - seen = insert k (set ks - insert k seen)" using False by auto
      then have sum: "(\<Sum>k\<in>set (k # ks) - seen. weight_of ms k * f k)
          = weight_of ms k * f k + (\<Sum>k\<in>set ks - insert k seen. weight_of ms k * f k)" by simp
      obtain seen' where "fed_loop ms (\<lambda>k. Inr (f k) :: 'e + fixed) ks (insert k seen) ?acc =
         Inr (seen', wrap128 (?acc + (\<Sum>k\<in>set ks - insert k seen. weight_of ms k * f k)))"
        "insert k seen \<subseteq> seen'" "seen' \<subseteq> insert k seen \<union> set ks"
        "\<forall>k \<in> set ks - seen'. weight_of ms k = 0"
        using Cons.IH [of ?acc "insert k seen"] Cons.prems by auto
      moreover have "wrap128 (acc + x * f k) = wrap128 (acc + weight_of ms k * f k)" using acc by simp
      ultimately show ?thesis using Some False unfolding sum
        by (intro exI [of _ seen']) (auto simp: add.assoc)
    qed
  qed
qed

lemma consolidate_fed_spec:
  assumes wf: "cube_wf c" and "in_range (dims c) coord" and "\<not> leaf_coord (dims c) coord"
    and "dim_weights (dims c) coord = Inr wss" and "\<forall>ws \<in> set wss. distinct (map fst ws)"
    and fed: "\<forall>k \<in> set fed. length k = rank c"
    and cover: "\<And>k. k \<in> under wss \<Longrightarrow> f k \<noteq> 0 \<Longrightarrow> k \<in> fst ` set (cell_entries c) \<union> set fed"
  shows "consolidate_fed from_err c coord fed (\<lambda>k. Inr (f k) :: 'e + fixed) =
     (if count_combos (map length wss) 1 = None then Inl (from_err Overflow)
      else map_err from_err (to_fixed (wrap128 (rollup wss f))))"
proof (cases "count_combos (map length wss) 1")
  case None
  then show ?thesis using assms(2-4) check_coord_Inr [of c coord] all_leaf_Inr [OF assms(2)]
    by (simp add: consolidate_fed_def all_numeric_leaf_def)
next
  case (Some t)
  let ?ms = "map map_of wss" and ?K = "map fst (cell_entries c)"
  let ?W = "\<lambda>k. weight_of ?ms k * f k"
  have t: "t = combo_count wss" using count_combos_Some [OF Some] by (simp add: combo_count_prod)
  have len: "length wss = rank c"
    using dim_weights_length [OF assms(4)] assms(2) by (simp add: in_range_nth rank_def)
  have K: "\<forall>k \<in> set ?K. length k = length ?ms"
    using cell_entries_range [OF wf] len by (auto simp: in_range_nth rank_def)
  obtain seen where seen: "fed_loop ?ms (\<lambda>k. Inr (f k) :: 'e + fixed) ?K {} 0 = Inr (seen, wrap128 (0 + sum ?W (set ?K - {})))"
    "seen \<subseteq> {} \<union> set ?K" "\<forall>k \<in> set ?K - seen. weight_of ?ms k = 0"
    using fed_loop_spec [of 0 ?K ?ms "{}" f] K by auto
  have fin: "finite seen" using seen(2) finite_subset by auto
  obtain seen' where fed': "fed_loop ?ms (\<lambda>k. Inr (f k) :: 'e + fixed) fed seen (wrap128 (0 + sum ?W (set ?K - {}))) =
      Inr (seen', wrap128 (wrap128 (0 + sum ?W (set ?K - {})) + sum ?W (set fed - seen)))"
    using fed_loop_spec [of "wrap128 (0 + sum ?W (set ?K - {}))" fed ?ms seen f] fed fin len by auto
  have "sum ?W (set fed - seen) = sum ?W (set fed - set ?K)"
    using seen(2,3) by (intro sum.mono_neutral_right) auto
  then have "sum ?W (set ?K - {}) + sum ?W (set fed - seen) = sum ?W (set ?K \<union> set fed)"
    using sum.union_disjoint [of "set ?K" "set fed - set ?K" ?W] by (simp add: Un_Diff_cancel)
  also have "\<dots> = rollup wss f"
    using cover by (intro rollup_support [symmetric]) auto
  finally have total: "wrap128 (wrap128 (0 + sum ?W (set ?K - {})) + sum ?W (set fed - seen)) = wrap128 (rollup wss f)"
    by simp
  have "bindE (fed_loop ?ms (\<lambda>k. Inr (f k) :: 'e + fixed) ?K {} 0) (\<lambda>(seen, acc).
      bindE (fed_loop ?ms (\<lambda>k. Inr (f k) :: 'e + fixed) fed seen acc) (\<lambda>(_, acc'). map_err from_err (to_fixed acc')))
    = map_err from_err (to_fixed (wrap128 (rollup wss f)))"
    unfolding seen(1) bindE.simps prod.case fed' total ..
  then show ?thesis
    using assms(2-4) check_coord_Inr [of c coord] all_leaf_Inr [OF assms(2)] Some rollup_empty [of wss f]
    by (simp add: consolidate_fed_def all_numeric_leaf_def t to_fixed_0)
qed

end
