(* ===== verification/Cube_Edit.thy ===== *)
theory Cube_Edit
  imports Consolidate
begin

text \<open>
  The structural edits of a cube (\<open>cube.rs\<close>, ADR-0036): reorder, reparent, add and remove a
  child, pin, convert, delete and insert an element. Each stages on a clone, edits the dimension
  through its own operation and then remaps, drops or retypes the stored cells.
\<close>

datatype insert_position = AtEnd | Before string | After string

definition remap_cells_for_dimension :: "nat \<Rightarrow> nat list \<Rightarrow> cube \<Rightarrow> cube" where
  "remap_cells_for_dimension d to_new c =
     rebuild_stores (layout_new (dims c)) True True
       (\<lambda>coord. let mapped = to_new ! (coord ! d)
                in if mapped = u32_max then None else Some (coord[d := mapped])) c"

definition drop_cells_for_element :: "nat \<Rightarrow> nat \<Rightarrow> bool \<Rightarrow> bool \<Rightarrow> cube \<Rightarrow> cube" where
  "drop_cells_for_element d element numeric strings c =
     rebuild_stores (lay c) numeric strings
       (\<lambda>coord. if coord ! d \<noteq> element then Some coord else None) c"

definition drop_sole_string_cells :: "nat \<Rightarrow> nat \<Rightarrow> cube \<Rightarrow> cube" where
  "drop_sole_string_cells d element c =
     (let string_flags = map (\<lambda>dim. map (\<lambda>el. el_kind el = Str) (elements dim)) (dims c)
      in rebuild_stores (lay c) False True
           (\<lambda>coord. if coord ! d \<noteq> element \<or>
                       list_ex (\<lambda>(d2, idx). d2 \<noteq> d \<and> string_flags ! d2 ! idx) (List.enumerate 0 coord)
                    then Some coord else None) c)"

definition retype_cells_for_kind :: "nat \<Rightarrow> nat \<Rightarrow> element_kind \<Rightarrow> element_kind \<Rightarrow> cube \<Rightarrow> cube" where
  "retype_cells_for_kind d element previous kind c =
     (case (previous, kind) of
        (Leaf, Str) \<Rightarrow> drop_cells_for_element d element True False c
      | (Str, Leaf) \<Rightarrow> drop_sole_string_cells d element c
      | (Leaf, Consolidated) \<Rightarrow> drop_cells_for_element d element True True c
      | (Str, Consolidated) \<Rightarrow> drop_cells_for_element d element True True c
      | _ \<Rightarrow> c)"

text \<open>Looking an element up by name, and putting an edited dimension back.\<close>

definition element_of :: "string \<Rightarrow> dimension \<Rightarrow> string \<Rightarrow> model_error + nat" where
  "element_of dimension dim name = ok_or (ElementNotFound dimension name) (index_of dim name)"

definition put_dim :: "nat \<Rightarrow> dimension \<Rightarrow> cube \<Rightarrow> cube" where
  "put_dim d dim c = c\<lparr>dims := (dims c)[d := dim]\<rparr>"

definition reorder_elements :: "string \<Rightarrow> string list \<Rightarrow> cube \<Rightarrow> model_error + cube" where
  "reorder_elements dimension new_order c =
     bindE (dimension_index c dimension) (\<lambda>d.
     bindE (reorder new_order (dims c ! d)) (\<lambda>(to_new, dim').
       Inr (remap_cells_for_dimension d to_new (put_dim d dim' c))))"

definition reparent_element ::
    "string \<Rightarrow> string \<Rightarrow> string option \<Rightarrow> int \<Rightarrow> cube \<Rightarrow> model_error + cube" where
  "reparent_element dimension child new_parent weight c =
     bindE (dimension_index c dimension) (\<lambda>d.
       let dim = dims c ! d in
       bindE (element_of dimension dim child) (\<lambda>child_idx.
       bindE (case new_parent of
                Some p \<Rightarrow> bindE (element_of dimension dim p) (\<lambda>i. Inr (Some i))
              | None \<Rightarrow> Inr None) (\<lambda>parent_idx.
       bindE (case parent_idx of
                Some p \<Rightarrow> bindE (get_element dim p) (\<lambda>el. Inr (is_leaf (el_kind el)))
              | None \<Rightarrow> Inr False) (\<lambda>parent_was_leaf.
       bindE (reparent child_idx parent_idx weight dim) (\<lambda>dim'.
         let next = put_dim d dim' c in
         Inr (if parent_was_leaf
              then (case parent_idx of
                      Some p \<Rightarrow> drop_cells_for_element d p True True next
                    | None \<Rightarrow> next)
              else next))))))"

definition add_child_element :: "string \<Rightarrow> string \<Rightarrow> string \<Rightarrow> int \<Rightarrow> cube \<Rightarrow> model_error + cube" where
  "add_child_element dimension parent child weight c =
     bindE (dimension_index c dimension) (\<lambda>d.
       let dim = dims c ! d in
       bindE (element_of dimension dim parent) (\<lambda>p.
       bindE (element_of dimension dim child) (\<lambda>ch.
       bindE (children_of dim p) (\<lambda>kids.
         if ch \<in> set kids then Inr c
         else bindE (get_element dim p) (\<lambda>el.
           let parent_was_leaf = is_leaf (el_kind el) in
           bindE (if parent_was_leaf
                  then bindE (set_kind p Consolidated dim) (\<lambda>(_, dim'). Inr dim')
                  else Inr dim) (\<lambda>dim1.
           bindE (add_child p ch weight dim1) (\<lambda>dim2.
             let next = put_dim d dim2 c in
             Inr (if parent_was_leaf then drop_cells_for_element d p True True next else next))))))))"

definition remove_child_element :: "string \<Rightarrow> string \<Rightarrow> string \<Rightarrow> cube \<Rightarrow> model_error + cube" where
  "remove_child_element dimension parent child c =
     bindE (dimension_index c dimension) (\<lambda>d.
       let dim = dims c ! d in
       bindE (element_of dimension dim parent) (\<lambda>p.
       bindE (element_of dimension dim child) (\<lambda>ch.
       bindE (remove_child p ch dim) (\<lambda>dim'. Inr (put_dim d dim' c)))))"

definition pin_element_to_top :: "string \<Rightarrow> string \<Rightarrow> cube \<Rightarrow> model_error + cube" where
  "pin_element_to_top dimension name c =
     bindE (dimension_index c dimension) (\<lambda>d.
     bindE (element_of dimension (dims c ! d) name) (\<lambda>i.
     bindE (pin_to_top i (dims c ! d)) (\<lambda>dim'. Inr (put_dim d dim' c))))"

definition unpin_element_from_top :: "string \<Rightarrow> string \<Rightarrow> cube \<Rightarrow> model_error + cube" where
  "unpin_element_from_top dimension name c =
     bindE (dimension_index c dimension) (\<lambda>d.
     bindE (element_of dimension (dims c ! d) name) (\<lambda>i.
     bindE (unpin_from_top i (dims c ! d)) (\<lambda>dim'. Inr (put_dim d dim' c))))"

definition set_element_kind :: "string \<Rightarrow> string \<Rightarrow> element_kind \<Rightarrow> cube \<Rightarrow> model_error + cube" where
  "set_element_kind dimension name kind c =
     bindE (dimension_index c dimension) (\<lambda>d.
     bindE (element_of dimension (dims c ! d) name) (\<lambda>i.
     bindE (set_kind i kind (dims c ! d)) (\<lambda>(previous, dim').
       Inr (retype_cells_for_kind d i previous kind (put_dim d dim' c)))))"

definition delete_element :: "string \<Rightarrow> string \<Rightarrow> cube \<Rightarrow> model_error + cube" where
  "delete_element dimension name c =
     bindE (dimension_index c dimension) (\<lambda>d.
     bindE (element_of dimension (dims c ! d) name) (\<lambda>i.
     bindE (delete i (dims c ! d)) (\<lambda>((removed, to_new), dim').
       Inr (remap_cells_for_dimension d to_new (put_dim d dim' c)))))"

definition insert_element_at ::
    "string \<Rightarrow> string \<Rightarrow> element_kind \<Rightarrow> insert_position \<Rightarrow> cube \<Rightarrow> model_error + cube" where
  "insert_element_at dimension name kind pos c =
     bindE (dimension_index c dimension) (\<lambda>d.
       let dim = dims c ! d in
       bindE (case pos of
                AtEnd \<Rightarrow> Inr (dim_len dim)
              | Before anchor \<Rightarrow> element_of dimension dim anchor
              | After anchor \<Rightarrow> bindE (element_of dimension dim anchor) (\<lambda>i. Inr (i + 1))) (\<lambda>at.
       bindE (insert_at name kind at dim) (\<lambda>((_, to_new), dim').
         Inr (remap_cells_for_dimension d to_new (put_dim d dim' c)))))"

section \<open>Rebuilding as a map\<close>

definition mapped :: "('k \<Rightarrow> 'k option) \<Rightarrow> ('k \<times> 'v) list \<Rightarrow> ('k \<times> 'v) list" where
  "mapped transform es = List.map_filter (\<lambda>(k, v). map_option (\<lambda>k'. (k', v)) (transform k)) es"

lemma mapped_simps [simp]:
  "mapped transform [] = []"
  "mapped transform ((k, v) # es) =
     (case transform k of None \<Rightarrow> mapped transform es | Some k' \<Rightarrow> (k', v) # mapped transform es)"
  by (simp_all add: mapped_def map_filter_simps split: option.split)

lemma mapped_mem: "(k', v) \<in> set (mapped transform es) \<longleftrightarrow> (\<exists>k. (k, v) \<in> set es \<and> transform k = Some k')"
  by (induction es) (auto split: option.splits)

lemma mapped_distinct:
  assumes "distinct (map fst es)"
    and "\<And>a b x. a \<in> fst ` set es \<Longrightarrow> b \<in> fst ` set es \<Longrightarrow> transform a = Some x \<Longrightarrow> transform b = Some x \<Longrightarrow> a = b"
  shows "distinct (map fst (mapped transform es))"
  using assms
proof (induction es)
  case (Cons e es)
  obtain k v where e: "e = (k, v)" by force
  have IH: "distinct (map fst (mapped transform es))"
  proof (rule Cons.IH)
    show "distinct (map fst es)" using Cons.prems(1) by simp
    fix a b x assume "a \<in> fst ` set es" "b \<in> fst ` set es" "transform a = Some x" "transform b = Some x"
    then show "a = b" by (intro Cons.prems(2)) simp_all
  qed
  show ?case
  proof (cases "transform k")
    case (Some k')
    have "k' \<notin> fst ` set (mapped transform es)"
    proof
      assume "k' \<in> fst ` set (mapped transform es)"
      then obtain k2 v2 where k2: "(k2, v2) \<in> set es" "transform k2 = Some k'" by (auto simp: mapped_mem)
      then have mem: "k2 \<in> fst ` set es" by (auto intro: rev_image_eqI)
      then have "k = k2" using Cons.prems(2) [of k k2 k'] Some k2(2) by (simp add: e)
      then show False using mem Cons.prems(1) by (simp add: e)
    qed
    with IH Some show ?thesis by (simp add: e)
  qed (simp add: e IH)
qed simp

lemma rebuild_put_all:
  "rebuild_store old new rk transform st =
     put_all (store_put new) (mapped transform (store_entries old rk st)) (store_new (narrow new))"
proof -
  have "foldl (\<lambda>s (coord, v). case transform coord of None \<Rightarrow> s | Some c' \<Rightarrow> store_put new c' v s) s es =
      put_all (store_put new) (mapped transform es) s" for s es
    by (induction es arbitrary: s) (auto split: option.split)
  then show ?thesis by (simp add: rebuild_store_def)
qed

lemma rebuild_store_law:
  fixes st :: "'v cell_store"
  assumes ok: "store_ok ds st" and wf': "list_all dim_wf ds'" and len: "length ds' = length ds"
    and rng: "\<And>k k'. in_range ds k \<Longrightarrow> transform k = Some k' \<Longrightarrow> in_range ds' k'"
    and inj: "\<And>a b x. in_range ds a \<Longrightarrow> in_range ds b \<Longrightarrow> transform a = Some x \<Longrightarrow> transform b = Some x \<Longrightarrow> a = b"
  shows "store_ok ds' (rebuild_store (layout_new ds) (layout_new ds') (length ds) transform st)"
    "in_range ds' j \<Longrightarrow>
       store_get (layout_new ds') (rebuild_store (layout_new ds) (layout_new ds') (length ds) transform st) j = Some v
       \<longleftrightarrow> (\<exists>k. in_range ds k \<and> transform k = Some j \<and> store_get (layout_new ds) st k = Some v)"
proof -
  let ?es = "store_entries (layout_new ds) (length ds) st"
  let ?ms = "mapped transform ?es"
  have eq: "rebuild_store (layout_new ds) (layout_new ds') (length ds) transform st
      = put_all (store_put (layout_new ds')) ?ms (store_empty ds')"
    by (simp add: rebuild_put_all store_empty_def)
  have src: "in_range ds k" if "(k, v) \<in> set ?es" for k v
    using cells.entries_valid [OF ok] that .
  have val: "\<forall>k \<in> fst ` set ?ms. in_range ds' k"
    using rng src by (force simp: mapped_mem)
  have dist: "distinct (map fst ?ms)"
    using inj src by (intro mapped_distinct cells.entries_distinct [OF ok]) force
  note emp = store_empty_ok [OF wf', where 'a = 'v]
  note res = cells.put_all_none [OF emp val dist]
  show "store_ok ds' (rebuild_store (layout_new ds) (layout_new ds') (length ds) transform st)"
    unfolding eq by (rule res(1))
  assume "in_range ds' j"
  from res(2) [OF this] dist
  have "store_get (layout_new ds') (put_all (store_put (layout_new ds')) ?ms (store_empty ds')) j = Some v
      \<longleftrightarrow> (j, v) \<in> set ?ms" by simp
  then show "store_get (layout_new ds') (rebuild_store (layout_new ds) (layout_new ds') (length ds) transform st) j = Some v
       \<longleftrightarrow> (\<exists>k. in_range ds k \<and> transform k = Some j \<and> store_get (layout_new ds) st k = Some v)"
    unfolding eq mapped_mem cells.entries_iff [OF ok] by blast
qed

text \<open>A store kept as it is: the layout has not changed and no coordinate went out of range.\<close>

lemma keep_store_law:
  assumes ok: "store_ok ds st" and wf': "list_all dim_wf ds'" and len: "length ds' = length ds"
    and lay: "layout_new ds' = layout_new ds" and rng: "\<And>k. in_range ds k \<Longrightarrow> in_range ds' k"
  shows "store_ok ds' st"
    "in_range ds' j \<Longrightarrow> store_get (layout_new ds') st j = Some v
       \<longleftrightarrow> in_range ds j \<and> store_get (layout_new ds) st j = Some v"
proof -
  show ok': "store_ok ds' st"
    using ok wf' lay rng by (fastforce simp: store_ok_def split: cell_store.splits)
  assume "in_range ds' j"
  then show "store_get (layout_new ds') st j = Some v
       \<longleftrightarrow> in_range ds j \<and> store_get (layout_new ds) st j = Some v"
    using cells.entries_iff [OF ok'] cells.entries_iff [OF ok] lay len by metis
qed

end
