(* ===== verification/Cube_Edit_Wf.thy ===== *)
theory Cube_Edit_Wf
  imports Cube_Edit
begin

text \<open>
  Growth and the structural edits keep a cube well-formed and move its cells as intended.
  \<open>moved tn ts c c'\<close> says that the numeric cells of \<open>c'\<close> are those of \<open>c\<close> carried
  along \<open>tn\<close> and its string cells those carried along \<open>ts\<close>: a coordinate mapped to
  \<open>None\<close> is dropped, and nothing else appears.
\<close>

definition moved :: "(coord \<Rightarrow> coord option) \<Rightarrow> (coord \<Rightarrow> coord option) \<Rightarrow> cube \<Rightarrow> cube \<Rightarrow> bool" where
  "moved tn ts c c' \<longleftrightarrow> pool c' = pool c \<and> cube_name c' = cube_name c \<and>
     (\<forall>j v. in_range (dims c') j \<longrightarrow>
        (num c' j = Some v \<longleftrightarrow> (\<exists>k. in_range (dims c) k \<and> tn k = Some j \<and> num c k = Some v))) \<and>
     (\<forall>j i. in_range (dims c') j \<longrightarrow>
        (str_id c' j = Some i \<longleftrightarrow> (\<exists>k. in_range (dims c) k \<and> ts k = Some j \<and> str_id c k = Some i)))"

definition eff :: "bool \<Rightarrow> (coord \<Rightarrow> coord option) \<Rightarrow> coord \<Rightarrow> coord option" where
  "eff on tr = (if on then tr else Some)"

lemma moved_wf:
  assumes "cube_wf c" and "moved tn ts c c'" and "frame_ok c'"
    and leafs: "\<And>k k'. in_range (dims c) k \<Longrightarrow> leaf_coord (dims c) k \<Longrightarrow> tn k = Some k' \<Longrightarrow> leaf_coord (dims c') k'"
    and strs: "\<And>k k'. in_range (dims c) k \<Longrightarrow> string_coord (dims c) k \<Longrightarrow> ts k = Some k' \<Longrightarrow> string_coord (dims c') k'"
  shows "cube_wf c'"
proof -
  have p: "pool c' = pool c" using assms(2) by (simp add: moved_def)
  have "num_ok c'"
    unfolding num_ok_def
  proof (intro allI impI)
    fix j v assume j: "in_range (dims c') j" "num c' j = Some v"
    then obtain k where "in_range (dims c) k" "tn k = Some j" "num c k = Some v"
      using assms(2) unfolding moved_def by blast
    with assms(1) leafs show "leaf_coord (dims c') j \<and> v \<noteq> 0 \<and> in_i64 v"
      unfolding cube_wf_def num_ok_def by blast
  qed
  moreover have "str_ok c'"
    unfolding str_ok_def
  proof (intro allI impI)
    fix j i assume j: "in_range (dims c') j" "str_id c' j = Some i"
    then obtain k where "in_range (dims c) k" "ts k = Some j" "str_id c k = Some i"
      using assms(2) unfolding moved_def by blast
    with assms(1) strs show "string_coord (dims c') j \<and> i < length (by_id (pool c')) \<and> pool_get (pool c') i \<noteq> []"
      unfolding cube_wf_def str_ok_def p by blast
  qed
  ultimately show ?thesis using assms(3) by (simp add: cube_wf_def)
qed

lemma one_store:
  fixes st :: "'v cell_store"
  assumes ok: "store_ok ds st" and wf': "list_all dim_wf ds'" and len: "length ds' = length ds"
    and rng: "\<And>k k'. in_range ds k \<Longrightarrow> eff on tr k = Some k' \<Longrightarrow> in_range ds' k'"
    and inj: "\<And>a b x. in_range ds a \<Longrightarrow> in_range ds b \<Longrightarrow> tr a = Some x \<Longrightarrow> tr b = Some x \<Longrightarrow> a = b"
    and keep: "\<not> on \<Longrightarrow> layout_new ds' = layout_new ds"
  defines "st' \<equiv> if on then rebuild_store (layout_new ds) (layout_new ds') (length ds) tr st else st"
  shows "store_ok ds' st'"
    "in_range ds' j \<Longrightarrow> store_get (layout_new ds') st' j = Some v \<longleftrightarrow>
       (\<exists>k. in_range ds k \<and> eff on tr k = Some j \<and> store_get (layout_new ds) st k = Some v)"
proof -
  have "store_ok ds' st' \<and> (in_range ds' j \<longrightarrow> (store_get (layout_new ds') st' j = Some v \<longleftrightarrow>
       (\<exists>k. in_range ds k \<and> eff on tr k = Some j \<and> store_get (layout_new ds) st k = Some v)))"
  proof (cases on)
    case True
    then have "\<And>k k'. in_range ds k \<Longrightarrow> tr k = Some k' \<Longrightarrow> in_range ds' k'" using rng by (simp add: eff_def)
    from rebuild_store_law(1) [OF ok wf' len this inj] rebuild_store_law(2) [where j = j and v = v, OF ok wf' len this inj] show ?thesis
      using True by (simp add: st'_def eff_def)
  next
    case False
    then have "\<And>k. in_range ds k \<Longrightarrow> in_range ds' k" using rng by (simp add: eff_def)
    from keep_store_law(1) [OF ok wf' len keep [OF False] this] keep_store_law(2) [where j = j and v = v, OF ok wf' len keep [OF False] this] show ?thesis
      using False by (simp add: st'_def eff_def)
  qed
  then show "store_ok ds' st'" "in_range ds' j \<Longrightarrow> store_get (layout_new ds') st' j = Some v \<longleftrightarrow>
       (\<exists>k. in_range ds k \<and> eff on tr k = Some j \<and> store_get (layout_new ds) st k = Some v)" by blast+
qed

lemma rebuild_stores_frame:
  assumes wf: "cube_wf c" and wf': "list_all dim_wf ds'" and len: "length ds' = length (dims c)"
    and rng: "\<And>on k k'. in_range (dims c) k \<Longrightarrow> on \<in> {numeric, strings} \<Longrightarrow> eff on tr k = Some k' \<Longrightarrow> in_range ds' k'"
    and inj: "\<And>a b x. in_range (dims c) a \<Longrightarrow> in_range (dims c) b \<Longrightarrow> tr a = Some x \<Longrightarrow> tr b = Some x \<Longrightarrow> a = b"
    and keep: "\<not> numeric \<or> \<not> strings \<Longrightarrow> layout_new ds' = layout_new (dims c)"
  defines "c' \<equiv> rebuild_stores (layout_new ds') numeric strings tr (c\<lparr>dims := ds'\<rparr>)"
  shows "frame_ok c' \<and> moved (eff numeric tr) (eff strings tr) c c' \<and> dims c' = ds'"
proof -
  note D = cube_wf_D [OF wf]
  have ne: "ds' \<noteq> []" using D(6) len by auto
  have c': "dims c' = ds'" "lay c' = layout_new ds'" "pool c' = pool c" "cube_name c' = cube_name c"
    "cells c' = (if numeric then rebuild_store (layout_new (dims c)) (layout_new ds') (length (dims c)) tr (cells c) else cells c)"
    "string_cells c' = (if strings then rebuild_store (layout_new (dims c)) (layout_new ds') (length (dims c)) tr (string_cells c) else string_cells c)"
    using D(2) len by (simp_all add: c'_def rebuild_stores_def rank_def)
  have keep1: "\<not> numeric \<Longrightarrow> layout_new ds' = layout_new (dims c)"
    and keep2: "\<not> strings \<Longrightarrow> layout_new ds' = layout_new (dims c)" using keep by auto
  have rng1: "\<And>k k'. in_range (dims c) k \<Longrightarrow> eff numeric tr k = Some k' \<Longrightarrow> in_range ds' k'"
    and rng2: "\<And>k k'. in_range (dims c) k \<Longrightarrow> eff strings tr k = Some k' \<Longrightarrow> in_range ds' k'" using rng by blast+
  have n: "store_ok ds' (cells c')"
    "\<And>j v. in_range ds' j \<Longrightarrow> store_get (layout_new ds') (cells c') j = Some v \<longleftrightarrow>
       (\<exists>k. in_range (dims c) k \<and> eff numeric tr k = Some j \<and> store_get (layout_new (dims c)) (cells c) k = Some v)"
    unfolding c' by (rule one_store [OF D(3) wf' len rng1 inj keep1]; assumption)+
  have s: "store_ok ds' (string_cells c')"
    "\<And>j i. in_range ds' j \<Longrightarrow> store_get (layout_new ds') (string_cells c') j = Some i \<longleftrightarrow>
       (\<exists>k. in_range (dims c) k \<and> eff strings tr k = Some j \<and> store_get (layout_new (dims c)) (string_cells c) k = Some i)"
    unfolding c' by (rule one_store [OF D(4) wf' len rng2 inj keep2]; assumption)+
  have "frame_ok c'" using ne wf' n(1) s(1) D(5) by (simp add: frame_ok_def c'(1-4))
  moreover have "moved (eff numeric tr) (eff strings tr) c c'"
    using n(2) s(2) unfolding moved_def num_def str_id_def c'(1-4) D(2) by blast
  ultimately show ?thesis using c'(1) by blast
qed

section \<open>Edits that keep every element kind\<close>

text \<open>\<open>extends ds ds'\<close>: each dimension keeps the elements it had, with their kinds, at the same
  index, and may have gained more.\<close>

definition dim_extends :: "dimension \<Rightarrow> dimension \<Rightarrow> bool" where
  "dim_extends d d' \<longleftrightarrow> length (elements d) \<le> length (elements d') \<and>
     (\<forall>i < length (elements d). kind_at d' i = kind_at d i)"

definition extends :: "dimension list \<Rightarrow> dimension list \<Rightarrow> bool" where
  "extends ds ds' \<longleftrightarrow> list_all2 dim_extends ds ds'"

lemma dim_extends_refl [simp]: "dim_extends d d"
  by (simp add: dim_extends_def)

lemma extends_refl [simp]: "extends ds ds"
  by (simp add: extends_def list_all2_conv_all_nth)

lemma extends_trans: "extends a b \<Longrightarrow> extends b c \<Longrightarrow> extends a c"
  unfolding extends_def by (erule (1) list_all2_trans [rotated -2]) (auto simp: dim_extends_def)

lemma extends_update: "d < length ds \<Longrightarrow> dim_extends (ds ! d) d' \<Longrightarrow> extends ds (ds[d := d'])"
  by (simp add: extends_def list_all2_conv_all_nth nth_list_update)

lemma extends_coord:
  assumes "extends ds ds'" and "in_range ds k"
  shows "in_range ds' k" "leaf_coord ds' k = leaf_coord ds k" "string_coord ds' k = string_coord ds k"
proof -
  have len: "length k = length ds" "length ds' = length ds"
    using assms by (simp_all add: in_range_nth extends_def list_all2_lengthD)
  have each: "k ! d < length (elements (ds' ! d)) \<and> kind_at (ds' ! d) (k ! d) = kind_at (ds ! d) (k ! d)"
    if "d < length ds" for d
    using assms that by (force simp: extends_def list_all2_conv_all_nth dim_extends_def in_range_nth)
  then show "in_range ds' k" "leaf_coord ds' k = leaf_coord ds k" "string_coord ds' k = string_coord ds k"
    using len by (simp_all add: in_range_nth leaf_coord_nth string_coord_nth cong: conj_cong)
qed

lemma relayout_extends:
  assumes wf: "cube_wf c" and wf': "list_all dim_wf ds'" and ext: "extends (dims c) ds'"
  shows "cube_wf (relayout (c\<lparr>dims := ds'\<rparr>)) \<and> moved Some Some c (relayout (c\<lparr>dims := ds'\<rparr>)) \<and>
     dims (relayout (c\<lparr>dims := ds'\<rparr>)) = ds'"
proof -
  have len: "length ds' = length (dims c)" using ext by (simp add: extends_def list_all2_lengthD)
  define on where "on \<longleftrightarrow> layout_new ds' \<noteq> layout_new (dims c)"
  let ?c = "rebuild_stores (layout_new ds') on on Some (c\<lparr>dims := ds'\<rparr>)"
  have eq: "relayout (c\<lparr>dims := ds'\<rparr>) = ?c"
    using cube_wf_D(2) [OF wf] by (simp add: relayout_def on_def rebuild_stores_def Let_def)
  have eff: "eff b Some = Some" for b by (simp add: eff_def)
  have fr: "frame_ok ?c \<and> moved (eff on Some) (eff on Some) c ?c \<and> dims ?c = ds'"
  proof (rule rebuild_stores_frame [OF wf wf' len])
    show "\<not> on \<or> \<not> on \<Longrightarrow> layout_new ds' = layout_new (dims c)" by (simp add: on_def)
  qed (use extends_coord(1) [OF ext] in \<open>auto simp: eff\<close>)
  then have mv: "frame_ok ?c" "moved Some Some c ?c" "dims ?c = ds'" by (simp_all add: eff)
  have "cube_wf ?c"
    by (rule moved_wf [OF wf mv(2,1)]) (use extends_coord [OF ext] in \<open>simp_all add: mv(3)\<close>)
  with mv eq show ?thesis by simp
qed

section \<open>Edits of one dimension that keep its size\<close>

lemma dim_index_bound: "dimension_index c name = Inr d \<Longrightarrow> d < length (dims c) \<and> dim_name (dims c ! d) = name"
  by (auto simp: dimension_index_def dest: position_SomeD)

lemma element_of_bound:
  assumes "dim_wf dim" and "element_of dname dim name = Inr i"
  shows "i < length (elements dim)" "el_name (elements dim ! i) = name"
  using assms index_of_Some [OF assms(1), of name i] by (simp_all add: element_of_def)

lemma wf_update: "list_all dim_wf ds \<Longrightarrow> dim_wf d' \<Longrightarrow> list_all dim_wf (ds[d := d'])"
  by (auto simp: list_all_iff dest!: set_update_subset_insert [THEN subsetD])

lemma wf_nth: "cube_wf c \<Longrightarrow> d < length (dims c) \<Longrightarrow> dim_wf (dims c ! d)"
  using cube_wf_D(1) [of c] by (simp add: list_all_length)

lemma layout_same_size:
  assumes "dim_wf (ds ! d)" and "dim_wf d'" and "length (elements d') = length (elements (ds ! d))"
  shows "layout_new (ds[d := d']) = layout_new ds"
proof -
  have "map dim_len (ds[d := d']) = map dim_len ds"
    using dim_wf_shape(4) [OF assms(1)] dim_wf_shape(4) [OF assms(2)] assms(3)
    by (metis list_update_id map_update)
  then show ?thesis by (simp add: layout_new_def)
qed

lemma in_range_same_size:
  assumes "length (elements d') = length (elements (ds ! d))"
  shows "in_range (ds[d := d']) k = in_range ds k"
  using assms by (cases "d < length ds") (auto simp: in_range_nth nth_list_update)

text \<open>Keeping only the cells that satisfy a predicate, in the stores that are selected.\<close>

definition keeps :: "bool \<Rightarrow> (coord \<Rightarrow> bool) \<Rightarrow> coord \<Rightarrow> coord option" where
  "keeps on P = eff on (\<lambda>k. if P k then Some k else None)"

lemma keeps_Some [simp]: "keeps on P k = Some k' \<longleftrightarrow> k' = k \<and> (on \<longrightarrow> P k)"
  by (auto simp: keeps_def eff_def)

lemma filter_wf:
  assumes wf: "cube_wf c" and d: "d < length (dims c)" and wf': "dim_wf d'"
    and len: "length (elements d') = length (elements (dims c ! d))"
    and leafs: "\<And>k. in_range (dims c) k \<Longrightarrow> leaf_coord (dims c) k \<Longrightarrow> numeric \<longrightarrow> P k \<Longrightarrow>
       leaf_coord ((dims c)[d := d']) k"
    and strs: "\<And>k. in_range (dims c) k \<Longrightarrow> string_coord (dims c) k \<Longrightarrow> strings \<longrightarrow> P k \<Longrightarrow>
       string_coord ((dims c)[d := d']) k"
  defines "c' \<equiv> rebuild_stores (lay c) numeric strings (\<lambda>k. if P k then Some k else None) (put_dim d d' c)"
  shows "cube_wf c' \<and> moved (keeps numeric P) (keeps strings P) c c' \<and> dims c' = (dims c)[d := d']"
proof -
  let ?ds = "(dims c)[d := d']"
  have same: "layout_new ?ds = layout_new (dims c)" using wf_nth [OF wf d] wf' len by (rule layout_same_size)
  have c': "c' = rebuild_stores (layout_new ?ds) numeric strings (\<lambda>k. if P k then Some k else None) (c\<lparr>dims := ?ds\<rparr>)"
    using cube_wf_D(2) [OF wf] by (simp add: c'_def put_dim_def same)
  have fr: "frame_ok c' \<and> moved (keeps numeric P) (keeps strings P) c c' \<and> dims c' = ?ds"
    unfolding c' keeps_def
  proof (rule rebuild_stores_frame [OF wf wf_update [OF cube_wf_D(1) [OF wf] wf']])
    show "length ?ds = length (dims c)" by simp
    show "in_range ?ds k'" if "in_range (dims c) k" "eff on (\<lambda>k. if P k then Some k else None) k = Some k'" for on k k'
      using that in_range_same_size [OF len, of k] by (auto simp: eff_def split: if_splits)
  qed (auto simp: same split: if_splits)
  moreover have "cube_wf c'"
  proof (rule moved_wf [OF wf, of "keeps numeric P" "keeps strings P"])
    show "moved (keeps numeric P) (keeps strings P) c c'" "frame_ok c'" using fr by blast+
  qed (use fr leafs strs in auto)
  ultimately show ?thesis by blast
qed

lemma put_dim_wf:
  assumes "cube_wf c" and "d < length (dims c)" and "dim_wf d'"
    and "length (elements d') = length (elements (dims c ! d))"
    and "\<And>k. in_range (dims c) k \<Longrightarrow> leaf_coord (dims c) k \<Longrightarrow> leaf_coord ((dims c)[d := d']) k"
    and "\<And>k. in_range (dims c) k \<Longrightarrow> string_coord (dims c) k \<Longrightarrow> string_coord ((dims c)[d := d']) k"
  shows "cube_wf (put_dim d d' c) \<and> moved Some Some c (put_dim d d' c)"
proof -
  have eq: "rebuild_stores (lay c) False False (\<lambda>k. if True then Some k else None) (put_dim d d' c) = put_dim d d' c"
    by (simp add: rebuild_stores_def put_dim_def)
  have keep: "keeps False P = Some" for P by (simp add: keeps_def eff_def)
  show ?thesis
    using filter_wf [of c d d' False "\<lambda>_. True" False, unfolded eq keep] assms by blast
qed

text \<open>The same kinds at the same indices.\<close>

definition same_kinds :: "dimension \<Rightarrow> dimension \<Rightarrow> bool" where
  "same_kinds d d' \<longleftrightarrow> length (elements d') = length (elements d) \<and> dim_extends d d'"

lemma put_dim_same_kinds:
  assumes "cube_wf c" and "d < length (dims c)" and "dim_wf d'" and "same_kinds (dims c ! d) d'"
  shows "cube_wf (put_dim d d' c) \<and> moved Some Some c (put_dim d d' c)"
proof -
  have ext: "extends (dims c) ((dims c)[d := d'])"
    using assms(2,4) by (simp add: extends_update same_kinds_def)
  show ?thesis
    by (rule put_dim_wf) (use assms extends_coord [OF ext] in \<open>simp_all add: same_kinds_def\<close>)
qed

end
