(* ===== verification/Cube_Edit_Ops.thy ===== *)
theory Cube_Edit_Ops
  imports Cube_Edit_Wf
begin

text \<open>
  Each structural edit of a cube: it keeps the cube well-formed, and its effect on the cells is
  either a renaming (reorder, insert, delete) or the removal of exactly the cells that the new
  element kinds no longer allow (convert, reparent, add child). The \<open>revalidated\<close> contract
  states the latter.
\<close>

lemma moved_cong:
  assumes wf: "cube_wf c" and mv: "moved tn ts c c'"
    and n: "\<And>k. in_range (dims c) k \<Longrightarrow> leaf_coord (dims c) k \<Longrightarrow> tn k = tn' k"
    and s: "\<And>k. in_range (dims c) k \<Longrightarrow> string_coord (dims c) k \<Longrightarrow> ts k = ts' k"
  shows "moved tn' ts' c c'"
proof -
  have nl: "leaf_coord (dims c) k" if "in_range (dims c) k" "num c k = Some v" for k v
    using wf that by (simp add: cube_wf_def num_ok_def)
  have sl: "string_coord (dims c) k" if "in_range (dims c) k" "str_id c k = Some i" for k i
    using wf that by (simp add: cube_wf_def str_ok_def)
  have "(\<exists>k. in_range (dims c) k \<and> tn k = Some j \<and> num c k = Some v) \<longleftrightarrow>
        (\<exists>k. in_range (dims c) k \<and> tn' k = Some j \<and> num c k = Some v)" for j v
    using n nl by metis
  moreover have "(\<exists>k. in_range (dims c) k \<and> ts k = Some j \<and> str_id c k = Some i) \<longleftrightarrow>
        (\<exists>k. in_range (dims c) k \<and> ts' k = Some j \<and> str_id c k = Some i)" for j i
    using s sl by metis
  ultimately show ?thesis using mv by (simp add: moved_def)
qed

definition revalidated :: "cube \<Rightarrow> cube \<Rightarrow> bool" where
  "revalidated c c' \<longleftrightarrow> cube_wf c' \<and>
     moved (keeps True (leaf_coord (dims c'))) (keeps True (string_coord (dims c'))) c c'"

text \<open>One element of one dimension changes its kind.\<close>

definition kind_set :: "nat \<Rightarrow> element_kind \<Rightarrow> dimension \<Rightarrow> dimension \<Rightarrow> bool" where
  "kind_set e kind d d' \<longleftrightarrow> length (elements d') = length (elements d) \<and>
     (\<forall>j < length (elements d). kind_at d' j = (if j = e then kind else kind_at d j))"

lemma kind_set_coord:
  assumes "kind_set e kind (ds ! d) d'" and "d < length ds" and "in_range ds k"
  shows "leaf_coord (ds[d := d']) k \<longleftrightarrow>
      (\<forall>x < length ds. x \<noteq> d \<longrightarrow> kind_at (ds ! x) (k ! x) = Leaf) \<and>
      (if k ! d = e then kind else kind_at (ds ! d) (k ! d)) = Leaf"
    "string_coord (ds[d := d']) k \<longleftrightarrow>
      (\<forall>x < length ds. x \<noteq> d \<longrightarrow> kind_at (ds ! x) (k ! x) \<noteq> Consolidated) \<and>
      (if k ! d = e then kind else kind_at (ds ! d) (k ! d)) \<noteq> Consolidated \<and>
      ((\<exists>x < length ds. x \<noteq> d \<and> kind_at (ds ! x) (k ! x) = Str) \<or>
       (if k ! d = e then kind else kind_at (ds ! d) (k ! d)) = Str)"
proof -
  have len: "length k = length ds" using assms(3) by (simp add: in_range_nth)
  have "k ! d < length (elements (ds ! d))" using assms(2,3) by (simp add: in_range_nth)
  then have at: "kind_at d' (k ! d) = (if k ! d = e then kind else kind_at (ds ! d) (k ! d))"
    using assms(1) by (simp add: kind_set_def)
  have all: "(\<forall>x < length ds. Q (ds[d := d'] ! x) (k ! x)) \<longleftrightarrow>
      (\<forall>x < length ds. x \<noteq> d \<longrightarrow> Q (ds ! x) (k ! x)) \<and> Q d' (k ! d)" for Q
    using assms(2) by (metis nth_list_update_eq nth_list_update_neq)
  have ex: "(\<exists>x < length ds. Q (ds[d := d'] ! x) (k ! x)) \<longleftrightarrow>
      (\<exists>x < length ds. x \<noteq> d \<and> Q (ds ! x) (k ! x)) \<or> Q d' (k ! d)" for Q
    using all [of "\<lambda>a b. \<not> Q a b"] by blast
  show "leaf_coord (ds[d := d']) k \<longleftrightarrow>
      (\<forall>x < length ds. x \<noteq> d \<longrightarrow> kind_at (ds ! x) (k ! x) = Leaf) \<and>
      (if k ! d = e then kind else kind_at (ds ! d) (k ! d)) = Leaf"
    using leaf_coord_nth [of k "ds[d := d']"] len all [of "\<lambda>a b. kind_at a b = Leaf"] by (simp add: at)
  show "string_coord (ds[d := d']) k \<longleftrightarrow>
      (\<forall>x < length ds. x \<noteq> d \<longrightarrow> kind_at (ds ! x) (k ! x) \<noteq> Consolidated) \<and>
      (if k ! d = e then kind else kind_at (ds ! d) (k ! d)) \<noteq> Consolidated \<and>
      ((\<exists>x < length ds. x \<noteq> d \<and> kind_at (ds ! x) (k ! x) = Str) \<or>
       (if k ! d = e then kind else kind_at (ds ! d) (k ! d)) = Str)"
    using string_coord_nth [of k "ds[d := d']"] len all [of "\<lambda>a b. kind_at a b \<noteq> Consolidated"]
      ex [of "\<lambda>a b. kind_at a b = Str"] by (simp add: at)
qed

text \<open>The kinds of the edited coordinate before the edit, in the same form.\<close>

lemma split_coord:
  assumes "d < length ds" and "in_range ds k"
  shows "leaf_coord ds k \<longleftrightarrow>
      (\<forall>x < length ds. x \<noteq> d \<longrightarrow> kind_at (ds ! x) (k ! x) = Leaf) \<and> kind_at (ds ! d) (k ! d) = Leaf"
    "string_coord ds k \<longleftrightarrow>
      (\<forall>x < length ds. x \<noteq> d \<longrightarrow> kind_at (ds ! x) (k ! x) \<noteq> Consolidated) \<and>
      kind_at (ds ! d) (k ! d) \<noteq> Consolidated \<and>
      ((\<exists>x < length ds. x \<noteq> d \<and> kind_at (ds ! x) (k ! x) = Str) \<or> kind_at (ds ! d) (k ! d) = Str)"
proof -
  have "kind_set e (kind_at (ds ! d) e) (ds ! d) (ds ! d)" for e by (simp add: kind_set_def)
  from kind_set_coord [OF this assms, of "k ! d"]
  show "leaf_coord ds k \<longleftrightarrow>
      (\<forall>x < length ds. x \<noteq> d \<longrightarrow> kind_at (ds ! x) (k ! x) = Leaf) \<and> kind_at (ds ! d) (k ! d) = Leaf"
    "string_coord ds k \<longleftrightarrow>
      (\<forall>x < length ds. x \<noteq> d \<longrightarrow> kind_at (ds ! x) (k ! x) \<noteq> Consolidated) \<and>
      kind_at (ds ! d) (k ! d) \<noteq> Consolidated \<and>
      ((\<exists>x < length ds. x \<noteq> d \<and> kind_at (ds ! x) (k ! x) = Str) \<or> kind_at (ds ! d) (k ! d) = Str)"
    by simp_all
qed

lemma filter_revalidated:
  assumes wf: "cube_wf c" and d: "d < length (dims c)" and wf': "dim_wf d'"
    and ks: "kind_set e kind (dims c ! d) d'"
    and exactn: "\<And>k. in_range (dims c) k \<Longrightarrow> leaf_coord (dims c) k \<Longrightarrow>
        leaf_coord ((dims c)[d := d']) k \<longleftrightarrow> (numeric \<longrightarrow> P k)"
    and exacts: "\<And>k. in_range (dims c) k \<Longrightarrow> string_coord (dims c) k \<Longrightarrow>
        string_coord ((dims c)[d := d']) k \<longleftrightarrow> (strings \<longrightarrow> P k)"
  shows "revalidated c (rebuild_stores (lay c) numeric strings (\<lambda>k. if P k then Some k else None) (put_dim d d' c))"
proof -
  let ?c = "rebuild_stores (lay c) numeric strings (\<lambda>k. if P k then Some k else None) (put_dim d d' c)"
  have f: "cube_wf ?c \<and> moved (keeps numeric P) (keeps strings P) c ?c \<and> dims ?c = (dims c)[d := d']"
    by (rule filter_wf [OF wf d wf']) (use ks exactn exacts in \<open>simp_all add: kind_set_def\<close>)
  have "moved (keeps True (leaf_coord (dims ?c))) (keeps True (string_coord (dims ?c))) c ?c"
  proof (rule moved_cong [OF wf, of "keeps numeric P" "keeps strings P"])
    show "moved (keeps numeric P) (keeps strings P) c ?c" using f by blast
  qed (use f exactn exacts in \<open>auto simp: keeps_def eff_def\<close>)
  with f show ?thesis by (simp add: revalidated_def)
qed

lemma drop_revalidated:
  assumes "cube_wf c" and "d < length (dims c)" and "dim_wf d'"
    and ks: "kind_set e kind (dims c ! d) d'"
    and "kind_at (dims c ! d) e = Leaf \<and> kind = Str \<and> numeric \<and> \<not> strings \<or>
         kind = Consolidated \<and> numeric \<and> strings"
  shows "revalidated c (drop_cells_for_element d e numeric strings (put_dim d d' c))"
proof -
  have "revalidated c (rebuild_stores (lay c) numeric strings
      (\<lambda>k. if k ! d \<noteq> e then Some k else None) (put_dim d d' c))"
  proof (rule filter_revalidated [OF assms(1-3) ks])
    fix k assume k: "in_range (dims c) k"
    note new = kind_set_coord [OF ks assms(2) k] and old = split_coord [OF assms(2) k]
    show "leaf_coord ((dims c)[d := d']) k \<longleftrightarrow> (numeric \<longrightarrow> k ! d \<noteq> e)" if "leaf_coord (dims c) k"
      using that assms(5) unfolding new old by (cases "k ! d = e") auto
    show "string_coord ((dims c)[d := d']) k \<longleftrightarrow> (strings \<longrightarrow> k ! d \<noteq> e)" if "string_coord (dims c) k"
      using that assms(5) unfolding new old by (cases "k ! d = e") auto
  qed
  then show ?thesis by (simp add: drop_cells_for_element_def put_dim_def)
qed

lemma sole_flag:
  assumes "in_range ds k"
  shows "list_ex (\<lambda>(d2, idx). d2 \<noteq> d \<and> map (\<lambda>dim. map (\<lambda>el. el_kind el = Str) (elements dim)) ds ! d2 ! idx)
       (List.enumerate 0 k) \<longleftrightarrow> (\<exists>x < length ds. x \<noteq> d \<and> kind_at (ds ! x) (k ! x) = Str)"
proof -
  have "list_ex (\<lambda>(d2, idx). Q d2 idx) (List.enumerate 0 k) \<longleftrightarrow> (\<exists>x < length k. Q x (k ! x))" for Q
    by (auto simp: list_ex_iff in_set_enumerate_eq)
  then show ?thesis using assms by (auto simp: in_range_nth kind_at_def)
qed

lemma drop_sole_revalidated:
  assumes "cube_wf c" and d: "d < length (dims c)" and "dim_wf d'"
    and ks: "kind_set e Leaf (dims c ! d) d'" and "kind_at (dims c ! d) e = Str"
  shows "revalidated c (drop_sole_string_cells d e (put_dim d d' c))"
proof -
  let ?P = "\<lambda>k. k ! d \<noteq> e \<or> list_ex (\<lambda>(d2, idx). d2 \<noteq> d \<and>
      map (\<lambda>dim. map (\<lambda>el. el_kind el = Str) (elements dim)) ((dims c)[d := d']) ! d2 ! idx) (List.enumerate 0 k)"
  have "revalidated c (rebuild_stores (lay c) False True (\<lambda>k. if ?P k then Some k else None) (put_dim d d' c))"
  proof (rule filter_revalidated [OF assms(1-3) ks])
    fix k assume k: "in_range (dims c) k"
    then have k': "in_range ((dims c)[d := d']) k"
      using in_range_same_size ks by (simp add: kind_set_def)
    note new = kind_set_coord [OF ks d k] and old = split_coord [OF d k]
    have flag: "?P k \<longleftrightarrow> k ! d \<noteq> e \<or> (\<exists>x < length (dims c). x \<noteq> d \<and> kind_at (dims c ! x) (k ! x) = Str)"
      unfolding sole_flag [OF k'] by (auto simp: nth_list_update)
    show "leaf_coord ((dims c)[d := d']) k \<longleftrightarrow> (False \<longrightarrow> ?P k)" if "leaf_coord (dims c) k"
      using that assms(5) unfolding new old by auto
    show "string_coord ((dims c)[d := d']) k \<longleftrightarrow> (True \<longrightarrow> ?P k)" if "string_coord (dims c) k"
      using that assms(5) unfolding new old flag by auto
  qed
  then show ?thesis by (simp add: drop_sole_string_cells_def put_dim_def)
qed

lemma put_dim_revalidated:
  assumes "cube_wf c" and d: "d < length (dims c)" and "dim_wf d'"
    and ks: "kind_set e kind (dims c ! d) d'"
    and "kind_at (dims c ! d) e = Consolidated \<or> kind_at (dims c ! d) e = kind"
  shows "revalidated c (put_dim d d' c)"
proof -
  have "revalidated c (rebuild_stores (lay c) False False (\<lambda>k. if True then Some k else None) (put_dim d d' c))"
  proof (rule filter_revalidated [OF assms(1-3) ks])
    fix k assume k: "in_range (dims c) k"
    note new = kind_set_coord [OF ks d k] and old = split_coord [OF d k]
    show "leaf_coord ((dims c)[d := d']) k \<longleftrightarrow> (False \<longrightarrow> True)" if "leaf_coord (dims c) k"
      using that assms(5) unfolding new old by (cases "k ! d = e") auto
    show "string_coord ((dims c)[d := d']) k \<longleftrightarrow> (False \<longrightarrow> True)" if "string_coord (dims c) k"
      using that assms(5) unfolding new old by (cases "k ! d = e") auto
  qed
  moreover have "rebuild_stores (lay c) False False (\<lambda>k. if True then Some k else None) (put_dim d d' c) = put_dim d d' c"
    by (simp add: rebuild_stores_def put_dim_def)
  ultimately show ?thesis by simp
qed

section \<open>Conversions, parents and children\<close>

lemma set_kind_kinds:
  assumes "set_kind i kind d = Inr (prev, d')"
  shows "kind_set i kind d d' \<and> prev = kind_at d i \<and> i < length (elements d)"
  using assms by (auto simp: set_kind_def kind_set_def kind_at_def nth_list_update split: if_splits)

lemma same_kinds_revalidated:
  assumes "cube_wf c" and "d < length (dims c)" and "dim_wf d'" and "same_kinds (dims c ! d) d'"
  shows "revalidated c (put_dim d d' c)"
proof -
  have "kind_set e (kind_at (dims c ! d) e) (dims c ! d) d'" for e
    using assms(4) by (simp add: kind_set_def same_kinds_def dim_extends_def)
  from put_dim_revalidated [OF assms(1-3) this] show ?thesis by blast
qed

theorem set_element_kind_revalidates:
  assumes "cube_wf c" and "set_element_kind dimension name kind c = Inr c'"
  shows "revalidated c c'"
proof -
  obtain d i prev d' where d: "dimension_index c dimension = Inr d"
    and i: "element_of dimension (dims c ! d) name = Inr i"
    and s: "set_kind i kind (dims c ! d) = Inr (prev, d')"
    and c': "c' = retype_cells_for_kind d i prev kind (put_dim d d' c)"
    using assms(2) by (auto simp: set_element_kind_def)
  have dl: "d < length (dims c)" using dim_index_bound [OF d] by simp
  have wf': "dim_wf d'" using set_kind_wf [OF wf_nth [OF assms(1) dl] s] .
  have k: "kind_set i kind (dims c ! d) d'" "prev = kind_at (dims c ! d) i" using set_kind_kinds [OF s] by simp_all
  note put = put_dim_revalidated [OF assms(1) dl wf' k(1)]
    and drp = drop_revalidated [OF assms(1) dl wf' k(1)]
  show ?thesis
    unfolding c' retype_cells_for_kind_def
    using put drp drop_sole_revalidated [OF assms(1) dl wf', of i] k
    by (cases prev; cases kind) auto
qed

lemma reparent_kinds:
  assumes "reparent ch parent w d = Inr d'" and "edges_in_range d"
  shows "case parent of None \<Rightarrow> same_kinds d d' | Some p \<Rightarrow> p < length (elements d) \<and> kind_set p Consolidated d d'"
proof (cases parent)
  case None
  then show ?thesis using assms(1)
    by (auto simp: reparent_def detach_child_def same_kinds_def dim_extends_def kind_at_def)
next
  case (Some p)
  then show ?thesis using assms(1)
    by (auto simp: reparent_def detach_child_def push_edge_def promote_def kind_set_def kind_at_def
        nth_list_update split: if_splits)
qed

theorem reparent_element_revalidates:
  assumes "cube_wf c" and "in_i64 weight" and "reparent_element dimension child new_parent weight c = Inr c'"
  shows "revalidated c c'"
proof -
  obtain d ch parent was d' where d: "dimension_index c dimension = Inr d"
    and was: "(case parent of Some p \<Rightarrow> bindE (get_element (dims c ! d) p) (\<lambda>el. Inr (is_leaf (el_kind el)))
              | None \<Rightarrow> Inr False) = Inr was"
    and r: "reparent ch parent weight (dims c ! d) = Inr d'"
    and c': "c' = (if was then (case parent of Some p \<Rightarrow> drop_cells_for_element d p True True (put_dim d d' c)
                     | None \<Rightarrow> put_dim d d' c) else put_dim d d' c)"
    using assms(3) by (auto simp: reparent_element_def Let_def)
  have dl: "d < length (dims c)" using dim_index_bound [OF d] by simp
  note wd = wf_nth [OF assms(1) dl]
  have wf': "dim_wf d'" using reparent_wf [OF wd assms(2) r] .
  note rk = reparent_kinds [OF r dim_wf_graph(1) [OF wd]]
  show ?thesis
  proof (cases parent)
    case None
    then show ?thesis using c' same_kinds_revalidated [OF assms(1) dl wf'] rk by simp
  next
    case (Some p)
    then have ks: "kind_set p Consolidated (dims c ! d) d'" using rk by simp
    show ?thesis
    proof (cases was)
      case True
      then show ?thesis using c' Some drop_revalidated [OF assms(1) dl wf' ks] by simp
    next
      case False
      then have "kind_at (dims c ! d) p = Consolidated"
        using was Some by (cases "el_kind (elements (dims c ! d) ! p)") (auto simp: is_leaf_def kind_at_def)
      then show ?thesis using c' False put_dim_revalidated [OF assms(1) dl wf' ks] by simp
    qed
  qed
qed

lemma push_edge_kinds [simp]: "kind_at (push_edge p e d) = kind_at d" "elements (push_edge p e d) = elements d"
  by (simp_all add: fun_eq_iff kind_at_def push_edge_def)

lemma add_child_kinds: "add_child p ch w d = Inr d' \<Longrightarrow> same_kinds d d' \<and> kind_at d p = Consolidated \<and>
    p < length (elements d)"
  by (auto simp: add_child_def Let_def same_kinds_def dim_extends_def kind_at_def split: if_splits)

lemma add_child_element_cases:
  assumes "add_child_element dimension parent child weight c = Inr c'"
  obtains d where "dimension_index c dimension = Inr d" "c' = c"
  | d p ch prev dim1 dim2 where "dimension_index c dimension = Inr d"
    "set_kind p Consolidated (dims c ! d) = Inr (prev, dim1)" "add_child p ch weight dim1 = Inr dim2"
    "c' = drop_cells_for_element d p True True (put_dim d dim2 c)"
    "element_of dimension (dims c ! d) parent = Inr p" "is_leaf (el_kind (elements (dims c ! d) ! p))"
  | d p ch dim2 where "dimension_index c dimension = Inr d"
    "add_child p ch weight (dims c ! d) = Inr dim2" "c' = put_dim d dim2 c"
proof -
  obtain d where d: "dimension_index c dimension = Inr d"
    using assms by (auto simp: add_child_element_def)
  obtain p where p: "element_of dimension (dims c ! d) parent = Inr p"
    using assms by (auto simp: add_child_element_def d Let_def)
  obtain ch where ch: "element_of dimension (dims c ! d) child = Inr ch"
    using assms by (auto simp: add_child_element_def d p Let_def)
  obtain kids where kids: "children_of (dims c ! d) p = Inr kids"
    using assms by (auto simp: add_child_element_def d p ch Let_def)
  note eq = assms [unfolded add_child_element_def d p ch bindE.simps Let_def kids]
  show thesis
  proof (cases "ch \<in> set kids")
    case True
    with eq d show thesis by (intro that(1)) auto
  next
    case out: False
    show thesis
    proof (cases "is_leaf (el_kind (elements (dims c ! d) ! p))")
      case True
      with eq out obtain prev dim1 dim2 where "set_kind p Consolidated (dims c ! d) = Inr (prev, dim1)"
        "add_child p ch weight dim1 = Inr dim2" "c' = drop_cells_for_element d p True True (put_dim d dim2 c)"
        by auto
      with d p True show thesis by (intro that(2))
    next
      case False
      with eq out obtain dim2 where "add_child p ch weight (dims c ! d) = Inr dim2" "c' = put_dim d dim2 c"
        by auto
      with d show thesis by (rule that(3))
    qed
  qed
qed

theorem add_child_element_revalidates:
  assumes "cube_wf c" and "in_i64 weight" and "add_child_element dimension parent child weight c = Inr c'"
  shows "revalidated c c'"
  using assms(3)
proof (cases rule: add_child_element_cases)
  case (1 d)
  have dl: "d < length (dims c)" using dim_index_bound [OF 1(1)] by simp
  have "put_dim d (dims c ! d) c = c" by (simp add: put_dim_def)
  with 1 same_kinds_revalidated [OF assms(1) dl wf_nth [OF assms(1) dl]] show ?thesis
    by (simp add: same_kinds_def)
next
  case (2 d p ch prev dim1 dim2)
  have dl: "d < length (dims c)" using dim_index_bound [OF 2(1)] by simp
  have wf2: "dim_wf dim2"
    using add_child_wf [OF set_kind_wf [OF wf_nth [OF assms(1) dl] 2(2)] assms(2) 2(3)] .
  have "kind_set p Consolidated (dims c ! d) dim2"
    using set_kind_kinds [OF 2(2)] add_child_kinds [OF 2(3)] by (simp add: kind_set_def same_kinds_def dim_extends_def)
  from drop_revalidated [OF assms(1) dl wf2 this] show ?thesis by (simp add: 2(4))
next
  case (3 d p ch dim2)
  have dl: "d < length (dims c)" using dim_index_bound [OF 3(1)] by simp
  have wf2: "dim_wf dim2" using add_child_wf [OF wf_nth [OF assms(1) dl] assms(2) 3(2)] .
  from same_kinds_revalidated [OF assms(1) dl wf2] add_child_kinds [OF 3(2)] show ?thesis by (simp add: 3(3))
qed

theorem remove_child_element_revalidates:
  assumes "cube_wf c" and "remove_child_element dimension parent child c = Inr c'"
  shows "revalidated c c'"
proof -
  obtain d p ch d' where d: "dimension_index c dimension = Inr d"
    and r: "remove_child p ch (dims c ! d) = Inr d'" and c': "c' = put_dim d d' c"
    using assms(2) by (auto simp: remove_child_element_def Let_def)
  have dl: "d < length (dims c)" using dim_index_bound [OF d] by simp
  have "same_kinds (dims c ! d) d'" using r by (auto simp: remove_child_def same_kinds_def dim_extends_def kind_at_def)
  with same_kinds_revalidated [OF assms(1) dl remove_child_wf [OF wf_nth [OF assms(1) dl] r]] show ?thesis
    by (simp add: c')
qed

lemma pin_revalidates:
  assumes "cube_wf c" and "dimension_index c dimension = Inr d"
    and "set_pinned b i (dims c ! d) = Inr d'"
  shows "revalidated c (put_dim d d' c)"
proof -
  have dl: "d < length (dims c)" using dim_index_bound [OF assms(2)] by simp
  have "same_kinds (dims c ! d) d'"
    using assms(3) by (auto simp: set_pinned_def same_kinds_def dim_extends_def kind_at_def nth_list_update)
  with same_kinds_revalidated [OF assms(1) dl set_pinned_wf [OF wf_nth [OF assms(1) dl] assms(3)]] show ?thesis by simp
qed

theorem pin_element_revalidates:
  assumes "cube_wf c" and "pin_element_to_top dimension name c = Inr c' \<or> unpin_element_from_top dimension name c = Inr c'"
  shows "revalidated c c'"
  using assms pin_revalidates [OF assms(1)]
  by (auto simp: pin_element_to_top_def unpin_element_from_top_def pin_to_top_def unpin_from_top_def)

section \<open>Reorder, delete, insert\<close>

definition rename_coord :: "nat \<Rightarrow> nat list \<Rightarrow> coord \<Rightarrow> coord option" where
  "rename_coord d to_new coord =
     (if surv to_new (coord ! d) then Some (coord[d := to_new ! (coord ! d)]) else None)"

lemma remap_transform:
  "(\<lambda>coord. let mapped = to_new ! (coord ! d)
            in if mapped = u32_max then None else Some (coord[d := mapped])) = rename_coord d to_new"
  by (simp add: fun_eq_iff rename_coord_def surv_def Let_def)

lemma list_update_inj:
  assumes "a[d := x] = b[d := y]" and "length a = length b" and "d < length a" and "a ! d = b ! d"
  shows "a = b"
proof (rule nth_equalityI)
  fix i assume "i < length a"
  then show "a ! i = b ! i" using assms by (metis nth_list_update_neq)
qed (use assms(2) in simp)

theorem remap_moves:
  assumes wf: "cube_wf c" and d: "d < length (dims c)" and ren: "dim_renames to_new (dims c ! d) d'"
  defines "c' \<equiv> remap_cells_for_dimension d to_new (put_dim d d' c)"
  shows "cube_wf c' \<and> moved (rename_coord d to_new) (rename_coord d to_new) c c' \<and> dims c' = (dims c)[d := d']"
proof -
  let ?ds = "(dims c)[d := d']"
  have core: "rename_core to_new (dims c ! d) d'" and wf': "dim_wf d'" using ren by (simp_all add: dim_renames_def)
  have c': "c' = rebuild_stores (layout_new ?ds) True True (rename_coord d to_new) (c\<lparr>dims := ?ds\<rparr>)"
    by (simp add: c'_def remap_cells_for_dimension_def put_dim_def remap_transform)
  have each: "in_range ?ds k' \<and> kind_at (?ds ! d) (k' ! d) = kind_at (dims c ! d) (k ! d) \<and>
      (\<forall>x < length (dims c). x \<noteq> d \<longrightarrow> k' ! x = k ! x) \<and> length k' = length (dims c)"
    if "in_range (dims c) k" "rename_coord d to_new k = Some k'" for k k'
  proof -
    have i: "k ! d < length (elements (dims c ! d))" "surv to_new (k ! d)" "k' = k[d := to_new ! (k ! d)]"
      using that d by (auto simp: in_range_nth rename_coord_def split: if_splits)
    show ?thesis
      using rename_core_D(1,2) [OF core i(1,2)] that(1) d
      by (auto simp: in_range_nth kind_at_def i(3) nth_list_update)
  qed
  have fr: "frame_ok c' \<and> moved (eff True (rename_coord d to_new)) (eff True (rename_coord d to_new)) c c' \<and> dims c' = ?ds"
    unfolding c'
  proof (rule rebuild_stores_frame [OF wf wf_update [OF cube_wf_D(1) [OF wf] wf']])
    fix a b x assume ab: "in_range (dims c) a" "in_range (dims c) b"
      "rename_coord d to_new a = Some x" "rename_coord d to_new b = Some x"
    then have len: "length a = length b" "d < length a" using d by (simp_all add: in_range_nth)
    have sv: "surv to_new (a ! d)" "a[d := to_new ! (a ! d)] = b[d := to_new ! (b ! d)]"
      using ab(3,4) by (auto simp: rename_coord_def split: if_splits)
    then have "to_new ! (a ! d) = to_new ! (b ! d)" using len by (metis nth_list_update_eq)
    moreover have "a ! d < length (elements (dims c ! d))" "b ! d < length (elements (dims c ! d))"
      using ab(1,2) d by (simp_all add: in_range_nth)
    ultimately have "a ! d = b ! d" using rename_core_inj [OF core] sv(1) by blast
    with list_update_inj [OF sv(2) len] show "a = b" by simp
  qed (use each in \<open>auto simp: eff_def\<close>)
  then have mv: "frame_ok c'" "moved (rename_coord d to_new) (rename_coord d to_new) c c'" "dims c' = ?ds"
    by (simp_all add: eff_def)
  have kinds: "kind_at (?ds ! x) (k' ! x) = kind_at (dims c ! x) (k ! x)"
    if "in_range (dims c) k" "rename_coord d to_new k = Some k'" "x < length (dims c)" for k k' x
    using each [OF that(1,2)] that(3) by (cases "x = d") simp_all
  have "cube_wf c'"
  proof (rule moved_wf [OF wf mv(2,1)])
    fix k k' assume k: "in_range (dims c) k" "rename_coord d to_new k = Some k'"
    have len: "length k = length (dims c)" "length k' = length ?ds" using k(1) each [OF k] by (simp_all add: in_range_nth)
    show "leaf_coord (dims c') k'" if "leaf_coord (dims c) k"
      using that kinds [OF k] len by (simp add: mv(3) leaf_coord_nth)
    show "string_coord (dims c') k'" if "string_coord (dims c) k"
      using that kinds [OF k] len by (auto simp: mv(3) string_coord_nth)
  qed
  with mv show ?thesis by blast
qed

end
