(* ===== verification/Cube_Run.thy ===== *)
theory Cube_Run
  imports Cube_Edit_Ops
begin

text \<open>
  Growth of a schema, the building of a cube from definitions, and the runs of a cube: the step
  relation \<open>cube_step\<close> has one rule for every operation that changes a cube, and every cube
  reachable from a built one is well-formed.
\<close>

section \<open>Growth\<close>

definition room :: "nat \<Rightarrow> dimension list \<Rightarrow> bool" where
  "room n ds \<longleftrightarrow> (\<forall>d \<in> set ds. length (elements d) + n \<le> u32_max)"

lemma roomD: "room n ds \<Longrightarrow> d < length ds \<Longrightarrow> length (elements (ds ! d)) + n \<le> u32_max"
  by (simp add: room_def)

lemma find_dim_bound: "find_dim cname ds name = Inr d \<Longrightarrow> d < length ds"
  by (auto simp: find_dim_def dest: position_SomeD)

lemma add_element_extends: "dim_extends d (snd (add_element n k d))"
  by (auto simp: add_element_def dim_extends_def kind_at_def nth_append Let_def split: option.split)

lemma add_element_len: "length (elements (snd (add_element n k d))) \<le> Suc (length (elements d))"
  by (auto simp: add_element_def Let_def split: option.split)

lemma add_kind: "(case k of Leaf \<Rightarrow> add_leaf n d | Str \<Rightarrow> add_string n d | Consolidated \<Rightarrow> add_consolidated n d)
    = add_element n k d"
  by (cases k) (simp_all add: add_leaf_def add_string_def add_consolidated_def)

lemma grow_elements_wf:
  assumes "list_all dim_wf ds" and "room (length specs) ds" and "grow_elements cname ds n specs = Inr (m, ds')"
  shows "list_all dim_wf ds' \<and> extends ds ds'"
  using assms
proof (induction specs arbitrary: ds n)
  case Nil
  then show ?case by simp
next
  case (Cons spec specs)
  obtain d where d: "find_dim cname ds (es_dimension spec) = Inr d" using Cons.prems(3) by auto
  note dl = find_dim_bound [OF d]
  have r: "room (length specs) ds" using Cons.prems(2) by (auto simp: room_def)
  show ?case
  proof (cases "index_of (ds ! d) (es_name spec)")
    case (Some i)
    then have "grow_elements cname ds n specs = Inr (m, ds')"
      using Cons.prems(3) d by (auto simp: Let_def split: if_splits)
    from Cons.IH [OF Cons.prems(1) r this] show ?thesis .
  next
    case None
    let ?d' = "snd (add_element (es_name spec) (es_kind spec) (ds ! d))"
    have rest: "grow_elements cname (ds[d := ?d']) (n + 1) specs = Inr (m, ds')"
      using Cons.prems(3) d None by (simp add: Let_def add_kind)
    have "length (elements (ds ! d)) < u32_max"
      using roomD [OF Cons.prems(2) dl] by simp
    moreover have "dim_wf (ds ! d)" using Cons.prems(1) dl by (simp add: list_all_length)
    ultimately have wf': "list_all dim_wf (ds[d := ?d'])"
      using Cons.prems(1) by (intro wf_update add_element_wf)
    have "room (length specs) (ds[d := ?d'])"
      unfolding room_def
    proof
      fix x assume "x \<in> set (ds[d := ?d'])"
      then consider "x \<in> set ds" | "x = ?d'" using set_update_subset_insert by fastforce
      then show "length (elements x) + length specs \<le> u32_max"
      proof cases
        case 2
        have "length (elements (ds ! d)) + Suc (length specs) \<le> u32_max"
          using roomD [OF Cons.prems(2) dl] by simp
        then show ?thesis using add_element_len [of "es_name spec" "es_kind spec" "ds ! d"] unfolding 2 by simp
      qed (use r in \<open>simp add: room_def\<close>)
    qed
    from Cons.IH [OF wf' this rest] have "list_all dim_wf ds'" "extends (ds[d := ?d']) ds'" by blast+
    with extends_trans [OF extends_update [OF dl add_element_extends]] show ?thesis by blast
  qed
qed

lemma same_kinds_extends: "same_kinds d d' \<Longrightarrow> dim_extends d d'"
  by (simp add: same_kinds_def)

lemma grow_edges_wf:
  assumes "list_all dim_wf ds" and "\<forall>e \<in> set es. in_i64 (gs_weight e)" and "grow_edges cname ds es = Inr ds'"
  shows "list_all dim_wf ds' \<and> extends ds ds'"
  using assms
proof (induction es arbitrary: ds)
  case Nil
  then show ?case by simp
next
  case (Cons e es)
  obtain d p ch cur where d: "find_dim cname ds (gs_dimension e) = Inr d"
    and cur: "child_weight (ds ! d) p ch = Inr cur"
    and rest: "(case cur of
           Some w \<Rightarrow>
             if w \<noteq> gs_weight e
             then Inl (EdgeWeightConflict (gs_dimension e) (gs_parent e) (gs_child e))
             else grow_edges cname ds es
         | None \<Rightarrow>
             bindE (add_child p ch (gs_weight e) (ds ! d)) (\<lambda>dim'.
               grow_edges cname (ds[d := dim']) es)) = Inr ds'"
    using Cons.prems(3) by (auto simp: Let_def)
  note dl = find_dim_bound [OF d]
  show ?case
  proof (cases cur)
    case (Some w)
    then have "grow_edges cname ds es = Inr ds'" using rest by (auto split: if_splits)
    then show ?thesis using Cons by simp
  next
    case None
    then obtain dim' where a: "add_child p ch (gs_weight e) (ds ! d) = Inr dim'"
      and r: "grow_edges cname (ds[d := dim']) es = Inr ds'" using rest by auto
    have "dim_wf (ds ! d)" using Cons.prems(1) dl by (simp add: list_all_length)
    then have "dim_wf dim'" using add_child_wf [OF _ _ a] Cons.prems(2) by simp
    then have "list_all dim_wf ds' \<and> extends (ds[d := dim']) ds'"
      using Cons.IH [OF wf_update [OF Cons.prems(1)] _ r] Cons.prems(2) by simp
    moreover have "extends ds (ds[d := dim'])"
      using add_child_kinds [OF a] by (intro extends_update [OF dl] same_kinds_extends) simp
    ultimately show ?thesis using extends_trans by blast
  qed
qed

theorem extend_schema_wf:
  assumes "cube_wf c" and "room (length elems) (dims c)" and "\<forall>e \<in> set edges. in_i64 (gs_weight e)"
    and "extend_schema elems edges c = Inr (n, c')"
  shows "cube_wf c' \<and> moved Some Some c c' \<and> extends (dims c) (dims c')"
proof -
  obtain ds1 ds2 where g: "grow_elements (cube_name c) (dims c) 0 elems = Inr (n, ds1)"
    "grow_edges (cube_name c) ds1 edges = Inr ds2" and c': "c' = relayout (c\<lparr>dims := ds2\<rparr>)"
    using assms(4) by (auto simp: extend_schema_def apply_growth_def)
  note w1 = grow_elements_wf [OF cube_wf_D(1) [OF assms(1)] assms(2) g(1)]
  have w2: "list_all dim_wf ds2 \<and> extends ds1 ds2" using grow_edges_wf [OF _ assms(3) g(2)] w1 by blast
  with w1 have "extends (dims c) ds2" using extends_trans by blast
  with relayout_extends [OF assms(1) _ this] w2 show ?thesis by (simp add: c')
qed

section \<open>Attributes\<close>

lemma add_attribute_kinds: "same_kinds d (snd (add_attribute n k d))"
  by (auto simp: add_attribute_def same_kinds_def dim_extends_def kind_at_def Let_def split: option.split)

lemma set_attribute_kinds: "set_attribute e a v d = Inr d' \<Longrightarrow> same_kinds d d'"
  by (auto simp: set_attribute_def same_kinds_def dim_extends_def kind_at_def put_attr_def Let_def
      split: if_splits attribute_kind.splits attribute_value.splits option.splits)

lemma same_kinds_trans: "same_kinds a b \<Longrightarrow> same_kinds b c \<Longrightarrow> same_kinds a c"
  by (auto simp: same_kinds_def dim_extends_def)

lemma define_attribute_wf:
  assumes "cube_wf c" and "\<forall>d \<in> set (dims c). length (attributes d) < u32_max"
    and "define_attribute dimension name kind c = Inr c'"
  shows "revalidated c c'"
proof -
  obtain d where d: "dimension_index c dimension = Inr d" using assms(3) by (auto simp: define_attribute_def)
  have dl: "d < length (dims c)" using dim_index_bound [OF d] by simp
  note wd = wf_nth [OF assms(1) dl]
  show ?thesis
  proof (cases "attribute_index (dims c ! d) name")
    case (Some i)
    then have "c' = put_dim d (dims c ! d) c"
      using assms(3) d by (auto simp: define_attribute_def Let_def put_dim_def split: if_splits)
    then show ?thesis using same_kinds_revalidated [OF assms(1) dl wd] by (simp add: same_kinds_def)
  next
    case None
    then have c': "c' = put_dim d (snd (add_attribute name kind (dims c ! d))) c"
      using assms(3) d by (simp add: define_attribute_def Let_def put_dim_def)
    have "dim_wf (snd (add_attribute name kind (dims c ! d)))"
      using wd assms(2) dl by (intro add_attribute_wf) simp_all
    from same_kinds_revalidated [OF assms(1) dl this add_attribute_kinds] show ?thesis by (simp add: c')
  qed
qed

lemma set_values_wf:
  "dim_wf d \<Longrightarrow> set_values dimension attribute vs d = Inr d' \<Longrightarrow> dim_wf d' \<and> same_kinds d d'"
proof (induction vs arbitrary: d)
  case Nil
  then show ?case by (simp add: same_kinds_def)
next
  case (Cons nv vs)
  then obtain e d1 where "set_attribute e attribute (snd nv) d = Inr d1" "set_values dimension attribute vs d1 = Inr d'"
    by (cases nv) auto
  with Cons show ?case using set_attribute_wf set_attribute_kinds same_kinds_trans by blast
qed

lemma set_attribute_values_wf:
  assumes "cube_wf c" and "set_attribute_values dimension attribute vs c = Inr c'"
  shows "revalidated c c'"
proof -
  obtain d d' where d: "dimension_index c dimension = Inr d"
    and v: "set_values dimension attribute vs (dims c ! d) = Inr d'" and c': "c' = put_dim d d' c"
    using assms(2) by (auto simp: set_attribute_values_def put_dim_def)
  have dl: "d < length (dims c)" using dim_index_bound [OF d] by simp
  from set_values_wf [OF wf_nth [OF assms(1) dl] v] same_kinds_revalidated [OF assms(1) dl] c'
  show ?thesis by blast
qed

section \<open>Renaming edits\<close>

definition renamed :: "nat \<Rightarrow> nat list \<Rightarrow> cube \<Rightarrow> cube \<Rightarrow> bool" where
  "renamed d to_new c c' \<longleftrightarrow> d < length (dims c) \<and> cube_wf c' \<and>
     (\<exists>d'. dims c' = (dims c)[d := d'] \<and> dim_renames to_new (dims c ! d) d') \<and>
     moved (rename_coord d to_new) (rename_coord d to_new) c c'"

lemma remap_renamed:
  assumes "cube_wf c" and "d < length (dims c)" and "dim_renames to_new (dims c ! d) d'"
  shows "renamed d to_new c (remap_cells_for_dimension d to_new (put_dim d d' c))"
  using remap_moves [OF assms] assms(2,3) by (auto simp: renamed_def)

theorem reorder_elements_renamed:
  assumes "cube_wf c" and "reorder_elements dimension names c = Inr c'"
  shows "\<exists>d to_new. dimension_index c dimension = Inr d \<and> renamed d to_new c c'"
proof -
  obtain d to_new d' where d: "dimension_index c dimension = Inr d"
    and r: "reorder names (dims c ! d) = Inr (to_new, d')"
    and c': "c' = remap_cells_for_dimension d to_new (put_dim d d' c)"
    using assms(2) by (auto simp: reorder_elements_def)
  have dl: "d < length (dims c)" using dim_index_bound [OF d] by simp
  have "dim_renames to_new (dims c ! d) d'" using reorder_Inr [OF wf_nth [OF assms(1) dl] r] by blast
  with remap_renamed [OF assms(1) dl] d c' show ?thesis by blast
qed

theorem delete_element_renamed:
  assumes "cube_wf c" and "delete_element dimension name c = Inr c'"
  shows "\<exists>d to_new. dimension_index c dimension = Inr d \<and> renamed d to_new c c'"
proof -
  obtain d i k to_new d' where d: "dimension_index c dimension = Inr d"
    and r: "delete i (dims c ! d) = Inr ((k, to_new), d')"
    and c': "c' = remap_cells_for_dimension d to_new (put_dim d d' c)"
    using assms(2) by (auto simp: delete_element_def)
  have dl: "d < length (dims c)" using dim_index_bound [OF d] by simp
  have "dim_renames to_new (dims c ! d) d'" using delete_renames [OF wf_nth [OF assms(1) dl] r] by blast
  with remap_renamed [OF assms(1) dl] d c' show ?thesis by blast
qed

theorem insert_element_renamed:
  assumes "cube_wf c" and "room 1 (dims c)" and "insert_element_at dimension name kind pos c = Inr c'"
  shows "\<exists>d to_new. dimension_index c dimension = Inr d \<and> renamed d to_new c c'"
proof -
  obtain d at k to_new d' where d: "dimension_index c dimension = Inr d"
    and r: "insert_at name kind at (dims c ! d) = Inr ((k, to_new), d')"
    and c': "c' = remap_cells_for_dimension d to_new (put_dim d d' c)"
    using assms(3) by (auto simp: insert_element_at_def Let_def)
  have dl: "d < length (dims c)" using dim_index_bound [OF d] by simp
  have "length (elements (dims c ! d)) < u32_max" using roomD [OF assms(2) dl] by simp
  then have "dim_renames to_new (dims c ! d) d'" using insert_at_renames [OF wf_nth [OF assms(1) dl] _ r] by blast
  with remap_renamed [OF assms(1) dl] d c' show ?thesis by blast
qed

section \<open>Reachable cubes\<close>

lemma cube_new_wf:
  assumes "cube_new name ds = Inr c" and "list_all dim_wf ds"
  shows "cube_wf c \<and> dims c = ds"
proof -
  have c: "ds \<noteq> []" "c = \<lparr>cube_name = name, dims = ds, lay = layout_new ds, cells = store_empty ds,
      string_cells = store_empty ds, pool = pool_empty\<rparr>"
    using assms(1) by (auto simp: cube_new_def Let_def store_empty_def split: if_splits)
  show ?thesis
    using assms(2) c(1) by (simp add: c(2) cube_wf_def frame_ok_def num_ok_def str_ok_def num_def str_id_def
        store_empty_ok cells.find_none)
qed

text \<open>Every call that changes a cube, with the bounds that keep its counts within \<open>u32\<close>.\<close>

inductive cube_step :: "cube \<Rightarrow> cube \<Rightarrow> bool" where
  extend: "room (length elems) (dims c) \<Longrightarrow> \<forall>e \<in> set edges. in_i64 (gs_weight e) \<Longrightarrow>
     extend_schema elems edges c = Inr (n, c') \<Longrightarrow> cube_step c c'"
| attr_def: "\<forall>d \<in> set (dims c). length (attributes d) < u32_max \<Longrightarrow>
     define_attribute dimension name kind c = Inr c' \<Longrightarrow> cube_step c c'"
| set_attrs: "set_attribute_values dimension attribute vs c = Inr c' \<Longrightarrow> cube_step c c'"
| reorder: "reorder_elements dimension names c = Inr c' \<Longrightarrow> cube_step c c'"
| reparent: "in_i64 w \<Longrightarrow> reparent_element dimension child new_parent w c = Inr c' \<Longrightarrow> cube_step c c'"
| add_child: "in_i64 w \<Longrightarrow> add_child_element dimension parent child w c = Inr c' \<Longrightarrow> cube_step c c'"
| remove_child: "remove_child_element dimension parent child c = Inr c' \<Longrightarrow> cube_step c c'"
| pin: "pin_element_to_top dimension name c = Inr c' \<Longrightarrow> cube_step c c'"
| unpin: "unpin_element_from_top dimension name c = Inr c' \<Longrightarrow> cube_step c c'"
| convert: "set_element_kind dimension name kind c = Inr c' \<Longrightarrow> cube_step c c'"
| delete: "delete_element dimension name c = Inr c' \<Longrightarrow> cube_step c c'"
| insert: "room 1 (dims c) \<Longrightarrow> insert_element_at dimension name kind pos c = Inr c' \<Longrightarrow> cube_step c c'"
| leaf_cell: "in_i64 v \<Longrightarrow> set_leaf coord v c = Inr c' \<Longrightarrow> cube_step c c'"
| string_cell: "length (by_id (pool c)) < u32_max \<Longrightarrow> set_string coord s c = Inr c' \<Longrightarrow> cube_step c c'"
| compact: "compact_string_pool c = (n, c') \<Longrightarrow> cube_step c c'"

section \<open>Compaction\<close>

lemma compact_pool_spec:
  assumes wf: "cube_wf c" and r: "compact_string_pool c = (n, c')"
  shows "cube_wf c' \<and> dims c' = dims c \<and> num c' = num c \<and>
     (\<forall>k. in_range (dims c) k \<longrightarrow> str c' k = str c k) \<and>
     length (by_id (pool c')) + n = length (by_id (pool c))"
proof -
  let ?es = "store_entries (lay c) (rank c) (string_cells c)"
  let ?live = "set (map snd ?es)"
  note D = cube_wf_D [OF wf]
  have es: "?es = store_entries (layout_new (dims c)) (length (dims c)) (string_cells c)"
    by (simp add: D(2) rank_def)
  have iff: "(k, i) \<in> set ?es \<longleftrightarrow> in_range (dims c) k \<and> str_id c k = Some i" for k i
    unfolding es str_id_def D(2) rank_def by (rule cells.entries_iff [OF D(4)])
  have ok: "string_coord (dims c) k \<and> i < length (by_id (pool c)) \<and> pool_get (pool c) i \<noteq> []"
    if "in_range (dims c) k" "str_id c k = Some i" for k i
    using wf that by (simp add: cube_wf_def str_ok_def)
  have live: "?live \<subseteq> {..<length (by_id (pool c))}" using iff ok by auto
  show ?thesis
  proof (cases "card ?live = length (by_id (pool c))")
    case True
    then show ?thesis using r wf by (simp add: compact_string_pool_def Let_def)
  next
    case False
    obtain remap p where cp: "compact ?live (pool c) = (remap, p)" by force
    let ?ms = "map (\<lambda>(k, i). (k, remap ! i)) ?es"
    have c': "c' = c\<lparr>pool := p, string_cells := put_all (store_put (layout_new (dims c))) ?ms (store_empty (dims c))\<rparr>"
      and n: "n = length (by_id (pool c)) - length (by_id p)"
    proof -
      have "foldl (\<lambda>s (coord, i). store_put (lay c) coord (remap ! i) s) s es
          = put_all (store_put (layout_new (dims c))) (map (\<lambda>(k, i). (k, remap ! i)) es) s" for s es
        by (induction es arbitrary: s) (auto simp: D(2))
      then show "c' = c\<lparr>pool := p, string_cells := put_all (store_put (layout_new (dims c))) ?ms (store_empty (dims c))\<rparr>"
        "n = length (by_id (pool c)) - length (by_id p)"
        using r False cp by (simp_all add: compact_string_pool_def Let_def store_empty_def D(2))
    qed
    note cc = compact_correct [OF D(5) cp]
    have fsts: "map fst ?ms = map fst ?es" by (induction ?es) auto
    have "distinct (map fst ?es)" unfolding es by (rule cells.entries_distinct [OF D(4)])
    then have dist: "distinct (map fst ?ms)" by (simp only: fsts)
    have val: "\<forall>k \<in> fst ` set ?ms. in_range (dims c) k" using iff by auto
    note put = cells.put_all_none [OF store_empty_ok [OF D(1)] val dist]
    have sid: "str_id c' k = map_option ((!) remap) (str_id c k)" if k: "in_range (dims c) k" for k
    proof -
      have "map_of ?ms k = map_option ((!) remap) (map_of ?es k)"
        by (simp add: map_of_map)
      also have "map_of ?es k = str_id c k"
        unfolding es str_id_def D(2) rank_def by (rule cells.entries_find [OF D(4) k, symmetric])
      finally show ?thesis using put(2) [OF k] by (simp add: str_id_def c' D(2))
    qed
    have moved: "remap ! i < length (by_id p) \<and> pool_get p (remap ! i) = pool_get (pool c) i"
      if "in_range (dims c) k" "str_id c k = Some i" for k i
    proof (rule cc(3))
      show "i \<in> ?live" using iff that by force
    qed (use ok [OF that] in simp)
    have same_text: "str c' k = str c k" if "in_range (dims c) k" for k
      using sid [OF that] moved [OF that] by (cases "str_id c k") (simp_all add: str_def c')
    have "str_ok c'"
      unfolding str_ok_def
    proof (intro allI impI)
      fix k j assume k: "in_range (dims c') k" "str_id c' k = Some j"
      then have r: "in_range (dims c) k" by (simp add: c')
      with sid k(2) obtain i where "str_id c k = Some i" "j = remap ! i" by auto
      with ok [OF r] moved [OF r]
      show "string_coord (dims c') k \<and> j < length (by_id (pool c')) \<and> pool_get (pool c') j \<noteq> []"
        by (simp add: c')
    qed
    moreover have "length (by_id p) \<le> length (by_id (pool c))"
      unfolding cc(2) by (metis length_filter_le length_map length_upt minus_nat.diff_0)
    ultimately show ?thesis
      using wf put(1) cc(1) same_text n
      by (auto simp: cube_wf_def frame_ok_def num_ok_def num_def c')
  qed
qed

theorem cube_step_wf:
  assumes "cube_step c c'" and "cube_wf c"
  shows "cube_wf c'"
  using assms
proof (induction rule: cube_step.induct)
  case (reorder dimension names c c')
  then show ?case using reorder_elements_renamed by (auto simp: renamed_def)
next
  case (delete dimension name c c')
  then show ?case using delete_element_renamed by (auto simp: renamed_def)
next
  case (insert c dimension name kind pos c')
  then show ?case using insert_element_renamed unfolding renamed_def by blast
next
  case (attr_def c dimension name kind c')
  then show ?case using define_attribute_wf by (auto simp: revalidated_def)
next
  case (set_attrs dimension attribute vs c c')
  then show ?case using set_attribute_values_wf by (auto simp: revalidated_def)
next
  case (reparent w dimension child new_parent c c')
  then show ?case using reparent_element_revalidates by (auto simp: revalidated_def)
next
  case (add_child w dimension parent child c c')
  then show ?case using add_child_element_revalidates by (auto simp: revalidated_def)
next
  case (remove_child dimension parent child c c')
  then show ?case using remove_child_element_revalidates by (auto simp: revalidated_def)
next
  case (pin dimension name c c')
  then show ?case using pin_element_revalidates [of c dimension name c'] by (simp add: revalidated_def)
next
  case (unpin dimension name c c')
  then show ?case using pin_element_revalidates [of c dimension name c'] by (simp add: revalidated_def)
next
  case (convert dimension name kind c c')
  then show ?case using set_element_kind_revalidates by (auto simp: revalidated_def)
next
  case (extend elems c edges n c')
  then show ?case using extend_schema_wf by blast
next
  case (leaf_cell v coord c c')
  then show ?case using set_leaf_wf by blast
next
  case (string_cell c coord s c')
  then show ?case using set_string_wf by blast
next
  case (compact c n c')
  then show ?case using compact_pool_spec by blast
qed

inductive cube_reach :: "cube \<Rightarrow> bool" where
  start: "cube_new name ds = Inr c \<Longrightarrow> list_all dim_wf ds \<Longrightarrow> cube_reach c"
| step: "cube_reach c \<Longrightarrow> cube_step c c' \<Longrightarrow> cube_reach c'"

lemma cube_reach_wf: "cube_reach c \<Longrightarrow> cube_wf c"
  by (induction rule: cube_reach.induct) (use cube_new_wf cube_step_wf in blast)+

end
