(* ===== verification/Cube_Rename.thy ===== *)
theory Cube_Rename
  imports Cube_Run
begin

text \<open>
  A renaming edit that drops no element (a reorder, an insert) leaves every consolidated value
  as it was: reading the renamed coordinate of the new cube gives what reading the old
  coordinate of the old cube gave.
\<close>

lemma dim_weights_nth:
  assumes "length ds = length is"
  shows "dim_weights ds is = Inr wss \<longleftrightarrow>
     length wss = length ds \<and> (\<forall>d < length ds. leaf_weights (ds ! d) (is ! d) = Inr (wss ! d))"
  using assms
proof (induction ds "is" arbitrary: wss rule: list_induct2)
  case (Cons d ds i "is")
  show ?case
  proof (cases wss)
    case (Cons ws wss')
    show ?thesis
      using Cons.IH [of wss'] by (auto simp: Cons nth_Cons' less_Suc_eq_0_disj)
  qed simp
qed auto

lemma weight_of_prod:
  "length ms = length k \<Longrightarrow>
   weight_of ms k = (\<Prod>d < length ms. (case (ms ! d) (k ! d) of None \<Rightarrow> 0 | Some w \<Rightarrow> w))"
  by (induction ms k rule: list_induct2) (simp_all add: prod.lessThan_Suc_shift del: prod.lessThan_Suc split: option.split)

lemma map_of_ren:
  assumes core: "rename_core to_new d d'" and ws: "distinct (map fst ws)" "fst ` set ws \<subseteq> {..<length (elements d)}"
    and i: "i < length (elements d)" "surv to_new i"
  shows "map_of (sort_key fst (ren to_new ws)) (to_new ! i) = map_of ws i"
proof -
  have mem: "(to_new ! i, w) \<in> set (ren to_new ws) \<longleftrightarrow> (i, w) \<in> set ws" for w
  proof
    assume "(to_new ! i, w) \<in> set (ren to_new ws)"
    then obtain j where j: "(j, w) \<in> set ws" "to_new ! i = to_new ! j" by (auto simp: ren_def)
    then have "j < length (elements d)" using ws(2) by auto
    with rename_core_inj [OF core i(1) _ i(2) j(2)] j(1) show "(i, w) \<in> set ws" by simp
  qed (use i(2) in \<open>force simp: ren_def\<close>)
  have "inj_on fst (set (ren to_new ws))"
  proof (rule inj_onI)
    fix p q assume pq: "p \<in> set (ren to_new ws)" "q \<in> set (ren to_new ws)" "fst p = fst q"
    then obtain a b w v where ab: "(a, w) \<in> set ws" "surv to_new a" "p = (to_new ! a, w)"
      "(b, v) \<in> set ws" "q = (to_new ! b, v)" by (auto simp: ren_def)
    then have "a < length (elements d)" "b < length (elements d)" using ws(2) by auto
    moreover have "to_new ! a = to_new ! b" using pq(3) ab(3,5) by simp
    ultimately have "a = b" using rename_core_inj [OF core _ _ ab(2)] by blast
    then have "w = v" using eq_key_imp_eq_value [OF ws(1) ab(1)] ab(4) by simp
    with \<open>a = b\<close> ab(3,5) show "p = q" by simp
  qed
  then have "map_of (sort_key fst (ren to_new ws)) (to_new ! i) = Some w \<longleftrightarrow> (to_new ! i, w) \<in> set (ren to_new ws)"
    if "distinct (map fst (ren to_new ws))" for w
    using that by (subst map_of_eq_Some_iff) (auto simp: distinct_map)
  moreover have "distinct (map fst (ren to_new ws))"
  proof -
    have "map fst (ren to_new ws) = map ((!) to_new) (filter (surv to_new) (map fst ws))"
      by (induction ws) auto
    moreover have "inj_on ((!) to_new) (set (filter (surv to_new) (map fst ws)))"
    proof (rule inj_onI)
      fix a b assume ab: "a \<in> set (filter (surv to_new) (map fst ws))"
        "b \<in> set (filter (surv to_new) (map fst ws))" "to_new ! a = to_new ! b"
      then have "a < length (elements d)" "b < length (elements d)" "surv to_new a" using ws(2) by auto
      with rename_core_inj [OF core] ab(3) show "a = b" by blast
    qed
    ultimately show ?thesis using ws(1) by (simp add: distinct_map)
  qed
  ultimately have "map_of (sort_key fst (ren to_new ws)) (to_new ! i) = Some w \<longleftrightarrow> map_of ws i = Some w" for w
    using mem ws(1) by simp
  then show ?thesis by (metis not_None_eq)
qed

lemma moved_value:
  assumes "moved tn ts c c'" and "in_range (dims c) k" and "tn k = Some k'" and "in_range (dims c') k'"
    and inj: "\<And>a. in_range (dims c) a \<Longrightarrow> tn a = Some k' \<Longrightarrow> a = k"
  shows "num c' k' = num c k"
proof -
  have iff: "num c' k' = Some v \<longleftrightarrow> (\<exists>a. in_range (dims c) a \<and> tn a = Some k' \<and> num c a = Some v)" for v
    using assms(1,4) by (simp add: moved_def)
  have "num c' k' = Some v \<longleftrightarrow> num c k = Some v" for v
    unfolding iff using assms(2,3) inj by blast
  then show ?thesis by (metis not_None_eq)
qed

lemma cell_keys:
  assumes "cube_wf c"
  shows "fst ` set (cell_entries c) = {k. in_range (dims c) k \<and> num c k \<noteq> None}"
proof -
  have "(k, v) \<in> set (cell_entries c) \<longleftrightarrow> in_range (dims c) k \<and> num c k = Some v" for k v
    using cells.entries_iff [OF cube_wf_D(3) [OF assms]] cube_wf_D(2) [OF assms]
    by (simp add: cell_entries_def rank_def num_def)
  then show ?thesis by (force simp: image_iff)
qed

definition full_rename :: "nat \<Rightarrow> nat list \<Rightarrow> cube \<Rightarrow> cube \<Rightarrow> bool" where
  "full_rename d to_new c c' \<longleftrightarrow> cube_wf c \<and> renamed d to_new c c' \<and>
     (\<forall>i < length (elements (dims c ! d)). surv to_new i)"

definition rename_to :: "nat \<Rightarrow> nat list \<Rightarrow> coord \<Rightarrow> coord" where
  "rename_to d to_new k = k[d := to_new ! (k ! d)]"

lemma full_rename_D:
  assumes "full_rename d to_new c c'"
  obtains d' where "cube_wf c" "cube_wf c'" "d < length (dims c)" "dims c' = (dims c)[d := d']"
    "dim_renames to_new (dims c ! d) d'" "rename_core to_new (dims c ! d) d'"
    "moved (rename_coord d to_new) (rename_coord d to_new) c c'"
  using assms by (auto simp: full_rename_def renamed_def dim_renames_def)

lemma moved_text:
  assumes "moved tn ts c c'" and "in_range (dims c) k" and "ts k = Some k'" and "in_range (dims c') k'"
    and inj: "\<And>a. in_range (dims c) a \<Longrightarrow> ts a = Some k' \<Longrightarrow> a = k"
  shows "str c' k' = str c k"
proof -
  have iff: "str_id c' k' = Some i \<longleftrightarrow> (\<exists>a. in_range (dims c) a \<and> ts a = Some k' \<and> str_id c a = Some i)" for i
    using assms(1,4) by (simp add: moved_def)
  have "str_id c' k' = Some i \<longleftrightarrow> str_id c k = Some i" for i
    unfolding iff using assms(2,3) inj by blast
  then have "str_id c' k' = str_id c k" by (cases "str_id c k"; cases "str_id c' k'") auto
  then show ?thesis using assms(1) by (simp add: str_def moved_def)
qed

lemma rename_to_inj:
  assumes core: "rename_core to_new (dims c ! d) d'" and d: "d < length (dims c)" and k: "in_range (dims c) k"
    and a: "in_range (dims c) a" and i: "k ! d < length (elements (dims c ! d))" and sv: "surv to_new (k ! d)"
    and e: "rename_coord d to_new a = Some (rename_to d to_new k)"
  shows "a = k"
proof -
  have al: "length a = length k" "a ! d < length (elements (dims c ! d))" "d < length k"
    using a k d by (simp_all add: in_range_nth)
  have sa: "surv to_new (a ! d)" "a[d := to_new ! (a ! d)] = k[d := to_new ! (k ! d)]"
    using e by (auto simp: rename_coord_def rename_to_def split: if_splits)
  then have "to_new ! (a ! d) = to_new ! (k ! d)" using al by (metis nth_list_update_eq)
  then have "a ! d = k ! d" using rename_core_inj [OF core al(2) i sa(1)] by simp
  with list_update_inj [OF sa(2) al(1)] al show ?thesis by simp
qed

lemma rename_to_facts:
  assumes fr: "full_rename d to_new c c'" and k: "in_range (dims c) k"
  shows "rename_coord d to_new k = Some (rename_to d to_new k)" "in_range (dims c') (rename_to d to_new k)"
    "num c' (rename_to d to_new k) = num c k"
    "leaf_coord (dims c') (rename_to d to_new k) = leaf_coord (dims c) k"
    "length k = length (dims c)" "k ! d < length (elements (dims c ! d))" "surv to_new (k ! d)"
proof -
  obtain d' where w: "cube_wf c" "cube_wf c'" "d < length (dims c)" "dims c' = (dims c)[d := d']"
    "rename_core to_new (dims c ! d) d'" "moved (rename_coord d to_new) (rename_coord d to_new) c c'"
    by (rule full_rename_D [OF fr])
  show kd: "length k = length (dims c)" "k ! d < length (elements (dims c ! d))"
    using k w(3) by (simp_all add: in_range_nth)
  show sv: "surv to_new (k ! d)" using fr kd(2) by (simp add: full_rename_def)
  show rk: "rename_coord d to_new k = Some (rename_to d to_new k)"
    using sv by (simp add: rename_coord_def rename_to_def)
  note core = rename_core_D(1,2) [OF w(5) kd(2) sv]
  have each: "(rename_to d to_new k) ! x < length (elements (dims c' ! x)) \<and>
      kind_at (dims c' ! x) (rename_to d to_new k ! x) = kind_at (dims c ! x) (k ! x)"
    if "x < length (dims c)" for x
    using that core k kd(1) by (cases "x = d") (simp_all add: w(4) rename_to_def kind_at_def in_range_nth)
  show rng: "in_range (dims c') (rename_to d to_new k)"
    using each kd(1) by (simp add: in_range_nth w(4) rename_to_def)
  show "leaf_coord (dims c') (rename_to d to_new k) = leaf_coord (dims c) k"
    using each kd(1) leaf_coord_nth [of "rename_to d to_new k" "dims c'"] by (simp add: leaf_coord_nth w(4) rename_to_def)
  show "num c' (rename_to d to_new k) = num c k"
    by (rule moved_value [OF w(6) k rk rng]) (rule rename_to_inj [OF w(5,3) k _ kd(2) sv])
qed

lemma rename_cells:
  assumes fr: "full_rename d to_new c c'"
  shows "bij_betw (rename_to d to_new) (fst ` set (cell_entries c)) (fst ` set (cell_entries c'))"
proof -
  obtain d' where w: "cube_wf c" "cube_wf c'" "d < length (dims c)"
    "rename_core to_new (dims c ! d) d'" "moved (rename_coord d to_new) (rename_coord d to_new) c c'"
    by (rule full_rename_D [OF fr])
  have "inj_on (rename_to d to_new) {k. in_range (dims c) k}"
  proof (rule inj_onI)
    fix a b assume ab: "a \<in> {k. in_range (dims c) k}" "b \<in> {k. in_range (dims c) k}"
      "rename_to d to_new a = rename_to d to_new b"
    then have r: "in_range (dims c) a" "in_range (dims c) b" by simp_all
    note fa = rename_to_facts(5-7) [OF fr r(1)] and fb = rename_to_facts(5-7) [OF fr r(2)]
    have "to_new ! (a ! d) = to_new ! (b ! d)"
      using ab(3) fa(1) fb(1) w(3) unfolding rename_to_def by (metis nth_list_update_eq)
    then have "a ! d = b ! d" using rename_core_inj [OF w(4) fa(2) fb(2) fa(3)] by simp
    with list_update_inj [of a d _ b] ab(3) fa(1) fb(1) w(3) show "a = b" by (simp add: rename_to_def)
  qed
  then have "inj_on (rename_to d to_new) (fst ` set (cell_entries c))"
    unfolding cell_keys [OF w(1)] by (rule inj_on_subset) auto
  moreover have "rename_to d to_new ` (fst ` set (cell_entries c)) = fst ` set (cell_entries c')"
  proof (intro equalityI subsetI)
    fix k' assume "k' \<in> rename_to d to_new ` (fst ` set (cell_entries c))"
    then show "k' \<in> fst ` set (cell_entries c')"
      unfolding cell_keys [OF w(1)] cell_keys [OF w(2)] using rename_to_facts(2,3) [OF fr] by auto
  next
    fix k' assume "k' \<in> fst ` set (cell_entries c')"
    then have "in_range (dims c') k'" "num c' k' \<noteq> None" unfolding cell_keys [OF w(2)] by simp_all
    then obtain k where "in_range (dims c) k" "rename_coord d to_new k = Some k'" "num c k \<noteq> None"
      using w(5) unfolding moved_def by (metis not_None_eq)
    with rename_to_facts(1) [OF fr, of k] show "k' \<in> rename_to d to_new ` (fst ` set (cell_entries c))"
      unfolding cell_keys [OF w(1)] by force
  qed
  ultimately show ?thesis by (simp add: bij_betw_def)
qed

lemma leaf_value_num: "leaf_value c k = (case num c k of Some v \<Rightarrow> v | None \<Rightarrow> 0)"
  by (simp add: leaf_value_def num_def)

lemma rollup_cells:
  assumes "cube_wf c" and "\<forall>k \<in> under wss. in_range (dims c) k"
  shows "rollup wss (leaf_value c) = (\<Sum>k\<in>fst ` set (cell_entries c). weight_of (map map_of wss) k * leaf_value c k)"
proof (rule rollup_support)
  fix k assume "k \<in> under wss" "k \<notin> fst ` set (cell_entries c)"
  then show "leaf_value c k = 0"
    using assms(2) by (auto simp: cell_keys [OF assms(1)] leaf_value_num)
qed simp

theorem rename_keeps_reads:
  assumes fr: "full_rename d to_new c c'" and k: "in_range (dims c) coord"
  shows "get c' (rename_to d to_new coord) = get c coord"
proof -
  obtain d' where w: "cube_wf c" "cube_wf c'" "d < length (dims c)" "dims c' = (dims c)[d := d']"
    "dim_renames to_new (dims c ! d) d'" "rename_core to_new (dims c ! d) d'"
    by (rule full_rename_D [OF fr])
  let ?coord' = "rename_to d to_new coord"
  note F = rename_to_facts [OF fr k]
  show ?thesis
  proof (cases "leaf_coord (dims c) coord")
    case True
    then show ?thesis using F by (simp add: get_leaf_coord k leaf_value_num)
  next
    case False
    obtain wss where wss: "dim_weights (dims c) coord = Inr wss" "length wss = length (dims c)"
      "\<forall>ws \<in> set wss. distinct (map fst ws)" "\<forall>k \<in> under wss. in_range (dims c) k"
      using dim_weights_total [OF cube_wf_D(1) [OF w(1)] k] by blast
    obtain wss' where wss': "dim_weights (dims c') ?coord' = Inr wss'" "length wss' = length (dims c)"
      "\<forall>k \<in> under wss'. in_range (dims c') k"
      using dim_weights_total [OF cube_wf_D(1) [OF w(2)] F(2)] w(4) by auto
    have old: "leaf_weights (dims c ! x) (coord ! x) = Inr (wss ! x)" if "x < length (dims c)" for x
      using dim_weights_nth [of "dims c" coord wss] wss(1) F(5) that by simp
    have new: "leaf_weights (dims c' ! x) (?coord' ! x) = Inr (wss' ! x)" if "x < length (dims c)" for x
      using dim_weights_nth [of "dims c'" ?coord' wss'] wss'(1) F(5) that by (simp add: w(4) rename_to_def)
    have wd: "dim_wf (dims c ! d)" using wf_nth [OF w(1,3)] .
    have at: "wss' ! d = sort_key fst (ren to_new (wss ! d))"
      using leaf_weights_rename [OF wd w(5) F(6,7) old [OF w(3)]] new [OF w(3)] F(5) w(3)
      by (simp add: w(4) rename_to_def)
    have else_same: "wss' ! x = wss ! x" if "x < length (dims c)" "x \<noteq> d" for x
      using old [OF that(1)] new [OF that(1)] that by (simp add: w(4) rename_to_def)
    have dom: "fst ` set (wss ! d) \<subseteq> {..<length (elements (dims c ! d))}"
      using leaf_weights_total [OF wd F(6)] old [OF w(3)] by auto
    have distd: "distinct (map fst (wss ! d))" using wss(2,3) w(3) by simp
    have weight: "weight_of (map map_of wss') (rename_to d to_new a) = weight_of (map map_of wss) a"
      if a: "in_range (dims c) a" for a
    proof -
      note G = rename_to_facts [OF fr a]
      have "(map map_of wss' ! x) (rename_to d to_new a ! x) = (map map_of wss ! x) (a ! x)"
        if x: "x < length (dims c)" for x
      proof (cases "x = d")
        case True
        then show ?thesis
          using map_of_ren [OF w(6) distd dom G(6,7)] x wss(2) wss'(2) G(5) at by (simp add: rename_to_def)
      next
        case False
        then show ?thesis using x wss(2) wss'(2) else_same [OF x False] by (simp add: rename_to_def)
      qed
      then show ?thesis
        using G(5) wss(2) wss'(2) by (simp add: weight_of_prod rename_to_def)
    qed
    have sum: "rollup wss' (leaf_value c') = rollup wss (leaf_value c)"
    proof -
      have "rollup wss (leaf_value c) =
          (\<Sum>a\<in>fst ` set (cell_entries c). weight_of (map map_of wss') (rename_to d to_new a) * leaf_value c' (rename_to d to_new a))"
        unfolding rollup_cells [OF w(1) wss(4)]
      proof (rule sum.cong [OF refl])
        fix a assume "a \<in> fst ` set (cell_entries c)"
        then have a: "in_range (dims c) a" by (simp add: cell_keys [OF w(1)])
        show "weight_of (map map_of wss) a * leaf_value c a =
            weight_of (map map_of wss') (rename_to d to_new a) * leaf_value c' (rename_to d to_new a)"
          using weight [OF a] rename_to_facts(3) [OF fr a] by (simp add: leaf_value_num)
      qed
      also have "\<dots> = rollup wss' (leaf_value c')"
        unfolding rollup_cells [OF w(2) wss'(3)] by (rule sum.reindex_bij_betw [OF rename_cells [OF fr]])
      finally show ?thesis by simp
    qed
    have "get c coord = to_fixed (wrap128 (rollup wss (leaf_value c)))"
      using get_spec [OF w(1) k False wss(1)] stored_sum_rollup [OF w(1) wss(4)] by simp
    moreover have "get c' ?coord' = to_fixed (wrap128 (rollup wss' (leaf_value c')))"
      using get_spec [OF w(2) F(2) _ wss'(1)] stored_sum_rollup [OF w(2) wss'(3)] False F(4) by simp
    ultimately show ?thesis using sum by simp
  qed
qed

text \<open>A reorder and an insert rename every element.\<close>

lemma edit_full_rename:
  assumes wf: "cube_wf c" and room: "room 1 (dims c)"
    and "reorder_elements dimension names c = Inr c' \<or> insert_element_at dimension name kind pos c = Inr c'"
  shows "\<exists>d to_new. dimension_index c dimension = Inr d \<and> full_rename d to_new c c'"
  using assms(3)
proof
  assume "reorder_elements dimension names c = Inr c'"
  then obtain d to_new d' where d: "dimension_index c dimension = Inr d"
    and r: "reorder names (dims c ! d) = Inr (to_new, d')"
    and c': "c' = remap_cells_for_dimension d to_new (put_dim d d' c)"
    by (auto simp: reorder_elements_def)
  have dl: "d < length (dims c)" using dim_index_bound [OF d] by simp
  note R = reorder_Inr [OF wf_nth [OF wf dl] r]
  have "surv to_new i" if i: "i < length (elements (dims c ! d))" for i
  proof -
    have "to_new ! i < length (elements (dims c ! d))"
      using R i by (metis is_perm_def lessThan_iff nth_mem)
    then show ?thesis using dim_wf_shape(3) [OF wf_nth [OF wf dl]] by (simp add: surv_def)
  qed
  then show ?thesis using remap_renamed [OF wf dl] R d c' wf by (auto simp: full_rename_def)
next
  assume "insert_element_at dimension name kind pos c = Inr c'"
  then obtain d at k to_new d' where d: "dimension_index c dimension = Inr d"
    and r: "insert_at name kind at (dims c ! d) = Inr ((k, to_new), d')"
    and c': "c' = remap_cells_for_dimension d to_new (put_dim d d' c)"
    by (auto simp: insert_element_at_def Let_def)
  have dl: "d < length (dims c)" using dim_index_bound [OF d] by simp
  have sz: "length (elements (dims c ! d)) < u32_max" using roomD [OF room dl] by simp
  note R = insert_at_renames [OF wf_nth [OF wf dl] sz r]
  have "to_new = insert_map (length (elements (dims c ! d))) k"
    using r sz by (auto simp: insert_at_def Let_def split: if_splits)
  then have "surv to_new i" if "i < length (elements (dims c ! d))" for i
    using that sz by (simp add: surv_def)
  then show ?thesis using remap_renamed [OF wf dl] R d c' wf by (auto simp: full_rename_def)
qed

end
