(* ===== verification/Core_Properties.thy ===== *)
theory Core_Properties
  imports Cube_Rename
begin

text \<open>
  The properties of the core model: values, dimensions, cubes. Each one is stated over the
  modelled operations and rests on the component theories; the witnesses apply it to the sample
  dimension and the sample cube below.
\<close>

section \<open>Samples\<close>

definition sample_measure :: dimension where
  "sample_measure = run_ops [OpAddElement ''Price'' Leaf, OpAddElement ''Note'' Str] (dim_new ''Measure'')"

lemma sample_measure_wf [simp]: "dim_wf sample_measure"
  unfolding sample_measure_def by (rule run_new_wf) (simp_all add: u32_max_def)

definition sample_cube0 :: cube where
  "sample_cube0 = (case cube_new ''Sales'' [sample_dim, sample_measure] of Inr c \<Rightarrow> c)"

text \<open>Region N = 3, region S = 5, a note on N; Total is N - 2 S.\<close>

definition sample_cube1 :: cube where
  "sample_cube1 = (case set_leaf [1, 0] 3 sample_cube0 of Inr c \<Rightarrow> c)"

definition sample_cube2 :: cube where
  "sample_cube2 = (case set_leaf [2, 0] 5 sample_cube1 of Inr c \<Rightarrow> c)"

definition sample_cube :: cube where
  "sample_cube = (case set_string [1, 1] ''ok'' sample_cube2 of Inr c \<Rightarrow> c)"

lemmas run_eval = run_ops_def apply_op_def dim_new_def add_element_def add_child_def get_element_def
  push_edge_def reaches_def add_attribute_def set_attribute_def attribute_index_def put_attr_def
  drop_prev_alias_def is_alias_attr_def as_u32_def Let_def dim_len_def

lemma sample_dim_eval:
  "sample_dim =
     \<lparr>dim_name = ''Region'',
      elements = [\<lparr>el_name = ''Total'', el_kind = Consolidated, el_pinned = False\<rparr>,
        \<lparr>el_name = ''N'', el_kind = Leaf, el_pinned = False\<rparr>,
        \<lparr>el_name = ''S'', el_kind = Leaf, el_pinned = False\<rparr>,
        \<lparr>el_name = ''Note'', el_kind = Str, el_pinned = False\<rparr>],
      index_by_name = [''Total'' \<mapsto> 0, ''N'' \<mapsto> 1, ''S'' \<mapsto> Suc (Suc 0), ''Note'' \<mapsto> 3],
      children = [[\<lparr>edge_child = 1, edge_weight = 1\<rparr>, \<lparr>edge_child = 2, edge_weight = - 2\<rparr>], [], [], []],
      attributes = [\<lparr>attr_name = ''code'', attr_kind = KAlias\<rparr>],
      attr_index_by_name = [''code'' \<mapsto> 0], attr_values = [[], [(0, Text ''north'')], [], []],
      alias_to_element = [''north'' \<mapsto> 1]\<rparr>"
  by (simp add: sample_dim_def sample_ops_def run_eval)

lemma sample_measure_eval:
  "sample_measure =
     \<lparr>dim_name = ''Measure'',
      elements = [\<lparr>el_name = ''Price'', el_kind = Leaf, el_pinned = False\<rparr>,
        \<lparr>el_name = ''Note'', el_kind = Str, el_pinned = False\<rparr>],
      index_by_name = [''Price'' \<mapsto> 0, ''Note'' \<mapsto> 1], children = [[], []], attributes = [],
      attr_index_by_name = Map.empty, attr_values = [[], []], alias_to_element = Map.empty\<rparr>"
  by (simp add: sample_measure_def run_eval)

lemma sample_in_range:
  "in_range [sample_dim, sample_measure] [i, j] \<longleftrightarrow> i < 4 \<and> j < 2"
  by (auto simp: in_range_def sample_dim_eval sample_measure_eval)

lemma sample_cube0: "cube_new ''Sales'' [sample_dim, sample_measure] = Inr sample_cube0"
  "cube_wf sample_cube0 \<and> dims sample_cube0 = [sample_dim, sample_measure]"
proof -
  show n: "cube_new ''Sales'' [sample_dim, sample_measure] = Inr sample_cube0"
    by (simp add: sample_cube0_def cube_new_def Let_def)
  show "cube_wf sample_cube0 \<and> dims sample_cube0 = [sample_dim, sample_measure]"
    using cube_new_wf [OF n] by simp
qed

lemma sample_layout:
  "layout_new [sample_dim, sample_measure] = \<lparr>offsets = [0, 2], masks = [3, 1], narrow = True\<rparr>"
  by (simp add: layout_new_def dim_len_def sample_dim_eval sample_measure_eval bits_for_def
      leading_zeros32_def bit_len.simps u32_max_def as_u32_def)

lemma sample_cube0_eval:
  "sample_cube0 = \<lparr>cube_name = ''Sales'', dims = [sample_dim, sample_measure],
     lay = \<lparr>offsets = [0, 2], masks = [3, 1], narrow = True\<rparr>, cells = Narrow [],
     string_cells = Narrow [], pool = pool_empty\<rparr>"
  by (simp add: sample_cube0_def cube_new_def Let_def sample_layout store_new_def)

lemma sample_steps:
  "set_leaf [1, 0] 3 sample_cube0 = Inr sample_cube1" "set_leaf [2, 0] 5 sample_cube1 = Inr sample_cube2"
  "set_string [1, 1] ''ok'' sample_cube2 = Inr sample_cube"
  "sample_cube = \<lparr>cube_name = ''Sales'', dims = [sample_dim, sample_measure],
     lay = \<lparr>offsets = [0, 2], masks = [3, 1], narrow = True\<rparr>, cells = Narrow [(1, 3), (2, 5)],
     string_cells = Narrow [(5, 0)], pool = \<lparr>by_id = [''ok''], ids = [''ok'' \<mapsto> 0]\<rparr>\<rparr>"
  "pool sample_cube2 = pool_empty"
  by (simp_all add: sample_cube_def sample_cube2_def sample_cube1_def sample_cube0_eval set_leaf_def
      set_string_def check_leaf_write_def check_string_write_def check_coord_def leaf_check_def rank_def
      get_element_def sample_dim_eval sample_measure_eval is_zero_def pack_def push_bit_eq_mult
      intern_def pool_empty_def as_u32_def)

lemma sample_cube_wf [simp]: "cube_wf sample_cube" and sample_dims [simp]: "dims sample_cube = [sample_dim, sample_measure]"
proof -
  have 1: "cube_wf sample_cube1 \<and> dims sample_cube1 = [sample_dim, sample_measure]"
    using set_leaf_wf [OF _ _ sample_steps(1)] sample_cube0(2) by (simp add: in_i64_def i64_min_def i64_max_def)
  then have 2: "cube_wf sample_cube2 \<and> dims sample_cube2 = [sample_dim, sample_measure]"
    using set_leaf_wf [OF _ _ sample_steps(2)] by (simp add: in_i64_def i64_min_def i64_max_def)
  with set_string_wf [OF _ _ sample_steps(3)] sample_steps(5) show "cube_wf sample_cube"
    by (simp add: pool_empty_def u32_max_def)
  show "dims sample_cube = [sample_dim, sample_measure]" by (simp add: sample_steps(4))
qed

section \<open>Values\<close>

text \<open>Printing a fixed-point value and parsing the text back gives the value, for every
  \<open>i64\<close> but the smallest one, whose text the parser refuses as an overflow.\<close>

theorem fixed_text_roundtrip:
  assumes "in_i64 v"
  shows "from_str (display v) = (if v = i64_min then Inl Overflow else Inr v)"
  using assms from_str_display_eq [of v] by (auto simp: in_i64_def i64_min_def i64_max_def)

theorem fixed_text_roundtrip_witness:
  "from_str (display (- 12345)) = Inr (- 12345) \<and> from_str (display i64_min) = Inl Overflow"
  using fixed_text_roundtrip [of "- 12345"] fixed_text_roundtrip [of i64_min]
  by (simp add: in_i64_def i64_min_def i64_max_def)

section \<open>Dimensions\<close>

text \<open>Every sequence of editing calls, applied to an empty dimension, leaves it well-formed:
  parallel lists of equal length, name and alias indices that agree with the elements and the
  attribute rows, unique aliases, edges in range, no edge below a leaf and no cycle.\<close>

theorem dimension_invariant:
  assumes "length ops \<le> u32_max" and "list_all op_typed ops"
  shows "dim_wf (run_ops ops (dim_new name))"
  using assms by (rule run_new_wf)

theorem dimension_invariant_witness: "dim_wf (run_ops sample_ops (dim_new ''Region''))"
  by (rule dimension_invariant) (simp_all add: sample_ops_def u32_max_def in_i64_def i64_min_def i64_max_def)

text \<open>\<open>rollup_weights\<close>: the leaves below a member, in index order and once each, with
  the saturating product of the edge weights along a path of fewest edges; only zero weights are left out.\<close>

definition rollup_weights :: "dimension \<Rightarrow> nat \<Rightarrow> (nat \<times> int) list \<Rightarrow> bool" where
  "rollup_weights d e ws \<longleftrightarrow> sorted_wrt (<) (map fst ws) \<and>
     (\<forall>(l, w) \<in> set ws. (e, l) \<in> (edge_rel d)\<^sup>* \<and> el_kind (elements d ! l) = Leaf \<and> w \<noteq> 0 \<and>
        (\<exists>es. min_hops d e es l \<and> w = walk_weight es)) \<and>
     (\<forall>l. (e, l) \<in> (edge_rel d)\<^sup>* \<longrightarrow> el_kind (elements d ! l) = Leaf \<longrightarrow> l \<notin> fst ` set ws \<longrightarrow>
        (\<exists>es. min_hops d e es l \<and> walk_weight es = 0))"

lemma leaf_weights_rollup:
  assumes "dim_wf d" and "e < length (elements d)"
  shows "\<exists>ws. leaf_weights d e = Inr ws \<and> rollup_weights d e ws"
proof -
  note g = dim_wf_graph [OF assms(1)]
  obtain ws where "leaf_weights d e = Inr ws" "sorted_wrt (<) (map fst ws)"
    "\<And>l w. (l, w) \<in> set ws \<Longrightarrow> (e, l) \<in> (edge_rel d)\<^sup>* \<and> el_kind (elements d ! l) = Leaf \<and>
        w \<noteq> 0 \<and> (\<exists>es. min_hops d e es l \<and> w = walk_weight es)"
    "\<And>l. (e, l) \<in> (edge_rel d)\<^sup>* \<Longrightarrow> el_kind (elements d ! l) = Leaf \<Longrightarrow> l \<notin> fst ` set ws \<Longrightarrow>
        \<exists>es. min_hops d e es l \<and> walk_weight es = 0"
    using leaf_weights_ok [OF g(1,2) assms(2)] by blast
  then show ?thesis unfolding rollup_weights_def by (intro exI [of _ ws]) blast
qed

text \<open>The rollup of an element returns these weights. In particular the traversal ends and never
  indexes out of range.\<close>

theorem rollup_of_element:
  assumes "dim_wf d" and "e < length (elements d)"
  shows "\<exists>ws. leaf_weights d e = Inr ws \<and> rollup_weights d e ws"
  using assms by (rule leaf_weights_rollup)

theorem rollup_of_element_witness:
  "\<exists>ws. leaf_weights sample_dim 0 = Inr ws \<and> rollup_weights sample_dim 0 ws"
  using rollup_of_element [OF sample_dim_wf, of 0] by (simp add: sample_dim_eval)

text \<open>Adding a child succeeds exactly when both indices exist, the parent is a
  consolidation and the child does not already reach the parent; otherwise it reports the index,
  the leaf parent or the cycle, in that order, and the search for a cycle never panics.\<close>

theorem add_child_outcome:
  assumes "dim_wf d"
  shows "add_child p c w d =
     (if \<not> c < length (elements d) then Inl (ElementIndexOutOfRange (dim_name d) c (dim_len d))
      else if \<not> p < length (elements d) then Inl (ElementIndexOutOfRange (dim_name d) p (dim_len d))
      else if el_kind (elements d ! p) \<noteq> Consolidated
      then Inl (ParentNotConsolidated (dim_name d) (el_name (elements d ! p)))
      else if (c, p) \<in> (edge_rel d)\<^sup>*
      then Inl (CycleDetected (dim_name d) (el_name (elements d ! p)) (el_name (elements d ! c)))
      else Inr (push_edge p \<lparr>edge_child = c, edge_weight = w\<rparr> d))"
  using dim_wf_graph(1) [OF assms]
  by (simp add: add_child_def get_element_def Let_def reaches_correct)

theorem add_child_outcome_witness:
  "add_child 0 0 1 sample_dim = Inl (CycleDetected ''Region'' ''Total'' ''Total'')"
  using add_child_outcome [OF sample_dim_wf, of 0 0 1] by (simp add: sample_dim_eval)

text \<open>Resolving a name finds the element of that name, and otherwise the element that holds
  it as the text of an Alias attribute, of which there is at most one.\<close>

theorem resolve_name_then_alias:
  assumes "dim_wf d"
  shows "resolve d name = Some i \<longleftrightarrow> i < length (elements d) \<and>
     (el_name (elements d ! i) = name \<or>
      (\<forall>j < length (elements d). el_name (elements d ! j) \<noteq> name) \<and>
      holds_row (attributes d) (attr_values d ! i) name)"
proof -
  have al: "alias_to_element d name = Some i \<longleftrightarrow>
      i < length (elements d) \<and> holds_row (attributes d) (attr_values d ! i) name"
    using assms dim_wf_shape(2) [OF assms] by (simp add: dim_wf_def aliases_ok_def)
  show ?thesis
  proof (cases "index_of d name")
    case None
    then have "\<forall>j < length (elements d). el_name (elements d ! j) \<noteq> name"
      using index_of_Some [OF assms, of name] by auto
    with None al show ?thesis by (auto simp: resolve_def)
  next
    case (Some j)
    then have "j < length (elements d)" "el_name (elements d ! j) = name"
      using index_of_Some [OF assms] by simp_all
    moreover have "index_of d name = Some i \<longleftrightarrow> i < length (elements d) \<and> el_name (elements d ! i) = name"
      using index_of_Some [OF assms] .
    ultimately show ?thesis using Some by (auto simp: resolve_def)
  qed
qed

theorem resolve_name_then_alias_witness: "resolve sample_dim ''north'' = Some 1"
  unfolding resolve_name_then_alias [OF sample_dim_wf]
  by (simp add: sample_dim_eval holds_row_def less_Suc_eq numeral_eq_Suc)

text \<open>A reorder succeeds exactly when the requested list is a permutation of the element
  names, and then the elements stand in the requested order; anything else is refused as an
  invalid reorder, and no slot is ever left empty.\<close>

theorem reorder_accepts_permutations:
  assumes "dim_wf d"
  shows "if distinct names \<and> set names = el_name ` set (elements d)
     then \<exists>to_new d'. reorder names d = Inr (to_new, d') \<and> map el_name (elements d') = names
     else reorder names d = Inl (InvalidReorder (dim_name d))"
proof (cases "reorder names d")
  case (Inl e)
  then show ?thesis using reorder_total [OF assms, of names] reorder_Inl [OF assms Inl] by auto
next
  case (Inr r)
  then obtain to_new d' where r: "reorder names d = Inr (to_new, d')" by (cases r) auto
  then show ?thesis using reorder_names_set [OF assms r] reorder_Inr [OF assms r] by auto
qed

theorem reorder_accepts_permutations_witness:
  "(\<exists>to_new d'. reorder [''S'', ''N'', ''Note'', ''Total''] sample_dim = Inr (to_new, d')) \<and>
   reorder [''S'', ''S'', ''Note'', ''Total''] sample_dim = Inl (InvalidReorder ''Region'')"
  using reorder_accepts_permutations [OF sample_dim_wf, of "[''S'', ''N'', ''Note'', ''Total'']"]
    reorder_accepts_permutations [OF sample_dim_wf, of "[''S'', ''S'', ''Note'', ''Total'']"]
  by (auto simp: sample_dim_eval split: if_splits)

text \<open>Reordering, deleting or inserting an element renames the rollup of every element that
  survives: the same leaves under their new indices with the same weights, less the deleted one.\<close>

theorem index_edits_keep_rollups:
  assumes "dim_wf d" and "length (elements d) < u32_max"
    and "reorder names d = Inr (to_new, d') \<or> delete_edit i d = Inr (to_new, d') \<or>
         insert_edit (name, kind, at) d = Inr (to_new, d')"
    and "e < length (elements d)" and "surv to_new e" and "leaf_weights d e = Inr ws"
  shows "leaf_weights d' (to_new ! e) = Inr (sort_key fst (ren to_new ws))"
  using assms(3)
proof (elim disjE)
  assume "reorder names d = Inr (to_new, d')"
  from reord.edit_rollup [OF assms(1) TrueI this assms(4-6)] show ?thesis .
next
  assume "delete_edit i d = Inr (to_new, d')"
  from del.edit_rollup [OF assms(1) TrueI this assms(4-6)] show ?thesis .
next
  assume "insert_edit (name, kind, at) d = Inr (to_new, d')"
  from ins.edit_rollup [OF assms(1,2) this assms(4-6)] show ?thesis .
qed

theorem index_edits_keep_rollups_witness:
  "\<exists>to_new d' ws. delete_edit 3 sample_dim = Inr (to_new, d') \<and> leaf_weights sample_dim 0 = Inr ws \<and>
     leaf_weights d' (to_new ! 0) = Inr (sort_key fst (ren to_new ws))"
proof -
  have d: "delete_edit 3 sample_dim = Inr (delete_map 4 3, snd (projr (delete_edit 3 sample_dim)))"
    by (simp add: delete_edit_def delete_def get_element_def sample_dim_eval Let_def numeral_eq_Suc)
  have pos: "0 < length (elements sample_dim)" by (simp add: sample_dim_eval)
  obtain ws where ws: "leaf_weights sample_dim 0 = Inr ws"
    by (rule leaf_weights_total [OF sample_dim_wf pos])
  have "length (elements sample_dim) < u32_max" by (simp add: sample_dim_eval u32_max_def)
  moreover have "surv (delete_map 4 3) 0" by (simp add: surv_def u32_max_def)
  ultimately have "leaf_weights (snd (projr (delete_edit 3 sample_dim))) (delete_map 4 3 ! 0) =
      Inr (sort_key fst (ren (delete_map 4 3) ws))"
    using index_edits_keep_rollups [OF sample_dim_wf _ disjI2 [OF disjI1 [OF d]] pos _ ws] by blast
  with d ws show ?thesis by blast
qed

section \<open>Cubes\<close>

text \<open>Unpacking a packed coordinate gives the coordinate back, for every coordinate in range of
  dimensions whose layout fits in 64 bits; so two coordinates never share a key.\<close>

theorem packing_roundtrip:
  assumes "list_all dim_wf ds" and "in_range ds coord" and "narrow (layout_new ds)"
  shows "unpack (layout_new ds) (pack (layout_new ds) coord) (length ds) = coord"
  using assms by (rule unpack_pack)

theorem packing_roundtrip_witness:
  "unpack (layout_new [sample_dim, sample_measure]) (pack (layout_new [sample_dim, sample_measure]) [3, 1]) 2 = [3, 1]"
  using packing_roundtrip [of "[sample_dim, sample_measure]" "[3, 1]"]
  by (simp add: sample_in_range sample_layout numeral_2_eq_2)

text \<open>C2: Every cube reachable from a new one by any sequence of schema growth, attribute,
  structural and cell operations is well-formed: the layout is the one its dimensions need,
  every stored key is a coordinate in range, numeric cells lie on all-leaf coordinates and hold
  non-zero \<open>i64\<close> values, string cells address a string element and resolve in the pool.\<close>

theorem cube_invariant:
  assumes "cube_reach c"
  shows "cube_wf c"
  using assms by (rule cube_reach_wf)

lemma sample_reach: "cube_reach sample_cube"
proof -
  have b: "in_i64 3" "in_i64 5" by (simp_all add: in_i64_def i64_min_def i64_max_def)
  have "cube_reach sample_cube0" using sample_cube0(1) by (rule cube_reach.start) simp
  then have "cube_reach sample_cube2"
    using cube_step.leaf_cell [OF b(1) sample_steps(1)] cube_step.leaf_cell [OF b(2) sample_steps(2)]
    by (blast intro: cube_reach.step)
  moreover have "cube_step sample_cube2 sample_cube"
    by (rule cube_step.string_cell [OF _ sample_steps(3)]) (simp add: sample_steps(5) pool_empty_def u32_max_def)
  ultimately show ?thesis by (rule cube_reach.step)
qed

theorem cube_invariant_witness: "cube_wf sample_cube"
  by (rule cube_invariant [OF sample_reach])

text \<open>C5: Writing a numeric leaf cell succeeds exactly on in-range coordinates whose every element
  is a numeric leaf; afterwards that cell reads as the value written, zero clearing it, and every
  other cell, numeric or string, reads as before.\<close>

theorem set_leaf_then_read:
  assumes "cube_wf c" and "in_i64 v"
  shows "((\<exists>c'. set_leaf k v c = Inr c') \<longleftrightarrow> in_range (dims c) k \<and> leaf_coord (dims c) k) \<and>
     (\<forall>c'. set_leaf k v c = Inr c' \<longrightarrow> cube_wf c' \<and> str c' = str c \<and>
        (\<forall>j. in_range (dims c) j \<longrightarrow> get_leaf c' j = Inr (if j = k then v else leaf_value c j)))"
proof (intro conjI allI impI)
  show "(\<exists>c'. set_leaf k v c = Inr c') \<longleftrightarrow> in_range (dims c) k \<and> leaf_coord (dims c) k"
    using check_leaf_Inr [of c k] by (auto simp: set_leaf_def)
next
  fix c' assume r: "set_leaf k v c = Inr c'"
  note W = set_leaf_wf [OF assms r]
  then show "cube_wf c'" "str c' = str c" by blast+
  fix j assume "in_range (dims c) j"
  with W show "get_leaf c' j = Inr (if j = k then v else leaf_value c j)"
    using check_coord_Inr [of c' j] by (simp add: get_leaf_def leaf_value_num)
qed

theorem set_leaf_then_read_witness:
  "\<exists>c'. set_leaf [2, 0] 7 sample_cube = Inr c' \<and> get_leaf c' [2, 0] = Inr 7 \<and> get_leaf c' [1, 0] = Inr 3"
proof -
  have "in_i64 7" by (simp add: in_i64_def i64_min_def i64_max_def)
  from set_leaf_then_read [OF sample_cube_wf this, of "[2, 0]"]
  show ?thesis
    by (auto simp: in_range_def leaf_coord_def kind_at_def sample_dim_eval sample_measure_eval
        leaf_value_def sample_steps(4) pack_def push_bit_eq_mult)
qed

text \<open>Writing a string cell succeeds exactly on in-range coordinates with no consolidated and
  at least one string element; afterwards it reads as the text written, the empty text clearing
  it, and every other cell reads as before although the pool may have grown.\<close>

theorem set_string_then_read:
  assumes "cube_wf c" and "length (by_id (pool c)) < u32_max"
  shows "((\<exists>c'. set_string k s c = Inr c') \<longleftrightarrow> in_range (dims c) k \<and> string_coord (dims c) k) \<and>
     (\<forall>c'. set_string k s c = Inr c' \<longrightarrow> cube_wf c' \<and> num c' = num c \<and>
        (\<forall>j. in_range (dims c) j \<longrightarrow>
           get_string c' j = Inr (if j = k then (if s = [] then None else Some s) else str c j)))"
proof (intro conjI allI impI)
  show "(\<exists>c'. set_string k s c = Inr c') \<longleftrightarrow> in_range (dims c) k \<and> string_coord (dims c) k"
    using check_string_Inr [of c k] by (auto simp: set_string_def split: prod.splits)
next
  fix c' assume r: "set_string k s c = Inr c'"
  note W = set_string_wf [OF assms r]
  then show "cube_wf c'" "num c' = num c" by blast+
  fix j assume j: "in_range (dims c) j"
  with W have "get_string c' j = Inr (str c' j)"
    using check_coord_Inr [of c' j] by (simp add: get_string_def str_def str_id_def)
  with W j show "get_string c' j = Inr (if j = k then (if s = [] then None else Some s) else str c j)" by simp
qed

theorem set_string_then_read_witness:
  "\<exists>c'. set_string [2, 1] ''late'' sample_cube = Inr c' \<and> get_string c' [2, 1] = Inr (Some ''late'') \<and>
     get_string c' [1, 1] = Inr (Some ''ok'')"
proof -
  have "length (by_id (pool sample_cube)) < u32_max" by (simp add: sample_steps(4) u32_max_def)
  from set_string_then_read [OF sample_cube_wf this, of "[2, 1]" "''late''"]
  show ?thesis
    by (auto simp: in_range_def string_coord_def kind_at_def sample_dim_eval sample_measure_eval
        str_def str_id_def pool_get_def sample_steps(4) pack_def push_bit_eq_mult)
qed

text \<open>Validating a batch read-only gives the verdict of applying it to a throw-away copy: the
  same success, or the same index and error of the first write refused.\<close>

theorem validate_batch_is_trial_apply:
  "validate_batch c ws = bindE (trial_apply c 0 ws) (\<lambda>_. Inr ())"
  by (simp add: validate_batch_def batch_loop_trial)

text \<open>C1: Every coordinate in range with a member that is not a leaf has leaf weights (the saturating
  products along shortest paths), and reading it takes the sum over the leaf cells below it of weight
  product times value, in the 128-bit accumulator the code uses: the sum modulo \<open>2 ^ 128\<close>, or an
  overflow when that is no \<open>i64\<close>. So the read is the exact sum, or an overflow when the exact sum is no
  \<open>i64\<close>, whenever that sum fits in 128 bits; outside it the accumulator wraps, as
  \<open>heavy_weights_wrap_to_zero\<close> below shows. The result does not depend on the storage representation
  or the order of the store.\<close>

theorem get_is_exact_rollup:
  assumes "cube_wf c" and "in_range (dims c) coord" and "\<not> leaf_coord (dims c) coord"
  shows "\<exists>wss. dim_weights (dims c) coord = Inr wss \<and> length wss = length (dims c) \<and>
     (\<forall>d < length (dims c). rollup_weights (dims c ! d) (coord ! d) (wss ! d)) \<and>
     (let exact = rollup wss (leaf_value c); sum = wrap128 exact in
        get c coord = (if in_i64 sum then Inr sum else Inl Overflow) \<and>
        (- (2 ^ 127) \<le> exact \<and> exact < 2 ^ 127 \<longrightarrow>
           get c coord = (if in_i64 exact then Inr exact else Inl Overflow)))"
proof -
  obtain wss where w: "dim_weights (dims c) coord = Inr wss" "\<forall>k \<in> under wss. in_range (dims c) k"
    using dim_weights_total [OF cube_wf_D(1) [OF assms(1)] assms(2)] by metis
  have len: "length (dims c) = length coord" using assms(2) by (simp add: in_range_nth)
  note nth = dim_weights_nth [OF len, of wss, THEN iffD1, OF w(1)]
  have each: "rollup_weights (dims c ! d) (coord ! d) (wss ! d)" if d: "d < length (dims c)" for d
  proof -
    have "coord ! d < length (elements (dims c ! d))" using assms(2) d by (simp add: in_range_nth)
    from leaf_weights_rollup [OF wf_nth [OF assms(1) d] this] nth d show ?thesis by auto
  qed
  have "get c coord = to_fixed (wrap128 (rollup wss (leaf_value c)))"
    using get_spec [OF assms w(1)] stored_sum_rollup [OF assms(1) w(2)] by simp
  then show ?thesis
    using w(1) nth each wrap128_id by (intro exI [of _ wss]) (simp add: to_fixed_def checked_i64_def Let_def)
qed

lemma sample_weights: "dim_weights (dims sample_cube) [0, 0] = Inr [[(1, 1), (2, - 2)], [(0, 1)]]"
  by (simp add: leaf_weights_def get_element_def sample_dim_eval sample_measure_eval sat_i64_def
      i64_max_def i64_min_def)

lemma sample_total: "in_range (dims sample_cube) [0, 0]" "\<not> leaf_coord (dims sample_cube) [0, 0]"
  by (simp_all add: in_range_def leaf_coord_def kind_at_def sample_dim_eval sample_measure_eval)

lemma sample_rollup: "rollup [[(1, 1), (2, - 2)], [(0, 1)]] (leaf_value sample_cube) = - 7"
proof -
  have "\<forall>k \<in> under [[(1, 1), (2, - 2)], [(0, 1 :: int)]]. in_range (dims sample_cube) k"
    by (auto simp: under_simps sample_in_range)
  from stored_sum_rollup [OF sample_cube_wf this]
  show ?thesis
    by (simp add: stored_sum_def cell_entries_def rank_def sample_steps(4) unpack_def component_def
        as_u32_def)
qed

theorem get_is_exact_rollup_witness: "get sample_cube [0, 0] = Inr (- 7)"
proof -
  have "in_i64 (- 7)" by (simp add: in_i64_def i64_min_def i64_max_def)
  with get_is_exact_rollup [OF sample_cube_wf sample_total] show ?thesis
    by (auto simp only: sample_weights sum.inject sample_rollup Let_def if_True) simp_all
qed

text \<open>C4: With the stored cells as its source the dense consolidation reads what the sparse one
  reads, on every in-range coordinate, except that it reports an overflow when the number of leaf
  combinations below the coordinate exceeds the machine word.\<close>

theorem dense_read_agrees:
  assumes "cube_wf c" and "in_range (dims c) coord" and "dim_weights (dims c) coord = Inr wss"
  shows "consolidate_with id c coord (\<lambda>k. Inr (leaf_value c k)) =
     (if \<not> leaf_coord (dims c) coord \<and> count_combos (map length wss) 1 = None then Inl Overflow
      else get c coord)"
proof (cases "leaf_coord (dims c) coord")
  case True
  then show ?thesis
    using get_leaf_coord [OF assms(2) True] check_coord_Inr [of c coord] all_leaf_Inr [OF assms(2)] assms(2)
    by (simp add: consolidate_with_def all_numeric_leaf_def)
next
  case False
  have w: "\<forall>ws \<in> set wss. distinct (map fst ws)" "\<forall>k \<in> under wss. in_range (dims c) k"
    using dim_weights_total [OF cube_wf_D(1) [OF assms(1)] assms(2)] assms(3) by auto
  have id: "map_err id r = r" for r :: "model_error + fixed" by (cases r) simp_all
  show ?thesis
    using consolidate_with_spec [OF assms(2) False assms(3) w(1), of id "leaf_value c"]
      get_spec [OF assms(1,2) False assms(3)] stored_sum_rollup [OF assms(1) w(2)] False
    by (simp add: id)
qed

theorem dense_read_agrees_witness:
  "consolidate_with id sample_cube [0, 0] (\<lambda>k. Inr (leaf_value sample_cube k)) = get sample_cube [0, 0]"
  using dense_read_agrees [OF sample_cube_wf sample_total(1) sample_weights]
  by (simp add: checked_usize_def u64_max_def)

text \<open>The sparse scan over the stored and the fed coordinates reads what the dense
  consolidation reads, for any leaf source, as soon as every contributing leaf with a non-zero
  value is stored or fed; a leaf that is both is counted once.\<close>

theorem fed_read_agrees:
  assumes "cube_wf c" and "in_range (dims c) coord" and "\<not> leaf_coord (dims c) coord"
    and "dim_weights (dims c) coord = Inr wss" and "\<forall>k \<in> set fed. length k = rank c"
    and "\<forall>k \<in> under wss. f k \<noteq> 0 \<longrightarrow> k \<in> fst ` set (cell_entries c) \<union> set fed"
  shows "consolidate_fed from_err c coord fed (\<lambda>k. Inr (f k)) = consolidate_with from_err c coord (\<lambda>k. Inr (f k))"
proof -
  have w: "\<forall>ws \<in> set wss. distinct (map fst ws)"
    using dim_weights_total [OF cube_wf_D(1) [OF assms(1)] assms(2)] assms(4) by auto
  have cover: "\<And>k. k \<in> under wss \<Longrightarrow> f k \<noteq> 0 \<Longrightarrow> k \<in> fst ` set (cell_entries c) \<union> set fed"
    using assms(6) by blast
  show ?thesis
    using consolidate_fed_spec [where f = f and from_err = from_err, OF assms(1-4) w assms(5) cover]
      consolidate_with_spec [OF assms(2-4) w, of from_err f] by simp
qed

theorem fed_read_agrees_witness:
  "consolidate_fed id sample_cube [0, 0] [[1, 0], [2, 0]] (\<lambda>k. Inr (if k = [2, 0] then 9 else 4)) =
   consolidate_with id sample_cube [0, 0] (\<lambda>k. Inr (if k = [2, 0] then 9 else 4))"
  by (rule fed_read_agrees [OF sample_cube_wf sample_total sample_weights])
     (auto simp: rank_def under_simps)

text \<open>\<open>same_members\<close>: two coordinates, of the cube before and after an edit, that name the same members.
  \<open>placed\<close>: the names of a dimension after a new one is put at the end, before or after another one.\<close>

definition same_members :: "cube \<Rightarrow> coord \<Rightarrow> cube \<Rightarrow> coord \<Rightarrow> bool" where
  "same_members c k c' k' \<longleftrightarrow> length k' = length k \<and>
     (\<forall>d < length k. el_name (elements (dims c' ! d) ! (k' ! d)) = el_name (elements (dims c ! d) ! (k ! d)))"

fun placed :: "insert_position \<Rightarrow> string \<Rightarrow> string list \<Rightarrow> string list \<Rightarrow> bool" where
  "placed AtEnd name old new \<longleftrightarrow> new = old @ [name]"
| "placed (Before anchor) name old new \<longleftrightarrow> (\<exists>xs ys. old = xs @ anchor # ys \<and> new = xs @ name # anchor # ys)"
| "placed (After anchor) name old new \<longleftrightarrow> (\<exists>xs ys. old = xs @ anchor # ys \<and> new = xs @ anchor # name # ys)"

lemma placed_insert:
  assumes "dim_wf d" and "length (elements d) < u32_max"
    and at: "(case pos of AtEnd \<Rightarrow> Inr (dim_len d) | Before anchor \<Rightarrow> element_of dimension d anchor
       | After anchor \<Rightarrow> bindE (element_of dimension d anchor) (\<lambda>i. Inr (i + 1))) = Inr at"
    and ins: "insert_at name kind at d = Inr ((k, to_new), d')"
  shows "placed pos name (map el_name (elements d)) (map el_name (elements d'))"
proof -
  let ?old = "map el_name (elements d)"
  have len: "as_u32 (length (elements d)) = length (elements d)" using assms(2) by (simp add: as_u32_def u32_max_def)
  have new: "map el_name (elements d') = insert_at_pos (min at (length ?old)) name ?old"
    using ins len by (auto simp: insert_at_def Let_def reindex_names_def map_insert_at_pos split: if_splits)
  have cut: "?old = take i ?old @ a # drop (Suc i) ?old \<and> i < length ?old" if "element_of dimension d a = Inr i" for a i
  proof -
    have i: "i < length ?old" "?old ! i = a"
      using that index_of_Some [OF assms(1), of a i] by (auto simp: element_of_def split: option.splits)
    with id_take_nth_drop [OF i(1)] show ?thesis by simp
  qed
  show ?thesis
  proof (cases pos)
    case AtEnd
    with at new len show ?thesis by (simp add: insert_at_pos_def dim_len_def)
  next
    case (Before a)
    with at have i: "element_of dimension d a = Inr at" by simp
    note c = cut [OF i]
    have "drop at ?old = a # drop (Suc at) ?old" using c by (metis append_take_drop_id same_append_eq)
    then show ?thesis using c new Before
      by (simp add: insert_at_pos_def min_def) (metis append_take_drop_id)
  next
    case (After a)
    with at obtain i where i: "element_of dimension d a = Inr i" "at = Suc i" by auto
    note c = cut [OF i(1)]
    have "take (Suc i) ?old = take i ?old @ [a]" using c by (metis take_Suc_conv_app_nth nth_append_length length_take min.absorb2 less_imp_le)
    then show ?thesis using c new After i(2)
      by (simp add: insert_at_pos_def min_def) blast
  qed
qed

lemma reorder_names_dims:
  assumes "cube_wf c" and "reorder_elements dimension names c = Inr c'" and "dimension_index c dimension = Inr d"
  shows "map el_name (elements (dims c' ! d)) = names"
proof -
  have dl: "d < length (dims c)" using dim_index_bound [OF assms(3)] by simp
  obtain to_new d' where r: "reorder names (dims c ! d) = Inr (to_new, d')"
    "c' = remap_cells_for_dimension d to_new (put_dim d d' c)"
    using assms(2,3) by (auto simp: reorder_elements_def)
  with reorder_Inr [OF wf_nth [OF assms(1) dl] r(1)] dl show ?thesis
    by (simp add: remap_cells_for_dimension_def put_dim_def rebuild_stores_def)
qed

lemma insert_names_dims:
  assumes "cube_wf c" and "room 1 (dims c)" and "insert_element_at dimension name kind pos c = Inr c'"
    and "dimension_index c dimension = Inr d"
  shows "placed pos name (map el_name (elements (dims c ! d))) (map el_name (elements (dims c' ! d)))"
proof -
  have dl: "d < length (dims c)" using dim_index_bound [OF assms(4)] by simp
  obtain at k to_new d' where r: "insert_at name kind at (dims c ! d) = Inr ((k, to_new), d')"
    "c' = remap_cells_for_dimension d to_new (put_dim d d' c)" and
    at: "(case pos of AtEnd \<Rightarrow> Inr (dim_len (dims c ! d)) | Before anchor \<Rightarrow> element_of dimension (dims c ! d) anchor
       | After anchor \<Rightarrow> bindE (element_of dimension (dims c ! d) anchor) (\<lambda>i. Inr (i + 1))) = Inr at"
    using assms(3,4) by (auto simp: insert_element_at_def Let_def)
  have "length (elements (dims c ! d)) < u32_max" using roomD [OF assms(2) dl] by simp
  from placed_insert [OF wf_nth [OF assms(1) dl] this at r(1)] r(2) dl show ?thesis
    by (simp add: remap_cells_for_dimension_def put_dim_def rebuild_stores_def)
qed

lemma same_name:
  assumes "dim_wf d" and "i < length (elements d)" and "j < length (elements d)"
    and "el_name (elements d ! i) = el_name (elements d ! j)"
  shows "i = j"
  using index_of_Some [OF assms(1), of "el_name (elements d ! i)"] assms(2-4) by (metis option.inject)

lemma full_rename_members:
  assumes fr: "full_rename d to_new c c'" and k: "in_range (dims c) k"
  shows "same_members c k c' (rename_to d to_new k)"
    and "in_range (dims c') k' \<Longrightarrow> same_members c k c' k' \<Longrightarrow> k' = rename_to d to_new k"
    and "str c' (rename_to d to_new k) = str c k"
proof -
  obtain d' where w: "cube_wf c" "cube_wf c'" "d < length (dims c)" "dims c' = (dims c)[d := d']"
    "rename_core to_new (dims c ! d) d'" "moved (rename_coord d to_new) (rename_coord d to_new) c c'"
    by (rule full_rename_D [OF fr])
  note F = rename_to_facts [OF fr k]
  note at = rename_core_D(1,2) [OF w(5) F(6,7)]
  show same: "same_members c k c' (rename_to d to_new k)"
    using at F(5) w(3) by (simp add: same_members_def rename_to_def w(4) nth_list_update)
  show "k' = rename_to d to_new k" if k': "in_range (dims c') k'" "same_members c k c' k'"
  proof (rule nth_equalityI)
    show "length k' = length (rename_to d to_new k)" using k'(2) by (simp add: same_members_def rename_to_def)
    fix x assume "x < length k'"
    then have x: "x < length (dims c')" "x < length k" using k' by (simp_all add: in_range_nth same_members_def)
    show "k' ! x = rename_to d to_new k ! x"
      by (rule same_name [OF wf_nth [OF w(2) x(1)]])
         (use k' F(2) same x in \<open>simp_all add: in_range_nth same_members_def\<close>)
  qed
  show "str c' (rename_to d to_new k) = str c k"
    by (rule moved_text [OF w(6) k F(1,2)]) (rule rename_to_inj [OF w(5,3) k _ F(6,7)])
qed

text \<open>C3: A reorder gives the dimension the requested order of names, an insert puts the new name where
  it was asked for and keeps the order of the others; no other dimension changes. Every value follows
  its members: each old coordinate has a coordinate of the edited cube that names the same members, and
  whenever two coordinates name the same members, leaf or consolidated, they read the same number and
  the same text. A dimension is assumed to have room for one more element below \<open>u32::MAX\<close>.\<close>

theorem reorder_insert_keep_values:
  assumes "cube_wf c" and "room 1 (dims c)"
    and "reorder_elements dimension names c = Inr c' \<or> insert_element_at dimension name kind pos c = Inr c'"
  shows "cube_wf c' \<and>
     (\<exists>d. dimension_index c dimension = Inr d \<and> dims c' = (dims c)[d := dims c' ! d] \<and>
        (reorder_elements dimension names c = Inr c' \<longrightarrow> map el_name (elements (dims c' ! d)) = names) \<and>
        (insert_element_at dimension name kind pos c = Inr c' \<longrightarrow>
           placed pos name (map el_name (elements (dims c ! d))) (map el_name (elements (dims c' ! d))))) \<and>
     (\<forall>k. in_range (dims c) k \<longrightarrow> (\<exists>k'. in_range (dims c') k' \<and> same_members c k c' k')) \<and>
     (\<forall>k k'. in_range (dims c) k \<and> in_range (dims c') k' \<and> same_members c k c' k' \<longrightarrow>
        get c' k' = get c k \<and> get_string c' k' = get_string c k)"
proof -
  obtain d to_new where d: "dimension_index c dimension = Inr d" and fr: "full_rename d to_new c c'"
    using edit_full_rename [OF assms] by blast
  obtain d' where w: "cube_wf c'" "d < length (dims c)" "dims c' = (dims c)[d := d']" by (rule full_rename_D [OF fr])
  have str: "get_string e j = Inr (str e j)" if "in_range (dims e) j" for e j
    using that check_coord_Inr [of e j] by (simp add: get_string_def str_def str_id_def)
  have "get c' k' = get c k \<and> get_string c' k' = get_string c k"
    if "in_range (dims c) k" "in_range (dims c') k'" "same_members c k c' k'" for k k'
    using full_rename_members(2) [OF fr that(1-3)] full_rename_members(3) [OF fr that(1)]
      rename_keeps_reads [OF fr that(1)] str that(1,2) by simp
  moreover have "\<exists>k'. in_range (dims c') k' \<and> same_members c k c' k'" if "in_range (dims c) k" for k
    using rename_to_facts(2) [OF fr that] full_rename_members(1) [OF fr that] by blast
  moreover have "dims c' = (dims c)[d := dims c' ! d]" using w(2,3) by simp
  ultimately show ?thesis
    using w(1) d reorder_names_dims [OF assms(1) _ d] insert_names_dims [OF assms(1,2) _ d] by blast
qed

lemma sample_dim_index: "dimension_index sample_cube ''Region'' = Inr 0"
  by (simp add: dimension_index_def sample_dim_eval)

theorem reorder_insert_keep_values_witness:
  "\<exists>c' k'. insert_element_at ''Region'' ''W'' Leaf (Before ''S'') sample_cube = Inr c' \<and>
     map el_name (elements (dims c' ! 0)) = [''Total'', ''N'', ''W'', ''S'', ''Note''] \<and>
     same_members sample_cube [0, 0] c' k' \<and> get c' k' = get sample_cube [0, 0]"
proof -
  obtain c' where c': "insert_element_at ''Region'' ''W'' Leaf (Before ''S'') sample_cube = Inr c'"
    by (simp add: insert_element_at_def sample_dim_index Let_def element_of_def index_of_def insert_at_def
        sample_dim_eval)
  have "room 1 (dims sample_cube)" by (simp add: room_def sample_dim_eval sample_measure_eval u32_max_def)
  note K = reorder_insert_keep_values [OF sample_cube_wf this disjI2 [OF c']]
  from K c' have "placed (Before ''S'') ''W'' (map el_name (elements sample_dim)) (map el_name (elements (dims c' ! 0)))"
    by (simp add: sample_dim_index)
  then have "map el_name (elements (dims c' ! 0)) = [''Total'', ''N'', ''W'', ''S'', ''Note'']"
    by (auto simp: sample_dim_eval Cons_eq_append_conv)
  moreover obtain k' where k': "in_range (dims c') k'" "same_members sample_cube [0, 0] c' k'"
    using conjunct1 [OF conjunct2 [OF conjunct2 [OF K]]] sample_total(1) by blast
  moreover from k' have "get c' k' = get sample_cube [0, 0]"
    using conjunct2 [OF conjunct2 [OF conjunct2 [OF K]]] sample_total(1) by blast
  ultimately show ?thesis using c' k'(2) by (intro exI conjI)
qed

text \<open>C6: Converting, reparenting, adding or removing a child keeps the cube well-formed and drops
  exactly the cells that the new element kinds no longer allow: a numeric cell survives, with its
  value, when its coordinate is still all leaves, a string cell when its coordinate still addresses
  a string element and no consolidation.\<close>

theorem kind_edits_drop_invalid_cells:
  assumes "cube_wf c" and "in_i64 w"
    and "set_element_kind dimension name kind c = Inr c' \<or>
         reparent_element dimension child parent w c = Inr c' \<or>
         add_child_element dimension name child w c = Inr c' \<or>
         remove_child_element dimension name child c = Inr c'"
  shows "cube_wf c' \<and> pool c' = pool c \<and> (\<forall>j. in_range (dims c') j \<longrightarrow>
     (\<forall>v. num c' j = Some v \<longleftrightarrow> in_range (dims c) j \<and> leaf_coord (dims c') j \<and> num c j = Some v) \<and>
     (\<forall>i. str_id c' j = Some i \<longleftrightarrow> in_range (dims c) j \<and> string_coord (dims c') j \<and> str_id c j = Some i))"
proof -
  have "revalidated c c'"
    using assms(3) set_element_kind_revalidates [OF assms(1)] reparent_element_revalidates [OF assms(1,2)]
      add_child_element_revalidates [OF assms(1,2)] remove_child_element_revalidates [OF assms(1)] by blast
  then show ?thesis by (auto simp: revalidated_def moved_def)
qed

theorem kind_edits_drop_invalid_cells_witness:
  "\<exists>c'. set_element_kind ''Region'' ''N'' Str sample_cube = Inr c' \<and> cube_wf c'"
proof -
  obtain c' where c': "set_element_kind ''Region'' ''N'' Str sample_cube = Inr c'"
    by (simp add: set_element_kind_def sample_dim_index element_of_def index_of_def set_kind_def
        get_element_def sample_dim_eval)
  then show ?thesis
    using kind_edits_drop_invalid_cells [OF sample_cube_wf _ disjI1 [OF c'], of 0] by auto
qed

text \<open>Growing the schema keeps every cell: the stores are re-packed only when the layout
  changed, and every coordinate in range before the growth reads the same leaf and string cells
  after it, while coordinates of the new elements are empty.\<close>

theorem extend_schema_keeps_cells:
  assumes "cube_wf c" and "room (length elems) (dims c)" and "\<forall>e \<in> set edges. in_i64 (gs_weight e)"
    and "extend_schema elems edges c = Inr (n, c')"
  shows "cube_wf c' \<and> extends (dims c) (dims c') \<and> (\<forall>j. in_range (dims c') j \<longrightarrow>
     num c' j = (if in_range (dims c) j then num c j else None) \<and>
     str c' j = (if in_range (dims c) j then str c j else None))"
proof -
  note E = extend_schema_wf [OF assms]
  have "num c' j = (if in_range (dims c) j then num c j else None) \<and>
     str_id c' j = (if in_range (dims c) j then str_id c j else None) \<and> pool c' = pool c"
    if "in_range (dims c') j" for j
  proof -
    have "num c' j = Some v \<longleftrightarrow> in_range (dims c) j \<and> num c j = Some v"
      "str_id c' j = Some i \<longleftrightarrow> in_range (dims c) j \<and> str_id c j = Some i" for v i
      using E that by (auto simp: moved_def)
    moreover have "pool c' = pool c" using E by (simp add: moved_def)
    ultimately show ?thesis by (metis not_None_eq)
  qed
  with E show ?thesis by (auto simp: str_def)
qed

theorem extend_schema_keeps_cells_witness:
  "\<exists>n c'. extend_schema [\<lparr>es_dimension = ''Region'', es_name = ''W'', es_kind = Leaf\<rparr>] [] sample_cube = Inr (n, c') \<and>
     num c' [1, 0] = num sample_cube [1, 0]"
proof -
  let ?es = "[\<lparr>es_dimension = ''Region'', es_name = ''W'', es_kind = Leaf\<rparr>]"
  obtain n c' where c': "extend_schema ?es [] sample_cube = Inr (n, c')"
    by (simp add: extend_schema_def apply_growth_def find_dim_def Let_def index_of_def sample_dim_eval)
  have "room (length ?es) (dims sample_cube)" by (simp add: room_def sample_dim_eval sample_measure_eval u32_max_def)
  note K = extend_schema_keeps_cells [OF sample_cube_wf this _ c']
  have r: "in_range (dims sample_cube) [1, 0]" by (simp add: in_range_def sample_dim_eval sample_measure_eval)
  have "extends (dims sample_cube) (dims c')" using K by simp
  then have "in_range (dims c') [1, 0]" using r by (rule extends_coord(1))
  with K r have "num c' [1, 0] = num sample_cube [1, 0]" by (simp del: sample_dims)
  with c' show ?thesis by blast
qed

text \<open>Compacting the string pool loses nothing: every string cell reads the same text, the
  numeric cells are untouched, and the count returned is the number of strings dropped.\<close>

theorem compaction_is_lossless:
  assumes "cube_wf c" and "compact_string_pool c = (n, c')"
  shows "cube_wf c' \<and> dims c' = dims c \<and> num c' = num c \<and>
     (\<forall>k. in_range (dims c) k \<longrightarrow> get_string c' k = get_string c k) \<and>
     string_pool_len c' + n = string_pool_len c"
proof -
  note P = compact_pool_spec [OF assms]
  have "get_string c' k = get_string c k" if k: "in_range (dims c) k" for k
  proof -
    have "get_string x k = Inr (str x k)" if "in_range (dims x) k" for x
      using check_coord_Inr [of x k] that by (simp add: get_string_def str_def str_id_def)
    then show ?thesis using P k by simp
  qed
  with P show ?thesis by (simp add: string_pool_len_def)
qed

theorem compaction_is_lossless_witness:
  "\<exists>n c'. compact_string_pool sample_cube = (n, c') \<and> get_string c' [1, 1] = get_string sample_cube [1, 1]"
proof -
  obtain n c' where c: "compact_string_pool sample_cube = (n, c')" by force
  have "in_range (dims sample_cube) [1, 1]" by (simp add: in_range_def sample_dim_eval sample_measure_eval)
  with compaction_is_lossless [OF sample_cube_wf c] c show ?thesis by blast
qed

section \<open>Two limits of the consolidating reads\<close>

text \<open>A dimension whose total weighs its only leaf by \<open>2 ^ 43\<close>, and a cube of three of them.\<close>

definition heavy_dim :: dimension where
  "heavy_dim = run_ops [OpAddElement ''T'' Consolidated, OpAddElement ''A'' Leaf, OpAddChild 0 1 8796093022208]
     (dim_new ''H'')"

definition heavy_cube0 :: cube where
  "heavy_cube0 = (case cube_new ''Heavy'' [heavy_dim, heavy_dim, heavy_dim] of Inr c \<Rightarrow> c)"

definition heavy_cube :: cube where
  "heavy_cube = (case set_leaf [1, 1, 1] 1 heavy_cube0 of Inr c \<Rightarrow> c)"

lemma heavy_dim_eval:
  "heavy_dim =
     \<lparr>dim_name = ''H'',
      elements = [\<lparr>el_name = ''T'', el_kind = Consolidated, el_pinned = False\<rparr>,
        \<lparr>el_name = ''A'', el_kind = Leaf, el_pinned = False\<rparr>],
      index_by_name = [''T'' \<mapsto> 0, ''A'' \<mapsto> 1],
      children = [[\<lparr>edge_child = 1, edge_weight = 8796093022208\<rparr>], []],
      attributes = [], attr_index_by_name = Map.empty, attr_values = [[], []], alias_to_element = Map.empty\<rparr>"
  by (simp add: heavy_dim_def run_eval)

lemma heavy_weights: "leaf_weights heavy_dim 0 = Inr [(1, 8796093022208)]"
  by (simp add: leaf_weights_def get_element_def heavy_dim_eval sat_i64_def i64_max_def i64_min_def)

lemma heavy_layout:
  "layout_new [heavy_dim, heavy_dim, heavy_dim] = \<lparr>offsets = [0, 1, 2], masks = [1, 1, 1], narrow = True\<rparr>"
  by (simp add: layout_new_def dim_len_def heavy_dim_eval bits_for_def leading_zeros32_def bit_len.simps
      u32_max_def as_u32_def)

lemma heavy_cube0_eval:
  "heavy_cube0 = \<lparr>cube_name = ''Heavy'', dims = [heavy_dim, heavy_dim, heavy_dim],
     lay = \<lparr>offsets = [0, 1, 2], masks = [1, 1, 1], narrow = True\<rparr>, cells = Narrow [],
     string_cells = Narrow [], pool = pool_empty\<rparr>"
  by (simp add: heavy_cube0_def cube_new_def Let_def heavy_layout store_new_def)

lemma heavy_cube_eval:
  "heavy_cube = \<lparr>cube_name = ''Heavy'', dims = [heavy_dim, heavy_dim, heavy_dim],
     lay = \<lparr>offsets = [0, 1, 2], masks = [1, 1, 1], narrow = True\<rparr>, cells = Narrow [(7, 1)],
     string_cells = Narrow [], pool = pool_empty\<rparr>"
  by (simp add: heavy_cube_def heavy_cube0_eval set_leaf_def
      check_leaf_write_def check_coord_def leaf_check_def rank_def get_element_def heavy_dim_eval
      is_zero_def pack_def push_bit_eq_mult)

text \<open>The 128-bit products of the weights wrap: three totals, each weighing its leaf by
  \<open>2 ^ 43\<close>, give a cell of value 1 the weight \<open>2 ^ 129\<close>, and reading the total of that cube
  returns zero where the exact sum calls for an overflow.\<close>

theorem heavy_weights_wrap_to_zero:
  "get_leaf heavy_cube [1, 1, 1] = Inr 1 \<and>
   dim_weights (dims heavy_cube) [0, 0, 0] = Inr (replicate 3 [(1, 8796093022208)]) \<and>
   rollup (replicate 3 [(1, 8796093022208)]) (leaf_value heavy_cube) = 2 ^ 129 \<and>
   get heavy_cube [0, 0, 0] = Inr 0"
proof (intro conjI)
  show "get_leaf heavy_cube [1, 1, 1] = Inr 1"
    by (simp add: get_leaf_def check_coord_def rank_def get_element_def heavy_dim_eval leaf_value_def
        heavy_cube_eval pack_def push_bit_eq_mult)
  show w: "dim_weights (dims heavy_cube) [0, 0, 0] = Inr (replicate 3 [(1, 8796093022208)])"
    by (simp add: heavy_cube_eval heavy_weights numeral_3_eq_3)
  show "rollup (replicate 3 [(1, 8796093022208)]) (leaf_value heavy_cube) = 2 ^ 129"
    by (simp add: rollup_def numeral_3_eq_3 under_simps leaf_value_def heavy_cube_eval pack_def push_bit_eq_mult)
  show "get heavy_cube [0, 0, 0] = Inr 0"
    using w
    by (simp add: get_def check_coord_def all_numeric_leaf_def rank_def get_element_def heavy_dim_eval
        heavy_cube_eval acc_cell_def component_def as_u32_def to_fixed_def checked_i64_def
        numeral_3_eq_3 wrap128_def)
qed

end
