(* ===== verification/Rule_Ast.thy ===== *)
theory Rule_Ast
  imports Prelude
begin

text \<open>
  Abstract syntax of the rules language (\<open>crates/epiphany-calc/src/rules/ast.rs\<close>): an ordered
  list of \<open>area = formula;\<close> statements. A number literal keeps its text. Spans are byte ranges
  of the source; the canonical text (\<open>Display\<close>) does not show them.
\<close>

record span =
  span_start :: nat
  span_end :: nat

datatype scope = Unmarked | LeafScope | ConsolidatedScope

definition targets_consolidated :: "scope \<Rightarrow> bool" where
  "targets_consolidated s \<longleftrightarrow> s = ConsolidatedScope"

datatype arith_op = Add | Sub | Mul | Div

datatype cmp_op = CmpEq | CmpNe | CmpLt | CmpLe | CmpGt | CmpGe

datatype lit = LitStr string | LitNumber string

datatype selector_kind =
    SelElement string
  | SelAttr string cmp_op lit
  | SelChildren string
  | SelDescendants string
  | SelLeaves
  | SelConsolidated
  | SelAll

record dim_selector =
  sel_dimension :: string
  sel_kind :: selector_kind
  sel_span :: span

record area =
  area_scope :: scope
  selectors :: "dim_selector list"

datatype member_expr = MemElement string | MemAttr string

record dim_override =
  ov_dimension :: string
  ov_member :: member_expr

record cell_ref =
  ref_cube :: "string option"
  overrides :: "dim_override list"
  mapping :: "(string \<times> string) list"
  ref_span :: span

datatype builtin_func = FAttr | FAttrNum | FIsLeaf | FElementName | FUndef

datatype expr =
    ENumber string
  | EStr string
  | ECell cell_ref
  | ENeg expr
  | EBin arith_op expr expr
  | EIf cond expr "expr option"
  | EFunc builtin_func "func_arg list" span
and func_arg = AStr string | AExpr expr
and cond =
    CondAnd cond cond
  | CondOr cond cond
  | CondNot cond
  | CondCompare expr cmp_op expr

record rule =
  rule_area :: area
  formula :: expr
  rule_span :: span

type_synonym rule_doc = "rule list"

fun func_name :: "builtin_func \<Rightarrow> string" where
  "func_name FAttr = ''Attr''"
| "func_name FAttrNum = ''AttrNum''"
| "func_name FIsLeaf = ''IsLeaf''"
| "func_name FElementName = ''ElementName''"
| "func_name FUndef = ''Undef''"

end
