(* ===== verification/Calc_Model.thy ===== *)
theory Calc_Model
  imports Rule_Ast Cube
begin

text \<open>
  The compiled, index-addressed form of a rule set (\<open>crates/epiphany-calc/src/compiled.rs\<close>).
  A rule fires on the coordinates of its area; the first rule in author order wins. Indexing a
  list out of range panics in the code; here the result is then \<open>None\<close>.
\<close>

datatype addr_slot = Pinned nat | FromTarget nat

record ccell =
  cell_cube :: nat
  addr :: "addr_slot list"

datatype cexpr =
    CNum fixed
  | CCell ccell
  | CAttrNum nat nat
  | CUndef
  | CNeg cexpr
  | CBin arith_op cexpr cexpr
  | CIf ccond cexpr "cexpr option"
and ccond =
    CAnd ccond ccond
  | COr ccond ccond
  | CNot ccond
  | CCompare cexpr cmp_op cexpr

datatype dim_predicate = AnyMember | OneOf "nat list"

record compiled_area =
  per_dim :: "dim_predicate list"
  area_consolidated :: bool

record compiled_rule =
  area :: compiled_area
  cexpr :: cexpr
  crule_span :: span

record compiled_model =
  version :: nat
  rules :: "compiled_rule list"

text \<open>The sets of \<open>OneOf\<close> are sorted, so the binary search of the code is membership.\<close>

fun pred_matches :: "bool \<Rightarrow> dimension option \<Rightarrow> dim_predicate \<Rightarrow> nat \<Rightarrow> bool option" where
  "pred_matches consolidated dim (OneOf s) i = Some (i \<in> set s)"
| "pred_matches consolidated None AnyMember i = None"
| "pred_matches consolidated (Some d) AnyMember i =
     Some (case get_element d i of Inl _ \<Rightarrow> False | Inr e \<Rightarrow> is_leaf (el_kind e) \<noteq> consolidated)"

definition nth_dim :: "cube \<Rightarrow> nat \<Rightarrow> dimension option" where
  "nth_dim c d = (if d < length (dims c) then Some (dims c ! d) else None)"

fun preds_match :: "bool \<Rightarrow> cube \<Rightarrow> nat \<Rightarrow> dim_predicate list \<Rightarrow> coord \<Rightarrow> bool option" where
  "preds_match consolidated c d (p # ps) (i # is) =
     (case pred_matches consolidated (nth_dim c d) p i of
        None \<Rightarrow> None
      | Some ok \<Rightarrow> if ok then preds_match consolidated c (d + 1) ps is else Some False)"
| "preds_match consolidated c d _ _ = Some True"

definition area_matches :: "compiled_area \<Rightarrow> cube \<Rightarrow> coord \<Rightarrow> bool option" where
  "area_matches a c coord =
     (if length coord \<noteq> length (per_dim a) then Some False
      else preds_match (area_consolidated a) c 0 (per_dim a) coord)"

text \<open>The first rule whose area matches; the outer \<open>None\<close> is a panic.\<close>

fun first_match :: "cube \<Rightarrow> coord \<Rightarrow> nat \<Rightarrow> compiled_rule list \<Rightarrow> nat option option" where
  "first_match c coord n [] = Some None"
| "first_match c coord n (r # rs) =
     (case area_matches (area r) c coord of
        None \<Rightarrow> None
      | Some ok \<Rightarrow> if ok then Some (Some n) else first_match c coord (n + 1) rs)"

definition matching_rule :: "compiled_model \<Rightarrow> cube \<Rightarrow> coord \<Rightarrow> nat option option" where
  "matching_rule cm c coord = first_match c coord 0 (rules cm)"

end
