(* ===== verification/Element_Mask.thy ===== *)
theory Element_Mask
  imports Consolidate
begin

text \<open>
  The element-security deny mask (\<open>crates/epiphany-core/src/element_mask.rs\<close>): one bit list per
  dimension position. \<open>denies_leaf\<close> looks the named elements up, \<open>denies\<close> also the numeric
  leaves each of them rolls up.
\<close>

record element_mask =
  denied :: "bool list list"

fun set_bits :: "bool list \<Rightarrow> nat list \<Rightarrow> bool list" where
  "set_bits bits [] = bits"
| "set_bits bits (i # is) = set_bits (if i < length bits then bits[i := True] else bits) is"

definition from_denied :: "nat list \<Rightarrow> nat list list \<Rightarrow> element_mask" where
  "from_denied element_counts denied_indices =
     \<lparr>denied = map (\<lambda>(d, cnt). set_bits (replicate cnt False)
         (if d < length denied_indices then denied_indices ! d else []))
       (List.enumerate 0 element_counts)\<rparr>"

definition mask_is_empty :: "element_mask \<Rightarrow> bool" where
  "mask_is_empty m \<longleftrightarrow> list_all (\<lambda>s. \<not> list_ex (\<lambda>b. b) s) (denied m)"

definition denied_pairs :: "element_mask \<Rightarrow> (nat \<times> nat) list" where
  "denied_pairs m =
     concat (map (\<lambda>(dim, bits). map (\<lambda>(i, _). (as_u32 dim, as_u32 i))
                                  (filter snd (List.enumerate 0 bits)))
       (List.enumerate 0 (denied m)))"

definition dim_has_denials :: "element_mask \<Rightarrow> nat \<Rightarrow> bool" where
  "dim_has_denials m dim \<longleftrightarrow> dim < length (denied m) \<and> list_ex (\<lambda>b. b) (denied m ! dim)"

definition index_denied :: "element_mask \<Rightarrow> nat \<Rightarrow> nat \<Rightarrow> bool" where
  "index_denied m dim i \<longleftrightarrow> dim < length (denied m) \<and> i < length (denied m ! dim) \<and> denied m ! dim ! i"

definition denies_leaf :: "element_mask \<Rightarrow> coord \<Rightarrow> bool" where
  "denies_leaf m coord \<longleftrightarrow> list_ex (\<lambda>(d, i). index_denied m d i) (List.enumerate 0 coord)"

definition member_denied :: "element_mask \<Rightarrow> cube \<Rightarrow> nat \<Rightarrow> nat \<Rightarrow> bool" where
  "member_denied m c dim member \<longleftrightarrow>
     dim_has_denials m dim \<and>
     (index_denied m dim member \<or>
      dim < length (dims c) \<and>
        (case leaf_weights (dims c ! dim) member of
           Inl _ \<Rightarrow> False
         | Inr ws \<Rightarrow> list_ex (\<lambda>(leaf, _). index_denied m dim leaf) ws))"

definition denies :: "element_mask \<Rightarrow> cube \<Rightarrow> coord \<Rightarrow> bool" where
  "denies m c coord \<longleftrightarrow> list_ex (\<lambda>(d, i). member_denied m c d i) (List.enumerate 0 coord)"

definition denies_member :: "element_mask \<Rightarrow> cube \<Rightarrow> nat \<Rightarrow> nat \<Rightarrow> bool" where
  "denies_member m c dim member \<longleftrightarrow> member_denied m c dim member"

section \<open>What a mask denies\<close>

lemma list_ex_enumerate: "list_ex (\<lambda>(d, x). P d x) (List.enumerate 0 xs) \<longleftrightarrow> (\<exists>d < length xs. P d (xs ! d))"
  by (auto simp: list_ex_iff in_set_enumerate_eq)

lemma set_bits_nth:
  "length (set_bits bits is) = length bits \<and>
   (\<forall>j < length bits. set_bits bits is ! j \<longleftrightarrow> bits ! j \<or> j \<in> set is)"
proof (induction "is" arbitrary: bits)
  case (Cons i "is")
  then show ?case by (auto simp: nth_list_update)
qed simp

lemma index_denied_from_denied:
  "index_denied (from_denied cs ds) d i \<longleftrightarrow>
     d < length cs \<and> i < cs ! d \<and> d < length ds \<and> i \<in> set (ds ! d)"
proof (cases "d < length cs")
  case True
  let ?is = "if d < length ds then ds ! d else []"
  have "denied (from_denied cs ds) ! d = set_bits (replicate (cs ! d) False) ?is"
    "length (denied (from_denied cs ds)) = length cs"
    using True by (simp_all add: from_denied_def nth_enumerate_eq)
  moreover have "length (set_bits (replicate (cs ! d) False) ?is) = cs ! d"
    using conjunct1 [OF set_bits_nth [of "replicate (cs ! d) False" ?is]] by simp
  moreover have "set_bits (replicate (cs ! d) False) ?is ! i \<longleftrightarrow> i \<in> set ?is" if "i < cs ! d"
    using conjunct2 [OF set_bits_nth [of "replicate (cs ! d) False" ?is], THEN spec [of _ i]] that by simp
  ultimately show ?thesis using True by (cases "i < cs ! d") (simp_all add: index_denied_def)
qed (simp add: index_denied_def from_denied_def)

lemma denies_leaf_iff: "denies_leaf m k \<longleftrightarrow> (\<exists>d < length k. index_denied m d (k ! d))"
  by (simp add: denies_leaf_def list_ex_enumerate)

lemma index_denied_dim: "index_denied m d i \<Longrightarrow> dim_has_denials m d"
  unfolding index_denied_def dim_has_denials_def list_ex_length by blast

lemma member_denied_iff:
  "member_denied m c d i \<longleftrightarrow> index_denied m d i \<or>
     d < length (dims c) \<and> (\<exists>ws. leaf_weights (dims c ! d) i = Inr ws \<and> (\<exists>l \<in> fst ` set ws. index_denied m d l))"
proof -
  have "dim_has_denials m d" if "index_denied m d l" for l using that by (rule index_denied_dim)
  then show ?thesis
    by (cases "leaf_weights (dims c ! d) i") (auto simp: member_denied_def list_ex_iff split_def)
qed

text \<open>A coordinate is denied when a named element is, or a leaf of the rollup of one.\<close>

lemma denies_iff: "denies m c k \<longleftrightarrow> (\<exists>d < length k. member_denied m c d (k ! d))"
  by (simp add: denies_def list_ex_enumerate)

lemma mask_empty_iff: "mask_is_empty m \<longleftrightarrow> (\<forall>d i. \<not> index_denied m d i)"
proof -
  have "mask_is_empty m \<longleftrightarrow> (\<forall>d < length (denied m). \<forall>i < length (denied m ! d). \<not> denied m ! d ! i)"
    by (simp add: mask_is_empty_def list_all_length list_ex_length)
  then show ?thesis by (auto simp: index_denied_def)
qed

lemma denied_pairs_image:
  "set (denied_pairs m) = (\<lambda>(d, i). (as_u32 d, as_u32 i)) ` {(d, i). index_denied m d i}"
proof -
  have row: "set (map (\<lambda>(i, _). (as_u32 d, as_u32 i)) (filter snd (List.enumerate 0 bits)))
      = (\<lambda>i. (as_u32 d, as_u32 i)) ` {i. i < length bits \<and> bits ! i}" for d bits
    by (auto simp: in_set_enumerate_eq image_iff)
  have "p \<in> set (denied_pairs m) \<longleftrightarrow>
      (\<exists>d < length (denied m). \<exists>i < length (denied m ! d). denied m ! d ! i \<and> p = (as_u32 d, as_u32 i))" for p
  proof -
    have "p \<in> set (denied_pairs m) \<longleftrightarrow> (\<exists>(d, bits) \<in> set (List.enumerate 0 (denied m)).
        p \<in> (\<lambda>i. (as_u32 d, as_u32 i)) ` {i. i < length bits \<and> bits ! i})"
      unfolding denied_pairs_def set_concat set_map row [symmetric] by (simp add: split_def)
    also have "\<dots> \<longleftrightarrow> (\<exists>d < length (denied m). p \<in> (\<lambda>i. (as_u32 d, as_u32 i)) `
        {i. i < length (denied m ! d) \<and> denied m ! d ! i})"
      by (simp add: in_set_enumerate_eq Bex_def)
    finally show ?thesis by (auto simp: image_iff)
  qed
  then show ?thesis by (auto simp: index_denied_def image_iff set_eq_iff)
qed

lemma denied_pairs_set:
  assumes "length (denied m) \<le> u32_max" and "\<forall>bits \<in> set (denied m). length bits \<le> u32_max"
  shows "set (denied_pairs m) = {(d, i). index_denied m d i}"
proof -
  have "d \<le> u32_max \<and> i \<le> u32_max" if "index_denied m d i" for d i
  proof -
    have d: "d < length (denied m)" "i < length (denied m ! d)" using that by (simp_all add: index_denied_def)
    then show ?thesis using assms nth_mem [OF d(1)] by fastforce
  qed
  then have "(\<lambda>(d, i). (as_u32 d, as_u32 i)) ` {(d, i). index_denied m d i} = id ` {(d, i). index_denied m d i}"
    by (intro image_cong [OF refl]) auto
  then show ?thesis by (simp add: denied_pairs_image)
qed

end
