(* ===== verification/Calc_Eval.thy ===== *)
theory Calc_Eval
  imports Calc_Model Element_Mask
begin

text \<open>
  On-demand evaluation of compiled rules (\<open>crates/epiphany-calc/src/eval.rs\<close>).

  The code evaluates a cell by recursive calls of \<open>CalcEngine::value\<close>, which share one memo
  through a \<open>RefCell\<close>. Here the body of an evaluation, \<open>compute\<close>, is a value of type
  \<open>'a reads\<close>: it ends with a result, an error or a panic, or asks for the value of a cell and
  goes on with it (an error of the cell ends it, as the \<open>?\<close> of every call does).
  \<open>value_of\<close> runs it with the memo; \<open>meaning\<close> runs it without one. Both take fuel, which
  bounds the depth of the recursion; \<open>None\<close> is a panic or the end of the fuel.
\<close>

datatype calc_error =
    Cycle string coord
  | DivByZero
  | ArithOverflow
  | CalcUnknownCube nat
  | RulesFailed string string
  | CalcAccessDenied
  | CalcModel model_error

datatype 'a reads = Ret 'a | Fail calc_error | Panic | Ask nat coord "fixed \<Rightarrow> 'a reads"

primrec bindR :: "'a reads \<Rightarrow> ('a \<Rightarrow> 'b reads) \<Rightarrow> 'b reads" where
  "bindR (Ret x) f = f x"
| "bindR (Fail e) f = Fail e"
| "bindR Panic f = Panic"
| "bindR (Ask n k g) f = Ask n k (\<lambda>v. bindR (g v) f)"

fun lift_result :: "calc_error + 'a \<Rightarrow> 'a reads" where
  "lift_result (Inl e) = Fail e"
| "lift_result (Inr x) = Ret x"

fun or_panic :: "'a option \<Rightarrow> ('a \<Rightarrow> 'b reads) \<Rightarrow> 'b reads" where
  "or_panic None f = Panic"
| "or_panic (Some x) f = f x"

section \<open>The registry, the overlay and the engine\<close>

record registry =
  reg_cube :: "nat \<Rightarrow> cube option"
  reg_compiled :: "nat \<Rightarrow> compiled_model option"
  reg_ordinal :: "string \<Rightarrow> nat option"
  reg_compile_error :: "nat \<Rightarrow> string option"
  reg_fed_set :: "nat \<Rightarrow> coord list option"

record sandbox_overlay =
  overlay_leaf :: "nat \<Rightarrow> coord \<Rightarrow> fixed option"
  overlay_scope_id :: nat

datatype cell_state = Computing | Done fixed

text \<open>The memo: scope and cube ordinal, then the coordinate.\<close>

type_synonym memo = "nat \<times> nat \<rightharpoonup> (coord \<rightharpoonup> cell_state)"

record engine =
  eng_registry :: registry
  eng_overlay :: "sandbox_overlay option"
  eng_scope_id :: nat
  eng_mask :: "element_mask option"
  eng_mask_target :: nat

definition engine_new :: "registry \<Rightarrow> engine" where
  "engine_new reg = \<lparr>eng_registry = reg, eng_overlay = None, eng_scope_id = 0, eng_mask = None, eng_mask_target = 0\<rparr>"

definition with_overlay :: "registry \<Rightarrow> sandbox_overlay \<Rightarrow> engine" where
  "with_overlay reg ov =
     \<lparr>eng_registry = reg, eng_overlay = Some ov, eng_scope_id = overlay_scope_id ov, eng_mask = None,
      eng_mask_target = 0\<rparr>"

definition with_mask :: "element_mask option \<Rightarrow> nat \<Rightarrow> engine \<Rightarrow> engine" where
  "with_mask m target eng = eng\<lparr>eng_mask := m, eng_mask_target := target\<rparr>"

section \<open>Arithmetic\<close>

fun compare_op :: "int \<Rightarrow> int \<Rightarrow> cmp_op \<Rightarrow> bool" where
  "compare_op a b CmpEq = (a = b)"
| "compare_op a b CmpNe = (a \<noteq> b)"
| "compare_op a b CmpLt = (a < b)"
| "compare_op a b CmpLe = (a \<le> b)"
| "compare_op a b CmpGt = (b < a)"
| "compare_op a b CmpGe = (b \<le> a)"

definition div_round_half_even :: "int \<Rightarrow> int \<Rightarrow> int" where
  "div_round_half_even n den =
     (let q = tdiv n den; r = trem n den in
      if r = 0 then q
      else let twice = \<bar>r\<bar> * 2; aden = \<bar>den\<bar>;
               round_away = (aden < twice \<or> twice = aden \<and> trem q 2 \<noteq> 0)
           in if round_away then if (n < 0) \<noteq> (den < 0) then q - 1 else q + 1 else q)"

definition calc_fixed :: "int \<Rightarrow> calc_error + fixed" where
  "calc_fixed scaled = ok_or ArithOverflow (checked_i64 scaled)"

fun arith :: "arith_op \<Rightarrow> fixed \<Rightarrow> fixed \<Rightarrow> calc_error + fixed" where
  "arith Add a b = ok_or ArithOverflow (checked_i64 (a + b))"
| "arith Sub a b = ok_or ArithOverflow (checked_i64 (a - b))"
| "arith Mul a b = calc_fixed (div_round_half_even (a * b) SCALE)"
| "arith Div a b =
     (if b = 0 then Inl DivByZero else calc_fixed (div_round_half_even (a * SCALE) b))"

section \<open>Expressions\<close>

fun resolve_addr :: "addr_slot list \<Rightarrow> coord \<Rightarrow> coord option" where
  "resolve_addr [] target = Some []"
| "resolve_addr (Pinned i # rest) target = map_option (Cons i) (resolve_addr rest target)"
| "resolve_addr (FromTarget pos # rest) target =
     (if pos < length target then map_option (Cons (target ! pos)) (resolve_addr rest target) else None)"

definition eval_cell :: "ccell \<Rightarrow> coord \<Rightarrow> fixed reads" where
  "eval_cell cell target = or_panic (resolve_addr (addr cell) target) (\<lambda>abs. Ask (cell_cube cell) abs Ret)"

definition eval_attr :: "engine \<Rightarrow> nat \<Rightarrow> nat \<Rightarrow> nat \<Rightarrow> coord \<Rightarrow> fixed reads" where
  "eval_attr eng dim_pos attr ordinal target =
     (case reg_cube (eng_registry eng) ordinal of
        None \<Rightarrow> Fail (CalcUnknownCube ordinal)
      | Some c \<Rightarrow>
          or_panic (nth_dim c dim_pos) (\<lambda>d.
            if attr < length (attributes d) \<and> dim_pos < length target then
              case get_attribute d (target ! dim_pos) (attr_name (attributes d ! attr)) of
                Some (Numeric f) \<Rightarrow> Ret f
              | _ \<Rightarrow> Ret 0
            else Panic))"

fun eval_expr :: "engine \<Rightarrow> cexpr \<Rightarrow> nat \<Rightarrow> coord \<Rightarrow> fixed reads"
  and eval_cond :: "engine \<Rightarrow> ccond \<Rightarrow> nat \<Rightarrow> coord \<Rightarrow> bool reads" where
  "eval_expr eng (CNum f) ordinal target = Ret f"
| "eval_expr eng CUndef ordinal target = Ret 0"
| "eval_expr eng (CAttrNum dim_pos attr) ordinal target = eval_attr eng dim_pos attr ordinal target"
| "eval_expr eng (CCell cell) ordinal target = eval_cell cell target"
| "eval_expr eng (CNeg e) ordinal target =
     bindR (eval_expr eng e ordinal target) (\<lambda>v. lift_result (ok_or ArithOverflow (checked_i64 (- v))))"
| "eval_expr eng (CBin p l r) ordinal target =
     bindR (eval_expr eng l ordinal target) (\<lambda>a.
     bindR (eval_expr eng r ordinal target) (\<lambda>b. lift_result (arith p a b)))"
| "eval_expr eng (CIf c t None) ordinal target =
     bindR (eval_cond eng c ordinal target) (\<lambda>b. if b then eval_expr eng t ordinal target else Ret 0)"
| "eval_expr eng (CIf c t (Some f)) ordinal target =
     bindR (eval_cond eng c ordinal target) (\<lambda>b.
       if b then eval_expr eng t ordinal target else eval_expr eng f ordinal target)"
| "eval_cond eng (CAnd a b) ordinal target =
     bindR (eval_cond eng a ordinal target) (\<lambda>x. if x then eval_cond eng b ordinal target else Ret False)"
| "eval_cond eng (COr a b) ordinal target =
     bindR (eval_cond eng a ordinal target) (\<lambda>x. if x then Ret True else eval_cond eng b ordinal target)"
| "eval_cond eng (CNot c) ordinal target = bindR (eval_cond eng c ordinal target) (\<lambda>x. Ret (\<not> x))"
| "eval_cond eng (CCompare l p r) ordinal target =
     bindR (eval_expr eng l ordinal target) (\<lambda>a.
     bindR (eval_expr eng r ordinal target) (\<lambda>b. Ret (compare_op a b p)))"

section \<open>Consolidation through the resolver\<close>

text \<open>\<open>consolidate_with\<close> and \<open>consolidate_fed\<close> of the cube, with each contributing leaf read
  through the engine.\<close>

fun sum_reads :: "nat \<Rightarrow> (coord \<times> int) list \<Rightarrow> int \<Rightarrow> int reads" where
  "sum_reads ordinal [] acc = Ret acc"
| "sum_reads ordinal ((combo, weight) # rest) acc =
     Ask ordinal combo (\<lambda>v. sum_reads ordinal rest (wrap128 (acc + wrap128 (weight * v))))"

fun fed_reads :: "nat \<Rightarrow> (nat \<rightharpoonup> int) list \<Rightarrow> coord list \<Rightarrow> coord set \<Rightarrow> int \<Rightarrow> (coord set \<times> int) reads" where
  "fed_reads ordinal wts [] seen acc = Ret (seen, acc)"
| "fed_reads ordinal wts (k # ks) seen acc =
     (case cell_weight wts 0 1 ((!) k) of
        None \<Rightarrow> fed_reads ordinal wts ks seen acc
      | Some weight \<Rightarrow>
          if k \<in> seen then fed_reads ordinal wts ks seen acc
          else Ask ordinal k (\<lambda>v.
                 fed_reads ordinal wts ks (insert k seen) (wrap128 (acc + wrap128 (weight * v)))))"

definition consolidate_reads :: "cube \<Rightarrow> nat \<Rightarrow> coord \<Rightarrow> coord list option \<Rightarrow> fixed reads" where
  "consolidate_reads c ordinal coord fed =
     bindR (lift_result (map_err CalcModel (check_coord c coord))) (\<lambda>_.
     bindR (lift_result (map_err CalcModel (all_numeric_leaf c coord))) (\<lambda>leaf.
       if leaf then Ask ordinal coord Ret
       else bindR (lift_result (map_err CalcModel (dim_weights (dims c) coord))) (\<lambda>wss.
            bindR (lift_result (ok_or (CalcModel Overflow) (count_combos (map length wss) 1))) (\<lambda>tot.
              if tot = 0 then Ret 0
              else bindR
                (case fed of
                   None \<Rightarrow> sum_reads ordinal (map (\<lambda>n. combo_at wss n 1) [0..<tot]) 0
                 | Some fs \<Rightarrow>
                     bindR (fed_reads ordinal (map map_of wss) (map fst (cell_entries c)) {} 0) (\<lambda>(seen, acc).
                     bindR (fed_reads ordinal (map map_of wss) fs seen acc) (\<lambda>(_, acc'). Ret acc')))
                (\<lambda>acc. lift_result (map_err CalcModel (to_fixed acc)))))))"

section \<open>The value of a cell\<close>

fun all_leaf_at :: "cube \<Rightarrow> nat \<Rightarrow> coord \<Rightarrow> bool option" where
  "all_leaf_at c d [] = Some True"
| "all_leaf_at c d (i # is) =
     (case nth_dim c d of
        None \<Rightarrow> None
      | Some dim \<Rightarrow>
          if (case get_element dim i of Inl _ \<Rightarrow> False | Inr e \<Rightarrow> is_leaf (el_kind e))
          then all_leaf_at c (d + 1) is else Some False)"

definition mask_denies :: "engine \<Rightarrow> nat \<Rightarrow> coord \<Rightarrow> bool" where
  "mask_denies eng ordinal coord \<longleftrightarrow>
     ordinal = eng_mask_target eng \<and> (case eng_mask eng of None \<Rightarrow> False | Some m \<Rightarrow> denies_leaf m coord)"

definition fed_for :: "engine \<Rightarrow> nat \<Rightarrow> coord list option" where
  "fed_for eng ordinal =
     (if eng_overlay eng = None \<and> eng_mask eng = None then reg_fed_set (eng_registry eng) ordinal else None)"

definition stored_or_rolled :: "engine \<Rightarrow> cube \<Rightarrow> nat \<Rightarrow> coord \<Rightarrow> fixed reads" where
  "stored_or_rolled eng c ordinal coord =
     or_panic (all_leaf_at c 0 coord) (\<lambda>all_leaf.
       if all_leaf then
         case Option.bind (eng_overlay eng) (\<lambda>ov. overlay_leaf ov ordinal coord) of
           Some v \<Rightarrow> Ret v
         | None \<Rightarrow> lift_result (map_err CalcModel (get c coord))
       else consolidate_reads c ordinal coord (fed_for eng ordinal))"

definition compute :: "engine \<Rightarrow> nat \<Rightarrow> coord \<Rightarrow> fixed reads" where
  "compute eng ordinal coord =
     (let reg = eng_registry eng in
      if mask_denies eng ordinal coord then Fail CalcAccessDenied
      else case reg_cube reg ordinal of
        None \<Rightarrow> Fail (CalcUnknownCube ordinal)
      | Some c \<Rightarrow>
          case reg_compile_error reg ordinal of
            Some e \<Rightarrow> Fail (RulesFailed (cube_name c) e)
          | None \<Rightarrow>
              case reg_compiled reg ordinal of
                None \<Rightarrow> stored_or_rolled eng c ordinal coord
              | Some cm \<Rightarrow>
                  or_panic (matching_rule cm c coord) (\<lambda>found.
                    case found of
                      Some rid \<Rightarrow> eval_expr eng (cexpr (rules cm ! rid)) ordinal coord
                    | None \<Rightarrow> stored_or_rolled eng c ordinal coord))"

section \<open>Running an evaluation\<close>

primrec run :: "(nat \<Rightarrow> coord \<Rightarrow> 's \<Rightarrow> ((calc_error + fixed) \<times> 's) option) \<Rightarrow> 'a reads \<Rightarrow> 's
    \<Rightarrow> ((calc_error + 'a) \<times> 's) option" where
  "run rd (Ret x) s = Some (Inr x, s)"
| "run rd (Fail e) s = Some (Inl e, s)"
| "run rd Panic s = None"
| "run rd (Ask n k g) s =
     (case rd n k s of
        None \<Rightarrow> None
      | Some (Inl e, s') \<Rightarrow> Some (Inl e, s')
      | Some (Inr v, s') \<Rightarrow> run rd (g v) s')"

definition memo_find :: "engine \<Rightarrow> nat \<Rightarrow> coord \<Rightarrow> memo \<Rightarrow> cell_state option" where
  "memo_find eng ordinal coord m =
     (case m (eng_scope_id eng, ordinal) of None \<Rightarrow> None | Some inner \<Rightarrow> inner coord)"

definition memo_put :: "engine \<Rightarrow> nat \<Rightarrow> coord \<Rightarrow> cell_state option \<Rightarrow> memo \<Rightarrow> memo" where
  "memo_put eng ordinal coord st m =
     (let key = (eng_scope_id eng, ordinal);
          inner = (case m key of None \<Rightarrow> Map.empty | Some inner \<Rightarrow> inner)
      in m(key \<mapsto> inner(coord := st)))"

primrec value_of :: "engine \<Rightarrow> nat \<Rightarrow> nat \<Rightarrow> coord \<Rightarrow> memo \<Rightarrow> ((calc_error + fixed) \<times> memo) option" where
  "value_of eng 0 = (\<lambda>ordinal coord m. None)"
| "value_of eng (Suc n) = (\<lambda>ordinal coord m.
     case memo_find eng ordinal coord m of
       Some (Done v) \<Rightarrow> Some (Inr v, m)
     | Some Computing \<Rightarrow>
         Some (Inl (Cycle (case reg_cube (eng_registry eng) ordinal of None \<Rightarrow> [] | Some c \<Rightarrow> cube_name c) coord), m)
     | None \<Rightarrow>
         (case run (value_of eng n) (compute eng ordinal coord) (memo_put eng ordinal coord (Some Computing) m) of
            None \<Rightarrow> None
          | Some (Inr v, m') \<Rightarrow> Some (Inr v, memo_put eng ordinal coord (Some (Done v)) m')
          | Some (Inl e, m') \<Rightarrow> Some (Inl e, memo_put eng ordinal coord None m')))"

text \<open>The specification: the same evaluation with no memo and no cycle check.\<close>

primrec meaning :: "engine \<Rightarrow> nat \<Rightarrow> nat \<Rightarrow> coord \<Rightarrow> unit \<Rightarrow> ((calc_error + fixed) \<times> unit) option" where
  "meaning eng 0 = (\<lambda>ordinal coord u. None)"
| "meaning eng (Suc n) = (\<lambda>ordinal coord u. run (meaning eng n) (compute eng ordinal coord) u)"

end
