(* ===== verification/Calc_Compile.thy ===== *)
theory Calc_Compile
  imports Calc_Eval
begin

text \<open>
  Compiling a parsed rule set (\<open>crates/epiphany-calc/src/compile.rs\<close>, and the registries of
  \<open>registry.rs\<close>): dimension, member, attribute and cube names become indices, formulas become
  resolved trees, and constructs that parse but are not supported are refused.
\<close>

datatype compile_error =
    CompUnknownCube string span
  | CompUnknownDimension string string span
  | CompUnknownMember string string span
  | CompUnknownAttribute string string span
  | CompInvalidNumber string span
  | CompUnsupported string span

fun compile_error_span :: "compile_error \<Rightarrow> span" where
  "compile_error_span (CompUnknownCube nm sp) = sp"
| "compile_error_span (CompUnknownDimension cb dm sp) = sp"
| "compile_error_span (CompUnknownMember dm mb sp) = sp"
| "compile_error_span (CompUnknownAttribute dm at sp) = sp"
| "compile_error_span (CompInvalidNumber tx sp) = sp"
| "compile_error_span (CompUnsupported ft sp) = sp"

section \<open>Cube registries\<close>

record cube_registry =
  cr_ordinal :: "string \<Rightarrow> nat option"
  cr_cube :: "nat \<Rightarrow> cube option"

definition single_cube :: "cube \<Rightarrow> cube_registry" where
  "single_cube c =
     \<lparr>cr_ordinal = \<lambda>name. if name = cube_name c then Some 0 else None,
      cr_cube = \<lambda>n. if n = 0 then Some c else None\<rparr>"

definition vec_registry :: "cube list \<Rightarrow> cube_registry" where
  "vec_registry cs =
     \<lparr>cr_ordinal = \<lambda>name. map_option as_u32 (position (\<lambda>c. cube_name c = name) cs),
      cr_cube = \<lambda>n. if n < length cs then Some (cs ! n) else None\<rparr>"

section \<open>Selectors\<close>

definition dim_position :: "cube \<Rightarrow> string \<Rightarrow> nat option" where
  "dim_position c name = position (\<lambda>d. dim_name d = name) (dims c)"

text \<open>The depth-first walk of \<open>descendants\<close>; the head of the list is the top of the stack.\<close>

definition edge_children :: "(nat \<times> nat \<times> int) list \<Rightarrow> nat \<Rightarrow> nat list" where
  "edge_children edges node = map (\<lambda>(p, c, w). c) (filter (\<lambda>(p, c, w). p = node) edges)"

function descend :: "(nat \<times> nat \<times> int) list \<Rightarrow> nat list \<Rightarrow> nat set \<Rightarrow> nat list \<Rightarrow> nat list" where
  "descend edges [] seen out = out"
| "descend edges (node # stack) seen out =
     (if node \<in> seen then descend edges stack seen out
      else descend edges (rev (edge_children edges node) @ stack) (insert node seen) (out @ [node]))"
  by pat_completeness auto
termination
proof (relation "measures [\<lambda>(edges, stack, seen, out). card (((\<lambda>(p, c, w). c) ` set edges \<union> set stack) - seen),
    \<lambda>(edges, stack, seen, out). length stack]", goal_cases)
  case (2 edges node stack seen out)
  then have "(((\<lambda>(p, c, w). c) ` set edges \<union> set (node # stack)) - seen)
      = ((\<lambda>(p, c, w). c) ` set edges \<union> set stack) - seen" by auto
  then show ?case by simp
next
  case (3 edges node stack seen out)
  let ?E = "(\<lambda>(p, c, w). c) ` set edges"
  have "set (edge_children edges node) \<subseteq> ?E" by (force simp: edge_children_def)
  then have "(?E \<union> set (rev (edge_children edges node) @ stack)) - insert node seen
      \<subset> (?E \<union> set (node # stack)) - seen" using 3 by auto
  then have "card ((?E \<union> set (rev (edge_children edges node) @ stack)) - insert node seen)
      < card ((?E \<union> set (node # stack)) - seen)" by (intro psubset_card_mono) auto
  then show ?case by simp
qed simp

definition descendants :: "dimension \<Rightarrow> nat \<Rightarrow> nat list" where
  "descendants d root = descend (dim_edges d) [root] {} []"

fun cmp_apply_str :: "string \<Rightarrow> string \<Rightarrow> cmp_op \<Rightarrow> bool" where
  "cmp_apply_str a b CmpEq = (a = b)"
| "cmp_apply_str a b CmpNe = (a \<noteq> b)"
| "cmp_apply_str a b CmpLt = str_less a b"
| "cmp_apply_str a b CmpLe = str_le a b"
| "cmp_apply_str a b CmpGt = str_less b a"
| "cmp_apply_str a b CmpGe = str_le b a"

definition attr_matches :: "attribute_value option \<Rightarrow> cmp_op \<Rightarrow> lit \<Rightarrow> fixed option \<Rightarrow> bool" where
  "attr_matches v p value rhs =
     (case (v, value, rhs) of
        (Some (Text s), LitStr t, _) \<Rightarrow> cmp_apply_str s t p
      | (Some (Numeric f), LitNumber _, Some r) \<Rightarrow> compare_op f r p
      | _ \<Rightarrow> False)"

definition resolve_attr_predicate ::
    "dimension \<Rightarrow> string \<Rightarrow> cmp_op \<Rightarrow> lit \<Rightarrow> span \<Rightarrow> compile_error + nat list" where
  "resolve_attr_predicate d attribute p value sp =
     (if attribute_index d attribute = None
      then Inl (CompUnknownAttribute (dim_name d) attribute sp)
      else bindE (case value of
                    LitNumber n \<Rightarrow> bindE (map_err (\<lambda>_. CompInvalidNumber n sp) (from_str n)) (\<lambda>f. Inr (Some f))
                  | LitStr _ \<Rightarrow> Inr None)
             (\<lambda>rhs. Inr (filter (\<lambda>i. attr_matches (get_attribute d i attribute) p value rhs) [0..<dim_len d])))"

definition kind_selected :: "dimension \<Rightarrow> bool \<Rightarrow> nat \<Rightarrow> bool" where
  "kind_selected d leaves i =
     (case get_element d i of Inl _ \<Rightarrow> False | Inr e \<Rightarrow> is_leaf (el_kind e) = leaves)"

definition resolve_member :: "dimension \<Rightarrow> span \<Rightarrow> string \<Rightarrow> compile_error + nat" where
  "resolve_member d sp m = ok_or (CompUnknownMember (dim_name d) m sp) (resolve d m)"

fun selected :: "dimension \<Rightarrow> selector_kind \<Rightarrow> span \<Rightarrow> compile_error + nat list" where
  "selected d (SelElement m) sp = bindE (resolve_member d sp m) (\<lambda>i. Inr [i])"
| "selected d SelAll sp = Inr [0..<dim_len d]"
| "selected d SelLeaves sp = Inr (filter (kind_selected d True) [0..<dim_len d])"
| "selected d SelConsolidated sp = Inr (filter (kind_selected d False) [0..<dim_len d])"
| "selected d (SelChildren parent) sp =
     bindE (resolve_member d sp parent) (\<lambda>p. Inr (edge_children (dim_edges d) p))"
| "selected d (SelDescendants root) sp = bindE (resolve_member d sp root) (\<lambda>r. Inr (descendants d r))"
| "selected d (SelAttr attribute p value) sp = resolve_attr_predicate d attribute p value sp"

definition resolve_selector :: "dimension \<Rightarrow> selector_kind \<Rightarrow> span \<Rightarrow> compile_error + nat list" where
  "resolve_selector d kind sp = bindE (selected d kind sp) (\<lambda>s. Inr (remdups_adj (sort s)))"

fun area_loop :: "cube \<Rightarrow> dim_selector list \<Rightarrow> dim_predicate list \<Rightarrow> compile_error + dim_predicate list" where
  "area_loop c [] preds = Inr preds"
| "area_loop c (s # ss) preds =
     bindE (ok_or (CompUnknownDimension (cube_name c) (sel_dimension s) (sel_span s))
              (dim_position c (sel_dimension s))) (\<lambda>pos.
     bindE (resolve_selector (dims c ! pos) (sel_kind s) (sel_span s)) (\<lambda>set.
       area_loop c ss (preds[pos := OneOf set])))"

definition compile_area :: "cube \<Rightarrow> Rule_Ast.area \<Rightarrow> compile_error + compiled_area" where
  "compile_area c a =
     bindE (area_loop c (selectors a) (replicate (rank c) AnyMember)) (\<lambda>preds.
       Inr \<lparr>per_dim = preds, area_consolidated = targets_consolidated (area_scope a)\<rparr>)"

section \<open>Formulas\<close>

fun two_string_args :: "builtin_func \<Rightarrow> func_arg list \<Rightarrow> span \<Rightarrow> compile_error + string \<times> string" where
  "two_string_args func [AStr a, AStr b] sp = Inr (a, b)"
| "two_string_args func _ sp =
     Inl (CompUnsupported (func_name func @ ''(dimension, attribute) with these arguments'') sp)"

definition lower_func :: "builtin_func \<Rightarrow> func_arg list \<Rightarrow> span \<Rightarrow> cube \<Rightarrow> compile_error + cexpr" where
  "lower_func func args sp target =
     (case func of
        FUndef \<Rightarrow> Inr CUndef
      | FAttrNum \<Rightarrow>
          bindE (two_string_args func args sp) (\<lambda>(dn, an).
          bindE (ok_or (CompUnknownDimension (cube_name target) dn sp) (dim_position target dn)) (\<lambda>pos.
          bindE (ok_or (CompUnknownAttribute dn an sp) (attribute_index (dims target ! pos) an)) (\<lambda>attr.
            Inr (CAttrNum pos attr))))
      | _ \<Rightarrow> Inl (CompUnsupported (''the '' @ func_name func @ ''() function'') sp))"

fun override_for :: "dim_override list \<Rightarrow> string \<Rightarrow> dim_override option" where
  "override_for [] name = None"
| "override_for (ov # ovs) name = (if ov_dimension ov = name then Some ov else override_for ovs name)"

fun check_overrides :: "cube \<Rightarrow> span \<Rightarrow> dim_override list \<Rightarrow> compile_error + unit" where
  "check_overrides rc sp [] = Inr ()"
| "check_overrides rc sp (ov # ovs) =
     (if dim_position rc (ov_dimension ov) = None
      then Inl (CompUnknownDimension (cube_name rc) (ov_dimension ov) sp)
      else check_overrides rc sp ovs)"

definition lower_slot ::
    "cell_ref \<Rightarrow> cube \<Rightarrow> nat \<Rightarrow> cube \<Rightarrow> nat \<Rightarrow> dimension \<Rightarrow> compile_error + addr_slot" where
  "lower_slot cell target target_ordinal rc ordinal rd =
     (case override_for (overrides cell) (dim_name rd) of
        Some ov \<Rightarrow>
          (case ov_member ov of
             MemElement m \<Rightarrow>
               bindE (ok_or (CompUnknownMember (dim_name rd) m (ref_span cell)) (resolve rd m)) (\<lambda>i. Inr (Pinned i))
           | MemAttr _ \<Rightarrow> Inl (CompUnsupported ''a by-attribute member override'' (ref_span cell)))
      | None \<Rightarrow>
          if ordinal \<noteq> target_ordinal
          then Inl (CompUnsupported (''a relative cross-cube reference (address dimension '' @ [CHR 39] @ dim_name rd
                 @ [CHR 39] @ '' of cube '' @ [CHR 39] @ cube_name rc @ [CHR 39] @ '' explicitly)'') (ref_span cell))
          else case dim_position target (dim_name rd) of
                 Some tpos \<Rightarrow> Inr (FromTarget tpos)
               | None \<Rightarrow> Inl (CompUnknownDimension (cube_name rc) (dim_name rd) (ref_span cell)))"

fun lower_slots ::
    "cell_ref \<Rightarrow> cube \<Rightarrow> nat \<Rightarrow> cube \<Rightarrow> nat \<Rightarrow> dimension list \<Rightarrow> compile_error + addr_slot list" where
  "lower_slots cell target target_ordinal rc ordinal [] = Inr []"
| "lower_slots cell target target_ordinal rc ordinal (rd # rds) =
     bindE (lower_slot cell target target_ordinal rc ordinal rd) (\<lambda>s.
     bindE (lower_slots cell target target_ordinal rc ordinal rds) (\<lambda>ss. Inr (s # ss)))"

definition lower_cell :: "cell_ref \<Rightarrow> cube \<Rightarrow> cube_registry \<Rightarrow> nat \<Rightarrow> compile_error + ccell" where
  "lower_cell cell target reg target_ordinal =
     (if mapping cell \<noteq> [] then Inl (CompUnsupported ''cross-cube dimension mapping'' (ref_span cell))
      else bindE (case ref_cube cell of
                    None \<Rightarrow> Inr (target_ordinal, target)
                  | Some name \<Rightarrow>
                      bindE (ok_or (CompUnknownCube name (ref_span cell)) (cr_ordinal reg name)) (\<lambda>n.
                      bindE (ok_or (CompUnknownCube name (ref_span cell)) (cr_cube reg n)) (\<lambda>c. Inr (n, c))))
             (\<lambda>(ordinal, rc).
               bindE (check_overrides rc (ref_span cell) (overrides cell)) (\<lambda>_.
               bindE (lower_slots cell target target_ordinal rc ordinal (dims rc)) (\<lambda>slots.
                 Inr \<lparr>cell_cube = ordinal, addr = slots\<rparr>))))"

fun lower_expr :: "expr \<Rightarrow> cube \<Rightarrow> cube_registry \<Rightarrow> nat \<Rightarrow> span \<Rightarrow> compile_error + cexpr"
  and lower_cond :: "cond \<Rightarrow> cube \<Rightarrow> cube_registry \<Rightarrow> nat \<Rightarrow> span \<Rightarrow> compile_error + ccond" where
  "lower_expr (ENumber n) tg reg o1 sp = bindE (map_err (\<lambda>_. CompInvalidNumber n sp) (from_str n)) (\<lambda>f. Inr (CNum f))"
| "lower_expr (EStr s) tg reg o1 sp = Inl (CompUnsupported ''a string-valued rule formula'' sp)"
| "lower_expr (ECell cell) tg reg o1 sp = bindE (lower_cell cell tg reg o1) (\<lambda>c. Inr (CCell c))"
| "lower_expr (ENeg e) tg reg o1 sp = bindE (lower_expr e tg reg o1 sp) (\<lambda>x. Inr (CNeg x))"
| "lower_expr (EBin p l r) tg reg o1 sp =
     bindE (lower_expr l tg reg o1 sp) (\<lambda>x. bindE (lower_expr r tg reg o1 sp) (\<lambda>y. Inr (CBin p x y)))"
| "lower_expr (EIf c t None) tg reg o1 sp =
     bindE (lower_cond c tg reg o1 sp) (\<lambda>x. bindE (lower_expr t tg reg o1 sp) (\<lambda>y. Inr (CIf x y None)))"
| "lower_expr (EIf c t (Some f)) tg reg o1 sp =
     bindE (lower_cond c tg reg o1 sp) (\<lambda>x. bindE (lower_expr t tg reg o1 sp) (\<lambda>y.
     bindE (lower_expr f tg reg o1 sp) (\<lambda>z. Inr (CIf x y (Some z)))))"
| "lower_expr (EFunc func args fsp) tg reg o1 sp = lower_func func args fsp tg"
| "lower_cond (CondAnd a b) tg reg o1 sp =
     bindE (lower_cond a tg reg o1 sp) (\<lambda>x. bindE (lower_cond b tg reg o1 sp) (\<lambda>y. Inr (CAnd x y)))"
| "lower_cond (CondOr a b) tg reg o1 sp =
     bindE (lower_cond a tg reg o1 sp) (\<lambda>x. bindE (lower_cond b tg reg o1 sp) (\<lambda>y. Inr (COr x y)))"
| "lower_cond (CondNot a) tg reg o1 sp = bindE (lower_cond a tg reg o1 sp) (\<lambda>x. Inr (CNot x))"
| "lower_cond (CondCompare l p r) tg reg o1 sp =
     bindE (lower_expr l tg reg o1 sp) (\<lambda>x. bindE (lower_expr r tg reg o1 sp) (\<lambda>y. Inr (CCompare x p y)))"

fun compile_rules :: "cube \<Rightarrow> cube_registry \<Rightarrow> nat \<Rightarrow> rule list \<Rightarrow> compile_error + compiled_rule list" where
  "compile_rules tg reg o1 [] = Inr []"
| "compile_rules tg reg o1 (r # rs) =
     bindE (compile_area tg (rule_area r)) (\<lambda>a.
     bindE (lower_expr (formula r) tg reg o1 (rule_span r)) (\<lambda>e.
     bindE (compile_rules tg reg o1 rs) (\<lambda>rest.
       Inr (\<lparr>area = a, cexpr = e, crule_span = rule_span r\<rparr> # rest))))"

text \<open>\<open>None\<close>: the panic of a registry that lacks the target cube.\<close>

definition compile_doc ::
    "cube \<Rightarrow> cube_registry \<Rightarrow> rule_doc \<Rightarrow> nat \<Rightarrow> (compile_error + compiled_model) option" where
  "compile_doc tg reg doc ver =
     (case cr_ordinal reg (cube_name tg) of
        None \<Rightarrow> None
      | Some o1 \<Rightarrow> Some (bindE (compile_rules tg reg o1 doc) (\<lambda>rs. Inr \<lparr>version = ver, rules = rs\<rparr>)))"

end
