(* ===== verification/Calc_Memo.thy ===== *)
theory Calc_Memo
  imports Calc_Eval
begin

text \<open>
  The memo is a pure cache. \<open>run_agree\<close> and \<open>run_justified\<close> transport a property of the reads
  of an evaluation to the evaluation; from them a memoised read returns what the plain evaluation
  (\<open>meaning\<close>) returns whenever that converges (\<open>value_of_meaning\<close>), and otherwise nothing
  but a cycle error (\<open>value_of_justified\<close>). \<open>value_of_returns\<close> bounds the fuel by the number of
  cells that are not being computed.
\<close>

section \<open>Memo lookups\<close>

lemma memo_find_put [simp]:
  "memo_find eng o' k' (memo_put eng o1 k st m) = (if o' = o1 \<and> k' = k then st else memo_find eng o' k' m)"
  by (auto simp: memo_find_def memo_put_def Let_def split: option.splits)

definition marks :: "engine \<Rightarrow> memo \<Rightarrow> (nat \<times> coord) set" where
  "marks eng m = {(o1, k). memo_find eng o1 k m = Some Computing}"

definition memo_good :: "engine \<Rightarrow> memo \<Rightarrow> bool" where
  "memo_good eng m \<longleftrightarrow>
     (\<forall>o1 k v. memo_find eng o1 k m = Some (Done v) \<longrightarrow> (\<exists>n. meaning eng n o1 k () = Some (Inr v, ())))"

lemma marks_put:
  "st \<noteq> Some Computing \<Longrightarrow> marks eng (memo_put eng o1 k st m) = marks eng m - {(o1, k)}"
  "marks eng (memo_put eng o1 k (Some Computing) m) = insert (o1, k) (marks eng m)"
  by (auto simp: marks_def)

lemma memo_good_put:
  assumes "memo_good eng m" and "\<And>v. st = Some (Done v) \<Longrightarrow> \<exists>n. meaning eng n o1 k () = Some (Inr v, ())"
  shows "memo_good eng (memo_put eng o1 k st m)"
  using assms by (auto simp: memo_good_def)

section \<open>The meaning of a cell\<close>

lemma run_mono:
  assumes "\<And>o1 k r. f o1 k () = Some r \<Longrightarrow> g o1 k () = Some r"
  shows "run f t () = Some r \<Longrightarrow> run g t () = Some r"
proof (induction t)
  case (Ask o1 k h)
  then obtain r' where "f o1 k () = Some (r', ())" by (auto split: option.splits)
  moreover from assms [OF this] have "g o1 k () = Some (r', ())" .
  ultimately show ?case using Ask by (cases r') auto
qed auto

lemma meaning_Suc: "meaning eng n o1 k () = Some r \<Longrightarrow> meaning eng (Suc n) o1 k () = Some r"
proof (induction n arbitrary: o1 k r)
  case (Suc n)
  then show ?case using run_mono [of "meaning eng n" "meaning eng (Suc n)" "compute eng o1 k" r]
    by (simp del: meaning.simps(2) add: meaning.simps(2) [of eng n] meaning.simps(2) [of eng "Suc n"])
qed simp

lemma meaning_mono: "n \<le> n' \<Longrightarrow> meaning eng n o1 k () = Some r \<Longrightarrow> meaning eng n' o1 k () = Some r"
  by (induction rule: dec_induct) (blast intro: meaning_Suc)+

lemma run_meaning_mono: "n \<le> n' \<Longrightarrow> run (meaning eng n) t () = Some r \<Longrightarrow> run (meaning eng n') t () = Some r"
  using run_mono [of "meaning eng n" "meaning eng n'"] meaning_mono by blast

lemma meaning_Suc_None: "meaning eng (Suc n) o1 k () = None \<Longrightarrow> meaning eng n o1 k () = None"
  using meaning_Suc [of eng n o1 k] by (cases "meaning eng n o1 k ()") (auto simp del: meaning.simps)

lemma meaning_unique:
  assumes "meaning eng n o1 k () = Some r" and "meaning eng n' o1 k () = Some r'"
  shows "r = r'"
proof -
  have "meaning eng (max n n') o1 k () = Some r" by (rule meaning_mono [OF _ assms(1)]) simp
  moreover have "meaning eng (max n n') o1 k () = Some r'" by (rule meaning_mono [OF _ assms(2)]) simp
  ultimately show ?thesis by simp
qed

section \<open>Transport along the reads of an evaluation\<close>

lemma run_agree:
  assumes "\<And>o1 k r m. I m \<Longrightarrow> f o1 k () = Some (r, ()) \<Longrightarrow> \<exists>m'. g o1 k m = Some (r, m') \<and> I m'"
  shows "I m \<Longrightarrow> run f t () = Some (r, ()) \<Longrightarrow> \<exists>m'. run g t m = Some (r, m') \<and> I m'"
proof (induction t arbitrary: m)
  case (Ask o1 k h)
  from Ask.prems(2) obtain r' where r': "f o1 k () = Some (r', ())" by (auto split: option.splits)
  with assms [OF Ask.prems(1)] obtain m' where m': "g o1 k m = Some (r', m')" "I m'" by blast
  show ?case
  proof (cases r')
    case (Inr v)
    with Ask.prems r' have "run f (h v) () = Some (r, ())" by simp
    from Ask.IH [OF _ m'(2) this] m'(1) Inr show ?thesis by simp
  qed (use Ask.prems r' m' in auto)
qed auto

definition is_cycle :: "calc_error + 'a \<Rightarrow> bool" where
  "is_cycle r \<longleftrightarrow> (\<exists>nm k. r = Inl (Cycle nm k))"

lemma run_justified:
  assumes "\<And>o1 k r m m'. I m \<Longrightarrow> g o1 k m = Some (r, m') \<Longrightarrow>
      I m' \<and> (is_cycle r \<or> (\<exists>n. meaning eng n o1 k () = Some (r, ())))"
  shows "I m \<Longrightarrow> run g t m = Some (r, m') \<Longrightarrow>
      I m' \<and> (is_cycle r \<or> (\<exists>n. run (meaning eng n) t () = Some (r, ())))"
proof (induction t arbitrary: m)
  case (Ask o1 k h)
  from Ask.prems(2) obtain r1 m1 where r1: "g o1 k m = Some (r1, m1)" by (auto split: option.splits)
  note J = assms [OF Ask.prems(1) r1]
  show ?case
  proof (cases r1)
    case (Inl e)
    then have eq: "r = Inl e" "m' = m1" using Ask.prems(2) r1 by auto
    have "\<exists>n. run (meaning eng n) (Ask o1 k h) () = Some (Inl e, ())"
      if ex: "\<exists>n. meaning eng n o1 k () = Some (Inl e, ())"
    proof -
      from ex obtain n where "meaning eng n o1 k () = Some (Inl e, ())" ..
      then have "run (meaning eng n) (Ask o1 k h) () = Some (Inl e, ())" by simp
      then show ?thesis ..
    qed
    with J show ?thesis unfolding Inl eq is_cycle_def by blast
  next
    case (Inr v)
    then have "run g (h v) m1 = Some (r, m')" using Ask.prems(2) r1 by simp
    with Ask.IH [OF rangeI, of m1 v] J have K: "I m' \<and> (is_cycle r \<or> (\<exists>n. run (meaning eng n) (h v) () = Some (r, ())))"
      by blast
    from J Inr obtain n1 where n1: "meaning eng n1 o1 k () = Some (Inr v, ())" by (auto simp: is_cycle_def)
    show ?thesis
    proof (cases "is_cycle r")
      case False
      with K obtain n2 where "run (meaning eng n2) (h v) () = Some (r, ())" by blast
      then have "run (meaning eng (max n1 n2)) (Ask o1 k h) () = Some (r, ())"
        using meaning_mono [OF _ n1, of "max n1 n2"] run_meaning_mono [of n2 "max n1 n2"] by simp
      with K show ?thesis by blast
    qed (use K in simp)
  qed
qed (auto intro: exI [of _ 0])

section \<open>A memoised read\<close>

lemma value_of_meaning:
  assumes "meaning eng n o1 k () = Some (r, ())" and "n \<le> f" and "memo_good eng m"
    and "\<forall>(o', k') \<in> marks eng m. meaning eng n o' k' () = None"
  shows "\<exists>m'. value_of eng f o1 k m = Some (r, m') \<and> memo_good eng m' \<and> marks eng m' = marks eng m"
  using assms
proof (induction n arbitrary: f o1 k r m)
  case (Suc n)
  then obtain f' where f: "f = Suc f'" "n \<le> f'" by (cases f) auto
  show ?case
  proof (cases "meaning eng n o1 k () = None")
    case False
    then obtain r' where "meaning eng n o1 k () = Some (r', ())" by auto
    moreover from meaning_Suc [OF this] Suc.prems(1) have "r' = r" by simp
    moreover have "\<forall>(o', k') \<in> marks eng m. meaning eng n o' k' () = None"
      using Suc.prems(4) meaning_Suc_None [of eng n] by blast
    ultimately show ?thesis using Suc.IH [of o1 k r f m] Suc.prems(2,3) by simp
  next
    case True
    have nm: "(o1, k) \<notin> marks eng m" using Suc.prems(1,4) by auto
    show ?thesis
    proof (cases "memo_find eng o1 k m")
      case (Some st)
      with nm obtain v where v: "memo_find eng o1 k m = Some (Done v)" by (cases st) (auto simp: marks_def)
      with Suc.prems(3) obtain j where "meaning eng j o1 k () = Some (Inr v, ())"
        unfolding memo_good_def by blast
      with meaning_unique [OF Suc.prems(1)] have "r = Inr v" by blast
      with v Suc.prems(3) f(1) show ?thesis by auto
    next
      case None
      let ?m1 = "memo_put eng o1 k (Some Computing) m"
      let ?I = "\<lambda>m'. memo_good eng m' \<and> marks eng m' = marks eng ?m1"
      have low: "\<forall>(o', k') \<in> marks eng ?m1. meaning eng n o' k' () = None"
        using True Suc.prems(4) meaning_Suc_None [of eng n] by (auto simp: marks_put simp del: meaning.simps)
      have step: "\<exists>m''. value_of eng f' o' k' m' = Some (r', m'') \<and> ?I m''"
        if "?I m'" "meaning eng n o' k' () = Some (r', ())" for o' k' r' m'
      proof -
        have "\<forall>(o', k') \<in> marks eng m'. meaning eng n o' k' () = None" using low that(1) by simp
        from Suc.IH [OF that(2) f(2) conjunct1 [OF that(1)] this] that(1) show ?thesis by simp
      qed
      have "run (meaning eng n) (compute eng o1 k) () = Some (r, ())" using Suc.prems(1) by simp
      moreover have "?I ?m1" using memo_good_put [OF Suc.prems(3), of "Some Computing"] by simp
      ultimately obtain m' where
        m': "run (value_of eng f') (compute eng o1 k) ?m1 = Some (r, m')" "?I m'"
        using run_agree [of ?I "meaning eng n" "value_of eng f'" ?m1 "compute eng o1 k" r] step by blast
      have "\<exists>j. meaning eng j o1 k () = Some (r, ())" using Suc.prems(1) by blast
      with m' nm None show ?thesis
        by (cases r) (auto simp: f(1) marks_put intro!: memo_good_put)
    qed
  qed
qed simp

lemma value_of_justified:
  "\<lbrakk>value_of eng f o1 k m = Some (r, m'); memo_good eng m\<rbrakk> \<Longrightarrow>
     memo_good eng m' \<and> marks eng m' = marks eng m \<and>
     (is_cycle r \<or> (\<exists>n. meaning eng n o1 k () = Some (r, ())))"
proof (induction f arbitrary: o1 k r m m')
  case (Suc f)
  show ?case
  proof (cases "memo_find eng o1 k m")
    case (Some st)
    with Suc.prems show ?thesis by (cases st) (auto simp: is_cycle_def memo_good_def)
  next
    case None
    let ?m1 = "memo_put eng o1 k (Some Computing) m"
    let ?I = "\<lambda>m'. memo_good eng m' \<and> marks eng m' = marks eng ?m1"
    from Suc.prems(1) None obtain m1 where
      m1: "run (value_of eng f) (compute eng o1 k) ?m1 = Some (r, m1)"
        "m' = memo_put eng o1 k (case r of Inl e \<Rightarrow> None | Inr v \<Rightarrow> Some (Done v)) m1"
      by (cases r) (auto split: option.splits sum.splits)
    have step: "?I m'' \<and> (is_cycle r' \<or> (\<exists>n. meaning eng n o' k' () = Some (r', ())))"
      if "?I m" "value_of eng f o' k' m = Some (r', m'')" for o' k' r' m m''
      using Suc.IH [OF that(2)] that(1) by auto
    have "?I ?m1" using memo_good_put [OF Suc.prems(2), of "Some Computing"] by simp
    then have J: "?I m1 \<and> (is_cycle r \<or> (\<exists>n. run (meaning eng n) (compute eng o1 k) () = Some (r, ())))"
      using run_justified [of ?I "value_of eng f" eng ?m1 "compute eng o1 k" r m1] step m1(1) by blast
    then have K: "is_cycle r \<or> (\<exists>n. meaning eng n o1 k () = Some (r, ()))"
      using meaning.simps(2) [of eng] by metis
    have "(o1, k) \<notin> marks eng m" using None by (simp add: marks_def)
    with J K show ?thesis
      by (cases r) (auto simp: m1(2) marks_put is_cycle_def intro!: memo_good_put)
  qed
qed simp

section \<open>Every read returns\<close>

text \<open>An evaluation that does not panic and reads only cells of \<open>U\<close>.\<close>

primrec reads_within :: "(nat \<times> coord) set \<Rightarrow> 'a reads \<Rightarrow> bool" where
  "reads_within U (Ret x) = True"
| "reads_within U (Fail e) = True"
| "reads_within U Panic = False"
| "reads_within U (Ask o1 k h) = ((o1, k) \<in> U \<and> (\<forall>v. reads_within U (h v)))"

lemma run_returns:
  assumes "\<And>o1 k m. (o1, k) \<in> U \<Longrightarrow> I m \<Longrightarrow> \<exists>r m'. g o1 k m = Some (r, m') \<and> I m'"
  shows "reads_within U t \<Longrightarrow> I m \<Longrightarrow> \<exists>r m'. run g t m = Some (r, m') \<and> I m'"
proof (induction t arbitrary: m)
  case (Ask o1 k h)
  with assms [of o1 k m] obtain r m' where "g o1 k m = Some (r, m')" "I m'" by auto
  with Ask show ?case by (cases r) auto
qed auto

lemma value_of_returns:
  assumes "finite U" and "\<And>o1 k. (o1, k) \<in> U \<Longrightarrow> reads_within U (compute eng o1 k)"
  shows "(o1, k) \<in> U \<Longrightarrow> card (U - marks eng m) < f \<Longrightarrow>
     \<exists>r m'. value_of eng f o1 k m = Some (r, m') \<and> marks eng m' = marks eng m"
proof (induction f arbitrary: o1 k m)
  case (Suc f)
  show ?case
  proof (cases "memo_find eng o1 k m")
    case (Some st)
    then show ?thesis by (cases st) auto
  next
    case None
    let ?m1 = "memo_put eng o1 k (Some Computing) m"
    have nm: "(o1, k) \<notin> marks eng m" using None by (simp add: marks_def)
    then have "U - marks eng ?m1 \<subset> U - marks eng m" using Suc.prems(1) by (auto simp: marks_put)
    then have "card (U - marks eng ?m1) < card (U - marks eng m)"
      using assms(1) by (intro psubset_card_mono) auto
    then have "card (U - marks eng ?m1) < f" using Suc.prems(2) by simp
    then have "\<exists>r m''. value_of eng f o' k' m' = Some (r, m'') \<and> marks eng m'' = marks eng ?m1"
      if "(o', k') \<in> U" "marks eng m' = marks eng ?m1" for o' k' m'
      using Suc.IH [OF that(1), of m'] that(2) by simp
    then obtain r m' where "run (value_of eng f) (compute eng o1 k) ?m1 = Some (r, m')" "marks eng m' = marks eng ?m1"
      using run_returns [of U "\<lambda>m'. marks eng m' = marks eng ?m1" "value_of eng f" "compute eng o1 k", where m = ?m1]
        assms(2) [OF Suc.prems(1)] by blast
    with None nm show ?thesis by (cases r) (auto simp: marks_put)
  qed
qed simp

end
