(* ===== verification/Calc_Total.thy ===== *)
theory Calc_Total
  imports Calc_Memo
begin

text \<open>
  Reads of a well-formed registry return: no evaluation panics, and a finite set of cells holds
  everything a read can ask for (\<open>read_space\<close>), so enough fuel always gives a result.
\<close>

section \<open>Well-formed registries\<close>

definition cell_ok :: "registry \<Rightarrow> cube \<Rightarrow> ccell \<Rightarrow> bool" where
  "cell_ok reg c cell \<longleftrightarrow>
     list_all (\<lambda>s. case s of Pinned _ \<Rightarrow> True | FromTarget pos \<Rightarrow> pos < rank c) (addr cell) \<and>
     (case reg_cube reg (cell_cube cell) of None \<Rightarrow> True | Some c' \<Rightarrow> length (addr cell) = rank c')"

fun expr_ok :: "registry \<Rightarrow> cube \<Rightarrow> cexpr \<Rightarrow> bool" and cond_ok :: "registry \<Rightarrow> cube \<Rightarrow> ccond \<Rightarrow> bool" where
  "expr_ok reg c (CNum f) = True"
| "expr_ok reg c CUndef = True"
| "expr_ok reg c (CAttrNum d a) = (d < rank c \<and> a < length (attributes (dims c ! d)))"
| "expr_ok reg c (CCell cell) = cell_ok reg c cell"
| "expr_ok reg c (CNeg e) = expr_ok reg c e"
| "expr_ok reg c (CBin p l r) = (expr_ok reg c l \<and> expr_ok reg c r)"
| "expr_ok reg c (CIf q t None) = (cond_ok reg c q \<and> expr_ok reg c t)"
| "expr_ok reg c (CIf q t (Some f)) = (cond_ok reg c q \<and> expr_ok reg c t \<and> expr_ok reg c f)"
| "cond_ok reg c (CAnd a b) = (cond_ok reg c a \<and> cond_ok reg c b)"
| "cond_ok reg c (COr a b) = (cond_ok reg c a \<and> cond_ok reg c b)"
| "cond_ok reg c (CNot a) = cond_ok reg c a"
| "cond_ok reg c (CCompare l p r) = (expr_ok reg c l \<and> expr_ok reg c r)"

definition rule_ok :: "registry \<Rightarrow> cube \<Rightarrow> compiled_rule \<Rightarrow> bool" where
  "rule_ok reg c r \<longleftrightarrow> length (per_dim (area r)) = rank c \<and> expr_ok reg c (cexpr r)"

definition model_ok :: "registry \<Rightarrow> cube \<Rightarrow> compiled_model \<Rightarrow> bool" where
  "model_ok reg c cm \<longleftrightarrow> list_all (rule_ok reg c) (rules cm)"

definition registry_ok :: "registry \<Rightarrow> bool" where
  "registry_ok reg \<longleftrightarrow>
     finite {n. reg_cube reg n \<noteq> None} \<and>
     (\<forall>n c. reg_cube reg n = Some c \<longrightarrow> cube_wf c \<and>
        (case reg_compiled reg n of None \<Rightarrow> True | Some cm \<Rightarrow> model_ok reg c cm) \<and>
        (case reg_fed_set reg n of None \<Rightarrow> True | Some fs \<Rightarrow> \<forall>k \<in> set fs. in_range (dims c) k))"

section \<open>The numbers an evaluation can reach\<close>

definition cell_nums :: "ccell \<Rightarrow> nat set" where
  "cell_nums cell = {cell_cube cell, length (addr cell)} \<union> {i. Pinned i \<in> set (addr cell)}"

fun expr_nums :: "cexpr \<Rightarrow> nat set" and cond_nums :: "ccond \<Rightarrow> nat set" where
  "expr_nums (CNum f) = {}"
| "expr_nums CUndef = {}"
| "expr_nums (CAttrNum d a) = {}"
| "expr_nums (CCell cell) = cell_nums cell"
| "expr_nums (CNeg e) = expr_nums e"
| "expr_nums (CBin p l r) = expr_nums l \<union> expr_nums r"
| "expr_nums (CIf q t None) = cond_nums q \<union> expr_nums t"
| "expr_nums (CIf q t (Some f)) = cond_nums q \<union> expr_nums t \<union> expr_nums f"
| "cond_nums (CAnd a b) = cond_nums a \<union> cond_nums b"
| "cond_nums (COr a b) = cond_nums a \<union> cond_nums b"
| "cond_nums (CNot a) = cond_nums a"
| "cond_nums (CCompare l p r) = expr_nums l \<union> expr_nums r"

lemma finite_cell_nums: "finite (cell_nums cell)"
proof -
  have "{i. Pinned i \<in> set (addr cell)} = Pinned -` set (addr cell)" by auto
  then show ?thesis by (simp add: cell_nums_def finite_vimageI inj_on_def)
qed

lemma finite_nums: "finite (expr_nums e)" "finite (cond_nums q)"
  by (induction e and q rule: expr_nums_cond_nums.induct) (simp_all add: finite_cell_nums)

definition cube_nums :: "registry \<Rightarrow> nat \<Rightarrow> cube \<Rightarrow> nat set" where
  "cube_nums reg n c =
     {rank c} \<union> (\<lambda>d. length (elements d)) ` set (dims c) \<union>
     (case reg_compiled reg n of None \<Rightarrow> {} | Some cm \<Rightarrow> \<Union>r \<in> set (rules cm). expr_nums (cexpr r))"

lemma finite_cube_nums: "finite (cube_nums reg n c)"
  by (auto simp: cube_nums_def finite_nums split: option.splits)

definition read_space :: "registry \<Rightarrow> nat \<Rightarrow> (nat \<times> coord) set" where
  "read_space reg N =
     {(n, k). n \<le> N \<and> length k \<le> N \<and> set k \<subseteq> {..N} \<and>
        (case reg_cube reg n of None \<Rightarrow> True | Some c \<Rightarrow> length k = rank c)}"

lemma finite_read_space: "finite (read_space reg N)"
proof -
  have "read_space reg N \<subseteq> {..N} \<times> {k. set k \<subseteq> {..N} \<and> length k \<le> N}" by (auto simp: read_space_def)
  then show ?thesis using finite_lists_length_le [of "{..N}" N] finite_subset by blast
qed

section \<open>What an evaluation reads\<close>

lemma reads_within_bind:
  "reads_within U t \<Longrightarrow> (\<And>x. reads_within U (f x)) \<Longrightarrow> reads_within U (bindR t f)"
  by (induction t) auto

lemma reads_within_lift [simp]: "reads_within U (lift_result r)"
  by (cases r) auto

lemma reads_within_or_panic: "x = Some y \<Longrightarrow> reads_within U (f y) \<Longrightarrow> reads_within U (or_panic x f)"
  by simp

lemma reads_within_bind_lift:
  "(\<And>x. r = Inr x \<Longrightarrow> reads_within U (f x)) \<Longrightarrow> reads_within U (bindR (lift_result r) f)"
  by (cases r) auto

lemma resolve_addr_total:
  "list_all (\<lambda>s. case s of Pinned _ \<Rightarrow> True | FromTarget pos \<Rightarrow> pos < length target) as \<Longrightarrow>
   \<exists>abs. resolve_addr as target = Some abs \<and> length abs = length as \<and>
     set abs \<subseteq> {i. Pinned i \<in> set as} \<union> set target"
proof (induction as)
  case (Cons s as)
  then obtain abs where "resolve_addr as target = Some abs" "length abs = length as"
    "set abs \<subseteq> {i. Pinned i \<in> set as} \<union> set target" by auto
  with Cons.prems show ?case by (cases s) auto
qed simp

lemma eval_cell_within:
  assumes "cell_ok reg c cell" and "length target = rank c" and "set target \<subseteq> {..N}"
    and "cell_nums cell \<subseteq> {..N}"
  shows "reads_within (read_space reg N) (eval_cell cell target)"
proof -
  have "list_all (\<lambda>s. case s of Pinned _ \<Rightarrow> True | FromTarget pos \<Rightarrow> pos < length target) (addr cell)"
    unfolding assms(2) using assms(1) by (simp add: cell_ok_def)
  from resolve_addr_total [OF this]
  obtain abs where abs: "resolve_addr (addr cell) target = Some abs" "length abs = length (addr cell)"
    "set abs \<subseteq> {i. Pinned i \<in> set (addr cell)} \<union> set target" by blast
  then have "(cell_cube cell, abs) \<in> read_space reg N"
    using assms(1,3,4) by (auto simp: read_space_def cell_ok_def cell_nums_def split: option.splits)
  then show ?thesis by (simp add: eval_cell_def abs(1))
qed

lemma eval_within:
  assumes "reg_cube (eng_registry eng) n = Some c" and "length target = rank c" and "set target \<subseteq> {..N}"
  shows "expr_ok (eng_registry eng) c e \<Longrightarrow> expr_nums e \<subseteq> {..N} \<Longrightarrow>
      reads_within (read_space (eng_registry eng) N) (eval_expr eng e n target)"
    and "cond_ok (eng_registry eng) c q \<Longrightarrow> cond_nums q \<subseteq> {..N} \<Longrightarrow>
      reads_within (read_space (eng_registry eng) N) (eval_cond eng q n target)"
proof (induction e and q rule: expr_nums_cond_nums.induct)
  case (3 d a)
  with assms show ?case
    by (auto simp: eval_attr_def nth_dim_def rank_def split: option.splits attribute_value.splits)
next
  case (4 cell)
  with assms show ?case by (simp add: eval_cell_within)
qed (auto intro!: reads_within_bind)

lemma first_match_total:
  assumes "length coord = rank c"
  shows "list_all (\<lambda>r. length (per_dim (area r)) = rank c) rs \<Longrightarrow>
     \<exists>found. first_match c coord n rs = Some found \<and> (case found of None \<Rightarrow> True | Some j \<Rightarrow> n \<le> j \<and> j < n + length rs)"
proof (induction rs arbitrary: n)
  case (Cons r rs)
  have P: "preds_match b c d ps is \<noteq> None" if "d + length ps \<le> rank c" for b d ps "is"
    using that
  proof (induction ps arbitrary: d "is")
    case (Cons p ps)
    then have "pred_matches b (nth_dim c d) p i \<noteq> None" for i
      by (cases p) (auto simp: nth_dim_def rank_def)
    then show ?case using Cons by (cases "is") (auto split: option.splits)
  qed simp
  have "area_matches (area r) c coord \<noteq> None"
    using P [of 0] Cons.prems assms by (simp add: area_matches_def)
  then obtain ok where ok: "area_matches (area r) c coord = Some ok" by blast
  from Cons.IH [of "n + 1"] Cons.prems obtain found where
    "first_match c coord (n + 1) rs = Some found"
    "case found of None \<Rightarrow> True | Some j \<Rightarrow> n + 1 \<le> j \<and> j < n + 1 + length rs" by auto
  then show ?case by (auto simp: ok split: option.splits)
qed simp

lemma all_leaf_at_total: "d + length k \<le> rank c \<Longrightarrow> \<exists>b. all_leaf_at c d k = Some b"
  by (induction k arbitrary: d) (auto simp: nth_dim_def rank_def)

lemma combo_at_under: "[] \<notin> set wss \<Longrightarrow> fst (combo_at wss n w) \<in> under wss"
proof (induction wss arbitrary: n w)
  case (Cons ws wss)
  have "n mod length ws < length ws" using Cons.prems by (intro mod_less_divisor) auto
  then have "fst (ws ! (n mod length ws)) \<in> fst ` set ws" by simp
  moreover have "fst (combo_at wss m v) \<in> under wss" for m v using Cons.IH Cons.prems by simp
  ultimately show ?case by (auto simp: under_simps split_def image_iff)
qed (simp add: under_simps)

lemma combo_count_zero: "combo_count wss \<noteq> 0 \<Longrightarrow> [] \<notin> set wss"
  by (induction wss) auto

lemma sum_reads_within:
  "\<forall>(k, w) \<in> set ks. (n, k) \<in> U \<Longrightarrow> reads_within U (sum_reads n ks acc)"
  by (induction ks arbitrary: acc) auto

lemma fed_reads_within:
  "\<forall>k \<in> set ks. (n, k) \<in> U \<Longrightarrow> reads_within U (fed_reads n wts ks seen acc)"
  by (induction ks arbitrary: seen acc) (auto split: option.split)

lemma in_range_space:
  assumes "reg_cube reg n = Some c" and "cube_nums reg n c \<subseteq> {..N}" and "n \<le> N" and "in_range (dims c) k"
  shows "(n, k) \<in> read_space reg N"
proof -
  have len: "length k = rank c" using assms(4) by (simp add: in_range_nth rank_def)
  have "i \<le> N" if i: "i \<in> set k" for i
  proof -
    obtain d where d: "d < length k" "k ! d = i" using i unfolding in_set_conv_nth by blast
    then have "i < length (elements (dims c ! d))" using assms(4) by (auto simp: in_range_nth)
    moreover have "dims c ! d \<in> set (dims c)" using d(1) assms(4) by (simp add: in_range_nth)
    then have "length (elements (dims c ! d)) \<le> N" using assms(2) by (auto simp: cube_nums_def)
    ultimately show ?thesis by simp
  qed
  moreover have "rank c \<le> N" using assms(2) by (simp add: cube_nums_def)
  ultimately show ?thesis using assms(1,3) len by (auto simp: read_space_def)
qed

lemma consolidate_within:
  assumes c: "reg_cube reg n = Some c" "cube_nums reg n c \<subseteq> {..N}" "n \<le> N" "cube_wf c"
    and fed: "\<And>fs k. fed = Some fs \<Longrightarrow> k \<in> set fs \<Longrightarrow> in_range (dims c) k"
  shows "reads_within (read_space reg N) (consolidate_reads c n coord fed)"
proof -
  note sp = in_range_space [OF c(1-3)]
  have "reads_within (read_space reg N)
     (bindR (lift_result (map_err CalcModel (dim_weights (dims c) coord))) (\<lambda>wss.
            bindR (lift_result (ok_or (CalcModel Overflow) (count_combos (map length wss) 1))) (\<lambda>tot.
              if tot = 0 then Ret 0
              else bindR
                (case fed of
                   None \<Rightarrow> sum_reads n (map (\<lambda>j. combo_at wss j 1) [0..<tot]) 0
                 | Some fs \<Rightarrow>
                     bindR (fed_reads n (map map_of wss) (map fst (cell_entries c)) {} 0) (\<lambda>(seen, acc).
                     bindR (fed_reads n (map map_of wss) fs seen acc) (\<lambda>(_, acc'). Ret acc')))
                (\<lambda>acc. lift_result (map_err CalcModel (to_fixed acc))))))"
    if rng: "in_range (dims c) coord"
  proof (intro reads_within_bind_lift)
    fix wss tot assume w: "map_err CalcModel (dim_weights (dims c) coord) = Inr wss"
      and t: "ok_or (CalcModel Overflow) (count_combos (map length wss) 1) = Inr tot"
    then have u: "\<forall>k \<in> under wss. in_range (dims c) k"
      using dim_weights_total [OF cube_wf_D(1) [OF c(4)] rng] by auto
    have "count_combos (map length wss) 1 = Some tot" using t by simp
    from count_combos_Some [OF this] have tot: "tot = combo_count wss" by (simp add: combo_count_prod)
    have "reads_within (read_space reg N) (sum_reads n (map (\<lambda>j. combo_at wss j 1) [0..<tot]) 0)" if "tot \<noteq> 0"
    proof (intro sum_reads_within ballI)
      fix x assume "x \<in> set (map (\<lambda>j. combo_at wss j 1) [0..<tot])"
      then obtain j where x: "x = combo_at wss j 1" by auto
      have "fst x \<in> under wss" unfolding x using that tot by (intro combo_at_under combo_count_zero) simp
      with u sp show "case x of (k, w) \<Rightarrow> (n, k) \<in> read_space reg N" by (simp add: split_def)
    qed
    moreover have "reads_within (read_space reg N) (fed_reads n ms (map fst (cell_entries c)) seen acc)" for ms seen acc
      using cell_entries_range [OF c(4)] sp by (intro fed_reads_within) auto
    moreover have "reads_within (read_space reg N) (fed_reads n ms fs seen acc)" if "fed = Some fs" for ms seen acc fs
      using fed [OF that] sp by (intro fed_reads_within) auto
    ultimately show "reads_within (read_space reg N) (if tot = 0 then Ret 0
              else bindR
                (case fed of
                   None \<Rightarrow> sum_reads n (map (\<lambda>j. combo_at wss j 1) [0..<tot]) 0
                 | Some fs \<Rightarrow>
                     bindR (fed_reads n (map map_of wss) (map fst (cell_entries c)) {} 0) (\<lambda>(seen, acc).
                     bindR (fed_reads n (map map_of wss) fs seen acc) (\<lambda>(_, acc'). Ret acc')))
                (\<lambda>acc. lift_result (map_err CalcModel (to_fixed acc))))"
      by (cases fed) (auto intro!: reads_within_bind)
  qed
  then show ?thesis
    unfolding consolidate_reads_def using sp check_coord_Inr [of c coord]
    by (intro reads_within_bind_lift) (auto simp del: reads_within_lift intro: reads_within_bind_lift)
qed

lemma compute_within:
  assumes ok: "registry_ok (eng_registry eng)" and sp: "(n, k) \<in> read_space (eng_registry eng) N"
    and nums: "\<And>n c. reg_cube (eng_registry eng) n = Some c \<Longrightarrow> cube_nums (eng_registry eng) n c \<subseteq> {..N}"
  shows "reads_within (read_space (eng_registry eng) N) (compute eng n k)"
proof (cases "reg_cube (eng_registry eng) n")
  case None
  then show ?thesis by (simp add: compute_def Let_def)
next
  case (Some c)
  let ?reg = "eng_registry eng"
  have wf: "cube_wf c" and fed: "\<And>fs k. reg_fed_set ?reg n = Some fs \<Longrightarrow> k \<in> set fs \<Longrightarrow> in_range (dims c) k"
    and cm: "\<And>cm. reg_compiled ?reg n = Some cm \<Longrightarrow> model_ok ?reg c cm"
    using ok Some unfolding registry_ok_def by fastforce+
  have k: "length k = rank c" "set k \<subseteq> {..N}" "n \<le> N" using sp Some by (auto simp: read_space_def)
  obtain b where b: "all_leaf_at c 0 k = Some b" using all_leaf_at_total [of 0 k c] k(1) by auto
  have "reads_within (read_space ?reg N) (consolidate_reads c n k (fed_for eng n))"
    using fed by (intro consolidate_within [OF Some nums [OF Some] k(3) wf]) (auto simp: fed_for_def split: if_splits)
  then have st: "reads_within (read_space ?reg N) (stored_or_rolled eng c n k)"
    by (simp add: stored_or_rolled_def b split: option.split)
  have "reads_within (read_space ?reg N) (or_panic (matching_rule m c k) (\<lambda>found.
        case found of
          Some rid \<Rightarrow> eval_expr eng (cexpr (rules m ! rid)) n k
        | None \<Rightarrow> stored_or_rolled eng c n k))" if m: "reg_compiled ?reg n = Some m" for m
  proof -
    have r: "length (per_dim (area r)) = rank c \<and> expr_ok ?reg c (cexpr r)" if "r \<in> set (rules m)" for r
      using cm [OF m] that by (auto simp: model_ok_def rule_ok_def list_all_iff)
    then have "list_all (\<lambda>r. length (per_dim (area r)) = rank c) (rules m)" by (simp add: list_all_iff)
    from first_match_total [OF k(1) this, of 0] obtain found where
      found: "matching_rule m c k = Some found" "case found of None \<Rightarrow> True | Some j \<Rightarrow> j < length (rules m)"
      unfolding matching_rule_def by (elim exE conjE) (simp split: option.splits)
    have "expr_nums (cexpr r) \<subseteq> {..N}" if "r \<in> set (rules m)" for r
      using nums [OF Some] that m by (auto simp: cube_nums_def)
    then have "reads_within (read_space ?reg N) (eval_expr eng (cexpr r) n k)" if "r \<in> set (rules m)" for r
      using eval_within(1) [OF Some k(1,2)] r that by blast
    with found st show ?thesis by (auto split: option.split)
  qed
  with st show ?thesis by (simp add: compute_def Let_def Some split: option.split)
qed

lemma read_returns:
  assumes "registry_ok (eng_registry eng)"
    and "\<And>c. reg_cube (eng_registry eng) n = Some c \<Longrightarrow> length k = rank c"
  shows "\<exists>F. \<forall>f \<ge> F. \<forall>m. \<exists>r m'. value_of eng f n k m = Some (r, m') \<and> marks eng m' = marks eng m"
proof -
  let ?reg = "eng_registry eng"
  let ?D = "{n. reg_cube ?reg n \<noteq> None}"
  let ?S = "insert n (insert (length k) (set k)) \<union> (\<Union>j \<in> ?D. cube_nums ?reg j (the (reg_cube ?reg j)))"
  have "finite ?S" using assms(1) finite_cube_nums by (simp add: registry_ok_def)
  then obtain N where N: "\<forall>x \<in> ?S. x \<le> N" by (auto simp: finite_nat_set_iff_bounded_le)
  have nums: "cube_nums ?reg j c \<subseteq> {..N}" if "reg_cube ?reg j = Some c" for j c
  proof
    fix x assume "x \<in> cube_nums ?reg j c"
    then have "x \<in> ?S" using that by (intro UnI2 UN_I [of j]) simp_all
    then show "x \<in> {..N}" using N by blast
  qed
  have k: "(n, k) \<in> read_space ?reg N"
    using N assms(2) by (auto simp: read_space_def split: option.split)
  have "\<exists>r m'. value_of eng f n k m = Some (r, m') \<and> marks eng m' = marks eng m"
    if "card (read_space ?reg N) < f" for f m
  proof (rule value_of_returns [OF finite_read_space _ k])
    have "card (read_space ?reg N - marks eng m) \<le> card (read_space ?reg N)"
      by (rule card_mono [OF finite_read_space]) blast
    then show "card (read_space ?reg N - marks eng m) < f" using that by simp
  qed (rule compute_within [OF assms(1) _ nums])
  then show ?thesis by (metis Suc_le_lessD)
qed

end
