(* ===== verification/Spread.thy ===== *)
theory Spread
  imports Cube_Run
begin

text \<open>
  Data spreading (\<open>crates/epiphany-core/src/spread.rs\<close>): a value entered at a consolidated
  coordinate becomes exact leaf writes. The integer arithmetic is \<open>i64\<close> division, which
  truncates towards zero, and \<open>i64\<close> addition, which wraps in a release build
  (\<open>wrap64\<close>); the sums are \<open>i128\<close>.
\<close>

datatype query_error =
    UnknownSubset string
  | QueryUnknownDimension string string
  | UnknownMember string string
  | DimensionCoverage string
  | SubsetDimensionMismatch string string string
  | DynamicUnsupported
  | DynamicEval string
  | Calc string
  | AccessDenied
  | QModel model_error

datatype spread_method = Equal | Proportional | Repeat | Clear

datatype spread_error =
    WeightedConsolidation
  | TooManyLeaves nat nat
  | AllExcluded
  | Read query_error

definition MAX_SPREAD_LEAVES :: nat where "MAX_SPREAD_LEAVES = 200000"

section \<open>Distributing a value\<close>

text \<open>\<open>allocate_remainder\<close>: one unit per leading leaf until the remainder is used up.\<close>

fun allocate_loop :: "int \<Rightarrow> int \<Rightarrow> int list \<Rightarrow> int list" where
  "allocate_loop step left [] = []"
| "allocate_loop step left (x # xs) =
     (if 0 < left then wrap64 (x + step) # allocate_loop step (left - 1) xs else x # xs)"

definition allocate_remainder :: "int list \<Rightarrow> int \<Rightarrow> int list" where
  "allocate_remainder out remainder =
     (let step = (if 0 \<le> remainder then 1 else - 1) in allocate_loop step (wrap64 \<bar>remainder\<bar>) out)"

definition distribute_equal :: "int \<Rightarrow> nat \<Rightarrow> int list" where
  "distribute_equal tot n =
     (if n = 0 then []
      else let n_i = wrap64 (int n); base = tdiv tot n_i; remainder = wrap64 (tot - wrap64 (base * n_i))
           in allocate_remainder (replicate n base) remainder)"

fun shares :: "int \<Rightarrow> int \<Rightarrow> int list \<Rightarrow> int list option" where
  "shares t s [] = Some []"
| "shares t s (w # ws) =
     (case checked_i64 (tdiv (wrap128 (t * w)) s) of
        None \<Rightarrow> None
      | Some share \<Rightarrow> map_option (Cons share) (shares t s ws))"

definition distribute_proportional :: "int \<Rightarrow> int list \<Rightarrow> int list" where
  "distribute_proportional tot weights =
     (let s = wrap128 (sum_list weights) in
      if s = 0 then distribute_equal tot (length weights)
      else case shares tot s weights of
        None \<Rightarrow> distribute_equal tot (length weights)
      | Some out \<Rightarrow> allocate_remainder out (wrap64 (tot - wrap128 (sum_list out))))"

section \<open>Spreading\<close>

text \<open>The leaves of each dimension; \<open>None\<close> when one has no contributing leaf, which ends the
  call with no writes.\<close>

fun spread_dims :: "dimension list \<Rightarrow> coord \<Rightarrow> spread_error + nat list list option" where
  "spread_dims (d # ds) (i # is) =
     bindE (map_err (\<lambda>e. Read (QModel e)) (leaf_weights d i)) (\<lambda>ws.
       if list_ex (\<lambda>(_, w). w \<noteq> 1) ws then Inl WeightedConsolidation
       else if ws = [] then Inr None
       else bindE (spread_dims ds is) (\<lambda>rest. Inr (map_option (Cons (map fst ws)) rest)))"
| "spread_dims _ _ = Inr (Some [])"

fun spread_count :: "nat list list \<Rightarrow> nat \<Rightarrow> spread_error + nat" where
  "spread_count [] cnt = Inr cnt"
| "spread_count (ls # rest) cnt =
     (let cnt' = sat_u64 (cnt * length ls) in
      if MAX_SPREAD_LEAVES < cnt' then Inl (TooManyLeaves cnt' MAX_SPREAD_LEAVES)
      else spread_count rest cnt')"

text \<open>The odometer, written on the reversed lists: the last dimension varies fastest.\<close>

fun odometer :: "nat list \<Rightarrow> nat list \<Rightarrow> nat list" where
  "odometer (n # ns) (c # cs) = (if c + 1 < n then (c + 1) # cs else 0 # odometer ns cs)"
| "odometer _ _ = []"

fun spread_coords :: "nat list list \<Rightarrow> nat \<Rightarrow> nat list \<Rightarrow> coord list" where
  "spread_coords per_dim 0 combo = []"
| "spread_coords per_dim (Suc cnt) combo =
     map2 (!) per_dim combo #
       spread_coords per_dim cnt (rev (odometer (rev (map length per_dim)) (rev combo)))"

fun read_all :: "(coord \<Rightarrow> query_error + fixed) \<Rightarrow> coord list \<Rightarrow> spread_error + int list" where
  "read_all rd [] = Inr []"
| "read_all rd (k # ks) =
     bindE (map_err Read (rd k)) (\<lambda>v. bindE (read_all rd ks) (\<lambda>vs. Inr (v # vs)))"

definition spread_leaves :: "cube \<Rightarrow> coord \<Rightarrow> fixed \<Rightarrow> spread_method \<Rightarrow> (coord \<Rightarrow> query_error + fixed)
    \<Rightarrow> (coord \<Rightarrow> bool) \<Rightarrow> spread_error + (coord \<times> fixed) list" where
  "spread_leaves c target v meth read_leaf exclude =
     (if length target \<noteq> rank c then Inl (Read (QModel (RankMismatch (rank c) (length target))))
      else bindE (spread_dims (dims c) target) (\<lambda>found.
        case found of
          None \<Rightarrow> Inr []
        | Some per_dim \<Rightarrow>
            bindE (spread_count per_dim 1) (\<lambda>cnt.
              let coords = filter (\<lambda>k. \<not> exclude k)
                             (spread_coords per_dim cnt (replicate (length per_dim) 0)) in
              if coords = [] then Inl AllExcluded
              else bindE (case meth of
                       Repeat \<Rightarrow> Inr (replicate (length coords) v)
                     | Clear \<Rightarrow> Inr (replicate (length coords) 0)
                     | Equal \<Rightarrow> Inr (distribute_equal v (length coords))
                     | Proportional \<Rightarrow>
                         bindE (read_all read_leaf coords) (\<lambda>ws. Inr (distribute_proportional v ws)))
                   (\<lambda>scaled. Inr (zip coords scaled)))))"

section \<open>The shares sum to the value\<close>

lemma length_allocate_loop [simp]: "length (allocate_loop st l xs) = length xs"
  by (induction xs arbitrary: l) auto

lemma allocate_loop_sum:
  "\<lbrakk>\<forall>x \<in> set xs. in_i64 (x + st) \<and> in_i64 x; 0 \<le> l; l \<le> int (length xs)\<rbrakk> \<Longrightarrow>
     sum_list (allocate_loop st l xs) = sum_list xs + l * st \<and> (\<forall>x \<in> set (allocate_loop st l xs). in_i64 x)"
proof (induction xs arbitrary: l)
  case Nil
  then show ?case by simp
next
  case (Cons x xs)
  show ?case
  proof (cases "0 < l")
    case True
    have "sum_list (allocate_loop st (l - 1) xs) = sum_list xs + (l - 1) * st
        \<and> (\<forall>x \<in> set (allocate_loop st (l - 1) xs). in_i64 x)"
      using Cons.prems True by (intro Cons.IH) simp_all
    with True Cons.prems(1) show ?thesis by (simp add: left_diff_distrib)
  next
    case False
    then have "l = 0" using Cons.prems(2) by simp
    with Cons.prems(1) show ?thesis by simp
  qed
qed

lemma allocate_remainder_sum:
  assumes "\<forall>x \<in> set xs. in_i64 x \<and> (r \<noteq> 0 \<longrightarrow> i64_min < x \<and> x < i64_max)" and "\<bar>r\<bar> \<le> int (length xs)"
    and "length xs \<le> MAX_SPREAD_LEAVES"
  shows "sum_list (allocate_remainder xs r) = sum_list xs + r"
    "\<forall>x \<in> set (allocate_remainder xs r). in_i64 x" "length (allocate_remainder xs r) = length xs"
proof -
  have w: "wrap64 \<bar>r\<bar> = \<bar>r\<bar>"
    using assms(2,3) by (intro wrap64_id) (simp add: in_i64_def i64_min_def i64_max_def MAX_SPREAD_LEAVES_def)
  let ?st = "if 0 \<le> r then 1 else - 1 :: int"
  have "sum_list (allocate_loop ?st \<bar>r\<bar> xs) = sum_list xs + r \<and> (\<forall>x \<in> set (allocate_loop ?st \<bar>r\<bar> xs). in_i64 x)"
  proof (cases "r = 0")
    case True
    then show ?thesis using assms(1) by (cases xs) auto
  next
    case False
    then have "\<forall>x \<in> set xs. in_i64 (x + ?st) \<and> in_i64 x" using assms(1) by (auto simp: in_i64_def)
    from allocate_loop_sum [OF this, of "\<bar>r\<bar>"] assms(2) show ?thesis by (simp add: mult.commute abs_if)
  qed
  then show "sum_list (allocate_remainder xs r) = sum_list xs + r"
    "\<forall>x \<in> set (allocate_remainder xs r). in_i64 x" "length (allocate_remainder xs r) = length xs"
    by (simp_all add: allocate_remainder_def w)
qed

lemma distribute_equal_sum:
  assumes "in_i64 t" and "0 < n" and "n \<le> MAX_SPREAD_LEAVES"
  shows "sum_list (distribute_equal t n) = t" "\<forall>x \<in> set (distribute_equal t n). in_i64 x"
    "length (distribute_equal t n) = n"
proof -
  let ?b = "tdiv t (int n)"
  have n64: "wrap64 (int n) = int n"
    using assms(3) by (intro wrap64_id) (simp add: in_i64_def i64_min_def i64_max_def MAX_SPREAD_LEAVES_def)
  note T = tdiv_mult_bound [of "int n" t]
  have bn: "\<bar>?b * int n\<bar> \<le> \<bar>t\<bar>" "\<bar>t - ?b * int n\<bar> < int n" using T(1,2) assms(2) by simp_all
  have same: "in_i64 (?b * int n)" "in_i64 (t - ?b * int n)"
  proof -
    show "in_i64 (?b * int n)"
      using bn(1) T(3,4) assms(1,2) by (cases "0 \<le> t") (auto simp: in_i64_def i64_min_def i64_max_def)
    show "in_i64 (t - ?b * int n)"
      using bn(2) assms(3) unfolding in_i64_def i64_min_def i64_max_def MAX_SPREAD_LEAVES_def by linarith
  qed
  have eq: "distribute_equal t n = allocate_remainder (replicate n ?b) (t - ?b * int n)"
    using assms(2) same by (simp add: distribute_equal_def Let_def n64)
  have ab: "\<bar>?b\<bar> * int n \<le> \<bar>t\<bar>" using bn(1) by (simp add: abs_mult)
  have bnd: "in_i64 ?b \<and> (t - ?b * int n \<noteq> 0 \<longrightarrow> i64_min < ?b \<and> ?b < i64_max)"
  proof (cases "n = 1")
    case True
    then have "?b = t" by (simp add: tdiv_def abs_sgn mult.commute)
    then show ?thesis using True assms(1) by simp
  next
    case False
    then have "2 \<le> int n" using assms(2) by simp
    then have "\<bar>?b\<bar> * 2 \<le> \<bar>?b\<bar> * int n" by (intro mult_left_mono) simp_all
    then have "\<bar>?b\<bar> * 2 \<le> \<bar>t\<bar>" using ab by linarith
    then show ?thesis using assms(1) by (auto simp: in_i64_def i64_min_def i64_max_def)
  qed
  have "\<forall>x \<in> set (replicate n ?b). in_i64 x \<and> (t - ?b * int n \<noteq> 0 \<longrightarrow> i64_min < x \<and> x < i64_max)"
    using bnd by simp
  note A = allocate_remainder_sum [OF this] bn(2)
  show "sum_list (distribute_equal t n) = t" "\<forall>x \<in> set (distribute_equal t n). in_i64 x"
    "length (distribute_equal t n) = n"
    using A assms(3) unfolding eq by (simp_all add: sum_list_replicate mult.commute)
qed

end
