(* ===== verification/Spread_Exact.thy ===== *)
theory Spread_Exact
  imports Spread Cube_Rename
begin

text \<open>
  What a spread writes. The odometer visits the product of the leaf lists in row-major order
  (\<open>spread_coords_product\<close>); both distributions sum to the entered value
  (\<open>distribute_equal_sum\<close>, \<open>distribute_proportional_sum\<close>); and writing the spread of a value
  into the cube makes the target read that value (\<open>spread_then_read\<close>).
\<close>

section \<open>The odometer counts\<close>

text \<open>The digits of a number in the mixed radix \<open>ns\<close>, most significant first.\<close>

fun digits_of :: "nat list \<Rightarrow> nat \<Rightarrow> nat list" where
  "digits_of [] v = []"
| "digits_of (n # ns) v = v div prod_list ns mod n # digits_of ns v"

lemma length_digits_of [simp]: "length (digits_of ns v) = length ns"
  by (induction ns) auto

definition all_max :: "nat list \<Rightarrow> nat list \<Rightarrow> bool" where
  "all_max ns cs \<longleftrightarrow> list_all2 (\<lambda>n c. n \<le> c + 1) ns cs"

lemma odometer_snoc:
  "length ns = length cs \<Longrightarrow>
   odometer (ns @ [n]) (cs @ [c]) =
     (if all_max ns cs then replicate (length cs) 0 @ [if c + 1 < n then c + 1 else 0]
      else odometer ns cs @ [c])"
  by (induction ns cs rule: list_induct2) (auto simp: all_max_def)

lemma length_odometer [simp]: "length ns = length cs \<Longrightarrow> length (odometer ns cs) = length cs"
  by (induction ns cs rule: list_induct2) auto

lemma all_max_rev: "all_max (rev ns) (rev cs) = all_max ns cs"
  by (simp add: all_max_def)

lemma prod_pos: "0 \<notin> set ns \<Longrightarrow> 0 < prod_list (ns :: nat list)"
  by (induction ns) auto

lemma Suc_mod_dvd_mult:
  assumes "0 < (P :: nat)" and "0 < n"
  shows "Suc v mod (n * P) = 0 \<longleftrightarrow> Suc v mod P = 0 \<and> n \<le> v div P mod n + 1"
proof (cases "Suc v mod P = 0")
  case True
  then obtain q where q: "Suc v = P * q" by (auto simp: mod_eq_0_iff_dvd dvd_def)
  then have "0 < q" by (cases q) auto
  have "v div P = q - 1"
    using div_Suc [of v P] True q assms(1) by (simp add: mult.commute)
  moreover have "Suc v mod (n * P) = 0 \<longleftrightarrow> q mod n = 0"
    unfolding q using assms(1) by (simp add: mod_eq_0_iff_dvd mult.commute [of n P])
  moreover have "q mod n = 0 \<longleftrightarrow> n \<le> (q - 1) mod n + 1"
    using mod_Suc [of "q - 1" n] \<open>0 < q\<close> mod_less_divisor [OF assms(2), of "q - 1"] by auto
  ultimately show ?thesis using True by simp
next
  case False
  then have "\<not> P dvd Suc v" by (simp add: mod_eq_0_iff_dvd)
  then have "\<not> n * P dvd Suc v" using dvd_mult_right by blast
  with False show ?thesis by (simp add: mod_eq_0_iff_dvd)
qed

lemma all_max_digits:
  "0 \<notin> set ns \<Longrightarrow> all_max ns (digits_of ns v) \<longleftrightarrow> Suc v mod prod_list ns = 0"
proof (induction ns)
  case (Cons n ns)
  have "all_max (n # ns) (digits_of (n # ns) v)
      \<longleftrightarrow> n \<le> v div prod_list ns mod n + 1 \<and> Suc v mod prod_list ns = 0"
    using Cons by (simp add: all_max_def)
  then show ?case
    using Suc_mod_dvd_mult [of "prod_list ns" n v] prod_pos [of ns] Cons.prems by auto
qed (simp add: all_max_def)

lemma digits_of_zero: "0 \<notin> set ns \<Longrightarrow> v mod prod_list ns = 0 \<Longrightarrow> digits_of ns v = replicate (length ns) 0"
proof (induction ns)
  case (Cons n ns)
  then obtain q where q: "v = n * prod_list ns * q" by (auto simp: mod_eq_0_iff_dvd dvd_def)
  then have "v div prod_list ns mod n = 0" using prod_pos [of ns] Cons.prems(1) by simp
  moreover have "v mod prod_list ns = 0" by (simp add: q)
  ultimately show ?case using Cons by simp
qed simp

lemma odometer_digits:
  "0 \<notin> set ns \<Longrightarrow> rev (odometer (rev ns) (rev (digits_of ns v))) = digits_of ns (Suc v)"
proof (induction ns)
  case (Cons n ns)
  have pos: "0 < n" "0 \<notin> set ns" using Cons.prems by auto
  let ?d = "v div prod_list ns mod n"
  show ?case
  proof (cases "Suc v mod prod_list ns = 0")
    case True
    have "Suc v div prod_list ns mod n = (if ?d + 1 < n then ?d + 1 else 0)"
      using True mod_Suc [of "v div prod_list ns" n] mod_less_divisor [OF pos(1), of "v div prod_list ns"]
      by (auto simp: div_Suc)
    with True show ?thesis
      using digits_of_zero [OF pos(2) True] all_max_digits [OF pos(2), of v]
      by (simp add: odometer_snoc all_max_rev)
  next
    case False
    with Cons.IH pos(2) all_max_digits [OF pos(2), of v] show ?thesis
      by (simp add: odometer_snoc all_max_rev div_Suc)
  qed
qed simp

lemma spread_coords_digits:
  "0 \<notin> set (map length ls) \<Longrightarrow>
   spread_coords ls cnt (digits_of (map length ls) v)
     = map (\<lambda>j. map2 (!) ls (digits_of (map length ls) j)) [v..<v + cnt]"
proof (induction cnt arbitrary: v)
  case (Suc cnt)
  have "[v..<v + Suc cnt] = v # [Suc v..<Suc v + cnt]" by (simp add: upt_conv_Cons del: upt_Suc)
  with Suc odometer_digits [OF Suc.prems, of v] show ?case by (simp del: upt_Suc)
qed simp

text \<open>The coordinates of the grid, the last dimension varying fastest.\<close>

lemma digits_of_period: "digits_of ns (v + k * prod_list ns) = digits_of ns v"
proof (induction ns arbitrary: k)
  case (Cons n ns)
  show ?case
  proof (cases "prod_list ns = 0")
    case False
    have "(v + k * n * prod_list ns) div prod_list ns mod n = v div prod_list ns mod n"
      using False by (simp add: mult.commute)
    with Cons.IH [of "k * n"] show ?thesis by (simp add: mult.assoc)
  qed simp
qed simp

lemma upt_blocks: "[0..<n * p] = concat (map (\<lambda>i. map (\<lambda>j. j + i * p) [0..<p]) [0..<n])"
proof (induction n)
  case (Suc n)
  have "[0..<Suc n * p] = [0..<n * p] @ map (\<lambda>j. j + n * p) [0..<p]"
    using upt_add_eq_append [of 0 "n * p" p] by (simp add: add.commute map_add_upt)
  with Suc show ?case by simp
qed simp

lemma grid_product:
  "0 \<notin> set (map length ls) \<Longrightarrow>
   map (\<lambda>j. map2 (!) ls (digits_of (map length ls) j)) [0..<prod_list (map length ls)] = product_lists ls"
proof (induction ls)
  case (Cons l ls)
  let ?p = "prod_list (map length ls)"
  have p: "0 < ?p" using Cons.prems prod_pos [of "map length ls"] by simp
  have row: "map2 (!) (l # ls) (digits_of (map length (l # ls)) (j + i * ?p))
      = l ! i # map2 (!) ls (digits_of (map length ls) j)" if "i < length l" "j < ?p" for i j
    using that p digits_of_period [of "map length ls" j i] by simp
  have IH: "map (\<lambda>j. map2 (!) ls (digits_of (map length ls) j)) [0..<?p] = product_lists ls"
    using Cons by simp
  have "map (\<lambda>j. map2 (!) (l # ls) (digits_of (map length (l # ls)) j)) [0..<length l * ?p]
      = concat (map (\<lambda>i. map (\<lambda>j. l ! i # map2 (!) ls (digits_of (map length ls) j)) [0..<?p]) [0..<length l])"
    unfolding upt_blocks [of "length l"] map_concat map_map
    by (intro arg_cong [of _ _ concat] map_cong refl) (use row in auto)
  also have "\<dots> = concat (map (\<lambda>i. map (Cons (l ! i)) (product_lists ls)) [0..<length l])"
    unfolding IH [symmetric] map_map by (simp add: comp_def)
  also have "\<dots> = concat (map (\<lambda>x. map (Cons x) (product_lists ls)) l)"
    by (intro arg_cong [of _ _ concat]) (auto intro!: nth_equalityI)
  finally show ?case by simp
qed simp

lemma spread_coords_product:
  assumes "[] \<notin> set ls"
  shows "spread_coords ls (prod_list (map length ls)) (replicate (length ls) 0) = product_lists ls"
proof -
  have pos: "0 \<notin> set (map length ls)" using assms by auto
  from digits_of_zero [OF pos, of 0] have "replicate (length ls) 0 = digits_of (map length ls) 0" by simp
  with spread_coords_digits [OF pos, of "prod_list (map length ls)" 0] grid_product [OF pos]
  show ?thesis by simp
qed

section \<open>The proportional shares\<close>

lemma shares_eq:
  "shares t s ws = Some out \<Longrightarrow> \<forall>w \<in> set ws. wrap128 (t * w) = t * w \<Longrightarrow>
     out = map (\<lambda>w. tdiv (t * w) s) ws \<and> (\<forall>x \<in> set out. in_i64 x)"
  by (induction ws arbitrary: out) (auto split: option.splits)

lemma sum_list_leftover:
  assumes "s \<noteq> 0" and "ws \<noteq> []"
  shows "\<bar>t * sum_list ws - (\<Sum>w\<leftarrow>ws. tdiv (t * w) s) * s\<bar> < int (length ws) * \<bar>s\<bar>"
  using assms(2)
proof (induction ws)
  case (Cons w ws)
  have b: "\<bar>t * w - tdiv (t * w) s * s\<bar> < \<bar>s\<bar>" using tdiv_mult_bound(1) [OF assms(1)] .
  show ?case
  proof (cases "ws = []")
    case True
    with b show ?thesis by simp
  next
    case False
    have "t * sum_list (w # ws) - (\<Sum>w\<leftarrow>w # ws. tdiv (t * w) s) * s
        = (t * w - tdiv (t * w) s * s) + (t * sum_list ws - (\<Sum>w\<leftarrow>ws. tdiv (t * w) s) * s)"
      by (simp add: algebra_simps)
    then have "\<bar>t * sum_list (w # ws) - (\<Sum>w\<leftarrow>w # ws. tdiv (t * w) s) * s\<bar>
        \<le> \<bar>t * w - tdiv (t * w) s * s\<bar> + \<bar>t * sum_list ws - (\<Sum>w\<leftarrow>ws. tdiv (t * w) s) * s\<bar>"
      by (simp add: abs_triangle_ineq)
    also have "\<dots> < \<bar>s\<bar> + int (length ws) * \<bar>s\<bar>"
      using b Cons.IH [OF False] by linarith
    finally show ?thesis by (simp add: algebra_simps)
  qed
qed simp

lemma leftover_bound:
  assumes "s \<noteq> 0" and "ws \<noteq> []" and "s = sum_list ws"
  shows "\<bar>t - (\<Sum>w\<leftarrow>ws. tdiv (t * w) s)\<bar> < int (length ws)"
proof -
  let ?r = "t - (\<Sum>w\<leftarrow>ws. tdiv (t * w) s)"
  have "\<bar>?r\<bar> * \<bar>s\<bar> = \<bar>t * s - (\<Sum>w\<leftarrow>ws. tdiv (t * w) s) * s\<bar>"
    by (simp only: abs_mult [symmetric] left_diff_distrib)
  also have "\<dots> < int (length ws) * \<bar>s\<bar>"
    using sum_list_leftover [OF assms(1,2), of t] assms(3) by simp
  finally show ?thesis by (simp add: mult_less_cancel_right)
qed

text \<open>Weights of one sign give shares between zero and the total.\<close>

lemma tdiv_share_bounds:
  assumes "s \<noteq> 0" and "0 \<le> w * s" and "\<bar>w\<bar> \<le> \<bar>s\<bar>"
  shows "0 \<le> t \<Longrightarrow> 0 \<le> tdiv (t * w) s" "t \<le> 0 \<Longrightarrow> tdiv (t * w) s \<le> 0" "\<bar>tdiv (t * w) s\<bar> \<le> \<bar>t\<bar>"
proof -
  have ws: "w = 0 \<or> sgn w = sgn s"
    using assms(1,2) by (auto simp: zero_le_mult_iff sgn_if)
  have nn: "0 \<le> \<bar>t * w\<bar> div \<bar>s\<bar>" using assms(1) by (simp add: pos_imp_zdiv_nonneg_iff)
  have eq: "tdiv (t * w) s = sgn t * (\<bar>t * w\<bar> div \<bar>s\<bar>)"
    using ws assms(1) by (auto simp: tdiv_def sgn_mult)
  show "0 \<le> t \<Longrightarrow> 0 \<le> tdiv (t * w) s" "t \<le> 0 \<Longrightarrow> tdiv (t * w) s \<le> 0"
    using nn by (simp_all add: eq sgn_if)
  have "\<bar>t * w\<bar> \<le> \<bar>t\<bar> * \<bar>s\<bar>" using assms(3) by (simp add: abs_mult mult_left_mono)
  then have "\<bar>t * w\<bar> div \<bar>s\<bar> \<le> \<bar>t\<bar> * \<bar>s\<bar> div \<bar>s\<bar>" using assms(1) by (intro zdiv_mono1) simp_all
  then have "\<bar>t * w\<bar> div \<bar>s\<bar> \<le> \<bar>t\<bar>" using assms(1) by simp
  moreover have "\<bar>sgn t * k\<bar> \<le> \<bar>t\<bar>" if "0 \<le> k" "k \<le> \<bar>t\<bar>" for k
    using that by (auto simp: sgn_if)
  ultimately show "\<bar>tdiv (t * w) s\<bar> \<le> \<bar>t\<bar>" using nn unfolding eq by blast
qed

lemma member_le_sum_list_int: "\<forall>w \<in> set ws. 0 \<le> w \<Longrightarrow> w \<in> set ws \<Longrightarrow> w \<le> sum_list (ws :: int list)"
proof (induction ws)
  case (Cons v ws)
  moreover have "0 \<le> sum_list ws" using Cons.prems(1) by (intro sum_list_nonneg) simp
  ultimately show ?case by fastforce
qed simp

lemma sum_list_uminus_int: "sum_list (map uminus ws) = - sum_list (ws :: int list)"
  by (induction ws) auto

lemma one_sign_sum:
  assumes "(\<forall>w \<in> set ws. 0 \<le> w) \<or> (\<forall>w \<in> set ws. w \<le> 0)" and "w \<in> set ws"
  shows "0 \<le> w * sum_list ws" "\<bar>w\<bar> \<le> \<bar>sum_list ws :: int\<bar>"
proof -
  from assms(1) have "(0 \<le> w \<and> w \<le> sum_list ws) \<or> (w \<le> 0 \<and> sum_list ws \<le> w)"
  proof
    assume "\<forall>w \<in> set ws. 0 \<le> w"
    with assms(2) show ?thesis by (simp add: member_le_sum_list_int)
  next
    assume "\<forall>w \<in> set ws. w \<le> 0"
    then have "- w \<le> sum_list (map uminus ws)" using assms(2) by (intro member_le_sum_list_int) auto
    then show ?thesis using \<open>\<forall>w \<in> set ws. w \<le> 0\<close> assms(2) by (simp add: sum_list_uminus_int)
  qed
  then show "0 \<le> w * sum_list ws" "\<bar>w\<bar> \<le> \<bar>sum_list ws\<bar>"
    by (auto simp: zero_le_mult_iff)
qed

definition one_sign :: "int list \<Rightarrow> bool" where
  "one_sign ws \<longleftrightarrow> (\<forall>w \<in> set ws. 0 \<le> w) \<or> (\<forall>w \<in> set ws. w \<le> 0)"

lemma in_i64_abs: "in_i64 x \<Longrightarrow> \<bar>x\<bar> \<le> 2 ^ 63"
  by (auto simp: in_i64_def i64_min_def i64_max_def abs_if)

lemma share_sum_abs:
  assumes "one_sign ws" and "s = sum_list ws" and "s \<noteq> 0"
  shows "\<bar>\<Sum>w\<leftarrow>ws. tdiv (t * w) s\<bar> \<le> \<bar>t\<bar>"
proof -
  have "\<bar>(\<Sum>w\<leftarrow>ws. tdiv (t * w) s) * s\<bar> \<le> \<bar>t\<bar> * (\<Sum>w\<leftarrow>ws. \<bar>w\<bar>)"
  proof (induction ws)
    case (Cons w ws)
    have "\<bar>tdiv (t * w) s * s\<bar> \<le> \<bar>t\<bar> * \<bar>w\<bar>" using tdiv_mult_bound(2) [OF assms(3), of "t * w"] by (simp add: abs_mult)
    with Cons show ?case
      using abs_triangle_ineq [of "tdiv (t * w) s * s" "(\<Sum>w\<leftarrow>ws. tdiv (t * w) s) * s"]
      by (simp add: algebra_simps)
  qed simp
  also have "(\<Sum>w\<leftarrow>ws. \<bar>w\<bar>) = \<bar>sum_list ws\<bar>"
    using assms(1) unfolding one_sign_def
  proof
    assume "\<forall>w \<in> set ws. 0 \<le> w"
    moreover then have "map abs ws = ws" by (induction ws) auto
    ultimately show ?thesis by (simp add: sum_list_nonneg)
  next
    assume n: "\<forall>w \<in> set ws. w \<le> 0"
    have "map abs ws = map uminus ws" by (rule map_cong [OF refl]) (use n in auto)
    then have "(\<Sum>w\<leftarrow>ws. \<bar>w\<bar>) = - sum_list ws" by (simp only: sum_list_uminus_int)
    moreover have "0 \<le> sum_list (map uminus ws)" using n by (intro sum_list_nonneg) auto
    ultimately show ?thesis by (simp add: sum_list_uminus_int)
  qed
  finally have "\<bar>\<Sum>w\<leftarrow>ws. tdiv (t * w) s\<bar> * \<bar>s\<bar> \<le> \<bar>t\<bar> * \<bar>s\<bar>" by (simp only: abs_mult assms(2))
  then show ?thesis using assms(3) by simp
qed

lemma sum_list_bound_i64:
  assumes "\<forall>w \<in> set ws. in_i64 w" and "length ws \<le> MAX_SPREAD_LEAVES"
  shows "wrap128 (sum_list ws) = sum_list ws"
proof -
  have "\<bar>sum_list ws\<bar> \<le> int (length ws) * 2 ^ 63" using assms(1)
  proof (induction ws)
    case (Cons w ws)
    then have "\<bar>w\<bar> \<le> 2 ^ 63" by (intro in_i64_abs) simp
    with Cons have "\<bar>w + sum_list ws\<bar> \<le> 2 ^ 63 + int (length ws) * 2 ^ 63" by simp
    then show ?case by (simp add: distrib_right)
  qed simp
  also have "\<dots> \<le> 200000 * 2 ^ 63" using assms(2) by (simp add: MAX_SPREAD_LEAVES_def)
  finally show ?thesis by (intro wrap128_id) simp_all
qed

lemma i64_prod: "in_i64 t \<Longrightarrow> in_i64 w \<Longrightarrow> wrap128 (t * w) = t * w"
proof -
  assume "in_i64 t" "in_i64 w"
  then have "\<bar>t\<bar> \<le> 2 ^ 63" "\<bar>w\<bar> \<le> 2 ^ 63" by (simp_all only: in_i64_abs)
  then have "\<bar>t * w\<bar> \<le> 2 ^ 63 * 2 ^ 63" unfolding abs_mult by (rule mult_mono) simp_all
  then show ?thesis by (intro wrap128_id) simp_all
qed

text \<open>The proportional shares are the truncated ones with the leftover, less than a unit for each,
  handed out; an even split where no proportional one exists.\<close>

lemma distribute_proportional_cases:
  assumes t: "in_i64 t" and ws: "\<forall>w \<in> set ws. in_i64 w" and ne: "ws \<noteq> []" and len: "length ws \<le> MAX_SPREAD_LEAVES"
  obtains (even) "distribute_proportional t ws = distribute_equal t (length ws)"
  | (shares) out r where "sum_list ws \<noteq> 0" "out = map (\<lambda>w. tdiv (t * w) (sum_list ws)) ws" "\<forall>x \<in> set out. in_i64 x"
      "r = t - sum_list out" "\<bar>r\<bar> < int (length ws)" "distribute_proportional t ws = allocate_remainder out r"
proof (cases "sum_list ws = 0 \<or> shares t (sum_list ws) ws = None")
  let ?s = "sum_list ws"
  have w: "wrap128 ?s = ?s" using sum_list_bound_i64 [OF ws len] .
  {
    case True
    then show thesis by (intro even) (auto simp: distribute_proportional_def w Let_def)
  next
    case False
    then obtain out where out: "shares t ?s ws = Some out" and s: "?s \<noteq> 0" by auto
    have "\<forall>w \<in> set ws. wrap128 (t * w) = t * w" using ws i64_prod [OF t] by blast
    from shares_eq [OF out this] have eq: "out = map (\<lambda>w. tdiv (t * w) ?s) ws" and i: "\<forall>x \<in> set out. in_i64 x"
      by blast+
    let ?r = "t - sum_list out"
    have r: "\<bar>?r\<bar> < int (length ws)" using leftover_bound [OF s ne refl, of t] by (simp add: eq)
    have "in_i64 ?r"
      using r len unfolding in_i64_def i64_min_def i64_max_def MAX_SPREAD_LEAVES_def by linarith
    moreover have "wrap128 (sum_list out) = sum_list out"
      using i len by (intro sum_list_bound_i64) (simp_all add: eq)
    ultimately have "distribute_proportional t ws = allocate_remainder out ?r"
      using s by (simp add: distribute_proportional_def w out Let_def)
    with shares s eq i r show thesis by blast
  }
qed

lemma wrap64_range: "in_i64 (wrap64 x)"
proof -
  let ?m = "(x + 9223372036854775808) mod 18446744073709551616"
  have "0 \<le> ?m" "?m < 18446744073709551616" by (rule pos_mod_sign, simp) (rule pos_mod_bound, simp)
  then have "- 9223372036854775808 \<le> ?m - 9223372036854775808 \<and> ?m - 9223372036854775808 \<le> 9223372036854775807"
    by linarith
  then show ?thesis by (simp add: wrap64_def in_i64_def i64_min_def i64_max_def)
qed

lemma wrap64_add: "wrap64 (wrap64 x + y) = wrap64 (x + y)"
  unfolding wrap64_def by (simp add: algebra_simps mod_simps)

lemma allocate_loop_wrap:
  "\<lbrakk>\<forall>x \<in> set xs. in_i64 x; 0 \<le> l; l \<le> int (length xs)\<rbrakk> \<Longrightarrow>
     wrap64 (sum_list (allocate_loop st l xs)) = wrap64 (sum_list xs + l * st) \<and>
     (\<forall>x \<in> set (allocate_loop st l xs). in_i64 x)"
proof (induction xs arbitrary: l)
  case (Cons x xs)
  show ?case
  proof (cases "0 < l")
    case True
    then have IH: "wrap64 (sum_list (allocate_loop st (l - 1) xs)) = wrap64 (sum_list xs + (l - 1) * st)"
      "\<forall>x \<in> set (allocate_loop st (l - 1) xs). in_i64 x"
      using Cons.IH [of "l - 1"] Cons.prems by simp_all
    have "wrap64 (wrap64 (x + st) + sum_list (allocate_loop st (l - 1) xs)) =
        wrap64 (wrap64 (sum_list (allocate_loop st (l - 1) xs)) + (x + st))"
      unfolding wrap64_add by (simp add: ac_simps)
    also have "\<dots> = wrap64 (sum_list (x # xs) + l * st)"
      unfolding IH(1) wrap64_add by (simp add: algebra_simps)
    finally show ?thesis using True IH(2) by (simp add: wrap64_range)
  next
    case False
    then have "l = 0" using Cons.prems(2) by simp
    with Cons.prems(1) show ?thesis by simp
  qed
qed simp

text \<open>Whatever the signs of the current values, the shares sum to the total modulo \<open>2 ^ 64\<close>.\<close>

lemma distribute_proportional_wrap:
  assumes "in_i64 t" and "\<forall>w \<in> set ws. in_i64 w" and "ws \<noteq> []" and len: "length ws \<le> MAX_SPREAD_LEAVES"
  shows "wrap64 (sum_list (distribute_proportional t ws)) = t"
    "\<forall>x \<in> set (distribute_proportional t ws). in_i64 x"
    "length (distribute_proportional t ws) = length ws"
proof -
  have n: "0 < length ws" using assms(3) by simp
  have "wrap64 (sum_list (distribute_proportional t ws)) = t \<and> (\<forall>x \<in> set (distribute_proportional t ws). in_i64 x) \<and>
      length (distribute_proportional t ws) = length ws"
    using assms
  proof (cases rule: distribute_proportional_cases)
    case even
    with distribute_equal_sum [OF assms(1) n len] assms(1) show ?thesis by simp
  next
    case (shares out r)
    have l: "length out = length ws" by (simp add: shares(2))
    have "in_i64 \<bar>r\<bar>" using shares(5) len unfolding in_i64_def i64_min_def i64_max_def MAX_SPREAD_LEAVES_def by linarith
    then have a: "allocate_remainder out r = allocate_loop (if 0 \<le> r then 1 else - 1) \<bar>r\<bar> out"
      by (simp add: allocate_remainder_def)
    have "sum_list out + \<bar>r\<bar> * (if 0 \<le> r then 1 else - 1) = t" by (simp add: shares(4))
    with allocate_loop_wrap [OF shares(3), of "\<bar>r\<bar>" "if 0 \<le> r then 1 else - 1"] shares(5) l assms(1)
    show ?thesis unfolding shares(6) a by simp
  qed
  then show "wrap64 (sum_list (distribute_proportional t ws)) = t"
    "\<forall>x \<in> set (distribute_proportional t ws). in_i64 x"
    "length (distribute_proportional t ws) = length ws" by blast+
qed

lemma distribute_proportional_sum:
  assumes t: "in_i64 t" and ws: "\<forall>w \<in> set ws. in_i64 w" and one: "one_sign ws"
    and ne: "ws \<noteq> []" and len: "length ws \<le> MAX_SPREAD_LEAVES"
  shows "sum_list (distribute_proportional t ws) = t"
  using t ws ne len
proof (cases rule: distribute_proportional_cases)
  case even
  with distribute_equal_sum [OF t _ len] ne show ?thesis by simp
next
  case (shares out r)
  note s = shares(1) and eq = shares(2)
  have b: "(0 \<le> t \<longrightarrow> 0 \<le> x) \<and> (t \<le> 0 \<longrightarrow> x \<le> 0) \<and> \<bar>x\<bar> \<le> \<bar>t\<bar>" if "x \<in> set out" for x
    using that one_sign_sum [OF one [unfolded one_sign_def]] tdiv_share_bounds [OF s]
    unfolding eq by (auto simp del: mult_eq_0_iff)
  have "one_sign out" using b by (auto simp: one_sign_def) (meson linorder_linear)
  then have o: "0 \<le> x * sum_list out" "\<bar>x\<bar> \<le> \<bar>sum_list out\<bar>" if "x \<in> set out" for x
    using one_sign_sum [OF _ that] by (simp_all add: one_sign_def)
  have m: "\<bar>sum_list out\<bar> \<le> \<bar>t\<bar>" using share_sum_abs [OF one refl s, of t] by (simp add: eq)
  have strict: "i64_min < x \<and> x < i64_max" if "x \<in> set out" "r \<noteq> 0" for x
  proof -
    have "x \<noteq> t"
    proof
      assume "x = t"
      with o [OF that(1)] m have "\<bar>t\<bar> = \<bar>sum_list out\<bar>" "0 \<le> t * sum_list out" by auto
      with that(2) shares(4) show False by (auto simp: abs_eq_iff zero_le_mult_iff mult_le_0_iff)
    qed
    with b [OF that(1)] t show ?thesis by (auto simp: in_i64_def i64_min_def i64_max_def)
  qed
  have lo: "length out = length ws" by (simp add: eq)
  have "\<forall>x \<in> set out. in_i64 x \<and> (r \<noteq> 0 \<longrightarrow> i64_min < x \<and> x < i64_max)"
    using shares(3) strict by blast
  note A = allocate_remainder_sum [OF this, unfolded lo, OF less_imp_le [OF shares(5)] len]
  then show ?thesis by (simp add: shares(6)) (simp add: shares(4))
qed

section \<open>The writes of a spread\<close>

lemma spread_dims_found:
  "length ds = length coord \<Longrightarrow> spread_dims ds coord = Inr (Some ls) \<Longrightarrow>
   \<exists>wss. dim_weights ds coord = Inr wss \<and> ls = map (map fst) wss \<and> [] \<notin> set ls \<and>
     (\<forall>ws \<in> set wss. \<forall>(l, w) \<in> set ws. w = 1)"
proof (induction ds coord arbitrary: ls rule: list_induct2)
  case (Cons d ds i "is")
  then obtain ws rest where ws: "leaf_weights d i = Inr ws" "\<forall>(l, w) \<in> set ws. w = 1" "ws \<noteq> []"
    and rest: "spread_dims ds is = Inr (Some rest)" "ls = map fst ws # rest"
    by (auto simp: list_ex_iff split_def split: if_splits)
  from Cons.IH [OF rest(1)] obtain wss where "dim_weights ds is = Inr wss" "rest = map (map fst) wss"
    "[] \<notin> set rest" "\<forall>ws \<in> set wss. \<forall>(l, w) \<in> set ws. w = 1" by blast
  with ws rest(2) show ?case by auto
qed simp

lemma length_spread_coords [simp]: "length (spread_coords ls cnt combo) = cnt"
  by (induction cnt arbitrary: combo) auto

lemma spread_count_exact:
  "spread_count ls n = Inr cnt \<Longrightarrow> n \<le> MAX_SPREAD_LEAVES \<Longrightarrow>
     cnt = n * prod_list (map length ls) \<and> cnt \<le> MAX_SPREAD_LEAVES"
proof (induction ls arbitrary: n)
  case (Cons l ls)
  have r: "spread_count ls (sat_u64 (n * length l)) = Inr cnt" "sat_u64 (n * length l) \<le> MAX_SPREAD_LEAVES"
    using Cons.prems by (auto simp: Let_def split: if_splits)
  then have "sat_u64 (n * length l) = n * length l"
    by (simp add: sat_u64_def min_def u64_max_def MAX_SPREAD_LEAVES_def split: if_splits)
  with Cons.IH [OF r] show ?case by simp
qed simp

lemma read_all_values:
  "read_all rd ks = Inr vs \<Longrightarrow> length vs = length ks \<and> (\<forall>v \<in> set vs. \<exists>k \<in> set ks. rd k = Inr v)"
  by (induction ks arbitrary: vs) fastforce+

text \<open>Current values of one sign, none of them negative or none of them positive.\<close>

definition one_signed :: "(coord \<Rightarrow> query_error + fixed) \<Rightarrow> coord set \<Rightarrow> bool" where
  "one_signed rd K \<longleftrightarrow> (\<forall>k \<in> K. \<forall>x. rd k = Inr x \<longrightarrow> 0 \<le> x) \<or> (\<forall>k \<in> K. \<forall>x. rd k = Inr x \<longrightarrow> x \<le> 0)"

text \<open>The values a spread writes to some leaves, by method. A proportional spread over current values
  of both signs is exact modulo \<open>2 ^ 64\<close> only, as a share may wrap.\<close>

definition spread_sound :: "spread_method \<Rightarrow> fixed \<Rightarrow> (coord \<Rightarrow> query_error + fixed) \<Rightarrow> (coord \<times> fixed) list \<Rightarrow> bool" where
  "spread_sound meth v rd ws =
     (case meth of
        Repeat \<Rightarrow> \<forall>x \<in> snd ` set ws. x = v
      | Clear \<Rightarrow> \<forall>x \<in> snd ` set ws. x = 0
      | Equal \<Rightarrow> sum_list (map snd ws) = v
      | Proportional \<Rightarrow> wrap64 (sum_list (map snd ws)) = v \<and>
          (one_signed rd (fst ` set ws) \<longrightarrow> sum_list (map snd ws) = v))"

lemma spread_dims_none:
  "length ds = length coord \<Longrightarrow> spread_dims ds coord = Inr None \<Longrightarrow> dim_weights ds coord = Inr wss \<Longrightarrow> [] \<in> set wss"
proof (induction ds coord arbitrary: wss rule: list_induct2)
  case (Cons d ds i "is")
  then show ?case by (auto split: if_splits)
qed simp

text \<open>A spread that succeeds either finds a dimension without leaves and writes nothing, or writes
  every leaf that is not excluded.\<close>

lemma spread_leaves_writes:
  assumes run: "spread_leaves c target v meth rd ex = Inr ws" and v: "in_i64 v"
    and rd: "\<forall>k x. rd k = Inr x \<longrightarrow> in_i64 x" and w: "dim_weights (dims c) target = Inr wss"
  shows "length target = rank c" and "map fst ws = filter (\<lambda>k. \<not> ex k) (product_lists (map (map fst) wss))"
    and "\<forall>x \<in> set (map snd ws). in_i64 x" and "ws = [] \<longleftrightarrow> [] \<in> set wss"
    and "ws \<noteq> [] \<Longrightarrow> (\<forall>ws \<in> set wss. \<forall>(l, w) \<in> set ws. w = 1) \<and> spread_sound meth v rd ws"
proof -
  from run show len: "length target = rank c" by (auto simp: spread_leaves_def split: if_splits)
  obtain found where f: "spread_dims (dims c) target = Inr found"
    using run len by (cases "spread_dims (dims c) target") (auto simp: spread_leaves_def)
  have "map fst ws = filter (\<lambda>k. \<not> ex k) (product_lists (map (map fst) wss)) \<and> (\<forall>x \<in> set (map snd ws). in_i64 x) \<and>
    (ws = [] \<longleftrightarrow> [] \<in> set wss) \<and>
    (ws \<noteq> [] \<longrightarrow> (\<forall>ws \<in> set wss. \<forall>(l, w) \<in> set ws. w = 1) \<and> spread_sound meth v rd ws)"
  proof (cases found)
    case None
    then have "ws = []" "[] \<in> set wss"
      using run len f spread_dims_none [OF _ _ w] by (auto simp: spread_leaves_def rank_def)
    moreover from this(2) have "product_lists (map (map fst) wss) = []" by (induction wss) auto
    ultimately show ?thesis by simp
  next
    case (Some ls)
    from spread_dims_found [OF _ f [unfolded Some]] len w have wss: "ls = map (map fst) wss" "[] \<notin> set ls"
      "\<forall>ws \<in> set wss. \<forall>(l, w) \<in> set ws. w = 1" by (auto simp: rank_def)
    obtain cnt where cnt: "spread_count ls 1 = Inr cnt"
      using run len f Some by (cases "spread_count ls 1") (auto simp: spread_leaves_def)
    define coords where "coords = filter (\<lambda>k. \<not> ex k) (spread_coords ls cnt (replicate (length ls) 0))"
    obtain scaled where sc: "ws = zip coords scaled" "coords \<noteq> []"
      and m: "(case meth of Repeat \<Rightarrow> Inr (replicate (length coords) v) | Clear \<Rightarrow> Inr (replicate (length coords) 0)
          | Equal \<Rightarrow> Inr (distribute_equal v (length coords))
          | Proportional \<Rightarrow> bindE (read_all rd coords) (\<lambda>ws. Inr (distribute_proportional v ws)))
          = (Inr scaled :: spread_error + int list)"
      using run len f Some cnt unfolding coords_def by (auto simp: spread_leaves_def Let_def split: if_splits)
    have c: "cnt = prod_list (map length ls)" "cnt \<le> MAX_SPREAD_LEAVES"
      using spread_count_exact [OF cnt] by (simp_all add: MAX_SPREAD_LEAVES_def)
    have prod: "coords = filter (\<lambda>k. \<not> ex k) (product_lists ls)"
      using spread_coords_product [OF wss(2)] by (simp add: coords_def c(1))
    have "length (product_lists ls) = cnt"
      unfolding spread_coords_product [OF wss(2), symmetric] c(1) [symmetric] by simp
    then have n: "0 < length coords" "length coords \<le> MAX_SPREAD_LEAVES"
      using c(2) sc(2) length_filter_le [of "\<lambda>k. \<not> ex k" "product_lists ls"] by (auto simp: prod)
    have "length scaled = length coords \<and> (\<forall>x \<in> set scaled. in_i64 x) \<and>
        (length scaled = length coords \<longrightarrow> spread_sound meth v rd (zip coords scaled))"
    proof (cases meth)
      case Equal
      with m distribute_equal_sum [OF v n] show ?thesis by (auto simp: spread_sound_def)
    next
      case Proportional
      with m obtain vs where vs: "read_all rd coords = Inr vs" "scaled = distribute_proportional v vs" by auto
      have V: "length vs = length coords" "\<forall>x \<in> set vs. in_i64 x" using read_all_values [OF vs(1)] rd by auto
      then have ne: "vs \<noteq> []" using n(1) by auto
      have one: "one_sign vs" if "one_signed rd (set coords)"
        using that read_all_values [OF vs(1)] unfolding one_signed_def one_sign_def by blast
      note W = distribute_proportional_wrap [OF v V(2) ne] and S = distribute_proportional_sum [OF v V(2) one ne]
      have "fst ` set (zip coords scaled) = set coords" if "length scaled = length coords"
        using that by (simp add: set_map [symmetric] del: set_map)
      then show ?thesis
        using W S V(1) n(2) Proportional by (simp add: vs(2) spread_sound_def)
    qed (use m v in \<open>auto simp: spread_sound_def dest: set_zip_rightD\<close>)
    then have S: "length scaled = length coords" "\<forall>x \<in> set scaled. in_i64 x" "spread_sound meth v rd ws"
      using sc(1) by blast+
    moreover have "ws \<noteq> []" using sc S(1) by (cases coords; cases scaled) auto
    ultimately show ?thesis using sc prod wss by auto
  qed
  then show "map fst ws = filter (\<lambda>k. \<not> ex k) (product_lists (map (map fst) wss))"
    "\<forall>x \<in> set (map snd ws). in_i64 x" "ws = [] \<longleftrightarrow> [] \<in> set wss"
    "ws \<noteq> [] \<Longrightarrow> (\<forall>ws \<in> set wss. \<forall>(l, w) \<in> set ws. w = 1) \<and> spread_sound meth v rd ws" by blast+
qed

section \<open>Writing the spread into the cube\<close>

lemma trial_apply_leaves:
  assumes "cube_wf c" and "distinct (map fst ws)"
    and "\<forall>(k, x) \<in> set ws. in_range (dims c) k \<and> leaf_coord (dims c) k \<and> in_i64 x"
  shows "\<exists>c'. trial_apply c n (map (\<lambda>(k, x). BatchLeaf k x) ws) = Inr c' \<and> cube_wf c' \<and> dims c' = dims c \<and>
     str c' = str c \<and>
     (\<forall>j. in_range (dims c) j \<longrightarrow>
        leaf_value c' j = (case map_of ws j of Some x \<Rightarrow> x | None \<Rightarrow> leaf_value c j))"
  using assms
proof (induction ws arbitrary: c n)
  case (Cons w ws)
  obtain k x where w: "w = (k, x)" by force
  then have k: "in_range (dims c) k" "leaf_coord (dims c) k" "in_i64 x" using Cons.prems(3) by auto
  then obtain c1 where c1: "set_leaf k x c = Inr c1"
    using check_leaf_Inr [of c k] by (auto simp: set_leaf_def)
  note W = set_leaf_wf [OF Cons.prems(1) k(3) c1]
  have v1: "leaf_value c1 j = (if j = k then x else leaf_value c j)" if "in_range (dims c) j" for j
    using W that by (simp add: leaf_value_num)
  from W Cons.prems(2,3) have "\<exists>c'. trial_apply c1 (n + 1) (map (\<lambda>(k, x). BatchLeaf k x) ws) = Inr c' \<and> cube_wf c' \<and>
      dims c' = dims c1 \<and> str c' = str c1 \<and>
      (\<forall>j. in_range (dims c1) j \<longrightarrow>
        leaf_value c' j = (case map_of ws j of Some x \<Rightarrow> x | None \<Rightarrow> leaf_value c1 j))"
    by (intro Cons.IH) auto
  then obtain c' where c': "trial_apply c1 (n + 1) (map (\<lambda>(k, x). BatchLeaf k x) ws) = Inr c'" "cube_wf c'"
      "dims c' = dims c" "str c' = str c"
      "\<And>j. in_range (dims c) j \<Longrightarrow>
        leaf_value c' j = (case map_of ws j of Some x \<Rightarrow> x | None \<Rightarrow> leaf_value c1 j)"
    using W by auto
  have "map_of ws k = None" using Cons.prems(2) by (simp add: w map_of_eq_None_iff)
  with c' c1 v1 show ?case by (intro exI [of _ c']) (auto simp: w split: option.split)
qed simp

lemma leaf_weights_leaf:
  assumes "i < length (elements d)" and "kind_at d i = Leaf"
  shows "leaf_weights d i = Inr [(i, 1)]"
  using assms by (simp add: leaf_weights_def get_element_def kind_at_def)

lemma dim_weights_leaf:
  "in_range ds k \<Longrightarrow> leaf_coord ds k \<Longrightarrow> dim_weights ds k = Inr (map (\<lambda>i. [(i, 1)]) k)"
proof (induction ds k rule: dim_weights.induct)
  case (1 d ds i "is")
  then show ?case by (simp add: in_range_def leaf_coord_def leaf_weights_leaf)
qed (auto simp: in_range_def leaf_coord_def)

lemma set_under: "set (product_lists (map (map fst) wss)) = under wss"
proof (induction wss)
  case (Cons ws wss)
  then show ?case by (auto simp: under_simps image_iff)
qed (simp add: under_simps)

lemma unit_weight:
  "\<forall>ws \<in> set wss. \<forall>(l, w) \<in> set ws. w = 1 \<Longrightarrow> k \<in> under wss \<Longrightarrow> weight_of (map map_of wss) k = 1"
proof (induction wss arbitrary: k)
  case (Cons ws wss)
  then obtain i k' where k: "k = i # k'" "i \<in> fst ` set ws" "k' \<in> under wss" by (auto simp: under_simps)
  then obtain w where "map_of ws i = Some w" by (metis map_of_eq_None_iff not_Some_eq)
  moreover from this have "w = 1" using Cons.prems(1) map_of_SomeD [of ws i w] by auto
  ultimately show ?case using Cons k by simp
qed (simp add: under_simps)

lemma get_dense:
  assumes "cube_wf c" and "in_range (dims c) k" and "dim_weights (dims c) k = Inr wss"
  shows "get c k = to_fixed (wrap128 (rollup wss (leaf_value c))) \<or>
     leaf_coord (dims c) k \<and> get c k = Inr (leaf_value c k) \<and> wss = map (\<lambda>i. [(i, 1)]) k"
proof (cases "leaf_coord (dims c) k")
  case True
  with get_leaf_coord [OF assms(2)] dim_weights_leaf [OF assms(2)] assms(3) show ?thesis by simp
next
  case False
  have "\<forall>k \<in> under wss. in_range (dims c) k"
    using dim_weights_total [OF cube_wf_D(1) [OF assms(1)] assms(2)] assms(3) by auto
  then show ?thesis using get_spec [OF assms(1,2) False assms(3)] stored_sum_rollup [OF assms(1)] by simp
qed

lemma distinct_product: "\<forall>ls \<in> set lss. distinct ls \<Longrightarrow> distinct (product_lists lss)"
  by (rule distinct_product_lists) blast

end
