(* ===== verification/Spread_Properties.thy ===== *)
theory Spread_Properties
  imports Spread_Exact Core_Properties
begin

text \<open>
  The properties of spreading: which cells are written, with values that sum to the entered value,
  and what the target reads afterwards.
\<close>

section \<open>A sample with unit weights\<close>

definition sample_region :: dimension where
  "sample_region = run_ops [OpAddElement ''All'' Consolidated, OpAddElement ''A'' Leaf,
     OpAddElement ''B'' Leaf, OpAddElement ''C'' Leaf, OpAddChild 0 1 1, OpAddChild 0 2 1, OpAddChild 0 3 1]
     (dim_new ''Region'')"

lemma sample_region_wf [simp]: "dim_wf sample_region"
  unfolding sample_region_def by (rule run_new_wf) (simp_all add: u32_max_def)

lemma sample_region_eval:
  "sample_region =
     \<lparr>dim_name = ''Region'',
      elements = [\<lparr>el_name = ''All'', el_kind = Consolidated, el_pinned = False\<rparr>,
        \<lparr>el_name = ''A'', el_kind = Leaf, el_pinned = False\<rparr>,
        \<lparr>el_name = ''B'', el_kind = Leaf, el_pinned = False\<rparr>,
        \<lparr>el_name = ''C'', el_kind = Leaf, el_pinned = False\<rparr>],
      index_by_name = [''All'' \<mapsto> 0, ''A'' \<mapsto> 1, ''B'' \<mapsto> Suc (Suc 0), ''C'' \<mapsto> 3],
      children = [[\<lparr>edge_child = 1, edge_weight = 1\<rparr>, \<lparr>edge_child = 2, edge_weight = 1\<rparr>,
        \<lparr>edge_child = 3, edge_weight = 1\<rparr>], [], [], []],
      attributes = [], attr_index_by_name = Map.empty, attr_values = [[], [], [], []],
      alias_to_element = Map.empty\<rparr>"
  by (simp add: sample_region_def run_eval)

definition sample_sheet :: cube where
  "sample_sheet = (case cube_new ''Sheet'' [sample_region] of Inr c \<Rightarrow> c)"

lemma sample_sheet [simp]: "cube_wf sample_sheet" "dims sample_sheet = [sample_region]" "rank sample_sheet = 1"
proof -
  have n: "cube_new ''Sheet'' [sample_region] = Inr sample_sheet"
    by (simp add: sample_sheet_def cube_new_def Let_def)
  show "cube_wf sample_sheet" "dims sample_sheet = [sample_region]" "rank sample_sheet = 1"
    using cube_new_wf [OF n] by (simp_all add: rank_def)
qed

lemma sample_leaves: "leaf_weights sample_region 0 = Inr [(1, 1), (2, 1), (3, 1)]"
  by (simp add: leaf_weights_def get_element_def sample_region_eval sat_i64_def i64_max_def i64_min_def)

lemma sample_parts:
  "spread_dims [sample_region] [0] = Inr (Some [[1, 2, 3]])"
  "spread_coords [[1, 2, 3]] 3 [0] = [[1], [2], [3]]"
  "distribute_equal 1000001 3 = [333334, 333334, 333333]"
  by (simp_all add: sample_leaves numeral_3_eq_3 distribute_equal_def wrap64_def tdiv_def
      allocate_remainder_def Let_def)

lemma sample_spread:
  "spread_leaves sample_sheet [0] 1000001 Equal rd (\<lambda>_. False)
     = Inr [([1], 333334), ([2], 333334), ([3], 333333)]"
  using sample_parts
  by (simp add: spread_leaves_def sat_u64_def u64_max_def MAX_SPREAD_LEAVES_def Let_def
      numeral_3_eq_3 [symmetric] del: spread_dims.simps spread_coords.simps)

section \<open>The writes\<close>

text \<open>C14: A spread that succeeds writes exactly the leaf cells below the target that are not excluded,
  each once, the last dimension varying fastest and every value in range; it writes nothing exactly
  when a member of the target has no leaf below it. When it writes, equal shares sum to the entered value; so do
  proportional ones when the current values of those leaves are all non-negative or all non-positive,
  and with values of both signs they sum to it modulo \<open>2 ^ 64\<close> (\<open>proportional_share_wraps\<close> below is a
  share that wraps). Repeating writes the value itself and clearing writes zero. The values read and
  entered are assumed to be \<open>i64\<close>.\<close>

theorem spread_is_exact:
  assumes "spread_leaves c target v meth rd ex = Inr ws" and "in_i64 v" and "\<forall>k x. rd k = Inr x \<longrightarrow> in_i64 x"
    and "cube_wf c" and "in_range (dims c) target"
  shows "\<exists>wss. dim_weights (dims c) target = Inr wss \<and>
     map fst ws = filter (\<lambda>k. \<not> ex k) (product_lists (map (map fst) wss)) \<and> distinct (map fst ws) \<and>
     (\<forall>k. k \<in> fst ` set ws \<longleftrightarrow> k \<in> under wss \<and> \<not> ex k) \<and>
     (\<forall>x \<in> snd ` set ws. in_i64 x) \<and> (ws = [] \<longleftrightarrow> [] \<in> set wss) \<and>
     (ws \<noteq> [] \<longrightarrow>
        (meth = Equal \<longrightarrow> sum_list (map snd ws) = v) \<and>
        (meth = Proportional \<longrightarrow> wrap64 (sum_list (map snd ws)) = v) \<and>
        (meth = Proportional \<and> one_signed rd (fst ` set ws) \<longrightarrow> sum_list (map snd ws) = v) \<and>
        (meth = Repeat \<longrightarrow> (\<forall>x \<in> snd ` set ws. x = v)) \<and> (meth = Clear \<longrightarrow> (\<forall>x \<in> snd ` set ws. x = 0)))"
proof -
  obtain wss where wss: "dim_weights (dims c) target = Inr wss" "\<forall>ws \<in> set wss. distinct (map fst ws)"
    using dim_weights_total [OF cube_wf_D(1) [OF assms(4)] assms(5)] by metis
  note W = spread_leaves_writes [OF assms(1-3) wss(1)]
  have "distinct (map fst ws)" unfolding W(2) by (intro distinct_filter distinct_product) (use wss(2) in auto)
  moreover have "fst ` set ws = {k \<in> under wss. \<not> ex k}"
    unfolding set_map [symmetric] W(2) by (simp add: set_under)
  ultimately show ?thesis using wss(1) W(2-5) by (cases meth) (auto simp: spread_sound_def)
qed

theorem spread_is_exact_witness:
  "\<exists>ws. spread_leaves sample_sheet [0] 1000001 Equal (\<lambda>_. Inr 0) (\<lambda>_. False) = Inr ws \<and>
     distinct (map fst ws) \<and> sum_list (map snd ws) = 1000001 \<and> [2] \<in> fst ` set ws"
proof -
  note s = sample_spread [of "\<lambda>_. Inr 0"]
  from spread_is_exact [OF s] have "distinct (map fst [([1 :: nat], 333334 :: int), ([2], 333334), ([3], 333333)]) \<and>
      sum_list (map snd [([1 :: nat], 333334 :: int), ([2], 333334), ([3], 333333)]) = 1000001"
    by (auto simp: in_i64_def i64_min_def i64_max_def in_range_def sample_region_eval)
  with s show ?thesis by (intro exI [of _ "[([1], 333334), ([2], 333334), ([3], 333333)]"]) simp
qed

text \<open>Once the shares are in the cells, the rollup of the target is their sum.\<close>

lemma written_rollup:
  assumes one: "\<forall>ws \<in> set wss. \<forall>(l, w) \<in> set ws. w = 1" and keys: "map fst ws = product_lists (map (map fst) wss)"
    and dist: "distinct (map fst ws)" and rng: "\<forall>k \<in> under wss. in_range ds k"
    and val: "\<And>j. in_range ds j \<Longrightarrow> f j = (case map_of ws j of Some x \<Rightarrow> x | None \<Rightarrow> g j)"
  shows "rollup wss f = sum_list (map snd ws)"
proof -
  have set: "fst ` set ws = under wss" unfolding set_map [symmetric] keys by (rule set_under)
  have "rollup wss f = (\<Sum>k\<in>fst ` set ws. the (map_of ws k))"
    unfolding rollup_def set
  proof (rule sum.cong [OF refl])
    fix k assume k: "k \<in> under wss"
    then obtain x where "map_of ws k = Some x" using set by (metis map_of_eq_None_iff not_Some_eq)
    with k rng val unit_weight [OF one k]
    show "weight_of (map map_of wss) k * f k = the (map_of ws k)" by simp
  qed
  also have "\<dots> = sum_list (map snd ws)" using sum_list_alist [OF dist, of "\<lambda>_. 1"] by (simp add: split_def)
  finally show ?thesis .
qed

lemma get_unit_rollup:
  assumes "cube_wf c" and "in_range (dims c) k" and "dim_weights (dims c) k = Inr wss"
    and one: "\<forall>ws \<in> set wss. \<forall>(l, w) \<in> set ws. w = 1"
    and v: "rollup wss (leaf_value c) = v" "in_i64 v"
  shows "get c k = Inr v"
  using get_dense [OF assms(1-3)]
proof
  assume "leaf_coord (dims c) k \<and> get c k = Inr (leaf_value c k) \<and> wss = map (\<lambda>i. [(i, 1)]) k"
  then have t: "get c k = Inr (leaf_value c k)" and w: "wss = map (\<lambda>i. [(i, 1)]) k" by auto
  have "under wss = {k}" unfolding w by (induction k) (simp_all add: under_simps)
  then have "rollup wss f = f k" for f
    using unit_weight [OF one, of k] by (simp add: rollup_def)
  with t v(1) show ?thesis by simp
qed (use v in \<open>simp add: to_fixed_def\<close>)

text \<open>Entering a value at a coordinate by an equal or a proportional spread over all its leaves
  and applying the writes succeeds, and the coordinate then reads as exactly that value; string
  cells and the numeric cells outside the spread are untouched.\<close>

theorem spread_then_read:
  assumes "spread_leaves c target v meth rd (\<lambda>_. False) = Inr ws" and "ws \<noteq> []" and "in_i64 v"
    and wf: "cube_wf c" and "meth = Equal \<or> meth = Proportional \<and> one_signed rd (fst ` set ws)"
    and rng: "in_range (dims c) target" and rd: "\<forall>k x. rd k = Inr x \<longrightarrow> in_i64 x"
  shows "\<exists>c'. trial_apply c 0 (map (\<lambda>(k, x). BatchLeaf k x) ws) = Inr c' \<and> get c' target = Inr v \<and>
     str c' = str c \<and>
     (\<forall>k. in_range (dims c) k \<and> k \<notin> fst ` set ws \<longrightarrow> leaf_value c' k = leaf_value c k)"
proof -
  obtain wss where wss: "dim_weights (dims c) target = Inr wss"
    using dim_weights_total [OF cube_wf_D(1) [OF wf] rng] by metis
  note W' = spread_leaves_writes [OF assms(1,3) rd wss]
  have W: "dim_weights (dims c) target = Inr wss" "length target = rank c"
    "\<forall>ws \<in> set wss. \<forall>(l, w) \<in> set ws. w = 1"
    "map fst ws = filter (\<lambda>k. \<not> False) (product_lists (map (map fst) wss))"
    "spread_sound meth v rd ws" "\<forall>x \<in> set (map snd ws). in_i64 x"
    using wss W' assms(2) by blast+
  have U: "\<forall>ws \<in> set wss. distinct (map fst ws)" "\<forall>k \<in> under wss. in_range (dims c) k \<and> leaf_coord (dims c) k"
    using dim_weights_total [OF cube_wf_D(1) [OF wf] rng] W(1) by auto
  have keys: "map fst ws = product_lists (map (map fst) wss)" using W(4) by simp
  then have dist: "distinct (map fst ws)" using distinct_product [of "map (map fst) wss"] U(1) by auto
  have set: "fst ` set ws = under wss" unfolding set_map [symmetric] keys by (rule set_under)
  have "\<forall>(k, x) \<in> set ws. in_range (dims c) k \<and> leaf_coord (dims c) k \<and> in_i64 x"
    using U(2) W(6) set by force
  from trial_apply_leaves [OF wf dist this, of 0] obtain c' where
    c': "trial_apply c 0 (map (\<lambda>(k, x). BatchLeaf k x) ws) = Inr c'" "cube_wf c'" "dims c' = dims c" "str c' = str c"
    and val: "\<And>j. in_range (dims c) j \<Longrightarrow>
        leaf_value c' j = (case map_of ws j of Some x \<Rightarrow> x | None \<Rightarrow> leaf_value c j)" by blast
  have "rollup wss (leaf_value c') = sum_list (map snd ws)"
    using written_rollup [OF W(3) keys dist, of "dims c" "leaf_value c'" "leaf_value c"] U(2) val by blast
  also have "\<dots> = v" using W(5) assms(5) by (auto simp: spread_sound_def)
  finally have "get c' target = Inr v"
    using get_unit_rollup [OF c'(2), unfolded c'(3), OF rng W(1,3)] assms(3) by blast
  moreover have "leaf_value c' k = leaf_value c k" if "in_range (dims c) k" "k \<notin> fst ` set ws" for k
    using val [OF that(1)] that(2) by (simp add: map_of_eq_None_iff [THEN iffD2])
  ultimately show ?thesis using c' by blast
qed

theorem spread_then_read_witness:
  "\<exists>c'. trial_apply sample_sheet 0 [BatchLeaf [1] 333334, BatchLeaf [2] 333334, BatchLeaf [3] 333333] = Inr c' \<and>
     get c' [0] = Inr 1000001"
  using spread_then_read [OF sample_spread [of "\<lambda>_. Inr 0"]]
  by (auto simp: in_i64_def i64_min_def i64_max_def in_range_def sample_region_eval)

text \<open>The proportional share of a value can leave the range and wrap: with current values 4, 1, 1
  and -2 a total of the largest \<open>i64\<close> gives a first share one past it, which is written as the
  smallest \<open>i64\<close>, so the shares no longer sum to the total.\<close>

theorem proportional_share_wraps:
  "hd (distribute_proportional i64_max [4, 1, 1, - 2]) = i64_min \<and>
   sum_list (distribute_proportional i64_max [4, 1, 1, - 2]) \<noteq> i64_max"
  by (simp add: distribute_proportional_def wrap128_def tdiv_def checked_i64_def in_i64_def i64_min_def i64_max_def
      allocate_remainder_def wrap64_def Let_def)

end
