(* ===== verification/Calc_Properties.thy ===== *)
theory Calc_Properties
  imports Calc_Total Spread_Properties
begin

text \<open>
  The properties of rule evaluation: the memoised, cycle-checking engine computes the plain
  meaning of the rules and always returns; what the element mask and the sandbox overlay do to a
  read; the rounding of rule arithmetic.
\<close>

section \<open>More fuel changes nothing\<close>

lemma run_fuel:
  assumes "\<And>o1 k m r. f o1 k m = Some r \<Longrightarrow> g o1 k m = Some r"
  shows "run f t m = Some r \<Longrightarrow> run g t m = Some r"
proof (induction t arbitrary: m)
  case (Ask o1 k h)
  then obtain r' m' where "f o1 k m = Some (r', m')" by (auto split: option.splits)
  moreover from assms [OF this] have "g o1 k m = Some (r', m')" .
  ultimately show ?case using Ask by (cases r') auto
qed auto

lemma value_of_Suc: "value_of eng f n k m = Some r \<Longrightarrow> value_of eng (Suc f) n k m = Some r"
proof (induction f arbitrary: n k m r)
  case (Suc f)
  have R: "run (value_of eng f) t m' = Some r' \<Longrightarrow> run (value_of eng (Suc f)) t m' = Some r'"
    for m' and t :: "fixed reads" and r'
    using run_fuel [of "value_of eng f" "value_of eng (Suc f)"] Suc.IH by blast
  show ?case
  proof (cases "memo_find eng n k m")
    case None
    let ?m = "memo_put eng n k (Some Computing) m"
    obtain p where p: "run (value_of eng f) (compute eng n k) ?m = Some p"
      using Suc.prems None by (cases "run (value_of eng f) (compute eng n k) ?m") auto
    from R [OF p] Suc.prems None p show ?thesis
      by (simp del: value_of.simps add: value_of.simps(2) [of eng f] value_of.simps(2) [of eng "Suc f"])
  next
    case (Some st)
    with Suc.prems show ?thesis by (cases st) auto
  qed
qed simp

lemma value_of_fuel: "f \<le> f' \<Longrightarrow> value_of eng f n k m = Some r \<Longrightarrow> value_of eng f' n k m = Some r"
  by (induction rule: dec_induct) (blast intro: value_of_Suc)+

section \<open>The memo and the cycle check\<close>

text \<open>C8: Every read of a well-formed registry returns, whatever the memo holds: some amount of
  recursion is enough, no evaluation panics, and the set of cells being computed is as before.\<close>

theorem evaluation_terminates:
  assumes "registry_ok (eng_registry eng)"
    and "\<And>c. reg_cube (eng_registry eng) n = Some c \<Longrightarrow> length k = rank c"
  shows "\<exists>F. \<forall>f \<ge> F. \<forall>m. \<exists>r m'. value_of eng f n k m = Some (r, m') \<and> marks eng m' = marks eng m"
  by (rule read_returns [OF assms])

text \<open>C7: A memoised read that returns gives the value or the error of the plain, memo-free
  evaluation whenever that one converges, and a cycle error when it does not; the memo it leaves
  holds only such values. Sharing a memo between reads therefore never changes a result.\<close>

theorem memo_is_pure_cache:
  assumes run: "value_of eng f n k m = Some (r, m')" and "memo_good eng m" and "marks eng m = {}"
  shows "memo_good eng m' \<and> marks eng m' = {} \<and>
     (\<forall>j r'. meaning eng j n k () = Some (r', ()) \<longrightarrow> r = r') \<and>
     ((\<forall>j. meaning eng j n k () = None) \<longrightarrow> is_cycle r)"
proof -
  note J = value_of_justified [OF run assms(2)]
  have "r = r'" if "meaning eng j n k () = Some (r', ())" for j r'
  proof -
    have "\<exists>m'. value_of eng (max f j) n k m = Some (r', m')"
      using value_of_meaning [OF that _ assms(2), of "max f j"] assms(3) by auto
    then show ?thesis using value_of_fuel [OF _ run, of "max f j"] by auto
  qed
  with J assms(3) show ?thesis by auto
qed

section \<open>Arithmetic\<close>

lemma trem_2: "trem q 2 = 0 \<longleftrightarrow> even q"
proof -
  have "tdiv q 2 = (if q < 0 then - (- q div 2) else q div 2)"
    by (simp add: tdiv_def sgn_if)
  then show ?thesis unfolding trem_def by presburger
qed

lemma trem_sign:
  assumes "d \<noteq> 0"
  shows "0 \<le> n \<Longrightarrow> 0 \<le> trem n d" "n \<le> 0 \<Longrightarrow> trem n d \<le> 0" "\<bar>trem n d\<bar> < \<bar>d\<bar>"
  using tdiv_mult_bound [OF assms, of n] unfolding trem_def by linarith+

lemma half_even_nearest:
  assumes "d \<noteq> 0"
  shows "2 * \<bar>n - div_round_half_even n d * d\<bar> \<le> \<bar>d\<bar> \<and>
    (2 * \<bar>n - div_round_half_even n d * d\<bar> = \<bar>d\<bar> \<longrightarrow> even (div_round_half_even n d))"
proof -
  define q r where "q = tdiv n d" and "r = trem n d"
  have n: "n = q * d + r" by (simp add: q_def r_def trem_def)
  note S = trem_sign [OF assms, of n, folded r_def]
  let ?s = "if (n < 0) \<noteq> (d < 0) then - 1 else 1 :: int"
  have sd: "?s * d = (if n < 0 then - \<bar>d\<bar> else \<bar>d\<bar>)" using assms by auto
  have up: "\<bar>n - (q + ?s) * d\<bar> = \<bar>d\<bar> - \<bar>r\<bar>"
  proof -
    have "n - (q + ?s) * d = r - ?s * d" by (simp only: n) (simp only: distrib_right)
    then show ?thesis using S sd by auto
  qed
  have low: "\<bar>n - q * d\<bar> = \<bar>r\<bar>" by (simp add: n)
  show ?thesis
  proof (cases "r = 0 \<or> \<not> (\<bar>d\<bar> < \<bar>r\<bar> * 2 \<or> \<bar>r\<bar> * 2 = \<bar>d\<bar> \<and> odd q)")
    case True
    then have "div_round_half_even n d = q"
      by (auto simp: div_round_half_even_def Let_def trem_2 q_def [symmetric] r_def [symmetric])
    with True low assms show ?thesis by auto
  next
    case False
    then have "div_round_half_even n d = q + ?s"
      by (auto simp: div_round_half_even_def Let_def trem_2 q_def [symmetric] r_def [symmetric])
    with False up show ?thesis by auto
  qed
qed
text \<open>C13: Rule arithmetic is exact: sums and differences are the exact ones or an overflow, products
  and quotients the nearest fixed-point value, a tie going to the even one, or an overflow, and
  division by zero is an error.\<close>

theorem arith_rounds_half_even:
  "arith Add a b = (if in_i64 (a + b) then Inr (a + b) else Inl ArithOverflow) \<and>
   arith Sub a b = (if in_i64 (a - b) then Inr (a - b) else Inl ArithOverflow) \<and>
   (\<exists>q. arith Mul a b = (if in_i64 q then Inr q else Inl ArithOverflow) \<and>
      2 * \<bar>a * b - q * SCALE\<bar> \<le> SCALE \<and> (2 * \<bar>a * b - q * SCALE\<bar> \<noteq> SCALE \<or> even q)) \<and>
   arith Div a 0 = Inl DivByZero \<and>
   (b = 0 \<or> (\<exists>q. arith Div a b = (if in_i64 q then Inr q else Inl ArithOverflow) \<and>
      2 * \<bar>a * SCALE - q * b\<bar> \<le> \<bar>b\<bar> \<and> (2 * \<bar>a * SCALE - q * b\<bar> \<noteq> \<bar>b\<bar> \<or> even q)))"
proof -
  have fx: "calc_fixed q = (if in_i64 q then Inr q else Inl ArithOverflow)" for q
    by (simp add: calc_fixed_def checked_i64_def)
  have s: "SCALE \<noteq> 0" "\<bar>SCALE\<bar> = SCALE" by (simp_all add: SCALE_def)
  have "\<exists>q. arith Mul a b = (if in_i64 q then Inr q else Inl ArithOverflow) \<and>
      2 * \<bar>a * b - q * SCALE\<bar> \<le> SCALE \<and> (2 * \<bar>a * b - q * SCALE\<bar> \<noteq> SCALE \<or> even q)"
    using half_even_nearest [OF s(1), of "a * b"] unfolding s(2)
    by (intro exI [of _ "div_round_half_even (a * b) SCALE"]) (auto simp: fx)
  moreover have "\<exists>q. arith Div a b = (if in_i64 q then Inr q else Inl ArithOverflow) \<and>
      2 * \<bar>a * SCALE - q * b\<bar> \<le> \<bar>b\<bar> \<and> (2 * \<bar>a * SCALE - q * b\<bar> \<noteq> \<bar>b\<bar> \<or> even q)" if "b \<noteq> 0"
    using half_even_nearest [OF that, of "a * SCALE"] that
    by (intro exI [of _ "div_round_half_even (a * SCALE) b"]) (auto simp: fx)
  ultimately show ?thesis by (auto simp: checked_i64_def)
qed

section \<open>Engines over the same schema\<close>

lemma preds_match_dims: "dims c = dims c' \<Longrightarrow> preds_match b c d ps k = preds_match b c' d ps k"
  by (induction b c d ps k rule: preds_match.induct) (simp_all add: nth_dim_def split: option.split)

lemma matching_rule_dims: "dims c = dims c' \<Longrightarrow> matching_rule cm c k = matching_rule cm c' k"
proof -
  assume d: "dims c = dims c'"
  have "first_match c k j rs = first_match c' k j rs" for j rs
    by (induction rs arbitrary: j) (simp_all add: area_matches_def preds_match_dims [OF d] split: option.split)
  then show ?thesis by (simp add: matching_rule_def)
qed

lemma all_leaf_at_dims: "dims c = dims c' \<Longrightarrow> all_leaf_at c d k = all_leaf_at c' d k"
  by (induction k arbitrary: d) (simp_all add: nth_dim_def split: option.split)

definition same_schema :: "registry \<Rightarrow> registry \<Rightarrow> bool" where
  "same_schema reg reg' \<longleftrightarrow>
     reg_compiled reg' = reg_compiled reg \<and> reg_compile_error reg' = reg_compile_error reg \<and>
     (\<forall>n. case reg_cube reg n of
        None \<Rightarrow> reg_cube reg' n = None
      | Some c \<Rightarrow> \<exists>c'. reg_cube reg' n = Some c' \<and> dims c' = dims c \<and> cube_name c' = cube_name c)"

lemma same_schema_cube:
  assumes "same_schema reg reg'"
  shows "reg_cube reg n = None \<Longrightarrow> reg_cube reg' n = None"
    and "reg_cube reg n = Some c \<Longrightarrow> \<exists>c'. reg_cube reg' n = Some c' \<and> dims c' = dims c \<and> cube_name c' = cube_name c"
  using assms by (auto simp: same_schema_def split: option.splits dest: spec [of _ n])

lemma eval_schema:
  assumes "same_schema (eng_registry eng) (eng_registry eng')"
  shows "eval_expr eng' e n k = eval_expr eng e n k" "eval_cond eng' q n k = eval_cond eng q n k"
proof (induction e and q rule: expr_nums_cond_nums.induct)
  case (3 d a)
  show ?case
    using same_schema_cube [OF assms, of n]
    by (cases "reg_cube (eng_registry eng) n") (auto simp: eval_attr_def nth_dim_def)
qed (simp_all cong: if_cong)

lemma compute_schema:
  assumes sch: "same_schema (eng_registry eng) (eng_registry eng')"
    and mask: "mask_denies eng' = mask_denies eng" and fed: "fed_for eng n = None" "fed_for eng' n = None"
    and leaf: "\<And>c c'. reg_cube (eng_registry eng) n = Some c \<Longrightarrow> reg_cube (eng_registry eng') n = Some c' \<Longrightarrow>
      \<not> mask_denies eng n k \<Longrightarrow> all_leaf_at c 0 k = Some True \<Longrightarrow>
      stored_or_rolled eng' c' n k = stored_or_rolled eng c n k"
  shows "compute eng' n k = compute eng n k"
proof (cases "reg_cube (eng_registry eng) n")
  case None
  with same_schema_cube(1) [OF sch] show ?thesis by (simp add: compute_def Let_def mask)
next
  case (Some c)
  then obtain c' where c': "reg_cube (eng_registry eng') n = Some c'" "dims c' = dims c" "cube_name c' = cube_name c"
    using same_schema_cube(2) [OF sch] by blast
  have "consolidate_reads c' n k None = consolidate_reads c n k None"
    by (simp add: consolidate_reads_def check_coord_def all_numeric_leaf_def rank_def c'(2) cong: if_cong)
  then have "stored_or_rolled eng' c' n k = stored_or_rolled eng c n k" if "\<not> mask_denies eng n k"
  proof (cases "all_leaf_at c 0 k")
    case (Some leaf')
    then show ?thesis
      using leaf [OF \<open>reg_cube (eng_registry eng) n = Some c\<close> c'(1) that] all_leaf_at_dims [OF c'(2), of 0 k]
        \<open>consolidate_reads c' n k None = consolidate_reads c n k None\<close>
      by (cases leaf') (auto simp: stored_or_rolled_def fed)
  qed (use all_leaf_at_dims [OF c'(2), of 0 k] in \<open>simp add: stored_or_rolled_def\<close>)
  then show ?thesis
    using sch Some c' matching_rule_dims [OF c'(2)]
    by (simp add: compute_def Let_def mask same_schema_def eval_schema [OF sch] cong: option.case_cong)
qed

text \<open>Engines with the same computations read alike.\<close>

definition cube_label :: "engine \<Rightarrow> nat \<Rightarrow> string" where
  "cube_label eng n = (case reg_cube (eng_registry eng) n of None \<Rightarrow> [] | Some c \<Rightarrow> cube_name c)"

lemma value_of_schema:
  assumes "\<And>n k. compute eng' n k = compute eng n k" and "\<And>n. cube_label eng' n = cube_label eng n"
    and "eng_scope_id eng' = eng_scope_id eng"
  shows "value_of eng' f = value_of eng f"
proof (induction f)
  case (Suc f)
  have "memo_find eng' = memo_find eng" "memo_put eng' = memo_put eng"
    using assms(3) by (simp_all add: memo_find_def memo_put_def fun_eq_iff)
  then show ?case using Suc assms(1) assms(2) [unfolded cube_label_def] by (simp only: value_of.simps)
qed simp

section \<open>The element mask\<close>

lemma all_leaf_at_nth:
  "all_leaf_at c d k = Some True \<Longrightarrow> i < length k \<Longrightarrow>
     d + i < rank c \<and> k ! i < length (elements (dims c ! (d + i))) \<and> is_leaf (el_kind (elements (dims c ! (d + i)) ! (k ! i)))"
proof (induction k arbitrary: d i)
  case (Cons j k)
  from Cons.prems(1) have h: "d < rank c" "j < length (elements (dims c ! d))" "is_leaf (el_kind (elements (dims c ! d) ! j))"
    "all_leaf_at c (d + 1) k = Some True"
    by (auto simp: nth_dim_def rank_def get_element_def split: if_splits)
  then show ?case using Cons.IH [OF h(4), of "i - 1"] Cons.prems(2) by (cases i) auto
qed simp

text \<open>A coordinate of numeric and string leaves with a string one reads as zero.\<close>

lemma leaf_weights_string:
  "i < length (elements d) \<Longrightarrow> kind_at d i = Str \<Longrightarrow> leaf_weights d i = Inr []"
  by (simp add: leaf_weights_def get_element_def kind_at_def)

lemma under_empty: "[] \<in> set wss \<Longrightarrow> under wss = {}"
  by (induction wss) (auto simp: under_simps)

lemma leaf_weights_at:
  "dim_weights ds k = Inr wss \<Longrightarrow> length ds = length k \<Longrightarrow> i < length k \<Longrightarrow>
     leaf_weights (ds ! i) (k ! i) = Inr (wss ! i) \<and> i < length wss"
proof (induction ds k arbitrary: wss i rule: dim_weights.induct)
  case (1 d ds j k)
  then show ?case by (cases i) auto
qed auto

lemma get_at_leaves:
  assumes "cube_wf c" and "all_leaf_at c 0 k = Some True" and "in_range (dims c) k"
  shows "get c k = Inr (if leaf_coord (dims c) k then leaf_value c k else 0)"
proof (cases "leaf_coord (dims c) k")
  case True
  with get_leaf_coord [OF assms(3)] show ?thesis by simp
next
  case False
  obtain wss where w: "dim_weights (dims c) k = Inr wss" "length wss = length (dims c)"
    "\<forall>k \<in> under wss. in_range (dims c) k"
    using dim_weights_total [OF cube_wf_D(1) [OF assms(1)] assms(3)] by auto
  have len: "length k = length (dims c)" using assms(3) by (simp add: in_range_nth)
  from False len obtain i where i: "i < length k" "kind_at (dims c ! i) (k ! i) \<noteq> Leaf"
    by (auto simp: leaf_coord_nth)
  with all_leaf_at_nth [OF assms(2) i(1)] have "kind_at (dims c ! i) (k ! i) = Str"
    by (auto simp: kind_at_def is_leaf_def)
  then have "leaf_weights (dims c ! i) (k ! i) = Inr []"
    using all_leaf_at_nth [OF assms(2) i(1)] by (intro leaf_weights_string) simp_all
  with leaf_weights_at [OF w(1) _ i(1)] len have "[] \<in> set wss" by (metis nth_mem sum.inject(2))
  then have "rollup wss (leaf_value c) = 0" by (simp add: rollup_def under_empty)
  with get_spec [OF assms(1,3) False w(1)] stored_sum_rollup [OF assms(1) w(3)] show ?thesis
    using False by (simp add: to_fixed_0)
qed

lemma get_out_of_range:
  assumes "dims c' = dims c" and "\<not> in_range (dims c) k"
  shows "get c' k = get c k"
proof -
  have "check_coord c k \<noteq> Inr ()" using assms(2) check_coord_Inr [of c k] by simp
  then obtain e where "check_coord c k = Inl e" by (cases "check_coord c k") auto
  moreover have "check_coord c' k = check_coord c k" by (simp add: check_coord_def rank_def assms(1))
  ultimately show ?thesis by (simp add: get_def)
qed

text \<open>Through a mask the outcome of a read, value or error, does not depend on the stored value
  of any cell that names a denied element of the masked cube: two registries that differ only in
  such cells are read alike, whatever rollups and rules the read goes through.\<close>

theorem masked_read_hides_denied_cells:
  assumes reg: "reg_cube (eng_registry eng) (eng_mask_target eng) = Some c" and mask: "eng_mask eng = Some mk"
    and c': "cube_wf c" "cube_wf c'" "dims c' = dims c" "cube_name c' = cube_name c"
    and same: "\<And>k. in_range (dims c) k \<Longrightarrow> \<not> denies_leaf mk k \<Longrightarrow> leaf_value c' k = leaf_value c k"
  shows "value_of (eng\<lparr>eng_registry := (eng_registry eng)
       \<lparr>reg_cube := (reg_cube (eng_registry eng))(eng_mask_target eng \<mapsto> c')\<rparr>\<rparr>) f n k m
     = value_of eng f n k m"
proof -
  let ?eng = "eng\<lparr>eng_registry := (eng_registry eng)\<lparr>reg_cube := (reg_cube (eng_registry eng))(eng_mask_target eng \<mapsto> c')\<rparr>\<rparr>"
  have sch: "same_schema (eng_registry eng) (eng_registry ?eng)"
    using reg c'(3,4) by (auto simp: same_schema_def split: option.split)
  have md: "mask_denies ?eng = mask_denies eng" by (simp add: mask_denies_def fun_eq_iff)
  have "compute ?eng n k = compute eng n k" for n k
  proof (rule compute_schema [OF sch md])
    show "fed_for eng n = None" "fed_for ?eng n = None" by (simp_all add: fed_for_def mask)
    fix d d' assume d: "reg_cube (eng_registry eng) n = Some d" "reg_cube (eng_registry ?eng) n = Some d'"
      and nd: "\<not> mask_denies eng n k" and leaf: "all_leaf_at d 0 k = Some True"
    have "get d' k = get d k"
    proof (cases "n = eng_mask_target eng")
      case True
      then have eq: "d = c" "d' = c'" using d reg by auto
      have nd': "\<not> denies_leaf mk k" using nd True mask by (simp add: mask_denies_def)
      show ?thesis
      proof (cases "in_range (dims c) k")
        case True
        with get_at_leaves [OF c'(1), of k] get_at_leaves [OF c'(2), of k] leaf all_leaf_at_dims [OF c'(3), of 0 k]
          same [OF True nd'] c'(3) show ?thesis by (simp add: eq)
      next
        case False
        with get_out_of_range [OF c'(3)] show ?thesis by (simp add: eq)
      qed
    next
      case False
      with d show ?thesis by simp
    qed
    then show "stored_or_rolled ?eng d' n k = stored_or_rolled eng d n k"
      using leaf all_leaf_at_dims [of d' d 0 k] same_schema_cube(2) [OF sch d(1)] d(2)
      by (auto simp: stored_or_rolled_def split: option.split)
  qed
  moreover have "cube_label ?eng n = cube_label eng n" for n using reg c'(4) by (simp add: cube_label_def)
  ultimately have "value_of ?eng f = value_of eng f" by (intro value_of_schema) simp_all
  then show ?thesis by simp
qed

section \<open>The what-if overlay\<close>

definition overlaid :: "sandbox_overlay \<Rightarrow> nat \<Rightarrow> cube \<Rightarrow> cube \<Rightarrow> bool" where
  "overlaid ov n c c' \<longleftrightarrow>
     cube_wf c \<and> cube_wf c' \<and> dims c' = dims c \<and> cube_name c' = cube_name c \<and>
     (\<forall>k. overlay_leaf ov n k \<noteq> None \<longrightarrow> in_range (dims c) k \<and> leaf_coord (dims c) k) \<and>
     (\<forall>k. in_range (dims c) k \<longrightarrow>
        leaf_value c' k = (case overlay_leaf ov n k of Some v \<Rightarrow> v | None \<Rightarrow> leaf_value c k))"

text \<open>C12: A what-if read over a sandbox is the read of the model into which the sandbox's values
  have been written: rules and rollups recompute over the overlaid leaves exactly as over stored
  ones.\<close>

theorem what_if_is_written_model:
  assumes sch: "same_schema reg reg'"
    and ov: "\<And>n c c'. reg_cube reg n = Some c \<Longrightarrow> reg_cube reg' n = Some c' \<Longrightarrow> overlaid ov n c c'"
    and fed: "\<And>n. reg_fed_set reg' n = None"
  shows "meaning (with_overlay reg ov) j n k () = meaning (engine_new reg') j n k ()"
proof -
  let ?e = "with_overlay reg ov" and ?e' = "engine_new reg'"
  have [simp]: "eng_registry ?e = reg" "eng_registry ?e' = reg'" "eng_overlay ?e = Some ov" "eng_overlay ?e' = None"
    by (simp_all add: with_overlay_def engine_new_def)
  have "compute ?e' n k = compute ?e n k" for n k
  proof (rule compute_schema)
    show "same_schema (eng_registry ?e) (eng_registry ?e')" using sch by simp
    show "mask_denies ?e' = mask_denies ?e"
      by (simp add: mask_denies_def fun_eq_iff with_overlay_def engine_new_def)
    show "fed_for ?e n = None" "fed_for ?e' n = None" by (simp_all add: fed_for_def fed)
    fix c c' assume "reg_cube (eng_registry ?e) n = Some c" "reg_cube (eng_registry ?e') n = Some c'"
      and leaf: "all_leaf_at c 0 k = Some True"
    then have o: "overlaid ov n c c'" using ov by simp
    then have c': "dims c' = dims c" "cube_wf c" "cube_wf c'" by (simp_all add: overlaid_def)
    have "lift_result (map_err CalcModel (get c' k)) =
        (case overlay_leaf ov n k of Some v \<Rightarrow> Ret v | None \<Rightarrow> lift_result (map_err CalcModel (get c k)))"
    proof (cases "in_range (dims c) k")
      case True
      then have v: "leaf_value c' k = (case overlay_leaf ov n k of Some v \<Rightarrow> v | None \<Rightarrow> leaf_value c k)"
        and l: "overlay_leaf ov n k \<noteq> None \<Longrightarrow> leaf_coord (dims c) k"
        using o by (auto simp: overlaid_def)
      show ?thesis
        using get_at_leaves [OF c'(2) leaf True] get_at_leaves [OF c'(3), of k] all_leaf_at_dims [OF c'(1), of 0 k]
          leaf True c'(1) v l by (auto split: option.split)
    next
      case False
      then have "overlay_leaf ov n k = None" using o by (auto simp: overlaid_def)
      with get_out_of_range [OF c'(1) False] show ?thesis by simp
    qed
    then show "stored_or_rolled ?e' c' n k = stored_or_rolled ?e c n k"
      using leaf all_leaf_at_dims [OF c'(1), of 0 k] by (simp add: stored_or_rolled_def split: option.split)
  qed
  then have "meaning ?e' j = meaning ?e j" by (induction j) simp_all
  then show ?thesis by simp
qed

section \<open>A cube without rules\<close>

lemma all_leaf_true:
  assumes "in_range (dims c) j" and "leaf_coord (dims c) j"
  shows "all_leaf_at c 0 j = Some True"
proof -
  have "all_leaf_at c d (drop d j) = Some True" if "d \<le> length j" for d
    using that
  proof (induction rule: inc_induct)
    case (step d)
    then have "drop d j = j ! d # drop (Suc d) j" "d < length (dims c)" "j ! d < length (elements (dims c ! d))"
      "el_kind (elements (dims c ! d) ! (j ! d)) = Leaf"
      using assms by (auto simp: Cons_nth_drop_Suc in_range_nth leaf_coord_nth kind_at_def)
    with step show ?case by (simp add: nth_dim_def get_element_def is_leaf_def)
  qed simp
  from this [of 0] show ?thesis by simp
qed

lemma run_sum_reads:
  assumes "\<And>k. k \<in> fst ` set ks \<Longrightarrow> rd n k () = Some (Inr (f k), ())"
  shows "run rd (sum_reads n ks acc) () =
     Some (sum_combos (\<lambda>k. Inr (f k)) ks acc, ())"
  using assms by (induction ks arbitrary: acc) (auto simp: image_iff)

lemma run_bind_lift:
  "run rd (bindR (lift_result r) f) s = (case r of Inl e \<Rightarrow> Some (Inl e, s) | Inr x \<Rightarrow> run rd (f x) s)"
  by (cases r) auto

lemma run_bind_Inr: "run rd t s = Some (Inr x, s') \<Longrightarrow> run rd (bindR t f) s = run rd (f x) s'"
  by (induction t arbitrary: s) (auto split: option.splits sum.splits)

lemma run_consolidation:
  assumes c: "cube_wf c" "in_range (dims c) k" "\<not> leaf_coord (dims c) k" and w: "dim_weights (dims c) k = Inr wss"
    and tot: "count_combos (map length wss) 1 = Some tot"
    and rd: "\<And>j. in_range (dims c) j \<Longrightarrow> leaf_coord (dims c) j \<Longrightarrow> rd n j () = Some (Inr (leaf_value c j), ())"
  shows "run rd (consolidate_reads c n k None) () = Some (map_err CalcModel (get c k), ())"
proof -
  have U: "\<forall>ws \<in> set wss. distinct (map fst ws)" "\<forall>j \<in> under wss. in_range (dims c) j \<and> leaf_coord (dims c) j"
    using dim_weights_total [OF cube_wf_D(1) [OF c(1)] c(2)] w by auto
  have chk: "check_coord c k = Inr ()" "all_numeric_leaf c k = Inr False"
    using c(2,3) check_coord_Inr [of c k] all_leaf_Inr [OF c(2)] by (simp_all add: all_numeric_leaf_def)
  have t: "tot = combo_count wss" using count_combos_Some [OF tot] by (simp add: combo_count_prod)
  have get: "get c k = to_fixed (wrap128 (rollup wss (leaf_value c)))"
    using get_spec [OF c w] stored_sum_rollup [OF c(1), of wss] U(2) by simp
  note unf = consolidate_reads_def chk w tot [unfolded One_nat_def] get
  show ?thesis
  proof (cases "tot = 0")
    case True
    then show ?thesis
      using rollup_empty [of wss "leaf_value c"] t by (simp add: unf to_fixed_0)
  next
    case False
    have "fst (combo_at wss j 1) \<in> under wss" for j
      using False t by (intro combo_at_under combo_count_zero) simp
    then have "run rd (sum_reads n (map (\<lambda>j. combo_at wss j 1) [0..<tot]) 0) ()
        = Some (sum_combos (\<lambda>k. Inr (leaf_value c k)) (map (\<lambda>j. combo_at wss j 1) [0..<tot]) 0, ())"
      using U(2) by (intro run_sum_reads rd) (auto simp: image_iff)
    then have sums: "run rd (sum_reads n (map (\<lambda>j. combo_at wss j 1) [0..<tot]) 0) ()
        = Some (Inr (wrap128 (rollup wss (leaf_value c))), ())"
      using dense_rollup [OF U(1), of "leaf_value c"] by (simp add: sum_combos_pure t)
    let ?fin = "\<lambda>acc. lift_result (map_err CalcModel (to_fixed acc))"
    have "run rd (bindR (sum_reads n (map (\<lambda>j. combo_at wss j 1) [0..<tot]) 0) ?fin) ()
        = run rd (?fin (wrap128 (rollup wss (leaf_value c)))) ()"
      by (rule run_bind_Inr [OF sums])
    with False show ?thesis
      by (simp add: unf) (cases "to_fixed (wrap128 (rollup wss (leaf_value c)))"; simp)
  qed
qed

text \<open>On a cube without rules the engine reads what the cube reads: the stored value of a leaf
  and the consolidation of the rest, on every coordinate whose leaf combinations are countable.\<close>

theorem engine_without_rules_reads_cube:
  assumes reg: "reg_cube reg n = Some c" "reg_compiled reg n = None" "reg_compile_error reg n = None"
      "reg_fed_set reg n = None"
    and c: "cube_wf c" "in_range (dims c) k" and w: "dim_weights (dims c) k = Inr wss"
    and cnt: "count_combos (map length wss) 1 \<noteq> None"
  shows "meaning (engine_new reg) 2 n k () = Some (map_err CalcModel (get c k), ())"
proof -
  let ?e = "engine_new reg"
  have e: "eng_registry ?e = reg" "eng_overlay ?e = None" "eng_mask ?e = None" by (simp_all add: engine_new_def)
  have comp: "compute ?e n j = stored_or_rolled ?e c n j" for j
    by (simp add: compute_def Let_def mask_denies_def reg e)
  obtain b where b: "all_leaf_at c 0 k = Some b"
    using all_leaf_at_total [of 0 k c] c(2) by (auto simp: in_range_nth rank_def)
  have leaf1: "meaning ?e 1 n j () = Some (Inr (leaf_value c j), ())" if "in_range (dims c) j" "leaf_coord (dims c) j" for j
    using get_leaf_coord [OF that] all_leaf_true [OF that] by (simp add: comp stored_or_rolled_def e)
  show ?thesis
  proof (cases b)
    case True
    with b show ?thesis
      by (simp add: comp stored_or_rolled_def eval_nat_numeral e split: sum.split) (cases "get c k"; simp)
  next
    case False
    have "\<not> leaf_coord (dims c) k" using all_leaf_true [OF c(2)] b False by auto
    with cnt run_consolidation [OF c _ w, where rd = "meaning ?e 1"] leaf1
    have "run (meaning ?e 1) (consolidate_reads c n k None) () = Some (map_err CalcModel (get c k), ())" by blast
    then show ?thesis using b False by (simp add: comp stored_or_rolled_def fed_for_def reg e eval_nat_numeral)
  qed
qed

section \<open>Witnesses\<close>

text \<open>Regions A = 3 and B = 5; a rule makes C twice A; All adds the three.\<close>

definition sample_ledger :: cube where
  "sample_ledger = (case trial_apply sample_sheet 0 [BatchLeaf [1] 30000, BatchLeaf [2] 50000] of Inr c \<Rightarrow> c)"

lemma sample_in_range1 [simp]: "in_range [sample_region] k \<longleftrightarrow> (\<exists>i < 4. k = [i])"
  by (auto simp: in_range_def sample_region_eval list_all2_Cons1)

lemma sample_leaf_coord [simp]: "leaf_coord [sample_region] [i] \<longleftrightarrow> kind_at sample_region i = Leaf"
  by (simp add: leaf_coord_def)

lemma sample_kinds [simp]: "kind_at sample_region 1 = Leaf" "kind_at sample_region (Suc 0) = Leaf"
  "kind_at sample_region 2 = Leaf" "kind_at sample_region 3 = Leaf" "kind_at sample_region 0 = Consolidated"
  by (simp_all add: kind_at_def sample_region_eval)

lemma sample_i64 [simp]: "in_i64 30000" "in_i64 50000" "in_i64 70000" "in_i64 990000"
  by (simp_all add: in_i64_def i64_min_def i64_max_def)

lemma sample_ledger_facts:
  "cube_wf sample_ledger \<and> dims sample_ledger = [sample_region] \<and>
   (\<forall>j. in_range [sample_region] j \<longrightarrow> leaf_value sample_ledger j =
      (if j = [1] then 30000 else if j = [2] then 50000 else leaf_value sample_sheet j))"
proof -
  have ws: "map (\<lambda>(k, x). BatchLeaf k x) [([1], 30000), ([2], 50000)] = [BatchLeaf [1] 30000, BatchLeaf [2] 50000]"
    by simp
  have "\<forall>(k, x) \<in> set [([1 :: nat], 30000 :: int), ([2], 50000)].
      in_range (dims sample_sheet) k \<and> leaf_coord (dims sample_sheet) k \<and> in_i64 x" by simp
  from trial_apply_leaves [OF sample_sheet(1) _ this, of 0] obtain c' where
    c': "trial_apply sample_sheet 0 [BatchLeaf [1] 30000, BatchLeaf [2] 50000] = Inr c'" "cube_wf c'"
      "dims c' = [sample_region]"
      "\<forall>j. in_range [sample_region] j \<longrightarrow> leaf_value c' j =
        (case map_of [([1], 30000), ([2], 50000)] j of Some x \<Rightarrow> x | None \<Rightarrow> leaf_value sample_sheet j)"
    unfolding ws by auto
  have "sample_ledger = c'" unfolding sample_ledger_def c'(1) by simp
  with c' show ?thesis by (auto split: if_splits)
qed

lemmas sample_ledger_wf [simp] = conjunct1 [OF sample_ledger_facts]
lemmas sample_ledger_dims [simp] = conjunct1 [OF conjunct2 [OF sample_ledger_facts]]

definition sample_rules :: compiled_model where
  "sample_rules = \<lparr>version = 1, rules = [\<lparr>area = \<lparr>per_dim = [OneOf [3]], area_consolidated = False\<rparr>,
     cexpr = CBin Mul (CCell \<lparr>cell_cube = 0, addr = [Pinned 1]\<rparr>) (CNum 20000),
     crule_span = \<lparr>span_start = 0, span_end = 0\<rparr>\<rparr>]\<rparr>"

definition sample_registry :: registry where
  "sample_registry = \<lparr>reg_cube = [0 \<mapsto> sample_ledger], reg_compiled = [0 \<mapsto> sample_rules],
     reg_ordinal = Map.empty, reg_compile_error = Map.empty, reg_fed_set = Map.empty\<rparr>"

lemma sample_rank [simp]: "rank sample_ledger = 1"
  by (simp add: rank_def)

lemma sample_registry_ok: "registry_ok sample_registry"
  by (auto simp: registry_ok_def sample_registry_def model_ok_def rule_ok_def cell_ok_def sample_rules_def)

theorem evaluation_terminates_witness:
  "\<exists>F. \<forall>f \<ge> F. \<exists>r m'. value_of (engine_new sample_registry) f 0 [0] Map.empty = Some (r, m')"
proof -
  have "\<exists>F. \<forall>f \<ge> F. \<forall>m. \<exists>r m'. value_of (engine_new sample_registry) f 0 [0] m = Some (r, m') \<and>
      marks (engine_new sample_registry) m' = marks (engine_new sample_registry) m"
    by (rule evaluation_terminates)
      (simp_all add: engine_new_def sample_registry_ok, simp add: sample_registry_def split: if_splits)
  then show ?thesis by blast
qed

lemma sample_leaf_get: "get sample_ledger [1] = Inr 30000"
  using get_leaf_coord [of sample_ledger "[1]"] sample_ledger_facts by simp

lemma sample_value:
  "\<exists>m'. value_of (engine_new sample_registry) 2 0 [3] Map.empty = Some (Inr 60000, m')"
  using sample_leaf_get
  by (simp add: eval_nat_numeral engine_new_def sample_registry_def compute_def mask_denies_def matching_rule_def
      sample_rules_def area_matches_def nth_dim_def memo_find_def memo_put_def eval_cell_def stored_or_rolled_def
      get_element_def sample_region_eval is_leaf_def calc_fixed_def checked_i64_def in_i64_def i64_min_def i64_max_def
      div_round_half_even_def tdiv_def trem_def SCALE_def Let_def)

theorem memo_is_pure_cache_witness:
  "\<exists>m'. value_of (engine_new sample_registry) 2 0 [3] Map.empty = Some (Inr 60000, m') \<and>
     memo_good (engine_new sample_registry) m'"
proof -
  obtain m' where "value_of (engine_new sample_registry) 2 0 [3] Map.empty = Some (Inr 60000, m')"
    using sample_value by blast
  with memo_is_pure_cache [OF this] show ?thesis
    by (auto simp: memo_good_def marks_def memo_find_def)
qed

theorem arith_rounds_half_even_witness: "arith Div 10000 30000 = Inr 3333"
proof -
  obtain q where q: "arith Div 10000 30000 = (if in_i64 q then Inr q else Inl ArithOverflow)"
    "2 * \<bar>10000 * SCALE - q * 30000\<bar> \<le> \<bar>30000\<bar>"
    using arith_rounds_half_even [of 10000 30000] by auto
  then have "q = 3333" by (simp add: SCALE_def)
  with q(1) show ?thesis by (simp add: in_i64_def i64_min_def i64_max_def)
qed

lemma sample_changed:
  assumes "in_i64 v" and "i \<in> {1, 2, 3}"
  obtains c' where "cube_wf c'" and "dims c' = [sample_region]" and "cube_name c' = cube_name sample_ledger"
    and "\<And>j. in_range [sample_region] j \<Longrightarrow> leaf_value c' j = (if j = [i] then v else leaf_value sample_ledger j)"
proof -
  have "in_range (dims sample_ledger) [i] \<and> leaf_coord (dims sample_ledger) [i]" using assms(2) by auto
  then obtain c' where c': "set_leaf [i] v sample_ledger = Inr c'"
    using check_leaf_Inr [of sample_ledger "[i]"] by (auto simp: set_leaf_def)
  note W = set_leaf_wf [OF sample_ledger_wf assms(1) c']
  have "leaf_value c' j = (if j = [i] then v else leaf_value sample_ledger j)" if "in_range [sample_region] j" for j
    using W that by (simp add: leaf_value_num)
  with W show thesis by (intro that [of c']) simp_all
qed

theorem masked_read_hides_denied_cells_witness:
  "\<exists>c'. leaf_value c' [2] = 990000 \<and> (\<forall>f m.
     value_of (with_mask (Some (from_denied [4] [[2]])) 0 (engine_new (sample_registry\<lparr>reg_cube := [0 \<mapsto> c']\<rparr>))) f 0 [0] m
     = value_of (with_mask (Some (from_denied [4] [[2]])) 0 (engine_new sample_registry)) f 0 [0] m)"
proof -
  let ?mk = "from_denied [4] [[2]]"
  obtain c' where c': "cube_wf c'" "dims c' = [sample_region]" "cube_name c' = cube_name sample_ledger"
    "\<And>j. in_range [sample_region] j \<Longrightarrow> leaf_value c' j = (if j = [2] then 990000 else leaf_value sample_ledger j)"
    using sample_changed [OF sample_i64(4), of 2] by auto
  let ?eng = "with_mask (Some ?mk) 0 (engine_new sample_registry)"
  have "value_of (?eng\<lparr>eng_registry := (eng_registry ?eng)
       \<lparr>reg_cube := (reg_cube (eng_registry ?eng))(eng_mask_target ?eng \<mapsto> c')\<rparr>\<rparr>) f 0 [0] m
     = value_of ?eng f 0 [0] m" for f m
    by (rule masked_read_hides_denied_cells [OF _ _ sample_ledger_wf c'(1), where mk = ?mk])
      (use c' in \<open>auto simp: with_mask_def engine_new_def sample_registry_def denies_leaf_iff
        index_denied_from_denied\<close>)
  moreover have "leaf_value c' [2] = 990000" using c'(4) [of "[2]"] by simp
  ultimately show ?thesis
    by (intro exI [of _ c']) (simp add: with_mask_def engine_new_def sample_registry_def)
qed

theorem what_if_is_written_model_witness:
  "\<exists>c'. leaf_value c' [1] = 70000 \<and> (\<forall>j.
     meaning (with_overlay sample_registry \<lparr>overlay_leaf = \<lambda>n k. if n = 0 \<and> k = [1] then Some 70000 else None,
       overlay_scope_id = 7\<rparr>) j 0 [0] ()
     = meaning (engine_new (sample_registry\<lparr>reg_cube := [0 \<mapsto> c']\<rparr>)) j 0 [0] ())"
proof -
  obtain c' where c': "cube_wf c'" "dims c' = [sample_region]" "cube_name c' = cube_name sample_ledger"
    "\<And>j. in_range [sample_region] j \<Longrightarrow> leaf_value c' j = (if j = [1] then 70000 else leaf_value sample_ledger j)"
    using sample_changed [OF sample_i64(3), of 1] by auto
  let ?ov = "\<lparr>overlay_leaf = \<lambda>n k. if n = 0 \<and> k = [1] then Some 70000 else None, overlay_scope_id = 7\<rparr>"
  have "meaning (with_overlay sample_registry ?ov) j 0 [0] () =
      meaning (engine_new (sample_registry\<lparr>reg_cube := [0 \<mapsto> c']\<rparr>)) j 0 [0] ()" for j
  proof (rule what_if_is_written_model)
    fix n d d' assume "reg_cube sample_registry n = Some d"
      "reg_cube (sample_registry\<lparr>reg_cube := [0 \<mapsto> c']\<rparr>) n = Some d'"
    then have "n = 0" "d = sample_ledger" "d' = c'" by (auto simp: sample_registry_def split: if_splits)
    then show "overlaid ?ov n d d'" using c' by (auto simp: overlaid_def)
  qed (use c' in \<open>simp_all add: same_schema_def sample_registry_def\<close>)
  moreover have "leaf_value c' [1] = 70000" using c'(4) [of "[1]"] by simp
  ultimately show ?thesis by blast
qed

theorem engine_without_rules_reads_cube_witness:
  "meaning (engine_new (sample_registry\<lparr>reg_compiled := Map.empty\<rparr>)) 2 0 [0] ()
     = Some (map_err CalcModel (get sample_ledger [0]), ())"
  by (rule engine_without_rules_reads_cube [where wss = "[[(1, 1), (2, 1), (3, 1)]]"])
    (simp_all add: sample_registry_def sample_leaves checked_usize_def u64_max_def)

end
