(* ===== verification/Compile_Properties.thy ===== *)
theory Compile_Properties
  imports Calc_Compile Calc_Properties
begin

text \<open>
  What compilation promises: its output is well-formed for the evaluator, selectors select the
  members they name, and an area matches the coordinates its selectors describe.
\<close>

section \<open>Positions and members\<close>

lemma dim_position_bound: "dim_position c name = Some i \<Longrightarrow> i < rank c \<and> dim_name (dims c ! i) = name"
  using position_SomeD [of "\<lambda>d. dim_name d = name" "dims c" i] by (simp add: dim_position_def rank_def)

lemma dim_edges_set:
  assumes "length (children d) \<le> u32_max"
  shows "(p, c, w) \<in> set (dim_edges d) \<longleftrightarrow>
     p < length (children d) \<and> \<lparr>edge_child = c, edge_weight = w\<rparr> \<in> set (children d ! p)"
proof -
  have e: "e = \<lparr>edge_child = edge_child e, edge_weight = edge_weight e\<rparr>" for e :: edge by simp
  have 1: "set (dim_edges d) = (\<Union>x \<in> set (List.enumerate 0 (children d)).
      (\<lambda>e. (as_u32 (fst x), edge_child e, edge_weight e)) ` set (snd x))"
    by (simp add: dim_edges_def split_def)
  have "(p, c, w) \<in> set (dim_edges d) \<longleftrightarrow>
      (\<exists>q < length (children d). \<exists>e \<in> set (children d ! q). (p, c, w) = (as_u32 q, edge_child e, edge_weight e))"
    unfolding 1 UN_iff image_iff by (simp add: in_set_enumerate_eq Bex_def)
  also have "\<dots> \<longleftrightarrow> (\<exists>q < length (children d). \<exists>e \<in> set (children d ! q). p = q \<and> c = edge_child e \<and> w = edge_weight e)"
    using assms by (intro ex_cong1 conj_cong refl bex_cong) auto
  also have "\<dots> \<longleftrightarrow> (\<exists>e \<in> set (children d ! p). p < length (children d) \<and> c = edge_child e \<and> w = edge_weight e)"
    by blast
  also have "\<dots> \<longleftrightarrow> p < length (children d) \<and> \<lparr>edge_child = c, edge_weight = w\<rparr> \<in> set (children d ! p)"
    using e by (metis edge.select_convs)
  finally show ?thesis .
qed

lemma edge_children_rel:
  assumes "length (children d) \<le> u32_max"
  shows "c \<in> set (edge_children (dim_edges d) p) \<longleftrightarrow> (p, c) \<in> edge_rel d"
proof -
  have "c \<in> set (edge_children (dim_edges d) p) \<longleftrightarrow> (\<exists>w. (p, c, w) \<in> set (dim_edges d))"
    by (force simp: edge_children_def)
  also have "\<dots> \<longleftrightarrow> (p, c) \<in> edge_rel d"
    unfolding dim_edges_set [OF assms] edge_rel_iff by (metis edge.cases edge.select_convs(1))
  finally show ?thesis .
qed

text \<open>The walk lists what the stack reaches outside the nodes already seen.\<close>

lemma descend_set:
  assumes len: "length (children d) \<le> u32_max"
  shows "\<lbrakk>set out = seen; \<forall>u \<in> seen. \<forall>v. (u, v) \<in> edge_rel d \<longrightarrow> v \<in> seen \<union> set stack\<rbrakk> \<Longrightarrow>
     set (descend (dim_edges d) stack seen out) = seen \<union> {x. \<exists>s \<in> set stack. (s, x) \<in> (edge_rel d)\<^sup>*}"
proof (induction "dim_edges d" stack seen out rule: descend.induct)
  case (1 seen out)
  then show ?case by simp
next
  case (2 node stack seen out)
  show ?case
  proof (cases "node \<in> seen")
    case True
    have "x \<in> seen \<or> (\<exists>s \<in> set stack. (s, x) \<in> (edge_rel d)\<^sup>*)" if "(node, x) \<in> (edge_rel d)\<^sup>*" for x
      using that
    proof (induction rule: rtrancl_induct)
      case (step y z)
      then show ?case
        using 2(4) True by (metis UnE insert_iff list.set(2) rtrancl.rtrancl_into_rtrancl rtrancl.rtrancl_refl)
    qed (use True in simp)
    moreover have "set (descend (dim_edges d) stack seen out) = seen \<union> {x. \<exists>s \<in> set stack. (s, x) \<in> (edge_rel d)\<^sup>*}"
      using True 2(4) by (intro 2(1) 2(3)) auto
    ultimately show ?thesis using True by auto
  next
    case False
    let ?ch = "edge_children (dim_edges d) node"
    note ch = edge_children_rel [OF len, of _ node]
    have "set (descend (dim_edges d) (rev ?ch @ stack) (insert node seen) (out @ [node]))
        = insert node seen \<union> {x. \<exists>s \<in> set (rev ?ch @ stack). (s, x) \<in> (edge_rel d)\<^sup>*}"
      using False 2(3,4) ch by (intro 2(2)) auto
    moreover have "(node, x) \<in> (edge_rel d)\<^sup>* \<longleftrightarrow> x = node \<or> (\<exists>s. (node, s) \<in> edge_rel d \<and> (s, x) \<in> (edge_rel d)\<^sup>*)" for x
      by (metis converse_rtranclE r_into_rtrancl rtrancl.rtrancl_refl rtrancl_trans)
    ultimately show ?thesis using False ch by auto
  qed
qed

lemma descendants_set:
  "length (children d) \<le> u32_max \<Longrightarrow> set (descendants d r) = {x. (r, x) \<in> (edge_rel d)\<^sup>*}"
  using descend_set [of d "[]" "{}" "[r]"] by (simp add: descendants_def)

section \<open>Selections\<close>

text \<open>The members a selector names.\<close>

definition attr_selected :: "dimension \<Rightarrow> string \<Rightarrow> cmp_op \<Rightarrow> lit \<Rightarrow> nat \<Rightarrow> bool" where
  "attr_selected d a p v i \<longleftrightarrow>
     (\<exists>s t. get_attribute d i a = Some (Text s) \<and> v = LitStr t \<and> cmp_apply_str s t p) \<or>
     (\<exists>f n r. get_attribute d i a = Some (Numeric f) \<and> v = LitNumber n \<and> from_str n = Inr r \<and> compare_op f r p)"

fun members :: "dimension \<Rightarrow> selector_kind \<Rightarrow> nat set" where
  "members d (SelElement m) = {i. resolve d m = Some i}"
| "members d (SelAttr a p v) = {i. i < length (elements d) \<and> attr_selected d a p v i}"
| "members d (SelChildren m) = {c. \<exists>p. resolve d m = Some p \<and> (p, c) \<in> edge_rel d}"
| "members d (SelDescendants m) = {c. \<exists>p. resolve d m = Some p \<and> (p, c) \<in> (edge_rel d)\<^sup>*}"
| "members d SelLeaves = {i. i < length (elements d) \<and> is_leaf (el_kind (elements d ! i))}"
| "members d SelConsolidated = {i. i < length (elements d) \<and> \<not> is_leaf (el_kind (elements d ! i))}"
| "members d SelAll = {..<length (elements d)}"

lemma attr_matches_iff:
  "(case v of LitNumber n \<Rightarrow> bindE (map_err (\<lambda>_. CompInvalidNumber n sp) (from_str n)) (\<lambda>f. Inr (Some f))
      | LitStr _ \<Rightarrow> Inr None) = Inr rhs \<Longrightarrow>
   attr_matches (get_attribute d i a) p v rhs \<longleftrightarrow> attr_selected d a p v i"
  by (auto simp: attr_matches_def attr_selected_def split: lit.splits option.splits attribute_value.splits)

lemma selected_members:
  assumes "dim_wf d" and "selected d kind sp = Inr s"
  shows "set s = members d kind"
proof -
  have len: "length (children d) \<le> u32_max" "dim_len d = length (elements d)"
    using dim_wf_shape [OF assms(1)] by simp_all
  show ?thesis
  proof (cases kind)
    case (SelAttr a p v)
    then obtain rhs where "(case v of LitNumber n \<Rightarrow> bindE (map_err (\<lambda>_. CompInvalidNumber n sp) (from_str n))
        (\<lambda>f. Inr (Some f)) | LitStr _ \<Rightarrow> Inr None) = Inr rhs"
      "s = filter (\<lambda>i. attr_matches (get_attribute d i a) p v rhs) [0..<dim_len d]"
      using assms(2) by (auto simp: resolve_attr_predicate_def split: if_splits)
    with attr_matches_iff [OF this(1)] show ?thesis by (auto simp: SelAttr len(2))
  qed (use assms(2) len descendants_set [OF len(1)] edge_children_rel [OF len(1)] in
        \<open>auto simp: resolve_member_def kind_selected_def get_element_def split: if_splits\<close>)
qed

lemma members_bound:
  assumes "dim_wf d" and "i \<in> members d kind"
  shows "i < length (elements d)"
proof -
  note R = resolve_bound [OF assms(1)]
  have E: "c < length (elements d)" if "(p, c) \<in> edge_rel d" for p c
    using edge_rel_range [OF dim_wf_graph(1) [OF assms(1)] that] by simp
  have "c < length (elements d)" if "(p, c) \<in> (edge_rel d)\<^sup>*" "p < length (elements d)" for p c
    using that(1) by (cases rule: rtranclE) (use that(2) E in auto)
  with R E assms(2) show ?thesis by (cases kind) auto
qed

lemma strict_remdups_adj: "sorted (xs :: nat list) \<Longrightarrow> sorted_wrt (<) (remdups_adj xs)"
proof (induction xs rule: remdups_adj.induct)
  case (3 x y xs)
  then show ?case by (auto simp: order_less_le)
qed auto

lemma resolve_selector_facts:
  assumes "dim_wf d" and "resolve_selector d kind sp = Inr s"
  shows "set s = members d kind" "sorted_wrt (<) s" "\<forall>i \<in> set s. i < length (elements d)"
proof -
  from assms(2) obtain s0 where s0: "selected d kind sp = Inr s0" "s = remdups_adj (sort s0)"
    by (auto simp: resolve_selector_def)
  then show m: "set s = members d kind" using selected_members [OF assms(1) s0(1)] by simp
  show "sorted_wrt (<) s" by (simp add: s0(2) strict_remdups_adj)
  show "\<forall>i \<in> set s. i < length (elements d)" using m members_bound [OF assms(1)] by simp
qed

section \<open>Areas\<close>

definition predicate_ok :: "dimension \<Rightarrow> dim_predicate \<Rightarrow> bool" where
  "predicate_ok d p \<longleftrightarrow> (case p of AnyMember \<Rightarrow> True
     | OneOf s \<Rightarrow> sorted_wrt (<) s \<and> (\<forall>i \<in> set s. i < length (elements d)))"

lemma area_loop_ok:
  "\<lbrakk>area_loop c ss preds = Inr preds'; list_all dim_wf (dims c); length preds = rank c;
    \<forall>i < rank c. predicate_ok (dims c ! i) (preds ! i)\<rbrakk> \<Longrightarrow>
   length preds' = rank c \<and> (\<forall>i < rank c. predicate_ok (dims c ! i) (preds' ! i))"
proof (induction ss arbitrary: preds)
  case (Cons s ss)
  then obtain pos set where p: "dim_position c (sel_dimension s) = Some pos"
    "resolve_selector (dims c ! pos) (sel_kind s) (sel_span s) = Inr set"
    "area_loop c ss (preds[pos := OneOf set]) = Inr preds'" by auto
  have pos: "pos < rank c" using dim_position_bound [OF p(1)] by simp
  then have "dim_wf (dims c ! pos)" using Cons.prems(2) by (simp add: list_all_length rank_def)
  note F = resolve_selector_facts [OF this p(2)]
  show ?case
    using Cons.prems F pos by (intro Cons.IH [OF p(3)]) (auto simp: predicate_ok_def nth_list_update)
qed simp

lemma compile_area_ok:
  assumes "compile_area c a = Inr ca" and "list_all dim_wf (dims c)"
  shows "length (per_dim ca) = rank c \<and> (\<forall>i < rank c. predicate_ok (dims c ! i) (per_dim ca ! i))"
proof -
  obtain preds where p: "area_loop c (selectors a) (replicate (rank c) AnyMember) = Inr preds"
    "ca = \<lparr>per_dim = preds, area_consolidated = targets_consolidated (area_scope a)\<rparr>"
    using assms(1) by (auto simp: compile_area_def)
  then show ?thesis using area_loop_ok [OF p(1) assms(2)] by (simp add: predicate_ok_def)
qed

section \<open>Formulas\<close>

lemma attribute_index_bound:
  "dim_wf d \<Longrightarrow> attribute_index d a = Some k \<Longrightarrow> k < length (attributes d)"
  by (auto simp: dim_wf_def attrs_ok_def attribute_index_def dest: position_SomeD)

lemma lower_slots_ok:
  assumes "lower_slots cell tg o1 rc o2 rds = Inr slots"
  shows "length slots = length rds \<and>
    list_all (\<lambda>s. case s of Pinned _ \<Rightarrow> True | FromTarget pos \<Rightarrow> pos < rank tg) slots"
  using assms
proof (induction rds arbitrary: slots)
  case (Cons rd rds)
  then obtain s ss where s: "lower_slot cell tg o1 rc o2 rd = Inr s" "slots = s # ss"
    "lower_slots cell tg o1 rc o2 rds = Inr ss" by auto
  have "case s of Pinned _ \<Rightarrow> True | FromTarget pos \<Rightarrow> pos < rank tg"
    using s(1) dim_position_bound [of tg "dim_name rd"]
    by (auto simp: lower_slot_def split: option.splits member_expr.splits if_splits)
  with Cons.IH [OF s(3)] s(2) show ?case by simp
qed simp

lemma lower_cell_ok:
  assumes "lower_cell cell tg reg o1 = Inr cc" and "cr_cube reg o1 = Some tg" and "reg_cube R = cr_cube reg"
  shows "cell_ok R tg cc"
proof -
  obtain o2 rc slots where h: "o2 = o1 \<and> rc = tg \<or> cr_cube reg o2 = Some rc"
    "lower_slots cell tg o1 rc o2 (dims rc) = Inr slots" "cc = \<lparr>cell_cube = o2, addr = slots\<rparr>"
    using assms(1) by (auto simp: lower_cell_def split: if_splits option.splits)
  then have "cr_cube reg o2 = Some rc" using assms(2) by auto
  with lower_slots_ok [OF h(2)] show ?thesis by (simp add: cell_ok_def h(3) assms(3) rank_def)
qed

lemma lower_func_ok:
  assumes "lower_func func args sp tg = Inr e" and "list_all dim_wf (dims tg)"
  shows "expr_ok R tg e"
proof -
  have "pos < rank tg \<and> attr < length (attributes (dims tg ! pos))"
    if "dim_position tg dn = Some pos" "attribute_index (dims tg ! pos) an = Some attr" for dn an pos attr
  proof -
    have pos: "pos < rank tg" using dim_position_bound [OF that(1)] by simp
    with assms(2) attribute_index_bound [OF _ that(2)] show ?thesis by (simp add: list_all_length rank_def)
  qed
  with assms(1) show ?thesis by (auto simp: lower_func_def split: builtin_func.splits)
qed

lemma lower_ok:
  assumes "cr_cube reg o1 = Some tg" and "reg_cube R = cr_cube reg" and "list_all dim_wf (dims tg)"
  shows "lower_expr e tg reg o1 sp = Inr ce \<Longrightarrow> expr_ok R tg ce"
    and "lower_cond q tg reg o1 sp = Inr cq \<Longrightarrow> cond_ok R tg cq"
  using assms
proof (induction e tg reg o1 sp and q tg reg o1 sp arbitrary: ce and cq rule: lower_expr_lower_cond.induct)
  case (3 cell tg reg o1 sp)
  then show ?case using lower_cell_ok [of cell tg reg o1 _ R] by auto
next
  case (8 func args fsp tg reg o1 sp)
  then show ?case using lower_func_ok by auto
qed auto

lemma compile_rules_ok:
  assumes "cr_cube reg o1 = Some tg" and "reg_cube R = cr_cube reg" and "list_all dim_wf (dims tg)"
  shows "compile_rules tg reg o1 rs = Inr crs \<Longrightarrow> length crs = length rs \<and> list_all (rule_ok R tg) crs \<and>
     (\<forall>r \<in> set crs. \<forall>i < rank tg. predicate_ok (dims tg ! i) (per_dim (area r) ! i))"
proof (induction rs arbitrary: crs)
  case (Cons r rs)
  then obtain a e rest where h: "compile_area tg (rule_area r) = Inr a"
    "lower_expr (formula r) tg reg o1 (rule_span r) = Inr e" "compile_rules tg reg o1 rs = Inr rest"
    "crs = \<lparr>area = a, cexpr = e, crule_span = rule_span r\<rparr> # rest" by auto
  from compile_area_ok [OF h(1) assms(3)] lower_ok(1) [OF assms h(2)] Cons.IH [OF h(3)]
  show ?case by (auto simp: h(4) rule_ok_def)
qed simp

section \<open>What an area matches\<close>

definition pred_holds :: "bool \<Rightarrow> dimension \<Rightarrow> dim_predicate \<Rightarrow> nat \<Rightarrow> bool" where
  "pred_holds consolidated d p i =
     (case p of OneOf s \<Rightarrow> i \<in> set s
      | AnyMember \<Rightarrow> i < length (elements d) \<and> is_leaf (el_kind (elements d ! i)) \<noteq> consolidated)"

lemma preds_match_holds:
  "length ps = length k \<Longrightarrow> d + length ps \<le> rank c \<Longrightarrow>
   preds_match b c d ps k = Some (\<forall>j < length ps. pred_holds b (dims c ! (d + j)) (ps ! j) (k ! j))"
proof (induction ps k arbitrary: d rule: list_induct2)
  case (Cons p ps i k)
  have "pred_matches b (nth_dim c d) p i = Some (pred_holds b (dims c ! d) p i)"
    using Cons.prems by (cases p) (auto simp: nth_dim_def rank_def pred_holds_def get_element_def)
  with Cons show ?case by (simp add: All_less_Suc2)
qed simp

text \<open>The members an area describes, one dimension at a time.\<close>

definition area_selects :: "cube \<Rightarrow> Rule_Ast.area \<Rightarrow> coord \<Rightarrow> bool" where
  "area_selects c a k \<longleftrightarrow>
     (\<forall>i < rank c. case List.find (\<lambda>s. dim_position c (sel_dimension s) = Some i) (selectors a) of
        Some s \<Rightarrow> k ! i \<in> members (dims c ! i) (sel_kind s)
      | None \<Rightarrow> is_leaf (el_kind (elements (dims c ! i) ! (k ! i))) \<noteq> targets_consolidated (area_scope a))"

lemma area_loop_nth:
  "\<lbrakk>area_loop c ss preds = Inr preds'; distinct (map sel_dimension ss); length preds = rank c; i < rank c\<rbrakk> \<Longrightarrow>
   (case List.find (\<lambda>s. dim_position c (sel_dimension s) = Some i) ss of
      None \<Rightarrow> preds' ! i = preds ! i
    | Some s \<Rightarrow> \<exists>set. preds' ! i = OneOf set \<and> resolve_selector (dims c ! i) (sel_kind s) (sel_span s) = Inr set)"
proof (induction ss arbitrary: preds)
  case (Cons s ss)
  then obtain pos ms where p: "dim_position c (sel_dimension s) = Some pos"
    "resolve_selector (dims c ! pos) (sel_kind s) (sel_span s) = Inr ms"
    "area_loop c ss (preds[pos := OneOf ms]) = Inr preds'" by auto
  have IH: "case List.find (\<lambda>s. dim_position c (sel_dimension s) = Some i) ss of
      None \<Rightarrow> preds' ! i = preds[pos := OneOf ms] ! i
    | Some s \<Rightarrow> \<exists>set. preds' ! i = OneOf set \<and> resolve_selector (dims c ! i) (sel_kind s) (sel_span s) = Inr set"
    using Cons.prems by (intro Cons.IH [OF p(3)]) auto
  show ?case
  proof (cases "pos = i")
    case True
    have "List.find (\<lambda>s. dim_position c (sel_dimension s) = Some i) ss = None"
    proof (rule ccontr)
      assume "List.find (\<lambda>s. dim_position c (sel_dimension s) = Some i) ss \<noteq> None"
      then obtain t where "t \<in> set ss" "dim_position c (sel_dimension t) = Some i"
        by (auto simp: find_None_iff)
      with p(1) True have "sel_dimension t = sel_dimension s"
        using dim_position_bound [of c "sel_dimension t" i] dim_position_bound [of c "sel_dimension s" i] by simp
      moreover have "sel_dimension t \<in> sel_dimension ` set ss" using \<open>t \<in> set ss\<close> by (rule imageI)
      ultimately show False using Cons.prems(2) by simp
    qed
    with IH p True Cons.prems(3,4) show ?thesis by simp
  next
    case False
    with IH p(1) show ?thesis by (simp split: option.splits)
  qed
qed simp

section \<open>The properties\<close>

text \<open>C15: A compiled rule set is well-formed for the evaluator: one predicate per dimension whose
  member sets are strictly sorted and in range, and every cell reference, address slot and
  attribute of every formula resolved in range, so evaluating it cannot panic.\<close>

theorem compiled_rules_well_formed:
  assumes "compile_doc tg reg doc ver = Some (Inr cm)" and "list_all dim_wf (dims tg)"
    and "\<And>o1. cr_ordinal reg (cube_name tg) = Some o1 \<Longrightarrow> cr_cube reg o1 = Some tg"
    and "reg_cube R = cr_cube reg"
  shows "model_ok R tg cm \<and> length (rules cm) = length doc \<and>
     (\<forall>r \<in> set (rules cm). \<forall>i < rank tg. predicate_ok (dims tg ! i) (per_dim (area r) ! i))"
proof -
  obtain o1 crs where h: "cr_ordinal reg (cube_name tg) = Some o1" "compile_rules tg reg o1 doc = Inr crs"
    "cm = \<lparr>version = ver, rules = crs\<rparr>"
    using assms(1) by (auto simp: compile_doc_def split: option.splits)
  from compile_rules_ok [OF assms(3) [OF h(1)] assms(4,2) h(2)] show ?thesis
    by (simp add: h(3) model_ok_def)
qed

text \<open>C16: The compiled area of a rule matches a coordinate exactly when every constrained dimension
  has a member its selector names (the element, the immediate children, the descendants, the
  leaves, the consolidated members, all members, or those whose attribute compares) and every
  other dimension a leaf, or a consolidated member under a \<open>C:\<close> marker.\<close>

theorem compiled_area_matches_selection:
  assumes "compile_area c a = Inr ca" and "distinct (map sel_dimension (selectors a))"
    and "list_all dim_wf (dims c)" and "in_range (dims c) k"
  shows "area_matches ca c k = Some (area_selects c a k)"
proof -
  obtain preds where p: "area_loop c (selectors a) (replicate (rank c) AnyMember) = Inr preds"
    "ca = \<lparr>per_dim = preds, area_consolidated = targets_consolidated (area_scope a)\<rparr>"
    using assms(1) by (auto simp: compile_area_def)
  have len: "length preds = rank c" using compile_area_ok [OF assms(1,3)] by (simp add: p(2))
  have k: "length k = rank c" "\<And>i. i < rank c \<Longrightarrow> k ! i < length (elements (dims c ! i))"
    using assms(4) by (auto simp: in_range_nth rank_def)
  let ?b = "targets_consolidated (area_scope a)"
  have "pred_holds ?b (dims c ! i) (preds ! i) (k ! i) \<longleftrightarrow>
      (case List.find (\<lambda>s. dim_position c (sel_dimension s) = Some i) (selectors a) of
        Some s \<Rightarrow> k ! i \<in> members (dims c ! i) (sel_kind s)
      | None \<Rightarrow> is_leaf (el_kind (elements (dims c ! i) ! (k ! i))) \<noteq> ?b)" if i: "i < rank c" for i
  proof -
    have wf: "dim_wf (dims c ! i)" using assms(3) i by (simp add: list_all_length rank_def)
    from area_loop_nth [OF p(1) assms(2) _ i] k(2) [OF i] i show ?thesis
      by (auto simp: pred_holds_def resolve_selector_facts(1) [OF wf] split: option.splits)
  qed
  then have "(\<forall>j < rank c. pred_holds ?b (dims c ! j) (preds ! j) (k ! j)) = area_selects c a k"
    by (simp add: area_selects_def)
  with preds_match_holds [of preds k 0 c ?b] len k(1) show ?thesis
    by (simp add: area_matches_def p(2))
qed

text \<open>The rule \<open>['Region': {children of 'All'}] = value['Region':'A'] * 2\<close> on the sample sheet.\<close>

definition sample_span :: span where "sample_span = \<lparr>span_start = 0, span_end = 0\<rparr>"

definition sample_area :: Rule_Ast.area where
  "sample_area = \<lparr>area_scope = Unmarked,
     selectors = [\<lparr>sel_dimension = ''Region'', sel_kind = SelChildren ''All'', sel_span = sample_span\<rparr>]\<rparr>"

definition sample_doc :: rule_doc where
  "sample_doc = [\<lparr>rule_area = sample_area,
     formula = EBin Mul (ECell \<lparr>ref_cube = None, overrides = [\<lparr>ov_dimension = ''Region'', ov_member = MemElement ''A''\<rparr>],
       mapping = [], ref_span = sample_span\<rparr>) (ENumber ''2''), rule_span = sample_span\<rparr>]"

lemma sample_compile_area:
  "compile_area sample_sheet sample_area = Inr \<lparr>per_dim = [OneOf [1, 2, 3]], area_consolidated = False\<rparr>"
  by (simp add: compile_area_def sample_area_def dim_position_def resolve_selector_def resolve_member_def
      resolve_def index_of_def sample_region_eval edge_children_def dim_edges_def targets_consolidated_def
      as_u32_def sample_span_def)

lemma sample_compile_doc:
  "compile_doc sample_sheet (single_cube sample_sheet) sample_doc 1 = Some (Inr \<lparr>version = 1, rules = [\<lparr>area =
     \<lparr>per_dim = [OneOf [1, 2, 3]], area_consolidated = False\<rparr>,
     cexpr = CBin Mul (CCell \<lparr>cell_cube = 0, addr = [Pinned 1]\<rparr>) (CNum 20000), crule_span = sample_span\<rparr>]\<rparr>)"
proof -
  have n: "from_str ''2'' = Inr 20000"
  proof -
    have "display 20000 = ''2''" using chr_byte [of "CHR ''2''"]
      by (simp add: display_def SCALE_def Let_def dec.simps digit_def byte_def)
    then show ?thesis using from_str_display_eq [of 20000] by (simp add: in_i64_def i64_min_def i64_max_def)
  qed
  show ?thesis
    by (simp add: compile_doc_def single_cube_def sample_doc_def sample_compile_area n lower_cell_def lower_slot_def
        dim_position_def resolve_def index_of_def sample_region_eval)
qed

theorem compiled_rules_well_formed_witness:
  "\<exists>cm. compile_doc sample_sheet (single_cube sample_sheet) sample_doc 1 = Some (Inr cm) \<and>
     model_ok (sample_registry\<lparr>reg_cube := cr_cube (single_cube sample_sheet)\<rparr>) sample_sheet cm"
proof -
  let ?R = "sample_registry\<lparr>reg_cube := cr_cube (single_cube sample_sheet)\<rparr>"
  have "\<And>o1. cr_ordinal (single_cube sample_sheet) (cube_name sample_sheet) = Some o1 \<Longrightarrow>
      cr_cube (single_cube sample_sheet) o1 = Some sample_sheet" by (auto simp: single_cube_def)
  moreover have "list_all dim_wf (dims sample_sheet)" "reg_cube ?R = cr_cube (single_cube sample_sheet)" by simp_all
  ultimately show ?thesis
    using conjunct1 [OF compiled_rules_well_formed [OF sample_compile_doc, where R = ?R]] sample_compile_doc by blast
qed

theorem compiled_area_matches_selection_witness:
  "area_matches \<lparr>per_dim = [OneOf [1, 2, 3]], area_consolidated = False\<rparr> sample_sheet [2] =
     Some (area_selects sample_sheet sample_area [2])"
  by (rule compiled_area_matches_selection [OF sample_compile_area]) (simp_all add: sample_area_def)

end
