(* ===== verification/Error_Text.thy ===== *)
theory Error_Text
  imports Rust_String Model_Error
begin

text \<open>
  The messages of the core errors (\<open>impl Display for ModelError\<close> in
  \<open>crates/epiphany-core/src/error.rs\<close>). \<open>IndexPanic\<close> is not an error value and has none.
\<close>

definition quoted :: "string \<Rightarrow> string" where
  "quoted s = CHR 0x27 # s @ [CHR 0x27]"

fun display_model_error :: "model_error \<Rightarrow> string" where
  "display_model_error (ElementNotFound d e) =
     ''element '' @ quoted e @ '' not found in dimension '' @ quoted d"
| "display_model_error (ElementIndexOutOfRange d i n) =
     ''element index '' @ dec i @ '' out of range for dimension '' @ quoted d @ '' (len ''
       @ dec n @ '')''"
| "display_model_error (RankMismatch x g) =
     ''coordinate has '' @ dec g @ '' components but the cube has '' @ dec x @ '' dimensions''"
| "display_model_error (WriteToNonLeaf d e) =
     ''cannot write to non-leaf element '' @ quoted e @ '' in dimension '' @ quoted d"
| "display_model_error (CycleDetected d p ch) =
     ''adding '' @ quoted ch @ '' under '' @ quoted p @ '' would create a cycle in dimension ''
       @ quoted d"
| "display_model_error (ParentNotConsolidated d e) =
     ''element '' @ quoted e @ '' in dimension '' @ quoted d
       @ '' is not consolidated and cannot have children''"
| "display_model_error Overflow = ''fixed-point arithmetic overflow''"
| "display_model_error (CellsetTooLarge n lim) =
     ''the query addresses '' @ dec n @ '' cells, exceeding the '' @ dec lim
       @ ''-cell limit; reduce the axis member counts''"
| "display_model_error EmptyCube = ''a cube must have at least one dimension''"
| "display_model_error (InvalidNumber t) = ''invalid number: '' @ quoted t"
| "display_model_error (AttributeNotFound d a) =
     ''attribute '' @ quoted a @ '' is not defined on dimension '' @ quoted d"
| "display_model_error (AttributeTypeMismatch d a) =
     ''value for attribute '' @ quoted a @ '' on dimension '' @ quoted d
       @ '' does not match its kind''"
| "display_model_error (AttributeKindConflict d a) =
     ''attribute '' @ quoted a @ '' already exists on dimension '' @ quoted d
       @ '' with a different kind''"
| "display_model_error (AliasConflict d al) =
     ''alias '' @ quoted al @ '' is assigned to more than one element in dimension '' @ quoted d"
| "display_model_error (CellTypeMismatch d e) =
     ''cannot write a numeric value to string-typed element '' @ quoted e @ '' in dimension ''
       @ quoted d"
| "display_model_error (StringCellRequiresStringElement c) =
     ''a string cell in cube '' @ quoted c @ '' must address a string element''"
| "display_model_error (UnknownDimension c d) =
     ''cube '' @ quoted c @ '' has no dimension '' @ quoted d"
| "display_model_error (DuplicateDimension d) =
     ''dimension '' @ quoted d @ '' is declared more than once''"
| "display_model_error (ElementKindConflict d e) =
     ''element '' @ quoted e @ '' already exists in dimension '' @ quoted d
       @ '' with a different kind''"
| "display_model_error (EdgeWeightConflict d p ch) =
     ''edge '' @ quoted p @ '' -> '' @ quoted ch @ '' already exists in dimension '' @ quoted d
       @ '' with a different weight''"
| "display_model_error (InvalidReorder d) =
     ''the new order is not an exact permutation of dimension '' @ quoted d"
| "display_model_error (SelfParent d e) =
     ''element '' @ quoted e @ '' in dimension '' @ quoted d @ '' cannot be its own parent''"
| "display_model_error (ConsolidationHasChildren d e) =
     ''element '' @ quoted e @ '' in dimension '' @ quoted d
       @ '' still has children; detach or delete them first''"
| "display_model_error (DuplicateElement d e) =
     ''element '' @ quoted e @ '' already exists in dimension '' @ quoted d"
| "display_model_error IndexPanic = []"

end
