(* ===== verification/Feeders.thy ===== *)
theory Feeders
  imports Calc_Properties Calc_Compile Btree_Map Error_Text
begin

text \<open>
  Feeders (\<open>crates/epiphany-calc/src/feeders.rs\<close>) and the licence of the sparse read
  (\<open>crates/epiphany-api/src/calc_factory.rs\<close>). A feeder marks a leaf a rule may make non-zero.
  \<open>infer_feeders\<close> derives the fed leaves of a cube from its compiled rules, by rounds over the
  target leaves until nothing is added; \<open>validate_feeders\<close> compares them with the values the rules
  have; \<open>safe_fed_set\<close> hands the fed set to the consolidating read only when that comparison
  finds nothing amiss.

  \<open>None\<close> is a panic (an index out of range) or, where there is fuel, its end. One engine, with one
  memo, serves a whole validation; the fuel bounds the depth of its reads.
\<close>

section \<open>The walk over a product of lists\<close>

text \<open>\<open>CoordWalk\<close>: the positions of the next coordinate. The odometer turns the last dimension
  fastest; the loop variable counts the dimensions still to the left.\<close>

fun walk_step :: "nat list list \<Rightarrow> nat \<Rightarrow> nat list \<Rightarrow> nat list option" where
  "walk_step dss 0 pos = None"
| "walk_step dss (Suc d) pos =
     (let pos' = pos[d := pos ! d + 1] in
      if pos' ! d < length (dss ! d) then Some pos' else walk_step dss d (pos'[d := 0]))"

definition walk_new :: "nat list list \<Rightarrow> nat list option" where
  "walk_new dss = (if [] \<in> set dss then None else Some (replicate (length dss) 0))"

definition next_coord :: "nat list list \<Rightarrow> nat list option \<Rightarrow> (coord \<times> nat list option) option" where
  "next_coord dss st =
     (case st of
        None \<Rightarrow> None
      | Some pos \<Rightarrow>
          Some (map (\<lambda>(p, dim). dim ! p) (zip pos dss), walk_step dss (length dss) pos))"

text \<open>The positions left in a walk, read as a number in the mixed radix of the lists.\<close>

fun walked :: "nat list list \<Rightarrow> nat list \<Rightarrow> nat" where
  "walked (ds # dss) (p # ps) = p * prod_list (map length dss) + walked dss ps"
| "walked _ _ = 0"

definition walk_pos_ok :: "nat list list \<Rightarrow> nat list \<Rightarrow> bool" where
  "walk_pos_ok dss pos \<longleftrightarrow> list_all2 (\<lambda>dim p. p < length dim) dss pos"

text \<open>A turn of the odometer is the successor in that radix.\<close>

lemma walk_step_cons:
  assumes "length ps = length ds" and "n \<le> length ds"
  shows "walk_step (d # ds) (Suc n) (p # ps) =
     (case walk_step ds n ps of
        Some ps' \<Rightarrow> Some (p # ps')
      | None \<Rightarrow> if p + 1 < length d then Some (Suc p # replicate n 0 @ drop n ps) else None)"
  using assms
proof (induction n arbitrary: ps)
  case (Suc n)
  let ?ps = "ps[n := 0]"
  have dr: "replicate n 0 @ drop n ?ps = replicate (Suc n) 0 @ drop (Suc n) ps"
    using Suc.prems Cons_nth_drop_Suc [of n ?ps, symmetric] by (simp add: replicate_app_Cons_same)
  have step: "walk_step (d # ds) (Suc (Suc n)) (p # ps) =
      (if ps ! n + 1 < length (ds ! n) then Some (p # ps[n := ps ! n + 1]) else walk_step (d # ds) (Suc n) (p # ?ps))"
    using Suc.prems by (simp only: walk_step.simps(2) [of _ "Suc n"] Let_def nth_Cons_Suc list_update.simps nat.case) simp
  have IH: "walk_step (d # ds) (Suc n) (p # ?ps) =
     (case walk_step ds n ?ps of
        Some ps' \<Rightarrow> Some (p # ps')
      | None \<Rightarrow> if p + 1 < length d then Some (Suc p # replicate (Suc n) 0 @ drop (Suc n) ps) else None)"
    using Suc.IH [of ?ps] Suc.prems unfolding dr by (simp del: walk_step.simps)
  have tl: "walk_step ds (Suc n) ps = (if ps ! n + 1 < length (ds ! n) then Some (ps[n := ps ! n + 1]) else walk_step ds n ?ps)"
    using Suc.prems by (simp add: Let_def)
  show ?case unfolding step IH tl by (cases "ps ! n + 1 < length (ds ! n)") simp_all
qed simp

lemma walk_step_simps:
  assumes "length ps = length ds"
  shows "walk_step (d # ds) (length (d # ds)) (p # ps) =
     (case walk_step ds (length ds) ps of
        Some ps' \<Rightarrow> Some (p # ps')
      | None \<Rightarrow> if p + 1 < length d then Some (Suc p # replicate (length ds) 0) else None)"
  using walk_step_cons [OF assms le_refl, of d p] assms
  by (simp del: walk_step.simps split: option.split)

lemma walked_bound: "walk_pos_ok ds ps \<Longrightarrow> walked ds ps < prod_list (map length ds)"
proof (induction ds ps rule: walked.induct)
  case (1 d ds p ps)
  then have "p + 1 \<le> length d" "walked ds ps < prod_list (map length ds)" by (auto simp: walk_pos_ok_def)
  then have "(p + 1) * prod_list (map length ds) \<le> length d * prod_list (map length ds)"
    by (intro mult_le_mono1)
  then have "p * prod_list (map length ds) + prod_list (map length ds) \<le> length d * prod_list (map length ds)"
    by (simp add: add_mult_distrib)
  with \<open>walked ds ps < _\<close> show ?case by simp
qed (auto simp: walk_pos_ok_def)

lemma walked_zero: "walked ds (replicate (length ds) 0) = 0"
  by (induction ds) simp_all

lemma walk_ok_zero: "[] \<notin> set ds \<Longrightarrow> walk_pos_ok ds (replicate (length ds) 0)"
  by (induction ds) (auto simp: walk_pos_ok_def)

lemma walk_step_spec:
  assumes "walk_pos_ok ds ps"
  shows "case walk_step ds (length ds) ps of
     None \<Rightarrow> walked ds ps + 1 = prod_list (map length ds)
   | Some ps' \<Rightarrow> walk_pos_ok ds ps' \<and> walked ds ps' = walked ds ps + 1"
  using assms
proof (induction ds arbitrary: ps)
  case Nil
  then show ?case by (simp add: walk_pos_ok_def)
next
  case (Cons d ds)
  then obtain p ps1 where ps: "ps = p # ps1" "p < length d" "walk_pos_ok ds ps1"
    by (cases ps) (auto simp: walk_pos_ok_def)
  then have len: "length ps1 = length ds" by (auto simp: walk_pos_ok_def dest: list_all2_lengthD)
  have ne: "[] \<notin> set ds" using ps(3) by (auto simp: walk_pos_ok_def list_all2_conv_all_nth in_set_conv_nth)
  note st = walk_step_simps [OF len, of d p] and IH = Cons.IH [OF ps(3)]
  show ?case
  proof (cases "walk_step ds (length ds) ps1")
    case (Some ps')
    with st IH ps show ?thesis by (auto simp: walk_pos_ok_def simp del: walk_step.simps)
  next
    case None
    then have w: "prod_list (map length ds) = walked ds ps1 + 1" using IH by simp
    show ?thesis
    proof (cases "p + 1 < length d")
      case True
      then have "walk_step (d # ds) (length (d # ds)) ps = Some (Suc p # replicate (length ds) 0)"
        using st None len ps(1) by (simp del: walk_step.simps)
      then show ?thesis using True walk_ok_zero [OF ne] walked_zero [of ds] w
        by (simp add: ps(1) walk_pos_ok_def del: walk_step.simps)
    next
      case False
      then have "length d = Suc p" using ps(2) by simp
      with False st None w show ?thesis by (simp add: ps(1) del: walk_step.simps)
    qed
  qed
qed

text \<open>The coordinates a whole walk yields, as the \<open>while walk.next_coord\<close> loops see them. A
  position list no walk has ends it.\<close>

function walk_from :: "nat list list \<Rightarrow> nat list option \<Rightarrow> coord list" where
  "walk_from dss st =
     (case next_coord dss st of
        None \<Rightarrow> []
      | Some (k, st') \<Rightarrow>
          if (case st of None \<Rightarrow> False | Some pos \<Rightarrow> walk_pos_ok dss pos)
          then k # walk_from dss st' else [])"
  by pat_completeness auto
termination
proof (relation "measure (\<lambda>(ds, w). case w of None \<Rightarrow> 0 | Some pos \<Rightarrow> prod_list (map length ds) - walked ds pos)")
  fix ds w x k w'
  assume n: "next_coord ds w = Some x" "(k, w') = x"
    and ok: "case w of None \<Rightarrow> False | Some pos \<Rightarrow> walk_pos_ok ds pos"
  then obtain pos where pos: "w = Some pos" "walk_pos_ok ds pos" "w' = walk_step ds (length ds) pos"
    by (auto simp: next_coord_def split: option.splits)
  from walked_bound [OF pos(2)] walk_step_spec [OF pos(2)]
  show "((ds, w'), ds, w) \<in> measure (\<lambda>(ds, w). case w of None \<Rightarrow> 0 | Some pos \<Rightarrow> prod_list (map length ds) - walked ds pos)"
    by (auto simp: pos split: option.splits)
qed simp

declare walk_from.simps [simp del]

definition walk_coords :: "nat list list \<Rightarrow> coord list" where
  "walk_coords dss = walk_from dss (walk_new dss)"

lemma concat_block_nth:
  "\<forall>xs \<in> set xss. length xs = L \<Longrightarrow> p < length xss \<Longrightarrow> w < L \<Longrightarrow> concat xss ! (p * L + w) = xss ! p ! w"
proof (induction xss arbitrary: p)
  case (Cons xs xss)
  then show ?case by (cases p) (simp_all add: nth_append)
qed simp

lemma length_product: "length (product_lists dss) = prod_list (map length dss)"
  by (induction dss) (simp_all add: length_concat comp_def sum_list_triv)

lemma product_nth:
  "walk_pos_ok dss pos \<Longrightarrow> product_lists dss ! walked dss pos = map (\<lambda>(p, ds). ds ! p) (zip pos dss)"
proof (induction dss pos rule: walked.induct)
  case (1 ds dss p ps)
  then have "p < length ds" "walk_pos_ok dss ps" by (auto simp: walk_pos_ok_def)
  with 1 walked_bound [OF this(2)]
    concat_block_nth [of "map (\<lambda>x. map (Cons x) (product_lists dss)) ds" "prod_list (map length dss)" p "walked dss ps"]
  show ?case by (simp add: length_product)
qed (auto simp: walk_pos_ok_def)

lemma walk_from_spec:
  "walk_from dss st = (case st of None \<Rightarrow> [] | Some pos \<Rightarrow>
     if walk_pos_ok dss pos then drop (walked dss pos) (product_lists dss) else [])"
proof (induction dss st rule: walk_from.induct)
  case (1 dss st)
  show ?case
  proof (cases st)
    case None
    then show ?thesis by (simp add: None walk_from.simps [of dss None] next_coord_def)
  next
    case (Some pos)
    show ?thesis
    proof (cases "walk_pos_ok dss pos")
      case True
      let ?st' = "walk_step dss (length dss) pos"
      have dr: "drop (walked dss pos) (product_lists dss)
          = map (\<lambda>(p, ds). ds ! p) (zip pos dss) # drop (Suc (walked dss pos)) (product_lists dss)"
        using walked_bound [OF True] product_nth [OF True] Cons_nth_drop_Suc [of "walked dss pos" "product_lists dss"]
        by (simp add: length_product)
      have "walk_from dss ?st' = drop (Suc (walked dss pos)) (product_lists dss)"
        using 1 [OF _ refl, of "map (\<lambda>(p, ds). ds ! p) (zip pos dss)" ?st'] Some True walk_step_spec [OF True]
        by (auto simp: next_coord_def length_product split: option.splits)
      then show ?thesis using Some True
        by (simp add: walk_from.simps [of dss "Some pos"] next_coord_def dr)
    qed (simp add: Some walk_from.simps [of dss "Some pos"] next_coord_def)
  qed
qed

text \<open>A walk yields the whole product, each coordinate once, in lexicographic order of positions.\<close>

lemma walk_coords_product: "walk_coords dss = product_lists dss"
proof (cases "[] \<in> set dss")
  case True
  then have "prod_list (map length dss) = 0" by (induction dss) auto
  with True show ?thesis using length_product [of dss] by (simp add: walk_coords_def walk_new_def walk_from_spec)
qed (simp add: walk_coords_def walk_new_def walk_from_spec walk_ok_zero walked_zero)

lemma set_walk_coords: "set (walk_coords dss) = {k. list_all2 (\<lambda>i ds. i \<in> set ds) k dss}"
  by (simp add: walk_coords_product product_lists_set)

section \<open>The feeder index and the result of inference\<close>

text \<open>A \<open>BTreeSet\<close> of coordinates, in ascending order.\<close>

type_synonym feeder_index = "coord list"

definition feeder_insert :: "coord \<Rightarrow> feeder_index \<Rightarrow> feeder_index" where
  "feeder_insert k idx = insort_insert k idx"

record opaque_rule =
  opq_rule :: nat
  opq_reason :: string

record feeder_inference =
  inf_index :: feeder_index
  inf_opaque :: "opaque_rule list"

record analyzable =
  target_dims :: "nat list list"
  an_inputs :: "ccell list"
  an_base :: bool

section \<open>Analysis of a rule\<close>

fun base_potent :: "cexpr \<Rightarrow> nat \<Rightarrow> bool" where
  "base_potent (CNum n) target_ordinal = (n \<noteq> 0)"
| "base_potent (CAttrNum d a) target_ordinal = True"
| "base_potent (CCell c) target_ordinal = (cell_cube c \<noteq> target_ordinal)"
| "base_potent CUndef target_ordinal = False"
| "base_potent (CNeg e) target_ordinal = base_potent e target_ordinal"
| "base_potent (CBin p l r) target_ordinal =
     (case p of
        Add \<Rightarrow> base_potent l target_ordinal \<or> base_potent r target_ordinal
      | Sub \<Rightarrow> base_potent l target_ordinal \<or> base_potent r target_ordinal
      | Mul \<Rightarrow> base_potent l target_ordinal \<and> base_potent r target_ordinal
      | Div \<Rightarrow> base_potent l target_ordinal)"
| "base_potent (CIf q t None) target_ordinal = base_potent t target_ordinal"
| "base_potent (CIf q t (Some f)) target_ordinal = (base_potent t target_ordinal \<or> base_potent f target_ordinal)"

fun collect_cells :: "cexpr \<Rightarrow> ccell list" where
  "collect_cells (CCell c) = [c]"
| "collect_cells (CNeg e) = collect_cells e"
| "collect_cells (CBin p l r) = collect_cells l @ collect_cells r"
| "collect_cells (CIf q t None) = collect_cells t"
| "collect_cells (CIf q t (Some f)) = collect_cells t @ collect_cells f"
| "collect_cells (CNum n) = []"
| "collect_cells (CAttrNum d a) = []"
| "collect_cells CUndef = []"

fun leaf_members :: "dimension \<Rightarrow> dim_predicate \<Rightarrow> nat list" where
  "leaf_members d AnyMember = filter (kind_selected d True) [0..<dim_len d]"
| "leaf_members d (OneOf s) = filter (kind_selected d True) s"

text \<open>\<open>area.per_dim[d]\<close> panics when the area has fewer dimensions than the cube.\<close>

fun area_leaf_dims :: "dimension list \<Rightarrow> dim_predicate list \<Rightarrow> nat list list option" where
  "area_leaf_dims [] ps = Some []"
| "area_leaf_dims (d # ds) [] = None"
| "area_leaf_dims (d # ds) (p # ps) = map_option (Cons (leaf_members d p)) (area_leaf_dims ds ps)"

definition only_cross_cube :: string where
  "only_cross_cube = ''only cross-cube inputs; feeders cannot be localized''"

text \<open>The classification loop of \<open>infer_feeders\<close> from rule \<open>i\<close> on.\<close>

fun classify_rules :: "cube \<Rightarrow> nat \<Rightarrow> nat \<Rightarrow> compiled_rule list \<Rightarrow> (analyzable list \<times> opaque_rule list) option" where
  "classify_rules c target_ordinal i [] = Some ([], [])"
| "classify_rules c target_ordinal i (r # rs) =
     (case area_leaf_dims (dims c) (per_dim (area r)) of
        None \<Rightarrow> None
      | Some tds \<Rightarrow>
          let cs = collect_cells (cexpr r);
              ins = filter (\<lambda>x. cell_cube x = target_ordinal) cs;
              bp = base_potent (cexpr r) target_ordinal
          in map_option (\<lambda>(as, os).
               if [] \<in> set tds then (as, os)
               else if ins \<noteq> [] then (\<lparr>target_dims = tds, an_inputs = ins, an_base = bp\<rparr> # as, os)
               else if \<exists>x \<in> set cs. cell_cube x \<noteq> target_ordinal
                 then (as, \<lparr>opq_rule = i, opq_reason = only_cross_cube\<rparr> # os)
               else if bp then (\<lparr>target_dims = tds, an_inputs = [], an_base = True\<rparr> # as, os)
               else (as, os))
             (classify_rules c target_ordinal (i + 1) rs))"

section \<open>Inputs\<close>

definition INPUT_EXPANSION_CAP :: nat where "INPUT_EXPANSION_CAP = 4096"

fun checked_product :: "nat list list \<Rightarrow> nat \<Rightarrow> nat option" where
  "checked_product [] tot = Some tot"
| "checked_product (ds # dss) tot = Option.bind (checked_usize (tot * length ds)) (checked_product dss)"

text \<open>\<open>any\<close> over a test that may panic: it stops at the first hit.\<close>

fun any_opt :: "('a \<Rightarrow> bool option) \<Rightarrow> 'a list \<Rightarrow> bool option" where
  "any_opt P [] = Some False"
| "any_opt P (x # xs) = (case P x of None \<Rightarrow> None | Some b \<Rightarrow> if b then Some True else any_opt P xs)"

fun mixed_at :: "nat list list \<Rightarrow> nat \<Rightarrow> coord" where
  "mixed_at [] rem = []"
| "mixed_at (ds # dss) rem = ds ! (rem mod length ds) # mixed_at dss (rem div length ds)"

definition cartesian_any :: "nat list list \<Rightarrow> (coord \<Rightarrow> bool option) \<Rightarrow> bool option" where
  "cartesian_any dss P = any_opt P (map (mixed_at dss) [0..<prod_list (map length dss)])"

text \<open>The element and the contributing leaves of every slot; the inner \<open>None\<close> is the early
  \<open>return false\<close> of a dimension with no leaf.\<close>

fun input_leaves :: "cube \<Rightarrow> nat \<Rightarrow> addr_slot list \<Rightarrow> coord \<Rightarrow> (coord \<times> nat list list) option option" where
  "input_leaves c d [] target = Some (Some ([], []))"
| "input_leaves c d (s # ss) target =
     (let i = (case s of Pinned p \<Rightarrow> p | FromTarget _ \<Rightarrow> target ! d) in
      case nth_dim c d of
        None \<Rightarrow> None
      | Some dm \<Rightarrow>
          case leaf_weights dm i of
            Inl _ \<Rightarrow> Some None
          | Inr lw \<Rightarrow>
              if lw = [] then Some None
              else map_option (map_option (\<lambda>(is, dss). (i # is, map fst lw # dss)))
                     (input_leaves c (d + 1) ss target))"

definition input_potent ::
    "cube \<Rightarrow> compiled_model \<Rightarrow> compiled_area list \<Rightarrow> ccell \<Rightarrow> coord \<Rightarrow> coord set \<Rightarrow> bool option" where
  "input_potent c cm opaque_areas cell target potent =
     (if length (addr cell) \<noteq> length target then Some False
      else case input_leaves c 0 (addr cell) target of
        None \<Rightarrow> None
      | Some None \<Rightarrow> Some False
      | Some (Some (element_coord, dss)) \<Rightarrow>
          let consolidated = list_ex (\<lambda>(d, i). kind_selected d False i) (zip (dims c) element_coord) in
          case (if consolidated then matching_rule cm c element_coord else Some None) of
            None \<Rightarrow> None
          | Some (Some _) \<Rightarrow> Some True
          | Some None \<Rightarrow>
              case checked_product dss 1 of
                None \<Rightarrow> Some True
              | Some tot \<Rightarrow>
                  if tot \<le> INPUT_EXPANSION_CAP
                  then cartesian_any dss (\<lambda>k.
                    if k \<in> potent then Some True else any_opt (\<lambda>a. area_matches a c k) opaque_areas)
                  else Some True)"

section \<open>The rounds of inference\<close>

definition feeds ::
    "cube \<Rightarrow> compiled_model \<Rightarrow> compiled_area list \<Rightarrow> analyzable \<Rightarrow> coord \<Rightarrow> coord set \<Rightarrow> bool option" where
  "feeds c cm opaque_areas a target potent =
     (if an_base a then Some True
      else any_opt (\<lambda>cell. input_potent c cm opaque_areas cell target potent) (an_inputs a))"

text \<open>The state of a round: the index, the potent leaves and whether something was added.\<close>

type_synonym feed_state = "feeder_index \<times> coord set \<times> bool"

fun feed_targets ::
    "cube \<Rightarrow> compiled_model \<Rightarrow> compiled_area list \<Rightarrow> analyzable \<Rightarrow> coord list \<Rightarrow> feed_state \<Rightarrow> feed_state option" where
  "feed_targets c cm opaque_areas a [] st = Some st"
| "feed_targets c cm opaque_areas a (k # ks) (idx, potent, changed) =
     (if k \<in> set idx then feed_targets c cm opaque_areas a ks (idx, potent, changed)
      else case feeds c cm opaque_areas a k potent of
        None \<Rightarrow> None
      | Some feed \<Rightarrow>
          feed_targets c cm opaque_areas a ks
            (if feed then (feeder_insert k idx, insert k potent, True) else (idx, potent, changed)))"

fun feed_round ::
    "cube \<Rightarrow> compiled_model \<Rightarrow> compiled_area list \<Rightarrow> analyzable list \<Rightarrow> feed_state \<Rightarrow> feed_state option" where
  "feed_round c cm opaque_areas [] st = Some st"
| "feed_round c cm opaque_areas (a # as) st =
     Option.bind (feed_targets c cm opaque_areas a (walk_coords (target_dims a)) st)
       (feed_round c cm opaque_areas as)"

lemma set_feeder_insert [simp]: "set (feeder_insert k idx) = insert k (set idx)"
  by (simp add: feeder_insert_def set_insort_insert)

definition all_targets :: "analyzable list \<Rightarrow> coord set" where
  "all_targets as = (\<Union>a \<in> set as. set (walk_coords (target_dims a)))"

lemma feed_targets_spec:
  "feed_targets c cm os a ks (idx, potent, ch) = Some (idx', potent', ch') \<Longrightarrow>
     set idx \<subseteq> set idx' \<and> set idx' \<subseteq> set idx \<union> set ks \<and> potent' = potent \<union> (set idx' - set idx) \<and> (ch \<longrightarrow> ch') \<and>
     (ch' \<longrightarrow> ch \<or> set idx \<subset> set idx') \<and>
     (\<not> ch' \<longrightarrow> idx' = idx \<and> (\<forall>k \<in> set ks. k \<in> set idx \<or> feeds c cm os a k potent = Some False))"
proof (induction ks arbitrary: idx potent ch)
  case (Cons k ks)
  show ?case
  proof (cases "k \<in> set idx \<or> feeds c cm os a k potent = Some False")
    case True
    then have "feed_targets c cm os a ks (idx, potent, ch) = Some (idx', potent', ch')"
      using Cons.prems by (auto split: if_splits)
    from Cons.IH [OF this] True show ?thesis by auto
  next
    case False
    then have "feed_targets c cm os a ks (feeder_insert k idx, insert k potent, True) = Some (idx', potent', ch')"
      using Cons.prems by (auto split: option.splits if_splits)
    from Cons.IH [OF this] False show ?thesis by auto
  qed
qed auto

lemma feed_round_spec:
  "feed_round c cm os as (idx, potent, ch) = Some (idx', potent', ch') \<Longrightarrow>
     set idx \<subseteq> set idx' \<and> set idx' \<subseteq> set idx \<union> all_targets as \<and> potent' = potent \<union> (set idx' - set idx) \<and>
     (ch \<longrightarrow> ch') \<and> (ch' \<longrightarrow> ch \<or> set idx \<subset> set idx') \<and>
     (\<not> ch' \<longrightarrow> idx' = idx \<and> (\<forall>a \<in> set as. \<forall>k \<in> set (walk_coords (target_dims a)).
        k \<in> set idx \<or> feeds c cm os a k potent = Some False))"
proof (induction as arbitrary: idx potent ch)
  case (Cons a as)
  from Cons.prems obtain idx1 potent1 ch1 where
    h: "feed_targets c cm os a (walk_coords (target_dims a)) (idx, potent, ch) = Some (idx1, potent1, ch1)"
       "feed_round c cm os as (idx1, potent1, ch1) = Some (idx', potent', ch')"
    by (cases "feed_targets c cm os a (walk_coords (target_dims a)) (idx, potent, ch)") auto
  note A = feed_targets_spec [OF h(1)] and B = Cons.IH [OF h(2)]
  have "\<not> ch' \<Longrightarrow> idx1 = idx \<and> potent1 = potent" using A B by auto
  with A B show ?case by (auto simp: all_targets_def)
qed (auto simp: all_targets_def)

text \<open>Each round that goes on adds a target, and there are finitely many.\<close>

function feed_fixpoint ::
    "cube \<Rightarrow> compiled_model \<Rightarrow> compiled_area list \<Rightarrow> analyzable list \<Rightarrow> feeder_index \<Rightarrow> coord set \<Rightarrow> feeder_index option" where
  "feed_fixpoint c cm opaque_areas as idx potent =
     (case feed_round c cm opaque_areas as (idx, potent, False) of
        None \<Rightarrow> None
      | Some (idx', potent', changed) \<Rightarrow>
          if changed then feed_fixpoint c cm opaque_areas as idx' potent' else Some idx')"
  by pat_completeness auto
termination
proof (relation "measure (\<lambda>(c, cm, os, as, idx, potent). card (all_targets as - set idx))")
  fix c cm os as idx potent x idx' y potent' changed
  assume "feed_round c cm os as (idx, potent, False) = Some x" "(idx', y) = x" "(potent', changed) = y" changed
  then have r: "feed_round c cm os as (idx, potent, False) = Some (idx', potent', True)" by auto
  from feed_round_spec [OF r] have "all_targets as - set idx' \<subset> all_targets as - set idx" by auto
  then show "((c, cm, os, as, idx', potent'), (c, cm, os, as, idx, potent)) \<in>
      measure (\<lambda>(c, cm, os, as, idx, potent). card (all_targets as - set idx))"
    by (simp add: psubset_card_mono all_targets_def)
qed simp

declare feed_fixpoint.simps [simp del]

definition infer_feeders :: "cube \<Rightarrow> compiled_model \<Rightarrow> nat \<Rightarrow> feeder_inference option" where
  "infer_feeders c cm target_ordinal =
     (case classify_rules c target_ordinal 0 (rules cm) of
        None \<Rightarrow> None
      | Some (as, os) \<Rightarrow>
          map_option (\<lambda>idx. \<lparr>inf_index = idx, inf_opaque = os\<rparr>)
            (feed_fixpoint c cm (map (\<lambda>o1. area (rules cm ! opq_rule o1)) os) as [] (fst ` set (cell_entries c))))"

section \<open>The text of an error\<close>

fun commas :: "nat list \<Rightarrow> string" where
  "commas [] = []"
| "commas [i] = dec i"
| "commas (i # j # is) = dec i @ '', '' @ commas (j # is)"

fun display_calc_error :: "calc_error \<Rightarrow> string" where
  "display_calc_error (Cycle cube coord) =
     ''rule cycle at coordinate ['' @ commas coord @ ''] in cube '' @ quoted cube"
| "display_calc_error DivByZero = ''division by zero in a rule''"
| "display_calc_error ArithOverflow = ''fixed-point overflow in a rule''"
| "display_calc_error (CalcUnknownCube n) = ''unknown cube ordinal '' @ dec n"
| "display_calc_error (RulesFailed cube err) = ''cube '' @ quoted cube @ '' rules fail to compile: '' @ err"
| "display_calc_error CalcAccessDenied = ''access denied''"
| "display_calc_error (CalcModel e) = display_model_error e"

section \<open>Validation\<close>

record feeder_diagnostics =
  under_fed :: "coord list"
  over_fed :: "coord list"
  erroring :: "(coord, string) btree"
  fed_cell_count :: nat
  over_fed_bytes :: nat

definition FED_CELL_BYTES :: nat where "FED_CELL_BYTES = 20"

definition is_clean :: "feeder_diagnostics \<Rightarrow> bool" where
  "is_clean diag \<longleftrightarrow> under_fed diag = []"

definition no_diagnostics :: feeder_diagnostics where
  "no_diagnostics = \<lparr>under_fed = [], over_fed = [], erroring = [], fed_cell_count = 0, over_fed_bytes = 0\<rparr>"

text \<open>An error is recorded for the first time a coordinate gives one.\<close>

definition record_error :: "coord \<Rightarrow> calc_error \<Rightarrow> (coord, string) btree \<Rightarrow> (coord, string) btree" where
  "record_error k e errs = (if map_of errs k = None then bt_insert k (display_calc_error e) errs else errs)"

text \<open>A pass over coordinates: those whose value fails the test are collected, in order.\<close>

type_synonym pass_state = "coord list \<times> (coord, string) btree \<times> memo"

fun check_pass ::
    "(fixed \<Rightarrow> coord \<Rightarrow> bool) \<Rightarrow> engine \<Rightarrow> nat \<Rightarrow> nat \<Rightarrow> coord list \<Rightarrow> pass_state \<Rightarrow> pass_state option" where
  "check_pass bad eng fuel ordinal [] st = Some st"
| "check_pass bad eng fuel ordinal (k # ks) (found, errs, m) =
     (case value_of eng fuel ordinal k m of
        None \<Rightarrow> None
      | Some (Inr v, m') \<Rightarrow>
          check_pass bad eng fuel ordinal ks (if bad v k then feeder_insert k found else found, errs, m')
      | Some (Inl e, m') \<Rightarrow> check_pass bad eng fuel ordinal ks (found, record_error k e errs, m'))"

fun check_rules ::
    "cube \<Rightarrow> engine \<Rightarrow> nat \<Rightarrow> nat \<Rightarrow> feeder_index \<Rightarrow> compiled_rule list \<Rightarrow> pass_state \<Rightarrow> pass_state option" where
  "check_rules c eng fuel ordinal idx [] st = Some st"
| "check_rules c eng fuel ordinal idx (r # rs) st =
     (case area_leaf_dims (dims c) (per_dim (area r)) of
        None \<Rightarrow> None
      | Some tds \<Rightarrow>
          Option.bind (check_pass (\<lambda>v k. v \<noteq> 0 \<and> k \<notin> set idx) eng fuel ordinal (walk_coords tds) st)
            (check_rules c eng fuel ordinal idx rs))"

definition validate_feeders ::
    "registry \<Rightarrow> nat \<Rightarrow> nat \<Rightarrow> feeder_index \<Rightarrow> (calc_error + feeder_diagnostics) option" where
  "validate_feeders reg fuel ordinal idx =
     (case reg_cube reg ordinal of
        None \<Rightarrow> Some (Inl (CalcUnknownCube ordinal))
      | Some c \<Rightarrow>
          case reg_compiled reg ordinal of
            None \<Rightarrow> Some (Inr no_diagnostics)
          | Some cm \<Rightarrow>
              let eng = engine_new reg in
              case check_rules c eng fuel ordinal idx (rules cm) ([], [], Map.empty) of
                None \<Rightarrow> None
              | Some (unfed, errs, m) \<Rightarrow>
                  case check_pass (\<lambda>v k. v = 0) eng fuel ordinal idx ([], errs, m) of
                    None \<Rightarrow> None
                  | Some (wasted, errs', m') \<Rightarrow>
                      Some (Inr \<lparr>under_fed = unfed, over_fed = wasted, erroring = errs',
                        fed_cell_count = length idx, over_fed_bytes = length wasted * FED_CELL_BYTES\<rparr>))"

section \<open>The gate\<close>

datatype fed_gate = Safe "coord list" | Dense string

definition safe_fed_set :: "registry \<Rightarrow> nat \<Rightarrow> nat \<Rightarrow> (calc_error + fed_gate) option" where
  "safe_fed_set reg fuel ordinal =
     (case reg_cube reg ordinal of
        None \<Rightarrow> Some (Inl (CalcUnknownCube ordinal))
      | Some c \<Rightarrow>
          case reg_compiled reg ordinal of
            None \<Rightarrow> Some (Inr (Dense ''no-model''))
          | Some cm \<Rightarrow>
              if rules cm = [] then Some (Inr (Safe []))
              else case infer_feeders c cm ordinal of
                None \<Rightarrow> None
              | Some inference \<Rightarrow>
                  if inf_opaque inference \<noteq> [] then Some (Inr (Dense ''opaque-rules''))
                  else case validate_feeders reg fuel ordinal (inf_index inference) of
                    None \<Rightarrow> None
                  | Some (Inl e) \<Rightarrow> Some (Inl e)
                  | Some (Inr diag) \<Rightarrow>
                      Some (Inr (if under_fed diag \<noteq> [] then Dense ''under-fed''
                                 else if erroring diag \<noteq> [] then Dense ''erroring''
                                 else Safe (inf_index inference))))"

text \<open>\<open>PinnedRegistry::from_snaps\<close>: the gate reads the registry with the sparse path off, and its
  answer is then the cube's licence; no licence when it errs, panics or runs out of fuel.\<close>

definition sparse_off :: "registry \<Rightarrow> registry" where
  "sparse_off reg = reg\<lparr>reg_fed_set := \<lambda>_. None\<rparr>"

definition licence :: "registry \<Rightarrow> nat \<Rightarrow> nat \<Rightarrow> coord list option" where
  "licence reg fuel ordinal =
     (case safe_fed_set (sparse_off reg) fuel ordinal of
        Some (Inr (Safe fed)) \<Rightarrow> Some fed
      | _ \<Rightarrow> None)"

definition licensed :: "registry \<Rightarrow> nat \<Rightarrow> registry" where
  "licensed reg fuel = reg\<lparr>reg_fed_set := licence reg fuel\<rparr>"

end
