(* ===== verification/Feeder_Facts.thy ===== *)
theory Feeder_Facts
  imports Feeders
begin

text \<open>
  Facts of feeder inference: the leaf coordinates of an area, what the rounds end with, and how
  the classification disposes of each rule.
\<close>

section \<open>The leaf coordinates of an area\<close>

lemma leaf_members_iff:
  "i \<in> set (leaf_members d p) \<longleftrightarrow>
     kind_selected d True i \<and> (case p of AnyMember \<Rightarrow> True | OneOf s \<Rightarrow> i \<in> set s)"
  if "length (elements d) \<le> u32_max"
  using that by (cases p) (auto simp: kind_selected_def get_element_def dim_len_def split: if_splits)

lemma kind_selected_range: "kind_selected d b i \<Longrightarrow> i < length (elements d)"
  by (auto simp: kind_selected_def get_element_def split: if_splits)

lemma area_leaf_range:
  "area_leaf_dims ds ps = Some tds \<Longrightarrow> list_all2 (\<lambda>i xs. i \<in> set xs) k tds \<Longrightarrow>
     in_range ds k \<and> list_all2 (\<lambda>d i. kind_selected d True i) ds k"
proof (induction ds ps arbitrary: tds k rule: area_leaf_dims.induct)
  case (3 d ds p ps)
  then obtain tds' i k' where h: "area_leaf_dims ds ps = Some tds'" "tds = leaf_members d p # tds'" "k = i # k'"
    "i \<in> set (leaf_members d p)" "list_all2 (\<lambda>i xs. i \<in> set xs) k' tds'"
    by (auto simp: list_all2_Cons2)
  then have "kind_selected d True i" by (cases p) auto
  with 3(1) [OF h(1,5)] h(3) kind_selected_range show ?case by (auto simp: in_range_def)
qed (auto simp: in_range_def)

lemma targets_in_range:
  "area_leaf_dims (dims c) ps = Some tds \<Longrightarrow> k \<in> set (walk_coords tds) \<Longrightarrow> in_range (dims c) k"
  using area_leaf_range by (auto simp: set_walk_coords)

lemma area_leaf_dims_total: "length ds \<le> length ps \<Longrightarrow> \<exists>tds. area_leaf_dims ds ps = Some tds"
  by (induction ds ps rule: area_leaf_dims.induct) auto

lemma matched_leaf_target:
  assumes "list_all dim_wf (dims c)"
  shows "\<lbrakk>preds_match b c d ps is = Some True; all_leaf_at c d is = Some True; length is = length ps;
      area_leaf_dims (drop d (dims c)) ps = Some tds; d + length ps = rank c\<rbrakk> \<Longrightarrow>
     list_all2 (\<lambda>i xs. i \<in> set xs) is tds"
proof (induction ps arbitrary: d "is" tds)
  case Nil
  then show ?case by (auto simp: rank_def)
next
  case (Cons p ps)
  then obtain i is' where i: "is = i # is'" "length is' = length ps" by (cases "is") auto
  have d: "d < length (dims c)" using Cons.prems(5) by (simp add: rank_def)
  then have dr: "drop d (dims c) = dims c ! d # drop (Suc d) (dims c)" by (simp add: Cons_nth_drop_Suc)
  obtain tds' where t: "area_leaf_dims (drop (Suc d) (dims c)) ps = Some tds'" "tds = leaf_members (dims c ! d) p # tds'"
    using Cons.prems(4) by (auto simp: dr)
  have leaf: "kind_selected (dims c ! d) True i" and rest: "all_leaf_at c (Suc d) is' = Some True"
    using Cons.prems(2) d i(1) by (auto simp: nth_dim_def kind_selected_def get_element_def split: if_splits)
  have pm: "pred_matches b (nth_dim c d) p i = Some True" "preds_match b c (Suc d) ps is' = Some True"
    using Cons.prems(1) i(1) by (auto split: option.splits if_splits)
  have "length (elements (dims c ! d)) \<le> u32_max"
    using assms d dim_wf_shape by (auto simp: list_all_length)
  from leaf_members_iff [OF this, of i p] have "i \<in> set (leaf_members (dims c ! d) p)"
    using leaf pm(1) by (cases p) (simp_all del: leaf_members.simps)
  with Cons.IH [OF pm(2) rest i(2) t(1)] Cons.prems(5) i(1) t(2) show ?case by simp
qed

section \<open>The end of the rounds\<close>

lemma feed_fixpoint_spec:
  "feed_fixpoint c cm os as idx potent = Some idx' \<Longrightarrow>
     set idx \<subseteq> set idx' \<and> set idx' \<subseteq> set idx \<union> all_targets as \<and>
     (\<forall>a \<in> set as. \<forall>k \<in> set (walk_coords (target_dims a)).
        k \<in> set idx' \<or> feeds c cm os a k (potent \<union> (set idx' - set idx)) = Some False)"
proof (induction c cm os as idx potent rule: feed_fixpoint.induct)
  case (1 c cm os as idx potent)
  from "1.prems" obtain idx1 pot1 ch where r: "feed_round c cm os as (idx, potent, False) = Some (idx1, pot1, ch)"
    by (subst (asm) feed_fixpoint.simps) (auto split: option.splits)
  note R = feed_round_spec [OF r]
  show ?case
  proof (cases ch)
    case True
    then have f: "feed_fixpoint c cm os as idx1 pot1 = Some idx'"
      using "1.prems" r by (subst (asm) feed_fixpoint.simps) simp
    from "1.IH" [OF r refl refl True f] have IH: "set idx1 \<subseteq> set idx'" "set idx' \<subseteq> set idx1 \<union> all_targets as"
      "\<forall>a \<in> set as. \<forall>k \<in> set (walk_coords (target_dims a)).
        k \<in> set idx' \<or> feeds c cm os a k (pot1 \<union> (set idx' - set idx1)) = Some False" by blast+
    have "pot1 \<union> (set idx' - set idx1) = potent \<union> (set idx' - set idx)" using R IH(1) by auto
    with IH R show ?thesis by auto
  next
    case False
    then have "idx' = idx1" using "1.prems" r by (subst (asm) feed_fixpoint.simps) simp
    with R False show ?thesis by auto
  qed
qed

section \<open>The classification\<close>

lemma classify_spec:
  "classify_rules c n i rs = Some (as, os) \<Longrightarrow>
     (\<forall>a \<in> set as. \<exists>r \<in> set rs. area_leaf_dims (dims c) (per_dim (area r)) = Some (target_dims a)) \<and>
     (\<forall>o1 \<in> set os. i \<le> opq_rule o1 \<and> opq_rule o1 < i + length rs) \<and>
     (\<forall>j < length rs. \<exists>tds. area_leaf_dims (dims c) (per_dim (area (rs ! j))) = Some tds \<and>
        ([] \<notin> set tds \<longrightarrow>
          \<lparr>target_dims = tds, an_inputs = filter (\<lambda>x. cell_cube x = n) (collect_cells (cexpr (rs ! j))),
            an_base = base_potent (cexpr (rs ! j)) n\<rparr> \<in> set as \<or>
          i + j \<in> opq_rule ` set os \<or>
          collect_cells (cexpr (rs ! j)) = [] \<and> \<not> base_potent (cexpr (rs ! j)) n))"
proof (induction rs arbitrary: i as os)
  case (Cons r rs)
  then obtain tds as' os' where h: "area_leaf_dims (dims c) (per_dim (area r)) = Some tds"
    "classify_rules c n (i + 1) rs = Some (as', os')" by (auto simp: Let_def split: option.splits)
  let ?ins = "filter (\<lambda>x. cell_cube x = n) (collect_cells (cexpr r))"
  let ?an = "\<lparr>target_dims = tds, an_inputs = ?ins, an_base = base_potent (cexpr r) n\<rparr>"
  let ?opq = "\<lparr>opq_rule = i, opq_reason = only_cross_cube\<rparr>"
  note IH = Cons.IH [OF h(2)]
  have eq: "
     (if [] \<in> set tds then (as', os')
      else if ?ins \<noteq> [] then (?an # as', os')
      else if \<exists>x \<in> set (collect_cells (cexpr r)). cell_cube x \<noteq> n then (as', ?opq # os')
      else if base_potent (cexpr r) n then (\<lparr>target_dims = tds, an_inputs = [], an_base = True\<rparr> # as', os')
      else (as', os')) = (as, os)"
    using Cons.prems unfolding classify_rules.simps h option.case Let_def option.map prod.case
    by (simp only: option.inject)
  have sub: "set as' \<subseteq> set as" "set os' \<subseteq> set os" "set as \<subseteq> insert ?an (set as')" "set os \<subseteq> insert ?opq (set os')"
    using eq by (auto split: if_splits)
  have hd: "?an \<in> set as \<or> i \<in> opq_rule ` set os \<or> collect_cells (cexpr r) = [] \<and> \<not> base_potent (cexpr r) n"
    if "[] \<notin> set tds"
    using eq that by (cases "collect_cells (cexpr r)") (auto split: if_splits)
  have A: "\<forall>a \<in> set as. \<exists>r' \<in> set (r # rs). area_leaf_dims (dims c) (per_dim (area r')) = Some (target_dims a)"
  proof
    fix a assume "a \<in> set as"
    then consider "a = ?an" | "a \<in> set as'" using sub(3) by blast
    then show "\<exists>r' \<in> set (r # rs). area_leaf_dims (dims c) (per_dim (area r')) = Some (target_dims a)"
      by cases (use h(1) IH in auto)
  qed
  have B: "\<forall>o1 \<in> set os. i \<le> opq_rule o1 \<and> opq_rule o1 < i + length (r # rs)"
  proof
    fix o1 assume "o1 \<in> set os"
    then consider "o1 = ?opq" | "o1 \<in> set os'" using sub(4) by blast
    then show "i \<le> opq_rule o1 \<and> opq_rule o1 < i + length (r # rs)" by cases (use IH in auto)
  qed
  have "\<exists>tds. area_leaf_dims (dims c) (per_dim (area ((r # rs) ! j))) = Some tds \<and>
        ([] \<notin> set tds \<longrightarrow>
          \<lparr>target_dims = tds, an_inputs = filter (\<lambda>x. cell_cube x = n) (collect_cells (cexpr ((r # rs) ! j))),
            an_base = base_potent (cexpr ((r # rs) ! j)) n\<rparr> \<in> set as \<or>
          i + j \<in> opq_rule ` set os \<or>
          collect_cells (cexpr ((r # rs) ! j)) = [] \<and> \<not> base_potent (cexpr ((r # rs) ! j)) n)"
    if "j < length (r # rs)" for j
  proof (cases j)
    case 0
    with h(1) hd show ?thesis by auto
  next
    case (Suc j')
    with that have "j' < length rs" by simp
    with IH obtain tds' where "area_leaf_dims (dims c) (per_dim (area (rs ! j'))) = Some tds'"
      "[] \<notin> set tds' \<longrightarrow>
          \<lparr>target_dims = tds', an_inputs = filter (\<lambda>x. cell_cube x = n) (collect_cells (cexpr (rs ! j'))),
            an_base = base_potent (cexpr (rs ! j')) n\<rparr> \<in> set as' \<or>
          i + 1 + j' \<in> opq_rule ` set os' \<or>
          collect_cells (cexpr (rs ! j')) = [] \<and> \<not> base_potent (cexpr (rs ! j')) n" by blast
    with sub(1,2) Suc show ?thesis by auto
  qed
  with A B show ?case by blast
qed simp

lemma infer_index_range:
  assumes "infer_feeders c cm n = Some fi" and "k \<in> set (inf_index fi)"
  shows "in_range (dims c) k"
proof -
  from assms(1) obtain as os where h: "classify_rules c n 0 (rules cm) = Some (as, os)"
    "feed_fixpoint c cm (map (\<lambda>o1. area (rules cm ! opq_rule o1)) os) as [] (fst ` set (cell_entries c)) = Some (inf_index fi)"
    by (auto simp: infer_feeders_def split: option.splits)
  with feed_fixpoint_spec [OF h(2)] assms(2) have "k \<in> all_targets as" by auto
  then obtain a where "a \<in> set as" "k \<in> set (walk_coords (target_dims a))" by (auto simp: all_targets_def)
  with classify_spec [OF h(1)] targets_in_range show ?thesis by blast
qed

section \<open>The mixed-radix walk\<close>

lemma mixed_at_product: "[] \<notin> set dss \<Longrightarrow> list_all2 (\<lambda>ds i. i \<in> set ds) dss (mixed_at dss n)"
  by (induction dss arbitrary: n) auto

lemma mixed_at_onto:
  "list_all2 (\<lambda>ds i. i \<in> set ds) dss k \<Longrightarrow> \<exists>n < prod_list (map length dss). mixed_at dss n = k"
proof (induction dss arbitrary: k)
  case (Cons ds dss)
  then obtain i k' where k: "k = i # k'" "i \<in> set ds" "list_all2 (\<lambda>ds i. i \<in> set ds) dss k'"
    by (auto simp: list_all2_Cons1)
  obtain m where m: "m < prod_list (map length dss)" "mixed_at dss m = k'" using Cons.IH [OF k(3)] by blast
  obtain p where p: "p < length ds" "ds ! p = i" using k(2) by (auto simp: in_set_conv_nth)
  have "length ds * m + length ds \<le> length ds * prod_list (map length dss)"
    using mult_le_mono2 [of "Suc m" "prod_list (map length dss)" "length ds"] m(1) by simp
  then have "p + length ds * m < length ds * prod_list (map length dss)" using p(1) by simp
  moreover have "(p + length ds * m) mod length ds = p" using p(1) by simp
  moreover have "(p + length ds * m) div length ds = m" using p(1) by (subst div_mult_self2) auto
  ultimately show ?case using k(1) m(2) p(2) by (intro exI [of _ "p + length ds * m"]) simp
qed simp

lemma any_opt_False: "any_opt P xs = Some False \<longleftrightarrow> (\<forall>x \<in> set xs. P x = Some False)"
  by (induction xs) (auto split: option.split)

lemma combo_at_mixed: "fst (combo_at wss n w) = mixed_at (map (map fst) wss) n" if "[] \<notin> set wss"
  using that
proof (induction wss arbitrary: n w)
  case (Cons ws wss)
  then have "n mod length ws < length ws" by (intro mod_less_divisor) auto
  with Cons show ?case by (simp add: split_def)
qed simp

lemma under_mixed: "under wss = {k. list_all2 (\<lambda>ds i. i \<in> set ds) (map (map fst) wss) k}"
  by (simp add: under_def list_all2_map1)

lemma combo_at_onto:
  assumes "k \<in> under wss"
  shows "\<exists>j < combo_count wss. fst (combo_at wss j 1) = k"
proof -
  have "[] \<notin> set wss" using assms under_empty by blast
  moreover have "combo_count wss = prod_list (map length (map (map fst) wss))"
    by (simp add: combo_count_prod comp_def)
  ultimately show ?thesis using assms mixed_at_onto [of "map (map fst) wss" k]
    by (simp add: under_mixed combo_at_mixed)
qed

section \<open>Inference on a well-formed model does not panic\<close>

lemma any_opt_total: "\<forall>x \<in> set xs. P x \<noteq> None \<Longrightarrow> any_opt P xs \<noteq> None"
  by (induction xs) (auto split: option.split)

lemma area_matches_total:
  assumes "length (per_dim a) = rank c"
  shows "area_matches a c k \<noteq> None"
proof (cases "length k = rank c")
  case True
  let ?r = "\<lparr>area = a, cexpr = CUndef, crule_span = \<lparr>span_start = 0, span_end = 0\<rparr>\<rparr>"
  from first_match_total [OF True, of "[?r]" 0] assms obtain found where "first_match c k 0 [?r] = Some found" by auto
  then show ?thesis by (auto split: option.splits)
qed (simp add: area_matches_def assms)

lemma input_leaves_total:
  "d + length ss \<le> rank c \<Longrightarrow>
     \<exists>r. input_leaves c d ss k = Some r \<and> (case r of None \<Rightarrow> True | Some (is, dss) \<Rightarrow> length is = length ss)"
proof (induction ss arbitrary: d)
  case (Cons s ss)
  obtain r where r: "input_leaves c (d + 1) ss k = Some r"
    "case r of None \<Rightarrow> True | Some (is, dss) \<Rightarrow> length is = length ss" using Cons.IH [of "d + 1"] Cons.prems by auto
  have "nth_dim c d = Some (dims c ! d)" using Cons.prems by (simp add: nth_dim_def rank_def)
  with r show ?case
    by (cases r) (auto simp: Let_def split: sum.split)
qed simp

lemma input_potent_total:
  assumes ok: "model_ok reg c cm" and os: "\<forall>a \<in> set os. length (per_dim a) = rank c" and k: "length k = rank c"
  shows "input_potent c cm os cell k potent \<noteq> None"
proof (cases "length (addr cell) = length k")
  case True
  then obtain r where r: "input_leaves c 0 (addr cell) k = Some r"
    "case r of None \<Rightarrow> True | Some (is, dss) \<Rightarrow> length is = length (addr cell)"
    using input_leaves_total [of 0 "addr cell" c k] k by auto
  show ?thesis
  proof (cases r)
    case None
    with r(1) True show ?thesis by (simp add: input_potent_def)
  next
    case (Some p)
    then obtain src dss where s: "r = Some (src, dss)" "length src = rank c" using r(2) True k by (cases p) auto
    have "list_all (\<lambda>r. length (per_dim (area r)) = rank c) (rules cm)"
      using ok by (simp add: model_ok_def rule_ok_def list_all_iff)
    from first_match_total [OF s(2) this, of 0] obtain found where m: "matching_rule cm c src = Some found"
      by (auto simp: matching_rule_def)
    have ca: "cartesian_any dss (\<lambda>k. if k \<in> potent then Some True else any_opt (\<lambda>a. area_matches a c k) os) \<noteq> None"
      unfolding cartesian_any_def
    proof (intro any_opt_total ballI)
      fix j
      have "any_opt (\<lambda>a. area_matches a c j) os \<noteq> None"
        by (rule any_opt_total) (use area_matches_total os in blast)
      then show "(if j \<in> potent then Some True else any_opt (\<lambda>a. area_matches a c j) os) \<noteq> None"
        by (cases "j \<in> potent") simp_all
    qed
    show ?thesis
      using r(1) s True m ca by (cases found) (auto simp: input_potent_def Let_def split: option.split)
  qed
qed (simp add: input_potent_def)

lemma feed_targets_total:
  "(\<And>k pot. k \<in> set ks \<Longrightarrow> feeds c cm os a k pot \<noteq> None) \<Longrightarrow> feed_targets c cm os a ks st \<noteq> None"
proof (induction ks arbitrary: st)
  case (Cons k ks)
  obtain idx pot ch where st: "st = (idx, pot, ch)" by (cases st)
  have "feeds c cm os a k pot \<noteq> None" using Cons.prems by simp
  then obtain b where "feeds c cm os a k pot = Some b" by blast
  with Cons.IH Cons.prems show ?case by (simp add: st del: not_None_eq)
qed simp

lemma feed_round_total:
  "(\<And>a k pot. a \<in> set as \<Longrightarrow> k \<in> set (walk_coords (target_dims a)) \<Longrightarrow> feeds c cm os a k pot \<noteq> None) \<Longrightarrow>
     feed_round c cm os as st \<noteq> None"
proof (induction as arbitrary: st)
  case (Cons a as)
  then have "feed_targets c cm os a (walk_coords (target_dims a)) st \<noteq> None" by (intro feed_targets_total) simp
  with Cons show ?case by auto
qed simp

lemma feed_fixpoint_total:
  "(\<And>a k pot. a \<in> set as \<Longrightarrow> k \<in> set (walk_coords (target_dims a)) \<Longrightarrow> feeds c cm os a k pot \<noteq> None) \<Longrightarrow>
     feed_fixpoint c cm os as idx potent \<noteq> None"
proof (induction c cm os as idx potent rule: feed_fixpoint.induct)
  case (1 c cm os as idx potent)
  have "feed_round c cm os as (idx, potent, False) \<noteq> None" by (rule feed_round_total) (rule "1.prems")
  then obtain idx' pot' ch where r: "feed_round c cm os as (idx, potent, False) = Some (idx', pot', ch)" by auto
  show ?case
    using "1.IH" [OF r refl refl _ "1.prems"] by (subst feed_fixpoint.simps) (simp add: r)
qed

lemma classify_total:
  "\<forall>r \<in> set rs. length (per_dim (area r)) = rank c \<Longrightarrow> classify_rules c n i rs \<noteq> None"
proof (induction rs arbitrary: i)
  case (Cons r rs)
  then obtain tds where "area_leaf_dims (dims c) (per_dim (area r)) = Some tds"
    using area_leaf_dims_total [of "dims c" "per_dim (area r)"] by (auto simp: rank_def)
  with Cons show ?case by (simp add: Let_def)
qed simp

lemma infer_total:
  assumes "model_ok reg c cm"
  shows "\<exists>fi. infer_feeders c cm n = Some fi"
proof -
  have len: "length (per_dim (area r)) = rank c" if "r \<in> set (rules cm)" for r
    using assms that by (simp add: model_ok_def rule_ok_def list_all_iff)
  then obtain as os where cl: "classify_rules c n 0 (rules cm) = Some (as, os)"
    using classify_total [of "rules cm" c n 0] by fastforce
  note S = classify_spec [OF cl]
  let ?os = "map (\<lambda>o1. area (rules cm ! opq_rule o1)) os"
  have os: "\<forall>a \<in> set ?os. length (per_dim a) = rank c" using S len by auto
  have "feeds c cm ?os a k pot \<noteq> None" if a: "a \<in> set as" "k \<in> set (walk_coords (target_dims a))" for a k pot
  proof -
    from bspec [OF conjunct1 [OF S] a(1)]
    obtain r :: compiled_rule where "area_leaf_dims (dims c) (per_dim (area r)) = Some (target_dims a)" by blast
    from targets_in_range [OF this a(2)] have "length k = rank c" by (simp add: in_range_nth rank_def)
    then have "any_opt (\<lambda>cell. input_potent c cm ?os cell k pot) (an_inputs a) \<noteq> None"
      by (intro any_opt_total ballI input_potent_total [OF assms os])
    then show ?thesis by (cases "an_base a") (simp_all add: feeds_def)
  qed
  then have "feed_fixpoint c cm ?os as [] (fst ` set (cell_entries c)) \<noteq> None" by (rule feed_fixpoint_total)
  then show ?thesis by (auto simp: infer_feeders_def cl)
qed

end
