(* ===== verification/Feeder_Gate_Facts.thy ===== *)
theory Feeder_Gate_Facts
  imports Feeders Feeder_Facts
begin

text \<open>
  What the passes of a validation find, what a licence covers, and how the sparse consolidation of
  a licensed cube runs beside the dense one.
\<close>

section \<open>The value a cell settles to\<close>

definition settles :: "engine \<Rightarrow> nat \<Rightarrow> coord \<Rightarrow> fixed \<Rightarrow> bool" where
  "settles eng n k v \<longleftrightarrow> (\<exists>j. meaning eng j n k () = Some (Inr v, ()))"

lemma settles_unique: "settles eng n k v \<Longrightarrow> meaning eng j n k () = Some (r, ()) \<Longrightarrow> r = Inr v"
  using meaning_unique unfolding settles_def by blast

lemma settles_fun: "settles eng n k v \<Longrightarrow> settles eng n k w \<Longrightarrow> v = w"
  unfolding settles_def using meaning_unique by blast

lemma read_settles:
  assumes "value_of eng f n k m = Some (r, m')" and "memo_good eng m" and "marks eng m = {}"
  shows "r = Inr v \<longleftrightarrow> settles eng n k v"
proof
  assume "r = Inr v"
  with value_of_justified [OF assms(1,2)] show "settles eng n k v" by (auto simp: settles_def is_cycle_def)
next
  assume "settles eng n k v"
  then obtain j where j: "meaning eng j n k () = Some (Inr v, ())" by (auto simp: settles_def)
  have "\<exists>m'. value_of eng (max f j) n k m = Some (Inr v, m')"
    using value_of_meaning [OF j _ assms(2), of "max f j"] assms(3) by auto
  then show "r = Inr v" using value_of_fuel [OF _ assms(1), of "max f j"] by auto
qed

lemma memo_empty [simp]: "memo_good eng Map.empty" "marks eng Map.empty = {}"
  by (auto simp: memo_good_def marks_def memo_find_def)

section \<open>Passes\<close>

lemma keys_record_error [simp]: "fst ` set (record_error k e errs) = insert k (fst ` set errs)"
  by (cases "k \<in> fst ` set errs")
    (simp_all add: record_error_def map_of_eq_None_iff insert_absorb)

lemma check_pass_spec:
  assumes "check_pass bad eng fuel n ks (found, errs, m) = Some (found', errs', m')"
    and "memo_good eng m" and "marks eng m = {}"
  shows "memo_good eng m' \<and> marks eng m' = {} \<and>
     set found' = set found \<union> {k \<in> set ks. \<exists>v. settles eng n k v \<and> bad v k} \<and>
     fst ` set errs' = fst ` set errs \<union> {k \<in> set ks. \<forall>v. \<not> settles eng n k v}"
  using assms
proof (induction ks arbitrary: found errs m)
  case (Cons k ks)
  from Cons.prems(1) obtain r m1 where r: "value_of eng fuel n k m = Some (r, m1)"
    by (cases "value_of eng fuel n k m") auto
  note S = read_settles [OF r Cons.prems(2,3)]
  have m1: "memo_good eng m1" "marks eng m1 = {}"
    using value_of_justified [OF r Cons.prems(2)] Cons.prems(3) by auto
  show ?case
  proof (cases r)
    case (Inl e)
    then have "\<forall>v. \<not> settles eng n k v" using S by auto
    with Cons.IH [of found "record_error k e errs" m1] Cons.prems(1) m1 r Inl show ?thesis by auto
  next
    case (Inr v)
    then have "settles eng n k v" using S by simp
    then have "settles eng n k w \<longleftrightarrow> w = v" for w using settles_fun by blast
    with Cons.IH [of "if bad v k then feeder_insert k found else found" errs m1] Cons.prems(1) m1 r Inr
    show ?thesis by (auto split: if_splits)
  qed
qed auto

text \<open>The leaf coordinates the rules of a cube target.\<close>

definition rule_targets :: "cube \<Rightarrow> compiled_rule list \<Rightarrow> coord set" where
  "rule_targets c rs =
     (\<Union>r \<in> set rs. case area_leaf_dims (dims c) (per_dim (area r)) of None \<Rightarrow> {} | Some tds \<Rightarrow> set (walk_coords tds))"

lemma check_rules_spec:
  assumes "check_rules c eng fuel n idx rs (found, errs, m) = Some (found', errs', m')"
    and "memo_good eng m" and "marks eng m = {}"
  shows "memo_good eng m' \<and> marks eng m' = {} \<and>
     set found' = set found \<union> {k \<in> rule_targets c rs. \<exists>v. settles eng n k v \<and> v \<noteq> 0 \<and> k \<notin> set idx} \<and>
     fst ` set errs' = fst ` set errs \<union> {k \<in> rule_targets c rs. \<forall>v. \<not> settles eng n k v}"
  using assms
proof (induction rs arbitrary: found errs m)
  case (Cons r rs)
  then obtain tds f1 e1 m1 where
    h: "area_leaf_dims (dims c) (per_dim (area r)) = Some tds"
       "check_pass (\<lambda>v k. v \<noteq> 0 \<and> k \<notin> set idx) eng fuel n (walk_coords tds) (found, errs, m) = Some (f1, e1, m1)"
       "check_rules c eng fuel n idx rs (f1, e1, m1) = Some (found', errs', m')"
    by (auto split: option.splits simp: bind_eq_Some_conv)
  from check_pass_spec [OF h(2) Cons.prems(2,3)] have A:
    "memo_good eng m1" "marks eng m1 = {}"
    "set f1 = set found \<union> {k \<in> set (walk_coords tds). \<exists>v. settles eng n k v \<and> v \<noteq> 0 \<and> k \<notin> set idx}"
    "fst ` set e1 = fst ` set errs \<union> {k \<in> set (walk_coords tds). \<forall>v. \<not> settles eng n k v}" by auto
  have T: "rule_targets c (r # rs) = set (walk_coords tds) \<union> rule_targets c rs"
    by (simp add: rule_targets_def h(1))
  have sp: "{k \<in> X \<union> Y. P k} = {k \<in> X. P k} \<union> {k \<in> Y. P k}" for X Y :: "coord set" and P by blast
  from Cons.IH [OF h(3) A(1,2)] show ?case by (simp only: T A(3,4) sp Un_assoc)
qed (simp add: rule_targets_def)

section \<open>The validation and the gate\<close>

lemma validate_spec:
  assumes "validate_feeders reg fuel n idx = Some (Inr diag)" and "reg_cube reg n = Some c"
    and "reg_compiled reg n = Some cm"
  shows "set (under_fed diag) = {k \<in> rule_targets c (rules cm) - set idx. \<exists>v. settles (engine_new reg) n k v \<and> v \<noteq> 0}"
    and "set (over_fed diag) = {k \<in> set idx. settles (engine_new reg) n k 0}"
    and "fst ` set (erroring diag) = {k \<in> rule_targets c (rules cm) \<union> set idx. \<forall>v. \<not> settles (engine_new reg) n k v}"
proof -
  from assms obtain unfed errs m wasted errs' m' where
    h: "check_rules c (engine_new reg) fuel n idx (rules cm) ([], [], Map.empty) = Some (unfed, errs, m)"
       "check_pass (\<lambda>v k. v = 0) (engine_new reg) fuel n idx ([], errs, m) = Some (wasted, errs', m')"
    and d: "under_fed diag = unfed" "over_fed diag = wasted" "erroring diag = errs'"
    by (auto simp: validate_feeders_def Let_def split: option.splits)
  let ?e = "engine_new reg"
  from check_rules_spec [OF h(1) memo_empty] have A: "memo_good ?e m" "marks ?e m = {}"
    "set unfed = {k \<in> rule_targets c (rules cm). \<exists>v. settles ?e n k v \<and> v \<noteq> 0 \<and> k \<notin> set idx}"
    "fst ` set errs = {k \<in> rule_targets c (rules cm). \<forall>v. \<not> settles ?e n k v}"
    by simp_all
  from check_pass_spec [OF h(2) A(1,2)] have B:
    "set wasted = {k \<in> set idx. \<exists>v. settles ?e n k v \<and> v = 0}"
    "fst ` set errs' = fst ` set errs \<union> {k \<in> set idx. \<forall>v. \<not> settles ?e n k v}"
    by simp_all
  show "set (under_fed diag) = {k \<in> rule_targets c (rules cm) - set idx. \<exists>v. settles (engine_new reg) n k v \<and> v \<noteq> 0}"
    unfolding d A(3) by blast
  show "set (over_fed diag) = {k \<in> set idx. settles (engine_new reg) n k 0}"
    unfolding d B(1) by simp
  show "fst ` set (erroring diag) = {k \<in> rule_targets c (rules cm) \<union> set idx. \<forall>v. \<not> settles (engine_new reg) n k v}"
    unfolding d B(2) A(4) by blast
qed

lemma gate_covers:
  assumes "safe_fed_set reg fuel n = Some (Inr (Safe fed))" and "reg_cube reg n = Some c"
  obtains cm where "reg_compiled reg n = Some cm" and "\<And>k. k \<in> set fed \<Longrightarrow> in_range (dims c) k"
    and "\<And>k. k \<in> rule_targets c (rules cm) \<Longrightarrow>
      \<exists>v. settles (engine_new reg) n k v \<and> (v \<noteq> 0 \<longrightarrow> k \<in> set fed)"
proof -
  from assms obtain cm where cm: "reg_compiled reg n = Some cm" by (auto simp: safe_fed_set_def split: option.splits)
  show thesis
  proof (cases "rules cm = []")
    case True
    with assms cm that [of cm] show ?thesis by (simp add: safe_fed_set_def rule_targets_def)
  next
    case False
    with assms cm obtain fi diag where
      fi: "infer_feeders c cm n = Some fi" "validate_feeders reg fuel n (inf_index fi) = Some (Inr diag)"
        "under_fed diag = []" "erroring diag = []" "fed = inf_index fi"
      by (auto simp: safe_fed_set_def split: option.splits sum.splits if_splits)
    note V = validate_spec [OF fi(2) assms(2) cm, unfolded fi(3,4)]
    have "\<exists>v. settles (engine_new reg) n k v \<and> (v \<noteq> 0 \<longrightarrow> k \<in> set fed)" if k: "k \<in> rule_targets c (rules cm)" for k
    proof -
      obtain v where "settles (engine_new reg) n k v" using V(3) k by auto
      with V(1) k fi(5) show ?thesis by auto
    qed
    with infer_index_range [OF fi(1)] fi(5) cm that show ?thesis by blast
  qed
qed

section \<open>The two consolidations of a licensed cube\<close>

text \<open>What a consolidation gives when the leaves have the values \<open>f\<close>.\<close>

definition rolled :: "(nat \<times> int) list list \<Rightarrow> (coord \<Rightarrow> fixed) \<Rightarrow> calc_error + fixed" where
  "rolled wss f = map_err CalcModel (to_fixed (wrap128 (rollup wss f)))"

lemma to_fixed_run:
  assumes "run rd t () = Some (Inr (wrap128 (rollup wss f)), ())"
  shows "run rd (bindR t (\<lambda>acc. lift_result (map_err CalcModel (to_fixed acc)))) () = Some (rolled wss f, ())"
  unfolding run_bind_Inr [OF assms] rolled_def
  by (cases "to_fixed (wrap128 (rollup wss f))") simp_all

lemma fed_reads_run:
  assumes "\<And>k. k \<in> set ks \<Longrightarrow> cell_weight ms 0 1 ((!) k) \<noteq> None \<Longrightarrow> rd n k () = None \<or> rd n k () = Some (Inr (f k), ())"
  shows "run rd (fed_reads n ms ks seen acc) () = None \<or>
     run rd (fed_reads n ms ks seen acc) () =
       Some (fed_loop ms (\<lambda>k. Inr (f k) :: calc_error + fixed) ks seen acc, ())"
  using assms
proof (induction ks arbitrary: seen acc)
  case (Cons k ks)
  have IH: "run rd (fed_reads n ms ks seen' acc') () = None \<or>
     run rd (fed_reads n ms ks seen' acc') () = Some (fed_loop ms (\<lambda>k. Inr (f k)) ks seen' acc', ())" for seen' acc'
    using Cons.IH Cons.prems by simp
  show ?case
  proof (cases "cell_weight ms 0 1 ((!) k)")
    case None
    with IH show ?thesis by simp
  next
    case (Some w)
    with Cons.prems [of k] IH [of seen acc] IH [of "insert k seen" "wrap128 (acc + wrap128 (w * f k))"]
    show ?thesis by auto
  qed
qed simp

lemma fed_reads_returns:
  assumes "\<And>k. k \<in> set ks \<Longrightarrow> cell_weight ms 0 1 ((!) k) \<noteq> None \<Longrightarrow> rd n k () = Some (Inr (f k), ())"
  shows "run rd (fed_reads n ms ks seen acc) () = Some (fed_loop ms (\<lambda>k. Inr (f k) :: calc_error + fixed) ks seen acc, ())"
  using assms by (induction ks arbitrary: seen acc) (auto split: option.split)

lemma cell_weight_under:
  assumes "cell_weight (map map_of wss) 0 1 ((!) k) \<noteq> None" and "length k = length wss"
  shows "k \<in> under wss"
proof -
  have "cell_weight ms d w part \<noteq> None \<Longrightarrow> i < length ms \<Longrightarrow> (ms ! i) (part (d + i)) \<noteq> None" for ms d w part i
  proof (induction ms arbitrary: d w i)
    case (Cons m ms)
    then show ?case by (cases i) (fastforce split: option.splits)+
  qed simp
  from this [OF assms(1)] have "map_of (wss ! i) (k ! i) \<noteq> None" if "i < length wss" for i
    using that by fastforce
  then show ?thesis using assms(2)
    by (auto simp: under_def list_all2_conv_all_nth map_of_eq_None_iff)
qed

lemma fed_loop_Inr: "\<exists>s a. fed_loop ms (\<lambda>k. Inr (f k) :: 'e + fixed) ks seen acc = Inr (s, a)"
  by (induction ks arbitrary: seen acc) (auto split: option.split)

text \<open>A consolidation either stops before it reads a leaf, whatever the licence, or sums leaves.\<close>

definition dense_sum_reads :: "nat \<Rightarrow> (nat \<times> int) list list \<Rightarrow> int reads" where
  "dense_sum_reads n wss = sum_reads n (map (\<lambda>j. combo_at wss j 1) [0..<combo_count wss]) 0"

definition sparse_sum_reads :: "cube \<Rightarrow> nat \<Rightarrow> (nat \<times> int) list list \<Rightarrow> coord list \<Rightarrow> int reads" where
  "sparse_sum_reads c n wss fs =
     bindR (fed_reads n (map map_of wss) (map fst (cell_entries c)) {} 0) (\<lambda>(seen, acc).
     bindR (fed_reads n (map map_of wss) fs seen acc) (\<lambda>(_, acc'). Ret acc'))"

definition finish_sum :: "int \<Rightarrow> fixed reads" where
  "finish_sum acc = lift_result (map_err CalcModel (to_fixed acc))"

definition sums_leaves :: "cube \<Rightarrow> nat \<Rightarrow> coord \<Rightarrow> (nat \<times> int) list list \<Rightarrow> bool" where
  "sums_leaves c n k wss \<longleftrightarrow>
     in_range (dims c) k \<and> \<not> leaf_coord (dims c) k \<and> dim_weights (dims c) k = Inr wss \<and>
     length wss = rank c \<and> (\<forall>ws \<in> set wss. distinct (map fst ws)) \<and>
     (\<forall>j \<in> under wss. in_range (dims c) j \<and> leaf_coord (dims c) j) \<and>
     count_combos (map length wss) 1 = Some (combo_count wss) \<and> combo_count wss \<noteq> 0 \<and>
     consolidate_reads c n k None = bindR (dense_sum_reads n wss) finish_sum \<and>
     (\<forall>fs. consolidate_reads c n k (Some fs) = bindR (sparse_sum_reads c n wss fs) finish_sum)"

lemma consolidate_cases:
  assumes "cube_wf c"
  shows "(\<forall>fs. consolidate_reads c n k (Some fs) = consolidate_reads c n k None) \<and>
      (leaf_coord (dims c) k \<or> (\<exists>r. consolidate_reads c n k None = lift_result r \<and> (\<forall>v. r = Inr v \<longrightarrow> v = 0))) \<or>
     (\<exists>wss. sums_leaves c n k wss)"
proof (cases "in_range (dims c) k \<and> \<not> leaf_coord (dims c) k")
  case False
  show ?thesis
  proof (cases "check_coord c k")
    case (Inl e)
    then have "consolidate_reads c n k fs = lift_result (Inl (CalcModel e))" for fs
      by (simp add: consolidate_reads_def)
    from this [of None] this [of "Some _"] show ?thesis by (metis sum.distinct(1))
  next
    case (Inr u)
    then have "in_range (dims c) k" using check_coord_Inr [of c k] by simp
    with False Inr all_leaf_Inr [of "dims c" k] show ?thesis by (simp add: consolidate_reads_def all_numeric_leaf_def)
  qed
next
  case True
  then have chk: "check_coord c k = Inr ()" "all_numeric_leaf c k = Inr False"
    using check_coord_Inr [of c k] all_leaf_Inr [of "dims c" k] by (simp_all add: all_numeric_leaf_def)
  obtain wss where w: "dim_weights (dims c) k = Inr wss" "length wss = rank c" "\<forall>ws \<in> set wss. distinct (map fst ws)"
    "\<forall>j \<in> under wss. in_range (dims c) j \<and> leaf_coord (dims c) j"
    using dim_weights_total [OF cube_wf_D(1) [OF assms], of k] True by (auto simp: rank_def)
  have fin: "finish_sum = (\<lambda>acc. lift_result (map_err CalcModel (to_fixed acc)))"
    by (simp add: finish_sum_def fun_eq_iff)
  note unf = consolidate_reads_def chk w(1) dense_sum_reads_def sparse_sum_reads_def fin
  show ?thesis
  proof (cases "count_combos (map length wss) 1")
    case None
    then have "consolidate_reads c n k fs = lift_result (Inl (CalcModel Overflow))" for fs by (simp add: unf)
    from this [of None] this [of "Some _"] show ?thesis by (metis sum.distinct(1))
  next
    case (Some tot)
    then have t: "tot = combo_count wss" using count_combos_Some [OF Some] by (simp add: combo_count_prod)
    show ?thesis
    proof (cases "tot = 0")
      case True
      with Some have "consolidate_reads c n k fs = lift_result (Inr 0)" for fs by (simp add: unf)
      from this [of None] this [of "Some _"] show ?thesis by (metis sum.inject(2))
    next
      case False
      have "consolidate_reads c n k None = bindR (dense_sum_reads n wss) finish_sum"
        "consolidate_reads c n k (Some fs) = bindR (sparse_sum_reads c n wss fs) finish_sum" for fs
        using Some False t by (simp_all add: unf)
      with True w Some t False show ?thesis unfolding sums_leaves_def by blast
    qed
  qed
qed

lemma sums_leaves_D:
  assumes "sums_leaves c n k wss"
  shows "in_range (dims c) k" "\<not> leaf_coord (dims c) k" "dim_weights (dims c) k = Inr wss" "length wss = rank c"
    "\<forall>ws \<in> set wss. distinct (map fst ws)" "\<And>j. j \<in> under wss \<Longrightarrow> in_range (dims c) j \<and> leaf_coord (dims c) j"
    "count_combos (map length wss) 1 = Some (combo_count wss)" "combo_count wss \<noteq> 0"
    "consolidate_reads c n k None = bindR (dense_sum_reads n wss) finish_sum"
    "consolidate_reads c n k (Some fs) = bindR (sparse_sum_reads c n wss fs) finish_sum"
  using assms unfolding sums_leaves_def by blast+

lemma combos_under:
  assumes "combo_count wss \<noteq> 0"
  shows "fst ` set (map (\<lambda>j. combo_at wss j 1) [0..<combo_count wss]) = under wss"
proof
  show "fst ` set (map (\<lambda>j. combo_at wss j 1) [0..<combo_count wss]) \<subseteq> under wss"
    using combo_at_under [OF combo_count_zero [OF assms]] by auto
  show "under wss \<subseteq> fst ` set (map (\<lambda>j. combo_at wss j 1) [0..<combo_count wss])"
    using combo_at_onto by (fastforce simp: image_iff)
qed

lemma finish_run:
  "run rd t () = Some (Inr (wrap128 (rollup wss f)), ()) \<Longrightarrow> run rd (bindR t finish_sum) () = Some (rolled wss f, ())"
  using to_fixed_run by (simp add: finish_sum_def [abs_def])

lemma dense_run:
  assumes "sums_leaves c n k wss" and "\<And>j. j \<in> under wss \<Longrightarrow> rd n j () = Some (Inr (f j), ())"
  shows "run rd (consolidate_reads c n k None) () = Some (rolled wss f, ())"
proof -
  note D = sums_leaves_D [OF assms(1)]
  let ?cs = "map (\<lambda>j. combo_at wss j 1) [0..<combo_count wss]"
  have "run rd (sum_reads n ?cs 0) () = Some (sum_combos (\<lambda>k. Inr (f k)) ?cs 0, ())"
    using assms(2) unfolding combos_under [OF D(8), symmetric] by (rule run_sum_reads)
  then have "run rd (dense_sum_reads n wss) () = Some (Inr (wrap128 (rollup wss f)), ())"
    using dense_rollup [OF D(5), of f] by (simp add: dense_sum_reads_def sum_combos_pure)
  then show ?thesis unfolding D(9) by (rule finish_run)
qed

lemma run_bind_returns: "run rd (bindR t g) s \<noteq> None \<Longrightarrow> run rd t s \<noteq> None"
  by (induction t arbitrary: s) (auto split: option.splits sum.splits)

lemma dense_run_back:
  assumes "sums_leaves c n k wss" and "\<And>j. j \<in> under wss \<Longrightarrow> rd n j () = None \<or> rd n j () = Some (Inr (f j), ())"
    and "run rd (consolidate_reads c n k None) () \<noteq> None" and "j \<in> under wss"
  shows "rd n j () = Some (Inr (f j), ())"
proof -
  note D = sums_leaves_D [OF assms(1)]
  have all: "k \<in> fst ` set cs \<Longrightarrow> rd n k () = Some (Inr (f k), ())"
    if "run rd (sum_reads n cs acc) () \<noteq> None" "\<And>j. j \<in> fst ` set cs \<Longrightarrow> rd n j () = None \<or> rd n j () = Some (Inr (f j), ())"
    for cs acc k
    using that
  proof (induction cs arbitrary: acc)
    case (Cons kw cs)
    obtain k1 w1 where kw: "kw = (k1, w1)" by force
    from Cons.prems(2) kw have "rd n k1 () \<noteq> None" by (cases "rd n k1 ()") simp_all
    with Cons.prems(3) [of k1] kw have r: "rd n k1 () = Some (Inr (f k1), ())" by auto
    with Cons.IH Cons.prems kw show ?case by auto
  qed simp
  have "run rd (dense_sum_reads n wss) () \<noteq> None"
    using assms(3) unfolding D(9) by (rule run_bind_returns)
  from all [OF this [unfolded dense_sum_reads_def]] show ?thesis
    unfolding combos_under [OF D(8)] using assms(2,4) by blast
qed

text \<open>The sparse sum needs the leaves under the coordinate that are stored or fed.\<close>

lemma sparse_run:
  assumes wf: "cube_wf c" and "sums_leaves c n k wss" and fs: "\<And>j. j \<in> set fs \<Longrightarrow> in_range (dims c) j"
    and cover: "\<And>j. j \<in> under wss \<Longrightarrow> f j \<noteq> 0 \<Longrightarrow> j \<in> fst ` set (cell_entries c) \<union> set fs"
    and rd: "\<And>j. j \<in> under wss \<Longrightarrow> rd n j () = None \<or> rd n j () = Some (Inr (f j), ())"
    and ok: "run rd (consolidate_reads c n k (Some fs)) () \<noteq> None \<or> (\<forall>j \<in> under wss. rd n j () \<noteq> None)"
  shows "run rd (consolidate_reads c n k (Some fs)) () = Some (rolled wss f, ())"
proof -
  note D = sums_leaves_D [OF assms(2)]
  let ?ms = "map map_of wss" and ?K = "map fst (cell_entries c)" and ?src = "\<lambda>k. Inr (f k) :: calc_error + fixed"
  have len: "length j = length wss" if "in_range (dims c) j" for j using that D(4) by (simp add: in_range_nth rank_def)
  have asked: "rd n j () = None \<or> rd n j () = Some (Inr (f j), ())"
    if "j \<in> set ?K \<union> set fs" "cell_weight ?ms 0 1 ((!) j) \<noteq> None" for j
    using that cell_weight_under [OF that(2)] len cell_entries_range [OF wf] fs rd by fastforce
  obtain seen acc where l1: "fed_loop ?ms ?src ?K {} 0 = Inr (seen, acc)" using fed_loop_Inr by blast
  obtain seen' acc' where l2: "fed_loop ?ms ?src fs seen acc = Inr (seen', acc')" using fed_loop_Inr by blast
  have "consolidate_fed CalcModel c k fs ?src = map_err CalcModel (to_fixed acc')"
    using D(1-3,7,8) check_coord_Inr [of c k] all_leaf_Inr [OF D(1)] l1 l2
    by (simp add: consolidate_fed_def all_numeric_leaf_def)
  moreover have "\<forall>j \<in> set fs. length j = rank c" using fs by (simp add: in_range_nth rank_def)
  note consolidate_fed_spec [where from_err = CalcModel and f = f, OF wf D(1-3,5) this cover]
  ultimately have acc': "map_err CalcModel (to_fixed acc') = rolled wss f" using D(7) by (simp add: rolled_def)
  let ?t1 = "fed_reads n ?ms ?K {} 0" and ?t2 = "fed_reads n ?ms fs seen acc"
  let ?c2 = "\<lambda>(seen, acc). bindR (fed_reads n ?ms fs seen acc) (\<lambda>(_, acc'). Ret acc')"
  have a: "run rd ?t1 () = None \<or> run rd ?t1 () = Some (Inr (seen, acc), ())"
    using fed_reads_run [where f = f and ks = ?K and ms = ?ms and rd = rd and n = n and seen = "{}" and acc = 0] asked l1
    by auto
  have b: "run rd ?t2 () = None \<or> run rd ?t2 () = Some (Inr (seen', acc'), ())"
    using fed_reads_run [where f = f and ks = fs and ms = ?ms and rd = rd and n = n and seen = seen and acc = acc] asked l2
    by auto
  have un: "consolidate_reads c n k (Some fs) = bindR (bindR ?t1 ?c2) finish_sum"
    unfolding D(10) sparse_sum_reads_def ..
  have nn: "run rd ?t1 () \<noteq> None \<and> run rd ?t2 () \<noteq> None"
    using ok
  proof
    assume "\<forall>j \<in> under wss. rd n j () \<noteq> None"
    then have r: "rd n j () = Some (Inr (f j), ())"
      if "j \<in> set ?K \<union> set fs" "cell_weight ?ms 0 1 ((!) j) \<noteq> None" for j
      using that cell_weight_under [OF that(2)] len cell_entries_range [OF wf] fs rd by fastforce
    show ?thesis
      using fed_reads_returns [where f = f and ks = ?K and ms = ?ms and rd = rd and n = n and seen = "{}" and acc = 0]
        fed_reads_returns [where f = f and ks = fs and ms = ?ms and rd = rd and n = n and seen = seen and acc = acc] r
      by simp
  next
    assume nn: "run rd (consolidate_reads c n k (Some fs)) () \<noteq> None"
    then have 1: "run rd (bindR ?t1 ?c2) () \<noteq> None" unfolding un by (rule run_bind_returns)
    then have 2: "run rd ?t1 () \<noteq> None" by (rule run_bind_returns)
    with a have 3: "run rd ?t1 () = Some (Inr (seen, acc), ())" by blast
    from 1 have "run rd (?c2 (seen, acc)) () \<noteq> None" unfolding run_bind_Inr [OF 3] .
    then have "run rd ?t2 () \<noteq> None" unfolding prod.case by (rule run_bind_returns)
    with 2 show ?thesis by blast
  qed
  with a b have r1: "run rd ?t1 () = Some (Inr (seen, acc), ())" and r2: "run rd ?t2 () = Some (Inr (seen', acc'), ())"
    by blast+
  have "run rd (?c2 (seen, acc)) () = Some (Inr acc', ())" by (simp add: run_bind_Inr [OF r2])
  then have "run rd (bindR ?t1 ?c2) () = Some (Inr acc', ())" unfolding run_bind_Inr [OF r1] .
  then have "run rd (consolidate_reads c n k (Some fs)) () = run rd (finish_sum acc') ()"
    unfolding un by (rule run_bind_Inr)
  also have "\<dots> = Some (rolled wss f, ())"
    unfolding finish_sum_def acc' by (cases "rolled wss f") simp_all
  finally show ?thesis .
qed

section \<open>A licensed registry beside the dense one\<close>

lemma first_match_found:
  "first_match c k i rs = Some (Some rid) \<Longrightarrow>
     i \<le> rid \<and> rid < i + length rs \<and> area_matches (area (rs ! (rid - i))) c k = Some True"
proof (induction rs arbitrary: i)
  case (Cons r rs)
  show ?case
  proof (cases "area_matches (area r) c k = Some True")
    case True
    with Cons.prems show ?thesis by auto
  next
    case False
    then have "first_match c k (i + 1) rs = Some (Some rid)" using Cons.prems by (auto split: option.splits if_splits)
    with Cons.IH [OF this] show ?thesis by (auto simp: nth_Cons')
  qed
qed simp

text \<open>A leaf a rule fires on is among the targets the validation walks.\<close>

lemma matching_rule_target:
  assumes c: "cube_wf c" and ok: "model_ok reg c cm" and m: "matching_rule cm c k = Some (Some rid)"
    and leaf: "all_leaf_at c 0 k = Some True" and k: "in_range (dims c) k"
  obtains tds where "rid < length (rules cm)" and "area_matches (area (rules cm ! rid)) c k = Some True"
    and "area_leaf_dims (dims c) (per_dim (area (rules cm ! rid))) = Some tds" and "k \<in> set (walk_coords tds)"
proof -
  let ?a = "area (rules cm ! rid)"
  from first_match_found [OF m [unfolded matching_rule_def]]
  have r: "rid < length (rules cm)" "area_matches ?a c k = Some True" by simp_all
  then have len: "length (per_dim ?a) = rank c" using ok by (auto simp: model_ok_def rule_ok_def list_all_length)
  then obtain tds where tds: "area_leaf_dims (dims c) (per_dim ?a) = Some tds"
    using area_leaf_dims_total [of "dims c" "per_dim ?a"] by (auto simp: rank_def)
  have kl: "length k = length (per_dim ?a)" using k len by (simp add: in_range_nth rank_def)
  with r(2) have pm: "preds_match (area_consolidated ?a) c 0 (per_dim ?a) k = Some True" by (simp add: area_matches_def)
  have "list_all2 (\<lambda>i xs. i \<in> set xs) k tds"
    using tds len by (intro matched_leaf_target [OF cube_wf_D(1) [OF c] pm leaf kl]) simp_all
  with r tds that show thesis by (simp add: set_walk_coords)
qed

lemma leaf_value_stored:
  assumes "cube_wf c" and "in_range (dims c) k" and "leaf_value c k \<noteq> 0"
  shows "k \<in> fst ` set (cell_entries c)"
proof -
  have "leaf_value c k = (case map_of (cell_entries c) k of Some v \<Rightarrow> v | None \<Rightarrow> 0)"
    using cells.entries_find [OF cube_wf_D(3) [OF assms(1)] assms(2)] cube_wf_D(2) [OF assms(1)]
    by (simp add: leaf_value_def cell_entries_def rank_def)
  with assms(3) show ?thesis by (auto split: option.splits dest: map_of_SomeD intro: rev_image_eqI)
qed

lemma dense_leaf_settles:
  assumes reg: "reg_cube reg n = Some c" "reg_compile_error reg n = None" "reg_compiled reg n = Some cm"
    and c: "cube_wf c" "model_ok reg c cm" and k: "in_range (dims c) k" "leaf_coord (dims c) k"
    and cover: "\<And>j. j \<in> rule_targets c (rules cm) \<Longrightarrow>
      \<exists>v. settles (engine_new reg) n j v \<and> (v \<noteq> 0 \<longrightarrow> j \<in> set fed)"
  shows "\<exists>v. settles (engine_new reg) n k v \<and> (v \<noteq> 0 \<longrightarrow> k \<in> fst ` set (cell_entries c) \<union> set fed)"
proof -
  have leaf: "all_leaf_at c 0 k = Some True" by (rule all_leaf_true [OF k])
  have "length k = rank c" "list_all (\<lambda>r. length (per_dim (area r)) = rank c) (rules cm)"
    using k(1) c(2) by (auto simp: in_range_nth rank_def model_ok_def rule_ok_def list_all_iff)
  from first_match_total [OF this, of 0] obtain found where m: "matching_rule cm c k = Some found"
    by (auto simp: matching_rule_def)
  show ?thesis
  proof (cases found)
    case (Some rid)
    from matching_rule_target [OF c(1,2) m [unfolded Some] leaf k(1)] obtain tds where
      t: "rid < length (rules cm)" "area_leaf_dims (dims c) (per_dim (area (rules cm ! rid))) = Some tds"
      "k \<in> set (walk_coords tds)" .
    then have "k \<in> rule_targets c (rules cm)"
      unfolding rule_targets_def by (intro UN_I [of "rules cm ! rid"]) simp_all
    with cover show ?thesis by blast
  next
    case None
    have "meaning (engine_new reg) 1 n k () = Some (Inr (leaf_value c k), ())"
      using get_leaf_coord [OF k] leaf m None
      by (simp add: engine_new_def compute_def mask_denies_def Let_def reg stored_or_rolled_def)
    then have "settles (engine_new reg) n k (leaf_value c k)" unfolding settles_def by blast
    with leaf_value_stored [OF c(1) k(1)] show ?thesis by blast
  qed
qed

text \<open>The two engines compute alike except where a licensed cube consolidates.\<close>

lemma compute_licensed:
  assumes off: "reg_fed_set reg = (\<lambda>_. None)"
  shows "compute (engine_new (reg\<lparr>reg_fed_set := lic\<rparr>)) n k = compute (engine_new reg) n k \<or>
     (\<exists>c fs. reg_cube reg n = Some c \<and> reg_compile_error reg n = None \<and> lic n = Some fs \<and>
        compute (engine_new reg) n k = consolidate_reads c n k None \<and>
        compute (engine_new (reg\<lparr>reg_fed_set := lic\<rparr>)) n k = consolidate_reads c n k (Some fs))"
proof -
  let ?e = "engine_new reg" and ?e' = "engine_new (reg\<lparr>reg_fed_set := lic\<rparr>)"
  have sch: "same_schema (eng_registry ?e) (eng_registry ?e')"
    by (auto simp: same_schema_def engine_new_def split: option.split)
  note ev = eval_schema [OF sch]
  show ?thesis
  proof (cases "reg_cube reg n")
    case None
    then show ?thesis by (simp add: engine_new_def compute_def mask_denies_def)
  next
    case (Some c)
    have st: "stored_or_rolled ?e' c n k = stored_or_rolled ?e c n k \<or>
       (\<exists>fs. lic n = Some fs \<and> stored_or_rolled ?e c n k = consolidate_reads c n k None \<and>
        stored_or_rolled ?e' c n k = consolidate_reads c n k (Some fs))"
      by (cases "all_leaf_at c 0 k"; cases "lic n")
        (auto simp: stored_or_rolled_def fed_for_def engine_new_def off)
    have cmp: "compute ?e' n k = (case reg_compile_error reg n of
        Some x \<Rightarrow> Fail (RulesFailed (cube_name c) x)
      | None \<Rightarrow> (case reg_compiled reg n of
          None \<Rightarrow> stored_or_rolled ?e' c n k
        | Some cm \<Rightarrow> or_panic (matching_rule cm c k) (\<lambda>found. case found of
              Some rid \<Rightarrow> eval_expr ?e (cexpr (rules cm ! rid)) n k
            | None \<Rightarrow> stored_or_rolled ?e' c n k)))"
      unfolding ev(1) [symmetric]
      by (simp add: compute_def mask_denies_def Let_def Some engine_new_def cong: option.case_cong)
    have cm: "compute ?e n k = (case reg_compile_error reg n of
        Some x \<Rightarrow> Fail (RulesFailed (cube_name c) x)
      | None \<Rightarrow> (case reg_compiled reg n of
          None \<Rightarrow> stored_or_rolled ?e c n k
        | Some cm \<Rightarrow> or_panic (matching_rule cm c k) (\<lambda>found. case found of
              Some rid \<Rightarrow> eval_expr ?e (cexpr (rules cm ! rid)) n k
            | None \<Rightarrow> stored_or_rolled ?e c n k)))"
      by (simp add: compute_def mask_denies_def Let_def Some engine_new_def cong: option.case_cong)
    show ?thesis
    proof (cases "reg_compiled reg n")
      case None
      with st show ?thesis by (cases "reg_compile_error reg n") (auto simp: cmp cm Some)
    next
      case (Some m)
      show ?thesis
      proof (cases "matching_rule m c k")
        case (Some found)
        with st \<open>reg_compiled reg n = Some m\<close> \<open>reg_cube reg n = Some c\<close> show ?thesis
          by (cases "reg_compile_error reg n"; cases found) (auto simp: cmp cm)
      qed (simp add: cmp cm Some split: option.split)
    qed
  qed
qed

text \<open>Every licence came from the gate.\<close>

definition gated :: "registry \<Rightarrow> (nat \<Rightarrow> coord list option) \<Rightarrow> bool" where
  "gated reg lic \<longleftrightarrow> (\<forall>n fs. lic n = Some fs \<longrightarrow> (\<exists>fuel. safe_fed_set reg fuel n = Some (Inr (Safe fs))))"

lemma licensed_values:
  assumes ok: "registry_ok reg" and g: "gated reg lic" and lic: "lic n = Some fs"
    and c: "reg_cube reg n = Some c" "reg_compile_error reg n = None"
  shows "cube_wf c" and "\<And>j. j \<in> set fs \<Longrightarrow> in_range (dims c) j"
    and "\<And>j. in_range (dims c) j \<Longrightarrow> leaf_coord (dims c) j \<Longrightarrow>
      \<exists>v. settles (engine_new reg) n j v \<and> (v \<noteq> 0 \<longrightarrow> j \<in> fst ` set (cell_entries c) \<union> set fs)"
proof -
  from g lic obtain fuel where f: "safe_fed_set reg fuel n = Some (Inr (Safe fs))" by (auto simp: gated_def)
  obtain cm where cm: "reg_compiled reg n = Some cm" "\<And>j. j \<in> set fs \<Longrightarrow> in_range (dims c) j"
    "\<And>j. j \<in> rule_targets c (rules cm) \<Longrightarrow> \<exists>v. settles (engine_new reg) n j v \<and> (v \<noteq> 0 \<longrightarrow> j \<in> set fs)"
    using gate_covers [OF f c(1)] by blast
  have wf: "cube_wf c" "model_ok reg c cm" using ok c(1) cm(1) unfolding registry_ok_def by fastforce+
  show "cube_wf c" by (rule wf(1))
  show "in_range (dims c) j" if "j \<in> set fs" for j using cm(2) that .
  show "\<exists>v. settles (engine_new reg) n j v \<and> (v \<noteq> 0 \<longrightarrow> j \<in> fst ` set (cell_entries c) \<union> set fs)"
    if "in_range (dims c) j" "leaf_coord (dims c) j" for j
    by (rule dense_leaf_settles [OF c cm(1) wf that cm(3)])
qed

text \<open>Finitely many reads that settle do so within one bound.\<close>

lemma settle_bound:
  assumes "finite K" and "\<And>j. j \<in> K \<Longrightarrow> settles eng n j (f j)"
  shows "\<exists>N. \<forall>j \<in> K. meaning eng N n j () = Some (Inr (f j), ())"
  using assms
proof (induction rule: finite_induct)
  case (insert x K)
  then obtain N where N: "\<forall>j \<in> K. meaning eng N n j () = Some (Inr (f j), ())" by auto
  obtain N' where "meaning eng N' n x () = Some (Inr (f x), ())" using insert.prems [of x] by (auto simp: settles_def)
  with N have "\<forall>j \<in> insert x K. meaning eng (max N N') n j () = Some (Inr (f j), ())"
    using meaning_mono [of N "max N N'" eng] meaning_mono [of N' "max N N'" eng] by simp
  then show ?case by blast
qed simp

text \<open>A computation two engines share gives in one what it gives in the other, once its reads do.\<close>

lemma run_transport:
  assumes "\<And>n k r. meaning eng j n k () = Some (r, ()) \<Longrightarrow> \<exists>j'. meaning eng' j' n k () = Some (r, ())"
  shows "run (meaning eng j) t () = Some (r, ()) \<Longrightarrow> \<exists>j'. run (meaning eng' j') t () = Some (r, ())"
proof (induction t)
  case (Ask n k h)
  from Ask.prems obtain r1 where r1: "meaning eng j n k () = Some (r1, ())" by (auto split: option.splits)
  with assms obtain j1 where j1: "meaning eng' j1 n k () = Some (r1, ())" by blast
  show ?case
  proof (cases r1)
    case (Inl e)
    with Ask.prems r1 j1 show ?thesis by (intro exI [of _ j1]) simp
  next
    case (Inr v)
    with Ask.prems r1 have "run (meaning eng j) (h v) () = Some (r, ())" by simp
    from Ask.IH [OF rangeI this] obtain j2 where "run (meaning eng' j2) (h v) () = Some (r, ())" by blast
    then have "run (meaning eng' (max j1 j2)) (Ask n k h) () = Some (r, ())"
      using meaning_mono [OF _ j1, of "max j1 j2"] run_meaning_mono [of j2 "max j1 j2"] Inr by simp
    then show ?thesis by blast
  qed
qed (auto intro: exI [of _ 0])

lemma licensed_sum:
  assumes "registry_ok reg" and "gated reg lic" and "lic n = Some fs"
    and "reg_cube reg n = Some c" and "reg_compile_error reg n = None" and "sums_leaves c n k wss"
  obtains f where "\<And>i. i \<in> under wss \<Longrightarrow> settles (engine_new reg) n i (f i)"
    and "\<And>i. i \<in> under wss \<Longrightarrow> f i \<noteq> 0 \<Longrightarrow> i \<in> fst ` set (cell_entries c) \<union> set fs"
proof -
  have "\<forall>i \<in> under wss. \<exists>v. settles (engine_new reg) n i v \<and> (v \<noteq> 0 \<longrightarrow> i \<in> fst ` set (cell_entries c) \<union> set fs)"
    using licensed_values(3) [OF assms(1-5)] sums_leaves_D(6) [OF assms(6)] by blast
  from bchoice [OF this] that show thesis by blast
qed

lemma licensed_follows_dense:
  assumes off: "reg_fed_set reg = (\<lambda>_. None)" and ok: "registry_ok reg" and g: "gated reg lic"
  shows "meaning (engine_new reg) j n k () = Some (r, ()) \<Longrightarrow>
     \<exists>j'. meaning (engine_new (reg\<lparr>reg_fed_set := lic\<rparr>)) j' n k () = Some (r, ())"
proof (induction j arbitrary: n k r)
  case (Suc j)
  let ?e = "engine_new reg" and ?e' = "engine_new (reg\<lparr>reg_fed_set := lic\<rparr>)"
  have run: "run (meaning ?e j) (compute ?e n k) () = Some (r, ())" using Suc.prems by simp
  have same: ?case if "compute ?e' n k = compute ?e n k"
  proof -
    obtain j' where "run (meaning ?e' j') (compute ?e n k) () = Some (r, ())"
      using run_transport [of ?e j ?e', OF Suc.IH run] by blast
    then have "meaning ?e' (Suc j') n k () = Some (r, ())" by (simp add: that)
    then show ?thesis by blast
  qed
  show ?case
  proof (cases "compute ?e' n k = compute ?e n k")
    case False
    then obtain c fs where c: "reg_cube reg n = Some c" "reg_compile_error reg n = None" "lic n = Some fs"
      and d: "compute ?e n k = consolidate_reads c n k None" and s: "compute ?e' n k = consolidate_reads c n k (Some fs)"
      using compute_licensed [OF off] by metis
    note V = licensed_values [OF ok g c(3,1,2)]
    obtain wss where w: "sums_leaves c n k wss" using consolidate_cases [OF V(1)] False d s by metis
    obtain f where f: "\<And>i. i \<in> under wss \<Longrightarrow> settles ?e n i (f i)"
      "\<And>i. i \<in> under wss \<Longrightarrow> f i \<noteq> 0 \<Longrightarrow> i \<in> fst ` set (cell_entries c) \<union> set fs"
      using licensed_sum [OF ok g c(3,1,2) w] by blast
    have rd: "meaning ?e j n i () = None \<or> meaning ?e j n i () = Some (Inr (f i), ())" if "i \<in> under wss" for i
      using settles_unique [OF f(1) [OF that], of j] by (cases "meaning ?e j n i ()") auto
    have all: "meaning ?e j n i () = Some (Inr (f i), ())" if "i \<in> under wss" for i
      using dense_run_back [where rd = "meaning ?e j" and f = f, OF w rd _ that] run d by simp
    have "settles ?e' n i (f i)" if "i \<in> under wss" for i
      using Suc.IH [OF all [OF that]] by (simp add: settles_def)
    from settle_bound [OF finite_under this] obtain N where
      N: "\<And>i. i \<in> under wss \<Longrightarrow> meaning ?e' N n i () = Some (Inr (f i), ())" by blast
    have "run (meaning ?e' N) (consolidate_reads c n k (Some fs)) () = Some (rolled wss f, ())"
      using N by (intro sparse_run [where rd = "meaning ?e' N" and f = f, OF V(1) w V(2) f(2)]) simp_all
    moreover have "r = rolled wss f" using dense_run [where rd = "meaning ?e j" and f = f, OF w all] run d by simp
    ultimately have "meaning ?e' (Suc N) n k () = Some (r, ())" by (simp add: s)
    then show ?thesis by blast
  qed (rule same)
qed simp

lemma dense_follows_licensed:
  assumes off: "reg_fed_set reg = (\<lambda>_. None)" and ok: "registry_ok reg" and g: "gated reg lic"
  shows "meaning (engine_new (reg\<lparr>reg_fed_set := lic\<rparr>)) j n k () = Some (r, ()) \<Longrightarrow>
     \<exists>j'. meaning (engine_new reg) j' n k () = Some (r, ())"
proof (induction j arbitrary: n k r)
  case (Suc j)
  let ?e = "engine_new reg" and ?e' = "engine_new (reg\<lparr>reg_fed_set := lic\<rparr>)"
  have run: "run (meaning ?e' j) (compute ?e' n k) () = Some (r, ())" using Suc.prems by simp
  have same: ?case if "compute ?e' n k = compute ?e n k"
  proof -
    obtain j' where "run (meaning ?e j') (compute ?e' n k) () = Some (r, ())"
      using run_transport [of ?e' j ?e, OF Suc.IH run] by blast
    then have "meaning ?e (Suc j') n k () = Some (r, ())" by (simp add: that)
    then show ?thesis by blast
  qed
  show ?case
  proof (cases "compute ?e' n k = compute ?e n k")
    case False
    then obtain c fs where c: "reg_cube reg n = Some c" "reg_compile_error reg n = None" "lic n = Some fs"
      and d: "compute ?e n k = consolidate_reads c n k None" and s: "compute ?e' n k = consolidate_reads c n k (Some fs)"
      using compute_licensed [OF off] by metis
    note V = licensed_values [OF ok g c(3,1,2)]
    obtain wss where w: "sums_leaves c n k wss" using consolidate_cases [OF V(1)] False d s by metis
    obtain f where f: "\<And>i. i \<in> under wss \<Longrightarrow> settles ?e n i (f i)"
      "\<And>i. i \<in> under wss \<Longrightarrow> f i \<noteq> 0 \<Longrightarrow> i \<in> fst ` set (cell_entries c) \<union> set fs"
      using licensed_sum [OF ok g c(3,1,2) w] by blast
    have rd: "meaning ?e' j n i () = None \<or> meaning ?e' j n i () = Some (Inr (f i), ())" if "i \<in> under wss" for i
    proof (cases "meaning ?e' j n i ()")
      case (Some p)
      then obtain r1 where r1: "meaning ?e' j n i () = Some (r1, ())" by (cases p) simp
      from Suc.IH [OF r1] obtain j' where "meaning ?e j' n i () = Some (r1, ())" by blast
      with settles_unique [OF f(1) [OF that]] r1 show ?thesis by blast
    qed simp
    have "run (meaning ?e' j) (consolidate_reads c n k (Some fs)) () = Some (rolled wss f, ())"
      using run s by (intro sparse_run [where rd = "meaning ?e' j" and f = f, OF V(1) w V(2) f(2) rd]) simp_all
    then have r: "r = rolled wss f" using run s by simp
    from settle_bound [OF finite_under f(1)] obtain N where
      N: "\<And>i. i \<in> under wss \<Longrightarrow> meaning ?e N n i () = Some (Inr (f i), ())" by blast
    have "meaning ?e (Suc N) n k () = Some (r, ())" using dense_run [where rd = "meaning ?e N" and f = f, OF w N] by (simp add: d r)
    then show ?thesis by blast
  qed (rule same)
qed simp

end
