(* ===== verification/Feeder_Sound.thy ===== *)
theory Feeder_Sound
  imports Feeder_Gate_Facts Compile_Properties
begin

text \<open>
  Why inference never misses a fed leaf: a rule value other than zero has a source, either a term
  that \<open>base_potent\<close> recognises or an input that is not zero, and the source of an input is a leaf
  that is stored, fed or under a rule reported opaque.
\<close>

section \<open>The sources of a value\<close>

lemma run_bind_result:
  "run rd (bindR t g) () = Some (Inr v, ()) \<Longrightarrow>
     \<exists>x. run rd t () = Some (Inr x, ()) \<and> run rd (g x) () = Some (Inr v, ())"
  by (induction t) (auto split: option.splits sum.splits)

lemma run_lift: "run rd (lift_result r) s = Some (r, s)"
  by (cases r) simp_all

lemma round_zero: "div_round_half_even 0 d = 0"
  by (simp add: div_round_half_even_def tdiv_def trem_def)

lemma arith_source:
  assumes "arith p a b = Inr v" and "v \<noteq> 0"
  shows "(p = Add \<or> p = Sub) \<and> (a \<noteq> 0 \<or> b \<noteq> 0) \<or> p = Mul \<and> a \<noteq> 0 \<and> b \<noteq> 0 \<or> p = Div \<and> a \<noteq> 0"
  using assms by (cases p) (auto simp: calc_fixed_def checked_i64_def round_zero split: if_splits)

definition nonzero_input :: "engine \<Rightarrow> nat \<Rightarrow> nat \<Rightarrow> coord \<Rightarrow> ccell \<Rightarrow> bool" where
  "nonzero_input eng j n k cell \<longleftrightarrow>
     (\<exists>abs w. resolve_addr (addr cell) k = Some abs \<and> w \<noteq> 0 \<and> meaning eng j n abs () = Some (Inr w, ()))"

lemma value_has_source:
  "run (meaning eng j) (eval_expr eng e n k) () = Some (Inr v, ()) \<Longrightarrow> v \<noteq> 0 \<Longrightarrow>
     base_potent e n \<or> (\<exists>cell \<in> set (collect_cells e). cell_cube cell = n \<and> nonzero_input eng j n k cell)"
proof (induction e arbitrary: v rule: collect_cells.induct)
  case (1 c)
  then show ?case
    by (cases "resolve_addr (addr c) k") (auto simp: eval_cell_def nonzero_input_def split: option.splits sum.splits)
next
  case (2 e)
  from 2(2) [simplified] run_bind_result obtain x where
    "run (meaning eng j) (eval_expr eng e n k) () = Some (Inr x, ())" "checked_i64 (- x) = Some v"
    by (fastforce simp: run_lift)
  with 2(1,3) show ?case by (auto simp: checked_i64_def split: if_splits)
next
  case (3 p l r)
  from 3(3) [simplified] run_bind_result obtain a where
    a: "run (meaning eng j) (eval_expr eng l n k) () = Some (Inr a, ())"
    "run (meaning eng j) (bindR (eval_expr eng r n k) (\<lambda>b. lift_result (arith p a b))) () = Some (Inr v, ())" by fastforce
  from run_bind_result [OF a(2)] obtain b where
    b: "run (meaning eng j) (eval_expr eng r n k) () = Some (Inr b, ())" "arith p a b = Inr v"
    by (auto simp: run_lift)
  from arith_source [OF b(2) 3(4)] 3(1) [OF a(1)] 3(2) [OF b(1)] show ?case by (cases p) auto
next
  case (4 q t)
  from 4(2) [simplified] run_bind_result obtain b where
    "run (meaning eng j) (if b then eval_expr eng t n k else Ret 0) () = Some (Inr v, ())" by fastforce
  with 4(1,3) show ?case by (cases b) auto
next
  case (5 q t f)
  from 5(3) [simplified] run_bind_result obtain b where
    "run (meaning eng j) (if b then eval_expr eng t n k else eval_expr eng f n k) () = Some (Inr v, ())" by fastforce
  with 5(1,2,4) show ?case by (cases b) auto
qed auto

section \<open>Inputs of compiled rules\<close>

text \<open>The shape compilation gives a reference to the rule's own cube.\<close>

definition input_ok :: "cube \<Rightarrow> ccell \<Rightarrow> bool" where
  "input_ok c cell \<longleftrightarrow> length (addr cell) = rank c \<and>
     (\<forall>d < rank c. case addr cell ! d of Pinned i \<Rightarrow> i < length (elements (dims c ! d)) | FromTarget p \<Rightarrow> p = d)"

definition inputs_ok :: "nat \<Rightarrow> cube \<Rightarrow> compiled_rule list \<Rightarrow> bool" where
  "inputs_ok n c rs \<longleftrightarrow>
     (\<forall>r \<in> set rs. \<forall>cell \<in> set (collect_cells (cexpr r)). cell_cube cell = n \<longrightarrow> input_ok c cell)"

lemma dim_position_nth:
  assumes "distinct (map dim_name (dims c))" and "dim_position c (dim_name (dims c ! d)) = Some p" and "d < rank c"
  shows "p = d"
  using dim_position_bound [OF assms(2)] assms(1,3) by (auto simp: rank_def distinct_conv_nth)

lemma lower_slots_shape:
  assumes "lower_slots cell tg o1 tg o2 ds = Inr slots" and "drop d (dims tg) = ds"
    and "distinct (map dim_name (dims tg))" and "list_all dim_wf (dims tg)"
  shows "length slots = length ds \<and> (\<forall>i < length ds. case slots ! i of
     Pinned m \<Rightarrow> m < length (elements (dims tg ! (d + i))) | FromTarget p \<Rightarrow> p = d + i)"
  using assms(1,2)
proof (induction ds arbitrary: slots d)
  case (Cons rd ds)
  then obtain s ss where s: "lower_slot cell tg o1 tg o2 rd = Inr s" "slots = s # ss"
    "lower_slots cell tg o1 tg o2 ds = Inr ss" by auto
  have "d < length (dims tg)" using Cons.prems(2) by (cases "d < length (dims tg)") auto
  with Cons_nth_drop_Suc [OF this] Cons.prems(2)
  have d: "d < rank tg" "dims tg ! d = rd" "drop (Suc d) (dims tg) = ds" by (simp_all add: rank_def)
  have "dim_wf rd" using d(1,2) assms(4) by (auto simp: list_all_length rank_def)
  then have hd: "case s of Pinned m \<Rightarrow> m < length (elements (dims tg ! d)) | FromTarget p \<Rightarrow> p = d"
    using s(1) resolve_bound [of rd] dim_position_nth [OF assms(3) _ d(1)] d(2)
    by (auto simp: lower_slot_def split: option.splits member_expr.splits if_splits)
  from Cons.IH [OF s(3) d(3)] hd show ?case by (auto simp: s(2) nth_Cons' less_Suc_eq_0_disj cong: addr_slot.case_cong)
qed simp

lemma lower_cell_input:
  assumes "lower_cell cell tg reg o1 = Inr cc" and "cr_cube reg o1 = Some tg" and "cell_cube cc = o1"
    and "distinct (map dim_name (dims tg))" and "list_all dim_wf (dims tg)"
  shows "input_ok tg cc"
proof -
  obtain o2 rc slots where h: "o2 = o1 \<and> rc = tg \<or> cr_cube reg o2 = Some rc"
    "lower_slots cell tg o1 rc o2 (dims rc) = Inr slots" "cc = \<lparr>cell_cube = o2, addr = slots\<rparr>"
    using assms(1) by (auto simp: lower_cell_def split: if_splits option.splits)
  then have "rc = tg" using assms(2,3) by auto
  with lower_slots_shape [OF h(2) [unfolded this], of 0] assms(4,5) show ?thesis
    by (auto simp: input_ok_def h(3) rank_def cong: addr_slot.case_cong)
qed

lemma lower_inputs:
  assumes "cr_cube reg o1 = Some tg" and "distinct (map dim_name (dims tg))" and "list_all dim_wf (dims tg)"
  shows "lower_expr e tg reg o1 sp = Inr ce \<Longrightarrow> \<forall>cell \<in> set (collect_cells ce). cell_cube cell = o1 \<longrightarrow> input_ok tg cell"
    and "lower_cond q tg reg o1 sp = Inr cq \<Longrightarrow> True"
  using assms
proof (induction e tg reg o1 sp and q tg reg o1 sp arbitrary: ce and cq rule: lower_expr_lower_cond.induct)
  case (3 cell tg reg o1 sp)
  then show ?case using lower_cell_input [of cell tg reg o1] by auto
next
  case (8 func args fsp tg reg o1 sp)
  then show ?case by (auto simp: lower_func_def split: builtin_func.splits)
qed auto

lemma compiled_inputs_ok:
  assumes "cr_cube reg o1 = Some tg" and "distinct (map dim_name (dims tg))" and "list_all dim_wf (dims tg)"
  shows "compile_rules tg reg o1 rs = Inr crs \<Longrightarrow> inputs_ok o1 tg crs"
proof (induction rs arbitrary: crs)
  case (Cons r rs)
  then obtain a e rest where h: "lower_expr (formula r) tg reg o1 (rule_span r) = Inr e" "compile_rules tg reg o1 rs = Inr rest"
    "crs = \<lparr>area = a, cexpr = e, crule_span = rule_span r\<rparr> # rest" by auto
  from lower_inputs(1) [OF assms h(1)] Cons.IH [OF h(2)] show ?case by (simp add: inputs_ok_def h(3))
qed (simp add: inputs_ok_def)

lemma resolve_nth:
  "resolve_addr as k = Some src \<Longrightarrow> length src = length as \<and>
     (\<forall>d < length as. src ! d = (case as ! d of Pinned i \<Rightarrow> i | FromTarget p \<Rightarrow> k ! p))"
proof (induction as arbitrary: src)
  case (Cons s as)
  then show ?case by (cases s) (auto simp: nth_Cons' less_Suc_eq_0_disj split: if_splits)
qed simp

lemma input_in_range:
  assumes "input_ok c cell" and "resolve_addr (addr cell) k = Some src" and "in_range (dims c) k"
  shows "in_range (dims c) src"
  using resolve_nth [OF assms(2)] assms(1,3)
  by (fastforce simp: in_range_nth input_ok_def rank_def split: addr_slot.splits)

section \<open>An input that is not potent\<close>

lemma leaf_own_weights:
  assumes "leaf_weights d i \<noteq> Inr []" and "i < length (elements d)" and "is_leaf (el_kind (elements d ! i))"
  shows "leaf_weights d i = Inr [(i, 1)]"
  using assms by (auto simp: leaf_weights_def get_element_def is_leaf_def)

lemma own_leaf:
  assumes "[] \<notin> set wss" and "in_range (dims c) src" and "all_leaf_at c 0 src = Some True"
    and "dim_weights (dims c) src = Inr wss"
  shows "src \<in> under wss"
proof -
  have len: "length src = length (dims c)" using assms(2) by (simp add: in_range_nth)
  then have l: "length wss = length (dims c)" using dim_weights_length [OF assms(4)] by simp
  have "src ! d \<in> fst ` set (wss ! d)" if d: "d < length wss" for d
  proof -
    from all_leaf_at_nth [OF assms(3), of d] d l len
    have h: "src ! d < length (elements (dims c ! d))" "is_leaf (el_kind (elements (dims c ! d) ! (src ! d)))" by simp_all
    have w: "leaf_weights (dims c ! d) (src ! d) = Inr (wss ! d)"
      using leaf_weights_at [OF assms(4)] len d l by simp
    have "wss ! d \<noteq> []" using assms(1) nth_mem [OF d] by auto
    then have "leaf_weights (dims c ! d) (src ! d) = Inr [(src ! d, 1)]"
      using h w by (intro leaf_own_weights) simp_all
    then have e: "wss ! d = [(src ! d, 1)]" using w by simp
    show ?thesis by (simp add: e)
  qed
  then show ?thesis using l len by (auto simp: under_def list_all2_conv_all_nth)
qed

lemma input_leaves_eq:
  assumes "length ss = length ds" and "drop d (dims c) = ds"
    and "\<forall>i < length ss. (case ss ! i of Pinned p \<Rightarrow> p | FromTarget _ \<Rightarrow> k ! (d + i)) = src ! i"
    and "length src = length ss" and "dim_weights ds src = Inr wss" and "[] \<notin> set wss"
  shows "input_leaves c d ss k = Some (Some (src, map (map fst) wss))"
  using assms
proof (induction ss arbitrary: d ds src wss)
  case (Cons s ss)
  then obtain dm ds' i src' where e: "ds = dm # ds'" "src = i # src'" by (metis length_0_conv neq_Nil_conv list.distinct(1))
  obtain ws wss' where w: "leaf_weights dm i = Inr ws" "dim_weights ds' src' = Inr wss'" "wss = ws # wss'"
    using Cons.prems(5) by (auto simp: e)
  have "d < length (dims c)" using Cons.prems(2) e(1) by (cases "d < length (dims c)") auto
  with Cons_nth_drop_Suc [OF this] Cons.prems(2) e(1) have nd: "nth_dim c d = Some dm" "drop (Suc d) (dims c) = ds'"
    by (simp_all add: nth_dim_def)
  have s: "(case s of Pinned p \<Rightarrow> p | FromTarget _ \<Rightarrow> k ! d) = i" using Cons.prems(3) [rule_format, of 0] e(2) by (simp cong: addr_slot.case_cong)
  have r: "(case ss ! j of Pinned p \<Rightarrow> p | FromTarget _ \<Rightarrow> k ! (Suc d + j)) = src' ! j" if "j < length ss" for j
    using Cons.prems(3) [rule_format, of "Suc j"] that e(2) by (simp cong: addr_slot.case_cong)
  have "input_leaves c (Suc d) ss k = Some (Some (src', map (map fst) wss'))"
    by (rule Cons.IH [OF _ nd(2) _ _ w(2)]) (use Cons.prems e w(3) r in auto)
  moreover have "ws \<noteq> []" using Cons.prems(6) w(3) by auto
  ultimately show ?case using s w(1,3) nd(1) e(2) by (simp add: Let_def)
qed simp

lemma consolidated_flag:
  "drop d (dims c) = ds \<Longrightarrow> list_all2 (\<lambda>dm i. i < length (elements dm)) ds src \<Longrightarrow>
     all_leaf_at c d src = Some (\<not> list_ex (\<lambda>(dm, i). kind_selected dm False i) (zip ds src))"
proof (induction src arbitrary: d ds)
  case (Cons i src)
  then obtain dm ds' where e: "ds = dm # ds'" "i < length (elements dm)" "list_all2 (\<lambda>dm i. i < length (elements dm)) ds' src"
    by (auto simp: list_all2_Cons2)
  have "d < length (dims c)" using Cons.prems(1) e(1) by (cases "d < length (dims c)") auto
  with Cons_nth_drop_Suc [OF this] Cons.prems(1) e(1) have nd: "nth_dim c d = Some dm" "drop (Suc d) (dims c) = ds'"
    by (simp_all add: nth_dim_def)
  from Cons.IH [OF nd(2) e(3)] nd(1) e(1,2) show ?case by (simp add: get_element_def kind_selected_def)
qed simp

lemma input_not_potent:
  assumes np: "input_potent c cm os cell k potent = Some False"
    and ok: "input_ok c cell" "resolve_addr (addr cell) k = Some src" "in_range (dims c) k"
    and w: "dim_weights (dims c) src = Inr wss" and ne: "[] \<notin> set wss"
  shows "all_leaf_at c 0 src = Some True \<or> matching_rule cm c src = Some None"
    and "\<And>j. j \<in> under wss \<Longrightarrow> j \<notin> potent \<and> (\<forall>a \<in> set os. area_matches a c j = Some False)"
proof -
  note rng = input_in_range [OF ok] and R = resolve_nth [OF ok(2)]
  have len: "length src = length (dims c)" "length (addr cell) = length (dims c)" "length k = length (dims c)"
    using rng ok(1,3) by (simp_all add: in_range_nth input_ok_def rank_def)
  have sl: "(case addr cell ! i of Pinned p \<Rightarrow> p | FromTarget _ \<Rightarrow> k ! (0 + i)) = src ! i" if "i < length (addr cell)" for i
    using R ok(1) that len(2) by (fastforce simp: input_ok_def rank_def split: addr_slot.splits)
  have il: "input_leaves c 0 (addr cell) k = Some (Some (src, map (map fst) wss))"
    by (rule input_leaves_eq [OF len(2) _ _ _ w ne]) (use sl len in auto)
  have "list_all2 (\<lambda>dm i. i < length (elements dm)) (dims c) src" using rng by (simp add: in_range_def)
  from consolidated_flag [OF _ this, where c = c and d = 0]
  have cf: "all_leaf_at c 0 src = Some (\<not> list_ex (\<lambda>(dm, i). kind_selected dm False i) (zip (dims c) src))" by simp
  let ?pred = "\<lambda>k. if k \<in> potent then Some True else any_opt (\<lambda>a. area_matches a c k) os"
  from np il len cf show "all_leaf_at c 0 src = Some True \<or> matching_rule cm c src = Some None"
    by (auto simp: input_potent_def Let_def split: option.splits if_splits)
  have ca: "cartesian_any (map (map fst) wss) ?pred = Some False"
    using np il len by (auto simp: input_potent_def Let_def split: option.splits if_splits)
  show "j \<notin> potent \<and> (\<forall>a \<in> set os. area_matches a c j = Some False)" if "j \<in> under wss" for j
  proof -
    obtain n where "n < prod_list (map length (map (map fst) wss))" "mixed_at (map (map fst) wss) n = j"
      using mixed_at_onto [of "map (map fst) wss" j] \<open>j \<in> under wss\<close> by (auto simp: under_mixed)
    then have "j \<in> set (map (mixed_at (map (map fst) wss)) [0..<prod_list (map length (map (map fst) wss))])" by auto
    with ca have "?pred j = Some False" unfolding cartesian_any_def any_opt_False by blast
    then show ?thesis by (auto simp: any_opt_False split: if_splits)
  qed
qed

section \<open>A consolidated value has a leaf that is not zero\<close>

lemma sum_reads_results:
  "run rd (sum_reads n cs acc) () = Some (Inr a, ()) \<Longrightarrow> k \<in> fst ` set cs \<Longrightarrow> \<exists>x. rd n k () = Some (Inr x, ())"
proof (induction cs arbitrary: acc)
  case (Cons kw cs)
  obtain k1 w1 where kw: "kw = (k1, w1)" by force
  with Cons.prems(1) obtain x where "rd n k1 () = Some (Inr x, ())"
    "run rd (sum_reads n cs (wrap128 (acc + wrap128 (w1 * x)))) () = Some (Inr a, ())"
    by (auto split: option.splits sum.splits)
  with Cons.IH Cons.prems(2) kw show ?case by auto
qed simp

lemma consolidated_source:
  assumes "cube_wf c" and "\<not> leaf_coord (dims c) k"
    and run: "run rd (consolidate_reads c n k None) () = Some (Inr v, ())" and "v \<noteq> 0"
  obtains wss i x where "dim_weights (dims c) k = Inr wss" and "i \<in> under wss" and "in_range (dims c) i"
    and "leaf_coord (dims c) i" and "rd n i () = Some (Inr x, ())" and "x \<noteq> 0"
proof -
  have "consolidate_reads c n k None \<noteq> lift_result r" if "\<forall>v. r = Inr v \<longrightarrow> v = 0" for r
    using run assms(4) that run_lift [of rd r "()"] by auto
  then obtain wss where w: "sums_leaves c n k wss"
    using consolidate_cases [OF assms(1), of n k] assms(2) by blast
  note D = sums_leaves_D [OF w]
  obtain a where a: "run rd (dense_sum_reads n wss) () = Some (Inr a, ())"
    using run_bind_result [OF run [unfolded D(9)]] by blast
  have "\<exists>x. rd n i () = Some (Inr x, ())" if "i \<in> under wss" for i
    by (rule sum_reads_results [OF a [unfolded dense_sum_reads_def]]) (simp only: combos_under [OF D(8)] that)
  then obtain f where f: "\<And>i. i \<in> under wss \<Longrightarrow> rd n i () = Some (Inr (f i), ())" by metis
  have v: "Inr v = rolled wss f" using dense_run [where rd = rd and f = f, OF w f] run by simp
  have "\<exists>i \<in> under wss. f i \<noteq> 0"
  proof (rule ccontr)
    assume "\<not> ?thesis"
    then have "rollup wss f = 0" by (simp add: rollup_def)
    with v \<open>v \<noteq> 0\<close> show False by (simp add: rolled_def to_fixed_0)
  qed
  with f D(3,6) that show thesis by blast
qed

section \<open>Completeness\<close>

text \<open>A rule that reads, for a leaf of its area, a coordinate of its own cube which has no leaf below it
  in some dimension (a consolidation without leaves, or a string element) and which a rule overrides.
  Without an override such a coordinate reads as zero.\<close>

definition overridden_gap :: "cube \<Rightarrow> compiled_model \<Rightarrow> nat \<Rightarrow> bool" where
  "overridden_gap c cm n \<longleftrightarrow>
     (\<exists>r \<in> set (rules cm). \<exists>cell \<in> set (collect_cells (cexpr r)). \<exists>k src wss.
        cell_cube cell = n \<and> in_range (dims c) k \<and> all_leaf_at c 0 k = Some True \<and>
        area_matches (area r) c k = Some True \<and> resolve_addr (addr cell) k = Some src \<and>
        dim_weights (dims c) src = Inr wss \<and> [] \<in> set wss \<and> matching_rule cm c src \<noteq> Some None)"

lemma under_gap: "[] \<in> set wss \<Longrightarrow> under wss = {}"
  using under_empty by blast

lemma gap_reads_zero:
  assumes "cube_wf c" and "in_range (dims c) i" and w: "dim_weights (dims c) i = Inr wss" and gap: "[] \<in> set wss"
    and run: "run rd (stored_or_rolled eng c n i) () = Some (Inr v, ())" and ov: "eng_overlay eng = None"
    and fed: "reg_fed_set (eng_registry eng) n = None"
  shows "v = 0"
proof (rule ccontr)
  assume v: "v \<noteq> 0"
  have no_leaf: "\<not> leaf_coord (dims c) i"
  proof
    assume lc: "leaf_coord (dims c) i"
    have "length i = length (dims c)" using assms(2) by (simp add: in_range_nth)
    moreover from this have l: "length wss = length (dims c)" using dim_weights_length [OF w] by simp
    ultimately have "leaf_weights (dims c ! d) (i ! d) = Inr (wss ! d)" if "d < length (dims c)" for d
      using leaf_weights_at [OF w] that by simp
    moreover obtain d where d: "d < length (dims c)" "wss ! d = []" using gap l by (auto simp: in_set_conv_nth)
    ultimately have "leaf_weights (dims c ! d) (i ! d) = Inr []" by metis
    moreover have "el_kind (elements (dims c ! d) ! (i ! d)) = Leaf" "i ! d < length (elements (dims c ! d))"
      using lc assms(2) d(1) by (simp_all add: leaf_coord_nth kind_at_def in_range_nth)
    ultimately show False by (simp add: leaf_weights_def get_element_def is_leaf_def)
  qed
  obtain b where b: "all_leaf_at c 0 i = Some b"
    using all_leaf_at_total [of 0 i c] assms(2) by (auto simp: in_range_nth rank_def)
  show False
  proof (cases b)
    case True
    have "\<forall>k \<in> under wss. in_range (dims c) k" by (simp add: under_gap [OF gap])
    then have "get c i = to_fixed (wrap128 (rollup wss (leaf_value c)))"
      using get_spec [OF assms(1,2) no_leaf w] stored_sum_rollup [OF assms(1)] by simp
    then have "get c i = Inr 0" by (simp add: rollup_def under_gap [OF gap] to_fixed_0)
    with run b True ov v show False by (simp add: stored_or_rolled_def run_lift)
  next
    case False
    with run b fed ov have "run rd (consolidate_reads c n i None) () = Some (Inr v, ())"
      by (simp add: stored_or_rolled_def fed_for_def split: if_splits)
    from consolidated_source [OF assms(1) no_leaf this v] w under_gap [OF gap] show False by fastforce
  qed
qed

text \<open>What the induction carries: a leaf whose value is not zero is stored, fed, or under an
  opaque rule; and fed if its rule is not opaque.\<close>

definition accounted :: "cube \<Rightarrow> compiled_model \<Rightarrow> feeder_inference \<Rightarrow> coord \<Rightarrow> bool" where
  "accounted c cm fi k \<longleftrightarrow>
     k \<in> fst ` set (cell_entries c) \<union> set (inf_index fi) \<or>
     (\<exists>o1 \<in> set (inf_opaque fi). area_matches (area (rules cm ! opq_rule o1)) c k = Some True)"

lemma nonzero_leaf_accounted:
  assumes reg: "reg_cube reg n = Some c" "reg_compiled reg n = Some cm" "reg_fed_set reg n = None"
    and c: "cube_wf c" "model_ok reg c cm" "inputs_ok n c (rules cm)" "\<not> overridden_gap c cm n"
    and fi: "infer_feeders c cm n = Some fi"
  shows "\<lbrakk>meaning (engine_new reg) j n k () = Some (Inr v, ()); v \<noteq> 0; in_range (dims c) k; all_leaf_at c 0 k = Some True\<rbrakk> \<Longrightarrow>
     accounted c cm fi k \<and>
     (\<forall>rid. matching_rule cm c k = Some (Some rid) \<longrightarrow> rid \<notin> opq_rule ` set (inf_opaque fi) \<longrightarrow> k \<in> set (inf_index fi))"
proof (induction j arbitrary: k v rule: less_induct)
  case (less j)
  let ?e = "engine_new reg"
  let ?potent = "fst ` set (cell_entries c) \<union> set (inf_index fi)"
  obtain as where cl: "classify_rules c n 0 (rules cm) = Some (as, inf_opaque fi)"
    and fp: "feed_fixpoint c cm (map (\<lambda>o1. area (rules cm ! opq_rule o1)) (inf_opaque fi)) as [] (fst ` set (cell_entries c))
      = Some (inf_index fi)"
    using fi by (auto simp: infer_feeders_def split: option.splits)
  let ?os = "map (\<lambda>o1. area (rules cm ! opq_rule o1)) (inf_opaque fi)"
  have closed: "k \<in> set (inf_index fi) \<or> feeds c cm ?os a k ?potent = Some False"
    if "a \<in> set as" "k \<in> set (walk_coords (target_dims a))" for a k
    using feed_fixpoint_spec [OF fp] that by auto
  obtain j' where j: "j = Suc j'" using less.prems(1) by (cases j) auto
  then have run: "run (meaning ?e j') (compute ?e n k) () = Some (Inr v, ())" using less.prems(1) by simp
  then have ce: "reg_compile_error reg n = None"
    by (cases "reg_compile_error reg n") (auto simp: compute_def engine_new_def mask_denies_def reg)
  have eng: "eng_registry ?e = reg" "eng_overlay ?e = None" "eng_mask ?e = None" by (simp_all add: engine_new_def)
  have comp: "compute ?e n i = or_panic (matching_rule cm c i) (\<lambda>found. case found of
        Some rid \<Rightarrow> eval_expr ?e (cexpr (rules cm ! rid)) n i
      | None \<Rightarrow> stored_or_rolled ?e c n i)" for i
    by (simp add: compute_def mask_denies_def Let_def reg ce eng)
  obtain found where m: "matching_rule cm c k = Some found" using run by (cases "matching_rule cm c k") (simp_all add: comp)
  show ?case
  proof (cases found)
    case None
    then have "get c k = Inr v" using run less.prems(4) m by (simp add: comp stored_or_rolled_def eng run_lift)
    with get_at_leaves [OF c(1) less.prems(4,3)] less.prems(2) leaf_value_stored [OF c(1) less.prems(3)]
    have "k \<in> fst ` set (cell_entries c)" by (auto split: if_splits)
    with None m show ?thesis by (simp add: accounted_def)
  next
    case (Some rid)
    from matching_rule_target [OF c(1,2) m [unfolded Some] less.prems(4,3)] obtain tds where
      t: "rid < length (rules cm)" "area_matches (area (rules cm ! rid)) c k = Some True"
      "area_leaf_dims (dims c) (per_dim (area (rules cm ! rid))) = Some tds" "k \<in> set (walk_coords tds)" .
    let ?x = "cexpr (rules cm ! rid)"
    from run m Some have ev: "run (meaning ?e j') (eval_expr ?e ?x n k) () = Some (Inr v, ())" by (simp add: comp)
    note src = value_has_source [OF ev less.prems(2)]
    show ?thesis
    proof (cases "rid \<in> opq_rule ` set (inf_opaque fi)")
      case True
      with t(2) m Some show ?thesis by (auto simp: accounted_def)
    next
      case False
      have "[] \<notin> set tds" using t(4) by (auto simp: set_walk_coords list_all2_conv_all_nth in_set_conv_nth)
      moreover have "collect_cells ?x \<noteq> [] \<or> base_potent ?x n" using src by auto
      ultimately obtain a where a: "a \<in> set as" "target_dims a = tds" "an_base a = base_potent ?x n"
        "an_inputs a = filter (\<lambda>x. cell_cube x = n) (collect_cells ?x)"
        using classify_spec [OF cl] t(1,3) False by fastforce
      have "k \<in> set (inf_index fi)"
      proof (rule ccontr)
        assume "k \<notin> set (inf_index fi)"
        with closed [OF a(1)] t(4) a(2) have nf: "feeds c cm ?os a k ?potent = Some False" by blast
        with a(3) src have "\<not> base_potent ?x n" by (auto simp: feeds_def split: if_splits)
        with src obtain cell i w where cell: "cell \<in> set (collect_cells ?x)" "cell_cube cell = n"
          and i: "resolve_addr (addr cell) k = Some i" "w \<noteq> 0" "meaning ?e j' n i () = Some (Inr w, ())"
          unfolding nonzero_input_def by blast
        have np: "input_potent c cm ?os cell k ?potent = Some False"
          using nf a(4) cell \<open>\<not> base_potent ?x n\<close> a(3) by (auto simp: feeds_def any_opt_False)
        have io: "input_ok c cell" using c(3) t(1) cell by (auto simp: inputs_ok_def)
        note ir = input_in_range [OF io i(1) less.prems(3)]
        obtain wss where w: "dim_weights (dims c) i = Inr wss"
          using dim_weights_total [OF cube_wf_D(1) [OF c(1)] ir] by blast
        have ne: "[] \<notin> set wss"
        proof
          assume gap: "[] \<in> set wss"
          have "rules cm ! rid \<in> set (rules cm)" using t(1) by simp
          with c(4) cell i(1) w gap less.prems(3,4) t(2) have "matching_rule cm c i = Some None"
            unfolding overridden_gap_def by blast
          moreover obtain j'' where "j' = Suc j''" using i(3) by (cases j') auto
          ultimately have "run (meaning ?e j'') (stored_or_rolled ?e c n i) () = Some (Inr w', ())"
            if "w' = w" for w' using i(3) that by (simp add: comp)
          from gap_reads_zero [OF c(1) ir w gap this [OF refl] eng(2)] i(2) eng(1) reg(3) show False by simp
        qed
        note N = input_not_potent [OF np io i(1) less.prems(3) w ne]
        have clean: "\<not> accounted c cm fi l" if "l \<in> under wss" for l using N(2) [OF that] by (auto simp: accounted_def)
        show False
        proof (cases "all_leaf_at c 0 i = Some True")
          case True
          with less.IH [OF _ i(3,2) ir] j own_leaf [OF ne ir True w] clean show False by blast
        next
          case False
          then have mi: "matching_rule cm c i = Some None" using N(1) by blast
          obtain b where b: "all_leaf_at c 0 i = Some b"
            using all_leaf_at_total [of 0 i c] ir by (auto simp: in_range_nth rank_def)
          obtain j'' where j'': "j' = Suc j''" using i(3) by (cases j') auto
          have "run (meaning ?e j'') (consolidate_reads c n i None) () = Some (Inr w, ())"
            using i(3) False b by (simp add: j'' comp mi stored_or_rolled_def fed_for_def eng reg(3))
          moreover have "\<not> leaf_coord (dims c) i" using all_leaf_true [OF ir] False by blast
          ultimately obtain wss' l x where l: "dim_weights (dims c) i = Inr wss'" "l \<in> under wss'"
            "in_range (dims c) l" "leaf_coord (dims c) l" "meaning ?e j'' n l () = Some (Inr x, ())" "x \<noteq> 0"
            using consolidated_source [OF c(1) _ _ i(2)] by blast
          have "accounted c cm fi l"
            using less.IH [OF _ l(5,6,3) all_leaf_true [OF l(3,4)]] j j'' by simp
          with clean l(1,2) w show False by simp
        qed
      qed
      with m Some show ?thesis by (simp add: accounted_def)
    qed
  qed
qed

end
