(* ===== verification/Feeder_Properties.thy ===== *)
theory Feeder_Properties
  imports Feeder_Sound
begin

text \<open>
  The properties of feeders: inference misses no leaf it can analyse, validation finds exactly the
  leaves that are fed wrongly, and a licensed sparse read is the dense read.
\<close>

section \<open>Validation returns\<close>

lemma check_pass_returns:
  assumes "registry_ok reg" and "reg_cube reg n = Some c"
  shows "\<forall>k \<in> set ks. length k = rank c \<Longrightarrow>
     \<exists>F. \<forall>f \<ge> F. \<forall>st. check_pass bad (engine_new reg) f n ks st \<noteq> None"
proof (induction ks)
  case (Cons k ks)
  then obtain F1 where F1: "\<forall>f \<ge> F1. \<forall>st. check_pass bad (engine_new reg) f n ks st \<noteq> None" by auto
  have "\<exists>F. \<forall>f \<ge> F. \<forall>m. \<exists>r m'. value_of (engine_new reg) f n k m = Some (r, m') \<and>
      marks (engine_new reg) m' = marks (engine_new reg) m"
    by (rule read_returns) (use assms Cons.prems in \<open>simp_all add: engine_new_def\<close>)
  then obtain F2 where F2: "\<forall>f \<ge> F2. \<forall>m. \<exists>r m'. value_of (engine_new reg) f n k m = Some (r, m')" by blast
  have "check_pass bad (engine_new reg) f n (k # ks) st \<noteq> None" if "max F1 F2 \<le> f" for f st
  proof -
    obtain found errs m where st: "st = (found, errs, m)" by (cases st)
    from F2 that obtain r m' where "value_of (engine_new reg) f n k m = Some (r, m')" by (meson max.boundedE)
    then show ?thesis using F1 that by (cases r) (simp_all add: st del: not_None_eq value_of.simps)
  qed
  then show ?case by blast
qed simp

lemma check_rules_returns:
  assumes "registry_ok reg" and "reg_cube reg n = Some c"
  shows "\<forall>r \<in> set rs. length (per_dim (area r)) = rank c \<Longrightarrow>
     \<exists>F. \<forall>f \<ge> F. \<forall>st. check_rules c (engine_new reg) f n idx rs st \<noteq> None"
proof (induction rs)
  case (Cons r rs)
  then obtain F1 where F1: "\<forall>f \<ge> F1. \<forall>st. check_rules c (engine_new reg) f n idx rs st \<noteq> None" by auto
  obtain tds where t: "area_leaf_dims (dims c) (per_dim (area r)) = Some tds"
    using area_leaf_dims_total [of "dims c" "per_dim (area r)"] Cons.prems by (auto simp: rank_def)
  let ?bad = "\<lambda>v k. v \<noteq> 0 \<and> k \<notin> set idx"
  have "\<forall>k \<in> set (walk_coords tds). length k = rank c" using targets_in_range [OF t] by (simp add: in_range_nth rank_def)
  from check_pass_returns [OF assms this] obtain F2 where
    F2: "\<forall>f \<ge> F2. \<forall>st. check_pass ?bad (engine_new reg) f n (walk_coords tds) st \<noteq> None" by blast
  have "check_rules c (engine_new reg) f n idx (r # rs) st \<noteq> None" if "max F1 F2 \<le> f" for f st
  proof -
    from F2 that obtain st' where "check_pass ?bad (engine_new reg) f n (walk_coords tds) st = Some st'"
      by (meson max.boundedE not_None_eq)
    then show ?thesis using F1 that by (cases st') (simp add: t del: not_None_eq)
  qed
  then show ?case by blast
qed simp

lemma validate_returns:
  assumes ok: "registry_ok reg" and c: "reg_cube reg n = Some c" "reg_compiled reg n = Some cm"
    and idx: "\<forall>k \<in> set idx. length k = rank c"
  shows "\<exists>F. \<forall>f \<ge> F. \<exists>diag. validate_feeders reg f n idx = Some (Inr diag)"
proof -
  have "model_ok reg c cm" using ok c unfolding registry_ok_def by fastforce
  then have "\<forall>r \<in> set (rules cm). length (per_dim (area r)) = rank c"
    by (simp add: model_ok_def rule_ok_def list_all_iff)
  from check_rules_returns [OF ok c(1) this] obtain F1 where
    F1: "\<forall>f \<ge> F1. \<forall>st. check_rules c (engine_new reg) f n idx (rules cm) st \<noteq> None" by blast
  from check_pass_returns [OF ok c(1) idx] obtain F2 where
    F2: "\<forall>f \<ge> F2. \<forall>st. check_pass (\<lambda>v k. v = 0) (engine_new reg) f n idx st \<noteq> None" by blast
  have "\<exists>diag. validate_feeders reg f n idx = Some (Inr diag)" if "max F1 F2 \<le> f" for f
  proof -
    from F1 that have "check_rules c (engine_new reg) f n idx (rules cm) ([], [], Map.empty) \<noteq> None" by simp
    then obtain unfed errs m where 1: "check_rules c (engine_new reg) f n idx (rules cm) ([], [], Map.empty) = Some (unfed, errs, m)"
      by auto
    from F2 that have "check_pass (\<lambda>v k. v = 0) (engine_new reg) f n idx ([], errs, m) \<noteq> None" by simp
    then obtain wasted errs' m' where "check_pass (\<lambda>v k. v = 0) (engine_new reg) f n idx ([], errs, m) = Some (wasted, errs', m')"
      by auto
    with 1 c show ?thesis by (simp add: validate_feeders_def Let_def)
  qed
  then show ?thesis by blast
qed

section \<open>The registry with the sparse path off\<close>

lemma expr_ok_cubes:
  assumes "reg_cube reg' = reg_cube reg"
  shows "expr_ok reg' c e = expr_ok reg c e" "cond_ok reg' c q = cond_ok reg c q"
  by (induction e and q rule: expr_nums_cond_nums.induct) (simp_all add: cell_ok_def assms)

lemma sparse_off_ok: "registry_ok reg \<Longrightarrow> registry_ok (sparse_off reg)"
proof -
  assume ok: "registry_ok reg"
  have sel: "reg_cube (sparse_off reg) = reg_cube reg" "reg_compiled (sparse_off reg) = reg_compiled reg"
    "reg_fed_set (sparse_off reg) = (\<lambda>_. None)" by (simp_all add: sparse_off_def)
  have "model_ok (sparse_off reg) c cm = model_ok reg c cm" for c cm
    by (simp add: model_ok_def rule_ok_def [abs_def] expr_ok_cubes(1) [OF sel(1)])
  with ok show ?thesis by (fastforce simp: registry_ok_def sel split: option.splits)
qed

section \<open>Properties\<close>

text \<open>\<open>rule_governed\<close>: a leaf coordinate to which a rule applies, as the evaluator decides it. \<open>leaf_scoped\<close> is
  the model with the scope of every area forgotten, so that free dimensions select leaves, and
  \<open>free_totals\<close> says that it differs: some area matches consolidated members only and leaves a
  dimension free.\<close>

definition rule_governed :: "cube \<Rightarrow> compiled_model \<Rightarrow> coord \<Rightarrow> bool" where
  "rule_governed c cm k \<longleftrightarrow> in_range (dims c) k \<and> all_leaf_at c 0 k = Some True \<and>
     (\<exists>rid. matching_rule cm c k = Some (Some rid))"

definition leaf_scoped :: "compiled_model \<Rightarrow> compiled_model" where
  "leaf_scoped cm = cm\<lparr>rules := map (\<lambda>r. r\<lparr>area := (area r)\<lparr>area_consolidated := False\<rparr>\<rparr>) (rules cm)\<rparr>"

definition free_totals :: "compiled_model \<Rightarrow> bool" where
  "free_totals cm \<longleftrightarrow> (\<exists>r \<in> set (rules cm). area_consolidated (area r) \<and> AnyMember \<in> set (per_dim (area r)))"

lemma first_match_exists:
  "\<forall>r \<in> set rs. area_matches (area r) c k \<noteq> None \<Longrightarrow>
     (\<exists>rid. first_match c k n rs = Some (Some rid)) \<longleftrightarrow> (\<exists>r \<in> set rs. area_matches (area r) c k = Some True)"
proof (induction rs arbitrary: n)
  case (Cons r rs)
  then obtain b where "area_matches (area r) c k = Some b" by auto
  with Cons show ?case by (cases b) auto
qed simp

lemma governed_iff:
  assumes "\<forall>r \<in> set (rules cm). length (per_dim (area r)) = rank c"
  shows "rule_governed c cm k \<longleftrightarrow> in_range (dims c) k \<and> all_leaf_at c 0 k = Some True \<and>
     (\<exists>r \<in> set (rules cm). area_matches (area r) c k = Some True)"
proof -
  have "\<forall>r \<in> set (rules cm). area_matches (area r) c k \<noteq> None" using area_matches_total assms by blast
  from first_match_exists [OF this, of 0] show ?thesis by (auto simp: rule_governed_def matching_rule_def)
qed

text \<open>A leaf is among the leaf coordinates of an area exactly when the area, its scope forgotten, matches it.\<close>

lemma leaf_in_area:
  assumes "\<forall>d < length (dims c). length (elements (dims c ! d)) \<le> u32_max"
  shows "\<lbrakk>d + length ps = rank c; length k = length ps; area_leaf_dims (drop d (dims c)) ps = Some tds\<rbrakk> \<Longrightarrow>
     list_all2 (\<lambda>i xs. i \<in> set xs) k tds \<longleftrightarrow>
       list_all2 (\<lambda>dm i. i < length (elements dm)) (drop d (dims c)) k \<and>
       all_leaf_at c d k = Some True \<and> preds_match False c d ps k = Some True"
proof (induction ps arbitrary: d k tds)
  case Nil
  then show ?case by (simp add: rank_def)
next
  case (Cons p ps)
  then obtain i k' where k: "k = i # k'" "length k' = length ps" by (cases k) auto
  have d: "d < length (dims c)" using Cons.prems(1) by (simp add: rank_def)
  then have dr: "drop d (dims c) = dims c ! d # drop (Suc d) (dims c)" by (simp add: Cons_nth_drop_Suc)
  obtain tds' where t: "area_leaf_dims (drop (Suc d) (dims c)) ps = Some tds'" "tds = leaf_members (dims c ! d) p # tds'"
    using Cons.prems(3) by (auto simp: dr)
  have "i \<in> set (leaf_members (dims c ! d) p) \<longleftrightarrow> i < length (elements (dims c ! d)) \<and>
      is_leaf (el_kind (elements (dims c ! d) ! i)) \<and> pred_matches False (Some (dims c ! d)) p i = Some True"
    using leaf_members_iff [of "dims c ! d" i p] assms d
    by (cases p) (auto simp: kind_selected_def get_element_def simp del: leaf_members.simps)
  moreover have "d + 1 + length ps = rank c" using Cons.prems(1) by simp
  ultimately show ?case
    using Cons.IH [of "d + 1" k' tds'] k t d
    by (auto simp: dr nth_dim_def get_element_def split: option.splits if_splits)
qed

lemma rule_targets_governed:
  assumes wf: "cube_wf c" and len: "\<forall>r \<in> set (rules cm). length (per_dim (area r)) = rank c"
  shows "rule_targets c (rules cm) = {k. rule_governed c (leaf_scoped cm) k}"
proof -
  have "\<forall>r \<in> set (rules (leaf_scoped cm)). length (per_dim (area r)) = rank c" using len by (auto simp: leaf_scoped_def)
  note G = governed_iff [OF this]
  have sz: "\<forall>d < length (dims c). length (elements (dims c ! d)) \<le> u32_max"
    using dim_wf_shape(3) [OF wf_nth [OF wf]] by blast
  have one: "k \<in> (case area_leaf_dims (dims c) (per_dim (area r)) of None \<Rightarrow> {} | Some tds \<Rightarrow> set (walk_coords tds)) \<longleftrightarrow>
      in_range (dims c) k \<and> all_leaf_at c 0 k = Some True \<and>
      area_matches ((area r)\<lparr>area_consolidated := False\<rparr>) c k = Some True" if r: "r \<in> set (rules cm)" for r k
  proof -
    obtain tds where t: "area_leaf_dims (dims c) (per_dim (area r)) = Some tds"
      using area_leaf_dims_total [of "dims c" "per_dim (area r)"] len r by (auto simp: rank_def)
    show ?thesis
    proof (cases "length k = rank c")
      case True
      from leaf_in_area [OF sz, of 0 "per_dim (area r)" k tds] t True len r show ?thesis
        by (auto simp: set_walk_coords area_matches_def in_range_def)
    next
      case False
      then show ?thesis using area_leaf_range [OF t, of k] t
        by (auto simp: set_walk_coords in_range_nth rank_def)
    qed
  qed
  show ?thesis
    unfolding rule_targets_def by (rule set_eqI) (simp add: one G, simp add: leaf_scoped_def)
qed

lemma governed_leaf_scoped:
  assumes "\<forall>r \<in> set (rules cm). length (per_dim (area r)) = rank c"
  shows "rule_governed c cm k \<Longrightarrow> rule_governed c (leaf_scoped cm) k"
    and "\<not> free_totals cm \<Longrightarrow> rule_governed c (leaf_scoped cm) k \<longleftrightarrow> rule_governed c cm k"
proof -
  have len: "\<forall>r \<in> set (rules (leaf_scoped cm)). length (per_dim (area r)) = rank c" using assms by (auto simp: leaf_scoped_def)
  have any: "AnyMember \<notin> set ps \<Longrightarrow> preds_match b c d ps k = preds_match b' c d ps k" for b b' d ps k
  proof (induction ps arbitrary: d k)
    case (Cons p ps)
    then show ?case by (cases k; cases p) auto
  qed simp
  have hit: "AnyMember \<notin> set ps" if "preds_match True c d ps k = Some True" "all_leaf_at c d k = Some True"
      "length k = length ps" for d ps k
    using that
  proof (induction ps arbitrary: d k)
    case (Cons p ps)
    then obtain i k' where "k = i # k'" "length k' = length ps" by (cases k) auto
    with Cons show ?case by (cases p) (auto split: option.splits if_splits sum.splits)
  qed simp
  have up: "area_matches ((area r)\<lparr>area_consolidated := False\<rparr>) c k = Some True"
    if "area_matches (area r) c k = Some True" "all_leaf_at c 0 k = Some True" for r
  proof (cases "area_consolidated (area r)")
    case True
    with that hit [of 0 "per_dim (area r)" k] any [of "per_dim (area r)" True 0 k False] show ?thesis
      by (auto simp: area_matches_def split: if_splits)
  qed (use that in \<open>simp add: area_matches_def split: if_splits\<close>)
  show "rule_governed c (leaf_scoped cm) k" if "rule_governed c cm k"
    using that up unfolding governed_iff [OF assms] governed_iff [OF len] by (auto simp: leaf_scoped_def)
  show "rule_governed c (leaf_scoped cm) k \<longleftrightarrow> rule_governed c cm k" if nf: "\<not> free_totals cm"
  proof -
    have "area_matches ((area r)\<lparr>area_consolidated := False\<rparr>) c k = area_matches (area r) c k" if r: "r \<in> set (rules cm)" for r
    proof (cases "area_consolidated (area r)")
      case True
      with nf r have "AnyMember \<notin> set (per_dim (area r))" by (auto simp: free_totals_def)
      from any [OF this, of True 0 k False] True show ?thesis by (simp add: area_matches_def)
    qed (simp add: area_matches_def)
    then show ?thesis unfolding governed_iff [OF assms] governed_iff [OF len] by (auto simp: leaf_scoped_def)
  qed
qed

text \<open>C11: Validation returns, and its report is exact up to the scope of the areas. Every leaf that a
  rule governs, that has a value other than zero and is not fed, is reported as under-fed; when no area
  for consolidated members leaves a dimension free, nothing else is, and in general the reported leaves
  are those of the rules with the scope of their areas forgotten (so a leaf that no rule governs may be
  reported: \<open>stored_leaf_reported_under_fed\<close>). Over-fed are exactly the fed coordinates whose value is
  zero, erroring exactly the walked and fed coordinates with no value (an error or a cycle).\<close>

theorem validation_reports_exactly:
  assumes "registry_ok reg" and "reg_cube reg n = Some c" and "reg_compiled reg n = Some cm"
    and "\<forall>k \<in> set idx. length k = rank c"
  shows "\<exists>F. \<forall>fuel \<ge> F. \<exists>diag. validate_feeders reg fuel n idx = Some (Inr diag) \<and>
     (let nonzero = (\<lambda>k. \<exists>v. settles (engine_new reg) n k v \<and> v \<noteq> 0); undefined = (\<lambda>k. \<forall>v. \<not> settles (engine_new reg) n k v) in
     {k. rule_governed c cm k \<and> k \<notin> set idx \<and> nonzero k} \<subseteq> set (under_fed diag) \<and>
     set (under_fed diag) = {k. rule_governed c (leaf_scoped cm) k \<and> k \<notin> set idx \<and> nonzero k} \<and>
     set (over_fed diag) = {k \<in> set idx. settles (engine_new reg) n k 0} \<and>
     fst ` set (erroring diag) = {k. (rule_governed c (leaf_scoped cm) k \<or> k \<in> set idx) \<and> undefined k} \<and>
     (\<not> free_totals cm \<longrightarrow>
        set (under_fed diag) = {k. rule_governed c cm k \<and> k \<notin> set idx \<and> nonzero k} \<and>
        fst ` set (erroring diag) = {k. (rule_governed c cm k \<or> k \<in> set idx) \<and> undefined k}))"
proof -
  from validate_returns [OF assms] obtain F where
    F: "\<forall>f \<ge> F. \<exists>diag. validate_feeders reg f n idx = Some (Inr diag)" by blast
  have wf: "cube_wf c" and "model_ok reg c cm" using assms(1-3) unfolding registry_ok_def by fastforce+
  then have len: "\<forall>r \<in> set (rules cm). length (per_dim (area r)) = rank c"
    by (simp add: model_ok_def rule_ok_def list_all_iff)
  note G = governed_leaf_scoped [OF len] and T = rule_targets_governed [OF wf len]
  let ?nz = "\<lambda>k. \<exists>v. settles (engine_new reg) n k v \<and> v \<noteq> 0" and ?un = "\<lambda>k. \<forall>v. \<not> settles (engine_new reg) n k v"
  show ?thesis
  proof (intro exI [of _ F] allI impI)
    fix fuel assume "F \<le> fuel"
    with F obtain diag where d: "validate_feeders reg fuel n idx = Some (Inr diag)" by blast
    note V = validate_spec [OF d assms(2,3), unfolded T]
    have u: "set (under_fed diag) = {k. rule_governed c (leaf_scoped cm) k \<and> k \<notin> set idx \<and> ?nz k}"
      unfolding V(1) by blast
    have e: "fst ` set (erroring diag) = {k. (rule_governed c (leaf_scoped cm) k \<or> k \<in> set idx) \<and> ?un k}"
      unfolding V(3) by blast
    have "{k. rule_governed c cm k \<and> k \<notin> set idx \<and> ?nz k} \<subseteq> set (under_fed diag)" unfolding u using G(1) by blast
    moreover have "set (under_fed diag) = {k. rule_governed c cm k \<and> k \<notin> set idx \<and> ?nz k} \<and>
        fst ` set (erroring diag) = {k. (rule_governed c cm k \<or> k \<in> set idx) \<and> ?un k}" if "\<not> free_totals cm"
      unfolding u e G(2) [OF that] by (intro conjI refl)
    ultimately show "\<exists>diag. validate_feeders reg fuel n idx = Some (Inr diag) \<and>
     (let nonzero = ?nz; undefined = ?un in
     {k. rule_governed c cm k \<and> k \<notin> set idx \<and> nonzero k} \<subseteq> set (under_fed diag) \<and>
     set (under_fed diag) = {k. rule_governed c (leaf_scoped cm) k \<and> k \<notin> set idx \<and> nonzero k} \<and>
     set (over_fed diag) = {k \<in> set idx. settles (engine_new reg) n k 0} \<and>
     fst ` set (erroring diag) = {k. (rule_governed c (leaf_scoped cm) k \<or> k \<in> set idx) \<and> undefined k} \<and>
     (\<not> free_totals cm \<longrightarrow>
        set (under_fed diag) = {k. rule_governed c cm k \<and> k \<notin> set idx \<and> nonzero k} \<and>
        fst ` set (erroring diag) = {k. (rule_governed c cm k \<or> k \<in> set idx) \<and> undefined k}))"
      unfolding Let_def using d u V(2) e by (intro exI [of _ diag] conjI) iprover+
  qed
qed

text \<open>C9: Once the gate has licensed cubes for the sparse read, every read of any cube, through any
  rules and rollups, returns what it returns with the sparse path off: the same value or the same
  error, or on both sides a cycle.\<close>

theorem licensed_reads_are_dense:
  assumes ok: "registry_ok reg"
    and dense: "value_of (engine_new (sparse_off reg)) f n k Map.empty = Some (r, m)"
    and sparse: "value_of (engine_new (licensed reg fuel)) f' n k Map.empty = Some (r', m')"
  shows "r' = r \<or> is_cycle r \<and> is_cycle r'"
proof -
  let ?e = "engine_new (sparse_off reg)" and ?e' = "engine_new (licensed reg fuel)"
  have off: "reg_fed_set (sparse_off reg) = (\<lambda>_. None)" by (simp add: sparse_off_def)
  have ok': "registry_ok (sparse_off reg)" by (rule sparse_off_ok [OF ok])
  have g: "gated (sparse_off reg) (licence reg fuel)"
    by (auto simp: gated_def licence_def split: option.splits sum.splits fed_gate.splits)
  have e': "?e' = engine_new ((sparse_off reg)\<lparr>reg_fed_set := licence reg fuel\<rparr>)"
    by (simp add: licensed_def sparse_off_def)
  note D = value_of_justified [OF dense memo_empty(1)] and S = value_of_justified [OF sparse memo_empty(1)]
  have conv: "r1 = r2" if "meaning eng j n k () = Some (r1, ())" "value_of eng fu n k Map.empty = Some (r2, mm)" for eng j r1 r2 fu mm
  proof -
    have "\<exists>mm. value_of eng (max fu j) n k Map.empty = Some (r1, mm)"
      using value_of_meaning [OF that(1), of "max fu j" Map.empty] by auto
    then show ?thesis using value_of_fuel [OF _ that(2), of "max fu j"] by auto
  qed
  show ?thesis
  proof (cases "\<exists>j. meaning ?e j n k () = Some (r, ())")
    case True
    then obtain j' where "meaning ?e' j' n k () = Some (r, ())"
      using licensed_follows_dense [OF off ok' g] unfolding e' by blast
    from conv [OF this sparse] show ?thesis by simp
  next
    case False
    with D have "is_cycle r" by blast
    moreover have "is_cycle r'"
    proof (rule ccontr)
      assume "\<not> is_cycle r'"
      with S obtain j where "meaning ?e' j n k () = Some (r', ())" by blast
      then obtain j' where j': "meaning ?e j' n k () = Some (r', ())"
        using dense_follows_licensed [OF off ok' g] unfolding e' by blast
      from conv [OF this dense] j' False show False by blast
    qed
    ultimately show ?thesis by simp
  qed
qed

text \<open>C10: On a compiled model whose dimension names differ, inference returns, and every leaf to which a
  rule gives a value other than zero is fed unless the rule is reported opaque, provided no rule reads an
  overridden gap: a coordinate of its own cube that has no leaf below it and that a rule overrides.
  \<open>overridden_gap_is_under_fed\<close> below is a model with such a gap, where the leaf is missed.\<close>

theorem inferred_feeders_complete:
  assumes ok: "registry_ok reg" and reg: "reg_cube reg n = Some c" "reg_compiled reg n = Some cm"
    and cr: "cr_ordinal cr (cube_name c) = Some n" "cr_cube cr n = Some c" "compile_doc c cr doc ver = Some (Inr cm)"
    and names: "distinct (map dim_name (dims c))" and gap: "\<not> overridden_gap c cm n"
  shows "\<exists>fi. infer_feeders c cm n = Some fi \<and>
     (\<forall>k rid v. in_range (dims c) k \<and> all_leaf_at c 0 k = Some True \<and> matching_rule cm c k = Some (Some rid) \<and>
        settles (engine_new (sparse_off reg)) n k v \<and> v \<noteq> 0 \<longrightarrow>
        k \<in> set (inf_index fi) \<or> rid \<in> opq_rule ` set (inf_opaque fi))"
proof -
  have wf: "cube_wf c" "model_ok (sparse_off reg) c cm"
    using sparse_off_ok [OF ok] reg unfolding registry_ok_def by (fastforce simp: sparse_off_def)+
  have io: "inputs_ok n c (rules cm)"
    using cr compiled_inputs_ok [OF cr(2) names cube_wf_D(1) [OF wf(1)]] by (auto simp: compile_doc_def)
  have sel: "reg_cube (sparse_off reg) n = Some c" "reg_compiled (sparse_off reg) n = Some cm" "reg_fed_set (sparse_off reg) n = None"
    using reg by (simp_all add: sparse_off_def)
  obtain fi where fi: "infer_feeders c cm n = Some fi" using infer_total [OF wf(2)] by blast
  have "k \<in> set (inf_index fi) \<or> rid \<in> opq_rule ` set (inf_opaque fi)"
    if k: "in_range (dims c) k" "all_leaf_at c 0 k = Some True" "matching_rule cm c k = Some (Some rid)" "v \<noteq> 0"
      and s: "settles (engine_new (sparse_off reg)) n k v" for k rid v
  proof -
    obtain j where "meaning (engine_new (sparse_off reg)) j n k () = Some (Inr v, ())" using s by (auto simp: settles_def)
    from nonzero_leaf_accounted [OF sel wf io gap fi this k(4,1,2)] k(3) show ?thesis by blast
  qed
  with fi show ?thesis by blast
qed

section \<open>Witnesses\<close>

text \<open>The ledger with the rule that makes C twice A.\<close>

lemma sample_off: "sparse_off sample_registry = sample_registry"
  by (simp add: sparse_off_def sample_registry_def)

lemma sample_cube [simp]: "reg_cube sample_registry 0 = Some sample_ledger" "reg_compiled sample_registry 0 = Some sample_rules"
  by (simp_all add: sample_registry_def)

lemma sample_settles: "settles (engine_new sample_registry) 0 [3] 60000"
proof -
  obtain m' where "value_of (engine_new sample_registry) 2 0 [3] Map.empty = Some (Inr 60000, m')"
    using sample_value by blast
  from read_settles [OF this memo_empty, of 60000] show ?thesis by simp
qed

lemma sample_targets: "rule_targets sample_ledger (rules sample_rules) = {[3]}"
  by (simp add: rule_targets_def sample_rules_def kind_selected_def get_element_def sample_region_eval is_leaf_def
      walk_coords_product)

lemma sample_governed: "rule_governed sample_ledger sample_rules k \<longleftrightarrow> k = [3]" "\<not> free_totals sample_rules"
proof -
  show f: "\<not> free_totals sample_rules" by (simp add: free_totals_def sample_rules_def)
  have len: "\<forall>r \<in> set (rules sample_rules). length (per_dim (area r)) = rank sample_ledger" by (simp add: sample_rules_def)
  have "cube_wf sample_ledger" by simp
  from rule_targets_governed [OF this len] sample_targets governed_leaf_scoped(2) [OF len f]
  show "rule_governed sample_ledger sample_rules k \<longleftrightarrow> k = [3]" by auto
qed

theorem validation_reports_exactly_witness:
  "\<exists>F. \<forall>fuel \<ge> F. \<exists>diag. validate_feeders sample_registry fuel 0 [] = Some (Inr diag) \<and>
     set (under_fed diag) = {[3]} \<and> over_fed diag = [] \<and> erroring diag = []"
proof -
  have "\<forall>k \<in> set []. length k = rank sample_ledger" by simp
  from validation_reports_exactly [OF sample_registry_ok sample_cube this] obtain F where
    F: "\<forall>fuel \<ge> F. \<exists>diag. validate_feeders sample_registry fuel 0 [] = Some (Inr diag) \<and>
     set (under_fed diag) = {k. k = [3] \<and> k \<notin> set [] \<and> (\<exists>v. settles (engine_new sample_registry) 0 k v \<and> v \<noteq> 0)} \<and>
     set (over_fed diag) = {k \<in> set []. settles (engine_new sample_registry) 0 k 0} \<and>
     fst ` set (erroring diag) = {k. (k = [3] \<or> k \<in> set []) \<and> (\<forall>v. \<not> settles (engine_new sample_registry) 0 k v)}"
    unfolding Let_def sample_governed(1) using sample_governed(2) by meson
  have 1: "{k. k = [3] \<and> k \<notin> set [] \<and> (\<exists>v. settles (engine_new sample_registry) 0 k v \<and> v \<noteq> 0)} = {[3]}"
    using sample_settles by auto
  have 2: "{k. (k = [3] \<or> k \<in> set []) \<and> (\<forall>v. \<not> settles (engine_new sample_registry) 0 k v)} = {}"
    using sample_settles by auto
  from F show ?thesis unfolding 1 2 by auto
qed

lemma sample_compile:
  "compile_doc sample_ledger (single_cube sample_ledger)
     [\<lparr>rule_area = \<lparr>area_scope = Unmarked,
         selectors = [\<lparr>sel_dimension = ''Region'', sel_kind = SelElement ''C'', sel_span = sample_span\<rparr>]\<rparr>,
       formula = EBin Mul (ECell \<lparr>ref_cube = None, overrides = [\<lparr>ov_dimension = ''Region'', ov_member = MemElement ''A''\<rparr>],
         mapping = [], ref_span = sample_span\<rparr>) (ENumber ''2''), rule_span = sample_span\<rparr>] 1 = Some (Inr sample_rules)"
proof -
  have n: "from_str ''2'' = Inr 20000"
  proof -
    have "display 20000 = ''2''" using chr_byte [of "CHR ''2''"]
      by (simp add: display_def SCALE_def Let_def dec.simps digit_def byte_def)
    then show ?thesis using from_str_display_eq [of 20000] by (simp add: in_i64_def i64_min_def i64_max_def)
  qed
  show ?thesis
    by (simp add: compile_doc_def single_cube_def compile_area_def n lower_cell_def lower_slot_def sample_rules_def
        dim_position_def resolve_selector_def resolve_member_def resolve_def index_of_def sample_region_eval
        targets_consolidated_def sample_span_def)
qed

lemma sample_no_gap: "\<not> overridden_gap sample_ledger sample_rules 0"
proof -
  have "leaf_weights sample_region 1 = Inr [(1, 1)]" by (simp add: leaf_weights_def get_element_def sample_region_eval)
  then show ?thesis by (auto simp: overridden_gap_def sample_rules_def)
qed

theorem inferred_feeders_complete_witness:
  "\<exists>fi. infer_feeders sample_ledger sample_rules 0 = Some fi \<and> ([3] \<in> set (inf_index fi) \<or> 0 \<in> opq_rule ` set (inf_opaque fi))"
proof -
  have cr: "cr_ordinal (single_cube sample_ledger) (cube_name sample_ledger) = Some 0"
    "cr_cube (single_cube sample_ledger) 0 = Some sample_ledger" by (simp_all add: single_cube_def)
  have k: "in_range (dims sample_ledger) [3]" "all_leaf_at sample_ledger 0 [3] = Some True"
    "matching_rule sample_rules sample_ledger [3] = Some (Some 0)"
    by (simp_all add: nth_dim_def get_element_def is_leaf_def matching_rule_def sample_rules_def area_matches_def
      sample_region_eval in_range_def)
  have s: "settles (engine_new (sparse_off sample_registry)) 0 [3] 60000"
    using sample_settles by (simp add: sample_off)
  have names: "distinct (map dim_name (dims sample_ledger))" by simp
  obtain fi where fi: "infer_feeders sample_ledger sample_rules 0 = Some fi" and
    all: "\<forall>k rid v. in_range (dims sample_ledger) k \<and> all_leaf_at sample_ledger 0 k = Some True \<and>
        matching_rule sample_rules sample_ledger k = Some (Some rid) \<and>
        settles (engine_new (sparse_off sample_registry)) 0 k v \<and> v \<noteq> 0 \<longrightarrow>
        k \<in> set (inf_index fi) \<or> rid \<in> opq_rule ` set (inf_opaque fi)"
    using inferred_feeders_complete [OF sample_registry_ok sample_cube cr sample_compile names sample_no_gap] by blast
  from all [rule_format, of "[3]" 0 60000] k s have "[3] \<in> set (inf_index fi) \<or> 0 \<in> opq_rule ` set (inf_opaque fi)"
    by simp
  with fi show ?thesis by blast
qed

lemma sample_stored: "[1] \<in> fst ` set (cell_entries sample_ledger)"
  using leaf_value_stored [of sample_ledger "[1]"] sample_ledger_facts by simp

lemma sample_infer: "infer_feeders sample_ledger sample_rules 0 = Some \<lparr>inf_index = [[3]], inf_opaque = []\<rparr>"
  using sample_stored
  by (simp add: infer_feeders_def sample_rules_def kind_selected_def get_element_def sample_region_eval is_leaf_def
      walk_coords_product feed_fixpoint.simps feeds_def input_potent_def nth_dim_def leaf_weights_def sat_i64_def
      i64_max_def i64_min_def checked_usize_def u64_max_def INPUT_EXPANSION_CAP_def cartesian_any_def Let_def
      feeder_insert_def insort_insert_key_def)

lemma sample_gets: "get sample_ledger [1] = Inr 30000" "get sample_ledger [2] = Inr 50000"
  using get_leaf_coord [of sample_ledger "[1]"] get_leaf_coord [of sample_ledger "[2]"] sample_ledger_facts by simp_all

lemma sample_leaf_meaning:
  "meaning (engine_new sample_registry) 2 0 [1] () = Some (Inr 30000, ())"
  "meaning (engine_new sample_registry) 2 0 [2] () = Some (Inr 50000, ())"
  "meaning (engine_new sample_registry) 2 0 [3] () = Some (Inr 60000, ())"
  using sample_gets
  by (simp_all add: eval_nat_numeral engine_new_def sample_registry_def compute_def mask_denies_def matching_rule_def
      sample_rules_def area_matches_def nth_dim_def eval_cell_def stored_or_rolled_def
      get_element_def sample_region_eval is_leaf_def calc_fixed_def checked_i64_def in_i64_def i64_min_def i64_max_def
      div_round_half_even_def tdiv_def trem_def SCALE_def Let_def)

lemma sample_all_settles: "settles (engine_new sample_registry) 0 [0] 140000"
proof -
  have r: "in_range (dims sample_ledger) [0]" "\<not> leaf_coord (dims sample_ledger) [0]" by simp_all
  then have chk: "check_coord sample_ledger [0] = Inr ()" "all_numeric_leaf sample_ledger [0] = Inr False"
    using check_coord_Inr [of sample_ledger "[0]"] all_leaf_Inr [of "dims sample_ledger" "[0]"]
    by (simp_all add: all_numeric_leaf_def)
  have w: "dim_weights (dims sample_ledger) [0] = Inr [[(1, 1), (2, 1), (3, 1)]]" by (simp add: sample_leaves)
  have wr: "wrap128 30000 = 30000" "wrap128 50000 = 50000" "wrap128 80000 = 80000" "wrap128 60000 = 60000"
    "wrap128 140000 = 140000" "wrap128 1 = 1" by (simp_all add: wrap128_def)
  have "run (meaning (engine_new sample_registry) 2) (consolidate_reads sample_ledger 0 [0] None) () = Some (Inr 140000, ())"
    unfolding consolidate_reads_def chk w
    by (simp add: sample_leaf_meaning [unfolded One_nat_def] wr checked_usize_def u64_max_def upt_rec to_fixed_def
      checked_i64_def in_i64_def i64_min_def i64_max_def del: meaning.simps)
  then have "meaning (engine_new sample_registry) 3 0 [0] () = Some (Inr 140000, ())"
    by (simp add: numeral_3_eq_3 numeral_2_eq_2 engine_new_def compute_def mask_denies_def Let_def sample_rules_def
      matching_rule_def area_matches_def stored_or_rolled_def nth_dim_def get_element_def sample_region_eval is_leaf_def fed_for_def
      sample_registry_def)
  then show ?thesis unfolding settles_def by blast
qed

lemma sample_licence: "\<exists>F. \<forall>fuel \<ge> F. licence sample_registry fuel 0 = Some [[3]]"
proof -
  have "\<forall>k \<in> set [[3]]. length k = rank sample_ledger" by simp
  from validate_returns [OF sample_registry_ok sample_cube this] obtain F where
    F: "\<forall>f \<ge> F. \<exists>diag. validate_feeders sample_registry f 0 [[3]] = Some (Inr diag)" by blast
  have "licence sample_registry fuel 0 = Some [[3]]" if le: "F \<le> fuel" for fuel
  proof -
    obtain diag where d: "validate_feeders sample_registry fuel 0 [[3]] = Some (Inr diag)" using F le by blast
    note V = validate_spec [OF d sample_cube, unfolded sample_targets]
    have "under_fed diag = []" using V(1) by simp
    moreover have "fst ` set (erroring diag) = {}" unfolding V(3) using sample_settles by auto
    then have "erroring diag = []" by simp
    moreover have "rules sample_rules \<noteq> []" by (simp add: sample_rules_def)
    ultimately show ?thesis by (simp add: licence_def sample_off safe_fed_set_def sample_infer d)
  qed
  then show ?thesis by blast
qed

lemma sample_licensed_ok:
  assumes "licence sample_registry fuel 0 = Some [[3]]"
  shows "registry_ok (licensed sample_registry fuel)"
proof -
  have "licence sample_registry fuel n = None" if "n \<noteq> 0" for n
    using that by (simp add: licence_def safe_fed_set_def sample_off) (simp add: sample_registry_def)
  with assms show ?thesis
    by (auto simp: registry_ok_def licensed_def sample_registry_def model_ok_def rule_ok_def cell_ok_def sample_rules_def
      split: if_splits)
qed

theorem licensed_reads_are_dense_witness:
  "\<exists>fuel f m. licence sample_registry fuel 0 = Some [[3]] \<and>
     value_of (engine_new (licensed sample_registry fuel)) f 0 [0] Map.empty = Some (Inr 140000, m)"
proof -
  obtain fuel where l: "licence sample_registry fuel 0 = Some [[3]]" using sample_licence by blast
  have "\<exists>F. \<forall>f \<ge> F. \<forall>m. \<exists>r m'. value_of (engine_new (licensed sample_registry fuel)) f 0 [0] m = Some (r, m') \<and>
      marks (engine_new (licensed sample_registry fuel)) m' = marks (engine_new (licensed sample_registry fuel)) m"
    by (rule read_returns) (use sample_licensed_ok [OF l] in \<open>simp_all add: engine_new_def licensed_def sample_registry_def\<close>)
  then obtain f' r' m' where s: "value_of (engine_new (licensed sample_registry fuel)) f' 0 [0] Map.empty = Some (r', m')"
    by blast
  obtain j where j: "meaning (engine_new sample_registry) j 0 [0] () = Some (Inr 140000, ())"
    using sample_all_settles by (auto simp: settles_def)
  from value_of_meaning [OF this le_refl memo_empty(1)] obtain m where
    d: "value_of (engine_new (sparse_off sample_registry)) j 0 [0] Map.empty = Some (Inr 140000, m)"
    by (auto simp: sample_off)
  from licensed_reads_are_dense [OF sample_registry_ok d s] have "r' = Inr 140000" by (auto simp: is_cycle_def)
  with l s show ?thesis by blast
qed

section \<open>What the documents promise and the code does not do\<close>

text \<open>A leaf that copies a consolidation without leaves which a rule overrides is not fed, although its value
  is not zero and no rule is reported opaque: the test for a leaf comes before the test for the override.\<close>

definition sample_gap :: dimension where
  "sample_gap = run_ops [OpAddElement ''A'' Leaf, OpAddElement ''E'' Consolidated] (dim_new ''Region'')"

definition gap_cube :: cube where
  "gap_cube = (case cube_new ''Gap'' [sample_gap] of Inr c \<Rightarrow> c)"

definition gap_rules :: compiled_model where
  "gap_rules = \<lparr>version = 1, rules =
     [\<lparr>area = \<lparr>per_dim = [OneOf [1]], area_consolidated = False\<rparr>, cexpr = CNum 50000, crule_span = sample_span\<rparr>,
      \<lparr>area = \<lparr>per_dim = [OneOf [0]], area_consolidated = False\<rparr>,
        cexpr = CCell \<lparr>cell_cube = 0, addr = [Pinned 1]\<rparr>, crule_span = sample_span\<rparr>]\<rparr>"

definition gap_registry :: registry where
  "gap_registry = \<lparr>reg_cube = [0 \<mapsto> gap_cube], reg_compiled = [0 \<mapsto> gap_rules],
     reg_ordinal = Map.empty, reg_compile_error = Map.empty, reg_fed_set = Map.empty\<rparr>"

lemma sample_gap_wf [simp]: "dim_wf sample_gap"
  unfolding sample_gap_def by (rule run_new_wf) (simp_all add: u32_max_def)

lemma gap_dims: "dims gap_cube = [sample_gap]"
  by (simp add: gap_cube_def cube_new_def Let_def)

theorem overridden_gap_is_under_fed:
  "overridden_gap gap_cube gap_rules 0 \<and>
   infer_feeders gap_cube gap_rules 0 = Some \<lparr>inf_index = [], inf_opaque = []\<rparr> \<and>
   settles (engine_new gap_registry) 0 [0] 50000"
proof (intro conjI)
  have e: "sample_gap = run_ops [OpAddElement ''A'' Leaf, OpAddElement ''E'' Consolidated] (dim_new ''Region'')"
    by (rule sample_gap_def)
  have "in_range (dims gap_cube) [0]" "all_leaf_at gap_cube 0 [0] = Some True" "dim_weights (dims gap_cube) [1] = Inr [[]]"
    "matching_rule gap_rules gap_cube [1] \<noteq> Some None"
    by (simp_all add: gap_dims in_range_def nth_dim_def get_element_def is_leaf_def leaf_weights_def e run_eval
      matching_rule_def gap_rules_def area_matches_def)
  then show "overridden_gap gap_cube gap_rules 0"
    unfolding overridden_gap_def
    by (intro bexI [of _ "rules gap_rules ! 1"] bexI [of _ "\<lparr>cell_cube = 0, addr = [Pinned 1]\<rparr>"] exI [of _ "[0]"]
      exI [of _ "[1]"] exI [of _ "[[]]"]) (simp_all add: gap_rules_def area_matches_def)
  show "infer_feeders gap_cube gap_rules 0 = Some \<lparr>inf_index = [], inf_opaque = []\<rparr>"
    by (simp add: infer_feeders_def gap_rules_def gap_dims e run_eval kind_selected_def get_element_def is_leaf_def
      walk_coords_product feed_fixpoint.simps feeds_def input_potent_def nth_dim_def leaf_weights_def Let_def)
  have "meaning (engine_new gap_registry) 2 0 [0] () = Some (Inr 50000, ())"
    by (simp add: numeral_2_eq_2 engine_new_def gap_registry_def compute_def mask_denies_def Let_def gap_rules_def
      matching_rule_def area_matches_def eval_cell_def)
  then show "settles (engine_new gap_registry) 0 [0] 50000" unfolding settles_def by blast
qed

text \<open>A rule whose area matches consolidated members only counts the leaves of its free dimensions as
  its targets, so a stored leaf that no rule touches is reported as under-fed.\<close>

definition total_rule :: compiled_model where
  "total_rule = \<lparr>version = 1, rules =
     [\<lparr>area = \<lparr>per_dim = [AnyMember], area_consolidated = True\<rparr>, cexpr = CNum 0, crule_span = sample_span\<rparr>]\<rparr>"

theorem stored_leaf_reported_under_fed:
  "matching_rule total_rule sample_ledger [1] = Some None \<and> [1] \<in> fst ` set (cell_entries sample_ledger) \<and>
   infer_feeders sample_ledger total_rule 0 = Some \<lparr>inf_index = [], inf_opaque = []\<rparr> \<and>
   (\<exists>fuel. safe_fed_set (sample_registry\<lparr>reg_compiled := [0 \<mapsto> total_rule]\<rparr>) fuel 0 = Some (Inr (Dense ''under-fed'')))"
proof (intro conjI)
  let ?reg = "sample_registry\<lparr>reg_compiled := [0 \<mapsto> total_rule]\<rparr>"
  show m: "matching_rule total_rule sample_ledger [1] = Some None"
    by (simp add: total_rule_def matching_rule_def area_matches_def nth_dim_def get_element_def sample_region_eval is_leaf_def)
  show "[1] \<in> fst ` set (cell_entries sample_ledger)" by (rule sample_stored)
  show i: "infer_feeders sample_ledger total_rule 0 = Some \<lparr>inf_index = [], inf_opaque = []\<rparr>"
    by (simp add: infer_feeders_def total_rule_def kind_selected_def get_element_def sample_region_eval is_leaf_def
      feed_fixpoint.simps Let_def)
  have reg: "reg_cube ?reg 0 = Some sample_ledger" "reg_compiled ?reg 0 = Some total_rule"
    by (simp_all add: sample_registry_def)
  have ok: "registry_ok ?reg" by (auto simp: registry_ok_def sample_registry_def model_ok_def rule_ok_def total_rule_def)
  have "\<forall>k \<in> set []. length k = rank sample_ledger" by simp
  from validate_returns [OF ok reg this] obtain fuel diag where
    d: "validate_feeders ?reg fuel 0 [] = Some (Inr diag)" by blast
  have "meaning (engine_new ?reg) 1 0 [1] () = Some (Inr 30000, ())"
    using m sample_gets
    by (simp add: engine_new_def compute_def mask_denies_def Let_def reg stored_or_rolled_def)
      (simp add: stored_or_rolled_def sample_registry_def nth_dim_def get_element_def sample_region_eval is_leaf_def)
  then have "settles (engine_new ?reg) 0 [1] 30000" unfolding settles_def by blast
  moreover have "[1] \<in> rule_targets sample_ledger (rules total_rule)"
    by (simp add: rule_targets_def total_rule_def set_walk_coords kind_selected_def get_element_def sample_region_eval
      is_leaf_def as_u32_def dim_len_def)
  ultimately have "[1] \<in> set (under_fed diag)" unfolding validate_spec(1) [OF d reg] by force
  then have "under_fed diag \<noteq> []" by auto
  moreover have "rules total_rule \<noteq> []" by (simp add: total_rule_def)
  ultimately have "safe_fed_set ?reg fuel 0 = Some (Inr (Dense ''under-fed''))"
    by (simp add: safe_fed_set_def reg i d)
  then show "\<exists>fuel. safe_fed_set ?reg fuel 0 = Some (Inr (Dense ''under-fed''))" by blast
qed

end
