(* ===== verification/Wal.thy ===== *)
theory Wal
  imports Rust_String Fixed_Value "HOL-Library.Sublist"
begin

text \<open>
  The write-ahead log (\<open>crates/epiphany-persist/src/wal.rs\<close>): records framed as length,
  payload and CRC32, little-endian. A byte is an \<open>8 word\<close>; the scan of a file works on the
  bytes from the current position on. A \<open>String\<close> is its UTF-8 bytes as a \<open>string\<close>, and
  \<open>str::from_utf8\<close> is the check \<open>utf8_valid\<close>.
\<close>

unbundle bit_operations_syntax

type_synonym byte8 = "8 word"

section \<open>Little-endian integers\<close>

primrec le_bytes :: "nat \<Rightarrow> nat \<Rightarrow> byte8 list" where
  "le_bytes 0 n = []"
| "le_bytes (Suc k) n = of_nat n # le_bytes k (n div 256)"

fun from_le :: "byte8 list \<Rightarrow> nat" where
  "from_le [] = 0"
| "from_le (b # bs) = unat b + 256 * from_le bs"

definition u64_of_i64 :: "int \<Rightarrow> nat" where
  "u64_of_i64 v = nat (v mod 2 ^ 64)"

definition i64_of_u64 :: "nat \<Rightarrow> int" where
  "i64_of_u64 n = wrap64 (int n)"

definition string_bytes :: "string \<Rightarrow> byte8 list" where
  "string_bytes s = map (\<lambda>c. of_nat (byte c)) s"

definition bytes_string :: "byte8 list \<Rightarrow> string" where
  "bytes_string bs = map (\<lambda>b. chr (unat b)) bs"

text \<open>The well-formed byte sequences of UTF-8 (\<open>std::str::from_utf8\<close>).\<close>

definition continuation :: "byte8 \<Rightarrow> bool" where
  "continuation b \<longleftrightarrow> 0x80 \<le> b \<and> b \<le> 0xBF"

fun utf8_valid :: "byte8 list \<Rightarrow> bool" where
  "utf8_valid [] = True"
| "utf8_valid (a # r) =
     (if a \<le> 0x7F then utf8_valid r
      else if 0xC2 \<le> a \<and> a \<le> 0xDF then
        (case r of b # r' \<Rightarrow> continuation b \<and> utf8_valid r' | _ \<Rightarrow> False)
      else if 0xE0 \<le> a \<and> a \<le> 0xEF then
        (case r of b # c # r' \<Rightarrow>
           continuation b \<and> continuation c \<and> (a = 0xE0 \<longrightarrow> 0xA0 \<le> b) \<and> (a = 0xED \<longrightarrow> b \<le> 0x9F) \<and> utf8_valid r'
         | _ \<Rightarrow> False)
      else if 0xF0 \<le> a \<and> a \<le> 0xF4 then
        (case r of b # c # d # r' \<Rightarrow>
           continuation b \<and> continuation c \<and> continuation d \<and> (a = 0xF0 \<longrightarrow> 0x90 \<le> b) \<and> (a = 0xF4 \<longrightarrow> b \<le> 0x8F)
           \<and> utf8_valid r'
         | _ \<Rightarrow> False)
      else False)"

section \<open>Checksum\<close>

primrec crc_steps :: "nat \<Rightarrow> 32 word \<Rightarrow> 32 word" where
  "crc_steps 0 crc = crc"
| "crc_steps (Suc j) crc =
     crc_steps j (if crc AND 1 = 1 then drop_bit 1 crc XOR 0xEDB88320 else drop_bit 1 crc)"

definition crc32_table :: "nat \<Rightarrow> 32 word" where
  "crc32_table i = crc_steps 8 (of_nat i)"

definition crc32 :: "byte8 list \<Rightarrow> 32 word" where
  "crc32 bytes =
     foldl (\<lambda>crc b. drop_bit 8 crc XOR crc32_table (unat ((crc XOR ucast b) AND 0xFF))) 0xFFFFFFFF bytes
       XOR 0xFFFFFFFF"

text \<open>An entry of the table is computed when its index is a numeral.\<close>

lemma crc_steps_8: "crc_steps 8 crc = crc_steps (Suc (Suc (Suc (Suc (Suc (Suc (Suc (Suc 0)))))))) crc"
  by (metis eval_nat_numeral(2,3) One_nat_def semiring_norm(26-28) numeral_One)

lemma crc_table_numeral:
  "crc32_table (numeral n) = crc_steps (Suc (Suc (Suc (Suc (Suc (Suc (Suc (Suc 0)))))))) (numeral n)"
  by (simp only: crc32_table_def crc_steps_8 of_nat_numeral)

section \<open>Records\<close>

datatype wal_record =
    SetLeaf "nat list" fixed
  | SetString "nat list" string
  | BatchBegin nat
  | BatchEnd
  | SetPin string string bool

definition WAL_MAGIC :: "byte8 list" where "WAL_MAGIC = string_bytes ''EPIWAL''"
definition WAL_VERSION :: nat where "WAL_VERSION = 1"
definition WAL_HEADER_LEN :: nat where "WAL_HEADER_LEN = 8"

definition header :: "byte8 list" where
  "header = WAL_MAGIC @ le_bytes 2 WAL_VERSION"

definition write_coord :: "nat list \<Rightarrow> byte8 list" where
  "write_coord coord = le_bytes 2 (length coord) @ concat (map (le_bytes 4) coord)"

definition write_str :: "string \<Rightarrow> byte8 list" where
  "write_str s = le_bytes 4 (length (string_bytes s)) @ string_bytes s"

fun payload :: "wal_record \<Rightarrow> byte8 list" where
  "payload (SetLeaf coord v) = 1 # write_coord coord @ le_bytes 8 (u64_of_i64 v)"
| "payload (SetString coord s) = 2 # write_coord coord @ write_str s"
| "payload (BatchBegin cnt) = 3 # le_bytes 4 cnt"
| "payload BatchEnd = [4]"
| "payload (SetPin d e p) = 5 # write_str d @ write_str e @ [if p then 1 else 0]"

definition encode :: "wal_record \<Rightarrow> byte8 list" where
  "encode r = le_bytes 4 (length (payload r)) @ payload r @ le_bytes 4 (unat (crc32 (payload r)))"

section \<open>Decoding\<close>

text \<open>\<open>rest.get(0..n)\<close> with what follows.\<close>

definition split_bytes :: "nat \<Rightarrow> byte8 list \<Rightarrow> (byte8 list \<times> byte8 list) option" where
  "split_bytes n bs = (if n \<le> length bs then Some (take n bs, drop n bs) else None)"

fun read_indices :: "nat \<Rightarrow> byte8 list \<Rightarrow> (nat list \<times> byte8 list) option" where
  "read_indices 0 bs = Some ([], bs)"
| "read_indices (Suc k) bs =
     (case split_bytes 4 bs of
        None \<Rightarrow> None
      | Some (w, rest) \<Rightarrow> map_option (\<lambda>(is, r). (from_le w # is, r)) (read_indices k rest))"

definition read_coord :: "byte8 list \<Rightarrow> (nat list \<times> byte8 list) option" where
  "read_coord bs = (case split_bytes 2 bs of None \<Rightarrow> None | Some (w, rest) \<Rightarrow> read_indices (from_le w) rest)"

definition read_str :: "byte8 list \<Rightarrow> (string \<times> byte8 list) option" where
  "read_str bs =
     (case split_bytes 4 bs of
        None \<Rightarrow> None
      | Some (w, rest) \<Rightarrow>
          (case split_bytes (from_le w) rest of
             None \<Rightarrow> None
           | Some (s, rest') \<Rightarrow> if utf8_valid s then Some (bytes_string s, rest') else None))"

definition decode :: "byte8 list \<Rightarrow> wal_record option" where
  "decode bs =
     (case bs of
        [] \<Rightarrow> None
      | op1 # rest \<Rightarrow>
          if op1 = 1 then
            Option.bind (read_coord rest) (\<lambda>(coord, r).
              map_option (\<lambda>(w, _). SetLeaf coord (i64_of_u64 (from_le w))) (split_bytes 8 r))
          else if op1 = 2 then
            Option.bind (read_coord rest) (\<lambda>(coord, r).
              map_option (\<lambda>(s, _). SetString coord s) (read_str r))
          else if op1 = 3 then
            map_option (\<lambda>(w, _). BatchBegin (from_le w)) (split_bytes 4 rest)
          else if op1 = 4 then Some BatchEnd
          else if op1 = 5 then
            Option.bind (read_str rest) (\<lambda>(d, r).
            Option.bind (read_str r) (\<lambda>(e, r').
              case r' of [] \<Rightarrow> None | b # _ \<Rightarrow> Some (SetPin d e (b \<noteq> 0))))
          else None)"

section \<open>Scanning a log\<close>

record replay_result =
  rp_records :: "wal_record list"
  good_len :: nat
  corrupt_with_valid_tail :: bool

text \<open>The frame at the head of the bytes: the payload, and the bytes after the checksum.\<close>

definition split_frame :: "byte8 list \<Rightarrow> (byte8 list \<times> byte8 list \<times> byte8 list) option" where
  "split_frame bs =
     (let len = from_le (take 4 bs) in
      if 4 + len + 4 \<le> length bs
      then Some (take len (drop 4 bs), take 4 (drop (4 + len) bs), drop (4 + len + 4) bs) else None)"

definition intact_frame :: "byte8 list \<Rightarrow> wal_record option" where
  "intact_frame bs =
     (case split_frame bs of
        None \<Rightarrow> None
      | Some (pl, crc, _) \<Rightarrow> if crc32 pl = of_nat (from_le crc) then decode pl else None)"

fun has_intact_frame :: "byte8 list \<Rightarrow> bool" where
  "has_intact_frame [] = False"
| "has_intact_frame (b # bs) =
     (4 \<le> length (b # bs) \<and> (intact_frame (b # bs) \<noteq> None \<or> has_intact_frame bs))"

definition has_intact_frame_after :: "byte8 list \<Rightarrow> bool" where
  "has_intact_frame_after bs = has_intact_frame (drop 1 bs)"

text \<open>The scan: the bytes from \<open>pos\<close> on, the end of the last committed frame, the committed
  records and the open batch. The result has the bytes at a bad frame, if one stopped it.\<close>

function replay_loop :: "byte8 list \<Rightarrow> nat \<Rightarrow> nat \<Rightarrow> wal_record list \<Rightarrow> wal_record list option
    \<Rightarrow> wal_record list \<times> nat \<times> byte8 list option" where
  "replay_loop bs pos good recs batch =
     (if length bs < 4 then (recs, good, None)
      else case split_frame bs of
        None \<Rightarrow> (recs, good, Some bs)
      | Some (pl, crc, rest) \<Rightarrow>
          if crc32 pl \<noteq> of_nat (from_le crc) then (recs, good, Some bs)
          else case decode pl of
            None \<Rightarrow> (recs, good, Some bs)
          | Some r \<Rightarrow>
              let frame_end = pos + (length bs - length rest) in
              case r of
                BatchBegin _ \<Rightarrow> replay_loop rest frame_end good recs (Some [])
              | BatchEnd \<Rightarrow>
                  (case batch of
                     Some buffered \<Rightarrow> replay_loop rest frame_end frame_end (recs @ buffered) None
                   | None \<Rightarrow> (recs, good, Some bs))
              | cell \<Rightarrow>
                  (case batch of
                     Some buffered \<Rightarrow> replay_loop rest frame_end good recs (Some (buffered @ [cell]))
                   | None \<Rightarrow> replay_loop rest frame_end frame_end (recs @ [cell]) None))"
  by pat_completeness auto
termination
  by (relation "measure (\<lambda>(bs, _). length bs)") (auto simp: split_frame_def Let_def split: if_splits)

declare replay_loop.simps [simp del]

definition replay :: "byte8 list \<Rightarrow> unit + replay_result" where
  "replay bytes =
     (if length bytes < WAL_HEADER_LEN \<or> take 6 bytes \<noteq> WAL_MAGIC
         \<or> from_le (take 2 (drop 6 bytes)) \<noteq> WAL_VERSION
      then Inl ()
      else case replay_loop (drop WAL_HEADER_LEN bytes) WAL_HEADER_LEN WAL_HEADER_LEN [] None of
        (recs, good, stop) \<Rightarrow>
          Inr \<lparr>rp_records = recs, good_len = good,
               corrupt_with_valid_tail = (case stop of None \<Rightarrow> False | Some bs \<Rightarrow> has_intact_frame_after bs)\<rparr>)"

section \<open>Round trips\<close>

lemma length_le_bytes [simp]: "length (le_bytes k n) = k"
  by (induction k arbitrary: n) auto

lemma from_le_le_bytes [simp]: "from_le (le_bytes k n) = n mod 256 ^ k"
proof (induction k arbitrary: n)
  case (Suc k)
  have "unat (of_nat n :: byte8) = n mod 256" by (simp add: unat_of_nat)
  with Suc show ?case by (simp add: mod_mult2_eq)
qed simp

lemma bytes_string_bytes [simp]: "bytes_string (string_bytes s) = s"
  by (induction s) (simp_all add: string_bytes_def bytes_string_def unat_of_nat take_bit_eq_mod)

lemma length_string_bytes [simp]: "length (string_bytes s) = length s"
  by (simp add: string_bytes_def)

lemma i64_u64 [simp]: "in_i64 v \<Longrightarrow> i64_of_u64 (u64_of_i64 v mod 18446744073709551616) = v"
proof -
  assume v: "in_i64 v"
  have "int (u64_of_i64 v) = v mod 2 ^ 64" by (simp add: u64_of_i64_def)
  then have "int (u64_of_i64 v mod 18446744073709551616) = v mod 2 ^ 64" by (simp add: zmod_int)
  then have "i64_of_u64 (u64_of_i64 v mod 18446744073709551616) = wrap64 (v mod 2 ^ 64)"
    by (simp add: i64_of_u64_def)
  also have "\<dots> = wrap64 v" by (simp add: wrap64_def mod_add_left_eq)
  finally show ?thesis using v by simp
qed

lemma split_bytes_append [simp]: "length a = n \<Longrightarrow> split_bytes n (a @ b) = Some (a, b)"
  by (auto simp: split_bytes_def)

lemma read_indices_write:
  "\<forall>i \<in> set is. i < 2 ^ 32 \<Longrightarrow> read_indices (length is) (concat (map (le_bytes 4) is) @ r) = Some (is, r)"
  by (induction "is") simp_all

lemma read_coord_write:
  "length coord < 2 ^ 16 \<Longrightarrow> \<forall>i \<in> set coord. i < 2 ^ 32 \<Longrightarrow> read_coord (write_coord coord @ r) = Some (coord, r)"
  by (simp add: read_coord_def write_coord_def read_indices_write)

lemma read_str_write:
  "utf8_valid (string_bytes s) \<Longrightarrow> length s < 2 ^ 32 \<Longrightarrow> read_str (write_str s @ r) = Some (s, r)"
  by (simp add: read_str_def write_str_def)

text \<open>A record whose integers fit their fields and whose strings are UTF-8.\<close>

fun record_ok :: "wal_record \<Rightarrow> bool" where
  "record_ok (SetLeaf coord v) = (length coord < 2 ^ 16 \<and> (\<forall>i \<in> set coord. i < 2 ^ 32) \<and> in_i64 v)"
| "record_ok (SetString coord s) =
     (length coord < 2 ^ 16 \<and> (\<forall>i \<in> set coord. i < 2 ^ 32) \<and> utf8_valid (string_bytes s) \<and> length s < 2 ^ 31)"
| "record_ok (BatchBegin cnt) = (cnt < 2 ^ 32)"
| "record_ok BatchEnd = True"
| "record_ok (SetPin d e p) =
     (utf8_valid (string_bytes d) \<and> utf8_valid (string_bytes e) \<and> length d < 2 ^ 30 \<and> length e < 2 ^ 30)"

lemma decode_payload: "record_ok r \<Longrightarrow> decode (payload r) = Some r"
proof (cases r)
  case (SetLeaf coord v)
  assume "record_ok r"
  then show ?thesis
    using split_bytes_append [of "le_bytes 8 (u64_of_i64 v)" 8 "[]"] read_coord_write [of coord]
    by (simp add: SetLeaf decode_def)
next
  case (SetString coord s)
  assume "record_ok r"
  then show ?thesis
    using read_str_write [of s "[]"] read_coord_write [of coord] by (simp add: SetString decode_def)
next
  case (BatchBegin cnt)
  assume "record_ok r"
  then show ?thesis
    using split_bytes_append [of "le_bytes 4 cnt" 4 "[]"] by (simp add: BatchBegin decode_def)
next
  case (SetPin d e p)
  assume "record_ok r"
  then show ?thesis using read_str_write [of d] read_str_write [of e] by (simp add: SetPin decode_def)
qed (simp add: decode_def)

section \<open>Frames\<close>

lemma length_payload:
  "record_ok r \<Longrightarrow> length (payload r) < 2 ^ 32"
  by (cases r) (auto simp: write_coord_def write_str_def length_concat o_def sum_list_triv)

lemma split_frame_encode [simp]:
  "record_ok r \<Longrightarrow> split_frame (encode r @ rest) = Some (payload r, le_bytes 4 (unat (crc32 (payload r))), rest)"
  using length_payload [of r] by (simp add: split_frame_def encode_def)

lemma crc_field [simp]: "unat (w :: 32 word) mod 4294967296 = unat w"
  using unsigned_less [of w, where 'a = nat] by simp

lemma intact_frame_encode: "record_ok r \<Longrightarrow> intact_frame (encode r @ rest) = Some r"
  by (simp add: intact_frame_def decode_payload)

lemma length_encode: "length (encode r) = length (payload r) + 8"
  by (simp add: encode_def)

lemma replay_frame:
  assumes "record_ok r"
  shows "replay_loop (encode r @ rest) pos good recs batch =
    (case r of
       BatchBegin _ \<Rightarrow> replay_loop rest (pos + length (encode r)) good recs (Some [])
     | BatchEnd \<Rightarrow>
         (case batch of
            Some buffered \<Rightarrow> replay_loop rest (pos + length (encode r)) (pos + length (encode r)) (recs @ buffered) None
          | None \<Rightarrow> (recs, good, Some (encode r @ rest)))
     | cell \<Rightarrow>
         (case batch of
            Some buffered \<Rightarrow> replay_loop rest (pos + length (encode r)) good recs (Some (buffered @ [cell]))
          | None \<Rightarrow> replay_loop rest (pos + length (encode r)) (pos + length (encode r)) (recs @ [cell]) None))"
proof -
  let ?bs = "encode r @ rest"
  have long: "\<not> length ?bs < 4" by (simp add: length_encode)
  have pos: "pos + (length ?bs - length rest) = pos + length (encode r)" by simp
  have crc: "crc32 (payload r) = of_nat (from_le (le_bytes 4 (unat (crc32 (payload r)))))" by simp
  show ?thesis
    using assms crc
    unfolding replay_loop.simps [of ?bs pos good recs batch] split_frame_encode [OF assms]
    by (simp only: long if_False option.case prod.case decode_payload [OF assms] Let_def pos
        not_True_eq_False simp_thms)
qed

section \<open>Appended writes\<close>

text \<open>What the store appends in one step: a record of its own, or the frames of a batch.\<close>

datatype append = Single wal_record | Batch "wal_record list"

fun append_records :: "append \<Rightarrow> wal_record list" where
  "append_records (Single r) = [r]"
| "append_records (Batch rs) = rs"

fun append_bytes :: "append \<Rightarrow> byte8 list" where
  "append_bytes (Single r) = encode r"
| "append_bytes (Batch rs) =
     encode (BatchBegin (length rs)) @ concat (map encode rs) @ encode BatchEnd"

fun cell_record :: "wal_record \<Rightarrow> bool" where
  "cell_record (BatchBegin _) = False"
| "cell_record BatchEnd = False"
| "cell_record r = True"

fun append_ok :: "append \<Rightarrow> bool" where
  "append_ok (Single r) = (record_ok r \<and> cell_record r)"
| "append_ok (Batch rs) = ((\<forall>r \<in> set rs. record_ok r \<and> cell_record r) \<and> length rs < 2 ^ 32)"

definition log_bytes :: "append list \<Rightarrow> byte8 list" where
  "log_bytes us = header @ concat (map append_bytes us)"

lemma replay_cell_single:
  "record_ok r \<Longrightarrow> cell_record r \<Longrightarrow>
   replay_loop (encode r @ rest) pos good recs None =
   replay_loop rest (pos + length (encode r)) (pos + length (encode r)) (recs @ [r]) None"
  by (cases r) (simp_all only: replay_frame wal_record.case option.case cell_record.simps)

lemma replay_cell_batch:
  "record_ok r \<Longrightarrow> cell_record r \<Longrightarrow>
   replay_loop (encode r @ rest) pos good recs (Some buf) =
   replay_loop rest (pos + length (encode r)) good recs (Some (buf @ [r]))"
  by (cases r) (simp_all only: replay_frame wal_record.case option.case cell_record.simps)

lemma replay_cells_batch:
  "\<forall>r \<in> set rs. record_ok r \<and> cell_record r \<Longrightarrow>
   replay_loop (concat (map encode rs) @ rest) pos good recs (Some buf) =
   replay_loop rest (pos + length (concat (map encode rs))) good recs (Some (buf @ rs))"
  by (induction rs arbitrary: pos buf) (simp_all add: replay_cell_batch add.assoc)

lemma replay_append:
  "append_ok u \<Longrightarrow>
   replay_loop (append_bytes u @ rest) pos good recs None =
   replay_loop rest (pos + length (append_bytes u)) (pos + length (append_bytes u)) (recs @ append_records u) None"
proof (cases u)
  case (Batch rs)
  assume "append_ok u"
  then have ok: "\<forall>r \<in> set rs. record_ok r \<and> cell_record r" "length rs < 2 ^ 32" by (simp_all add: Batch)
  then have begin_ok: "record_ok (BatchBegin (length rs))" and end_ok: "record_ok BatchEnd" by simp_all
  show ?thesis
    by (simp add: Batch replay_frame [OF begin_ok] replay_frame [OF end_ok] replay_cells_batch [OF ok(1)]
        add.assoc)
qed (simp add: replay_cell_single)

lemma replay_appends:
  "\<forall>u \<in> set us. append_ok u \<Longrightarrow>
   replay_loop (concat (map append_bytes us) @ rest) pos good recs None =
   replay_loop rest (pos + length (concat (map append_bytes us))) 
     (if us = [] then good else pos + length (concat (map append_bytes us)))
     (recs @ concat (map append_records us)) None"
  by (induction us arbitrary: pos good recs) (auto simp: replay_append add.assoc)

section \<open>Torn writes\<close>

text \<open>A proper prefix of a frame ends the scan where it starts.\<close>

lemma replay_torn_frame:
  assumes "record_ok r" and torn: "strict_prefix torn (encode r)"
  shows "replay_loop torn pos good recs batch = (recs, good, if length torn < 4 then None else Some torn)"
proof (cases "length torn < 4")
  case False
  from torn obtain more where more: "encode r = torn @ more" "more \<noteq> []" by (auto elim: strict_prefixE')
  have "take 4 torn = take 4 (encode r)" using False by (simp add: more)
  also have "\<dots> = le_bytes 4 (length (payload r))" by (simp add: encode_def)
  finally have "from_le (take 4 torn) = length (payload r)" using length_payload [OF assms(1)] by simp
  moreover have "length torn < length (encode r)" by (simp add: more)
  ultimately have "split_frame torn = None" by (simp add: split_frame_def length_encode)
  then show ?thesis using False by (simp add: replay_loop.simps)
qed (simp add: replay_loop.simps)

text \<open>A proper prefix of several frames: some whole frames, and a proper prefix of the next.\<close>

lemma strict_prefix_concat:
  "strict_prefix xs (concat (map f ys)) \<Longrightarrow>
   \<exists>as a bs torn. ys = as @ a # bs \<and> xs = concat (map f as) @ torn \<and> strict_prefix torn (f a)"
proof (induction ys arbitrary: xs)
  case (Cons y ys)
  then have pre: "prefix xs (f y @ concat (map f ys))" and ne: "xs \<noteq> f y @ concat (map f ys)"
    by (auto simp: strict_prefix_def)
  show ?case
  proof (cases "strict_prefix xs (f y)")
    case True
    then show ?thesis by (metis append_Nil concat.simps(1) list.simps(8))
  next
    case False
    then obtain zs where xs: "xs = f y @ zs" and "prefix zs (concat (map f ys))"
      using pre by (metis append_Nil2 prefix_append prefix_order.le_less Nil_prefix)
    with ne have zs: "xs = f y @ zs" "strict_prefix zs (concat (map f ys))"
      by (simp_all add: strict_prefix_def)
    from Cons.IH [OF zs(2)] obtain as a bs torn
      where "ys = as @ a # bs" "zs = concat (map f as) @ torn" "strict_prefix torn (f a)" by blast
    then have "y # ys = (y # as) @ a # bs \<and> xs = concat (map f (y # as)) @ torn \<and> strict_prefix torn (f a)"
      by (simp add: zs)
    then show ?thesis by blast
  qed
qed simp

text \<open>The frames of an append, and the appends of which no torn frame holds an intact one.\<close>

fun append_frames :: "append \<Rightarrow> wal_record list" where
  "append_frames (Single r) = [r]"
| "append_frames (Batch rs) = BatchBegin (length rs) # rs @ [BatchEnd]"

definition clean_record :: "wal_record \<Rightarrow> bool" where
  "clean_record r \<longleftrightarrow> list_all (\<lambda>n. \<not> has_intact_frame_after (take n (encode r))) [0..<length (encode r)]"

definition clean_append :: "append \<Rightarrow> bool" where
  "clean_append u \<longleftrightarrow> list_all clean_record (append_frames u)"

lemma append_bytes_frames: "append_bytes u = concat (map encode (append_frames u))"
  by (cases u) simp_all

lemma clean_record_torn:
  assumes "clean_record r" and "strict_prefix torn (encode r)"
  shows "\<not> has_intact_frame_after torn"
proof -
  from assms(2) obtain more where "encode r = torn @ more" "more \<noteq> []" by (auto elim: strict_prefixE')
  then have "torn = take (length torn) (encode r)" "length torn < length (encode r)" by simp_all
  with assms(1) show ?thesis unfolding clean_record_def list_all_iff by (metis atLeastLessThan_iff set_upt le0)
qed

lemma replay_torn_append:
  assumes ok: "append_ok u" and torn: "strict_prefix torn (append_bytes u)"
  shows "\<exists>stop. replay_loop torn pos good recs None = (recs, good, stop) \<and>
    (stop = None \<or> (\<exists>tear. \<exists>r \<in> set (append_frames u). stop = Some tear \<and> strict_prefix tear (encode r)))"
proof -
  from torn have "strict_prefix torn (concat (map encode (append_frames u)))" by (simp add: append_bytes_frames)
  from strict_prefix_concat [OF this] obtain as a bs tear
    where split: "append_frames u = as @ a # bs" and tear: "torn = concat (map encode as) @ tear" "strict_prefix tear (encode a)"
    by blast
  have mem: "a \<in> set (append_frames u)" by (simp only: split) simp
  have a: "record_ok a" using mem ok by (cases u) auto
  note end_torn = replay_torn_frame [OF a tear(2)]
  have "\<exists>p. replay_loop torn pos good recs None = replay_loop tear p good recs None \<or>
      (\<exists>buf. replay_loop torn pos good recs None = replay_loop tear p good recs (Some buf))"
  proof (cases u)
    case (Single r)
    then have "as = []" using split by (cases as) simp_all
    then show ?thesis by (auto simp: tear)
  next
    case (Batch rs)
    have rs: "\<forall>r \<in> set rs. record_ok r \<and> cell_record r" and begin_ok: "record_ok (BatchBegin (length rs))"
      using ok by (simp_all add: Batch)
    show ?thesis
    proof (cases as)
      case (Cons b cs)
      then have b: "b = BatchBegin (length rs)" and "rs @ [BatchEnd] = cs @ a # bs" using split by (simp_all add: Batch)
      then have "prefix cs rs" by (auto simp: append_eq_append_conv2 Cons_eq_append_conv)
      then have "set cs \<subseteq> set rs" by (auto dest: set_mono_prefix)
      then have cs: "\<forall>r \<in> set cs. record_ok r \<and> cell_record r" using rs by blast
      show ?thesis
        by (auto simp: tear Cons b replay_frame [OF begin_ok] replay_cells_batch [OF cs])
    qed (auto simp: tear)
  qed
  with end_torn mem tear(2) show ?thesis by auto
qed

lemma clean_stop:
  assumes "clean_append u"
    and "stop = None \<or> (\<exists>tear. \<exists>r \<in> set (append_frames u). stop = Some tear \<and> strict_prefix tear (encode r))"
  shows "\<not> (case stop of None \<Rightarrow> False | Some bs \<Rightarrow> has_intact_frame_after bs)"
  using assms clean_record_torn by (auto simp: clean_append_def list_all_iff)

text \<open>What a scan of a log with a torn tail returns.\<close>

lemma log_prefix:
  "WAL_HEADER_LEN \<le> length (log_bytes us)"
  by (simp add: log_bytes_def header_def WAL_MAGIC_def WAL_HEADER_LEN_def)

lemma replay_log:
  assumes "\<forall>u \<in> set us. append_ok u"
  shows "replay (log_bytes us @ torn) =
    (case replay_loop torn (length (log_bytes us)) (length (log_bytes us)) (concat (map append_records us)) None of
       (recs, good, stop) \<Rightarrow>
         Inr \<lparr>rp_records = recs, good_len = good,
              corrupt_with_valid_tail = (case stop of None \<Rightarrow> False | Some bs \<Rightarrow> has_intact_frame_after bs)\<rparr>)"
proof -
  have magic: "length WAL_MAGIC = 6" "length header = WAL_HEADER_LEN"
    by (simp_all add: header_def WAL_MAGIC_def WAL_HEADER_LEN_def)
  then have "take 6 (header @ x) = WAL_MAGIC" "from_le (take 2 (drop 6 (header @ x))) = WAL_VERSION" for x
    by (simp_all add: header_def WAL_VERSION_def)
  then show ?thesis
    using magic replay_appends [OF assms, of torn WAL_HEADER_LEN WAL_HEADER_LEN "[]"]
    by (simp add: replay_def log_bytes_def WAL_HEADER_LEN_def)
qed

lemma has_intact_frame_encode: "record_ok r \<Longrightarrow> has_intact_frame (a @ encode r @ b)"
proof (induction a)
  case Nil
  have "4 \<le> length (encode r @ b)" using length_encode [of r] by simp
  then obtain x xs where "encode r @ b = x # xs" "4 \<le> length (x # xs)"
    by (cases "encode r @ b") auto
  then show ?case using intact_frame_encode [OF Nil, of b] by simp
qed (simp add: length_encode)

end
