(* ===== verification/Wal_Properties.thy ===== *)
theory Wal_Properties
  imports Wal
begin

text \<open>What recovery reads back from a log: the records of the appends it holds whole, and
  nothing of the one a crash cut.\<close>

lemma le_bytes_4:
  "le_bytes 4 n = [of_nat n, of_nat (n div 256), of_nat (n div 65536), of_nat (n div 16777216)]"
proof -
  have "(4 :: nat) = Suc (Suc (Suc (Suc 0)))" by simp
  then show ?thesis by (simp only: le_bytes.simps div_mult2_eq [symmetric]) simp
qed

lemmas i64_range = in_i64_def i64_min_def i64_max_def

section \<open>Witness logs\<close>

definition sample_leaf :: wal_record where
  "sample_leaf = SetLeaf [2, 0] 15000"

definition sample_batch :: append where
  "sample_batch = Batch [SetString [1, 0] ''ok'', SetLeaf [1, 1] (- 5)]"

text \<open>A text whose bytes are the frame of a record.\<close>

definition sample_frame :: wal_record where
  "sample_frame = BatchBegin 67"

definition sample_text :: string where
  "sample_text = ''a'' @ bytes_string (encode sample_frame)"

section \<open>Properties\<close>

text \<open>A record whose integers fit their fields and whose strings are UTF-8 is read back from
  its frame as it was, whatever bytes follow the frame.\<close>

theorem record_round_trips:
  "record_ok r \<Longrightarrow> intact_frame (encode r @ rest) = Some r"
  by (rule intact_frame_encode)

theorem record_round_trips_witness:
  "intact_frame (encode sample_leaf @ [7, 0]) = Some sample_leaf"
  by (rule record_round_trips) (simp add: sample_leaf_def i64_range)

text \<open>C17: Recovery after a crash: of a log that holds whole appends and then a proper part of
  one more append, the scan returns exactly the records of the whole ones, in order, and the
  length they end at; an interrupted batch leaves none of its records.\<close>

theorem replay_recovers_prefix:
  assumes "\<forall>u \<in> set us. append_ok u" and "append_ok u" and "strict_prefix torn (append_bytes u)"
  shows "\<exists>flag. replay (log_bytes us @ torn) =
    Inr \<lparr>rp_records = concat (map append_records us), good_len = length (log_bytes us),
         corrupt_with_valid_tail = flag\<rparr>"
proof -
  from replay_torn_append [OF assms(2,3)] obtain stop where
    "replay_loop torn (length (log_bytes us)) (length (log_bytes us)) (concat (map append_records us)) None =
       (concat (map append_records us), length (log_bytes us), stop)" by blast
  then show ?thesis by (simp add: replay_log [OF assms(1)])
qed

theorem replay_recovers_prefix_witness:
  "\<exists>flag. replay (log_bytes [Single sample_leaf] @ take 30 (append_bytes sample_batch)) =
    Inr \<lparr>rp_records = [sample_leaf], good_len = length (log_bytes [Single sample_leaf]),
         corrupt_with_valid_tail = flag\<rparr>"
proof -
  have "30 < length (append_bytes sample_batch)"
    by (simp add: sample_batch_def length_encode write_coord_def write_str_def)
  then have cut: "strict_prefix (take 30 (append_bytes sample_batch)) (append_bytes sample_batch)"
    by (metis append_take_drop_id drop_eq_Nil not_le strict_prefixI' neq_Nil_conv)
  have "append_ok sample_batch" "append_ok (Single sample_leaf)"
    by (simp_all add: sample_leaf_def sample_batch_def i64_range string_bytes_def byte_def)
  with replay_recovers_prefix [OF _ _ cut, of "[Single sample_leaf]"] show ?thesis
    by simp
qed

text \<open>C18: A text cell whose bytes contain the frame of a record makes a write of that cell that loses
  its last byte look like corruption in the middle of the log: the records before it are read, but the scan says that
  intact records follow the break, though nothing was written after it.\<close>

theorem torn_text_reads_as_corruption:
  assumes "\<forall>u \<in> set us. append_ok u" and text_ok: "record_ok (SetString coord s)"
    and "record_ok r" and embedded: "string_bytes s = a @ encode r @ b"
  shows "replay (log_bytes us @ butlast (encode (SetString coord s))) =
    Inr \<lparr>rp_records = concat (map append_records us), good_len = length (log_bytes us),
         corrupt_with_valid_tail = True\<rparr>"
proof -
  let ?frame = "encode (SetString coord s)" and ?pl = "payload (SetString coord s)"
  let ?torn = "butlast ?frame"
  define crc where "crc = le_bytes 4 (unat (crc32 ?pl))"
  have ne: "crc \<noteq> []" using length_le_bytes [of 4] by (auto simp: crc_def simp flip: length_0_conv)
  have torn: "?torn = le_bytes 4 (length ?pl) @ ?pl @ butlast crc"
    using ne by (simp only: encode_def crc_def [symmetric] butlast_append append_is_Nil_conv) simp
  then have long: "\<not> length ?torn < 4" by simp
  have "strict_prefix ?torn ?frame"
    using long by (metis append_butlast_last_id butlast.simps(1) list.size(3) not_Cons_self2 strict_prefixI'
        zero_less_numeral)
  note stop = replay_torn_frame [OF text_ok this]
  have "\<exists>c d. drop 1 ?torn = c @ encode r @ d"
  proof -
    obtain x xs where x: "le_bytes 4 (length ?pl) = x # xs"
      using length_le_bytes [of 4 "length ?pl"]
      by (cases "le_bytes 4 (length ?pl)") (simp_all del: length_le_bytes payload.simps)
    let ?pre = "2 # write_coord coord @ le_bytes 4 (length (a @ encode r @ b)) @ a"
    have "?torn = x # (xs @ ?pre) @ encode r @ b @ butlast crc"
      unfolding torn unfolding x unfolding payload.simps write_str_def embedded by simp
    then show ?thesis by (metis One_nat_def drop0 drop_Suc_Cons)
  qed
  then have "has_intact_frame_after ?torn"
    using has_intact_frame_encode [OF assms(3)] by (auto simp: has_intact_frame_after_def)
  then show ?thesis using long by (simp add: replay_log [OF assms(1)] stop)
qed

theorem torn_text_reads_as_corruption_witness:
  "replay (log_bytes [] @ butlast (encode (SetString [0] sample_text))) =
    Inr \<lparr>rp_records = [], good_len = 8, corrupt_with_valid_tail = True\<rparr>"
proof -
  have "crc32 [3, 67, 0, 0, 0] = 136542750"
    unfolding crc32_def foldl.simps by (simp add: crc_table_numeral)
  then have frame: "encode sample_frame = [5, 0, 0, 0, 3, 67, 0, 0, 0, 30, 122, 35, 8]"
    by (simp add: encode_def sample_frame_def le_bytes_4)
  have bytes: "string_bytes sample_text = string_bytes ''a'' @ encode sample_frame @ []"
    using frame by (simp add: sample_text_def string_bytes_def bytes_string_def)
  have "string_bytes ''a'' = [97]" by (simp add: string_bytes_def byte_def)
  then have plain: "string_bytes sample_text = [97, 5, 0, 0, 0, 3, 67, 0, 0, 0, 30, 122, 35, 8]"
    by (simp add: frame bytes)
  then have "length sample_text = 14" by (metis length_string_bytes length_Cons list.size(3) numeral_nat)
  then have "record_ok (SetString [0] sample_text)" "record_ok sample_frame"
    by (simp_all add: sample_frame_def plain)
  moreover have "length (log_bytes []) = 8" by (simp add: log_bytes_def header_def WAL_MAGIC_def)
  ultimately show ?thesis
    using torn_text_reads_as_corruption [where us = "[]", OF _ _ _ bytes, of "[0]"]
    by (simp only: list.set ball_simps list.map concat.simps simp_thms)
qed

end
