(* ===== verification/Query.thy ===== *)
theory Query
  imports Element_Mask Error_Text Btree_Map "HOL-Library.Sublist"
begin

text \<open>
  The query model (\<open>crates/epiphany-core/src/query.rs\<close>): subsets, views and their validation,
  the seams through which cells are read and dynamic subsets evaluated, sandboxes and the model
  that owns them all. The two traits (\<open>SetEvaluator\<close>, \<open>CellResolver\<close>) are functions handed to
  the code, as they are in the source.
\<close>

datatype visibility = Public | Private

definition is_public :: "visibility \<Rightarrow> bool" where
  "is_public v \<longleftrightarrow> v = Public"

datatype subset_kind = Static "string list" | Dynamic string

record subset_def =
  sub_name :: string
  sub_dimension :: string
  sub_owner :: "string option"
  sub_visibility :: visibility
  sub_kind :: subset_kind

datatype query_error =
    UnknownSubset string
  | QUnknownDimension string string
  | UnknownMember string string
  | DimensionCoverage string
  | SubsetDimensionMismatch string string string
  | DynamicUnsupported
  | DynamicEval string
  | CalcMessage string
  | AccessDenied
  | ModelErr model_error

fun display_query_error :: "query_error \<Rightarrow> string" where
  "display_query_error (UnknownSubset n) = ''subset '' @ quoted n @ '' not found''"
| "display_query_error (QUnknownDimension c d) =
     ''dimension '' @ quoted d @ '' not found in cube '' @ quoted c"
| "display_query_error (UnknownMember d m) =
     ''member '' @ quoted m @ '' not found in dimension '' @ quoted d"
| "display_query_error (DimensionCoverage detail) = detail"
| "display_query_error (SubsetDimensionMismatch s a d) =
     ''subset '' @ quoted s @ '' selects from '' @ quoted d @ '' but the axis is on '' @ quoted a"
| "display_query_error DynamicUnsupported =
     ''dynamic (MDX) subsets are not supported by this evaluator''"
| "display_query_error (DynamicEval m) = m"
| "display_query_error (CalcMessage m) = m"
| "display_query_error AccessDenied = ''access denied''"
| "display_query_error (ModelErr e) = display_model_error e"

section \<open>The seams\<close>

type_synonym set_evaluator = "cube \<Rightarrow> dimension \<Rightarrow> string \<Rightarrow> query_error + nat list"

definition no_set_evaluator :: set_evaluator where
  "no_set_evaluator c d mdx = Inl DynamicUnsupported"

record cell_resolver =
  read_value :: "coord \<Rightarrow> query_error + fixed"
  read_string :: "coord \<Rightarrow> query_error + string option"

definition stored_cells :: "cube \<Rightarrow> cell_resolver" where
  "stored_cells c = \<lparr>read_value = (\<lambda>k. map_err ModelErr (get c k)),
                     read_string = (\<lambda>k. map_err ModelErr (get_string c k))\<rparr>"

section \<open>Resolving subsets\<close>

definition dimension_by_name :: "cube \<Rightarrow> string \<Rightarrow> query_error + dimension" where
  "dimension_by_name c name =
     ok_or (QUnknownDimension (cube_name c) name) (List.find (\<lambda>d. dim_name d = name) (dims c))"

definition resolve_or :: "string \<Rightarrow> dimension \<Rightarrow> string \<Rightarrow> query_error + nat" where
  "resolve_or dname d member = ok_or (UnknownMember dname member) (resolve d member)"

text \<open>The loop of \<open>resolve_members\<close>: the indices so far, in order.\<close>

fun members_loop :: "dimension \<Rightarrow> nat list \<Rightarrow> string list \<Rightarrow> query_error + nat list" where
  "members_loop d out [] = Inr out"
| "members_loop d out (name # names) =
     bindE (resolve_or (dim_name d) d name) (\<lambda>idx.
       members_loop d (if idx \<in> set out then out else out @ [idx]) names)"

definition resolve_members :: "dimension \<Rightarrow> string list \<Rightarrow> query_error + nat list" where
  "resolve_members d names = members_loop d [] names"

definition resolve_subset :: "cube \<Rightarrow> subset_def \<Rightarrow> set_evaluator \<Rightarrow> query_error + nat list" where
  "resolve_subset c s ev =
     bindE (dimension_by_name c (sub_dimension s)) (\<lambda>d.
       case sub_kind s of
         Static members \<Rightarrow> resolve_members d members
       | Dynamic mdx \<Rightarrow> ev c d mdx)"

fun members_resolve :: "dimension \<Rightarrow> string list \<Rightarrow> query_error + unit" where
  "members_resolve d [] = Inr ()"
| "members_resolve d (m # ms) = bindE (resolve_or (dim_name d) d m) (\<lambda>_. members_resolve d ms)"

definition validate_subset :: "cube \<Rightarrow> subset_def \<Rightarrow> query_error + unit" where
  "validate_subset c s =
     bindE (dimension_by_name c (sub_dimension s)) (\<lambda>d.
       case sub_kind s of Static members \<Rightarrow> members_resolve d members | Dynamic _ \<Rightarrow> Inr ())"

section \<open>Views\<close>

datatype axis_spec =
    SubsetSpec string string
  | MembersSpec string "string list"

fun spec_dimension :: "axis_spec \<Rightarrow> string" where
  "spec_dimension (SubsetSpec d _) = d"
| "spec_dimension (MembersSpec d _) = d"

definition MAX_CELLSET_CELLS :: nat where "MAX_CELLSET_CELLS = 2000000"

record view =
  view_name :: string
  view_cube :: string
  view_owner :: "string option"
  view_visibility :: visibility
  view_rows :: "axis_spec list"
  view_columns :: "axis_spec list"
  view_context :: "(string \<times> string) list"
  suppress_zero_rows :: bool
  suppress_zero_columns :: bool

record rule_set =
  rules_source :: string

definition rules_is_empty :: "rule_set \<Rightarrow> bool" where
  "rules_is_empty r \<longleftrightarrow> trim (rules_source r) = []"

record test_cell =
  tc_coord :: "(string, string) btree"
  tc_value :: string

record rule_test =
  rt_name :: string
  rt_fixtures :: "test_cell list"
  rt_assertions :: "test_cell list"

record sandbox =
  sb_name :: string
  sb_owner :: string
  sb_created :: nat
  sb_updated :: nat
  sb_cells :: "(coord, fixed) btree"
  sb_strings :: "(coord, string) btree"

record model =
  the_cube :: cube
  subsets :: "(string \<times> string, subset_def) btree"
  views :: "(string, view) btree"
  rule_source :: rule_set
  tests :: "(string, rule_test) btree"
  sandboxes :: "(string, sandbox) btree"

definition model_new :: "cube \<Rightarrow> model" where
  "model_new c = \<lparr>the_cube = c, subsets = [], views = [], rule_source = \<lparr>rules_source = []\<rparr>,
                  tests = [], sandboxes = []\<rparr>"

definition lookup_subset :: "model \<Rightarrow> string \<Rightarrow> string \<Rightarrow> subset_def option" where
  "lookup_subset m d n = map_of (subsets m) (d, n)"

definition lookup_view :: "model \<Rightarrow> string \<Rightarrow> view option" where
  "lookup_view m n = map_of (views m) n"

definition lookup_sandbox :: "model \<Rightarrow> string \<Rightarrow> sandbox option" where
  "lookup_sandbox m n = map_of (sandboxes m) n"

section \<open>Validation\<close>

text \<open>The dimensions a view places, in its order; \<open>counts\<close> is their multiplicity, its keys are
  visited in ascending order.\<close>

definition placed :: "view \<Rightarrow> string list" where
  "placed v = map spec_dimension (view_rows v @ view_columns v) @ map fst (view_context v)"

definition has_dimension :: "cube \<Rightarrow> string \<Rightarrow> bool" where
  "has_dimension c name \<longleftrightarrow> list_ex (\<lambda>d. dim_name d = name) (dims c)"

definition validate_coverage :: "cube \<Rightarrow> view \<Rightarrow> query_error + unit" where
  "validate_coverage c v =
     (let ps = placed v; keys = remdups (sort ps) in
      case List.find (\<lambda>n. \<not> has_dimension c n) keys of
        Some n \<Rightarrow> Inl (QUnknownDimension (cube_name c) n)
      | None \<Rightarrow>
      case List.find (\<lambda>n. 1 < count_list ps n) keys of
        Some n \<Rightarrow> Inl (DimensionCoverage (''dimension '' @ quoted n @ '' is placed on more than one axis''))
      | None \<Rightarrow>
      case List.find (\<lambda>d. dim_name d \<notin> set ps) (dims c) of
        Some d \<Rightarrow> Inl (DimensionCoverage
                    (''dimension '' @ quoted (dim_name d) @ '' is not placed on any axis or context''))
      | None \<Rightarrow> Inr ())"

definition referenced_subset ::
    "(string \<Rightarrow> string \<Rightarrow> subset_def option) \<Rightarrow> string \<Rightarrow> string \<Rightarrow> query_error + subset_def" where
  "referenced_subset find_subset d name =
     bindE (ok_or (UnknownSubset name) (find_subset d name)) (\<lambda>s.
       if sub_dimension s \<noteq> d then Inl (SubsetDimensionMismatch name d (sub_dimension s)) else Inr s)"

fun validate_specs :: "model \<Rightarrow> axis_spec list \<Rightarrow> query_error + unit" where
  "validate_specs m [] = Inr ()"
| "validate_specs m (SubsetSpec d name # specs) =
     bindE (referenced_subset (lookup_subset m) d name) (\<lambda>_. validate_specs m specs)"
| "validate_specs m (MembersSpec d members # specs) =
     bindE (dimension_by_name (the_cube m) d) (\<lambda>dim.
     bindE (members_resolve dim members) (\<lambda>_. validate_specs m specs))"

fun validate_context :: "cube \<Rightarrow> (string \<times> string) list \<Rightarrow> query_error + unit" where
  "validate_context c [] = Inr ()"
| "validate_context c ((d, member) # ctx) =
     bindE (dimension_by_name c d) (\<lambda>dim.
     bindE (resolve_or d dim member) (\<lambda>_. validate_context c ctx))"

definition validate_view :: "model \<Rightarrow> view \<Rightarrow> query_error + unit" where
  "validate_view m v =
     bindE (validate_coverage (the_cube m) v) (\<lambda>_.
     bindE (validate_specs m (view_rows v @ view_columns v)) (\<lambda>_.
       validate_context (the_cube m) (view_context v)))"

section \<open>Who names a member\<close>

datatype member_ref =
    SubsetMember string string
  | ViewContext string
  | ViewAxisMember string bool
  | RuleTestCell string bool

fun spec_names :: "string \<Rightarrow> string \<Rightarrow> axis_spec \<Rightarrow> bool" where
  "spec_names d m (MembersSpec d' members) = (d' = d \<and> m \<in> set members)"
| "spec_names d m (SubsetSpec _ _) = False"

definition subset_refs :: "string \<Rightarrow> string \<Rightarrow> (string \<times> string) \<times> subset_def \<Rightarrow> member_ref list" where
  "subset_refs d m = (\<lambda>((sd, sn), s).
     if sd \<noteq> d then []
     else case sub_kind s of
       Static members \<Rightarrow> if m \<in> set members then [SubsetMember sd sn] else []
     | Dynamic _ \<Rightarrow> [])"

definition view_refs :: "string \<Rightarrow> string \<Rightarrow> string \<times> view \<Rightarrow> member_ref list" where
  "view_refs d m = (\<lambda>(vn, v).
     (if (d, m) \<in> set (view_context v) then [ViewContext vn] else []) @
     (if list_ex (spec_names d m) (view_rows v) then [ViewAxisMember vn True] else []) @
     (if list_ex (spec_names d m) (view_columns v) then [ViewAxisMember vn False] else []))"

definition cell_names :: "string \<Rightarrow> string \<Rightarrow> test_cell \<Rightarrow> bool" where
  "cell_names d m cell \<longleftrightarrow> map_of (tc_coord cell) d = Some m"

definition test_refs :: "string \<Rightarrow> string \<Rightarrow> string \<times> rule_test \<Rightarrow> member_ref list" where
  "test_refs d m = (\<lambda>(tn, t).
     (if list_ex (cell_names d m) (rt_fixtures t) then [RuleTestCell tn True] else []) @
     (if list_ex (cell_names d m) (rt_assertions t) then [RuleTestCell tn False] else []))"

definition references_to_member :: "model \<Rightarrow> string \<Rightarrow> string \<Rightarrow> member_ref list" where
  "references_to_member mdl d m =
     concat (map (subset_refs d m) (subsets mdl)) @
     concat (map (view_refs d m) (views mdl)) @
     concat (map (test_refs d m) (tests mdl))"

end
