(* ===== verification/Query_View.thy ===== *)
theory Query_View
  imports Query
begin

text \<open>
  The execution of a view (\<open>execute_view_with\<close> and the functions below it in
  \<open>crates/epiphany-core/src/query.rs\<close>): axes resolved to member tuples, the dense grid of cells
  filled in order or in bands of rows, zero suppression, and the names that are returned. A
  \<open>HashMap\<close> or slice index that would panic returns the model's \<open>IndexPanic\<close>.
\<close>

abbreviation query_panic :: query_error where
  "query_panic \<equiv> ModelErr IndexPanic"

definition sat_mul :: "nat \<Rightarrow> nat \<Rightarrow> nat" where
  "sat_mul a b = sat_u64 (a * b)"

section \<open>Axes\<close>

fun crossjoin :: "nat list list \<Rightarrow> nat list list \<Rightarrow> nat list list" where
  "crossjoin acc [] = acc"
| "crossjoin acc (xs # xss) =
     crossjoin (concat (map (\<lambda>prefix. map (\<lambda>v. prefix @ [v]) xs) acc)) xss"

definition spec_indices ::
    "cube \<Rightarrow> (string \<Rightarrow> string \<Rightarrow> subset_def option) \<Rightarrow> set_evaluator \<Rightarrow> axis_spec \<Rightarrow> query_error + nat list" where
  "spec_indices c find_subset ev spec =
     (case spec of
        SubsetSpec d name \<Rightarrow> bindE (referenced_subset find_subset d name) (\<lambda>s. resolve_subset c s ev)
      | MembersSpec d members \<Rightarrow> bindE (dimension_by_name c d) (\<lambda>dim. resolve_members dim members))"

fun axis_loop ::
    "cube \<Rightarrow> (string \<Rightarrow> string \<Rightarrow> subset_def option) \<Rightarrow> set_evaluator \<Rightarrow> axis_spec list
     \<Rightarrow> query_error + nat list list" where
  "axis_loop c find_subset ev [] = Inr []"
| "axis_loop c find_subset ev (spec # specs) =
     bindE (spec_indices c find_subset ev spec) (\<lambda>is.
     bindE (axis_loop c find_subset ev specs) (\<lambda>rest. Inr (is # rest)))"

text \<open>The running product of the list lengths, refused as soon as it passes the cap.\<close>

fun check_tuples :: "nat \<Rightarrow> nat list list \<Rightarrow> query_error + unit" where
  "check_tuples n [] = Inr ()"
| "check_tuples n (xs # xss) =
     (let n' = sat_mul n (length xs) in
      if MAX_CELLSET_CELLS < n' then Inl (ModelErr (CellsetTooLarge n' MAX_CELLSET_CELLS))
      else if n' = 0 then Inr () else check_tuples n' xss)"

definition resolve_axis ::
    "cube \<Rightarrow> axis_spec list \<Rightarrow> (string \<Rightarrow> string \<Rightarrow> subset_def option) \<Rightarrow> set_evaluator
     \<Rightarrow> query_error + string list \<times> nat list list" where
  "resolve_axis c specs find_subset ev =
     bindE (axis_loop c find_subset ev specs) (\<lambda>per_spec.
     bindE (check_tuples 1 per_spec) (\<lambda>_.
       Inr (map spec_dimension specs, crossjoin [[]] per_spec)))"

section \<open>Cells\<close>

record cell_out =
  out_value :: fixed
  out_string :: "string option"
  out_error :: "string option"

definition numeric_out :: "fixed \<Rightarrow> cell_out" where
  "numeric_out v = \<lparr>out_value = v, out_string = None, out_error = None\<rparr>"

definition string_out :: "string option \<Rightarrow> cell_out" where
  "string_out s = \<lparr>out_value = 0, out_string = s, out_error = None\<rparr>"

definition error_out :: "string \<Rightarrow> cell_out" where
  "error_out msg = \<lparr>out_value = 0, out_string = None, out_error = Some msg\<rparr>"

definition is_blank :: "cell_out \<Rightarrow> bool" where
  "is_blank c \<longleftrightarrow> out_error c = None \<and> out_string c = None \<and> is_zero (out_value c)"

definition str_contains :: "string \<Rightarrow> string \<Rightarrow> bool" where
  "str_contains s needle \<longleftrightarrow> list_ex (prefix needle) (suffixes s)"

fun is_hard_cell_error :: "query_error \<Rightarrow> bool" where
  "is_hard_cell_error AccessDenied = True"
| "is_hard_cell_error (CalcMessage m) = str_contains m ''rules fail to compile''"
| "is_hard_cell_error _ = False"

definition soften :: "(query_error + cell_out) \<Rightarrow> query_error + cell_out" where
  "soften r = (case r of
     Inr v \<Rightarrow> Inr v
   | Inl e \<Rightarrow> if is_hard_cell_error e then Inl e else Inr (error_out (display_query_error e)))"

definition read_cell :: "cell_resolver \<Rightarrow> bool \<Rightarrow> coord \<Rightarrow> query_error + cell_out" where
  "read_cell res is_str coord =
     soften (if is_str then bindE (read_string res coord) (\<lambda>s. Inr (string_out s))
             else bindE (read_value res coord) (\<lambda>v. Inr (numeric_out v)))"

text \<open>The coordinate of a cell: the context, overlaid with the row and the column tuple.\<close>

definition overlay :: "nat list \<Rightarrow> nat list \<Rightarrow> coord \<Rightarrow> coord" where
  "overlay ci t coord = foldl (\<lambda>k (d, i). k[d := i]) coord (zip ci t)"

section \<open>The grid\<close>

record parallelism =
  max_workers :: nat
  threshold :: nat

definition par_auto :: "nat \<Rightarrow> parallelism" where
  "par_auto cores = \<lparr>max_workers = min cores 8, threshold = 1024\<rparr>"

definition par_serial :: parallelism where
  "par_serial = \<lparr>max_workers = 1, threshold = u64_max\<rparr>"

definition par_forced :: "nat \<Rightarrow> parallelism" where
  "par_forced workers = \<lparr>max_workers = max workers 1, threshold = 0\<rparr>"

definition workers_for :: "parallelism \<Rightarrow> nat \<Rightarrow> nat" where
  "workers_for p n =
     (if max_workers p \<le> 1 \<or> n = 0 \<or> n < threshold p then 1 else min (max_workers p) n)"

text \<open>In order: the first error in row-major order ends the fill.\<close>

fun collect :: "('e + 'a) list \<Rightarrow> 'e + 'a list" where
  "collect [] = Inr []"
| "collect (r # rs) = bindE r (\<lambda>v. bindE (collect rs) (\<lambda>vs. Inr (v # vs)))"

definition row_major :: "nat \<Rightarrow> nat \<Rightarrow> (nat \<times> nat) list" where
  "row_major nrows ncols = concat (map (\<lambda>r. map (Pair r) [0..<ncols]) [0..<nrows])"

definition fill_grid_serial :: "nat \<Rightarrow> nat \<Rightarrow> (nat \<Rightarrow> nat \<Rightarrow> 'e + cell_out) \<Rightarrow> 'e + cell_out list" where
  "fill_grid_serial nrows ncols cell_at = collect (map (\<lambda>(r, c). cell_at r c) (row_major nrows ncols))"

text \<open>In bands: each worker owns a chunk of the grid, overwrites its slots and keeps its failing
  cell of lowest ordinal; the lowest of those is the error.\<close>

fun chunk_sizes :: "nat \<Rightarrow> nat \<Rightarrow> nat list" where
  "chunk_sizes len n = (if n = 0 \<or> len = 0 then [] else min len n # chunk_sizes len (n - len))"

declare chunk_sizes.simps [simp del]

definition keep_lowest :: "(nat \<times> 'e) option \<Rightarrow> nat \<times> 'e \<Rightarrow> (nat \<times> 'e) option" where
  "keep_lowest first err =
     (case first of None \<Rightarrow> Some err | Some (ord, _) \<Rightarrow> if fst err < ord then Some err else first)"

definition band_step ::
    "(nat \<Rightarrow> nat \<Rightarrow> 'e + cell_out) \<Rightarrow> nat \<Rightarrow> nat \<Rightarrow> cell_out list \<times> (nat \<times> 'e) option \<Rightarrow> nat \<times> nat
     \<Rightarrow> cell_out list \<times> (nat \<times> 'e) option" where
  "band_step cell_at ncols r0 = (\<lambda>(chunk, first) (rr, c).
     case cell_at (r0 + rr) c of
       Inr v \<Rightarrow> (chunk[rr * ncols + c := v], first)
     | Inl e \<Rightarrow> (chunk, keep_lowest first ((r0 + rr) * ncols + c, e)))"

definition fill_band ::
    "(nat \<Rightarrow> nat \<Rightarrow> 'e + cell_out) \<Rightarrow> nat \<Rightarrow> nat \<Rightarrow> nat \<times> nat \<Rightarrow> cell_out list \<times> (nat \<times> 'e) option" where
  "fill_band cell_at ncols rows_per = (\<lambda>(band, len).
     foldl (band_step cell_at ncols (band * rows_per)) (replicate len (numeric_out 0), None)
       (row_major (len div ncols) ncols))"

definition fill_grid_parallel ::
    "nat \<Rightarrow> nat \<Rightarrow> nat \<Rightarrow> (nat \<Rightarrow> nat \<Rightarrow> 'e + cell_out) \<Rightarrow> 'e + cell_out list" where
  "fill_grid_parallel nrows ncols workers cell_at =
     (let rows_per = (nrows + workers - 1) div workers;
          band_cells = max (rows_per * ncols) 1;
          bands = map (fill_band cell_at ncols rows_per)
                    (List.enumerate 0 (chunk_sizes band_cells (nrows * ncols)));
          lowest = foldl (\<lambda>acc (_, first). case first of None \<Rightarrow> acc | Some err \<Rightarrow> keep_lowest acc err)
                     None bands
      in case lowest of Some (_, e) \<Rightarrow> Inl e | None \<Rightarrow> Inr (concat (map fst bands)))"

section \<open>Executing a view\<close>

text \<open>The position of a dimension name: the last one, as in a \<open>HashMap\<close> built in order.\<close>

definition dim_index :: "cube \<Rightarrow> string \<Rightarrow> query_error + nat" where
  "dim_index c name = ok_or query_panic (map_of (rev (zip (map dim_name (dims c)) [0..<length (dims c)])) name)"

fun dim_indices :: "cube \<Rightarrow> string list \<Rightarrow> query_error + nat list" where
  "dim_indices c [] = Inr []"
| "dim_indices c (d # ds) = bindE (dim_index c d) (\<lambda>i. bindE (dim_indices c ds) (\<lambda>is. Inr (i # is)))"

fun context_loop ::
    "cube \<Rightarrow> element_mask option \<Rightarrow> (string \<times> string) list \<Rightarrow> coord \<Rightarrow> query_error + coord" where
  "context_loop c dm [] coord = Inr coord"
| "context_loop c dm ((d, member) # ctx) coord =
     bindE (dim_index c d) (\<lambda>ci.
     bindE (resolve_or d (dims c ! ci) member) (\<lambda>idx.
       if (case dm of None \<Rightarrow> False | Some m \<Rightarrow> denies_member m c ci idx) then Inl AccessDenied
       else context_loop c dm ctx (coord[ci := idx])))"

definition tuple_denied :: "element_mask option \<Rightarrow> cube \<Rightarrow> nat list \<Rightarrow> nat list \<Rightarrow> bool" where
  "tuple_denied dm c ci t =
     (case dm of None \<Rightarrow> False | Some m \<Rightarrow> list_ex (\<lambda>(d, i). denies_member m c d i) (zip ci t))"

definition element_is_string :: "cube \<Rightarrow> nat \<Rightarrow> nat \<Rightarrow> bool" where
  "element_is_string c d i =
     (case get_element (dims c ! d) i of Inr e \<Rightarrow> is_string (el_kind e) | Inl _ \<Rightarrow> False)"

definition has_string :: "cube \<Rightarrow> nat list \<Rightarrow> nat list \<Rightarrow> bool" where
  "has_string c ci t = list_ex (\<lambda>(d, i). element_is_string c d i) (zip ci t)"

definition context_string :: "cube \<Rightarrow> (string \<times> string) list \<Rightarrow> bool" where
  "context_string c ctx = list_ex (\<lambda>(d, member).
     case dim_index c d of
       Inl _ \<Rightarrow> False
     | Inr ci \<Rightarrow> (case resolve (dims c ! ci) member of None \<Rightarrow> False | Some i \<Rightarrow> element_is_string c ci i)) ctx"

definition tuple_names :: "cube \<Rightarrow> nat list \<Rightarrow> nat list \<Rightarrow> query_error + string list" where
  "tuple_names c ci t =
     collect (map (\<lambda>(d, i). if i < length (elements (dims c ! d)) then Inr (el_name (elements (dims c ! d) ! i))
                            else Inl query_panic) (zip ci t))"

definition to_names :: "cube \<Rightarrow> nat list \<Rightarrow> nat list list \<Rightarrow> nat list \<Rightarrow> query_error + string list list" where
  "to_names c ci tuples picks = collect (map (\<lambda>i. tuple_names c ci (tuples ! i)) picks)"

record cellset =
  row_dimensions :: "string list"
  column_dimensions :: "string list"
  row_tuples :: "string list list"
  column_tuples :: "string list list"
  cs_context :: "(string \<times> string) list"
  cs_cells :: "fixed list"
  cell_strings :: "string option list"
  cell_errors :: "string option list"
  suppressed_row_tuples :: "string list list"
  suppressed_column_tuples :: "string list list"

text \<open>What the axes and the context of a view resolve to: the dimension positions of the two
  axes, their tuples without the denied ones, and the coordinate of the context.\<close>

record plan =
  row_ci :: "nat list"
  col_ci :: "nat list"
  row_ts :: "nat list list"
  col_ts :: "nat list list"
  base_coord :: coord

definition plan_view ::
    "cube \<Rightarrow> view \<Rightarrow> (string \<Rightarrow> string \<Rightarrow> subset_def option) \<Rightarrow> set_evaluator \<Rightarrow> element_mask option
     \<Rightarrow> query_error + plan" where
  "plan_view c v find_subset ev dm =
     bindE (validate_coverage c v) (\<lambda>_.
     bindE (resolve_axis c (view_rows v) find_subset ev) (\<lambda>(rds, rts).
     bindE (resolve_axis c (view_columns v) find_subset ev) (\<lambda>(cds, cts).
     bindE (context_loop c dm (view_context v) (replicate (rank c) 0)) (\<lambda>base.
     bindE (dim_indices c rds) (\<lambda>rci.
     bindE (dim_indices c cds) (\<lambda>cci.
       Inr \<lparr>row_ci = rci, col_ci = cci,
            row_ts = filter (\<lambda>t. \<not> tuple_denied dm c rci t) rts,
            col_ts = filter (\<lambda>t. \<not> tuple_denied dm c cci t) cts,
            base_coord = base\<rparr>))))))"

definition cell_coord :: "plan \<Rightarrow> nat \<Rightarrow> nat \<Rightarrow> coord" where
  "cell_coord p r c = overlay (col_ci p) (col_ts p ! c) (overlay (row_ci p) (row_ts p ! r) (base_coord p))"

definition cell_is_string :: "cube \<Rightarrow> view \<Rightarrow> plan \<Rightarrow> nat \<Rightarrow> nat \<Rightarrow> bool" where
  "cell_is_string c v p i j \<longleftrightarrow>
     context_string c (view_context v) \<or> has_string c (row_ci p) (row_ts p ! i) \<or> has_string c (col_ci p) (col_ts p ! j)"

definition view_cell :: "cube \<Rightarrow> view \<Rightarrow> cell_resolver \<Rightarrow> plan \<Rightarrow> nat \<Rightarrow> nat \<Rightarrow> query_error + cell_out" where
  "view_cell c v res p i j = read_cell res (cell_is_string c v p i j) (cell_coord p i j)"

definition view_grid :: "cube \<Rightarrow> view \<Rightarrow> cell_resolver \<Rightarrow> parallelism \<Rightarrow> plan \<Rightarrow> query_error + cell_out list" where
  "view_grid c v res par p =
     (let nrows = length (row_ts p); ncols = length (col_ts p); n = sat_mul nrows ncols in
      if MAX_CELLSET_CELLS < n then Inl (ModelErr (CellsetTooLarge n MAX_CELLSET_CELLS))
      else if 1 < workers_for par n
      then fill_grid_parallel nrows ncols (workers_for par n) (view_cell c v res p)
      else fill_grid_serial nrows ncols (view_cell c v res p))"

text \<open>Zero suppression: the rows kept, then the columns kept across those rows.\<close>

definition kept_rows :: "view \<Rightarrow> nat \<Rightarrow> nat \<Rightarrow> cell_out list \<Rightarrow> nat \<Rightarrow> bool" where
  "kept_rows v nrows ncols grid r \<longleftrightarrow>
     (suppress_zero_rows v \<and> 0 < nrows \<and> 0 < ncols
      \<longrightarrow> list_ex (\<lambda>c. \<not> is_blank (grid ! (r * ncols + c))) [0..<ncols])"

definition kept_columns :: "view \<Rightarrow> nat \<Rightarrow> nat \<Rightarrow> cell_out list \<Rightarrow> nat list \<Rightarrow> nat \<Rightarrow> bool" where
  "kept_columns v nrows ncols grid rows c \<longleftrightarrow>
     (suppress_zero_columns v \<and> 0 < nrows \<and> 0 < ncols \<and> rows \<noteq> []
      \<longrightarrow> list_ex (\<lambda>r. \<not> is_blank (grid ! (r * ncols + c))) rows)"

definition present ::
    "cube \<Rightarrow> view \<Rightarrow> plan \<Rightarrow> cell_out list \<Rightarrow> query_error + cellset" where
  "present c v p grid =
     (let nrows = length (row_ts p); ncols = length (col_ts p);
          rows = filter (kept_rows v nrows ncols grid) [0..<nrows];
          supp_rows = filter (\<lambda>r. \<not> kept_rows v nrows ncols grid r) [0..<nrows];
          cols = filter (kept_columns v nrows ncols grid rows) [0..<ncols];
          supp_cols = filter (\<lambda>j. \<not> kept_columns v nrows ncols grid rows j) [0..<ncols];
          outs = concat (map (\<lambda>r. map (\<lambda>j. grid ! (r * ncols + j)) cols) rows)
      in bindE (to_names c (row_ci p) (row_ts p) rows) (\<lambda>rnames.
         bindE (to_names c (col_ci p) (col_ts p) cols) (\<lambda>cnames.
         bindE (to_names c (row_ci p) (row_ts p) supp_rows) (\<lambda>rsupp.
         bindE (to_names c (col_ci p) (col_ts p) supp_cols) (\<lambda>csupp.
           Inr \<lparr>row_dimensions = map spec_dimension (view_rows v),
                column_dimensions = map spec_dimension (view_columns v),
                row_tuples = rnames, column_tuples = cnames, cs_context = view_context v,
                cs_cells = map out_value outs, cell_strings = map out_string outs,
                cell_errors = map out_error outs,
                suppressed_row_tuples = rsupp, suppressed_column_tuples = csupp\<rparr>)))))"

definition execute_view_with ::
    "cube \<Rightarrow> view \<Rightarrow> cell_resolver \<Rightarrow> (string \<Rightarrow> string \<Rightarrow> subset_def option) \<Rightarrow> set_evaluator
     \<Rightarrow> element_mask option \<Rightarrow> parallelism \<Rightarrow> query_error + cellset" where
  "execute_view_with c v res find_subset ev dm par =
     bindE (plan_view c v find_subset ev dm) (\<lambda>p.
     bindE (view_grid c v res par p) (\<lambda>grid. present c v p grid))"

definition execute_view ::
    "nat \<Rightarrow> cube \<Rightarrow> view \<Rightarrow> cell_resolver \<Rightarrow> (string \<Rightarrow> string \<Rightarrow> subset_def option) \<Rightarrow> set_evaluator
     \<Rightarrow> element_mask option \<Rightarrow> query_error + cellset" where
  "execute_view cores c v res find_subset ev dm =
     execute_view_with c v res find_subset ev dm (par_auto cores)"

definition execute :: "nat \<Rightarrow> model \<Rightarrow> view \<Rightarrow> cell_resolver \<Rightarrow> set_evaluator \<Rightarrow> element_mask option \<Rightarrow> query_error + cellset" where
  "execute cores m v res ev dm = execute_view cores (the_cube m) v res (lookup_subset m) ev dm"

end
