(* ===== verification/Query_Grid.thy ===== *)
theory Query_Grid
  imports Query_View
begin

text \<open>
  Filling the grid in bands of rows is filling it in order: both are the scan of one sequence
  of cells, numbered row-major, for its first failure.
\<close>

section \<open>Row-major numbering\<close>

lemma row_major_eq:
  assumes "0 < n"
  shows "row_major m n = map (\<lambda>i. (i div n, i mod n)) [0..<m * n]"
proof (induction m)
  case (Suc m)
  have "map (\<lambda>i. (i div n, i mod n)) [m * n..<m * n + n] = map (Pair m) [0..<n]"
    using assms by (intro nth_equalityI) simp_all
  moreover have "row_major (Suc m) n = row_major m n @ map (Pair m) [0..<n]"
    by (simp add: row_major_def)
  moreover have "[0..<Suc m * n] = [0..<m * n] @ [m * n..<m * n + n]"
    by (metis add.commute le_add1 mult_Suc upt_add_eq_append zero_le)
  ultimately show ?case using Suc by simp
qed (simp add: row_major_def)

section \<open>The first failure\<close>

definition first_fail :: "(nat \<Rightarrow> 'e + 'a) \<Rightarrow> nat \<Rightarrow> nat \<Rightarrow> (nat \<times> 'e) option" where
  "first_fail g b t =
     (case List.find (\<lambda>i. isl (g i)) [b..<b + t] of None \<Rightarrow> None | Some i \<Rightarrow> Some (i, projl (g i)))"

definition or_blank :: "'e + cell_out \<Rightarrow> cell_out" where
  "or_blank r = (case r of Inr v \<Rightarrow> v | Inl _ \<Rightarrow> numeric_out 0)"

lemma find_append: "List.find P (xs @ ys) = (case List.find P xs of None \<Rightarrow> List.find P ys | Some x \<Rightarrow> Some x)"
  by (induction xs) auto

lemma first_fail_0 [simp]: "first_fail g b 0 = None"
  by (simp add: first_fail_def)

lemma first_fail_add:
  "first_fail g b (s + t) = (case first_fail g b s of None \<Rightarrow> first_fail g (b + s) t | Some x \<Rightarrow> Some x)"
proof -
  have "[b..<b + (s + t)] = [b..<b + s] @ [b + s..<b + s + t]"
    by (metis add.assoc le_add1 upt_add_eq_append)
  then show ?thesis by (simp add: first_fail_def find_append split: option.split)
qed

lemma first_fail_Suc:
  "first_fail g b (Suc t) =
     (case first_fail g b t of
        None \<Rightarrow> (case g (b + t) of Inl e \<Rightarrow> Some (b + t, e) | Inr _ \<Rightarrow> None)
      | Some x \<Rightarrow> Some x)"
  by (simp add: first_fail_def find_append split: option.split sum.split)

lemma first_fail_range: "first_fail g b t = Some (i, e) \<Longrightarrow> b \<le> i \<and> i < b + t \<and> g i = Inl e"
proof -
  assume "first_fail g b t = Some (i, e)"
  then have "List.find (\<lambda>i. isl (g i)) [b..<b + t] = Some i" "e = projl (g i)"
    by (auto simp: first_fail_def split: option.splits)
  then show ?thesis by (force simp: find_Some_iff)
qed

lemma collect_append:
  "collect (xs @ ys) = bindE (collect xs) (\<lambda>us. bindE (collect ys) (\<lambda>vs. Inr (us @ vs)))"
  by (induction xs) (simp_all add: bindE_assoc)

lemma collect_first_fail:
  "collect (map g [b..<b + t]) =
     (case first_fail g b t of Some (_, e) \<Rightarrow> Inl e | None \<Rightarrow> Inr (map (\<lambda>i. or_blank (g i)) [b..<b + t]))"
proof (induction t)
  case (Suc t)
  show ?case
    by (cases "g (b + t)") (auto simp: first_fail_Suc collect_append Suc or_blank_def split: option.split)
qed simp

section \<open>One band\<close>

lemma keep_lowest_None [simp]: "keep_lowest None err = Some err"
  by (simp add: keep_lowest_def)

lemma keep_lowest_later [simp]: "i < fst err \<Longrightarrow> keep_lowest (Some (i, e)) err = Some (i, e)"
  by (simp add: keep_lowest_def)

definition slot_step ::
    "(nat \<Rightarrow> 'e + cell_out) \<Rightarrow> nat \<Rightarrow> cell_out list \<times> (nat \<times> 'e) option \<Rightarrow> nat
     \<Rightarrow> cell_out list \<times> (nat \<times> 'e) option" where
  "slot_step g b = (\<lambda>(chunk, first) i.
     case g (b + i) of Inr v \<Rightarrow> (chunk[i := v], first) | Inl e \<Rightarrow> (chunk, keep_lowest first (b + i, e)))"

lemma slot_steps:
  "j \<le> len \<Longrightarrow>
   foldl (slot_step g b) (replicate len (numeric_out 0), None) [0..<j] =
     (map (\<lambda>i. or_blank (g (b + i))) [0..<j] @ replicate (len - j) (numeric_out 0), first_fail g b j)"
proof (induction j)
  case (Suc j)
  then have split: "replicate (len - j) (numeric_out 0) = numeric_out 0 # replicate (len - Suc j) (numeric_out 0)"
    by (metis Suc_diff_Suc Suc_le_eq replicate_Suc)
  show ?case
  proof (cases "g (b + j)")
    case (Inr v)
    then show ?thesis using Suc
      by (simp add: slot_step_def split or_blank_def first_fail_Suc list_update_append split: option.split)
  next
    case (Inl e)
    have "keep_lowest (first_fail g b j) (b + j, e) = first_fail g b (Suc j)"
      using first_fail_range [of g b j]
      by (auto simp: first_fail_Suc Inl split: option.split)
    then show ?thesis using Suc Inl by (simp add: slot_step_def split or_blank_def)
  qed
qed simp

lemma fill_band_eq:
  assumes "0 < n"
  shows "fill_band f n rows_per (k, m * n) =
    (map (\<lambda>i. or_blank (f (i div n) (i mod n))) [k * (rows_per * n)..<k * (rows_per * n) + m * n],
     first_fail (\<lambda>i. f (i div n) (i mod n)) (k * (rows_per * n)) (m * n))"
proof -
  let ?g = "\<lambda>i. f (i div n) (i mod n)" and ?b = "k * (rows_per * n)"
  have step: "band_step f n (k * rows_per) s (i div n, i mod n) = slot_step ?g ?b s i" for s i
  proof -
    have "(?b + i) div n = k * rows_per + i div n" "(?b + i) mod n = i mod n"
      using assms by (simp_all add: mult.assoc [symmetric])
    moreover have "(k * rows_per + i div n) * n + i mod n = ?b + i"
      by (simp add: add_mult_distrib mult.assoc)
    moreover have "i div n * n + i mod n = i" by simp
    ultimately show ?thesis
      by (cases s) (simp add: band_step_def slot_step_def del: div_mult_mod_eq mod_div_mult_eq split: sum.split)
  qed
  have "fill_band f n rows_per (k, m * n) =
      foldl (slot_step ?g ?b) (replicate (m * n) (numeric_out 0), None) [0..<m * n]"
    using assms by (simp add: fill_band_def row_major_eq foldl_map step)
  moreover have "map (\<lambda>i. or_blank (?g (?b + i))) [0..<m * n] = map (\<lambda>i. or_blank (?g i)) [?b..<?b + m * n]"
    by (intro nth_equalityI) simp_all
  ultimately show ?thesis by (simp add: slot_steps)
qed

section \<open>All bands\<close>

definition lowest_of :: "(nat \<times> 'e) option \<Rightarrow> (cell_out list \<times> (nat \<times> 'e) option) list \<Rightarrow> (nat \<times> 'e) option" where
  "lowest_of acc bands = foldl (\<lambda>acc (_, first). case first of None \<Rightarrow> acc | Some err \<Rightarrow> keep_lowest acc err) acc bands"

lemma bands_eq:
  fixes f :: "nat \<Rightarrow> nat \<Rightarrow> 'e + cell_out" and n :: nat
  defines "g \<equiv> \<lambda>i. f (i div n) (i mod n)"
  assumes "0 < n" and "0 < rp" and "case acc of None \<Rightarrow> True | Some x \<Rightarrow> fst x < k * (rp * n)"
  shows "concat (map fst (map (fill_band f n rp) (List.enumerate k (chunk_sizes (rp * n) (m * n))))) =
      map (\<lambda>i. or_blank (g i)) [k * (rp * n)..<k * (rp * n) + m * n]
    \<and> lowest_of acc (map (fill_band f n rp) (List.enumerate k (chunk_sizes (rp * n) (m * n)))) =
      (case acc of Some x \<Rightarrow> Some x | None \<Rightarrow> first_fail g (k * (rp * n)) (m * n))"
  using assms(4)
proof (induction m arbitrary: k acc rule: less_induct)
  case (less m)
  show ?case
  proof (cases "m = 0")
    case True
    then show ?thesis by (simp add: chunk_sizes.simps lowest_of_def split: option.split)
  next
    case False
    let ?b = "k * (rp * n)" and ?m = "min rp m"
    have sizes: "chunk_sizes (rp * n) (m * n) = ?m * n # chunk_sizes (rp * n) ((m - ?m) * n)"
      using False assms(2,3)
      by (subst chunk_sizes.simps) (auto simp: min_def diff_mult_distrib chunk_sizes.simps)
    let ?acc = "case acc of Some x \<Rightarrow> Some x | None \<Rightarrow> first_fail g ?b (?m * n)"
    have acc: "(case first_fail g ?b (?m * n) of None \<Rightarrow> acc | Some err \<Rightarrow> keep_lowest acc err) = ?acc"
      using first_fail_range [of g ?b "?m * n"] less.prems by (force split: option.splits)
    have "?m * n \<le> rp * n" by simp
    then have shift: "i < ?b + ?m * n \<Longrightarrow> i < Suc k * (rp * n)" for i
      by (metis add.commute add_le_cancel_left less_le_trans mult_Suc)
    have below: "case ?acc of None \<Rightarrow> True | Some x \<Rightarrow> fst x < Suc k * (rp * n)"
    proof (cases "first_fail g ?b (?m * n)")
      case (Some x)
      then have "fst x < ?b + ?m * n" using first_fail_range [of g ?b "?m * n" "fst x" "snd x"] by simp
      from shift [OF this] show ?thesis using Some less.prems by (auto split: option.splits)
    qed (use less.prems in \<open>auto split: option.splits\<close>)
    have smaller: "m - ?m < m" using False assms(3) by simp
    note IH = less.IH [OF smaller below]
    have total: "?m * n + (m - ?m) * n = m * n" by (simp add: add_mult_distrib [symmetric])
    show ?thesis
    proof (cases "rp \<le> m")
      case True
      then have next_b: "Suc k * (rp * n) = ?b + ?m * n" by (simp add: min_def)
      note IH = IH [unfolded next_b]
      have "[?b..<?b + m * n] = [?b..<?b + ?m * n] @ [?b + ?m * n..<?b + ?m * n + (m - ?m) * n]"
        by (metis total add.assoc le_add1 upt_add_eq_append)
      then have one: "concat (map fst (map (fill_band f n rp) (List.enumerate k (chunk_sizes (rp * n) (m * n))))) =
          map (\<lambda>i. or_blank (g i)) [?b..<?b + m * n]"
        using conjunct1 [OF IH] fill_band_eq [OF assms(2), of f rp k ?m]
        by (simp add: sizes g_def)
      have "lowest_of acc (map (fill_band f n rp) (List.enumerate k (chunk_sizes (rp * n) (m * n)))) =
          (case ?acc of Some x \<Rightarrow> Some x | None \<Rightarrow> first_fail g (?b + ?m * n) ((m - ?m) * n))"
        using conjunct2 [OF IH] fill_band_eq [OF assms(2), of f rp k ?m] acc
        by (simp add: sizes g_def lowest_of_def)
      also have "\<dots> = (case acc of Some x \<Rightarrow> Some x | None \<Rightarrow> first_fail g ?b (m * n))"
        using first_fail_add [of g ?b "?m * n" "(m - ?m) * n"] by (simp add: total split: option.split)
      finally show ?thesis using one by blast
    next
      case False
      then have last: "chunk_sizes (rp * n) (m * n) = [m * n]" and whole: "?m = m"
        using sizes by (simp_all add: min_def chunk_sizes.simps)
      show ?thesis
        using fill_band_eq [OF assms(2), of f rp k m, folded g_def] acc [unfolded whole]
        by (simp add: last lowest_of_def) (simp add: g_def)
    qed
  qed
qed

text \<open>Bands and order agree, failures included.\<close>

lemma fill_grid_parallel_serial:
  assumes "0 < nrows" and "0 < ncols" and "0 < workers"
  shows "fill_grid_parallel nrows ncols workers f = fill_grid_serial nrows ncols f"
proof -
  let ?g = "\<lambda>i. f (i div ncols) (i mod ncols)"
  let ?rp = "(nrows + workers - 1) div workers"
  have "workers \<le> nrows + workers - 1" using assms(1) by simp
  then have rp: "0 < ?rp" using assms(3) by (simp add: div_greater_zero_iff)
  have size: "max (?rp * ncols) 1 = ?rp * ncols" using rp assms(2)
    by (metis One_nat_def Suc_leI max.absorb1 nat_0_less_mult_iff)
  let ?bands = "map (fill_band f ncols ?rp) (List.enumerate 0 (chunk_sizes (?rp * ncols) (nrows * ncols)))"
  have b: "concat (map fst ?bands) = map (\<lambda>i. or_blank (?g i)) [0..<nrows * ncols]"
    "lowest_of None ?bands = first_fail ?g 0 (nrows * ncols)"
    using bands_eq [OF assms(2) rp, where acc = None and k = 0 and f = f and m = nrows] by simp_all
  have "fill_grid_serial nrows ncols f = collect (map ?g [0..<0 + nrows * ncols])"
    by (simp add: fill_grid_serial_def row_major_eq [OF assms(2)] comp_def)
  moreover have "fill_grid_parallel nrows ncols workers f =
      (case lowest_of None ?bands of Some (_, e) \<Rightarrow> Inl e | None \<Rightarrow> Inr (concat (map fst ?bands)))"
    by (simp only: fill_grid_parallel_def Let_def size lowest_of_def)
  ultimately show ?thesis
    using collect_first_fail [of ?g 0 "nrows * ncols"] by (simp only: b add_0)
qed

end
