(* ===== verification/Query_Facts.thy ===== *)
theory Query_Facts
  imports Query_Grid
begin

text \<open>
  What a plan of a view holds: every dimension of the cube is placed once, the tuples and the
  context name elements in range, and the coordinate of a cell agrees with all of them.
\<close>

section \<open>Coverage\<close>

lemma distinct_count_list: "(\<And>x. x \<in> set xs \<Longrightarrow> count_list xs x \<le> 1) \<Longrightarrow> distinct xs"
proof (induction xs)
  case (Cons a xs)
  have "count_list xs a = 0" using Cons.prems [of a] by simp
  then have "a \<notin> set xs" by (simp add: count_list_0_iff)
  moreover have "distinct xs"
  proof (rule Cons.IH)
    fix x assume "x \<in> set xs"
    then show "count_list xs x \<le> 1" using Cons.prems [of x] by (simp split: if_splits)
  qed
  ultimately show ?case by simp
qed simp

lemma coverage_facts:
  assumes "validate_coverage c v = Inr ()"
  shows "distinct (placed v)" and "set (placed v) = dim_name ` set (dims c)"
proof -
  let ?keys = "remdups (sort (placed v))"
  from assms have f: "List.find (\<lambda>n. \<not> has_dimension c n) ?keys = None"
    "List.find (\<lambda>n. 1 < count_list (placed v) n) ?keys = None"
    "List.find (\<lambda>d. dim_name d \<notin> set (placed v)) (dims c) = None"
    by (auto simp: validate_coverage_def Let_def split: option.splits)
  from f(2) show "distinct (placed v)"
    by (intro distinct_count_list) (auto simp: find_None_iff not_less)
  from f(1) have "set (placed v) \<subseteq> dim_name ` set (dims c)"
    by (fastforce simp: find_None_iff has_dimension_def list_ex_iff)
  moreover from f(3) have "dim_name ` set (dims c) \<subseteq> set (placed v)" by (auto simp: find_None_iff)
  ultimately show "set (placed v) = dim_name ` set (dims c)" by blast
qed

section \<open>Positions of dimensions\<close>

definition at_name :: "cube \<Rightarrow> nat \<Rightarrow> string \<Rightarrow> bool" where
  "at_name c p name \<longleftrightarrow> p < length (dims c) \<and> dim_name (dims c ! p) = name"

lemma dim_index_at: "dim_index c name = Inr p \<Longrightarrow> at_name c p name"
  by (auto simp: dim_index_def at_name_def dest!: map_of_SomeD simp: set_zip)

lemma dim_indices_at: "dim_indices c ds = Inr ps \<Longrightarrow> list_all2 (at_name c) ps ds"
  by (induction c ds arbitrary: ps rule: dim_indices.induct) (auto dest: dim_index_at)

lemma at_name_unique:
  "distinct (map dim_name (dims c)) \<Longrightarrow> at_name c p name \<Longrightarrow> at_name c q name \<Longrightarrow> p = q"
  by (auto simp: at_name_def distinct_conv_nth)

lemma distinct_positions:
  "list_all2 (at_name c) ps ds \<Longrightarrow> distinct ds \<Longrightarrow> distinct ps"
proof -
  assume all: "list_all2 (at_name c) ps ds" and "distinct ds"
  have "ds = map (\<lambda>p. dim_name (dims c ! p)) ps"
    using all by (metis (no_types, lifting) at_name_def length_map list_all2_conv_all_nth nth_equalityI nth_map)
  with \<open>distinct ds\<close> show ?thesis by (metis distinct_map)
qed

section \<open>Axes\<close>

text \<open>An evaluator returns elements of the dimension it is asked about.\<close>

definition evaluator_ok :: "set_evaluator \<Rightarrow> bool" where
  "evaluator_ok ev \<longleftrightarrow> (\<forall>c d mdx is. ev c d mdx = Inr is \<longrightarrow> (\<forall>i \<in> set is. i < length (elements d)))"

text \<open>A list of elements of the dimension with a name.\<close>

definition members_of :: "cube \<Rightarrow> string \<Rightarrow> nat list \<Rightarrow> bool" where
  "members_of c name is \<longleftrightarrow> (\<exists>p. at_name c p name \<and> (\<forall>i \<in> set is. i < length (elements (dims c ! p))))"

lemma members_loop_bound:
  "dim_wf d \<Longrightarrow> members_loop d out names = Inr is \<Longrightarrow> \<forall>i \<in> set out. i < length (elements d)
   \<Longrightarrow> \<forall>i \<in> set is. i < length (elements d)"
proof (induction d out names rule: members_loop.induct)
  case (2 d out name names)
  then obtain i where i: "resolve_or (dim_name d) d name = Inr i"
    and rest: "members_loop d (if i \<in> set out then out else out @ [i]) names = Inr is" by auto
  have "resolve d name = Some i" using i by (simp add: resolve_or_def)
  from resolve_bound [OF "2.prems"(1) this]
  have "\<forall>j \<in> set (if i \<in> set out then out else out @ [i]). j < length (elements d)"
    using "2.prems"(3) by (cases "i \<in> set out") simp_all
  from "2.IH" [OF i "2.prems"(1) rest this] show ?case .
qed simp

lemma dimension_by_name_at:
  assumes "dimension_by_name c name = Inr d"
  obtains p where "at_name c p name" and "dims c ! p = d"
  using assms by (auto simp: dimension_by_name_def find_Some_iff at_name_def)

lemma spec_indices_members:
  assumes wf: "cube_wf c" and ev: "evaluator_ok ev" and "spec_indices c find_subset ev spec = Inr is"
  shows "members_of c (spec_dimension spec) is"
proof -
  have static: "members_of c name is"
    if "dimension_by_name c name = Inr d" and "resolve_members d names = Inr is" for name d names
  proof -
    from that(1) obtain p where p: "at_name c p name" "dims c ! p = d" by (rule dimension_by_name_at)
    then have "dim_wf d" using cube_wf_D(1) [OF wf] by (auto simp: at_name_def list_all_length)
    from members_loop_bound [OF this, of "[]" names "is"] that(2) p
    show ?thesis by (auto simp: members_of_def resolve_members_def)
  qed
  have dynamic: "members_of c name is" if "dimension_by_name c name = Inr d" and "ev c d mdx = Inr is" for name d mdx
  proof -
    from that(1) obtain p where p: "at_name c p name" "dims c ! p = d" by (rule dimension_by_name_at)
    with ev that(2) show ?thesis by (auto simp: members_of_def evaluator_ok_def)
  qed
  show ?thesis
  proof (cases spec)
    case (SubsetSpec d name)
    with assms(3) obtain s where "sub_dimension s = d" "resolve_subset c s ev = Inr is"
      by (auto simp: spec_indices_def referenced_subset_def split: if_splits)
    then show ?thesis using static dynamic SubsetSpec
      by (cases "sub_kind s") (auto simp: resolve_subset_def)
  next
    case (MembersSpec d names)
    then show ?thesis using static assms(3) by (auto simp: spec_indices_def)
  qed
qed

lemma axis_loop_members:
  "cube_wf c \<Longrightarrow> evaluator_ok ev \<Longrightarrow> axis_loop c find_subset ev specs = Inr per \<Longrightarrow>
   list_all2 (members_of c) (map spec_dimension specs) per"
  by (induction specs arbitrary: per) (auto dest: spec_indices_members)

lemma crossjoin_tuples:
  "t \<in> set (crossjoin acc xss) \<longleftrightarrow> (\<exists>a \<in> set acc. \<exists>b. t = a @ b \<and> list_all2 (\<lambda>x xs. x \<in> set xs) b xss)"
proof (induction acc xss rule: crossjoin.induct)
  case (2 acc xs xss)
  let ?acc = "concat (map (\<lambda>prefix. map (\<lambda>v. prefix @ [v]) xs) acc)"
  have "(\<exists>a \<in> set ?acc. Q a) \<longleftrightarrow> (\<exists>a \<in> set acc. \<exists>v \<in> set xs. Q (a @ [v]))" for Q by auto
  then have "t \<in> set (crossjoin acc (xs # xss)) \<longleftrightarrow>
      (\<exists>a \<in> set acc. \<exists>v \<in> set xs. \<exists>b. t = a @ v # b \<and> list_all2 (\<lambda>x xs. x \<in> set xs) b xss)"
    by (simp add: "2")
  then show ?case by (auto simp: list_all2_Cons2)
qed simp

section \<open>Overlays\<close>

lemma overlay_simps [simp]:
  "overlay [] t k = k" "overlay ps [] k = k" "overlay (p # ps) (i # t) k = overlay ps t (k[p := i])"
  by (simp_all add: overlay_def)

lemma length_overlay [simp]: "length (overlay ps t k) = length k"
proof (induction ps arbitrary: t k)
  case (Cons p ps)
  then show ?case by (cases t) simp_all
qed simp

lemma overlay_other: "q \<notin> set ps \<Longrightarrow> overlay ps t k ! q = k ! q"
proof (induction ps arbitrary: t k)
  case (Cons p ps)
  then show ?case by (cases t) simp_all
qed simp

lemma overlay_nth:
  "distinct ps \<Longrightarrow> length t = length ps \<Longrightarrow> \<forall>p \<in> set ps. p < length k \<Longrightarrow> j < length ps \<Longrightarrow>
   overlay ps t k ! (ps ! j) = t ! j"
proof (induction ps arbitrary: t k j)
  case (Cons p ps)
  then obtain i t' where t: "t = i # t'" by (cases t) auto
  show ?case
  proof (cases j)
    case 0
    then show ?thesis using Cons.prems by (simp add: t overlay_other)
  next
    case (Suc j')
    then show ?thesis using Cons by (simp add: t)
  qed
qed simp

section \<open>The context\<close>

lemma context_loop_facts:
  assumes "context_loop c dm ctx k = Inr k'" and "distinct (map fst ctx)"
    and "distinct (map dim_name (dims c))" and "length k = length (dims c)"
  shows "length k' = length (dims c) \<and>
    (\<forall>(d, member) \<in> set ctx. \<exists>p. at_name c p d \<and> resolve (dims c ! p) member = Some (k' ! p) \<and>
       (\<forall>m. dm = Some m \<longrightarrow> \<not> denies_member m c p (k' ! p))) \<and>
    (\<forall>q < length (dims c). dim_name (dims c ! q) \<notin> fst ` set ctx \<longrightarrow> k' ! q = k ! q)"
  using assms
proof (induction c dm ctx k rule: context_loop.induct)
  case (2 c dm d member ctx coord)
  from "2.prems"(1) obtain p i where p: "dim_index c d = Inr p" and i: "resolve (dims c ! p) member = Some i"
    and visible: "\<forall>m. dm = Some m \<longrightarrow> \<not> denies_member m c p i"
    and rest: "context_loop c dm ctx (coord[p := i]) = Inr k'"
    by (auto simp: resolve_or_def split: if_splits option.splits)
  have at: "at_name c p d" using p by (rule dim_index_at)
  have not_denied: "\<not> (case dm of None \<Rightarrow> False | Some m \<Rightarrow> denies_member m c p i)"
    using visible by (simp split: option.split)
  have r: "resolve_or d (dims c ! p) member = Inr i" using i by (simp add: resolve_or_def)
  note IH = "2.IH" [OF p r not_denied rest]
  have later: "length k' = length (dims c)"
    "\<forall>(d, member) \<in> set ctx. \<exists>p. at_name c p d \<and> resolve (dims c ! p) member = Some (k' ! p) \<and>
       (\<forall>m. dm = Some m \<longrightarrow> \<not> denies_member m c p (k' ! p))"
    "\<forall>q < length (dims c). dim_name (dims c ! q) \<notin> fst ` set ctx \<longrightarrow> k' ! q = coord[p := i] ! q"
    using IH "2.prems" by simp_all
  have "k' ! p = i"
    using later(3) at "2.prems"(2,4) by (auto simp: at_name_def)
  moreover have "k' ! q = coord ! q"
    if "q < length (dims c)" "dim_name (dims c ! q) \<notin> fst ` set ((d, member) # ctx)" for q
  proof -
    have "q \<noteq> p" using that(2) at by (auto simp: at_name_def)
    then show ?thesis using later(3) that by simp
  qed
  ultimately show ?case using later(1,2) at i visible by auto
qed simp

section \<open>Plans\<close>

lemma resolve_axis_facts:
  assumes "cube_wf c" and "evaluator_ok ev" and "resolve_axis c specs find_subset ev = Inr (ds, ts)"
  shows "ds = map spec_dimension specs"
    and "t \<in> set ts \<Longrightarrow> list_all2 (\<lambda>d i. \<exists>p. at_name c p d \<and> i < length (elements (dims c ! p))) ds t"
proof -
  from assms(3) obtain per where per: "axis_loop c find_subset ev specs = Inr per"
    and ds: "ds = map spec_dimension specs" and ts: "ts = crossjoin [[]] per"
    by (auto simp: resolve_axis_def)
  show "ds = map spec_dimension specs" by (rule ds)
  assume "t \<in> set ts"
  then have "list_all2 (\<lambda>x xs. x \<in> set xs) t per" by (simp add: ts crossjoin_tuples)
  moreover have "list_all2 (members_of c) ds per" using axis_loop_members [OF assms(1,2) per] by (simp add: ds)
  ultimately show "list_all2 (\<lambda>d i. \<exists>p. at_name c p d \<and> i < length (elements (dims c ! p))) ds t"
    by (fastforce simp: list_all2_conv_all_nth members_of_def)
qed

text \<open>The positions and tuples of one axis of a plan.\<close>

definition axis_ok :: "cube \<Rightarrow> element_mask option \<Rightarrow> string list \<Rightarrow> nat list \<Rightarrow> nat list list \<Rightarrow> bool" where
  "axis_ok c dm ds ci ts \<longleftrightarrow> list_all2 (at_name c) ci ds \<and>
     (\<forall>t \<in> set ts. length t = length ci \<and>
        (\<forall>k < length ci. t ! k < length (elements (dims c ! (ci ! k))) \<and>
           (\<forall>m. dm = Some m \<longrightarrow> \<not> denies_member m c (ci ! k) (t ! k))))"

lemma axis_okI:
  assumes "cube_wf c" and "evaluator_ok ev" and uniq: "distinct (map dim_name (dims c))"
    and axis: "resolve_axis c specs find_subset ev = Inr (ds, ts)" and ci: "dim_indices c ds = Inr ci"
  shows "axis_ok c dm ds ci (filter (\<lambda>t. \<not> tuple_denied dm c ci t) ts)"
proof -
  note at = dim_indices_at [OF ci]
  have "length t = length ci \<and>
        (\<forall>k < length ci. t ! k < length (elements (dims c ! (ci ! k))) \<and>
           (\<forall>m. dm = Some m \<longrightarrow> \<not> denies_member m c (ci ! k) (t ! k)))"
    if t: "t \<in> set ts" and visible: "\<not> tuple_denied dm c ci t" for t
  proof -
    note in_axis = resolve_axis_facts(2) [OF assms(1,2) axis t]
    have len: "length t = length ci" using at in_axis by (simp add: list_all2_conv_all_nth)
    have "t ! k < length (elements (dims c ! (ci ! k)))" if "k < length ci" for k
      using at in_axis that at_name_unique [OF uniq] by (fastforce simp: list_all2_conv_all_nth)
    moreover have "\<not> denies_member m c (ci ! k) (t ! k)" if "k < length ci" "dm = Some m" for k m
      using visible that len by (auto simp: tuple_denied_def list_ex_length)
    ultimately show ?thesis using len by blast
  qed
  then show ?thesis using at by (auto simp: axis_ok_def)
qed

definition plan_ok :: "cube \<Rightarrow> element_mask option \<Rightarrow> view \<Rightarrow> plan \<Rightarrow> bool" where
  "plan_ok c dm v p \<longleftrightarrow>
     axis_ok c dm (map spec_dimension (view_rows v)) (row_ci p) (row_ts p) \<and>
     axis_ok c dm (map spec_dimension (view_columns v)) (col_ci p) (col_ts p) \<and>
     length (base_coord p) = length (dims c) \<and>
     (\<forall>(d, member) \<in> set (view_context v). \<exists>q. at_name c q d \<and>
        resolve (dims c ! q) member = Some (base_coord p ! q) \<and>
        (\<forall>m. dm = Some m \<longrightarrow> \<not> denies_member m c q (base_coord p ! q)))"

lemma plan_view_ok:
  assumes "cube_wf c" and "evaluator_ok ev" and uniq: "distinct (map dim_name (dims c))"
    and plan: "plan_view c v find_subset ev dm = Inr p"
  shows "plan_ok c dm v p" and "distinct (placed v)" and "set (placed v) = dim_name ` set (dims c)"
proof -
  from plan obtain rds rts cds cts rci cci base where cov: "validate_coverage c v = Inr ()"
    and rows: "resolve_axis c (view_rows v) find_subset ev = Inr (rds, rts)"
    and cols: "resolve_axis c (view_columns v) find_subset ev = Inr (cds, cts)"
    and ctx: "context_loop c dm (view_context v) (replicate (rank c) 0) = Inr base"
    and ci: "dim_indices c rds = Inr rci" "dim_indices c cds = Inr cci"
    and p: "p = \<lparr>row_ci = rci, col_ci = cci, row_ts = filter (\<lambda>t. \<not> tuple_denied dm c rci t) rts,
                col_ts = filter (\<lambda>t. \<not> tuple_denied dm c cci t) cts, base_coord = base\<rparr>"
    by (auto simp: plan_view_def)
  show dist: "distinct (placed v)" and "set (placed v) = dim_name ` set (dims c)"
    using coverage_facts [OF cov] by simp_all
  have "distinct (map fst (view_context v))" using dist by (simp add: placed_def)
  from context_loop_facts [OF ctx this uniq]
  show "plan_ok c dm v p"
    using axis_okI [OF assms(1-3) rows ci(1)] axis_okI [OF assms(1-3) cols ci(2)]
      resolve_axis_facts(1) [OF assms(1,2) rows] resolve_axis_facts(1) [OF assms(1,2) cols]
    by (simp add: plan_ok_def p rank_def)
qed

section \<open>The coordinate of a cell\<close>

lemma cell_coord_facts:
  assumes uniq: "distinct (map dim_name (dims c))" and ok: "plan_ok c dm v p"
    and dist: "distinct (placed v)" and i: "i < length (row_ts p)" and j: "j < length (col_ts p)"
  shows "length (cell_coord p i j) = length (dims c)"
    and "k < length (row_ci p) \<Longrightarrow> cell_coord p i j ! (row_ci p ! k) = row_ts p ! i ! k"
    and "k < length (col_ci p) \<Longrightarrow> cell_coord p i j ! (col_ci p ! k) = col_ts p ! j ! k"
    and "(d, member) \<in> set (view_context v) \<Longrightarrow> at_name c q d \<Longrightarrow> cell_coord p i j ! q = base_coord p ! q"
proof -
  let ?rd = "map spec_dimension (view_rows v)" and ?cd = "map spec_dimension (view_columns v)"
  have rows: "list_all2 (at_name c) (row_ci p) ?rd" "length (row_ts p ! i) = length (row_ci p)"
    and cols: "list_all2 (at_name c) (col_ci p) ?cd" "length (col_ts p ! j) = length (col_ci p)"
    and base: "length (base_coord p) = length (dims c)"
    using ok i j by (simp_all add: plan_ok_def axis_ok_def)
  have names: "distinct ?rd" "distinct ?cd" "set ?rd \<inter> set ?cd = {}"
    "fst ` set (view_context v) \<inter> (set ?rd \<union> set ?cd) = {}"
    using dist by (auto simp: placed_def)
  have inside: "r < length (dims c) \<and> dim_name (dims c ! r) \<in> set ds"
    if "list_all2 (at_name c) ci ds" "r \<in> set ci" for r ci ds
    using that by (auto simp: in_set_conv_nth list_all2_conv_all_nth at_name_def)
  have apart: "r \<notin> set (col_ci p)" if "r \<in> set (row_ci p)" for r
    using inside [OF rows(1) that] inside [OF cols(1), of r] names(3) by blast
  have rowin: "\<forall>r \<in> set (row_ci p). r < length (dims c)" and colin: "\<forall>r \<in> set (col_ci p). r < length (dims c)"
    using inside [OF rows(1)] inside [OF cols(1)] by blast+
  show "length (cell_coord p i j) = length (dims c)" by (simp add: cell_coord_def base)
  show "cell_coord p i j ! (row_ci p ! k) = row_ts p ! i ! k" if "k < length (row_ci p)"
    using that apart [of "row_ci p ! k"] distinct_positions [OF rows(1) names(1)] rows(2) rowin base
    by (simp add: cell_coord_def overlay_other overlay_nth)
  show "cell_coord p i j ! (col_ci p ! k) = col_ts p ! j ! k" if "k < length (col_ci p)"
    using that distinct_positions [OF cols(1) names(2)] cols(2) colin base
    by (simp add: cell_coord_def overlay_nth)
  show "cell_coord p i j ! q = base_coord p ! q" if "(d, member) \<in> set (view_context v)" "at_name c q d"
  proof -
    have "d \<notin> set ?rd" "d \<notin> set ?cd" using names(4) that(1) by force+
    then have "q \<notin> set (row_ci p)" "q \<notin> set (col_ci p)"
      using inside [OF rows(1), of q] inside [OF cols(1), of q] that(2) by (auto simp: at_name_def)
    then show ?thesis by (simp add: cell_coord_def overlay_other)
  qed
qed

text \<open>Every component of the coordinate comes from the rows, the columns or the context.\<close>

lemma placed_position:
  assumes ok: "plan_ok c dm v p" and cover: "set (placed v) = dim_name ` set (dims c)"
    and uniq: "distinct (map dim_name (dims c))" and q: "q < length (dims c)"
  obtains (row) k where "k < length (row_ci p)" and "row_ci p ! k = q"
    | (column) k where "k < length (col_ci p)" and "col_ci p ! k = q"
    | (ctx) d member where "(d, member) \<in> set (view_context v)" and "at_name c q d"
proof -
  let ?n = "dim_name (dims c ! q)"
  have here: "at_name c q ?n" using q by (simp add: at_name_def)
  have axis: "\<exists>k < length ci. ci ! k = q" if "list_all2 (at_name c) ci ds" "?n \<in> set ds" for ci ds
    using that here at_name_unique [OF uniq] by (force simp: in_set_conv_nth list_all2_conv_all_nth)
  have "?n \<in> set (placed v)" using q by (simp add: cover)
  then consider "?n \<in> set (map spec_dimension (view_rows v))" | "?n \<in> set (map spec_dimension (view_columns v))"
    | "?n \<in> fst ` set (view_context v)"
    by (auto simp: placed_def)
  then show thesis
  proof cases
    case 1
    with axis [of "row_ci p"] ok obtain k where "k < length (row_ci p)" "row_ci p ! k = q"
      unfolding plan_ok_def axis_ok_def by blast
    then show ?thesis by (rule row)
  next
    case 2
    with axis [of "col_ci p"] ok obtain k where "k < length (col_ci p)" "col_ci p ! k = q"
      unfolding plan_ok_def axis_ok_def by blast
    then show ?thesis by (rule column)
  next
    case 3
    with here ctx show ?thesis by auto
  qed
qed

lemma cell_coord_in_range:
  assumes wf: "cube_wf c" and uniq: "distinct (map dim_name (dims c))" and ok: "plan_ok c dm v p"
    and dist: "distinct (placed v)" and cover: "set (placed v) = dim_name ` set (dims c)"
    and i: "i < length (row_ts p)" and j: "j < length (col_ts p)"
  shows "in_range (dims c) (cell_coord p i j)"
    and "dm = Some m \<Longrightarrow> q < length (dims c) \<Longrightarrow> \<not> denies_member m c q (cell_coord p i j ! q)"
proof -
  note K = cell_coord_facts [OF uniq ok dist i j]
  have rows: "axis_ok c dm (map spec_dimension (view_rows v)) (row_ci p) (row_ts p)"
    and cols: "axis_ok c dm (map spec_dimension (view_columns v)) (col_ci p) (col_ts p)"
    using ok by (simp_all add: plan_ok_def)
  have t: "row_ts p ! i \<in> set (row_ts p)" "col_ts p ! j \<in> set (col_ts p)" using i j by simp_all
  have both: "cell_coord p i j ! q < length (elements (dims c ! q)) \<and>
      (\<forall>m. dm = Some m \<longrightarrow> \<not> denies_member m c q (cell_coord p i j ! q))" if q: "q < length (dims c)" for q
    using ok cover uniq q
  proof (cases rule: placed_position)
    case (row k)
    then show ?thesis using rows t(1) K(2) [of k] unfolding axis_ok_def by metis
  next
    case (column k)
    then show ?thesis using cols t(2) K(3) [of k] unfolding axis_ok_def by metis
  next
    case (ctx d member)
    from ok ctx(1) obtain q' where q': "at_name c q' d" "resolve (dims c ! q') member = Some (base_coord p ! q')"
      "\<forall>m. dm = Some m \<longrightarrow> \<not> denies_member m c q' (base_coord p ! q')"
      by (fastforce simp: plan_ok_def)
    with ctx(2) at_name_unique [OF uniq] have "q' = q" by blast
    moreover have "dim_wf (dims c ! q)" using cube_wf_D(1) [OF wf] q by (simp add: list_all_length)
    ultimately show ?thesis using q' K(4) [OF ctx] resolve_bound by auto
  qed
  then show "in_range (dims c) (cell_coord p i j)" using K(1) by (simp add: in_range_nth)
  show "\<not> denies_member m c q (cell_coord p i j ! q)" if "dm = Some m" "q < length (dims c)"
    using both that by blast
qed

lemma is_string_kind: "q < length (dims c) \<Longrightarrow> i < length (elements (dims c ! q)) \<Longrightarrow>
  element_is_string c q i \<longleftrightarrow> kind_at (dims c ! q) i = Str"
  by (simp add: element_is_string_def get_element_def is_string_def kind_at_def)

lemma list_ex_zip: "length t = length ci \<Longrightarrow>
  list_ex (\<lambda>(d, i). P d i) (zip ci t) \<longleftrightarrow> (\<exists>k < length ci. P (ci ! k) (t ! k))"
  by (auto simp: list_ex_length)

lemma dim_index_eq:
  assumes "distinct (map dim_name (dims c))" and "at_name c q d"
  shows "dim_index c d = Inr q"
proof -
  have "(d, q) \<in> set (rev (zip (map dim_name (dims c)) [0..<length (dims c)]))"
    using assms(2) by (auto simp: set_zip at_name_def intro!: exI [of _ q])
  moreover have "distinct (map fst (rev (zip (map dim_name (dims c)) [0..<length (dims c)])))"
    using assms(1) by (simp add: rev_map [symmetric])
  ultimately show ?thesis by (simp only: dim_index_def map_of_is_SomeI ok_or.simps)
qed

text \<open>A cell is a string cell exactly when a string element is one of its components.\<close>

lemma cell_is_string_iff:
  assumes wf: "cube_wf c" and uniq: "distinct (map dim_name (dims c))" and ok: "plan_ok c dm v p"
    and dist: "distinct (placed v)" and cover: "set (placed v) = dim_name ` set (dims c)"
    and i: "i < length (row_ts p)" and j: "j < length (col_ts p)"
  shows "cell_is_string c v p i j \<longleftrightarrow> (\<exists>q < length (dims c). kind_at (dims c ! q) (cell_coord p i j ! q) = Str)"
proof -
  let ?K = "cell_coord p i j"
  note K = cell_coord_facts [OF uniq ok dist i j]
  have range: "?K ! q < length (elements (dims c ! q))" if "q < length (dims c)" for q
    using cell_coord_in_range(1) [OF assms] that by (simp add: in_range_nth)
  have rows: "list_all2 (at_name c) (row_ci p) (map spec_dimension (view_rows v))" "length (row_ts p ! i) = length (row_ci p)"
    and cols: "list_all2 (at_name c) (col_ci p) (map spec_dimension (view_columns v))" "length (col_ts p ! j) = length (col_ci p)"
    using ok i j by (simp_all add: plan_ok_def axis_ok_def)
  have pos: "ci ! k < length (dims c)" if "list_all2 (at_name c) ci ds" "k < length ci" for ci ds k
    using that by (simp add: list_all2_conv_all_nth at_name_def)
  have r: "has_string c (row_ci p) (row_ts p ! i) \<longleftrightarrow>
      (\<exists>k < length (row_ci p). kind_at (dims c ! (row_ci p ! k)) (?K ! (row_ci p ! k)) = Str)"
    unfolding has_string_def list_ex_zip [OF rows(2)]
    by (metis K(2) is_string_kind pos [OF rows(1)] range)
  have s: "has_string c (col_ci p) (col_ts p ! j) \<longleftrightarrow>
      (\<exists>k < length (col_ci p). kind_at (dims c ! (col_ci p ! k)) (?K ! (col_ci p ! k)) = Str)"
    unfolding has_string_def list_ex_zip [OF cols(2)]
    by (metis K(3) is_string_kind pos [OF cols(1)] range)
  have one: "(case dim_index c d of Inl _ \<Rightarrow> False
     | Inr ci \<Rightarrow> (case resolve (dims c ! ci) member of None \<Rightarrow> False | Some i \<Rightarrow> element_is_string c ci i)) \<longleftrightarrow>
      (\<exists>q. at_name c q d \<and> kind_at (dims c ! q) (?K ! q) = Str)" if "(d, member) \<in> set (view_context v)" for d member
  proof -
    from ok that obtain q where q: "at_name c q d" "resolve (dims c ! q) member = Some (base_coord p ! q)"
      by (fastforce simp: plan_ok_def)
    then have "q < length (dims c)" by (simp add: at_name_def)
    with q K(4) [OF that q(1)] range have "element_is_string c q (base_coord p ! q) \<longleftrightarrow> kind_at (dims c ! q) (?K ! q) = Str"
      by (metis is_string_kind)
    moreover have "(\<exists>r. at_name c r d \<and> kind_at (dims c ! r) (?K ! r) = Str) \<longleftrightarrow> kind_at (dims c ! q) (?K ! q) = Str"
      using q(1) at_name_unique [OF uniq q(1)] by blast
    ultimately show ?thesis by (simp add: dim_index_eq [OF uniq q(1)] q(2))
  qed
  have t: "context_string c (view_context v) \<longleftrightarrow>
      (\<exists>(d, member) \<in> set (view_context v). \<exists>q. at_name c q d \<and> kind_at (dims c ! q) (?K ! q) = Str)"
    unfolding context_string_def list_ex_iff
  proof (intro bex_cong refl, clarify)
    fix d member assume "(d, member) \<in> set (view_context v)"
    from one [OF this] show "(case dim_index c d of Inl _ \<Rightarrow> False
       | Inr ci \<Rightarrow> (case resolve (dims c ! ci) member of None \<Rightarrow> False | Some i \<Rightarrow> element_is_string c ci i)) \<longleftrightarrow>
        (\<exists>q. at_name c q d \<and> kind_at (dims c ! q) (?K ! q) = Str)" .
  qed
  show ?thesis
  proof
    assume "cell_is_string c v p i j"
    then show "\<exists>q < length (dims c). kind_at (dims c ! q) (?K ! q) = Str"
      using pos [OF rows(1)] pos [OF cols(1)] unfolding cell_is_string_def r s t at_name_def by blast
  next
    assume "\<exists>q < length (dims c). kind_at (dims c ! q) (?K ! q) = Str"
    then obtain q where q: "q < length (dims c)" "kind_at (dims c ! q) (?K ! q) = Str" by blast
    from ok cover uniq q(1) show "cell_is_string c v p i j"
    proof (cases rule: placed_position)
      case (ctx d member)
      then show ?thesis using q(2) unfolding cell_is_string_def t by blast
    qed (use q(2) in \<open>auto simp: cell_is_string_def r s\<close>)
  qed
qed

end
