(* ===== verification/Query_Properties.thy ===== *)
theory Query_Properties
  imports Query_Facts Core_Properties
begin

text \<open>
  The result of a view: which coordinate each returned cell is read at, the independence of the
  worker count, and what a mask keeps out of it.
\<close>

section \<open>The grid and its presentation\<close>

lemma collect_eq: "collect rs = Inr vs \<longleftrightarrow> rs = map Inr vs"
proof (induction rs arbitrary: vs)
  case (Cons r rs)
  then show ?case by (cases r; cases vs) auto
qed auto

lemma serial_grid_nth:
  assumes "fill_grid_serial nrows ncols f = Inr grid"
  shows "length grid = nrows * ncols"
    and "r < nrows \<Longrightarrow> j < ncols \<Longrightarrow> f r j = Inr (grid ! (r * ncols + j))"
proof -
  have one: "length grid = nrows * ncols \<and> (r < nrows \<longrightarrow> j < ncols \<longrightarrow> f r j = Inr (grid ! (r * ncols + j)))" for r j
  proof (cases "0 < ncols")
    case True
    with assms have g: "map (\<lambda>i. f (i div ncols) (i mod ncols)) [0..<nrows * ncols] = map Inr grid"
      by (simp add: fill_grid_serial_def row_major_eq collect_eq comp_def)
    then have len: "length grid = nrows * ncols" by (metis length_map length_upt minus_nat.diff_0)
    have "f r j = Inr (grid ! (r * ncols + j))" if "r < nrows" "j < ncols"
    proof -
      have "r * ncols + j < nrows * ncols"
        using that by (metis add.commute less_mult_imp_div_less mult_less_cancel2 nat_add_left_cancel_less
            less_le_trans mult_Suc mult_le_mono1 Suc_leI)
      moreover have "(r * ncols + j) div ncols = r" "(r * ncols + j) mod ncols = j" using that by simp_all
      ultimately show ?thesis using arg_cong [OF g, of "\<lambda>xs. xs ! (r * ncols + j)"] by (simp add: len)
    qed
    with len show ?thesis by blast
  next
    case False
    then have "row_major nrows ncols = []" by (simp add: row_major_def)
    then show ?thesis using assms False by (simp add: fill_grid_serial_def)
  qed
  show "length grid = nrows * ncols" using one by blast
  show "f r j = Inr (grid ! (r * ncols + j))" if "r < nrows" "j < ncols" using one that by blast
qed

lemma view_grid_serial: "view_grid c v res par p = view_grid c v res par_serial p"
proof -
  let ?n = "sat_mul (length (row_ts p)) (length (col_ts p))"
  have s: "workers_for par_serial ?n = 1" by (simp add: workers_for_def par_serial_def)
  have "fill_grid_parallel (length (row_ts p)) (length (col_ts p)) (workers_for par ?n) f =
      fill_grid_serial (length (row_ts p)) (length (col_ts p)) f"
    if "1 < workers_for par ?n" for f :: "nat \<Rightarrow> nat \<Rightarrow> query_error + cell_out"
  proof (rule fill_grid_parallel_serial)
    have "?n \<noteq> 0" using that by (auto simp: workers_for_def split: if_splits)
    then have "length (row_ts p) * length (col_ts p) \<noteq> 0" by (auto simp: sat_mul_def sat_u64_def)
    then show "0 < length (row_ts p)" "0 < length (col_ts p)" by simp_all
  qed (use that in simp)
  then show ?thesis by (simp add: view_grid_def Let_def s)
qed

lemma view_grid_nth:
  assumes "view_grid c v res par p = Inr grid"
  shows "length grid = length (row_ts p) * length (col_ts p)"
    and "r < length (row_ts p) \<Longrightarrow> j < length (col_ts p) \<Longrightarrow>
      view_cell c v res p r j = Inr (grid ! (r * length (col_ts p) + j))"
proof -
  have "fill_grid_serial (length (row_ts p)) (length (col_ts p)) (view_cell c v res p) = Inr grid"
    using assms unfolding view_grid_serial [of c v res par]
    by (simp add: view_grid_def workers_for_def par_serial_def Let_def split: if_splits)
  from serial_grid_nth [OF this]
  show "length grid = length (row_ts p) * length (col_ts p)"
    and "r < length (row_ts p) \<Longrightarrow> j < length (col_ts p) \<Longrightarrow>
      view_cell c v res p r j = Inr (grid ! (r * length (col_ts p) + j))" by blast+
qed

lemma tuple_names_nth:
  assumes "tuple_names c ci t = Inr names" and len: "length t = length ci"
  shows "names = map (\<lambda>k. el_name (elements (dims c ! (ci ! k)) ! (t ! k))) [0..<length ci]"
proof -
  let ?f = "\<lambda>(d, i). if i < length (elements (dims c ! d)) then Inr (el_name (elements (dims c ! d) ! i))
                     else Inl query_panic"
  have n: "map ?f (zip ci t) = map Inr names" using assms(1) by (simp add: tuple_names_def collect_eq)
  from arg_cong [OF n, of length] have names: "length names = length ci" using len by simp
  show ?thesis
  proof (rule nth_equalityI)
    fix k assume "k < length names"
    then have k: "k < length ci" by (simp add: names)
    have "map ?f (zip ci t) ! k = map Inr names ! k" by (simp only: n)
    then have "?f (ci ! k, t ! k) = Inr (names ! k)" using k len names by simp
    then show "names ! k = map (\<lambda>k. el_name (elements (dims c ! (ci ! k)) ! (t ! k))) [0..<length ci] ! k"
      using k by (simp split: if_splits)
  qed (simp add: names)
qed

lemma to_names_nth:
  assumes "to_names c ci ts picks = Inr names"
  shows "length names = length picks"
    and "i < length picks \<Longrightarrow> length (ts ! (picks ! i)) = length ci \<Longrightarrow>
      names ! i = map (\<lambda>k. el_name (elements (dims c ! (ci ! k)) ! (ts ! (picks ! i) ! k))) [0..<length ci]"
proof -
  have m: "map (\<lambda>i. tuple_names c ci (ts ! i)) picks = map Inr names"
    using assms by (simp add: to_names_def collect_eq)
  then show len: "length names = length picks" by (metis length_map)
  assume i: "i < length picks" and t: "length (ts ! (picks ! i)) = length ci"
  have "map (\<lambda>i. tuple_names c ci (ts ! i)) picks ! i = map Inr names ! i" by (simp only: m)
  then have "tuple_names c ci (ts ! (picks ! i)) = Inr (names ! i)" using i len by simp
  then show "names ! i = map (\<lambda>k. el_name (elements (dims c ! (ci ! k)) ! (ts ! (picks ! i) ! k))) [0..<length ci]"
    using t by (rule tuple_names_nth)
qed

lemma concat_rows_nth:
  "i < length rows \<Longrightarrow> j < length cols \<Longrightarrow>
   concat (map (\<lambda>r. map (f r) cols) rows) ! (i * length cols + j) = f (rows ! i) (cols ! j)"
proof (induction rows arbitrary: i)
  case (Cons r rows)
  then show ?case by (cases i) (simp_all add: nth_append add.assoc)
qed simp

lemma present_facts:
  assumes pres: "present c v p grid = Inr cs"
  obtains rows cols where "to_names c (row_ci p) (row_ts p) rows = Inr (row_tuples cs)"
    and "to_names c (col_ci p) (col_ts p) cols = Inr (column_tuples cs)"
    and "set rows \<subseteq> {..<length (row_ts p)}" and "set cols \<subseteq> {..<length (col_ts p)}"
    and "length (cs_cells cs) = length rows * length cols"
    and "\<And>i j. i < length rows \<Longrightarrow> j < length cols \<Longrightarrow>
      \<lparr>out_value = cs_cells cs ! (i * length cols + j), out_string = cell_strings cs ! (i * length cols + j),
       out_error = cell_errors cs ! (i * length cols + j)\<rparr> = grid ! (rows ! i * length (col_ts p) + cols ! j)"
    and "row_dimensions cs = map spec_dimension (view_rows v)"
    and "column_dimensions cs = map spec_dimension (view_columns v)" and "cs_context cs = view_context v"
proof -
  let ?R = "length (row_ts p)" and ?C = "length (col_ts p)"
  define rows where "rows = filter (kept_rows v ?R ?C grid) [0..<?R]"
  define cols where "cols = filter (kept_columns v ?R ?C grid rows) [0..<?C]"
  define outs where "outs = concat (map (\<lambda>r. map (\<lambda>j. grid ! (r * ?C + j)) cols) rows)"
  have p: "to_names c (row_ci p) (row_ts p) rows = Inr (row_tuples cs)"
    "to_names c (col_ci p) (col_ts p) cols = Inr (column_tuples cs)"
    "cs_cells cs = map out_value outs" "cell_strings cs = map out_string outs" "cell_errors cs = map out_error outs"
    "row_dimensions cs = map spec_dimension (view_rows v)"
    "column_dimensions cs = map spec_dimension (view_columns v)" "cs_context cs = view_context v"
    using pres by (auto simp: present_def Let_def rows_def cols_def outs_def)
  have len: "length outs = length rows * length cols" by (simp add: outs_def length_concat comp_def sum_list_triv)
  show thesis
  proof (rule that [OF p(1,2)])
    fix i j assume ij: "i < length rows" "j < length cols"
    then have "i * length cols + j < length outs"
      by (simp add: len) (metis add.commute add_less_le_mono le_add1 less_le_trans mult_Suc mult_le_mono1 Suc_leI
          nat_add_left_cancel_less)
    then show "\<lparr>out_value = cs_cells cs ! (i * length cols + j), out_string = cell_strings cs ! (i * length cols + j),
       out_error = cell_errors cs ! (i * length cols + j)\<rparr> = grid ! (rows ! i * ?C + cols ! j)"
      by (simp add: p outs_def [symmetric] concat_rows_nth [OF ij, of "\<lambda>r j. grid ! (r * ?C + j)", folded outs_def])
  qed (auto simp: rows_def cols_def p len)
qed

text \<open>A label of an axis names the component of the coordinate at its dimension.\<close>

lemma label_at:
  assumes at: "list_all2 (at_name c) ci ds" and k: "k < length ds"
    and "names = map (\<lambda>k. el_name (elements (dims c ! (ci ! k)) ! (t ! k))) [0..<length ci]"
    and "\<And>k. k < length ci \<Longrightarrow> K ! (ci ! k) = t ! k"
  shows "\<exists>q. at_name c q (ds ! k) \<and> el_name (elements (dims c ! q) ! (K ! q)) = names ! k"
proof -
  have "k < length ci" "at_name c (ci ! k) (ds ! k)" using at k by (auto simp: list_all2_conv_all_nth)
  then show ?thesis using assms(3,4) by (intro exI [of _ "ci ! k"]) simp
qed

text \<open>A label of an axis never names a denied member.\<close>

lemma label_visible:
  assumes wf: "cube_wf c" and uniq: "distinct (map dim_name (dims c))" and axis: "axis_ok c (Some m) ds ci ts"
    and names: "to_names c ci ts picks = Inr names" and picks: "set picks \<subseteq> {..<length ts}"
    and t: "t \<in> set names" and k: "k < length ds"
    and q: "at_name c q (ds ! k)" and x: "index_of (dims c ! q) (t ! k) = Some x"
  shows "\<not> denies_member m c q x"
proof -
  from t to_names_nth(1) [OF names] obtain a where a: "a < length picks" "t = names ! a"
    by (metis in_set_conv_nth)
  then have "picks ! a < length ts" using picks nth_mem [OF a(1)] by blast
  then have tup: "ts ! (picks ! a) \<in> set ts" by simp
  have at: "list_all2 (at_name c) ci ds" using axis by (simp add: axis_ok_def)
  then have k': "k < length ci" and "at_name c (ci ! k) (ds ! k)" using k by (simp_all add: list_all2_conv_all_nth)
  with q have q': "ci ! k = q" using at_name_unique [OF uniq] by blast
  have tup': "length (ts ! (picks ! a)) = length ci" "ts ! (picks ! a) ! k < length (elements (dims c ! q))"
    "\<not> denies_member m c q (ts ! (picks ! a) ! k)"
    using axis tup k' q' unfolding axis_ok_def by metis+
  have "dim_wf (dims c ! q)" using cube_wf_D(1) [OF wf] q by (simp add: at_name_def list_all_length)
  moreover have "t ! k = el_name (elements (dims c ! q) ! (ts ! (picks ! a) ! k))"
    using to_names_nth(2) [OF names a(1) tup'(1)] k' q' by (simp add: a(2))
  ultimately have "index_of (dims c ! q) (t ! k) = Some (ts ! (picks ! a) ! k)"
    using tup'(2) by (simp add: index_of_Some)
  with x tup'(3) show ?thesis by simp
qed

section \<open>A sample view\<close>

definition sample_view :: view where
  "sample_view = \<lparr>view_name = ''Notes'', view_cube = ''Sales'', view_owner = None, view_visibility = Public,
     view_rows = [MembersSpec ''Region'' [''Total'', ''S'', ''north'']],
     view_columns = [MembersSpec ''Measure'' [''Price'', ''Note'']],
     view_context = [], suppress_zero_rows = True, suppress_zero_columns = False\<rparr>"

text \<open>The mask denies region S, and so the total that rolls it up.\<close>

definition sample_mask :: element_mask where
  "sample_mask = from_denied [4, 2] [[2], []]"

definition sample_cellset :: cellset where
  "sample_cellset = \<lparr>row_dimensions = [''Region''], column_dimensions = [''Measure''],
     row_tuples = [[''N'']], column_tuples = [[''Price''], [''Note'']], cs_context = [], cs_cells = [3, 0],
     cell_strings = [None, Some ''ok''], cell_errors = [None, None],
     suppressed_row_tuples = [], suppressed_column_tuples = []\<rparr>"

lemma sample_reads:
  "get sample_cube [1, 0] = Inr 3" "get_string sample_cube [1, 1] = Inr (Some ''ok'')"
  by (simp_all add: get_def sample_steps check_coord_def rank_def get_element_def sample_dim_eval
      sample_measure_eval all_numeric_leaf_def get_leaf_def get_string_def pack_def push_bit_eq_mult
      leaf_value_def component_def pool_get_def)

lemma sample_denied:
  "denies_member sample_mask sample_cube 0 0" "denies_member sample_mask sample_cube 0 (Suc (Suc 0))"
  "\<not> denies_member sample_mask sample_cube 0 (Suc 0)" "\<not> denies_member sample_mask sample_cube (Suc 0) j"
proof -
  have m: "sample_mask = \<lparr>denied = [[False, False, True, False], [False, False]]\<rparr>"
    by (simp add: sample_mask_def from_denied_def eval_nat_numeral)
  show "denies_member sample_mask sample_cube 0 0" "denies_member sample_mask sample_cube 0 (Suc (Suc 0))"
    "\<not> denies_member sample_mask sample_cube 0 (Suc 0)" "\<not> denies_member sample_mask sample_cube (Suc 0) j"
    by (simp_all add: m denies_member_def member_denied_def dim_has_denials_def index_denied_def sample_dim_eval
        leaf_weights_def get_element_def nth_Cons' sat_i64_def i64_max_def i64_min_def split: sum.split)
qed

lemma sample_plan:
  "plan_view sample_cube sample_view find_subset no_set_evaluator (Some sample_mask) =
     Inr \<lparr>row_ci = [0], col_ci = [1], row_ts = [[1]], col_ts = [[0], [1]], base_coord = [0, 0]\<rparr>"
  using sample_denied
  by (simp add: plan_view_def validate_coverage_def placed_def sample_view_def has_dimension_def resolve_axis_def
      spec_indices_def dimension_by_name_def resolve_members_def resolve_or_def resolve_def index_of_def
      sat_mul_def sat_u64_def MAX_CELLSET_CELLS_def u64_max_def dim_index_def tuple_denied_def rank_def
      sample_dim_eval sample_measure_eval numeral_2_eq_2)

lemma sample_execution:
  "execute_view_with sample_cube sample_view (stored_cells sample_cube) find_subset no_set_evaluator
     (Some sample_mask) par_serial = Inr sample_cellset"
proof -
  let ?p = "\<lparr>row_ci = [0], col_ci = [1], row_ts = [[1]], col_ts = [[0], [1]], base_coord = [0, 0]\<rparr>"
  have "view_grid sample_cube sample_view (stored_cells sample_cube) par_serial ?p =
      Inr [numeric_out 3, string_out (Some ''ok'')]"
    using sample_reads
    by (simp add: view_grid_def workers_for_def par_serial_def fill_grid_serial_def row_major_def view_cell_def
        cell_coord_def read_cell_def soften_def stored_cells_def cell_is_string_def context_string_def
        has_string_def element_is_string_def is_string_def sample_dim_eval sample_measure_eval get_element_def
        MAX_CELLSET_CELLS_def sat_mul_def sat_u64_def u64_max_def sample_view_def)
  moreover have "present sample_cube sample_view ?p [numeric_out 3, string_out (Some ''ok'')] = Inr sample_cellset"
    by (simp add: present_def sample_view_def kept_rows_def kept_columns_def is_blank_def is_zero_def
        to_names_def tuple_names_def sample_dim_eval sample_measure_eval numeric_out_def string_out_def
        sample_cellset_def)
  ultimately show ?thesis by (simp add: execute_view_with_def sample_plan)
qed

lemma sample_view_setting:
  "distinct (map dim_name (dims sample_cube))" "evaluator_ok no_set_evaluator"
  by (simp_all add: sample_dim_eval sample_measure_eval evaluator_ok_def no_set_evaluator_def)

section \<open>Properties\<close>

text \<open>C19: Every cell of a returned cellset is the cell of the cube its labels name: there is one
  coordinate in range whose components are the members of the row tuple, of the column tuple
  and of the context, and the returned value, text and error are what the cell resolver gives
  there, through its text channel exactly when a component is a string element.\<close>

theorem view_cells_read_their_coordinates:
  assumes wf: "cube_wf c" and uniq: "distinct (map dim_name (dims c))" and ev: "evaluator_ok ev"
    and run: "execute_view_with c v res find_subset ev dm par = Inr cs"
    and i: "i < length (row_tuples cs)" and j: "j < length (column_tuples cs)"
  shows "\<exists>K. in_range (dims c) K \<and>
    (\<forall>k < length (view_rows v). \<exists>q. at_name c q (row_dimensions cs ! k) \<and>
       el_name (elements (dims c ! q) ! (K ! q)) = row_tuples cs ! i ! k) \<and>
    (\<forall>k < length (view_columns v). \<exists>q. at_name c q (column_dimensions cs ! k) \<and>
       el_name (elements (dims c ! q) ! (K ! q)) = column_tuples cs ! j ! k) \<and>
    (\<forall>(d, member) \<in> set (cs_context cs). \<exists>q. at_name c q d \<and> resolve (dims c ! q) member = Some (K ! q)) \<and>
    (let n = i * length (column_tuples cs) + j in
     read_cell res (\<exists>q < length (dims c). kind_at (dims c ! q) (K ! q) = Str) K =
       Inr \<lparr>out_value = cs_cells cs ! n, out_string = cell_strings cs ! n, out_error = cell_errors cs ! n\<rparr>)"
proof -
  from run obtain p grid where plan: "plan_view c v find_subset ev dm = Inr p"
    and grid: "view_grid c v res par p = Inr grid" and pres: "present c v p grid = Inr cs"
    by (auto simp: execute_view_with_def)
  note ok = plan_view_ok [OF wf ev uniq plan]
  from pres obtain rows cols where rn: "to_names c (row_ci p) (row_ts p) rows = Inr (row_tuples cs)"
    and cn: "to_names c (col_ci p) (col_ts p) cols = Inr (column_tuples cs)"
    and inside: "set rows \<subseteq> {..<length (row_ts p)}" "set cols \<subseteq> {..<length (col_ts p)}"
    and outs: "\<And>i j. i < length rows \<Longrightarrow> j < length cols \<Longrightarrow>
      \<lparr>out_value = cs_cells cs ! (i * length cols + j), out_string = cell_strings cs ! (i * length cols + j),
       out_error = cell_errors cs ! (i * length cols + j)\<rparr> = grid ! (rows ! i * length (col_ts p) + cols ! j)"
    and dims: "row_dimensions cs = map spec_dimension (view_rows v)"
      "column_dimensions cs = map spec_dimension (view_columns v)" "cs_context cs = view_context v"
    by (rule present_facts) blast
  have i': "i < length rows" and j': "j < length cols" and C: "length (column_tuples cs) = length cols"
    using i j to_names_nth(1) [OF rn] to_names_nth(1) [OF cn] by simp_all
  then have r: "rows ! i < length (row_ts p)" and s: "cols ! j < length (col_ts p)"
    using inside nth_mem [OF i'] nth_mem [OF j'] by blast+
  let ?K = "cell_coord p (rows ! i) (cols ! j)"
  note K = cell_coord_facts [OF uniq ok(1,2) r s]
  have rows_at: "list_all2 (at_name c) (row_ci p) (row_dimensions cs)" "length (row_ts p ! (rows ! i)) = length (row_ci p)"
    and cols_at: "list_all2 (at_name c) (col_ci p) (column_dimensions cs)" "length (col_ts p ! (cols ! j)) = length (col_ci p)"
    using ok(1) r s by (simp_all add: plan_ok_def axis_ok_def dims)
  have "\<exists>q. at_name c q (row_dimensions cs ! k) \<and> el_name (elements (dims c ! q) ! (?K ! q)) = row_tuples cs ! i ! k"
    if "k < length (view_rows v)" for k
    using that rows_at(1) K(2) to_names_nth(2) [OF rn i' rows_at(2)] by (intro label_at) (simp_all add: dims)
  moreover have "\<exists>q. at_name c q (column_dimensions cs ! k) \<and>
      el_name (elements (dims c ! q) ! (?K ! q)) = column_tuples cs ! j ! k" if "k < length (view_columns v)" for k
    using that cols_at(1) K(3) to_names_nth(2) [OF cn j' cols_at(2)] by (intro label_at) (simp_all add: dims)
  moreover have "\<forall>(d, member) \<in> set (cs_context cs). \<exists>q. at_name c q d \<and> resolve (dims c ! q) member = Some (?K ! q)"
    using ok(1) K(4) unfolding plan_ok_def dims by fastforce
  ultimately show ?thesis
    using cell_coord_in_range(1) [OF wf uniq ok r s] view_grid_nth(2) [OF grid r s] outs [OF i' j']
      cell_is_string_iff [OF wf uniq ok r s]
    by (intro exI [of _ ?K]) (simp add: view_cell_def C Let_def)
qed

theorem view_cells_read_their_coordinates_witness:
  "\<exists>K. in_range [sample_dim, sample_measure] K \<and>
     el_name (elements sample_dim ! (K ! 0)) = ''N'' \<and> el_name (elements sample_measure ! (K ! 1)) = ''Note'' \<and>
     read_cell (stored_cells sample_cube) (\<exists>q < 2. kind_at ([sample_dim, sample_measure] ! q) (K ! q) = Str) K =
       Inr \<lparr>out_value = 0, out_string = Some ''ok'', out_error = None\<rparr>"
proof -
  have at: "at_name sample_cube q ''Region'' \<longleftrightarrow> q = 0" "at_name sample_cube q ''Measure'' \<longleftrightarrow> q = 1" for q
    by (auto simp: at_name_def sample_dim_eval sample_measure_eval nth_Cons' split: if_splits)
  from view_cells_read_their_coordinates [OF sample_cube_wf sample_view_setting sample_execution, of 0 1]
  show ?thesis by (auto simp: sample_cellset_def sample_view_def at numeral_2_eq_2)
qed

text \<open>C20: A view returns the same cellset, or the same error, whatever the number of workers
  that fill its grid and from whatever size on they are used.\<close>

theorem worker_count_is_invisible:
  "execute_view_with c v res find_subset ev dm par = execute_view_with c v res find_subset ev dm par_serial"
  by (simp only: execute_view_with_def view_grid_serial [of c v res par])

text \<open>C21: Through a mask a view names no denied member: no row or column label, kept or
  suppressed, and no context member is an element the mask denies directly or through a leaf
  it rolls up.\<close>

theorem masked_view_names_no_denied_member:
  assumes wf: "cube_wf c" and uniq: "distinct (map dim_name (dims c))" and ev: "evaluator_ok ev"
    and run: "execute_view_with c v res find_subset ev (Some m) par = Inr cs"
  shows "(\<forall>t \<in> set (row_tuples cs) \<union> set (suppressed_row_tuples cs). \<forall>k < length (row_dimensions cs). \<forall>q x.
      at_name c q (row_dimensions cs ! k) \<longrightarrow> index_of (dims c ! q) (t ! k) = Some x \<longrightarrow> \<not> denies_member m c q x) \<and>
    (\<forall>t \<in> set (column_tuples cs) \<union> set (suppressed_column_tuples cs). \<forall>k < length (column_dimensions cs). \<forall>q x.
      at_name c q (column_dimensions cs ! k) \<longrightarrow> index_of (dims c ! q) (t ! k) = Some x \<longrightarrow> \<not> denies_member m c q x) \<and>
    (\<forall>(d, member) \<in> set (cs_context cs). \<forall>q x.
      at_name c q d \<longrightarrow> resolve (dims c ! q) member = Some x \<longrightarrow> \<not> denies_member m c q x)"
proof -
  from run obtain p grid where plan: "plan_view c v find_subset ev (Some m) = Inr p"
    and pres: "present c v p grid = Inr cs"
    by (auto simp: execute_view_with_def)
  note ok = plan_view_ok [OF wf ev uniq plan]
  have dims: "row_dimensions cs = map spec_dimension (view_rows v)"
    "column_dimensions cs = map spec_dimension (view_columns v)" "cs_context cs = view_context v"
    using pres by (auto simp: present_def Let_def)
  have axes: "axis_ok c (Some m) (row_dimensions cs) (row_ci p) (row_ts p)"
    "axis_ok c (Some m) (column_dimensions cs) (col_ci p) (col_ts p)"
    using ok(1) by (simp_all add: plan_ok_def dims)
  have names: "\<exists>picks. to_names c (row_ci p) (row_ts p) picks = Inr (row_tuples cs) \<and> set picks \<subseteq> {..<length (row_ts p)}"
    "\<exists>picks. to_names c (row_ci p) (row_ts p) picks = Inr (suppressed_row_tuples cs) \<and> set picks \<subseteq> {..<length (row_ts p)}"
    "\<exists>picks. to_names c (col_ci p) (col_ts p) picks = Inr (column_tuples cs) \<and> set picks \<subseteq> {..<length (col_ts p)}"
    "\<exists>picks. to_names c (col_ci p) (col_ts p) picks = Inr (suppressed_column_tuples cs) \<and> set picks \<subseteq> {..<length (col_ts p)}"
    using pres unfolding present_def Let_def by (auto intro!: exI)
  have ctx: "\<not> denies_member m c q x" if "(d, member) \<in> set (cs_context cs)" "at_name c q d"
    "resolve (dims c ! q) member = Some x" for d member q x
    using ok(1) that at_name_unique [OF uniq that(2)] unfolding plan_ok_def dims by fastforce
  show ?thesis
    using label_visible [OF wf uniq axes(1)] label_visible [OF wf uniq axes(2)] names ctx by blast
qed

theorem masked_view_names_no_denied_member_witness:
  "row_tuples sample_cellset \<noteq> [] \<and>
   index_of sample_dim (hd (hd (row_tuples sample_cellset))) = Some (Suc 0) \<and>
   \<not> denies_member sample_mask sample_cube 0 (Suc 0)"
proof -
  have at: "at_name sample_cube 0 ''Region''" by (simp add: at_name_def sample_dim_eval)
  have idx: "row_tuples sample_cellset \<noteq> []" "index_of sample_dim (hd (hd (row_tuples sample_cellset))) = Some (Suc 0)"
    "row_dimensions sample_cellset = [''Region'']" "hd (row_tuples sample_cellset) ! 0 = hd (hd (row_tuples sample_cellset))"
    by (simp_all add: sample_cellset_def index_of_def sample_dim_eval)
  with masked_view_names_no_denied_member [OF sample_cube_wf sample_view_setting sample_execution] at
  have "\<not> denies_member sample_mask sample_cube 0 (Suc 0)"
    by (metis (no_types, lifting) UnI1 hd_in_set length_Cons list.size(3) less_Suc0 nth_Cons_0 sample_dims)
  with idx show ?thesis by blast
qed

end
