(* ===== verification/Model_Text.thy ===== *)
theory Model_Text
  imports Query
begin

text \<open>
  The model as a document (\<open>crates/epiphany-core/src/text.rs\<close>): the serde structs of the
  snapshot file, the functions that fill them from a model in canonical order, and the ones that
  rebuild a model from them. The text of a document is the work of the \<open>toml\<close> crate, which is
  the parameter \<open>toml\<close> of \<open>to_model_text\<close> and \<open>from_model_text\<close>.
\<close>

section \<open>Errors\<close>

datatype load_error =
    LToml
  | UnknownFormat string
  | LUnknownDimension string
  | LUnknownElement string string
  | CoordRank string nat nat
  | LModel model_error
  | LIo

datatype save_error = SToml | SIo

definition FORMAT_TAG :: string where "FORMAT_TAG = ''epiphany-model/v0''"

section \<open>The documents\<close>

record el_doc =
  ed_name :: string
  ed_kind :: element_kind
  ed_top_level :: bool

record edge_doc =
  gd_parent :: string
  gd_child :: string
  gd_weight :: int

record attr_def_doc =
  ad_name :: string
  ad_kind :: attribute_kind

record attr_val_doc =
  vd_element :: string
  vd_attribute :: string
  vd_value :: string

record dim_doc =
  dd_name :: string
  dd_elements :: "el_doc list"
  dd_edges :: "edge_doc list"
  dd_attributes :: "attr_def_doc list"
  dd_values :: "attr_val_doc list"

record cell_doc =
  cd_coord :: "string list"
  cd_value :: string

datatype subset_kind_doc = DocStatic | DocDynamic

record subset_doc =
  sd_name :: string
  sd_dimension :: string
  sd_owner :: "string option"
  sd_visibility :: visibility
  sd_kind :: subset_kind_doc
  sd_members :: "string list"
  sd_mdx :: "string option"

datatype axis_type_doc = DocSubset | DocMembers

record axis_doc =
  xd_dimension :: string
  xd_type :: axis_type_doc
  xd_subset :: "string option"
  xd_members :: "string list"

record view_doc =
  wd_name :: string
  wd_cube :: string
  wd_owner :: "string option"
  wd_visibility :: visibility
  wd_zero_rows :: bool
  wd_zero_columns :: bool
  wd_zeros :: "bool option"
  wd_rows :: "axis_doc list"
  wd_columns :: "axis_doc list"
  wd_context :: "(string \<times> string) list"

record test_cell_doc =
  td_coord :: "(string \<times> string) list"
  td_value :: string

record rule_test_doc =
  rd_name :: string
  rd_fixtures :: "test_cell_doc list"
  rd_assertions :: "test_cell_doc list"

record sandbox_doc =
  bd_name :: string
  bd_owner :: string
  bd_created :: nat
  bd_updated :: nat
  bd_cells :: "cell_doc list"
  bd_strings :: "cell_doc list"

record model_doc =
  md_format :: string
  md_cube :: string
  md_cube_dims :: "string list"
  md_dims :: "dim_doc list"
  md_cells :: "cell_doc list"
  md_strings :: "cell_doc list"
  md_subsets :: "subset_doc list"
  md_views :: "view_doc list"
  md_rules :: "string option"
  md_tests :: "rule_test_doc list"
  md_sandboxes :: "sandbox_doc list"

section \<open>Subsets, views and tests\<close>

definition subset_to_doc :: "subset_def \<Rightarrow> subset_doc" where
  "subset_to_doc s =
     (case (case sub_kind s of Static members \<Rightarrow> (DocStatic, members, None)
                             | Dynamic mdx \<Rightarrow> (DocDynamic, [], Some mdx)) of
        (kind, members, mdx) \<Rightarrow>
          \<lparr>sd_name = sub_name s, sd_dimension = sub_dimension s, sd_owner = sub_owner s,
           sd_visibility = sub_visibility s, sd_kind = kind, sd_members = members, sd_mdx = mdx\<rparr>)"

definition build_subset :: "subset_doc \<Rightarrow> subset_def" where
  "build_subset doc =
     \<lparr>sub_name = sd_name doc, sub_dimension = sd_dimension doc, sub_owner = sd_owner doc,
      sub_visibility = sd_visibility doc,
      sub_kind = (case sd_kind doc of
                    DocStatic \<Rightarrow> Static (sd_members doc)
                  | DocDynamic \<Rightarrow> Dynamic (case sd_mdx doc of Some mdx \<Rightarrow> mdx | None \<Rightarrow> []))\<rparr>"

fun axis_to_doc :: "axis_spec \<Rightarrow> axis_doc" where
  "axis_to_doc (SubsetSpec d name) =
     \<lparr>xd_dimension = d, xd_type = DocSubset, xd_subset = Some name, xd_members = []\<rparr>"
| "axis_to_doc (MembersSpec d members) =
     \<lparr>xd_dimension = d, xd_type = DocMembers, xd_subset = None, xd_members = members\<rparr>"

definition build_axis :: "axis_doc \<Rightarrow> axis_spec" where
  "build_axis doc =
     (case xd_type doc of
        DocSubset \<Rightarrow> SubsetSpec (xd_dimension doc) (case xd_subset doc of Some n \<Rightarrow> n | None \<Rightarrow> [])
      | DocMembers \<Rightarrow> MembersSpec (xd_dimension doc) (xd_members doc))"

definition view_to_doc :: "view \<Rightarrow> view_doc" where
  "view_to_doc v =
     \<lparr>wd_name = view_name v, wd_cube = view_cube v, wd_owner = view_owner v, wd_visibility = view_visibility v,
      wd_zero_rows = suppress_zero_rows v, wd_zero_columns = suppress_zero_columns v, wd_zeros = None,
      wd_rows = map axis_to_doc (view_rows v), wd_columns = map axis_to_doc (view_columns v),
      wd_context = view_context v\<rparr>"

definition build_view :: "view_doc \<Rightarrow> view" where
  "build_view doc =
     (case (case wd_zeros doc of Some legacy \<Rightarrow> (legacy, legacy)
                               | None \<Rightarrow> (wd_zero_rows doc, wd_zero_columns doc)) of
        (rows, columns) \<Rightarrow>
          \<lparr>view_name = wd_name doc, view_cube = wd_cube doc, view_owner = wd_owner doc,
           view_visibility = wd_visibility doc,
           view_rows = map build_axis (wd_rows doc), view_columns = map build_axis (wd_columns doc),
           view_context = wd_context doc, suppress_zero_rows = rows, suppress_zero_columns = columns\<rparr>)"

definition bt_collect :: "('k::linorder \<times> 'v) list \<Rightarrow> ('k, 'v) btree" where
  "bt_collect xs = foldl (\<lambda>m (k, v). bt_insert k v m) [] xs"

definition test_cell_to_doc :: "test_cell \<Rightarrow> test_cell_doc" where
  "test_cell_to_doc cell = \<lparr>td_coord = tc_coord cell, td_value = tc_value cell\<rparr>"

definition build_test_cell :: "test_cell_doc \<Rightarrow> test_cell" where
  "build_test_cell doc = \<lparr>tc_coord = bt_collect (td_coord doc), tc_value = td_value doc\<rparr>"

definition rule_test_to_doc :: "rule_test \<Rightarrow> rule_test_doc" where
  "rule_test_to_doc t =
     \<lparr>rd_name = rt_name t, rd_fixtures = map test_cell_to_doc (rt_fixtures t),
      rd_assertions = map test_cell_to_doc (rt_assertions t)\<rparr>"

definition build_rule_test :: "rule_test_doc \<Rightarrow> rule_test" where
  "build_rule_test doc =
     \<lparr>rt_name = rd_name doc, rt_fixtures = map build_test_cell (rd_fixtures doc),
      rt_assertions = map build_test_cell (rd_assertions doc)\<rparr>"

section \<open>Dimensions\<close>

text \<open>The text of an attribute value.\<close>

fun value_text :: "attribute_value \<Rightarrow> string" where
  "value_text (Text text) = text"
| "value_text (Numeric v) = display v"

definition dim_to_doc :: "dimension \<Rightarrow> dim_doc" where
  "dim_to_doc d =
     \<lparr>dd_name = dim_name d,
      dd_elements = map (\<lambda>e. \<lparr>ed_name = el_name e, ed_kind = el_kind e, ed_top_level = el_pinned e\<rparr>) (elements d),
      dd_edges = concat (map (\<lambda>p. map (\<lambda>e. \<lparr>gd_parent = el_name (elements d ! p),
                                            gd_child = el_name (elements d ! edge_child e),
                                            gd_weight = edge_weight e\<rparr>) (children d ! p))
                             [0..<dim_len d]),
      dd_attributes = map (\<lambda>a. \<lparr>ad_name = attr_name a, ad_kind = attr_kind a\<rparr>) (attributes d),
      dd_values = map (\<lambda>(e, a, v). \<lparr>vd_element = el_name (elements d ! e),
                                    vd_attribute = attr_name (attributes d ! a),
                                    vd_value = value_text v\<rparr>) (attribute_values d)\<rparr>"

text \<open>An error of the model inside the loader.\<close>

definition loaded :: "model_error + 'a \<Rightarrow> load_error + 'a" where
  "loaded = map_err LModel"

fun build_elements :: "el_doc list \<Rightarrow> dimension \<Rightarrow> load_error + dimension" where
  "build_elements [] dim = Inr dim"
| "build_elements (el # els) dim =
     (case (case ed_kind el of Leaf \<Rightarrow> add_leaf (ed_name el) dim
                             | Str \<Rightarrow> add_string (ed_name el) dim
                             | Consolidated \<Rightarrow> add_consolidated (ed_name el) dim) of
        (i, dim') \<Rightarrow>
          bindE (if ed_top_level el then loaded (pin_to_top i dim') else Inr dim') (build_elements els))"

definition doc_element :: "string \<Rightarrow> dimension \<Rightarrow> string \<Rightarrow> load_error + nat" where
  "doc_element dname dim name = ok_or (LUnknownElement dname name) (index_of dim name)"

fun build_edges :: "string \<Rightarrow> edge_doc list \<Rightarrow> dimension \<Rightarrow> load_error + dimension" where
  "build_edges dname [] dim = Inr dim"
| "build_edges dname (g # gs) dim =
     bindE (doc_element dname dim (gd_parent g)) (\<lambda>p.
     bindE (doc_element dname dim (gd_child g)) (\<lambda>c.
     bindE (loaded (add_child p c (gd_weight g) dim)) (build_edges dname gs)))"

definition build_attrs :: "attr_def_doc list \<Rightarrow> dimension \<Rightarrow> dimension" where
  "build_attrs defs dim = foldl (\<lambda>d a. snd (add_attribute (ad_name a) (ad_kind a) d)) dim defs"

fun build_values :: "string \<Rightarrow> attr_val_doc list \<Rightarrow> dimension \<Rightarrow> load_error + dimension" where
  "build_values dname [] dim = Inr dim"
| "build_values dname (av # avs) dim =
     bindE (doc_element dname dim (vd_element av)) (\<lambda>e.
     bindE (ok_or (LModel (AttributeNotFound dname (vd_attribute av)))
              (Option.bind (attribute_index dim (vd_attribute av)) (\<lambda>i.
                 if i < length (attributes dim) then Some (attr_kind (attributes dim ! i)) else None))) (\<lambda>kind.
     bindE (case kind of
              KNumeric \<Rightarrow> bindE (loaded (from_str (vd_value av))) (\<lambda>v. Inr (Numeric v))
            | _ \<Rightarrow> Inr (Text (vd_value av))) (\<lambda>value.
     bindE (loaded (set_attribute e (vd_attribute av) value dim)) (build_values dname avs))))"

definition build_dimension :: "dim_doc \<Rightarrow> load_error + dimension" where
  "build_dimension doc =
     bindE (build_elements (dd_elements doc) (dim_new (dd_name doc))) (\<lambda>d1.
     bindE (build_edges (dd_name doc) (dd_edges doc) d1) (\<lambda>d2.
       build_values (dd_name doc) (dd_values doc) (build_attrs (dd_attributes doc) d2)))"

section \<open>Coordinates, cells and sandboxes\<close>

text \<open>The names of a coordinate; an index out of range is the panic of \<open>expect\<close>, which a
  well-formed model does not reach.\<close>

definition coord_names :: "cube \<Rightarrow> coord \<Rightarrow> string list" where
  "coord_names c coord = map (\<lambda>(d, i). el_name (elements (dims c ! d) ! i)) (List.enumerate 0 coord)"

fun resolve_names :: "dimension list \<Rightarrow> string list \<Rightarrow> load_error + coord" where
  "resolve_names (d # ds) (n # ns) =
     bindE (ok_or (LUnknownElement (dim_name d) n) (index_of d n)) (\<lambda>i.
     bindE (resolve_names ds ns) (\<lambda>is. Inr (i # is)))"
| "resolve_names _ _ = Inr []"

definition resolve_coord :: "cube \<Rightarrow> string \<Rightarrow> string list \<Rightarrow> load_error + coord" where
  "resolve_coord c cname names =
     (if length names \<noteq> rank c then Inl (CoordRank cname (rank c) (length names))
      else resolve_names (dims c) names)"

definition sandbox_to_doc :: "cube \<Rightarrow> sandbox \<Rightarrow> sandbox_doc" where
  "sandbox_to_doc c sb =
     \<lparr>bd_name = sb_name sb, bd_owner = sb_owner sb, bd_created = sb_created sb, bd_updated = sb_updated sb,
      bd_cells = map (\<lambda>(k, v). \<lparr>cd_coord = coord_names c k, cd_value = display v\<rparr>) (sb_cells sb),
      bd_strings = map (\<lambda>(k, v). \<lparr>cd_coord = coord_names c k, cd_value = v\<rparr>) (sb_strings sb)\<rparr>"

fun build_overrides :: "cube \<Rightarrow> string \<Rightarrow> (string \<Rightarrow> load_error + 'v) \<Rightarrow> cell_doc list
    \<Rightarrow> (coord, 'v) btree \<Rightarrow> load_error + (coord, 'v) btree" where
  "build_overrides c cname parse [] m = Inr m"
| "build_overrides c cname parse (cell # cs) m =
     bindE (resolve_coord c cname (cd_coord cell)) (\<lambda>k.
     bindE (parse (cd_value cell)) (\<lambda>v. build_overrides c cname parse cs (bt_insert k v m)))"

definition build_sandbox :: "cube \<Rightarrow> string \<Rightarrow> sandbox_doc \<Rightarrow> load_error + sandbox" where
  "build_sandbox c cname doc =
     bindE (build_overrides c cname (\<lambda>s. loaded (from_str s)) (bd_cells doc) []) (\<lambda>cells.
     bindE (build_overrides c cname Inr (bd_strings doc) []) (\<lambda>strings.
       Inr \<lparr>sb_name = bd_name doc, sb_owner = bd_owner doc, sb_created = bd_created doc,
            sb_updated = bd_updated doc, sb_cells = cells, sb_strings = strings\<rparr>))"

section \<open>The model\<close>

text \<open>\<open>sort_by\<close> the coordinate, which is a stable sort.\<close>

definition build_model_doc :: "cube \<Rightarrow> subset_doc list \<Rightarrow> view_doc list \<Rightarrow> string option
    \<Rightarrow> rule_test_doc list \<Rightarrow> sandbox_doc list \<Rightarrow> model_doc" where
  "build_model_doc c ss vs rs ts sbs =
     \<lparr>md_format = FORMAT_TAG, md_cube = cube_name c, md_cube_dims = map dim_name (dims c),
      md_dims = map dim_to_doc (dims c),
      md_cells = map (\<lambda>(k, v). \<lparr>cd_coord = coord_names c k, cd_value = display v\<rparr>)
                     (sort_key fst (cell_entries c)),
      md_strings = map (\<lambda>(k, v). \<lparr>cd_coord = coord_names c k, cd_value = v\<rparr>)
                     (sort_key fst (string_cell_entries c)),
      md_subsets = ss, md_views = vs, md_rules = rs, md_tests = ts, md_sandboxes = sbs\<rparr>"

definition model_to_doc :: "model \<Rightarrow> model_doc" where
  "model_to_doc m =
     build_model_doc (the_cube m) (map (subset_to_doc \<circ> snd) (subsets m)) (map (view_to_doc \<circ> snd) (views m))
       (if rules_is_empty (rule_source m) then None else Some (rules_source (rule_source m)))
       (map (rule_test_to_doc \<circ> snd) (tests m)) (map (sandbox_to_doc (the_cube m) \<circ> snd) (sandboxes m))"

fun build_dims :: "dim_doc list \<Rightarrow> (string \<rightharpoonup> dimension) \<Rightarrow> load_error + (string \<rightharpoonup> dimension)" where
  "build_dims [] by_name = Inr by_name"
| "build_dims (doc # docs) by_name =
     bindE (build_dimension doc) (\<lambda>d. build_dims docs (by_name(dd_name doc \<mapsto> d)))"

fun pick_dims :: "(string \<rightharpoonup> dimension) \<Rightarrow> string list \<Rightarrow> load_error + dimension list" where
  "pick_dims by_name [] = Inr []"
| "pick_dims by_name (n # ns) =
     bindE (ok_or (LUnknownDimension n) (by_name n)) (\<lambda>d.
     bindE (pick_dims by_name ns) (\<lambda>ds. Inr (d # ds)))"

fun load_cells :: "string \<Rightarrow> cell_doc list \<Rightarrow> cube \<Rightarrow> load_error + cube" where
  "load_cells cname [] c = Inr c"
| "load_cells cname (cell # cs) c =
     bindE (resolve_coord c cname (cd_coord cell)) (\<lambda>k.
     bindE (loaded (from_str (cd_value cell))) (\<lambda>v.
     bindE (loaded (set_leaf k v c)) (load_cells cname cs)))"

fun load_strings :: "string \<Rightarrow> cell_doc list \<Rightarrow> cube \<Rightarrow> load_error + cube" where
  "load_strings cname [] c = Inr c"
| "load_strings cname (cell # cs) c =
     bindE (resolve_coord c cname (cd_coord cell)) (\<lambda>k.
     bindE (loaded (set_string k (cd_value cell) c)) (load_strings cname cs))"

definition build_cube_from_doc :: "model_doc \<Rightarrow> load_error + cube" where
  "build_cube_from_doc doc =
     bindE (build_dims (md_dims doc) Map.empty) (\<lambda>by_name.
     bindE (pick_dims by_name (md_cube_dims doc)) (\<lambda>ds.
     bindE (loaded (cube_new (md_cube doc) ds)) (\<lambda>c.
     bindE (load_cells (md_cube doc) (md_cells doc) c) (load_strings (md_cube doc) (md_strings doc)))))"

fun load_subsets :: "cube \<Rightarrow> subset_doc list \<Rightarrow> (string \<times> string, subset_def) btree
    \<Rightarrow> load_error + (string \<times> string, subset_def) btree" where
  "load_subsets c [] m = Inr m"
| "load_subsets c (sd # sds) m =
     (if \<not> list_ex (\<lambda>d. dim_name d = sd_dimension sd) (dims c) then Inl (LUnknownDimension (sd_dimension sd))
      else load_subsets c sds (bt_insert (sd_dimension sd, sd_name sd) (build_subset sd) m))"

fun load_sandboxes :: "cube \<Rightarrow> string \<Rightarrow> sandbox_doc list \<Rightarrow> (string, sandbox) btree
    \<Rightarrow> load_error + (string, sandbox) btree" where
  "load_sandboxes c cname [] m = Inr m"
| "load_sandboxes c cname (sd # sds) m =
     bindE (build_sandbox c cname sd) (\<lambda>sb. load_sandboxes c cname sds (bt_insert (bd_name sd) sb m))"

definition model_from_doc :: "model_doc \<Rightarrow> load_error + model" where
  "model_from_doc doc =
     (if md_format doc \<noteq> FORMAT_TAG then Inl (UnknownFormat (md_format doc))
      else
        bindE (build_cube_from_doc doc) (\<lambda>c.
        bindE (load_subsets c (md_subsets doc) []) (\<lambda>subs.
        bindE (load_sandboxes c (md_cube doc) (md_sandboxes doc) []) (\<lambda>sbs.
          Inr \<lparr>the_cube = c, subsets = subs,
               views = bt_collect (map (\<lambda>v. (wd_name v, build_view v)) (md_views doc)),
               rule_source = \<lparr>rules_source = (case md_rules doc of Some s \<Rightarrow> s | None \<Rightarrow> [])\<rparr>,
               tests = bt_collect (map (\<lambda>t. (rd_name t, build_rule_test t)) (md_tests doc)),
               sandboxes = sbs\<rparr>))))"

section \<open>The text\<close>

text \<open>\<open>toml::to_string\<close> and \<open>toml::from_str\<close> on documents.\<close>

record toml =
  toml_print :: "model_doc \<Rightarrow> string option"
  toml_parse :: "string \<Rightarrow> model_doc option"

definition to_model_text :: "toml \<Rightarrow> model \<Rightarrow> save_error + string" where
  "to_model_text t m = ok_or SToml (toml_print t (model_to_doc m))"

definition from_model_text :: "toml \<Rightarrow> string \<Rightarrow> load_error + model" where
  "from_model_text t text = bindE (ok_or LToml (toml_parse t text)) model_from_doc"

end
