(* ===== verification/Model_Sandbox.thy ===== *)
theory Model_Sandbox
  imports Query Cube_Rename
begin

text \<open>
  The structural edits of a model (\<open>impl Model\<close> in \<open>crates/epiphany-core/src/query.rs\<close>): each
  runs the edit of the cube and then moves or prunes the what-if overrides of every sandbox, so
  that an override follows its member and is dropped when its cell is no longer writable.
\<close>

section \<open>Sandboxes\<close>

definition sandbox_new :: "string \<Rightarrow> string \<Rightarrow> nat \<Rightarrow> sandbox" where
  "sandbox_new name owner created =
     \<lparr>sb_name = name, sb_owner = owner, sb_created = created, sb_updated = created, sb_cells = [], sb_strings = []\<rparr>"

definition sandbox_cell :: "sandbox \<Rightarrow> coord \<Rightarrow> fixed option" where
  "sandbox_cell sb k = map_of (sb_cells sb) k"

definition sandbox_string_cell :: "sandbox \<Rightarrow> coord \<Rightarrow> string option" where
  "sandbox_string_cell sb k = map_of (sb_strings sb) k"

definition sandbox_len :: "sandbox \<Rightarrow> nat" where
  "sandbox_len sb = length (sb_cells sb) + length (sb_strings sb)"

definition sandbox_is_empty :: "sandbox \<Rightarrow> bool" where
  "sandbox_is_empty sb \<longleftrightarrow> sb_cells sb = [] \<and> sb_strings sb = []"

definition remap_step :: "nat \<Rightarrow> nat list \<Rightarrow> (coord, 'v) btree \<Rightarrow> coord \<times> 'v \<Rightarrow> (coord, 'v) btree" where
  "remap_step d to_new out = (\<lambda>(coord, v).
     let mapped = (if coord ! d < length to_new then to_new ! (coord ! d) else u32_max)
     in if mapped = u32_max then out else bt_insert (coord[d := mapped]) v out)"

definition remap_coord_map :: "(coord, 'v) btree \<Rightarrow> nat \<Rightarrow> nat list \<Rightarrow> (coord, 'v) btree" where
  "remap_coord_map old d to_new = foldl (remap_step d to_new) [] old"

section \<open>Helpers of the edits\<close>

definition model_dimension_index :: "model \<Rightarrow> string \<Rightarrow> nat option" where
  "model_dimension_index m dimension = position (\<lambda>dim. dim_name dim = dimension) (dims (the_cube m))"

definition member_names :: "model \<Rightarrow> nat \<Rightarrow> string list" where
  "member_names m d = map el_name (elements (dims (the_cube m) ! d))"

definition permutation_by_name :: "cube \<Rightarrow> nat \<Rightarrow> string list \<Rightarrow> nat list" where
  "permutation_by_name c d old_names =
     map (\<lambda>n. case index_of (dims c ! d) n of Some i \<Rightarrow> i | None \<Rightarrow> u32_max) old_names"

definition remap_sandbox :: "nat \<Rightarrow> nat list \<Rightarrow> sandbox \<Rightarrow> sandbox" where
  "remap_sandbox d to_new sb = sb\<lparr>sb_cells := remap_coord_map (sb_cells sb) d to_new,
                                  sb_strings := remap_coord_map (sb_strings sb) d to_new\<rparr>"

definition prune_sandbox :: "nat \<Rightarrow> nat \<Rightarrow> bool \<Rightarrow> bool \<Rightarrow> sandbox \<Rightarrow> sandbox" where
  "prune_sandbox d element numeric strings sb =
     sb\<lparr>sb_cells := (if numeric then bt_retain (\<lambda>k. k ! d \<noteq> element) (sb_cells sb) else sb_cells sb),
        sb_strings := (if strings then bt_retain (\<lambda>k. k ! d \<noteq> element) (sb_strings sb) else sb_strings sb)\<rparr>"

definition string_at :: "cube \<Rightarrow> nat \<Rightarrow> nat \<Rightarrow> bool" where
  "string_at c d i = (case get_element (dims c ! d) i of Inr e \<Rightarrow> el_kind e = Str | Inl _ \<Rightarrow> False)"

definition prune_sole_string :: "cube \<Rightarrow> nat \<Rightarrow> nat \<Rightarrow> sandbox \<Rightarrow> sandbox" where
  "prune_sole_string c d element sb =
     sb\<lparr>sb_strings := bt_retain (\<lambda>k. k ! d \<noteq> element \<or>
          list_ex (\<lambda>(d2, i). d2 \<noteq> d \<and> string_at c d2 i) (List.enumerate 0 k)) (sb_strings sb)\<rparr>"

definition on_sandboxes :: "(sandbox \<Rightarrow> sandbox) \<Rightarrow> model \<Rightarrow> model" where
  "on_sandboxes f m = m\<lparr>sandboxes := map (\<lambda>(n, sb). (n, f sb)) (sandboxes m)\<rparr>"

definition remap_sandboxes_for_dimension :: "nat \<Rightarrow> nat list \<Rightarrow> model \<Rightarrow> model" where
  "remap_sandboxes_for_dimension d to_new = on_sandboxes (remap_sandbox d to_new)"

definition prune_sandbox_overrides :: "nat \<Rightarrow> nat \<Rightarrow> bool \<Rightarrow> bool \<Rightarrow> model \<Rightarrow> model" where
  "prune_sandbox_overrides d element numeric strings = on_sandboxes (prune_sandbox d element numeric strings)"

definition prune_sandbox_sole_string_overrides :: "nat \<Rightarrow> nat \<Rightarrow> model \<Rightarrow> model" where
  "prune_sandbox_sole_string_overrides d element m = on_sandboxes (prune_sole_string (the_cube m) d element) m"

definition leaf_parent_index :: "model \<Rightarrow> string \<Rightarrow> string option \<Rightarrow> (nat \<times> nat) option" where
  "leaf_parent_index m dimension parent =
     Option.bind (model_dimension_index m dimension) (\<lambda>d.
     Option.bind parent (\<lambda>p.
     Option.bind (index_of (dims (the_cube m) ! d) p) (\<lambda>i.
       case get_element (dims (the_cube m) ! d) i of
         Inr e \<Rightarrow> if el_kind e = Leaf \<or> el_kind e = Str then Some (d, i) else None
       | Inl _ \<Rightarrow> None)))"

section \<open>The edits\<close>

text \<open>Reorder, delete and insert: the edit of the cube, then every override follows its member
  by name.\<close>

definition reindexing_edit :: "string \<Rightarrow> (cube \<Rightarrow> model_error + cube) \<Rightarrow> model \<Rightarrow> model_error + model" where
  "reindexing_edit dimension edit m =
     (let d = model_dimension_index m dimension in
      bindE (edit (the_cube m)) (\<lambda>c'.
        let m' = m\<lparr>the_cube := c'\<rparr> in
        case d of
          Some d \<Rightarrow> Inr (remap_sandboxes_for_dimension d (permutation_by_name c' d (member_names m d)) m')
        | None \<Rightarrow> Inr m'))"

definition model_reorder_elements :: "string \<Rightarrow> string list \<Rightarrow> model \<Rightarrow> model_error + model" where
  "model_reorder_elements dimension new_order = reindexing_edit dimension (reorder_elements dimension new_order)"

definition model_delete_element :: "string \<Rightarrow> string \<Rightarrow> model \<Rightarrow> model_error + model" where
  "model_delete_element dimension element = reindexing_edit dimension (delete_element dimension element)"

definition model_insert_element_at ::
    "string \<Rightarrow> string \<Rightarrow> element_kind \<Rightarrow> insert_position \<Rightarrow> model \<Rightarrow> model_error + model" where
  "model_insert_element_at dimension name kind pos =
     reindexing_edit dimension (insert_element_at dimension name kind pos)"

definition model_set_element_kind :: "string \<Rightarrow> string \<Rightarrow> element_kind \<Rightarrow> model \<Rightarrow> model_error + model" where
  "model_set_element_kind dimension element kind m =
     (let previous =
        Option.bind (model_dimension_index m dimension) (\<lambda>d.
        Option.bind (index_of (dims (the_cube m) ! d) element) (\<lambda>i.
          case get_element (dims (the_cube m) ! d) i of Inr e \<Rightarrow> Some (d, i, el_kind e) | Inl _ \<Rightarrow> None)) in
      bindE (set_element_kind dimension element kind (the_cube m)) (\<lambda>c'.
        let m' = m\<lparr>the_cube := c'\<rparr> in
        Inr (case previous of
          None \<Rightarrow> m'
        | Some (d, i, prev) \<Rightarrow>
            (case (prev, kind) of
               (Leaf, Str) \<Rightarrow> prune_sandbox_overrides d i True False m'
             | (Str, Leaf) \<Rightarrow> prune_sandbox_sole_string_overrides d i m'
             | (Leaf, Consolidated) \<Rightarrow> prune_sandbox_overrides d i True True m'
             | (Str, Consolidated) \<Rightarrow> prune_sandbox_overrides d i True True m'
             | _ \<Rightarrow> m'))))"

text \<open>Reparent and add a child: when the parent was a leaf, the overrides stored against it go.\<close>

definition converting_edit ::
    "string \<Rightarrow> string option \<Rightarrow> (cube \<Rightarrow> model_error + cube) \<Rightarrow> model \<Rightarrow> model_error + model" where
  "converting_edit dimension parent edit m =
     (let converted = leaf_parent_index m dimension parent in
      bindE (edit (the_cube m)) (\<lambda>c'.
        let m' = m\<lparr>the_cube := c'\<rparr> in
        Inr (case converted of
          Some (d, p) \<Rightarrow> prune_sandbox_overrides d p True True m'
        | None \<Rightarrow> m')))"

definition model_reparent_element ::
    "string \<Rightarrow> string \<Rightarrow> string option \<Rightarrow> int \<Rightarrow> model \<Rightarrow> model_error + model" where
  "model_reparent_element dimension child new_parent weight =
     converting_edit dimension new_parent (reparent_element dimension child new_parent weight)"

definition model_add_child_element :: "string \<Rightarrow> string \<Rightarrow> string \<Rightarrow> int \<Rightarrow> model \<Rightarrow> model_error + model" where
  "model_add_child_element dimension parent child weight =
     converting_edit dimension (Some parent) (add_child_element dimension parent child weight)"

section \<open>Overrides stay writable\<close>

definition overrides_ok :: "dimension list \<Rightarrow> sandbox \<Rightarrow> bool" where
  "overrides_ok ds sb \<longleftrightarrow> bt_ok (sb_cells sb) \<and> bt_ok (sb_strings sb) \<and>
     (\<forall>k \<in> fst ` set (sb_cells sb). in_range ds k \<and> leaf_coord ds k) \<and>
     (\<forall>k \<in> fst ` set (sb_strings sb). in_range ds k \<and> string_coord ds k) \<and>
     (\<forall>v \<in> snd ` set (sb_cells sb). in_i64 v)"

definition model_wf :: "model \<Rightarrow> bool" where
  "model_wf m \<longleftrightarrow> cube_wf (the_cube m) \<and> (\<forall>sb \<in> snd ` set (sandboxes m). overrides_ok (dims (the_cube m)) sb)"

lemma on_sandboxes_simps [simp]:
  "the_cube (on_sandboxes f m) = the_cube m"
  "snd ` set (sandboxes (on_sandboxes f m)) = f ` snd ` set (sandboxes m)"
  by (force simp: on_sandboxes_def image_image split_beta)+

lemma lookup_on_sandboxes: "lookup_sandbox (on_sandboxes f m) n = map_option f (lookup_sandbox m n)"
  by (simp add: lookup_sandbox_def on_sandboxes_def map_of_map)

lemma overrides_okI:
  assumes "bt_ok (sb_cells sb)" and "bt_ok (sb_strings sb)"
    and "\<And>k. k \<in> fst ` set (sb_cells sb) \<Longrightarrow> in_range ds k \<and> leaf_coord ds k"
    and "\<And>k. k \<in> fst ` set (sb_strings sb) \<Longrightarrow> in_range ds k \<and> string_coord ds k"
    and "\<And>v. v \<in> snd ` set (sb_cells sb) \<Longrightarrow> in_i64 v"
  shows "overrides_ok ds sb"
  unfolding overrides_ok_def using assms(1,2) by (intro conjI ballI assms(3-5))

lemma overrides_okD:
  assumes "overrides_ok ds sb"
  shows "bt_ok (sb_cells sb)" "bt_ok (sb_strings sb)"
    "k \<in> fst ` set (sb_cells sb) \<Longrightarrow> in_range ds k \<and> leaf_coord ds k"
    "k \<in> fst ` set (sb_strings sb) \<Longrightarrow> in_range ds k \<and> string_coord ds k"
    "v \<in> snd ` set (sb_cells sb) \<Longrightarrow> in_i64 v"
  using assms unfolding overrides_ok_def by blast+

text \<open>An edit of the cube that keeps the sizes and the kinds an override rests on.\<close>

lemma overrides_ok_mono:
  assumes "overrides_ok ds sb"
    and "\<And>k. k \<in> fst ` set (sb_cells sb') \<Longrightarrow> k \<in> fst ` set (sb_cells sb) \<and> (in_range ds k \<longrightarrow> leaf_coord ds k \<longrightarrow> in_range ds' k \<and> leaf_coord ds' k)"
    and "\<And>k. k \<in> fst ` set (sb_strings sb') \<Longrightarrow> k \<in> fst ` set (sb_strings sb) \<and> (in_range ds k \<longrightarrow> string_coord ds k \<longrightarrow> in_range ds' k \<and> string_coord ds' k)"
    and "bt_ok (sb_cells sb')" and "bt_ok (sb_strings sb')"
    and "snd ` set (sb_cells sb') \<subseteq> snd ` set (sb_cells sb)"
  shows "overrides_ok ds' sb'"
proof (rule overrides_okI [OF assms(4,5)])
  note D = overrides_okD [OF assms(1)]
  show "in_range ds' k \<and> leaf_coord ds' k" if "k \<in> fst ` set (sb_cells sb')" for k
    using assms(2) [OF that] D(3) by blast
  show "in_range ds' k \<and> string_coord ds' k" if "k \<in> fst ` set (sb_strings sb')" for k
    using assms(3) [OF that] D(4) by blast
  show "in_i64 v" if "v \<in> snd ` set (sb_cells sb')" for v
    using assms(6) that D(5) by blast
qed

section \<open>Remapping\<close>

text \<open>The names of the members determine the index map of an edit.\<close>

definition names_follow :: "nat list \<Rightarrow> dimension \<Rightarrow> dimension \<Rightarrow> bool" where
  "names_follow to_new d d' \<longleftrightarrow> dim_renames to_new d d' \<and>
     (\<forall>i < length (elements d). \<not> surv to_new i \<longrightarrow> index_of d' (el_name (elements d ! i)) = None)"

lemma permutation_is_map:
  assumes "names_follow to_new (dims c ! d) (dims c' ! d)"
  shows "permutation_by_name c' d (map el_name (elements (dims c ! d))) = to_new"
proof (rule nth_equalityI)
  have core: "rename_core to_new (dims c ! d) (dims c' ! d)" and wf: "dim_wf (dims c' ! d)"
    using assms by (simp_all add: names_follow_def dim_renames_def)
  show "length (permutation_by_name c' d (map el_name (elements (dims c ! d)))) = length to_new"
    using core by (simp add: permutation_by_name_def rename_core_def)
  fix i assume "i < length (permutation_by_name c' d (map el_name (elements (dims c ! d))))"
  then have i: "i < length (elements (dims c ! d))" by (simp add: permutation_by_name_def)
  show "permutation_by_name c' d (map el_name (elements (dims c ! d))) ! i = to_new ! i"
  proof (cases "surv to_new i")
    case True
    then have "index_of (dims c' ! d) (el_name (elements (dims c ! d) ! i)) = Some (to_new ! i)"
      using rename_core_D(1,2) [OF core i] index_of_Some [OF wf] by simp
    with i show ?thesis by (simp add: permutation_by_name_def)
  next
    case False
    with i assms show ?thesis by (simp add: permutation_by_name_def names_follow_def surv_def)
  qed
qed

lemma set_bt_insert:
  "bt_ok m \<Longrightarrow> k \<notin> fst ` set m \<Longrightarrow> set (bt_insert k v m) = insert (k, v) (set m)"
  by (induction k v m rule: bt_insert.induct) auto

text \<open>A remapped map holds the surviving entries under their new coordinates.\<close>

lemma remap_coord_map_spec:
  assumes ok: "distinct (map fst old)" and ren: "rename_core to_new (ds ! d) d'" and d: "d < length ds"
    and range: "\<forall>k \<in> fst ` set old. in_range ds k"
  shows "bt_ok (remap_coord_map old d to_new) \<and>
    set (remap_coord_map old d to_new) = {(k', v). \<exists>k. (k, v) \<in> set old \<and> rename_coord d to_new k = Some k'}"
  using ok range
proof (induction old rule: rev_induct)
  case (snoc kv old)
  obtain k v where kv: "kv = (k, v)" by (cases kv)
  have k: "in_range ds k" "k \<notin> fst ` set old" using snoc.prems by (auto simp: kv)
  then have len: "k ! d < length to_new" using ren d by (simp add: in_range_nth rename_core_def)
  from snoc have IH: "bt_ok (remap_coord_map old d to_new)"
    "set (remap_coord_map old d to_new) = {(k', v). \<exists>k. (k, v) \<in> set old \<and> rename_coord d to_new k = Some k'}" by simp_all
  have step: "remap_coord_map (old @ [(k, v)]) d to_new = remap_step d to_new (remap_coord_map old d to_new) (k, v)"
    by (simp add: remap_coord_map_def)
  show ?case
  proof (cases "surv to_new (k ! d)")
    case False
    then have "rename_coord d to_new k = None" by (simp add: rename_coord_def)
    then show ?thesis using IH len False unfolding kv step by (auto simp: remap_step_def surv_def)
  next
    case True
    let ?k' = "k[d := to_new ! (k ! d)]"
    have ren_k: "rename_coord d to_new k = Some ?k'" using True by (simp add: rename_coord_def)
    have "?k' \<notin> fst ` set (remap_coord_map old d to_new)"
    proof
      assume "?k' \<in> fst ` set (remap_coord_map old d to_new)"
      then obtain j w where j: "(j, w) \<in> set old" "rename_coord d to_new j = Some ?k'" by (auto simp: IH(2))
      then have jr: "in_range ds j" using snoc.prems by force
      from j(2) have sj: "surv to_new (j ! d)" "j[d := to_new ! (j ! d)] = ?k'"
        by (auto simp: rename_coord_def split: if_splits)
      have lens: "length j = length k" "d < length j" using jr k(1) d by (simp_all add: in_range_nth)
      then have "to_new ! (j ! d) = to_new ! (k ! d)" using sj(2) by (metis nth_list_update_eq)
      moreover have "j ! d < length (elements (ds ! d))" "k ! d < length (elements (ds ! d))"
        using jr k(1) d by (simp_all add: in_range_nth)
      ultimately have "j ! d = k ! d" using rename_core_inj [OF ren] sj(1) by blast
      with list_update_inj [OF sj(2) lens] j(1) k(2) show False by force
    qed
    from set_bt_insert [OF IH(1) this] show ?thesis
      using IH len True ren_k unfolding kv step by (auto simp: remap_step_def surv_def)
  qed
qed (simp add: remap_coord_map_def)

end
