(* ===== verification/Store.thy ===== *)
theory Store
  imports Wal Model_Text Model_Sandbox
begin

text \<open>
  The durable store (\<open>crates/epiphany-persist/src/store.rs\<close>): a model in memory over a snapshot
  file and a write-ahead log. Every filesystem call that changes a file consumes one outcome of
  the script of its world: it is done, it fails after part of its effect, or the process stops in
  it; the disk is what the calls so far have left. A done call is taken to have reached the disk.
\<close>

section \<open>Files and their calls\<close>

record disk =
  snapshot_file :: "string option"
  wal_file :: "byte8 list option"
  corrupt_file :: "byte8 list option"

datatype outcome = Done | Failed nat | Cut nat

record world =
  disk :: disk
  script :: "outcome list"

datatype persist_error =
    Io
  | PModel model_error
  | PLoad load_error
  | PSave save_error
  | PCorrupt string
  | BatchRejected nat model_error
  | PQuery query_error
  | Poisoned

datatype 'a io = Ok 'a | Err persist_error | Stopped

definition bindA :: "('w \<Rightarrow> 'a io \<times> 'w) \<Rightarrow> ('a \<Rightarrow> 'w \<Rightarrow> 'b io \<times> 'w) \<Rightarrow> 'w \<Rightarrow> 'b io \<times> 'w" where
  "bindA f g w =
     (case f w of
        (Ok x, w') \<Rightarrow> g x w'
      | (Err e, w') \<Rightarrow> (Err e, w')
      | (Stopped, w') \<Rightarrow> (Stopped, w'))"

definition returnA :: "'a \<Rightarrow> 'w \<Rightarrow> 'a io \<times> 'w" where
  "returnA x w = (Ok x, w)"

definition raiseA :: "persist_error \<Rightarrow> 'w \<Rightarrow> 'a io \<times> 'w" where
  "raiseA e w = (Err e, w)"

definition liftE :: "persist_error + 'a \<Rightarrow> 'w \<Rightarrow> 'a io \<times> 'w" where
  "liftE r = (case r of Inl e \<Rightarrow> raiseA e | Inr x \<Rightarrow> returnA x)"

text \<open>\<open>part n\<close> is what a call leaves when it is cut after \<open>n\<close> steps.\<close>

definition call :: "(disk \<Rightarrow> disk) \<Rightarrow> (nat \<Rightarrow> disk \<Rightarrow> disk) \<Rightarrow> world \<Rightarrow> unit io \<times> world" where
  "call full part w =
     (case script w of
        [] \<Rightarrow> (Ok (), w\<lparr>disk := full (disk w)\<rparr>)
      | Done # rest \<Rightarrow> (Ok (), \<lparr>disk = full (disk w), script = rest\<rparr>)
      | Failed n # rest \<Rightarrow> (Err Io, \<lparr>disk = part n (disk w), script = rest\<rparr>)
      | Cut n # rest \<Rightarrow> (Stopped, \<lparr>disk = part n (disk w), script = rest\<rparr>))"

definition atomic_call :: "(disk \<Rightarrow> disk) \<Rightarrow> world \<Rightarrow> unit io \<times> world" where
  "atomic_call full = call full (\<lambda>n d. if n = 0 then d else full d)"

definition no_effect :: "world \<Rightarrow> unit io \<times> world" where
  "no_effect = atomic_call (\<lambda>d. d)"

definition write_at :: "nat \<Rightarrow> byte8 list \<Rightarrow> byte8 list \<Rightarrow> byte8 list" where
  "write_at pos data bs =
     (if data = [] then bs
      else take pos bs @ replicate (pos - length bs) 0 @ data @ drop (pos + length data) bs)"

definition wal_write :: "nat \<Rightarrow> byte8 list \<Rightarrow> world \<Rightarrow> unit io \<times> world" where
  "wal_write pos data =
     call (\<lambda>d. d\<lparr>wal_file := map_option (write_at pos data) (wal_file d)\<rparr>)
          (\<lambda>n d. d\<lparr>wal_file := map_option (write_at pos (take n data)) (wal_file d)\<rparr>)"

definition wal_set_len :: "nat \<Rightarrow> world \<Rightarrow> unit io \<times> world" where
  "wal_set_len n =
     atomic_call (\<lambda>d. d\<lparr>wal_file := map_option (\<lambda>bs. take n bs @ replicate (n - length bs) 0) (wal_file d)\<rparr>)"

definition wal_sync :: "world \<Rightarrow> unit io \<times> world" where
  "wal_sync = no_effect"

text \<open>\<open>write_snapshot\<close>: the temporary file is created, written and synced, renamed over the
  snapshot, and the directory synced. The temporary file itself is never read.\<close>

definition write_snapshot :: "toml \<Rightarrow> model \<Rightarrow> world \<Rightarrow> unit io \<times> world" where
  "write_snapshot t m =
     bindA (liftE (map_err PSave (to_model_text t m))) (\<lambda>text.
     bindA no_effect (\<lambda>_.
     bindA no_effect (\<lambda>_.
     bindA no_effect (\<lambda>_.
     bindA (atomic_call (\<lambda>d. d\<lparr>snapshot_file := Some text\<rparr>)) (\<lambda>_.
       no_effect)))))"

definition open_fresh_wal :: "world \<Rightarrow> unit io \<times> world" where
  "open_fresh_wal =
     bindA (atomic_call (\<lambda>d. d\<lparr>wal_file := Some []\<rparr>)) (\<lambda>_. wal_write 0 header)"

section \<open>The store\<close>

text \<open>\<open>cursor\<close> is the position of the open log file.\<close>

record store =
  held :: model
  cursor :: nat
  sync_on_write :: bool
  known_good :: nat
  poisoned :: bool
  wal_checkpoint_threshold :: nat

definition DEFAULT_WAL_CHECKPOINT_THRESHOLD :: nat where
  "DEFAULT_WAL_CHECKPOINT_THRESHOLD = 8 * 1024 * 1024"

definition store_over :: "model \<Rightarrow> nat \<Rightarrow> store" where
  "store_over m good =
     \<lparr>held = m, cursor = good, sync_on_write = True, known_good = good, poisoned = False,
      wal_checkpoint_threshold = DEFAULT_WAL_CHECKPOINT_THRESHOLD\<rparr>"

definition create_store :: "toml \<Rightarrow> cube \<Rightarrow> world \<Rightarrow> store io \<times> world" where
  "create_store t c =
     bindA no_effect (\<lambda>_.
     bindA (write_snapshot t (model_new c)) (\<lambda>_.
     bindA open_fresh_wal (\<lambda>_.
       returnA (store_over (model_new c) WAL_HEADER_LEN))))"

definition replay_record :: "wal_record \<Rightarrow> cube \<Rightarrow> model_error + cube" where
  "replay_record r c =
     (case r of
        SetLeaf coord v \<Rightarrow> set_leaf coord v c
      | SetString coord v \<Rightarrow> set_string coord v c
      | SetPin d e pinned \<Rightarrow> if pinned then pin_element_to_top d e c else unpin_element_from_top d e c
      | BatchBegin _ \<Rightarrow> Inr c
      | BatchEnd \<Rightarrow> Inr c)"

fun replay_records :: "wal_record list \<Rightarrow> cube \<Rightarrow> model_error + cube" where
  "replay_records [] c = Inr c"
| "replay_records (r # rs) c = bindE (replay_record r c) (replay_records rs)"

definition get_snapshot :: "toml \<Rightarrow> disk \<Rightarrow> persist_error + model" where
  "get_snapshot t d =
     (case snapshot_file d of
        None \<Rightarrow> Inl (PLoad LIo)
      | Some text \<Rightarrow> map_err PLoad (from_model_text t text))"

definition open_store :: "toml \<Rightarrow> world \<Rightarrow> store io \<times> world" where
  "open_store t w =
     (case get_snapshot t (disk w) of
        Inl e \<Rightarrow> (Err e, w)
      | Inr m \<Rightarrow>
          (case wal_file (disk w) of
             Some bytes \<Rightarrow>
               if WAL_HEADER_LEN \<le> length bytes then
                 (case replay bytes of
                    Inl _ \<Rightarrow> (Err (PCorrupt ''WAL header missing or unrecognized''), w)
                  | Inr rp \<Rightarrow>
                      if corrupt_with_valid_tail rp then
                        bindA (atomic_call (\<lambda>d. d\<lparr>wal_file := None, corrupt_file := Some bytes\<rparr>)) (\<lambda>_.
                          raiseA (PCorrupt ''WAL has intact records after a corrupt frame'')) w
                      else (case replay_records (rp_records rp) (the_cube m) of
                          Inl e \<Rightarrow> (Err (PModel e), w)
                        | Inr c \<Rightarrow>
                            bindA no_effect (\<lambda>_.
                            bindA (wal_set_len (good_len rp)) (\<lambda>_.
                            bindA no_effect (\<lambda>_.
                              returnA (store_over (m\<lparr>the_cube := c\<rparr>) (good_len rp))))) w))
               else bindA open_fresh_wal (\<lambda>_. returnA (store_over m WAL_HEADER_LEN)) w
           | None \<Rightarrow> bindA open_fresh_wal (\<lambda>_. returnA (store_over m WAL_HEADER_LEN)) w))"

definition open_or_create :: "toml \<Rightarrow> (unit \<Rightarrow> cube) \<Rightarrow> world \<Rightarrow> store io \<times> world" where
  "open_or_create t c w =
     (if snapshot_file (disk w) \<noteq> None then open_store t w else create_store t (c ()) w)"

definition has_uncheckpointed_wal :: "store \<Rightarrow> bool" where
  "has_uncheckpointed_wal s \<longleftrightarrow> WAL_HEADER_LEN < known_good s"

definition set_sync :: "bool \<Rightarrow> store \<Rightarrow> store" where
  "set_sync on s = s\<lparr>sync_on_write := on\<rparr>"

definition set_wal_checkpoint_threshold :: "nat \<Rightarrow> store \<Rightarrow> store" where
  "set_wal_checkpoint_threshold bytes s = s\<lparr>wal_checkpoint_threshold := bytes\<rparr>"

definition wal_len :: "store \<Rightarrow> nat" where
  "wal_len s = known_good s"

section \<open>Appending and checkpointing\<close>

type_synonym sys = "store \<times> world"

definition on_world :: "(world \<Rightarrow> 'a io \<times> world) \<Rightarrow> sys \<Rightarrow> 'a io \<times> sys" where
  "on_world f = (\<lambda>(s, w). case f w of (r, w') \<Rightarrow> (r, s, w'))"

definition on_store :: "(store \<Rightarrow> store) \<Rightarrow> sys \<Rightarrow> unit io \<times> sys" where
  "on_store f = (\<lambda>(s, w). (Ok (), f s, w))"

text \<open>\<open>let _ =\<close>: the error of a call is dropped.\<close>

definition ignoring :: "(sys \<Rightarrow> unit io \<times> sys) \<Rightarrow> sys \<Rightarrow> unit io \<times> sys" where
  "ignoring f x = (case f x of (Err _, x') \<Rightarrow> (Ok (), x') | r \<Rightarrow> r)"

definition seek_to :: "nat \<Rightarrow> sys \<Rightarrow> unit io \<times> sys" where
  "seek_to pos = bindA (on_world no_effect) (\<lambda>_. on_store (\<lambda>s. s\<lparr>cursor := pos\<rparr>))"

definition poison_wal :: "sys \<Rightarrow> unit io \<times> sys" where
  "poison_wal = (\<lambda>(s, w).
     bindA (ignoring (on_world (wal_set_len (known_good s)))) (\<lambda>_.
       ignoring (seek_to (known_good s))) (s\<lparr>poisoned := True\<rparr>, w))"

text \<open>A call of \<open>append_wal\<close>: when it fails the log is poisoned and the error returned.\<close>

definition or_poison :: "(sys \<Rightarrow> unit io \<times> sys) \<Rightarrow> sys \<Rightarrow> unit io \<times> sys" where
  "or_poison f x =
     (case f x of
        (Err e, x') \<Rightarrow> bindA poison_wal (\<lambda>_. raiseA e) x'
      | r \<Rightarrow> r)"

definition append_wal :: "byte8 list \<Rightarrow> sys \<Rightarrow> unit io \<times> sys" where
  "append_wal framed = (\<lambda>(s, w).
     if poisoned s then (Err Poisoned, s, w)
     else
       bindA (or_poison (on_world (wal_write (cursor s) framed))) (\<lambda>_.
       bindA (on_store (\<lambda>s. s\<lparr>cursor := cursor s + length framed\<rparr>)) (\<lambda>_.
       bindA (if sync_on_write s then or_poison (on_world wal_sync) else returnA ()) (\<lambda>_.
         on_store (\<lambda>s. s\<lparr>known_good := known_good s + length framed\<rparr>)))) (s, w))"

definition checkpoint_model :: "toml \<Rightarrow> model option \<Rightarrow> sys \<Rightarrow> unit io \<times> sys" where
  "checkpoint_model t staged = (\<lambda>(s, w).
     bindA (on_world (write_snapshot t (case staged of Some m \<Rightarrow> m | None \<Rightarrow> held s))) (\<lambda>_.
     bindA (on_world (wal_set_len 0)) (\<lambda>_.
     bindA (seek_to 0) (\<lambda>_.
     bindA (on_world (wal_write 0 header)) (\<lambda>_.
     bindA (on_store (\<lambda>s. s\<lparr>cursor := length header\<rparr>)) (\<lambda>_.
     bindA (on_world wal_sync) (\<lambda>_.
       on_store (\<lambda>s. s\<lparr>known_good := WAL_HEADER_LEN,
                       held := (case staged of Some m \<Rightarrow> m | None \<Rightarrow> held s)\<rparr>))))))) (s, w))"

definition checkpoint :: "toml \<Rightarrow> sys \<Rightarrow> unit io \<times> sys" where
  "checkpoint t = (\<lambda>(s, w). if poisoned s then (Err Poisoned, s, w) else checkpoint_model t None (s, w))"

definition maybe_auto_checkpoint :: "toml \<Rightarrow> sys \<Rightarrow> unit io \<times> sys" where
  "maybe_auto_checkpoint t = (\<lambda>(s, w).
     if wal_checkpoint_threshold s \<noteq> 0 \<and> \<not> poisoned s \<and> wal_checkpoint_threshold s < known_good s
     then checkpoint t (s, w) else (Ok (), s, w))"

definition restore_model :: "model \<Rightarrow> store \<Rightarrow> store" where
  "restore_model m s = s\<lparr>held := m\<rparr>"

definition restore_model_durably :: "toml \<Rightarrow> model \<Rightarrow> sys \<Rightarrow> unit io \<times> sys" where
  "restore_model_durably t m = (\<lambda>(s, w). checkpoint t (restore_model m s, w))"

section \<open>Cell writes and pins\<close>

text \<open>A change of the cube in memory, then its record in the log.\<close>

definition logged_write :: "toml \<Rightarrow> (cube \<Rightarrow> model_error + cube) \<Rightarrow> wal_record \<Rightarrow> sys \<Rightarrow> unit io \<times> sys" where
  "logged_write t change r = (\<lambda>(s, w).
     if poisoned s then (Err Poisoned, s, w)
     else
       (case change (the_cube (held s)) of
          Inl e \<Rightarrow> (Err (PModel e), s, w)
        | Inr c \<Rightarrow>
            bindA (append_wal (encode r)) (\<lambda>_. maybe_auto_checkpoint t)
              (s\<lparr>held := (held s)\<lparr>the_cube := c\<rparr>\<rparr>, w)))"

definition store_set_leaf :: "toml \<Rightarrow> coord \<Rightarrow> fixed \<Rightarrow> sys \<Rightarrow> unit io \<times> sys" where
  "store_set_leaf t coord v = logged_write t (set_leaf coord v) (SetLeaf coord v)"

definition store_set_string :: "toml \<Rightarrow> coord \<Rightarrow> string \<Rightarrow> sys \<Rightarrow> unit io \<times> sys" where
  "store_set_string t coord v = logged_write t (set_string coord v) (SetString coord v)"

definition store_set_pin :: "toml \<Rightarrow> string \<Rightarrow> string \<Rightarrow> bool \<Rightarrow> sys \<Rightarrow> unit io \<times> sys" where
  "store_set_pin t d e pinned =
     logged_write t (if pinned then pin_element_to_top d e else unpin_element_from_top d e) (SetPin d e pinned)"

datatype cell_write = WriteLeaf coord fixed | WriteStr coord string

fun batch_write_of :: "cell_write \<Rightarrow> batch_write" where
  "batch_write_of (WriteLeaf coord v) = BatchLeaf coord v"
| "batch_write_of (WriteStr coord v) = BatchStr coord v"

definition batch_writes :: "cell_write list \<Rightarrow> batch_write list" where
  "batch_writes = map batch_write_of"

fun write_record :: "cell_write \<Rightarrow> wal_record" where
  "write_record (WriteLeaf coord v) = SetLeaf coord v"
| "write_record (WriteStr coord v) = SetString coord v"

fun apply_writes :: "cell_write list \<Rightarrow> cube \<Rightarrow> model_error + cube" where
  "apply_writes [] c = Inr c"
| "apply_writes (w # ws) c =
     bindE (case w of WriteLeaf coord v \<Rightarrow> set_leaf coord v c | WriteStr coord v \<Rightarrow> set_string coord v c)
       (apply_writes ws)"

definition batch_frame :: "cell_write list \<Rightarrow> byte8 list" where
  "batch_frame writes =
     encode (BatchBegin (as_u32 (length writes))) @ concat (map (\<lambda>w. encode (write_record w)) writes)
       @ encode BatchEnd"

text \<open>The \<open>expect\<close> on the applied batch is the stop of the process.\<close>

definition store_set_batch :: "toml \<Rightarrow> cell_write list \<Rightarrow> sys \<Rightarrow> unit io \<times> sys" where
  "store_set_batch t writes = (\<lambda>(s, w).
     if poisoned s then (Err Poisoned, s, w)
     else
       (case validate_batch (the_cube (held s)) (batch_writes writes) of
          Inl (index, e) \<Rightarrow> (Err (BatchRejected index e), s, w)
        | Inr _ \<Rightarrow>
            bindA (append_wal (batch_frame writes)) (\<lambda>_.
            bindA (\<lambda>(s, w). case apply_writes writes (the_cube (held s)) of
                     Inl _ \<Rightarrow> (Stopped, s, w)
                   | Inr c \<Rightarrow> (Ok (), s\<lparr>held := (held s)\<lparr>the_cube := c\<rparr>\<rparr>, w)) (\<lambda>_.
              maybe_auto_checkpoint t)) (s, w)))"

section \<open>Staged definitions\<close>

definition staged_define :: "toml \<Rightarrow> (model \<Rightarrow> persist_error + 'a \<times> model) \<Rightarrow> sys \<Rightarrow> 'a io \<times> sys" where
  "staged_define t oper = (\<lambda>(s, w).
     if poisoned s then (Err Poisoned, s, w)
     else
       (case oper (held s) of
          Inl e \<Rightarrow> (Err e, s, w)
        | Inr (x, m) \<Rightarrow> bindA (checkpoint_model t (Some m)) (\<lambda>_. returnA x) (s, w)))"

text \<open>An edit of the model, and one of its cube, as a staged operation.\<close>

definition model_edit :: "(model \<Rightarrow> model_error + model) \<Rightarrow> model \<Rightarrow> persist_error + unit \<times> model" where
  "model_edit f m = (case f m of Inl e \<Rightarrow> Inl (PModel e) | Inr m' \<Rightarrow> Inr ((), m'))"

definition cube_edit :: "(cube \<Rightarrow> model_error + cube) \<Rightarrow> model \<Rightarrow> persist_error + unit \<times> model" where
  "cube_edit f = model_edit (\<lambda>m. bindE (f (the_cube m)) (\<lambda>c. Inr (m\<lparr>the_cube := c\<rparr>)))"

definition define_subset :: "toml \<Rightarrow> subset_def \<Rightarrow> sys \<Rightarrow> unit io \<times> sys" where
  "define_subset t s = staged_define t (\<lambda>m.
     case validate_subset (the_cube m) s of
       Inl e \<Rightarrow> Inl (PQuery e)
     | Inr _ \<Rightarrow> Inr ((), m\<lparr>subsets := bt_insert (sub_dimension s, sub_name s) s (subsets m)\<rparr>))"

text \<open>Delete a definition: nothing to do when there is none.\<close>

definition delete_when :: "toml \<Rightarrow> (model \<Rightarrow> bool) \<Rightarrow> (model \<Rightarrow> model) \<Rightarrow> sys \<Rightarrow> bool io \<times> sys" where
  "delete_when t present remove = (\<lambda>(s, w).
     if \<not> present (held s) then (Ok False, s, w)
     else bindA (staged_define t (\<lambda>m. Inr ((), remove m))) (\<lambda>_. returnA True) (s, w))"

definition delete_subset :: "toml \<Rightarrow> string \<Rightarrow> string \<Rightarrow> sys \<Rightarrow> bool io \<times> sys" where
  "delete_subset t d name =
     delete_when t (\<lambda>m. map_of (subsets m) (d, name) \<noteq> None)
       (\<lambda>m. m\<lparr>subsets := bt_remove (d, name) (subsets m)\<rparr>)"

definition define_view :: "toml \<Rightarrow> view \<Rightarrow> sys \<Rightarrow> unit io \<times> sys" where
  "define_view t v = staged_define t (\<lambda>m.
     case validate_view m v of
       Inl e \<Rightarrow> Inl (PQuery e)
     | Inr _ \<Rightarrow> Inr ((), m\<lparr>views := bt_insert (view_name v) v (views m)\<rparr>))"

definition delete_view :: "toml \<Rightarrow> string \<Rightarrow> sys \<Rightarrow> bool io \<times> sys" where
  "delete_view t name =
     delete_when t (\<lambda>m. map_of (views m) name \<noteq> None) (\<lambda>m. m\<lparr>views := bt_remove name (views m)\<rparr>)"

definition define_rules :: "toml \<Rightarrow> string \<Rightarrow> sys \<Rightarrow> unit io \<times> sys" where
  "define_rules t source = staged_define t (\<lambda>m. Inr ((), m\<lparr>rule_source := \<lparr>rules_source = source\<rparr>\<rparr>))"

definition delete_rules :: "toml \<Rightarrow> sys \<Rightarrow> bool io \<times> sys" where
  "delete_rules t =
     delete_when t (\<lambda>m. \<not> rules_is_empty (rule_source m)) (\<lambda>m. m\<lparr>rule_source := \<lparr>rules_source = []\<rparr>\<rparr>)"

definition define_rule_test :: "toml \<Rightarrow> rule_test \<Rightarrow> sys \<Rightarrow> unit io \<times> sys" where
  "define_rule_test t test =
     staged_define t (\<lambda>m. Inr ((), m\<lparr>tests := bt_insert (rt_name test) test (tests m)\<rparr>))"

definition delete_rule_test :: "toml \<Rightarrow> string \<Rightarrow> sys \<Rightarrow> bool io \<times> sys" where
  "delete_rule_test t name =
     delete_when t (\<lambda>m. map_of (tests m) name \<noteq> None) (\<lambda>m. m\<lparr>tests := bt_remove name (tests m)\<rparr>)"

section \<open>Sandboxes\<close>

definition define_sandbox :: "toml \<Rightarrow> sandbox \<Rightarrow> sys \<Rightarrow> unit io \<times> sys" where
  "define_sandbox t sb =
     staged_define t (\<lambda>m. Inr ((), m\<lparr>sandboxes := bt_insert (sb_name sb) sb (sandboxes m)\<rparr>))"

definition delete_sandbox :: "toml \<Rightarrow> string \<Rightarrow> sys \<Rightarrow> bool io \<times> sys" where
  "delete_sandbox t name =
     delete_when t (\<lambda>m. map_of (sandboxes m) name \<noteq> None) (\<lambda>m. m\<lparr>sandboxes := bt_remove name (sandboxes m)\<rparr>)"

definition no_sandbox :: "string \<Rightarrow> persist_error" where
  "no_sandbox name = PQuery (CalcMessage (''no sandbox '' @ quoted name))"

fun is_str_write :: "cell_write \<Rightarrow> bool" where
  "is_str_write (WriteStr _ _) = True"
| "is_str_write (WriteLeaf _ _) = False"

fun put_override :: "cell_write \<Rightarrow> (coord, fixed) btree \<Rightarrow> (coord, fixed) btree" where
  "put_override (WriteLeaf coord v) m = bt_insert coord v m"
| "put_override (WriteStr _ _) m = m"

definition with_sandbox :: "string \<Rightarrow> (sandbox \<Rightarrow> sandbox) \<Rightarrow> model \<Rightarrow> model" where
  "with_sandbox name f m =
     m\<lparr>sandboxes := map (\<lambda>(n, sb). (n, if n = name then f sb else sb)) (sandboxes m)\<rparr>"

definition put_overrides :: "cell_write list \<Rightarrow> nat \<Rightarrow> sandbox \<Rightarrow> sandbox" where
  "put_overrides writes updated sb =
     sb\<lparr>sb_cells := foldl (\<lambda>m w. put_override w m) (sb_cells sb) writes, sb_updated := updated\<rparr>"

definition sandbox_set_cells :: "toml \<Rightarrow> string \<Rightarrow> cell_write list \<Rightarrow> nat \<Rightarrow> sys \<Rightarrow> unit io \<times> sys" where
  "sandbox_set_cells t name writes updated = (\<lambda>(s, w).
     if map_of (sandboxes (held s)) name = None then (Err (no_sandbox name), s, w)
     else if list_ex is_str_write writes
       then (Err (PQuery (CalcMessage ''string what-if values are not supported in a sandbox'')), s, w)
     else
       (case validate_batch (the_cube (held s)) (batch_writes writes) of
          Inl (index, e) \<Rightarrow> (Err (BatchRejected index e), s, w)
        | Inr _ \<Rightarrow>
            staged_define t (\<lambda>m. Inr ((), with_sandbox name (put_overrides writes updated) m)) (s, w)))"

definition sandbox_writes :: "sandbox \<Rightarrow> cell_write list" where
  "sandbox_writes sb = map (\<lambda>(k, v). WriteLeaf k v) (sb_cells sb) @ map (\<lambda>(k, v). WriteStr k v) (sb_strings sb)"

definition clear_overrides :: "nat \<Rightarrow> sandbox \<Rightarrow> sandbox" where
  "clear_overrides updated sb = sb\<lparr>sb_cells := [], sb_strings := [], sb_updated := updated\<rparr>"

definition commit_sandbox :: "toml \<Rightarrow> string \<Rightarrow> nat \<Rightarrow> sys \<Rightarrow> unit io \<times> sys" where
  "commit_sandbox t name updated = (\<lambda>(s, w).
     (case lookup_sandbox (held s) name of
        None \<Rightarrow> (Err (no_sandbox name), s, w)
      | Some sb \<Rightarrow>
          bindA (store_set_batch t (sandbox_writes sb)) (\<lambda>_.
            staged_define t (\<lambda>m. Inr ((), with_sandbox name (clear_overrides updated) m))) (s, w)))"

section \<open>Schema and dimensions\<close>

definition store_extend_schema :: "toml \<Rightarrow> element_spec list \<Rightarrow> edge_spec list \<Rightarrow> sys \<Rightarrow> nat io \<times> sys" where
  "store_extend_schema t elems edges = staged_define t (\<lambda>m.
     case extend_schema elems edges (the_cube m) of
       Inl e \<Rightarrow> Inl (PModel e)
     | Inr (n, c) \<Rightarrow> Inr (n, m\<lparr>the_cube := c\<rparr>))"

definition store_define_attribute :: "toml \<Rightarrow> string \<Rightarrow> string \<Rightarrow> attribute_kind \<Rightarrow> sys \<Rightarrow> unit io \<times> sys" where
  "store_define_attribute t d name kind = staged_define t (cube_edit (define_attribute d name kind))"

definition store_set_attribute_values ::
    "toml \<Rightarrow> string \<Rightarrow> string \<Rightarrow> (string \<times> attribute_value) list \<Rightarrow> sys \<Rightarrow> unit io \<times> sys" where
  "store_set_attribute_values t d attribute vs = staged_define t (cube_edit (set_attribute_values d attribute vs))"

text \<open>The edits that move indices or change a kind: a checkpoint first, then the staged edit.\<close>

definition checkpointed_edit :: "toml \<Rightarrow> (model \<Rightarrow> model_error + model) \<Rightarrow> sys \<Rightarrow> unit io \<times> sys" where
  "checkpointed_edit t f = bindA (checkpoint t) (\<lambda>_. staged_define t (model_edit f))"

definition store_remove_child_element :: "toml \<Rightarrow> string \<Rightarrow> string \<Rightarrow> string \<Rightarrow> sys \<Rightarrow> unit io \<times> sys" where
  "store_remove_child_element t d parent child = staged_define t (cube_edit (remove_child_element d parent child))"

datatype dimension_edit =
    EditReorder "string list"
  | EditReparent string "string option" int
  | EditAddChild string string int
  | EditRemoveChild string string
  | EditPinToTop string
  | EditUnpinFromTop string
  | EditSetKind string element_kind
  | EditDelete string
  | EditInsert string element_kind insert_position

definition edit_dimension :: "toml \<Rightarrow> string \<Rightarrow> dimension_edit \<Rightarrow> sys \<Rightarrow> unit io \<times> sys" where
  "edit_dimension t d edit =
     (case edit of
        EditReorder new_order \<Rightarrow> checkpointed_edit t (model_reorder_elements d new_order)
      | EditReparent child new_parent weight \<Rightarrow> checkpointed_edit t (model_reparent_element d child new_parent weight)
      | EditAddChild parent child weight \<Rightarrow> checkpointed_edit t (model_add_child_element d parent child weight)
      | EditRemoveChild parent child \<Rightarrow> store_remove_child_element t d parent child
      | EditPinToTop e \<Rightarrow> store_set_pin t d e True
      | EditUnpinFromTop e \<Rightarrow> store_set_pin t d e False
      | EditSetKind e kind \<Rightarrow> checkpointed_edit t (model_set_element_kind d e kind)
      | EditDelete e \<Rightarrow> checkpointed_edit t (model_delete_element d e)
      | EditInsert name kind pos \<Rightarrow> checkpointed_edit t (model_insert_element_at d name kind pos))"

end
