(* ===== verification/Dimension_Text.thy ===== *)
theory Dimension_Text
  imports Model_Text
begin

text \<open>
  A dimension read back from its document: the loader accepts what the printer wrote for a
  well-formed dimension and rebuilds its elements, edges and attribute definitions as they were,
  and its attribute rows up to the order the entries of a row are kept in.
\<close>

definition same_dim :: "dimension \<Rightarrow> dimension \<Rightarrow> bool" where
  "same_dim d d' \<longleftrightarrow> dim_name d' = dim_name d \<and> elements d' = elements d \<and> children d' = children d \<and>
     attributes d' = attributes d \<and> length (attr_values d') = length (attr_values d) \<and>
     (\<forall>i < length (attr_values d). map_of (attr_values d' ! i) = map_of (attr_values d ! i))"

lemma same_dim_refl [simp]: "same_dim d d"
  by (simp add: same_dim_def)

section \<open>Elements\<close>

definition element_doc :: "element \<Rightarrow> el_doc" where
  "element_doc e = \<lparr>ed_name = el_name e, ed_kind = el_kind e, ed_top_level = el_pinned e\<rparr>"

definition bare_dim :: "dimension \<Rightarrow> bool" where
  "bare_dim d \<longleftrightarrow> dim_wf d \<and> attributes d = [] \<and> (\<forall>es \<in> set (children d). es = []) \<and>
     (\<forall>row \<in> set (attr_values d). row = [])"

lemma add_element_fresh:
  assumes "dim_wf d" and "name \<notin> el_name ` set (elements d)" and "length (elements d) < u32_max"
  obtains d' where "add_element name kind d = (length (elements d), d')" "dim_wf d'"
    "elements d' = elements d @ [\<lparr>el_name = name, el_kind = kind, el_pinned = False\<rparr>]"
    "children d' = children d @ [[]]" "attr_values d' = attr_values d @ [[]]"
    "attributes d' = attributes d" "dim_name d' = dim_name d"
proof -
  have "index_by_name d name = None"
    using assms(1,2) by (auto simp: dim_wf_def names_ok_def position_None)
  then show thesis
    using that [of "snd (add_element name kind d)"] add_element_wf [OF assms(1,3), of name kind] assms(3)
    by (simp add: add_element_def Let_def)
qed

lemma build_elements_spec:
  assumes "bare_dim d" and "distinct (map el_name (elements d @ els))" and "length (elements d @ els) \<le> u32_max"
  shows "\<exists>d'. build_elements (map element_doc els) d = Inr d' \<and> bare_dim d' \<and> elements d' = elements d @ els \<and>
    dim_name d' = dim_name d"
  using assms
proof (induction els arbitrary: d)
  case (Cons e els)
  have wd: "dim_wf d" using Cons.prems(1) by (simp add: bare_dim_def)
  obtain d1 where d1: "add_element (el_name e) (el_kind e) d = (length (elements d), d1)" "dim_wf d1"
    "elements d1 = elements d @ [\<lparr>el_name = el_name e, el_kind = el_kind e, el_pinned = False\<rparr>]"
    "children d1 = children d @ [[]]" "attr_values d1 = attr_values d @ [[]]"
    "attributes d1 = attributes d" "dim_name d1 = dim_name d"
    by (rule add_element_fresh [OF wd, of "el_name e" "el_kind e"]) (use Cons.prems(2,3) in auto)
  let ?d2 = "d1\<lparr>elements := elements d @ [e]\<rparr>"
  have pinned: "set_pinned True (length (elements d)) d1 = Inr ?d2" if "el_pinned e"
    using that by (simp add: set_pinned_def get_element_def d1(3))
  have unpinned: "?d2 = d1" if "\<not> el_pinned e"
  proof -
    have "\<lparr>el_name = el_name e, el_kind = el_kind e, el_pinned = False\<rparr> = e" using that by (cases e) simp
    with d1(3) have "elements d1 = elements d @ [e]" by simp
    then show ?thesis by (cases d1) simp
  qed
  have "dim_wf ?d2" using set_pinned_wf [OF d1(2) pinned] unpinned d1(2) by (cases "el_pinned e") simp_all
  with Cons.prems(1) have "bare_dim ?d2" using d1 by (auto simp: bare_dim_def)
  from Cons.IH [OF this] Cons.prems(2,3) obtain d' where d': "build_elements (map element_doc els) ?d2 = Inr d'"
    "bare_dim d'" "elements d' = elements d @ e # els" "dim_name d' = dim_name d"
    using d1(7) by auto
  have "build_elements (map element_doc (e # els)) d = build_elements (map element_doc els) ?d2"
    using d1(1) pinned unpinned
    by (cases "el_kind e"; cases "el_pinned e")
      (simp_all add: element_doc_def add_leaf_def add_string_def add_consolidated_def pin_to_top_def loaded_def)
  with d' show ?case by simp
qed simp

section \<open>Edges\<close>

text \<open>The edges as triples, in the order of the document, and the pushing of them.\<close>

definition edge_list :: "dimension \<Rightarrow> (nat \<times> edge) list" where
  "edge_list d = concat (map (\<lambda>p. map (Pair p) (children d ! p)) [0..<length (elements d)])"

definition push_edges :: "(nat \<times> edge) list \<Rightarrow> edge list list \<Rightarrow> edge list list" where
  "push_edges es kids = foldl (\<lambda>kids (p, e). kids[p := kids ! p @ [e]]) kids es"

lemma push_edges_row: "p < length kids \<Longrightarrow> push_edges (map (Pair p) es) kids = kids[p := kids ! p @ es]"
proof (induction es arbitrary: kids)
  case Nil
  then show ?case by (simp add: push_edges_def)
next
  case (Cons e es)
  have "push_edges (map (Pair p) (e # es)) kids = push_edges (map (Pair p) es) (kids[p := kids ! p @ [e]])"
    by (simp add: push_edges_def)
  with Cons show ?case by simp
qed

lemma push_edges_append: "push_edges (xs @ ys) kids = push_edges ys (push_edges xs kids)"
  by (simp add: push_edges_def)

lemma push_edges_all:
  assumes "length ch = n" and "m \<le> n"
  shows "push_edges (concat (map (\<lambda>p. map (Pair p) (ch ! p)) [0..<m])) (replicate n []) =
    take m ch @ replicate (n - m) []"
  using assms(2)
proof (induction m)
  case 0
  then show ?case by (simp add: push_edges_def)
next
  case (Suc m)
  let ?kids = "take m ch @ replicate (n - m) []"
  have len: "m < length ?kids" using Suc.prems assms(1) by simp
  have "?kids ! m = []" using Suc.prems assms(1) by (simp add: nth_append)
  moreover have "?kids[m := ch ! m] = take (Suc m) ch @ replicate (n - Suc m) []"
  proof (rule nth_equalityI)
    fix i assume "i < length (?kids[m := ch ! m])"
    then show "?kids[m := ch ! m] ! i = (take (Suc m) ch @ replicate (n - Suc m) []) ! i"
      using Suc.prems assms(1) by (auto simp: nth_list_update' nth_append less_Suc_eq)
  qed (use Suc.prems assms(1) in auto)
  ultimately show ?case
    using Suc push_edges_row [OF len, of "ch ! m"] by (simp add: push_edges_append)
qed

definition edge_doc_of :: "dimension \<Rightarrow> nat \<times> edge \<Rightarrow> edge_doc" where
  "edge_doc_of d = (\<lambda>(p, e). \<lparr>gd_parent = el_name (elements d ! p), gd_child = el_name (elements d ! edge_child e),
     gd_weight = edge_weight e\<rparr>)"

text \<open>Pushing edges of a hierarchy \<open>D\<close> onto a part of it never closes a cycle.\<close>

lemma build_edges_spec:
  assumes "dim_wf d" and "elements d = elements D" and "dim_wf D" and "edge_rel d \<subseteq> edge_rel D"
    and "\<forall>(p, e) \<in> set es. p < length (elements D) \<and> e \<in> set (children D ! p)"
  shows "\<exists>d'. build_edges dname (map (edge_doc_of D) es) d = Inr d' \<and> dim_wf d' \<and>
    d' = d\<lparr>children := push_edges es (children d)\<rparr>"
  using assms(1,2,4,5)
proof (induction es arbitrary: d)
  case Nil
  then show ?case by (simp add: push_edges_def)
next
  case (Cons pe es)
  obtain p e where pe: "pe = (p, e)" by force
  have p: "p < length (elements D)" "e \<in> set (children D ! p)" using Cons.prems(4) by (auto simp: pe)
  note G = dim_wf_graph [OF assms(3)]
  have rng: "edge_child e < length (elements D)" "in_i64 (edge_weight e)"
    using G(1) p by (auto simp: edges_in_range_def)
  have lenD: "length (children D) = length (elements D)" "length (children d) = length (elements d)"
    using dim_wf_shape(1) assms(3) Cons.prems(1) by blast+
  have edge: "(p, edge_child e) \<in> edge_rel D" using p lenD by (auto simp: edge_rel_iff)
  have cons: "el_kind (elements d ! p) = Consolidated"
    using G(2) p Cons.prems(2) by (auto simp: leaves_bare_def)
  have idx: "index_of d (el_name (elements D ! i)) = Some i" if "i < length (elements D)" for i
    using that index_of_Some [OF Cons.prems(1)] by (simp add: Cons.prems(2))
  have nocycle: "(edge_child e, p) \<notin> (edge_rel d)\<^sup>*"
  proof
    assume "(edge_child e, p) \<in> (edge_rel d)\<^sup>*"
    then have "(edge_child e, p) \<in> (edge_rel D)\<^sup>*" using Cons.prems(3) rtrancl_mono by blast
    then have "(p, p) \<in> (edge_rel D)\<^sup>+" using edge by (rule rtrancl_into_trancl2 [rotated])
    then show False using G(3) by (simp add: acyclic_def)
  qed
  then have ne: "edge_child e \<noteq> p" by auto
  let ?d1 = "push_edge p e d"
  have eta: "\<lparr>edge_child = edge_child e, edge_weight = edge_weight e\<rparr> = e" by simp
  have add: "add_child p (edge_child e) (edge_weight e) d = Inr ?d1"
    using rng p cons ne nocycle reaches_correct [OF dim_wf_graph(1) [OF Cons.prems(1)], of "edge_child e" p]
    by (simp add: add_child_def get_element_def Cons.prems(2) Let_def eta)
  have wd1: "dim_wf ?d1" by (rule add_child_wf [OF Cons.prems(1) rng(2) add])
  have rel: "edge_rel ?d1 \<subseteq> edge_rel D"
    using edge_rel_push [of p d e] edge Cons.prems(2,3) p lenD by simp
  have "elements ?d1 = elements D" by (simp add: push_edge_def Cons.prems(2))
  from Cons.IH [OF wd1 this rel] Cons.prems(4) obtain d' where d': "build_edges dname (map (edge_doc_of D) es) ?d1 = Inr d'"
    "dim_wf d'" "d' = ?d1\<lparr>children := push_edges es (children ?d1)\<rparr>" by auto
  have "build_edges dname (map (edge_doc_of D) (pe # es)) d = Inr d'"
    using d'(1) add idx p rng by (simp add: pe edge_doc_of_def doc_element_def loaded_def)
  moreover have "d' = d\<lparr>children := push_edges (pe # es) (children d)\<rparr>"
    unfolding d'(3) by (simp add: pe push_edges_def push_edge_def)
  ultimately show ?case using d'(2) by blast
qed

section \<open>Attributes\<close>

lemma build_attrs_spec:
  assumes "dim_wf d" and "distinct (map attr_name (attributes d @ as))" and "length (attributes d @ as) \<le> u32_max"
  shows "\<exists>d'. build_attrs (map (\<lambda>a. \<lparr>ad_name = attr_name a, ad_kind = attr_kind a\<rparr>) as) d = d' \<and> dim_wf d' \<and>
    attributes d' = attributes d @ as \<and> elements d' = elements d \<and> children d' = children d \<and>
    attr_values d' = attr_values d \<and> dim_name d' = dim_name d"
  using assms
proof (induction as arbitrary: d)
  case (Cons a as)
  let ?d1 = "snd (add_attribute (attr_name a) (attr_kind a) d)"
  have "attr_index_by_name d (attr_name a) = None"
  proof -
    have "\<forall>x \<in> set (attributes d). attr_name x \<noteq> attr_name a" using Cons.prems(2) by (auto simp: image_iff)
    then show ?thesis using Cons.prems(1) by (simp add: dim_wf_def attrs_ok_def position_None)
  qed
  then have d1: "attributes ?d1 = attributes d @ [a]" "elements ?d1 = elements d" "children ?d1 = children d"
    "attr_values ?d1 = attr_values d" "dim_name ?d1 = dim_name d"
    by (simp_all add: add_attribute_def Let_def)
  have "dim_wf ?d1" by (rule add_attribute_wf [OF Cons.prems(1)]) (use Cons.prems(3) in simp)
  from Cons.IH [OF this] Cons.prems(2,3) d1 show ?case by (simp add: build_attrs_def)
qed (simp add: build_attrs_def)

text \<open>The entries of a dimension's attribute rows, as the document lists them.\<close>

definition value_doc_of :: "dimension \<Rightarrow> nat \<times> nat \<times> attribute_value \<Rightarrow> attr_val_doc" where
  "value_doc_of d = (\<lambda>(e, a, v). \<lparr>vd_element = el_name (elements d ! e), vd_attribute = attr_name (attributes d ! a),
     vd_value = value_text v\<rparr>)"

text \<open>A dimension whose rows hold part of what the rows of \<open>D\<close> hold.\<close>

definition rows_within :: "dimension \<Rightarrow> dimension \<Rightarrow> bool" where
  "rows_within d D \<longleftrightarrow> dim_wf d \<and> elements d = elements D \<and> attributes d = attributes D \<and>
     (\<forall>e < length (elements D). set (attr_values d ! e) \<subseteq> set (attr_values D ! e))"

text \<open>A number that its text gives back: every \<open>i64\<close> but the least.\<close>

definition printable :: "attribute_value \<Rightarrow> bool" where
  "printable v = (case v of Text _ \<Rightarrow> True | Numeric n \<Rightarrow> in_i64 \<bar>n\<bar>)"

lemma from_str_display: "in_i64 \<bar>v\<bar> \<Longrightarrow> from_str (display v) = Inr v"
  using from_str_display_eq [of v] by (auto simp: in_i64_def i64_max_def i64_min_def)

lemma set_attribute_fresh:
  assumes w: "rows_within d D" and D: "dim_wf D" and e: "e < length (elements D)" and av: "(a, v) \<in> set (attr_values D ! e)"
    and new: "a \<notin> fst ` set (attr_values d ! e)"
  obtains d' where "set_attribute e (attr_name (attributes D ! a)) v d = Inr d'" "rows_within d' D"
    "dim_name d' = dim_name d" "children d' = children d"
    "attr_values d' = (attr_values d)[e := AList.update a v (attr_values d ! e)]"
proof -
  have wd: "dim_wf d" and W: "elements d = elements D" "attributes d = attributes D"
    using w by (simp_all add: rows_within_def)
  have lens: "length (attr_values D) = length (elements D)" "length (attr_values d) = length (elements D)"
    using dim_wf_shape(2) [OF D] dim_wf_shape(2) [OF wd] W by simp_all
  have row: "attr_values D ! e \<in> set (attr_values D)" using e lens by simp
  then have a: "a < length (attributes D)" "type_ok (attr_kind (attributes D ! a)) v"
    using D av by (auto simp: dim_wf_def attrs_ok_def)
  have idx: "attribute_index d (attr_name (attributes D ! a)) = Some a"
    using wd W a(1) position_map_distinct [of attr_name "attributes D" a]
    by (simp add: attribute_index_def dim_wf_def attrs_ok_def)
  have free: "alias_to_element d s = None \<or> alias_to_element d s = Some e"
    if "v = Text s" "attr_kind (attributes D ! a) = KAlias" for s
  proof (cases "alias_to_element d s")
    case (Some i)
    have ad: "aliases_ok d" "aliases_ok D" using wd D by (simp_all add: dim_wf_def)
    from Some ad(1) have i: "i < length (elements D)" "holds_row (attributes D) (attr_values d ! i) s"
      using W lens by (auto simp: aliases_ok_def)
    have sub: "set (attr_values d ! i) \<subseteq> set (attr_values D ! i)" using w i(1) unfolding rows_within_def by blast
    have "holds_row (attributes D) (attr_values D ! i) s" using i(2) sub unfolding holds_row_def by blast
    moreover have "holds_row (attributes D) (attr_values D ! e) s" using av that by (auto simp: holds_row_def)
    ultimately have "i = e"
      using aliases_ok_unique [OF ad(2)] i(1) e lens unfolding alias_unique_def by metis
    with Some show ?thesis by simp
  qed simp
  define d' where "d' = (case v of Text s \<Rightarrow> if attr_kind (attributes D ! a) = KAlias
      then put_attr e a v (d\<lparr>alias_to_element := (drop_prev_alias d e a s)(s \<mapsto> e)\<rparr>) else put_attr e a v d
    | Numeric _ \<Rightarrow> put_attr e a v d)"
  have set: "set_attribute e (attr_name (attributes D ! a)) v d = Inr d'"
  proof (cases v)
    case (Text s)
    then show ?thesis using free [OF Text] a(2) e W idx
      by (cases "attr_kind (attributes D ! a)") (auto simp: set_attribute_def get_element_def d'_def)
  next
    case (Numeric n)
    then show ?thesis using a(2) e W idx
      by (cases "attr_kind (attributes D ! a)") (auto simp: set_attribute_def get_element_def d'_def)
  qed
  have parts: "dim_name d' = dim_name d" "children d' = children d" "elements d' = elements D" "attributes d' = attributes D"
    "attr_values d' = (attr_values d)[e := AList.update a v (attr_values d ! e)]"
    using W by (simp_all add: d'_def put_attr_def split: attribute_value.split)
  have "dim_wf d'" by (rule set_attribute_wf [OF wd set])
  moreover have "set (attr_values d' ! i) \<subseteq> set (attr_values D ! i)" if "i < length (elements D)" for i
    using that w av set_AList_update [of a v "attr_values d ! e"] lens
    by (cases "i = e") (auto simp: parts(5) rows_within_def)
  ultimately have "rows_within d' D" using parts by (simp add: rows_within_def)
  with set parts show thesis by (intro that)
qed

text \<open>What a row holds after a list of entries was set.\<close>

definition entries_of :: "nat \<Rightarrow> (nat \<times> nat \<times> attribute_value) list \<Rightarrow> (nat \<times> attribute_value) set" where
  "entries_of e avs = {(a, v). (e, a, v) \<in> set avs}"

lemma build_value_step:
  assumes w: "rows_within d D" and D: "dim_wf D" and e: "e < length (elements D)"
    and av: "(a, v) \<in> set (attr_values D ! e)" "printable v" and new: "a \<notin> fst ` set (attr_values d ! e)"
    and set: "set_attribute e (attr_name (attributes D ! a)) v d = Inr d'"
  shows "build_values dname (value_doc_of D (e, a, v) # avs) d = build_values dname avs d'"
proof -
  have wd: "dim_wf d" and W: "elements d = elements D" "attributes d = attributes D"
    using w by (simp_all add: rows_within_def)
  have "attr_values D ! e \<in> set (attr_values D)" using e dim_wf_shape(2) [OF D] by simp
  then have a: "a < length (attributes D)" "type_ok (attr_kind (attributes D ! a)) v"
    using D av by (auto simp: dim_wf_def attrs_ok_def)
  have idx: "attribute_index d (attr_name (attributes D ! a)) = Some a"
    using wd W a(1) position_map_distinct [of attr_name "attributes D" a]
    by (simp add: attribute_index_def dim_wf_def attrs_ok_def)
  have el: "index_of d (el_name (elements D ! e)) = Some e" using index_of_Some [OF wd] e W by simp
  show ?thesis
  proof (cases v)
    case (Text s)
    then show ?thesis using a(2) idx el set a(1) W
      by (cases "attr_kind (attributes D ! a)") (simp_all add: value_doc_of_def doc_element_def loaded_def)
  next
    case (Numeric n)
    then show ?thesis using a idx el set W from_str_display [of n] av(2)
      by (cases "attr_kind (attributes D ! a)") (simp_all add: value_doc_of_def doc_element_def loaded_def printable_def)
  qed
qed

lemma build_values_spec:
  assumes D: "dim_wf D" and "rows_within d D" and "distinct (map (\<lambda>(e, a, v). (e, a)) avs)"
    and "\<forall>(e, a, v) \<in> set avs. e < length (elements D) \<and> (a, v) \<in> set (attr_values D ! e) \<and> printable v \<and>
       a \<notin> fst ` set (attr_values d ! e)"
  shows "\<exists>d'. build_values dname (map (value_doc_of D) avs) d = Inr d' \<and> rows_within d' D \<and>
     dim_name d' = dim_name d \<and> children d' = children d \<and>
     (\<forall>e < length (elements D). set (attr_values d' ! e) = set (attr_values d ! e) \<union> entries_of e avs)"
  using assms(2-4)
proof (induction avs arbitrary: d)
  case Nil
  then show ?case by (simp add: entries_of_def)
next
  case (Cons eav avs)
  obtain e a v where eav: "eav = (e, a, v)" by (cases eav)
  have p: "e < length (elements D)" "(a, v) \<in> set (attr_values D ! e)" "printable v" "a \<notin> fst ` set (attr_values d ! e)"
    using Cons.prems(3) by (simp_all add: eav)
  obtain d1 where d1: "set_attribute e (attr_name (attributes D ! a)) v d = Inr d1" "rows_within d1 D"
    "dim_name d1 = dim_name d" "children d1 = children d"
    "attr_values d1 = (attr_values d)[e := AList.update a v (attr_values d ! e)]"
    by (rule set_attribute_fresh [OF Cons.prems(1) D p(1,2,4)])
  have len: "length (attr_values d) = length (elements D)"
    using Cons.prems(1) dim_wf_shape(2) by (simp add: rows_within_def)
  have row: "set (attr_values d1 ! i) = (if i = e then insert (a, v) (set (attr_values d ! i)) else set (attr_values d ! i))"
    if "i < length (elements D)" for i
    using that len in_AList_update_fresh [OF p(4)] by (simp add: d1(5))
  have rest: "\<forall>(e', a', v') \<in> set avs. e' < length (elements D) \<and> (a', v') \<in> set (attr_values D ! e') \<and> printable v' \<and>
       a' \<notin> fst ` set (attr_values d1 ! e')"
  proof clarify
    fix e' a' v' assume m: "(e', a', v') \<in> set avs"
    then have ne: "(e', a') \<noteq> (e, a)" using Cons.prems(2) by (force simp: eav)
    have "e' < length (elements D)" "(a', v') \<in> set (attr_values D ! e')" "printable v'"
      "a' \<notin> fst ` set (attr_values d ! e')"
      using Cons.prems(3) m by (auto simp: eav)
    with ne row [of e'] show "e' < length (elements D) \<and> (a', v') \<in> set (attr_values D ! e') \<and> printable v' \<and>
       a' \<notin> fst ` set (attr_values d1 ! e')" by (cases "e' = e") simp_all
  qed
  have dist: "distinct (map (\<lambda>(e, a, v). (e, a)) avs)" using Cons.prems(2) by (simp add: eav)
  obtain d' where d': "build_values dname (map (value_doc_of D) avs) d1 = Inr d'" "rows_within d' D"
    "dim_name d' = dim_name d1" "children d' = children d1"
    "\<forall>e < length (elements D). set (attr_values d' ! e) = set (attr_values d1 ! e) \<union> entries_of e avs"
    using Cons.IH [OF d1(2) dist rest] by blast
  have "entries_of i (eav # avs) = (if i = e then insert (a, v) (entries_of i avs) else entries_of i avs)" for i
    by (auto simp: entries_of_def eav)
  moreover have "build_values dname (map (value_doc_of D) (eav # avs)) d = Inr d'"
    using build_value_step [OF Cons.prems(1) D p d1(1)] d'(1) by (simp add: eav)
  ultimately show ?case using d' d1(3,4) row by auto
qed

section \<open>The round trip\<close>

definition dim_printable :: "dimension \<Rightarrow> bool" where
  "dim_printable d \<longleftrightarrow> (\<forall>row \<in> set (attr_values d). \<forall>(a, v) \<in> set row. printable v)"

lemma attribute_values_facts:
  assumes "dim_wf d"
  shows "set (attribute_values d) = {(e, a, v). e < length (elements d) \<and> (a, v) \<in> set (attr_values d ! e)}"
    "distinct (map (\<lambda>(e, a, v). (e, a)) (attribute_values d))"
proof -
  have len: "length (attr_values d) = length (elements d)" "length (elements d) \<le> u32_max"
    using dim_wf_shape [OF assms] by simp_all
  let ?f = "\<lambda>(e, row). map (\<lambda>(a, v). (as_u32 e, a, v)) row"
  have gen: "concat (map ?f (List.enumerate 0 rows)) = concat (map (\<lambda>e. map (\<lambda>(a, v). (e, a, v)) (rows ! e)) [0..<length rows])"
    if "length rows \<le> u32_max" for rows :: "attr_row list"
  proof -
    have "map ?f (List.enumerate 0 rows) = map (\<lambda>e. map (\<lambda>(a, v). (e, a, v)) (rows ! e)) [0..<length rows]"
      by (rule nth_equalityI) (use that in \<open>simp_all add: nth_enumerate_eq\<close>)
    then show ?thesis by simp
  qed
  have eq: "attribute_values d = sort_key (\<lambda>(e, a, v). (e, a))
      (concat (map (\<lambda>e. map (\<lambda>(a, v). (e, a, v)) (attr_values d ! e)) [0..<length (attr_values d)]))"
    using gen [of "attr_values d"] len by (simp add: attribute_values_def)
  show "set (attribute_values d) = {(e, a, v). e < length (elements d) \<and> (a, v) \<in> set (attr_values d ! e)}"
    unfolding eq using len by (force simp: image_iff)
  have rows: "\<forall>e < n. distinct (map fst (rows ! e)) \<Longrightarrow>
      distinct (map (\<lambda>(e, a, v). (e, a)) (concat (map (\<lambda>e. map (\<lambda>(a, v). (e, a, v)) (rows ! e)) [0..<n])))"
    for n and rows :: "attr_row list"
  proof (induction n)
    case (Suc n)
    have keys: "map (\<lambda>(e, a, v). (e, a)) (map (\<lambda>(a, v). (n, a, v)) row) = map (Pair n) (map fst row)" for row :: attr_row
      by (induction row) auto
    have "distinct (map (Pair n) (map fst (rows ! n)))"
      using Suc.prems by (subst distinct_map) (auto intro: inj_onI)
    then have "distinct (map (\<lambda>(e, a, v). (e, a)) (map (\<lambda>(a, v). (n, a, v)) (rows ! n)))" by (simp only: keys)
    then show ?case using Suc by (auto simp del: map_map)
  qed simp
  have "distinct (map (\<lambda>(e, a, v). (e, a)) (concat (map (\<lambda>e. map (\<lambda>(a, v). (e, a, v)) (attr_values d ! e)) [0..<length (attr_values d)])))"
    by (rule rows) (use assms len in \<open>auto simp: dim_wf_def attrs_ok_def\<close>)
  moreover have "distinct (map f (sort_key g xs)) = distinct (map f xs)" for f g :: "nat \<times> nat \<times> attribute_value \<Rightarrow> nat \<times> nat" and xs
    by (rule mset_eq_imp_distinct_iff) simp
  ultimately show "distinct (map (\<lambda>(e, a, v). (e, a)) (attribute_values d))" by (simp add: eq)
qed

lemma dim_to_doc_eq:
  assumes "dim_wf d"
  shows "dim_to_doc d = \<lparr>dd_name = dim_name d, dd_elements = map element_doc (elements d),
     dd_edges = map (edge_doc_of d) (edge_list d),
     dd_attributes = map (\<lambda>a. \<lparr>ad_name = attr_name a, ad_kind = attr_kind a\<rparr>) (attributes d),
     dd_values = map (value_doc_of d) (attribute_values d)\<rparr>"
  by (simp add: dim_to_doc_def element_doc_def edge_list_def edge_doc_of_def value_doc_of_def map_concat comp_def
      dim_wf_shape(4) [OF assms])

lemma dimension_text_round_trip:
  assumes D: "dim_wf D" and pr: "dim_printable D"
  shows "\<exists>d'. build_dimension (dim_to_doc D) = Inr d' \<and> same_dim D d' \<and> dim_wf d'"
proof -
  note sh = dim_wf_shape [OF D] and G = dim_wf_graph [OF D]
  let ?d0 = "dim_new (dim_name D)"
  have b0: "bare_dim ?d0" using dim_wf_new [of "dim_name D"] by (simp add: bare_dim_def dim_new_def)
  have names: "distinct (map el_name (elements D))" "distinct (map attr_name (attributes D))" "length (attributes D) \<le> u32_max"
    using D by (simp_all add: dim_wf_def names_ok_def attrs_ok_def shape_ok_def)
  obtain d1 where d1: "build_elements (map element_doc (elements D)) ?d0 = Inr d1" "bare_dim d1" "elements d1 = elements D"
    "dim_name d1 = dim_name D"
    using build_elements_spec [OF b0, of "elements D"] names(1) sh(3) by (auto simp: dim_new_def)
  then have w1: "dim_wf d1" "attributes d1 = []" by (simp_all add: bare_dim_def)
  have c1: "children d1 = replicate (length (elements D)) []" "attr_values d1 = replicate (length (elements D)) []"
    using d1(2,3) dim_wf_shape [OF w1(1)] by (auto simp: bare_dim_def intro!: replicate_eqI)
  have es: "\<forall>(p, e) \<in> set (edge_list D). p < length (elements D) \<and> e \<in> set (children D ! p)"
    by (auto simp: edge_list_def)
  have "edge_rel d1 \<subseteq> edge_rel D" by (auto simp: edge_rel_iff c1)
  from build_edges_spec [OF w1(1) d1(3) D this es] obtain d2 where
    d2: "build_edges (dim_name D) (map (edge_doc_of D) (edge_list D)) d1 = Inr d2" "dim_wf d2"
      "d2 = d1\<lparr>children := push_edges (edge_list D) (children d1)\<rparr>" by blast
  have ch: "children d2 = children D"
    using push_edges_all [OF sh(1), of "length (elements D)"] sh(1) by (simp add: d2(3) c1 edge_list_def)
  have p2: "elements d2 = elements D" "attributes d2 = []" "attr_values d2 = replicate (length (elements D)) []" "dim_name d2 = dim_name D"
    using d1 w1 c1 by (simp_all add: d2(3))
  obtain d3 where d3: "build_attrs (map (\<lambda>a. \<lparr>ad_name = attr_name a, ad_kind = attr_kind a\<rparr>) (attributes D)) d2 = d3" "dim_wf d3"
    "attributes d3 = attributes D" "elements d3 = elements D" "children d3 = children D"
    "attr_values d3 = replicate (length (elements D)) []" "dim_name d3 = dim_name D"
    using build_attrs_spec [OF d2(2), of "attributes D"] names p2 ch by auto
  have w3: "rows_within d3 D" using d3 by (simp add: rows_within_def)
  note AV = attribute_values_facts [OF D]
  have all: "\<forall>(e, a, v) \<in> set (attribute_values D). e < length (elements D) \<and> (a, v) \<in> set (attr_values D ! e) \<and>
      printable v \<and> a \<notin> fst ` set (attr_values d3 ! e)"
    using pr sh(2) by (auto simp: AV(1) d3(6) dim_printable_def)
  obtain d4 where d4: "build_values (dim_name D) (map (value_doc_of D) (attribute_values D)) d3 = Inr d4" "rows_within d4 D"
    "dim_name d4 = dim_name d3" "children d4 = children d3"
    "\<forall>e < length (elements D). set (attr_values d4 ! e) = set (attr_values d3 ! e) \<union> entries_of e (attribute_values D)"
    using build_values_spec [OF D w3 AV(2) all] by blast
  have w4: "dim_wf d4" "elements d4 = elements D" "attributes d4 = attributes D" using d4(2) by (simp_all add: rows_within_def)
  have rows: "map_of (attr_values d4 ! e) = map_of (attr_values D ! e)" if "e < length (attr_values D)" for e
  proof -
    have "set (attr_values d4 ! e) = set (attr_values D ! e)"
      using d4(5) that sh(2) by (simp add: d3(6) entries_of_def AV(1))
    moreover have "distinct (map fst (attr_values d4 ! e))" "distinct (map fst (attr_values D ! e))"
      using w4 D that sh(2) dim_wf_shape(2) [OF w4(1)] by (simp_all add: dim_wf_def attrs_ok_def)
    ultimately show ?thesis by (simp add: map_of_inject_set)
  qed
  have "build_dimension (dim_to_doc D) = Inr d4"
    using d1(1) d2(1) d3(1) d4(1) by (simp add: build_dimension_def dim_to_doc_eq [OF D])
  moreover have "same_dim D d4"
    using d4(3,4) d3(5,7) w4 rows dim_wf_shape(2) [OF w4(1)] sh(2) by (simp add: same_dim_def)
  ultimately show ?thesis using w4(1) by blast
qed

end
