(* ===== verification/Model_Text_Facts.thy ===== *)
theory Model_Text_Facts
  imports Dimension_Text Model_Sandbox
begin

text \<open>
  The round trip of a model through its document: the loader rebuilds a model that reads the same
  everywhere. The relation \<open>same_cube\<close> is what a reload preserves of a cube: its name, its
  dimensions up to the order inside an attribute row, and every stored number and text; the packed
  stores and the string pool are rebuilt.
\<close>

section \<open>Cubes that read the same\<close>

definition same_dims :: "dimension list \<Rightarrow> dimension list \<Rightarrow> bool" where
  "same_dims ds ds' \<longleftrightarrow> list_all2 same_dim ds ds'"

definition same_cube :: "cube \<Rightarrow> cube \<Rightarrow> bool" where
  "same_cube c c' \<longleftrightarrow> cube_name c' = cube_name c \<and> same_dims (dims c) (dims c') \<and>
     (\<forall>k. in_range (dims c) k \<longrightarrow> num c' k = num c k \<and> str c' k = str c k)"

lemma same_dims_nth:
  "same_dims ds ds' \<longleftrightarrow> length ds' = length ds \<and> (\<forall>d < length ds. same_dim (ds ! d) (ds' ! d))"
  by (auto simp: same_dims_def list_all2_conv_all_nth)

lemma same_dims_coord:
  assumes "same_dims ds ds'"
  shows "in_range ds' k = in_range ds k" "leaf_coord ds' k = leaf_coord ds k" "string_coord ds' k = string_coord ds k"
proof -
  have len: "length ds' = length ds" using assms by (simp add: same_dims_nth)
  have els: "elements (ds' ! d) = elements (ds ! d)" if "d < length ds" for d
    using assms that by (simp add: same_dims_nth same_dim_def)
  then show rng: "in_range ds' k = in_range ds k" by (auto simp: in_range_nth len)
  have lens: "list_all2 P ds' k \<Longrightarrow> length k = length ds" "list_all2 P ds k \<Longrightarrow> length k = length ds" for P
    using len by (auto dest: list_all2_lengthD)
  show "leaf_coord ds' k = leaf_coord ds k"
  proof (cases "length k = length ds")
    case True
    then show ?thesis using els len by (simp add: leaf_coord_nth kind_at_def)
  qed (use lens in \<open>auto simp: leaf_coord_def\<close>)
  show "string_coord ds' k = string_coord ds k"
  proof (cases "length k = length ds")
    case True
    then show ?thesis using els len by (auto simp: string_coord_nth kind_at_def)
  qed (use lens in \<open>auto simp: string_coord_def\<close>)
qed

section \<open>Coordinates\<close>

lemma resolve_names_spec:
  assumes "same_dims ds ds'" and "list_all dim_wf ds'" and "in_range ds k"
  shows "resolve_names ds' (map (\<lambda>(d, i). el_name (elements d ! i)) (zip ds k)) = Inr k"
proof -
  have "length ds = length ds'" "length ds' = length k"
    using assms by (simp_all add: same_dims_nth in_range_nth)
  then show ?thesis using assms
  proof (induction ds ds' k rule: list_induct3)
    case (Cons d ds d' ds' i k)
    have i: "i < length (elements d)" "elements d' = elements d"
      using Cons.prems by (auto simp: in_range_def same_dims_def same_dim_def)
    then have "index_of d' (el_name (elements d ! i)) = Some i"
      using index_of_Some [of d' "el_name (elements d ! i)" i] Cons.prems by simp
    moreover have "resolve_names ds' (map (\<lambda>(d, i). el_name (elements d ! i)) (zip ds k)) = Inr k"
      using Cons.IH Cons.prems by (simp add: in_range_def same_dims_def)
    ultimately show ?case by simp
  qed simp
qed

lemma coord_names_zip: "length k = length (dims c) \<Longrightarrow> coord_names c k = map (\<lambda>(d, i). el_name (elements d ! i)) (zip (dims c) k)"
  by (rule nth_equalityI) (simp_all add: coord_names_def nth_enumerate_eq)

lemma resolve_coord_spec:
  assumes "same_dims (dims c) (dims c')" and "list_all dim_wf (dims c')" and "in_range (dims c) k"
  shows "resolve_coord c' cname (coord_names c k) = Inr k"
proof -
  have len: "length k = length (dims c)" "length (dims c') = length (dims c)"
    using assms by (simp_all add: in_range_nth same_dims_nth)
  then show ?thesis
    using resolve_names_spec [OF assms] by (simp add: resolve_coord_def rank_def coord_names_zip)
qed

section \<open>Dimensions\<close>

lemma build_dims_spec:
  assumes "\<forall>d \<in> set ds. dim_wf d \<and> dim_printable d" and "distinct (map dim_name ds)"
  shows "\<exists>by'. build_dims (map dim_to_doc ds) by_name = Inr by' \<and>
    (\<forall>d \<in> set ds. \<exists>d'. by' (dim_name d) = Some d' \<and> same_dim d d' \<and> dim_wf d') \<and>
    (\<forall>n. n \<notin> dim_name ` set ds \<longrightarrow> by' n = by_name n)"
  using assms
proof (induction ds arbitrary: by_name)
  case (Cons d ds)
  obtain d' where d': "build_dimension (dim_to_doc d) = Inr d'" "same_dim d d'" "dim_wf d'"
    using dimension_text_round_trip [of d] Cons.prems(1) by auto
  have nm: "dd_name (dim_to_doc d) = dim_name d" by (simp add: dim_to_doc_def)
  obtain by' where by': "build_dims (map dim_to_doc ds) (by_name(dim_name d \<mapsto> d')) = Inr by'"
    "\<forall>d \<in> set ds. \<exists>d'. by' (dim_name d) = Some d' \<and> same_dim d d' \<and> dim_wf d'"
    "\<forall>n. n \<notin> dim_name ` set ds \<longrightarrow> by' n = (by_name(dim_name d \<mapsto> d')) n"
  proof -
    have "\<forall>d \<in> set ds. dim_wf d \<and> dim_printable d" "distinct (map dim_name ds)" using Cons.prems by simp_all
    from Cons.IH [OF this, of "by_name(dim_name d \<mapsto> d')"] show thesis by (elim exE conjE) (rule that)
  qed
  have "dim_name d \<notin> dim_name ` set ds" using Cons.prems(2) by simp
  with by'(3) have "by' (dim_name d) = Some d'" by simp
  with d' by' nm show ?case by auto
qed simp

lemma pick_dims_spec:
  assumes "\<forall>d \<in> set ds. \<exists>d'. by_name (dim_name d) = Some d' \<and> same_dim d d' \<and> dim_wf d'"
  shows "\<exists>ds'. pick_dims by_name (map dim_name ds) = Inr ds' \<and> same_dims ds ds' \<and> list_all dim_wf ds'"
  using assms
proof (induction ds)
  case (Cons d ds)
  then obtain ds' d' where "pick_dims by_name (map dim_name ds) = Inr ds'" "same_dims ds ds'" "list_all dim_wf ds'"
    "by_name (dim_name d) = Some d'" "same_dim d d'" "dim_wf d'" by auto
  then show ?case by (simp add: same_dims_def)
qed (simp add: same_dims_def)

section \<open>Cells\<close>

lemma set_leaf_total: "in_range (dims c) k \<Longrightarrow> leaf_coord (dims c) k \<Longrightarrow> \<exists>c'. set_leaf k v c = Inr c' \<and> pool c' = pool c"
  using check_leaf_Inr [of c k] by (simp add: set_leaf_def)

lemma set_string_total: "in_range (dims c) k \<Longrightarrow> string_coord (dims c) k \<Longrightarrow> \<exists>c'. set_string k v c = Inr c'"
  using check_string_Inr [of c k] by (simp add: set_string_def split: prod.split)

lemma load_cells_spec:
  assumes "same_dims (dims c0) (dims c)" and "cube_wf c" and "distinct (map fst es)"
    and "\<forall>(k, v) \<in> set es. in_range (dims c0) k \<and> leaf_coord (dims c0) k \<and> v \<noteq> 0 \<and> in_i64 v \<and> in_i64 \<bar>v\<bar>"
  shows "\<exists>c'. load_cells cname (map (\<lambda>(k, v). \<lparr>cd_coord = coord_names c0 k, cd_value = display v\<rparr>) es) c = Inr c' \<and>
    cube_wf c' \<and> dims c' = dims c \<and> cube_name c' = cube_name c \<and> str c' = str c \<and> pool c' = pool c \<and>
    (\<forall>j. in_range (dims c) j \<longrightarrow> num c' j = (case map_of es j of Some v \<Rightarrow> Some v | None \<Rightarrow> num c j))"
  using assms
proof (induction es arbitrary: c)
  case (Cons kv es)
  obtain k v where kv: "kv = (k, v)" by force
  have kv_ok: "in_range (dims c0) k" "leaf_coord (dims c0) k" "v \<noteq> 0" "in_i64 v" "in_i64 \<bar>v\<bar>"
    using Cons.prems(4) by (simp_all add: kv)
  note R = resolve_coord_spec [OF Cons.prems(1) cube_wf_D(1) [OF Cons.prems(2)] kv_ok(1), of cname]
  have k: "in_range (dims c) k" "leaf_coord (dims c) k" using kv_ok(1,2) same_dims_coord [OF Cons.prems(1)] by simp_all
  obtain c1 where c1: "set_leaf k v c = Inr c1" "pool c1 = pool c" using set_leaf_total [OF k] by blast
  note W = set_leaf_wf [OF Cons.prems(2) kv_ok(4) c1(1)]
  have "\<exists>c'. load_cells cname (map (\<lambda>(k, v). \<lparr>cd_coord = coord_names c0 k, cd_value = display v\<rparr>) es) c1 = Inr c' \<and>
    cube_wf c' \<and> dims c' = dims c1 \<and> cube_name c' = cube_name c1 \<and> str c' = str c1 \<and> pool c' = pool c1 \<and>
    (\<forall>j. in_range (dims c1) j \<longrightarrow> num c' j = (case map_of es j of Some v \<Rightarrow> Some v | None \<Rightarrow> num c1 j))"
    by (rule Cons.IH) (use Cons.prems W in auto)
  then obtain c' where c': "load_cells cname (map (\<lambda>(k, v). \<lparr>cd_coord = coord_names c0 k, cd_value = display v\<rparr>) es) c1 = Inr c'"
    "cube_wf c'" "dims c' = dims c1" "cube_name c' = cube_name c1" "str c' = str c1" "pool c' = pool c1"
    "\<forall>j. in_range (dims c1) j \<longrightarrow> num c' j = (case map_of es j of Some v \<Rightarrow> Some v | None \<Rightarrow> num c1 j)" by blast
  have "map_of es k = None" using Cons.prems(3) by (auto simp: kv map_of_eq_None_iff)
  with c' W kv_ok(3) have "\<forall>j. in_range (dims c) j \<longrightarrow>
      num c' j = (case map_of (kv # es) j of Some v \<Rightarrow> Some v | None \<Rightarrow> num c j)"
    by (auto simp: kv split: option.split)
  moreover have "load_cells cname (map (\<lambda>(k, v). \<lparr>cd_coord = coord_names c0 k, cd_value = display v\<rparr>) (kv # es)) c = Inr c'"
    using R c1(1) c'(1) from_str_display [OF kv_ok(5)] by (simp add: kv loaded_def)
  ultimately show ?case using c' W c1(2) by auto
qed simp

lemma load_strings_spec:
  assumes "same_dims (dims c0) (dims c)" and "cube_wf c" and "distinct (map fst es)"
    and "length (by_id (pool c)) + length es \<le> u32_max"
    and "\<forall>(k, v) \<in> set es. in_range (dims c0) k \<and> string_coord (dims c0) k \<and> v \<noteq> []"
  shows "\<exists>c'. load_strings cname (map (\<lambda>(k, v). \<lparr>cd_coord = coord_names c0 k, cd_value = v\<rparr>) es) c = Inr c' \<and>
    cube_wf c' \<and> dims c' = dims c \<and> cube_name c' = cube_name c \<and> num c' = num c \<and>
    length (by_id (pool c')) \<le> length es + length (by_id (pool c)) \<and>
    (\<forall>j. in_range (dims c) j \<longrightarrow> str c' j = (case map_of es j of Some v \<Rightarrow> Some v | None \<Rightarrow> str c j))"
  using assms
proof (induction es arbitrary: c)
  case (Cons kv es)
  obtain k v where kv: "kv = (k, v)" by force
  have kv_ok: "in_range (dims c0) k" "string_coord (dims c0) k" "v \<noteq> []"
    using Cons.prems(5) by (simp_all add: kv)
  note R = resolve_coord_spec [OF Cons.prems(1) cube_wf_D(1) [OF Cons.prems(2)] kv_ok(1), of cname]
  have k: "in_range (dims c) k" "string_coord (dims c) k" using kv_ok(1,2) same_dims_coord [OF Cons.prems(1)] by simp_all
  obtain c1 where c1: "set_string k v c = Inr c1" using set_string_total [OF k] by blast
  have room: "length (by_id (pool c)) < u32_max" using Cons.prems(4) by simp
  note W = set_string_wf [OF Cons.prems(2) room c1]
  have "\<exists>c'. load_strings cname (map (\<lambda>(k, v). \<lparr>cd_coord = coord_names c0 k, cd_value = v\<rparr>) es) c1 = Inr c' \<and>
    cube_wf c' \<and> dims c' = dims c1 \<and> cube_name c' = cube_name c1 \<and> num c' = num c1 \<and>
    length (by_id (pool c')) \<le> length es + length (by_id (pool c1)) \<and>
    (\<forall>j. in_range (dims c1) j \<longrightarrow> str c' j = (case map_of es j of Some v \<Rightarrow> Some v | None \<Rightarrow> str c1 j))"
    by (rule Cons.IH) (use Cons.prems W in auto)
  then obtain c' where c': "load_strings cname (map (\<lambda>(k, v). \<lparr>cd_coord = coord_names c0 k, cd_value = v\<rparr>) es) c1 = Inr c'"
    "cube_wf c'" "dims c' = dims c1" "cube_name c' = cube_name c1" "num c' = num c1"
    "length (by_id (pool c')) \<le> length es + length (by_id (pool c1))"
    "\<forall>j. in_range (dims c1) j \<longrightarrow> str c' j = (case map_of es j of Some v \<Rightarrow> Some v | None \<Rightarrow> str c1 j)" by blast
  have "map_of es k = None" using Cons.prems(3) by (auto simp: kv map_of_eq_None_iff)
  with c' W kv_ok(3) have "\<forall>j. in_range (dims c) j \<longrightarrow>
      str c' j = (case map_of (kv # es) j of Some v \<Rightarrow> Some v | None \<Rightarrow> str c j)"
    by (auto simp: kv split: option.split)
  moreover have "load_strings cname (map (\<lambda>(k, v). \<lparr>cd_coord = coord_names c0 k, cd_value = v\<rparr>) (kv # es)) c = Inr c'"
    using R c1 c'(1) by (simp add: kv loaded_def)
  ultimately show ?case using c' W by auto
qed simp

text \<open>The entries a cube writes.\<close>

lemma map_of_sort:
  fixes xs :: "('k::linorder \<times> 'v) list"
  assumes "distinct (map fst xs)"
  shows "map_of (sort_key fst xs) = map_of xs" "distinct (map fst (sort_key fst xs))"
proof -
  have "mset (map fst (sort_key fst xs)) = mset (map fst xs)" by simp
  then show "distinct (map fst (sort_key fst xs))" using assms by (metis mset_eq_imp_distinct_iff)
  from map_of_inject_set [OF this assms] show "map_of (sort_key fst xs) = map_of xs" by simp
qed

lemma cell_entries_map:
  assumes "cube_wf c"
  shows "distinct (map fst (sort_key fst (cell_entries c)))"
    "in_range (dims c) k \<Longrightarrow> map_of (sort_key fst (cell_entries c)) k = num c k"
    "(k, v) \<in> set (cell_entries c) \<longleftrightarrow> in_range (dims c) k \<and> num c k = Some v"
proof -
  note D = cube_wf_D [OF assms]
  have es: "cell_entries c = store_entries (layout_new (dims c)) (length (dims c)) (cells c)"
    by (simp add: cell_entries_def rank_def D(2))
  have dist: "distinct (map fst (cell_entries c))" unfolding es by (rule cells.entries_distinct [OF D(3)])
  from map_of_sort(2) [OF dist] show "distinct (map fst (sort_key fst (cell_entries c)))" .
  have find: "map_of (cell_entries c) k = num c k" if "in_range (dims c) k"
    using cells.entries_find [OF D(3) that] by (simp add: num_def D(2) es)
  show "in_range (dims c) k \<Longrightarrow> map_of (sort_key fst (cell_entries c)) k = num c k"
    unfolding map_of_sort(1) [OF dist] by (rule find)
  show "(k, v) \<in> set (cell_entries c) \<longleftrightarrow> in_range (dims c) k \<and> num c k = Some v"
    unfolding es num_def D(2) by (rule cells.entries_iff [OF D(3)])
qed

lemma string_entries_map:
  assumes "cube_wf c"
  shows "distinct (map fst (sort_key fst (string_cell_entries c)))"
    "in_range (dims c) k \<Longrightarrow> map_of (sort_key fst (string_cell_entries c)) k = str c k"
    "(k, v) \<in> set (string_cell_entries c) \<longleftrightarrow> in_range (dims c) k \<and> str c k = Some v"
proof -
  note D = cube_wf_D [OF assms]
  let ?es = "store_entries (layout_new (dims c)) (length (dims c)) (string_cells c)"
  have es: "string_cell_entries c = map (\<lambda>(k, i). (k, pool_get (pool c) i)) ?es"
    by (simp add: string_cell_entries_def rank_def D(2))
  have fst: "map fst (string_cell_entries c) = map fst ?es" unfolding es by (induction ?es) auto
  have dist: "distinct (map fst (string_cell_entries c))" unfolding fst by (rule cells.entries_distinct [OF D(4)])
  from map_of_sort(2) [OF dist] show "distinct (map fst (sort_key fst (string_cell_entries c)))" .
  have find: "map_of (string_cell_entries c) k = str c k" if "in_range (dims c) k"
    using cells.entries_find [OF D(4) that] by (simp add: es map_of_map str_def str_id_def D(2))
  show "in_range (dims c) k \<Longrightarrow> map_of (sort_key fst (string_cell_entries c)) k = str c k"
    unfolding map_of_sort(1) [OF dist] by (rule find)
  have "(k, v) \<in> set (string_cell_entries c) \<longleftrightarrow> (\<exists>i. (k, i) \<in> set ?es \<and> v = pool_get (pool c) i)"
    unfolding es by force
  then show "(k, v) \<in> set (string_cell_entries c) \<longleftrightarrow> in_range (dims c) k \<and> str c k = Some v"
    using cells.entries_iff [OF D(4)] by (auto simp: str_def str_id_def D(2))
qed

section \<open>The cube\<close>

definition cube_printable :: "cube \<Rightarrow> bool" where
  "cube_printable c \<longleftrightarrow> distinct (map dim_name (dims c)) \<and> list_all dim_printable (dims c) \<and>
     (\<forall>k v. in_range (dims c) k \<longrightarrow> num c k = Some v \<longrightarrow> in_i64 \<bar>v\<bar>) \<and>
     length (string_cell_entries c) \<le> u32_max"

lemma cube_new_empty:
  assumes "cube_new name ds = Inr c"
  shows "num c k = None" "str c k = None"
proof -
  have c: "c = \<lparr>cube_name = name, dims = ds, lay = layout_new ds, cells = store_empty ds,
      string_cells = store_empty ds, pool = pool_empty\<rparr>"
    using assms by (auto simp: cube_new_def Let_def store_empty_def split: if_splits)
  show "num c k = None" "str c k = None"
    by (simp_all add: c num_def str_def str_id_def cells.find_none)
qed

lemma cube_round_trip:
  assumes wf: "cube_wf c" and pr: "cube_printable c"
    and doc: "md_dims doc = map dim_to_doc (dims c)" "md_cube doc = cube_name c" "md_cube_dims doc = map dim_name (dims c)"
      "md_cells doc = map (\<lambda>(k, v). \<lparr>cd_coord = coord_names c k, cd_value = display v\<rparr>) (sort_key fst (cell_entries c))"
      "md_strings doc = map (\<lambda>(k, v). \<lparr>cd_coord = coord_names c k, cd_value = v\<rparr>) (sort_key fst (string_cell_entries c))"
  shows "\<exists>c'. build_cube_from_doc doc = Inr c' \<and> cube_wf c' \<and> same_cube c c' \<and>
    length (by_id (pool c')) \<le> length (string_cell_entries c)"
proof -
  note D = cube_wf_D [OF wf]
  have "\<forall>d \<in> set (dims c). dim_wf d \<and> dim_printable d" "distinct (map dim_name (dims c))"
    using D(1) pr by (auto simp: cube_printable_def list_all_iff)
  from build_dims_spec [OF this, of Map.empty] obtain by' where
    by': "build_dims (md_dims doc) Map.empty = Inr by'"
      "\<forall>d \<in> set (dims c). \<exists>d'. by' (dim_name d) = Some d' \<and> same_dim d d' \<and> dim_wf d'" unfolding doc by blast
  from pick_dims_spec [OF by'(2)] obtain ds where
    ds: "pick_dims by' (md_cube_dims doc) = Inr ds" "same_dims (dims c) ds" "list_all dim_wf ds" unfolding doc by blast
  have "ds \<noteq> []" using ds(2) D(6) by (auto simp: same_dims_nth)
  then obtain c0 where c0: "cube_new (cube_name c) ds = Inr c0" "pool c0 = pool_empty" "cube_name c0 = cube_name c"
    by (simp add: cube_new_def Let_def)
  note W0 = cube_new_wf [OF c0(1) ds(3)]
  have dims0: "dims c0 = ds" and wf0: "cube_wf c0" using W0 by simp_all
  note empty = cube_new_empty [OF c0(1)]
  have sd0: "same_dims (dims c) (dims c0)" using ds(2) by (simp add: dims0)
  have nums: "\<forall>(k, v) \<in> set (sort_key fst (cell_entries c)).
      in_range (dims c) k \<and> leaf_coord (dims c) k \<and> v \<noteq> 0 \<and> in_i64 v \<and> in_i64 \<bar>v\<bar>"
    using wf pr by (auto simp: cell_entries_map(3) [OF wf] cube_wf_def num_ok_def cube_printable_def)
  from load_cells_spec [OF sd0 wf0 cell_entries_map(1) [OF wf] nums, of "cube_name c"] obtain c1 where
    c1: "load_cells (md_cube doc) (md_cells doc) c0 = Inr c1" "cube_wf c1" "dims c1 = ds" "cube_name c1 = cube_name c"
      "str c1 = str c0" "pool c1 = pool_empty"
      "\<forall>j. in_range ds j \<longrightarrow> num c1 j = (case map_of (sort_key fst (cell_entries c)) j of Some v \<Rightarrow> Some v | None \<Rightarrow> num c0 j)"
    unfolding doc dims0 c0(2,3) by blast
  have sd1: "same_dims (dims c) (dims c1)" using ds(2) by (simp add: c1(3))
  have strs: "\<forall>(k, v) \<in> set (sort_key fst (string_cell_entries c)). in_range (dims c) k \<and> string_coord (dims c) k \<and> v \<noteq> []"
    using wf by (auto simp: string_entries_map(3) [OF wf] cube_wf_def str_ok_def str_def)
  have room: "length (by_id (pool c1)) + length (sort_key fst (string_cell_entries c)) \<le> u32_max"
    using pr by (simp add: c1(6) cube_printable_def pool_empty_def)
  from load_strings_spec [OF sd1 c1(2) string_entries_map(1) [OF wf] room strs, of "cube_name c"] obtain c2 where
    c2: "load_strings (md_cube doc) (md_strings doc) c1 = Inr c2" "cube_wf c2" "dims c2 = ds" "cube_name c2 = cube_name c"
      "num c2 = num c1" "length (by_id (pool c2)) \<le> length (sort_key fst (string_cell_entries c)) + length (by_id (pool c1))"
      "\<forall>j. in_range ds j \<longrightarrow> str c2 j = (case map_of (sort_key fst (string_cell_entries c)) j of Some v \<Rightarrow> Some v | None \<Rightarrow> str c1 j)"
    unfolding doc c1(3,4) by blast
  have "build_cube_from_doc doc = Inr c2"
    using by'(1) ds(1) c0(1) c1(1) c2(1) by (simp add: build_cube_from_doc_def doc(2) loaded_def)
  moreover have "num c2 k = num c k" "str c2 k = str c k" if "in_range (dims c) k" for k
  proof -
    have r: "in_range ds k" using that same_dims_coord(1) [OF ds(2)] by simp
    show "num c2 k = num c k" "str c2 k = str c k"
      using c1 c2 r empty that cell_entries_map(2) [OF wf that] string_entries_map(2) [OF wf that]
      by (simp_all split: option.split)
  qed
  then have "same_cube c c2" using c2(3,4) ds(2) by (simp add: same_cube_def)
  moreover have "length (by_id (pool c2)) \<le> length (string_cell_entries c)"
    using c2(6) by (simp add: c1(6) pool_empty_def)
  ultimately show ?thesis using c2(2) by blast
qed

end
