(* ===== verification/Model_Text_Model.thy ===== *)
theory Model_Text_Model
  imports Model_Text_Facts
begin

text \<open>The round trip of the whole model: the definitions and the sandboxes beside the cube.\<close>

section \<open>Definitions\<close>

lemma build_subset_doc [simp]: "build_subset (subset_to_doc s) = s"
  by (cases s; cases "sub_kind s") (simp_all add: build_subset_def subset_to_doc_def)

lemma build_axis_doc [simp]: "build_axis (axis_to_doc a) = a"
  by (cases a) (simp_all add: build_axis_def)

lemma build_view_doc [simp]: "build_view (view_to_doc v) = v"
  by (cases v) (simp add: build_view_def view_to_doc_def map_idI)

lemma bt_insert_last: "bt_ok (m @ [(k, v)]) \<Longrightarrow> bt_insert k v m = m @ [(k, v)]"
proof (induction m)
  case (Cons ab m)
  obtain a b where ab: "ab = (a, b)" by (cases ab)
  have "a < k" "bt_ok (m @ [(k, v)])" using Cons.prems by (simp_all add: ab)
  with Cons.IH show ?case by (simp add: ab not_less_iff_gr_or_eq)
qed simp

lemma bt_ok_append: "bt_ok (xs @ ys) \<Longrightarrow> bt_ok xs \<and> bt_ok ys"
  by (induction xs) auto

lemma bt_collect_sorted:
  assumes "bt_ok m" shows "bt_collect m = m"
proof -
  have "bt_ok (acc @ m) \<Longrightarrow> foldl (\<lambda>m (k, v). bt_insert k v m) acc m = acc @ m" for acc
  proof (induction m arbitrary: acc)
    case (Cons kv m)
    have "bt_ok (acc @ [kv])" using Cons.prems bt_ok_append [of "acc @ [kv]" m] by simp
    then have "bt_insert (fst kv) (snd kv) acc = acc @ [kv]" using bt_insert_last [of acc "fst kv" "snd kv"] by simp
    then show ?case using Cons.IH [of "acc @ [kv]"] Cons.prems by (simp add: case_prod_beta)
  qed simp
  from this [of "[]"] assms show ?thesis by (simp add: bt_collect_def)
qed

definition test_ok :: "rule_test \<Rightarrow> bool" where
  "test_ok t \<longleftrightarrow> (\<forall>cell \<in> set (rt_fixtures t @ rt_assertions t). bt_ok (tc_coord cell))"

lemma build_rule_test_doc:
  assumes "test_ok t" shows "build_rule_test (rule_test_to_doc t) = t"
proof -
  have "build_test_cell (test_cell_to_doc cell) = cell" if "cell \<in> set (rt_fixtures t @ rt_assertions t)" for cell
    using assms that bt_collect_sorted [of "tc_coord cell"]
    by (simp add: test_ok_def build_test_cell_def test_cell_to_doc_def)
  then show ?thesis by (simp add: build_rule_test_def rule_test_to_doc_def map_idI)
qed

section \<open>Keys\<close>

text \<open>Every object is filed under its own name.\<close>

definition model_keys :: "model \<Rightarrow> bool" where
  "model_keys m \<longleftrightarrow> bt_ok (subsets m) \<and> bt_ok (views m) \<and> bt_ok (tests m) \<and> bt_ok (sandboxes m) \<and>
     (\<forall>(k, s) \<in> set (subsets m). k = (sub_dimension s, sub_name s) \<and> has_dimension (the_cube m) (sub_dimension s)) \<and>
     (\<forall>(n, v) \<in> set (views m). n = view_name v) \<and>
     (\<forall>(n, t) \<in> set (tests m). n = rt_name t \<and> test_ok t) \<and>
     (\<forall>(n, sb) \<in> set (sandboxes m). n = sb_name sb)"

definition model_printable :: "model \<Rightarrow> bool" where
  "model_printable m \<longleftrightarrow> cube_printable (the_cube m) \<and>
     (\<forall>(n, sb) \<in> set (sandboxes m). \<forall>(k, v) \<in> set (sb_cells sb). in_i64 \<bar>v\<bar>)"

lemma collect_keyed:
  assumes "bt_ok m" and "\<forall>(k, x) \<in> set m. key (doc x) = k \<and> undoc (doc x) = x"
  shows "bt_collect (map (\<lambda>d. (key d, undoc d)) (map (doc \<circ> snd) m)) = m"
proof -
  have "map (\<lambda>d. (key d, undoc d)) (map (doc \<circ> snd) m) = m"
    using assms(2) by (induction m) auto
  with bt_collect_sorted [OF assms(1)] show ?thesis by simp
qed

lemma load_subsets_spec:
  assumes "bt_ok (acc @ m)" and "\<forall>(k, s) \<in> set m. k = (sub_dimension s, sub_name s) \<and> has_dimension c (sub_dimension s)"
  shows "load_subsets c (map (subset_to_doc \<circ> snd) m) acc = Inr (acc @ m)"
  using assms
proof (induction m arbitrary: acc)
  case (Cons ks m)
  obtain k s where ks: "ks = (k, s)" by (cases ks)
  have "bt_ok (acc @ [ks])" using Cons.prems(1) bt_ok_append [of "acc @ [ks]" m] by simp
  then have "bt_insert k s acc = acc @ [ks]" using bt_insert_last [of acc k s] by (simp add: ks)
  moreover have "sd_dimension (subset_to_doc s) = sub_dimension s" "sd_name (subset_to_doc s) = sub_name s"
    by (simp_all add: subset_to_doc_def split: subset_kind.split)
  ultimately show ?case
    using Cons.IH [of "acc @ [ks]"] Cons.prems by (auto simp: ks has_dimension_def)
qed simp

section \<open>Sandboxes\<close>

lemma build_overrides_spec:
  assumes "same_dims (dims c) (dims c')" and "list_all dim_wf (dims c')" and "bt_ok (acc @ es)"
    and "\<forall>(k, v) \<in> set es. in_range (dims c) k \<and> parse (print v) = Inr v"
  shows "build_overrides c' cname parse (map (\<lambda>(k, v). \<lparr>cd_coord = coord_names c k, cd_value = print v\<rparr>) es) acc =
    Inr (acc @ es)"
  using assms(3,4)
proof (induction es arbitrary: acc)
  case (Cons kv es)
  obtain k v where kv: "kv = (k, v)" by force
  have "bt_ok (acc @ [kv])" using Cons.prems(1) bt_ok_append [of "acc @ [kv]" es] by simp
  then have "bt_insert k v acc = acc @ [kv]" using bt_insert_last [of acc k v] by (simp add: kv)
  moreover have "resolve_coord c' cname (coord_names c k) = Inr k"
    using resolve_coord_spec [OF assms(1,2)] Cons.prems(2) by (simp add: kv)
  ultimately show ?case using Cons.IH [of "acc @ [kv]"] Cons.prems by (simp add: kv)
qed simp

lemma build_sandbox_spec:
  assumes "same_dims (dims c) (dims c')" and "list_all dim_wf (dims c')" and ok: "overrides_ok (dims c) sb"
    and pr: "\<forall>(k, v) \<in> set (sb_cells sb). in_i64 \<bar>v\<bar>"
  shows "build_sandbox c' cname (sandbox_to_doc c sb) = Inr sb"
proof -
  note D = overrides_okD [OF ok]
  have r: "in_range (dims c) k" if "(k, v) \<in> set (sb_cells sb)" for k v
    using D(3) [of k] that by force
  have "build_overrides c' cname (\<lambda>s. loaded (from_str s))
      (map (\<lambda>(k, v). \<lparr>cd_coord = coord_names c k, cd_value = display v\<rparr>) (sb_cells sb)) [] = Inr ([] @ sb_cells sb)"
    by (rule build_overrides_spec [OF assms(1,2)]) (use D(1) r pr from_str_display in \<open>auto simp: loaded_def\<close>)
  moreover have "in_range (dims c) k" if "(k, v) \<in> set (sb_strings sb)" for k v
    using D(4) [of k] that by force
  then have "build_overrides c' cname Inr
      (map (\<lambda>(k, v). \<lparr>cd_coord = coord_names c k, cd_value = id v\<rparr>) (sb_strings sb)) [] = Inr ([] @ sb_strings sb)"
    by (intro build_overrides_spec [OF assms(1,2)]) (use D(2) in auto)
  ultimately show ?thesis by (simp add: build_sandbox_def sandbox_to_doc_def)
qed

lemma load_sandboxes_spec:
  assumes "same_dims (dims c) (dims c')" and "list_all dim_wf (dims c')" and "bt_ok (acc @ m)"
    and "\<forall>(n, sb) \<in> set m. n = sb_name sb \<and> overrides_ok (dims c) sb \<and> (\<forall>(k, v) \<in> set (sb_cells sb). in_i64 \<bar>v\<bar>)"
  shows "load_sandboxes c' cname (map (sandbox_to_doc c \<circ> snd) m) acc = Inr (acc @ m)"
  using assms(3,4)
proof (induction m arbitrary: acc)
  case (Cons nsb m)
  obtain n sb where nsb: "nsb = (n, sb)" by force
  have "bt_ok (acc @ [nsb])" using Cons.prems(1) bt_ok_append [of "acc @ [nsb]" m] by simp
  then have "bt_insert n sb acc = acc @ [nsb]" using bt_insert_last [of acc n sb] by (simp add: nsb)
  moreover have "build_sandbox c' cname (sandbox_to_doc c sb) = Inr sb"
    using build_sandbox_spec [OF assms(1,2)] Cons.prems(2) by (simp add: nsb)
  moreover have "bd_name (sandbox_to_doc c sb) = n" using Cons.prems(2) by (simp add: nsb sandbox_to_doc_def)
  ultimately show ?case using Cons.IH [of "acc @ [nsb]"] Cons.prems by (simp add: nsb)
qed simp

section \<open>The model\<close>

definition same_rules :: "rule_set \<Rightarrow> rule_set \<Rightarrow> bool" where
  "same_rules r r' \<longleftrightarrow> r' = r \<or> rules_is_empty r \<and> rules_is_empty r'"

definition same_model :: "model \<Rightarrow> model \<Rightarrow> bool" where
  "same_model m m' \<longleftrightarrow> same_cube (the_cube m) (the_cube m') \<and> subsets m' = subsets m \<and> views m' = views m \<and>
     same_rules (rule_source m) (rule_source m') \<and> tests m' = tests m \<and> sandboxes m' = sandboxes m"

lemma trim_Nil: "trim [] = []"
  by code_simp

lemma model_round_trip:
  assumes wf: "model_wf m" and keys: "model_keys m" and pr: "model_printable m"
  shows "\<exists>m'. model_from_doc (model_to_doc m) = Inr m' \<and> same_model m m' \<and> model_wf m' \<and>
    length (by_id (pool (the_cube m'))) \<le> length (string_cell_entries (the_cube m))"
proof -
  let ?c = "the_cube m" and ?doc = "model_to_doc m"
  have wc: "cube_wf ?c" and ok: "\<forall>sb \<in> snd ` set (sandboxes m). overrides_ok (dims ?c) sb"
    using wf by (simp_all add: model_wf_def)
  have pc: "cube_printable ?c" using pr by (simp add: model_printable_def)
  have "\<exists>c'. build_cube_from_doc ?doc = Inr c' \<and> cube_wf c' \<and> same_cube ?c c' \<and>
      length (by_id (pool c')) \<le> length (string_cell_entries ?c)"
    by (rule cube_round_trip [OF wc pc]) (simp_all add: model_to_doc_def build_model_doc_def)
  then obtain c' where c': "build_cube_from_doc ?doc = Inr c'" "cube_wf c'" "same_cube ?c c'"
    "length (by_id (pool c')) \<le> length (string_cell_entries ?c)" by blast
  have sd: "same_dims (dims ?c) (dims c')" using c'(3) by (simp add: same_cube_def)
  have K: "bt_ok (subsets m)" "bt_ok (views m)" "bt_ok (tests m)" "bt_ok (sandboxes m)"
    "\<forall>(k, s) \<in> set (subsets m). k = (sub_dimension s, sub_name s) \<and> has_dimension ?c (sub_dimension s)"
    "\<forall>(n, v) \<in> set (views m). n = view_name v" "\<forall>(n, t) \<in> set (tests m). n = rt_name t \<and> test_ok t"
    "\<forall>(n, sb) \<in> set (sandboxes m). n = sb_name sb"
    using keys unfolding model_keys_def by blast+
  have has: "has_dimension c' n \<longleftrightarrow> has_dimension ?c n" for n
    using sd by (auto simp: has_dimension_def list_ex_length same_dims_nth same_dim_def)
  have subs: "load_subsets c' (md_subsets ?doc) [] = Inr (subsets m)"
    using load_subsets_spec [of "[]" "subsets m" c'] K(1,5) by (simp add: model_to_doc_def build_model_doc_def has)
  have sbs: "load_sandboxes c' (md_cube ?doc) (md_sandboxes ?doc) [] = Inr (sandboxes m)"
  proof -
    have "\<forall>(n, sb) \<in> set (sandboxes m). n = sb_name sb \<and> overrides_ok (dims ?c) sb \<and>
        (\<forall>(k, v) \<in> set (sb_cells sb). in_i64 \<bar>v\<bar>)"
    proof (intro ballI, clarify)
      fix n sb assume mem: "(n, sb) \<in> set (sandboxes m)"
      then have "sb \<in> snd ` set (sandboxes m)" by force
      then have "overrides_ok (dims ?c) sb" using ok by blast
      moreover have "n = sb_name sb" using K(8) mem by blast
      moreover have "\<forall>(k, v) \<in> set (sb_cells sb). in_i64 \<bar>v\<bar>" using pr mem unfolding model_printable_def by blast
      ultimately show "n = sb_name sb \<and> overrides_ok (dims ?c) sb \<and> (\<forall>(k, v) \<in> set (sb_cells sb). in_i64 \<bar>v\<bar>)" by blast
    qed
    from load_sandboxes_spec [OF sd cube_wf_D(1) [OF c'(2)] _ this, of "[]"] K(4) show ?thesis
      by (simp add: model_to_doc_def build_model_doc_def)
  qed
  have vs: "bt_collect (map (\<lambda>v. (wd_name v, build_view v)) (md_views ?doc)) = views m"
  proof -
    have docs: "md_views ?doc = map (view_to_doc \<circ> snd) (views m)" by (simp add: model_to_doc_def build_model_doc_def)
    have "wd_name (view_to_doc v) = view_name v" for v by (simp add: view_to_doc_def)
    then show ?thesis unfolding docs by (intro collect_keyed [OF K(2)]) (use K(6) in auto)
  qed
  have ts: "bt_collect (map (\<lambda>t. (rd_name t, build_rule_test t)) (md_tests ?doc)) = tests m"
  proof -
    have docs: "md_tests ?doc = map (rule_test_to_doc \<circ> snd) (tests m)" by (simp add: model_to_doc_def build_model_doc_def)
    have "rd_name (rule_test_to_doc t) = rt_name t" for t by (simp add: rule_test_to_doc_def)
    then show ?thesis unfolding docs by (intro collect_keyed [OF K(3)]) (use K(7) build_rule_test_doc in auto)
  qed
  define m' where "m' = \<lparr>the_cube = c', subsets = subsets m, views = views m,
    rule_source = \<lparr>rules_source = (case md_rules ?doc of Some s \<Rightarrow> s | None \<Rightarrow> [])\<rparr>, tests = tests m, sandboxes = sandboxes m\<rparr>"
  have "model_from_doc ?doc = Inr m'"
    using c'(1) subs sbs vs ts unfolding m'_def
    by (simp add: model_from_doc_def) (simp add: model_to_doc_def build_model_doc_def)
  moreover have "same_rules (rule_source m) (rule_source m')"
    by (cases "rule_source m") (auto simp: same_rules_def m'_def model_to_doc_def build_model_doc_def rules_is_empty_def trim_Nil)
  then have "same_model m m'" using c'(3) by (simp add: same_model_def m'_def)
  moreover have "overrides_ok (dims c') sb" if "overrides_ok (dims ?c) sb" for sb
    using that same_dims_coord [OF sd] by (simp add: overrides_ok_def)
  then have "model_wf m'" using c'(2) ok by (simp add: model_wf_def m'_def)
  moreover have "length (by_id (pool (the_cube m'))) \<le> length (string_cell_entries ?c)" using c'(4) by (simp add: m'_def)
  ultimately show ?thesis by blast
qed

end
