(* ===== verification/Sandbox_Facts.thy ===== *)
theory Sandbox_Facts
  imports Model_Sandbox
begin

text \<open>
  What the structural edits do to the overrides of a sandbox: an edit that renames the members
  carries every override along, an edit that changes a kind prunes the overrides it made
  unwritable, and every other edit leaves them writable as they are.
\<close>

section \<open>Renaming edits\<close>

lemma rename_coord_kinds:
  assumes core: "rename_core to_new (ds ! d) d'" and d: "d < length ds"
    and k: "in_range ds k" "rename_coord d to_new k = Some k'"
  shows "in_range (ds[d := d']) k'" "leaf_coord (ds[d := d']) k' = leaf_coord ds k"
    "string_coord (ds[d := d']) k' = string_coord ds k"
proof -
  have i: "k ! d < length (elements (ds ! d))" "surv to_new (k ! d)" "k' = k[d := to_new ! (k ! d)]"
    using k d by (auto simp: in_range_nth rename_coord_def split: if_splits)
  have len: "length k = length ds" "length k' = length ds" using k(1) by (simp_all add: i(3) in_range_nth)
  have each: "k' ! x < length (elements (ds[d := d'] ! x)) \<and>
      kind_at (ds[d := d'] ! x) (k' ! x) = kind_at (ds ! x) (k ! x)" if "x < length ds" for x
    using rename_core_D(1,2) [OF core i(1,2)] that k(1) d len(1)
    by (cases "x = d") (simp_all add: i(3) kind_at_def in_range_nth)
  then show "in_range (ds[d := d']) k'" "leaf_coord (ds[d := d']) k' = leaf_coord ds k"
    "string_coord (ds[d := d']) k' = string_coord ds k"
    using len by (simp_all add: in_range_nth leaf_coord_nth string_coord_nth cong: conj_cong)
qed

lemma remap_keeps_ok:
  assumes ok: "overrides_ok ds sb" and core: "rename_core to_new (ds ! d) d'" and d: "d < length ds"
  shows "overrides_ok (ds[d := d']) (remap_sandbox d to_new sb)"
proof -
  have O: "bt_ok (sb_cells sb)" "bt_ok (sb_strings sb)"
    "\<forall>k \<in> fst ` set (sb_cells sb). in_range ds k \<and> leaf_coord ds k"
    "\<forall>k \<in> fst ` set (sb_strings sb). in_range ds k \<and> string_coord ds k"
    using ok unfolding overrides_ok_def by blast+
  have rng: "\<forall>k \<in> fst ` set (sb_cells sb). in_range ds k" "\<forall>k \<in> fst ` set (sb_strings sb). in_range ds k"
    using O(3,4) by blast+
  note C = remap_coord_map_spec [OF bt_ok_distinct [OF O(1)] core d rng(1)]
    and S = remap_coord_map_spec [OF bt_ok_distinct [OF O(2)] core d rng(2)]
  have c: "in_range (ds[d := d']) k' \<and> leaf_coord (ds[d := d']) k'"
    if mem: "k' \<in> fst ` set (remap_coord_map (sb_cells sb) d to_new)" for k'
  proof -
    obtain k v where k: "(k, v) \<in> set (sb_cells sb)" "rename_coord d to_new k = Some k'"
      using mem unfolding conjunct2 [OF C] by force
    then have "in_range ds k \<and> leaf_coord ds k" using O(3) by force
    with rename_coord_kinds [OF core d _ k(2)] show ?thesis by blast
  qed
  have s: "in_range (ds[d := d']) k' \<and> string_coord (ds[d := d']) k'"
    if mem: "k' \<in> fst ` set (remap_coord_map (sb_strings sb) d to_new)" for k'
  proof -
    obtain k v where k: "(k, v) \<in> set (sb_strings sb)" "rename_coord d to_new k = Some k'"
      using mem unfolding conjunct2 [OF S] by force
    then have "in_range ds k \<and> string_coord ds k" using O(4) by force
    with rename_coord_kinds [OF core d _ k(2)] show ?thesis by blast
  qed
  have eqs: "sb_cells (remap_sandbox d to_new sb) = remap_coord_map (sb_cells sb) d to_new"
    "sb_strings (remap_sandbox d to_new sb) = remap_coord_map (sb_strings sb) d to_new"
    by (simp_all add: remap_sandbox_def)
  have vals: "snd ` set (remap_coord_map (sb_cells sb) d to_new) \<subseteq> snd ` set (sb_cells sb)"
    unfolding conjunct2 [OF C] by force
  show ?thesis
    by (rule overrides_okI; unfold eqs) (use C S c s vals overrides_okD(5) [OF ok] in blast)+
qed

text \<open>An override is read at the renamed coordinate exactly when it was read at the old one.\<close>

lemma remap_lookup:
  assumes "bt_ok old" and range: "\<forall>k \<in> fst ` set old. in_range ds k" and core: "rename_core to_new (ds ! d) d'"
    and d: "d < length ds" and k: "in_range ds k" "rename_coord d to_new k = Some k'"
  shows "map_of (remap_coord_map old d to_new) k' = map_of old k"
proof -
  note dist = bt_ok_distinct [OF assms(1)]
  note S = remap_coord_map_spec [OF dist core d range]
  have inj: "j = k" if "in_range ds j" "rename_coord d to_new j = Some k'" for j
  proof -
    have sv: "surv to_new (j ! d)" "j[d := to_new ! (j ! d)] = k[d := to_new ! (k ! d)]"
      using that(2) k(2) by (auto simp: rename_coord_def split: if_splits)
    have len: "length j = length k" "d < length j" using that(1) k(1) d by (simp_all add: in_range_nth)
    then have "to_new ! (j ! d) = to_new ! (k ! d)" using sv(2) by (metis nth_list_update_eq)
    moreover have "j ! d < length (elements (ds ! d))" "k ! d < length (elements (ds ! d))"
      using that(1) k(1) d by (simp_all add: in_range_nth)
    ultimately have "j ! d = k ! d" using rename_core_inj [OF core] sv(1) by blast
    with list_update_inj [OF sv(2) len] show "j = k" by simp
  qed
  have "map_of (remap_coord_map old d to_new) k' = Some v \<longleftrightarrow> map_of old k = Some v" for v
  proof -
    have "map_of (remap_coord_map old d to_new) k' = Some v \<longleftrightarrow> (\<exists>j. (j, v) \<in> set old \<and> rename_coord d to_new j = Some k')"
      using S bt_ok_distinct [of "remap_coord_map old d to_new"] by (simp add: map_of_eq_Some_iff)
    also have "\<dots> \<longleftrightarrow> (k, v) \<in> set old"
    proof
      assume "\<exists>j. (j, v) \<in> set old \<and> rename_coord d to_new j = Some k'"
      then obtain j where j: "(j, v) \<in> set old" "rename_coord d to_new j = Some k'" by blast
      then have "in_range ds j" using range by force
      with inj j show "(k, v) \<in> set old" by blast
    qed (use k(2) in blast)
    finally show ?thesis using dist by (simp add: map_of_eq_Some_iff)
  qed
  then show ?thesis by (metis not_None_eq)
qed

section \<open>The names determine the index map\<close>

lemma surv_all_follow:
  "dim_renames to_new d d' \<Longrightarrow> \<forall>i < length (elements d). surv to_new i \<Longrightarrow> names_follow to_new d d'"
  by (simp add: names_follow_def)

lemma onto_follow:
  assumes wd: "dim_wf d" and ren: "dim_renames to_new d d'" and onto: "\<forall>j < length (elements d'). j \<in> set to_new"
  shows "names_follow to_new d d'"
  unfolding names_follow_def
proof (intro conjI allI impI)
  fix i assume i: "i < length (elements d)" "\<not> surv to_new i"
  have core: "rename_core to_new d d'" and wd': "dim_wf d'" using ren by (simp_all add: dim_renames_def)
  show "index_of d' (el_name (elements d ! i)) = None"
  proof (rule ccontr)
    assume "index_of d' (el_name (elements d ! i)) \<noteq> None"
    then obtain j where "index_of d' (el_name (elements d ! i)) = Some j" by auto
    then have j: "j < length (elements d')" "el_name (elements d' ! j) = el_name (elements d ! i)"
      using index_of_Some [OF wd'] by blast+
    then obtain i' where i': "i' < length to_new" "to_new ! i' = j" using onto by (auto simp: in_set_conv_nth)
    have len: "length to_new = length (elements d)" "length (elements d') \<le> u32_max"
      using core unfolding rename_core_def by blast+
    have sv: "surv to_new i'" using i'(2) j(1) len(2) by (simp add: surv_def)
    have i'l: "i' < length (elements d)" using i'(1) len(1) by simp
    have "elements d' ! j = elements d ! i'" using rename_core_D(2) [OF core i'l sv] i'(2) by simp
    then have "map el_name (elements d) ! i' = map el_name (elements d) ! i" using j(2) i'l i(1) by simp
    moreover have "distinct (map el_name (elements d))" using wd by (simp add: dim_wf_def names_ok_def)
    ultimately have "i' = i" using i'l i(1) nth_eq_iff_index_eq [of "map el_name (elements d)" i' i] by simp
    with sv i(2) show False by simp
  qed
qed (rule ren)

section \<open>The reindexing edits\<close>

text \<open>Where the model and the cube find the dimension.\<close>

lemma model_index: "dimension_index (the_cube m) dimension = Inr d \<Longrightarrow> model_dimension_index m dimension = Some d"
  by (auto simp: dimension_index_def model_dimension_index_def split: option.splits)

definition followed :: "nat \<Rightarrow> nat list \<Rightarrow> cube \<Rightarrow> cube \<Rightarrow> bool" where
  "followed d to_new c c' \<longleftrightarrow> renamed d to_new c c' \<and> names_follow to_new (dims c ! d) (dims c' ! d)"

lemma reorder_followed:
  assumes "cube_wf c" and "reorder_elements dimension names c = Inr c'"
  obtains d to_new where "dimension_index c dimension = Inr d" "followed d to_new c c'"
proof -
  obtain d to_new d' where d: "dimension_index c dimension = Inr d"
    and r: "reorder names (dims c ! d) = Inr (to_new, d')"
    and c': "c' = remap_cells_for_dimension d to_new (put_dim d d' c)"
    using assms(2) by (auto simp: reorder_elements_def)
  have dl: "d < length (dims c)" using dim_index_bound [OF d] by simp
  note R = reorder_Inr [OF wf_nth [OF assms(1) dl] r]
  have "surv to_new i" if i: "i < length (elements (dims c ! d))" for i
  proof -
    have "to_new ! i < length (elements (dims c ! d))"
      using R i by (metis is_perm_def lessThan_iff nth_mem)
    then show ?thesis using dim_wf_shape(3) [OF wf_nth [OF assms(1) dl]] by (simp add: surv_def)
  qed
  with R have "names_follow to_new (dims c ! d) d'" by (intro surv_all_follow) blast+
  moreover have "dims c' ! d = d'"
    using dl by (simp add: c' remap_cells_for_dimension_def put_dim_def rebuild_stores_def)
  moreover have "renamed d to_new c c'" using remap_renamed [OF assms(1) dl] R c' by blast
  ultimately have "followed d to_new c c'" by (simp add: followed_def)
  with d show thesis by (rule that)
qed

lemma insert_followed:
  assumes "cube_wf c" and "room 1 (dims c)" and "insert_element_at dimension name kind pos c = Inr c'"
  obtains d to_new where "dimension_index c dimension = Inr d" "followed d to_new c c'"
proof -
  obtain d at k to_new d' where d: "dimension_index c dimension = Inr d"
    and r: "insert_at name kind at (dims c ! d) = Inr ((k, to_new), d')"
    and c': "c' = remap_cells_for_dimension d to_new (put_dim d d' c)"
    using assms(3) by (auto simp: insert_element_at_def Let_def)
  have dl: "d < length (dims c)" using dim_index_bound [OF d] by simp
  have sz: "length (elements (dims c ! d)) < u32_max" using roomD [OF assms(2) dl] by simp
  note R = insert_at_renames [OF wf_nth [OF assms(1) dl] sz r]
  have "to_new = insert_map (length (elements (dims c ! d))) k"
    using r sz by (auto simp: insert_at_def Let_def split: if_splits)
  then have "surv to_new i" if "i < length (elements (dims c ! d))" for i
    using that sz by (simp add: surv_def)
  with R have "names_follow to_new (dims c ! d) d'" by (intro surv_all_follow) blast+
  moreover have "dims c' ! d = d'"
    using dl by (simp add: c' remap_cells_for_dimension_def put_dim_def rebuild_stores_def)
  moreover have "renamed d to_new c c'" using remap_renamed [OF assms(1) dl] R c' by blast
  ultimately have "followed d to_new c c'" by (simp add: followed_def)
  with d show thesis by (rule that)
qed

lemma delete_followed:
  assumes "cube_wf c" and "delete_element dimension name c = Inr c'"
  obtains d to_new where "dimension_index c dimension = Inr d" "followed d to_new c c'"
proof -
  obtain d i k to_new d' where d: "dimension_index c dimension = Inr d"
    and r: "delete i (dims c ! d) = Inr ((k, to_new), d')"
    and c': "c' = remap_cells_for_dimension d to_new (put_dim d d' c)"
    using assms(2) by (auto simp: delete_element_def)
  have dl: "d < length (dims c)" using dim_index_bound [OF d] by simp
  note R = delete_renames [OF wf_nth [OF assms(1) dl] r]
  let ?n = "length (elements (dims c ! d))"
  have shape: "to_new = delete_map ?n i" "length (elements d') = ?n - 1"
    using r R by (auto simp: delete_def Let_def reindex_names_def remove_at_def split: if_splits)
  then have "names_follow to_new (dims c ! d) d'"
    using onto_follow [OF wf_nth [OF assms(1) dl]] R in_delete_map by simp
  moreover have "dims c' ! d = d'"
    using dl by (simp add: c' remap_cells_for_dimension_def put_dim_def rebuild_stores_def)
  moreover have "renamed d to_new c c'" using remap_renamed [OF assms(1) dl] R c' by blast
  ultimately have "followed d to_new c c'" by (simp add: followed_def)
  with d show thesis by (rule that)
qed

text \<open>What a reindexing edit of the model does, once its edit of the cube renames.\<close>

lemma reindexing_spec:
  assumes e: "reindexing_edit dimension edit m = Inr m'" and d: "dimension_index (the_cube m) dimension = Inr d"
    and f: "\<And>c'. edit (the_cube m) = Inr c' \<Longrightarrow> followed d to_new (the_cube m) c'"
  shows "edit (the_cube m) = Inr (the_cube m')" "followed d to_new (the_cube m) (the_cube m')"
    "m' = on_sandboxes (remap_sandbox d to_new) (m\<lparr>the_cube := the_cube m'\<rparr>)"
proof -
  obtain c' where c': "edit (the_cube m) = Inr c'"
    and m': "m' = remap_sandboxes_for_dimension d (permutation_by_name c' d (member_names m d)) (m\<lparr>the_cube := c'\<rparr>)"
    using e by (auto simp: reindexing_edit_def Let_def model_index [OF d])
  note fc = f [OF c']
  have "permutation_by_name c' d (member_names m d) = to_new"
    unfolding member_names_def by (rule permutation_is_map) (use fc in \<open>simp add: followed_def\<close>)
  with m' have m'': "m' = on_sandboxes (remap_sandbox d to_new) (m\<lparr>the_cube := c'\<rparr>)"
    by (simp add: remap_sandboxes_for_dimension_def)
  then have eq: "the_cube m' = c'" by simp
  show "edit (the_cube m) = Inr (the_cube m')" "followed d to_new (the_cube m) (the_cube m')"
    "m' = on_sandboxes (remap_sandbox d to_new) (m\<lparr>the_cube := the_cube m'\<rparr>)"
    unfolding eq using c' fc m'' by blast+
qed

lemma followed_wf:
  assumes "model_wf m" and "followed d to_new (the_cube m) (the_cube m')"
    and m': "m' = on_sandboxes (remap_sandbox d to_new) (m\<lparr>the_cube := the_cube m'\<rparr>)"
  shows "model_wf m'"
proof -
  obtain d' where F: "d < length (dims (the_cube m))" "cube_wf (the_cube m')"
    "dims (the_cube m') = (dims (the_cube m))[d := d']" "rename_core to_new (dims (the_cube m) ! d) d'"
    using assms(2) by (auto simp: followed_def renamed_def dim_renames_def)
  have "snd ` set (sandboxes m') = remap_sandbox d to_new ` snd ` set (sandboxes m)"
    by (subst m') simp
  with F assms(1) remap_keeps_ok [OF _ F(4,1)] show ?thesis by (auto simp: model_wf_def)
qed

section \<open>The converting edits\<close>

text \<open>Pruning keeps what is writable under the edited kinds: the cells an edit of one dimension
  leaves as they were, and those that avoid the converted element.\<close>

lemma kind_set_ok:
  assumes ok: "overrides_ok ds sb" and d: "d < length ds" and ks: "kind_set e kind (ds ! d) d'"
    and cells: "\<And>k. k \<in> fst ` set (sb_cells sb') \<Longrightarrow> k \<in> fst ` set (sb_cells sb) \<and>
        (kind_at (ds ! d) e = Leaf \<longrightarrow> kind \<noteq> Leaf \<longrightarrow> k ! d \<noteq> e)"
    and strings: "\<And>k. k \<in> fst ` set (sb_strings sb') \<Longrightarrow> k \<in> fst ` set (sb_strings sb) \<and>
        (kind_at (ds ! d) e \<noteq> Consolidated \<longrightarrow> kind = Consolidated \<longrightarrow> k ! d \<noteq> e) \<and>
        (kind_at (ds ! d) e = Str \<longrightarrow> kind = Leaf \<longrightarrow> k ! d \<noteq> e \<or>
           (\<exists>x < length ds. x \<noteq> d \<and> kind_at (ds ! x) (k ! x) = Str))"
    and "bt_ok (sb_cells sb')" "bt_ok (sb_strings sb')" "snd ` set (sb_cells sb') \<subseteq> snd ` set (sb_cells sb)"
  shows "overrides_ok (ds[d := d']) sb'"
proof (rule overrides_ok_mono [OF ok])
  have len: "length (elements d') = length (elements (ds ! d))" using ks by (simp add: kind_set_def)
  note rng = in_range_same_size [OF len]
  fix k
  show "k \<in> fst ` set (sb_cells sb) \<and> (in_range ds k \<longrightarrow> leaf_coord ds k \<longrightarrow>
      in_range (ds[d := d']) k \<and> leaf_coord (ds[d := d']) k)" if "k \<in> fst ` set (sb_cells sb')"
    using cells [OF that] kind_set_coord(1) [OF ks d, of k] split_coord(1) [OF d, of k] rng by auto
  show "k \<in> fst ` set (sb_strings sb) \<and> (in_range ds k \<longrightarrow> string_coord ds k \<longrightarrow>
      in_range (ds[d := d']) k \<and> string_coord (ds[d := d']) k)" if "k \<in> fst ` set (sb_strings sb')"
  proof -
    note mem = strings [OF that]
    have "string_coord (ds[d := d']) k" if k: "in_range ds k" "string_coord ds k"
      using mem k(2) unfolding kind_set_coord(2) [OF ks d k(1)] split_coord(2) [OF d k(1)]
      by (cases "k ! d = e"; cases kind; cases "kind_at (ds ! d) e") auto
    with mem rng show ?thesis by blast
  qed
qed (use assms in blast)+

lemma prune_mem:
  "k \<in> fst ` set (sb_cells (prune_sandbox d e numeric strings sb)) \<longleftrightarrow>
     k \<in> fst ` set (sb_cells sb) \<and> (numeric \<longrightarrow> k ! d \<noteq> e)"
  "k \<in> fst ` set (sb_strings (prune_sandbox d e numeric strings sb)) \<longleftrightarrow>
     k \<in> fst ` set (sb_strings sb) \<and> (strings \<longrightarrow> k ! d \<noteq> e)"
  by (force simp: prune_sandbox_def image_iff)+

lemma prune_bt_ok:
  "overrides_ok ds sb \<Longrightarrow> bt_ok (sb_cells (prune_sandbox d e numeric strings sb)) \<and>
     bt_ok (sb_strings (prune_sandbox d e numeric strings sb))"
  by (simp add: prune_sandbox_def overrides_ok_def)

lemma prune_subset_ok: "overrides_ok ds sb \<Longrightarrow> overrides_ok ds (prune_sandbox d e numeric strings sb)"
  by (auto simp: overrides_ok_def prune_sandbox_def)

lemma prune_keeps_ok:
  assumes ok: "overrides_ok ds sb" and d: "d < length ds" and ks: "kind_set e kind (ds ! d) d'"
    and "kind_at (ds ! d) e = Leaf \<and> kind = Str \<and> numeric \<or> kind = Consolidated \<and> numeric \<and> strings \<or>
      kind_at (ds ! d) e = Consolidated \<or> kind_at (ds ! d) e = kind"
  shows "overrides_ok (ds[d := d']) (prune_sandbox d e numeric strings sb)"
proof (rule kind_set_ok [OF ok d ks])
  show "snd ` set (sb_cells (prune_sandbox d e numeric strings sb)) \<subseteq> snd ` set (sb_cells sb)"
    by (auto simp: prune_sandbox_def)
qed (use assms prune_bt_ok [OF ok] in \<open>auto simp: prune_mem\<close>)

text \<open>Dropping the overrides an element was the only string of.\<close>

lemma sole_mem:
  assumes "in_range (dims c) k"
  shows "k \<in> fst ` set (sb_strings (prune_sole_string c d e sb)) \<longleftrightarrow> k \<in> fst ` set (sb_strings sb) \<and>
     (k ! d \<noteq> e \<or> (\<exists>x < length (dims c). x \<noteq> d \<and> kind_at (dims c ! x) (k ! x) = Str))"
proof -
  have "list_ex (\<lambda>(d2, i). d2 \<noteq> d \<and> string_at c d2 i) (List.enumerate 0 k) \<longleftrightarrow>
      (\<exists>x < length k. x \<noteq> d \<and> string_at c x (k ! x))"
    by (auto simp: list_ex_iff in_set_enumerate_eq)
  also have "\<dots> \<longleftrightarrow> (\<exists>x < length (dims c). x \<noteq> d \<and> kind_at (dims c ! x) (k ! x) = Str)"
    using assms by (auto simp: in_range_nth string_at_def get_element_def kind_at_def)
  finally show ?thesis by (force simp: prune_sole_string_def image_iff)
qed

lemma sole_keeps_ok:
  assumes ok: "overrides_ok ds sb" and d: "d < length ds" and ks: "kind_set e Leaf (ds ! d) d'"
    and prev: "kind_at (ds ! d) e = Str" and c: "dims c = ds[d := d']"
  shows "overrides_ok (ds[d := d']) (prune_sole_string c d e sb)"
proof (rule kind_set_ok [OF ok d ks])
  have len: "length (elements d') = length (elements (ds ! d))" using ks by (simp add: kind_set_def)
  show "bt_ok (sb_cells (prune_sole_string c d e sb))" "bt_ok (sb_strings (prune_sole_string c d e sb))"
    using ok by (simp_all add: overrides_ok_def prune_sole_string_def)
  show "snd ` set (sb_cells (prune_sole_string c d e sb)) \<subseteq> snd ` set (sb_cells sb)"
    by (simp add: prune_sole_string_def)
  fix k
  show "k \<in> fst ` set (sb_cells sb) \<and> (kind_at (ds ! d) e = Leaf \<longrightarrow> Leaf \<noteq> Leaf \<longrightarrow> k ! d \<noteq> e)"
    if "k \<in> fst ` set (sb_cells (prune_sole_string c d e sb))"
    using that by (simp add: prune_sole_string_def)
  show "k \<in> fst ` set (sb_strings sb) \<and>
      (kind_at (ds ! d) e \<noteq> Consolidated \<longrightarrow> Leaf = Consolidated \<longrightarrow> k ! d \<noteq> e) \<and>
      (kind_at (ds ! d) e = Str \<longrightarrow> Leaf = Leaf \<longrightarrow> k ! d \<noteq> e \<or>
        (\<exists>x < length ds. x \<noteq> d \<and> kind_at (ds ! x) (k ! x) = Str))"
    if mem: "k \<in> fst ` set (sb_strings (prune_sole_string c d e sb))"
  proof -
    have old: "k \<in> fst ` set (sb_strings sb)" using mem by (force simp: prune_sole_string_def)
    then have "in_range ds k" using ok unfolding overrides_ok_def by blast
    then have "in_range (dims c) k" using in_range_same_size [OF len] by (simp add: c)
    from mem [unfolded sole_mem [OF this]] old show ?thesis by (auto simp: c nth_list_update)
  qed
qed

section \<open>The edits keep the model well-formed\<close>

text \<open>A cube edit and a change of the sandboxes, put together.\<close>

lemma model_wf_on:
  assumes "model_wf m" and "cube_wf c'" and "m' = on_sandboxes f (m\<lparr>the_cube := c'\<rparr>)"
    and "\<And>sb. overrides_ok (dims (the_cube m)) sb \<Longrightarrow> overrides_ok (dims c') (f sb)"
  shows "model_wf m'"
  unfolding model_wf_def assms(3) using assms(1,2,4) by (auto simp: model_wf_def)

lemma overrides_ok_extends:
  assumes ok: "overrides_ok ds sb" and ext: "extends ds ds'"
  shows "overrides_ok ds' sb"
  by (rule overrides_ok_mono [OF ok])
    (use ok extends_coord [OF ext] in \<open>auto simp: overrides_ok_def\<close>)

lemma model_wf_plain:
  assumes "model_wf m" and "cube_wf c'" and "extends (dims (the_cube m)) (dims c')"
  shows "model_wf (m\<lparr>the_cube := c'\<rparr>)"
  using assms overrides_ok_extends [OF _ assms(3)] by (auto simp: model_wf_def)

lemma dims_edited [simp]:
  "dims (rebuild_stores l n s t c) = dims c"
  "dims (drop_cells_for_element d e numeric strings c) = dims c"
  "dims (drop_sole_string_cells d e c) = dims c"
  "dims (put_dim d d' c) = (dims c)[d := d']"
  by (simp_all add: rebuild_stores_def drop_cells_for_element_def drop_sole_string_cells_def put_dim_def Let_def)

lemma model_set_element_kind_wf:
  assumes wf: "model_wf m" and e: "model_set_element_kind dimension element kind m = Inr m'"
  shows "model_wf m'"
proof -
  let ?c = "the_cube m"
  have wc: "cube_wf ?c" using wf by (simp add: model_wf_def)
  obtain c' where c': "set_element_kind dimension element kind ?c = Inr c'"
    using e by (auto simp: model_set_element_kind_def Let_def)
  then obtain d i prev d' where d: "dimension_index ?c dimension = Inr d"
    and i: "element_of dimension (dims ?c ! d) element = Inr i"
    and s: "set_kind i kind (dims ?c ! d) = Inr (prev, d')"
    and c'_def: "c' = retype_cells_for_kind d i prev kind (put_dim d d' ?c)"
    by (auto simp: set_element_kind_def)
  have dl: "d < length (dims ?c)" using dim_index_bound [OF d] by simp
  have k: "kind_set i kind (dims ?c ! d) d'" "prev = kind_at (dims ?c ! d) i" "i < length (elements (dims ?c ! d))"
    using set_kind_kinds [OF s] by simp_all
  have wc': "cube_wf c'" using set_element_kind_revalidates [OF wc c'] by (simp add: revalidated_def)
  have ds: "dims c' = (dims ?c)[d := d']"
    by (simp add: c'_def retype_cells_for_kind_def split: element_kind.split)
  have prv: "get_element (dims ?c ! d) i = Inr (elements (dims ?c ! d) ! i)" "el_kind (elements (dims ?c ! d) ! i) = prev"
    "index_of (dims ?c ! d) element = Some i"
    using k i by (simp_all add: get_element_def kind_at_def element_of_def)
  define f where "f = (case (prev, kind) of (Leaf, Str) \<Rightarrow> prune_sandbox d i True False
      | (Str, Leaf) \<Rightarrow> prune_sole_string c' d i | (Leaf, Consolidated) \<Rightarrow> prune_sandbox d i True True
      | (Str, Consolidated) \<Rightarrow> prune_sandbox d i True True | _ \<Rightarrow> prune_sandbox d i False False)"
  have none: "on_sandboxes (prune_sandbox d i False False) x = x" for x
    by (simp add: on_sandboxes_def prune_sandbox_def case_prod_unfold)
  have m': "m' = on_sandboxes f (m\<lparr>the_cube := c'\<rparr>)"
    using e prv unfolding f_def
    by (simp add: model_set_element_kind_def Let_def c' model_index [OF d] prune_sandbox_overrides_def
        prune_sandbox_sole_string_overrides_def none split: element_kind.splits)
  show ?thesis
  proof (rule model_wf_on [OF wf wc' m'])
    fix sb assume "overrides_ok (dims ?c) sb"
    note P = prune_keeps_ok [OF this dl k(1)] and S = sole_keeps_ok [OF this dl _ _ ds]
    show "overrides_ok (dims c') (f sb)"
      unfolding ds f_def using P S k by (cases prev; cases kind) simp_all
  qed
qed

text \<open>A child-gaining edit: either no kind changes, or the parent becomes a consolidation and
  the model prunes what was stored against it.\<close>

lemma converting_wf:
  assumes wf: "model_wf m" and e: "converting_edit dimension parent edit m = Inr m'"
    and rv: "\<And>c'. edit (the_cube m) = Inr c' \<Longrightarrow> cube_wf c' \<and>
       (extends (dims (the_cube m)) (dims c') \<or>
        (\<exists>d p d'. leaf_parent_index m dimension parent = Some (d, p) \<and> d < length (dims (the_cube m)) \<and>
           dims c' = (dims (the_cube m))[d := d'] \<and> kind_set p Consolidated (dims (the_cube m) ! d) d'))"
  shows "model_wf m'"
proof -
  obtain c' where c': "edit (the_cube m) = Inr c'" using e by (auto simp: converting_edit_def Let_def)
  define f where "f = (case leaf_parent_index m dimension parent of
      Some (d, p) \<Rightarrow> prune_sandbox d p True True | None \<Rightarrow> prune_sandbox 0 0 False False)"
  have none: "on_sandboxes (prune_sandbox d i False False) x = x" for d i x
    by (simp add: on_sandboxes_def prune_sandbox_def case_prod_unfold)
  have m': "m' = on_sandboxes f (m\<lparr>the_cube := c'\<rparr>)"
    using e unfolding f_def
    by (auto simp: converting_edit_def Let_def c' prune_sandbox_overrides_def none split: option.splits)
  have sub: "overrides_ok ds (f sb)" if "overrides_ok ds sb" for ds sb
    using prune_subset_ok [OF that] by (simp add: f_def split: option.split prod.split)
  show ?thesis
  proof (rule model_wf_on [OF wf _ m'])
    show "cube_wf c'" using rv [OF c'] by blast
    fix sb assume ok: "overrides_ok (dims (the_cube m)) sb"
    from rv [OF c'] consider "extends (dims (the_cube m)) (dims c')"
      | d p d' where "leaf_parent_index m dimension parent = Some (d, p)" "d < length (dims (the_cube m))"
        "dims c' = (dims (the_cube m))[d := d']" "kind_set p Consolidated (dims (the_cube m) ! d) d'" by blast
    then show "overrides_ok (dims c') (f sb)"
    proof cases
      case 1
      show ?thesis by (rule sub [OF overrides_ok_extends [OF ok 1]])
    next
      case (2 d p d')
      show ?thesis using prune_keeps_ok [OF ok 2(2,4)] by (simp add: f_def 2(1,3))
    qed
  qed
qed

lemma leaf_parent_Some:
  assumes "dimension_index (the_cube m) dimension = Inr d" and "element_of dimension (dims (the_cube m) ! d) p = Inr i"
    and "dim_wf (dims (the_cube m) ! d)" and "is_leaf (el_kind (elements (dims (the_cube m) ! d) ! i))"
  shows "leaf_parent_index m dimension (Some p) = Some (d, i)"
  using assms(2,4) element_of_bound [OF assms(3,2)]
  by (auto simp: leaf_parent_index_def model_index [OF assms(1)] element_of_def get_element_def is_leaf_def
      split: element_kind.splits)

lemma same_kinds_put: "d < length (dims c) \<Longrightarrow> same_kinds (dims c ! d) d' \<Longrightarrow> extends (dims c) ((dims c)[d := d'])"
  by (simp add: extends_update same_kinds_extends)

lemma model_add_child_element_wf:
  assumes wf: "model_wf m" and w: "in_i64 weight" and e: "model_add_child_element dimension parent child weight m = Inr m'"
  shows "model_wf m'"
proof (rule converting_wf [OF wf e [unfolded model_add_child_element_def]])
  fix c' assume c': "add_child_element dimension parent child weight (the_cube m) = Inr c'"
  let ?ds = "dims (the_cube m)"
  have wc: "cube_wf (the_cube m)" using wf by (simp add: model_wf_def)
  have wc': "cube_wf c'" using add_child_element_revalidates [OF wc w c'] by (simp add: revalidated_def)
  show "cube_wf c' \<and> (extends ?ds (dims c') \<or> (\<exists>d p d'. leaf_parent_index m dimension (Some parent) = Some (d, p) \<and>
      d < length ?ds \<and> dims c' = ?ds[d := d'] \<and> kind_set p Consolidated (?ds ! d) d'))"
    using c'
  proof (cases rule: add_child_element_cases)
    case (2 d p ch prev dim1 dim2)
    have dl: "d < length ?ds" using dim_index_bound [OF 2(1)] by simp
    have "kind_set p Consolidated (?ds ! d) dim2"
      using set_kind_kinds [OF 2(2)] add_child_kinds [OF 2(3)] by (simp add: kind_set_def same_kinds_def dim_extends_def)
    with wc' dl leaf_parent_Some [OF 2(1,5) wf_nth [OF wc dl] 2(6)] show ?thesis by (auto simp: 2(4))
  next
    case (3 d p ch dim2)
    have dl: "d < length ?ds" using dim_index_bound [OF 3(1)] by simp
    from same_kinds_put [OF dl conjunct1 [OF add_child_kinds [OF 3(2)]]] wc' show ?thesis by (simp add: 3(3))
  qed (use wc' in simp)
qed

lemma model_reparent_element_wf:
  assumes wf: "model_wf m" and w: "in_i64 weight" and e: "model_reparent_element dimension child new_parent weight m = Inr m'"
  shows "model_wf m'"
proof (rule converting_wf [OF wf e [unfolded model_reparent_element_def]])
  fix c' assume c': "reparent_element dimension child new_parent weight (the_cube m) = Inr c'"
  let ?ds = "dims (the_cube m)"
  have wc: "cube_wf (the_cube m)" using wf by (simp add: model_wf_def)
  have wc': "cube_wf c'" using reparent_element_revalidates [OF wc w c'] by (simp add: revalidated_def)
  obtain d ch parent was d' where d: "dimension_index (the_cube m) dimension = Inr d"
    and par: "(case new_parent of Some p \<Rightarrow> bindE (element_of dimension (?ds ! d) p) (\<lambda>i. Inr (Some i))
              | None \<Rightarrow> Inr None) = Inr parent"
    and was: "(case parent of Some p \<Rightarrow> bindE (get_element (?ds ! d) p) (\<lambda>el. Inr (is_leaf (el_kind el)))
              | None \<Rightarrow> Inr False) = Inr was"
    and r: "reparent ch parent weight (?ds ! d) = Inr d'"
    and c'_def: "c' = (if was then (case parent of Some p \<Rightarrow> drop_cells_for_element d p True True (put_dim d d' (the_cube m))
                     | None \<Rightarrow> put_dim d d' (the_cube m)) else put_dim d d' (the_cube m))"
    using c' by (auto simp: reparent_element_def Let_def)
  have dl: "d < length ?ds" using dim_index_bound [OF d] by simp
  note wd = wf_nth [OF wc dl]
  note rk = reparent_kinds [OF r dim_wf_graph(1) [OF wd]]
  have ds: "dims c' = ?ds[d := d']" by (simp add: c'_def split: option.split)
  show "cube_wf c' \<and> (extends ?ds (dims c') \<or> (\<exists>d p d'. leaf_parent_index m dimension new_parent = Some (d, p) \<and>
      d < length ?ds \<and> dims c' = ?ds[d := d'] \<and> kind_set p Consolidated (?ds ! d) d'))"
  proof (cases parent)
    case None
    with rk same_kinds_put [OF dl] show ?thesis using wc' by (simp add: ds)
  next
    case (Some p)
    then obtain np where np: "new_parent = Some np" "element_of dimension (?ds ! d) np = Inr p"
      using par by (auto split: option.splits)
    have ks: "p < length (elements (?ds ! d))" "kind_set p Consolidated (?ds ! d) d'" using rk Some by simp_all
    show ?thesis
    proof (cases was)
      case True
      then have "is_leaf (el_kind (elements (?ds ! d) ! p))"
        using was Some ks(1) by (simp add: get_element_def)
      from leaf_parent_Some [OF d np(2) wd this] show ?thesis using wc' ks dl by (auto simp: ds np(1))
    next
      case False
      then have "kind_at (?ds ! d) p = Consolidated"
        using was Some ks(1) by (cases "el_kind (elements (?ds ! d) ! p)") (auto simp: is_leaf_def kind_at_def get_element_def)
      with ks have "same_kinds (?ds ! d) d'" by (simp add: kind_set_def same_kinds_def dim_extends_def)
      from same_kinds_put [OF dl this] show ?thesis using wc' by (simp add: ds)
    qed
  qed
qed

section \<open>The other edits of the cube keep every kind\<close>

text \<open>The operations the store runs on the cube of a model without touching the sandboxes.\<close>

inductive plain_step :: "cube \<Rightarrow> cube \<Rightarrow> bool" where
  extend: "room (length elems) (dims c) \<Longrightarrow> \<forall>e \<in> set edges. in_i64 (gs_weight e) \<Longrightarrow>
     extend_schema elems edges c = Inr (n, c') \<Longrightarrow> plain_step c c'"
| attr_def: "\<forall>d \<in> set (dims c). length (attributes d) < u32_max \<Longrightarrow>
     define_attribute dimension name kind c = Inr c' \<Longrightarrow> plain_step c c'"
| set_attrs: "set_attribute_values dimension attribute vs c = Inr c' \<Longrightarrow> plain_step c c'"
| remove_child: "remove_child_element dimension parent child c = Inr c' \<Longrightarrow> plain_step c c'"
| pin: "pin_element_to_top dimension name c = Inr c' \<Longrightarrow> plain_step c c'"
| unpin: "unpin_element_from_top dimension name c = Inr c' \<Longrightarrow> plain_step c c'"
| leaf_cell: "in_i64 v \<Longrightarrow> set_leaf coord v c = Inr c' \<Longrightarrow> plain_step c c'"
| string_cell: "length (by_id (pool c)) < u32_max \<Longrightarrow> set_string coord s c = Inr c' \<Longrightarrow> plain_step c c'"
| compact: "compact_string_pool c = (n, c') \<Longrightarrow> plain_step c c'"

lemma plain_is_step: "plain_step c c' \<Longrightarrow> cube_step c c'"
  by (induction rule: plain_step.induct) (blast intro: cube_step.intros)+

lemma put_same_extends:
  assumes "dimension_index c dimension = Inr d" and "same_kinds (dims c ! d) d'"
  shows "extends (dims c) (dims (put_dim d d' c))"
  using same_kinds_put [OF conjunct1 [OF dim_index_bound [OF assms(1)]] assms(2)] by simp

lemma set_pinned_kinds: "set_pinned b i d = Inr d' \<Longrightarrow> same_kinds d d'"
  by (auto simp: set_pinned_def same_kinds_def dim_extends_def kind_at_def nth_list_update)

lemma plain_extends:
  assumes "plain_step c c'" and wf: "cube_wf c"
  shows "extends (dims c) (dims c')"
  using assms
proof (induction rule: plain_step.induct)
  case (extend elems c edges n c')
  then show ?case using extend_schema_wf by blast
next
  case (attr_def c dimension name kind c')
  from attr_def(2) obtain d where d: "dimension_index c dimension = Inr d" by (auto simp: define_attribute_def)
  then have "c' = c \<or> c' = put_dim d (snd (add_attribute name kind (dims c ! d))) c"
    using attr_def(2) by (auto simp: define_attribute_def Let_def put_dim_def split: option.splits if_splits)
  with put_same_extends [OF d add_attribute_kinds] show ?case by auto
next
  case (set_attrs dimension attribute vs c c')
  then obtain d d' where d: "dimension_index c dimension = Inr d"
    and v: "set_values dimension attribute vs (dims c ! d) = Inr d'" and c': "c' = put_dim d d' c"
    by (auto simp: set_attribute_values_def put_dim_def)
  have "dim_wf (dims c ! d)" using set_attrs(2) d by (auto dest: dim_index_bound intro: wf_nth)
  from put_same_extends [OF d] set_values_wf [OF this v] show ?case by (simp add: c')
next
  case (remove_child dimension parent child c c')
  then obtain d p ch d' where d: "dimension_index c dimension = Inr d"
    and r: "remove_child p ch (dims c ! d) = Inr d'" and c': "c' = put_dim d d' c"
    by (auto simp: remove_child_element_def Let_def)
  have "same_kinds (dims c ! d) d'" using r by (auto simp: remove_child_def same_kinds_def dim_extends_def kind_at_def)
  with put_same_extends [OF d] show ?case by (simp add: c')
next
  case (pin dimension name c c')
  then obtain d i b d' where d: "dimension_index c dimension = Inr d"
    and r: "set_pinned b i (dims c ! d) = Inr d'" and c': "c' = put_dim d d' c"
    by (auto simp: pin_element_to_top_def pin_to_top_def)
  from put_same_extends [OF d set_pinned_kinds [OF r]] show ?case by (simp add: c')
next
  case (unpin dimension name c c')
  then obtain d i b d' where d: "dimension_index c dimension = Inr d"
    and r: "set_pinned b i (dims c ! d) = Inr d'" and c': "c' = put_dim d d' c"
    by (auto simp: unpin_element_from_top_def unpin_from_top_def)
  from put_same_extends [OF d set_pinned_kinds [OF r]] show ?case by (simp add: c')
next
  case (leaf_cell v coord c c')
  from set_leaf_wf [OF leaf_cell(3,1,2)] show ?case by simp
next
  case (string_cell c coord s c')
  from set_string_wf [OF string_cell(3,1,2)] show ?case by simp
next
  case (compact c n c')
  from compact_pool_spec [OF compact(2,1)] show ?case by simp
qed

end
