(* ===== verification/Store_Replay.thy ===== *)
theory Store_Replay
  imports Store Model_Text_Model Sandbox_Facts
begin

text \<open>
  What the replay of a log does to a cube. Every record writes one observable key of the cube: a
  number, a text or a top-level pin. A replay therefore leaves at every key the last value the
  log writes there, does the same to cubes that read the same, and changes nothing on a cube that
  already holds those values, which is what makes a log beside a newer snapshot harmless.
\<close>

section \<open>Keys\<close>

datatype cell_key = NumAt coord | StrAt coord | PinAt nat nat
datatype cell_val = NumVal "fixed option" | StrVal "string option" | PinVal bool

fun read_key :: "cube \<Rightarrow> cell_key \<Rightarrow> cell_val" where
  "read_key c (NumAt k) = NumVal (num c k)"
| "read_key c (StrAt k) = StrVal (str c k)"
| "read_key c (PinAt x i) = PinVal (el_pinned (elements (dims c ! x) ! i))"

fun valid_key :: "dimension list \<Rightarrow> cell_key \<Rightarrow> bool" where
  "valid_key ds (NumAt k) = in_range ds k"
| "valid_key ds (StrAt k) = in_range ds k"
| "valid_key ds (PinAt x i) = (x < length ds \<and> i < length (elements (ds ! x)))"

definition pin_target :: "dimension list \<Rightarrow> string \<Rightarrow> string \<Rightarrow> (nat \<times> nat) option" where
  "pin_target ds d e =
     Option.bind (position (\<lambda>dim. dim_name dim = d) ds) (\<lambda>x. map_option (Pair x) (index_of (ds ! x) e))"

fun key_written :: "dimension list \<Rightarrow> wal_record \<Rightarrow> (cell_key \<times> cell_val) option" where
  "key_written ds (SetLeaf k v) = Some (NumAt k, NumVal (if v = 0 then None else Some v))"
| "key_written ds (SetString k s) = Some (StrAt k, StrVal (if s = [] then None else Some s))"
| "key_written ds (SetPin d e b) = map_option (\<lambda>(x, i). (PinAt x i, PinVal b)) (pin_target ds d e)"
| "key_written ds _ = None"

fun applicable :: "dimension list \<Rightarrow> wal_record \<Rightarrow> bool" where
  "applicable ds (SetLeaf k v) = (in_range ds k \<and> leaf_coord ds k \<and> in_i64 v)"
| "applicable ds (SetString k s) = (in_range ds k \<and> string_coord ds k)"
| "applicable ds (SetPin d e b) = (pin_target ds d e \<noteq> None)"
| "applicable ds _ = True"

definition last_write :: "dimension list \<Rightarrow> wal_record list \<Rightarrow> cell_key \<Rightarrow> cell_val option" where
  "last_write ds rs = map_of (rev (List.map_filter (key_written ds) rs))"

section \<open>Dimensions that differ in pins only\<close>

definition unpinned :: "dimension \<Rightarrow> dimension" where
  "unpinned d = d\<lparr>elements := map (\<lambda>e. e\<lparr>el_pinned := False\<rparr>) (elements d)\<rparr>"

definition same_shape :: "dimension list \<Rightarrow> dimension list \<Rightarrow> bool" where
  "same_shape ds ds' \<longleftrightarrow> length ds' = length ds \<and> (\<forall>x < length ds. same_dim (unpinned (ds ! x)) (unpinned (ds' ! x)))"

lemma same_shape_refl [simp]: "same_shape ds ds"
  by (simp add: same_shape_def)

lemma same_dim_trans: "same_dim a b \<Longrightarrow> same_dim b c \<Longrightarrow> same_dim a c"
  by (simp add: same_dim_def)

lemma same_dim_sym: "same_dim a b \<Longrightarrow> same_dim b a"
  by (simp add: same_dim_def)

lemma same_shape_trans: "same_shape a b \<Longrightarrow> same_shape b c \<Longrightarrow> same_shape a c"
  using same_dim_trans by (auto simp: same_shape_def)

lemma same_shape_sym: "same_shape a b \<Longrightarrow> same_shape b a"
  using same_dim_sym by (auto simp: same_shape_def)

lemma same_shape_elements:
  assumes "same_shape ds ds'" and "x < length ds"
  shows "length (elements (ds' ! x)) = length (elements (ds ! x))" "dim_name (ds' ! x) = dim_name (ds ! x)"
    "i < length (elements (ds ! x)) \<Longrightarrow> el_name (elements (ds' ! x) ! i) = el_name (elements (ds ! x) ! i)"
    "i < length (elements (ds ! x)) \<Longrightarrow> kind_at (ds' ! x) i = kind_at (ds ! x) i"
proof -
  from assms have eq: "map (\<lambda>e. e\<lparr>el_pinned := False\<rparr>) (elements (ds' ! x)) = map (\<lambda>e. e\<lparr>el_pinned := False\<rparr>) (elements (ds ! x))"
    "dim_name (ds' ! x) = dim_name (ds ! x)"
    by (simp_all add: same_shape_def same_dim_def unpinned_def)
  from map_eq_imp_length_eq [OF eq(1)] show len: "length (elements (ds' ! x)) = length (elements (ds ! x))" .
  show "dim_name (ds' ! x) = dim_name (ds ! x)" by (rule eq(2))
  show "el_name (elements (ds' ! x) ! i) = el_name (elements (ds ! x) ! i)"
    "kind_at (ds' ! x) i = kind_at (ds ! x) i" if i: "i < length (elements (ds ! x))"
  proof -
    have e: "(elements (ds' ! x) ! i)\<lparr>el_pinned := False\<rparr> = (elements (ds ! x) ! i)\<lparr>el_pinned := False\<rparr>"
      using arg_cong [OF eq(1), of "\<lambda>xs. xs ! i"] i len by simp
    show "el_name (elements (ds' ! x) ! i) = el_name (elements (ds ! x) ! i)"
      "kind_at (ds' ! x) i = kind_at (ds ! x) i"
      using arg_cong [OF e, of el_name] arg_cong [OF e, of el_kind] by (simp_all add: kind_at_def)
  qed
qed

lemma same_shape_coord:
  assumes "same_shape ds ds'"
  shows "in_range ds' k = in_range ds k" "in_range ds k \<Longrightarrow> leaf_coord ds' k = leaf_coord ds k"
    "in_range ds k \<Longrightarrow> string_coord ds' k = string_coord ds k"
proof -
  have len: "length ds' = length ds" using assms by (simp add: same_shape_def)
  note E = same_shape_elements [OF assms]
  show "in_range ds' k = in_range ds k" by (auto simp: in_range_nth len E(1))
  assume k: "in_range ds k"
  then have "kind_at (ds' ! x) (k ! x) = kind_at (ds ! x) (k ! x)" if "x < length ds" for x
    using E(4) [OF that] that by (simp add: in_range_nth)
  then show "leaf_coord ds' k = leaf_coord ds k" "string_coord ds' k = string_coord ds k"
    using k len by (auto simp: in_range_nth leaf_coord_nth string_coord_nth)
qed

lemma same_shape_target:
  assumes "same_shape ds ds'" and "list_all dim_wf ds" and "list_all dim_wf ds'"
  shows "pin_target ds' d e = pin_target ds d e"
proof -
  have len: "length ds' = length ds" using assms(1) by (simp add: same_shape_def)
  note E = same_shape_elements [OF assms(1)]
  have pos: "position (\<lambda>dim. dim_name dim = d) ds' = position (\<lambda>dim. dim_name dim = d) ds"
  proof -
    have names: "map dim_name ds' = map dim_name ds" by (rule nth_equalityI) (simp_all add: len E(2))
    have pe: "position (\<lambda>dim. dim_name dim = d) xs = position (\<lambda>n. n = d) (map dim_name xs)" for xs
      by (induction xs) simp_all
    show ?thesis unfolding pe [of ds'] pe [of ds] names ..
  qed
  have "index_of (ds' ! x) e = index_of (ds ! x) e" if "x < length ds" for x
  proof -
    have w: "dim_wf (ds ! x)" "dim_wf (ds' ! x)" using assms(2,3) that len by (simp_all add: list_all_length)
    have "index_of (ds' ! x) e = Some i \<longleftrightarrow> index_of (ds ! x) e = Some i" for i
      using index_of_Some [OF w(1), of e i] index_of_Some [OF w(2), of e i] E(1,3) [OF that] by auto
    then show ?thesis by (metis not_None_eq)
  qed
  then show ?thesis
    unfolding pin_target_def pos
    by (cases "position (\<lambda>dim. dim_name dim = d) ds") (auto dest: position_SomeD)
qed

lemma same_shape_keys:
  assumes "same_shape ds ds'" and "list_all dim_wf ds" and "list_all dim_wf ds'"
  shows "key_written ds' r = key_written ds r" "applicable ds' r = applicable ds r" "last_write ds' rs = last_write ds rs"
    "valid_key ds' key = valid_key ds key"
proof -
  note T = same_shape_target [OF assms] and C = same_shape_coord [OF assms(1)]
  show kw: "key_written ds' r = key_written ds r" for r by (cases r) (simp_all add: T)
  then have "key_written ds' = key_written ds" by (rule ext)
  then show "last_write ds' rs = last_write ds rs" by (simp add: last_write_def)
  show "applicable ds' r = applicable ds r" using C by (cases r) (auto simp: T)
  show "valid_key ds' key = valid_key ds key"
    using C same_shape_elements(1) [OF assms(1)] assms(1) by (cases key) (auto simp: same_shape_def)
qed

text \<open>Cubes that read the same, by their keys.\<close>

lemma same_cube_keys:
  "same_cube c c' \<longleftrightarrow> cube_name c' = cube_name c \<and> same_shape (dims c) (dims c') \<and>
     (\<forall>key. valid_key (dims c) key \<longrightarrow> read_key c' key = read_key c key)"
proof
  assume s: "same_cube c c'"
  then have n: "cube_name c' = cube_name c" "length (dims c') = length (dims c)"
    "\<forall>x < length (dims c). same_dim (dims c ! x) (dims c' ! x)"
    by (simp_all add: same_cube_def same_dims_nth)
  have "same_dim (unpinned a) (unpinned b)" if "same_dim a b" for a b
    using that by (simp add: same_dim_def unpinned_def)
  with n have "same_shape (dims c) (dims c')" by (simp add: same_shape_def)
  moreover have "read_key c' key = read_key c key" if "valid_key (dims c) key" for key
    using s n that by (cases key) (simp_all add: same_cube_def same_dim_def)
  ultimately show "cube_name c' = cube_name c \<and> same_shape (dims c) (dims c') \<and>
     (\<forall>key. valid_key (dims c) key \<longrightarrow> read_key c' key = read_key c key)" using n(1) by blast
next
  assume a: "cube_name c' = cube_name c \<and> same_shape (dims c) (dims c') \<and>
     (\<forall>key. valid_key (dims c) key \<longrightarrow> read_key c' key = read_key c key)"
  then have sh: "same_shape (dims c) (dims c')" and rd: "\<And>key. valid_key (dims c) key \<Longrightarrow> read_key c' key = read_key c key"
    by blast+
  have "same_dim (dims c ! x) (dims c' ! x)" if x: "x < length (dims c)" for x
  proof -
    note E = same_shape_elements [OF sh x]
    have "elements (dims c' ! x) = elements (dims c ! x)"
    proof (rule nth_equalityI)
      fix i assume "i < length (elements (dims c' ! x))"
      then have i: "i < length (elements (dims c ! x))" using E(1) by simp
      have "el_pinned (elements (dims c' ! x) ! i) = el_pinned (elements (dims c ! x) ! i)"
        using rd [of "PinAt x i"] x i by simp
      then show "elements (dims c' ! x) ! i = elements (dims c ! x) ! i"
        using E(3,4) [OF i] by (cases "elements (dims c' ! x) ! i"; cases "elements (dims c ! x) ! i") (simp add: kind_at_def)
    qed (rule E(1))
    then show ?thesis using sh x by (simp add: same_shape_def same_dim_def unpinned_def)
  qed
  moreover have "num c' k = num c k" "str c' k = str c k" if "in_range (dims c) k" for k
    using rd [of "NumAt k"] rd [of "StrAt k"] that by simp_all
  ultimately show "same_cube c c'" using a sh by (simp add: same_cube_def same_dims_nth same_shape_def)
qed

section \<open>One record\<close>

lemma pin_record:
  assumes wf: "cube_wf c" and tgt: "pin_target (dims c) d e = Some (x, i)"
    and c'_def: "c' = put_dim x ((dims c ! x)\<lparr>elements := (elements (dims c ! x))[i := (elements (dims c ! x) ! i)\<lparr>el_pinned := b\<rparr>]\<rparr>) c"
  shows "replay_record (SetPin d e b) c = Inr c'" "cube_wf c'" "same_shape (dims c) (dims c')"
    "valid_key (dims c) (PinAt x i)"
    "valid_key (dims c) key \<Longrightarrow> read_key c' key = (if key = PinAt x i then PinVal b else read_key c key)"
proof -
  let ?d' = "(dims c ! x)\<lparr>elements := (elements (dims c ! x))[i := (elements (dims c ! x) ! i)\<lparr>el_pinned := b\<rparr>]\<rparr>"
  have x: "position (\<lambda>dim. dim_name dim = d) (dims c) = Some x" "index_of (dims c ! x) e = Some i"
    using tgt by (auto simp: pin_target_def split: bind_split_asm)
  then have xl: "x < length (dims c)" by (auto dest: position_SomeD)
  note wd = wf_nth [OF wf xl]
  have i: "i < length (elements (dims c ! x))" using index_of_Some [OF wd, of e i] x(2) by simp
  show "valid_key (dims c) (PinAt x i)" using xl i by simp
  have di: "dimension_index c d = Inr x" using x(1) by (simp add: dimension_index_def)
  have sp: "set_pinned b i (dims c ! x) = Inr ?d'" using i by (simp add: set_pinned_def get_element_def)
  show r: "replay_record (SetPin d e b) c = Inr c'"
    using di x(2) sp by (cases b) (simp_all add: replay_record_def pin_element_to_top_def unpin_element_from_top_def
        element_of_def pin_to_top_def unpin_from_top_def c'_def)
  show "cube_wf c'" using pin_revalidates [OF wf di sp] by (simp add: c'_def revalidated_def)
  have ds: "dims c' = (dims c)[x := ?d']" by (simp add: c'_def)
  have "map (\<lambda>e. e\<lparr>el_pinned := False\<rparr>) (elements ?d') = map (\<lambda>e. e\<lparr>el_pinned := False\<rparr>) (elements (dims c ! x))"
    by (simp add: map_update) (metis i length_map list_update_id nth_map)
  then have sd: "same_dim (unpinned (dims c ! x)) (unpinned ?d')" by (simp add: same_dim_def unpinned_def)
  have "same_dim (unpinned (dims c ! y)) (unpinned (dims c' ! y))" if "y < length (dims c)" for y
    using sd that by (cases "y = x") (simp_all only: ds nth_list_update_eq nth_list_update_neq same_dim_refl)
  then show "same_shape (dims c) (dims c')" by (simp add: same_shape_def ds)
  have same: "num c' = num c" "str c' = str c"
    by (simp_all add: fun_eq_iff num_def str_def str_id_def c'_def put_dim_def)
  show "valid_key (dims c) key \<Longrightarrow> read_key c' key = (if key = PinAt x i then PinVal b else read_key c key)"
    using xl i by (cases key) (auto simp: same ds nth_list_update)
qed

lemma replay_record_spec:
  assumes wf: "cube_wf c" and ap: "applicable (dims c) r" and room: "length (by_id (pool c)) < u32_max"
  shows "\<exists>c'. replay_record r c = Inr c' \<and> cube_wf c' \<and> cube_name c' = cube_name c \<and> same_shape (dims c) (dims c') \<and>
    length (by_id (pool c')) \<le> Suc (length (by_id (pool c))) \<and>
    (\<forall>key. valid_key (dims c) key \<longrightarrow>
       read_key c' key = (case key_written (dims c) r of Some (k, v) \<Rightarrow> if key = k then v else read_key c key
                                                      | None \<Rightarrow> read_key c key))"
proof (cases r)
  case (SetLeaf k v)
  then have k: "in_range (dims c) k" "leaf_coord (dims c) k" "in_i64 v" using ap by simp_all
  obtain c' where c': "set_leaf k v c = Inr c'" "pool c' = pool c" using set_leaf_total [OF k(1,2)] by blast
  note W = set_leaf_wf [OF wf k(3) c'(1)]
  have "read_key c' key = (if key = NumAt k then NumVal (if v = 0 then None else Some v) else read_key c key)"
    if "valid_key (dims c) key" for key
    using that W by (cases key) auto
  with W c' SetLeaf show ?thesis by (auto simp: replay_record_def)
next
  case (SetString k v)
  then have k: "in_range (dims c) k" "string_coord (dims c) k" using ap by simp_all
  obtain c' where c': "set_string k v c = Inr c'" using set_string_total [OF k(1,2)] by blast
  note W = set_string_wf [OF wf room c']
  have "read_key c' key = (if key = StrAt k then StrVal (if v = [] then None else Some v) else read_key c key)"
    if "valid_key (dims c) key" for key
    using that W by (cases key) auto
  with W c' SetString show ?thesis by (auto simp: replay_record_def)
next
  case (SetPin d e b)
  then obtain x i where t: "pin_target (dims c) d e = Some (x, i)" using ap by auto
  note P = pin_record(1-3,5) [OF wf t refl, where b = b]
  have "cube_name (put_dim x dim c) = cube_name c" "pool (put_dim x dim c) = pool c" for dim
    by (simp_all add: put_dim_def)
  with P t show ?thesis unfolding SetPin by (auto split: option.split)
qed (use wf in \<open>auto simp: replay_record_def\<close>)

section \<open>A log\<close>

lemma last_write_Nil [simp]: "last_write ds [] key = None"
  by (simp add: last_write_def List.map_filter_def)

lemma last_write_Cons:
  "last_write ds (r # rs) key =
     (case last_write ds rs key of Some v \<Rightarrow> Some v
      | None \<Rightarrow> (case key_written ds r of Some (k, v) \<Rightarrow> if key = k then Some v else None | None \<Rightarrow> None))"
  by (cases "key_written ds r") (auto simp: last_write_def List.map_filter_def map_add_def split: option.splits)

lemma last_write_append:
  "last_write ds (rs @ rs') key = (case last_write ds rs' key of Some v \<Rightarrow> Some v | None \<Rightarrow> last_write ds rs key)"
  by (induction rs) (auto simp: last_write_Cons split: option.splits)

lemma replay_append_records:
  "replay_records (rs @ rs') c = bindE (replay_records rs c) (replay_records rs')"
proof (induction rs arbitrary: c)
  case (Cons r rs)
  then show ?case by (cases "replay_record r c") simp_all
qed simp

lemma replay_records_spec:
  assumes "cube_wf c" and "\<forall>r \<in> set rs. applicable (dims c) r" and "length (by_id (pool c)) + length rs \<le> u32_max"
  shows "\<exists>c'. replay_records rs c = Inr c' \<and> cube_wf c' \<and> cube_name c' = cube_name c \<and> same_shape (dims c) (dims c') \<and>
    length (by_id (pool c')) \<le> length rs + length (by_id (pool c)) \<and>
    (\<forall>key. valid_key (dims c) key \<longrightarrow>
       read_key c' key = (case last_write (dims c) rs key of Some v \<Rightarrow> v | None \<Rightarrow> read_key c key))"
  using assms
proof (induction rs arbitrary: c)
  case (Cons r rs)
  have ap: "applicable (dims c) r" and room: "length (by_id (pool c)) < u32_max" using Cons.prems by simp_all
  from replay_record_spec [OF Cons.prems(1) ap room] obtain c1 where
    c1: "replay_record r c = Inr c1" "cube_wf c1" "cube_name c1 = cube_name c" "same_shape (dims c) (dims c1)"
      "length (by_id (pool c1)) \<le> Suc (length (by_id (pool c)))"
      "\<And>key. valid_key (dims c) key \<Longrightarrow> read_key c1 key = (case key_written (dims c) r of Some (k, v) \<Rightarrow>
          if key = k then v else read_key c key | None \<Rightarrow> read_key c key)" by blast
  note S = same_shape_keys [OF c1(4) cube_wf_D(1) [OF Cons.prems(1)] cube_wf_D(1) [OF c1(2)]]
  have "\<forall>r \<in> set rs. applicable (dims c1) r" using Cons.prems(2) S(2) by simp
  moreover have "length (by_id (pool c1)) + length rs \<le> u32_max" using Cons.prems(3) c1(5) by simp
  ultimately obtain c2 where c2: "replay_records rs c1 = Inr c2" "cube_wf c2" "cube_name c2 = cube_name c1"
    "same_shape (dims c1) (dims c2)" "length (by_id (pool c2)) \<le> length rs + length (by_id (pool c1))"
    "\<And>key. valid_key (dims c1) key \<Longrightarrow>
       read_key c2 key = (case last_write (dims c1) rs key of Some v \<Rightarrow> v | None \<Rightarrow> read_key c1 key)"
    using Cons.IH [OF c1(2)] by blast
  have "read_key c2 key = (case last_write (dims c) (r # rs) key of Some v \<Rightarrow> v | None \<Rightarrow> read_key c key)"
    if "valid_key (dims c) key" for key
    using c2(6) [of key] c1(6) [OF that] that by (auto simp: S(3,4) last_write_Cons split: option.splits)
  moreover have "replay_records (r # rs) c = Inr c2" using c1(1) c2(1) by simp
  moreover have "same_shape (dims c) (dims c2)" by (rule same_shape_trans [OF c1(4) c2(4)])
  moreover have "cube_name c2 = cube_name c" "length (by_id (pool c2)) \<le> length (r # rs) + length (by_id (pool c))"
    using c1(3,5) c2(3,5) by simp_all
  ultimately show ?case using c2(2) by blast
qed simp

text \<open>Replays respect reading the same; a log whose last values a cube holds changes nothing.\<close>

lemma same_cube_dims: "same_cube c c' \<Longrightarrow> same_shape (dims c) (dims c')"
  by (simp add: same_cube_keys)

lemma replay_cong:
  assumes "cube_wf c" and "cube_wf c1" and same: "same_cube c c1" and "\<forall>r \<in> set rs. applicable (dims c) r"
    and "length (by_id (pool c)) + length rs \<le> u32_max" and "length (by_id (pool c1)) + length rs \<le> u32_max"
    and r: "replay_records rs c = Inr c'"
  shows "\<exists>c1'. replay_records rs c1 = Inr c1' \<and> cube_wf c1' \<and> same_cube c' c1' \<and>
    length (by_id (pool c1')) \<le> length rs + length (by_id (pool c1))"
proof -
  note sh = same_cube_dims [OF same]
  note S = same_shape_keys [OF sh cube_wf_D(1) [OF assms(1)] cube_wf_D(1) [OF assms(2)]]
  from replay_records_spec [OF assms(1,4,5)] r have c': "cube_wf c'" "cube_name c' = cube_name c" "same_shape (dims c) (dims c')"
    "\<And>key. valid_key (dims c) key \<Longrightarrow> read_key c' key = (case last_write (dims c) rs key of Some v \<Rightarrow> v | None \<Rightarrow> read_key c key)"
    by auto
  have "\<forall>r \<in> set rs. applicable (dims c1) r" using assms(4) S(2) by simp
  from replay_records_spec [OF assms(2) this assms(6)] obtain c1' where c1': "replay_records rs c1 = Inr c1'" "cube_wf c1'"
    "cube_name c1' = cube_name c1" "same_shape (dims c1) (dims c1')" "length (by_id (pool c1')) \<le> length rs + length (by_id (pool c1))"
    "\<And>key. valid_key (dims c1) key \<Longrightarrow> read_key c1' key = (case last_write (dims c1) rs key of Some v \<Rightarrow> v | None \<Rightarrow> read_key c1 key)"
    by blast
  note S' = same_shape_keys [OF c'(3) cube_wf_D(1) [OF assms(1)] cube_wf_D(1) [OF c'(1)]]
  have "same_shape (dims c') (dims c1')" using same_shape_trans same_shape_sym c'(3) sh c1'(4) by blast
  moreover have "read_key c1' key = read_key c' key" if "valid_key (dims c') key" for key
    using c1'(6) [of key] c'(4) [of key] that same by (simp add: S S' same_cube_keys split: option.split)
  moreover have "cube_name c1' = cube_name c'" using same c1'(3) c'(2) by (simp add: same_cube_keys)
  ultimately have "same_cube c' c1'" by (simp add: same_cube_keys)
  with c1' show ?thesis by blast
qed

definition reflects :: "wal_record list \<Rightarrow> cube \<Rightarrow> bool" where
  "reflects rs c \<longleftrightarrow> (\<forall>r \<in> set rs. applicable (dims c) r) \<and>
     (\<forall>key v. valid_key (dims c) key \<longrightarrow> last_write (dims c) rs key = Some v \<longrightarrow> read_key c key = v)"

lemma replay_reflects:
  assumes "cube_wf c" and "\<forall>r \<in> set rs. applicable (dims c) r" and "length (by_id (pool c)) + length rs \<le> u32_max"
    and "replay_records rs c = Inr c'"
  shows "reflects rs c'" "cube_wf c'"
proof -
  from replay_records_spec [OF assms(1-3)] assms(4) have c': "cube_wf c'" "same_shape (dims c) (dims c')"
    "\<And>key. valid_key (dims c) key \<Longrightarrow> read_key c' key = (case last_write (dims c) rs key of Some v \<Rightarrow> v | None \<Rightarrow> read_key c key)"
    by auto
  note S = same_shape_keys [OF c'(2) cube_wf_D(1) [OF assms(1)] cube_wf_D(1) [OF c'(1)]]
  show "reflects rs c'" using assms(2) c'(3) by (auto simp: reflects_def S)
  show "cube_wf c'" by (rule c'(1))
qed

lemma reflects_same:
  assumes "reflects rs c" and "same_cube c c'" and "cube_wf c" and "cube_wf c'"
  shows "reflects rs c'"
proof -
  note S = same_shape_keys [OF same_cube_dims [OF assms(2)] cube_wf_D(1) [OF assms(3)] cube_wf_D(1) [OF assms(4)]]
  show ?thesis using assms(1,2) by (auto simp: reflects_def S same_cube_keys)
qed

lemma reflected_replay:
  assumes "cube_wf c" and rf: "reflects rs c" and "length (by_id (pool c)) + length rs \<le> u32_max"
  shows "\<exists>c'. replay_records rs c = Inr c' \<and> cube_wf c' \<and> same_cube c c' \<and> length (by_id (pool c')) \<le> length rs + length (by_id (pool c))"
proof -
  have ap: "\<forall>r \<in> set rs. applicable (dims c) r" using rf by (simp add: reflects_def)
  from replay_records_spec [OF assms(1) ap assms(3)] obtain c' where c': "replay_records rs c = Inr c'" "cube_wf c'"
    "cube_name c' = cube_name c" "same_shape (dims c) (dims c')" "length (by_id (pool c')) \<le> length rs + length (by_id (pool c))"
    "\<And>key. valid_key (dims c) key \<Longrightarrow> read_key c' key = (case last_write (dims c) rs key of Some v \<Rightarrow> v | None \<Rightarrow> read_key c key)"
    by blast
  have "read_key c' key = read_key c key" if "valid_key (dims c) key" for key
    using c'(6) [OF that] rf that by (auto simp: reflects_def split: option.split)
  then have "same_cube c c'" using c' by (simp add: same_cube_keys)
  with c' show ?thesis by blast
qed

lemma same_cube_refl [simp]: "same_cube c c"
  by (simp add: same_cube_keys)

lemma same_cube_trans: "same_cube a b \<Longrightarrow> same_cube b c \<Longrightarrow> same_cube a c"
  unfolding same_cube_def using same_dims_coord(1)
  by (auto simp: same_dims_nth intro: same_dim_trans)

lemma same_cube_sym: "same_cube a b \<Longrightarrow> same_cube b a"
  unfolding same_cube_def using same_dims_coord(1)
  by (auto simp: same_dims_nth intro: same_dim_sym)

end
