(* ===== verification/Store_Growth.thy ===== *)
theory Store_Growth
  imports Store_Replay
begin

text \<open>
  The edits the store stages without clearing the log first: growth of the schema, attributes and
  the removal of an edge. They keep every element at its index with its name, kind and pin, and
  every stored cell, so the records of the log still apply and the cube still holds the values
  they wrote.
\<close>

definition grown_dim :: "dimension \<Rightarrow> dimension \<Rightarrow> bool" where
  "grown_dim d d' \<longleftrightarrow> dim_name d' = dim_name d \<and> (\<exists>els. elements d' = elements d @ els)"

definition grown :: "dimension list \<Rightarrow> dimension list \<Rightarrow> bool" where
  "grown ds ds' \<longleftrightarrow> length ds' = length ds \<and> (\<forall>x < length ds. grown_dim (ds ! x) (ds' ! x))"

definition kept :: "cube \<Rightarrow> cube \<Rightarrow> bool" where
  "kept c c' \<longleftrightarrow> grown (dims c) (dims c') \<and>
     (\<forall>k. in_range (dims c) k \<longrightarrow> num c' k = num c k \<and> str c' k = str c k)"

lemma grown_refl [simp]: "grown ds ds" "grown_dim d d"
  by (simp_all add: grown_def grown_dim_def)

lemma grown_dim_trans: "grown_dim a b \<Longrightarrow> grown_dim b c \<Longrightarrow> grown_dim a c"
  by (auto simp: grown_dim_def)

lemma grown_trans: "grown a b \<Longrightarrow> grown b c \<Longrightarrow> grown a c"
  using grown_dim_trans by (auto simp: grown_def)

lemma grown_update: "x < length ds \<Longrightarrow> grown_dim (ds ! x) d' \<Longrightarrow> grown ds (ds[x := d'])"
  by (auto simp: grown_def nth_list_update)

section \<open>The log still applies\<close>

lemma grown_target:
  assumes g: "grown ds ds'" and w: "list_all dim_wf ds" "list_all dim_wf ds'" and t: "pin_target ds d e = Some (x, i)"
  shows "pin_target ds' d e = Some (x, i)"
proof -
  have len: "length ds' = length ds" and each: "\<And>x. x < length ds \<Longrightarrow> grown_dim (ds ! x) (ds' ! x)"
    using g by (simp_all add: grown_def)
  have names: "map dim_name ds' = map dim_name ds"
    by (rule nth_equalityI) (use len each in \<open>simp_all add: grown_dim_def\<close>)
  have pe: "position (\<lambda>dim. dim_name dim = d) xs = position (\<lambda>n. n = d) (map dim_name xs)" for xs
    by (induction xs) simp_all
  have x: "position (\<lambda>dim. dim_name dim = d) ds = Some x" "index_of (ds ! x) e = Some i"
    using t by (auto simp: pin_target_def split: bind_split_asm)
  then have xl: "x < length ds" by (auto dest: position_SomeD)
  have wd: "dim_wf (ds ! x)" "dim_wf (ds' ! x)" using w xl len by (simp_all add: list_all_length)
  obtain els where els: "elements (ds' ! x) = elements (ds ! x) @ els" using each [OF xl] by (auto simp: grown_dim_def)
  have "index_of (ds' ! x) e = Some i"
    using x(2) index_of_Some [OF wd(1), of e i] index_of_Some [OF wd(2), of e i] by (auto simp: els nth_append)
  moreover have "position (\<lambda>dim. dim_name dim = d) ds' = Some x" using x(1) unfolding pe names .
  ultimately show ?thesis by (simp add: pin_target_def)
qed

lemma grown_extends: "grown ds ds' \<Longrightarrow> extends ds ds'"
  by (auto simp: grown_def grown_dim_def extends_def list_all2_conv_all_nth dim_extends_def kind_at_def nth_append)

lemma grown_record:
  assumes g: "grown ds ds'" and w: "list_all dim_wf ds" "list_all dim_wf ds'" and ap: "applicable ds r"
  shows "applicable ds' r" "key_written ds' r = key_written ds r"
proof -
  note C = extends_coord [OF grown_extends [OF g]]
  show "applicable ds' r"
    using ap C grown_target [OF g w] by (cases r) auto
  show "key_written ds' r = key_written ds r"
    using ap grown_target [OF g w] by (cases r) auto
qed

lemma written_valid:
  assumes "list_all dim_wf ds" and "applicable ds r" and "key_written ds r = Some (key, v)"
  shows "valid_key ds key"
proof (cases r)
  case (SetPin d e b)
  then obtain x i where t: "pin_target ds d e = Some (x, i)" "key = PinAt x i" using assms by auto
  then have "position (\<lambda>dim. dim_name dim = d) ds = Some x" "index_of (ds ! x) e = Some i"
    by (auto simp: pin_target_def split: bind_split_asm)
  moreover from this have "x < length ds" by (auto dest: position_SomeD)
  ultimately show ?thesis using assms(1) index_of_Some [of "ds ! x" e i] by (simp add: t(2) list_all_length)
qed (use assms in auto)

lemma last_write_cong:
  assumes "\<forall>r \<in> set rs. key_written ds' r = key_written ds r"
  shows "last_write ds' rs = last_write ds rs"
proof -
  have "List.map_filter (key_written ds') rs = List.map_filter (key_written ds) rs"
    using assms by (induction rs) (auto simp: List.map_filter_def)
  then show ?thesis by (simp add: last_write_def)
qed

lemma last_write_valid:
  assumes "list_all dim_wf ds" and "\<forall>r \<in> set rs. applicable ds r" and "last_write ds rs key = Some v"
  shows "valid_key ds key"
  using assms(2,3)
proof (induction rs)
  case (Cons r rs)
  then show ?case
    using written_valid [OF assms(1), of r key v]
    by (auto simp: last_write_Cons split: option.splits if_splits)
qed simp

lemma kept_reflects:
  assumes "reflects rs c" and k: "kept c c'" and "cube_wf c" and "cube_wf c'"
  shows "reflects rs c'"
proof -
  have g: "grown (dims c) (dims c')" using k by (simp add: kept_def)
  note w = cube_wf_D(1) [OF assms(3)] cube_wf_D(1) [OF assms(4)]
  have ap: "\<forall>r \<in> set rs. applicable (dims c) r" using assms(1) by (simp add: reflects_def)
  have lw: "last_write (dims c') rs = last_write (dims c) rs"
    by (rule last_write_cong) (use ap grown_record(2) [OF g w] in blast)
  have "read_key c' key = v" if "last_write (dims c) rs key = Some v" for key v
  proof -
    have vk: "valid_key (dims c) key" by (rule last_write_valid [OF w(1) ap that])
    then have "read_key c key = v" using assms(1) that by (simp add: reflects_def)
    moreover have "read_key c' key = read_key c key"
      using vk k by (cases key) (auto simp: kept_def grown_def grown_dim_def nth_append)
    ultimately show ?thesis by simp
  qed
  then show ?thesis using ap grown_record(1) [OF g w] by (auto simp: reflects_def lw)
qed

section \<open>The staged edits keep the cube\<close>

lemma add_element_grown: "grown_dim d (snd (add_element n k d))"
  by (auto simp: add_element_def grown_dim_def Let_def split: option.split)

lemma grow_elements_grown: "grow_elements cname ds n specs = Inr (m, ds') \<Longrightarrow> grown ds ds'"
proof (induction specs arbitrary: ds n)
  case (Cons spec specs)
  obtain d where d: "find_dim cname ds (es_dimension spec) = Inr d" using Cons.prems by auto
  show ?case
  proof (cases "index_of (ds ! d) (es_name spec)")
    case (Some i)
    then have "grow_elements cname ds n specs = Inr (m, ds')"
      using Cons.prems d by (auto simp: Let_def split: if_splits)
    then show ?thesis by (rule Cons.IH)
  next
    case None
    then have "grow_elements cname (ds[d := snd (add_element (es_name spec) (es_kind spec) (ds ! d))]) (n + 1) specs = Inr (m, ds')"
      using Cons.prems d by (simp add: Let_def add_kind)
    from Cons.IH [OF this] show ?thesis
      using grown_trans [OF grown_update [OF find_dim_bound [OF d] add_element_grown]] by blast
  qed
qed simp

lemma add_child_grown: "add_child p ch w d = Inr d' \<Longrightarrow> grown_dim d d'"
  by (auto simp: add_child_def Let_def grown_dim_def push_edge_def split: if_splits)

lemma grow_edges_grown: "grow_edges cname ds es = Inr ds' \<Longrightarrow> grown ds ds'"
proof (induction es arbitrary: ds)
  case (Cons e es)
  obtain d where d: "find_dim cname ds (gs_dimension e) = Inr d" using Cons.prems by auto
  obtain p where p: "index_of (ds ! d) (gs_parent e) = Some p" using Cons.prems d by (auto simp: Let_def)
  obtain ch where ch: "index_of (ds ! d) (gs_child e) = Some ch" using Cons.prems d p by (auto simp: Let_def)
  obtain cur where cur: "child_weight (ds ! d) p ch = Inr cur" using Cons.prems d p ch by (auto simp: Let_def)
  show ?case
  proof (cases cur)
    case None
    then obtain dim' where a: "add_child p ch (gs_weight e) (ds ! d) = Inr dim'" "grow_edges cname (ds[d := dim']) es = Inr ds'"
      using Cons.prems d p ch cur by (auto simp: Let_def)
    from Cons.IH [OF a(2)] show ?thesis
      using grown_trans [OF grown_update [OF find_dim_bound [OF d] add_child_grown [OF a(1)]]] by blast
  next
    case (Some w)
    then have "grow_edges cname ds es = Inr ds'" using Cons.prems d p ch cur by (auto simp: Let_def split: if_splits)
    then show ?thesis by (rule Cons.IH)
  qed
qed simp

lemma moved_Some_reads:
  assumes "moved Some Some c c'" and "in_range (dims c) k" and "in_range (dims c') k"
  shows "num c' k = num c k" "str c' k = str c k"
proof -
  have p: "pool c' = pool c" using assms(1) by (simp add: moved_def)
  have "num c' k = Some v \<longleftrightarrow> num c k = Some v" for v using assms by (simp add: moved_def)
  then show "num c' k = num c k" by (metis not_None_eq)
  have "str_id c' k = Some v \<longleftrightarrow> str_id c k = Some v" for v using assms by (simp add: moved_def)
  then have "str_id c' k = str_id c k" by (metis not_None_eq)
  then show "str c' k = str c k" by (simp add: str_def p)
qed

lemma extend_schema_kept:
  assumes "cube_wf c" and "room (length elems) (dims c)" and "\<forall>e \<in> set edges. in_i64 (gs_weight e)"
    and e: "extend_schema elems edges c = Inr (n, c')"
  shows "kept c c'"
proof -
  note X = extend_schema_wf [OF assms]
  obtain ds1 ds2 where g: "grow_elements (cube_name c) (dims c) 0 elems = Inr (n, ds1)"
    "grow_edges (cube_name c) ds1 edges = Inr ds2" and c': "c' = relayout (c\<lparr>dims := ds2\<rparr>)"
    using e by (auto simp: extend_schema_def apply_growth_def)
  have gr: "grown (dims c) ds2"
    using grown_trans [OF grow_elements_grown [OF g(1)] grow_edges_grown [OF g(2)]] .
  have "dims c' = ds2" by (simp add: c' relayout_def Let_def)
  moreover have "num c' k = num c k \<and> str c' k = str c k" if "in_range (dims c) k" for k
    using moved_Some_reads [of c c' k] X that extends_coord(1) [of "dims c" "dims c'" k] by blast
  ultimately show ?thesis using gr by (simp add: kept_def)
qed

lemma put_dim_kept:
  assumes "d < length (dims c)" and "grown_dim (dims c ! d) d'"
  shows "kept c (put_dim d d' c)"
proof -
  have "num (put_dim d d' c) = num c" "str (put_dim d d' c) = str c"
    by (simp_all add: fun_eq_iff num_def str_def str_id_def put_dim_def)
  then show ?thesis using grown_update [OF assms] by (simp add: kept_def)
qed

lemma set_attribute_grown: "set_attribute e a v d = Inr d' \<Longrightarrow> grown_dim d d'"
  by (auto simp: set_attribute_def grown_dim_def put_attr_def Let_def
      split: if_splits attribute_kind.splits attribute_value.splits option.splits)

lemma set_values_grown: "set_values dimension attribute vs d = Inr d' \<Longrightarrow> grown_dim d d'"
proof (induction vs arbitrary: d)
  case (Cons nv vs)
  then obtain e d1 where "set_attribute e attribute (snd nv) d = Inr d1" "set_values dimension attribute vs d1 = Inr d'"
    by (cases nv) auto
  with Cons.IH set_attribute_grown grown_dim_trans show ?case by blast
qed simp

lemma define_attribute_kept:
  assumes "define_attribute dimension name kind c = Inr c'"
  shows "kept c c'"
proof -
  obtain d where d: "dimension_index c dimension = Inr d" using assms by (auto simp: define_attribute_def)
  then have dl: "d < length (dims c)" using dim_index_bound by blast
  have "c' = c \<or> c' = put_dim d (snd (add_attribute name kind (dims c ! d))) c"
    using assms d by (auto simp: define_attribute_def Let_def put_dim_def split: option.splits if_splits)
  moreover have "grown_dim (dims c ! d) (snd (add_attribute name kind (dims c ! d)))"
    by (auto simp: add_attribute_def grown_dim_def Let_def split: option.split)
  ultimately show ?thesis using put_dim_kept [OF dl] by (auto simp: kept_def)
qed

lemma set_attribute_values_kept:
  assumes "set_attribute_values dimension attribute vs c = Inr c'"
  shows "kept c c'"
proof -
  obtain d d' where d: "dimension_index c dimension = Inr d"
    and v: "set_values dimension attribute vs (dims c ! d) = Inr d'" and c': "c' = put_dim d d' c"
    using assms by (auto simp: set_attribute_values_def put_dim_def)
  show ?thesis unfolding c' using dim_index_bound [OF d] by (intro put_dim_kept set_values_grown [OF v]) blast
qed

lemma remove_child_kept:
  assumes "remove_child_element dimension parent child c = Inr c'"
  shows "kept c c'"
proof -
  obtain d p ch d' where d: "dimension_index c dimension = Inr d"
    and r: "remove_child p ch (dims c ! d) = Inr d'" and c': "c' = put_dim d d' c"
    using assms by (auto simp: remove_child_element_def Let_def)
  have "grown_dim (dims c ! d) d'" using r by (auto simp: remove_child_def grown_dim_def)
  then show ?thesis unfolding c' using dim_index_bound [OF d] by (intro put_dim_kept) blast
qed

end
