(* ===== verification/Store_Recovery.thy ===== *)
theory Store_Recovery
  imports Store_Growth
begin

text \<open>
  What a directory is worth after the process stops: opening it. \<open>recovers t d m\<close> says that the
  open succeeds on the disk \<open>d\<close>, gives a model that reads the same as \<open>m\<close> and leaves a good
  store. \<open>ensures P f Q E\<close> is the triple of an action: from \<open>P\<close> it either returns in \<open>Q\<close> or,
  whatever call failed or was cut, ends in the crash condition \<open>E\<close>.
\<close>

section \<open>Triples with a crash condition\<close>

definition ensures :: "('w \<Rightarrow> bool) \<Rightarrow> ('w \<Rightarrow> 'a io \<times> 'w) \<Rightarrow> ('a \<Rightarrow> 'w \<Rightarrow> bool) \<Rightarrow> ('w \<Rightarrow> bool) \<Rightarrow> bool" where
  "ensures P f Q E \<longleftrightarrow> (\<forall>w. P w \<longrightarrow> (case f w of (Ok x, w') \<Rightarrow> Q x w' | (Err _, w') \<Rightarrow> E w' | (Stopped, w') \<Rightarrow> E w'))"

lemma ensuresD:
  assumes "ensures P f Q E" and "P w" and "f w = (r, w')"
  shows "case r of Ok x \<Rightarrow> Q x w' | _ \<Rightarrow> E w'"
  using assms by (cases r) (auto simp: ensures_def)

lemma ensuresI:
  "(\<And>w r w'. P w \<Longrightarrow> f w = (r, w') \<Longrightarrow> (case r of Ok x \<Rightarrow> Q x w' | Err e \<Rightarrow> E w' | Stopped \<Rightarrow> E w')) \<Longrightarrow> ensures P f Q E"
  unfolding ensures_def by (metis (no_types, lifting) prod.case_eq_if prod.collapse)

lemma ensures_bind:
  assumes "ensures P f R E" and "\<And>x. ensures (R x) (g x) Q E"
  shows "ensures P (bindA f g) Q E"
  unfolding ensures_def
proof (intro allI impI)
  fix w assume "P w"
  obtain r w' where f: "f w = (r, w')" by force
  from ensuresD [OF assms(1) \<open>P w\<close> f] have r: "case r of Ok x \<Rightarrow> R x w' | _ \<Rightarrow> E w'" .
  show "case bindA f g w of (Ok x, w') \<Rightarrow> Q x w' | (Err e, w') \<Rightarrow> E w' | (Stopped, w') \<Rightarrow> E w'"
  proof (cases r)
    case (Ok x)
    then have "R x w'" using r by simp
    with assms(2) [of x] show ?thesis by (simp add: bindA_def f Ok ensures_def)
  qed (use r in \<open>simp_all add: bindA_def f\<close>)
qed

lemma ensures_conseq:
  assumes "ensures P f Q E" and "\<And>w. P' w \<Longrightarrow> P w" and "\<And>x w. Q x w \<Longrightarrow> Q' x w" and "\<And>w. E w \<Longrightarrow> E' w"
  shows "ensures P' f Q' E'"
proof (rule ensuresI)
  fix w r w' assume "P' w" "f w = (r, w')"
  from ensuresD [OF assms(1) assms(2) [OF this(1)] this(2)]
  show "case r of Ok x \<Rightarrow> Q' x w' | Err e \<Rightarrow> E' w' | Stopped \<Rightarrow> E' w'"
    using assms(3,4) by (cases r) auto
qed

lemma ensures_return: "(\<And>w. P w \<Longrightarrow> Q x w) \<Longrightarrow> ensures P (returnA x) Q E"
  by (simp add: ensures_def returnA_def)

lemma ensures_raise: "(\<And>w. P w \<Longrightarrow> E w) \<Longrightarrow> ensures P (raiseA e) Q E"
  by (simp add: ensures_def raiseA_def)

lemma ensures_lift:
  "(\<And>x w. r = Inr x \<Longrightarrow> P w \<Longrightarrow> Q x w) \<Longrightarrow> (\<And>e w. r = Inl e \<Longrightarrow> P w \<Longrightarrow> E w) \<Longrightarrow> ensures P (liftE r) Q E"
  by (cases r) (simp_all add: liftE_def ensures_return ensures_raise)

lemma ensures_atomic:
  assumes "\<And>w rest. P w \<Longrightarrow> Q () \<lparr>disk = f (disk w), script = rest\<rparr>"
    and "\<And>w rest. P w \<Longrightarrow> E \<lparr>disk = disk w, script = rest\<rparr> \<and> E \<lparr>disk = f (disk w), script = rest\<rparr>"
  shows "ensures P (atomic_call f) Q E"
proof (rule ensuresI)
  fix w r w' assume P: "P w" and c: "atomic_call f w = (r, w')"
  note A = assms(1) [OF P] and B = assms(2) [OF P]
  show "case r of Ok x \<Rightarrow> Q x w' | Err e \<Rightarrow> E w' | Stopped \<Rightarrow> E w'"
  proof (cases "script w")
    case Nil
    have "w\<lparr>disk := d\<rparr> = \<lparr>disk = d, script = script w\<rparr>" for d by (cases w) simp
    with Nil c A [of "[]"] show ?thesis by (auto simp: atomic_call_def call_def)
  next
    case (Cons oc rest)
    with c A B show ?thesis by (cases oc) (auto simp: atomic_call_def call_def)
  qed
qed

lemma ensures_no_effect:
  assumes "\<And>w rest. P w \<Longrightarrow> Q () \<lparr>disk = disk w, script = rest\<rparr>" and "\<And>w rest. P w \<Longrightarrow> E \<lparr>disk = disk w, script = rest\<rparr>"
  shows "ensures P no_effect Q E"
  unfolding no_effect_def using assms by (intro ensures_atomic) auto

lemma ensures_wal_write:
  assumes "\<And>w rest. P w \<Longrightarrow> Q () \<lparr>disk = (disk w)\<lparr>wal_file := map_option (write_at pos data) (wal_file (disk w))\<rparr>, script = rest\<rparr>"
    and "\<And>w n rest. P w \<Longrightarrow> E \<lparr>disk = (disk w)\<lparr>wal_file := map_option (write_at pos (take n data)) (wal_file (disk w))\<rparr>, script = rest\<rparr>"
  shows "ensures P (wal_write pos data) Q E"
proof (rule ensuresI)
  fix w r w' assume P: "P w" and c: "wal_write pos data w = (r, w')"
  note A = assms(1) [OF P] and B = assms(2) [OF P]
  show "case r of Ok x \<Rightarrow> Q x w' | Err e \<Rightarrow> E w' | Stopped \<Rightarrow> E w'"
  proof (cases "script w")
    case Nil
    have "w\<lparr>disk := d\<rparr> = \<lparr>disk = d, script = script w\<rparr>" for d by (cases w) simp
    with Nil c A [of "[]"] show ?thesis by (auto simp: wal_write_def call_def)
  next
    case (Cons oc rest)
    with c A B show ?thesis by (cases oc) (auto simp: wal_write_def call_def)
  qed
qed

text \<open>The actions of the whole system.\<close>

lemma ensures_on_world:
  assumes "\<And>s. ensures (\<lambda>w. P (s, w)) f (\<lambda>x w. Q x (s, w)) (\<lambda>w. E (s, w))"
  shows "ensures P (on_world f) Q E"
proof (rule ensuresI)
  fix x :: sys and r x' assume P: "P x" and f: "on_world f x = (r, x')"
  obtain s w w' where x: "x = (s, w)" "f w = (r, w')" "x' = (s, w')"
    using f by (cases x) (auto simp: on_world_def split: prod.splits)
  from ensuresD [OF assms _ x(2), of s] P show "case r of Ok y \<Rightarrow> Q y x' | Err e \<Rightarrow> E x' | Stopped \<Rightarrow> E x'"
    by (cases r) (simp_all add: x)
qed

lemma ensures_on_store: "(\<And>s w. P (s, w) \<Longrightarrow> Q () (f s, w)) \<Longrightarrow> ensures P (on_store f) Q E"
  by (auto simp: ensures_def on_store_def)

lemma ensures_seek:
  assumes "\<And>s w rest. P (s, w) \<Longrightarrow> Q () (s\<lparr>cursor := pos\<rparr>, \<lparr>disk = disk w, script = rest\<rparr>)"
    and "\<And>s w rest. P (s, w) \<Longrightarrow> E (s, \<lparr>disk = disk w, script = rest\<rparr>)"
  shows "ensures P (seek_to pos) Q E"
  unfolding seek_to_def
proof (rule ensures_bind)
  show "ensures P (on_world no_effect) (\<lambda>_ (s, w). Q () (s\<lparr>cursor := pos\<rparr>, w)) E"
    by (rule ensures_on_world, rule ensures_no_effect) (use assms in auto)
  show "ensures (\<lambda>(s, w). Q () (s\<lparr>cursor := pos\<rparr>, w)) (on_store (\<lambda>s. s\<lparr>cursor := pos\<rparr>)) Q E"
    by (rule ensures_on_store) simp
qed

section \<open>Good stores and recovery\<close>

definition records_of :: "append list \<Rightarrow> wal_record list" where
  "records_of us = concat (map append_records us)"

text \<open>The disk holds \<open>m\<close>: a snapshot and a log whose replay over it reads the same as \<open>m\<close>. \<open>cap\<close>
  bounds the records of the log and leaves the string pool room for them.\<close>

definition logged :: "toml \<Rightarrow> nat \<Rightarrow> disk \<Rightarrow> model \<Rightarrow> append list \<Rightarrow> bool" where
  "logged t cap d m us \<longleftrightarrow> wal_file d = Some (log_bytes us) \<and> (\<forall>u \<in> set us. append_ok u) \<and>
     length (records_of us) \<le> cap \<and>
     (\<exists>m0 c. get_snapshot t d = Inr m0 \<and> model_wf m0 \<and> (\<forall>r \<in> set (records_of us). applicable (dims (the_cube m0)) r) \<and>
        length (by_id (pool (the_cube m0))) + cap \<le> u32_max \<and>
        replay_records (records_of us) (the_cube m0) = Inr c \<and> same_model m (m0\<lparr>the_cube := c\<rparr>))"

definition ready :: "store \<Rightarrow> append list \<Rightarrow> bool" where
  "ready s us \<longleftrightarrow> \<not> poisoned s \<and> cursor s = length (log_bytes us) \<and> known_good s = length (log_bytes us)"

definition durable :: "toml \<Rightarrow> nat \<Rightarrow> store \<Rightarrow> disk \<Rightarrow> append list \<Rightarrow> bool" where
  "durable t cap s d us \<longleftrightarrow> ready s us \<and> logged t cap d (held s) us"

definition recovers :: "toml \<Rightarrow> nat \<Rightarrow> disk \<Rightarrow> model \<Rightarrow> bool" where
  "recovers t cap d m \<longleftrightarrow>
     (\<exists>s w us. open_store t \<lparr>disk = d, script = []\<rparr> = (Ok s, w) \<and> same_model m (held s) \<and> durable t cap s (disk w) us)"

lemma same_model_refl [simp]: "same_model m m"
  by (simp add: same_model_def same_rules_def)

lemma same_model_trans: "same_model a b \<Longrightarrow> same_model b c \<Longrightarrow> same_model a c"
  unfolding same_model_def same_rules_def using same_cube_trans by auto

lemma same_model_sym: "same_model a b \<Longrightarrow> same_model b a"
  unfolding same_model_def same_rules_def using same_cube_sym by auto

lemma recovers_same: "recovers t cap d m \<Longrightarrow> same_model m' m \<Longrightarrow> recovers t cap d m'"
  unfolding recovers_def using same_model_trans by blast

text \<open>A log with a torn tail of one more append.\<close>

lemma replay_torn_log:
  assumes us: "\<forall>u \<in> set us. append_ok u"
    and torn: "torn = [] \<or> append_ok u \<and> strict_prefix torn (append_bytes u)"
  shows "\<exists>mid. replay (log_bytes us @ torn) =
      Inr \<lparr>rp_records = records_of us, good_len = length (log_bytes us), corrupt_with_valid_tail = mid\<rparr> \<and>
    (mid \<longrightarrow> torn \<noteq> [] \<and> \<not> clean_append u)"
proof -
  have "\<exists>stop. replay_loop torn (length (log_bytes us)) (length (log_bytes us)) (records_of us) None =
      (records_of us, length (log_bytes us), stop) \<and>
      ((case stop of None \<Rightarrow> False | Some bs \<Rightarrow> has_intact_frame_after bs) \<longrightarrow> torn \<noteq> [] \<and> \<not> clean_append u)"
  proof (cases "torn = []")
    case True
    then show ?thesis by (simp add: replay_loop.simps)
  next
    case False
    with torn obtain stop where st: "replay_loop torn (length (log_bytes us)) (length (log_bytes us)) (records_of us) None =
        (records_of us, length (log_bytes us), stop)"
      "stop = None \<or> (\<exists>tear. \<exists>r \<in> set (append_frames u). stop = Some tear \<and> strict_prefix tear (encode r))"
      using replay_torn_append by blast
    from clean_stop [OF _ st(2)] st(1) False show ?thesis by blast
  qed
  then show ?thesis by (auto simp: replay_log [OF us] records_of_def)
qed

lemma log_len: "8 \<le> length (log_bytes us)" "length header = 8" "log_bytes [] = header"
  by (simp_all add: log_bytes_def header_def WAL_MAGIC_def)

lemma recover_log:
  assumes snap: "get_snapshot t d = Inr m0" and wf: "model_wf m0" and us: "\<forall>u \<in> set us. append_ok u"
    and wal: "wal_file d = Some (log_bytes us @ torn)"
    and R: "replay (log_bytes us @ torn) =
      Inr \<lparr>rp_records = records_of us, good_len = length (log_bytes us), corrupt_with_valid_tail = False\<rparr>"
    and ap: "\<forall>r \<in> set (records_of us). applicable (dims (the_cube m0)) r"
    and room: "length (by_id (pool (the_cube m0))) + cap \<le> u32_max" "length (records_of us) \<le> cap"
    and rep: "replay_records (records_of us) (the_cube m0) = Inr c"
  shows "recovers t cap d (m0\<lparr>the_cube := c\<rparr>)"
proof -
  let ?good = "length (log_bytes us)" and ?m = "m0\<lparr>the_cube := c\<rparr>"
  let ?d = "d\<lparr>wal_file := Some (log_bytes us)\<rparr>"
  have "open_store t \<lparr>disk = d, script = []\<rparr> = (Ok (store_over ?m ?good), \<lparr>disk = ?d, script = []\<rparr>)"
    using snap wal rep log_len(1) [of us]
    by (simp add: open_store_def R WAL_HEADER_LEN_def bindA_def no_effect_def atomic_call_def call_def wal_set_len_def returnA_def)
  moreover have "get_snapshot t ?d = Inr m0" using snap by (simp add: get_snapshot_def)
  then have "logged t cap ?d ?m us"
    using wf us ap room rep unfolding logged_def by auto
  then have "durable t cap (store_over ?m ?good) ?d us" by (simp add: durable_def ready_def store_over_def)
  ultimately show ?thesis unfolding recovers_def using same_model_refl
    by (metis store.select_convs(1) store_over_def world.select_convs(1))
qed

text \<open>A log cut short of its header is replaced: the snapshot stands alone.\<close>

lemma recover_fresh:
  assumes snap: "get_snapshot t d = Inr m0" and wf: "model_wf m0"
    and wal: "\<forall>bs. wal_file d = Some bs \<longrightarrow> length bs < 8"
    and room: "length (by_id (pool (the_cube m0))) + cap \<le> u32_max"
  shows "recovers t cap d m0"
proof -
  let ?d = "d\<lparr>wal_file := Some header\<rparr>"
  have w0: "write_at 0 header [] = header" using log_len(2) by (auto simp: write_at_def)
  have "open_store t \<lparr>disk = d, script = []\<rparr> = (Ok (store_over m0 8), \<lparr>disk = ?d, script = []\<rparr>)"
    using snap wal w0
    by (auto simp: open_store_def WAL_HEADER_LEN_def bindA_def open_fresh_wal_def atomic_call_def call_def wal_write_def
        returnA_def split: option.split)
  moreover have "get_snapshot t ?d = Inr m0" using snap by (simp add: get_snapshot_def)
  then have "logged t cap ?d m0 []"
    using wf room by (simp add: logged_def log_len(3) records_of_def)
  then have "durable t cap (store_over m0 8) ?d []" by (simp add: durable_def ready_def store_over_def log_len)
  ultimately show ?thesis unfolding recovers_def using same_model_refl
    by (metis store.select_convs(1) store_over_def world.select_convs(1))
qed

end
