(* ===== verification/Store_Crash.thy ===== *)
theory Store_Crash
  imports Store_Recovery
begin

text \<open>
  The two building blocks of every store operation and what a crash inside them leaves: an append
  leaves the model before or after it, a checkpoint the model in memory or the staged one.
\<close>

definition toml_ok :: "toml \<Rightarrow> bool" where
  "toml_ok t \<longleftrightarrow> (\<forall>d x. toml_print t d = Some x \<longrightarrow> toml_parse t x = Some d)"

definition fits :: "nat \<Rightarrow> model \<Rightarrow> bool" where
  "fits cap m \<longleftrightarrow> model_wf m \<and> model_keys m \<and> model_printable m \<and>
     length (by_id (pool (the_cube m))) + cap \<le> u32_max \<and> length (string_cell_entries (the_cube m)) + cap \<le> u32_max"

text \<open>The one way a torn append is not dropped: the bytes of a frame of it contain an intact frame, which
  the scan takes for a record behind a corrupt one. The directory is then refused and its log moved
  aside.\<close>

definition mistaken :: "toml \<Rightarrow> append \<Rightarrow> disk \<Rightarrow> bool" where
  "mistaken t u d \<longleftrightarrow> \<not> clean_append u \<and>
     (\<exists>us torn. wal_file d = Some (log_bytes us @ torn) \<and> strict_prefix torn (append_bytes u)) \<and>
     fst (open_store t \<lparr>disk = d, script = []\<rparr>) = Err (PCorrupt ''WAL has intact records after a corrupt frame'')"

text \<open>The directory gives one of the models back, or is mistaken over one of the appends in flight.\<close>

definition safe :: "toml \<Rightarrow> nat \<Rightarrow> append set \<Rightarrow> model list \<Rightarrow> disk \<Rightarrow> bool" where
  "safe t cap U ms d \<longleftrightarrow> (\<exists>m \<in> set ms. recovers t cap d m) \<or> (\<exists>u \<in> U. mistaken t u d)"

section \<open>Logs\<close>

lemma logged_torn:
  assumes lg: "logged t cap d m us" and snap: "snapshot_file d' = snapshot_file d"
    and wal: "wal_file d' = Some (log_bytes us @ torn)"
    and torn: "torn = [] \<or> append_ok u \<and> strict_prefix torn (append_bytes u)"
  shows "recovers t cap d' m \<or> torn \<noteq> [] \<and> mistaken t u d'"
proof -
  obtain m0 c where L: "\<forall>u \<in> set us. append_ok u" "length (records_of us) \<le> cap" "get_snapshot t d = Inr m0" "model_wf m0"
    "\<forall>r \<in> set (records_of us). applicable (dims (the_cube m0)) r" "length (by_id (pool (the_cube m0))) + cap \<le> u32_max"
    "replay_records (records_of us) (the_cube m0) = Inr c" "same_model m (m0\<lparr>the_cube := c\<rparr>)"
    using lg unfolding logged_def by blast
  have sn: "get_snapshot t d' = Inr m0" using L(3) by (simp add: get_snapshot_def snap)
  from replay_torn_log [OF L(1) torn] obtain mid where R: "replay (log_bytes us @ torn) =
      Inr \<lparr>rp_records = records_of us, good_len = length (log_bytes us), corrupt_with_valid_tail = mid\<rparr>"
    "mid \<longrightarrow> torn \<noteq> [] \<and> \<not> clean_append u" by blast
  show ?thesis
  proof (cases mid)
    case False
    with R(1) have "replay (log_bytes us @ torn) = Inr \<lparr>rp_records = records_of us, good_len = length (log_bytes us),
        corrupt_with_valid_tail = False\<rparr>" by simp
    from recover_log [OF sn L(4,1) wal this L(5,6,2,7)] recovers_same L(8) show ?thesis by blast
  next
    case True
    have "fst (open_store t \<lparr>disk = d', script = []\<rparr>) = Err (PCorrupt ''WAL has intact records after a corrupt frame'')"
      using sn wal R(1) True log_len(1) [of us]
      by (simp add: open_store_def WAL_HEADER_LEN_def bindA_def atomic_call_def call_def raiseA_def)
    with True R(2) wal torn show ?thesis unfolding mistaken_def by blast
  qed
qed

lemma logged_recovers: "logged t cap d m us \<Longrightarrow> recovers t cap d m"
  using logged_torn [of t cap d m us d "[]"] by (auto simp: logged_def)

lemma durable_recovers: "durable t cap s d us \<Longrightarrow> recovers t cap d (held s)"
  unfolding durable_def using logged_recovers by blast

lemma logged_same: "logged t cap d m us \<Longrightarrow> same_model m' m \<Longrightarrow> logged t cap d m' us"
  unfolding logged_def using same_model_trans by blast

lemma logged_reflects:
  assumes lg: "logged t cap d m us" and wf: "model_wf m"
  shows "reflects (records_of us) (the_cube m)"
proof -
  obtain m0 c where L: "length (records_of us) \<le> cap" "model_wf m0"
    "\<forall>r \<in> set (records_of us). applicable (dims (the_cube m0)) r" "length (by_id (pool (the_cube m0))) + cap \<le> u32_max"
    "replay_records (records_of us) (the_cube m0) = Inr c" "same_model m (m0\<lparr>the_cube := c\<rparr>)"
    using lg unfolding logged_def by blast
  have "cube_wf (the_cube m0)" "length (by_id (pool (the_cube m0))) + length (records_of us) \<le> u32_max"
    using L by (simp_all add: model_wf_def)
  note R = replay_reflects [OF this(1) L(3) this(2) L(5)]
  have "same_cube c (the_cube m)" using L(6) same_cube_sym by (simp add: same_model_def)
  from reflects_same [OF R(1) this R(2)] wf show ?thesis by (simp add: model_wf_def)
qed

text \<open>The log with one more append, over the same snapshot.\<close>

lemma logged_extend:
  assumes lg: "logged t cap d m us" and wf: "model_wf m" and u: "append_ok u"
    and ap: "\<forall>r \<in> set (append_records u). applicable (dims (the_cube m)) r"
    and room: "length (records_of us) + length (append_records u) \<le> cap" "length (by_id (pool (the_cube m))) + cap \<le> u32_max"
    and rep: "replay_records (append_records u) (the_cube m) = Inr c'"
    and d': "snapshot_file d' = snapshot_file d" "wal_file d' = Some (log_bytes (us @ [u]))"
  shows "logged t cap d' (m\<lparr>the_cube := c'\<rparr>) (us @ [u])"
proof -
  obtain m0 c where L: "\<forall>u \<in> set us. append_ok u" "get_snapshot t d = Inr m0" "model_wf m0"
    "\<forall>r \<in> set (records_of us). applicable (dims (the_cube m0)) r" "length (by_id (pool (the_cube m0))) + cap \<le> u32_max"
    "replay_records (records_of us) (the_cube m0) = Inr c" "same_model m (m0\<lparr>the_cube := c\<rparr>)"
    using lg unfolding logged_def by blast
  let ?R = "records_of us" and ?U = "append_records u"
  have w0: "cube_wf (the_cube m0)" "length (by_id (pool (the_cube m0))) + length ?R \<le> u32_max"
    using L room by (simp_all add: model_wf_def)
  have wm: "cube_wf (the_cube m)" using wf by (simp add: model_wf_def)
  from replay_records_spec [OF w0(1) L(4) w0(2)] L(6) have c: "cube_wf c" "same_shape (dims (the_cube m0)) (dims c)"
    "length (by_id (pool c)) \<le> length ?R + length (by_id (pool (the_cube m0)))" by auto
  have same: "same_cube (the_cube m) c" using L(7) by (simp add: same_model_def)
  have rooms: "length (by_id (pool (the_cube m))) + length ?U \<le> u32_max" "length (by_id (pool c)) + length ?U \<le> u32_max"
    using room c(3) L(5) by simp_all
  from replay_cong [OF wm c(1) same ap rooms rep] obtain c1' where c1': "replay_records ?U c = Inr c1'" "same_cube c' c1'" by blast
  note S = same_shape_keys [OF c(2) cube_wf_D(1) [OF w0(1)] cube_wf_D(1) [OF c(1)]]
  note S' = same_shape_keys [OF same_cube_dims [OF same] cube_wf_D(1) [OF wm] cube_wf_D(1) [OF c(1)]]
  have ap0: "\<forall>r \<in> set (records_of (us @ [u])). applicable (dims (the_cube m0)) r"
    using L(4) ap S(2) S'(2) by (auto simp: records_of_def)
  have "replay_records (records_of (us @ [u])) (the_cube m0) = Inr c1'"
    using L(6) c1'(1) by (simp add: records_of_def replay_append_records)
  moreover have "same_model (m\<lparr>the_cube := c'\<rparr>) (m0\<lparr>the_cube := c1'\<rparr>)" using L(7) c1'(2) by (simp add: same_model_def)
  moreover have "get_snapshot t d' = Inr m0" using L(2) by (simp add: get_snapshot_def d'(1))
  ultimately show ?thesis
    using L(1,3,5) ap0 room(1) u d'(2) unfolding logged_def by (auto simp: records_of_def)
qed

section \<open>The snapshot\<close>

definition snap_is :: "toml \<Rightarrow> nat \<Rightarrow> disk \<Rightarrow> model \<Rightarrow> bool" where
  "snap_is t cap d m \<longleftrightarrow> (\<exists>m1. get_snapshot t d = Inr m1 \<and> same_model m m1 \<and> model_wf m1 \<and>
     length (by_id (pool (the_cube m1))) + cap \<le> u32_max)"

lemma snap_isI:
  assumes t: "toml_ok t" and f: "fits cap m" and x: "to_model_text t m = Inr text" and d: "snapshot_file d = Some text"
  shows "snap_is t cap d m"
proof -
  have "toml_parse t text = Some (model_to_doc m)" using t x by (simp add: toml_ok_def to_model_text_def)
  moreover obtain m1 where "model_from_doc (model_to_doc m) = Inr m1" "same_model m m1" "model_wf m1"
    "length (by_id (pool (the_cube m1))) \<le> length (string_cell_entries (the_cube m))"
    using model_round_trip f unfolding fits_def by blast
  ultimately show ?thesis using f d by (simp add: snap_is_def get_snapshot_def from_model_text_def fits_def)
qed

text \<open>A new snapshot beside the old log: the log finds its values already there.\<close>

lemma snap_old_log:
  assumes sn: "snap_is t cap d m" and wf: "model_wf m" and wal: "wal_file d = Some (log_bytes us)"
    and us: "\<forall>u \<in> set us. append_ok u" "length (records_of us) \<le> cap" and rf: "reflects (records_of us) (the_cube m)"
  shows "recovers t cap d m"
proof -
  obtain m1 where m1: "get_snapshot t d = Inr m1" "same_model m m1" "model_wf m1"
    "length (by_id (pool (the_cube m1))) + cap \<le> u32_max" using sn unfolding snap_is_def by blast
  have w: "cube_wf (the_cube m)" "cube_wf (the_cube m1)" "same_cube (the_cube m) (the_cube m1)"
    using wf m1 by (simp_all add: model_wf_def same_model_def)
  have rf1: "reflects (records_of us) (the_cube m1)" by (rule reflects_same [OF rf w(3,1,2)])
  have "length (by_id (pool (the_cube m1))) + length (records_of us) \<le> u32_max" using m1(4) us(2) by simp
  from reflected_replay [OF w(2) rf1 this] obtain c where c: "replay_records (records_of us) (the_cube m1) = Inr c"
    "same_cube (the_cube m1) c" by blast
  have ap: "\<forall>r \<in> set (records_of us). applicable (dims (the_cube m1)) r" using rf1 by (simp add: reflects_def)
  have wal': "wal_file d = Some (log_bytes us @ [])" using wal by simp
  have "recovers t cap d (m1\<lparr>the_cube := c\<rparr>)"
    using replay_torn_log [OF us(1), of "[]"] by (intro recover_log [OF m1(1,3) us(1) wal' _ ap m1(4) us(2) c(1)]) auto
  moreover have "same_model m1 (m1\<lparr>the_cube := c\<rparr>)" using c(2) by (simp add: same_model_def same_rules_def)
  with m1(2) have "same_model m (m1\<lparr>the_cube := c\<rparr>)" by (rule same_model_trans)
  ultimately show ?thesis by (rule recovers_same)
qed

text \<open>A snapshot beside a log that is empty or cut inside its header.\<close>

lemma snap_no_log:
  assumes sn: "snap_is t cap d m" and wal: "wal_file d = Some (take n header)"
  shows "recovers t cap d m" "8 \<le> n \<Longrightarrow> logged t cap d m []"
proof -
  obtain m1 where m1: "get_snapshot t d = Inr m1" "same_model m m1" "model_wf m1"
    "length (by_id (pool (the_cube m1))) + cap \<le> u32_max" using sn unfolding snap_is_def by blast
  show lg: "logged t cap d m []" if "8 \<le> n"
  proof -
    have "take n header = header" using that log_len(2) by simp
    then show ?thesis using m1 wal by (simp add: logged_def records_of_def log_len(3))
  qed
  show "recovers t cap d m"
  proof (cases "8 \<le> n")
    case True
    then show ?thesis using logged_recovers [OF lg] by blast
  next
    case False
    then have "\<forall>bs. wal_file d = Some bs \<longrightarrow> length bs < 8" using wal by simp
    from recovers_same [OF recover_fresh [OF m1(1,3) this m1(4)] m1(2)] show ?thesis .
  qed
qed

section \<open>Checkpoints\<close>

lemma write_snapshot_ensures:
  assumes t: "toml_ok t" and f: "fits cap m'" and rf: "reflects (records_of us) (the_cube m')"
  shows "ensures (\<lambda>w. logged t cap (disk w) m us) (write_snapshot t m')
    (\<lambda>_ w. snap_is t cap (disk w) m' \<and> wal_file (disk w) = Some (log_bytes us) \<and> recovers t cap (disk w) m')
    (\<lambda>w. safe t cap U [m, m'] (disk w))"
proof -
  let ?P = "\<lambda>w. logged t cap (disk w) m us" and ?E = "\<lambda>w. safe t cap U [m, m'] (disk w)"
  have P_E: "?E w" if "?P w" for w using that logged_recovers by (simp add: safe_def)
  have keep: "ensures ?P no_effect (\<lambda>_. ?P) ?E"
    by (rule ensures_no_effect) (use P_E in auto)
  have new: "snap_is t cap d' m' \<and> wal_file d' = Some (log_bytes us) \<and> recovers t cap d' m'"
    if "logged t cap d m us" "to_model_text t m' = Inr doc" "d' = d\<lparr>snapshot_file := Some doc\<rparr>" for d d' doc
  proof -
    have sn: "snap_is t cap d' m'" by (rule snap_isI [OF t f that(2)]) (simp add: that(3))
    have wal: "wal_file d' = Some (log_bytes us)" "\<forall>u \<in> set us. append_ok u" "length (records_of us) \<le> cap"
      using that(1) by (simp_all add: logged_def that(3))
    have "model_wf m'" using f by (simp add: fits_def)
    from snap_old_log [OF sn this wal rf] sn wal(1) show ?thesis by blast
  qed
  show ?thesis
    unfolding write_snapshot_def
  proof (rule ensures_bind)
    show "ensures ?P (liftE (map_err PSave (to_model_text t m'))) (\<lambda>doc w. ?P w \<and> to_model_text t m' = Inr doc) ?E"
      by (rule ensures_lift) (use P_E in auto)
  next
    fix doc
    let ?P' = "\<lambda>w. ?P w \<and> to_model_text t m' = Inr doc"
    let ?Q = "\<lambda>w. snap_is t cap (disk w) m' \<and> wal_file (disk w) = Some (log_bytes us) \<and> recovers t cap (disk w) m'"
    have keep': "ensures ?P' no_effect (\<lambda>_. ?P') ?E" by (rule ensures_no_effect) (use P_E in auto)
    have ren: "ensures ?P' (atomic_call (\<lambda>d. d\<lparr>snapshot_file := Some doc\<rparr>)) (\<lambda>_. ?Q) ?E"
    proof (rule ensures_atomic)
      fix w rest assume w: "?P' w"
      from new [OF conjunct1 [OF w] conjunct2 [OF w] refl]
      show "?Q \<lparr>disk = (disk w)\<lparr>snapshot_file := Some doc\<rparr>, script = rest\<rparr>"
        "?E \<lparr>disk = disk w, script = rest\<rparr> \<and> ?E \<lparr>disk = (disk w)\<lparr>snapshot_file := Some doc\<rparr>, script = rest\<rparr>"
        using P_E [OF conjunct1 [OF w]] by (simp_all add: safe_def)
    qed
    have fin: "ensures ?Q no_effect (\<lambda>_. ?Q) ?E" by (rule ensures_no_effect) (auto simp: safe_def)
    show "ensures ?P' (bindA no_effect (\<lambda>_. bindA no_effect (\<lambda>_. bindA no_effect (\<lambda>_.
        bindA (atomic_call (\<lambda>d. d\<lparr>snapshot_file := Some doc\<rparr>)) (\<lambda>_. no_effect))))) (\<lambda>_. ?Q) ?E"
      by (intro ensures_bind [OF keep'] ensures_bind [OF ren] fin)
  qed
qed

text \<open>After the new snapshot the log is emptied, its header written and the counters reset. \<open>Z\<close> is
  the last step on the store.\<close>

definition cut_log :: "toml \<Rightarrow> nat \<Rightarrow> model \<Rightarrow> model \<Rightarrow> nat \<Rightarrow> sys \<Rightarrow> bool" where
  "cut_log t cap m m' n = (\<lambda>(s, w). held s = m \<and> \<not> poisoned s \<and> snap_is t cap (disk w) m' \<and>
     wal_file (disk w) = Some (take n header))"

lemma cut_log_safe:
  assumes "snap_is t cap d m'" "wal_file d = Some (take n header)"
  shows "safe t cap U [m, m'] d"
  using snap_no_log(1) [OF assms] by (simp add: safe_def)

lemma snap_is_wal [simp]: "snap_is t cap (d\<lparr>wal_file := x\<rparr>) m' = snap_is t cap d m'"
  by (simp add: snap_is_def get_snapshot_def)

lemma reset_log_ensures:
  assumes Z: "\<And>s::store. held s = m \<Longrightarrow> Z s = s\<lparr>known_good := WAL_HEADER_LEN, held := m'\<rparr>"
  shows "ensures (\<lambda>(s, w). held s = m \<and> \<not> poisoned s \<and> snap_is t cap (disk w) m' \<and> wal_file (disk w) = Some (log_bytes us)
        \<and> recovers t cap (disk w) m')
      (bindA (on_world (wal_set_len 0)) (\<lambda>_. bindA (seek_to 0) (\<lambda>_. bindA (on_world (wal_write 0 header)) (\<lambda>_.
        bindA (on_store (\<lambda>s. s\<lparr>cursor := length header\<rparr>)) (\<lambda>_. bindA (on_world wal_sync) (\<lambda>_. on_store Z))))))
      (\<lambda>_ (s, w). held s = m' \<and> durable t cap s (disk w) []) (\<lambda>(s, w). safe t cap U [m, m'] (disk w))"
    (is "ensures ?B _ ?Q ?E")
proof -
  let ?C = "cut_log t cap m m' 0" and ?D = "cut_log t cap m m' 8"
  let ?D' = "\<lambda>x. ?D x \<and> cursor (fst x) = 8"
  have h: "take 8 header = header" using log_len(2) by simp
  have w0: "write_at 0 (take n header) [] = take n header" for n by (simp add: write_at_def)
  have "ensures ?B (on_world (wal_set_len 0)) (\<lambda>_. ?C) ?E"
    unfolding wal_set_len_def
    by (rule ensures_on_world, rule ensures_atomic) (auto simp: cut_log_def, auto simp: safe_def intro: snap_no_log(1) [where n = 0])
  moreover have "ensures ?C (seek_to 0) (\<lambda>_. ?C) ?E"
    by (rule ensures_seek) (auto simp: cut_log_def intro: cut_log_safe [where n = 0])
  moreover have "ensures ?C (on_world (wal_write 0 header)) (\<lambda>_. ?D) ?E"
    by (rule ensures_on_world, rule ensures_wal_write)
      (use w0 w0 [of 8] h in \<open>auto simp: cut_log_def intro: cut_log_safe\<close>)
  moreover have "ensures ?D (on_store (\<lambda>s. s\<lparr>cursor := length header\<rparr>)) (\<lambda>_. ?D') ?E"
    by (rule ensures_on_store) (simp add: log_len(2) cut_log_def)
  moreover have "ensures ?D' (on_world wal_sync) (\<lambda>_. ?D') ?E"
    unfolding wal_sync_def by (rule ensures_on_world, rule ensures_no_effect) (auto simp: cut_log_def intro: cut_log_safe)
  moreover have "ensures ?D' (on_store Z) ?Q ?E"
  proof (rule ensures_on_store)
    fix s w assume D: "?D' (s, w)"
    then have "logged t cap (disk w) m' []" using snap_no_log(2) [of t cap "disk w" m' 8] by (simp add: cut_log_def)
    with D show "case (Z s, w) of (s, w) \<Rightarrow> held s = m' \<and> durable t cap s (disk w) []"
      by (simp add: cut_log_def Z durable_def ready_def WAL_HEADER_LEN_def log_len)
  qed
  ultimately show ?thesis by (meson ensures_bind)
qed

lemma checkpoint_ensures:
  assumes t: "toml_ok t" and f: "fits cap m'" and rf: "reflects (records_of us) (the_cube m')"
    and m': "m' = (case staged of Some x \<Rightarrow> x | None \<Rightarrow> m)"
  shows "ensures (\<lambda>(s, w). held s = m \<and> ready s us \<and> logged t cap (disk w) m us) (checkpoint_model t staged)
    (\<lambda>_ (s, w). held s = m' \<and> durable t cap s (disk w) []) (\<lambda>(s, w). safe t cap U [m, m'] (disk w))"
    (is "ensures ?A _ ?Q ?E")
proof (rule ensuresI)
  fix x r x' assume A: "?A x" and c: "checkpoint_model t staged x = (r, x')"
  let ?B = "\<lambda>(s, w). held s = m \<and> \<not> poisoned s \<and> snap_is t cap (disk w) m' \<and> wal_file (disk w) = Some (log_bytes us)
    \<and> recovers t cap (disk w) m'"
  have one: "ensures ?A (on_world (write_snapshot t m')) (\<lambda>_. ?B) ?E"
  proof (rule ensures_on_world)
    fix s
    show "ensures (\<lambda>w. ?A (s, w)) (write_snapshot t m') (\<lambda>x w. ?B (s, w)) (\<lambda>w. ?E (s, w))"
    proof (cases "held s = m \<and> ready s us")
      case True
      with write_snapshot_ensures [OF t f rf, of m] show ?thesis by (simp add: ready_def)
    qed (auto simp: ensures_def)
  qed
  let ?F = "bindA (on_world (write_snapshot t m')) (\<lambda>_.
      bindA (on_world (wal_set_len 0)) (\<lambda>_. bindA (seek_to 0) (\<lambda>_. bindA (on_world (wal_write 0 header)) (\<lambda>_.
        bindA (on_store (\<lambda>s. s\<lparr>cursor := length header\<rparr>)) (\<lambda>_. bindA (on_world wal_sync) (\<lambda>_.
          on_store (\<lambda>s. s\<lparr>known_good := WAL_HEADER_LEN, held := (case staged of Some m \<Rightarrow> m | None \<Rightarrow> held s)\<rparr>)))))))"
  have F: "ensures ?A ?F ?Q ?E"
    by (rule ensures_bind [OF one], rule reset_log_ensures) (simp add: m' split: option.split)
  have "?F x = (r, x')"
    using A c by (cases x; cases staged) (simp_all add: checkpoint_model_def m')
  from ensuresD [OF F A this] show "case r of Ok y \<Rightarrow> ?Q y x' | Err e \<Rightarrow> ?E x' | Stopped \<Rightarrow> ?E x'" .
qed

text \<open>
  One append to the log: it is on the disk when it is acknowledged, and when any of its calls
  fails or is cut, the bytes left are the old log with a part of it, which a reopened store
  either drops or, when all of it came through, replays.
\<close>

section \<open>Torn appends\<close>

definition torn_log :: "disk \<Rightarrow> append list \<Rightarrow> append \<Rightarrow> disk \<Rightarrow> bool" where
  "torn_log d0 us u d \<longleftrightarrow> snapshot_file d = snapshot_file d0 \<and>
     (\<exists>n. wal_file d = Some (log_bytes us @ take n (append_bytes u)))"

text \<open>An append can follow the log of \<open>d0\<close>, and then gives \<open>m'\<close>.\<close>

definition extends_log :: "toml \<Rightarrow> nat \<Rightarrow> disk \<Rightarrow> model \<Rightarrow> append list \<Rightarrow> append \<Rightarrow> model \<Rightarrow> bool" where
  "extends_log t cap d0 m us u m' \<longleftrightarrow> logged t cap d0 m us \<and> append_ok u \<and>
     (\<forall>d. snapshot_file d = snapshot_file d0 \<longrightarrow> wal_file d = Some (log_bytes (us @ [u])) \<longrightarrow> logged t cap d m' (us @ [u]))"

lemma log_bytes_snoc [simp]: "log_bytes (us @ [u]) = log_bytes us @ append_bytes u"
  by (simp add: log_bytes_def)

lemma torn_safe:
  assumes ex: "extends_log t cap d0 m us u m'" and torn: "torn_log d0 us u d" and U: "u \<in> U"
  shows "safe t cap U [m, m'] d"
proof -
  from torn obtain n where n: "snapshot_file d = snapshot_file d0" "wal_file d = Some (log_bytes us @ take n (append_bytes u))"
    by (auto simp: torn_log_def)
  show ?thesis
  proof (cases "length (append_bytes u) \<le> n")
    case True
    then have "logged t cap d m' (us @ [u])" using ex n by (simp add: extends_log_def)
    then show ?thesis using logged_recovers by (auto simp: safe_def)
  next
    case False
    then have "strict_prefix (take n (append_bytes u)) (append_bytes u)"
      by (auto simp: strict_prefix_def take_is_prefix dest: arg_cong [where f = length])
    with ex n logged_torn [of t cap d0 m us d _ u] U show ?thesis by (auto simp: safe_def extends_log_def)
  qed
qed

section \<open>Poisoning\<close>

lemma ensures_ignoring:
  fixes f :: "sys \<Rightarrow> unit io \<times> sys"
  assumes "ensures P f Q E" and "\<And>x. E x \<Longrightarrow> Q () x"
  shows "ensures P (ignoring f) Q E"
proof (rule ensuresI)
  fix x r x' assume P: "P x" and i: "ignoring f x = (r, x')"
  obtain r0 x0 where f: "f x = (r0, x0)" by (cases "f x")
  from ensuresD [OF assms(1) P f] i assms(2) [of x'] show "case r of Ok y \<Rightarrow> Q y x' | Err e \<Rightarrow> E x' | Stopped \<Rightarrow> E x'"
    by (cases r0) (auto simp: ignoring_def f)
qed

lemma poison_ensures:
  "ensures (\<lambda>(s, w). known_good s = length (log_bytes us) \<and> torn_log d0 us u (disk w)) poison_wal
    (\<lambda>_ (s, w). torn_log d0 us u (disk w)) (\<lambda>(s, w). torn_log d0 us u (disk w))"
proof (rule ensuresI)
  fix x :: sys and r x'
  assume P: "case x of (s, w) \<Rightarrow> known_good s = length (log_bytes us) \<and> torn_log d0 us u (disk w)"
    and p: "poison_wal x = (r, x')"
  obtain s w where x: "x = (s, w)" by force
  let ?T = "\<lambda>(s :: store, w). torn_log d0 us u (disk w)"
  have cut: "torn_log d0 us u (d\<lparr>wal_file := map_option (\<lambda>bs. take n bs @ replicate (n - length bs) 0) (wal_file d)\<rparr>)"
    if "torn_log d0 us u d" "n = length (log_bytes us)" for d n
    using that by (auto simp: torn_log_def intro: exI [of _ 0])
  have len: "ensures ?T (ignoring (on_world (wal_set_len (known_good s)))) (\<lambda>_. ?T) ?T"
    unfolding wal_set_len_def
    by (rule ensures_ignoring, rule ensures_on_world, rule ensures_atomic) (use P x cut in auto)
  have seek: "ensures ?T (ignoring (seek_to (known_good s))) (\<lambda>_. ?T) ?T"
    by (rule ensures_ignoring, rule ensures_seek) auto
  have "bindA (ignoring (on_world (wal_set_len (known_good s)))) (\<lambda>_. ignoring (seek_to (known_good s)))
      (s\<lparr>poisoned := True\<rparr>, w) = (r, x')"
    using p by (simp add: poison_wal_def x)
  from ensuresD [OF ensures_bind [OF len seek] _ this] P
  show "case r of Ok y \<Rightarrow> ?T x' | Err e \<Rightarrow> ?T x' | Stopped \<Rightarrow> ?T x'" by (simp add: x)
qed

lemma ensures_or_poison:
  assumes "ensures P f Q E" and "ensures E poison_wal (\<lambda>_. E') E'" and "\<And>x. E x \<Longrightarrow> E' x"
  shows "ensures P (or_poison f) Q E'"
proof (rule ensuresI)
  fix x r x' assume P: "P x" and i: "or_poison f x = (r, x')"
  obtain r0 x0 where f: "f x = (r0, x0)" by (cases "f x")
  note F = ensuresD [OF assms(1) P f]
  show "case r of Ok y \<Rightarrow> Q y x' | Err e \<Rightarrow> E' x' | Stopped \<Rightarrow> E' x'"
  proof (cases r0)
    case (Err e)
    have "ensures E (bindA poison_wal (\<lambda>_. raiseA e)) Q E'"
      by (rule ensures_bind [OF assms(2)], rule ensures_raise)
    from ensuresD [OF this] F i show ?thesis by (simp add: or_poison_def f Err)
  qed (use F i assms(3) in \<open>auto simp: or_poison_def f\<close>)
qed

section \<open>The append\<close>

lemma append_steps_ensures:
  assumes ready: "ready s us" and h: "held s = h" and ex: "extends_log t cap d0 m us u m'"
  shows "ensures (\<lambda>x. fst x = s \<and> disk (snd x) = d0)
      (bindA (or_poison (on_world (wal_write (cursor s) (append_bytes u)))) (\<lambda>_.
       bindA (on_store (\<lambda>s. s\<lparr>cursor := cursor s + length (append_bytes u)\<rparr>)) (\<lambda>_.
       bindA (if sync then or_poison (on_world wal_sync) else returnA ()) (\<lambda>_.
         on_store (\<lambda>s. s\<lparr>known_good := known_good s + length (append_bytes u)\<rparr>)))))
      (\<lambda>_ (s, w). held s = h \<and> ready s (us @ [u]) \<and> logged t cap (disk w) m' (us @ [u]))
      (\<lambda>(s, w). torn_log d0 us u (disk w))"
    (is "ensures ?P _ ?Q ?E")
proof -
  let ?new = "\<lambda>d. snapshot_file d = snapshot_file d0 \<and> wal_file d = Some (log_bytes (us @ [u]))"
  let ?K = "\<lambda>(s, w). known_good s = length (log_bytes us) \<and> torn_log d0 us u (disk w)"
  let ?B = "\<lambda>(s', w). s' = s \<and> ?new (disk w)"
  let ?C = "\<lambda>(s', w). s' = s\<lparr>cursor := cursor s + length (append_bytes u)\<rparr> \<and> ?new (disk w)"
  have wal0: "wal_file d0 = Some (log_bytes us)" using ex by (simp add: extends_log_def logged_def)
  have at_end: "write_at (length bs) x bs = bs @ x" for bs x by (simp add: write_at_def)
  have cur: "cursor s = length (log_bytes us)" "known_good s = length (log_bytes us)" using ready by (simp_all add: ready_def)
  have new_torn: "torn_log d0 us u d" if "?new d" for d
    using that by (auto simp: torn_log_def intro: exI [of _ "length (append_bytes u)"])
  have "ensures ?P (on_world (wal_write (cursor s) (append_bytes u))) (\<lambda>_. ?B) ?K"
    by (rule ensures_on_world, rule ensures_wal_write) (use wal0 cur at_end in \<open>auto simp: torn_log_def\<close>)
  from ensures_or_poison [OF this poison_ensures]
  have 1: "ensures ?P (or_poison (on_world (wal_write (cursor s) (append_bytes u)))) (\<lambda>_. ?B) ?E" by auto
  have 2: "ensures ?B (on_store (\<lambda>s. s\<lparr>cursor := cursor s + length (append_bytes u)\<rparr>)) (\<lambda>_. ?C) ?E"
    by (rule ensures_on_store) simp
  have "ensures ?C (on_world wal_sync) (\<lambda>_. ?C) ?K"
    unfolding wal_sync_def by (rule ensures_on_world, rule ensures_no_effect) (use cur new_torn in auto)
  from ensures_or_poison [OF this poison_ensures]
  have 3: "ensures ?C (if sync then or_poison (on_world wal_sync) else returnA ()) (\<lambda>_. ?C) ?E"
    by (auto intro: ensures_return)
  have 4: "ensures ?C (on_store (\<lambda>s. s\<lparr>known_good := known_good s + length (append_bytes u)\<rparr>)) ?Q ?E"
    by (rule ensures_on_store) (use ready h ex in \<open>auto simp: ready_def extends_log_def\<close>)
  show ?thesis by (rule ensures_bind [OF 1 ensures_bind [OF 2 ensures_bind [OF 3 4]]])
qed

lemma append_ensures:
  assumes ex: "extends_log t cap d0 m us u m'" and U: "u \<in> U"
  shows "ensures (\<lambda>(s, w). held s = h \<and> ready s us \<and> disk w = d0) (append_wal (append_bytes u))
    (\<lambda>_ (s, w). held s = h \<and> ready s (us @ [u]) \<and> logged t cap (disk w) m' (us @ [u]))
    (\<lambda>(s, w). safe t cap U [m, m'] (disk w))"
proof (rule ensuresI)
  fix x :: sys and r x'
  assume P: "case x of (s, w) \<Rightarrow> held s = h \<and> ready s us \<and> disk w = d0"
    and a: "append_wal (append_bytes u) x = (r, x')"
  obtain s w where x: "x = (s, w)" by force
  have s: "ready s us" "held s = h" "\<not> poisoned s" using P by (simp_all add: x ready_def)
  from a s(3) have "bindA (or_poison (on_world (wal_write (cursor s) (append_bytes u)))) (\<lambda>_.
       bindA (on_store (\<lambda>s. s\<lparr>cursor := cursor s + length (append_bytes u)\<rparr>)) (\<lambda>_.
       bindA (if sync_on_write s then or_poison (on_world wal_sync) else returnA ()) (\<lambda>_.
         on_store (\<lambda>s. s\<lparr>known_good := known_good s + length (append_bytes u)\<rparr>)))) x = (r, x')"
    by (simp add: append_wal_def x)
  from ensuresD [OF append_steps_ensures [OF s(1,2) ex] _ this] P torn_safe [OF ex _ U]
  show "case r of Ok y \<Rightarrow> (case x' of (s, w) \<Rightarrow> held s = h \<and> ready s (us @ [u]) \<and> logged t cap (disk w) m' (us @ [u]))
      | Err e \<Rightarrow> (case x' of (s, w) \<Rightarrow> safe t cap U [m, m'] (disk w))
      | Stopped \<Rightarrow> (case x' of (s, w) \<Rightarrow> safe t cap U [m, m'] (disk w))"
    by (cases r) (auto simp: x)
qed

end
