(* ===== verification/Store_Ops.thy ===== *)
theory Store_Ops
  imports Store_Crash
begin

text \<open>
  The operations of the store against what they promise: \<open>op_spec\<close> is the change of the model
  an operation stands for, and every operation either makes it durable or, when a call fails or
  the process stops in it, leaves a directory from which the model before or after is recovered.
\<close>

section \<open>The operations and what they promise\<close>

datatype store_op =
    OpSetLeaf coord fixed
  | OpSetString coord string
  | OpSetPin string string bool
  | OpSetBatch "cell_write list"
  | OpDefineSubset subset_def
  | OpDeleteSubset string string
  | OpDefineView view
  | OpDeleteView string
  | OpDefineRules string
  | OpDeleteRules
  | OpDefineTest rule_test
  | OpDeleteTest string
  | OpDefineSandbox sandbox
  | OpDeleteSandbox string
  | OpSandboxCells string "cell_write list" nat
  | OpExtendSchema "element_spec list" "edge_spec list"
  | OpDefineAttribute string string attribute_kind
  | OpSetAttributes string string "(string \<times> attribute_value) list"
  | OpEdit string dimension_edit
  | OpCheckpoint

definition unit_result :: "(sys \<Rightarrow> 'a io \<times> sys) \<Rightarrow> sys \<Rightarrow> unit io \<times> sys" where
  "unit_result f = bindA f (\<lambda>_. returnA ())"

fun run_op :: "toml \<Rightarrow> store_op \<Rightarrow> sys \<Rightarrow> unit io \<times> sys" where
  "run_op t (OpSetLeaf coord v) = store_set_leaf t coord v"
| "run_op t (OpSetString coord v) = store_set_string t coord v"
| "run_op t (OpSetPin d e pinned) = store_set_pin t d e pinned"
| "run_op t (OpSetBatch writes) = store_set_batch t writes"
| "run_op t (OpDefineSubset s) = define_subset t s"
| "run_op t (OpDeleteSubset d name) = unit_result (delete_subset t d name)"
| "run_op t (OpDefineView v) = define_view t v"
| "run_op t (OpDeleteView name) = unit_result (delete_view t name)"
| "run_op t (OpDefineRules source) = define_rules t source"
| "run_op t OpDeleteRules = unit_result (delete_rules t)"
| "run_op t (OpDefineTest test) = define_rule_test t test"
| "run_op t (OpDeleteTest name) = unit_result (delete_rule_test t name)"
| "run_op t (OpDefineSandbox sb) = define_sandbox t sb"
| "run_op t (OpDeleteSandbox name) = unit_result (delete_sandbox t name)"
| "run_op t (OpSandboxCells name writes updated) = sandbox_set_cells t name writes updated"
| "run_op t (OpExtendSchema elems edges) = unit_result (store_extend_schema t elems edges)"
| "run_op t (OpDefineAttribute d name kind) = store_define_attribute t d name kind"
| "run_op t (OpSetAttributes d attribute vs) = store_set_attribute_values t d attribute vs"
| "run_op t (OpEdit d edit) = edit_dimension t d edit"
| "run_op t OpCheckpoint = checkpoint t"

definition with_cube :: "(cube \<Rightarrow> model_error + cube) \<Rightarrow> model \<Rightarrow> persist_error + model" where
  "with_cube f m = (case f (the_cube m) of Inl e \<Rightarrow> Inl (PModel e) | Inr c \<Rightarrow> Inr (m\<lparr>the_cube := c\<rparr>))"

definition with_model :: "(model \<Rightarrow> model_error + model) \<Rightarrow> model \<Rightarrow> persist_error + model" where
  "with_model f m = map_err PModel (f m)"

fun edit_spec :: "string \<Rightarrow> dimension_edit \<Rightarrow> model \<Rightarrow> persist_error + model" where
  "edit_spec d (EditReorder new_order) = with_model (model_reorder_elements d new_order)"
| "edit_spec d (EditReparent child new_parent weight) = with_model (model_reparent_element d child new_parent weight)"
| "edit_spec d (EditAddChild parent child weight) = with_model (model_add_child_element d parent child weight)"
| "edit_spec d (EditRemoveChild parent child) = with_cube (remove_child_element d parent child)"
| "edit_spec d (EditPinToTop e) = with_cube (pin_element_to_top d e)"
| "edit_spec d (EditUnpinFromTop e) = with_cube (unpin_element_from_top d e)"
| "edit_spec d (EditSetKind e kind) = with_model (model_set_element_kind d e kind)"
| "edit_spec d (EditDelete e) = with_model (model_delete_element d e)"
| "edit_spec d (EditInsert name kind pos) = with_model (model_insert_element_at d name kind pos)"

definition batch_spec :: "cell_write list \<Rightarrow> model \<Rightarrow> persist_error + model" where
  "batch_spec writes m =
     (case validate_batch (the_cube m) (batch_writes writes) of
        Inl (index, e) \<Rightarrow> Inl (BatchRejected index e)
      | Inr _ \<Rightarrow> with_cube (apply_writes writes) m)"

definition overrides_spec :: "string \<Rightarrow> cell_write list \<Rightarrow> nat \<Rightarrow> model \<Rightarrow> persist_error + model" where
  "overrides_spec name writes updated m =
     (if map_of (sandboxes m) name = None then Inl (no_sandbox name)
      else if list_ex is_str_write writes
        then Inl (PQuery (CalcMessage ''string what-if values are not supported in a sandbox''))
      else
        (case validate_batch (the_cube m) (batch_writes writes) of
           Inl (index, e) \<Rightarrow> Inl (BatchRejected index e)
         | Inr _ \<Rightarrow> Inr (with_sandbox name (put_overrides writes updated) m)))"

definition checked :: "(model \<Rightarrow> query_error + unit) \<Rightarrow> (model \<Rightarrow> model) \<Rightarrow> model \<Rightarrow> persist_error + model" where
  "checked check f m = (case check m of Inl e \<Rightarrow> Inl (PQuery e) | Inr _ \<Rightarrow> Inr (f m))"

text \<open>Deleting what is not there changes nothing.\<close>

definition removal :: "(model \<Rightarrow> bool) \<Rightarrow> (model \<Rightarrow> model) \<Rightarrow> model \<Rightarrow> persist_error + model" where
  "removal present remove m = Inr (if present m then remove m else m)"

fun op_spec :: "store_op \<Rightarrow> model \<Rightarrow> persist_error + model" where
  "op_spec (OpSetLeaf coord v) = with_cube (set_leaf coord v)"
| "op_spec (OpSetString coord v) = with_cube (set_string coord v)"
| "op_spec (OpSetPin d e pinned) = with_cube (if pinned then pin_element_to_top d e else unpin_element_from_top d e)"
| "op_spec (OpSetBatch writes) = batch_spec writes"
| "op_spec (OpDefineSubset s) = checked (\<lambda>m. bindE (validate_subset (the_cube m) s) (\<lambda>_. Inr ()))
     (\<lambda>m. m\<lparr>subsets := bt_insert (sub_dimension s, sub_name s) s (subsets m)\<rparr>)"
| "op_spec (OpDeleteSubset d name) = removal (\<lambda>m. map_of (subsets m) (d, name) \<noteq> None)
     (\<lambda>m. m\<lparr>subsets := bt_remove (d, name) (subsets m)\<rparr>)"
| "op_spec (OpDefineView v) = checked (\<lambda>m. bindE (validate_view m v) (\<lambda>_. Inr ()))
     (\<lambda>m. m\<lparr>views := bt_insert (view_name v) v (views m)\<rparr>)"
| "op_spec (OpDeleteView name) = removal (\<lambda>m. map_of (views m) name \<noteq> None) (\<lambda>m. m\<lparr>views := bt_remove name (views m)\<rparr>)"
| "op_spec (OpDefineRules source) = (\<lambda>m. Inr (m\<lparr>rule_source := \<lparr>rules_source = source\<rparr>\<rparr>))"
| "op_spec OpDeleteRules = removal (\<lambda>m. \<not> rules_is_empty (rule_source m)) (\<lambda>m. m\<lparr>rule_source := \<lparr>rules_source = []\<rparr>\<rparr>)"
| "op_spec (OpDefineTest test) = (\<lambda>m. Inr (m\<lparr>tests := bt_insert (rt_name test) test (tests m)\<rparr>))"
| "op_spec (OpDeleteTest name) = removal (\<lambda>m. map_of (tests m) name \<noteq> None) (\<lambda>m. m\<lparr>tests := bt_remove name (tests m)\<rparr>)"
| "op_spec (OpDefineSandbox sb) = (\<lambda>m. Inr (m\<lparr>sandboxes := bt_insert (sb_name sb) sb (sandboxes m)\<rparr>))"
| "op_spec (OpDeleteSandbox name) = removal (\<lambda>m. map_of (sandboxes m) name \<noteq> None)
     (\<lambda>m. m\<lparr>sandboxes := bt_remove name (sandboxes m)\<rparr>)"
| "op_spec (OpSandboxCells name writes updated) = overrides_spec name writes updated"
| "op_spec (OpExtendSchema elems edges) = with_cube (\<lambda>c. bindE (extend_schema elems edges c) (\<lambda>(n, c'). Inr c'))"
| "op_spec (OpDefineAttribute d name kind) = with_cube (define_attribute d name kind)"
| "op_spec (OpSetAttributes d attribute vs) = with_cube (set_attribute_values d attribute vs)"
| "op_spec (OpEdit d edit) = edit_spec d edit"
| "op_spec OpCheckpoint = (\<lambda>m. Inr m)"

text \<open>What the operation appends to the log.\<close>

fun op_append :: "store_op \<Rightarrow> append option" where
  "op_append (OpSetLeaf coord v) = Some (Single (SetLeaf coord v))"
| "op_append (OpSetString coord v) = Some (Single (SetString coord v))"
| "op_append (OpSetPin d e pinned) = Some (Single (SetPin d e pinned))"
| "op_append (OpSetBatch writes) = Some (Batch (map write_record writes))"
| "op_append (OpEdit d (EditPinToTop e)) = Some (Single (SetPin d e True))"
| "op_append (OpEdit d (EditUnpinFromTop e)) = Some (Single (SetPin d e False))"
| "op_append _ = None"

definition op_records :: "store_op \<Rightarrow> nat" where
  "op_records p = (case op_append p of Some u \<Rightarrow> length (append_records u) | None \<Rightarrow> 0)"

text \<open>The ranges of the arguments: integers in their types and strings in UTF-8, and indices that stay
  below the sentinel.\<close>

definition op_ok :: "store_op \<Rightarrow> model \<Rightarrow> bool" where
  "op_ok p m \<longleftrightarrow>
     (case op_append p of Some u \<Rightarrow> append_ok u | None \<Rightarrow> True) \<and>
     (case p of OpExtendSchema elems edges \<Rightarrow>
        room (length elems) (dims (the_cube m)) \<and> list_all (\<lambda>e. in_i64 (gs_weight e)) edges | _ \<Rightarrow> True)"

section \<open>Stores that can take \<open>n\<close> more records\<close>

definition good :: "toml \<Rightarrow> nat \<Rightarrow> nat \<Rightarrow> model \<Rightarrow> sys \<Rightarrow> bool" where
  "good t cap n m = (\<lambda>(s, w). held s = m \<and> (\<exists>us. durable t cap s (disk w) us \<and> length (records_of us) + n \<le> cap))"

definition spec_models :: "model \<Rightarrow> persist_error + model \<Rightarrow> model list" where
  "spec_models m spec = m # (case spec of Inl _ \<Rightarrow> [] | Inr m' \<Rightarrow> [m'])"

definition refines :: "toml \<Rightarrow> nat \<Rightarrow> append set \<Rightarrow> nat \<Rightarrow> nat \<Rightarrow> model \<Rightarrow> persist_error + model \<Rightarrow> (sys \<Rightarrow> 'a io \<times> sys) \<Rightarrow> bool" where
  "refines t cap U k n m spec f \<longleftrightarrow> ensures (good t cap (k + n) m) f (\<lambda>_ x. \<exists>m'. spec = Inr m' \<and> good t cap n m' x)
     (\<lambda>(s, w). safe t cap U (spec_models m spec) (disk w))"

lemma goodE:
  assumes "good t cap n m x"
  obtains s w us where "x = (s, w)" "held s = m" "durable t cap s (disk w) us" "ready s us" "logged t cap (disk w) m us"
    "\<not> poisoned s" "length (records_of us) + n \<le> cap"
  using assms by (auto simp: good_def durable_def ready_def)

lemma goodI:
  "held s = m \<Longrightarrow> ready s us \<Longrightarrow> logged t cap (disk w) m us \<Longrightarrow> length (records_of us) + n \<le> cap \<Longrightarrow> good t cap n m (s, w)"
  by (auto simp: good_def durable_def)

lemma durable_good: "durable t cap s (disk w) [] \<Longrightarrow> n \<le> cap \<Longrightarrow> good t cap n (held s) (s, w)"
  unfolding good_def by (auto simp: records_of_def intro: exI [of _ "[]"])

lemma good_safe: "good t cap n m (s, w) \<Longrightarrow> m \<in> set ms \<Longrightarrow> safe t cap U ms (disk w)"
  by (auto simp: good_def safe_def dest: durable_recovers)

lemma safe_mono: "safe t cap U ms d \<Longrightarrow> set ms \<subseteq> set ms' \<Longrightarrow> safe t cap U ms' d"
  by (auto simp: safe_def)

lemma refinesI:
  assumes "\<And>x r x'. good t cap (k + n) m x \<Longrightarrow> f x = (r, x') \<Longrightarrow>
    (case r of Ok _ \<Rightarrow> \<exists>m'. spec = Inr m' \<and> good t cap n m' x' | _ \<Rightarrow> safe t cap U (spec_models m spec) (disk (snd x')))"
  shows "refines t cap U k n m spec f"
  unfolding refines_def
proof (rule ensuresI)
  fix x r x' assume "good t cap (k + n) m x" "f x = (r, x')"
  from assms [OF this] show "case r of Ok y \<Rightarrow> \<exists>m'. spec = Inr m' \<and> good t cap n m' x'
    | Err e \<Rightarrow> (case x' of (s, w) \<Rightarrow> safe t cap U (spec_models m spec) (disk w))
    | Stopped \<Rightarrow> (case x' of (s, w) \<Rightarrow> safe t cap U (spec_models m spec) (disk w))"
    by (cases r) (simp_all add: split_beta)
qed

text \<open>A refused operation.\<close>

lemma refines_refused:
  assumes "spec = Inl e'" and "\<And>s w. held s = m \<Longrightarrow> \<not> poisoned s \<Longrightarrow> f (s, w) = (Err e, s, w)"
  shows "refines t cap U k n m spec f"
proof (rule refinesI)
  fix x r x' assume g: "good t cap (k + n) m x" and f: "f x = (r, x')"
  from g obtain s w where x: "x = (s, w)" "held s = m" "\<not> poisoned s" by (rule goodE)
  from assms(2) [OF x(2,3)] f x(1) have "r = Err e" "x' = (s, w)" by auto
  with good_safe [of t cap "k + n" m s w] g show "case r of Ok _ \<Rightarrow> \<exists>m'. spec = Inr m' \<and> good t cap n m' x'
    | _ \<Rightarrow> safe t cap U (spec_models m spec) (disk (snd x'))" by (simp add: x(1) spec_models_def)
qed

section \<open>Checkpoints and staged definitions\<close>

lemma checkpoint_model_good:
  assumes t: "toml_ok t" and f: "fits cap m'" and m': "m' = (case staged of Some x \<Rightarrow> x | None \<Rightarrow> m)"
    and rf: "\<And>us. logged t cap d m us \<Longrightarrow> reflects (records_of us) (the_cube m')"
    and g: "good t cap n m (s, w)" "disk w = d" and c: "checkpoint_model t staged (s, w) = (r, x')"
  shows "case r of Ok _ \<Rightarrow> good t cap n m' x' \<and> (\<exists>s' w'. x' = (s', w') \<and> durable t cap s' (disk w') [])
    | _ \<Rightarrow> safe t cap U [m, m'] (disk (snd x'))"
proof -
  from g(1) obtain us where u: "held s = m" "ready s us" "logged t cap (disk w) m us" "length (records_of us) + n \<le> cap"
    by (auto elim!: goodE)
  have "reflects (records_of us) (the_cube m')" using rf u(3) g(2) by simp
  from ensuresD [OF checkpoint_ensures [OF t f this m'] _ c] u
  have C: "case r of Ok _ \<Rightarrow> (case x' of (s, w) \<Rightarrow> held s = m' \<and> durable t cap s (disk w) [])
     | _ \<Rightarrow> (case x' of (s, w) \<Rightarrow> safe t cap U [m, m'] (disk w))" by simp
  have "n \<le> cap" using u(4) by simp
  with C show ?thesis
    by (cases r; cases x') (auto intro: durable_good)
qed

lemma staged_refines:
  assumes t: "toml_ok t"
    and spec: "\<And>e. oper m = Inl e \<Longrightarrow> \<exists>e'. spec = Inl e'"
    and step: "\<And>y m'. oper m = Inr (y, m') \<Longrightarrow> spec = Inr m' \<and> fits cap m' \<and> kept (the_cube m) (the_cube m')"
    and f: "fits cap m"
  shows "refines t cap U 0 n m spec (staged_define t oper)"
proof (cases "oper m")
  case (Inl e)
  with spec obtain e' where "spec = Inl e'" by blast
  then show ?thesis by (rule refines_refused [where e = e]) (simp add: staged_define_def Inl)
next
  case (Inr ym)
  obtain y m' where ym: "oper m = Inr (y, m')" using Inr by (cases ym) simp
  from step [OF ym] have sp: "spec = Inr m'" and f': "fits cap m'" and k: "kept (the_cube m) (the_cube m')" by blast+
  have wf: "model_wf m" "cube_wf (the_cube m)" "cube_wf (the_cube m')" using f f' by (simp_all add: fits_def model_wf_def)
  show ?thesis
  proof (rule refinesI)
    fix x r x' assume g: "good t cap (0 + n) m x" and st: "staged_define t oper x = (r, x')"
    from g obtain s w where x: "x = (s, w)" "held s = m" "\<not> poisoned s" by (rule goodE)
    obtain r0 x0 where c: "checkpoint_model t (Some m') (s, w) = (r0, x0)" by (cases "checkpoint_model t (Some m') (s, w)")
    have rf: "reflects (records_of us) (the_cube m')" if "logged t cap (disk w) m us" for us
      by (rule kept_reflects [OF logged_reflects [OF that wf(1)] k wf(2,3)])
    from checkpoint_model_good [OF t f' _ rf _ refl c, where n = n] g x
    have "case r0 of Ok _ \<Rightarrow> good t cap n m' x0 | _ \<Rightarrow> safe t cap U [m, m'] (disk (snd x0))" by (cases r0) simp_all
    moreover have "bindA (checkpoint_model t (Some m')) (\<lambda>_. returnA y) (s, w) = (r, x')"
      using st x ym by (simp add: staged_define_def)
    ultimately show "case r of Ok _ \<Rightarrow> \<exists>m'. spec = Inr m' \<and> good t cap n m' x'
      | _ \<Rightarrow> safe t cap U (spec_models m spec) (disk (snd x'))"
      by (cases r0) (auto simp: bindA_def c returnA_def sp spec_models_def)
  qed
qed

lemma refines_unit_result: "refines t cap U k n m spec f \<Longrightarrow> refines t cap U k n m spec (unit_result f)"
  unfolding refines_def unit_result_def by (erule ensures_bind) (rule ensures_return)

text \<open>A removal: either staged, or nothing to do.\<close>

lemma removal_refines:
  assumes t: "toml_ok t" and f: "fits cap m" and f': "\<And>m'. removal present remove m = Inr m' \<Longrightarrow> fits cap m'"
    and cube: "the_cube (remove m) = the_cube m"
  shows "refines t cap U 0 n m (removal present remove m) (delete_when t present remove)"
proof (cases "present m")
  case False
  show ?thesis
  proof (rule refinesI)
    fix x r x' assume g: "good t cap (0 + n) m x" and d: "delete_when t present remove x = (r, x')"
    from g obtain s w where x: "x = (s, w)" "held s = m" by (rule goodE)
    with d False g show "case r of Ok _ \<Rightarrow> \<exists>m'. removal present remove m = Inr m' \<and> good t cap n m' x'
      | _ \<Rightarrow> safe t cap U (spec_models m (removal present remove m)) (disk (snd x'))"
      by (auto simp: delete_when_def removal_def)
  qed
next
  case True
  let ?st = "bindA (staged_define t (\<lambda>m. Inr ((), remove m))) (\<lambda>_. returnA True)"
  have st: "refines t cap U 0 n m (removal present remove m) ?st"
    unfolding refines_def
  proof (rule ensures_bind)
    have "refines t cap U 0 n m (removal present remove m) (staged_define t (\<lambda>m. Inr ((), remove m)))"
      by (rule staged_refines [OF t _ _ f]) (use True f' cube in \<open>auto simp: removal_def kept_def\<close>)
    then show "ensures (good t cap (0 + n) m) (staged_define t (\<lambda>m. Inr ((), remove m)))
        (\<lambda>_ x. \<exists>m'. removal present remove m = Inr m' \<and> good t cap n m' x)
        (\<lambda>(s, w). safe t cap U (spec_models m (removal present remove m)) (disk w))" by (simp add: refines_def)
  qed (rule ensures_return)
  show ?thesis
  proof (rule refinesI)
    fix x r x' assume g: "good t cap (0 + n) m x" and d: "delete_when t present remove x = (r, x')"
    from g obtain s w where x: "x = (s, w)" "held s = m" by (rule goodE)
    with d True have "?st x = (r, x')" by (simp add: delete_when_def)
    from ensuresD [OF st [unfolded refines_def] g this]
    show "case r of Ok _ \<Rightarrow> \<exists>m'. removal present remove m = Inr m' \<and> good t cap n m' x'
      | _ \<Rightarrow> safe t cap U (spec_models m (removal present remove m)) (disk (snd x'))"
      by (cases r) (simp_all add: split_beta)
  qed
qed

section \<open>Checkpoints on request\<close>

lemma checkpoint_good:
  assumes t: "toml_ok t" and f: "fits cap m" and g: "good t cap n m x" and c: "checkpoint t x = (r, x')"
  shows "case r of Ok _ \<Rightarrow> good t cap n m x' \<and> (\<exists>s' w'. x' = (s', w') \<and> durable t cap s' (disk w') [])
    | _ \<Rightarrow> safe t cap U [m] (disk (snd x'))"
proof -
  from g obtain s w where x: "x = (s, w)" "held s = m" "\<not> poisoned s" by (rule goodE)
  have wf: "model_wf m" using f by (simp add: fits_def)
  have "checkpoint_model t None (s, w) = (r, x')" using c x by (simp add: checkpoint_def)
  from checkpoint_model_good [OF t f _ logged_reflects [OF _ wf] _ refl this, where n = n and m = m] g x(1)
  show ?thesis by (cases r) (auto simp: safe_def)
qed

lemma auto_checkpoint_good:
  assumes "toml_ok t" and "fits cap m" and g: "good t cap n m x" and c: "maybe_auto_checkpoint t x = (r, x')"
  shows "case r of Ok _ \<Rightarrow> good t cap n m x' | _ \<Rightarrow> safe t cap U [m] (disk (snd x'))"
proof (cases "checkpoint t x = (r, x')")
  case True
  from checkpoint_good [OF assms(1-3) this] show ?thesis by (cases r) simp_all
next
  case False
  with c have "r = Ok () \<and> x' = x" by (cases x) (auto simp: maybe_auto_checkpoint_def split: if_splits)
  with g show ?thesis by simp
qed

lemma checkpoint_refines: "toml_ok t \<Longrightarrow> fits cap m \<Longrightarrow> refines t cap U 0 n m (Inr m) (checkpoint t)"
proof (rule refinesI)
  fix x r x' assume "toml_ok t" "fits cap m" "good t cap (0 + n) m x" "checkpoint t x = (r, x')"
  from checkpoint_good [OF this] show "case r of Ok _ \<Rightarrow> \<exists>m'. Inr m = Inr m' \<and> good t cap n m' x'
      | _ \<Rightarrow> safe t cap U (spec_models m (Inr m :: persist_error + model)) (disk (snd x'))"
    by (cases r) (auto simp: spec_models_def safe_def)
qed

text \<open>An edit that clears the log first.\<close>

lemma checkpointed_refines:
  assumes t: "toml_ok t" and f: "fits cap m" and f': "\<And>m'. edit m = Inr m' \<Longrightarrow> fits cap m'"
  shows "refines t cap U 0 n m (with_model edit m) (checkpointed_edit t edit)"
proof (rule refinesI)
  fix x r x' assume g: "good t cap (0 + n) m x" and c: "checkpointed_edit t edit x = (r, x')"
  let ?goal = "\<lambda>r x'. case r of Ok _ \<Rightarrow> \<exists>m'. with_model edit m = Inr m' \<and> good t cap n m' x'
      | _ \<Rightarrow> safe t cap U (spec_models m (with_model edit m)) (disk (snd x'))"
  obtain r0 x0 where c0: "checkpoint t x = (r0, x0)" by (cases "checkpoint t x")
  note C = checkpoint_good [OF t f g c0]
  show "?goal r x'"
  proof (cases r0)
    case (Ok u)
    with C obtain s w where g0: "good t cap n m (s, w)" and x0: "x0 = (s, w)" and nil: "durable t cap s (disk w) []" by auto
    have s: "held s = m" "\<not> poisoned s" using g0 nil by (simp_all add: good_def durable_def ready_def)
    have st: "staged_define t (model_edit edit) (s, w) = (r, x')" using c by (simp add: checkpointed_edit_def bindA_def c0 Ok x0)
    show ?thesis
    proof (cases "edit m")
      case (Inl e)
      with st s have "r = Err (PModel e)" "x' = (s, w)" by (simp_all add: staged_define_def model_edit_def)
      with good_safe [OF g0] show ?thesis by (simp add: Inl spec_models_def with_model_def)
    next
      case (Inr m')
      obtain r1 x1 where c1: "checkpoint_model t (Some m') (s, w) = (r1, x1)" by (cases "checkpoint_model t (Some m') (s, w)")
      have "ready s []" "logged t cap (disk w) m []" using nil s by (simp_all add: durable_def)
      moreover have "reflects (records_of []) (the_cube m')" by (simp add: reflects_def records_of_def)
      ultimately have C1: "case r1 of Ok _ \<Rightarrow> (case x1 of (s, w) \<Rightarrow> held s = m' \<and> durable t cap s (disk w) [])
          | _ \<Rightarrow> (case x1 of (s, w) \<Rightarrow> safe t cap U [m, m'] (disk w))"
        using ensuresD [OF checkpoint_ensures [OF t f' [OF Inr], where us = "[]" and staged = "Some m'" and m = m] _ c1] s
        by simp
      have "n \<le> cap" using g0 by (auto simp: good_def)
      have "bindA (checkpoint_model t (Some m')) (\<lambda>_. returnA ()) (s, w) = (r, x')"
        using st s Inr by (simp add: staged_define_def model_edit_def)
      with C1 \<open>n \<le> cap\<close> show ?thesis
        by (cases r1; cases x1) (auto simp: bindA_def c1 returnA_def with_model_def Inr spec_models_def intro: durable_good)
    qed
  qed (use C c in \<open>auto simp: checkpointed_edit_def bindA_def c0 spec_models_def safe_def\<close>)
qed

section \<open>Writes through the log\<close>

lemma extends_logI:
  assumes lg: "logged t cap d m us" and f: "fits cap m" and u: "append_ok u"
    and ap: "\<forall>r \<in> set (append_records u). applicable (dims (the_cube m)) r"
    and room: "length (records_of us) + length (append_records u) \<le> cap"
    and rep: "replay_records (append_records u) (the_cube m) = Inr c'"
  shows "extends_log t cap d m us u (m\<lparr>the_cube := c'\<rparr>)"
proof -
  have "model_wf m" "length (by_id (pool (the_cube m))) + cap \<le> u32_max" using f by (simp_all add: fits_def)
  from logged_extend [OF lg this(1) u ap room this(2) rep] lg u show ?thesis by (simp add: extends_log_def)
qed

lemma append_good:
  assumes "ready s us" and "held s = h" and "extends_log t cap (disk w) m us u m'" and "u \<in> U"
    and "length (records_of us) + length (append_records u) + n \<le> cap"
    and a: "append_wal (append_bytes u) (s, w) = (r, x')"
  shows "case r of Ok _ \<Rightarrow> (\<exists>s' w'. x' = (s', w') \<and> held s' = h \<and> ready s' (us @ [u]) \<and> logged t cap (disk w') m' (us @ [u]))
    | _ \<Rightarrow> safe t cap U [m, m'] (disk (snd x'))"
  using ensuresD [OF append_ensures [OF assms(3,4), of h] _ a] assms(1,2) by (cases r; cases x') simp_all

lemma applied_record:
  "replay_record r c = Inr c' \<Longrightarrow> record_ok r \<Longrightarrow> applicable (dims c) r"
  by (cases r) (auto simp: replay_record_def set_leaf_def set_string_def check_leaf_Inr check_string_Inr pin_target_def
      pin_element_to_top_def unpin_element_from_top_def dimension_index_def element_of_def
      split: if_splits option.splits)

lemma records_snoc [simp]: "records_of (us @ [u]) = records_of us @ append_records u"
  by (simp add: records_of_def)

lemma logged_write_refines:
  assumes t: "toml_ok t" and f: "fits cap m" and f': "\<And>m'. with_cube (replay_record r) m = Inr m' \<Longrightarrow> fits cap m'"
    and u: "append_ok (Single r)" "Single r \<in> U"
  shows "refines t cap U 1 n m (with_cube (replay_record r) m) (logged_write t (replay_record r) r)"
proof (cases "replay_record r (the_cube m)")
  case (Inl e)
  then show ?thesis by (intro refines_refused [where e = "PModel e"]) (simp_all add: with_cube_def logged_write_def)
next
  case (Inr c')
  let ?m' = "m\<lparr>the_cube := c'\<rparr>"
  have sp: "with_cube (replay_record r) m = Inr ?m'" by (simp add: with_cube_def Inr)
  note fm' = f' [OF sp]
  show ?thesis
    unfolding sp
  proof (rule refinesI)
    fix x :: sys and r' x' assume g: "good t cap (1 + n) m x" and lw: "logged_write t (replay_record r) r x = (r', x')"
    from g obtain s w us where x: "x = (s, w)" "held s = m" "ready s us" "logged t cap (disk w) m us" "\<not> poisoned s"
      "length (records_of us) + (1 + n) \<le> cap" by (rule goodE)
    let ?s = "s\<lparr>held := ?m'\<rparr>"
    have ex: "extends_log t cap (disk w) m us (Single r) ?m'"
      by (rule extends_logI [OF x(4) f u(1)]) (use applied_record [OF Inr] u(1) x(6) Inr in auto)
    obtain r0 x0 where a: "append_wal (encode r) (?s, w) = (r0, x0)" by (cases "append_wal (encode r) (?s, w)")
    have A: "case r0 of Ok _ \<Rightarrow> (\<exists>s' w'. x0 = (s', w') \<and> held s' = ?m' \<and> ready s' (us @ [Single r]) \<and>
        logged t cap (disk w') ?m' (us @ [Single r])) | _ \<Rightarrow> safe t cap U [m, ?m'] (disk (snd x0))"
      by (rule append_good [where us = us and h = ?m' and U = U and n = n and s = ?s]) (use x ex a u(2) in \<open>simp_all add: ready_def\<close>)
    have b: "bindA (append_wal (encode r)) (\<lambda>_. maybe_auto_checkpoint t) (?s, w) = (r', x')"
      using lw x by (simp add: logged_write_def Inr)
    show "case r' of Ok _ \<Rightarrow> \<exists>m'. Inr ?m' = Inr m' \<and> good t cap n m' x'
      | _ \<Rightarrow> safe t cap U (spec_models m (Inr ?m')) (disk (snd x'))"
    proof (cases r0)
      case (Ok y)
      with A obtain s' w' where x0: "x0 = (s', w')" "held s' = ?m'" "ready s' (us @ [Single r])"
        "logged t cap (disk w') ?m' (us @ [Single r])" by auto
      then have "good t cap n ?m' x0" using x(6) by (auto intro!: goodI [where us = "us @ [Single r]"])
      moreover have "maybe_auto_checkpoint t x0 = (r', x')" using b by (simp add: bindA_def a Ok)
      ultimately have "case r' of Ok _ \<Rightarrow> good t cap n ?m' x' | _ \<Rightarrow> safe t cap U [?m'] (disk (snd x'))"
        by (rule auto_checkpoint_good [OF t fm'])
      then show ?thesis by (cases r') (auto simp: spec_models_def safe_def)
    qed (use A b in \<open>auto simp: bindA_def a spec_models_def\<close>)
  qed
qed

section \<open>Batches\<close>

lemma replay_writes: "replay_records (map write_record ws) c = apply_writes ws c"
proof (induction ws arbitrary: c)
  case (Cons w ws)
  have "replay_record (write_record w) c =
      (case w of WriteLeaf coord v \<Rightarrow> set_leaf coord v c | WriteStr coord v \<Rightarrow> set_string coord v c)"
    by (cases w) (simp_all add: replay_record_def)
  moreover have "replay_records (map write_record ws) = apply_writes ws" by (rule ext) (rule Cons.IH)
  ultimately show ?case by simp
qed simp

lemma trial_writes:
  "(\<exists>k' e. trial_apply c k (batch_writes ws) = Inl (k', e)) \<or>
   (\<exists>c'. trial_apply c k (batch_writes ws) = Inr c' \<and> apply_writes ws c = Inr c')"
proof (induction ws arbitrary: c k)
  case (Cons w ws)
  have eq: "trial_write (batch_write_of w) c =
      (case w of WriteLeaf coord v \<Rightarrow> set_leaf coord v c | WriteStr coord v \<Rightarrow> set_string coord v c)"
    by (cases w) simp_all
  show ?case
  proof (cases "trial_write (batch_write_of w) c")
    case (Inr c1)
    with Cons.IH [of c1 "k + 1"] show ?thesis by (auto simp: batch_writes_def eq)
  qed (simp add: batch_writes_def)
qed (simp add: batch_writes_def)

text \<open>A validated batch applies.\<close>

lemma validated_applies:
  "validate_batch c (batch_writes ws) = Inr y \<Longrightarrow> \<exists>c'. apply_writes ws c = Inr c'"
  using trial_writes [of c 0 ws] by (auto simp: validate_batch_def batch_loop_trial)

lemma write_keeps_dims: "replay_record (write_record w) c = Inr c' \<Longrightarrow> dims c' = dims c"
  by (cases w) (auto simp: replay_record_def set_leaf_def set_string_def Let_def split: if_splits prod.splits sum.splits)

lemma applied_writes:
  "replay_records (map write_record ws) c = Inr c' \<Longrightarrow> \<forall>w \<in> set ws. record_ok (write_record w) \<Longrightarrow>
   \<forall>r \<in> set (map write_record ws). applicable (dims c) r"
proof (induction ws arbitrary: c)
  case (Cons w ws)
  then obtain c1 where c1: "replay_record (write_record w) c = Inr c1" "replay_records (map write_record ws) c1 = Inr c'" by auto
  from Cons.IH [OF c1(2)] Cons.prems(2) applied_record [OF c1(1)] write_keeps_dims [OF c1(1)] show ?case by simp
qed simp

lemma batch_frame_bytes: "length ws < 2 ^ 32 \<Longrightarrow> batch_frame ws = append_bytes (Batch (map write_record ws))"
  by (simp add: batch_frame_def as_u32_def comp_def)

lemma batch_refines:
  assumes t: "toml_ok t" and f: "fits cap m" and f': "\<And>m'. batch_spec ws m = Inr m' \<Longrightarrow> fits cap m'"
    and u: "append_ok (Batch (map write_record ws))" "Batch (map write_record ws) \<in> U"
  shows "refines t cap U (length ws) n m (batch_spec ws m) (store_set_batch t ws)"
proof (cases "validate_batch (the_cube m) (batch_writes ws)")
  case (Inl ie)
  obtain i e where "ie = (i, e)" by (cases ie)
  with Inl show ?thesis
    by (intro refines_refused [where e = "BatchRejected i e"]) (simp_all add: batch_spec_def store_set_batch_def)
next
  case (Inr y)
  from validated_applies [OF Inr] obtain c' where c': "apply_writes ws (the_cube m) = Inr c'" by blast
  let ?m' = "m\<lparr>the_cube := c'\<rparr>" and ?u = "Batch (map write_record ws)"
  have sp: "batch_spec ws m = Inr ?m'" by (simp add: batch_spec_def Inr with_cube_def c')
  note fm' = f' [OF sp]
  have rep: "replay_records (append_records ?u) (the_cube m) = Inr c'" by (simp add: replay_writes c')
  have fr: "batch_frame ws = append_bytes ?u" by (rule batch_frame_bytes) (use u(1) in simp)
  show ?thesis
    unfolding sp
  proof (rule refinesI)
    fix x :: sys and r' x' assume g: "good t cap (length ws + n) m x" and lw: "store_set_batch t ws x = (r', x')"
    from g obtain s w us where x: "x = (s, w)" "held s = m" "ready s us" "logged t cap (disk w) m us" "\<not> poisoned s"
      "length (records_of us) + (length ws + n) \<le> cap" by (rule goodE)
    have ex: "extends_log t cap (disk w) m us ?u ?m'"
      by (rule extends_logI [OF x(4) f u(1) _ _ rep])
        (use applied_writes [of ws "the_cube m" c'] rep u(1) x(6) in auto)
    obtain r0 x0 where a: "append_wal (append_bytes ?u) (s, w) = (r0, x0)" by (cases "append_wal (append_bytes ?u) (s, w)")
    have A: "case r0 of Ok _ \<Rightarrow> (\<exists>s' w'. x0 = (s', w') \<and> held s' = m \<and> ready s' (us @ [?u]) \<and>
        logged t cap (disk w') ?m' (us @ [?u])) | _ \<Rightarrow> safe t cap U [m, ?m'] (disk (snd x0))"
      by (rule append_good [OF x(3,2) ex u(2) _ a, of n]) (use x(6) in simp)
    have b: "bindA (append_wal (append_bytes ?u)) (\<lambda>_.
            bindA (\<lambda>(s, w). case apply_writes ws (the_cube (held s)) of
                     Inl _ \<Rightarrow> (Stopped, s, w)
                   | Inr c \<Rightarrow> (Ok (), s\<lparr>held := (held s)\<lparr>the_cube := c\<rparr>\<rparr>, w)) (\<lambda>_.
              maybe_auto_checkpoint t)) (s, w) = (r', x')"
      using lw x by (simp add: store_set_batch_def Inr fr)
    show "case r' of Ok _ \<Rightarrow> \<exists>m'. Inr ?m' = Inr m' \<and> good t cap n m' x'
      | _ \<Rightarrow> safe t cap U (spec_models m (Inr ?m')) (disk (snd x'))"
    proof (cases r0)
      case (Ok y)
      with A obtain s' w' where x0: "x0 = (s', w')" "held s' = m" "ready s' (us @ [?u])"
        "logged t cap (disk w') ?m' (us @ [?u])" by auto
      let ?s = "s'\<lparr>held := ?m'\<rparr>"
      have "good t cap n ?m' (?s, w')" using x(6) x0 by (intro goodI [where us = "us @ [?u]"]) (simp_all add: ready_def)
      moreover have "maybe_auto_checkpoint t (?s, w') = (r', x')" using b x0 by (simp add: bindA_def a Ok c' del: append_bytes.simps)
      ultimately have "case r' of Ok _ \<Rightarrow> good t cap n ?m' x' | _ \<Rightarrow> safe t cap U [?m'] (disk (snd x'))"
        by (rule auto_checkpoint_good [OF t fm'])
      then show ?thesis by (cases r') (auto simp: spec_models_def safe_def)
    qed (use A b in \<open>auto simp: bindA_def a spec_models_def simp del: append_bytes.simps\<close>)
  qed
qed

end
