(* ===== verification/Store_Runs.thy ===== *)
theory Store_Runs
  imports Store_Ops
begin

text \<open>
  Every operation of the store refines its promise, and so does a run of them: what a directory
  recovers to is the model after the acknowledged operations, or after the one in flight as well.
\<close>

section \<open>Each operation\<close>

lemma kept_refl [simp]: "kept c c"
  by (simp add: kept_def)

lemma staged_plain:
  assumes "toml_ok t" and "fits cap m" and "\<And>m'. spec = Inr m' \<Longrightarrow> fits cap m'"
    and "\<And>e. oper m = Inl e \<Longrightarrow> \<exists>e'. spec = Inl e'"
    and "\<And>y m'. oper m = Inr (y, m') \<Longrightarrow> spec = Inr m' \<and> kept (the_cube m) (the_cube m')"
  shows "refines t cap U 0 n m spec (staged_define t oper)"
  by (rule staged_refines [OF assms(1,4) _ assms(2)]) (use assms(3,5) in blast)+

lemma staged_cube_edit:
  assumes "toml_ok t" and "fits cap m" and "\<And>m'. with_cube f m = Inr m' \<Longrightarrow> fits cap m'"
    and "\<And>c'. f (the_cube m) = Inr c' \<Longrightarrow> kept (the_cube m) c'"
  shows "refines t cap U 0 n m (with_cube f m) (staged_define t (cube_edit f))"
  by (rule staged_plain [OF assms(1-3)])
    (use assms(4) in \<open>auto simp: with_cube_def cube_edit_def model_edit_def split: sum.splits\<close>)

lemma edit_refines:
  assumes t: "toml_ok t" and f: "fits cap m" and f': "\<And>m'. edit_spec d edit m = Inr m' \<Longrightarrow> fits cap m'"
    and ok: "op_ok (OpEdit d edit) m" and U: "\<And>u. op_append (OpEdit d edit) = Some u \<Longrightarrow> u \<in> U"
  shows "refines t cap U (op_records (OpEdit d edit)) n m (edit_spec d edit m) (edit_dimension t d edit)"
proof -
  have chk: "refines t cap U 0 n m (with_model g m) (checkpointed_edit t g)"
    if "edit_spec d edit = with_model g" for g
    by (rule checkpointed_refines [OF t f]) (use f' that in \<open>simp add: with_model_def\<close>)
  have pin: "refines t cap U (op_records (OpEdit d edit)) n m (edit_spec d edit m) (logged_write t (replay_record r) r)"
    if "op_append (OpEdit d edit) = Some (Single r)" "edit_spec d edit m = with_cube (replay_record r) m" for r
    unfolding that(2) op_records_def that(1)
    using logged_write_refines [OF t f, of r U n] f' ok that U by (simp add: op_ok_def)
  have rp: "replay_record (SetPin a b True) = pin_element_to_top a b" "replay_record (SetPin a b False) = unpin_element_from_top a b" for a b
    by (simp_all add: fun_eq_iff replay_record_def)
  show ?thesis
  proof (cases edit)
    case (EditRemoveChild p ch)
    from staged_cube_edit [OF t f, of "remove_child_element d p ch"] f' remove_child_kept show ?thesis
      by (simp add: EditRemoveChild edit_dimension_def store_remove_child_element_def op_records_def)
  next
    case (EditPinToTop e)
    from pin [of "SetPin d e True"] show ?thesis
      by (simp add: EditPinToTop edit_dimension_def store_set_pin_def rp)
  next
    case (EditUnpinFromTop e)
    from pin [of "SetPin d e False"] show ?thesis
      by (simp add: EditUnpinFromTop edit_dimension_def store_set_pin_def rp)
  qed (use chk in \<open>simp_all add: edit_dimension_def op_records_def\<close>)
qed

lemma overrides_refines:
  assumes t: "toml_ok t" and f: "fits cap m" and f': "\<And>m'. overrides_spec name ws updated m = Inr m' \<Longrightarrow> fits cap m'"
  shows "refines t cap U 0 n m (overrides_spec name ws updated m) (sandbox_set_cells t name ws updated)"
proof (cases "\<exists>m'. overrides_spec name ws updated m = Inr m'")
  case False
  then obtain e where "overrides_spec name ws updated m = Inl e" by (cases "overrides_spec name ws updated m") auto
  then show ?thesis
    by (intro refines_refused [where e = e])
      (auto simp: overrides_spec_def sandbox_set_cells_def split: if_splits sum.splits)
next
  case True
  let ?put = "\<lambda>m. Inr ((), with_sandbox name (put_overrides ws updated) m)"
  have sp: "overrides_spec name ws updated m = Inr (with_sandbox name (put_overrides ws updated) m)"
    using True by (auto simp: overrides_spec_def split: if_splits sum.splits)
  have st: "refines t cap U 0 n m (overrides_spec name ws updated m) (staged_define t ?put)"
    by (rule staged_plain [OF t f]) (use f' sp in \<open>auto simp: with_sandbox_def\<close>)
  show ?thesis
  proof (rule refinesI)
    fix x r x' assume g: "good t cap (0 + n) m x" and d: "sandbox_set_cells t name ws updated x = (r, x')"
    from g obtain s w where x: "x = (s, w)" "held s = m" by (rule goodE)
    with d True have "staged_define t ?put x = (r, x')"
      by (auto simp: sandbox_set_cells_def overrides_spec_def split: if_splits sum.splits)
    from ensuresD [OF st [unfolded refines_def] g this]
    show "case r of Ok _ \<Rightarrow> \<exists>m'. overrides_spec name ws updated m = Inr m' \<and> good t cap n m' x'
      | _ \<Rightarrow> safe t cap U (spec_models m (overrides_spec name ws updated m)) (disk (snd x'))"
      by (cases r) (simp_all add: split_beta)
  qed
qed

lemma extend_refines:
  assumes t: "toml_ok t" and f: "fits cap m" and ok: "op_ok (OpExtendSchema elems edges) m"
    and f': "\<And>m'. op_spec (OpExtendSchema elems edges) m = Inr m' \<Longrightarrow> fits cap m'"
  shows "refines t cap U 0 n m (op_spec (OpExtendSchema elems edges) m) (store_extend_schema t elems edges)"
  unfolding store_extend_schema_def
proof (rule staged_plain [OF t f])
  have wf: "cube_wf (the_cube m)" using f by (simp add: fits_def model_wf_def)
  have "kept (the_cube m) c" if "extend_schema elems edges (the_cube m) = Inr (k, c)" for k c
    by (rule extend_schema_kept [OF wf _ _ that]) (use ok in \<open>simp_all add: op_ok_def list_all_iff\<close>)
  then show "op_spec (OpExtendSchema elems edges) m = Inr m' \<and> kept (the_cube m) (the_cube m')"
    if "(case extend_schema elems edges (the_cube m) of Inl e \<Rightarrow> Inl (PModel e) | Inr (n, c) \<Rightarrow> Inr (n, m\<lparr>the_cube := c\<rparr>)) = Inr (y, m')"
    for y m'
    using that by (auto simp: with_cube_def split: sum.splits)
  show "op_spec (OpExtendSchema elems edges) m = Inr m' \<Longrightarrow> fits cap m'" for m' by (rule f')
qed (auto simp: with_cube_def split: sum.splits)

lemma run_op_refines:
  assumes t: "toml_ok t" and f: "fits cap m" and ok: "op_ok p m" and f': "\<And>m'. op_spec p m = Inr m' \<Longrightarrow> fits cap m'"
    and U: "\<And>u. op_append p = Some u \<Longrightarrow> u \<in> U"
  shows "refines t cap U (op_records p) n m (op_spec p m) (run_op t p)"
proof -
  have logged: "refines t cap U (op_records p) n m (op_spec p m) (logged_write t (replay_record r) r)"
    if "op_append p = Some (Single r)" "op_spec p m = with_cube (replay_record r) m" for r
    unfolding that(2) op_records_def that(1)
    using logged_write_refines [OF t f, of r U n] f' ok that U by (simp add: op_ok_def)
  have plain: "refines t cap U (op_records p) n m (op_spec p m) (run_op t p)"
    if "run_op t p = staged_define t oper" "op_append p = None" "\<And>e. oper m = Inl e \<Longrightarrow> \<exists>e'. op_spec p m = Inl e'"
      "\<And>y m'. oper m = Inr (y, m') \<Longrightarrow> op_spec p m = Inr m' \<and> kept (the_cube m) (the_cube m')"
    for oper :: "model \<Rightarrow> persist_error + unit \<times> model"
    unfolding that(1) op_records_def that(2) option.case by (rule staged_plain [OF t f f' that(3,4)])
  note rem = removal_refines [OF t f]
  have rr: "replay_record (SetLeaf k v) = set_leaf k v" "replay_record (SetString k s) = set_string k s"
    "replay_record (SetPin a b c) = (if c then pin_element_to_top a b else unpin_element_from_top a b)" for k v s a b c
    by (simp_all add: fun_eq_iff replay_record_def)
  show ?thesis
  proof (cases p)
    case (OpSetLeaf k v)
    from logged [of "SetLeaf k v"] show ?thesis by (simp add: OpSetLeaf store_set_leaf_def rr)
  next
    case (OpSetString k v)
    from logged [of "SetString k v"] show ?thesis by (simp add: OpSetString store_set_string_def rr)
  next
    case (OpSetPin a b c)
    from logged [of "SetPin a b c"] show ?thesis by (simp add: OpSetPin store_set_pin_def rr)
  next
    case (OpSetBatch ws)
    from batch_refines [OF t f, of ws U n] f' ok U show ?thesis by (simp add: OpSetBatch op_records_def op_ok_def)
  next
    case (OpDefineSubset s)
    show ?thesis
      by (rule plain [OF trans [OF _ define_subset_def [of t s]]]) (auto simp: OpDefineSubset checked_def split: sum.splits)
  next
    case (OpDefineView v)
    show ?thesis
      by (rule plain [OF trans [OF _ define_view_def [of t v]]]) (auto simp: OpDefineView checked_def split: sum.splits)
  next
    case (OpDefineRules source)
    show ?thesis
      by (rule plain [OF trans [OF _ define_rules_def [of t source]]]) (auto simp: OpDefineRules checked_def split: sum.splits)
  next
    case (OpDefineTest test)
    show ?thesis
      by (rule plain [OF trans [OF _ define_rule_test_def [of t test]]]) (auto simp: OpDefineTest checked_def split: sum.splits)
  next
    case (OpDefineSandbox sb)
    show ?thesis
      by (rule plain [OF trans [OF _ define_sandbox_def [of t sb]]]) (auto simp: OpDefineSandbox checked_def split: sum.splits)
  next
    case (OpSandboxCells name ws updated)
    from overrides_refines [OF t f] f' show ?thesis by (simp add: OpSandboxCells op_records_def)
  next
    case (OpExtendSchema elems edges)
    from refines_unit_result [OF extend_refines [OF t f ok [unfolded OpExtendSchema]]] f' show ?thesis
      by (simp add: OpExtendSchema op_records_def)
  next
    case (OpDefineAttribute d name kind)
    from staged_cube_edit [OF t f, of "define_attribute d name kind"] f' define_attribute_kept show ?thesis
      by (simp add: OpDefineAttribute store_define_attribute_def op_records_def)
  next
    case (OpSetAttributes d a vs)
    from staged_cube_edit [OF t f, of "set_attribute_values d a vs"] f' set_attribute_values_kept show ?thesis
      by (simp add: OpSetAttributes store_set_attribute_values_def op_records_def)
  next
    case (OpEdit d edit)
    from edit_refines [OF t f, of d edit U n] f' ok U show ?thesis by (simp add: OpEdit)
  next
    case OpCheckpoint
    from checkpoint_refines [OF t f] show ?thesis by (simp add: OpCheckpoint op_records_def)
  qed (use f' in \<open>auto intro!: refines_unit_result rem simp: op_records_def delete_subset_def delete_view_def delete_rules_def
      delete_rule_test_def delete_sandbox_def\<close>)
qed

section \<open>Runs of operations\<close>

text \<open>A run stops at the first operation that is not acknowledged; it gives the number of those
  that were. \<open>trace\<close> lists the models the operations promise, from the first one on.\<close>

fun run_all :: "('p \<Rightarrow> 'x \<Rightarrow> unit io \<times> 'x) \<Rightarrow> 'p list \<Rightarrow> 'x \<Rightarrow> nat \<times> unit io \<times> 'x" where
  "run_all run [] x = (0, Ok (), x)"
| "run_all run (p # ps) x =
     (case run p x of
        (Ok _, x') \<Rightarrow> (case run_all run ps x' of (k, r) \<Rightarrow> (Suc k, r))
      | (r, x') \<Rightarrow> (0, r, x'))"

fun trace :: "('p \<Rightarrow> 'm \<Rightarrow> 'e + 'm) \<Rightarrow> 'p list \<Rightarrow> 'm \<Rightarrow> 'm list" where
  "trace spec [] m = [m]"
| "trace spec (p # ps) m = m # (case spec p m of Inl _ \<Rightarrow> [] | Inr m' \<Rightarrow> trace spec ps m')"

fun all_allowed :: "('p \<Rightarrow> 'm \<Rightarrow> 'e + 'm) \<Rightarrow> ('p \<Rightarrow> 'm \<Rightarrow> bool) \<Rightarrow> 'p list \<Rightarrow> 'm \<Rightarrow> bool" where
  "all_allowed spec allowed [] m = True"
| "all_allowed spec allowed (p # ps) m =
     (allowed p m \<and> (case spec p m of Inl _ \<Rightarrow> True | Inr m' \<Rightarrow> all_allowed spec allowed ps m'))"

locale recoverable =
  fixes run :: "'p \<Rightarrow> 'x \<Rightarrow> unit io \<times> 'x" and spec :: "'p \<Rightarrow> 'm \<Rightarrow> 'e + 'm" and allowed :: "'p \<Rightarrow> 'm \<Rightarrow> bool"
    and cost :: "'p \<Rightarrow> nat" and holds :: "nat \<Rightarrow> 'm \<Rightarrow> 'x \<Rightarrow> bool" and recovers_to :: "'x \<Rightarrow> 'm \<Rightarrow> bool"
    and lost :: "'p \<Rightarrow> 'x \<Rightarrow> bool"
  assumes acknowledged: "allowed p m \<Longrightarrow> holds (cost p + n) m x \<Longrightarrow> run p x = (Ok (), x') \<Longrightarrow>
      \<exists>m'. spec p m = Inr m' \<and> holds n m' x'"
    and interrupted: "allowed p m \<Longrightarrow> holds (cost p + n) m x \<Longrightarrow> run p x = (r, x') \<Longrightarrow> r \<noteq> Ok () \<Longrightarrow>
      recovers_to x' m \<or> (\<exists>m'. spec p m = Inr m' \<and> recovers_to x' m') \<or> lost p x'"
    and at_rest: "holds n m x \<Longrightarrow> recovers_to x m"
begin

lemma run_all_recovers:
  assumes "all_allowed spec allowed ps m" and "holds (sum_list (map cost ps) + n) m x" and "run_all run ps x = (k, r, x')"
  shows "k < length (trace spec ps m) \<and>
    (r = Ok () \<longrightarrow> k = length ps \<and> holds n (trace spec ps m ! k) x') \<and>
    (recovers_to x' (trace spec ps m ! k) \<or> (Suc k < length (trace spec ps m) \<and> recovers_to x' (trace spec ps m ! Suc k)) \<or>
     (k < length ps \<and> lost (ps ! k) x'))"
  using assms
proof (induction ps arbitrary: m x k)
  case Nil
  then show ?case using at_rest by auto
next
  case (Cons p ps)
  obtain r0 x0 where p: "run p x = (r0, x0)" by (cases "run p x")
  have al: "allowed p m" and h: "holds (cost p + (sum_list (map cost ps) + n)) m x" using Cons.prems by (simp_all add: add.assoc)
  show ?case
  proof (cases "r0 = Ok ()")
    case True
    from acknowledged [OF al h p [unfolded True]] obtain m' where m': "spec p m = Inr m'"
      "holds (sum_list (map cost ps) + n) m' x0" by blast
    obtain j where j: "run_all run ps x0 = (j, r, x')" "k = Suc j"
      using Cons.prems(3) p True by (auto split: prod.splits)
    have "all_allowed spec allowed ps m'" using Cons.prems(1) m'(1) by simp
    from Cons.IH [OF this m'(2) j(1)] show ?thesis by (auto simp: m'(1) j(2))
  next
    case False
    then have "k = 0" "r = r0" "x' = x0" using Cons.prems(3) p by (cases r0; simp)+
    moreover from interrupted [OF al h p False] have
      "recovers_to x0 m \<or> (\<exists>m'. spec p m = Inr m' \<and> recovers_to x0 m') \<or> lost p x0" .
    moreover have "trace spec ps m' \<noteq> []" "trace spec ps m' ! 0 = m'" for m' by (cases ps; simp)+
    ultimately show ?thesis using False by auto
  qed
qed

end

text \<open>The store keeps this contract.\<close>

definition allowed_op :: "toml \<Rightarrow> nat \<Rightarrow> store_op \<Rightarrow> model \<Rightarrow> bool" where
  "allowed_op t cap p m \<longleftrightarrow> toml_ok t \<and> fits cap m \<and> op_ok p m \<and>
     (case op_spec p m of Inl _ \<Rightarrow> True | Inr m' \<Rightarrow> fits cap m')"

definition lost_sys :: "toml \<Rightarrow> store_op \<Rightarrow> sys \<Rightarrow> bool" where
  "lost_sys t p x \<longleftrightarrow> (\<exists>u. op_append p = Some u \<and> mistaken t u (disk (snd x)))"

definition recovers_sys :: "toml \<Rightarrow> nat \<Rightarrow> sys \<Rightarrow> model \<Rightarrow> bool" where
  "recovers_sys t cap x m = recovers t cap (disk (snd x)) m"

lemma allowed_refines:
  assumes "allowed_op t cap p m" and "good t cap (op_records p + n) m x" and "run_op t p x = (r, x')"
  shows "case r of Ok _ \<Rightarrow> \<exists>m'. op_spec p m = Inr m' \<and> good t cap n m' x'
    | _ \<Rightarrow> safe t cap (set_option (op_append p)) (spec_models m (op_spec p m)) (disk (snd x'))"
proof -
  have "refines t cap (set_option (op_append p)) (op_records p) n m (op_spec p m) (run_op t p)"
    using assms(1) by (intro run_op_refines) (auto simp: allowed_op_def)
  from ensuresD [OF this [unfolded refines_def] assms(2,3)] show ?thesis by (cases r) (simp_all add: split_beta)
qed

interpretation stored: recoverable "run_op t" op_spec "allowed_op t cap" op_records "good t cap" "recovers_sys t cap" "lost_sys t"
  for t cap
proof
  fix p m n x r x'
  assume A: "allowed_op t cap p m" "good t cap (op_records p + n) m x" "run_op t p x = (r, x')"
  from allowed_refines [OF this] show "r \<noteq> Ok () \<Longrightarrow> recovers_sys t cap x' m \<or>
      (\<exists>m'. op_spec p m = Inr m' \<and> recovers_sys t cap x' m') \<or> lost_sys t p x'"
    by (cases r) (auto simp: safe_def spec_models_def recovers_sys_def lost_sys_def split: sum.splits)
next
  fix p m n x x'
  assume "allowed_op t cap p m" "good t cap (op_records p + n) m x" "run_op t p x = (Ok (), x')"
  from allowed_refines [OF this] show "\<exists>m'. op_spec p m = Inr m' \<and> good t cap n m' x'" by simp
next
  fix n m x
  assume "good t cap n m x"
  then show "recovers_sys t cap x m" by (auto simp: good_def recovers_sys_def dest: durable_recovers)
qed

section \<open>Committing a sandbox\<close>

lemma commit_validates:
  assumes wf: "model_wf m" and sb: "lookup_sandbox m name = Some sb"
  shows "validate_batch (the_cube m) (batch_writes (sandbox_writes sb)) = Inr ()"
proof -
  let ?c = "the_cube m"
  have "sb \<in> snd ` set (sandboxes m)" using sb by (force simp: lookup_sandbox_def dest: map_of_SomeD)
  with wf have ok: "overrides_ok (dims ?c) sb" by (auto simp: model_wf_def)
  have all: "\<forall>w \<in> set (batch_writes (sandbox_writes sb)). check_write ?c w = Inr ()"
    using overrides_okD(3,4) [OF ok] check_leaf_Inr [of ?c] check_string_Inr [of ?c]
    by (force simp: batch_writes_def sandbox_writes_def check_write_def)
  have "batch_loop ?c k ws = Inr ()" if "\<forall>w \<in> set ws. check_write ?c w = Inr ()" for k ws
    using that by (induction ws arbitrary: k) simp_all
  with all show ?thesis by (simp add: validate_batch_def)
qed

lemma commit_spec:
  assumes "model_wf m" and "lookup_sandbox m name = Some sb"
  obtains c where "batch_spec (sandbox_writes sb) m = Inr (m\<lparr>the_cube := c\<rparr>)"
    "apply_writes (sandbox_writes sb) (the_cube m) = Inr c"
  using commit_validates [OF assms] validated_applies [OF commit_validates [OF assms]]
  by (auto simp: batch_spec_def with_cube_def)

lemma commit_refines:
  assumes t: "toml_ok t" and f: "fits cap m" and sb: "lookup_sandbox m name = Some sb"
    and u: "append_ok (Batch (map write_record (sandbox_writes sb)))" "Batch (map write_record (sandbox_writes sb)) \<in> U"
    and m1: "batch_spec (sandbox_writes sb) m = Inr m1" "fits cap m1"
    and m2: "m2 = with_sandbox name (clear_overrides updated) m1" "fits cap m2"
    and g: "good t cap (length (sandbox_writes sb) + n) m x" and c: "commit_sandbox t name updated x = (r, x')"
  shows "case r of Ok _ \<Rightarrow> good t cap n m2 x' | _ \<Rightarrow> safe t cap U [m, m1, m2] (disk (snd x'))"
proof -
  let ?E = "\<lambda>(s, w). safe t cap U [m, m1, m2] (disk w)"
  have "refines t cap U (length (sandbox_writes sb)) n m (Inr m1) (store_set_batch t (sandbox_writes sb))"
    using batch_refines [OF t f _ u] m1 by simp
  then have 1: "ensures (good t cap (length (sandbox_writes sb) + n) m) (store_set_batch t (sandbox_writes sb))
      (\<lambda>_. good t cap n m1) ?E"
    unfolding refines_def by (rule ensures_conseq) (auto simp: spec_models_def elim: safe_mono)
  have "refines t cap U 0 n m1 (Inr m2) (staged_define t (\<lambda>m. Inr ((), with_sandbox name (clear_overrides updated) m)))"
    by (rule staged_plain [OF t m1(2)]) (use m2 in \<open>auto simp: with_sandbox_def\<close>)
  then have 2: "ensures (good t cap n m1) (staged_define t (\<lambda>m. Inr ((), with_sandbox name (clear_overrides updated) m)))
      (\<lambda>_. good t cap n m2) ?E"
    unfolding refines_def by (rule ensures_conseq) (auto simp: spec_models_def elim: safe_mono)
  from g obtain s w where x: "x = (s, w)" "held s = m" by (rule goodE)
  have "bindA (store_set_batch t (sandbox_writes sb)) (\<lambda>_.
      staged_define t (\<lambda>m. Inr ((), with_sandbox name (clear_overrides updated) m))) x = (r, x')"
    using c x sb by (simp add: commit_sandbox_def)
  from ensuresD [OF ensures_bind [OF 1 2] g this] show ?thesis by (cases r) (simp_all add: split_beta)
qed

end
