(* ===== verification/Store_Progress.thy ===== *)
theory Store_Progress
  imports Store_Runs
begin

text \<open>
  On a disk that works every operation the model accepts is acknowledged: from a store that is not
  poisoned, with no failure left in the script, the run of the operation returns \<open>Ok\<close> and the
  store holds the promised model.
\<close>

definition calm :: "model \<Rightarrow> sys \<Rightarrow> bool" where
  "calm m x \<longleftrightarrow> held (fst x) = m \<and> \<not> poisoned (fst x) \<and> script (snd x) = []"

definition prints :: "toml \<Rightarrow> model \<Rightarrow> bool" where
  "prints t m \<longleftrightarrow> (\<exists>doc. to_model_text t m = Inr doc)"

abbreviation succeeds :: "(sys \<Rightarrow> bool) \<Rightarrow> (sys \<Rightarrow> 'a io \<times> sys) \<Rightarrow> ('a \<Rightarrow> sys \<Rightarrow> bool) \<Rightarrow> bool" where
  "succeeds P f Q \<equiv> ensures P f Q (\<lambda>_. False)"

lemma succeedsI: "(\<And>x. P x \<Longrightarrow> \<exists>y x'. f x = (Ok y, x') \<and> Q y x') \<Longrightarrow> succeeds P f Q"
  by (fastforce simp: ensures_def)

lemma succeedsD: "succeeds P f Q \<Longrightarrow> P x \<Longrightarrow> \<exists>y x'. f x = (Ok y, x') \<and> Q y x'"
  using ensuresD [of P f Q "\<lambda>_. False" x "fst (f x)" "snd (f x)"] by (cases "f x"; cases "fst (f x)") simp_all

lemmas calm_calls = bindA_def returnA_def call_def atomic_call_def no_effect_def wal_write_def wal_set_len_def wal_sync_def
  on_world_def on_store_def seek_to_def liftE_def or_poison_def

lemma checkpoint_model_calm:
  assumes "prints t m'" and m': "m' = (case staged of Some x \<Rightarrow> x | None \<Rightarrow> m)"
  shows "succeeds (calm m) (checkpoint_model t staged) (\<lambda>_. calm m')"
proof (rule succeedsI)
  fix x assume x: "calm m x"
  obtain doc where doc: "to_model_text t m' = Inr doc" using assms(1) by (auto simp: prints_def)
  obtain s w where sw: "x = (s, w)" by (cases x)
  have "held s = m" "\<not> poisoned s" "script w = []" using x by (simp_all add: sw calm_def)
  then show "\<exists>y x'. checkpoint_model t staged x = (Ok y, x') \<and> calm m' x'"
    using doc by (cases staged) (simp_all add: sw m' checkpoint_model_def write_snapshot_def calm_calls calm_def)
qed

lemma checkpoint_calm: "prints t m \<Longrightarrow> succeeds (calm m) (checkpoint t) (\<lambda>_. calm m)"
  using succeedsD [OF checkpoint_model_calm [where staged = None and m = m], of t m]
  by (intro succeedsI) (auto simp: checkpoint_def calm_def)

lemma auto_checkpoint_calm: "prints t m \<Longrightarrow> succeeds (calm m) (maybe_auto_checkpoint t) (\<lambda>_. calm m)"
  using succeedsD [OF checkpoint_calm [of t m]] by (intro succeedsI) (auto simp: maybe_auto_checkpoint_def)

lemma append_calm: "succeeds (calm m) (append_wal bytes) (\<lambda>_. calm m)"
proof (rule succeedsI)
  fix x assume x: "calm m x"
  obtain s w where sw: "x = (s, w)" by (cases x)
  have "held s = m" "\<not> poisoned s" "script w = []" using x by (simp_all add: sw calm_def)
  then show "\<exists>y x'. append_wal bytes x = (Ok y, x') \<and> calm m x'"
    by (cases "sync_on_write s") (simp_all add: sw append_wal_def calm_calls calm_def)
qed

lemma logged_write_calm:
  assumes "with_cube change m = Inr m'" and "prints t m'"
  shows "succeeds (calm m) (logged_write t change r) (\<lambda>_. calm m')"
proof (rule succeedsI)
  fix x assume x: "calm m x"
  obtain s w where sw: "x = (s, w)" by (cases x)
  obtain c where c: "change (the_cube m) = Inr c" "m' = m\<lparr>the_cube := c\<rparr>" using assms(1) by (auto simp: with_cube_def split: sum.splits)
  have "calm m' (s\<lparr>held := m'\<rparr>, w)" using x by (simp add: calm_def sw)
  from succeedsD [OF ensures_bind [OF append_calm auto_checkpoint_calm [OF assms(2)]] this]
  show "\<exists>y x'. logged_write t change r x = (Ok y, x') \<and> calm m' x'"
    using x c by (simp add: sw logged_write_def calm_def)
qed

lemma batch_calm:
  assumes "batch_spec ws m = Inr m'" and "prints t m'"
  shows "succeeds (calm m) (store_set_batch t ws) (\<lambda>_. calm m')"
proof (rule succeedsI)
  fix x assume x: "calm m x"
  obtain s w where sw: "x = (s, w)" by (cases x)
  obtain y c where v: "validate_batch (the_cube m) (batch_writes ws) = Inr y" and c: "apply_writes ws (the_cube m) = Inr c"
    "m' = m\<lparr>the_cube := c\<rparr>" using assms(1) by (auto simp: batch_spec_def with_cube_def split: sum.splits)
  let ?put = "\<lambda>(s, w). case apply_writes ws (the_cube (held s)) of
       Inl _ \<Rightarrow> (Stopped, s, w) | Inr c \<Rightarrow> (Ok (), s\<lparr>held := (held s)\<lparr>the_cube := c\<rparr>\<rparr>, w)"
  have put: "succeeds (calm m) ?put (\<lambda>_. calm m')"
    by (rule succeedsI) (use c in \<open>auto simp: calm_def\<close>)
  from succeedsD [OF ensures_bind [OF append_calm ensures_bind [OF put auto_checkpoint_calm [OF assms(2)]]] x]
  show "\<exists>y x'. store_set_batch t ws x = (Ok y, x') \<and> calm m' x'"
    using x v by (simp add: sw store_set_batch_def calm_def)
qed

lemma staged_calm:
  assumes "oper m = Inr (y, m')" and "prints t m'"
  shows "succeeds (calm m) (staged_define t oper) (\<lambda>_. calm m')"
proof (rule succeedsI)
  fix x assume x: "calm m x"
  have "succeeds (calm m) (bindA (checkpoint_model t (Some m')) (\<lambda>_. returnA y)) (\<lambda>_. calm m')"
    by (rule ensures_bind [OF checkpoint_model_calm [OF assms(2)]]) (auto intro: ensures_return)
  from succeedsD [OF this x] show "\<exists>y x'. staged_define t oper x = (Ok y, x') \<and> calm m' x'"
    using x assms(1) by (cases x) (simp add: staged_define_def calm_def)
qed

lemma unit_result_calm: "succeeds P f (\<lambda>_. Q) \<Longrightarrow> succeeds P (unit_result f) (\<lambda>_. Q)"
  unfolding unit_result_def by (erule ensures_bind) (rule ensures_return)

lemma removal_calm:
  assumes "removal present remove m = Inr m'" and "prints t m'"
  shows "succeeds (calm m) (delete_when t present remove) (\<lambda>_. calm m')"
proof (rule succeedsI)
  fix x assume x: "calm m x"
  show "\<exists>y x'. delete_when t present remove x = (Ok y, x') \<and> calm m' x'"
  proof (cases "present m")
    case True
    then have "succeeds (calm m) (staged_define t (\<lambda>m. Inr ((), remove m))) (\<lambda>_. calm m')"
      using assms by (intro staged_calm) (auto simp: removal_def)
    then have "succeeds (calm m) (bindA (staged_define t (\<lambda>m. Inr ((), remove m))) (\<lambda>_. returnA True)) (\<lambda>_. calm m')"
      by (rule ensures_bind) (rule ensures_return)
    from succeedsD [OF this x] x True show ?thesis
      by (cases x) (simp add: delete_when_def calm_def)
  qed (use x assms(1) in \<open>cases x; auto simp: delete_when_def calm_def removal_def\<close>)
qed

lemma checkpointed_calm:
  assumes "with_model edit m = Inr m'" and "prints t m" and "prints t m'"
  shows "succeeds (calm m) (checkpointed_edit t edit) (\<lambda>_. calm m')"
  unfolding checkpointed_edit_def
  by (rule ensures_bind [OF checkpoint_calm [OF assms(2)]], rule staged_calm [where y = "()"])
    (use assms in \<open>auto simp: model_edit_def with_model_def split: sum.splits\<close>)

lemma cube_edit_calm:
  assumes "with_cube f m = Inr m'" and "prints t m'"
  shows "succeeds (calm m) (staged_define t (cube_edit f)) (\<lambda>_. calm m')"
  by (rule staged_calm [where y = "()"]) (use assms in \<open>auto simp: cube_edit_def model_edit_def with_cube_def split: sum.splits\<close>)

lemma overrides_calm:
  assumes "overrides_spec name ws updated m = Inr m'" and "prints t m'"
  shows "succeeds (calm m) (sandbox_set_cells t name ws updated) (\<lambda>_. calm m')"
proof (rule succeedsI)
  fix x assume x: "calm m x"
  have m': "m' = with_sandbox name (put_overrides ws updated) m"
    using assms(1) by (auto simp: overrides_spec_def split: if_splits sum.splits)
  have "succeeds (calm m) (staged_define t (\<lambda>m. Inr ((), with_sandbox name (put_overrides ws updated) m))) (\<lambda>_. calm m')"
    by (rule staged_calm) (use m' assms(2) in simp_all)
  from succeedsD [OF this x] show "\<exists>y x'. sandbox_set_cells t name ws updated x = (Ok y, x') \<and> calm m' x'"
    using x assms(1) by (cases x) (auto simp: sandbox_set_cells_def overrides_spec_def calm_def split: if_splits sum.splits)
qed

lemma edit_calm:
  assumes "edit_spec d edit m = Inr m'" and "prints t m" and "prints t m'"
  shows "succeeds (calm m) (edit_dimension t d edit) (\<lambda>_. calm m')"
  using assms
  by (cases edit) (simp_all add: edit_dimension_def store_remove_child_element_def store_set_pin_def checkpointed_calm
      cube_edit_calm logged_write_calm)

lemma run_op_calm:
  assumes "op_spec p m = Inr m'" and "prints t m" and "prints t m'"
  shows "succeeds (calm m) (run_op t p) (\<lambda>_. calm m')"
proof (cases p)
  case (OpExtendSchema elems edges)
  with assms(1) obtain n c where "extend_schema elems edges (the_cube m) = Inr (n, c)" "m' = m\<lparr>the_cube := c\<rparr>"
    by (auto simp: with_cube_def split: sum.splits)
  with assms(3) show ?thesis
    by (simp add: OpExtendSchema store_extend_schema_def unit_result_calm staged_calm)
next
  case (OpDefineSubset s)
  with assms show ?thesis
    by (auto simp: define_subset_def checked_def split: sum.splits intro!: staged_calm)
next
  case (OpDefineView v)
  with assms show ?thesis
    by (auto simp: define_view_def checked_def split: sum.splits intro!: staged_calm)
qed (use assms in \<open>simp_all add: store_set_leaf_def store_set_string_def store_set_pin_def logged_write_calm batch_calm
    define_rules_def define_rule_test_def define_sandbox_def staged_calm overrides_calm edit_calm checkpoint_calm
    store_define_attribute_def store_set_attribute_values_def cube_edit_calm unit_result_calm removal_calm
    delete_subset_def delete_view_def delete_rules_def delete_rule_test_def delete_sandbox_def\<close>)

end
