(* ===== verification/Store_Sample.thy ===== *)
theory Store_Sample
  imports Store_Progress Core_Properties Wal_Properties
begin

text \<open>
  A concrete store for the witnesses: a printer and parser of snapshot texts that knows a list of
  documents, models over the sample cube, and a directory with a snapshot and an empty log.
\<close>

section \<open>Snapshot texts\<close>

definition toml_table :: "model_doc list \<Rightarrow> toml" where
  "toml_table docs =
     \<lparr>toml_print = (\<lambda>d. map_option (\<lambda>i. replicate i CHR ''a'') (position (\<lambda>x. x = d) docs)),
      toml_parse = (\<lambda>x. if length x < length docs then Some (docs ! length x) else None)\<rparr>"

lemma toml_table_ok: "toml_ok (toml_table docs)"
  by (auto simp: toml_ok_def toml_table_def dest: position_SomeD)

lemma toml_table_prints: "model_to_doc m \<in> set docs \<Longrightarrow> prints (toml_table docs) m"
proof -
  assume "model_to_doc m \<in> set docs"
  then have "position (\<lambda>x. x = model_to_doc m) docs \<noteq> None" by (induction docs) auto
  then show ?thesis by (auto simp: prints_def to_model_text_def toml_table_def)
qed

section \<open>A fresh directory\<close>

definition fresh_disk :: "string \<Rightarrow> disk" where
  "fresh_disk doc = \<lparr>snapshot_file = Some doc, wal_file = Some header, corrupt_file = None\<rparr>"

lemma fresh_good:
  assumes "toml_ok t" and "to_model_text t m = Inr doc" and "fits cap m" and "n \<le> cap"
  shows "good t cap n m (store_over m 8, \<lparr>disk = fresh_disk doc, script = outcomes\<rparr>)"
proof -
  have "snap_is t cap (fresh_disk doc) m" by (rule snap_isI [OF assms(1,3,2)]) (simp add: fresh_disk_def)
  moreover have "wal_file (fresh_disk doc) = Some (take 8 header)" using log_len(2) by (simp add: fresh_disk_def)
  ultimately have "logged t cap (fresh_disk doc) m []" by (rule snap_no_log(2)) simp
  then have "durable t cap (store_over m 8) (fresh_disk doc) []" by (simp add: durable_def ready_def store_over_def log_len)
  from durable_good [of t cap "store_over m 8" "\<lparr>disk = fresh_disk doc, script = outcomes\<rparr>" n] this assms(4)
  show ?thesis by (simp add: store_over_def)
qed

section \<open>Sample models\<close>

definition base_model :: model where
  "base_model = model_new sample_cube0"

definition written_model :: model where
  "written_model = base_model\<lparr>the_cube := sample_cube1\<rparr>"

definition ruled_model :: model where
  "ruled_model = written_model\<lparr>rule_source := \<lparr>rules_source = ''r''\<rparr>\<rparr>"

definition restored_model :: model where
  "restored_model = base_model\<lparr>rule_source := \<lparr>rules_source = ''r''\<rparr>\<rparr>"

definition sample_toml :: toml where
  "sample_toml = toml_table (map model_to_doc [base_model, written_model, ruled_model, restored_model])"

definition sample_sys :: "outcome list \<Rightarrow> sys" where
  "sample_sys outcomes = (store_over base_model 8,
     \<lparr>disk = fresh_disk (case to_model_text sample_toml base_model of Inr doc \<Rightarrow> doc), script = outcomes\<rparr>)"

lemma sample_cube1_eval:
  "sample_cube1 = \<lparr>cube_name = ''Sales'', dims = [sample_dim, sample_measure],
     lay = \<lparr>offsets = [0, 2], masks = [3, 1], narrow = True\<rparr>, cells = Narrow [(1, 3)],
     string_cells = Narrow [], pool = pool_empty\<rparr>"
  by (simp add: sample_cube1_def sample_cube0_eval set_leaf_def check_leaf_write_def check_coord_def leaf_check_def rank_def
      get_element_def sample_dim_eval sample_measure_eval is_zero_def pack_def push_bit_eq_mult)

lemma sample_fits:
  assumes "cube_wf c" and "dims c = [sample_dim, sample_measure]" and "string_cell_entries c = []" and "pool c = pool_empty"
    and "\<And>k v. in_range [sample_dim, sample_measure] k \<Longrightarrow> num c k = Some v \<Longrightarrow> in_i64 \<bar>v\<bar>" and "cap \<le> 1000"
  shows "fits cap ((model_new c)\<lparr>rule_source := rs\<rparr>)"
proof -
  have pr: "dim_printable sample_dim" "dim_printable sample_measure"
    by (simp_all add: dim_printable_def sample_dim_eval sample_measure_eval printable_def)
  have nm: "dim_name sample_dim = ''Region''" "dim_name sample_measure = ''Measure''"
    by (simp_all add: sample_dim_eval sample_measure_eval)
  show ?thesis using assms pr nm
    by (simp add: fits_def model_wf_def model_keys_def model_printable_def cube_printable_def model_new_def
        pool_empty_def u32_max_def)
qed

lemma base_fits: "cap \<le> 1000 \<Longrightarrow> fits cap base_model"
  using sample_fits [of sample_cube0 cap "\<lparr>rules_source = []\<rparr>"] sample_cube0(2)
  by (simp add: base_model_def model_new_def string_cell_entries_def sample_cube0_eval num_def)

lemma restored_fits: "cap \<le> 1000 \<Longrightarrow> fits cap restored_model"
  using sample_fits [of sample_cube0 cap "\<lparr>rules_source = ''r''\<rparr>"] sample_cube0(2)
  by (simp add: restored_model_def base_model_def string_cell_entries_def sample_cube0_eval num_def)

lemma written_fits: "cap \<le> 1000 \<Longrightarrow> fits cap (written_model\<lparr>rule_source := rs\<rparr>)"
proof -
  assume cap: "cap \<le> 1000"
  have c0: "cube_wf sample_cube0" "dims sample_cube0 = [sample_dim, sample_measure]" using sample_cube0(2) by blast+
  have "in_i64 3" by (simp add: i64_range)
  note W = set_leaf_wf [OF c0(1) this sample_steps(1)]
  have none: "num sample_cube0 k = None" for k by (simp add: sample_cube0_eval num_def)
  have "in_i64 \<bar>v\<bar>" if "in_range [sample_dim, sample_measure] k" "num sample_cube1 k = Some v" for k v
    using W that none by (auto simp: c0(2) i64_range split: if_splits)
  moreover have "string_cell_entries sample_cube1 = []" "pool sample_cube1 = pool_empty"
    by (simp_all add: string_cell_entries_def sample_cube1_eval)
  ultimately show ?thesis using sample_fits [of sample_cube1 cap rs] W c0(2) cap
    by (simp add: written_model_def base_model_def model_new_def)
qed

lemma sample_prints [simp]:
  "prints sample_toml base_model" "prints sample_toml written_model" "prints sample_toml ruled_model"
  "prints sample_toml restored_model"
  by (simp_all add: sample_toml_def toml_table_prints)

lemma sample_good: "n \<le> 1000 \<Longrightarrow> good sample_toml 1000 n base_model (sample_sys outcomes)"
proof -
  assume "n \<le> 1000"
  obtain doc where doc: "to_model_text sample_toml base_model = Inr doc"
    using sample_prints(1) by (auto simp: prints_def)
  have "toml_ok sample_toml" by (simp add: sample_toml_def toml_table_ok)
  from fresh_good [OF this doc base_fits \<open>n \<le> 1000\<close>] show ?thesis by (simp add: sample_sys_def doc)
qed

section \<open>The record of a write\<close>

lemma split_frame_more: "4 \<le> length bs \<Longrightarrow> split_frame bs = Some (pl, crc, rest) \<Longrightarrow> split_frame (bs @ b) = Some (pl, crc, rest @ b)"
  by (auto simp: split_frame_def Let_def split: if_splits)

lemma has_intact_frame_more: "has_intact_frame a \<Longrightarrow> has_intact_frame (a @ b)"
proof (induction a)
  case (Cons x a)
  have "intact_frame ((x # a) @ b) = Some r" if i: "intact_frame (x # a) = Some r" "4 \<le> length (x # a)" for r
  proof -
    from i(1) obtain pl crc rest where "split_frame (x # a) = Some (pl, crc, rest)" "crc32 pl = of_nat (from_le crc)" "decode pl = Some r"
      by (auto simp: intact_frame_def split: option.splits prod.splits if_splits)
    with split_frame_more [OF i(2), of pl crc rest b] show ?thesis by (simp add: intact_frame_def)
  qed
  with Cons show ?case by auto
qed simp

lemma clean_recordI: "\<not> has_intact_frame (drop 1 (butlast (encode r))) \<Longrightarrow> clean_record r"
proof -
  assume a: "\<not> has_intact_frame (drop 1 (butlast (encode r)))"
  have "\<not> has_intact_frame (drop 1 (take n (encode r)))" if n: "n < length (encode r)" for n
  proof -
    let ?x = "drop 1 (butlast (encode r))"
    have "drop 1 (take n (encode r)) = take (n - 1) ?x" using n by (simp add: drop_take flip: take_butlast)
    moreover have "\<not> has_intact_frame (take (n - 1) ?x)"
      using a has_intact_frame_more [of "take (n - 1) ?x" "drop (n - 1) ?x"] by (simp only: append_take_drop_id) blast
    ultimately show ?thesis by simp
  qed
  then show ?thesis by (simp add: clean_record_def has_intact_frame_after_def list_all_iff)
qed

definition sample_write :: wal_record where
  "sample_write = SetLeaf [1, 0] 3"

text \<open>Whatever the checksum, no part of the record reads as an intact frame: every candidate is
  too long, or its payload has no known operation.\<close>

lemma sample_write_payload: "payload sample_write = [1, 2, 0, 1, 0, 0, 0, 0, 0, 0, 0, 3, 0, 0, 0, 0, 0, 0, 0]"
proof -
  have l2: "le_bytes 2 n = [of_nat n, of_nat (n div 256)]" for n by (simp add: numeral_2_eq_2)
  have "(8 :: nat) = Suc (Suc (Suc (Suc (Suc (Suc (Suc (Suc 0)))))))" by simp
  then have l8: "le_bytes 8 3 = [3, 0, 0, 0, 0, 0, 0, 0]" by (simp only: le_bytes.simps) simp
  show ?thesis by (simp add: sample_write_def write_coord_def l2 le_bytes_4 u64_of_i64_def l8)
qed

lemma sample_write_bytes:
  "\<exists>a b c. drop 1 (butlast (encode sample_write)) =
     [0, 0, 0, 1, 2, 0, 1, 0, 0, 0, 0, 0, 0, 0, 3, 0, 0, 0, 0, 0, 0, 0, a, b, c]"
  using sample_write_payload by (simp add: encode_def le_bytes_4)

lemma sample_write_no_header: "replay (encode sample_write) = Inl ()" "length (encode sample_write) = 27"
proof -
  have "hd (take 6 (encode sample_write)) \<noteq> hd WAL_MAGIC"
    using sample_write_payload by (simp add: encode_def le_bytes_4 WAL_MAGIC_def string_bytes_def byte_def)
  then have "take 6 (encode sample_write) \<noteq> WAL_MAGIC" by metis
  then show "replay (encode sample_write) = Inl ()" by (simp add: replay_def)
  show "length (encode sample_write) = 27" by (simp add: length_encode sample_write_payload)
qed

lemma sample_write_clean: "append_ok (Single sample_write)" "clean_append (Single sample_write)"
proof -
  show "append_ok (Single sample_write)" by (simp add: sample_write_def i64_range)
  obtain a b c where bytes: "drop 1 (butlast (encode sample_write)) =
      [0, 0, 0, 1, 2, 0, 1, 0, 0, 0, 0, 0, 0, 0, 3, 0, 0, 0, 0, 0, 0, 0, a, b, c]"
    using sample_write_bytes by blast
  have "\<not> has_intact_frame (drop 1 (butlast (encode sample_write)))"
    unfolding bytes
    by (simp add: intact_frame_def split_frame_def decode_def)
  then show "clean_append (Single sample_write)" using clean_recordI by (simp add: clean_append_def)
qed

end
