(* ===== verification/Sandbox_Properties.thy ===== *)
theory Sandbox_Properties
  imports Store_Runs Store_Sample
begin

text \<open>
  The properties of what-if sandboxes: their overrides follow the members they were entered at,
  and a commit is never refused and never loses or duplicates them.
\<close>

section \<open>Reachable models\<close>

text \<open>The models the operations can reach, and what holds in each: every what-if override addresses a
  cell of its kind that exists, holds a number in range and sits under one key.\<close>

inductive model_step :: "model \<Rightarrow> model \<Rightarrow> bool" where
  cube_op: "plain_step (the_cube m) c' \<Longrightarrow> model_step m (m\<lparr>the_cube := c'\<rparr>)"
| reorder: "model_reorder_elements dimension names m = Inr m' \<Longrightarrow> model_step m m'"
| delete: "model_delete_element dimension element m = Inr m' \<Longrightarrow> model_step m m'"
| insert: "room 1 (dims (the_cube m)) \<Longrightarrow> model_insert_element_at dimension name kind pos m = Inr m' \<Longrightarrow> model_step m m'"
| kind: "model_set_element_kind dimension element kind m = Inr m' \<Longrightarrow> model_step m m'"
| add_child: "in_i64 weight \<Longrightarrow> model_add_child_element dimension parent child weight m = Inr m' \<Longrightarrow> model_step m m'"
| reparent: "in_i64 weight \<Longrightarrow> model_reparent_element dimension child new_parent weight m = Inr m' \<Longrightarrow> model_step m m'"
| new_sandbox: "model_step m (m\<lparr>sandboxes := bt_insert name (sandbox_new name owner created) (sandboxes m)\<rparr>)"
| drop_sandbox: "model_step m (m\<lparr>sandboxes := bt_remove name (sandboxes m)\<rparr>)"
| overrides: "overrides_spec name ws updated m = Inr m' \<Longrightarrow> \<forall>w \<in> set ws. record_ok (write_record w) \<Longrightarrow> model_step m m'"
| committed: "model_step m (with_sandbox name (clear_overrides updated) m)"
| definitions: "model_step m (m\<lparr>subsets := ss, views := vs, rule_source := rs, tests := ts\<rparr>)"

inductive model_reach :: "model \<Rightarrow> bool" where
  start: "cube_reach c \<Longrightarrow> model_reach (model_new c)"
| step: "model_reach m \<Longrightarrow> model_step m m' \<Longrightarrow> model_reach m'"

inductive_cases model_stepE: "model_step m m'"

section \<open>Overrides written through the store\<close>

lemma values_bt_insert: "x \<in> snd ` set (bt_insert k v m) \<Longrightarrow> x = v \<or> x \<in> snd ` set m"
  by (induction k v m rule: bt_insert.induct) (auto split: if_splits)

lemma put_override_ok:
  assumes "overrides_ok ds sb" and "\<not> is_str_write w"
    and "\<And>k v. w = WriteLeaf k v \<Longrightarrow> in_range ds k \<and> leaf_coord ds k \<and> in_i64 v"
  shows "overrides_ok ds (sb\<lparr>sb_cells := put_override w (sb_cells sb)\<rparr>)"
proof (cases w)
  case (WriteLeaf k v)
  note D = overrides_okD [OF assms(1)]
  note W = assms(3) [OF WriteLeaf]
  have "in_i64 x" if "x \<in> snd ` set (bt_insert k v (sb_cells sb))" for x
    using values_bt_insert [OF that] D(5) [of x] W by blast
  with D(1-4) W show ?thesis
    by (intro overrides_okI) (auto simp: WriteLeaf)
qed (use assms(2) in simp)

lemma put_overrides_ok:
  assumes "overrides_ok ds sb" and "\<not> list_ex is_str_write ws"
    and "\<And>k v. WriteLeaf k v \<in> set ws \<Longrightarrow> in_range ds k \<and> leaf_coord ds k \<and> in_i64 v"
  shows "overrides_ok ds (put_overrides ws updated sb)"
proof -
  have "overrides_ok ds (sb\<lparr>sb_cells := foldl (\<lambda>m w. put_override w m) (sb_cells sb) ws\<rparr>)"
    using assms
  proof (induction ws arbitrary: sb)
    case (Cons w ws)
    have "overrides_ok ds (sb\<lparr>sb_cells := put_override w (sb_cells sb)\<rparr>)"
      by (rule put_override_ok [OF Cons.prems(1)]) (use Cons.prems(2,3) in auto)
    from Cons.IH [OF this] Cons.prems(2,3) show ?case by fastforce
  qed simp
  then show ?thesis by (simp add: put_overrides_def overrides_ok_def)
qed

lemma batch_loop_all: "batch_loop c k ws = Inr () \<Longrightarrow> \<forall>w \<in> set ws. check_write c w = Inr ()"
proof (induction ws arbitrary: k)
  case (Cons w ws)
  then show ?case by (cases "check_write c w") auto
qed simp

lemma with_sandbox_wf:
  assumes "model_wf m" and "\<And>sb. overrides_ok (dims (the_cube m)) sb \<Longrightarrow> overrides_ok (dims (the_cube m)) (f sb)"
  shows "model_wf (with_sandbox name f m)"
  using assms by (force simp: model_wf_def with_sandbox_def)

lemma overrides_spec_wf:
  assumes wf: "model_wf m" and e: "overrides_spec name ws updated m = Inr m'" and ok: "\<forall>w \<in> set ws. record_ok (write_record w)"
  shows "model_wf m'"
proof -
  let ?c = "the_cube m"
  have m': "m' = with_sandbox name (put_overrides ws updated) m" and no: "\<not> list_ex is_str_write ws"
    and v: "validate_batch ?c (batch_writes ws) = Inr ()"
    using e by (auto simp: overrides_spec_def split: if_splits sum.splits)
  have all: "\<forall>w \<in> set ws. check_write ?c (batch_write_of w) = Inr ()"
    using batch_loop_all [OF v [unfolded validate_batch_def]] by (simp add: batch_writes_def)
  have "in_range (dims ?c) k \<and> leaf_coord (dims ?c) k \<and> in_i64 x" if "WriteLeaf k x \<in> set ws" for k x
    using bspec [OF all that] bspec [OF ok that] check_leaf_Inr [of ?c k] by (auto simp: check_write_def)
  then show ?thesis unfolding m' by (intro with_sandbox_wf [OF wf] put_overrides_ok no) blast+
qed

section \<open>Reachable models are well-formed\<close>

lemma reindexing_wf:
  assumes wf: "model_wf m" and e: "reindexing_edit dimension edit m = Inr m'"
    and f: "\<And>c'. edit (the_cube m) = Inr c' \<Longrightarrow> \<exists>d to_new. dimension_index (the_cube m) dimension = Inr d \<and> followed d to_new (the_cube m) c'"
  shows "model_wf m'"
proof -
  obtain c' where c': "edit (the_cube m) = Inr c'" using e by (auto simp: reindexing_edit_def Let_def)
  from f [OF c'] obtain d to_new where d: "dimension_index (the_cube m) dimension = Inr d" "followed d to_new (the_cube m) c'"
    by blast
  have "\<And>c''. edit (the_cube m) = Inr c'' \<Longrightarrow> followed d to_new (the_cube m) c''" using c' d(2) by simp
  note R = reindexing_spec [OF e d(1) this]
  show ?thesis by (rule followed_wf [OF wf R(2,3)])
qed

lemma model_step_wf: "model_step m m' \<Longrightarrow> model_wf m \<Longrightarrow> model_wf m'"
proof (induction rule: model_step.induct)
  case (cube_op m c')
  then have "cube_wf (the_cube m)" by (simp add: model_wf_def)
  with cube_op plain_extends [OF cube_op(1)] cube_step_wf [OF plain_is_step [OF cube_op(1)]] show ?case
    by (intro model_wf_plain) blast+
next
  case (reorder dimension names m m')
  from reorder(2) have "cube_wf (the_cube m)" by (simp add: model_wf_def)
  from reindexing_wf [OF reorder(2) reorder(1) [unfolded model_reorder_elements_def]] reorder_followed [OF this]
  show ?case by metis
next
  case (delete dimension element m m')
  from delete(2) have "cube_wf (the_cube m)" by (simp add: model_wf_def)
  from reindexing_wf [OF delete(2) delete(1) [unfolded model_delete_element_def]] delete_followed [OF this]
  show ?case by metis
next
  case (insert m dimension name kind pos m')
  from insert(3) have "cube_wf (the_cube m)" by (simp add: model_wf_def)
  from reindexing_wf [OF insert(3) insert(2) [unfolded model_insert_element_at_def]] insert_followed [OF this insert(1)]
  show ?case by metis
next
  case (kind dimension element kind m m')
  then show ?case using model_set_element_kind_wf by blast
next
  case (add_child weight dimension parent child m m')
  then show ?case using model_add_child_element_wf by blast
next
  case (reparent weight dimension child new_parent m m')
  then show ?case using model_reparent_element_wf by blast
next
  case (new_sandbox m name owner created)
  have "overrides_ok ds (sandbox_new name owner created)" for ds
    by (simp add: overrides_ok_def sandbox_new_def)
  then show ?case using new_sandbox values_bt_insert unfolding model_wf_def by fastforce
next
  case (drop_sandbox m name)
  then show ?case by (auto simp: model_wf_def bt_remove_def)
next
  case (overrides name ws updated m m')
  then show ?case using overrides_spec_wf by blast
next
  case (committed m name updated)
  then show ?case by (rule with_sandbox_wf) (simp add: clear_overrides_def overrides_ok_def)
next
  case (definitions m ss vs rs ts)
  then show ?case by (simp add: model_wf_def)
qed

lemma model_reach_wf: "model_reach m \<Longrightarrow> model_wf m"
proof (induction rule: model_reach.induct)
  case (start c)
  then show ?case using cube_reach_wf by (simp add: model_wf_def model_new_def)
qed (rule model_step_wf)


section \<open>Reading an override by the names of its members\<close>

lemma named_coord:
  assumes fol: "followed d to_new c c'" and wf: "cube_wf c" and k: "in_range (dims c) k" and k': "in_range (dims c') k'"
    and names: "coord_names c' k' = coord_names c k"
  shows "rename_coord d to_new k = Some k'"
proof -
  obtain d' where F: "d < length (dims c)" "cube_wf c'" "dims c' = (dims c)[d := d']" "rename_core to_new (dims c ! d) d'"
    "names_follow to_new (dims c ! d) d'"
    using fol by (auto simp: followed_def renamed_def dim_renames_def)
  have len: "length k = length (dims c)" "length k' = length (dims c)" using k k' F(3) by (simp_all add: in_range_nth)
  have nm: "el_name (elements (dims c' ! x) ! (k' ! x)) = el_name (elements (dims c ! x) ! (k ! x))" if "x < length (dims c)" for x
    using arg_cong [OF names, of "\<lambda>l. l ! x"] that len by (simp add: coord_names_def nth_enumerate_eq)
  have same: "i = j" if "dim_wf e" "i < length (elements e)" "j < length (elements e)"
    "el_name (elements e ! i) = el_name (elements e ! j)" for e i j
    using index_of_Some [OF that(1), of "el_name (elements e ! i)"] that by (metis option.inject)
  have bounds: "k ! x < length (elements (dims c ! x))" "k' ! x < length (elements (dims c' ! x))" if "x < length (dims c)" for x
    using k k' that F(3) by (simp_all add: in_range_nth)
  have wd: "dim_wf (dims c ! x)" "dim_wf (dims c' ! x)" if "x < length (dims c)" for x
    using wf_nth [OF wf that] wf_nth [OF F(2)] that F(3) by simp_all
  have dd: "dims c' ! d = d'" using F(1,3) by simp
  note at = bounds [OF F(1), unfolded dd] wd [OF F(1), unfolded dd] nm [OF F(1), unfolded dd]
  have sv: "surv to_new (k ! d)"
  proof (rule ccontr)
    assume "\<not> surv to_new (k ! d)"
    then have "index_of d' (el_name (elements (dims c ! d) ! (k ! d))) = None"
      using F(5) at(1) by (simp add: names_follow_def)
    then show False using index_of_Some [OF at(4), of "el_name (elements (dims c ! d) ! (k ! d))" "k' ! d"] at(2,5) by simp
  qed
  note R = rename_core_D(1,2) [OF F(4) at(1) sv]
  have "k' ! d = to_new ! (k ! d)" by (rule same [OF at(4,2) R(1)]) (simp add: R(2) at(5))
  moreover have "k' ! x = k ! x" if "x < length (dims c)" "x \<noteq> d" for x
    using same [of "dims c ! x" "k' ! x" "k ! x"] wd(1) [OF that(1)] bounds [OF that(1)] nm [OF that(1)] that F(3) by simp
  ultimately have each: "k' ! x = k[d := to_new ! (k ! d)] ! x" if "x < length (dims c)" for x
    using that len by (cases "x = d") simp_all
  have "k' = k[d := to_new ! (k ! d)]" by (rule nth_equalityI) (simp_all add: len each)
  with sv show ?thesis by (simp add: rename_coord_def)
qed

definition index_edit_spec :: "dimension_edit \<Rightarrow> dimension list \<Rightarrow> bool" where
  "index_edit_spec edit ds \<longleftrightarrow>
     (case edit of EditReorder _ \<Rightarrow> True | EditDelete _ \<Rightarrow> True | EditInsert _ _ _ \<Rightarrow> room 1 ds | _ \<Rightarrow> False)"

lemma index_edit_followed:
  assumes wf: "cube_wf (the_cube m)" and e: "edit_spec dimension edit m = Inr m'" and i: "index_edit_spec edit (dims (the_cube m))"
  shows "\<exists>d to_new. followed d to_new (the_cube m) (the_cube m') \<and>
    m' = on_sandboxes (remap_sandbox d to_new) (m\<lparr>the_cube := the_cube m'\<rparr>)"
proof -
  have spec: ?thesis if re: "reindexing_edit dimension f m = Inr m'"
    and fd: "\<And>c'. f (the_cube m) = Inr c' \<Longrightarrow> \<exists>d to_new. dimension_index (the_cube m) dimension = Inr d \<and> followed d to_new (the_cube m) c'"
    for f
  proof -
    obtain c' where c': "f (the_cube m) = Inr c'" using re by (auto simp: reindexing_edit_def Let_def)
    from fd [OF c'] obtain d to_new where d: "dimension_index (the_cube m) dimension = Inr d" "followed d to_new (the_cube m) c'"
      by blast
    have "\<And>c''. f (the_cube m) = Inr c'' \<Longrightarrow> followed d to_new (the_cube m) c''" using c' d(2) by simp
    from reindexing_spec(2,3) [OF re d(1) this] show ?thesis by blast
  qed
  show ?thesis
  proof (cases edit)
    case (EditReorder order)
    with e have "reindexing_edit dimension (reorder_elements dimension order) m = Inr m'"
      by (simp add: with_model_def model_reorder_elements_def)
    then show ?thesis by (rule spec) (metis reorder_followed [OF wf])
  next
    case (EditDelete element)
    with e have "reindexing_edit dimension (delete_element dimension element) m = Inr m'"
      by (simp add: with_model_def model_delete_element_def)
    then show ?thesis by (rule spec) (metis delete_followed [OF wf])
  next
    case (EditInsert name kind pos)
    with e have "reindexing_edit dimension (insert_element_at dimension name kind pos) m = Inr m'"
      by (simp add: with_model_def model_insert_element_at_def)
    moreover have "room 1 (dims (the_cube m))" using i by (simp add: EditInsert index_edit_spec_def)
    ultimately show ?thesis by (intro spec) (assumption, metis insert_followed [OF wf])
  qed (use i in \<open>simp_all add: index_edit_spec_def\<close>)
qed

section \<open>What a commit writes\<close>

lemma last_write_distinct:
  assumes "distinct (map fst (List.map_filter (key_written ds) rs))"
  shows "last_write ds rs key = map_of (List.map_filter (key_written ds) rs) key"
proof -
  have "map_of (rev xs) = map_of xs" if "distinct (map fst xs)" for xs :: "(cell_key \<times> cell_val) list"
    using that by (intro ext) (metis distinct_rev map_of_eq_Some_iff not_None_eq rev_map set_rev)
  with assms show ?thesis by (simp add: last_write_def)
qed

lemma written_overrides:
  "List.map_filter (key_written ds) (map write_record (sandbox_writes sb)) =
     map (\<lambda>(k, v). (NumAt k, NumVal (if v = 0 then None else Some v))) (sb_cells sb) @
     map (\<lambda>(k, v). (StrAt k, StrVal (if v = [] then None else Some v))) (sb_strings sb)"
proof -
  have app: "List.map_filter f (xs @ ys) = List.map_filter f xs @ List.map_filter f ys" for f :: "wal_record \<Rightarrow> (cell_key \<times> cell_val) option" and xs ys
    by (induction xs) (auto simp: List.map_filter_def)
  have n: "List.map_filter (key_written ds) (map write_record (map (\<lambda>(k, v). WriteLeaf k v) xs)) =
      map (\<lambda>(k, v). (NumAt k, NumVal (if v = 0 then None else Some v))) xs" for xs
    by (induction xs) (auto simp: List.map_filter_def)
  have s: "List.map_filter (key_written ds) (map write_record (map (\<lambda>(k, v). WriteStr k v) xs)) =
      map (\<lambda>(k, v). (StrAt k, StrVal (if v = [] then None else Some v))) xs" for xs
    by (induction xs) (auto simp: List.map_filter_def)
  show ?thesis unfolding sandbox_writes_def map_append app n s ..
qed

lemma map_of_keys:
  assumes "inj f" and "\<And>k v. g (k, v) = (f k, h v)"
  shows "map_of (map g xs) (f k) = map_option h (map_of xs k)"
  using assms(1) by (induction xs) (auto simp: assms(2) dest: injD)

lemma last_override:
  assumes "bt_ok (sb_cells sb)" and "bt_ok (sb_strings sb)"
  shows "last_write ds (map write_record (sandbox_writes sb)) (NumAt k) =
      map_option (\<lambda>v. NumVal (if v = 0 then None else Some v)) (sandbox_cell sb k)"
    "last_write ds (map write_record (sandbox_writes sb)) (StrAt k) =
      map_option (\<lambda>v. StrVal (if v = [] then None else Some v)) (sandbox_string_cell sb k)"
proof -
  let ?n = "map (\<lambda>(k, v). (NumAt k, NumVal (if v = 0 then None else Some v))) (sb_cells sb)"
  let ?s = "map (\<lambda>(k, v). (StrAt k, StrVal (if v = [] then None else Some v))) (sb_strings sb)"
  have inj: "inj NumAt" "inj StrAt" by (simp_all add: inj_def)
  have keys: "map fst ?n = map NumAt (map fst (sb_cells sb))" "map fst ?s = map StrAt (map fst (sb_strings sb))"
    by (simp_all add: comp_def split_beta)
  have "distinct (map fst (?n @ ?s))"
    unfolding map_append distinct_append keys
    using bt_ok_distinct [OF assms(1)] bt_ok_distinct [OF assms(2)] by (auto simp: distinct_map inj_on_def)
  note L = last_write_distinct [of ds "map write_record (sandbox_writes sb)", unfolded written_overrides, OF this]
  have none: "map_of ?n (StrAt k) = None" "map_of ?s (NumAt k) = None"
    by (auto simp: map_of_eq_None_iff)
  have "map_of ?n (NumAt k) = map_option (\<lambda>v. NumVal (if v = 0 then None else Some v)) (map_of (sb_cells sb) k)"
    by (rule map_of_keys [OF inj(1)]) simp
  moreover have "map_of ?s (StrAt k) = map_option (\<lambda>v. StrVal (if v = [] then None else Some v)) (map_of (sb_strings sb) k)"
    by (rule map_of_keys [OF inj(2)]) simp
  ultimately show "last_write ds (map write_record (sandbox_writes sb)) (NumAt k) =
      map_option (\<lambda>v. NumVal (if v = 0 then None else Some v)) (sandbox_cell sb k)"
    "last_write ds (map write_record (sandbox_writes sb)) (StrAt k) =
      map_option (\<lambda>v. StrVal (if v = [] then None else Some v)) (sandbox_string_cell sb k)"
    using none by (auto simp: L map_add_def sandbox_cell_def sandbox_string_cell_def split: option.split)
qed

lemma commit_reads:
  assumes wf: "model_wf m" and sb: "lookup_sandbox m name = Some sb"
    and room: "length (by_id (pool (the_cube m))) + sandbox_len sb \<le> u32_max"
  shows "\<exists>c. apply_writes (sandbox_writes sb) (the_cube m) = Inr c \<and>
    (\<forall>k. in_range (dims (the_cube m)) k \<longrightarrow>
       num c k = (case sandbox_cell sb k of Some v \<Rightarrow> if v = 0 then None else Some v | None \<Rightarrow> num (the_cube m) k) \<and>
       str c k = (case sandbox_string_cell sb k of Some v \<Rightarrow> if v = [] then None else Some v | None \<Rightarrow> str (the_cube m) k))"
proof -
  let ?c = "the_cube m" and ?rs = "map write_record (sandbox_writes sb)"
  have "sb \<in> snd ` set (sandboxes m)" using sb by (force simp: lookup_sandbox_def dest: map_of_SomeD)
  with wf have ok: "overrides_ok (dims ?c) sb" and wc: "cube_wf ?c" by (auto simp: model_wf_def)
  note D = overrides_okD [OF ok]
  have ap: "\<forall>r \<in> set ?rs. applicable (dims ?c) r"
    using D(3-5) by (force simp: sandbox_writes_def)
  have "length (by_id (pool ?c)) + length ?rs \<le> u32_max" using room by (simp add: sandbox_writes_def sandbox_len_def)
  from replay_records_spec [OF wc ap this] obtain c where c: "replay_records ?rs ?c = Inr c"
    "\<And>key. valid_key (dims ?c) key \<Longrightarrow> read_key c key = (case last_write (dims ?c) ?rs key of Some v \<Rightarrow> v | None \<Rightarrow> read_key ?c key)"
    by blast
  have "num c k = (case sandbox_cell sb k of Some v \<Rightarrow> if v = 0 then None else Some v | None \<Rightarrow> num ?c k) \<and>
      str c k = (case sandbox_string_cell sb k of Some v \<Rightarrow> if v = [] then None else Some v | None \<Rightarrow> str ?c k)"
    if "in_range (dims ?c) k" for k
    using c(2) [of "NumAt k"] c(2) [of "StrAt k"] that last_override [OF D(1,2), of "dims ?c" k]
    by (simp split: option.splits)
  with c(1) show ?thesis by (auto simp: replay_writes)
qed

section \<open>A sample sandbox\<close>

definition sample_sandbox :: sandbox where
  "sample_sandbox = \<lparr>sb_name = ''w'', sb_owner = ''ann'', sb_created = 1, sb_updated = 2,
                     sb_cells = [([1, 0], 3)], sb_strings = []\<rparr>"

definition what_if_model :: model where
  "what_if_model = base_model\<lparr>sandboxes := [(''w'', sample_sandbox)]\<rparr>"

lemma sample_override: "overrides_spec ''w'' [WriteLeaf [1, 0] 3] 2
    (base_model\<lparr>sandboxes := [(''w'', sandbox_new ''w'' ''ann'' 1)]\<rparr>) = Inr what_if_model"
proof -
  have "check_leaf_write sample_cube0 [1, 0] = Inr ()"
    using sample_steps(1) by (auto simp: set_leaf_def split: sum.splits)
  then have "validate_batch sample_cube0 (batch_writes [WriteLeaf [1, 0] 3]) = Inr ()"
    by (simp add: validate_batch_def batch_writes_def check_write_def)
  then show ?thesis
    by (simp add: overrides_spec_def base_model_def model_new_def with_sandbox_def put_overrides_def sandbox_new_def
        what_if_model_def sample_sandbox_def)
qed

lemma what_if_reach: "model_reach what_if_model"
proof -
  have "cube_reach sample_cube0" using sample_cube0(1) by (rule cube_reach.start) simp
  then have "model_reach base_model" unfolding base_model_def by (rule model_reach.start)
  moreover have "model_step base_model (base_model\<lparr>sandboxes := [(''w'', sandbox_new ''w'' ''ann'' 1)]\<rparr>)"
    using new_sandbox [of base_model "''w''" "''ann''" 1] by (simp add: base_model_def model_new_def)
  ultimately have "model_reach (base_model\<lparr>sandboxes := [(''w'', sandbox_new ''w'' ''ann'' 1)]\<rparr>)" by (rule model_reach.step)
  moreover have "model_step (base_model\<lparr>sandboxes := [(''w'', sandbox_new ''w'' ''ann'' 1)]\<rparr>) what_if_model"
    by (rule overrides [OF sample_override]) (simp add: i64_range)
  ultimately show ?thesis by (rule model_reach.step)
qed

lemma what_if_sandbox: "lookup_sandbox what_if_model ''w'' = Some sample_sandbox"
  by (simp add: lookup_sandbox_def what_if_model_def)

lemma what_if_cube [simp]: "the_cube what_if_model = sample_cube0"
  by (simp add: what_if_model_def base_model_def model_new_def)





section \<open>Properties\<close>

text \<open>C26: A what-if value follows its members. After a reorder, a delete or an insert in a
  dimension, every sandbox still reads, at the coordinate of the same member names, what it read
  before, numbers and texts alike, although the indices have moved.\<close>

theorem overrides_follow_members:
  assumes "model_wf m" and "edit_spec dimension edit m = Inr m'" and "index_edit_spec edit (dims (the_cube m))"
    and "lookup_sandbox m name = Some sb"
  shows "\<exists>sb'. lookup_sandbox m' name = Some sb' \<and>
    (\<forall>k k'. in_range (dims (the_cube m)) k \<and> in_range (dims (the_cube m')) k' \<and>
        coord_names (the_cube m') k' = coord_names (the_cube m) k \<longrightarrow>
      sandbox_cell sb' k' = sandbox_cell sb k \<and> sandbox_string_cell sb' k' = sandbox_string_cell sb k)"
proof -
  have wf: "cube_wf (the_cube m)" using assms(1) by (simp add: model_wf_def)
  from index_edit_followed [OF wf assms(2,3)] obtain d to_new where fol: "followed d to_new (the_cube m) (the_cube m')"
    and m': "m' = on_sandboxes (remap_sandbox d to_new) (m\<lparr>the_cube := the_cube m'\<rparr>)" by blast
  have lk: "lookup_sandbox m' name = Some (remap_sandbox d to_new sb)"
    using assms(4) by (subst m', simp add: lookup_on_sandboxes) (simp add: lookup_sandbox_def)
  have "sb \<in> snd ` set (sandboxes m)" using assms(4) by (force simp: lookup_sandbox_def dest: map_of_SomeD)
  with assms(1) have ok: "overrides_ok (dims (the_cube m)) sb" by (auto simp: model_wf_def)
  have rng: "\<forall>k \<in> fst ` set (sb_cells sb). in_range (dims (the_cube m)) k" "\<forall>k \<in> fst ` set (sb_strings sb). in_range (dims (the_cube m)) k"
    using ok unfolding overrides_ok_def by blast+
  have dl: "d < length (dims (the_cube m))" and core: "rename_core to_new (dims (the_cube m) ! d) (dims (the_cube m') ! d)"
    using fol by (auto simp: followed_def renamed_def dim_renames_def names_follow_def)
  have "sandbox_cell (remap_sandbox d to_new sb) k' = sandbox_cell sb k \<and>
      sandbox_string_cell (remap_sandbox d to_new sb) k' = sandbox_string_cell sb k"
    if "in_range (dims (the_cube m)) k" "in_range (dims (the_cube m')) k'" "coord_names (the_cube m') k' = coord_names (the_cube m) k" for k k'
    using remap_lookup [OF overrides_okD(1) [OF ok] rng(1) core dl that(1) named_coord [OF fol wf that]]
      remap_lookup [OF overrides_okD(2) [OF ok] rng(2) core dl that(1) named_coord [OF fol wf that]]
    by (simp add: sandbox_cell_def sandbox_string_cell_def remap_sandbox_def)
  with lk show ?thesis by blast
qed

theorem overrides_follow_members_witness:
  "\<exists>m' sb'. edit_spec ''Region'' (EditInsert ''W'' Leaf (Before ''S'')) what_if_model = Inr m' \<and>
     lookup_sandbox m' ''w'' = Some sb'"
proof -
  have wf: "model_wf what_if_model" by (rule model_reach_wf [OF what_if_reach])
  have "\<exists>m'. edit_spec ''Region'' (EditInsert ''W'' Leaf (Before ''S'')) what_if_model = Inr m'"
    by (simp add: with_model_def model_insert_element_at_def reindexing_edit_def insert_element_at_def dimension_index_def
        sample_cube0(2) Let_def element_of_def index_of_def insert_at_def sample_dim_eval split: option.split)
  then obtain m' where m': "edit_spec ''Region'' (EditInsert ''W'' Leaf (Before ''S'')) what_if_model = Inr m'" by blast
  have "index_edit_spec (EditInsert ''W'' Leaf (Before ''S'')) (dims (the_cube what_if_model))"
    by (simp add: index_edit_spec_def room_def sample_cube0(2) sample_dim_eval sample_measure_eval u32_max_def)
  from overrides_follow_members [OF wf m' this what_if_sandbox] m' show ?thesis by blast
qed

text \<open>C27: Committing a sandbox is never refused. In every model the operations can reach, the
  overrides of a sandbox validate as a batch, and applying them gives a cube that reads every
  cell as the sandbox showed it: the override where there is one, zero and the empty text
  clearing the cell, and the base value everywhere else.\<close>

theorem sandbox_commit_writes_overrides:
  assumes "model_reach m" and "lookup_sandbox m name = Some sb"
    and "length (by_id (pool (the_cube m))) + sandbox_len sb \<le> u32_max"
  shows "validate_batch (the_cube m) (batch_writes (sandbox_writes sb)) = Inr () \<and>
    (\<exists>c. apply_writes (sandbox_writes sb) (the_cube m) = Inr c \<and>
      (\<forall>k. in_range (dims (the_cube m)) k \<longrightarrow>
        num c k = (case sandbox_cell sb k of Some v \<Rightarrow> if v = 0 then None else Some v | None \<Rightarrow> num (the_cube m) k) \<and>
        str c k = (case sandbox_string_cell sb k of Some v \<Rightarrow> if v = [] then None else Some v | None \<Rightarrow> str (the_cube m) k)))"
  using commit_validates [OF model_reach_wf [OF assms(1)] assms(2)] commit_reads [OF model_reach_wf [OF assms(1)] assms(2,3)]
  by blast

theorem sandbox_commit_writes_overrides_witness:
  "validate_batch (the_cube what_if_model) (batch_writes (sandbox_writes sample_sandbox)) = Inr ()"
  using sandbox_commit_writes_overrides [OF what_if_reach what_if_sandbox]
  by (simp add: sample_cube0_eval pool_empty_def sandbox_len_def sample_sandbox_def u32_max_def)



end
