(* ===== verification/Store_Properties.thy ===== *)
theory Store_Properties
  imports Store_Sample
begin

text \<open>The properties of the durable store, over every way its filesystem calls can fail or be cut.\<close>

section \<open>Facts of the samples\<close>

lemma sample_specs:
  "op_spec (OpSetLeaf [1, 0] 3) base_model = Inr written_model"
  "op_spec (OpDefineRules ''r'') written_model = Inr ruled_model"
  using sample_steps(1) by (simp_all add: with_cube_def base_model_def model_new_def written_model_def ruled_model_def)


lemma sample_models_fit [simp]: "fits 1000 base_model" "fits 1000 written_model" "fits 1000 ruled_model"
  using base_fits [of 1000] written_fits [of 1000 "rule_source written_model"] written_fits [of 1000 "\<lparr>rules_source = ''r''\<rparr>"]
  by (simp_all add: ruled_model_def)

lemma sample_toml_ok [simp]: "toml_ok sample_toml"
  by (simp add: sample_toml_def toml_table_ok)

section \<open>Properties\<close>





text \<open>C24: On a disk that works, every operation the model accepts is acknowledged: the batch that
  validation passed never stops the process, and no checkpoint, log write or staged definition
  fails for a reason of the store's own.\<close>

theorem accepted_operation_acknowledged:
  assumes "op_spec p m = Inr m'" and "prints t m" and "prints t m'" and "calm m x"
  shows "\<exists>x'. run_op t p x = (Ok (), x') \<and> calm m' x'"
  using succeedsD [OF run_op_calm [OF assms(1-3)] assms(4)] by simp

theorem accepted_operation_acknowledged_witness:
  "\<exists>x'. run_op sample_toml (OpSetLeaf [1, 0] 3) (sample_sys []) = (Ok (), x') \<and> calm written_model x'"
  by (rule accepted_operation_acknowledged [OF sample_specs(1)]) (simp_all add: calm_def sample_sys_def store_over_def)

text \<open>C25: A snapshot is a lossless image of a model. The document of a well-formed model whose values
  all print reads back to a model with the same dimensions, the same value or text in every cell,
  and the same subsets, views, rules, tests and sandboxes; the printed text of the document is
  taken to parse back to it.\<close>

theorem snapshot_round_trip:
  assumes "toml_ok t" and "model_wf m" and "model_keys m" and "model_printable m" and "to_model_text t m = Inr doc"
  shows "\<exists>m'. from_model_text t doc = Inr m' \<and> same_model m m' \<and> model_wf m'"
proof -
  have "toml_parse t doc = Some (model_to_doc m)" using assms(1,5) by (simp add: toml_ok_def to_model_text_def)
  moreover obtain m' where "model_from_doc (model_to_doc m) = Inr m'" "same_model m m'" "model_wf m'"
    using model_round_trip [OF assms(2-4)] by blast
  ultimately show ?thesis by (simp add: from_model_text_def)
qed

theorem snapshot_round_trip_witness:
  "\<exists>doc m'. to_model_text sample_toml ruled_model = Inr doc \<and> from_model_text sample_toml doc = Inr m' \<and> same_model ruled_model m'"
proof -
  obtain doc where doc: "to_model_text sample_toml ruled_model = Inr doc" using sample_prints(3) by (auto simp: prints_def)
  have "model_wf ruled_model" "model_keys ruled_model" "model_printable ruled_model"
    using sample_models_fit(3) by (simp_all only: fits_def)
  from snapshot_round_trip [OF sample_toml_ok this doc] doc show ?thesis by blast
qed

text \<open>A checkpoint whose header write fails is the exception the store does not guard: it returns
  an error without poisoning the store, the next write is acknowledged into a log without a
  header, and the directory no longer opens.\<close>

lemma failed_header_write:
  "\<exists>s w s' w'.
     checkpoint sample_toml (sample_sys (replicate 7 Done @ [Failed 0])) = (Err Io, s, w) \<and> \<not> poisoned s \<and>
     store_set_leaf sample_toml [1, 0] 3 (s, w) = (Ok (), s', w') \<and>
     fst (open_store sample_toml \<lparr>disk = disk w', script = []\<rparr>) = Err (PCorrupt ''WAL header missing or unrecognized'')"
proof -
  obtain doc where doc: "to_model_text sample_toml base_model = Inr doc"
    using sample_prints(1) by (auto simp: prints_def)
  have h: "held (store_over base_model 8) = base_model" by (simp add: store_over_def)
  have "to_model_text sample_toml (held (store_over base_model 8)) = Inr doc" by (simp add: doc h)
  then have cp: "checkpoint sample_toml (sample_sys (replicate 7 Done @ [Failed 0])) =
      (Err Io, (store_over base_model 8)\<lparr>cursor := 0\<rparr>, \<lparr>disk = (fresh_disk doc)\<lparr>wal_file := Some []\<rparr>, script = []\<rparr>)"
    by (simp add: checkpoint_def checkpoint_model_def sample_sys_def doc write_snapshot_def calm_calls eval_nat_numeral
        store_over_def fresh_disk_def write_at_def)
  let ?s = "(store_over base_model 8)\<lparr>cursor := 0\<rparr>" and ?w = "\<lparr>disk = (fresh_disk doc)\<lparr>wal_file := Some []\<rparr>, script = []\<rparr>"
  have "set_leaf [1, 0] 3 (the_cube base_model) = Inr sample_cube1"
    using sample_steps(1) by (simp add: base_model_def model_new_def)
  then have wr: "\<exists>s'. store_set_leaf sample_toml [1, 0] 3 (?s, ?w) =
      (Ok (), s', \<lparr>disk = (fresh_disk doc)\<lparr>wal_file := Some (encode sample_write)\<rparr>, script = []\<rparr>)"
    unfolding store_set_leaf_def sample_write_def [symmetric] logged_write_def
    using sample_write_no_header(2)
    by (auto simp: store_over_def append_wal_def calm_calls write_at_def fresh_disk_def
        maybe_auto_checkpoint_def DEFAULT_WAL_CHECKPOINT_THRESHOLD_def)
  have "\<exists>m0. get_snapshot sample_toml (fresh_disk doc) = Inr m0"
    using sample_good [of 0 "[]"] by (auto simp: good_def durable_def logged_def sample_sys_def doc)
  then have "fst (open_store sample_toml \<lparr>disk = (fresh_disk doc)\<lparr>wal_file := Some (encode sample_write)\<rparr>, script = []\<rparr>)
      = Err (PCorrupt ''WAL header missing or unrecognized'')"
    using sample_write_no_header by (auto simp: open_store_def get_snapshot_def WAL_HEADER_LEN_def fresh_disk_def)
  with cp wr show ?thesis by (fastforce simp: store_over_def)
qed

text \<open>Restoring a model is not atomic when the log holds records of the model it replaces: the new
  snapshot is renamed into place before the log is emptied, and a stop between the two leaves a
  directory that replays the old write over the restored model. What is recovered is neither the
  model before the restore nor the restored one.\<close>

lemma restored_write:
  "restored_model\<lparr>the_cube := sample_cube1\<rparr> = ruled_model" "the_cube restored_model = sample_cube0"
  "replay_records [sample_write] sample_cube0 = Inr sample_cube1" "applicable (dims sample_cube0) sample_write"
proof -
  have "in_i64 3" by (simp add: i64_range)
  from set_leaf_wf [OF conjunct1 [OF sample_cube0(2)] this sample_steps(1)]
  show "applicable (dims sample_cube0) sample_write" by (simp add: sample_write_def i64_range)
  show "replay_records [sample_write] sample_cube0 = Inr sample_cube1"
    using sample_steps(1) by (simp add: sample_write_def replay_record_def)
qed (simp_all add: restored_model_def ruled_model_def written_model_def base_model_def model_new_def)

lemma interrupted_restore:
  "\<exists>s w r x. store_set_leaf sample_toml [1, 0] 3 (sample_sys []) = (Ok (), s, w) \<and> held s = written_model \<and>
     restore_model_durably sample_toml restored_model (s, w\<lparr>script := replicate 5 Done @ [Cut 0]\<rparr>) = (r, x) \<and>
     r = Stopped \<and> recovers sample_toml 1000 (disk (snd x)) ruled_model"
proof -
  obtain doc where doc: "to_model_text sample_toml base_model = Inr doc"
    using sample_prints(1) by (auto simp: prints_def)
  obtain new where new: "to_model_text sample_toml restored_model = Inr new"
    using sample_prints(4) by (auto simp: prints_def)
  let ?log = "header @ encode sample_write"
  let ?d = "(fresh_disk doc)\<lparr>wal_file := Some ?log\<rparr>"
  have at_end: "write_at 8 (encode sample_write) header = ?log" using log_len(2) by (simp add: write_at_def)
  have "set_leaf [1, 0] 3 (the_cube base_model) = Inr sample_cube1"
    using sample_steps(1) by (simp add: base_model_def model_new_def)
  then obtain s where wr: "store_set_leaf sample_toml [1, 0] 3 (sample_sys []) = (Ok (), s, \<lparr>disk = ?d, script = []\<rparr>)"
      "held s = written_model" "\<not> poisoned s"
    unfolding store_set_leaf_def sample_write_def [symmetric] logged_write_def
    using sample_write_no_header(2)
    by (auto simp: sample_sys_def doc store_over_def append_wal_def calm_calls fresh_disk_def at_end written_model_def
        maybe_auto_checkpoint_def DEFAULT_WAL_CHECKPOINT_THRESHOLD_def)
  have cut: "restore_model_durably sample_toml restored_model (s, \<lparr>disk = ?d, script = replicate 5 Done @ [Cut 0]\<rparr>) =
      (Stopped, s\<lparr>held := restored_model\<rparr>, \<lparr>disk = ?d\<lparr>snapshot_file := Some new\<rparr>, script = []\<rparr>)"
    using wr(3) by (simp add: restore_model_durably_def restore_model_def checkpoint_def checkpoint_model_def
        write_snapshot_def new calm_calls eval_nat_numeral)
  have "snap_is sample_toml 1000 (fresh_disk new) restored_model"
    by (rule snap_isI [OF sample_toml_ok _ new]) (simp_all add: restored_fits fresh_disk_def)
  then have "logged sample_toml 1000 (fresh_disk new) restored_model []"
    by (rule snap_no_log(2) [of _ _ _ _ 8]) (simp_all add: fresh_disk_def log_len)
  from logged_extend [OF this, of "Single sample_write" sample_cube1 "?d\<lparr>snapshot_file := Some new\<rparr>"]
  have "logged sample_toml 1000 (?d\<lparr>snapshot_file := Some new\<rparr>) ruled_model [Single sample_write]"
    using restored_fits [of 1000] sample_write_clean(1) restored_write
    by (simp add: fits_def fresh_disk_def records_of_def log_bytes_def)
  then have "recovers sample_toml 1000 (?d\<lparr>snapshot_file := Some new\<rparr>) ruled_model" by (rule logged_recovers)
  with wr cut show ?thesis by fastforce
qed

end
