(* ===== verification/Acl.thy ===== *)
theory Acl
  imports Btree_Map Error_Text "HOL-Library.Product_Lexorder"
begin

text \<open>
  The access-control primitives (\<open>crates/epiphany-security/src/acl.rs\<close>): the lattice of access
  levels, the kinds of securable objects, subjects, grant scopes and the list of grants on one
  object. The derived \<open>Ord\<close> of the Rust types is an instance of \<open>linorder\<close>.
\<close>

section \<open>Access levels\<close>

datatype access_level = NoAccess | ReadAccess | WriteAccess | AdminAccess

instantiation access_level :: linorder
begin

primrec level_rank :: "access_level \<Rightarrow> nat" where
  "level_rank NoAccess = 0"
| "level_rank ReadAccess = 1"
| "level_rank WriteAccess = 2"
| "level_rank AdminAccess = 3"

definition less_eq_access_level :: "access_level \<Rightarrow> access_level \<Rightarrow> bool" where
  "less_eq_access_level a b \<longleftrightarrow> level_rank a \<le> level_rank b"

definition less_access_level :: "access_level \<Rightarrow> access_level \<Rightarrow> bool" where
  "less_access_level a b \<longleftrightarrow> level_rank a < level_rank b"

lemma level_rank_inj: "level_rank a = level_rank b \<Longrightarrow> a = b"
  by (cases a; cases b) simp_all

instance
  by intro_classes (auto simp: less_eq_access_level_def less_access_level_def intro: level_rank_inj)

end

lemma level_bounds [simp]: "NoAccess \<le> l" "l \<le> AdminAccess" "AdminAccess \<le> l \<longleftrightarrow> l = AdminAccess" "l \<le> NoAccess \<longleftrightarrow> l = NoAccess"
  by (cases l; simp add: less_eq_access_level_def)+

lemma max_NoAccess [simp]: "max NoAccess l = l" "max l NoAccess = l"
  by (simp_all add: max_def)

fun level_str :: "access_level \<Rightarrow> string" where
  "level_str NoAccess = ''none''"
| "level_str ReadAccess = ''read''"
| "level_str WriteAccess = ''write''"
| "level_str AdminAccess = ''admin''"

definition level_parse :: "string \<Rightarrow> access_level option" where
  "level_parse s =
     (if s = ''none'' then Some NoAccess
      else if s = ''read'' then Some ReadAccess
      else if s = ''write'' then Some WriteAccess
      else if s = ''admin'' then Some AdminAccess
      else None)"

lemma level_parse_str [simp]: "level_parse (level_str l) = Some l"
  by (cases l) (simp_all add: level_parse_def)

section \<open>Object kinds\<close>

datatype object_kind =
    KCube | KDimension | KRule | KFlow | KView | KSubset | KConnection | KSandbox | KJob | KGroup | KUser | KSecret

instantiation object_kind :: linorder
begin

primrec kind_rank :: "object_kind \<Rightarrow> nat" where
  "kind_rank KCube = 0"
| "kind_rank KDimension = 1"
| "kind_rank KRule = 2"
| "kind_rank KFlow = 3"
| "kind_rank KView = 4"
| "kind_rank KSubset = 5"
| "kind_rank KConnection = 6"
| "kind_rank KSandbox = 7"
| "kind_rank KJob = 8"
| "kind_rank KGroup = 9"
| "kind_rank KUser = 10"
| "kind_rank KSecret = 11"

definition less_eq_object_kind :: "object_kind \<Rightarrow> object_kind \<Rightarrow> bool" where
  "less_eq_object_kind a b \<longleftrightarrow> kind_rank a \<le> kind_rank b"

definition less_object_kind :: "object_kind \<Rightarrow> object_kind \<Rightarrow> bool" where
  "less_object_kind a b \<longleftrightarrow> kind_rank a < kind_rank b"

lemma kind_rank_inj: "kind_rank a = kind_rank b \<Longrightarrow> a = b"
  by (cases a; cases b) simp_all

instance
  by intro_classes (auto simp: less_eq_object_kind_def less_object_kind_def intro: kind_rank_inj)

end

fun kind_str :: "object_kind \<Rightarrow> string" where
  "kind_str KCube = ''cube''"
| "kind_str KDimension = ''dimension''"
| "kind_str KRule = ''rule''"
| "kind_str KFlow = ''flow''"
| "kind_str KView = ''view''"
| "kind_str KSubset = ''subset''"
| "kind_str KConnection = ''connection''"
| "kind_str KSandbox = ''sandbox''"
| "kind_str KJob = ''job''"
| "kind_str KGroup = ''group''"
| "kind_str KUser = ''user''"
| "kind_str KSecret = ''secret''"

definition kind_parse :: "string \<Rightarrow> object_kind option" where
  "kind_parse s =
     (if s = ''cube'' then Some KCube
      else if s = ''dimension'' then Some KDimension
      else if s = ''rule'' then Some KRule
      else if s = ''flow'' then Some KFlow
      else if s = ''view'' then Some KView
      else if s = ''subset'' then Some KSubset
      else if s = ''connection'' then Some KConnection
      else if s = ''sandbox'' then Some KSandbox
      else if s = ''job'' then Some KJob
      else if s = ''group'' then Some KGroup
      else if s = ''user'' then Some KUser
      else if s = ''secret'' then Some KSecret
      else None)"

lemma kind_parse_str [simp]: "kind_parse (kind_str k) = Some k"
  by (cases k) (simp_all add: kind_parse_def)

record object_ref =
  or_kind :: object_kind
  or_cube :: "string option"
  or_name :: string

definition ref_cube :: "string \<Rightarrow> object_ref" where
  "ref_cube name = \<lparr>or_kind = KCube, or_cube = None, or_name = name\<rparr>"

definition ref_in_cube :: "object_kind \<Rightarrow> string \<Rightarrow> string \<Rightarrow> object_ref" where
  "ref_in_cube kind cube name = \<lparr>or_kind = kind, or_cube = Some cube, or_name = name\<rparr>"

definition ref_global :: "object_kind \<Rightarrow> string \<Rightarrow> object_ref" where
  "ref_global kind name = \<lparr>or_kind = kind, or_cube = None, or_name = name\<rparr>"

section \<open>Subjects and scopes\<close>

datatype subject = SubUser string | SubGroup string

datatype grant_scope = GlobalScope | CubeScope string

instantiation grant_scope :: linorder
begin

fun less_eq_grant_scope :: "grant_scope \<Rightarrow> grant_scope \<Rightarrow> bool" where
  "less_eq_grant_scope GlobalScope _ = True"
| "less_eq_grant_scope (CubeScope _) GlobalScope = False"
| "less_eq_grant_scope (CubeScope a) (CubeScope b) = (a \<le> b)"

definition less_grant_scope :: "grant_scope \<Rightarrow> grant_scope \<Rightarrow> bool" where
  "less_grant_scope a b \<longleftrightarrow> a \<le> b \<and> \<not> b \<le> (a :: grant_scope)"

instance
proof
  fix a b c :: grant_scope
  show "(a < b) = (a \<le> b \<and> \<not> b \<le> a)" by (rule less_grant_scope_def)
  show "a \<le> a" by (cases a) simp_all
  show "a \<le> b \<Longrightarrow> b \<le> c \<Longrightarrow> a \<le> c" by (cases a; cases b; cases c) auto
  show "a \<le> b \<Longrightarrow> b \<le> a \<Longrightarrow> a = b" by (cases a; cases b) auto
  show "a \<le> b \<or> b \<le> a" by (cases a; cases b) auto
qed

end

section \<open>Access lists\<close>

record access_list =
  al_users :: "(string, access_level) btree"
  al_groups :: "(string, access_level) btree"

definition al_default :: access_list where
  "al_default = \<lparr>al_users = [], al_groups = []\<rparr>"

fun max_groups :: "(string, access_level) btree \<Rightarrow> string list \<Rightarrow> access_level \<Rightarrow> access_level" where
  "max_groups m [] level = level"
| "max_groups m (g # gs) level =
     max_groups m gs (case map_of m g of Some gl \<Rightarrow> max level gl | None \<Rightarrow> level)"

definition level_for :: "access_list \<Rightarrow> string \<Rightarrow> string list \<Rightarrow> access_level" where
  "level_for l username gs =
     max_groups (al_groups l) gs (case map_of (al_users l) username of Some u \<Rightarrow> u | None \<Rightarrow> NoAccess)"

definition put_level :: "string \<Rightarrow> access_level \<Rightarrow> (string, access_level) btree \<Rightarrow> (string, access_level) btree" where
  "put_level key level m = (if level = NoAccess then bt_remove key m else bt_insert key level m)"

fun al_set :: "subject \<Rightarrow> access_level \<Rightarrow> access_list \<Rightarrow> access_list" where
  "al_set (SubUser u) level l = l\<lparr>al_users := put_level u level (al_users l)\<rparr>"
| "al_set (SubGroup g) level l = l\<lparr>al_groups := put_level g level (al_groups l)\<rparr>"

definition al_is_empty :: "access_list \<Rightarrow> bool" where
  "al_is_empty l \<longleftrightarrow> al_users l = [] \<and> al_groups l = []"

section \<open>What a list grants\<close>

fun grant_of :: "access_list \<Rightarrow> subject \<Rightarrow> access_level option" where
  "grant_of l (SubUser u) = map_of (al_users l) u"
| "grant_of l (SubGroup g) = map_of (al_groups l) g"

fun subject_matches :: "subject \<Rightarrow> string \<Rightarrow> string list \<Rightarrow> bool" where
  "subject_matches (SubUser u) username gs = (u = username)"
| "subject_matches (SubGroup g) username gs = (g \<in> set gs)"

lemma max_groups_ge:
  "need \<le> max_groups m gs level \<longleftrightarrow> need \<le> level \<or> (\<exists>g \<in> set gs. \<exists>gl. map_of m g = Some gl \<and> need \<le> gl)"
  by (induction m gs level rule: max_groups.induct) (auto simp: le_max_iff_disj split: option.splits)

lemma level_for_ge:
  assumes "need \<noteq> NoAccess"
  shows "need \<le> level_for l username gs \<longleftrightarrow>
    (\<exists>s level. subject_matches s username gs \<and> grant_of l s = Some level \<and> need \<le> level)"
proof
  assume "need \<le> level_for l username gs"
  then consider u where "map_of (al_users l) username = Some u" "need \<le> u"
    | g gl where "g \<in> set gs" "map_of (al_groups l) g = Some gl" "need \<le> gl"
    using assms by (auto simp: level_for_def max_groups_ge split: option.splits)
  then show "\<exists>s level. subject_matches s username gs \<and> grant_of l s = Some level \<and> need \<le> level"
  proof cases
    case 1
    then show ?thesis by (intro exI [of _ "SubUser username"] exI [of _ u]) simp
  next
    case 2
    then show ?thesis by (intro exI [of _ "SubGroup g"] exI [of _ gl]) simp
  qed
next
  assume "\<exists>s level. subject_matches s username gs \<and> grant_of l s = Some level \<and> need \<le> level"
  then obtain s level where s: "subject_matches s username gs" "grant_of l s = Some level" "need \<le> level" by blast
  then show "need \<le> level_for l username gs"
    by (cases s) (auto simp: level_for_def max_groups_ge)
qed

lemma grant_of_set:
  "grant_of (al_set s level l) s' = (if s' = s then (if level = NoAccess then None else Some level) else grant_of l s')"
  by (cases s; cases s') (simp_all add: put_level_def)

definition al_ok :: "access_list \<Rightarrow> bool" where
  "al_ok l \<longleftrightarrow> bt_ok (al_users l) \<and> bt_ok (al_groups l) \<and>
     NoAccess \<notin> snd ` set (al_users l) \<and> NoAccess \<notin> snd ` set (al_groups l)"

lemma put_level_values: "NoAccess \<notin> snd ` set m \<Longrightarrow> NoAccess \<notin> snd ` set (put_level k level m)"
proof -
  assume a: "NoAccess \<notin> snd ` set m"
  have "x = v \<or> x \<in> snd ` set m" if "x \<in> snd ` set (bt_insert k v m)" for x v
    using that by (induction k v m rule: bt_insert.induct) (auto split: if_splits)
  with a show ?thesis by (auto simp: put_level_def bt_remove_def)
qed

lemma al_ok_set: "al_ok l \<Longrightarrow> al_ok (al_set s level l)"
  using put_level_values by (cases s) (auto simp: al_ok_def put_level_def)

lemma al_ok_default [simp]: "al_ok al_default"
  by (simp add: al_ok_def al_default_def)

end
