(* ===== verification/Security_Store.thy ===== *)
theory Security_Store
  imports Acl
begin

text \<open>
  The security store and its queries (\<open>crates/epiphany-security/src/store.rs\<close> and
  \<open>password.rs\<close>): users, groups, element access lists and grants, and how access is resolved
  from them. A \<open>BTreeSet\<close> of names is a tree of names without values.
\<close>

section \<open>Password policy\<close>

record password_policy =
  min_length :: nat
  reject_common :: bool

definition default_policy :: password_policy where
  "default_policy = \<lparr>min_length = 12, reject_common = True\<rparr>"

definition permissive :: password_policy where
  "permissive = \<lparr>min_length = 1, reject_common = False\<rparr>"

text \<open>The number of characters of a UTF-8 string: the bytes that do not continue one.\<close>

definition chars_count :: "string \<Rightarrow> nat" where
  "chars_count s = length (filter (\<lambda>c. \<not> (128 \<le> byte c \<and> byte c < 192)) s)"

definition fold_ascii :: "char \<Rightarrow> char" where
  "fold_ascii c = (if 65 \<le> byte c \<and> byte c \<le> 90 then chr (byte c + 32) else c)"

definition COMMON :: "string list" where
  "COMMON =
    [''password'', ''password1'', ''password12'', ''password123'', ''password1234'', ''passw0rd'',
     ''qwerty'', ''qwerty123'', ''qwertyuiop'', ''123456'', ''1234567'', ''12345678'', ''123456789'',
     ''1234567890'', ''111111'', ''000000'', ''abc123'', ''iloveyou'', ''admin'', ''administrator'',
     ''letmein'', ''welcome'', ''welcome1'', ''monkey'', ''dragon'', ''sunshine'', ''princess'',
     ''football'', ''baseball'', ''changeme'', ''changeme1'', ''secret'', ''epiphany'', ''epiphany1'']"

definition is_common :: "string \<Rightarrow> bool" where
  "is_common password \<longleftrightarrow> List.member COMMON (map fold_ascii password)"

definition policy_check :: "password_policy \<Rightarrow> string \<Rightarrow> string + unit" where
  "policy_check p password =
     (if chars_count password < min_length p
      then Inl (''password must be at least '' @ dec (min_length p) @ '' characters'')
      else if reject_common p \<and> is_common password
      then Inl ''password is too common; choose a less guessable one''
      else Inr ())"

section \<open>The store\<close>

type_synonym name_set = "(string, unit) btree"

definition ns_insert :: "string \<Rightarrow> name_set \<Rightarrow> name_set" where
  "ns_insert g s = bt_insert g () s"

fun ns_insert_all :: "string list \<Rightarrow> name_set \<Rightarrow> name_set" where
  "ns_insert_all [] s = s"
| "ns_insert_all (g # gs) s = ns_insert_all gs (ns_insert g s)"

definition ns_collect :: "string list \<Rightarrow> name_set" where
  "ns_collect gs = ns_insert_all gs []"

definition ns_names :: "name_set \<Rightarrow> string list" where
  "ns_names s = map fst s"

record principal =
  pr_username :: string
  pr_is_admin :: bool
  pr_groups :: "string list"

record sec_user =
  us_is_admin :: bool
  us_password_hash :: string
  us_must_change :: bool
  us_groups :: name_set

type_synonym element_key = "string \<times> string \<times> string"

record security =
  sec_users :: "(string, sec_user) btree"
  sec_groups :: name_set
  sec_element_acls :: "(element_key, access_list) btree"
  sec_grants :: "(grant_scope \<times> object_kind, access_list) btree"
  sec_path :: "string option"
  sec_fast_kdf :: bool
  sec_dummy_hash :: string
  sec_policy :: password_policy

section \<open>Queries on users\<close>

definition user_principal :: "string \<Rightarrow> sec_user \<Rightarrow> principal" where
  "user_principal username u =
     \<lparr>pr_username = username, pr_is_admin = us_is_admin u, pr_groups = ns_names (us_groups u)\<rparr>"

definition sec_principal :: "security \<Rightarrow> string \<Rightarrow> principal option" where
  "sec_principal s username = map_option (user_principal username) (map_of (sec_users s) username)"

text \<open>\<open>verify\<close> is \<open>verify_password\<close>: Argon2 against a stored hash.\<close>

definition authenticate :: "(string \<Rightarrow> string \<Rightarrow> bool) \<Rightarrow> security \<Rightarrow> string \<Rightarrow> string \<Rightarrow> principal option" where
  "authenticate verify s username password =
     (case map_of (sec_users s) username of
        None \<Rightarrow> None
      | Some u \<Rightarrow> if verify password (us_password_hash u) then Some (user_principal username u) else None)"

definition password_hash_for :: "security \<Rightarrow> string \<Rightarrow> string option" where
  "password_hash_for s username =
     Some (case map_of (sec_users s) username of Some u \<Rightarrow> us_password_hash u | None \<Rightarrow> sec_dummy_hash s)"

definition must_change_password :: "security \<Rightarrow> string \<Rightarrow> bool" where
  "must_change_password s username =
     (case map_of (sec_users s) username of Some u \<Rightarrow> us_must_change u | None \<Rightarrow> False)"

definition user_count :: "security \<Rightarrow> nat" where
  "user_count s = length (sec_users s)"

definition list_users :: "security \<Rightarrow> principal list" where
  "list_users s = map (\<lambda>(username, u). user_principal username u) (sec_users s)"

definition list_groups :: "security \<Rightarrow> string list" where
  "list_groups s = ns_names (sec_groups s)"

definition admin_count :: "security \<Rightarrow> nat" where
  "admin_count s = length (filter (\<lambda>(_, u). us_is_admin u) (sec_users s))"

section \<open>Access to objects\<close>

definition is_cube_scoped :: "object_kind \<Rightarrow> bool" where
  "is_cube_scoped k \<longleftrightarrow>
     k = KDimension \<or> k = KRule \<or> k = KFlow \<or> k = KView \<or> k = KSubset \<or> k = KJob \<or> k = KSandbox"

definition grant_level :: "security \<Rightarrow> principal \<Rightarrow> grant_scope \<Rightarrow> object_kind \<Rightarrow> access_level" where
  "grant_level s p scope kind =
     (case map_of (sec_grants s) (scope, kind) of
        Some l \<Rightarrow> level_for l (pr_username p) (pr_groups p)
      | None \<Rightarrow> NoAccess)"

definition effective :: "security \<Rightarrow> principal \<Rightarrow> object_kind \<Rightarrow> string option \<Rightarrow> access_level" where
  "effective s p kind cube =
     (if pr_is_admin p then AdminAccess
      else
        let level = grant_level s p GlobalScope kind;
            level = (case cube of Some c \<Rightarrow> max level (grant_level s p (CubeScope c) kind) | None \<Rightarrow> level)
        in if is_cube_scoped kind
           then case cube of
                  Some c \<Rightarrow>
                    let cube_admin = max (grant_level s p GlobalScope KCube) (grant_level s p (CubeScope c) KCube)
                    in if AdminAccess \<le> cube_admin then max level WriteAccess else level
                | None \<Rightarrow> level
           else level)"

definition cube_access :: "security \<Rightarrow> string \<Rightarrow> string \<Rightarrow> access_level" where
  "cube_access s username cube =
     (case sec_principal s username of Some p \<Rightarrow> effective s p KCube (Some cube) | None \<Rightarrow> NoAccess)"

definition can_manage_cubes :: "security \<Rightarrow> principal \<Rightarrow> bool" where
  "can_manage_cubes s p \<longleftrightarrow> pr_is_admin p \<or> AdminAccess \<le> grant_level s p GlobalScope KCube"

section \<open>Access to elements\<close>

definition element_access :: "security \<Rightarrow> principal \<Rightarrow> string \<Rightarrow> string \<Rightarrow> string \<Rightarrow> access_level option" where
  "element_access s p cube dim element =
     (if pr_is_admin p then None
      else map_option (\<lambda>l. level_for l (pr_username p) (pr_groups p))
             (map_of (sec_element_acls s) (cube, dim, element)))"

definition element_readable :: "security \<Rightarrow> principal \<Rightarrow> string \<Rightarrow> string \<Rightarrow> string \<Rightarrow> bool" where
  "element_readable s p cube dim element =
     (case element_access s p cube dim element of Some l \<Rightarrow> ReadAccess \<le> l | None \<Rightarrow> True)"

definition element_writable :: "security \<Rightarrow> principal \<Rightarrow> string \<Rightarrow> string \<Rightarrow> string \<Rightarrow> bool" where
  "element_writable s p cube dim element =
     (case element_access s p cube dim element of Some l \<Rightarrow> WriteAccess \<le> l | None \<Rightarrow> True)"

text \<open>\<open>BTreeMap::range\<close> from an included lower bound: the entries from the first key not below it.\<close>

definition range_from :: "'k::linorder \<Rightarrow> ('k, 'v) btree \<Rightarrow> ('k, 'v) btree" where
  "range_from lower m = dropWhile (\<lambda>(k, _). k < lower) m"

definition has_element_acls :: "security \<Rightarrow> string \<Rightarrow> string \<Rightarrow> bool" where
  "has_element_acls s cube dim =
     (case range_from (cube, dim, []) (sec_element_acls s) of
        ((c, d, _), _) # _ \<Rightarrow> c = cube \<and> d = dim
      | [] \<Rightarrow> False)"

definition element_acls_for :: "security \<Rightarrow> string \<Rightarrow> string \<Rightarrow> (string, access_list) btree" where
  "element_acls_for s cube dim =
     fold (\<lambda>(e, l) m. bt_insert e l m)
       (map (\<lambda>((_, _, e), l). (e, l))
         (takeWhile (\<lambda>((c, d, _), _). c = cube \<and> d = dim)
           (range_from (cube, dim, []) (sec_element_acls s)))) []"

end
