(* ===== verification/Security_Text.thy ===== *)
theory Security_Text
  imports Security_Store
begin

text \<open>
  The security artifact (\<open>SecurityDoc\<close> and its conversions in
  \<open>crates/epiphany-security/src/store.rs\<close>). The TOML text itself is written and read by a
  third-party library: \<open>sec_lib\<close> holds it, with the password hash and the random sources.
\<close>

record user_doc =
  ud_username :: string
  ud_is_admin :: bool
  ud_must_change :: bool
  ud_password_hash :: string
  ud_groups :: "string list"

record element_acl_doc =
  ed_cube :: string
  ed_dimension :: string
  ed_element :: string
  ed_subject_kind :: string
  ed_subject :: string
  ed_level :: string

record grant_doc =
  gd_subject_kind :: string
  gd_subject :: string
  gd_scope :: string
  gd_cube :: "string option"
  gd_kind :: string
  gd_level :: string

record security_doc =
  sd_format :: string
  sd_users :: "user_doc list"
  sd_groups :: "string list"
  sd_element_acls :: "element_acl_doc list"
  sd_grants :: "grant_doc list"

text \<open>
  \<open>kdf fast n password\<close> is the Argon2id hash with the \<open>n\<close>-th salt drawn, or the library's
  message; \<open>random_password n\<close> is a password from the \<open>n\<close>-th draw.
\<close>

record sec_lib =
  toml_write :: "security_doc \<Rightarrow> string"
  toml_read :: "string \<Rightarrow> string + security_doc"
  kdf :: "bool \<Rightarrow> nat \<Rightarrow> string \<Rightarrow> string + string"
  verify_password :: "string \<Rightarrow> string \<Rightarrow> bool"
  random_password :: "nat \<Rightarrow> string"

datatype sec_error =
    UserExists string
  | UserNotFound string
  | IncorrectPassword
  | Hashing string
  | SecIo
  | Format string
  | WeakPassword string
  | LastAdmin

definition SECURITY_FORMAT_TAG :: string where
  "SECURITY_FORMAT_TAG = ''epiphany-security/v0''"

definition DUMMY_HASH_INPUT :: string where
  "DUMMY_HASH_INPUT = ''epiphany::no-such-user::timing-equalizer''"

section \<open>Writing\<close>

definition element_rows :: "(element_key, access_list) btree \<Rightarrow> element_acl_doc list" where
  "element_rows m =
     concat (map (\<lambda>((cube, dim, element), l).
       map (\<lambda>(u, level).
         \<lparr>ed_cube = cube, ed_dimension = dim, ed_element = element, ed_subject_kind = ''user'',
          ed_subject = u, ed_level = level_str level\<rparr>) (al_users l) @
       map (\<lambda>(g, level).
         \<lparr>ed_cube = cube, ed_dimension = dim, ed_element = element, ed_subject_kind = ''group'',
          ed_subject = g, ed_level = level_str level\<rparr>) (al_groups l)) m)"

fun scope_tag :: "grant_scope \<Rightarrow> string \<times> string option" where
  "scope_tag GlobalScope = (''global'', None)"
| "scope_tag (CubeScope c) = (''cube'', Some c)"

definition grant_rows :: "(grant_scope \<times> object_kind, access_list) btree \<Rightarrow> grant_doc list" where
  "grant_rows m =
     concat (map (\<lambda>((scope, kind), l).
       map (\<lambda>(u, level).
         \<lparr>gd_subject_kind = ''user'', gd_subject = u, gd_scope = fst (scope_tag scope),
          gd_cube = snd (scope_tag scope), gd_kind = kind_str kind, gd_level = level_str level\<rparr>) (al_users l) @
       map (\<lambda>(g, level).
         \<lparr>gd_subject_kind = ''group'', gd_subject = g, gd_scope = fst (scope_tag scope),
          gd_cube = snd (scope_tag scope), gd_kind = kind_str kind, gd_level = level_str level\<rparr>) (al_groups l)) m)"

definition user_row :: "string \<Rightarrow> sec_user \<Rightarrow> user_doc" where
  "user_row username u =
     \<lparr>ud_username = username, ud_is_admin = us_is_admin u, ud_must_change = us_must_change u,
      ud_password_hash = us_password_hash u, ud_groups = ns_names (us_groups u)\<rparr>"

definition to_security_doc :: "security \<Rightarrow> security_doc" where
  "to_security_doc s =
     \<lparr>sd_format = SECURITY_FORMAT_TAG,
      sd_users = map (\<lambda>(username, u). user_row username u) (sec_users s),
      sd_groups = ns_names (sec_groups s),
      sd_element_acls = element_rows (sec_element_acls s),
      sd_grants = grant_rows (sec_grants s)\<rparr>"

definition security_text :: "sec_lib \<Rightarrow> security \<Rightarrow> string" where
  "security_text L s = toml_write L (to_security_doc s)"

section \<open>Reading\<close>

definition subject_from :: "string \<Rightarrow> string \<Rightarrow> subject option" where
  "subject_from kind name =
     (if kind = ''user'' then Some (SubUser name)
      else if kind = ''group'' then Some (SubGroup name)
      else None)"

definition row_user :: "user_doc \<Rightarrow> sec_user" where
  "row_user d =
     \<lparr>us_is_admin = ud_is_admin d, us_password_hash = ud_password_hash d,
      us_must_change = ud_must_change d, us_groups = ns_collect (ud_groups d)\<rparr>"

fun read_users :: "user_doc list \<Rightarrow> (string, sec_user) btree \<Rightarrow> (string, sec_user) btree" where
  "read_users [] m = m"
| "read_users (d # ds) m = read_users ds (bt_insert (ud_username d) (row_user d) m)"

text \<open>\<open>entry(key).or_default().set(subject, level)\<close>.\<close>

definition set_at :: "'k::linorder \<Rightarrow> subject \<Rightarrow> access_level \<Rightarrow> ('k, access_list) btree \<Rightarrow> ('k, access_list) btree" where
  "set_at key subj level m =
     bt_insert key (al_set subj level (case map_of m key of Some l \<Rightarrow> l | None \<Rightarrow> al_default)) m"

definition element_label :: "element_acl_doc \<Rightarrow> string" where
  "element_label row =
     CHR 0x27 # ed_cube row @ ''/'' @ ed_dimension row @ ''/'' @ ed_element row @ [CHR 0x27]"

fun read_element_acls ::
  "element_acl_doc list \<Rightarrow> (element_key, access_list) btree \<Rightarrow> sec_error + (element_key, access_list) btree" where
  "read_element_acls [] m = Inr m"
| "read_element_acls (row # rows) m =
     (case level_parse (ed_level row) of
        None \<Rightarrow> Inl (Format (''element ACL for '' @ element_label row @ '' has an unknown level '' @ quoted (ed_level row)))
      | Some level \<Rightarrow>
          (case subject_from (ed_subject_kind row) (ed_subject row) of
             None \<Rightarrow> Inl (Format (''element ACL for '' @ element_label row @ '' has an unknown subject kind '' @ quoted (ed_subject_kind row)))
           | Some subj \<Rightarrow>
               read_element_acls rows (set_at (ed_cube row, ed_dimension row, ed_element row) subj level m)))"

definition scope_from :: "string \<Rightarrow> string option \<Rightarrow> grant_scope option" where
  "scope_from tag cube =
     (if tag = ''global'' then Some GlobalScope
      else if tag = ''cube'' then (case cube of Some c \<Rightarrow> Some (CubeScope c) | None \<Rightarrow> None)
      else None)"

fun read_grants ::
  "grant_doc list \<Rightarrow> (grant_scope \<times> object_kind, access_list) btree \<Rightarrow> (grant_scope \<times> object_kind, access_list) btree" where
  "read_grants [] m = m"
| "read_grants (row # rows) m =
     read_grants rows
       (case subject_from (gd_subject_kind row) (gd_subject row) of
          None \<Rightarrow> m
        | Some subj \<Rightarrow>
            (case kind_parse (gd_kind row) of
               None \<Rightarrow> m
             | Some kind \<Rightarrow>
                 (case level_parse (gd_level row) of
                    None \<Rightarrow> m
                  | Some level \<Rightarrow>
                      (case scope_from (gd_scope row) (gd_cube row) of
                         None \<Rightarrow> m
                       | Some scope \<Rightarrow> set_at (scope, kind) subj level m))))"

definition from_security_doc :: "security_doc \<Rightarrow> bool \<Rightarrow> sec_error + (string \<Rightarrow> security)" where
  "from_security_doc doc fast =
     (if sd_format doc \<noteq> SECURITY_FORMAT_TAG
      then Inl (Format (''unknown security format '' @ quoted (sd_format doc)))
      else
        case read_element_acls (sd_element_acls doc) [] of
          Inl e \<Rightarrow> Inl e
        | Inr acls \<Rightarrow> Inr (\<lambda>dummy.
            \<lparr>sec_users = read_users (sd_users doc) [],
             sec_groups = ns_collect (sd_groups doc),
             sec_element_acls = acls,
             sec_grants = read_grants (sd_grants doc) [],
             sec_path = None, sec_fast_kdf = fast, sec_dummy_hash = dummy,
             sec_policy = default_policy\<rparr>))"

text \<open>The dummy hash is computed last, with the salt of the next draw.\<close>

definition security_from_text :: "sec_lib \<Rightarrow> string \<Rightarrow> bool \<Rightarrow> nat \<Rightarrow> (sec_error + security) \<times> nat" where
  "security_from_text L text fast draw =
     (case toml_read L text of
        Inl e \<Rightarrow> (Inl (Format e), draw)
      | Inr doc \<Rightarrow>
          (case from_security_doc doc fast of
             Inl e \<Rightarrow> (Inl e, draw)
           | Inr store \<Rightarrow>
               (case kdf L fast draw DUMMY_HASH_INPUT of
                  Inl m \<Rightarrow> (Inl (Hashing m), Suc draw)
                | Inr h \<Rightarrow> (Inr (store h), Suc draw))))"

end
