(* ===== verification/Security_Ops.thy ===== *)
theory Security_Ops
  imports Security_Text
begin

text \<open>
  The operations of the security store (\<open>crates/epiphany-security/src/store.rs\<close>). A mutator is
  a state transformer that may fail after changing part of the state; \<open>commit\<close> runs it, saves
  the artifact and puts the four maps back when either fails. Each filesystem call of a save
  consumes one outcome of a script: it succeeds, fails without effect, or the process stops in
  it, before or after the effect.
\<close>

section \<open>Mutators\<close>

type_synonym 'a mutator = "security \<times> nat \<Rightarrow> (sec_error + 'a) \<times> security \<times> nat"

definition bindM :: "'a mutator \<Rightarrow> ('a \<Rightarrow> 'b mutator) \<Rightarrow> 'b mutator" where
  "bindM f g st = (case f st of (Inl e, st') \<Rightarrow> (Inl e, st') | (Inr x, st') \<Rightarrow> g x st')"

definition returnM :: "'a \<Rightarrow> 'a mutator" where
  "returnM x st = (Inr x, st)"

definition liftM :: "(security \<Rightarrow> sec_error + 'a) \<Rightarrow> 'a mutator" where
  "liftM f st = (f (fst st), st)"

definition modifyM :: "(security \<Rightarrow> security) \<Rightarrow> unit mutator" where
  "modifyM f = (\<lambda>(s, n). (Inr (), f s, n))"

text \<open>One draw from the random source.\<close>

definition drawM :: "nat mutator" where
  "drawM = (\<lambda>(s, n). (Inr n, s, Suc n))"

definition hash_password :: "sec_lib \<Rightarrow> string \<Rightarrow> string mutator" where
  "hash_password L password =
     bindM drawM (\<lambda>n. liftM (\<lambda>s. map_err Hashing (kdf L (sec_fast_kdf s) n password)))"

definition check_password :: "string \<Rightarrow> unit mutator" where
  "check_password password = liftM (\<lambda>s. map_err WeakPassword (policy_check (sec_policy s) password))"

definition find_user :: "string \<Rightarrow> sec_user mutator" where
  "find_user username = liftM (\<lambda>s. ok_or (UserNotFound username) (map_of (sec_users s) username))"

definition put_user :: "string \<Rightarrow> sec_user \<Rightarrow> unit mutator" where
  "put_user username u = modifyM (\<lambda>s. s\<lparr>sec_users := bt_insert username u (sec_users s)\<rparr>)"

definition add_groups :: "string list \<Rightarrow> unit mutator" where
  "add_groups gs = modifyM (\<lambda>s. s\<lparr>sec_groups := ns_insert_all gs (sec_groups s)\<rparr>)"

definition insert_user :: "sec_lib \<Rightarrow> string \<Rightarrow> string \<Rightarrow> bool \<Rightarrow> bool \<Rightarrow> string list \<Rightarrow> unit mutator" where
  "insert_user L username password admin must_change groups =
     bindM (liftM (\<lambda>s. if map_of (sec_users s) username \<noteq> None then Inl (UserExists username) else Inr ())) (\<lambda>_.
     bindM (hash_password L password) (\<lambda>h.
       put_user username
         \<lparr>us_is_admin = admin, us_password_hash = h, us_must_change = must_change, us_groups = ns_collect groups\<rparr>))"

text \<open>\<open>retain\<close> with a closure that changes the value it looks at.\<close>

definition purge :: "subject \<Rightarrow> ('k, access_list) btree \<Rightarrow> ('k, access_list) btree" where
  "purge subj m = filter (\<lambda>(_, l). \<not> al_is_empty l) (map (\<lambda>(k, l). (k, al_set subj NoAccess l)) m)"

definition purge_subject :: "subject \<Rightarrow> security \<Rightarrow> security" where
  "purge_subject subj s =
     s\<lparr>sec_grants := purge subj (sec_grants s), sec_element_acls := purge subj (sec_element_acls s)\<rparr>"

text \<open>A grant of one subject in a map of access lists, whose lists are dropped once empty.\<close>

definition put_grant :: "'k::linorder \<Rightarrow> subject \<Rightarrow> access_level \<Rightarrow> ('k, access_list) btree \<Rightarrow> ('k, access_list) btree" where
  "put_grant key subj level m =
     (let m' = set_at key subj level m
      in case map_of m' key of Some l \<Rightarrow> if al_is_empty l then bt_remove key m' else m' | None \<Rightarrow> m')"

section \<open>Saving\<close>

datatype call_outcome = CallDone | CallFailed | CallCut bool

record sec_world =
  artifact :: "string option"
  draws :: nat
  outcomes :: "call_outcome list"

datatype 'a answer = Answer 'a | Refused sec_error | Crashed

text \<open>A filesystem call with its effect on the artifact.\<close>

definition fs_call :: "(string option \<Rightarrow> string option) \<Rightarrow> sec_world \<Rightarrow> unit answer \<times> sec_world" where
  "fs_call eff w =
     (case outcomes w of
        [] \<Rightarrow> (Answer (), w\<lparr>artifact := eff (artifact w)\<rparr>)
      | CallDone # rest \<Rightarrow> (Answer (), w\<lparr>artifact := eff (artifact w), outcomes := rest\<rparr>)
      | CallFailed # rest \<Rightarrow> (Refused SecIo, w\<lparr>outcomes := rest\<rparr>)
      | CallCut b # rest \<Rightarrow>
          (Crashed, w\<lparr>artifact := (if b then eff (artifact w) else artifact w), outcomes := rest\<rparr>))"

definition bindW :: "(sec_world \<Rightarrow> unit answer \<times> sec_world) \<Rightarrow> (sec_world \<Rightarrow> unit answer \<times> sec_world)
    \<Rightarrow> sec_world \<Rightarrow> unit answer \<times> sec_world" where
  "bindW f g w = (case f w of (Answer _, w') \<Rightarrow> g w' | r \<Rightarrow> r)"

text \<open>
  \<open>save\<close>: the directory is created, the temporary file written and synced, and renamed over
  the artifact. The temporary file is never read.
\<close>

definition sec_save :: "sec_lib \<Rightarrow> security \<Rightarrow> sec_world \<Rightarrow> unit answer \<times> sec_world" where
  "sec_save L s w =
     (case sec_path s of
        None \<Rightarrow> (Answer (), w)
      | Some _ \<Rightarrow>
          bindW (fs_call (\<lambda>a. a)) (bindW (fs_call (\<lambda>a. a)) (fs_call (\<lambda>_. Some (security_text L s)))) w)"

definition restore :: "security \<Rightarrow> security \<Rightarrow> security" where
  "restore snapshot s =
     s\<lparr>sec_users := sec_users snapshot, sec_groups := sec_groups snapshot,
       sec_element_acls := sec_element_acls snapshot, sec_grants := sec_grants snapshot\<rparr>"

type_synonym 'a operation = "security \<Rightarrow> sec_world \<Rightarrow> 'a answer \<times> security \<times> sec_world"

definition commit :: "sec_lib \<Rightarrow> 'a mutator \<Rightarrow> 'a operation" where
  "commit L mutate s w =
     (case mutate (s, draws w) of
        (Inl e, s', n) \<Rightarrow> (Refused e, restore s s', w\<lparr>draws := n\<rparr>)
      | (Inr x, s', n) \<Rightarrow>
          (case sec_save L s' (w\<lparr>draws := n\<rparr>) of
             (Answer _, w') \<Rightarrow> (Answer x, s', w')
           | (Refused e, w') \<Rightarrow> (Refused e, restore s s', w')
           | (Crashed, w') \<Rightarrow> (Crashed, s', w')))"

section \<open>Operations\<close>

definition create_user :: "sec_lib \<Rightarrow> string \<Rightarrow> string \<Rightarrow> bool \<Rightarrow> unit operation" where
  "create_user L username password admin =
     commit L (bindM (check_password password) (\<lambda>_. insert_user L username password admin False []))"

definition create_user_with_groups :: "sec_lib \<Rightarrow> string \<Rightarrow> string \<Rightarrow> bool \<Rightarrow> string list \<Rightarrow> unit operation" where
  "create_user_with_groups L username password admin groups =
     commit L
       (bindM (check_password password) (\<lambda>_.
        bindM (insert_user L username password admin False groups) (\<lambda>_.
          add_groups groups)))"

definition change_password :: "sec_lib \<Rightarrow> string \<Rightarrow> string \<Rightarrow> string \<Rightarrow> unit operation" where
  "change_password L username current new =
     commit L
       (bindM (find_user username) (\<lambda>u.
        if \<not> verify_password L current (us_password_hash u) then liftM (\<lambda>_. Inl IncorrectPassword)
        else
          bindM (check_password new) (\<lambda>_.
          bindM (hash_password L new) (\<lambda>h.
          bindM (find_user username) (\<lambda>u.
            put_user username (u\<lparr>us_password_hash := h, us_must_change := False\<rparr>))))))"

definition delete_user :: "sec_lib \<Rightarrow> string \<Rightarrow> bool operation" where
  "delete_user L username s w =
     (if (case map_of (sec_users s) username of Some u \<Rightarrow> us_is_admin u | None \<Rightarrow> False) \<and> admin_count s = 1
      then (Refused LastAdmin, s, w)
      else if map_of (sec_users s) username = None then (Answer False, s, w)
      else
        commit L
          (bindM (modifyM (\<lambda>s. s\<lparr>sec_users := bt_remove username (sec_users s)\<rparr>)) (\<lambda>_.
           bindM (modifyM (purge_subject (SubUser username))) (\<lambda>_. returnM True))) s w)"

definition set_user_admin :: "sec_lib \<Rightarrow> string \<Rightarrow> bool \<Rightarrow> unit operation" where
  "set_user_admin L username admin s w =
     (case map_of (sec_users s) username of
        None \<Rightarrow> (Refused (UserNotFound username), s, w)
      | Some u \<Rightarrow>
          if \<not> admin \<and> us_is_admin u \<and> admin_count s = 1 then (Refused LastAdmin, s, w)
          else commit L (bindM (find_user username) (\<lambda>u. put_user username (u\<lparr>us_is_admin := admin\<rparr>))) s w)"

definition set_user_groups :: "sec_lib \<Rightarrow> string \<Rightarrow> string list \<Rightarrow> unit operation" where
  "set_user_groups L username groups =
     commit L
       (bindM (find_user username) (\<lambda>u.
        bindM (put_user username (u\<lparr>us_groups := ns_collect groups\<rparr>)) (\<lambda>_. add_groups groups)))"

definition reset_password :: "sec_lib \<Rightarrow> string \<Rightarrow> string \<Rightarrow> unit operation" where
  "reset_password L username new =
     commit L
       (bindM (check_password new) (\<lambda>_.
        bindM (hash_password L new) (\<lambda>h.
        bindM (find_user username) (\<lambda>u. put_user username (u\<lparr>us_password_hash := h\<rparr>)))))"

definition reset_password_to_temp :: "sec_lib \<Rightarrow> string \<Rightarrow> string operation" where
  "reset_password_to_temp L username s w =
     (if map_of (sec_users s) username = None then (Refused (UserNotFound username), s, w)
      else
        commit L
          (bindM drawM (\<lambda>n.
           bindM (hash_password L (random_password L n)) (\<lambda>h.
           bindM (find_user username) (\<lambda>u.
           bindM (put_user username (u\<lparr>us_password_hash := h, us_must_change := True\<rparr>)) (\<lambda>_.
             returnM (random_password L n)))))) s w)"

definition create_group :: "sec_lib \<Rightarrow> string \<Rightarrow> unit operation" where
  "create_group L name = commit L (modifyM (\<lambda>s. s\<lparr>sec_groups := ns_insert name (sec_groups s)\<rparr>))"

definition leave_group :: "string \<Rightarrow> sec_user \<Rightarrow> sec_user" where
  "leave_group name u = u\<lparr>us_groups := bt_remove name (us_groups u)\<rparr>"

definition delete_group :: "sec_lib \<Rightarrow> string \<Rightarrow> bool operation" where
  "delete_group L name s w =
     (if map_of (sec_groups s) name = None then (Answer False, s, w)
      else
        commit L
          (bindM (modifyM (\<lambda>s. s\<lparr>sec_groups := bt_remove name (sec_groups s)\<rparr>)) (\<lambda>_.
           bindM (modifyM (\<lambda>s. s\<lparr>sec_users := map (\<lambda>(n, u). (n, leave_group name u)) (sec_users s)\<rparr>)) (\<lambda>_.
           bindM (modifyM (purge_subject (SubGroup name))) (\<lambda>_. returnM True)))) s w)"

definition set_element_access :: "sec_lib \<Rightarrow> string \<Rightarrow> string \<Rightarrow> string \<Rightarrow> subject \<Rightarrow> access_level \<Rightarrow> unit operation" where
  "set_element_access L cube dim element subj level =
     commit L (modifyM (\<lambda>s. s\<lparr>sec_element_acls := put_grant (cube, dim, element) subj level (sec_element_acls s)\<rparr>))"

definition set_grant :: "sec_lib \<Rightarrow> subject \<Rightarrow> grant_scope \<Rightarrow> object_kind \<Rightarrow> access_level \<Rightarrow> unit operation" where
  "set_grant L subj scope kind level =
     commit L (modifyM (\<lambda>s. s\<lparr>sec_grants := put_grant (scope, kind) subj level (sec_grants s)\<rparr>))"

definition set_password_policy :: "password_policy \<Rightarrow> security \<Rightarrow> security" where
  "set_password_policy p s = s\<lparr>sec_policy := p\<rparr>"

section \<open>Opening\<close>

definition empty_security :: "string option \<Rightarrow> bool \<Rightarrow> string \<Rightarrow> password_policy \<Rightarrow> security" where
  "empty_security path fast dummy policy =
     \<lparr>sec_users = [], sec_groups = [], sec_element_acls = [], sec_grants = [], sec_path = path,
      sec_fast_kdf = fast, sec_dummy_hash = dummy, sec_policy = policy\<rparr>"

definition bootstrap :: "sec_lib \<Rightarrow> string option \<Rightarrow> string option mutator" where
  "bootstrap L override =
     bindM (modifyM (\<lambda>s. s\<lparr>sec_groups := ns_insert ''admins'' (sec_groups s)\<rparr>)) (\<lambda>_.
     bindM (case override of Some p \<Rightarrow> returnM p | None \<Rightarrow> bindM drawM (\<lambda>n. returnM (random_password L n))) (\<lambda>password.
     bindM (insert_user L ''admin'' password True True [''admins'']) (\<lambda>_.
       returnM (if override = None then Some password else None))))"

text \<open>\<open>readable\<close> is false when reading an existing file fails.\<close>

definition open_or_bootstrap ::
  "sec_lib \<Rightarrow> bool \<Rightarrow> string \<Rightarrow> bool \<Rightarrow> string option \<Rightarrow> sec_world \<Rightarrow> (security \<times> string option) answer \<times> sec_world" where
  "open_or_bootstrap L readable path fast override w =
     (case artifact w of
        Some text \<Rightarrow>
          if \<not> readable then (Refused SecIo, w)
          else (case security_from_text L text fast (draws w) of
                  (Inl e, n) \<Rightarrow> (Refused e, w\<lparr>draws := n\<rparr>)
                | (Inr s, n) \<Rightarrow> (Answer (s\<lparr>sec_path := Some path\<rparr>, None), w\<lparr>draws := n\<rparr>))
      | None \<Rightarrow>
          (case kdf L fast (draws w) DUMMY_HASH_INPUT of
             Inl m \<Rightarrow> (Refused (Hashing m), w\<lparr>draws := Suc (draws w)\<rparr>)
           | Inr h \<Rightarrow>
               (case bootstrap L override (empty_security (Some path) fast h default_policy, Suc (draws w)) of
                  (Inl e, s, n) \<Rightarrow> (Refused e, w\<lparr>draws := n\<rparr>)
                | (Inr generated, s, n) \<Rightarrow>
                    (case sec_save L s (w\<lparr>draws := n\<rparr>) of
                       (Answer _, w') \<Rightarrow> (Answer (s, generated), w')
                     | (Refused e, w') \<Rightarrow> (Refused e, w')
                     | (Crashed, w') \<Rightarrow> (Crashed, w')))))"

definition with_admin :: "sec_lib \<Rightarrow> string \<Rightarrow> string \<Rightarrow> bool \<Rightarrow> nat \<Rightarrow> (sec_error + unit) \<times> security \<times> nat" where
  "with_admin L username password admin n =
     (case kdf L True n DUMMY_HASH_INPUT of
        Inl m \<Rightarrow> (Inl (Hashing m), empty_security None True '''' permissive, Suc n)
      | Inr h \<Rightarrow> insert_user L username password admin False [] (empty_security None True h permissive, Suc n))"

end
