(* ===== verification/Security_Maps.thy ===== *)
theory Security_Maps
  imports Security_Ops
begin

text \<open>
  Maps of access lists as partial functions from a key and a subject to a level, and what
  granting, revoking and purging do to them; well-formed stores.
\<close>

section \<open>Maps of access lists\<close>

definition acls_ok :: "('k::linorder, access_list) btree \<Rightarrow> bool" where
  "acls_ok m \<longleftrightarrow> bt_ok m \<and> (\<forall>k l. map_of m k = Some l \<longrightarrow> al_ok l \<and> \<not> al_is_empty l)"

definition granted :: "('k, access_list) btree \<Rightarrow> 'k \<times> subject \<Rightarrow> access_level option" where
  "granted m ks = (case map_of m (fst ks) of Some l \<Rightarrow> grant_of l (snd ks) | None \<Rightarrow> None)"

lemma al_is_empty_grants: "al_is_empty l \<longleftrightarrow> (\<forall>subj. grant_of l subj = None)"
proof
  assume all: "\<forall>subj. grant_of l subj = None"
  have "map_of (al_users l) u = None" "map_of (al_groups l) u = None" for u
    using all [rule_format, of "SubUser u"] all [rule_format, of "SubGroup u"] by simp_all
  then have "map_of (al_users l) = Map.empty" "map_of (al_groups l) = Map.empty" by (blast intro: ext)+
  then show "al_is_empty l" by (simp only: al_is_empty_def map_of_eq_empty_iff)
next
  assume "al_is_empty l"
  then have "grant_of l subj = None" for subj by (cases subj) (simp_all add: al_is_empty_def)
  then show "\<forall>subj. grant_of l subj = None" by blast
qed

lemma grant_of_default [simp]: "grant_of al_default subj = None"
  by (cases subj) (simp_all add: al_default_def)

lemma map_of_set_at:
  "map_of (set_at k subj level m) =
     (map_of m)(k \<mapsto> al_set subj level (case map_of m k of Some l \<Rightarrow> l | None \<Rightarrow> al_default))"
  by (simp add: set_at_def)

lemma map_of_put_grant:
  "map_of (put_grant k subj level m) =
     (let l = al_set subj level (case map_of m k of Some l \<Rightarrow> l | None \<Rightarrow> al_default)
      in (map_of m)(k := if al_is_empty l then None else Some l))"
  by (auto simp: put_grant_def Let_def map_of_set_at)

lemma bt_ok_put_grant: "bt_ok m \<Longrightarrow> bt_ok (put_grant k subj level m)"
  by (simp add: put_grant_def set_at_def Let_def split: option.split)

lemma acls_ok_put_grant [wf_intros]: "acls_ok m \<Longrightarrow> acls_ok (put_grant k subj level m)"
  by (auto simp: acls_ok_def bt_ok_put_grant map_of_put_grant Let_def intro!: al_ok_set
      split: option.splits if_splits)

lemma granted_put_grant:
  "granted (put_grant k subj level m) = (granted m)((k, subj) := if level = NoAccess then None else Some level)"
proof
  fix ks :: "'a \<times> subject"
  obtain k' subj' where ks: "ks = (k', subj')" by (cases ks)
  let ?l = "al_set subj level (case map_of m k of Some l \<Rightarrow> l | None \<Rightarrow> al_default)"
  have "grant_of ?l subj' = ((\<lambda>x. granted m (k, x))(subj := if level = NoAccess then None else Some level)) subj'"
    by (simp add: grant_of_set granted_def split: option.split)
  moreover have "granted (put_grant k subj level m) (k, subj') = grant_of ?l subj'"
    by (auto simp: granted_def map_of_put_grant Let_def al_is_empty_grants)
  ultimately show "granted (put_grant k subj level m) ks =
      ((granted m)((k, subj) := if level = NoAccess then None else Some level)) ks"
    by (cases "k' = k") (auto simp: ks granted_def map_of_put_grant Let_def)
qed

lemma map_of_purge:
  assumes "bt_ok m"
  shows "map_of (purge subj m) k =
    (case map_of m k of
       Some l \<Rightarrow> if al_is_empty (al_set subj NoAccess l) then None else Some (al_set subj NoAccess l)
     | None \<Rightarrow> None)"
  using assms
proof (induction m)
  case Nil
  then show ?case by (simp add: purge_def)
next
  case (Cons kl m)
  obtain k' l where kl: "kl = (k', l)" by (cases kl)
  have "map_of m k' = None"
    using Cons.prems by (auto simp: kl map_of_eq_None_iff)
  with Cons show ?case by (auto simp: kl purge_def)
qed

lemma bt_ok_purge: "bt_ok m \<Longrightarrow> bt_ok (purge subj m)"
proof (induction m)
  case (Cons kl m)
  have "fst ` set (purge subj m) \<subseteq> fst ` set m" by (force simp: purge_def)
  with Cons show ?case by (cases kl) (auto simp: purge_def)
qed (simp add: purge_def)

lemma acls_ok_purge [wf_intros]: "acls_ok m \<Longrightarrow> acls_ok (purge subj m)"
  by (auto simp: acls_ok_def bt_ok_purge map_of_purge intro!: al_ok_set split: option.splits if_splits)

lemma granted_purge:
  assumes "acls_ok m"
  shows "granted (purge subj m) = (\<lambda>(k, subj'). if subj' = subj then None else granted m (k, subj'))"
proof
  fix ks
  have m: "map_of (purge subj m) k =
    (case map_of m k of
       Some l \<Rightarrow> if al_is_empty (al_set subj NoAccess l) then None else Some (al_set subj NoAccess l)
     | None \<Rightarrow> None)" for k
    using assms by (simp add: acls_ok_def map_of_purge)
  have e: "al_is_empty (al_set subj NoAccess l) \<Longrightarrow> subj' \<noteq> subj \<Longrightarrow> grant_of l subj' = None" for l subj'
    by (auto simp: al_is_empty_grants grant_of_set split: if_splits)
  show "granted (purge subj m) ks = (case ks of (k, subj') \<Rightarrow> if subj' = subj then None else granted m (k, subj'))"
    by (cases ks) (auto simp: granted_def m e grant_of_set split: option.splits)
qed

lemma granted_present:
  assumes "acls_ok m"
  shows "map_of m k \<noteq> None \<longleftrightarrow> (\<exists>subj. granted m (k, subj) \<noteq> None)"
  using assms by (auto simp: acls_ok_def granted_def al_is_empty_grants split: option.splits)

section \<open>Well-formed stores\<close>

definition users_ok :: "(string, sec_user) btree \<Rightarrow> bool" where
  "users_ok m \<longleftrightarrow> bt_ok m \<and> (\<forall>x u. map_of m x = Some u \<longrightarrow> bt_ok (us_groups u))"

definition sec_ok :: "security \<Rightarrow> bool" where
  "sec_ok s \<longleftrightarrow>
     users_ok (sec_users s) \<and> bt_ok (sec_groups s) \<and> acls_ok (sec_element_acls s) \<and> acls_ok (sec_grants s)"

lemma ns_insert_all_ok [simp]: "bt_ok s \<Longrightarrow> bt_ok (ns_insert_all gs s)"
  by (induction gs arbitrary: s) (simp_all add: ns_insert_def)

lemma keys_ns_insert_all [simp]: "fst ` set (ns_insert_all gs s) = set gs \<union> fst ` set s"
  by (induction gs arbitrary: s) (simp_all add: ns_insert_def)

lemma ns_collect_ok [simp]: "bt_ok (ns_collect gs)" and set_ns_collect [simp]: "fst ` set (ns_collect gs) = set gs"
  by (simp_all add: ns_collect_def)

lemma set_ns_names: "set (ns_names s) = fst ` set s"
  by (simp add: ns_names_def)

lemma users_ok_insert [wf_intros]: "users_ok m \<Longrightarrow> bt_ok (us_groups u) \<Longrightarrow> users_ok (bt_insert x u m)"
  by (auto simp: users_ok_def split: if_splits)

lemma users_ok_remove [wf_intros]: "users_ok m \<Longrightarrow> users_ok (bt_remove x m)"
  by (auto simp: users_ok_def split: if_splits)

lemma map_of_map_value: "map_of (map (\<lambda>(n, u). (n, f u)) m) x = map_option f (map_of m x)"
  by (induction m) auto

lemma bt_ok_map_value: "bt_ok (map (\<lambda>(n, u). (n, f u)) m) \<longleftrightarrow> bt_ok m"
proof -
  have "map fst (map (\<lambda>(n, u). (n, f u)) m) = map fst m" by (induction m) auto
  then show ?thesis by (simp only: bt_ok_def)
qed

lemma users_ok_leave [wf_intros]:
  "users_ok m \<Longrightarrow> users_ok (map (\<lambda>(n, u). (n, leave_group g u)) m)"
  by (auto simp: users_ok_def bt_ok_map_value map_of_map_value leave_group_def)

section \<open>Administrators\<close>

definition admins :: "security \<Rightarrow> string set" where
  "admins s = {x. \<exists>u. map_of (sec_users s) x = Some u \<and> us_is_admin u}"

lemma admin_count_card:
  assumes "users_ok (sec_users s)"
  shows "admin_count s = card (admins s)"
proof -
  let ?f = "filter (\<lambda>(_, u). us_is_admin u) (sec_users s)"
  have d: "distinct (map fst (sec_users s))"
    using assms by (simp add: users_ok_def bt_ok_distinct)
  then have "distinct (map fst ?f)" by (simp add: distinct_map_filter)
  moreover have "x \<in> set (map fst ?f) \<longleftrightarrow> x \<in> admins s" for x
    using d by (simp add: admins_def map_of_eq_Some_iff) force
  then have "set (map fst ?f) = admins s" by blast
  ultimately show ?thesis
    using distinct_card [of "map fst ?f"] by (simp add: admin_count_def)
qed

lemma finite_admins [simp]: "finite (admins s)"
proof -
  have "x \<in> fst ` set (sec_users s)" if "x \<in> admins s" for x
    using that map_of_eq_None_iff [of "sec_users s" x] by (auto simp: admins_def)
  then show ?thesis by (intro finite_subset [of "admins s" "fst ` set (sec_users s)"]) auto
qed

lemma last_admin:
  assumes "users_ok (sec_users s)" "map_of (sec_users s) x = Some u" "us_is_admin u"
  shows "admin_count s = 1 \<longleftrightarrow> admins s = {x}"
proof -
  have x: "x \<in> admins s" using assms(2,3) by (simp add: admins_def)
  have one: "admin_count s = 1 \<longleftrightarrow> (\<exists>y. admins s = {y})"
    unfolding admin_count_card [OF assms(1)] One_nat_def card_1_singleton_iff by (rule refl)
  have "admins s = {x}" if y: "admins s = {y}" for y
    using x unfolding y by simp
  then show ?thesis unfolding one by metis
qed

end
