(* ===== verification/Security_Spec.thy ===== *)
theory Security_Spec
  imports Security_Maps
begin

text \<open>
  What the security store promises: its state as partial functions and sets, one equation per
  operation on it, and the simulation between the operations of \<open>Security_Ops\<close> and these.
\<close>

section \<open>The abstract state\<close>

record spec_user =
  sp_admin :: bool
  sp_hash :: string
  sp_must_change :: bool
  sp_member :: "string set"

record sec_spec =
  sp_users :: "string \<rightharpoonup> spec_user"
  sp_groups :: "string set"
  sp_elements :: "element_key \<times> subject \<rightharpoonup> access_level"
  sp_grants :: "(grant_scope \<times> object_kind) \<times> subject \<rightharpoonup> access_level"

definition abs_user :: "sec_user \<Rightarrow> spec_user" where
  "abs_user u =
     \<lparr>sp_admin = us_is_admin u, sp_hash = us_password_hash u, sp_must_change = us_must_change u,
      sp_member = fst ` set (us_groups u)\<rparr>"

definition abs_sec :: "security \<Rightarrow> sec_spec" where
  "abs_sec s =
     \<lparr>sp_users = (\<lambda>x. map_option abs_user (map_of (sec_users s) x)),
      sp_groups = fst ` set (sec_groups s),
      sp_elements = granted (sec_element_acls s),
      sp_grants = granted (sec_grants s)\<rparr>"

definition sp_admins :: "sec_spec \<Rightarrow> string set" where
  "sp_admins \<sigma> = {x. \<exists>u. sp_users \<sigma> x = Some u \<and> sp_admin u}"

lemma sp_admins_abs [simp]: "sp_admins (abs_sec s) = admins s"
  by (auto simp: sp_admins_def admins_def abs_sec_def abs_user_def)

definition without :: "subject \<Rightarrow> ('k \<times> subject \<rightharpoonup> access_level) \<Rightarrow> ('k \<times> subject \<rightharpoonup> access_level)" where
  "without subj G = (\<lambda>(k, subj'). if subj' = subj then None else G (k, subj'))"

section \<open>Operations as values\<close>

datatype sec_op =
    CreateUser string string bool "string list"
  | ChangePassword string string string
  | DeleteUser string
  | SetUserAdmin string bool
  | SetUserGroups string "string list"
  | ResetPassword string string
  | ResetToTemp string
  | CreateGroup string
  | DeleteGroup string
  | SetElementAccess string string string subject access_level
  | SetGrant subject grant_scope object_kind access_level

datatype sec_reply = Made | Existed bool | Temporary string

definition reply :: "('a \<Rightarrow> sec_reply) \<Rightarrow> 'a answer \<times> security \<times> sec_world \<Rightarrow> sec_reply answer \<times> security \<times> sec_world" where
  "reply f r = (map_answer f (fst r), snd r)"

fun run_sec_op :: "sec_lib \<Rightarrow> sec_op \<Rightarrow> sec_reply operation" where
  "run_sec_op L (CreateUser u p adm gs) s w = reply (\<lambda>_. Made) (create_user_with_groups L u p adm gs s w)"
| "run_sec_op L (ChangePassword u old new) s w = reply (\<lambda>_. Made) (change_password L u old new s w)"
| "run_sec_op L (DeleteUser u) s w = reply Existed (delete_user L u s w)"
| "run_sec_op L (SetUserAdmin u adm) s w = reply (\<lambda>_. Made) (set_user_admin L u adm s w)"
| "run_sec_op L (SetUserGroups u gs) s w = reply (\<lambda>_. Made) (set_user_groups L u gs s w)"
| "run_sec_op L (ResetPassword u p) s w = reply (\<lambda>_. Made) (reset_password L u p s w)"
| "run_sec_op L (ResetToTemp u) s w = reply Temporary (reset_password_to_temp L u s w)"
| "run_sec_op L (CreateGroup g) s w = reply (\<lambda>_. Made) (create_group L g s w)"
| "run_sec_op L (DeleteGroup g) s w = reply Existed (delete_group L g s w)"
| "run_sec_op L (SetElementAccess c d e subj level) s w = reply (\<lambda>_. Made) (set_element_access L c d e subj level s w)"
| "run_sec_op L (SetGrant subj scope kind level) s w = reply (\<lambda>_. Made) (set_grant L subj scope kind level s w)"

section \<open>Their specification\<close>

text \<open>
  \<open>pol\<close> is the password policy, \<open>fast\<close> the cost of the hash and \<open>n\<close> the number of random draws
  made so far; they are not part of the persisted state.
\<close>

definition new_hash :: "sec_lib \<Rightarrow> bool \<Rightarrow> nat \<Rightarrow> string \<Rightarrow> sec_error + string" where
  "new_hash L fast n p = map_err Hashing (kdf L fast n p)"

definition strong :: "password_policy \<Rightarrow> string \<Rightarrow> sec_error + unit" where
  "strong pol p = map_err WeakPassword (policy_check pol p)"

definition known :: "sec_spec \<Rightarrow> string \<Rightarrow> sec_error + spec_user" where
  "known \<sigma> u = ok_or (UserNotFound u) (sp_users \<sigma> u)"

fun spec_op :: "sec_lib \<Rightarrow> password_policy \<Rightarrow> bool \<Rightarrow> nat \<Rightarrow> sec_op \<Rightarrow> sec_spec \<Rightarrow> sec_error + (sec_reply \<times> sec_spec)" where
  "spec_op L pol fast n (CreateUser u p adm gs) \<sigma> =
     bindE (strong pol p) (\<lambda>_.
       if sp_users \<sigma> u \<noteq> None then Inl (UserExists u)
       else bindE (new_hash L fast n p) (\<lambda>h.
         Inr (Made, \<sigma>\<lparr>sp_users := (sp_users \<sigma>)(u \<mapsto> \<lparr>sp_admin = adm, sp_hash = h, sp_must_change = False, sp_member = set gs\<rparr>),
                      sp_groups := set gs \<union> sp_groups \<sigma>\<rparr>)))"
| "spec_op L pol fast n (ChangePassword u old new) \<sigma> =
     bindE (known \<sigma> u) (\<lambda>x.
       if \<not> verify_password L old (sp_hash x) then Inl IncorrectPassword
       else bindE (strong pol new) (\<lambda>_. bindE (new_hash L fast n new) (\<lambda>h.
         Inr (Made, \<sigma>\<lparr>sp_users := (sp_users \<sigma>)(u \<mapsto> x\<lparr>sp_hash := h, sp_must_change := False\<rparr>)\<rparr>))))"
| "spec_op L pol fast n (DeleteUser u) \<sigma> =
     (if sp_admins \<sigma> = {u} then Inl LastAdmin
      else if sp_users \<sigma> u = None then Inr (Existed False, \<sigma>)
      else Inr (Existed True, \<sigma>\<lparr>sp_users := (sp_users \<sigma>)(u := None),
             sp_elements := without (SubUser u) (sp_elements \<sigma>),
             sp_grants := without (SubUser u) (sp_grants \<sigma>)\<rparr>))"
| "spec_op L pol fast n (SetUserAdmin u adm) \<sigma> =
     bindE (known \<sigma> u) (\<lambda>x.
       if \<not> adm \<and> sp_admins \<sigma> = {u} then Inl LastAdmin
       else Inr (Made, \<sigma>\<lparr>sp_users := (sp_users \<sigma>)(u \<mapsto> x\<lparr>sp_admin := adm\<rparr>)\<rparr>))"
| "spec_op L pol fast n (SetUserGroups u gs) \<sigma> =
     bindE (known \<sigma> u) (\<lambda>x.
       Inr (Made, \<sigma>\<lparr>sp_users := (sp_users \<sigma>)(u \<mapsto> x\<lparr>sp_member := set gs\<rparr>),
                    sp_groups := set gs \<union> sp_groups \<sigma>\<rparr>))"
| "spec_op L pol fast n (ResetPassword u p) \<sigma> =
     bindE (strong pol p) (\<lambda>_. bindE (new_hash L fast n p) (\<lambda>h. bindE (known \<sigma> u) (\<lambda>x.
       Inr (Made, \<sigma>\<lparr>sp_users := (sp_users \<sigma>)(u \<mapsto> x\<lparr>sp_hash := h\<rparr>)\<rparr>))))"
| "spec_op L pol fast n (ResetToTemp u) \<sigma> =
     bindE (known \<sigma> u) (\<lambda>x. bindE (new_hash L fast (Suc n) (random_password L n)) (\<lambda>h.
       Inr (Temporary (random_password L n),
            \<sigma>\<lparr>sp_users := (sp_users \<sigma>)(u \<mapsto> x\<lparr>sp_hash := h, sp_must_change := True\<rparr>)\<rparr>)))"
| "spec_op L pol fast n (CreateGroup g) \<sigma> = Inr (Made, \<sigma>\<lparr>sp_groups := insert g (sp_groups \<sigma>)\<rparr>)"
| "spec_op L pol fast n (DeleteGroup g) \<sigma> =
     (if g \<notin> sp_groups \<sigma> then Inr (Existed False, \<sigma>)
      else Inr (Existed True, \<sigma>\<lparr>sp_users := (\<lambda>x. map_option (\<lambda>u. u\<lparr>sp_member := sp_member u - {g}\<rparr>) (sp_users \<sigma> x)),
             sp_groups := sp_groups \<sigma> - {g},
             sp_elements := without (SubGroup g) (sp_elements \<sigma>),
             sp_grants := without (SubGroup g) (sp_grants \<sigma>)\<rparr>))"
| "spec_op L pol fast n (SetElementAccess c d e subj level) \<sigma> =
     Inr (Made, \<sigma>\<lparr>sp_elements := (sp_elements \<sigma>)(((c, d, e), subj) := if level = NoAccess then None else Some level)\<rparr>)"
| "spec_op L pol fast n (SetGrant subj scope kind level) \<sigma> =
     Inr (Made, \<sigma>\<lparr>sp_grants := (sp_grants \<sigma>)(((scope, kind), subj) := if level = NoAccess then None else Some level)\<rparr>)"

section \<open>Commit\<close>

text \<open>What a mutator must leave alone for a failed commit to restore everything.\<close>

definition same_static :: "security \<Rightarrow> security \<Rightarrow> bool" where
  "same_static s s' \<longleftrightarrow>
     sec_path s' = sec_path s \<and> sec_fast_kdf s' = sec_fast_kdf s \<and>
     sec_dummy_hash s' = sec_dummy_hash s \<and> sec_policy s' = sec_policy s"

definition persisted :: "sec_lib \<Rightarrow> security \<Rightarrow> sec_world \<Rightarrow> bool" where
  "persisted L s w \<longleftrightarrow> (sec_path s \<noteq> None \<longrightarrow> artifact w = Some (security_text L s))"

lemma restore_same: "same_static s s' \<Longrightarrow> restore s s' = s"
  by (simp add: restore_def same_static_def)

definition call_fails :: "sec_world \<Rightarrow> bool" where
  "call_fails w \<longleftrightarrow> CallFailed \<in> set (outcomes w)"

definition call_cuts :: "sec_world \<Rightarrow> bool" where
  "call_cuts w \<longleftrightarrow> CallCut False \<in> set (outcomes w) \<or> CallCut True \<in> set (outcomes w)"

lemma call_draws [simp]: "call_fails (w\<lparr>draws := n\<rparr>) = call_fails w" "call_cuts (w\<lparr>draws := n\<rparr>) = call_cuts w"
  by (simp_all add: call_fails_def call_cuts_def)

lemma cut_either [simp]: "CallCut b \<in> X \<Longrightarrow> CallCut False \<in> X \<or> CallCut True \<in> X"
  by (cases b) auto

lemma sec_save_cases:
  "case sec_save L s w of
     (Answer _, w') \<Rightarrow> persisted L s w' \<and> (sec_path s = None \<longrightarrow> artifact w' = artifact w)
   | (Refused e, w') \<Rightarrow> e = SecIo \<and> call_fails w \<and> artifact w' = artifact w
   | (Crashed, w') \<Rightarrow> call_cuts w \<and> sec_path s \<noteq> None \<and> (artifact w' = artifact w \<or> artifact w' = Some (security_text L s))"
  by (auto simp: sec_save_def bindW_def fs_call_def persisted_def call_fails_def call_cuts_def split: option.splits list.splits call_outcome.splits)

text \<open>
  \<open>meets\<close>: an operation that was to produce \<open>spec\<close> has the outcome \<open>r\<close>. An answer is the
  specified one, in memory and on disk; a refusal changes neither, and is the specified one unless
  a filesystem call fails; a crash leaves the artifact of the state before or after.
\<close>

definition meets :: "sec_lib \<Rightarrow> security \<Rightarrow> sec_world \<Rightarrow> sec_error + ('a \<times> sec_spec) \<Rightarrow> 'a answer \<times> security \<times> sec_world \<Rightarrow> bool" where
  "meets L s w spec r =
     (case r of
        (Answer a, s', w') \<Rightarrow>
          sec_ok s' \<and> same_static s s' \<and> spec = Inr (a, abs_sec s') \<and> (persisted L s w \<longrightarrow> persisted L s' w')
      | (Refused e, s', w') \<Rightarrow> s' = s \<and> artifact w' = artifact w \<and> (spec = Inl e \<or> e = SecIo \<and> call_fails w)
      | (Crashed, s', w') \<Rightarrow>
          call_cuts w \<and> sec_path s \<noteq> None \<and> same_static s s' \<and>
          (artifact w' = artifact w \<or>
           sec_ok s' \<and> (\<exists>a. spec = Inr (a, abs_sec s')) \<and> artifact w' = Some (security_text L s')))"

lemma commit_meets:
  assumes "case mutate (s, draws w) of
     (Inl e, s', n) \<Rightarrow> same_static s s' \<and> spec = Inl e
   | (Inr x, s', n) \<Rightarrow> same_static s s' \<and> sec_ok s' \<and> spec = Inr (f x, abs_sec s')"
  shows "meets L s w spec (reply f (commit L mutate s w))"
proof -
  obtain r s' n where m: "mutate (s, draws w) = (r, s', n)" by (metis prod_cases3)
  show ?thesis
  proof (cases r)
    case (Inl e)
    with assms m show ?thesis by (simp add: commit_def meets_def restore_same reply_def)
  next
    case (Inr x)
    with assms m have x: "same_static s s'" "sec_ok s'" "spec = Inr (f x, abs_sec s')" by simp_all
    obtain a w' where sv: "sec_save L s' (w\<lparr>draws := n\<rparr>) = (a, w')" by (cases "sec_save L s' (w\<lparr>draws := n\<rparr>)")
    show ?thesis
      using sec_save_cases [of L s' "w\<lparr>draws := n\<rparr>"] x
      by (cases a) (auto simp: commit_def meets_def m Inr sv restore_same reply_def same_static_def)
  qed
qed

lemma refused_meets: "spec = Inl e \<Longrightarrow> meets L s w spec (reply f (Refused e, s, w))"
  by (simp add: meets_def reply_def)

lemma unchanged_meets: "sec_ok s \<Longrightarrow> spec = Inr (f a, abs_sec s) \<Longrightarrow> meets L s w spec (reply f (Answer a, s, w))"
  by (simp add: meets_def same_static_def reply_def)

section \<open>Each operation meets its specification\<close>

lemma sole_admin:
  assumes "users_ok (sec_users s)" "map_of (sec_users s) x = Some u"
  shows "us_is_admin u \<and> admin_count s = 1 \<longleftrightarrow> admins s = {x}"
proof (cases "us_is_admin u")
  case True
  then show ?thesis using last_admin [OF assms] by simp
next
  case False
  then have "x \<notin> admins s" using assms(2) by (simp add: admins_def)
  then have "admins s \<noteq> {x}" by blast
  with False show ?thesis by simp
qed

lemma keys_bt_remove: "fst ` set (bt_remove k m) = fst ` set m - {k}"
  by (force simp: bt_remove_def)

lemmas mutator_defs =
  bindM_def returnM_def liftM_def modifyM_def drawM_def hash_password_def check_password_def
  find_user_def put_user_def add_groups_def insert_user_def

lemma sec_okD:
  assumes "sec_ok s"
  shows "users_ok (sec_users s)" "bt_ok (sec_groups s)" "acls_ok (sec_element_acls s)" "acls_ok (sec_grants s)"
    "map_of (sec_users s) x = Some u \<Longrightarrow> bt_ok (us_groups u)"
  using assms by (auto simp: sec_ok_def users_ok_def)

lemma sp_users_abs: "sp_users (abs_sec s) x = map_option abs_user (map_of (sec_users s) x)"
  by (simp add: abs_sec_def)

lemma abs_put_user:
  "abs_sec (s\<lparr>sec_users := bt_insert x u (sec_users s)\<rparr>) =
     (abs_sec s)\<lparr>sp_users := (sp_users (abs_sec s))(x \<mapsto> abs_user u)\<rparr>"
  by (auto simp: abs_sec_def)

lemma abs_set_groups:
  "abs_sec (s\<lparr>sec_groups := G\<rparr>) = (abs_sec s)\<lparr>sp_groups := fst ` set G\<rparr>"
  by (simp add: abs_sec_def)

text \<open>The outcome of an operation in a state, against its specification there.\<close>

definition meets_op :: "sec_lib \<Rightarrow> security \<Rightarrow> sec_world \<Rightarrow> sec_op \<Rightarrow> bool" where
  "meets_op L s w op \<longleftrightarrow>
     meets L s w (spec_op L (sec_policy s) (sec_fast_kdf s) (draws w) op (abs_sec s)) (run_sec_op L op s w)"

lemmas simulation =
  mutator_defs strong_def new_hash_def known_def same_static_def sp_users_abs sec_ok_def
  wf_intros abs_sec_def abs_user_def fun_upd_def fun_eq_iff

lemma create_user_meets:
  assumes "sec_ok s"
  shows "meets_op L s w (CreateUser u p adm gs)"
  unfolding meets_op_def run_sec_op.simps create_user_with_groups_def using sec_okD [OF assms]
  by (intro commit_meets, cases "policy_check (sec_policy s) p"; cases "map_of (sec_users s) u";
      cases "kdf L (sec_fast_kdf s) (draws w) p") (simp_all add: simulation)

lemma change_password_meets:
  assumes "sec_ok s"
  shows "meets_op L s w (ChangePassword u old new)"
  unfolding meets_op_def run_sec_op.simps change_password_def using sec_okD [OF assms]
  by (intro commit_meets, cases "policy_check (sec_policy s) new"; cases "map_of (sec_users s) u";
      cases "kdf L (sec_fast_kdf s) (draws w) new") (simp_all add: simulation)

lemma set_user_groups_meets:
  assumes "sec_ok s"
  shows "meets_op L s w (SetUserGroups u gs)"
  unfolding meets_op_def run_sec_op.simps set_user_groups_def using sec_okD [OF assms]
  by (intro commit_meets, cases "map_of (sec_users s) u") (simp_all add: simulation)

lemma reset_password_meets:
  assumes "sec_ok s"
  shows "meets_op L s w (ResetPassword u p)"
  unfolding meets_op_def run_sec_op.simps reset_password_def using sec_okD [OF assms]
  by (intro commit_meets, cases "policy_check (sec_policy s) p"; cases "map_of (sec_users s) u";
      cases "kdf L (sec_fast_kdf s) (draws w) p") (simp_all add: simulation)

lemma create_group_meets:
  assumes "sec_ok s"
  shows "meets_op L s w (CreateGroup g)"
  unfolding meets_op_def run_sec_op.simps create_group_def using sec_okD [OF assms]
  by (intro commit_meets) (simp_all add: simulation ns_insert_def)

lemma set_element_access_meets:
  assumes "sec_ok s"
  shows "meets_op L s w (SetElementAccess c d e subj level)"
  unfolding meets_op_def run_sec_op.simps set_element_access_def using sec_okD [OF assms]
  by (intro commit_meets) (simp_all add: simulation granted_put_grant)

lemma set_grant_meets:
  assumes "sec_ok s"
  shows "meets_op L s w (SetGrant subj scope kind level)"
  unfolding meets_op_def run_sec_op.simps set_grant_def using sec_okD [OF assms]
  by (intro commit_meets) (simp_all add: simulation granted_put_grant)

lemma reset_to_temp_meets:
  assumes "sec_ok s"
  shows "meets_op L s w (ResetToTemp u)"
proof (cases "map_of (sec_users s) u")
  case None
  then show ?thesis
    by (simp add: meets_op_def reset_password_to_temp_def refused_meets known_def sp_users_abs)
next
  case (Some x)
  have "meets L s w (spec_op L (sec_policy s) (sec_fast_kdf s) (draws w) (ResetToTemp u) (abs_sec s))
    (reply Temporary (commit L
          (bindM drawM (\<lambda>n.
           bindM (hash_password L (random_password L n)) (\<lambda>h.
           bindM (find_user u) (\<lambda>x.
           bindM (put_user u (x\<lparr>us_password_hash := h, us_must_change := True\<rparr>)) (\<lambda>_.
             returnM (random_password L n)))))) s w))"
    using Some sec_okD [OF assms]
    by (intro commit_meets, cases "kdf L (sec_fast_kdf s) (Suc (draws w)) (random_password L (draws w))")
       (simp_all add: simulation)
  then show ?thesis by (simp add: meets_op_def reset_password_to_temp_def Some)
qed

lemma set_user_admin_meets:
  assumes "sec_ok s"
  shows "meets_op L s w (SetUserAdmin u adm)"
proof (cases "map_of (sec_users s) u")
  case None
  then show ?thesis
    by (simp add: meets_op_def set_user_admin_def refused_meets known_def sp_users_abs)
next
  case (Some x)
  have last: "us_is_admin x \<and> admin_count s = 1 \<longleftrightarrow> admins s = {u}"
    by (rule sole_admin [OF sec_okD(1) [OF assms] Some])
  show ?thesis
  proof (cases "\<not> adm \<and> admins s = {u}")
    case True
    then show ?thesis using Some last
      by (simp add: meets_op_def set_user_admin_def refused_meets known_def sp_users_abs)
  next
    case False
    have "meets L s w (spec_op L (sec_policy s) (sec_fast_kdf s) (draws w) (SetUserAdmin u adm) (abs_sec s))
      (reply (\<lambda>_. Made) (commit L (bindM (find_user u) (\<lambda>x. put_user u (x\<lparr>us_is_admin := adm\<rparr>))) s w))"
      using Some False sec_okD [OF assms]
      by (intro commit_meets) (simp_all add: mutator_defs known_def sp_users_abs same_static_def sec_ok_def
          wf_intros abs_put_user abs_user_def)
    moreover have "\<not> (\<not> adm \<and> us_is_admin x \<and> admin_count s = 1)" using False last by blast
    ultimately show ?thesis by (simp only: meets_op_def run_sec_op.simps set_user_admin_def Some option.case if_not_P if_False)
  qed
qed

lemma delete_user_meets:
  assumes "sec_ok s"
  shows "meets_op L s w (DeleteUser u)"
proof (cases "map_of (sec_users s) u")
  case None
  then have "u \<notin> admins s" by (simp add: admins_def)
  then have "admins s \<noteq> {u}" by blast
  with None show ?thesis
    by (simp add: meets_op_def delete_user_def unchanged_meets assms sp_users_abs)
next
  case (Some x)
  have last: "us_is_admin x \<and> admin_count s = 1 \<longleftrightarrow> admins s = {u}"
    by (rule sole_admin [OF sec_okD(1) [OF assms] Some])
  show ?thesis
  proof (cases "admins s = {u}")
    case True
    then show ?thesis using Some last
      by (simp add: meets_op_def delete_user_def refused_meets)
  next
    case False
    have "meets L s w (spec_op L (sec_policy s) (sec_fast_kdf s) (draws w) (DeleteUser u) (abs_sec s))
      (reply Existed (commit L
          (bindM (modifyM (\<lambda>s. s\<lparr>sec_users := bt_remove u (sec_users s)\<rparr>)) (\<lambda>_.
           bindM (modifyM (purge_subject (SubUser u))) (\<lambda>_. returnM True))) s w))"
      using Some False sec_okD [OF assms]
      by (intro commit_meets) (simp add: mutator_defs purge_subject_def sp_users_abs same_static_def sec_ok_def
          wf_intros, simp add: abs_sec_def granted_purge without_def fun_eq_iff)
    moreover have "\<not> (us_is_admin x \<and> admin_count s = 1)" using False last by blast
    ultimately show ?thesis
      by (simp only: meets_op_def run_sec_op.simps delete_user_def Some option.case if_not_P option.distinct if_False HOL.simp_thms)
  qed
qed

lemma delete_group_meets:
  assumes "sec_ok s"
  shows "meets_op L s w (DeleteGroup g)"
proof (cases "map_of (sec_groups s) g")
  case None
  then show ?thesis
    by (simp add: meets_op_def delete_group_def unchanged_meets assms abs_sec_def map_of_eq_None_iff)
next
  case (Some x)
  then have "g \<in> sp_groups (abs_sec s)"
    by (metis (no_types, lifting) abs_sec_def map_of_eq_None_iff option.distinct(1) sec_spec.select_convs(2))
  have "meets L s w (spec_op L (sec_policy s) (sec_fast_kdf s) (draws w) (DeleteGroup g) (abs_sec s))
      (reply Existed (commit L
          (bindM (modifyM (\<lambda>s. s\<lparr>sec_groups := bt_remove g (sec_groups s)\<rparr>)) (\<lambda>_.
           bindM (modifyM (\<lambda>s. s\<lparr>sec_users := map (\<lambda>(n, u). (n, leave_group g u)) (sec_users s)\<rparr>)) (\<lambda>_.
           bindM (modifyM (purge_subject (SubGroup g))) (\<lambda>_. returnM True)))) s w))"
    using \<open>g \<in> sp_groups (abs_sec s)\<close> sec_okD [OF assms]
    by (intro commit_meets) (simp add: mutator_defs purge_subject_def same_static_def sec_ok_def
        wf_intros, simp add: abs_sec_def granted_purge without_def fun_eq_iff map_of_map_value
        leave_group_def abs_user_def keys_bt_remove option.map_comp comp_def)
  with Some show ?thesis by (simp add: meets_op_def delete_group_def)
qed

lemma security_operation_meets:
  assumes "sec_ok s"
  shows "meets L s w (spec_op L (sec_policy s) (sec_fast_kdf s) (draws w) op (abs_sec s)) (run_sec_op L op s w)"
  using create_user_meets change_password_meets delete_user_meets set_user_admin_meets set_user_groups_meets
    reset_password_meets reset_to_temp_meets create_group_meets delete_group_meets set_element_access_meets
    set_grant_meets assms
  by (cases op) (simp_all only: flip: meets_op_def)

lemma answered_spec:
  assumes "sec_ok s" "run_sec_op L op s w = (Answer a, s', w')"
  shows "sec_ok s'" "spec_op L (sec_policy s) (sec_fast_kdf s) (draws w) op (abs_sec s) = Inr (a, abs_sec s')"
  using security_operation_meets [OF assms(1), of L w op] unfolding assms(2) meets_def prod.case answer.case
  by blast+

lemma spec_delete_user:
  "spec_op L pol fast n (DeleteUser u) \<sigma> = Inr (Existed True, \<sigma>') \<Longrightarrow>
     sp_grants \<sigma>' = without (SubUser u) (sp_grants \<sigma>) \<and> sp_elements \<sigma>' = without (SubUser u) (sp_elements \<sigma>)"
  by (simp split: if_splits) (auto simp: without_def)

lemma spec_create_user:
  "spec_op L pol fast n (CreateUser u p adm gs) \<sigma> = Inr (a, \<sigma>') \<Longrightarrow>
     sp_grants \<sigma>' = sp_grants \<sigma> \<and>
     (\<exists>h. sp_users \<sigma>' u = Some \<lparr>sp_admin = adm, sp_hash = h, sp_must_change = False, sp_member = set gs\<rparr>)"
  by (auto split: if_splits)

lemma spec_change_password:
  "spec_op L pol fast n (ChangePassword u old new) \<sigma> = Inr (a, \<sigma>') \<Longrightarrow>
     \<exists>x h. sp_users \<sigma>' u = Some (x\<lparr>sp_hash := h, sp_must_change := False\<rparr>) \<and> kdf L fast n new = Inr h"
  by (auto simp: new_hash_def split: if_splits)

end
