(* ===== verification/Security_Access.thy ===== *)
theory Security_Access
  imports Security_Spec
begin

text \<open>
  What the queries of the security store answer, in terms of the abstract grants: the effective
  level of a principal, the restriction of a member, and the ordered range probes over the
  element access lists.
\<close>

section \<open>Levels as grants held\<close>

text \<open>A principal holds a level on a key when one of its subjects was granted at least that.\<close>

definition holds :: "('k \<times> subject \<rightharpoonup> access_level) \<Rightarrow> principal \<Rightarrow> 'k \<Rightarrow> access_level \<Rightarrow> bool" where
  "holds G p k need \<longleftrightarrow>
     (\<exists>subj level. subject_matches subj (pr_username p) (pr_groups p) \<and> G (k, subj) = Some level \<and> need \<le> level)"

lemma level_holds:
  assumes "need \<noteq> NoAccess" "map_of m k = Some l"
  shows "need \<le> level_for l (pr_username p) (pr_groups p) \<longleftrightarrow> holds (granted m) p k need"
  by (simp add: holds_def level_for_ge [OF assms(1)] granted_def assms(2))

lemma grant_level_holds:
  assumes "need \<noteq> NoAccess"
  shows "need \<le> grant_level s p sc kind \<longleftrightarrow> holds (granted (sec_grants s)) p (sc, kind) need"
proof (cases "map_of (sec_grants s) (sc, kind)")
  case None
  then have "\<not> holds (granted (sec_grants s)) p (sc, kind) need" by (simp add: holds_def granted_def)
  with None assms show ?thesis by (simp add: grant_level_def)
next
  case (Some l)
  with level_holds [OF assms Some] show ?thesis by (simp add: grant_level_def)
qed

lemma effective_holds:
  assumes "need \<noteq> NoAccess" "\<not> pr_is_admin p"
  shows "need \<le> effective s p kind cube \<longleftrightarrow>
    holds (granted (sec_grants s)) p (GlobalScope, kind) need \<or>
    (\<exists>c. cube = Some c \<and> holds (granted (sec_grants s)) p (CubeScope c, kind) need) \<or>
    (\<exists>c. cube = Some c \<and> is_cube_scoped kind \<and> need \<le> WriteAccess \<and>
      (holds (granted (sec_grants s)) p (GlobalScope, KCube) AdminAccess \<or> holds (granted (sec_grants s)) p (CubeScope c, KCube) AdminAccess))"
proof -
  have adm: "AdminAccess \<le> grant_level s p sc KCube \<longleftrightarrow> holds (granted (sec_grants s)) p (sc, KCube) AdminAccess" for sc
    by (rule grant_level_holds) simp
  have lv: "need \<le> grant_level s p sc kind \<longleftrightarrow> holds (granted (sec_grants s)) p (sc, kind) need" for sc
    by (rule grant_level_holds [OF assms(1)])
  show ?thesis
  proof (cases cube)
    case None
    then show ?thesis by (simp add: effective_def assms(2) lv Let_def)
  next
    case (Some c)
    have "AdminAccess \<le> max (grant_level s p GlobalScope KCube) (grant_level s p (CubeScope c) KCube) \<longleftrightarrow>
        holds (granted (sec_grants s)) p (GlobalScope, KCube) AdminAccess \<or> holds (granted (sec_grants s)) p (CubeScope c, KCube) AdminAccess"
      unfolding le_max_iff_disj adm by (rule refl)
    with Some show ?thesis
      by (auto simp only: effective_def assms(2) Let_def if_False option.case le_max_iff_disj lv option.inject split: if_split)
  qed
qed

lemma element_access_holds:
  assumes "need \<noteq> NoAccess" "acls_ok (sec_element_acls s)"
  shows "(case element_access s p c d e of Some l \<Rightarrow> need \<le> l | None \<Rightarrow> True) \<longleftrightarrow>
    pr_is_admin p \<or> (\<forall>subj. granted (sec_element_acls s) ((c, d, e), subj) = None) \<or>
    holds (granted (sec_element_acls s)) p (c, d, e) need"
proof (cases "map_of (sec_element_acls s) (c, d, e)")
  case None
  then show ?thesis by (simp add: element_access_def granted_def)
next
  case (Some l)
  with granted_present [OF assms(2), of "(c, d, e)"] level_holds [OF assms(1) Some, of p]
  show ?thesis by (auto simp: element_access_def)
qed

lemma best_grant:
  "need \<le> effective s p kind cube \<longleftrightarrow>
     need = NoAccess \<or> pr_is_admin p \<or>
     holds (sp_grants (abs_sec s)) p (GlobalScope, kind) need \<or>
     (\<exists>c. cube = Some c \<and> holds (sp_grants (abs_sec s)) p (CubeScope c, kind) need) \<or>
     (\<exists>c. cube = Some c \<and> is_cube_scoped kind \<and> need \<le> WriteAccess \<and>
       (holds (sp_grants (abs_sec s)) p (GlobalScope, KCube) AdminAccess \<or>
        holds (sp_grants (abs_sec s)) p (CubeScope c, KCube) AdminAccess))"
proof (cases "need = NoAccess \<or> pr_is_admin p")
  case True
  then show ?thesis by (auto simp: effective_def)
next
  case False
  then show ?thesis using effective_holds [of need p s kind cube] by (simp add: abs_sec_def)
qed

section \<open>Range probes\<close>

lemma range_from_ok:
  assumes "bt_ok m"
  shows "bt_ok (range_from lo m)" "set (range_from lo m) = {kv \<in> set m. lo \<le> fst kv}"
proof -
  have "bt_ok (range_from lo m) \<and> set (range_from lo m) = {kv \<in> set m. lo \<le> fst kv}"
    using assms
  proof (induction m)
    case (Cons kv m)
    obtain k v where kv: "kv = (k, v)" by (cases kv)
    have above: "k < fst x" if "x \<in> set m" for x
      using Cons.prems that by (auto simp: kv)
    have m: "bt_ok m" using Cons.prems by (simp add: kv)
    show ?case
    proof (cases "k < lo")
      case True
      then have "range_from lo (kv # m) = range_from lo m" by (simp add: range_from_def kv)
      moreover have "\<not> lo \<le> fst kv" using True by (simp add: kv)
      ultimately show ?thesis using Cons.IH [OF m] by (auto simp del: fst_conv)
    next
      case False
      then have "lo \<le> fst x" if "x \<in> set m" for x
        using above [OF that] by (meson leI less_imp_le order_trans)
      moreover have "lo \<le> fst kv" using False by (simp add: kv)
      ultimately have "{x \<in> set (kv # m). lo \<le> fst x} = set (kv # m)" by (auto simp del: fst_conv)
      moreover have "range_from lo (kv # m) = kv # m" using False by (simp add: range_from_def kv)
      ultimately show ?thesis using Cons.prems by simp
    qed
  qed (simp add: range_from_def)
  then show "bt_ok (range_from lo m)" "set (range_from lo m) = {kv \<in> set m. lo \<le> fst kv}" by simp_all
qed

lemma takeWhile_band:
  assumes "bt_ok m" "\<And>j k. j \<in> fst ` set m \<Longrightarrow> k \<in> fst ` set m \<Longrightarrow> j \<le> k \<Longrightarrow> P k \<Longrightarrow> P j"
  shows "set (takeWhile (\<lambda>kv. P (fst kv)) m) = {kv \<in> set m. P (fst kv)}"
  using assms
proof (induction m)
  case (Cons kv m)
  have le: "fst kv \<le> fst kv'" if "kv' \<in> set m" for kv'
    using Cons.prems(1) that by (cases kv) (auto intro: less_imp_le)
  have "P (fst kv)" if "kv' \<in> set m" "P (fst kv')" for kv'
    using Cons.prems(2) [of "fst kv" "fst kv'"] le that by simp
  moreover have "set (takeWhile (\<lambda>kv. P (fst kv)) m) = {kv \<in> set m. P (fst kv)}"
  proof (rule Cons.IH)
    show "bt_ok m" using Cons.prems(1) by (cases kv) simp
    show "P j" if "j \<in> fst ` set m" "k \<in> fst ` set m" "j \<le> k" "P k" for j k
      using Cons.prems(2) [of j k] that by simp
  qed
  ultimately show ?case by auto
qed simp

definition in_band :: "string \<Rightarrow> string \<Rightarrow> element_key \<Rightarrow> bool" where
  "in_band c d k \<longleftrightarrow> fst k = c \<and> fst (snd k) = d"

lemma band_below:
  assumes "in_band c d k" "j \<le> k" "(c, d, []) \<le> j"
  shows "in_band c d j"
  using assms by (cases j; cases k) (auto simp: in_band_def less_eq_prod_def less_prod_def)

lemma band_lower: "in_band c d k \<Longrightarrow> (c, d, []) \<le> k"
  by (cases k) (auto simp: in_band_def less_eq_prod_def)

lemma has_element_acls_iff:
  assumes "bt_ok (sec_element_acls s)"
  shows "has_element_acls s c d \<longleftrightarrow> (\<exists>e. map_of (sec_element_acls s) (c, d, e) \<noteq> None)"
proof -
  let ?m = "sec_element_acls s"
  define R where "R = range_from (c, d, []) ?m"
  have R: "bt_ok R" "set R = {kv \<in> set ?m. (c, d, []) \<le> fst kv}"
    using range_from_ok [OF assms] by (simp_all add: R_def)
  have keys: "(\<exists>e. map_of ?m (c, d, e) \<noteq> None) \<longleftrightarrow> (\<exists>k \<in> fst ` set R. in_band c d k)"
  proof -
    have "(\<exists>e. map_of ?m (c, d, e) \<noteq> None) \<longleftrightarrow> (\<exists>k \<in> fst ` set ?m. in_band c d k)"
      unfolding map_of_eq_None_iff in_band_def by (metis fst_conv prod.collapse snd_conv)
    also have "\<dots> \<longleftrightarrow> (\<exists>k \<in> fst ` set R. in_band c d k)"
    proof -
      have "k \<in> fst ` set R" if "k \<in> fst ` set ?m" "in_band c d k" for k
        using band_lower [OF that(2)] that(1) by (auto simp: R(2))
      moreover have "fst ` set R \<subseteq> fst ` set ?m" by (auto simp: R(2))
      ultimately show ?thesis by blast
    qed
    finally show ?thesis .
  qed
  have "has_element_acls s c d \<longleftrightarrow> (case R of kv # _ \<Rightarrow> in_band c d (fst kv) | [] \<Rightarrow> False)"
    by (auto simp: has_element_acls_def R_def in_band_def split: list.splits prod.splits)
  also have "\<dots> \<longleftrightarrow> (\<exists>k \<in> fst ` set R. in_band c d k)"
  proof (cases R)
    case (Cons kv R')
    have le: "fst kv \<le> k" if "k \<in> fst ` set R" for k
      using R(1) that by (cases kv) (auto simp: Cons intro: less_imp_le)
    have lo: "(c, d, []) \<le> fst kv" using R(2) by (auto simp: Cons)
    have "in_band c d (fst kv)" if "k \<in> fst ` set R" "in_band c d k" for k
      using band_below [OF that(2) le [OF that(1)] lo] .
    moreover have "fst kv \<in> fst ` set R" by (simp add: Cons)
    ultimately show ?thesis unfolding Cons list.case by blast
  qed simp
  finally show ?thesis unfolding keys .
qed

lemma map_of_fold_insert:
  "distinct (map fst es) \<Longrightarrow>
     map_of (fold (\<lambda>(e, l) m. bt_insert e l m) es acc) x = (case map_of es x of Some l \<Rightarrow> Some l | None \<Rightarrow> map_of acc x)"
proof (induction es arbitrary: acc)
  case (Cons el es)
  obtain e l where el: "el = (e, l)" by (cases el)
  have "map_of es e = None" using Cons.prems by (simp add: el map_of_eq_None_iff)
  with Cons show ?case by (simp add: el split: option.split)
qed simp

lemma bt_ok_fold_insert: "bt_ok acc \<Longrightarrow> bt_ok (fold (\<lambda>(e, l) m. bt_insert e l m) es acc)"
  by (induction es arbitrary: acc) auto

lemma element_acls_for_lookup:
  assumes "bt_ok (sec_element_acls s)"
  shows "map_of (element_acls_for s c d) e = map_of (sec_element_acls s) (c, d, e)"
    and "bt_ok (element_acls_for s c d)"
proof -
  let ?m = "sec_element_acls s"
  define B where "B = takeWhile (\<lambda>kv. in_band c d (fst kv)) (range_from (c, d, []) ?m)"
  have R: "bt_ok (range_from (c, d, []) ?m)" "set (range_from (c, d, []) ?m) = {kv \<in> set ?m. (c, d, []) \<le> fst kv}"
    using range_from_ok [OF assms] by blast+
  have B: "set B = {kv \<in> set ?m. in_band c d (fst kv)}"
  proof -
    have "in_band c d j"
      if "j \<in> fst ` set (range_from (c, d, []) ?m)" "j \<le> k" "in_band c d k" for j k
      using that(1) by (intro band_below [OF that(3,2)]) (auto simp: R(2))
    then have "set B = {kv \<in> set (range_from (c, d, []) ?m). in_band c d (fst kv)}"
      unfolding B_def by (intro takeWhile_band [OF R(1)])
    then show ?thesis using band_lower unfolding R(2) by blast
  qed
  have dB: "distinct (map fst B)"
  proof -
    have "map fst B = takeWhile (in_band c d) (map fst (range_from (c, d, []) ?m))"
      by (simp add: B_def takeWhile_map comp_def)
    then show ?thesis using bt_ok_distinct [OF R(1)] by simp
  qed
  have "(\<lambda>((c', d', _), _). c' = c \<and> d' = d) = (\<lambda>kv. in_band c d (fst (kv :: element_key \<times> access_list)))"
    by (auto simp: in_band_def fun_eq_iff)
  then have ea: "element_acls_for s c d =
      fold (\<lambda>(e, l) m. bt_insert e l m) (map (\<lambda>((_, _, e), l). (e, l)) B) []"
    by (simp add: element_acls_for_def B_def)
  have inj: "inj_on (\<lambda>k. snd (snd k)) (fst ` set B)"
    by (auto simp: inj_on_def B in_band_def)
  have dE: "distinct (map fst (map (\<lambda>((_, _, e), l). (e, l)) B))"
    using dB inj by (simp add: distinct_map comp_def case_prod_beta) (auto simp: inj_on_def)
  have dm: "distinct (map fst ?m)" using assms by (rule bt_ok_distinct)
  have "(e, l) \<in> set (map (\<lambda>((_, _, e), l). (e, l)) B) \<longleftrightarrow> ((c, d, e), l) \<in> set ?m" for l
    by (force simp: B in_band_def)
  then have "map_of (map (\<lambda>((_, _, e), l). (e, l)) B) e = Some l \<longleftrightarrow> map_of ?m (c, d, e) = Some l" for l
    unfolding map_of_eq_Some_iff [OF dE] map_of_eq_Some_iff [OF dm] .
  then have "map_of (map (\<lambda>((_, _, e), l). (e, l)) B) e = map_of ?m (c, d, e)"
    by (metis not_None_eq)
  then show "map_of (element_acls_for s c d) e = map_of ?m (c, d, e)"
    by (simp add: ea map_of_fold_insert [OF dE] split: option.split)
  show "bt_ok (element_acls_for s c d)" by (simp add: ea bt_ok_fold_insert)
qed

end
