(* ===== verification/Security_Text_Facts.thy ===== *)
theory Security_Text_Facts
  imports Security_Maps
begin

text \<open>
  The security document determines the store: two trees with the same lookups are the same, and
  reading the rows a store writes rebuilds its maps.
\<close>

section \<open>Extensionality\<close>

lemma bt_keys_sorted: "bt_ok m \<Longrightarrow> map fst m = sorted_list_of_set (dom (map_of m))"
  by (metis bt_ok_def dom_map_of_conv_image_fst list.set_map sorted_list_of_set.idem_if_sorted_distinct
      strict_sorted_iff)

lemma bt_entries: "bt_ok m \<Longrightarrow> m = map (\<lambda>k. (k, the (map_of m k))) (map fst m)"
proof -
  assume "bt_ok m"
  then have "distinct (map fst m)" by (rule bt_ok_distinct)
  then have "map (\<lambda>kv. (fst kv, the (map_of m (fst kv)))) m = map (\<lambda>kv. kv) m"
    by (intro map_cong) (auto simp: map_of_eq_Some_iff)
  then show ?thesis by (simp add: comp_def)
qed

lemma bt_ext:
  assumes "bt_ok m" "bt_ok m'" "\<And>k. map_of m k = map_of m' k"
  shows "m = m'"
proof -
  have "map_of m = map_of m'" using assms(3) by blast
  then show ?thesis using bt_entries [OF assms(1)] bt_entries [OF assms(2)] bt_keys_sorted assms(1,2) by metis
qed

lemma access_list_ext:
  assumes "al_ok l" "al_ok l'" "\<And>subj. grant_of l subj = grant_of l' subj"
  shows "l = l'"
proof -
  have "al_users l = al_users l'"
    using assms(1,2) assms(3) [of "SubUser _"] by (intro bt_ext) (simp_all add: al_ok_def)
  moreover have "al_groups l = al_groups l'"
    using assms(1,2) assms(3) [of "SubGroup _"] by (intro bt_ext) (simp_all add: al_ok_def)
  ultimately show ?thesis by simp
qed

lemma acls_ext:
  assumes "acls_ok m" "acls_ok m'" "granted m = granted m'"
  shows "m = m'"
proof (rule bt_ext)
  show "bt_ok m" "bt_ok m'" using assms by (simp_all add: acls_ok_def)
  fix k
  have none: "map_of m k = None \<longleftrightarrow> map_of m' k = None"
    using granted_present [OF assms(1)] granted_present [OF assms(2)] assms(3) by metis
  show "map_of m k = map_of m' k"
  proof (cases "map_of m k")
    case None
    with none show ?thesis by simp
  next
    case (Some l)
    with none obtain l' where l': "map_of m' k = Some l'" by fastforce
    have "grant_of l subj = grant_of l' subj" for subj
      using fun_cong [OF assms(3), of "(k, subj)"] by (simp add: granted_def Some l')
    then have "l = l'"
      using assms(1,2) Some l' by (intro access_list_ext) (auto simp: acls_ok_def)
    with Some l' show ?thesis by simp
  qed
qed

section \<open>Rows of access lists\<close>

type_synonym 'k acl_row = "('k \<times> subject) \<times> access_level"

definition al_rows :: "access_list \<Rightarrow> (subject \<times> access_level) list" where
  "al_rows l = map (\<lambda>(u, level). (SubUser u, level)) (al_users l) @ map (\<lambda>(g, level). (SubGroup g, level)) (al_groups l)"

definition acl_rows :: "('k, access_list) btree \<Rightarrow> 'k acl_row list" where
  "acl_rows m = concat (map (\<lambda>(k, l). map (\<lambda>(subj, level). ((k, subj), level)) (al_rows l)) m)"

fun put_rows :: "'k::linorder acl_row list \<Rightarrow> ('k, access_list) btree \<Rightarrow> ('k, access_list) btree" where
  "put_rows [] m = m"
| "put_rows (((k, subj), level) # rows) m = put_rows rows (set_at k subj level m)"

lemma in_al_rows:
  assumes "al_ok l"
  shows "(subj, level) \<in> set (al_rows l) \<longleftrightarrow> grant_of l subj = Some level"
proof -
  have "distinct (map fst (al_users l))" "distinct (map fst (al_groups l))"
    using assms by (simp_all add: al_ok_def bt_ok_distinct)
  then show ?thesis by (cases subj) (auto simp: al_rows_def map_of_eq_Some_iff)
qed

lemma in_acl_rows:
  assumes "acls_ok m"
  shows "(ks, level) \<in> set (acl_rows m) \<longleftrightarrow> granted m ks = Some level"
proof -
  have d: "distinct (map fst m)" using assms by (simp add: acls_ok_def bt_ok_distinct)
  have "(ks, level) \<in> set (acl_rows m) \<longleftrightarrow> (\<exists>l. (fst ks, l) \<in> set m \<and> (snd ks, level) \<in> set (al_rows l))"
    by (cases ks) (auto simp: acl_rows_def intro!: rev_bexI)
  also have "\<dots> \<longleftrightarrow> (\<exists>l. map_of m (fst ks) = Some l \<and> grant_of l (snd ks) = Some level)"
    unfolding map_of_eq_Some_iff [OF d, symmetric] using assms in_al_rows by (metis acls_ok_def)
  also have "\<dots> \<longleftrightarrow> granted m ks = Some level"
    by (auto simp: granted_def split: option.splits)
  finally show ?thesis .
qed

lemma granted_values:
  assumes "acls_ok m" "granted m ks = Some level"
  shows "level \<noteq> NoAccess"
proof -
  obtain l where l: "map_of m (fst ks) = Some l" "grant_of l (snd ks) = Some level"
    using assms(2) by (auto simp: granted_def split: option.splits)
  with assms(1) have "al_ok l" by (auto simp: acls_ok_def)
  with l show ?thesis by (cases "snd ks") (auto simp: al_ok_def dest!: map_of_SomeD intro: rev_image_eqI)
qed

lemma granted_set_at:
  "level \<noteq> NoAccess \<Longrightarrow> granted (set_at k subj level m) = (granted m)((k, subj) \<mapsto> level)"
  by (auto simp: granted_def map_of_set_at grant_of_set fun_eq_iff split: option.splits)

lemma acls_ok_set_at:
  assumes "acls_ok m" "level \<noteq> NoAccess"
  shows "acls_ok (set_at k subj level m)"
proof -
  have "\<not> al_is_empty (al_set subj level l)" for l
    using assms(2) by (auto simp: al_is_empty_grants grant_of_set intro!: exI [of _ subj])
  then show ?thesis
    using assms(1) by (auto simp: acls_ok_def set_at_def intro!: al_ok_set split: option.splits)
qed

lemma put_rows_grants:
  assumes "\<And>ks level. (ks, level) \<in> set rows \<Longrightarrow> G ks = Some level \<and> level \<noteq> NoAccess" "acls_ok m"
  shows "acls_ok (put_rows rows m) \<and>
    granted (put_rows rows m) = (\<lambda>ks. if ks \<in> fst ` set rows then G ks else granted m ks)"
  using assms
proof (induction rows m rule: put_rows.induct)
  case (2 k subj level rows m)
  have row: "G (k, subj) = Some level" "level \<noteq> NoAccess" using "2.prems"(1) [of "(k, subj)" level] by simp_all
  have rest: "G ks = Some lv \<and> lv \<noteq> NoAccess" if "(ks, lv) \<in> set rows" for ks lv
    using "2.prems"(1) [of ks lv] that by simp
  note IH = "2.IH" [OF rest acls_ok_set_at [OF "2.prems"(2) row(2)]]
  show ?case
    using IH unfolding put_rows.simps granted_set_at [OF row(2)] by (simp add: row(1) fun_eq_iff)
qed simp

lemma put_acl_rows:
  assumes "acls_ok m"
  shows "put_rows (acl_rows m) [] = m"
proof -
  have "acls_ok ([] :: ('a, access_list) btree)" by (simp add: acls_ok_def)
  then have p: "acls_ok (put_rows (acl_rows m) [])"
    "granted (put_rows (acl_rows m) []) = (\<lambda>ks. if ks \<in> fst ` set (acl_rows m) then granted m ks else granted [] ks)"
    using put_rows_grants [of "acl_rows m" "granted m" "[]"] in_acl_rows [OF assms] granted_values [OF assms] by blast+
  have "granted m ks = None" if "ks \<notin> fst ` set (acl_rows m)" for ks
    using that in_acl_rows [OF assms, of ks] by (cases "granted m ks") force+
  then have "granted (put_rows (acl_rows m) []) = granted m"
    by (auto simp: p(2) fun_eq_iff granted_def [of "[]"])
  with p(1) assms show ?thesis by (intro acls_ext)
qed

section \<open>The rows of the document\<close>

fun subject_tag :: "subject \<Rightarrow> string" where
  "subject_tag (SubUser u) = ''user''"
| "subject_tag (SubGroup g) = ''group''"

fun subject_name :: "subject \<Rightarrow> string" where
  "subject_name (SubUser u) = u"
| "subject_name (SubGroup g) = g"

lemma subject_from_tag [simp]: "subject_from (subject_tag subj) (subject_name subj) = Some subj"
  by (cases subj) (simp_all add: subject_from_def)

lemma scope_from_tag [simp]: "scope_from (fst (scope_tag sc)) (snd (scope_tag sc)) = Some sc"
  by (cases sc) (simp_all add: scope_from_def)

definition element_row :: "element_key acl_row \<Rightarrow> element_acl_doc" where
  "element_row r = (case r of (((c, d, e), subj), level) \<Rightarrow>
     \<lparr>ed_cube = c, ed_dimension = d, ed_element = e, ed_subject_kind = subject_tag subj,
      ed_subject = subject_name subj, ed_level = level_str level\<rparr>)"

definition grant_row :: "(grant_scope \<times> object_kind) acl_row \<Rightarrow> grant_doc" where
  "grant_row r = (case r of (((sc, kind), subj), level) \<Rightarrow>
     \<lparr>gd_subject_kind = subject_tag subj, gd_subject = subject_name subj, gd_scope = fst (scope_tag sc),
      gd_cube = snd (scope_tag sc), gd_kind = kind_str kind, gd_level = level_str level\<rparr>)"

lemma element_rows_map: "element_rows m = map element_row (acl_rows m)"
  unfolding element_rows_def acl_rows_def map_concat map_map
  by (intro arg_cong [where f = concat] map_cong) (auto simp: al_rows_def element_row_def)

lemma grant_rows_map: "grant_rows m = map grant_row (acl_rows m)"
  unfolding grant_rows_def acl_rows_def map_concat map_map
  by (intro arg_cong [where f = concat] map_cong) (auto simp: al_rows_def grant_row_def)

lemma read_element_rows: "read_element_acls (map element_row es) m = Inr (put_rows es m)"
  by (induction es m rule: put_rows.induct) (auto simp: element_row_def)

lemma read_grant_rows: "read_grants (map grant_row es) m = put_rows es m"
  by (induction es m rule: put_rows.induct) (auto simp: grant_row_def)

section \<open>Users and groups\<close>

lemma ns_collect_names:
  assumes "bt_ok g"
  shows "ns_collect (ns_names g) = g"
proof (rule bt_ext)
  fix k
  have "map_of (ns_collect (ns_names g)) k = None \<longleftrightarrow> map_of g k = None"
    by (simp add: map_of_eq_None_iff set_ns_names)
  then show "map_of (ns_collect (ns_names g)) k = map_of g k"
    by (cases "map_of (ns_collect (ns_names g)) k"; cases "map_of g k") simp_all
qed (use assms in simp_all)

lemma row_user_row: "bt_ok (us_groups u) \<Longrightarrow> row_user (user_row x u) = u"
  by (simp add: row_user_def user_row_def ns_collect_names)

lemma user_row_name: "ud_username (user_row x u) = x"
  by (simp add: user_row_def)

lemma read_users_ok: "bt_ok acc \<Longrightarrow> bt_ok (read_users ds acc)"
  by (induction ds acc rule: read_users.induct) simp_all

lemma read_users_rows:
  assumes "users_ok m"
  shows "map_of (read_users (map (\<lambda>(x, u). user_row x u) m) acc) y =
    (case map_of m y of Some u \<Rightarrow> Some u | None \<Rightarrow> map_of acc y)"
  using assms
proof (induction m arbitrary: acc)
  case (Cons xu m)
  obtain x u where xu: "xu = (x, u)" by (cases xu)
  have b: "bt_ok ((x, u) # m)" "bt_ok (us_groups u)" "map_of m x = None"
    using Cons.prems by (auto simp: users_ok_def xu map_of_eq_None_iff dest!: spec [of _ x])
  then have "users_ok m"
    using Cons.prems by (auto simp: users_ok_def xu split: if_splits) (metis option.distinct(1))
  from Cons.IH [OF this] b show ?case
    by (auto simp: xu row_user_row user_row_name split: option.split)
qed simp

lemma read_users_back: "users_ok m \<Longrightarrow> read_users (map (\<lambda>(x, u). user_row x u) m) [] = m"
  by (rule bt_ext) (auto simp: read_users_ok users_ok_def [of m] read_users_rows split: option.split)

lemma security_doc_round_trip:
  assumes "sec_ok s"
  shows "from_security_doc (to_security_doc s) fast =
    Inr (\<lambda>h. s\<lparr>sec_path := None, sec_fast_kdf := fast, sec_dummy_hash := h, sec_policy := default_policy\<rparr>)"
  using assms
  by (simp add: from_security_doc_def to_security_doc_def sec_ok_def read_users_back ns_collect_names
      element_rows_map grant_rows_map read_element_rows read_grant_rows put_acl_rows fun_eq_iff)

section \<open>Element rows without a level\<close>

definition row_key :: "element_acl_doc \<Rightarrow> element_key" where
  "row_key row = (ed_cube row, ed_dimension row, ed_element row)"

lemma al_set_default [simp]: "al_set subj NoAccess al_default = al_default"
  by (cases subj) (simp_all add: al_default_def put_level_def bt_remove_def)

lemma read_element_acls_ok: "read_element_acls rows m = Inr m' \<Longrightarrow> bt_ok m \<Longrightarrow> bt_ok m'"
  by (induction rows m rule: read_element_acls.induct) (auto simp: set_at_def split: option.splits)

lemma read_element_acls_none:
  assumes "read_element_acls rows m = Inr m'"
    "\<And>row. row \<in> set rows \<Longrightarrow> row_key row = k \<Longrightarrow> ed_level row = ''none''"
    "map_of m k = None \<or> map_of m k = Some al_default"
  shows "map_of m' k = (if k \<in> row_key ` set rows then Some al_default else map_of m k)"
  using assms
proof (induction rows m rule: read_element_acls.induct)
  case (2 row rows m)
  from "2.prems"(1) obtain level subj where lv: "level_parse (ed_level row) = Some level"
    "subject_from (ed_subject_kind row) (ed_subject row) = Some subj"
    and rest: "read_element_acls rows (set_at (row_key row) subj level m) = Inr m'"
    by (auto simp: row_key_def split: option.splits)
  have none: "ed_level r = ''none''" if "r \<in> set rows" "row_key r = k" for r
    using "2.prems"(2) [of r] that by simp
  have "map_of (set_at (row_key row) subj level m) k = (if row_key row = k then Some al_default else map_of m k)"
    using "2.prems"(2) [of row] "2.prems"(3) lv(1)
    by (auto simp: map_of_set_at level_parse_def)
  then show ?case
    using "2.IH" [OF lv rest [unfolded row_key_def] none] "2.prems"(3) by (auto simp: row_key_def)
qed simp

lemma put_rows_other: "k \<notin> fst ` fst ` set rows \<Longrightarrow> map_of (put_rows rows m) k = map_of m k"
  by (induction rows m rule: put_rows.induct) (auto simp: map_of_set_at)

lemma no_acl_rows:
  assumes "bt_ok m" "map_of m k = Some al_default"
  shows "k \<notin> fst ` fst ` set (acl_rows m)"
proof
  assume "k \<in> fst ` fst ` set (acl_rows m)"
  then obtain l r where l: "(k, l) \<in> set m" "r \<in> set (al_rows l)" by (force simp: acl_rows_def)
  from l(1) have "map_of m k = Some l"
    using bt_ok_distinct [OF assms(1)] by (simp add: map_of_eq_Some_iff)
  then have "l = al_default" using assms(2) by simp
  with l(2) show False by (simp add: al_rows_def al_default_def)
qed

lemma rewritten_doc:
  "from_security_doc (to_security_doc s) fast = Inr f \<Longrightarrow> sec_element_acls (f h) = put_rows (acl_rows (sec_element_acls s)) []"
  by (auto simp: from_security_doc_def to_security_doc_def element_rows_map read_element_rows)

lemma rewritten_doc_loads: "\<exists>f. from_security_doc (to_security_doc s) fast = Inr f"
  by (simp add: from_security_doc_def to_security_doc_def element_rows_map read_element_rows)

end
