(* ===== verification/Security_Reach.thy ===== *)
theory Security_Reach
  imports Security_Access Security_Text_Facts
begin

text \<open>
  Runs of a security store: operations that are answered or refused, changes of the policy, and
  restarts, after a crash in the middle of an operation or at rest. What every run keeps.
\<close>

section \<open>The specification keeps an administrator\<close>

lemma spec_keeps_admin:
  assumes "spec_op L pol fast n op \<sigma> = Inr (a, \<sigma>')" "sp_admins \<sigma> \<noteq> {}"
  shows "sp_admins \<sigma>' \<noteq> {}"
proof -
  obtain x where x: "x \<in> sp_admins \<sigma>" using assms(2) by blast
  have keep: "x \<in> sp_admins \<sigma>'" if "\<And>u. op \<noteq> DeleteUser u" "\<And>u adm. op \<noteq> SetUserAdmin u adm"
    using assms(1) x that by (cases op) (auto simp: sp_admins_def known_def split: if_splits)
  show ?thesis
  proof (cases op)
    case (DeleteUser u)
    then have "sp_admins \<sigma> \<noteq> {u}" using assms(1) by (auto split: if_splits)
    then obtain y where "y \<in> sp_admins \<sigma>" "y \<noteq> u" using assms(2) by blast
    with assms(1) DeleteUser have "y \<in> sp_admins \<sigma>'" by (auto simp: sp_admins_def split: if_splits)
    then show ?thesis by blast
  next
    case (SetUserAdmin u adm)
    show ?thesis
    proof (cases adm)
      case True
      with assms(1) SetUserAdmin have "u \<in> sp_admins \<sigma>'" by (auto simp: sp_admins_def)
      then show ?thesis by blast
    next
      case False
      with assms(1) SetUserAdmin have "sp_admins \<sigma> \<noteq> {u}" by (auto split: if_splits)
      then obtain y where "y \<in> sp_admins \<sigma>" "y \<noteq> u" using assms(2) by blast
      with assms(1) SetUserAdmin False have "y \<in> sp_admins \<sigma>'" by (auto simp: sp_admins_def split: if_splits)
      then show ?thesis by blast
    qed
  qed (use keep in auto)
qed

section \<open>Runs\<close>

definition toml_law :: "sec_lib \<Rightarrow> bool" where
  "toml_law L \<longleftrightarrow> (\<forall>d. toml_read L (toml_write L d) = Inr d)"

inductive sec_step :: "sec_lib \<Rightarrow> security \<times> sec_world \<Rightarrow> security \<times> sec_world \<Rightarrow> bool" for L where
  answered: "run_sec_op L op s w = (Answer a, s', w') \<Longrightarrow> sec_step L (s, w) (s', w')"
| refused: "run_sec_op L op s w = (Refused e, s', w') \<Longrightarrow> sec_step L (s, w) (s', w')"
| policy: "sec_step L (s, w) (set_password_policy pol s, w)"
| reopened:
    "open_or_bootstrap L True path fast override w = (Answer (s', g), w') \<Longrightarrow> sec_step L (s, w) (s', w')"
| crashed:
    "run_sec_op L op s w = (Crashed, s1, w1) \<Longrightarrow>
     open_or_bootstrap L True path fast override w1 = (Answer (s', g), w') \<Longrightarrow> sec_step L (s, w) (s', w')"

inductive sec_run :: "sec_lib \<Rightarrow> security \<times> sec_world \<Rightarrow> security \<times> sec_world \<Rightarrow> bool" for L where
  rest: "sec_run L sw sw"
| more: "sec_run L sw sw1 \<Longrightarrow> sec_step L sw1 sw2 \<Longrightarrow> sec_run L sw sw2"

inductive_cases sec_stepE: "sec_step L (s, w) (s', w')"

text \<open>\<open>governed\<close>: well-formed, on disk as in memory, and with an administrator.\<close>

definition governed :: "sec_lib \<Rightarrow> security \<times> sec_world \<Rightarrow> bool" where
  "governed L sw \<longleftrightarrow>
     (case sw of (s, w) \<Rightarrow> sec_ok s \<and> sec_path s \<noteq> None \<and> artifact w = Some (security_text L s) \<and> admins s \<noteq> {})"

lemma security_doc_static:
  "to_security_doc (s\<lparr>sec_fast_kdf := f, sec_dummy_hash := h, sec_policy := pol, sec_path := p\<rparr>) = to_security_doc s"
  by (simp add: to_security_doc_def)

lemma reopen:
  assumes "toml_law L" "sec_ok s" "artifact w = Some (security_text L s)"
    "open_or_bootstrap L True path fast override w = (Answer (s', g), w')"
  shows "artifact w' = artifact w \<and>
    (\<exists>h. s' = s\<lparr>sec_fast_kdf := fast, sec_dummy_hash := h, sec_policy := default_policy, sec_path := Some path\<rparr>)"
  using assms(4)
  by (auto simp: open_or_bootstrap_def assms(3) security_from_text_def security_text_def
      assms(1) [unfolded toml_law_def, rule_format] security_doc_round_trip [OF assms(2)] split: sum.splits intro: exI)

lemma reopen_governed:
  assumes "toml_law L" "sec_ok s" "admins s \<noteq> {}" "artifact w = Some (security_text L s)"
    "open_or_bootstrap L True path fast override w = (Answer (s', g), w')"
  shows "governed L (s', w')"
proof -
  obtain h where s': "artifact w' = artifact w"
    "s' = s\<lparr>sec_fast_kdf := fast, sec_dummy_hash := h, sec_policy := default_policy, sec_path := Some path\<rparr>"
    using reopen [OF assms(1,2,4,5)] by blast
  with assms(2-4) show ?thesis
    by (simp add: governed_def security_text_def security_doc_static sec_ok_def admins_def)
qed

lemma run_op_governed:
  assumes "governed L (s, w)" "run_sec_op L op s w = (r, s', w')"
  shows "case r of Crashed \<Rightarrow> \<exists>t. sec_ok t \<and> admins t \<noteq> {} \<and> artifact w' = Some (security_text L t)
    | _ \<Rightarrow> governed L (s', w')"
proof -
  have g: "sec_ok s" "sec_path s \<noteq> None" "artifact w = Some (security_text L s)" "admins s \<noteq> {}"
    using assms(1) by (simp_all add: governed_def)
  have m: "meets L s w (spec_op L (sec_policy s) (sec_fast_kdf s) (draws w) op (abs_sec s)) (r, s', w')"
    using security_operation_meets [OF g(1), of L w op] by (simp add: assms(2))
  have keep: "admins s' \<noteq> {}"
    if "spec_op L (sec_policy s) (sec_fast_kdf s) (draws w) op (abs_sec s) = Inr (a, abs_sec s')" for a
    using spec_keeps_admin [OF that] g(4) by simp
  show ?thesis
  proof (cases r)
    case (Answer a)
    with m have "sec_ok s'" "same_static s s'" "persisted L s w \<longrightarrow> persisted L s' w'" "admins s' \<noteq> {}"
      using keep by (auto simp: meets_def)
    then show ?thesis using g Answer by (simp add: governed_def persisted_def same_static_def)
  next
    case (Refused e)
    with m g show ?thesis by (simp add: meets_def governed_def)
  next
    case Crashed
    with m g keep show ?thesis by (auto simp: meets_def)
  qed
qed

lemma sec_step_governed: "toml_law L \<Longrightarrow> governed L (s, w) \<Longrightarrow> sec_step L (s, w) (s', w') \<Longrightarrow> governed L (s', w')"
proof (erule sec_stepE)
  fix op a
  assume "governed L (s, w)" "run_sec_op L op s w = (Answer a, s', w')"
  then show "governed L (s', w')" using run_op_governed by fastforce
next
  fix op e
  assume "governed L (s, w)" "run_sec_op L op s w = (Refused e, s', w')"
  then show "governed L (s', w')" using run_op_governed by fastforce
next
  fix pol
  assume "governed L (s, w)" "s' = set_password_policy pol s" "w' = w"
  then show "governed L (s', w')"
    by (simp add: governed_def set_password_policy_def security_text_def to_security_doc_def sec_ok_def admins_def)
next
  fix path fast override g
  assume "toml_law L" "governed L (s, w)" "open_or_bootstrap L True path fast override w = (Answer (s', g), w')"
  then show "governed L (s', w')"
    by (intro reopen_governed [of L s w path fast override s' g w']) (simp_all add: governed_def)
next
  fix op s1 w1 path fast override g
  assume a: "toml_law L" "governed L (s, w)" "run_sec_op L op s w = (Crashed, s1, w1)"
    "open_or_bootstrap L True path fast override w1 = (Answer (s', g), w')"
  then obtain t where "sec_ok t" "admins t \<noteq> {}" "artifact w1 = Some (security_text L t)"
    using run_op_governed [OF a(2,3)] by auto
  then show "governed L (s', w')" using reopen_governed [OF a(1)] a(4) by blast
qed

lemma sec_run_governed: "sec_run L sw sw' \<Longrightarrow> toml_law L \<Longrightarrow> governed L sw \<Longrightarrow> governed L sw'"
  by (induction rule: sec_run.induct) (metis sec_step_governed surj_pair)+

lemma bootstrap_governed:
  assumes "artifact w = None" "open_or_bootstrap L True path fast override w = (Answer (s, g), w')"
  shows "governed L (s, w')"
proof -
  obtain h where h: "kdf L fast (draws w) DUMMY_HASH_INPUT = Inr h"
    using assms by (auto simp: open_or_bootstrap_def split: sum.splits)
  obtain generated n where b: "bootstrap L override (empty_security (Some path) fast h default_policy, Suc (draws w))
      = (Inr generated, s, n)" and sv: "sec_save L s (w\<lparr>draws := n\<rparr>) = (Answer (), w')"
    using assms by (auto simp: open_or_bootstrap_def h split: sum.splits prod.splits answer.splits)
  obtain h' where s: "s = (empty_security (Some path) fast h default_policy)\<lparr>sec_groups := ns_insert ''admins'' [],
      sec_users := [(''admin'', \<lparr>us_is_admin = True, us_password_hash = h', us_must_change = True,
        us_groups = ns_collect [''admins'']\<rparr>)]\<rparr>"
    using b by (auto simp: bootstrap_def mutator_defs empty_security_def split: option.splits sum.splits if_splits)
  have "sec_path s = Some path" by (simp add: s empty_security_def)
  then have "artifact w' = Some (security_text L s)"
    using sec_save_cases [of L s "w\<lparr>draws := n\<rparr>"] by (simp add: sv persisted_def)
  moreover have "''admin'' \<in> admins s" by (simp add: admins_def s)
  moreover have "sec_ok s"
    by (simp add: s sec_ok_def users_ok_def acls_ok_def empty_security_def ns_insert_def)
  ultimately show ?thesis using \<open>sec_path s = Some path\<close> by (auto simp: governed_def)
qed

section \<open>Runs that grant nothing to one subject\<close>

fun grants_to :: "subject \<Rightarrow> sec_op \<Rightarrow> bool" where
  "grants_to subj (SetElementAccess c d e subj' level) \<longleftrightarrow> subj' = subj \<and> level \<noteq> NoAccess"
| "grants_to subj (SetGrant subj' scope kind level) \<longleftrightarrow> subj' = subj \<and> level \<noteq> NoAccess"
| "grants_to subj op \<longleftrightarrow> False"

text \<open>The steps of \<open>sec_run\<close>, less the grants to \<open>subj\<close>.\<close>

inductive ungranting :: "sec_lib \<Rightarrow> subject \<Rightarrow> security \<times> sec_world \<Rightarrow> security \<times> sec_world \<Rightarrow> bool" for L subj where
  rest: "ungranting L subj sw sw"
| answered:
    "ungranting L subj sw (s, w) \<Longrightarrow> \<not> grants_to subj op \<Longrightarrow> run_sec_op L op s w = (Answer a, s', w') \<Longrightarrow>
     ungranting L subj sw (s', w')"
| refused:
    "ungranting L subj sw (s, w) \<Longrightarrow> run_sec_op L op s w = (Refused e, s', w') \<Longrightarrow> ungranting L subj sw (s', w')"
| policy: "ungranting L subj sw (s, w) \<Longrightarrow> ungranting L subj sw (set_password_policy pol s, w)"
| reopened:
    "ungranting L subj sw (s, w) \<Longrightarrow> open_or_bootstrap L True path fast override w = (Answer (s', g), w') \<Longrightarrow>
     ungranting L subj sw (s', w')"
| crashed:
    "ungranting L subj sw (s, w) \<Longrightarrow> \<not> grants_to subj op \<Longrightarrow> run_sec_op L op s w = (Crashed, s1, w1) \<Longrightarrow>
     open_or_bootstrap L True path fast override w1 = (Answer (s', g), w') \<Longrightarrow> ungranting L subj sw (s', w')"

text \<open>\<open>forgets\<close>: no grant and no element access list names the subject.\<close>

definition forgets :: "subject \<Rightarrow> sec_spec \<Rightarrow> bool" where
  "forgets subj \<sigma> \<longleftrightarrow> (\<forall>k. sp_elements \<sigma> (k, subj) = None) \<and> (\<forall>k. sp_grants \<sigma> (k, subj) = None)"

lemma spec_delete_forgets:
  "spec_op L pol fast n (DeleteUser u) \<sigma> = Inr (Existed True, \<sigma>') \<Longrightarrow> forgets (SubUser u) \<sigma>'"
  by (drule spec_delete_user) (simp add: forgets_def without_def)

lemma spec_forgets:
  "spec_op L pol fast n op \<sigma> = Inr (a, \<sigma>') \<Longrightarrow> forgets subj \<sigma> \<Longrightarrow> \<not> grants_to subj op \<Longrightarrow> forgets subj \<sigma>'"
  by (cases op) (auto simp: forgets_def without_def split: if_splits)

lemma abs_sec_static:
  "abs_sec (s\<lparr>sec_fast_kdf := f, sec_dummy_hash := h, sec_policy := pol, sec_path := p\<rparr>) = abs_sec s"
  "abs_sec (set_password_policy pol s) = abs_sec s"
  by (simp_all add: abs_sec_def set_password_policy_def)

definition kept_forgotten :: "sec_lib \<Rightarrow> subject \<Rightarrow> security \<times> sec_world \<Rightarrow> bool" where
  "kept_forgotten L subj sw \<longleftrightarrow> governed L sw \<and> forgets subj (abs_sec (fst sw))"

lemma reopen_forgets:
  assumes "toml_law L" "sec_ok s" "admins s \<noteq> {}" "artifact w = Some (security_text L s)" "forgets subj (abs_sec s)"
    "open_or_bootstrap L True path fast override w = (Answer (s', g), w')"
  shows "kept_forgotten L subj (s', w')"
  using reopen [OF assms(1,2,4,6)] reopen_governed [OF assms(1-4,6)] assms(5)
  by (auto simp: kept_forgotten_def abs_sec_static)

lemma run_op_forgets:
  assumes "kept_forgotten L subj (s, w)" "run_sec_op L op s w = (r, s', w')" "\<not> grants_to subj op"
  shows "case r of
      Crashed \<Rightarrow> \<exists>t. sec_ok t \<and> admins t \<noteq> {} \<and> artifact w' = Some (security_text L t) \<and> forgets subj (abs_sec t)
    | _ \<Rightarrow> kept_forgotten L subj (s', w')"
proof -
  have g: "governed L (s, w)" "sec_ok s" "artifact w = Some (security_text L s)" "admins s \<noteq> {}" "forgets subj (abs_sec s)"
    using assms(1) by (simp_all add: kept_forgotten_def governed_def)
  let ?spec = "spec_op L (sec_policy s) (sec_fast_kdf s) (draws w) op (abs_sec s)"
  have m: "meets L s w ?spec (r, s', w')"
    using security_operation_meets [OF g(2), of L w op] by (simp add: assms(2))
  have keep: "admins s' \<noteq> {}" "forgets subj (abs_sec s')" if "?spec = Inr (a, abs_sec s')" for a
    using spec_keeps_admin [OF that] spec_forgets [OF that g(5) assms(3)] g(4) by simp_all
  show ?thesis
  proof (cases r)
    case (Answer a)
    with m keep run_op_governed [OF g(1) assms(2)] show ?thesis by (simp add: meets_def kept_forgotten_def)
  next
    case (Refused e)
    with m assms(1) run_op_governed [OF g(1) assms(2)] show ?thesis by (simp add: meets_def kept_forgotten_def)
  next
    case Crashed
    with m g keep show ?thesis by (auto simp: meets_def)
  qed
qed

lemma refused_forgets:
  assumes "kept_forgotten L subj (s, w)" "run_sec_op L op s w = (Refused e, s', w')"
  shows "kept_forgotten L subj (s', w')"
proof -
  have "governed L (s, w)" "sec_ok s" using assms(1) by (simp_all add: kept_forgotten_def governed_def)
  with run_op_governed [OF _ assms(2)] security_operation_meets [of s L w op] assms show ?thesis
    by (simp add: meets_def kept_forgotten_def)
qed

lemma ungranting_forgets:
  "ungranting L subj sw sw' \<Longrightarrow> toml_law L \<Longrightarrow> kept_forgotten L subj sw \<Longrightarrow> kept_forgotten L subj sw'"
proof (induction rule: ungranting.induct)
  case (answered sw s w op a s' w')
  then show ?case using run_op_forgets [of L subj s w op "Answer a" s' w'] by simp
next
  case (refused sw s w op e s' w')
  then show ?case using refused_forgets by blast
next
  case (policy sw s w pol)
  then show ?case
    by (simp add: kept_forgotten_def abs_sec_static)
       (simp add: governed_def set_password_policy_def security_text_def to_security_doc_def sec_ok_def admins_def)
next
  case (reopened sw s w path fast override s' g w')
  then have "sec_ok s" "admins s \<noteq> {}" "artifact w = Some (security_text L s)" "forgets subj (abs_sec s)"
    by (simp_all add: kept_forgotten_def governed_def)
  with reopened show ?case by (intro reopen_forgets)
next
  case (crashed sw s w op s1 w1 path fast override s' g w')
  then obtain t where "sec_ok t" "admins t \<noteq> {}" "artifact w1 = Some (security_text L t)" "forgets subj (abs_sec t)"
    using run_op_forgets [of L subj s w op Crashed s1 w1] by auto
  with crashed show ?case using reopen_forgets by blast
qed

section \<open>The access of a name without grants\<close>

text \<open>What such a principal holds, one of its groups was granted.\<close>

definition held_by_group :: "('k \<times> subject \<rightharpoonup> access_level) \<Rightarrow> string list \<Rightarrow> 'k \<Rightarrow> access_level \<Rightarrow> bool" where
  "held_by_group G gs k need \<longleftrightarrow> (\<exists>g \<in> set gs. \<exists>level. G (k, SubGroup g) = Some level \<and> need \<le> level)"

lemma holds_forgotten:
  assumes "\<And>k. G (k, SubUser (pr_username p)) = None"
  shows "holds G p k need \<longleftrightarrow> held_by_group G (pr_groups p) k need"
proof -
  have "subject_matches subj u gs \<longleftrightarrow> subj = SubUser u \<or> (\<exists>g \<in> set gs. subj = SubGroup g)" for subj u gs
    by (cases subj) auto
  with assms show ?thesis unfolding holds_def held_by_group_def by (metis option.distinct(1))
qed

end
