(* ===== verification/Security_Properties.thy ===== *)
theory Security_Properties
  imports Security_Reach "HOL-Library.Countable"
begin

text \<open>
  The properties of the security store, each with a concrete instance.
\<close>

section \<open>A concrete store\<close>

type_synonym doc_fields =
  "string \<times> (string \<times> bool \<times> bool \<times> string \<times> string list) list \<times> string list \<times>
   (string \<times> string \<times> string \<times> string \<times> string \<times> string) list \<times>
   (string \<times> string \<times> string \<times> string option \<times> string \<times> string) list"

definition doc_tuple :: "security_doc \<Rightarrow> doc_fields" where
  "doc_tuple d =
     (sd_format d,
      map (\<lambda>u. (ud_username u, ud_is_admin u, ud_must_change u, ud_password_hash u, ud_groups u)) (sd_users d),
      sd_groups d,
      map (\<lambda>r. (ed_cube r, ed_dimension r, ed_element r, ed_subject_kind r, ed_subject r, ed_level r)) (sd_element_acls d),
      map (\<lambda>r. (gd_subject_kind r, gd_subject r, gd_scope r, gd_cube r, gd_kind r, gd_level r)) (sd_grants d))"

definition tuple_doc :: "doc_fields \<Rightarrow> security_doc" where
  "tuple_doc t = (case t of (f, us, gs, es, rs) \<Rightarrow>
     \<lparr>sd_format = f,
      sd_users = map (\<lambda>(n, a, m, h, g). \<lparr>ud_username = n, ud_is_admin = a, ud_must_change = m,
        ud_password_hash = h, ud_groups = g\<rparr>) us,
      sd_groups = gs,
      sd_element_acls = map (\<lambda>(c, d, e, k, s, l). \<lparr>ed_cube = c, ed_dimension = d, ed_element = e,
        ed_subject_kind = k, ed_subject = s, ed_level = l\<rparr>) es,
      sd_grants = map (\<lambda>(k, s, sc, c, kd, l). \<lparr>gd_subject_kind = k, gd_subject = s, gd_scope = sc, gd_cube = c,
        gd_kind = kd, gd_level = l\<rparr>) rs\<rparr>)"

lemma doc_records:
  "\<lparr>ud_username = ud_username u, ud_is_admin = ud_is_admin u, ud_must_change = ud_must_change u,
     ud_password_hash = ud_password_hash u, ud_groups = ud_groups u\<rparr> = (u :: user_doc)"
  "\<lparr>ed_cube = ed_cube e, ed_dimension = ed_dimension e, ed_element = ed_element e,
     ed_subject_kind = ed_subject_kind e, ed_subject = ed_subject e, ed_level = ed_level e\<rparr> = (e :: element_acl_doc)"
  "\<lparr>gd_subject_kind = gd_subject_kind g, gd_subject = gd_subject g, gd_scope = gd_scope g, gd_cube = gd_cube g,
     gd_kind = gd_kind g, gd_level = gd_level g\<rparr> = (g :: grant_doc)"
  "\<lparr>sd_format = sd_format d, sd_users = sd_users d, sd_groups = sd_groups d,
     sd_element_acls = sd_element_acls d, sd_grants = sd_grants d\<rparr> = (d :: security_doc)"
  by simp_all

lemma tuple_doc_tuple [simp]: "tuple_doc (doc_tuple d) = d"
  by (simp add: tuple_doc_def doc_tuple_def comp_def doc_records)

definition sample_lib :: sec_lib where
  "sample_lib =
     \<lparr>toml_write = (\<lambda>d. replicate (to_nat (doc_tuple d)) CHR ''a''),
      toml_read = (\<lambda>t. Inr (tuple_doc (from_nat (length t)))),
      kdf = (\<lambda>_ _ p. Inr (CHR ''h'' # p)),
      verify_password = (\<lambda>p h. h = CHR ''h'' # p),
      random_password = (\<lambda>n. replicate (12 + n) CHR ''r'')\<rparr>"

lemma sample_toml_law: "toml_law sample_lib"
  by (simp add: toml_law_def sample_lib_def)

definition sample_user :: "bool \<Rightarrow> string \<Rightarrow> sec_user" where
  "sample_user adm p = \<lparr>us_is_admin = adm, us_password_hash = CHR ''h'' # p, us_must_change = False, us_groups = []\<rparr>"

definition sample_list :: access_list where
  "sample_list = \<lparr>al_users = [(''ann'', WriteAccess)], al_groups = []\<rparr>"

definition sample_store :: security where
  "sample_store =
     \<lparr>sec_users = [(''admin'', sample_user True ''root''), (''ann'', sample_user False ''pw'')], sec_groups = [],
      sec_element_acls = [((''Sales'', ''Region'', ''North''), sample_list)],
      sec_grants = [((GlobalScope, KCube), sample_list)],
      sec_path = None, sec_fast_kdf = True, sec_dummy_hash = ''h'', sec_policy = permissive\<rparr>"

definition calm_world :: sec_world where
  "calm_world = \<lparr>artifact = None, draws = 0, outcomes = []\<rparr>"

lemma sample_list_ok: "al_ok sample_list" "\<not> al_is_empty sample_list"
  by (simp_all add: al_ok_def al_is_empty_def sample_list_def)

lemma sample_store_ok: "sec_ok sample_store"
  using sample_list_ok by (auto simp: sec_ok_def users_ok_def acls_ok_def sample_store_def sample_user_def split: if_splits)

section \<open>Operations\<close>

text \<open>C29: Every operation of the security store (creating and deleting users and groups, passwords,
  memberships, grants, element access) does what its abstract equation says: answered, memory and
  artifact hold the specified state; refused, both are as before, and the refusal is the specified
  one unless a filesystem call failed; interrupted by a crash, the artifact is the one before or
  the one of the specified state.\<close>

theorem security_operation_refines:
  assumes "sec_ok s"
  shows "case run_sec_op L op s w of
      (Answer a, s', w') \<Rightarrow>
        sec_ok s' \<and> same_static s s' \<and>
        spec_op L (sec_policy s) (sec_fast_kdf s) (draws w) op (abs_sec s) = Inr (a, abs_sec s') \<and>
        (persisted L s w \<longrightarrow> persisted L s' w')
    | (Refused e, s', w') \<Rightarrow>
        s' = s \<and> artifact w' = artifact w \<and>
        (spec_op L (sec_policy s) (sec_fast_kdf s) (draws w) op (abs_sec s) = Inl e \<or> e = SecIo \<and> call_fails w)
    | (Crashed, s', w') \<Rightarrow>
        call_cuts w \<and> sec_path s \<noteq> None \<and> same_static s s' \<and>
        (artifact w' = artifact w \<or>
         sec_ok s' \<and>
         (\<exists>a. spec_op L (sec_policy s) (sec_fast_kdf s) (draws w) op (abs_sec s) = Inr (a, abs_sec s')) \<and>
         artifact w' = Some (security_text L s'))"
  using security_operation_meets [OF assms, of L w op] unfolding meets_def .

lemma delete_sole_admin:
  "run_sec_op sample_lib (DeleteUser ''admin'') sample_store calm_world = (Refused LastAdmin, sample_store, calm_world)"
  by (simp add: reply_def delete_user_def sample_store_def sample_user_def admin_count_def)

theorem security_operation_refines_witness:
  "run_sec_op sample_lib (DeleteUser ''admin'') sample_store calm_world = (Refused LastAdmin, sample_store, calm_world) \<and>
   spec_op sample_lib permissive True 0 (DeleteUser ''admin'') (abs_sec sample_store) = Inl LastAdmin"
proof -
  have "sec_policy sample_store = permissive" "sec_fast_kdf sample_store" "draws calm_world = 0"
    by (simp_all add: sample_store_def calm_world_def)
  with security_operation_refines [OF sample_store_ok, where L = sample_lib and op = "DeleteUser ''admin''" and w = calm_world]
  show ?thesis unfolding delete_sole_admin prod.case answer.case by (simp del: spec_op.simps)
qed

text \<open>C30: From the first start of a server on, whatever operations are run, whichever of them fail or
  crash and however often the store is reopened, there is an administrator, and the artifact holds
  what is in memory.\<close>

theorem administrator_survives:
  assumes "toml_law L" "artifact w0 = None"
    "open_or_bootstrap L True path fast override w0 = (Answer (s, g), w)"
    "sec_run L (s, w) (s', w')"
  shows "(\<exists>x u. map_of (sec_users s') x = Some u \<and> us_is_admin u) \<and> artifact w' = Some (security_text L s')"
  using sec_run_governed [OF assms(4,1) bootstrap_governed [OF assms(2,3)]]
  by (auto simp: governed_def admins_def)

definition booted :: "security \<times> sec_world" where
  "booted = (case open_or_bootstrap sample_lib True ''p'' True (Some ''root'') calm_world of
     (Answer (s, _), w) \<Rightarrow> (s, w) | _ \<Rightarrow> (sample_store, calm_world))"

lemma booted_opens:
  "open_or_bootstrap sample_lib True ''p'' True (Some ''root'') calm_world = (Answer (fst booted, None), snd booted)"
  by (simp add: booted_def open_or_bootstrap_def calm_world_def sample_lib_def bootstrap_def mutator_defs empty_security_def
      sec_save_def bindW_def fs_call_def)

lemma booted_users:
  "sec_users (fst booted) = [(''admin'', \<lparr>us_is_admin = True, us_password_hash = ''hroot'', us_must_change = True,
     us_groups = ns_collect [''admins'']\<rparr>)]"
  by (simp add: booted_def open_or_bootstrap_def calm_world_def sample_lib_def bootstrap_def mutator_defs empty_security_def
      sec_save_def bindW_def fs_call_def)

lemma booted_refuses:
  "run_sec_op sample_lib (DeleteUser ''admin'') (fst booted) (snd booted) = (Refused LastAdmin, booted)"
  by (simp add: reply_def delete_user_def booted_users admin_count_def)

theorem administrator_survives_witness:
  "\<exists>s' w'. run_sec_op sample_lib (DeleteUser ''admin'') (fst booted) (snd booted) = (Refused LastAdmin, s', w') \<and>
     (\<exists>x u. map_of (sec_users s') x = Some u \<and> us_is_admin u) \<and> artifact w' = Some (security_text sample_lib s')"
proof -
  have "artifact calm_world = None" by (simp add: calm_world_def)
  moreover have "sec_run sample_lib (fst booted, snd booted) (fst booted, snd booted)" by (rule sec_run.rest)
  then have "sec_run sample_lib (fst booted, snd booted) (fst booted, snd booted)"
    using sec_step.refused booted_refuses by (metis prod.collapse sec_run.more)
  ultimately have "(\<exists>x u. map_of (sec_users (fst booted)) x = Some u \<and> us_is_admin u) \<and>
      artifact (snd booted) = Some (security_text sample_lib (fst booted))"
    by (intro administrator_survives [OF sample_toml_law _ booted_opens])
  with booted_refuses show ?thesis by (metis prod.collapse)
qed

text \<open>C31: The text of a well-formed store reads back to that store, every user, group, element access
  list and grant included.\<close>

theorem security_text_round_trip:
  assumes "sec_ok s" "toml_read L (security_text L s) = Inr (to_security_doc s)"
    "kdf L fast n DUMMY_HASH_INPUT = Inr h"
  shows "security_from_text L (security_text L s) fast n =
    (Inr (s\<lparr>sec_path := None, sec_fast_kdf := fast, sec_dummy_hash := h, sec_policy := default_policy\<rparr>), Suc n)"
  using assms by (simp add: security_from_text_def security_doc_round_trip)

theorem security_text_round_trip_witness:
  "security_from_text sample_lib (security_text sample_lib sample_store) True 0 =
    (Inr (sample_store\<lparr>sec_path := None, sec_fast_kdf := True, sec_dummy_hash := CHR ''h'' # DUMMY_HASH_INPUT,
       sec_policy := default_policy\<rparr>), 1)"
  using security_text_round_trip [OF sample_store_ok, of sample_lib True 0 "CHR ''h'' # DUMMY_HASH_INPUT"] sample_toml_law
  by (simp add: toml_law_def security_text_def) (simp add: sample_lib_def)

section \<open>Access\<close>

text \<open>C32: The effective access of a principal to a kind of object is the best level it was granted, to
  itself or to a group of it, globally or on the cube; an administrator of a cube has write access to
  what lives in it, a server administrator has every level, and nobody else has any.\<close>

theorem effective_access_is_best_grant:
  "need \<le> effective s p kind cube \<longleftrightarrow>
     need = NoAccess \<or> pr_is_admin p \<or>
     holds (sp_grants (abs_sec s)) p (GlobalScope, kind) need \<or>
     (\<exists>c. cube = Some c \<and> holds (sp_grants (abs_sec s)) p (CubeScope c, kind) need) \<or>
     (\<exists>c. cube = Some c \<and> is_cube_scoped kind \<and> need \<le> WriteAccess \<and>
       (holds (sp_grants (abs_sec s)) p (GlobalScope, KCube) AdminAccess \<or>
        holds (sp_grants (abs_sec s)) p (CubeScope c, KCube) AdminAccess))"
  by (rule best_grant)

text \<open>C33: Once a user of a live store (well-formed, on disk, with an administrator) is deleted, nothing
  granted to it is left, in memory or on disk. Whatever is run afterwards, refused, crashed or
  reopened, if nothing is granted to that name again, then an account created under it has exactly
  the access to objects that its administrator flag and its groups give, and reads exactly the
  members that are unrestricted or that its flag or a group of it may read; an account that is no
  administrator and in no group has no access to any object.\<close>

theorem deleted_user_leaves_no_access:
  assumes "toml_law L" "governed L (s, w)"
    "run_sec_op L (DeleteUser u) s w = (Answer (Existed True), s1, w1)"
    "ungranting L (SubUser u) (s1, w1) (s2, w2)"
    "sec_principal s2 u = Some pr"
  shows "(need \<le> effective s2 pr kind cube \<longleftrightarrow>
      need = NoAccess \<or> pr_is_admin pr \<or>
      held_by_group (sp_grants (abs_sec s2)) (pr_groups pr) (GlobalScope, kind) need \<or>
      (\<exists>c. cube = Some c \<and> held_by_group (sp_grants (abs_sec s2)) (pr_groups pr) (CubeScope c, kind) need) \<or>
      (\<exists>c. cube = Some c \<and> is_cube_scoped kind \<and> need \<le> WriteAccess \<and>
        (held_by_group (sp_grants (abs_sec s2)) (pr_groups pr) (GlobalScope, KCube) AdminAccess \<or>
         held_by_group (sp_grants (abs_sec s2)) (pr_groups pr) (CubeScope c, KCube) AdminAccess))) \<and>
    (element_readable s2 pr c d e \<longleftrightarrow>
      pr_is_admin pr \<or> (\<forall>subj. sp_elements (abs_sec s2) ((c, d, e), subj) = None) \<or>
      held_by_group (sp_elements (abs_sec s2)) (pr_groups pr) (c, d, e) ReadAccess) \<and>
    (\<not> pr_is_admin pr \<and> pr_groups pr = [] \<longrightarrow> effective s2 pr kind cube = NoAccess)"
proof -
  have "sec_ok s" using assms(2) by (simp add: governed_def)
  from answered_spec [OF this assms(3)] have "forgets (SubUser u) (abs_sec s1)" by (intro spec_delete_forgets)
  moreover have "governed L (s1, w1)" using run_op_governed [OF assms(2,3)] by simp
  ultimately have k: "kept_forgotten L (SubUser u) (s2, w2)"
    using ungranting_forgets [OF assms(4,1)] by (simp add: kept_forgotten_def)
  have u: "pr_username pr = u" using assms(5) by (auto simp: sec_principal_def user_principal_def)
  have "forgets (SubUser u) (abs_sec s2)" using k by (simp add: kept_forgotten_def)
  note none = this [unfolded forgets_def, folded u]
  have grants: "holds (sp_grants (abs_sec s2)) pr k need =
      held_by_group (sp_grants (abs_sec s2)) (pr_groups pr) k need" for k need
    by (rule holds_forgotten) (rule none [THEN conjunct2, rule_format])
  have elements: "holds (sp_elements (abs_sec s2)) pr k need =
      held_by_group (sp_elements (abs_sec s2)) (pr_groups pr) k need" for k need
    by (rule holds_forgotten) (rule none [THEN conjunct1, rule_format])
  have acls: "acls_ok (sec_element_acls s2)" using k by (simp add: kept_forgotten_def governed_def sec_ok_def)
  note level = best_grant [of _ s2 pr kind cube, unfolded grants]
  have "effective s2 pr kind cube = NoAccess" if "\<not> pr_is_admin pr" "pr_groups pr = []"
    using level [of "effective s2 pr kind cube"] that by (simp add: held_by_group_def)
  with level [of need] element_access_holds [OF _ acls, of ReadAccess pr c d e] elements [of "(c, d, e)" ReadAccess]
  show ?thesis by (simp add: element_readable_def abs_sec_def split: option.splits)
qed

text \<open>A live store from which \<open>ann\<close>, with a grant and an element list of her own, is deleted and created anew
  in a group.\<close>

definition live_store :: security where
  "live_store = sample_store\<lparr>sec_path := Some ''p''\<rparr>"

definition live_world :: "security \<Rightarrow> sec_world" where
  "live_world s = \<lparr>artifact = Some (security_text sample_lib s), draws = 0, outcomes = []\<rparr>"

definition left_store :: security where
  "left_store = live_store\<lparr>sec_users := [(''admin'', sample_user True ''root'')], sec_element_acls := [], sec_grants := []\<rparr>"

definition readded :: security where
  "readded = left_store\<lparr>sec_users := [(''admin'', sample_user True ''root''),
     (''ann'', (sample_user False ''new'')\<lparr>us_groups := ns_collect [''staff'']\<rparr>)], sec_groups := ns_insert ''staff'' []\<rparr>"

lemma live_governed: "governed sample_lib (live_store, live_world live_store)"
proof -
  have "sec_ok live_store" using sample_store_ok by (simp add: sec_ok_def live_store_def)
  moreover have "''admin'' \<in> admins live_store"
    by (simp add: admins_def live_store_def sample_store_def sample_user_def)
  moreover have "sec_path live_store \<noteq> None" by (simp add: live_store_def)
  ultimately show ?thesis by (auto simp: governed_def live_world_def)
qed

lemma calm_save:
  "outcomes w = [] \<Longrightarrow> sec_path s \<noteq> None \<Longrightarrow> sec_save L s w = (Answer (), w\<lparr>artifact := Some (security_text L s)\<rparr>)"
  by (auto simp: sec_save_def bindW_def fs_call_def)

lemma delete_live:
  "run_sec_op sample_lib (DeleteUser ''ann'') live_store (live_world live_store) =
     (Answer (Existed True), left_store, live_world left_store)"
proof -
  have x: "map_of (sec_users live_store) ''ann'' = Some (sample_user False ''pw'')"
    by (simp add: live_store_def sample_store_def)
  have m: "purge_subject (SubUser ''ann'') (live_store\<lparr>sec_users := bt_remove ''ann'' (sec_users live_store)\<rparr>) = left_store"
    by (simp add: live_store_def left_store_def sample_store_def sample_list_def purge_subject_def purge_def put_level_def
        bt_remove_def al_is_empty_def)
  have "sec_save sample_lib left_store (live_world live_store) = (Answer (), live_world left_store)"
    by (simp add: calm_save live_world_def left_store_def live_store_def)
  then show ?thesis
    by (simp add: reply_def delete_user_def x sample_user_def commit_def mutator_defs m live_world_def)
qed

lemma readd_live:
  "\<exists>w. run_sec_op sample_lib (CreateUser ''ann'' ''new'' False [''staff'']) left_store (live_world left_store) =
     (Answer Made, readded, w)"
proof -
  have "kdf sample_lib fast n p = Inr (CHR ''h'' # p)" for fast n p by (simp add: sample_lib_def)
  moreover have "policy_check (sec_policy left_store) ''new'' = Inr ()"
    by (simp add: left_store_def live_store_def sample_store_def policy_check_def permissive_def chars_count_def byte_def)
  moreover have "map_of (sec_users left_store) ''ann'' = None" by (simp add: left_store_def)
  moreover have "left_store\<lparr>sec_users := bt_insert ''ann'' \<lparr>us_is_admin = False, us_password_hash = ''hnew'',
      us_must_change = False, us_groups = ns_collect [''staff'']\<rparr> (sec_users left_store),
      sec_groups := ns_insert ''staff'' (sec_groups left_store)\<rparr> = readded"
    by (simp add: readded_def left_store_def live_store_def sample_user_def sample_store_def)
  moreover have "sec_path readded \<noteq> None" by (simp add: readded_def left_store_def live_store_def)
  ultimately show ?thesis
    by (simp add: reply_def create_user_with_groups_def commit_def mutator_defs calm_save live_world_def)
qed

theorem deleted_user_leaves_no_access_witness:
  "\<exists>w pr. run_sec_op sample_lib (CreateUser ''ann'' ''new'' False [''staff'']) left_store (live_world left_store) =
       (Answer Made, readded, w) \<and>
     sec_principal readded ''ann'' = Some pr \<and> pr_groups pr = [''staff''] \<and>
     \<not> ReadAccess \<le> effective readded pr KCube (Some ''Sales'')"
proof -
  obtain w where w: "run_sec_op sample_lib (CreateUser ''ann'' ''new'' False [''staff'']) left_store
      (live_world left_store) = (Answer Made, readded, w)"
    using readd_live by blast
  have r: "ungranting sample_lib (SubUser ''ann'') (left_store, live_world left_store) (readded, w)"
    by (rule ungranting.answered [OF ungranting.rest _ w]) simp
  obtain pr where pr: "sec_principal readded ''ann'' = Some pr" "\<not> pr_is_admin pr" "pr_groups pr = [''staff'']"
    by (simp add: sec_principal_def readded_def user_principal_def sample_user_def ns_names_def ns_collect_def ns_insert_def)
  have "sp_grants (abs_sec readded) = (\<lambda>_. None)"
    by (simp add: abs_sec_def readded_def left_store_def granted_def fun_eq_iff)
  with deleted_user_leaves_no_access [OF sample_toml_law live_governed delete_live r pr(1), of ReadAccess KCube "Some ''Sales''"]
    pr(2) have "\<not> ReadAccess \<le> effective readded pr KCube (Some ''Sales'')" by (simp add: held_by_group_def)
  with w pr show ?thesis by blast
qed

text \<open>The ordered probes over the element access lists find exactly the lists of one dimension.\<close>

theorem element_probes_agree:
  assumes "sec_ok s"
  shows "map_of (element_acls_for s c d) e = map_of (sec_element_acls s) (c, d, e) \<and>
    has_element_acls s c d = (element_acls_for s c d \<noteq> [])"
proof -
  have ok: "bt_ok (sec_element_acls s)" using assms by (simp add: sec_ok_def acls_ok_def)
  have "element_acls_for s c d = [] \<longleftrightarrow> (\<forall>e. map_of (element_acls_for s c d) e = None)"
    by (metis map_of_eq_empty_iff ext map_of.simps(1))
  then show ?thesis using has_element_acls_iff [OF ok, of c d] element_acls_for_lookup(1) [OF ok] by auto
qed

theorem element_probes_agree_witness:
  "map_of (element_acls_for sample_store ''Sales'' ''Region'') ''North'' = Some sample_list \<and>
   has_element_acls sample_store ''Sales'' ''Region'' = (element_acls_for sample_store ''Sales'' ''Region'' \<noteq> [])"
  using element_probes_agree [OF sample_store_ok, of "''Sales''" "''Region''" "''North''"] by (simp add: sample_store_def)

section \<open>Restrictions that lift themselves\<close>

text \<open>C34: A member whose only element grant is that of one user is denied to everybody else, and
  readable by everybody once that user is deleted.\<close>

theorem restriction_lost_with_last_subject:
  assumes "sec_ok s" "\<not> pr_is_admin p" "pr_username p \<noteq> u"
    "map_of (sec_element_acls s) (c, d, e) = Some \<lparr>al_users = [(u, level)], al_groups = []\<rparr>"
    "run_sec_op L (DeleteUser u) s w = (Answer (Existed True), s', w')"
  shows "\<not> element_readable s p c d e \<and> element_readable s' p c d e"
proof -
  note del = answered_spec [OF assms(1,5)]
  have old: "granted (sec_element_acls s) ((c, d, e), subj) = (if subj = SubUser u then Some level else None)" for subj
    by (cases subj) (simp_all add: granted_def assms(4))
  have "granted (sec_element_acls s') = without (SubUser u) (granted (sec_element_acls s))"
    using spec_delete_user [OF del(2)] by (simp add: abs_sec_def)
  then have "granted (sec_element_acls s') ((c, d, e), subj) = None" for subj
    by (simp add: without_def old)
  moreover have "\<not> holds (granted (sec_element_acls s)) p (c, d, e) ReadAccess"
    using assms(3) by (auto simp: holds_def old)
  moreover have "acls_ok (sec_element_acls s)" "acls_ok (sec_element_acls s')"
    using assms(1) del(1) by (simp_all add: sec_ok_def)
  ultimately show ?thesis
    using element_access_holds [of ReadAccess s p c d e] element_access_holds [of ReadAccess s' p c d e] assms(2) old
    by (simp add: element_readable_def)
qed

lemma delete_ann:
  "run_sec_op sample_lib (DeleteUser ''ann'') sample_store calm_world =
     (Answer (Existed True),
      sample_store\<lparr>sec_users := [(''admin'', sample_user True ''root'')], sec_element_acls := [], sec_grants := []\<rparr>,
      calm_world)"
  by (simp add: reply_def delete_user_def sample_store_def sample_user_def sample_list_def commit_def mutator_defs
      purge_subject_def purge_def put_level_def bt_remove_def al_is_empty_def sec_save_def)

definition bob :: principal where
  "bob = \<lparr>pr_username = ''bob'', pr_is_admin = False, pr_groups = []\<rparr>"

theorem restriction_lost_with_last_subject_witness:
  "\<not> element_readable sample_store bob ''Sales'' ''Region'' ''North'' \<and>
   element_readable (fst (snd (run_sec_op sample_lib (DeleteUser ''ann'') sample_store calm_world))) bob
     ''Sales'' ''Region'' ''North''"
proof -
  have "map_of (sec_element_acls sample_store) (''Sales'', ''Region'', ''North'') =
      Some \<lparr>al_users = [(''ann'', WriteAccess)], al_groups = []\<rparr>"
    by (simp add: sample_store_def sample_list_def)
  from restriction_lost_with_last_subject [OF sample_store_ok _ _ this delete_ann, of bob]
  show ?thesis unfolding delete_ann by (simp add: bob_def)
qed

text \<open>An artifact whose element rows for a member all have the level \<open>none\<close> loads to a store that
  denies the member to everybody but administrators; the document that store writes loads to one that
  lets everybody read it.\<close>

theorem none_rows_lost_by_saving:
  assumes "from_security_doc doc fast = Inr f" "(c, d, e) \<in> row_key ` set (sd_element_acls doc)"
    "\<And>row. row \<in> set (sd_element_acls doc) \<Longrightarrow> row_key row = (c, d, e) \<Longrightarrow> ed_level row = ''none''"
    "\<not> pr_is_admin p"
  shows "\<not> element_readable (f h) p c d e \<and>
    (\<exists>f'. from_security_doc (to_security_doc (f h)) fast = Inr f' \<and> element_readable (f' h') p c d e)"
proof -
  have load: "read_element_acls (sd_element_acls doc) [] = Inr (sec_element_acls (f h))"
    using assms(1) by (auto simp: from_security_doc_def split: if_splits sum.splits)
  have at: "map_of (sec_element_acls (f h)) (c, d, e) = Some al_default"
    using read_element_acls_none [OF load assms(3)] assms(2) by simp
  have "(c, d, e) \<notin> fst ` fst ` set (acl_rows (sec_element_acls (f h)))"
    using no_acl_rows [OF read_element_acls_ok [OF load] at] by simp
  then have "map_of (put_rows (acl_rows (sec_element_acls (f h))) []) (c, d, e) = None"
    by (simp add: put_rows_other)
  moreover obtain f' where f': "from_security_doc (to_security_doc (f h)) fast = Inr f'"
    using rewritten_doc_loads by blast
  ultimately have "map_of (sec_element_acls (f' h')) (c, d, e) = None"
    by (simp only: rewritten_doc [OF f'])
  then have "element_readable (f' h') p c d e"
    by (simp add: element_readable_def element_access_def)
  moreover have "level_for al_default x gs = NoAccess" for x gs
    by (induction gs) (simp_all add: level_for_def al_default_def)
  then have "\<not> element_readable (f h) p c d e"
    using assms(4) by (simp add: element_readable_def element_access_def at)
  ultimately show ?thesis using f' by blast
qed

definition none_doc :: security_doc where
  "none_doc = \<lparr>sd_format = SECURITY_FORMAT_TAG, sd_users = [], sd_groups = [],
     sd_element_acls = [\<lparr>ed_cube = ''Sales'', ed_dimension = ''Region'', ed_element = ''North'',
       ed_subject_kind = ''user'', ed_subject = ''ann'', ed_level = ''none''\<rparr>],
     sd_grants = []\<rparr>"

lemma none_doc_loads:
  "from_security_doc none_doc True = Inr (\<lambda>h. (empty_security None True h default_policy)
     \<lparr>sec_element_acls := [((''Sales'', ''Region'', ''North''), al_default)]\<rparr>)"
  by (simp add: from_security_doc_def none_doc_def level_parse_def subject_from_def set_at_def empty_security_def
      ns_collect_def)

definition none_store :: security where
  "none_store = (empty_security None True ''x'' default_policy)
     \<lparr>sec_element_acls := [((''Sales'', ''Region'', ''North''), al_default)]\<rparr>"

theorem none_rows_lost_by_saving_witness:
  "\<not> element_readable none_store bob ''Sales'' ''Region'' ''North'' \<and>
   (\<exists>f'. from_security_doc (to_security_doc none_store) True = Inr f' \<and>
      element_readable (f' ''y'') bob ''Sales'' ''Region'' ''North'')"
  using none_rows_lost_by_saving [OF none_doc_loads, of "''Sales''" "''Region''" "''North''" bob "''x''" "''y''"]
  by (simp add: none_doc_def row_key_def bob_def flip: none_store_def)

end
