(* ===== verification/Session_Guard.thy ===== *)
theory Session_Guard
  imports Security_Store "HOL-Library.AList"
begin

text \<open>
  Sessions and the login lockout of the API (\<open>crates/epiphany-api/src/session.rs\<close> and
  \<open>login_guard.rs\<close>). Both keep a \<open>HashMap\<close>; times are \<open>u64\<close> milliseconds of an injected clock.
\<close>

section \<open>Sessions\<close>

record session =
  se_principal :: principal
  expires_at :: nat
  se_last_seen :: nat

record session_store =
  sessions :: "(string \<times> session) list"
  ttl_millis :: nat
  idle_millis :: "nat option"

definition session_store_new :: "nat \<Rightarrow> session_store" where
  "session_store_new ttl = \<lparr>sessions = [], ttl_millis = ttl, idle_millis = None\<rparr>"

definition with_idle_timeout :: "nat option \<Rightarrow> session_store \<Rightarrow> session_store" where
  "with_idle_timeout idle st =
     st\<lparr>idle_millis := (case idle of Some m \<Rightarrow> if m > 0 then Some m else None | None \<Rightarrow> None)\<rparr>"

text \<open>\<open>token\<close> is what \<open>new_token\<close> drew.\<close>

definition session_create :: "string \<Rightarrow> principal \<Rightarrow> nat \<Rightarrow> session_store \<Rightarrow> session_store" where
  "session_create token p now st =
     st\<lparr>sessions := AList.update token
          \<lparr>se_principal = p, expires_at = sat_u64 (now + ttl_millis st), se_last_seen = now\<rparr> (sessions st)\<rparr>"

text \<open>\<open>now.saturating_sub(last_seen)\<close> is the subtraction of \<open>nat\<close>.\<close>

definition session_lookup :: "string \<Rightarrow> nat \<Rightarrow> session_store \<Rightarrow> principal option \<times> session_store" where
  "session_lookup token now st =
     (let expired =
        (case map_of (sessions st) token of
           Some s \<Rightarrow>
             expires_at s \<le> now \<or>
             (case idle_millis st of Some idle \<Rightarrow> now - se_last_seen s > idle | None \<Rightarrow> False)
         | None \<Rightarrow> False)
      in if expired then (None, st\<lparr>sessions := AList.delete token (sessions st)\<rparr>)
         else
           (case map_of (sessions st) token of
              Some s \<Rightarrow>
                (Some (se_principal s),
                 st\<lparr>sessions := AList.update token (s\<lparr>se_last_seen := now\<rparr>) (sessions st)\<rparr>)
            | None \<Rightarrow> (None, st)))"

definition session_is_valid :: "string \<Rightarrow> nat \<Rightarrow> session_store \<Rightarrow> bool" where
  "session_is_valid token now st =
     (case map_of (sessions st) token of
        Some s \<Rightarrow>
          now < expires_at s \<and>
          (case idle_millis st of Some idle \<Rightarrow> now - se_last_seen s \<le> idle | None \<Rightarrow> True)
      | None \<Rightarrow> False)"

definition session_revoke :: "string \<Rightarrow> session_store \<Rightarrow> session_store" where
  "session_revoke token st = st\<lparr>sessions := AList.delete token (sessions st)\<rparr>"

definition session_retain :: "(string \<Rightarrow> session \<Rightarrow> bool) \<Rightarrow> session_store \<Rightarrow> nat \<times> session_store" where
  "session_retain P st =
     (let kept = filter (\<lambda>(tok, s). P tok s) (sessions st)
      in (length (sessions st) - length kept, st\<lparr>sessions := kept\<rparr>))"

definition revoke_user :: "string \<Rightarrow> session_store \<Rightarrow> nat \<times> session_store" where
  "revoke_user username = session_retain (\<lambda>_ s. pr_username (se_principal s) \<noteq> username)"

definition revoke_user_except :: "string \<Rightarrow> string \<Rightarrow> session_store \<Rightarrow> nat \<times> session_store" where
  "revoke_user_except username keep =
     session_retain (\<lambda>tok s. pr_username (se_principal s) \<noteq> username \<or> tok = keep)"

definition session_len :: "session_store \<Rightarrow> nat" where
  "session_len st = length (sessions st)"

definition session_is_empty :: "session_store \<Rightarrow> bool" where
  "session_is_empty st \<longleftrightarrow> sessions st = []"

section \<open>The login guard\<close>

record attempts =
  at_failures :: nat
  locked_until :: nat
  at_last_seen :: nat

record login_guard =
  lg_attempts :: "(string \<times> attempts) list"
  max_failures :: nat
  lockout_millis :: nat

definition login_guard_new :: "nat \<Rightarrow> nat \<Rightarrow> login_guard" where
  "login_guard_new n lockout = \<lparr>lg_attempts = [], max_failures = n, lockout_millis = lockout\<rparr>"

definition guard_disabled :: "login_guard \<Rightarrow> bool" where
  "guard_disabled g \<longleftrightarrow> max_failures g = 0 \<or> lockout_millis g = 0"

definition is_locked :: "login_guard \<Rightarrow> string \<Rightarrow> nat \<Rightarrow> bool" where
  "is_locked g username now \<longleftrightarrow>
     \<not> guard_disabled g \<and>
     (case map_of (lg_attempts g) username of Some a \<Rightarrow> now < locked_until a | None \<Rightarrow> False)"

definition guard_prune :: "nat \<Rightarrow> login_guard \<Rightarrow> login_guard" where
  "guard_prune now g =
     g\<lparr>lg_attempts := filter (\<lambda>(_, a). now < locked_until a \<or> now < sat_u64 (at_last_seen a + lockout_millis g))
        (lg_attempts g)\<rparr>"

definition record_failure :: "string \<Rightarrow> nat \<Rightarrow> login_guard \<Rightarrow> bool \<times> login_guard" where
  "record_failure username now g =
     (if guard_disabled g then (False, g)
      else
        let g = guard_prune now g;
            entry = (case map_of (lg_attempts g) username of
                       Some a \<Rightarrow> a
                     | None \<Rightarrow> \<lparr>at_failures = 0, locked_until = 0, at_last_seen = now\<rparr>);
            entry = (if locked_until entry \<noteq> 0 \<and> locked_until entry \<le> now
                     then entry\<lparr>at_failures := 0, locked_until := 0\<rparr> else entry);
            entry = entry\<lparr>at_failures := min (at_failures entry + 1) u32_max, at_last_seen := now\<rparr>
        in if max_failures g \<le> at_failures entry
           then (True, g\<lparr>lg_attempts := AList.update username
                   (entry\<lparr>locked_until := sat_u64 (now + lockout_millis g)\<rparr>) (lg_attempts g)\<rparr>)
           else (False, g\<lparr>lg_attempts := AList.update username entry (lg_attempts g)\<rparr>))"

definition record_success :: "string \<Rightarrow> login_guard \<Rightarrow> login_guard" where
  "record_success username g = g\<lparr>lg_attempts := AList.delete username (lg_attempts g)\<rparr>"

section \<open>Events on the session store\<close>

datatype session_event =
    LogIn principal string nat
  | Touch string nat
  | LogOut string
  | RevokeUser string
  | RevokeOthers string string

fun session_step :: "session_event \<Rightarrow> session_store \<Rightarrow> session_store" where
  "session_step (LogIn p tok t) st = session_create tok p t st"
| "session_step (Touch tok t) st = snd (session_lookup tok t st)"
| "session_step (LogOut tok) st = session_revoke tok st"
| "session_step (RevokeUser u) st = snd (revoke_user u st)"
| "session_step (RevokeOthers u keep) st = snd (revoke_user_except u keep st)"

definition session_run :: "session_event list \<Rightarrow> session_store \<Rightarrow> session_store" where
  "session_run es st = fold session_step es st"

lemma session_run_snoc: "session_run (es @ [e]) st = session_step e (session_run es st)"
  by (simp add: session_run_def)

text \<open>What takes the session of a principal under a token away, and when an event happens.\<close>

fun ends :: "string \<Rightarrow> principal \<Rightarrow> session_event \<Rightarrow> bool" where
  "ends tok p (LogIn q tok' t) = (tok' = tok)"
| "ends tok p (Touch tok' t) = False"
| "ends tok p (LogOut tok') = (tok' = tok)"
| "ends tok p (RevokeUser u) = (u = pr_username p)"
| "ends tok p (RevokeOthers u keep) = (u = pr_username p \<and> keep \<noteq> tok)"

fun happens_by :: "nat \<Rightarrow> session_event \<Rightarrow> bool" where
  "happens_by now (LogIn q tok t) = (t \<le> now)"
| "happens_by now (Touch tok t) = (t \<le> now)"
| "happens_by now _ = True"

definition logged_in :: "session_event list \<Rightarrow> string \<Rightarrow> principal \<Rightarrow> nat \<Rightarrow> bool" where
  "logged_in es tok p t \<longleftrightarrow> (\<exists>es1 es2. es = es1 @ LogIn p tok t # es2 \<and> \<not> list_ex (ends tok p) es2)"

definition used :: "session_event list \<Rightarrow> string \<Rightarrow> nat \<Rightarrow> bool" where
  "used es tok t \<longleftrightarrow> Touch tok t \<in> set es \<or> (\<exists>p. LogIn p tok t \<in> set es)"

lemma logged_in_snoc:
  "logged_in (es @ [e]) tok p t \<longleftrightarrow> e = LogIn p tok t \<or> logged_in es tok p t \<and> \<not> ends tok p e"
proof
  assume "logged_in (es @ [e]) tok p t"
  then obtain es1 es2 where d: "es @ [e] = es1 @ LogIn p tok t # es2" "\<not> list_ex (ends tok p) es2"
    by (auto simp: logged_in_def)
  show "e = LogIn p tok t \<or> logged_in es tok p t \<and> \<not> ends tok p e"
  proof (cases es2 rule: rev_cases)
    case Nil
    with d show ?thesis by simp
  next
    case (snoc es3 x)
    with d show ?thesis by (auto simp: logged_in_def)
  qed
next
  assume "e = LogIn p tok t \<or> logged_in es tok p t \<and> \<not> ends tok p e"
  then show "logged_in (es @ [e]) tok p t"
  proof
    assume "e = LogIn p tok t"
    then show ?thesis unfolding logged_in_def by (intro exI [of _ es] exI [of _ "[]"]) simp
  next
    assume "logged_in es tok p t \<and> \<not> ends tok p e"
    then obtain es1 es2 where "es = es1 @ LogIn p tok t # es2" "\<not> list_ex (ends tok p) es2" "\<not> ends tok p e"
      by (auto simp: logged_in_def)
    then show ?thesis unfolding logged_in_def by (intro exI [of _ es1] exI [of _ "es2 @ [e]"]) simp
  qed
qed

lemma session_distinct_step:
  "distinct (map fst (sessions st)) \<Longrightarrow> distinct (map fst (sessions (session_step e st)))"
  by (cases e) (auto simp: session_create_def session_lookup_def session_revoke_def revoke_user_def
      revoke_user_except_def session_retain_def Let_def distinct_update distinct_delete distinct_map_filter
      split: option.splits)

lemma map_of_filter_pairs:
  "distinct (map fst m) \<Longrightarrow>
     map_of (filter (\<lambda>(k, v). P k v) m) k = (case map_of m k of Some v \<Rightarrow> if P k v then Some v else None | None \<Rightarrow> None)"
proof (induction m)
  case (Cons kv m)
  obtain k' v where kv: "kv = (k', v)" by (cases kv)
  have "map_of m k' = None" using Cons.prems by (simp add: kv map_of_eq_None_iff)
  with Cons show ?case by (auto simp: kv split: option.splits)
qed simp

lemma session_static [simp]:
  "ttl_millis (session_step e st) = ttl_millis st" "idle_millis (session_step e st) = idle_millis st"
  by (cases e; simp add: session_create_def session_lookup_def session_revoke_def revoke_user_def
      revoke_user_except_def session_retain_def Let_def split: option.split)+

end
