(* ===== verification/Session_Properties.thy ===== *)
theory Session_Properties
  imports Session_Guard
begin

text \<open>
  When a session token is accepted, and how long a login lockout lasts.
\<close>

section \<open>The entry of a token\<close>

lemma session_idle: "idle_millis (session_run es st) = idle_millis st"
  by (induction es rule: rev_induct) (simp_all add: session_run_snoc session_run_def [of "[]"])

lemma session_step_entry:
  assumes "distinct (map fst (sessions st))" "map_of (sessions (session_step e st)) tok = Some s"
  shows "(\<exists>t. e = LogIn (se_principal s) tok t \<and> expires_at s = sat_u64 (t + ttl_millis st) \<and> se_last_seen s = t) \<or>
    (\<exists>s0. map_of (sessions st) tok = Some s0 \<and> \<not> ends tok (se_principal s0) e \<and>
      se_principal s = se_principal s0 \<and> expires_at s = expires_at s0 \<and>
      (se_last_seen s = se_last_seen s0 \<or> e = Touch tok (se_last_seen s)))"
  using assms
  by (cases e) (auto simp: session_create_def session_lookup_def session_revoke_def revoke_user_def
      revoke_user_except_def session_retain_def Let_def update_conv' delete_conv' map_of_filter_pairs
      split: option.splits if_splits)

lemma session_sound:
  assumes "sessions st = []" "map_of (sessions (session_run es st)) tok = Some s"
  shows "\<exists>t. logged_in es tok (se_principal s) t \<and> expires_at s = sat_u64 (t + ttl_millis st) \<and> used es tok (se_last_seen s)"
proof -
  have inv: "distinct (map fst (sessions (session_run es st))) \<and> ttl_millis (session_run es st) = ttl_millis st" for es
    by (induction es rule: rev_induct) (simp_all add: session_run_snoc session_distinct_step session_run_def [of "[]"] assms(1))
  show ?thesis using assms(2)
  proof (induction es arbitrary: s rule: rev_induct)
    case Nil
    then show ?case by (simp add: session_run_def assms(1))
  next
    case (snoc e es)
    from session_step_entry [OF conjunct1 [OF inv] snoc.prems [unfolded session_run_snoc]]
    consider (login) t where "e = LogIn (se_principal s) tok t"
        "expires_at s = sat_u64 (t + ttl_millis (session_run es st))" "se_last_seen s = t"
      | (kept) s0 where "map_of (sessions (session_run es st)) tok = Some s0" "\<not> ends tok (se_principal s0) e"
        "se_principal s = se_principal s0" "expires_at s = expires_at s0"
        "se_last_seen s = se_last_seen s0 \<or> e = Touch tok (se_last_seen s)"
      by blast
    then show ?case
    proof cases
      case login
      then show ?thesis using inv by (auto simp: logged_in_snoc used_def)
    next
      case kept
      then show ?thesis using snoc.IH [of s0] by (auto simp: logged_in_snoc used_def)
    qed
  qed
qed

text \<open>Every pause between one use of a session and the next is within the idle window; a window of zero
  is no window.\<close>

fun touch_times :: "string \<Rightarrow> session_event list \<Rightarrow> nat list" where
  "touch_times tok [] = []"
| "touch_times tok (Touch tok' t # es) = (if tok' = tok then t # touch_times tok es else touch_times tok es)"
| "touch_times tok (_ # es) = touch_times tok es"

definition never_idle :: "nat option \<Rightarrow> nat list \<Rightarrow> bool" where
  "never_idle idle uses \<longleftrightarrow>
     (case idle of Some m \<Rightarrow> m = 0 \<or> successively (\<lambda>earlier later. later - earlier \<le> m) uses | None \<Rightarrow> True)"

lemma touch_times_append [simp]: "touch_times tok (es @ fs) = touch_times tok es @ touch_times tok fs"
  by (induction tok es rule: touch_times.induct) simp_all

lemma never_idle_single [simp]: "never_idle idle [t]"
  by (simp add: never_idle_def split: option.split)

lemma never_idle_snoc [simp]:
  "us \<noteq> [] \<Longrightarrow> never_idle idle (us @ [t]) \<longleftrightarrow> never_idle idle us \<and> never_idle idle [last us, t]"
  by (auto simp: never_idle_def successively_append_iff split: option.splits)

text \<open>\<open>standing\<close>: the login under the token after which nothing ended the session and it was never idle
  for too long, with the time of its last use. It follows the entry of the token step by step.\<close>

definition standing :: "nat option \<Rightarrow> session_event list \<Rightarrow> string \<Rightarrow> principal \<Rightarrow> nat \<Rightarrow> nat \<Rightarrow> bool" where
  "standing idle es tok p t seen \<longleftrightarrow> (\<exists>es1 es2. es = es1 @ LogIn p tok t # es2 \<and> \<not> list_ex (ends tok p) es2 \<and>
     never_idle idle (t # touch_times tok es2) \<and> seen = last (t # touch_times tok es2))"

lemma standing_Nil: "\<not> standing idle [] tok p t seen"
  by (simp add: standing_def)

lemma standing_snoc:
  "standing idle (es @ [e]) tok p t seen \<longleftrightarrow>
     e = LogIn p tok t \<and> seen = t \<or>
     (\<exists>before. standing idle es tok p t before \<and> \<not> ends tok p e \<and>
        never_idle idle (before # touch_times tok [e]) \<and> seen = last (before # touch_times tok [e]))"
  (is "?new \<longleftrightarrow> ?login \<or> ?kept")
proof
  assume ?new
  then obtain es1 es2 where d: "es @ [e] = es1 @ LogIn p tok t # es2" "\<not> list_ex (ends tok p) es2"
    "never_idle idle (t # touch_times tok es2)" "seen = last (t # touch_times tok es2)"
    unfolding standing_def by blast
  show "?login \<or> ?kept"
  proof (cases es2 rule: rev_cases)
    case Nil
    with d show ?thesis by simp
  next
    case (snoc es3 x)
    have x: "x = e" "es = es1 @ LogIn p tok t # es3" "\<not> list_ex (ends tok p) es3" "\<not> ends tok p e"
      using d(1,2) by (simp_all add: snoc)
    have one: "touch_times tok [e] = [] \<or> (\<exists>u. touch_times tok [e] = [u])" by (cases e) simp_all
    then have "never_idle idle (t # touch_times tok es3) \<and>
        never_idle idle (last (t # touch_times tok es3) # touch_times tok [e]) \<and>
        seen = last (last (t # touch_times tok es3) # touch_times tok [e])"
      using d(3,4) never_idle_snoc [of "t # touch_times tok es3" idle] by (auto simp: snoc x(1) simp del: touch_times.simps)
    then have ?kept
      using x unfolding standing_def by (intro exI [of _ "last (t # touch_times tok es3)"]) blast
    then show ?thesis ..
  qed
next
  assume "?login \<or> ?kept"
  then show ?new
  proof
    assume ?login
    then show ?thesis unfolding standing_def by (intro exI [of _ es] exI [of _ "[]"]) simp
  next
    assume ?kept
    then obtain es1 es2 where d: "es = es1 @ LogIn p tok t # es2" "\<not> list_ex (ends tok p) es2" "\<not> ends tok p e"
      "never_idle idle (t # touch_times tok es2)"
      "never_idle idle (last (t # touch_times tok es2) # touch_times tok [e])"
      "seen = last (last (t # touch_times tok es2) # touch_times tok [e])"
      unfolding standing_def by blast
    have one: "touch_times tok [e] = [] \<or> (\<exists>u. touch_times tok [e] = [u])" by (cases e) simp_all
    then have "never_idle idle (t # touch_times tok (es2 @ [e])) \<and> seen = last (t # touch_times tok (es2 @ [e]))"
      using d(4-6) never_idle_snoc [of "t # touch_times tok es2" idle] by (auto simp del: touch_times.simps)
    then show ?thesis
      using d(1-3) unfolding standing_def by (intro exI [of _ es1] exI [of _ "es2 @ [e]"]) simp
  qed
qed

text \<open>The entry of a token that has not expired: its principal, its expiry and its last use.\<close>

definition entry :: "session_store \<Rightarrow> string \<Rightarrow> principal \<Rightarrow> nat \<Rightarrow> nat \<Rightarrow> bool" where
  "entry st tok p expiry seen \<longleftrightarrow>
     map_of (sessions st) tok = Some \<lparr>se_principal = p, expires_at = expiry, se_last_seen = seen\<rparr>"

lemma entry_step:
  assumes "distinct (map fst (sessions st))" and "happens_by now e" and "now < x"
    and idle: "idle_millis st = idle_millis (with_idle_timeout idle st)"
  shows "entry (session_step e st) tok p x seen \<longleftrightarrow>
    (\<exists>t. e = LogIn p tok t \<and> x = sat_u64 (t + ttl_millis st) \<and> seen = t) \<or>
    (\<exists>before. entry st tok p x before \<and> \<not> ends tok p e \<and>
       never_idle idle (before # touch_times tok [e]) \<and> seen = last (before # touch_times tok [e]))"
proof (cases e)
  case (LogIn q tok' t)
  then show ?thesis by (auto simp: entry_def session_create_def update_conv')
next
  case (Touch tok' t)
  show ?thesis
  proof (cases "tok' = tok \<and> map_of (sessions st) tok \<noteq> None")
    case False
    with Touch show ?thesis
      by (auto simp: entry_def session_lookup_def Let_def update_conv' delete_conv' split: option.splits)
  next
    case True
    then obtain s where s: "map_of (sessions st) tok = Some s" by auto
    obtain q y l where sr: "s = \<lparr>se_principal = q, expires_at = y, se_last_seen = l\<rparr>" by (cases s) blast
    have t: "t \<le> now" using assms(2) Touch by simp
    show ?thesis
    proof (cases idle)
      case None
      with idle have "idle_millis st = None" by (simp add: with_idle_timeout_def)
      with Touch True s sr t assms(3) None show ?thesis
        by (auto simp: entry_def session_lookup_def Let_def update_conv' delete_conv' never_idle_def)
    next
      case (Some m)
      show ?thesis
      proof (cases "m = 0")
        case True
        with idle Some have "idle_millis st = None" by (simp add: with_idle_timeout_def)
        with Touch \<open>tok' = tok \<and> _\<close> s sr t assms(3) Some True show ?thesis
          by (auto simp: entry_def session_lookup_def Let_def update_conv' delete_conv' never_idle_def)
      next
        case False
        with idle Some have "idle_millis st = Some m" by (simp add: with_idle_timeout_def)
        with Touch \<open>tok' = tok \<and> _\<close> s sr t assms(3) Some False show ?thesis
          by (auto simp: entry_def session_lookup_def Let_def update_conv' delete_conv' never_idle_def)
      qed
    qed
  qed
next
  case (LogOut tok')
  then show ?thesis by (auto simp: entry_def session_revoke_def delete_conv')
next
  case (RevokeUser u)
  then show ?thesis
    by (auto simp: entry_def revoke_user_def session_retain_def Let_def map_of_filter_pairs [OF assms(1)]
        simp del: map_of_eq_Some_iff split: option.splits)
next
  case (RevokeOthers u keep)
  then show ?thesis
    by (auto simp: entry_def revoke_user_except_def session_retain_def Let_def map_of_filter_pairs [OF assms(1)]
        simp del: map_of_eq_Some_iff split: option.splits)
qed

lemma entry_run:
  fixes ttl idle
  defines "st0 \<equiv> with_idle_timeout idle (session_store_new ttl)"
  assumes "list_all (happens_by now) es" and "now < x"
  shows "entry (session_run es st0) tok p x seen \<longleftrightarrow> (\<exists>t. x = sat_u64 (t + ttl) \<and> standing idle es tok p t seen)"
proof -
  have new: "sessions st0 = []" "ttl_millis st0 = ttl" "idle_millis st0 = idle_millis (with_idle_timeout idle st0)"
    by (simp_all add: st0_def with_idle_timeout_def session_store_new_def)
  have inv: "distinct (map fst (sessions (session_run es st0))) \<and> ttl_millis (session_run es st0) = ttl \<and>
      idle_millis (session_run es st0) = idle_millis (with_idle_timeout idle (session_run es st0))" for es
  proof (induction es rule: rev_induct)
    case Nil
    show ?case using new by (simp add: session_run_def)
  next
    case (snoc e es)
    then show ?case by (simp add: session_run_snoc session_distinct_step) (simp add: with_idle_timeout_def)
  qed
  show ?thesis using assms(2)
  proof (induction es arbitrary: seen rule: rev_induct)
    case Nil
    show ?case by (simp add: standing_Nil entry_def session_run_def new(1))
  next
    case (snoc e es)
    then have e: "happens_by now e" and IH: "\<And>seen. entry (session_run es st0) tok p x seen \<longleftrightarrow>
        (\<exists>t. x = sat_u64 (t + ttl) \<and> standing idle es tok p t seen)" by simp_all
    note step = entry_step [OF conjunct1 [OF inv] e assms(3) conjunct2 [OF conjunct2 [OF inv]], of es tok p seen]
    show ?case
      unfolding session_run_snoc step standing_snoc IH using inv [of es] by blast
  qed
qed

lemma lookup_valid:
  "fst (session_lookup tok now st) =
     (if session_is_valid tok now st then map_option se_principal (map_of (sessions st) tok) else None)"
  by (auto simp: session_lookup_def session_is_valid_def Let_def not_le split: option.splits)

text \<open>C35: A token resolves to a principal exactly when that principal logged in under it, nothing since
  then logged it out, replaced it or revoked it, its time to live has not run out, and the session was
  never idle for longer than the idle window: from the login through each use of the token to now, no
  pause exceeds it. Without a window, or with one of zero, only the time to live counts. The events are
  those of one store in the order they happened, none later than now.\<close>

theorem session_resolves_iff_logged_in:
  assumes "list_all (happens_by now) es"
  shows "fst (session_lookup tok now (session_run es (with_idle_timeout idle (session_store_new ttl)))) = Some p \<longleftrightarrow>
    (\<exists>es1 t es2. es = es1 @ LogIn p tok t # es2 \<and> \<not> list_ex (ends tok p) es2 \<and> now < sat_u64 (t + ttl) \<and>
       never_idle idle (t # touch_times tok es2 @ [now]))"
proof -
  let ?st = "session_run es (with_idle_timeout idle (session_store_new ttl))"
  have idle: "idle_millis ?st = (case idle of Some m \<Rightarrow> if m > 0 then Some m else None | None \<Rightarrow> None)"
    by (simp add: session_idle with_idle_timeout_def)
  have "fst (session_lookup tok now ?st) = Some p \<longleftrightarrow>
      (\<exists>x seen. now < x \<and> entry ?st tok p x seen \<and> never_idle idle [seen, now])"
  proof (cases "map_of (sessions ?st) tok")
    case None
    then show ?thesis by (simp add: lookup_valid entry_def)
  next
    case (Some s)
    obtain q y l where "s = \<lparr>se_principal = q, expires_at = y, se_last_seen = l\<rparr>" by (cases s) blast
    with Some idle show ?thesis
      by (auto simp: lookup_valid session_is_valid_def entry_def never_idle_def split: option.splits)
  qed
  also have "\<dots> \<longleftrightarrow> (\<exists>t seen. standing idle es tok p t seen \<and> now < sat_u64 (t + ttl) \<and> never_idle idle [seen, now])"
    by (simp add: entry_run [OF assms] cong: conj_cong) blast
  also have "\<dots> \<longleftrightarrow> (\<exists>es1 t es2. es = es1 @ LogIn p tok t # es2 \<and> \<not> list_ex (ends tok p) es2 \<and> now < sat_u64 (t + ttl) \<and>
       never_idle idle ((t # touch_times tok es2) @ [now]))"
    unfolding standing_def never_idle_snoc [OF list.distinct(2)] by blast
  finally show ?thesis by simp
qed

definition eve :: principal where
  "eve = \<lparr>pr_username = ''eve'', pr_is_admin = False, pr_groups = []\<rparr>"

text \<open>With a window of four, the session used at five still stands at seven, the one not used since two
  does not, and the one logged out does not.\<close>

theorem session_resolves_iff_logged_in_witness:
  "\<exists>st. st = session_run [LogIn eve ''a'' 1, LogIn eve ''b'' 2, LogIn eve ''c'' 4, Touch ''a'' 5, LogOut ''c'']
     (with_idle_timeout (Some 4) (session_store_new 10)) \<and>
   fst (session_lookup ''a'' 7 st) = Some eve \<and> fst (session_lookup ''b'' 7 st) \<noteq> Some eve \<and>
   fst (session_lookup ''c'' 7 st) \<noteq> Some eve"
proof -
  let ?es = "[LogIn eve ''a'' 1, LogIn eve ''b'' 2, LogIn eve ''c'' 4, Touch ''a'' 5, LogOut ''c'']"
  have by7: "list_all (happens_by 7) ?es" by simp
  note at = session_resolves_iff_logged_in [OF by7, of _ "Some 4" 10 eve]
  have "\<exists>es1 t es2. ?es = es1 @ LogIn eve ''a'' t # es2 \<and> \<not> list_ex (ends ''a'' eve) es2 \<and> 7 < sat_u64 (t + 10) \<and>
      never_idle (Some 4) (t # touch_times ''a'' es2 @ [7])"
    by (rule exI [of _ "[]"], rule exI [of _ 1], rule exI [of _ "tl ?es"])
       (simp add: never_idle_def sat_u64_def u64_max_def eve_def)
  moreover have "\<not> (\<exists>es1 t es2. ?es = es1 @ LogIn eve ''b'' t # es2 \<and> \<not> list_ex (ends ''b'' eve) es2 \<and>
      7 < sat_u64 (t + 10) \<and> never_idle (Some 4) (t # touch_times ''b'' es2 @ [7]))"
    by (auto simp: Cons_eq_append_conv never_idle_def)
  moreover have "\<not> (\<exists>es1 t es2. ?es = es1 @ LogIn eve ''c'' t # es2 \<and> \<not> list_ex (ends ''c'' eve) es2 \<and>
      7 < sat_u64 (t + 10) \<and> never_idle (Some 4) (t # touch_times ''c'' es2 @ [7]))"
    by (auto simp: Cons_eq_append_conv)
  ultimately show ?thesis using at [of "''a''"] at [of "''b''"] at [of "''c''"] by blast
qed

text \<open>Whatever the idle timeout, a session that is accepted belongs to a login under its token that
  nothing has ended, is younger than its time to live, and was used within the idle window.\<close>

theorem accepted_session_is_live:
  assumes "session_is_valid tok now (session_run es (with_idle_timeout idle (session_store_new ttl)))"
  shows "\<exists>p t seen. logged_in es tok p t \<and> now < sat_u64 (t + ttl) \<and> used es tok seen \<and>
    (case idle of Some m \<Rightarrow> m = 0 \<or> now - seen \<le> m | None \<Rightarrow> True)"
proof -
  let ?st = "with_idle_timeout idle (session_store_new ttl)"
  obtain s where s: "map_of (sessions (session_run es ?st)) tok = Some s" "now < expires_at s"
    "case idle_millis ?st of Some m \<Rightarrow> now - se_last_seen s \<le> m | None \<Rightarrow> True"
    using assms by (auto simp: session_is_valid_def session_idle split: option.splits)
  have "sessions ?st = []" "ttl_millis ?st = ttl" by (simp_all add: with_idle_timeout_def session_store_new_def)
  with session_sound [OF _ s(1)] s(2,3) show ?thesis
    by (intro exI [of _ "se_principal s"])
       (fastforce simp: with_idle_timeout_def split: option.splits if_splits)
qed

theorem accepted_session_is_live_witness:
  "\<exists>p t seen. logged_in [LogIn eve ''a'' 1, Touch ''a'' 5] ''a'' p t \<and> 7 < sat_u64 (t + 10) \<and>
    used [LogIn eve ''a'' 1, Touch ''a'' 5] ''a'' seen \<and> (4 = (0 :: nat) \<or> 7 - seen \<le> 4)"
proof -
  have "session_is_valid ''a'' 7
      (session_run [LogIn eve ''a'' 1, Touch ''a'' 5] (with_idle_timeout (Some 4) (session_store_new 10)))"
    by (simp add: session_run_def session_create_def session_lookup_def session_is_valid_def with_idle_timeout_def
      session_store_new_def sat_u64_def u64_max_def)
  from accepted_session_is_live [OF this] show ?thesis unfolding option.case .
qed

section \<open>Lockouts\<close>

datatype guard_event = Failed string nat | Succeeded string

fun guard_step :: "guard_event \<Rightarrow> login_guard \<Rightarrow> login_guard" where
  "guard_step (Failed u t) g = snd (record_failure u t g)"
| "guard_step (Succeeded u) g = record_success u g"

definition guard_run :: "guard_event list \<Rightarrow> login_guard \<Rightarrow> login_guard" where
  "guard_run es g = fold guard_step es g"

text \<open>An event that may happen to a user locked at \<open>t0\<close>, seen at \<open>now\<close>: no success of that user.\<close>

fun while_locked :: "string \<Rightarrow> nat \<Rightarrow> nat \<Rightarrow> guard_event \<Rightarrow> bool" where
  "while_locked u t0 now (Failed x t) = (t0 \<le> t \<and> t \<le> now)"
| "while_locked u t0 now (Succeeded x) = (x \<noteq> u)"

definition guard_ok :: "login_guard \<Rightarrow> bool" where
  "guard_ok g \<longleftrightarrow> distinct (map fst (lg_attempts g)) \<and> max_failures g \<le> u32_max"

lemma sat_u64_mono: "a \<le> b \<Longrightarrow> sat_u64 a \<le> sat_u64 b"
  by (simp add: sat_u64_def)

lemma guard_ok_prune: "guard_ok g \<Longrightarrow> guard_ok (guard_prune t g)"
  by (simp add: guard_ok_def guard_prune_def distinct_map_filter)

lemma guard_prune_entry:
  "guard_ok g \<Longrightarrow> map_of (lg_attempts (guard_prune t g)) u =
     (case map_of (lg_attempts g) u of
        Some a \<Rightarrow> if t < locked_until a \<or> t < sat_u64 (at_last_seen a + lockout_millis g) then Some a else None
      | None \<Rightarrow> None)"
  by (simp add: guard_ok_def guard_prune_def map_of_filter_pairs)

lemma guard_prune_static [simp]:
  "max_failures (guard_prune t g) = max_failures g" "lockout_millis (guard_prune t g) = lockout_millis g"
  by (simp_all add: guard_prune_def)

text \<open>\<open>locked_for\<close>: an entry with the count of a lockout, locked until \<open>b\<close> at least.\<close>

definition locked_for :: "login_guard \<Rightarrow> string \<Rightarrow> nat \<Rightarrow> bool" where
  "locked_for g u b \<longleftrightarrow> guard_ok g \<and> \<not> guard_disabled g \<and>
     (\<exists>a. map_of (lg_attempts g) u = Some a \<and> max_failures g \<le> at_failures a \<and> b \<le> locked_until a)"

lemma locking_failure:
  assumes "guard_ok g" "record_failure u t g = (True, g')"
  shows "locked_for g' u (sat_u64 (t + lockout_millis g)) \<and> lockout_millis g' = lockout_millis g"
  using assms guard_ok_prune [OF assms(1), of t]
  by (auto simp: record_failure_def locked_for_def guard_ok_def guard_disabled_def Let_def update_conv'
      distinct_update simp del: map_of_eq_Some_iff split: if_splits)

lemma guard_step_locked:
  assumes "locked_for g u b" "b \<le> sat_u64 (t0 + lockout_millis g)" "while_locked u t0 now e" "now < b"
  shows "locked_for (guard_step e g) u b \<and> lockout_millis (guard_step e g) = lockout_millis g"
proof (cases e)
  case (Succeeded x)
  with assms show ?thesis
    by (auto simp: locked_for_def record_success_def guard_ok_def guard_disabled_def distinct_delete delete_conv')
next
  case (Failed x t)
  obtain a where g: "guard_ok g" "\<not> guard_disabled g" and a: "map_of (lg_attempts g) u = Some a"
    "max_failures g \<le> at_failures a" "b \<le> locked_until a"
    using assms(1) by (auto simp: locked_for_def)
  have t: "t < locked_until a" "b \<le> sat_u64 (t + lockout_millis g)"
    using assms(2-4) a(3) Failed sat_u64_mono [of "t0 + lockout_millis g" "t + lockout_millis g"] by auto
  have p: "guard_ok (guard_prune t g)" "map_of (lg_attempts (guard_prune t g)) u = Some a"
    using guard_ok_prune [OF g(1)] t(1) a(1) by (simp_all add: guard_prune_entry [OF g(1)])
  have "max_failures g \<le> min (at_failures a + 1) u32_max"
    using a(2) g(1) by (simp add: guard_ok_def)
  with Failed g(2) p a t show ?thesis
    by (cases "x = u") (auto simp: record_failure_def locked_for_def guard_ok_def guard_disabled_def Let_def
        update_conv' distinct_update simp del: map_of_eq_Some_iff)
qed

lemma guard_run_locked:
  assumes "locked_for g u b" "b \<le> sat_u64 (t0 + lockout_millis g)" "list_all (while_locked u t0 now) es" "now < b"
  shows "locked_for (guard_run es g) u b"
  using assms
proof (induction es arbitrary: g)
  case (Cons e es)
  have "while_locked u t0 now e" using Cons.prems(3) by simp
  from guard_step_locked [OF Cons.prems(1,2) this Cons.prems(4)] Cons.IH [of "guard_step e g"] Cons.prems(2-4)
  show ?case by (simp add: guard_run_def)
qed (simp add: guard_run_def)

text \<open>C36: A failed login that locks a user keeps it locked until the lockout has run out, whatever logins
  fail or succeed meanwhile for whomever, as long as none succeeds for that user.\<close>

theorem lockout_lasts:
  assumes "guard_ok g" "record_failure u t0 g = (True, g')"
    "list_all (while_locked u t0 now) es" "now < sat_u64 (t0 + lockout_millis g)"
  shows "is_locked (guard_run es g') u now"
proof -
  have l: "locked_for g' u (sat_u64 (t0 + lockout_millis g))" "lockout_millis g' = lockout_millis g"
    using locking_failure [OF assms(1,2)] by blast+
  have "locked_for (guard_run es g') u (sat_u64 (t0 + lockout_millis g))"
    using guard_run_locked [OF l(1) _ assms(3,4)] by (simp add: l(2))
  with assms(4) show ?thesis by (auto simp: locked_for_def is_locked_def)
qed

theorem lockout_lasts_witness:
  "is_locked (guard_run [Failed ''eve'' 3, Failed ''ann'' 4, Succeeded ''eve'']
     (snd (record_failure ''ann'' 2 (login_guard_new 1 10)))) ''ann'' 8"
proof -
  have ok: "guard_ok (login_guard_new 1 10)" by (simp add: guard_ok_def login_guard_new_def u32_max_def)
  have f: "record_failure ''ann'' 2 (login_guard_new 1 10) =
      (True, snd (record_failure ''ann'' 2 (login_guard_new 1 10)))"
    by (simp add: record_failure_def login_guard_new_def guard_disabled_def Let_def u32_max_def)
  have "lockout_millis (login_guard_new 1 10) = 10" by (simp add: login_guard_new_def)
  then show ?thesis
    using lockout_lasts [OF ok f, of 8 "[Failed ''eve'' 3, Failed ''ann'' 4, Succeeded ''eve'']"]
    by (simp add: sat_u64_def u64_max_def)
qed

section \<open>Reaching a lockout\<close>

fun fail_all :: "string \<Rightarrow> nat list \<Rightarrow> login_guard \<Rightarrow> bool list" where
  "fail_all u [] g = []"
| "fail_all u (t # ts) g = (case record_failure u t g of (locks, g') \<Rightarrow> locks # fail_all u ts g')"

text \<open>Each time follows the one before by less than the lockout.\<close>

fun close_by :: "nat \<Rightarrow> nat \<Rightarrow> nat list \<Rightarrow> bool" where
  "close_by lockout p [] = True"
| "close_by lockout p (t # ts) = (p \<le> t \<and> t < sat_u64 (p + lockout) \<and> close_by lockout t ts)"

definition counted :: "login_guard \<Rightarrow> string \<Rightarrow> nat \<Rightarrow> nat \<Rightarrow> bool" where
  "counted g u k p \<longleftrightarrow> guard_ok g \<and> \<not> guard_disabled g \<and>
     map_of (lg_attempts g) u = Some \<lparr>at_failures = min k u32_max,
       locked_until = (if max_failures g \<le> k then sat_u64 (p + lockout_millis g) else 0), at_last_seen = p\<rparr>"

lemma first_failure:
  assumes "guard_ok g" "\<not> guard_disabled g" "map_of (lg_attempts g) u = None"
  shows "\<exists>g'. record_failure u t g = (max_failures g \<le> 1, g') \<and> counted g' u 1 t \<and>
    max_failures g' = max_failures g \<and> lockout_millis g' = lockout_millis g"
proof -
  have "guard_ok (guard_prune t g)" "map_of (lg_attempts (guard_prune t g)) u = None"
    using assms by (simp_all add: guard_ok_prune guard_prune_entry)
  with assms show ?thesis
    by (simp add: record_failure_def counted_def guard_ok_def guard_disabled_def Let_def update_conv'
        distinct_update u32_max_def)
qed

lemma next_failure:
  assumes "counted g u k p" "t < sat_u64 (p + lockout_millis g)"
  shows "\<exists>g'. record_failure u t g = (max_failures g \<le> Suc k, g') \<and> counted g' u (Suc k) t \<and>
    max_failures g' = max_failures g \<and> lockout_millis g' = lockout_millis g"
proof -
  let ?a = "\<lparr>at_failures = min k u32_max,
      locked_until = (if max_failures g \<le> k then sat_u64 (p + lockout_millis g) else 0), at_last_seen = p\<rparr>"
  have g: "guard_ok g" "\<not> guard_disabled g" "map_of (lg_attempts g) u = Some ?a"
    using assms(1) by (simp_all add: counted_def)
  have p: "guard_ok (guard_prune t g)" "map_of (lg_attempts (guard_prune t g)) u = Some ?a"
    using g assms(2) by (simp_all add: guard_ok_prune guard_prune_entry)
  have m: "min (Suc (min k u32_max)) u32_max = min (Suc k) u32_max"
    "max_failures g \<le> Suc (min k u32_max) \<longleftrightarrow> max_failures g \<le> Suc k"
    using g(1) by (auto simp: guard_ok_def)
  have "\<not> sat_u64 (p + lockout_millis g) \<le> t" using assms(2) by simp
  with g(1,2) p m show ?thesis
    by (cases "max_failures g \<le> k")
       (simp_all add: record_failure_def counted_def guard_ok_def guard_disabled_def Let_def update_conv' distinct_update
        del: map_of_eq_Some_iff)
qed

lemma fail_all_counted:
  assumes "counted g u k p" "close_by (lockout_millis g) p ts"
  shows "fail_all u ts g = map (\<lambda>i. max_failures g \<le> i) [Suc k..<Suc k + length ts]"
  using assms
proof (induction ts arbitrary: g k p)
  case (Cons t ts)
  obtain g' where g': "record_failure u t g = (max_failures g \<le> Suc k, g')" "counted g' u (Suc k) t"
    "max_failures g' = max_failures g" "lockout_millis g' = lockout_millis g"
    using next_failure [OF Cons.prems(1)] Cons.prems(2) by fastforce
  have "[Suc k..<Suc k + length (t # ts)] = Suc k # [Suc (Suc k)..<Suc (Suc k) + length ts]"
    by (subst upt_conv_Cons) simp_all
  with Cons.IH [OF g'(2)] Cons.prems(2) g' show ?case by simp
qed simp

text \<open>Of a user's failed logins, each less than a lockout after the one before, the first
  \<open>max_failures - 1\<close> do not lock the user and every later one does.\<close>

theorem lockout_after_max_failures:
  assumes "guard_ok g" "\<not> guard_disabled g" "map_of (lg_attempts g) u = None" "close_by (lockout_millis g) t ts"
  shows "fail_all u (t # ts) g = map (\<lambda>i. max_failures g \<le> i) [1..<length ts + 2]"
proof -
  obtain g' where g': "record_failure u t g = (max_failures g \<le> 1, g')" "counted g' u 1 t"
    "max_failures g' = max_failures g" "lockout_millis g' = lockout_millis g"
    using first_failure [OF assms(1-3)] by blast
  have "[1..<length ts + 2] = 1 # [Suc 1..<Suc 1 + length ts]"
    by (subst upt_conv_Cons) simp_all
  with fail_all_counted [OF g'(2), of ts] assms(4) g' show ?thesis by simp
qed

theorem lockout_after_max_failures_witness:
  "fail_all ''ann'' [1, 4, 9, 12] (login_guard_new 3 10) = [False, False, True, True]"
  using lockout_after_max_failures [of "login_guard_new 3 10" "''ann''" 1 "[4, 9, 12]"]
  by (simp add: guard_ok_def login_guard_new_def u32_max_def guard_disabled_def sat_u64_def u64_max_def upt_rec)

end
