(* ===== verification/Authz.thy ===== *)
theory Authz
  imports Security_Access Session_Guard Element_Mask
begin

text \<open>
  Authorization and authentication of requests (\<open>crates/epiphany-api/src/authz.rs\<close> and
  \<open>auth.rs\<close>): the gates over the security store, the deny mask they build for the calculation
  engine, and the handlers of login, logout and password change over the sessions and the login
  guard. A handler runs alone here; the locks it takes one after the other in the source let other
  requests in between.
\<close>

section \<open>State and answers\<close>

text \<open>The status and the message of an answer; \<open>Forbidden\<close> and the others name the status.\<close>

datatype api_status = BadRequest | Unauthorized | Forbidden | TooManyRequests | Internal

datatype api_error = ApiError api_status string

datatype audit_action =
    Login | Logout | AccessDenied | UserChange | GroupChange | ObjectCreate | ObjectUpdate | ObjectDelete
  | FlowExec | JobExec | SandboxCommit | SandboxDiscard | Checkpoint

record audit_record =
  au_at :: nat
  au_actor :: string
  au_action :: audit_action
  au_object :: "string \<times> string"
  au_allowed :: bool

text \<open>\<open>app_audit_works\<close> is false while appending to the audit log fails, which is ignored.\<close>

record app =
  app_security :: security
  app_world :: sec_world
  app_sessions :: session_store
  app_guard :: login_guard
  app_audit :: "audit_record list"
  app_audit_works :: bool

definition audit_ref :: "object_ref \<Rightarrow> string \<times> string" where
  "audit_ref obj =
     (kind_str (or_kind obj), case or_cube obj of Some c \<Rightarrow> c @ ''/'' @ or_name obj | None \<Rightarrow> or_name obj)"

definition audit_at :: "string \<Rightarrow> audit_action \<Rightarrow> object_ref option \<Rightarrow> bool \<Rightarrow> nat \<Rightarrow> app \<Rightarrow> app" where
  "audit_at actor action obj allowed now st =
     (if app_audit_works st
      then st\<lparr>app_audit := app_audit st @
             [\<lparr>au_at = now, au_actor = actor, au_action = action,
               au_object = (case obj of Some x \<Rightarrow> audit_ref x | None \<Rightarrow> ('''', '''')), au_allowed = allowed\<rparr>]\<rparr>
      else st)"

section \<open>Gates\<close>

text \<open>A gate passes, or denies with an audit record.\<close>

definition gate :: "bool \<Rightarrow> string \<Rightarrow> object_ref option \<Rightarrow> string \<Rightarrow> nat \<Rightarrow> app \<Rightarrow> (api_error + unit) \<times> app" where
  "gate ok username obj message now st =
     (if ok then (Inr (), st)
      else (Inl (ApiError Forbidden message), audit_at username AccessDenied obj False now st))"

definition is_admin :: "app \<Rightarrow> string \<Rightarrow> bool" where
  "is_admin st username =
     (case sec_principal (app_security st) username of Some p \<Rightarrow> pr_is_admin p | None \<Rightarrow> False)"

definition require_admin :: "string \<Rightarrow> nat \<Rightarrow> app \<Rightarrow> (api_error + unit) \<times> app" where
  "require_admin username now st =
     gate (is_admin st username) username None ''administrator access required'' now st"

definition cube_level :: "app \<Rightarrow> string \<Rightarrow> string \<Rightarrow> access_level" where
  "cube_level st username cube = cube_access (app_security st) username cube"

definition require_cube_access :: "string \<Rightarrow> string \<Rightarrow> access_level \<Rightarrow> nat \<Rightarrow> app \<Rightarrow> (api_error + unit) \<times> app" where
  "require_cube_access username cube needed now st =
     gate (needed \<le> cube_level st username cube) username (Some (ref_cube cube))
       ''you do not have access to this cube'' now st"

definition require_kind_access ::
  "string \<Rightarrow> object_kind \<Rightarrow> string option \<Rightarrow> access_level \<Rightarrow> nat \<Rightarrow> app \<Rightarrow> (api_error + unit) \<times> app" where
  "require_kind_access username kind cube needed now st =
     gate (needed \<le> (case sec_principal (app_security st) username of
                        Some p \<Rightarrow> effective (app_security st) p kind cube | None \<Rightarrow> NoAccess))
       username (Some (case cube of Some c \<Rightarrow> ref_in_cube kind c '''' | None \<Rightarrow> ref_global kind ''''))
       (''you do not have '' @ level_str needed @ '' access to '' @ kind_str kind @ '' objects here'') now st"

definition require_manage_cubes :: "string \<Rightarrow> nat \<Rightarrow> app \<Rightarrow> (api_error + unit) \<times> app" where
  "require_manage_cubes username now st =
     gate (case sec_principal (app_security st) username of
             Some p \<Rightarrow> can_manage_cubes (app_security st) p | None \<Rightarrow> False)
       username None ''cube management requires administrator or a global cube-admin grant'' now st"

definition caller_persona :: "app \<Rightarrow> string \<Rightarrow> string" where
  "caller_persona st username =
     (case sec_principal (app_security st) username of
        None \<Rightarrow> ''business''
      | Some p \<Rightarrow>
          if pr_is_admin p \<or> can_manage_cubes (app_security st) p then ''admin''
          else if list_ex (\<lambda>((_, kind), l). (kind = KDimension \<or> kind = KRule \<or> kind = KFlow) \<and>
                    WriteAccess \<le> level_for l (pr_username p) (pr_groups p)) (sec_grants (app_security st))
          then ''modeler'' else ''business'')"

section \<open>Element security\<close>

definition all_denied :: "cube \<Rightarrow> element_mask" where
  "all_denied c = (let counts = map dim_len (dims c) in from_denied counts (map (\<lambda>n. [0..<n]) counts))"

definition dim_denied :: "security \<Rightarrow> principal \<Rightarrow> string \<Rightarrow> dimension \<Rightarrow> nat list" where
  "dim_denied s p cube dim =
     sort (List.map_filter (\<lambda>(name, l).
       if level_for l (pr_username p) (pr_groups p) < ReadAccess then index_of dim name else None)
       (element_acls_for s cube (dim_name dim)))"

definition element_mask_for :: "security \<Rightarrow> string \<Rightarrow> cube \<Rightarrow> element_mask option" where
  "element_mask_for s username c =
     (case sec_principal s username of
        None \<Rightarrow> Some (all_denied c)
      | Some p \<Rightarrow>
          if pr_is_admin p then None
          else
            let denials = map (dim_denied s p (cube_name c)) (dims c)
            in if list_all (\<lambda>ds. ds = []) denials then None
               else Some (from_denied (map dim_len (dims c)) denials))"

definition denied_registry_elements :: "security \<Rightarrow> string \<Rightarrow> string \<Rightarrow> string list \<Rightarrow> string list \<Rightarrow> string set" where
  "denied_registry_elements s username dim referencing names =
     (case sec_principal s username of
        None \<Rightarrow> set names
      | Some p \<Rightarrow>
          if pr_is_admin p then {}
          else set (concat (map (\<lambda>cube. map fst (filter (\<lambda>(name, l).
                 level_for l (pr_username p) (pr_groups p) < ReadAccess \<and> List.member names name)
                 (element_acls_for s cube dim))) referencing)))"

text \<open>\<open>coord\<close> is a \<open>CoordMap\<close>: dimension names with element names.\<close>

definition require_element_write :: "string \<Rightarrow> string \<Rightarrow> (string, string) btree \<Rightarrow> nat \<Rightarrow> app \<Rightarrow> (api_error + unit) \<times> app" where
  "require_element_write username cube coord now st =
     gate (case sec_principal (app_security st) username of
             Some p \<Rightarrow> pr_is_admin p \<or>
               \<not> list_ex (\<lambda>(dim, element). \<not> element_writable (app_security st) p cube dim element) coord
           | None \<Rightarrow> False)
       username (Some (ref_cube cube)) ''you do not have access to this cell'' now st"

definition deny_if_element_restricted :: "string \<Rightarrow> cube \<Rightarrow> nat \<Rightarrow> app \<Rightarrow> (api_error + unit) \<times> app" where
  "deny_if_element_restricted username c now st =
     gate (element_mask_for (app_security st) username c = None) username (Some (ref_cube (cube_name c)))
       ''element-restricted users may not run model tests or diagnostics on this cube'' now st"

definition index_unwritable :: "security \<Rightarrow> principal \<Rightarrow> string \<Rightarrow> dimension \<Rightarrow> nat \<Rightarrow> bool" where
  "index_unwritable s p cube dim i =
     (case get_element dim i of
        Inr el \<Rightarrow> \<not> element_writable s p cube (dim_name dim) (el_name el)
      | Inl _ \<Rightarrow> True)"

text \<open>The coordinates come from the sandbox of the same model, so their length is the rank.\<close>

definition require_element_write_indices :: "string \<Rightarrow> string \<Rightarrow> cube \<Rightarrow> coord list \<Rightarrow> nat \<Rightarrow> app \<Rightarrow> (api_error + unit) \<times> app" where
  "require_element_write_indices username cube c coords now st =
     gate (case sec_principal (app_security st) username of
             Some p \<Rightarrow> pr_is_admin p \<or>
               \<not> list_ex (\<lambda>coord. list_ex (\<lambda>(d, i). index_unwritable (app_security st) p cube (dims c ! d) i)
                    (List.enumerate 0 coord)) coords
           | None \<Rightarrow> False)
       username (Some (ref_cube cube)) ''you do not have access to a cell staged in this sandbox'' now st"

section \<open>Handlers\<close>

definition MAX_CREDENTIAL_LEN :: nat where
  "MAX_CREDENTIAL_LEN = 256"

definition check_credential_bounds :: "string \<Rightarrow> string \<Rightarrow> api_error + unit" where
  "check_credential_bounds username password =
     (if length username > MAX_CREDENTIAL_LEN \<or> length password > MAX_CREDENTIAL_LEN
      then Inl (ApiError BadRequest ''credential too long'') else Inr ())"

definition MUST_CHANGE_ALLOWED :: "string list" where
  "MUST_CHANGE_ALLOWED = [''/api/v1/auth/password'', ''/api/v1/auth/logout'', ''/api/v1/auth/me'']"

text \<open>The extractor \<open>AuthPrincipal\<close>: the token of the request, if it has one, and its path.\<close>

definition auth_principal :: "string option \<Rightarrow> string \<Rightarrow> nat \<Rightarrow> app \<Rightarrow> (api_error + principal \<times> string) \<times> app" where
  "auth_principal token path now st =
     (case token of
        None \<Rightarrow> (Inl (ApiError Unauthorized ''missing session token''), st)
      | Some tok \<Rightarrow>
          (case session_lookup tok now (app_sessions st) of
             (None, ss) \<Rightarrow> (Inl (ApiError Unauthorized ''invalid or expired session''), st\<lparr>app_sessions := ss\<rparr>)
           | (Some p, ss) \<Rightarrow>
               (if \<not> List.member MUST_CHANGE_ALLOWED path \<and> must_change_password (app_security st) (pr_username p)
                then Inl (ApiError Forbidden ''password change required'') else Inr (p, tok),
                st\<lparr>app_sessions := ss\<rparr>)))"

record login_response =
  lr_token :: string
  lr_username :: string
  lr_is_admin :: bool
  lr_must_change :: bool

definition verified :: "sec_lib \<Rightarrow> app \<Rightarrow> string \<Rightarrow> string \<Rightarrow> bool" where
  "verified L st username password =
     verify_password L password
       (case password_hash_for (app_security st) username of Some phc \<Rightarrow> phc | None \<Rightarrow> '''')"

definition failed_attempt :: "audit_action \<Rightarrow> string \<Rightarrow> nat \<Rightarrow> app \<Rightarrow> app" where
  "failed_attempt action username now st =
     audit_at username action None False now
       (st\<lparr>app_guard := snd (record_failure username now (app_guard st))\<rparr>)"

text \<open>\<open>token\<close> is the token drawn when a session is created.\<close>

definition login :: "sec_lib \<Rightarrow> string \<Rightarrow> string \<Rightarrow> string \<Rightarrow> nat \<Rightarrow> app \<Rightarrow> (api_error + login_response) \<times> app" where
  "login L username password token now st =
     (case check_credential_bounds username password of
        Inl e \<Rightarrow> (Inl e, st)
      | Inr _ \<Rightarrow>
          if is_locked (app_guard st) username now
          then (Inl (ApiError TooManyRequests ''too many failed login attempts; try again later''),
                audit_at username Login None False now st)
          else if verified L st username password
          then (case sec_principal (app_security st) username of
                  Some p \<Rightarrow>
                    let st = st\<lparr>app_guard := record_success username (app_guard st)\<rparr>;
                        must_change = must_change_password (app_security st) (pr_username p);
                        st = st\<lparr>app_sessions := session_create token p now (app_sessions st)\<rparr>
                    in (Inr \<lparr>lr_token = token, lr_username = pr_username p, lr_is_admin = pr_is_admin p,
                              lr_must_change = must_change\<rparr>,
                        audit_at (pr_username p) Login None True now st)
                | None \<Rightarrow> (Inl (ApiError Unauthorized ''invalid credentials''), failed_attempt Login username now st))
          else (Inl (ApiError Unauthorized ''invalid credentials''), failed_attempt Login username now st))"

definition logout :: "principal \<Rightarrow> string \<Rightarrow> nat \<Rightarrow> app \<Rightarrow> app" where
  "logout p token now st =
     audit_at (pr_username p) Logout None True now (st\<lparr>app_sessions := session_revoke token (app_sessions st)\<rparr>)"

text \<open>\<open>me\<close>: the name, the flags and the persona of the caller.\<close>

definition me :: "principal \<Rightarrow> app \<Rightarrow> (string \<times> bool \<times> string list) \<times> bool \<times> string" where
  "me p st =
     ((pr_username p, pr_is_admin p, pr_groups p), must_change_password (app_security st) (pr_username p),
      caller_persona st (pr_username p))"

definition password_changed :: "principal \<Rightarrow> string \<Rightarrow> nat \<Rightarrow> app \<Rightarrow> app" where
  "password_changed p token now st =
     audit_at (pr_username p) UserChange None True now
       (st\<lparr>app_guard := record_success (pr_username p) (app_guard st),
           app_sessions := snd (revoke_user_except (pr_username p) token (app_sessions st))\<rparr>)"

text \<open>\<open>None\<close> is a crash of the process inside the save.\<close>

definition change_own_password ::
  "sec_lib \<Rightarrow> principal \<Rightarrow> string \<Rightarrow> string \<Rightarrow> string \<Rightarrow> nat \<Rightarrow> app \<Rightarrow> (api_error + unit) option \<times> app" where
  "change_own_password L p token current new now st =
     (let username = pr_username p in
      case check_credential_bounds username new of
        Inl e \<Rightarrow> (Some (Inl e), st)
      | Inr _ \<Rightarrow>
          if is_locked (app_guard st) username now
          then (Some (Inl (ApiError TooManyRequests ''too many failed attempts; try again later'')),
                audit_at username UserChange None False now st)
          else if \<not> verified L st username current
          then (Some (Inl (ApiError Unauthorized ''current password is incorrect'')),
                failed_attempt UserChange username now st)
          else
            (case change_password L username current new (app_security st) (app_world st) of
               (Answer _, s, w) \<Rightarrow>
                 (Some (Inr ()), password_changed p token now (st\<lparr>app_security := s, app_world := w\<rparr>))
             | (Refused IncorrectPassword, s, w) \<Rightarrow>
                 (Some (Inl (ApiError Unauthorized ''current password is incorrect'')),
                  failed_attempt UserChange username now (st\<lparr>app_security := s, app_world := w\<rparr>))
             | (Refused (WeakPassword why), s, w) \<Rightarrow>
                 (Some (Inl (ApiError BadRequest why)), st\<lparr>app_security := s, app_world := w\<rparr>)
             | (Refused _, s, w) \<Rightarrow>
                 (Some (Inl (ApiError Internal ''internal server error'')), st\<lparr>app_security := s, app_world := w\<rparr>)
             | (Crashed, s, w) \<Rightarrow> (None, st\<lparr>app_security := s, app_world := w\<rparr>)))"

end
