(* ===== verification/Authz_Properties.thy ===== *)
theory Authz_Properties
  imports Authz Calc_Properties Security_Properties Session_Properties
begin

text \<open>
  The deny mask against the element access lists, what it hides from a reader, and the handlers of
  login and password change against the stores they go through.
\<close>

section \<open>The deny mask\<close>

lemma in_dim_denied:
  assumes "sec_ok s" "dim_wf dim" "i < length (elements dim)"
  shows "i \<in> set (dim_denied s p cube dim) \<longleftrightarrow>
    (\<exists>l. map_of (sec_element_acls s) (cube, dim_name dim, el_name (elements dim ! i)) = Some l \<and>
      level_for l (pr_username p) (pr_groups p) < ReadAccess)"
proof -
  let ?E = "element_acls_for s cube (dim_name dim)"
  have ok: "bt_ok (sec_element_acls s)" using assms(1) by (simp add: sec_ok_def acls_ok_def)
  have "i \<in> set (dim_denied s p cube dim) \<longleftrightarrow>
      (\<exists>name l. (name, l) \<in> set ?E \<and> level_for l (pr_username p) (pr_groups p) < ReadAccess \<and> index_of dim name = Some i)"
    unfolding dim_denied_def set_sort map_filter_def by (force split: if_splits)
  also have "\<dots> \<longleftrightarrow> (\<exists>l. (el_name (elements dim ! i), l) \<in> set ?E \<and> level_for l (pr_username p) (pr_groups p) < ReadAccess)"
    using index_of_Some [OF assms(2)] assms(3) by metis
  also have "\<dots> \<longleftrightarrow> (\<exists>l. map_of ?E (el_name (elements dim ! i)) = Some l \<and> level_for l (pr_username p) (pr_groups p) < ReadAccess)"
    unfolding map_of_eq_Some_iff [OF bt_ok_distinct [OF element_acls_for_lookup(2) [OF ok]]] by (rule refl)
  finally show ?thesis unfolding element_acls_for_lookup(1) [OF ok] .
qed

lemma denied_unreadable:
  assumes "sec_ok s" "dim_wf dim" "i < length (elements dim)" "\<not> pr_is_admin p"
  shows "i \<in> set (dim_denied s p cube dim) \<longleftrightarrow> \<not> element_readable s p cube (dim_name dim) (el_name (elements dim ! i))"
  unfolding in_dim_denied [OF assms(1-3)]
  by (auto simp: element_readable_def element_access_def assms(4) not_le split: option.split)

lemma mask_denies_unreadable:
  assumes "sec_ok s" "cube_wf c" "d < length (dims c)" "i < length (elements (dims c ! d))"
  shows "(case element_mask_for s username c of Some mk \<Rightarrow> index_denied mk d i | None \<Rightarrow> False) \<longleftrightarrow>
    (case sec_principal s username of
       Some p \<Rightarrow> \<not> element_readable s p (cube_name c) (dim_name (dims c ! d)) (el_name (elements (dims c ! d) ! i))
     | None \<Rightarrow> True)"
proof -
  have wf: "dim_wf (dims c ! d)" using cube_wf_D(1) [OF assms(2)] assms(3) by (simp add: list_all_length)
  have len: "i < dim_len (dims c ! d)" using dim_wf_shape(4) [OF wf] assms(4) by simp
  show ?thesis
  proof (cases "sec_principal s username")
    case None
    then show ?thesis
      using assms(3) len by (simp add: element_mask_for_def all_denied_def Let_def index_denied_from_denied)
  next
    case (Some p)
    note iff = denied_unreadable [OF assms(1) wf assms(4), of p "cube_name c"]
    show ?thesis
    proof (cases "pr_is_admin p")
      case True
      then show ?thesis by (simp add: Some element_mask_for_def element_readable_def element_access_def)
    next
      case False
      let ?ds = "map (dim_denied s p (cube_name c)) (dims c)"
      have "list_all (\<lambda>x. x = []) ?ds \<Longrightarrow> i \<notin> set (dim_denied s p (cube_name c) (dims c ! d))"
        using assms(3) by (simp add: list_all_length)
      with iff False assms(3) len show ?thesis
        by (auto simp: Some element_mask_for_def Let_def index_denied_from_denied)
    qed
  qed
qed

text \<open>C37: The deny mask built for a user denies exactly the elements the user may not read, every element
  when the user is unknown.\<close>

theorem mask_denies_exactly_unreadable:
  assumes "sec_ok s" "cube_wf c" "d < length (dims c)" "i < length (elements (dims c ! d))"
  shows "(case element_mask_for s username c of Some mk \<Rightarrow> index_denied mk d i | None \<Rightarrow> False) \<longleftrightarrow>
    (case sec_principal s username of
       Some p \<Rightarrow> \<not> element_readable s p (cube_name c) (dim_name (dims c ! d)) (el_name (elements (dims c ! d) ! i))
     | None \<Rightarrow> True)"
  by (rule mask_denies_unreadable [OF assms])

text \<open>C38: What a user reads through the mask of the security store, values and errors, rollups and rules
  included, does not depend on any cell that names an element the user may not read.\<close>

theorem unreadable_cells_do_not_leak:
  assumes "sec_ok s" "cube_wf c" "cube_wf c'" "dims c' = dims c" "cube_name c' = cube_name c"
    "reg_cube (eng_registry eng) (eng_mask_target eng) = Some c"
    "eng_mask eng = element_mask_for s username c" "element_mask_for s username c \<noteq> None"
    "\<And>k p. in_range (dims c) k \<Longrightarrow> sec_principal s username = Some p \<Longrightarrow>
       (\<And>d. d < length k \<Longrightarrow> element_readable s p (cube_name c) (dim_name (dims c ! d)) (el_name (elements (dims c ! d) ! (k ! d)))) \<Longrightarrow>
       leaf_value c' k = leaf_value c k"
  shows "value_of (eng\<lparr>eng_registry := (eng_registry eng)
       \<lparr>reg_cube := (reg_cube (eng_registry eng))(eng_mask_target eng \<mapsto> c')\<rparr>\<rparr>) f n k m
     = value_of eng f n k m"
proof -
  obtain mk where mk: "element_mask_for s username c = Some mk" using assms(8) by blast
  show ?thesis
  proof (rule masked_read_hides_denied_cells [OF assms(6) _ assms(2-5)])
    show "eng_mask eng = Some mk" by (simp add: assms(7) mk)
    fix k assume k: "in_range (dims c) k" "\<not> denies_leaf mk k"
    have at: "d < length (dims c)" "k ! d < length (elements (dims c ! d))" if "d < length k" for d
      using k(1) that by (auto simp: in_range_def list_all2_conv_all_nth)
    have ne: "\<not> index_denied mk d (k ! d)" if "d < length k" for d
      using k(2) that by (auto simp: denies_leaf_iff)
    have "length k > 0" using k(1) cube_wf_D(6) [OF assms(2)] by (auto simp: in_range_def list_all2_conv_all_nth)
    with mask_denies_unreadable [OF assms(1,2) at(1) at(2), where username = username] ne mk obtain p where p: "sec_principal s username = Some p"
      by (fastforce split: option.splits)
    show "leaf_value c' k = leaf_value c k"
    proof (rule assms(9) [OF k(1) p])
      fix d assume d: "d < length k"
      from mask_denies_unreadable [OF assms(1,2) at(1) at(2), OF d d, where username = username] ne [OF d] mk p
      show "element_readable s p (cube_name c) (dim_name (dims c ! d)) (el_name (elements (dims c ! d) ! (k ! d)))"
        by simp
    qed
  qed
qed

section \<open>A concrete mask\<close>

definition guarded_store :: security where
  "guarded_store = sample_store
     \<lparr>sec_users := [(''admin'', sample_user True ''root''), (''ann'', sample_user False ''pw''), (''bob'', sample_user False ''b'')],
      sec_element_acls := [((cube_name sample_ledger, ''Region'', ''B''), sample_list)]\<rparr>"

lemma guarded_store_ok: "sec_ok guarded_store"
  using sample_list_ok by (auto simp: guarded_store_def sample_store_def sec_ok_def users_ok_def acls_ok_def sample_user_def
      split: if_splits)

lemma guarded_bob: "sec_principal guarded_store ''bob'' = Some bob"
  by (simp add: sec_principal_def guarded_store_def user_principal_def sample_user_def bob_def ns_names_def)

lemma guarded_readable:
  "element_readable guarded_store bob (cube_name sample_ledger) ''Region'' name \<longleftrightarrow> name \<noteq> ''B''"
  by (simp add: element_readable_def element_access_def bob_def guarded_store_def sample_list_def level_for_def)

lemma region_names:
  "dim_name sample_region = ''Region''" "el_name (elements sample_region ! 2) = ''B''"
  "i < 4 \<Longrightarrow> el_name (elements sample_region ! i) = ''B'' \<longleftrightarrow> i = 2" "length (elements sample_region) = 4"
  by (simp_all add: sample_region_eval less_Suc_eq eval_nat_numeral) auto

lemma ledger_dims: "cube_wf sample_ledger" "dims sample_ledger = [sample_region]"
  using sample_ledger_facts by simp_all

theorem mask_denies_exactly_unreadable_witness:
  "(case element_mask_for guarded_store ''bob'' sample_ledger of Some mk \<Rightarrow> index_denied mk 0 2 | None \<Rightarrow> False) \<and>
   \<not> (case element_mask_for guarded_store ''bob'' sample_ledger of Some mk \<Rightarrow> index_denied mk 0 1 | None \<Rightarrow> False)"
  using mask_denies_exactly_unreadable [OF guarded_store_ok ledger_dims(1), of 0 2 "''bob''"]
    mask_denies_exactly_unreadable [OF guarded_store_ok ledger_dims(1), of 0 1 "''bob''"]
  by (simp add: ledger_dims region_names guarded_bob guarded_readable)

theorem unreadable_cells_do_not_leak_witness:
  "\<exists>c'. leaf_value c' [2] = 990000 \<and> (\<forall>f m.
     value_of (with_mask (element_mask_for guarded_store ''bob'' sample_ledger) 0
       (engine_new (sample_registry\<lparr>reg_cube := [0 \<mapsto> c']\<rparr>))) f 0 [0] m
     = value_of (with_mask (element_mask_for guarded_store ''bob'' sample_ledger) 0 (engine_new sample_registry)) f 0 [0] m)"
proof -
  let ?mask = "element_mask_for guarded_store ''bob'' sample_ledger"
  let ?eng = "with_mask ?mask 0 (engine_new sample_registry)"
  obtain c' where c': "cube_wf c'" "dims c' = [sample_region]" "cube_name c' = cube_name sample_ledger"
    "\<And>j. in_range [sample_region] j \<Longrightarrow> leaf_value c' j = (if j = [2] then 990000 else leaf_value sample_ledger j)"
    using sample_changed [OF sample_i64(4), of 2] by auto
  have some: "?mask \<noteq> None"
    using mask_denies_unreadable [OF guarded_store_ok ledger_dims(1), of 0 2 "''bob''"]
    by (simp add: ledger_dims region_names guarded_bob guarded_readable split: option.splits)
  have same: "leaf_value c' k = leaf_value sample_ledger k"
    if "in_range (dims sample_ledger) k" "sec_principal guarded_store ''bob'' = Some p"
      "\<And>d. d < length k \<Longrightarrow> element_readable guarded_store p (cube_name sample_ledger) (dim_name (dims sample_ledger ! d))
         (el_name (elements (dims sample_ledger ! d) ! (k ! d)))" for k p
    using that(1) that(2) that(3) [of 0] c'(4) [of k]
    by (auto simp: ledger_dims region_names guarded_bob guarded_readable)
  have "value_of (?eng\<lparr>eng_registry := (eng_registry ?eng)
       \<lparr>reg_cube := (reg_cube (eng_registry ?eng))(eng_mask_target ?eng \<mapsto> c')\<rparr>\<rparr>) f 0 [0] m
     = value_of ?eng f 0 [0] m" for f m
    by (rule unreadable_cells_do_not_leak [OF guarded_store_ok ledger_dims(1) c'(1) _ c'(3) _ _ some same])
      (simp_all add: c'(2) ledger_dims(2) with_mask_def engine_new_def sample_registry_def)
  moreover have "leaf_value c' [2] = 990000" using c'(4) [of "[2]"] by simp
  ultimately show ?thesis
    by (intro exI [of _ c']) (simp add: with_mask_def engine_new_def sample_registry_def)
qed

section \<open>Handlers\<close>

lemma verified_authenticates:
  "authenticate (verify_password L) (app_security st) u pw =
     (if verified L st u pw then sec_principal (app_security st) u else None)"
  by (auto simp: authenticate_def verified_def password_hash_for_def sec_principal_def split: option.split)

lemma audit_keeps [simp]:
  "app_sessions (audit_at a b c d e st) = app_sessions st" "app_security (audit_at a b c d e st) = app_security st"
  "app_guard (audit_at a b c d e st) = app_guard st"
  "app_sessions (failed_attempt act u now st) = app_sessions st" "app_security (failed_attempt act u now st) = app_security st"
  "app_guard (failed_attempt act u now st) = snd (record_failure u now (app_guard st))"
  by (simp_all add: audit_at_def failed_attempt_def)

text \<open>C39: A login succeeds exactly for credentials of bounded length that authenticate while the user is not
  locked, and then its token stands for the authenticated principal and the failures are forgotten; a
  login that fails creates no session, and one refused for its credentials counts as a failure.\<close>

theorem login_agrees_with_authenticate:
  "case login L u pw token now st of
     (Inr r, st') \<Rightarrow>
       (\<exists>p. authenticate (verify_password L) (app_security st) u pw = Some p \<and>
          app_sessions st' = session_create token p now (app_sessions st) \<and> lr_token r = token \<and>
          lr_username r = pr_username p) \<and>
       \<not> is_locked (app_guard st) u now \<and> length u \<le> MAX_CREDENTIAL_LEN \<and> length pw \<le> MAX_CREDENTIAL_LEN \<and>
       app_guard st' = record_success u (app_guard st) \<and> app_security st' = app_security st
   | (Inl (ApiError status why), st') \<Rightarrow>
       app_sessions st' = app_sessions st \<and> app_security st' = app_security st \<and>
       (status = BadRequest \<and> (length u > MAX_CREDENTIAL_LEN \<or> length pw > MAX_CREDENTIAL_LEN) \<or>
        status = TooManyRequests \<and> is_locked (app_guard st) u now \<or>
        status = Unauthorized \<and> authenticate (verify_password L) (app_security st) u pw = None \<and>
          app_guard st' = snd (record_failure u now (app_guard st)))"
  by (auto simp: login_def check_credential_bounds_def verified_authenticates Let_def split: option.split)

text \<open>C40: After a change of one's own password the new password authenticates, and no other token than
  the one it was changed with stands for that user any more.\<close>

theorem password_change_ends_other_sessions:
  assumes "sec_ok (app_security st)" "distinct (map fst (sessions (app_sessions st)))"
    "\<And>fast n p h. kdf L fast n p = Inr h \<Longrightarrow> verify_password L p h"
    "change_own_password L p token current new now st = (Some (Inr ()), st')"
  shows "(\<exists>q. authenticate (verify_password L) (app_security st') (pr_username p) new = Some q) \<and>
    (tok = token \<or> (case fst (session_lookup tok later (app_sessions st')) of
                      Some q \<Rightarrow> pr_username q \<noteq> pr_username p | None \<Rightarrow> True))"
proof -
  let ?u = "pr_username p"
  obtain a s w where r: "change_password L ?u current new (app_security st) (app_world st) = (a, s, w)"
    by (metis prod_cases3)
  have a: "a = Answer () \<and> st' = password_changed p token now (st\<lparr>app_security := s, app_world := w\<rparr>)"
    using assms(4) by (cases a) (auto simp: change_own_password_def Let_def r split: sum.splits if_splits sec_error.splits)
  have run: "change_password L ?u current new (app_security st) (app_world st) = (Answer (), s, w)"
    and st': "st' = password_changed p token now (st\<lparr>app_security := s, app_world := w\<rparr>)"
    using a r by simp_all
  have op: "run_sec_op L (ChangePassword ?u current new) (app_security st) (app_world st) = (Answer Made, s, w)"
    by (simp add: run reply_def)
  obtain x h where "sp_users (abs_sec s) ?u = Some (x\<lparr>sp_hash := h, sp_must_change := False\<rparr>)"
    "kdf L (sec_fast_kdf (app_security st)) (draws (app_world st)) new = Inr h"
    using spec_change_password [OF answered_spec(2) [OF assms(1) op]] by blast
  then obtain y where y: "map_of (sec_users s) ?u = Some y" "abs_user y = x\<lparr>sp_hash := h, sp_must_change := False\<rparr>"
    "kdf L (sec_fast_kdf (app_security st)) (draws (app_world st)) new = Inr h"
    by (auto simp: sp_users_abs)
  have "us_password_hash y = h" using arg_cong [OF y(2), of sp_hash] by (simp add: abs_user_def)
  then have v: "verify_password L new (us_password_hash y)" using assms(3) [OF y(3)] by simp
  have "authenticate (verify_password L) (app_security st') ?u new = Some (user_principal ?u y)"
    by (simp add: st' password_changed_def authenticate_def y(1) v)
  moreover have "pr_username (se_principal e) \<noteq> ?u"
    if "map_of (sessions (app_sessions st')) tok = Some e" "tok \<noteq> token" for e
    using that assms(2) by (auto simp: st' password_changed_def revoke_user_except_def session_retain_def Let_def
        map_of_filter_pairs simp del: map_of_eq_Some_iff split: option.splits if_splits)
  ultimately show ?thesis by (auto simp: lookup_valid split: option.split)
qed

definition sample_app :: app where
  "sample_app =
     \<lparr>app_security = guarded_store, app_world = calm_world,
      app_sessions = session_run [LogIn bob ''a'' 1, LogIn bob ''b'' 2] (session_store_new 100),
      app_guard = login_guard_new 3 10, app_audit = [], app_audit_works = True\<rparr>"

definition changed_app :: "(api_error + unit) option \<times> app" where
  "changed_app = change_own_password sample_lib bob ''a'' ''b'' ''new'' 5 sample_app"

lemma changed_app_eval: "fst changed_app = Some (Inr ())"
  by (simp add: changed_app_def change_own_password_def Let_def sample_app_def check_credential_bounds_def MAX_CREDENTIAL_LEN_def
      is_locked_def login_guard_new_def verified_def password_hash_for_def guarded_store_def sample_store_def sample_user_def
      sample_lib_def bob_def change_password_def commit_def mutator_defs policy_check_def permissive_def chars_count_def
      byte_def sec_save_def)

theorem password_change_ends_other_sessions_witness:
  "fst changed_app = Some (Inr ()) \<and>
   (\<exists>q. authenticate (verify_password sample_lib) (app_security (snd changed_app)) ''bob'' ''new'' = Some q) \<and>
   (''b'' = ''a'' \<or> (case fst (session_lookup ''b'' 6 (app_sessions (snd changed_app))) of
      Some q \<Rightarrow> pr_username q \<noteq> ''bob'' | None \<Rightarrow> True))"
proof -
  have run: "change_own_password sample_lib bob ''a'' ''b'' ''new'' 5 sample_app = (Some (Inr ()), snd changed_app)"
    using changed_app_eval by (metis changed_app_def prod.collapse)
  have "sec_ok (app_security sample_app)" by (simp add: sample_app_def guarded_store_ok)
  moreover have "distinct (map fst (sessions (app_sessions sample_app)))"
    by (simp add: sample_app_def session_run_def session_create_def session_store_new_def)
  moreover have "verify_password sample_lib p h" if "kdf sample_lib fast n p = Inr h" for fast n p h
    using that by (simp add: sample_lib_def)
  moreover have name: "pr_username bob = ''bob''" by (simp add: bob_def)
  ultimately show ?thesis
    using password_change_ends_other_sessions [OF _ _ _ run, of "''b''" 6, unfolded name] changed_app_eval by blast
qed

end
