(* ===== verification/Spec2Isabelle.thy ===== *)
theory Spec2Isabelle
  imports Core_Properties Compile_Properties Feeder_Properties Wal_Properties Query_Properties Sandbox_Properties Store_Properties Security_Properties Session_Properties Authz_Properties
begin

text \<open>
  A verification development for Epiphany, a multidimensional planning server: cubes of numeric and
  string cells over hierarchical dimensions, rules that compute cells, views, what-if sandboxes, a
  durable store, and the users, grants and sessions that decide who may read and write what.

  \<^bold>\<open>Parts and how they interact.\<close> A dimension is a list of elements with weighted edges; a
  cube is a list of dimensions and two sparse stores of cells. A read of a consolidated coordinate
  sums the leaf cells below it. Rules compile to areas and formulas, and the rule engine reads a
  cube through them, a sandbox overlay and an element mask. A view is planned into a grid of
  coordinates that are read through the engine. A model owns a cube, its subsets, views, rules,
  tests and sandboxes; a store keeps one model in a directory as a snapshot and a write-ahead log.
  The security store holds users, groups, grants and element access lists; a request is a session
  token that stands for a user, gated by the grants, and reads the engine through the element mask
  built from the access lists.

  \<^bold>\<open>Theories and the code they model.\<close>
  \<^item> \<open>Prelude\<close>, \<open>Rust_String\<close>: sums as results, finite lookups, bytes and decimal
    text of the standard library.
  \<^item> \<open>Fixed_Value\<close>, \<open>Model_Error\<close>, \<open>Error_Text\<close>: \<open>epiphany-core/src/value.rs\<close>
    and \<open>error.rs\<close>. A \<open>Fixed\<close> is an \<open>int\<close> that stays in the range of \<open>i64\<close>; sums in
    \<open>i128\<close> wrap explicitly.
  \<^item> \<open>Dimension\<close> and \<open>Dimension_*\<close>: \<open>dimension.rs\<close>. The record \<open>dimension\<close> has the
    fields of the struct, hash maps as maps; \<open>dim_wf\<close> is the invariant every edit keeps.
  \<^item> \<open>Cell_Store\<close>, \<open>String_Pool\<close>, \<open>Cube\<close>, \<open>Cube_*\<close>, \<open>Consolidate\<close>:
    \<open>cube.rs\<close>. Coordinates are packed into 64 bits when they fit; \<open>cube_wf\<close> is the
    invariant, \<open>moved\<close> and \<open>renamed\<close> relate the cells before and after an edit.
  \<^item> \<open>Spread\<close>, \<open>Spread_Exact\<close>: \<open>spread.rs\<close>. \<open>Element_Mask\<close>: \<open>element_mask.rs\<close>.
  \<^item> \<open>Rule_Ast\<close>, \<open>Calc_Model\<close>, \<open>Calc_Eval\<close>, \<open>Calc_Memo\<close>, \<open>Calc_Total\<close>,
    \<open>Calc_Compile\<close>: \<open>epiphany-calc/src\<close> (\<open>rules/ast.rs\<close>, \<open>compiled.rs\<close>,
    \<open>eval.rs\<close>, \<open>compile.rs\<close>, \<open>registry.rs\<close>).
  \<^item> \<open>Feeders\<close>, \<open>Feeder_Facts\<close>, \<open>Feeder_Gate_Facts\<close>, \<open>Feeder_Sound\<close>:
    \<open>epiphany-calc/src/feeders.rs\<close> and \<open>PinnedRegistry\<close> of \<open>epiphany-api/src/calc_factory.rs\<close>:
    which leaves rules may make non-zero, and when a consolidation may read only those and the
    stored ones.
  \<^item> \<open>Btree_Map\<close>, \<open>Query\<close>, \<open>Query_View\<close>, \<open>Query_Grid\<close>, \<open>Query_Facts\<close>:
    subsets, views and their execution in \<open>epiphany-core/src/query.rs\<close>. A \<open>BTreeMap\<close> is
    its entries in key order.
  \<^item> \<open>Model_Sandbox\<close>, \<open>Sandbox_Facts\<close>, \<open>Sandbox_Properties\<close>: the sandboxes and the model
    edits of \<open>query.rs\<close>; \<open>model_step\<close> is the relation of everything that can change a model.
  \<^item> \<open>Model_Text\<close>, \<open>Dimension_Text\<close>, \<open>Model_Text_Facts\<close>, \<open>Model_Text_Model\<close>: the
    snapshot documents of \<open>text.rs\<close>. The TOML printer and parser are parameters.
  \<^item> \<open>Wal\<close>: \<open>epiphany-persist/src/wal.rs\<close>, byte by byte with its CRC.
  \<^item> \<open>Store\<close>, \<open>Store_Replay\<close>, \<open>Store_Growth\<close>, \<open>Store_Recovery\<close>, \<open>Store_Crash\<close>,
    \<open>Store_Ops\<close>, \<open>Store_Runs\<close>, \<open>Store_Progress\<close>: \<open>store.rs\<close>
    over an explicit disk. A script decides for each filesystem call whether it is done, fails or is
    cut by the end of the process.
  \<^item> \<open>Acl\<close>, \<open>Security_Store\<close>, \<open>Security_Text\<close>, \<open>Security_Ops\<close>:
    \<open>epiphany-security/src\<close> (\<open>acl.rs\<close>, \<open>password.rs\<close>, \<open>store.rs\<close>). An operation is a
    mutator run by \<open>commit\<close>, which saves the artifact and undoes the mutation when either fails.
    \<open>Security_Spec\<close> states the operations on partial functions and sets; \<open>Security_Maps\<close>,
    \<open>Security_Text_Facts\<close>, \<open>Security_Access\<close>, \<open>Security_Reach\<close> hold the lemmas.
  \<^item> \<open>Session_Guard\<close>: \<open>epiphany-api/src/session.rs\<close> and \<open>login_guard.rs\<close>.
    \<open>Authz\<close>: \<open>authz.rs\<close> and \<open>auth.rs\<close>, the gates and handlers over all of these.
  \<^item> The theories \<open>*_Properties\<close> hold the properties with their witnesses; \<open>Store_Sample\<close> is
    a concrete directory for them.

  \<^bold>\<open>What the lemmas show.\<close> The dimension and cube theories show that every operation keeps
  its invariant and what it does to every cell; \<open>Consolidate\<close> that a consolidated read is the
  weighted sum modulo \<open>2 ^ 128\<close> (exact or an overflow whenever the sum fits in 128 bits); the
  spreading theories that written shares add up, unless proportional shares of values of both signs
  wrap; the rule theories that
  the memoised evaluator terminates and computes the plain meaning of the rules, and what mask and
  overlay do; the feeder theories that inference, run until a round adds nothing, misses no
  leaf it can analyse as long as no rule reads an overridden coordinate without leaves (\<open>overridden_gap\<close>), and that the engine with licensed sparse reads and the dense engine compute the
  same values, by a simulation in both directions; the query theories that each cell of a view is read at the coordinate its labels
  name, in any number of workers; the sandbox theories that overrides follow their members and
  always commit. The store theories build a small crash logic: \<open>ensures P f Q E\<close> says that from
  \<open>P\<close> the action returns in \<open>Q\<close> or ends in the crash condition \<open>E\<close>; \<open>refines\<close> ties an
  operation to the change of the model it promises; the locale \<open>recoverable\<close> turns that
  contract into the statement about runs, and is interpreted on the store. One crash condition is a
  defect of the scan: when the write in flight has bytes that contain an intact frame and the log ends
  inside it, opening refuses the directory (\<open>mistaken\<close>, the parameter \<open>lost\<close> of the locale). A
  restore of a model is modelled but not atomic (\<open>interrupted_restore\<close>), nor is a store that goes on
  after a failed checkpoint safe (\<open>failed_header_write\<close>). The security theories
  show that every operation meets its abstract equation or is undone, that runs with failures and
  crashes keep an administrator, that no grant of a deleted user ever comes back by itself, what access
  a principal has, and that its document reads back; the session theories when a token is accepted,
  with the idle window of the server, and how long a lockout lasts; the authorization
  theories that the mask denies exactly what the access lists forbid, so that the rule engine
  reveals none of it.

  \<^bold>\<open>Interfaces.\<close> \<open>keyed_store\<close> (lookup after update) is met by the packed and the wide cell
  store and by \<open>BTreeMap\<close>; \<open>index_edit\<close> (an edit that renames indices) by reorder, delete and
  insert; \<open>recoverable\<close> by the operations of the durable store.

  \<^bold>\<open>Bounds and fuel.\<close> The loops recurse on lists or on measures (bytes left of a log,
  unvisited elements of a dimension). The rounds of feeder inference end because each adds
  one of finitely many target leaves. Only the evaluation of rules (\<open>value_of\<close>, \<open>meaning\<close>, and
  the validation of feeders that runs it) takes fuel, which bounds the depth of nested reads; \<open>Calc_Total\<close> bounds the cells a read can ask
  for, so enough fuel always gives a result, and more fuel the same. Sizes are bounded where the code casts:
  at most \<open>u32_max\<close> elements, attributes and pooled strings; \<open>cap\<close> in \<open>fits\<close> is the number
  of records a log may hold so that replaying it leaves the string pool below that bound.

  \<^bold>\<open>Not modelled.\<close> Hash iteration order (no modelled result depends on it), the temporary file of
  a snapshot, reordering of unsynced writes by the operating system, memory exhaustion, and the
  texts of some errors. MDX, flows and their interpreter, connectors, the decoding and encoding of
  HTTP requests, the interleaving of requests between the locks one handler takes, the server shell and the web client are not modelled; they are listed with their reasons in the
  manifest. Code outside the repository (TOML, hashing, SQL drivers) is a parameter or left out.
\<close>

end
